(* ===== verification/Chats_Prelude.thy ===== *)
theory Chats_Prelude
  imports Main
begin

text \<open>
  Shared vocabulary of the development: identifiers and time stamps, Python values as they sit in
  JSON columns, exceptions as values, a state-and-exception reading of Python statements
  (\<open>py\<close>), and the list facts the components share.

  \<^item> \<^bold>\<open>Time.\<close> A \<open>datetime\<close> is an \<open>int\<close> of microseconds; \<open>trunc_seconds\<close> is
    \<open>int(delta.total_seconds())\<close>, which rounds towards zero.
  \<^item> \<^bold>\<open>Statements.\<close> \<open>('s, 'a) py\<close> takes a state and gives a result or an exception together
    with the state at that point: a raised exception does not undo what was written before it.
    \<open>bnd\<close> is sequencing, \<open>try_except\<close> a handler for every exception, \<open>for_each\<close> a loop
    over a list.
  \<^item> \<^bold>\<open>Locale \<open>step_order\<close>.\<close> A reflexive and transitive relation between states; a statement
    \<open>keeps\<close> it when every run leads to a related state. The rules proved in the locale follow the
    structure of statements, so a component only proves its primitive steps.
\<close>

section \<open>Names and values\<close>

type_synonym uuid = string
type_synonym email = string
type_synonym timestamp = int

definition micros :: "int \<Rightarrow> int" where
  "micros seconds = seconds * 1000000"

definition trunc_seconds :: "int \<Rightarrow> int" where
  "trunc_seconds d = (if 0 \<le> d then d div 1000000 else - ((- d) div 1000000))"

datatype json =
    JNull
  | JBool bool
  | JInt int
  | JStr string
  | JList "json list"
  | JObj "(string \<times> json) list"

text \<open>Truth value of a Python object read from JSON.\<close>

fun truthy :: "json \<Rightarrow> bool" where
  "truthy JNull = False"
| "truthy (JBool b) = b"
| "truthy (JInt n) = (n \<noteq> 0)"
| "truthy (JStr s) = (s \<noteq> [])"
| "truthy (JList xs) = (xs \<noteq> [])"
| "truthy (JObj kvs) = (kvs \<noteq> [])"

text \<open>\<open>d.get(key, default)\<close> on a JSON object.\<close>

definition obj_get :: "(string \<times> json) list \<Rightarrow> string \<Rightarrow> json \<Rightarrow> json" where
  "obj_get kvs k d = (case map_of kvs k of Some v \<Rightarrow> v | None \<Rightarrow> d)"

text \<open>\<open>json.dumps\<close> with its default separators and \<open>ensure_ascii\<close>.\<close>

function digits :: "nat \<Rightarrow> string" where
  "digits n = (if n < 10 then [char_of (48 + n)] else digits (n div 10) @ [char_of (48 + n mod 10)])"
  by pat_completeness auto
termination
  by (relation "measure id") auto

declare digits.simps [simp del]

definition show_int :: "int \<Rightarrow> string" where
  "show_int i = (if i < 0 then CHR ''-'' # digits (nat (- i)) else digits (nat i))"

definition hex_digit :: "nat \<Rightarrow> char" where
  "hex_digit n = ''0123456789abcdef'' ! (n mod 16)"

definition escape_char :: "char \<Rightarrow> string" where
  "escape_char c = (let n = (of_char c :: nat); bs = CHR 0x5C in
     if n = 34 then [bs, CHR 0x22]
     else if n = 92 then [bs, bs]
     else if n = 10 then [bs, CHR ''n'']
     else if n = 13 then [bs, CHR ''r'']
     else if n = 9 then [bs, CHR ''t'']
     else if n = 8 then [bs, CHR ''b'']
     else if n = 12 then [bs, CHR ''f'']
     else if n < 32 \<or> 127 \<le> n
     then [bs, CHR ''u'', CHR ''0'', CHR ''0'', hex_digit (n div 16), hex_digit n]
     else [c])"

definition quoted :: "string \<Rightarrow> string" where
  "quoted s = CHR 0x22 # concat (map escape_char s) @ [CHR 0x22]"

fun joined :: "string \<Rightarrow> string list \<Rightarrow> string" where
  "joined sep [] = []"
| "joined sep [x] = x"
| "joined sep (x # y # ys) = x @ sep @ joined sep (y # ys)"

fun json_dumps :: "json \<Rightarrow> string" where
  "json_dumps JNull = ''null''"
| "json_dumps (JBool b) = (if b then ''true'' else ''false'')"
| "json_dumps (JInt i) = show_int i"
| "json_dumps (JStr s) = quoted s"
| "json_dumps (JList xs) = ''['' @ joined '', '' (map json_dumps xs) @ '']''"
| "json_dumps (JObj kvs) = ''{'' @ joined '', ''
     (map (\<lambda>(k, v). quoted k @ '': '' @ json_dumps v) kvs) @ ''}''"

text \<open>\<open>str.strip()\<close>.\<close>

definition is_space :: "char \<Rightarrow> bool" where
  "is_space c \<longleftrightarrow> (let n = (of_char c :: nat) in 9 \<le> n \<and> n \<le> 13 \<or> 28 \<le> n \<and> n \<le> 32 \<or> n = 133 \<or> n = 160)"

definition strip :: "string \<Rightarrow> string" where
  "strip s = rev (dropWhile is_space (rev (dropWhile is_space s)))"

section \<open>Exceptions and statements\<close>

datatype exn =
    ValidationError string
  | PermissionDenied string
  | ValueError string
  | RuntimeError string
  | AttributeError
  | TypeError
  | ParserError
  | DoesNotExist string
  | MultipleObjectsReturned
  | IntegrityError string
  | ExternalError string
  | APIException string
  | MessageCreateError string
  | WorkerLost

type_synonym ('s, 'a) py = "'s \<Rightarrow> (exn + 'a) \<times> 's"

definition ret :: "'a \<Rightarrow> ('s, 'a) py" where
  "ret x s = (Inr x, s)"

definition raise :: "exn \<Rightarrow> ('s, 'a) py" where
  "raise e s = (Inl e, s)"

definition bnd :: "('s, 'a) py \<Rightarrow> ('a \<Rightarrow> ('s, 'b) py) \<Rightarrow> ('s, 'b) py" where
  "bnd m f s = (case m s of (Inl e, s') \<Rightarrow> (Inl e, s') | (Inr x, s') \<Rightarrow> f x s')"

definition andthen :: "('s, 'a) py \<Rightarrow> ('s, 'b) py \<Rightarrow> ('s, 'b) py" where
  "andthen m k = bnd m (\<lambda>_. k)"

definition gets :: "('s \<Rightarrow> 'a) \<Rightarrow> ('s, 'a) py" where
  "gets f s = (Inr (f s), s)"

definition modify :: "('s \<Rightarrow> 's) \<Rightarrow> ('s, unit) py" where
  "modify f s = (Inr (), f s)"

definition try_except :: "('s, 'a) py \<Rightarrow> (exn \<Rightarrow> ('s, 'a) py) \<Rightarrow> ('s, 'a) py" where
  "try_except m h s = (case m s of (Inl e, s') \<Rightarrow> h e s' | (Inr x, s') \<Rightarrow> (Inr x, s'))"

definition lift_result :: "exn + 'a \<Rightarrow> ('s, 'a) py" where
  "lift_result r s = (r, s)"

definition when_true :: "bool \<Rightarrow> ('s, unit) py \<Rightarrow> ('s, unit) py" where
  "when_true b m = (if b then m else ret ())"

fun for_each :: "('a \<Rightarrow> ('s, unit) py) \<Rightarrow> 'a list \<Rightarrow> ('s, unit) py" where
  "for_each f [] = ret ()"
| "for_each f (x # xs) = andthen (f x) (for_each f xs)"

fun sequence :: "('s, unit) py list \<Rightarrow> ('s, unit) py" where
  "sequence [] = ret ()"
| "sequence (m # ms) = andthen m (sequence ms)"

text \<open>An accumulator threaded through a loop, for loops that collect a result object.\<close>

fun fold_each :: "('a \<Rightarrow> 'b \<Rightarrow> ('s, 'b) py) \<Rightarrow> 'a list \<Rightarrow> 'b \<Rightarrow> ('s, 'b) py" where
  "fold_each f [] acc = ret acc"
| "fold_each f (x # xs) acc = bnd (f x acc) (fold_each f xs)"

lemmas py_defs = ret_def raise_def bnd_def andthen_def gets_def modify_def try_except_def
  lift_result_def when_true_def

lemma bnd_ret [simp]: "bnd (ret x) f = f x"
  by (rule ext) (simp add: py_defs)

lemma andthen_ret [simp]: "andthen (ret x) m = m"
  by (simp add: andthen_def)

lemma bnd_raise [simp]: "bnd (raise e) f = raise e"
  by (rule ext) (simp add: py_defs)

lemma bnd_assoc: "bnd (bnd m f) g = bnd m (\<lambda>x. bnd (f x) g)"
  by (rule ext) (simp add: py_defs split: prod.splits sum.splits)

lemma run_Inr:
  "m s = (Inr x, t) \<Longrightarrow> bnd m f s = f x t"
  "m s = (Inr x, t) \<Longrightarrow> andthen m k s = k t"
  by (simp_all add: py_defs)

lemma run_Inl:
  "m s = (Inl e, t) \<Longrightarrow> bnd m f s = (Inl e, t)"
  "m s = (Inl e, t) \<Longrightarrow> andthen m k s = (Inl e, t)"
  by (simp_all add: py_defs)

lemma bnd_InrE:
  assumes "bnd m f s = (Inr y, t)"
  obtains x s' where "m s = (Inr x, s')" and "f x s' = (Inr y, t)"
  using assms by (auto simp: bnd_def split: prod.splits sum.splits)

lemma andthen_InrE:
  assumes "andthen m k s = (Inr y, t)"
  obtains x s' where "m s = (Inr x, s')" and "k s' = (Inr y, t)"
  using assms unfolding andthen_def by (elim bnd_InrE)

lemma run_gets: "bnd (gets g) f s = f (g s) s"
  by (simp add: py_defs)

lemma run_modify: "andthen (modify f) m s = m (f s)"
  by (simp add: py_defs)

lemma run_lift:
  "bnd (lift_result (Inr x)) f s = f x s" "bnd (lift_result (Inl e)) f s = (Inl e, s)"
  by (simp_all add: py_defs)

lemma when_true_simps [simp]: "when_true True m = m" "when_true False m = ret ()"
  by (simp_all add: when_true_def)

lemma for_each_append: "for_each f (xs @ ys) = andthen (for_each f xs) (for_each f ys)"
  by (induction xs) (simp_all add: andthen_def bnd_assoc)

section \<open>Relations every statement keeps\<close>

definition keeps :: "('s \<Rightarrow> 's \<Rightarrow> bool) \<Rightarrow> ('s, 'a) py \<Rightarrow> bool" where
  "keeps R m \<longleftrightarrow> (\<forall>s. R s (snd (m s)))"

named_theorems keeps_rules "rules that follow the structure of a statement"

lemma keepsD: "keeps R m \<Longrightarrow> m s = (r, t) \<Longrightarrow> R s t"
  unfolding keeps_def by (metis snd_conv)

lemma keepsI: "(\<And>s. R s (snd (m s))) \<Longrightarrow> keeps R m"
  by (simp add: keeps_def)

lemma keeps_mono: "keeps R m \<Longrightarrow> (\<And>s t. R s t \<Longrightarrow> Q s t) \<Longrightarrow> keeps Q m"
  by (simp add: keeps_def)

locale step_order =
  fixes R :: "'s \<Rightarrow> 's \<Rightarrow> bool"
  assumes R_refl: "R s s"
    and R_trans: "R s t \<Longrightarrow> R t u \<Longrightarrow> R s u"
begin

lemma keeps_ret: "keeps R (ret x)"
  by (simp add: keeps_def ret_def R_refl)

lemma keeps_raise: "keeps R (raise e)"
  by (simp add: keeps_def raise_def R_refl)

lemma keeps_gets: "keeps R (gets f)"
  by (simp add: keeps_def gets_def R_refl)

lemma keeps_lift: "keeps R (lift_result r)"
  by (simp add: keeps_def lift_result_def R_refl)

lemma keeps_modify: "(\<And>s. R s (f s)) \<Longrightarrow> keeps R (modify f)"
  by (simp add: keeps_def modify_def)

lemma keeps_bnd:
  assumes "keeps R m" and "\<And>x. keeps R (f x)"
  shows "keeps R (bnd m f)"
  using assms unfolding keeps_def bnd_def
  by (auto split: prod.splits sum.splits) (metis R_trans snd_conv)+

lemma keeps_andthen: "keeps R m \<Longrightarrow> keeps R k \<Longrightarrow> keeps R (andthen m k)"
  by (simp add: andthen_def keeps_bnd)

lemma keeps_try:
  assumes "keeps R m" and "\<And>e. keeps R (h e)"
  shows "keeps R (try_except m h)"
  using assms unfolding keeps_def try_except_def
  by (auto split: prod.splits sum.splits) (metis R_trans snd_conv)+

lemma keeps_when: "keeps R m \<Longrightarrow> keeps R (when_true b m)"
  by (simp add: when_true_def keeps_ret)

lemma keeps_for: "(\<And>x. keeps R (f x)) \<Longrightarrow> keeps R (for_each f xs)"
  by (induction xs) (auto intro: keeps_ret keeps_andthen)

lemma keeps_sequence: "(\<And>m. m \<in> set ms \<Longrightarrow> keeps R m) \<Longrightarrow> keeps R (sequence ms)"
  by (induction ms) (auto intro: keeps_ret keeps_andthen)

lemma keeps_fold: "(\<And>x acc. keeps R (f x acc)) \<Longrightarrow> keeps R (fold_each f xs acc)"
  by (induction xs arbitrary: acc) (auto intro: keeps_ret keeps_bnd)

lemma keeps_if: "(b \<Longrightarrow> keeps R m) \<Longrightarrow> (\<not> b \<Longrightarrow> keeps R k) \<Longrightarrow> keeps R (if b then m else k)"
  by simp

lemma keeps_option:
  "keeps R m \<Longrightarrow> (\<And>x. keeps R (f x)) \<Longrightarrow> keeps R (case v of None \<Rightarrow> m | Some x \<Rightarrow> f x)"
  by (cases v) auto

lemmas keeps_structure = keeps_ret keeps_raise keeps_gets keeps_lift keeps_bnd keeps_andthen
  keeps_try keeps_when keeps_for keeps_sequence keeps_fold keeps_if keeps_option

end

section \<open>Lists\<close>

text \<open>The slices \<open>xs[i:i+n]\<close> for \<open>i in range(0, len(xs), n)\<close>.\<close>

function batches :: "nat \<Rightarrow> 'a list \<Rightarrow> 'a list list" where
  "batches n xs = (if xs = [] \<or> n = 0 then [] else take n xs # batches n (drop n xs))"
  by pat_completeness auto
termination
  by (relation "measure (\<lambda>(n, xs). length xs)") auto

declare batches.simps [simp del]

lemma concat_batches: "0 < n \<Longrightarrow> concat (batches n xs) = xs"
proof (induction n xs rule: batches.induct)
  case (1 n xs)
  then show ?case by (cases "xs = []") (simp_all add: batches.simps [of n xs] batches.simps [of n "[]"])
qed

lemma batches_length: "b \<in> set (batches n xs) \<Longrightarrow> 0 < length b \<and> length b \<le> n"
proof (induction n xs rule: batches.induct)
  case (1 n xs)
  then show ?case by (auto simp: batches.simps [of n xs] split: if_splits)
qed

text \<open>\<open>qs.filter(...).update(...)\<close>.\<close>

definition update_where :: "('a \<Rightarrow> bool) \<Rightarrow> ('a \<Rightarrow> 'a) \<Rightarrow> 'a list \<Rightarrow> 'a list" where
  "update_where p f xs = map (\<lambda>x. if p x then f x else x) xs"

lemma update_where_Nil [simp]: "update_where p f [] = []"
  by (simp add: update_where_def)

lemma update_where_Cons [simp]:
  "update_where p f (x # xs) = (if p x then f x else x) # update_where p f xs"
  by (simp add: update_where_def)

lemma set_update_where: "set (update_where p f xs) = (\<lambda>x. if p x then f x else x) ` set xs"
  by (simp add: update_where_def)

lemma length_update_where [simp]: "length (update_where p f xs) = length xs"
  by (simp add: update_where_def)

lemma map_update_where: "(\<And>x. g (f x) = g x) \<Longrightarrow> map g (update_where p f xs) = map g xs"
  by (induction xs) auto

lemma find_update_where:
  "(\<And>x. q (f x) = q x) \<Longrightarrow>
   find q (update_where p f xs) = map_option (\<lambda>x. if p x then f x else x) (find q xs)"
  by (induction xs) auto

lemma find_key_update:
  "(\<And>r. key (f r) = key r) \<Longrightarrow>
   find (\<lambda>r. key r = x) (update_where (\<lambda>r. key r = k) f xs) =
     (if x = k then map_option f (find (\<lambda>r. key r = x) xs) else find (\<lambda>r. key r = x) xs)"
  by (induction xs) auto

lemma find_distinct_key:
  "distinct (map key xs) \<Longrightarrow> x \<in> set xs \<Longrightarrow> find (\<lambda>y. key y = key x) xs = Some x"
  by (induction xs) force+

lemma find_append: "find p (xs @ ys) = (case find p xs of None \<Rightarrow> find p ys | Some x \<Rightarrow> Some x)"
  by (induction xs) auto

lemma find_in_set: "find p xs = Some x \<Longrightarrow> x \<in> set xs \<and> p x"
  by (induction xs) (auto split: if_splits)

lemma find_Some_iff_filter: "find p xs = Some x \<longleftrightarrow> (\<exists>ys. filter p xs = x # ys)"
  by (induction xs) auto

lemma find_None_filter: "find p xs = None \<longleftrightarrow> filter p xs = []"
  by (induction xs) auto

lemma filter_head: "filter p xs = y # ys \<Longrightarrow> y \<in> set xs \<and> p y"
  by (auto simp: filter_eq_Cons_iff)

definition count_where :: "('a \<Rightarrow> bool) \<Rightarrow> 'a list \<Rightarrow> nat" where
  "count_where p xs = length (filter p xs)"

lemma count_where_simps [simp]:
  "count_where p [] = 0"
  "count_where p (x # xs) = (if p x then Suc (count_where p xs) else count_where p xs)"
  by (simp_all add: count_where_def)

end
