(* ===== verification/Chats_Data.thy ===== *)
theory Chats_Data
  imports Chats_Prelude
begin

text \<open>
  The data model shared by the room, queue, status and bulk components: one record per Django
  model, in the order of its fields, and \<open>world\<close>, the tables of the database with the trace
  \<open>effects\<close> of what left the process (WebSocket groups, Celery tasks, HTTP calls).

  A table is a list of rows; the order of the list is the order in which an unordered queryset
  returns them, so a statement about every \<open>world\<close> is a statement about every such order. A
  foreign key is the key of the row it names. The soft-delete managers of
  \<open>chats/core/managers.py\<close> and the apps are the \<open>live_*\<close> tables.

  \<open>env\<close> is what an operation finds around it: the clock, the feature flags (\<open>None\<close> when their
  evaluation raises), the choice of \<open>random.choice\<close>, whether an outgoing call succeeds, the
  settings, the names and keys of the users, the texts of exceptions, and the ticketer Flows holds for
  a project and a sector.
\<close>

section \<open>Rows\<close>

record project =
  prj_uuid :: uuid
  prj_name :: string
  prj_timezone :: string
  prj_flows_authorization :: "string option"
  prj_date_format :: string
  prj_is_template :: bool
  prj_template_type :: "uuid option"
  prj_org :: "string option"
  prj_room_routing_type :: "string option"
  prj_is_chats_summary_enabled :: bool
  prj_config :: "(string \<times> json) list option"

record permission =
  prm_uuid :: uuid
  prm_project :: uuid
  prm_user :: "email option"
  prm_role :: nat
  prm_status :: string
  prm_first_access :: bool
  prm_last_seen :: "timestamp option"
  prm_custom_rooms_limit :: "nat option"
  prm_is_custom_limit_active :: bool
  prm_is_deleted :: bool

record sector =
  sec_uuid :: uuid
  sec_name :: string
  sec_project :: uuid
  sec_secondary_project :: "(string \<times> json) list option"
  sec_rooms_limit :: nat
  sec_work_start :: "int option"
  sec_work_end :: "int option"
  sec_can_trigger_flows :: bool
  sec_sign_messages :: bool
  sec_is_deleted :: bool
  sec_open_offline :: bool
  sec_can_edit_custom_fields :: bool
  sec_working_day :: "(string \<times> json) list option"
  sec_automatic_message_text :: "string option"
  sec_is_automatic_message_active :: bool
  sec_automatic_message_queue_text :: "string option"
  sec_is_automatic_message_queue_active :: bool
  sec_is_csat_enabled :: bool
  sec_custom_csat_flow_uuid :: "uuid option"
  sec_required_tags :: bool
  sec_inactivity_timeout :: "(string \<times> json) list option"
  sec_config :: "(string \<times> json) list option"

record queue =
  que_uuid :: uuid
  que_sector :: uuid
  que_name :: string
  que_default_message :: "string option"
  que_queue_purpose :: "string option"
  que_queue_limit :: "nat option"
  que_is_queue_limit_active :: bool
  que_is_deleted :: bool
  que_config :: "(string \<times> json) list option"

record queue_authorization =
  qau_queue :: uuid
  qau_role :: nat
  qau_permission :: uuid
  qau_is_deleted :: bool

record sector_authorization =
  sau_permission :: uuid
  sau_sector :: uuid
  sau_role :: nat
  sau_is_deleted :: bool

record group_sector =
  gse_uuid :: uuid
  gse_name :: string
  gse_project :: uuid
  gse_rooms_limit :: nat
  gse_is_deleted :: bool

record room =
  rm_uuid :: uuid
  rm_created_on :: timestamp
  rm_user :: "email option"
  rm_contact :: "uuid option"
  rm_queue :: "uuid option"
  rm_custom_fields :: "json option"
  rm_urn :: string
  rm_project_uuid :: string
  rm_ticket_uuid :: "uuid option"
  rm_callback_url :: "string option"
  rm_ended_at :: "timestamp option"
  rm_ended_by :: "string option"
  rm_closed_by :: "email option"
  rm_is_active :: bool
  rm_is_waiting :: bool
  rm_transfer_history :: "json option"
  rm_full_transfer_history :: "json list option"
  rm_tags :: "uuid list"
  rm_protocol :: string
  rm_service_chat :: string
  rm_first_user_assigned_at :: "timestamp option"
  rm_user_assigned_at :: "timestamp option"
  rm_added_to_queue_at :: "timestamp option"
  rm_unread_messages_count :: int
  rm_last_unread_message_at :: "timestamp option"
  rm_last_interaction :: "timestamp option"
  rm_last_message :: "nat option"
  rm_last_message_text :: "string option"
  rm_last_message_user :: "email option"
  rm_last_message_contact :: "uuid option"
  rm_last_message_media :: "(string \<times> string) list"
  rm_automatic_message_sent_at :: "timestamp option"
  rm_is_inactive :: bool
  rm_automatic_closed :: bool
  rm_config :: "(string \<times> json) list option"

record room_pin =
  pin_room :: uuid
  pin_user :: email
  pin_created_on :: timestamp
  pin_project :: uuid

record room_note =
  note_room :: uuid
  note_user :: email
  note_text :: string
  note_is_deletable :: bool
  note_message :: "nat option"

record room_metrics =
  met_room :: uuid
  met_waiting_time :: int
  met_queued_count :: int
  met_message_response_time :: int
  met_first_response_time :: "int option"
  met_interaction_time :: int
  met_transfer_count :: int

datatype automatic_type = AUTOMATIC_OPEN | INACTIVE_WARNING | INACTIVE_CLOSE

record message =
  msg_id :: nat
  msg_created_on :: timestamp
  msg_room :: uuid
  msg_user :: "email option"
  msg_contact :: "uuid option"
  msg_text :: string
  msg_seen :: bool
  msg_automatic :: "automatic_type option"
  msg_medias :: "(string \<times> string) list"

record custom_status_type =
  cst_uuid :: nat
  cst_name :: string
  cst_project :: uuid
  cst_is_deleted :: bool
  cst_config :: "(string \<times> json) list option"

record custom_status =
  cus_id :: nat
  cus_created_on :: timestamp
  cus_user :: "email option"
  cus_status_type :: nat
  cus_is_active :: bool
  cus_break_time :: int
  cus_project :: "uuid option"

record contact =
  con_uuid :: uuid
  con_external_id :: "string option"
  con_document :: "string option"
  con_columns :: "(string \<times> json) list"

record link_contact =
  lin_contact :: uuid
  lin_project :: uuid
  lin_user :: "email option"

text \<open>A flow start with the external ids of its \<open>ContactGroupFlowReference\<close> rows.\<close>

record flow_start =
  flo_id :: uuid
  flo_created_on :: timestamp
  flo_flow :: "string option"
  flo_project :: uuid
  flo_permission :: "uuid option"
  flo_room :: "uuid option"
  flo_is_deleted :: bool
  flo_references :: "string list"

section \<open>The database and what leaves it\<close>

datatype effect =
    Ws_Notify string string string
  | Ws_Lost string string
  | Http_Post string string
  | Enqueued string "string list"
  | Flows_Call string "string list"
  | Sentry string
  | Mail string "email list"

record world =
  projects :: "project list"
  permissions :: "permission list"
  sectors :: "sector list"
  queues :: "queue list"
  queue_auths :: "queue_authorization list"
  sector_auths :: "sector_authorization list"
  group_sectors :: "group_sector list"
  group_members :: "(uuid \<times> uuid) list"
  rooms :: "room list"
  pins :: "room_pin list"
  room_notes :: "room_note list"
  metrics :: "room_metrics list"
  messages :: "message list"
  status_types :: "custom_status_type list"
  statuses :: "custom_status list"
  contacts :: "contact list"
  link_contacts :: "link_contact list"
  flow_starts :: "flow_start list"
  next_id :: nat
  effects :: "effect list"

record env =
  env_now :: timestamp
  flag_attr :: "string \<Rightarrow> uuid \<Rightarrow> bool option"
  flag_user :: "string \<Rightarrow> uuid \<Rightarrow> bool option"
  random_index :: "email list \<Rightarrow> nat"
  ws_ok :: "string \<Rightarrow> string \<Rightarrow> nat \<Rightarrow> bool"
  task_ok :: "string \<Rightarrow> string list \<Rightarrow> bool"
  http_status :: "string \<Rightarrow> nat \<Rightarrow> nat option"
  flows_ok :: "string \<Rightarrow> string list \<Rightarrow> bool"
  day_of :: "timestamp \<Rightarrow> int"
  set_ws_retries :: nat
  set_max_retries :: nat
  set_max_room_pins :: nat
  set_batch_size :: nat
  set_use_celery :: bool
  set_use_weni_flows :: bool
  set_activate_calc_metrics :: bool
  set_last_seen_threshold :: int
  set_max_warnings :: nat
  set_max_closures :: nat
  user_first_name :: "email \<Rightarrow> string"
  user_pk :: "email \<Rightarrow> nat"
  exn_text :: "exn \<Rightarrow> string"
  ticketer_of :: "uuid \<Rightarrow> uuid \<Rightarrow> uuid option"

text \<open>\<open>transaction.atomic()\<close>: an exception undoes the writes to the tables, but not what has left.\<close>

definition rollback :: "world \<Rightarrow> world \<Rightarrow> world" where
  "rollback before after = before\<lparr>effects := effects after\<rparr>"

definition atomic :: "(world, 'a) py \<Rightarrow> (world, 'a) py" where
  "atomic m s = (case m s of
     (Inl e, s') \<Rightarrow> (Inl e, rollback s s')
   | (Inr x, s') \<Rightarrow> (Inr x, s'))"

definition emit :: "effect \<Rightarrow> (world, unit) py" where
  "emit e = modify (\<lambda>w. w\<lparr>effects := effects w @ [e]\<rparr>)"

text \<open>\<open>task.delay(...)\<close>: raises when the broker refuses the task.\<close>

definition delay :: "env \<Rightarrow> string \<Rightarrow> string list \<Rightarrow> (world, unit) py" where
  "delay env name args =
     (if task_ok env name args then emit (Enqueued name args) else raise (ExternalError name))"

text \<open>\<open>send_channels_group\<close>: retries, then reports the loss; it never raises.\<close>

fun send_channels_group :: "env \<Rightarrow> string \<Rightarrow> string \<Rightarrow> string \<Rightarrow> nat \<Rightarrow> (world, unit) py" where
  "send_channels_group env group_name call_type action retry =
     (if ws_ok env group_name action retry then emit (Ws_Notify group_name call_type action)
      else case retry of
        Suc n \<Rightarrow> send_channels_group env group_name call_type action n
      | 0 \<Rightarrow> emit (Ws_Lost group_name action))"

declare send_channels_group.simps [simp del]

section \<open>Managers and lookups\<close>

abbreviation live_queues :: "world \<Rightarrow> queue list" where
  "live_queues w \<equiv> filter (\<lambda>q. \<not> que_is_deleted q) (queues w)"

abbreviation live_permissions :: "world \<Rightarrow> permission list" where
  "live_permissions w \<equiv> filter (\<lambda>p. \<not> prm_is_deleted p \<and> prm_user p \<noteq> None) (permissions w)"

definition find_permission_pk :: "world \<Rightarrow> uuid \<Rightarrow> permission option" where
  "find_permission_pk w k = find (\<lambda>p. prm_uuid p = k) (permissions w)"

definition permission_row_deleted :: "world \<Rightarrow> uuid \<Rightarrow> bool" where
  "permission_row_deleted w k =
     (case find_permission_pk w k of None \<Rightarrow> True | Some p \<Rightarrow> prm_is_deleted p)"

definition live_queue_auths :: "world \<Rightarrow> queue_authorization list" where
  "live_queue_auths w = filter
     (\<lambda>a. \<not> qau_is_deleted a \<and> \<not> permission_row_deleted w (qau_permission a)) (queue_auths w)"

definition live_sector_auths :: "world \<Rightarrow> sector_authorization list" where
  "live_sector_auths w = filter
     (\<lambda>a. \<not> sau_is_deleted a \<and> \<not> permission_row_deleted w (sau_permission a)) (sector_auths w)"

definition find_project :: "world \<Rightarrow> uuid \<Rightarrow> project option" where
  "find_project w k = find (\<lambda>p. prj_uuid p = k) (projects w)"

definition find_sector :: "world \<Rightarrow> uuid \<Rightarrow> sector option" where
  "find_sector w k = find (\<lambda>s. sec_uuid s = k) (sectors w)"

definition find_queue :: "world \<Rightarrow> uuid \<Rightarrow> queue option" where
  "find_queue w k = find (\<lambda>q. que_uuid q = k) (queues w)"

definition find_room :: "world \<Rightarrow> uuid \<Rightarrow> room option" where
  "find_room w k = find (\<lambda>r. rm_uuid r = k) (rooms w)"

text \<open>\<open>room.queue\<close>, \<open>queue.sector\<close>, \<open>room.queue.sector\<close>, \<open>...project\<close>.\<close>

definition queue_of :: "world \<Rightarrow> room \<Rightarrow> queue option" where
  "queue_of w r = Option.bind (rm_queue r) (find_queue w)"

definition sector_of_queue :: "world \<Rightarrow> queue \<Rightarrow> sector option" where
  "sector_of_queue w q = find_sector w (que_sector q)"

definition project_of_sector :: "world \<Rightarrow> sector \<Rightarrow> project option" where
  "project_of_sector w s = find_project w (sec_project s)"

definition sector_of :: "world \<Rightarrow> room \<Rightarrow> sector option" where
  "sector_of w r = Option.bind (queue_of w r) (sector_of_queue w)"

definition project_of :: "world \<Rightarrow> room \<Rightarrow> project option" where
  "project_of w r = Option.bind (sector_of w r) (project_of_sector w)"

definition project_of_queue :: "world \<Rightarrow> queue \<Rightarrow> project option" where
  "project_of_queue w q = Option.bind (sector_of_queue w q) (project_of_sector w)"

text \<open>A lookup that raises when the object is missing.\<close>

definition need :: "exn \<Rightarrow> (world \<Rightarrow> 'a option) \<Rightarrow> (world, 'a) py" where
  "need e f w = (case f w of None \<Rightarrow> (Inl e, w) | Some x \<Rightarrow> (Inr x, w))"

text \<open>
  \<open>Project.get_permission\<close>, to which \<open>Sector.get_permission\<close>, \<open>Queue.get_permission\<close> and
  \<open>Room.get_permission\<close> delegate.
\<close>

definition project_get_permission :: "world \<Rightarrow> uuid \<Rightarrow> email option \<Rightarrow> permission option" where
  "project_get_permission w prj user =
     find (\<lambda>p. prm_project p = prj \<and> prm_user p = user) (live_permissions w)"

definition use_queue_priority_routing :: "project \<Rightarrow> bool" where
  "use_queue_priority_routing p = (prj_room_routing_type p = Some ''QUEUE_PRIORITY'')"

definition project_config_get :: "project \<Rightarrow> string \<Rightarrow> json \<Rightarrow> json" where
  "project_config_get p k d = obj_get (case prj_config p of None \<Rightarrow> [] | Some c \<Rightarrow> c) k d"

definition routing_option :: "project \<Rightarrow> json" where
  "routing_option p = project_config_get p ''routing_option'' JNull"

definition room_in_project :: "world \<Rightarrow> uuid \<Rightarrow> room \<Rightarrow> bool" where
  "room_in_project w prj r = (map_option sec_project (sector_of w r) = Some prj)"

definition room_in_sector :: "world \<Rightarrow> uuid \<Rightarrow> room \<Rightarrow> bool" where
  "room_in_sector w sec r = (map_option que_sector (queue_of w r) = Some sec)"

section \<open>General facts\<close>

text \<open>A lookup depends only on the tables it reads.\<close>

lemma lookup_cong:
  "queues w' = queues w \<Longrightarrow> queue_of w' = queue_of w"
  "sectors w' = sectors w \<Longrightarrow> sector_of_queue w' = sector_of_queue w"
  "projects w' = projects w \<Longrightarrow> project_of_sector w' = project_of_sector w"
  "queues w' = queues w \<Longrightarrow> sectors w' = sectors w \<Longrightarrow> sector_of w' = sector_of w"
  "queues w' = queues w \<Longrightarrow> sectors w' = sectors w \<Longrightarrow> projects w' = projects w \<Longrightarrow>
   project_of w' = project_of w"
  by (simp_all add: fun_eq_iff queue_of_def sector_of_def project_of_def find_queue_def [abs_def]
      sector_of_queue_def [abs_def] find_sector_def project_of_sector_def [abs_def] find_project_def)

lemma effects_rollback [simp]: "effects (rollback s t) = effects t"
  by (simp add: rollback_def)

lemma rollback_tables [simp]:
  "rooms (rollback s t) = rooms s" "pins (rollback s t) = pins s"
  "statuses (rollback s t) = statuses s" "status_types (rollback s t) = status_types s"
  "messages (rollback s t) = messages s" "metrics (rollback s t) = metrics s"
  "queues (rollback s t) = queues s" "sectors (rollback s t) = sectors s"
  "permissions (rollback s t) = permissions s" "projects (rollback s t) = projects s"
  by (simp_all add: rollback_def)

lemma atomic_error: "atomic m s = (Inl e, t) \<Longrightarrow> t = rollback s t"
  by (auto simp: atomic_def rollback_def split: prod.splits sum.splits)

lemma snd_need [simp]: "snd (need e f w) = w"
  by (simp add: need_def split: option.splits)

lemma send_channels_group_effects:
  "\<exists>es. send_channels_group env g c a n w = (Inr (), w\<lparr>effects := effects w @ es\<rparr>)"
proof (induction n)
  case 0
  show ?case
    by (subst send_channels_group.simps) (auto simp: emit_def modify_def)
next
  case (Suc n)
  then show ?case
    by (subst send_channels_group.simps) (auto simp: emit_def modify_def)
qed

text \<open>
  A relation between worlds that ignores the effects, with the two extra steps statements over
  \<open>world\<close> are made of: adding effects and rolling back.
\<close>

locale world_order = step_order R for R :: "world \<Rightarrow> world \<Rightarrow> bool" +
  assumes R_effects: "R s (s\<lparr>effects := es\<rparr>)"
begin

lemma R_rollback: "R s (rollback s t)"
  unfolding rollback_def by (rule R_effects)

lemma keeps_atomic: "keeps R m \<Longrightarrow> keeps R (atomic m)"
  unfolding keeps_def atomic_def by (auto split: prod.splits sum.splits intro: R_rollback) (metis snd_conv)

lemma keeps_emit: "keeps R (emit e)"
  unfolding emit_def by (rule keeps_modify) (rule R_effects)

lemma keeps_delay: "keeps R (delay env name args)"
  by (simp add: delay_def keeps_emit keeps_raise)

lemma keeps_need: "keeps R (need e f)"
  by (simp add: keeps_def R_refl)

lemma keeps_send: "keeps R (send_channels_group env g c a n)"
proof (rule keepsI)
  fix s
  obtain es where "send_channels_group env g c a n s = (Inr (), s\<lparr>effects := effects s @ es\<rparr>)"
    using send_channels_group_effects by blast
  then show "R s (snd (send_channels_group env g c a n s))"
    by (simp add: R_effects)
qed

lemmas keeps_world = keeps_structure keeps_atomic keeps_emit keeps_delay keeps_need keeps_send

end

text \<open>The smallest such relation: nothing but the effects changes.\<close>

definition same_tables :: "world \<Rightarrow> world \<Rightarrow> bool" where
  "same_tables s t \<longleftrightarrow> t = s\<lparr>effects := effects t\<rparr>"

interpretation tables: world_order same_tables
proof
  show "same_tables s s" for s by (simp add: same_tables_def)
  show "same_tables s t \<Longrightarrow> same_tables t u \<Longrightarrow> same_tables s u" for s t u
    unfolding same_tables_def by (metis world.surjective world.update_convs(20))
  show "same_tables s (s\<lparr>effects := es\<rparr>)" for s es
    by (simp add: same_tables_def)
qed

section \<open>Concrete worlds\<close>

text \<open>An empty database and an environment in which every outgoing call succeeds, for examples.\<close>

definition empty_world :: world where
  "empty_world = \<lparr>projects = [], permissions = [], sectors = [], queues = [], queue_auths = [],
     sector_auths = [], group_sectors = [], group_members = [], rooms = [], pins = [],
     room_notes = [], metrics = [], messages = [], status_types = [], statuses = [],
     contacts = [], link_contacts = [], flow_starts = [], next_id = 0, effects = []\<rparr>"

definition calm_env :: env where
  "calm_env = \<lparr>env_now = 0, flag_attr = (\<lambda>_ _. Some False), flag_user = (\<lambda>_ _. Some False),
     random_index = (\<lambda>_. 0), ws_ok = (\<lambda>_ _ _. True), task_ok = (\<lambda>_ _. True),
     http_status = (\<lambda>_ _. Some 200), flows_ok = (\<lambda>_ _. True), day_of = (\<lambda>t. t div 86400000000),
     set_ws_retries = 3, set_max_retries = 3, set_max_room_pins = 3, set_batch_size = 50,
     set_use_celery = True, set_use_weni_flows = True, set_activate_calc_metrics = True,
     set_last_seen_threshold = 60, set_max_warnings = 500, set_max_closures = 500,
     user_first_name = (\<lambda>_. []), user_pk = (\<lambda>_. 1), exn_text = (\<lambda>_. []),
     ticketer_of = (\<lambda>_ _. Some ''t'')\<rparr>"

definition blank_room :: room where
  "blank_room = \<lparr>rm_uuid = ''r1'', rm_created_on = 0, rm_user = None, rm_contact = None,
     rm_queue = None, rm_custom_fields = None, rm_urn = [], rm_project_uuid = [],
     rm_ticket_uuid = None, rm_callback_url = None, rm_ended_at = None, rm_ended_by = None,
     rm_closed_by = None, rm_is_active = True, rm_is_waiting = False, rm_transfer_history = None,
     rm_full_transfer_history = Some [], rm_tags = [], rm_protocol = [], rm_service_chat = [],
     rm_first_user_assigned_at = None, rm_user_assigned_at = None, rm_added_to_queue_at = None,
     rm_unread_messages_count = 0, rm_last_unread_message_at = None, rm_last_interaction = None,
     rm_last_message = None, rm_last_message_text = None, rm_last_message_user = None,
     rm_last_message_contact = None, rm_last_message_media = [],
     rm_automatic_message_sent_at = None, rm_is_inactive = False, rm_automatic_closed = False,
     rm_config = None\<rparr>"

definition blank_project :: project where
  "blank_project = \<lparr>prj_uuid = ''p'', prj_name = [], prj_timezone = [],
     prj_flows_authorization = None, prj_date_format = [], prj_is_template = False,
     prj_template_type = None, prj_org = None, prj_room_routing_type = None,
     prj_is_chats_summary_enabled = False, prj_config = None\<rparr>"

definition blank_sector :: sector where
  "blank_sector = \<lparr>sec_uuid = ''s'', sec_name = [], sec_project = ''p'',
     sec_secondary_project = None, sec_rooms_limit = 2, sec_work_start = None, sec_work_end = None,
     sec_can_trigger_flows = False, sec_sign_messages = False, sec_is_deleted = False,
     sec_open_offline = True, sec_can_edit_custom_fields = False, sec_working_day = None,
     sec_automatic_message_text = None, sec_is_automatic_message_active = False,
     sec_automatic_message_queue_text = None, sec_is_automatic_message_queue_active = False,
     sec_is_csat_enabled = False, sec_custom_csat_flow_uuid = None, sec_required_tags = False,
     sec_inactivity_timeout = None, sec_config = None\<rparr>"

definition blank_queue :: queue where
  "blank_queue = \<lparr>que_uuid = ''q'', que_sector = ''s'', que_name = [], que_default_message = None,
     que_queue_purpose = None, que_queue_limit = None, que_is_queue_limit_active = False,
     que_is_deleted = False, que_config = None\<rparr>"

definition blank_permission :: permission where
  "blank_permission = \<lparr>prm_uuid = ''m1'', prm_project = ''p'', prm_user = Some ''a@x'', prm_role = 2,
     prm_status = ''ONLINE'', prm_first_access = False, prm_last_seen = None,
     prm_custom_rooms_limit = None, prm_is_custom_limit_active = False, prm_is_deleted = False\<rparr>"

definition small_world :: world where
  "small_world = empty_world\<lparr>projects := [blank_project], sectors := [blank_sector],
     queues := [blank_queue], permissions := [blank_permission]\<rparr>"

lemmas sample_defs = empty_world_def calm_env_def blank_room_def blank_project_def blank_sector_def
  blank_queue_def blank_permission_def small_world_def

end
