(* ===== verification/In_Service.thy ===== *)
theory In_Service
  imports Chats_Data
begin

text \<open>
  Custom statuses and the automatic \<open>In-Service\<close> status of agents:
  \<open>CustomStatusType.save\<close> and \<open>CustomStatus.save\<close> of \<open>chats/apps/projects/models/models.py\<close>
  and \<open>InServiceStatusService\<close> of \<open>chats/apps/projects/usecases/status_service.py\<close>.

  The services run in \<open>transaction.atomic\<close>; a broker that refuses the log task therefore undoes
  the status change. A primary key passed as a string is \<open>Key\<close>, an instance \<open>Obj\<close>, and a bare
  UUID as \<open>values_list\<close> yields it \<open>Raw\<close>.
\<close>

section \<open>Status types and statuses\<close>

definition find_status_type :: "world \<Rightarrow> nat \<Rightarrow> custom_status_type option" where
  "find_status_type w k = find (\<lambda>t. cst_uuid t = k) (status_types w)"

text \<open>\<open>config__created_by_system__isnull=True\<close> asks for the key, not for its value.\<close>

definition created_by_system :: "custom_status_type \<Rightarrow> bool" where
  "created_by_system t =
     (case cst_config t of None \<Rightarrow> False
      | Some c \<Rightarrow> map_of c ''created_by_system'' \<noteq> None)"

text \<open>
  \<open>CustomStatusType.save\<close> of an instance that is being inserted. \<open>pk\<close> is \<open>self.pk\<close>: it comes
  from \<open>default=uuid.uuid4\<close>, so it is set before \<open>save\<close> runs.
\<close>

definition custom_status_type_save :: "nat option \<Rightarrow> custom_status_type \<Rightarrow> (world, unit) py" where
  "custom_status_type_save pk t =
     bnd (gets (count_where (\<lambda>o'. cst_project o' = cst_project t \<and> \<not> cst_is_deleted o'
                                   \<and> \<not> created_by_system o') \<circ> status_types)) (\<lambda>existing_count.
     if pk = None \<and> existing_count > 10
     then raise (ValidationError ''A project can have a maximum of 10 custom statuses.'')
     else bnd (gets (list_ex (\<lambda>o'. cst_name o' = cst_name t \<and> cst_project o' = cst_project t
                                    \<and> \<not> cst_is_deleted o' \<and> \<not> cst_is_deleted t) \<circ> status_types))
       (\<lambda>clash. if clash then raise (IntegrityError ''unique_custom_status'')
                else modify (\<lambda>w. w\<lparr>status_types := status_types w @ [t]\<rparr>)))"

definition new_id :: "(world, nat) py" where
  "new_id w = (Inr (next_id w), w\<lparr>next_id := Suc (next_id w)\<rparr>)"

definition custom_status_type_create ::
  "string \<Rightarrow> uuid \<Rightarrow> (string \<times> json) list option \<Rightarrow> (world, custom_status_type) py" where
  "custom_status_type_create nm prj config =
     bnd new_id (\<lambda>pk.
     let t = \<lparr>cst_uuid = pk, cst_name = nm, cst_project = prj, cst_is_deleted = False,
              cst_config = config\<rparr>
     in andthen (custom_status_type_save (Some pk) t) (ret t))"

text \<open>
  \<open>CustomStatus.save\<close>. An active status of a user deactivates the other active ones of the same
  user and project first. \<open>update_fields\<close> is only ever \<open>["is_active", "break_time"]\<close>; the
  column \<open>break_time\<close> is a \<open>PositiveIntegerField\<close>.
\<close>

definition write_status :: "bool \<Rightarrow> custom_status \<Rightarrow> (world, unit) py" where
  "write_status adding cs =
     (if cus_break_time cs < 0 then raise (IntegrityError ''break_time'')
      else if adding then modify (\<lambda>w. w\<lparr>statuses := statuses w @ [cs]\<rparr>)
      else modify (\<lambda>w. w\<lparr>statuses := update_where (\<lambda>o'. cus_id o' = cus_id cs)
             (\<lambda>o'. o'\<lparr>cus_is_active := cus_is_active cs, cus_break_time := cus_break_time cs\<rparr>)
             (statuses w)\<rparr>))"

definition custom_status_save :: "bool \<Rightarrow> custom_status \<Rightarrow> (world, unit) py" where
  "custom_status_save adding cs =
     bnd (need (DoesNotExist ''CustomStatusType'') (\<lambda>w. find_status_type w (cus_status_type cs))) (\<lambda>t.
     let cs' = cs\<lparr>cus_project := Some (cst_project t)\<rparr>
     in atomic (andthen
          (when_true (cus_is_active cs' \<and> cus_user cs' \<noteq> None)
             (modify (\<lambda>w. w\<lparr>statuses := update_where
                (\<lambda>o'. cus_user o' = cus_user cs' \<and> cus_project o' = cus_project cs'
                     \<and> cus_is_active o' \<and> cus_id o' \<noteq> cus_id cs')
                (\<lambda>o'. o'\<lparr>cus_is_active := False\<rparr>) (statuses w)\<rparr>)))
          (write_status adding cs')))"

definition custom_status_create ::
  "env \<Rightarrow> email option \<Rightarrow> custom_status_type \<Rightarrow> (world, unit) py" where
  "custom_status_create env user t =
     bnd new_id (\<lambda>pk. custom_status_save True
       \<lparr>cus_id = pk, cus_created_on = env_now env, cus_user = user,
        cus_status_type = cst_uuid t, cus_is_active = True, cus_break_time = 0,
        cus_project = Some (cst_project t)\<rparr>)"

section \<open>The In-Service service\<close>

definition STATUS_NAME :: string where
  "STATUS_NAME = ''In-Service''"

text \<open>A reference to a project: an instance, a key passed as a string, or a bare value.\<close>

datatype project_ref = Project_Obj uuid | Project_Key uuid | Project_Raw "uuid option"
datatype user_ref = User_Obj email | User_Key string

fun ref_project :: "project_ref \<Rightarrow> uuid option" where
  "ref_project (Project_Obj p) = Some p"
| "ref_project (Project_Key p) = Some p"
| "ref_project (Project_Raw p) = p"

text \<open>Creating a row whose foreign key is not an instance raises \<open>ValueError\<close>.\<close>

fun project_instance :: "project_ref \<Rightarrow> (world, uuid) py" where
  "project_instance (Project_Obj p) = ret p"
| "project_instance _ = raise (ValueError ''must be a Project instance'')"

definition get_or_create_status_type :: "project_ref \<Rightarrow> (world, custom_status_type) py" where
  "get_or_create_status_type prj =
     bnd (gets (filter (\<lambda>t. cst_name t = STATUS_NAME \<and> Some (cst_project t) = ref_project prj)
                 \<circ> status_types)) (\<lambda>found.
     case found of
       [] \<Rightarrow> bnd (project_instance prj) (\<lambda>p.
               atomic (custom_status_type_create STATUS_NAME p
                         (Some [(''created_by_system'', JBool True)])))
     | [t] \<Rightarrow> ret t
     | _ \<Rightarrow> raise MultipleObjectsReturned)"

definition has_priority_status :: "email \<Rightarrow> project_ref \<Rightarrow> (world, bool) py" where
  "has_priority_status user prj =
     bnd (get_or_create_status_type prj) (\<lambda>t.
     gets (list_ex (\<lambda>c. cus_user c = Some user \<and> cus_project c = ref_project prj
                         \<and> cus_is_active c \<and> cus_status_type c \<noteq> cst_uuid t) \<circ> statuses))"

definition active_room_count :: "world \<Rightarrow> email \<Rightarrow> uuid option \<Rightarrow> nat" where
  "active_room_count w user prj =
     count_where (\<lambda>r. rm_user r = Some user \<and> rm_is_active r
                      \<and> map_option sec_project (sector_of w r) = prj) (rooms w)"

definition in_service_status ::
  "world \<Rightarrow> email \<Rightarrow> custom_status_type \<Rightarrow> uuid option \<Rightarrow> custom_status option" where
  "in_service_status w user t prj =
     find (\<lambda>c. cus_user c = Some user \<and> cus_status_type c = cst_uuid t \<and> cus_is_active c
               \<and> cus_project c = prj) (statuses w)"

definition room_assigned :: "env \<Rightarrow> email option \<Rightarrow> uuid option \<Rightarrow> (world, unit) py" where
  "room_assigned env user project = atomic (
     case (user, project) of
       (Some u, Some p) \<Rightarrow>
         bnd (gets (\<lambda>w. find (\<lambda>x. prm_user x = Some u \<and> prm_project x = p) (live_permissions w)))
         (\<lambda>permission. case permission of None \<Rightarrow> ret () | Some prm \<Rightarrow>
           bnd (get_or_create_status_type (Project_Obj p)) (\<lambda>t.
           bnd (gets (\<lambda>w. active_room_count w u (Some p))) (\<lambda>room_count.
           bnd (has_priority_status u (Project_Obj p)) (\<lambda>has_priority.
           bnd (gets (\<lambda>w. in_service_status w u t (Some p))) (\<lambda>in_service.
           when_true (room_count \<ge> 1 \<and> in_service = None \<and> \<not> has_priority
                      \<and> prm_status prm = ''ONLINE'')
             (andthen (custom_status_create env (Some u) t)
               (delay env ''log_agent_status_change''
                  [u, p, ''OFFLINE'', cst_name t])))))))
     | _ \<Rightarrow> ret ())"

text \<open>The shared ending of a status: \<open>break_time\<close> is the whole seconds since it was created.\<close>

definition end_status :: "env \<Rightarrow> custom_status \<Rightarrow> (world, unit) py" where
  "end_status env c = custom_status_save False
     (c\<lparr>cus_is_active := False,
        cus_break_time := trunc_seconds (env_now env - cus_created_on c)\<rparr>)"

definition room_closed :: "env \<Rightarrow> email option \<Rightarrow> uuid option \<Rightarrow> (world, unit) py" where
  "room_closed env user project = atomic (
     case (user, project) of
       (Some u, Some p) \<Rightarrow>
         bnd (get_or_create_status_type (Project_Obj p)) (\<lambda>t.
         bnd (gets (\<lambda>w. active_room_count w u (Some p))) (\<lambda>room_count.
         if room_count = 0
         then bnd (gets (\<lambda>w. in_service_status w u t (Some p))) (\<lambda>status.
              case status of None \<Rightarrow> ret ()
              | Some c \<Rightarrow> andthen (end_status env c)
                           (delay env ''log_agent_status_change'' [u, p, ''ONLINE'']))
         else ret ()))
     | _ \<Rightarrow> ret ())"

text \<open>
  \<open>User.objects.get(pk=user)\<close> on a string: the key of \<open>User\<close> is an integer column, so anything
  but digits raises \<open>ValueError\<close>.
\<close>

definition is_digits :: "string \<Rightarrow> bool" where
  "is_digits s \<longleftrightarrow> s \<noteq> [] \<and> list_all (\<lambda>c. c \<in> set ''0123456789'') s"

definition user_by_key :: "(string \<Rightarrow> email option) \<Rightarrow> string \<Rightarrow> (world, email option) py" where
  "user_by_key users k =
     (if is_digits k then ret (users k) else raise (ValueError ''Field id expected a number''))"

definition sync_body :: "env \<Rightarrow> email \<Rightarrow> project_ref \<Rightarrow> (world, unit) py" where
  "sync_body env u prj =
     bnd (get_or_create_status_type prj) (\<lambda>t.
     bnd (gets (\<lambda>w. active_room_count w u (ref_project prj))) (\<lambda>room_count.
     bnd (has_priority_status u prj) (\<lambda>has_priority.
     bnd (gets (\<lambda>w. in_service_status w u t (ref_project prj))) (\<lambda>status.
     case status of
       None \<Rightarrow> when_true (room_count > 0 \<and> \<not> has_priority)
                 (bnd (project_instance prj) (\<lambda>_. custom_status_create env (Some u) t))
     | Some c \<Rightarrow> when_true (room_count = 0)
                 (case prj of Project_Obj _ \<Rightarrow> end_status env c
                            | _ \<Rightarrow> raise AttributeError)))))"

definition sync_agent_status ::
  "env \<Rightarrow> (string \<Rightarrow> email option) \<Rightarrow> user_ref \<Rightarrow> project_ref \<Rightarrow> (world, unit) py" where
  "sync_agent_status env users user prj = atomic (
     bnd (case user of User_Obj u \<Rightarrow> ret (Some u) | User_Key k \<Rightarrow> user_by_key users k)
     (\<lambda>found. case found of None \<Rightarrow> ret () | Some u \<Rightarrow>
       (case prj of
          Project_Key k \<Rightarrow> bnd (gets (\<lambda>w. find_project w k)) (\<lambda>p.
             case p of None \<Rightarrow> ret () | Some _ \<Rightarrow> sync_body env u (Project_Obj k))
        | _ \<Rightarrow> sync_body env u prj)))"

text \<open>
  \<open>schedule_sync_for_all_agents\<close>: the pairs come from \<open>values_list("user", ...)\<close>, so a user is the
  value of its \<open>to_field\<close>, the email. Every exception is logged and dropped.
\<close>

definition active_agents :: "world \<Rightarrow> (email \<times> uuid option) list" where
  "active_agents w = remdups (concat (map
     (\<lambda>r. case rm_user r of Some u \<Rightarrow>
        if rm_is_active r then [(u, map_option sec_project (sector_of w r))] else []
      | None \<Rightarrow> []) (rooms w)))"

definition schedule_sync_for_all_agents ::
  "env \<Rightarrow> (string \<Rightarrow> email option) \<Rightarrow> (world, unit) py" where
  "schedule_sync_for_all_agents env users =
     bnd (gets active_agents) (for_each (\<lambda>(u, p).
       try_except (atomic (sync_agent_status env users (User_Key u) (Project_Raw p)))
         (\<lambda>_. ret ())))"


section \<open>Well-formed status tables\<close>

text \<open>Keys are distinct and older than the counter, and the unique constraint of \<open>CustomStatus\<close>.\<close>

definition wf_status :: "world \<Rightarrow> bool" where
  "wf_status w \<longleftrightarrow>
     distinct (map cus_id (statuses w)) \<and> (\<forall>c \<in> set (statuses w). cus_id c < next_id w) \<and>
     distinct (map cst_uuid (status_types w)) \<and>
     (\<forall>t \<in> set (status_types w). cst_uuid t < next_id w) \<and>
     distinct (map (\<lambda>c. (cus_user c, cus_project c))
        (filter (\<lambda>c. cus_is_active c \<and> cus_user c \<noteq> None) (statuses w)))"

definition keeps_wf_status :: "world \<Rightarrow> world \<Rightarrow> bool" where
  "keeps_wf_status s t \<longleftrightarrow> (wf_status s \<longrightarrow> wf_status t)"

lemma wf_status_effects [simp]: "wf_status (w\<lparr>effects := es\<rparr>) = wf_status w"
  by (simp add: wf_status_def)

interpretation status_wf: world_order keeps_wf_status
  by unfold_locales (auto simp: keeps_wf_status_def)

definition current_status :: "world \<Rightarrow> email \<Rightarrow> uuid \<Rightarrow> nat list" where
  "current_status w u p = map cus_status_type
     (filter (\<lambda>c. cus_user c = Some u \<and> cus_project c = Some p \<and> cus_is_active c) (statuses w))"

definition in_service_types :: "world \<Rightarrow> uuid \<Rightarrow> custom_status_type list" where
  "in_service_types w p =
     filter (\<lambda>t. cst_name t = STATUS_NAME \<and> cst_project t = p) (status_types w)"

lemma find_distinct:
  "distinct (map f xs) \<Longrightarrow> x \<in> set xs \<Longrightarrow> find (\<lambda>y. f y = f x) xs = Some x"
  by (induction xs) force+

lemma distinct_filter_update:
  assumes "distinct (map k (filter q xs))" and "\<And>x. q (f x) \<Longrightarrow> q x \<and> k (f x) = k x"
  shows "distinct (map k (filter q (update_where p f xs)))"
proof -
  have sub: "set (map k (filter q (update_where p f ys))) \<subseteq> set (map k (filter q ys))" for ys
    using assms(2) by (fastforce simp: set_update_where)
  show ?thesis using assms(1)
  proof (induction xs)
    case (Cons a ys)
    then show ?case using assms(2) [of a] sub [of ys] by (auto split: if_splits)
  qed simp
qed

text \<open>Deactivating the other statuses and then writing one keeps the constraint.\<close>

lemma wf_write_status:
  assumes wf: "wf_status w" and ok: "custom_status_save adding cs w = (r, w')"
    and new: "adding \<Longrightarrow> cus_id cs \<notin> cus_id ` set (statuses w) \<and> cus_id cs < next_id w"
    and old: "\<not> adding \<Longrightarrow> \<not> cus_is_active cs"
  shows "wf_status w'"
proof (cases "find_status_type w (cus_status_type cs)")
  case None
  with ok wf show ?thesis by (simp add: custom_status_save_def need_def py_defs)
next
  case (Some t)
  define cs' where "cs' = cs\<lparr>cus_project := Some (cst_project t)\<rparr>"
  define others where "others = (\<lambda>o' :: custom_status. cus_user o' = cus_user cs' \<and> cus_project o' = cus_project cs'
      \<and> cus_is_active o' \<and> cus_id o' \<noteq> cus_id cs')"
  define w1 where "w1 = (if cus_is_active cs' \<and> cus_user cs' \<noteq> None
     then w\<lparr>statuses := update_where others (\<lambda>o'. o'\<lparr>cus_is_active := False\<rparr>) (statuses w)\<rparr> else w)"
  have res: "w' = w1 \<or> w' = rollback w w1 \<or>
     (adding \<and> w' = w1\<lparr>statuses := statuses w1 @ [cs']\<rparr>) \<or>
     (\<not> adding \<and> w' = w1\<lparr>statuses := update_where (\<lambda>o'. cus_id o' = cus_id cs')
        (\<lambda>o'. o'\<lparr>cus_is_active := cus_is_active cs', cus_break_time := cus_break_time cs'\<rparr>)
        (statuses w1)\<rparr>)"
    using ok Some
    by (auto simp: custom_status_save_def need_def py_defs atomic_def write_status_def Let_def
        w1_def others_def cs'_def split: if_splits)
  have ids: "map cus_id (statuses w1) = map cus_id (statuses w)"
    by (simp add: w1_def map_update_where)
  have act: "distinct (map (\<lambda>c. (cus_user c, cus_project c))
      (filter (\<lambda>c. cus_is_active c \<and> cus_user c \<noteq> None) (statuses w1)))"
    using wf by (auto simp: w1_def wf_status_def intro!: distinct_filter_update)
  have same: "status_types w1 = status_types w" "next_id w1 = next_id w"
    by (simp_all add: w1_def)
  have idset: "cus_id ` set (statuses w1) = cus_id ` set (statuses w)"
    using arg_cong [OF ids, of set] by simp
  have bound: "cus_id c < next_id w" if "c \<in> set (statuses w1)" for c
  proof -
    have "cus_id c \<in> cus_id ` set (statuses w)"
      using that idset by blast
    then show ?thesis using wf by (auto simp: wf_status_def)
  qed
  have wf1: "wf_status w1"
    using wf act same bound by (simp add: wf_status_def ids)
  have free: "(cus_user cs', cus_project cs') \<notin> (\<lambda>c. (cus_user c, cus_project c)) `
      set (filter (\<lambda>c. cus_is_active c \<and> cus_user c \<noteq> None) (statuses w1))"
    if "adding" "cus_is_active cs'" "cus_user cs' \<noteq> None"
    using new [OF that(1)] that
    by (auto simp: w1_def set_update_where others_def cs'_def split: if_splits) (metis image_eqI)
  consider "w' = w1" | "w' = rollback w w1"
    | "adding" "w' = w1\<lparr>statuses := statuses w1 @ [cs']\<rparr>"
    | "\<not> adding" "w' = w1\<lparr>statuses := update_where (\<lambda>o'. cus_id o' = cus_id cs')
        (\<lambda>o'. o'\<lparr>cus_is_active := cus_is_active cs', cus_break_time := cus_break_time cs'\<rparr>)
        (statuses w1)\<rparr>"
    using res by blast
  then show ?thesis
  proof cases
    case 1
    with wf1 show ?thesis by simp
  next
    case 2
    with wf show ?thesis by (simp add: rollback_def)
  next
    case 3
    then show ?thesis
      using wf1 free new idset same by (auto simp: wf_status_def cs'_def)
  next
    case 4
    have "\<not> cus_is_active cs'" using old [OF 4(1)] by (simp add: cs'_def)
    with 4 wf1 show ?thesis
      by (auto simp: wf_status_def map_update_where set_update_where intro!: distinct_filter_update)
  qed
qed


lemma wf_new_id: "wf_status w \<Longrightarrow> wf_status (w\<lparr>next_id := Suc (next_id w)\<rparr>)"
  by (auto simp: wf_status_def less_Suc_eq)

lemma keeps_custom_status_create: "keeps keeps_wf_status (custom_status_create env u t)"
proof (rule keepsI)
  fix w :: world
  let ?cs = "\<lparr>cus_id = next_id w, cus_created_on = env_now env, cus_user = u,
     cus_status_type = cst_uuid t, cus_is_active = True, cus_break_time = 0,
     cus_project = Some (cst_project t)\<rparr>"
  let ?w1 = "w\<lparr>next_id := Suc (next_id w)\<rparr>"
  show "keeps_wf_status w (snd (custom_status_create env u t w))"
    unfolding keeps_wf_status_def
  proof
    assume wf: "wf_status w"
    have "snd (custom_status_create env u t w) = snd (custom_status_save True ?cs ?w1)"
      by (simp add: custom_status_create_def new_id_def py_defs)
    moreover have "wf_status (snd (custom_status_save True ?cs ?w1))"
      by (rule wf_write_status [OF wf_new_id [OF wf] prod.collapse [symmetric]])
        (use wf in \<open>auto simp: wf_status_def\<close>)
    ultimately show "wf_status (snd (custom_status_create env u t w))" by simp
  qed
qed

lemma keeps_end_status: "keeps keeps_wf_status (end_status env c)"
  by (rule keepsI) (auto simp: keeps_wf_status_def end_status_def
      intro: wf_write_status [OF _ prod.collapse [symmetric]])

lemma keeps_custom_status_type_create: "keeps keeps_wf_status (custom_status_type_create nm p c)"
  by (rule keepsI) (auto simp: keeps_wf_status_def custom_status_type_create_def new_id_def py_defs
      custom_status_type_save_def wf_status_def less_Suc_eq Let_def)

lemmas keeps_status = status_wf.keeps_world keeps_custom_status_create keeps_end_status
  keeps_custom_status_type_create

lemma keeps_get_or_create: "keeps keeps_wf_status (get_or_create_status_type prj)"
  unfolding get_or_create_status_type_def
  by (cases prj; rule status_wf.keeps_bnd [OF status_wf.keeps_gets])
    (auto split: list.split intro!: keeps_status simp: bnd_ret)

lemma keeps_has_priority: "keeps keeps_wf_status (has_priority_status u prj)"
  unfolding has_priority_status_def by (intro keeps_status keeps_get_or_create)

lemma keeps_room_assigned: "keeps keeps_wf_status (room_assigned env user prj)"
  unfolding room_assigned_def
  by (cases user; cases prj)
    (auto intro!: keeps_status keeps_get_or_create keeps_has_priority split: option.splits)

lemma keeps_room_closed: "keeps keeps_wf_status (room_closed env user prj)"
  unfolding room_closed_def
  by (cases user; cases prj) (auto intro!: keeps_status keeps_get_or_create split: option.splits)

lemma keeps_sync_body: "keeps keeps_wf_status (sync_body env u prj)"
  unfolding sync_body_def
  by (cases prj) (auto intro!: keeps_status keeps_get_or_create keeps_has_priority
      split: option.splits)

lemma keeps_sync: "keeps keeps_wf_status (sync_agent_status env users u prj)"
  unfolding sync_agent_status_def user_by_key_def
  by (cases u; cases prj) (auto intro!: keeps_status keeps_sync_body split: option.splits)

lemma keeps_schedule: "keeps keeps_wf_status (schedule_sync_for_all_agents env users)"
  unfolding schedule_sync_for_all_agents_def
  by (auto intro!: keeps_status keeps_sync)


section \<open>What the services do to the current status\<close>

text \<open>
  The abstract state of an agent in a project is the list of its active statuses, which the
  constraint keeps at one entry at most.
\<close>

lemma current_status_length: "wf_status w \<Longrightarrow> length (current_status w u p) \<le> 1"
proof -
  assume wf: "wf_status w"
  let ?own = "\<lambda>c. cus_user c = Some u \<and> cus_project c = Some p \<and> cus_is_active c"
  let ?key = "\<lambda>c. (cus_user c, cus_project c)"
  have "filter ?own (statuses w) =
      filter (\<lambda>c. ?key c = (Some u, Some p))
        (filter (\<lambda>c. cus_is_active c \<and> cus_user c \<noteq> None) (statuses w))"
    by (auto simp: intro!: filter_cong)
  moreover have once: "distinct (map ?key xs) \<Longrightarrow> length (filter (\<lambda>c. ?key c = k) xs) \<le> 1"
    for xs k
    by (induction xs) (auto simp: filter_empty_conv image_iff)
  have "length (filter (\<lambda>c. ?key c = (Some u, Some p))
      (filter (\<lambda>c. cus_is_active c \<and> cus_user c \<noteq> None) (statuses w))) \<le> 1"
    by (rule once) (use wf in \<open>simp add: wf_status_def\<close>)
  ultimately have "length (filter ?own (statuses w)) \<le> 1"
    by simp
  then show ?thesis by (simp add: current_status_def)
qed

lemma find_status_type_unique:
  "wf_status w \<Longrightarrow> t \<in> set (status_types w) \<Longrightarrow> find_status_type w (cst_uuid t) = Some t"
  unfolding find_status_type_def wf_status_def by (blast intro: find_distinct)

lemma get_or_create_total:
  assumes wf: "wf_status w" and one: "length (in_service_types w p) \<le> 1"
  obtains t ts n where "get_or_create_status_type (Project_Obj p) w =
      (Inr t, w\<lparr>status_types := ts, next_id := n\<rparr>)"
    and "filter (\<lambda>t. cst_name t = STATUS_NAME \<and> cst_project t = p) ts = [t]"
    and "cst_name t = STATUS_NAME" and "cst_project t = p"
proof (cases "in_service_types w p")
  case Nil
  let ?t = "\<lparr>cst_uuid = next_id w, cst_name = STATUS_NAME, cst_project = p,
    cst_is_deleted = False, cst_config = Some [(''created_by_system'', JBool True)]\<rparr>"
  have "\<not> list_ex (\<lambda>o'. cst_name o' = STATUS_NAME \<and> cst_project o' = p \<and> \<not> cst_is_deleted o')
      (status_types w)"
    using Nil by (auto simp: in_service_types_def filter_empty_conv list_ex_iff)
  then have "get_or_create_status_type (Project_Obj p) w =
      (Inr ?t, w\<lparr>status_types := status_types w @ [?t], next_id := Suc (next_id w)\<rparr>)"
    using Nil by (simp add: get_or_create_status_type_def in_service_types_def py_defs atomic_def
        custom_status_type_create_def custom_status_type_save_def new_id_def Let_def)
  with Nil show ?thesis by (auto intro!: that simp: in_service_types_def)
next
  case (Cons t rest)
  with one have "in_service_types w p = [t]" by simp
  moreover from this have "get_or_create_status_type (Project_Obj p) w =
      (Inr t, w\<lparr>status_types := status_types w, next_id := next_id w\<rparr>)"
    by (simp add: get_or_create_status_type_def in_service_types_def py_defs)
  moreover have "cst_name t = STATUS_NAME \<and> cst_project t = p"
    using \<open>in_service_types w p = [t]\<close> unfolding in_service_types_def by (drule_tac filter_head) simp
  ultimately show ?thesis
    by (intro that [where t = t and ts = "status_types w" and n = "next_id w"])
      (auto simp: in_service_types_def)
qed

lemma get_or_create_again:
  "in_service_types w p = [t] \<Longrightarrow> get_or_create_status_type (Project_Obj p) w = (Inr t, w)"
  by (simp add: get_or_create_status_type_def in_service_types_def py_defs)

lemma has_priority_result:
  "in_service_types w p = [t] \<Longrightarrow> has_priority_status u (Project_Obj p) w =
     (Inr (\<exists>x \<in> set (current_status w u p). x \<noteq> cst_uuid t), w)"
  by (auto simp: has_priority_status_def get_or_create_again bnd_def gets_def list_ex_iff
      current_status_def)

lemma in_service_status_result:
  "(in_service_status w u t (Some p) = None) = (cst_uuid t \<notin> set (current_status w u p))"
  by (auto simp: in_service_status_def current_status_def find_None_iff image_iff)

lemma create_status_effect:
  assumes wf: "wf_status w" and t: "in_service_types w p = [t]"
  obtains cs n where "custom_status_create env (Some u) t w =
      (Inr (), w\<lparr>next_id := n, statuses := cs\<rparr>)"
    and "\<And>x y. current_status (w\<lparr>next_id := n, statuses := cs\<rparr>) x y =
           (if (x, y) = (u, p) then [cst_uuid t] else current_status w x y)"
proof -
  have mem: "t \<in> set (status_types w)" and prj: "cst_project t = p"
    using filter_head [OF t [unfolded in_service_types_def]] by simp_all
  let ?w1 = "w\<lparr>next_id := Suc (next_id w)\<rparr>"
  have ft: "find_status_type ?w1 (cst_uuid t) = Some t"
    using find_status_type_unique [OF wf mem] by (simp add: find_status_type_def)
  define new where "new = \<lparr>cus_id = next_id w, cus_created_on = env_now env, cus_user = Some u,
     cus_status_type = cst_uuid t, cus_is_active = True, cus_break_time = 0, cus_project = Some p\<rparr>"
  define cs where "cs = update_where
     (\<lambda>o'. cus_user o' = Some u \<and> cus_project o' = Some p \<and> cus_is_active o' \<and> cus_id o' \<noteq> next_id w)
     (\<lambda>o'. o'\<lparr>cus_is_active := False\<rparr>) (statuses w) @ [new]"
  have run: "custom_status_create env (Some u) t w =
      (Inr (), w\<lparr>next_id := Suc (next_id w), statuses := cs\<rparr>)"
    using ft prj
    by (simp add: custom_status_create_def custom_status_save_def new_id_def need_def py_defs
        atomic_def write_status_def Let_def cs_def new_def)
  have other: "filter (\<lambda>c. cus_user c = Some x \<and> cus_project c = Some y \<and> cus_is_active c)
      (update_where (\<lambda>o'. cus_user o' = Some u \<and> cus_project o' = Some p \<and> cus_is_active o'
          \<and> cus_id o' \<noteq> k) (\<lambda>o'. o'\<lparr>cus_is_active := False\<rparr>) xs) =
      (if (x, y) = (u, p) then [] else
        filter (\<lambda>c. cus_user c = Some x \<and> cus_project c = Some y \<and> cus_is_active c) xs)"
    if "\<forall>c \<in> set xs. cus_id c < k" for x y k xs
    using that by (induction xs) auto
  have "current_status (w\<lparr>next_id := Suc (next_id w), statuses := cs\<rparr>) x y =
      (if (x, y) = (u, p) then [cst_uuid t] else current_status w x y)" for x y
    using other [of "statuses w" "next_id w" x y] wf
    by (auto simp: current_status_def cs_def new_def wf_status_def)
  with run that show ?thesis by blast
qed

lemma end_status_effect:
  assumes wf: "wf_status w" and t: "in_service_types w p = [t]"
    and c: "in_service_status w u t (Some p) = Some c" and past: "cus_created_on c \<le> env_now env"
  obtains cs where "end_status env c w = (Inr (), w\<lparr>statuses := cs\<rparr>)"
    and "\<And>x y. current_status (w\<lparr>statuses := cs\<rparr>) x y =
           (if (x, y) = (u, p) then [] else current_status w x y)"
    and "c\<lparr>cus_is_active := False, cus_break_time := (env_now env - cus_created_on c) div 1000000\<rparr>
           \<in> set cs"
proof -
  have mem: "t \<in> set (status_types w)" and prj: "cst_project t = p"
    using filter_head [OF t [unfolded in_service_types_def]] by simp_all
  have cm: "c \<in> set (statuses w)" "cus_user c = Some u" "cus_status_type c = cst_uuid t"
    "cus_is_active c" "cus_project c = Some p"
    using c by (auto simp: in_service_status_def find_Some_iff)
  have ft: "find_status_type w (cus_status_type c) = Some t"
    using find_status_type_unique [OF wf mem] cm by simp
  let ?b = "(env_now env - cus_created_on c) div 1000000"
  have b: "trunc_seconds (env_now env - cus_created_on c) = ?b" "0 \<le> ?b"
    using past by (simp_all add: trunc_seconds_def pos_imp_zdiv_nonneg_iff)
  define cs where "cs = update_where (\<lambda>o'. cus_id o' = cus_id c)
     (\<lambda>o'. o'\<lparr>cus_is_active := False, cus_break_time := ?b\<rparr>) (statuses w)"
  have run: "end_status env c w = (Inr (), w\<lparr>statuses := cs\<rparr>)"
    using ft b prj cm
    by (simp add: end_status_def custom_status_save_def need_def py_defs atomic_def
        write_status_def Let_def cs_def not_less)
  have same_id: "d = c" if "d \<in> set (statuses w)" "cus_id d = cus_id c" for d
    using wf that cm(1) by (auto simp: wf_status_def distinct_map inj_on_def)
  have same_key: "d = c" if "d \<in> set (statuses w)" "cus_user d = Some u" "cus_project d = Some p"
      "cus_is_active d" for d
    using wf that cm by (auto simp: wf_status_def distinct_map inj_on_def)
  have upd: "filter (\<lambda>d. cus_user d = Some x \<and> cus_project d = Some y \<and> cus_is_active d)
      (update_where (\<lambda>o'. cus_id o' = cus_id c) (\<lambda>o'. o'\<lparr>cus_is_active := False, cus_break_time := ?b\<rparr>) xs)
      = filter (\<lambda>d. cus_user d = Some x \<and> cus_project d = Some y \<and> cus_is_active d \<and> d \<noteq> c) xs"
    if "set xs \<subseteq> set (statuses w)" for x y xs
    using that same_id by (induction xs) auto
  have "current_status (w\<lparr>statuses := cs\<rparr>) x y =
      (if (x, y) = (u, p) then [] else current_status w x y)" for x y
  proof (cases "(x, y) = (u, p)")
    case True
    with upd [of "statuses w" x y] same_key show ?thesis
      by (auto simp: current_status_def cs_def filter_empty_conv)
  next
    case False
    with upd [of "statuses w" x y] cm show ?thesis
      by (auto simp: current_status_def cs_def intro!: arg_cong [where f = "map cus_status_type"]
          filter_cong)
  qed
  moreover have "c\<lparr>cus_is_active := False, cus_break_time := ?b\<rparr> \<in> set cs"
    using cm(1) by (auto simp: cs_def set_update_where image_iff)
  ultimately show ?thesis using run that by blast
qed


text \<open>Nothing the services test, apart from the statuses, depends on the status tables.\<close>

lemma active_room_count_cong [simp]:
  "active_room_count (w\<lparr>status_types := ts, next_id := n\<rparr>) = active_room_count w"
  using lookup_cong(4) [of "w\<lparr>status_types := ts, next_id := n\<rparr>" w]
  by (intro ext) (simp add: active_room_count_def)

text \<open>The step the services make on the current status of an agent that is \<open>busy\<close> or not.\<close>

definition sync_step :: "bool \<Rightarrow> nat \<Rightarrow> nat list \<Rightarrow> nat list" where
  "sync_step busy t cur =
     (if busy then (if cur = [] then [t] else cur) else filter (\<lambda>x. x \<noteq> t) cur)"

definition status_step :: "world \<Rightarrow> world \<Rightarrow> email \<Rightarrow> uuid \<Rightarrow> (nat \<Rightarrow> nat list \<Rightarrow> nat list) \<Rightarrow> bool" where
  "status_step w w' u p f \<longleftrightarrow> (\<exists>t. in_service_types w' p = [t] \<and>
     (\<forall>x y. current_status w' x y =
        (if (x, y) = (u, p) then f (cst_uuid t) (current_status w u p) else current_status w x y)))"

lemma current_status_cases:
  assumes "wf_status w"
  obtains "current_status w u p = []" | x where "current_status w u p = [x]"
  using current_status_length [OF assms, of u p] by (cases "current_status w u p") auto

lemma wf_status_types:
  assumes "wf_status w" and "get_or_create_status_type prj w = (r, w')"
  shows "wf_status w'"
  using keepsD [OF keeps_get_or_create assms(2)] assms(1) by (simp add: keeps_wf_status_def)

lemma sync_body_step:
  assumes wf: "wf_status w" and one: "length (in_service_types w p) \<le> 1"
    and past: "list_all (\<lambda>c. cus_created_on c \<le> env_now env) (statuses w)"
  shows "\<exists>w'. sync_body env u (Project_Obj p) w = (Inr (), w') \<and>
    status_step w w' u p (sync_step (active_room_count w u (Some p) > 0))"
proof -
  obtain t ts n where g: "get_or_create_status_type (Project_Obj p) w =
      (Inr t, w\<lparr>status_types := ts, next_id := n\<rparr>)" (is "_ = (_, ?w1)")
    and t: "filter (\<lambda>t. cst_name t = STATUS_NAME \<and> cst_project t = p) ts = [t]"
    by (rule get_or_create_total [OF wf one])
  have t1: "in_service_types ?w1 p = [t]" using t by (simp add: in_service_types_def)
  have wf1: "wf_status ?w1" by (rule wf_status_types [OF wf g])
  have cur: "current_status ?w1 = current_status w" by (intro ext) (simp add: current_status_def)
  have run: "sync_body env u (Project_Obj p) w =
     (case in_service_status ?w1 u t (Some p) of
        None \<Rightarrow> when_true (active_room_count w u (Some p) > 0
                  \<and> \<not> (\<exists>x \<in> set (current_status w u p). x \<noteq> cst_uuid t))
                  (custom_status_create env (Some u) t) ?w1
      | Some c \<Rightarrow> when_true (active_room_count w u (Some p) = 0) (end_status env c) ?w1)"
    using has_priority_result [OF t1, of u] cur
    by (simp add: sync_body_def bnd_def gets_def g split: option.splits)
  obtain cs n' where new: "custom_status_create env (Some u) t ?w1 =
      (Inr (), ?w1\<lparr>next_id := n', statuses := cs\<rparr>)"
    and newcur: "\<And>x y. current_status (?w1\<lparr>next_id := n', statuses := cs\<rparr>) x y =
           (if (x, y) = (u, p) then [cst_uuid t] else current_status ?w1 x y)"
    by (rule create_status_effect [OF wf1 t1]) blast
  show ?thesis
  proof (cases "in_service_status ?w1 u t (Some p)")
    case None
    then have "cst_uuid t \<notin> set (current_status w u p)"
      using in_service_status_result [of ?w1] cur by simp
    then show ?thesis
      using None run new newcur t1 cur
      by (cases rule: current_status_cases [OF wf, of u p])
        (auto simp: when_true_def ret_def status_step_def sync_step_def in_service_types_def)
  next
    case (Some c)
    then have "cst_uuid t \<in> set (current_status w u p)"
      using in_service_status_result [of ?w1 u t p] cur by auto
    then have here: "current_status w u p = [cst_uuid t]"
      by (cases rule: current_status_cases [OF wf, of u p]) auto
    have "cus_created_on c \<le> env_now env"
      using Some past by (auto simp: in_service_status_def find_Some_iff list_all_iff)
    then obtain cs where "end_status env c ?w1 = (Inr (), ?w1\<lparr>statuses := cs\<rparr>)"
      and "\<And>x y. current_status (?w1\<lparr>statuses := cs\<rparr>) x y =
           (if (x, y) = (u, p) then [] else current_status ?w1 x y)"
      by (rule end_status_effect [OF wf1 t1 Some]) blast
    then show ?thesis
      using Some run t1 cur here
      by (auto simp: when_true_def ret_def status_step_def sync_step_def in_service_types_def)
  qed
qed

lemma room_assigned_run:
  assumes wf: "wf_status w" and one: "length (in_service_types w p) \<le> 1"
    and perm: "find (\<lambda>x. prm_user x = Some u \<and> prm_project x = p) (live_permissions w) = Some prm"
  shows "\<exists>w'. status_step w w' u p
      (\<lambda>t cur. if active_room_count w u (Some p) \<ge> 1 \<and> cur = [] \<and> prm_status prm = ''ONLINE''
                then [t] else cur) \<and>
    (room_assigned env (Some u) (Some p) w = (Inr (), w') \<or>
     (\<exists>args. \<not> task_ok env ''log_agent_status_change'' args) \<and>
     room_assigned env (Some u) (Some p) w = (Inl (ExternalError ''log_agent_status_change''), w))"
proof -
  obtain t ts n where g: "get_or_create_status_type (Project_Obj p) w =
      (Inr t, w\<lparr>status_types := ts, next_id := n\<rparr>)" (is "_ = (_, ?w1)")
    and t: "filter (\<lambda>t. cst_name t = STATUS_NAME \<and> cst_project t = p) ts = [t]"
    by (rule get_or_create_total [OF wf one])
  have t1: "in_service_types ?w1 p = [t]" using t by (simp add: in_service_types_def)
  have wf1: "wf_status ?w1" by (rule wf_status_types [OF wf g])
  have cur: "current_status ?w1 = current_status w" by (intro ext) (simp add: current_status_def)
  obtain cs n' where new: "custom_status_create env (Some u) t ?w1 =
      (Inr (), ?w1\<lparr>next_id := n', statuses := cs\<rparr>)" (is "_ = (_, ?w2)")
    and newcur: "\<And>x y. current_status (?w1\<lparr>next_id := n', statuses := cs\<rparr>) x y =
           (if (x, y) = (u, p) then [cst_uuid t] else current_status ?w1 x y)"
    by (rule create_status_effect [OF wf1 t1]) blast
  define go where "go \<longleftrightarrow> active_room_count w u (Some p) \<ge> 1 \<and> current_status w u p = []
    \<and> prm_status prm = ''ONLINE''"
  have cond: "(active_room_count ?w1 u (Some p) \<ge> 1 \<and> in_service_status ?w1 u t (Some p) = None
      \<and> \<not> (\<exists>x \<in> set (current_status ?w1 u p). x \<noteq> cst_uuid t) \<and> prm_status prm = ''ONLINE'') = go"
    using in_service_status_result [of ?w1 u t p] cur
    by (cases rule: current_status_cases [OF wf, of u p]) (auto simp: go_def)
  let ?log = "delay env ''log_agent_status_change'' [u, p, ''OFFLINE'', cst_name t]"
  have run: "room_assigned env (Some u) (Some p) w =
      atomic (\<lambda>_. when_true go (andthen (custom_status_create env (Some u) t) ?log) ?w1) w"
    using has_priority_result [OF t1, of u]
    using perm cond [symmetric] by (simp add: room_assigned_def bnd_def gets_def g atomic_def)
  show ?thesis
  proof (cases go)
    case False
    then have "room_assigned env (Some u) (Some p) w = (Inr (), ?w1)"
      using run by (simp add: atomic_def ret_def)
    moreover have "status_step w ?w1 u p (\<lambda>t cur. if active_room_count w u (Some p) \<ge> 1
        \<and> cur = [] \<and> prm_status prm = ''ONLINE'' then [t] else cur)"
      using False t1 cur by (auto simp: status_step_def go_def)
    ultimately show ?thesis by blast
  next
    case True
    let ?w3 = "?w2\<lparr>effects := effects w @ [Enqueued ''log_agent_status_change''
      [u, p, ''OFFLINE'', cst_name t]]\<rparr>"
    have eff: "current_status (v\<lparr>effects := es\<rparr>) x y = current_status v x y"
      "in_service_types (v\<lparr>effects := es\<rparr>) y = in_service_types v y" for v es x y
      by (simp_all add: current_status_def in_service_types_def)
    have "status_step w ?w3 u p (\<lambda>t cur. if active_room_count w u (Some p) \<ge> 1
        \<and> cur = [] \<and> prm_status prm = ''ONLINE'' then [t] else cur)"
      using True newcur t1 cur unfolding status_step_def
      by (intro exI [of _ t]) (simp only: eff, auto simp: go_def in_service_types_def)
    moreover have "room_assigned env (Some u) (Some p) w =
        (if task_ok env ''log_agent_status_change'' [u, p, ''OFFLINE'', cst_name t]
         then (Inr (), ?w3) else (Inl (ExternalError ''log_agent_status_change''), rollback w ?w2))"
      using True run new by (simp add: atomic_def andthen_def bnd_def delay_def emit_def modify_def
          raise_def)
    ultimately show ?thesis by (auto simp: rollback_def)
  qed
qed

lemma room_closed_run:
  assumes wf: "wf_status w" and one: "length (in_service_types w p) \<le> 1"
    and past: "list_all (\<lambda>c. cus_created_on c \<le> env_now env) (statuses w)"
  shows "\<exists>w'. status_step w w' u p
      (\<lambda>t cur. if active_room_count w u (Some p) = 0 then filter (\<lambda>x. x \<noteq> t) cur else cur) \<and>
    (room_closed env (Some u) (Some p) w = (Inr (), w') \<or>
     (\<exists>args. \<not> task_ok env ''log_agent_status_change'' args) \<and>
     room_closed env (Some u) (Some p) w = (Inl (ExternalError ''log_agent_status_change''), w))"
proof -
  obtain t ts n where g: "get_or_create_status_type (Project_Obj p) w =
      (Inr t, w\<lparr>status_types := ts, next_id := n\<rparr>)" (is "_ = (_, ?w1)")
    and t: "filter (\<lambda>t. cst_name t = STATUS_NAME \<and> cst_project t = p) ts = [t]"
    by (rule get_or_create_total [OF wf one])
  have t1: "in_service_types ?w1 p = [t]" using t by (simp add: in_service_types_def)
  have wf1: "wf_status ?w1" by (rule wf_status_types [OF wf g])
  have cur: "current_status ?w1 = current_status w" by (intro ext) (simp add: current_status_def)
  let ?log = "delay env ''log_agent_status_change'' [u, p, ''ONLINE'']"
  have run: "room_closed env (Some u) (Some p) w = atomic (\<lambda>_.
      (if active_room_count w u (Some p) = 0 then
        (case in_service_status ?w1 u t (Some p) of None \<Rightarrow> (Inr (), ?w1)
         | Some c \<Rightarrow> andthen (end_status env c) ?log ?w1)
       else (Inr (), ?w1))) w"
    by (auto simp: room_closed_def bnd_def gets_def g atomic_def ret_def split: option.splits)
  show ?thesis
  proof (cases "active_room_count w u (Some p) = 0 \<and> in_service_status ?w1 u t (Some p) \<noteq> None")
    case False
    then have "room_closed env (Some u) (Some p) w = (Inr (), ?w1)"
      using run by (auto simp: atomic_def)
    moreover have "status_step w ?w1 u p
        (\<lambda>t cur. if active_room_count w u (Some p) = 0 then filter (\<lambda>x. x \<noteq> t) cur else cur)"
      using False t1 cur in_service_status_result [of ?w1 u t p]
      by (cases rule: current_status_cases [OF wf, of u p]) (auto simp: status_step_def)
    ultimately show ?thesis by blast
  next
    case True
    then obtain c where c: "in_service_status ?w1 u t (Some p) = Some c" by auto
    then have "cst_uuid t \<in> set (current_status w u p)"
      using in_service_status_result [of ?w1 u t p] cur by auto
    then have here: "current_status w u p = [cst_uuid t]"
      by (cases rule: current_status_cases [OF wf, of u p]) auto
    have "cus_created_on c \<le> env_now env"
      using c past by (auto simp: in_service_status_def find_Some_iff list_all_iff)
    then obtain cs where ended: "end_status env c ?w1 = (Inr (), ?w1\<lparr>statuses := cs\<rparr>)"
      and newcur: "\<And>x y. current_status (?w1\<lparr>statuses := cs\<rparr>) x y =
           (if (x, y) = (u, p) then [] else current_status ?w1 x y)"
      by (rule end_status_effect [OF wf1 t1 c]) blast
    let ?w3 = "?w1\<lparr>statuses := cs, effects := effects w @ [Enqueued ''log_agent_status_change''
      [u, p, ''ONLINE'']]\<rparr>"
    have eff: "current_status (v\<lparr>effects := es\<rparr>) x y = current_status v x y"
      "in_service_types (v\<lparr>effects := es\<rparr>) y = in_service_types v y" for v es x y
      by (simp_all add: current_status_def in_service_types_def)
    have "status_step w ?w3 u p
        (\<lambda>t cur. if active_room_count w u (Some p) = 0 then filter (\<lambda>x. x \<noteq> t) cur else cur)"
      using True newcur t1 cur here unfolding status_step_def
      by (intro exI [of _ t]) (simp only: eff, auto simp: in_service_types_def)
    moreover have "room_closed env (Some u) (Some p) w =
        (if task_ok env ''log_agent_status_change'' [u, p, ''ONLINE''] then (Inr (), ?w3)
         else (Inl (ExternalError ''log_agent_status_change''), rollback w (?w1\<lparr>statuses := cs\<rparr>)))"
      using True c run ended by (simp add: atomic_def andthen_def bnd_def delay_def emit_def
          modify_def raise_def)
    ultimately show ?thesis by (auto simp: rollback_def)
  qed
qed

lemma sync_agent_status_obj:
  "sync_agent_status env users (User_Obj u) (Project_Obj p) = atomic (sync_body env u (Project_Obj p))"
  by (simp add: sync_agent_status_def)

lemma sync_email_key:
  "\<not> is_digits u \<Longrightarrow> sync_agent_status env users (User_Key u) prj w =
     (Inl (ValueError ''Field id expected a number''), w)"
  by (simp add: sync_agent_status_def user_by_key_def atomic_def raise_def rollback_def)

lemma email_not_digits: "CHR ''@'' \<in> set u \<Longrightarrow> \<not> is_digits u"
proof
  assume "CHR ''@'' \<in> set u" and "is_digits u"
  then have "CHR ''@'' \<in> set ''0123456789''"
    unfolding is_digits_def list_all_iff by blast
  then show False by simp
qed

lemma for_each_still:
  "(\<And>x. x \<in> set xs \<Longrightarrow> f x w = (Inr (), w)) \<Longrightarrow> for_each f xs w = (Inr (), w)"
  by (induction xs) (simp_all add: py_defs)

lemma active_agents_user:
  "(u, p) \<in> set (active_agents w) \<Longrightarrow> \<exists>r \<in> set (rooms w). rm_user r = Some u"
  by (auto simp: active_agents_def split: option.splits if_splits)

section \<open>Properties\<close>

definition busy_world :: world where
  "busy_world = small_world\<lparr>rooms := [blank_room\<lparr>rm_user := Some ''a@x'', rm_queue := Some ''q''\<rparr>]\<rparr>"

lemmas busy_simps = busy_world_def sample_defs wf_status_def in_service_types_def
  active_room_count_def sector_of_def queue_of_def find_queue_def sector_of_queue_def find_sector_def
  current_status_def

text \<open>C4. \<open>sync_agent_status\<close> implements the abstract step on the current status of the agent: a
  busy agent without a status gets \<open>In-Service\<close>, a busy agent on a pause keeps it, an idle agent
  loses \<open>In-Service\<close> and nothing else, and no other agent or project is touched.\<close>

theorem sync_agent_status_refines:
  assumes "wf_status w" and "length (in_service_types w p) \<le> 1"
    and "list_all (\<lambda>c. cus_created_on c \<le> env_now env) (statuses w)"
  shows "\<exists>w'. sync_agent_status env users (User_Obj u) (Project_Obj p) w = (Inr (), w') \<and>
    status_step w w' u p (sync_step (active_room_count w u (Some p) > 0))"
  using sync_body_step [OF assms, of u] by (auto simp: sync_agent_status_obj atomic_def)

theorem sync_agent_status_refines_witness:
  "\<exists>w'. sync_agent_status calm_env (\<lambda>_. None) (User_Obj ''a@x'') (Project_Obj ''p'') busy_world
       = (Inr (), w') \<and>
     status_step busy_world w' ''a@x'' ''p''
       (sync_step (active_room_count busy_world ''a@x'' (Some ''p'') > 0))"
  by (rule sync_agent_status_refines) (simp_all add: busy_simps)

text \<open>\<open>room_assigned\<close> gives \<open>In-Service\<close> to an agent who is \<open>ONLINE\<close>, has a room and has no
  active status, and leaves every other status as it is; when the broker refuses the log task the
  exception escapes and the transaction undoes the status.\<close>

theorem room_assigned_refines:
  assumes "wf_status w" and "length (in_service_types w p) \<le> 1"
    and "find (\<lambda>x. prm_user x = Some u \<and> prm_project x = p) (live_permissions w) = Some prm"
  shows "\<exists>w'. status_step w w' u p
      (\<lambda>t cur. if active_room_count w u (Some p) \<ge> 1 \<and> cur = [] \<and> prm_status prm = ''ONLINE''
                then [t] else cur) \<and>
    (room_assigned env (Some u) (Some p) w = (Inr (), w') \<or>
     (\<exists>args. \<not> task_ok env ''log_agent_status_change'' args) \<and>
     room_assigned env (Some u) (Some p) w = (Inl (ExternalError ''log_agent_status_change''), w))"
  using room_assigned_run [OF assms] .

theorem room_assigned_refines_witness:
  "\<exists>w'. status_step busy_world w' ''a@x'' ''p''
      (\<lambda>t cur. if active_room_count busy_world ''a@x'' (Some ''p'') \<ge> 1 \<and> cur = []
                  \<and> prm_status blank_permission = ''ONLINE'' then [t] else cur) \<and>
    (room_assigned calm_env (Some ''a@x'') (Some ''p'') busy_world = (Inr (), w') \<or>
     (\<exists>args. \<not> task_ok calm_env ''log_agent_status_change'' args) \<and>
     room_assigned calm_env (Some ''a@x'') (Some ''p'') busy_world =
       (Inl (ExternalError ''log_agent_status_change''), busy_world))"
  by (rule room_assigned_refines) (simp_all add: busy_simps)

text \<open>\<open>room_closed\<close> ends the \<open>In-Service\<close> status of an agent without active rooms in the
  project and leaves every other status as it is, or, when the broker refuses the log task, leaves
  the database unchanged.\<close>

theorem room_closed_refines:
  assumes "wf_status w" and "length (in_service_types w p) \<le> 1"
    and "list_all (\<lambda>c. cus_created_on c \<le> env_now env) (statuses w)"
  shows "\<exists>w'. status_step w w' u p
      (\<lambda>t cur. if active_room_count w u (Some p) = 0 then filter (\<lambda>x. x \<noteq> t) cur else cur) \<and>
    (room_closed env (Some u) (Some p) w = (Inr (), w') \<or>
     (\<exists>args. \<not> task_ok env ''log_agent_status_change'' args) \<and>
     room_closed env (Some u) (Some p) w = (Inl (ExternalError ''log_agent_status_change''), w))"
  using room_closed_run [OF assms] .

theorem room_closed_refines_witness:
  "\<exists>w'. status_step small_world w' ''a@x'' ''p''
      (\<lambda>t cur. if active_room_count small_world ''a@x'' (Some ''p'') = 0
                then filter (\<lambda>x. x \<noteq> t) cur else cur) \<and>
    (room_closed calm_env (Some ''a@x'') (Some ''p'') small_world = (Inr (), w') \<or>
     (\<exists>args. \<not> task_ok calm_env ''log_agent_status_change'' args) \<and>
     room_closed calm_env (Some ''a@x'') (Some ''p'') small_world =
       (Inl (ExternalError ''log_agent_status_change''), small_world))"
  by (rule room_closed_refines) (simp_all add: busy_simps)

text \<open>C5. The status tables stay well formed, in particular a user has at most one active status
  per project, through any sequence of assignments, closures and synchronisations, whatever
  exceptions they raise.\<close>

datatype status_op =
    Op_Assigned "email option" "uuid option"
  | Op_Closed "email option" "uuid option"
  | Op_Sync user_ref project_ref
  | Op_Schedule

fun run_status_op :: "env \<Rightarrow> (string \<Rightarrow> email option) \<Rightarrow> status_op \<Rightarrow> world \<Rightarrow> world" where
  "run_status_op env users (Op_Assigned u p) w = snd (room_assigned env u p w)"
| "run_status_op env users (Op_Closed u p) w = snd (room_closed env u p w)"
| "run_status_op env users (Op_Sync u p) w = snd (sync_agent_status env users u p w)"
| "run_status_op env users Op_Schedule w = snd (schedule_sync_for_all_agents env users w)"

lemma run_status_op_wf: "wf_status w \<Longrightarrow> wf_status (run_status_op env users x w)"
  using keeps_room_assigned [of env] keeps_room_closed [of env] keeps_sync [of env users]
    keeps_schedule [of env users]
  by (cases x) (simp_all add: keeps_def keeps_wf_status_def)

theorem statuses_stay_unique:
  assumes "wf_status w"
  shows "wf_status (fold (\<lambda>(env, x). run_status_op env users x) ops w) \<and>
    length (current_status (fold (\<lambda>(env, x). run_status_op env users x) ops w) u p) \<le> 1"
proof -
  have "wf_status (fold (\<lambda>(env, x). run_status_op env users x) ops w)"
    using assms by (induction ops arbitrary: w) (auto intro: run_status_op_wf)
  then show ?thesis using current_status_length by blast
qed

theorem statuses_stay_unique_witness:
  "wf_status (fold (\<lambda>(env, x). run_status_op env (\<lambda>_. None) x)
      [(calm_env, Op_Assigned (Some ''a@x'') (Some ''p'')), (calm_env, Op_Schedule)] busy_world) \<and>
    length (current_status (fold (\<lambda>(env, x). run_status_op env (\<lambda>_. None) x)
      [(calm_env, Op_Assigned (Some ''a@x'') (Some ''p'')), (calm_env, Op_Schedule)] busy_world)
      ''a@x'' ''p'') \<le> 1"
  by (rule statuses_stay_unique) (simp add: busy_simps)

text \<open>The periodic synchronisation never changes anything: it looks users up by primary key
  with the email the query yields, so every iteration raises and is logged.\<close>

theorem schedule_sync_does_nothing:
  assumes "\<forall>r \<in> set (rooms w). \<forall>u. rm_user r = Some u \<longrightarrow> CHR ''@'' \<in> set u"
  shows "schedule_sync_for_all_agents env users w = (Inr (), w)"
proof -
  have "for_each (\<lambda>(u, p). try_except (atomic (sync_agent_status env users (User_Key u)
      (Project_Raw p))) (\<lambda>_. ret ())) (active_agents w) w = (Inr (), w)"
  proof (rule for_each_still)
    fix x assume x: "x \<in> set (active_agents w)"
    obtain u p where "x = (u, p)" by (cases x)
    with x have "CHR ''@'' \<in> set u" using assms active_agents_user by blast
    then show "(case x of (u, p) \<Rightarrow> try_except (atomic (sync_agent_status env users (User_Key u)
      (Project_Raw p))) (\<lambda>_. ret ())) w = (Inr (), w)"
      using \<open>x = (u, p)\<close> sync_email_key [OF email_not_digits]
      by (simp add: try_except_def atomic_def rollback_def ret_def)
  qed
  then show ?thesis by (simp add: schedule_sync_for_all_agents_def bnd_def gets_def)
qed

theorem schedule_sync_does_nothing_witness:
  "schedule_sync_for_all_agents calm_env (\<lambda>_. Some ''a@x'') busy_world = (Inr (), busy_world)"
  by (rule schedule_sync_does_nothing) (simp add: busy_simps)

section \<open>Frame\<close>

text \<open>The services write only the status tables.\<close>

definition status_frame :: "world \<Rightarrow> world \<Rightarrow> bool" where
  "status_frame s t \<longleftrightarrow> t = s\<lparr>status_types := status_types t, statuses := statuses t,
     next_id := next_id t, effects := effects t\<rparr>"

lemma status_frameI:
  "t = s\<lparr>status_types := a, statuses := b, next_id := c, effects := d\<rparr> \<Longrightarrow> status_frame s t"
  by (simp add: status_frame_def)

lemma status_frame_tables:
  assumes "status_frame s t"
  shows "rooms t = rooms s" "pins t = pins s" "queues t = queues s" "sectors t = sectors s"
    "projects t = projects s" "permissions t = permissions s" "messages t = messages s"
    "metrics t = metrics s" "room_notes t = room_notes s" "queue_auths t = queue_auths s"
    "sector_auths t = sector_auths s" "group_sectors t = group_sectors s"
    "group_members t = group_members s" "contacts t = contacts s"
    "link_contacts t = link_contacts s" "flow_starts t = flow_starts s"
  by (subst assms [unfolded status_frame_def], simp)+

interpretation status_frame: world_order status_frame
proof
  show "status_frame s s" for s by (simp add: status_frame_def)
  show "status_frame s t \<Longrightarrow> status_frame t u \<Longrightarrow> status_frame s u" for s t u
    unfolding status_frame_def by (cases s; cases t; cases u) simp
  show "status_frame s (s\<lparr>effects := es\<rparr>)" for s es
    by (simp add: status_frame_def)
qed

lemma frame_new_id: "keeps status_frame new_id"
  by (rule keepsI) (simp add: new_id_def status_frame_def)

lemma frame_modify_statuses: "keeps status_frame (modify (\<lambda>w. w\<lparr>statuses := f w\<rparr>))"
  "keeps status_frame (modify (\<lambda>w. w\<lparr>status_types := g w\<rparr>))"
  by (simp_all add: keeps_def modify_def status_frame_def)

lemmas frame_rules = status_frame.keeps_world frame_new_id frame_modify_statuses

lemma frame_custom_status_save: "keeps status_frame (custom_status_save b c)"
  unfolding custom_status_save_def write_status_def Let_def by (intro frame_rules)

lemma frame_custom_status_create: "keeps status_frame (custom_status_create env u t)"
  unfolding custom_status_create_def by (intro frame_rules frame_custom_status_save)

lemma frame_end_status: "keeps status_frame (end_status env c)"
  unfolding end_status_def by (rule frame_custom_status_save)

lemma frame_type_create: "keeps status_frame (custom_status_type_create nm p c)"
  unfolding custom_status_type_create_def custom_status_type_save_def Let_def by (intro frame_rules)

lemma frame_get_or_create: "keeps status_frame (get_or_create_status_type prj)"
  unfolding get_or_create_status_type_def
  by (cases prj) (auto intro!: frame_rules frame_type_create split: list.split)

lemma frame_has_priority: "keeps status_frame (has_priority_status u prj)"
  unfolding has_priority_status_def by (intro frame_rules frame_get_or_create)

lemma frame_room_assigned: "keeps status_frame (room_assigned env user prj)"
  unfolding room_assigned_def
  by (cases user; cases prj)
    (auto intro!: frame_rules frame_get_or_create frame_has_priority frame_custom_status_create)

lemma frame_room_closed: "keeps status_frame (room_closed env user prj)"
  unfolding room_closed_def
  by (cases user; cases prj) (auto intro!: frame_rules frame_get_or_create frame_end_status)

end
