(* ===== verification/Status_Log.thy ===== *)
theory Status_Log
  imports In_Service "HOL-Library.Sublist"
begin

text \<open>
  The daily log of an agent's reports (\<open>AgentStatusLog\<close>), the task that writes it
  (\<open>projects/tasks.py\<close>), and the report on online time that reads it
  (\<open>external/agents/calculator.py\<close>).

  \<^item> \<^bold>\<open>Stamps.\<close> \<open>local_now.isoformat()\<close> is kept as its two readings: \<open>Stamp wall offset\<close> is the
    local clock and the offset from UTC written behind it, both in microseconds. The report sorts
    these texts, so \<open>stamp\<close> is an instance of \<open>linorder\<close> with the order of the texts: the local
    clock first, then the offset, where \<open>+\<close> comes before \<open>-\<close>.
  \<^item> \<^bold>\<open>Time zones.\<close> The zone data is not part of the repository: \<open>utc_offset zone t\<close> is a parameter.
  \<^item> \<^bold>\<open>State.\<close> \<open>status_db\<close> is the tables of \<open>world\<close> with the users and the logs. A JSON key that
    is missing reads as \<open>None\<close>, as \<open>dict.get\<close> does.
  \<^item> \<^bold>\<open>Clock.\<close> The readings of \<open>timezone.now()\<close> in one call of the report are one \<open>now\<close>.
\<close>

section \<open>Stamps\<close>

datatype stamp = Stamp (wall: timestamp) (offset: int)

definition instant :: "stamp \<Rightarrow> timestamp" where
  "instant s = wall s - offset s"

definition day_micros :: int where
  "day_micros = 86400000000"

definition local_day :: "stamp \<Rightarrow> int" where
  "local_day s = wall s div day_micros"

definition utc_day :: "timestamp \<Rightarrow> int" where
  "utc_day t = t div day_micros"

instantiation stamp :: linorder
begin

definition less_eq_stamp :: "stamp \<Rightarrow> stamp \<Rightarrow> bool" where
  "less_eq_stamp a b \<longleftrightarrow> wall a < wall b \<or> wall a = wall b
     \<and> (0 \<le> offset a \<and> offset b < 0
        \<or> 0 \<le> offset a \<and> 0 \<le> offset b \<and> offset a \<le> offset b
        \<or> offset a < 0 \<and> offset b < 0 \<and> offset b \<le> offset a)"

definition less_stamp :: "stamp \<Rightarrow> stamp \<Rightarrow> bool" where
  "less_stamp a b \<longleftrightarrow> a \<le> b \<and> \<not> b \<le> a"

instance
  by standard (auto simp: less_eq_stamp_def less_stamp_def intro: stamp.expand)

end

text \<open>Under one offset the order of the texts is the order of the instants.\<close>

lemma same_offset_order: "offset a = offset b \<Longrightarrow> a \<le> b \<longleftrightarrow> instant a \<le> instant b"
  by (auto simp: less_eq_stamp_def instant_def)

section \<open>The tables\<close>

record status_change =
  chg_status :: string
  chg_stamp :: stamp
  chg_custom :: "string option"
  chg_type_uuid :: "uuid option"

record agent_status_log =
  asl_agent :: email
  asl_project :: uuid
  asl_date :: int
  asl_changes :: "status_change list"

record status_db =
  sd_world :: world
  sd_users :: "email list"
  sd_logs :: "agent_status_log list"

abbreviation log_at :: "email \<Rightarrow> uuid \<Rightarrow> int \<Rightarrow> agent_status_log \<Rightarrow> bool" where
  "log_at a p d l \<equiv> asl_agent l = a \<and> asl_project l = p \<and> asl_date l = d"

section \<open>The task\<close>

text \<open>
  The name the entry carries: the argument, or else the agent's active status in the project. The
  type's UUID is looked up with it and then not used.
\<close>

definition custom_name_of ::
  "world \<Rightarrow> email \<Rightarrow> uuid \<Rightarrow> string option \<Rightarrow> uuid option \<Rightarrow> exn + string option" where
  "custom_name_of w a p custom type_uuid =
     (if custom = None \<and> type_uuid = None
      then case find (\<lambda>c. cus_user c = Some a \<and> cus_project c = Some p \<and> cus_is_active c) (statuses w) of
             None \<Rightarrow> Inr None
           | Some c \<Rightarrow> (case find_status_type w (cus_status_type c) of
                          None \<Rightarrow> Inl (DoesNotExist ''CustomStatusType'')
                        | Some t \<Rightarrow> Inr (Some (cst_name t)))
      else Inr custom)"

definition local_now :: "(string \<Rightarrow> timestamp \<Rightarrow> int) \<Rightarrow> timestamp \<Rightarrow> project \<Rightarrow> stamp" where
  "local_now utc_offset now prj =
     (let off = utc_offset (prj_timezone prj) now in Stamp (now + off) off)"

definition status_entry :: "string \<Rightarrow> string option \<Rightarrow> stamp \<Rightarrow> status_change" where
  "status_entry status custom s =
     (if status = ''ONLINE''
      then \<lparr>chg_status = ''ONLINE'', chg_stamp = s, chg_custom = None, chg_type_uuid = None\<rparr>
      else if status = ''OFFLINE'' \<and> custom = None
      then \<lparr>chg_status = ''OFFLINE'', chg_stamp = s, chg_custom = None, chg_type_uuid = None\<rparr>
      else \<lparr>chg_status = (if custom = Some ''In-Service'' then ''In-Service'' else ''BREAK''),
            chg_stamp = s, chg_custom = custom, chg_type_uuid = None\<rparr>)"

definition is_duplicate :: "status_change \<Rightarrow> status_change \<Rightarrow> bool" where
  "is_duplicate last_change entry \<longleftrightarrow> chg_status last_change = chg_status entry
     \<and> chg_custom last_change = chg_custom entry \<and> chg_type_uuid last_change = chg_type_uuid entry"

definition write_log ::
  "email \<Rightarrow> uuid \<Rightarrow> int \<Rightarrow> status_change \<Rightarrow> agent_status_log list \<Rightarrow> agent_status_log list" where
  "write_log a p d entry ls = (case find (log_at a p d) ls of
     None \<Rightarrow> ls @ [\<lparr>asl_agent = a, asl_project = p, asl_date = d, asl_changes = [entry]\<rparr>]
   | Some l \<Rightarrow> if asl_changes l \<noteq> [] \<and> is_duplicate (last (asl_changes l)) entry then ls
       else update_where (log_at a p d) (\<lambda>l'. l'\<lparr>asl_changes := asl_changes l' @ [entry]\<rparr>) ls)"

definition fetch :: "exn \<Rightarrow> (status_db \<Rightarrow> 'a option) \<Rightarrow> (status_db, 'a) py" where
  "fetch e f = bnd (gets f) (\<lambda>found. case found of None \<Rightarrow> raise e | Some x \<Rightarrow> ret x)"

definition log_agent_status_change ::
  "(string \<Rightarrow> timestamp \<Rightarrow> int) \<Rightarrow> timestamp \<Rightarrow> email \<Rightarrow> uuid \<Rightarrow> string \<Rightarrow> string option
     \<Rightarrow> uuid option \<Rightarrow> (status_db, unit) py" where
  "log_agent_status_change utc_offset now agent_email project_uuid status custom type_uuid =
     bnd (fetch (DoesNotExist ''User'') (\<lambda>s. find (\<lambda>u. u = agent_email) (sd_users s))) (\<lambda>agent.
     bnd (fetch (DoesNotExist ''Project'') (\<lambda>s. find_project (sd_world s) project_uuid)) (\<lambda>prj.
     bnd (gets sd_world) (\<lambda>w.
     bnd (lift_result (custom_name_of w agent (prj_uuid prj) custom type_uuid)) (\<lambda>name.
     let here = local_now utc_offset now prj
     in modify (\<lambda>s. s\<lparr>sd_logs := write_log agent (prj_uuid prj) (local_day here)
                                   (status_entry status name here) (sd_logs s)\<rparr>)))))"

section \<open>The report on online time\<close>

definition is_online :: "status_change \<Rightarrow> bool" where
  "is_online c \<longleftrightarrow> chg_status c \<in> {''ONLINE'', ''In-Service''}"

text \<open>One turn of the loop over the events: the total and the open interval.\<close>

fun count_event :: "int \<times> timestamp option \<Rightarrow> status_change \<Rightarrow> int \<times> timestamp option" where
  "count_event (acc, None) c =
     (if is_online c then (acc, Some (instant (chg_stamp c))) else (acc, None))"
| "count_event (acc, Some b) c =
     (if is_online c then (acc, Some b) else (acc + (instant (chg_stamp c) - b), None))"

definition calculate_online_time :: "timestamp \<Rightarrow> status_change list \<Rightarrow> bool \<Rightarrow> int" where
  "calculate_online_time now events close_open_with_now =
     (case foldl count_event (0, None) events of
        (acc, None) \<Rightarrow> acc
      | (acc, Some b) \<Rightarrow> if close_open_with_now then acc + (now - b) else acc)"

definition events_map ::
  "agent_status_log list \<Rightarrow> email \<Rightarrow> status_change list option" where
  "events_map rows = foldl (\<lambda>m l. if asl_changes l = [] then m
     else m(asl_agent l \<mapsto> (case m (asl_agent l) of None \<Rightarrow> [] | Some cs \<Rightarrow> cs) @ asl_changes l))
     Map.empty rows"

definition last_day_map ::
  "int \<Rightarrow> agent_status_log list \<Rightarrow> email \<Rightarrow> status_change list option" where
  "last_day_map end_date rows = foldl (\<lambda>m l. if asl_changes l = [] \<or> asl_date l \<noteq> end_date then m
     else m(asl_agent l \<mapsto> asl_changes l)) Map.empty rows"

text \<open>\<open>order_by("agent__email", "-log_date").distinct("agent__email")\<close>: an agent's latest log.\<close>

definition latest_log :: "uuid \<Rightarrow> agent_status_log list \<Rightarrow> email \<Rightarrow> agent_status_log option" where
  "latest_log p ls a =
     (case sort_key (\<lambda>l. - asl_date l) (filter (\<lambda>l. asl_project l = p \<and> asl_agent l = a) ls) of
        [] \<Rightarrow> None | l # _ \<Rightarrow> Some l)"

definition build_agent_log_maps ::
  "timestamp \<Rightarrow> uuid \<Rightarrow> int option \<Rightarrow> int option \<Rightarrow> email list \<Rightarrow> agent_status_log list
     \<Rightarrow> (email \<Rightarrow> stamp option) \<times> (email \<Rightarrow> int option)" where
  "build_agent_log_maps now project_uuid start end' agent_emails ls =
     (let today = utc_day now;
          start_date = (case start of None \<Rightarrow> today | Some d \<Rightarrow> d);
          end_date = (case end' of None \<Rightarrow> today | Some d \<Rightarrow> d);
          rows = sort_key asl_date (filter (\<lambda>l. asl_project l = project_uuid
                   \<and> start_date \<le> asl_date l \<and> asl_date l \<le> end_date) ls);
          in_range = map_option (chg_stamp \<circ> last) \<circ> last_day_map end_date rows;
          fallback = (\<lambda>a. case latest_log project_uuid ls a of None \<Rightarrow> None
                     | Some l \<Rightarrow> if asl_changes l = [] then None
                                 else Some (chg_stamp (last (asl_changes l))))
      in ((\<lambda>a. if a \<in> set agent_emails \<and> in_range a = None then fallback a else in_range a),
          (\<lambda>a. map_option (\<lambda>events. trunc_seconds (calculate_online_time now
                  (sort_key chg_stamp events) (today \<le> end_date))) (events_map rows a))))"

section \<open>What a run of the task does\<close>

lemma log_agent_status_change_run:
  "log_agent_status_change off now a p st cn ct s =
     (if a \<notin> set (sd_users s) then (Inl (DoesNotExist ''User''), s)
      else case find_project (sd_world s) p of None \<Rightarrow> (Inl (DoesNotExist ''Project''), s)
      | Some prj \<Rightarrow> (case custom_name_of (sd_world s) a p cn ct of Inl e \<Rightarrow> (Inl e, s)
        | Inr name \<Rightarrow> (Inr (), s\<lparr>sd_logs := write_log a p (local_day (local_now off now prj))
            (status_entry st name (local_now off now prj)) (sd_logs s)\<rparr>)))"
proof -
  have user: "find (\<lambda>u. u = a) us = (if a \<in> set us then Some a else None)" for us
    by (induction us) auto
  have prj: "prj_uuid x = p" if "find_project (sd_world s) p = Some x" for x
    using that by (auto simp: find_project_def find_Some_iff)
  show ?thesis
    by (auto simp: log_agent_status_change_def fetch_def py_defs lift_result_def user Let_def
        dest: prj split: option.splits sum.splits)
qed

lemma chg_stamp_status_entry [simp]: "chg_stamp (status_entry st n s) = s"
  by (simp add: status_entry_def)

lemma chg_type_uuid_status_entry [simp]: "chg_type_uuid (status_entry st n s) = None"
  by (simp add: status_entry_def)

section \<open>Histories of reports\<close>

text \<open>
  The tasks write one after the other, under the lock of the row, each with its own tables of users,
  projects and statuses. A task reads the clock before it takes the lock, so tasks that overlap may
  write in another order than that of their clocks: \<open>now\<close> is arbitrary. The history keeps the entry
  each run made, in the order of writing.
\<close>

record report =
  rep_agent :: email
  rep_project :: uuid
  rep_entry :: status_change

inductive logged ::
  "(string \<Rightarrow> timestamp \<Rightarrow> int) \<Rightarrow> agent_status_log list \<Rightarrow> report list \<Rightarrow> bool"
  for off :: "string \<Rightarrow> timestamp \<Rightarrow> int" where
  logged_none: "logged off [] []"
| logged_failed:
    "logged off ls H \<Longrightarrow> sd_logs s = ls \<Longrightarrow>
     log_agent_status_change off now a p st cn ct s = (Inl e, s') \<Longrightarrow> logged off (sd_logs s') H"
| logged_report:
    "logged off ls H \<Longrightarrow> sd_logs s = ls \<Longrightarrow>
     log_agent_status_change off now a p st cn ct s = (Inr (), s') \<Longrightarrow>
     find_project (sd_world s) p = Some prj \<Longrightarrow>
     custom_name_of (sd_world s) a p cn ct = Inr name \<Longrightarrow>
     logged off (sd_logs s')
       (H @ [\<lparr>rep_agent = a, rep_project = p,
              rep_entry = status_entry st name (local_now off now prj)\<rparr>])"

definition reports_of :: "email \<Rightarrow> uuid \<Rightarrow> report list \<Rightarrow> status_change list" where
  "reports_of a p H = map rep_entry (filter (\<lambda>r. rep_agent r = a \<and> rep_project r = p) H)"

lemma reports_of_Nil [simp]: "reports_of a p [] = []"
  by (simp add: reports_of_def)

lemma reports_of_snoc [simp]:
  "reports_of a p (H @ [r]) =
     reports_of a p H @ (if rep_agent r = a \<and> rep_project r = p then [rep_entry r] else [])"
  by (simp add: reports_of_def)

lemma instant_local_now [simp]: "instant (local_now off now prj) = now"
  by (simp add: instant_def local_now_def Let_def)

text \<open>Induction over a history: each report is a call of \<open>write_log\<close>.\<close>

lemma logged_cases [consumes 1, case_names none report]:
  assumes run: "logged off ls H"
    and none: "P [] []"
    and report: "\<And>ls H a p st name s. logged off ls H \<Longrightarrow> P ls H \<Longrightarrow>
       P (write_log a p (local_day s) (status_entry st name s) ls)
         (H @ [\<lparr>rep_agent = a, rep_project = p, rep_entry = status_entry st name s\<rparr>])"
  shows "P ls H"
  using run
proof (induction rule: logged.induct)
  case (logged_failed ls H s now a p st cn ct e s')
  then show ?case by (auto simp: log_agent_status_change_run split: if_splits option.splits sum.splits)
next
  case (logged_report ls H s now a p st cn ct s' prj name)
  have "sd_logs s' = write_log a p (local_day (local_now off now prj))
                       (status_entry st name (local_now off now prj)) ls"
    using logged_report.hyps by (auto simp: log_agent_status_change_run split: if_splits)
  then show ?case using report logged_report by simp
qed (rule none)

section \<open>The log stays well formed\<close>

definition shape :: "status_change \<Rightarrow> string \<times> string option \<times> uuid option" where
  "shape c = (chg_status c, chg_custom c, chg_type_uuid c)"

lemma is_duplicate_shape: "is_duplicate c d \<longleftrightarrow> shape c = shape d"
  by (auto simp: is_duplicate_def shape_def)

definition well_formed_log :: "agent_status_log \<Rightarrow> bool" where
  "well_formed_log l \<longleftrightarrow> asl_changes l \<noteq> []
     \<and> (\<forall>c\<in>set (asl_changes l). local_day (chg_stamp c) = asl_date l)
     \<and> distinct_adj (map shape (asl_changes l))"

definition log_key :: "agent_status_log \<Rightarrow> email \<times> uuid \<times> int" where
  "log_key l = (asl_agent l, asl_project l, asl_date l)"

definition well_formed_logs :: "agent_status_log list \<Rightarrow> bool" where
  "well_formed_logs ls \<longleftrightarrow> distinct (map log_key ls) \<and> (\<forall>l\<in>set ls. well_formed_log l)"

abbreviation moment :: "status_change \<Rightarrow> timestamp" where
  "moment c \<equiv> instant (chg_stamp c)"

lemma well_formed_log_append:
  assumes "well_formed_log l" and "local_day (chg_stamp e) = asl_date l" "\<not> is_duplicate (last (asl_changes l)) e"
  shows "well_formed_log (l\<lparr>asl_changes := asl_changes l @ [e]\<rparr>)"
  using assms by (auto simp: well_formed_log_def is_duplicate_shape distinct_adj_append_iff last_map)

lemma well_formed_log_single:
  "local_day (chg_stamp e) = d \<Longrightarrow>
   well_formed_log \<lparr>asl_agent = a, asl_project = p, asl_date = d, asl_changes = [e]\<rparr>"
  by (simp add: well_formed_log_def)

lemma log_at_key: "log_at a p d l \<longleftrightarrow> log_key l = (a, p, d)"
  by (auto simp: log_key_def)

text \<open>The three things a run of the task may do to the table.\<close>

lemma write_log_cases:
  assumes "distinct (map log_key ls)"
  obtains (fresh) "\<forall>l\<in>set ls. \<not> log_at a p d l"
      "write_log a p d e ls = ls @ [\<lparr>asl_agent = a, asl_project = p, asl_date = d, asl_changes = [e]\<rparr>]"
  | (same) l where "l \<in> set ls" "log_at a p d l" "asl_changes l \<noteq> []"
      "is_duplicate (last (asl_changes l)) e" "write_log a p d e ls = ls"
  | (more) xs l ys where "ls = xs @ l # ys" "log_at a p d l"
      "asl_changes l = [] \<or> \<not> is_duplicate (last (asl_changes l)) e"
      "write_log a p d e ls = xs @ l\<lparr>asl_changes := asl_changes l @ [e]\<rparr> # ys"
proof (cases "find (log_at a p d) ls")
  case None
  then have "write_log a p d e ls
               = ls @ [\<lparr>asl_agent = a, asl_project = p, asl_date = d, asl_changes = [e]\<rparr>]"
    by (simp add: write_log_def)
  then show ?thesis using None by (intro fresh) (auto simp: find_None_iff)
next
  case (Some l)
  then have l: "l \<in> set ls" "log_at a p d l" by (auto simp: find_Some_iff)
  show ?thesis
  proof (cases "asl_changes l \<noteq> [] \<and> is_duplicate (last (asl_changes l)) e")
    case True
    then show ?thesis using l Some by (intro same[of l]) (auto simp: write_log_def)
  next
    case False
    obtain xs ys where ls: "ls = xs @ l # ys" using l(1) by (auto simp: in_set_conv_decomp)
    have others: "update_where (log_at a p d) f zs = zs" if "(a, p, d) \<notin> log_key ` set zs" for f zs
      using that by (force simp: update_where_def log_at_key intro!: map_idI)
    have "(a, p, d) \<notin> log_key ` set xs" "(a, p, d) \<notin> log_key ` set ys"
      using assms l(2) unfolding ls log_at_key by auto
    then have "write_log a p d e ls = xs @ l\<lparr>asl_changes := asl_changes l @ [e]\<rparr> # ys"
      using False Some l(2) others unfolding write_log_def ls
      by (auto simp: update_where_def)
    then show ?thesis using ls l(2) False by (intro more) auto
  qed
qed

lemma write_log_well_formed:
  assumes good: "well_formed_logs ls" and d: "d = local_day (chg_stamp e)"
  shows "well_formed_logs (write_log a p d e ls)"
proof -
  have dist: "distinct (map log_key ls)" using good by (simp add: well_formed_logs_def)
  show ?thesis
  using dist proof (cases rule: write_log_cases[where a = a and p = p and d = d and e = e])
    case fresh
    then have "(a, p, d) \<notin> log_key ` set ls" by (auto simp: log_at_key)
    then show ?thesis
      using good fresh(2) well_formed_log_single[of e d a p] d
      by (auto simp: well_formed_logs_def log_key_def)
  next
    case (same l)
    then show ?thesis using good by simp
  next
    case (more xs l ys)
    have l: "well_formed_log l" using good more(1) by (auto simp: well_formed_logs_def)
    have "\<not> is_duplicate (last (asl_changes l)) e" using more(3) l by (auto simp: well_formed_log_def)
    then have "well_formed_log (l\<lparr>asl_changes := asl_changes l @ [e]\<rparr>)"
      using l d more(2) by (intro well_formed_log_append) auto
    then show ?thesis using good more(1,4) by (auto simp: well_formed_logs_def log_key_def)
  qed
qed

lemma logged_invariant:
  assumes "logged off ls H"
  shows "well_formed_logs ls \<and> (\<forall>l\<in>set ls. subseq (asl_changes l) (reports_of (asl_agent l) (asl_project l) H))"
  using assms
proof (induction rule: logged_cases)
  case none
  then show ?case by (simp add: well_formed_logs_def)
next
  case (report ls H a p st name s)
  let ?e = "status_entry st name s"
  let ?H = "H @ [\<lparr>rep_agent = a, rep_project = p, rep_entry = ?e\<rparr>]"
  have dist: "distinct (map log_key ls)" using report by (simp add: well_formed_logs_def)
  have good: "well_formed_logs (write_log a p (local_day s) ?e ls)"
    using report by (intro write_log_well_formed) auto
  have old: "subseq (asl_changes l) (reports_of (asl_agent l) (asl_project l) ?H)" if "l \<in> set ls" for l
    using report.IH that by auto
  have grown: "subseq (asl_changes l @ [?e]) (reports_of a p ?H)" if "l \<in> set ls" "log_at a p (local_day s) l" for l
    using report.IH that by auto
  have "subseq (asl_changes l) (reports_of (asl_agent l) (asl_project l) ?H)"
    if "l \<in> set (write_log a p (local_day s) ?e ls)" for l
    using dist
  proof (cases rule: write_log_cases[where a = a and p = p and d = "local_day s" and e = ?e])
    case fresh
    then have "l \<in> set ls \<or> l = \<lparr>asl_agent = a, asl_project = p, asl_date = local_day s, asl_changes = [?e]\<rparr>"
      using that by auto
    moreover have "subseq [?e] (reports_of a p ?H)" by (simp add: list_emb_append2)
    ultimately show ?thesis using old by fastforce
  next
    case (same x)
    then show ?thesis using that old by simp
  next
    case (more xs x ys)
    then have "l \<in> set ls \<or> l = x\<lparr>asl_changes := asl_changes x @ [?e]\<rparr>" and x: "x \<in> set ls"
      using that by auto
    then show ?thesis using old grown [OF x more(2)] more(2) by fastforce
  qed
  with good show ?case by blast
qed

lemma sorted_subseq: "subseq xs ys \<Longrightarrow> sorted (map f ys) \<Longrightarrow> sorted (map f xs)"
  by (induction rule: list_emb.induct) (auto dest: list_emb_set)

text \<open>C38. Whatever the tasks report, an agent has one log per project and local day; it is never empty,
  all its entries are of that day, no two neighbours say the same, and they are reports of the agent in
  the order in which the tasks wrote them: when the tasks wrote in the order of their clocks, the log is
  in the order of time.
\<close>

theorem status_logs_well_formed:
  assumes "logged off ls H"
  shows "distinct (map log_key ls) \<and> (\<forall>l\<in>set ls. well_formed_log l \<and>
    subseq (asl_changes l) (reports_of (asl_agent l) (asl_project l) H) \<and>
    (sorted (map moment (reports_of (asl_agent l) (asl_project l) H)) \<longrightarrow> sorted (map moment (asl_changes l))))"
  using logged_invariant[OF assms] by (auto simp: well_formed_logs_def intro: sorted_subseq)

section \<open>Online time is the time under an online report\<close>

text \<open>What the latest of the entries made by \<open>t\<close> says.\<close>

definition online_at :: "status_change list \<Rightarrow> timestamp \<Rightarrow> bool" where
  "online_at cs t = (case filter (\<lambda>c. moment c \<le> t) cs of [] \<Rightarrow> False | ds \<Rightarrow> is_online (last ds))"

definition online_moments :: "status_change list \<Rightarrow> timestamp \<Rightarrow> timestamp set" where
  "online_moments cs now = {t. t < now \<and> online_at cs t}"

lemma online_at_last:
  "online_at cs t = (let ds = filter (\<lambda>c. moment c \<le> t) cs in ds \<noteq> [] \<and> is_online (last ds))"
  by (auto simp: online_at_def split: list.splits)

lemma online_at_snoc:
  "online_at (cs @ [c]) t = (if moment c \<le> t then is_online c else online_at cs t)"
  by (simp add: online_at_last Let_def)

lemma online_at_after:
  "\<forall>c\<in>set cs. moment c \<le> t \<Longrightarrow> online_at cs t \<longleftrightarrow> cs \<noteq> [] \<and> is_online (last cs)"
  by (simp add: online_at_last Let_def)

text \<open>
  The loop's running total, with the open interval closed at \<open>now\<close>, counts the moments before
  \<open>now\<close> at which the latest entry is an online one.
\<close>

definition closed_total :: "timestamp \<Rightarrow> int \<times> timestamp option \<Rightarrow> int" where
  "closed_total now r = fst r + (case snd r of None \<Rightarrow> 0 | Some b \<Rightarrow> now - b)"

lemma closed_total_step:
  "closed_total now (count_event r c) =
     closed_total (moment c) r + (if is_online c then now - moment c else 0)"
  by (cases "(r, c)" rule: count_event.cases) (auto simp: closed_total_def)

lemma online_moments_snoc:
  assumes "moment c \<le> now"
  shows "online_moments (cs @ [c]) now =
           online_moments cs (moment c) \<union> (if is_online c then {moment c..<now} else {})"
  using assms by (auto simp: online_moments_def online_at_snoc split: if_splits)

lemma closed_total_counts:
  "sorted (map moment cs) \<Longrightarrow> \<forall>c\<in>set cs. moment c \<le> now \<Longrightarrow>
   finite (online_moments cs now)
     \<and> closed_total now (foldl count_event (0, None) cs) = int (card (online_moments cs now))"
proof (induction cs arbitrary: now rule: rev_induct)
  case Nil
  then show ?case by (simp add: online_moments_def online_at_def closed_total_def)
next
  case (snoc c cs)
  have IH: "finite (online_moments cs (moment c))"
    "closed_total (moment c) (foldl count_event (0, None) cs) = int (card (online_moments cs (moment c)))"
    using snoc.IH[of "moment c"] snoc.prems(1) by (auto simp: sorted_append)
  have "online_moments cs (moment c) \<inter> {moment c..<now} = {}" by (auto simp: online_moments_def)
  then show ?case
    using IH snoc.prems(2)
    by (auto simp: online_moments_snoc closed_total_step card_Un_disjoint)
qed

lemma calculate_online_time_counts:
  "sorted (map moment cs) \<Longrightarrow> \<forall>c\<in>set cs. moment c \<le> now \<Longrightarrow>
   calculate_online_time now cs True = int (card (online_moments cs now))"
  using closed_total_counts[of cs now]
  by (auto simp: calculate_online_time_def closed_total_def split: prod.splits option.splits)

section \<open>The log against the reports\<close>

definition logs_of :: "email \<Rightarrow> uuid \<Rightarrow> agent_status_log list \<Rightarrow> agent_status_log list" where
  "logs_of a p ls = filter (\<lambda>l. asl_agent l = a \<and> asl_project l = p) ls"

definition entries_of :: "email \<Rightarrow> uuid \<Rightarrow> agent_status_log list \<Rightarrow> status_change list" where
  "entries_of a p ls = concat (map asl_changes (logs_of a p ls))"

lemma logs_of_append [simp]: "logs_of a p (ls @ ms) = logs_of a p ls @ logs_of a p ms"
  by (simp add: logs_of_def)

lemma logs_of_write_other:
  assumes "distinct (map log_key ls)" "(a', p') \<noteq> (a, p)"
  shows "logs_of a p (write_log a' p' d e ls) = logs_of a p ls"
  using assms(1)
  by (cases rule: write_log_cases[where a = a' and p = p' and d = d and e = e])
     (use assms(2) in \<open>auto simp: logs_of_def\<close>)

text \<open>
  With one offset the days of an agent's logs only grow, so a report goes to the end of the last
  log, opens a later one, or repeats the last entry.
\<close>

lemma entries_of_write:
  assumes dist: "distinct (map log_key ls)" and full: "\<forall>l\<in>set (logs_of a p ls). asl_changes l \<noteq> []"
    and days: "sorted_wrt (<) (map asl_date (logs_of a p ls))"
    and late: "\<forall>l\<in>set (logs_of a p ls). asl_date l \<le> d"
  shows "sorted_wrt (<) (map asl_date (logs_of a p (write_log a p d e ls)))
     \<and> (\<forall>l\<in>set (logs_of a p (write_log a p d e ls)). asl_date l \<le> d)
     \<and> (entries_of a p (write_log a p d e ls) = entries_of a p ls @ [e]
        \<or> entries_of a p (write_log a p d e ls) = entries_of a p ls \<and> entries_of a p ls \<noteq> []
          \<and> is_duplicate (last (entries_of a p ls)) e)"
  using dist
proof (cases rule: write_log_cases[where a = a and p = p and d = d and e = e])
  case fresh
  then have "\<forall>l\<in>set (logs_of a p ls). asl_date l < d" using late by (fastforce simp: logs_of_def)
  then show ?thesis
    using days fresh(2) by (auto simp: logs_of_def entries_of_def sorted_wrt_append)
next
  case (same l)
  obtain xs ys where split: "logs_of a p ls = xs @ l # ys"
    using same(1,2) by (metis (mono_tags, lifting) in_set_conv_decomp logs_of_def mem_Collect_eq set_filter)
  have "ys = []" using days late same(2) unfolding split by (cases ys) (auto simp: sorted_wrt_append)
  then have "last (entries_of a p ls) = last (asl_changes l)" "entries_of a p ls \<noteq> []"
    using same(3) by (auto simp: entries_of_def split)
  then show ?thesis using same(4,5) days late by simp
next
  case (more xs l ys)
  have parts: "logs_of a p ls = logs_of a p xs @ l # logs_of a p ys"
    using more(1,2) by (simp add: logs_of_def)
  have last: "logs_of a p ys = []"
    using days late more(2) unfolding parts
    by (cases "logs_of a p ys") (auto simp: sorted_wrt_append)
  have written: "logs_of a p (write_log a p d e ls)
                   = logs_of a p xs @ [l\<lparr>asl_changes := asl_changes l @ [e]\<rparr>]"
    using more(2,4) last by (simp add: logs_of_def)
  show ?thesis
    using days late unfolding written parts entries_of_def last by (auto simp: sorted_wrt_append)
qed

lemma same_status_online: "is_duplicate c d \<Longrightarrow> is_online c = is_online d"
  by (auto simp: is_duplicate_def is_online_def)

lemma local_day_mono:
  "offset s = offset t \<Longrightarrow> instant s \<le> instant t \<Longrightarrow> local_day s \<le> local_day t"
  by (auto simp: local_day_def instant_def day_micros_def intro: zdiv_mono1)

lemma reports_of_mem:
  "c \<in> set (reports_of a p H) \<longleftrightarrow>
     (\<exists>r\<in>set H. rep_agent r = a \<and> rep_project r = p \<and> rep_entry r = c)"
  by (auto simp: reports_of_def)

definition log_says :: "email \<Rightarrow> uuid \<Rightarrow> agent_status_log list \<Rightarrow> report list \<Rightarrow> bool" where
  "log_says a p ls H \<longleftrightarrow> sorted_wrt (<) (map asl_date (logs_of a p ls))
     \<and> set (entries_of a p ls) \<subseteq> set (reports_of a p H)
     \<and> sorted (map moment (entries_of a p ls))
     \<and> online_at (entries_of a p ls) = online_at (reports_of a p H)
     \<and> (reports_of a p H \<noteq> [] \<longrightarrow> entries_of a p ls \<noteq> [])"

lemma log_says_grow:
  assumes says: "set E \<subseteq> set R" "sorted (map moment E)" "online_at E = online_at R"
    and later: "\<forall>c\<in>set E. moment c \<le> moment e"
    and step: "E' = E @ [e] \<or> E' = E \<and> E \<noteq> [] \<and> is_duplicate (last E) e"
  shows "set E' \<subseteq> set (R @ [e]) \<and> sorted (map moment E') \<and> online_at E' = online_at (R @ [e]) \<and> E' \<noteq> []"
  using step
proof (elim disjE conjE)
  assume "E' = E @ [e]"
  then show ?thesis using says later by (auto simp: sorted_append fun_eq_iff online_at_snoc)
next
  assume E: "E' = E" "E \<noteq> []" "is_duplicate (last E) e"
  have "online_at E t = is_online e" if "moment e \<le> t" for t
    using that E later same_status_online[OF E(3)] by (subst online_at_after) (auto intro: order_trans)
  then show ?thesis using says E by (auto simp: fun_eq_iff online_at_snoc)
qed

lemma logged_says:
  assumes "logged off ls H"
    and "\<forall>r\<in>set H. rep_project r = p \<longrightarrow> offset (chg_stamp (rep_entry r)) = o'"
    and "sorted (map moment (reports_of a p H))"
  shows "log_says a p ls H"
  using assms
proof (induction rule: logged_cases)
  case none
  then show ?case by (simp add: log_says_def logs_of_def entries_of_def)
next
  case (report ls H b q st name s)
  let ?e = "status_entry st name s" and ?ls = "write_log b q (local_day s) (status_entry st name s) ls"
  have inv: "well_formed_logs ls" using logged_invariant report.hyps(1) by blast
  then have dist: "distinct (map log_key ls)" by (simp add: well_formed_logs_def)
  have IH: "log_says a p ls H" using report.IH report.prems by (auto simp: sorted_append split: if_splits)
  show ?case
  proof (cases "b = a \<and> q = p")
    case False
    then show ?thesis
      using IH logs_of_write_other[OF dist, of b q a p]
      by (auto simp: log_says_def entries_of_def)
  next
    case True
    have said: "moment c \<le> instant s \<and> local_day (chg_stamp c) \<le> local_day s"
      if "c \<in> set (entries_of a p ls)" for c
    proof -
      have "c \<in> set (reports_of a p H)" using that IH by (auto simp: log_says_def)
      then obtain r where r: "r \<in> set H" "rep_project r = p" "rep_entry r = c"
        by (auto simp: reports_of_mem)
      moreover have "moment c \<le> instant s"
        using report.prems(2) True \<open>c \<in> set (reports_of a p H)\<close> by (auto simp: sorted_append)
      ultimately have "moment c \<le> instant s" "offset (chg_stamp c) = offset s"
        using report.prems(1) True by auto
      then show ?thesis using local_day_mono by blast
    qed
    have full: "\<forall>l\<in>set (logs_of a p ls). asl_changes l \<noteq> []"
      using inv by (auto simp: well_formed_logs_def well_formed_log_def logs_of_def)
    have late: "asl_date l \<le> local_day s" if l: "l \<in> set (logs_of a p ls)" for l
    proof -
      obtain c where c: "c \<in> set (asl_changes l)" using full l by fastforce
      then have "local_day (chg_stamp c) = asl_date l"
        using inv l by (auto simp: well_formed_logs_def well_formed_log_def logs_of_def)
      moreover have "c \<in> set (entries_of a p ls)" using c l by (auto simp: entries_of_def)
      ultimately show ?thesis using said by metis
    qed
    have step: "sorted_wrt (<) (map asl_date (logs_of a p ?ls))"
      "entries_of a p ?ls = entries_of a p ls @ [?e]
         \<or> entries_of a p ?ls = entries_of a p ls \<and> entries_of a p ls \<noteq> []
           \<and> is_duplicate (last (entries_of a p ls)) ?e"
      using entries_of_write[OF dist full, of "local_day s" ?e] IH late True
      by (auto simp: log_says_def)
    then show ?thesis
      using log_says_grow[OF _ _ _ _ step(2), of "reports_of a p H"] IH said True
      by (simp add: log_says_def)
  qed
qed

text \<open>What the report's loop over the rows collects for an agent.\<close>

lemma events_map_collects:
  "events_map rows a = (let cs = concat (map asl_changes (filter (\<lambda>l. asl_agent l = a) rows))
                        in if cs = [] then None else Some cs)"
  unfolding events_map_def
  by (induction rows rule: rev_induct)
     (auto simp: Let_def simp del: concat_eq_Nil_conv dest: concat_eq_Nil_conv[THEN iffD1] split: option.splits if_splits)

lemma sorted_stamps:
  "sorted (map moment cs) \<Longrightarrow> \<forall>c\<in>set cs. offset (chg_stamp c) = o' \<Longrightarrow> sorted (map chg_stamp cs)"
  by (auto simp: sorted_map sorted_wrt_iff_nth_less same_offset_order)

lemma online_time_of_log:
  assumes says: "log_says a p ls H" and some: "reports_of a p H \<noteq> []"
    and zone: "\<forall>c\<in>set (reports_of a p H). offset (chg_stamp c) = o'"
    and past: "\<forall>c\<in>set (reports_of a p H). moment c \<le> now"
    and range: "\<forall>l\<in>set (logs_of a p ls). s \<le> asl_date l \<and> asl_date l \<le> e" and today: "utc_day now \<le> e"
  shows "snd (build_agent_log_maps now p (Some s) (Some e) emails ls) a
           = Some (int (card (online_moments (reports_of a p H) now)) div 1000000)"
proof -
  let ?rows = "sort_key asl_date (filter (\<lambda>l. asl_project l = p \<and> s \<le> asl_date l \<and> asl_date l \<le> e) ls)"
  let ?E = "entries_of a p ls"
  have "filter (\<lambda>l. asl_agent l = a) (filter (\<lambda>l. asl_project l = p \<and> s \<le> asl_date l \<and> asl_date l \<le> e) ls)
          = logs_of a p ls"
    using range by (auto simp: logs_of_def intro!: filter_cong)
  then have "filter (\<lambda>l. asl_agent l = a) ?rows = sort_key asl_date (logs_of a p ls)"
    by (simp add: filter_sort)
  also have "\<dots> = logs_of a p ls"
    using says by (intro sort_key_id_if_sorted) (auto simp: log_says_def intro: strict_sorted_imp_sorted)
  finally have ev: "events_map ?rows a = Some ?E"
    using says some by (simp add: events_map_collects entries_of_def log_says_def)
  have mem: "set ?E \<subseteq> set (reports_of a p H)" using says by (simp add: log_says_def)
  have "sort_key chg_stamp ?E = ?E"
    using says zone mem
    by (intro sort_key_id_if_sorted sorted_stamps) (auto simp: log_says_def)
  moreover have "calculate_online_time now ?E True = int (card (online_moments ?E now))"
    using says past mem by (intro calculate_online_time_counts) (auto simp: log_says_def)
  moreover have "online_moments ?E now = online_moments (reports_of a p H) now"
    using says by (simp add: online_moments_def log_says_def)
  ultimately show ?thesis
    using ev today by (simp add: build_agent_log_maps_def trunc_seconds_def Let_def)
qed

text \<open>C39. Suppose the project's clock keeps one offset from UTC, and the tasks wrote the agent's reports in
  the order of their clocks. Then the report over a range that covers the agent's reports and today gives,
  in whole seconds, the time before now at which the agent's latest report was \<open>ONLINE\<close> or
  \<open>In-Service\<close>: neither the entries dropped as duplicates nor the split into days changes it.
\<close>

theorem online_time_counts_reports:
  assumes "logged off ls H" and "reports_of a p H \<noteq> []"
    and "\<forall>r\<in>set H. rep_project r = p \<longrightarrow> offset (chg_stamp (rep_entry r)) = o'"
    and "sorted (map moment (reports_of a p H))"
    and "\<forall>c\<in>set (reports_of a p H). moment c \<le> now
           \<and> s \<le> local_day (chg_stamp c) \<and> local_day (chg_stamp c) \<le> e"
    and "utc_day now \<le> e"
  shows "snd (build_agent_log_maps now p (Some s) (Some e) emails ls) a
           = Some (int (card (online_moments (reports_of a p H) now)) div 1000000)"
proof (rule online_time_of_log[OF logged_says[OF assms(1,3,4)] assms(2) _ _ _ assms(6)])
  show "\<forall>c\<in>set (reports_of a p H). offset (chg_stamp c) = o'"
    using assms(3) by (auto simp: reports_of_mem)
  show "\<forall>c\<in>set (reports_of a p H). moment c \<le> now" using assms(5) by blast
  show "\<forall>l\<in>set (logs_of a p ls). s \<le> asl_date l \<and> asl_date l \<le> e"
  proof
    fix l assume l: "l \<in> set (logs_of a p ls)"
    then have good: "well_formed_log l"
      using logged_invariant[OF assms(1)] by (auto simp: well_formed_logs_def logs_of_def)
    then obtain c where c: "c \<in> set (asl_changes l)" "local_day (chg_stamp c) = asl_date l"
      by (fastforce simp: well_formed_log_def neq_Nil_conv)
    then have "c \<in> set (reports_of a p H)"
      using logged_says[OF assms(1,3,4)] l by (force simp: log_says_def entries_of_def)
    then show "s \<le> asl_date l \<and> asl_date l \<le> e" using assms(5) c(2) by auto
  qed
qed

section \<open>What the report does not count\<close>

definition at_wall :: "string \<Rightarrow> timestamp \<Rightarrow> int \<Rightarrow> status_change" where
  "at_wall status t off = status_entry status None (Stamp t off)"

definition day_log :: "int \<Rightarrow> status_change list \<Rightarrow> agent_status_log" where
  "day_log d cs = \<lparr>asl_agent = ''ana'', asl_project = ''p'', asl_date = d, asl_changes = cs\<rparr>"

definition hour :: int where
  "hour = 3600000000"

lemmas report_eval = build_agent_log_maps_def calculate_online_time_def events_map_def day_log_def
  at_wall_def status_entry_def is_online_def instant_def hour_def day_micros_def utc_day_def
  trunc_seconds_def last_day_map_def latest_log_def less_eq_stamp_def

text \<open>
  An agent online from eleven at night to one in the morning: the day before has no end for the
  stretch and today no beginning, so each day alone counts nothing; both together count two hours.
\<close>

lemma midnight_stretch_lost:
  defines "ls \<equiv> [day_log 0 [at_wall ''ONLINE'' (23 * hour) 0], day_log 1 [at_wall ''OFFLINE'' (25 * hour) 0]]"
  shows "snd (build_agent_log_maps (50 * hour) ''p'' (Some 0) (Some 0) [] ls) ''ana'' = Some 0"
    and "snd (build_agent_log_maps (50 * hour) ''p'' (Some 1) (Some 1) [] ls) ''ana'' = Some 0"
    and "snd (build_agent_log_maps (50 * hour) ''p'' (Some 0) (Some 1) [] ls) ''ana'' = Some 7200"
  by (simp_all add: ls_def report_eval)

text \<open>
  Without dates the range is today by UTC, while the logs are dated by the project's clock: at ten
  in the evening at UTC-3 an agent who came online an hour ago is not in the report.
\<close>

lemma evening_not_in_range:
  "snd (build_agent_log_maps (25 * hour) ''p'' None None []
          [day_log 0 [at_wall ''ONLINE'' (21 * hour) (- 3 * hour)]]) ''ana'' = None"
  by (simp add: report_eval)

text \<open>
  Reports are dropped as duplicates by their place in the log, which is the order of the row lock. An agent
  is online at eight, offline at nine and online again at ten; when the last task writes before the one of
  nine, its report is a duplicate, and at eleven one hour is counted instead of two.
\<close>

lemma overlap_drops_report:
  defines "step \<equiv> \<lambda>c. write_log ''ana'' ''p'' 0 c"
    and "on8 \<equiv> at_wall ''ONLINE'' (8 * hour) 0" and "off9 \<equiv> at_wall ''OFFLINE'' (9 * hour) 0"
    and "on10 \<equiv> at_wall ''ONLINE'' (10 * hour) 0"
  shows "snd (build_agent_log_maps (11 * hour) ''p'' (Some 0) (Some 0) [] (step on10 (step off9 (step on8 [])))) ''ana'' = Some 7200"
    and "snd (build_agent_log_maps (11 * hour) ''p'' (Some 0) (Some 0) [] (step off9 (step on10 (step on8 [])))) ''ana'' = Some 3600"
  by (simp_all add: assms write_log_def is_duplicate_def update_where_def report_eval)

text \<open>
  When the clocks go back an hour, the text of a later entry can sort before an earlier one. The
  agent was online for forty minutes; the report has the agent online until now.
\<close>

lemma clock_change_reorders:
  defines "cs \<equiv> [at_wall ''ONLINE'' (3 * hour div 2) (- 2 * hour), at_wall ''OFFLINE'' (7 * hour div 6) (- 3 * hour)]"
  shows "sorted (map moment cs)"
    and "calculate_online_time (20 * hour) cs True = 2 * hour div 3"
    and "snd (build_agent_log_maps (20 * hour) ''p'' (Some 0) (Some 0) [] [day_log 0 cs]) ''ana''
           = Some (trunc_seconds (33 * hour div 2))"
  by (simp_all add: cs_def report_eval)

text \<open>
  The task reads the active status when it runs. An \<open>OFFLINE\<close> report about an agent whose
  \<open>In-Service\<close> status is still active is written as \<open>In-Service\<close>, which the report counts.
\<close>

lemma offline_in_service_counts:
  assumes "a \<in> set (sd_users s)" "find_project (sd_world s) p = Some prj"
    and "custom_name_of (sd_world s) a p None None = Inr (Some ''In-Service'')"
    and "find (log_at a p (local_day (local_now off now prj))) (sd_logs s) = None"
  shows "\<exists>c. sd_logs (snd (log_agent_status_change off now a p ''OFFLINE'' None None s))
               = sd_logs s @ [\<lparr>asl_agent = a, asl_project = p,
                   asl_date = local_day (local_now off now prj), asl_changes = [c]\<rparr>]
             \<and> chg_status c = ''In-Service'' \<and> is_online c"
  using assms by (simp add: log_agent_status_change_run write_log_def status_entry_def is_online_def)

section \<open>Witnesses\<close>

definition demo_db :: "agent_status_log list \<Rightarrow> status_db" where
  "demo_db ls = \<lparr>sd_world = empty_world\<lparr>projects := [blank_project]\<rparr>, sd_users = [''ana''], sd_logs = ls\<rparr>"

definition demo_report :: "string \<Rightarrow> timestamp \<Rightarrow> report" where
  "demo_report status t = \<lparr>rep_agent = ''ana'', rep_project = ''p'', rep_entry = at_wall status t 0\<rparr>"

lemma demo_step:
  assumes "logged (\<lambda>_ _. 0) ls H"
  shows "logged (\<lambda>_ _. 0) (write_log ''ana'' ''p'' (now div day_micros) (at_wall status now 0) ls)
           (H @ [demo_report status now])"
proof -
  have prj: "find_project (sd_world (demo_db ls)) ''p'' = Some blank_project"
    and name: "custom_name_of (sd_world (demo_db ls)) ''ana'' ''p'' None None = Inr None"
    by (simp_all add: demo_db_def find_project_def custom_name_of_def sample_defs)
  then have "log_agent_status_change (\<lambda>_ _. 0) now ''ana'' ''p'' status None None (demo_db ls)
       = (Inr (), demo_db (write_log ''ana'' ''p'' (now div day_micros) (at_wall status now 0) ls))"
    by (simp add: log_agent_status_change_run demo_db_def local_now_def local_day_def at_wall_def)
  from logged_report[OF assms _ this prj name] show ?thesis
    by (simp add: demo_db_def demo_report_def local_now_def at_wall_def)
qed

lemma demo_history:
  "logged (\<lambda>_ _. 0) [day_log 0 [at_wall ''ONLINE'' (10 * hour) 0, at_wall ''OFFLINE'' (12 * hour) 0]]
     [demo_report ''ONLINE'' (10 * hour), demo_report ''ONLINE'' (11 * hour),
      demo_report ''OFFLINE'' (12 * hour)]"
proof -
  note first = demo_step[OF logged_none, of "10 * hour" "''ONLINE''", simplified]
  note second = demo_step[OF first, of "11 * hour" "''ONLINE''"]
  note third = demo_step[OF second, of "12 * hour" "''OFFLINE''"]
  show ?thesis
    using third
    by (simp add: demo_report_def write_log_def is_duplicate_def update_where_def report_eval)
qed

theorem status_logs_well_formed_witness:
  "well_formed_log (day_log 0 [at_wall ''ONLINE'' (10 * hour) 0, at_wall ''OFFLINE'' (12 * hour) 0])"
  using status_logs_well_formed[OF demo_history] by simp

theorem online_time_counts_reports_witness:
  "Some 7200 = Some (int (card (online_moments
      [at_wall ''ONLINE'' (10 * hour) 0, at_wall ''ONLINE'' (11 * hour) 0, at_wall ''OFFLINE'' (12 * hour) 0]
      (13 * hour))) div 1000000)"
proof -
  have reports: "reports_of ''ana'' ''p''
      [demo_report ''ONLINE'' (10 * hour), demo_report ''ONLINE'' (11 * hour),
       demo_report ''OFFLINE'' (12 * hour)]
    = [at_wall ''ONLINE'' (10 * hour) 0, at_wall ''ONLINE'' (11 * hour) 0, at_wall ''OFFLINE'' (12 * hour) 0]"
    by (simp add: reports_of_def demo_report_def)
  have counted: "snd (build_agent_log_maps (13 * hour) ''p'' (Some 0) (Some 0) []
      [day_log 0 [at_wall ''ONLINE'' (10 * hour) 0, at_wall ''OFFLINE'' (12 * hour) 0]]) ''ana'' = Some 7200"
    by (simp add: report_eval)
  show ?thesis
    using online_time_counts_reports[OF demo_history, of "''ana''" "''p''" 0 "13 * hour" 0 0 "[]"]
    unfolding reports counted
    by (simp add: demo_report_def report_eval local_day_def)
qed

end
