(* ===== verification/Cache_Backend.thy ===== *)
theory Cache_Backend
  imports Chats_Prelude
begin

text \<open>
  The key-value store behind \<open>chats/core/cache.py\<close>, \<open>django.core.cache\<close> and
  \<open>get_redis_connection()\<close>. The store is a service outside the repository, so every model that
  uses it takes its commands as an argument \<open>ops\<close>; what the code relies on is the locale
  \<open>cache_backend\<close>:
  \<^item> \<open>c_get\<close> is GET; \<open>c_set\<close> is SET with an optional EX; \<open>c_add\<close> is SET NX EX (the
    \<open>add\<close> of Django's cache) and says whether the key was created; \<open>c_expire\<close> renews a time
    to live; \<open>c_delete\<close> is DEL and says whether a key was removed; \<open>c_scan pre suf\<close> is
    SCAN MATCH with the pattern \<open>pre*suf\<close>;
  \<^item> \<open>c_elapse n\<close> is the passing of \<open>n\<close> seconds, after which a key holds the same value or
    nothing.
  The locale is interpreted on \<open>mem_ops\<close>, a dictionary with expiry times, which also serves the
  concrete runs of the other theories. The locale \<open>expiring_cache\<close> extends it by the remaining time to live
  of a key, and \<open>renewing_cache\<close> adds EXPIRE to it; the progress updates of bulk sends and the flags of metric
  goals rest on them.
\<close>

section \<open>Commands\<close>

record 's cache_ops =
  c_get :: "string \<Rightarrow> 's \<Rightarrow> json option"
  c_set :: "string \<Rightarrow> json \<Rightarrow> int option \<Rightarrow> 's \<Rightarrow> 's"
  c_add :: "string \<Rightarrow> json \<Rightarrow> int \<Rightarrow> 's \<Rightarrow> bool \<times> 's"
  c_expire :: "string \<Rightarrow> int \<Rightarrow> 's \<Rightarrow> 's"
  c_delete :: "string \<Rightarrow> 's \<Rightarrow> bool \<times> 's"
  c_scan :: "string \<Rightarrow> string \<Rightarrow> 's \<Rightarrow> string list"
  c_elapse :: "int \<Rightarrow> 's \<Rightarrow> 's"

definition ttl_ok :: "int option \<Rightarrow> bool" where
  "ttl_ok ttl = (case ttl of None \<Rightarrow> True | Some n \<Rightarrow> 0 < n)"

locale cache_backend =
  fixes ops :: "'s cache_ops"
  assumes get_set: "ttl_ok ttl \<Longrightarrow>
      c_get ops k' (c_set ops k v ttl s) = (if k' = k then Some v else c_get ops k' s)"
    and add_result: "fst (c_add ops k v n s) = (c_get ops k s = None)"
    and get_add: "0 < n \<Longrightarrow> c_get ops k' (snd (c_add ops k v n s)) =
      (if k' = k \<and> c_get ops k s = None then Some v else c_get ops k' s)"
    and get_expire: "0 < n \<Longrightarrow> c_get ops k' (c_expire ops k n s) = c_get ops k' s"
    and delete_result: "fst (c_delete ops k s) = (c_get ops k s \<noteq> None)"
    and get_delete: "c_get ops k' (snd (c_delete ops k s)) =
      (if k' = k then None else c_get ops k' s)"
    and scan_iff: "k \<in> set (c_scan ops pre suf s) \<longleftrightarrow>
      (\<exists>mid. k = pre @ mid @ suf) \<and> c_get ops k s \<noteq> None"
    and get_elapse: "0 \<le> n \<Longrightarrow>
      c_get ops k (c_elapse ops n s) = None \<or> c_get ops k (c_elapse ops n s) = c_get ops k s"
begin

lemma get_set_same [simp]: "ttl_ok ttl \<Longrightarrow> c_get ops k (c_set ops k v ttl s) = Some v"
  by (simp add: get_set)

lemma get_delete_same [simp]: "c_get ops k (snd (c_delete ops k s)) = None"
  by (simp add: get_delete)

text \<open>A second \<open>add\<close> of a key that is still present does not succeed and changes nothing.\<close>

lemma add_twice:
  assumes "0 < n" "0 < m"
  shows "\<not> fst (c_add ops k w m (snd (c_add ops k v n s)))"
    and "c_get ops k' (snd (c_add ops k w m (snd (c_add ops k v n s)))) =
      c_get ops k' (snd (c_add ops k v n s))"
  using assms by (auto simp: add_result get_add)

text \<open>Deleting the key makes room for the next \<open>add\<close>.\<close>

lemma add_after_delete: "fst (c_add ops k v n (snd (c_delete ops k s)))"
  by (simp add: add_result)

end

section \<open>A dictionary with expiry times\<close>

record mem_cache =
  mem_now :: int
  mem_entries :: "string \<Rightarrow> (json \<times> int option) option"
  mem_keys :: "string list"

definition mem_empty :: mem_cache where
  "mem_empty = \<lparr>mem_now = 0, mem_entries = (\<lambda>_. None), mem_keys = []\<rparr>"

definition mem_get :: "string \<Rightarrow> mem_cache \<Rightarrow> json option" where
  "mem_get k s = (case mem_entries s k of
     None \<Rightarrow> None
   | Some (v, None) \<Rightarrow> if k \<in> set (mem_keys s) then Some v else None
   | Some (v, Some t) \<Rightarrow> if k \<in> set (mem_keys s) \<and> mem_now s < t then Some v else None)"

definition mem_set :: "string \<Rightarrow> json \<Rightarrow> int option \<Rightarrow> mem_cache \<Rightarrow> mem_cache" where
  "mem_set k v ttl s = s\<lparr>
     mem_entries := (mem_entries s)(k \<mapsto> (v, map_option (\<lambda>n. mem_now s + n) ttl)),
     mem_keys := List.insert k (mem_keys s)\<rparr>"

definition mem_add :: "string \<Rightarrow> json \<Rightarrow> int \<Rightarrow> mem_cache \<Rightarrow> bool \<times> mem_cache" where
  "mem_add k v n s = (if mem_get k s = None then (True, mem_set k v (Some n) s) else (False, s))"

definition mem_expire :: "string \<Rightarrow> int \<Rightarrow> mem_cache \<Rightarrow> mem_cache" where
  "mem_expire k n s = (case mem_get k s of None \<Rightarrow> s | Some v \<Rightarrow> mem_set k v (Some n) s)"

definition mem_delete :: "string \<Rightarrow> mem_cache \<Rightarrow> bool \<times> mem_cache" where
  "mem_delete k s = (mem_get k s \<noteq> None, s\<lparr>mem_entries := (mem_entries s)(k := None)\<rparr>)"

definition starts_with :: "string \<Rightarrow> string \<Rightarrow> bool" where
  "starts_with pre k = (take (length pre) k = pre)"

definition ends_with :: "string \<Rightarrow> string \<Rightarrow> bool" where
  "ends_with suf k = (length suf \<le> length k \<and> drop (length k - length suf) k = suf)"

definition glob_match :: "string \<Rightarrow> string \<Rightarrow> string \<Rightarrow> bool" where
  "glob_match pre suf k =
     (length pre + length suf \<le> length k \<and> starts_with pre k \<and> ends_with suf k)"

definition mem_scan :: "string \<Rightarrow> string \<Rightarrow> mem_cache \<Rightarrow> string list" where
  "mem_scan pre suf s = filter (\<lambda>k. glob_match pre suf k \<and> mem_get k s \<noteq> None) (mem_keys s)"

definition mem_elapse :: "int \<Rightarrow> mem_cache \<Rightarrow> mem_cache" where
  "mem_elapse n s = s\<lparr>mem_now := mem_now s + n\<rparr>"

definition mem_ops :: "mem_cache cache_ops" where
  "mem_ops = \<lparr>c_get = mem_get, c_set = mem_set, c_add = mem_add, c_expire = mem_expire,
     c_delete = mem_delete, c_scan = mem_scan, c_elapse = mem_elapse\<rparr>"

lemmas mem_defs = mem_ops_def mem_get_def mem_set_def mem_add_def mem_expire_def
  mem_delete_def mem_scan_def mem_elapse_def

lemma starts_with_iff: "starts_with pre k \<longleftrightarrow> (\<exists>rest. k = pre @ rest)"
  unfolding starts_with_def by (metis append_eq_conv_conj append_take_drop_id)

lemma starts_with_append [simp]: "starts_with pre (pre @ rest)"
  by (simp add: starts_with_def)

lemma ends_with_append [simp]: "ends_with suf (rest @ suf)"
  by (simp add: ends_with_def)

lemma glob_match_iff: "glob_match pre suf k \<longleftrightarrow> (\<exists>mid. k = pre @ mid @ suf)"
proof
  assume g: "glob_match pre suf k"
  then obtain rest where k: "k = pre @ rest"
    by (auto simp: glob_match_def starts_with_iff)
  moreover from g k have "drop (length rest - length suf) rest = suf"
    by (auto simp: glob_match_def ends_with_def)
  then have "rest = take (length rest - length suf) rest @ suf"
    by (metis append_take_drop_id)
  ultimately show "\<exists>mid. k = pre @ mid @ suf" by metis
next
  assume "\<exists>mid. k = pre @ mid @ suf"
  then show "glob_match pre suf k"
    by (auto simp: glob_match_def starts_with_def ends_with_def)
qed

lemma mem_get_set:
  "ttl_ok ttl \<Longrightarrow> mem_get k' (mem_set k v ttl s) = (if k' = k then Some v else mem_get k' s)"
  by (cases ttl) (auto simp: mem_get_def mem_set_def ttl_ok_def split: option.splits)

lemma mem_get_delete:
  "mem_get k' (snd (mem_delete k s)) = (if k' = k then None else mem_get k' s)"
  by (auto simp: mem_get_def mem_delete_def split: option.splits)

lemma mem_get_key: "mem_get k s = Some v \<Longrightarrow> k \<in> set (mem_keys s)"
  by (auto simp: mem_get_def split: option.splits if_splits)

interpretation mem: cache_backend mem_ops
proof unfold_locales
  fix k k' v s n ttl pre suf
  show "ttl_ok ttl \<Longrightarrow>
      c_get mem_ops k' (c_set mem_ops k v ttl s) = (if k' = k then Some v else c_get mem_ops k' s)"
    by (simp add: mem_ops_def mem_get_set)
  show "fst (c_add mem_ops k v n s) = (c_get mem_ops k s = None)"
    by (simp add: mem_ops_def mem_add_def)
  show "0 < n \<Longrightarrow> c_get mem_ops k' (snd (c_add mem_ops k v n s)) =
      (if k' = k \<and> c_get mem_ops k s = None then Some v else c_get mem_ops k' s)"
    by (auto simp: mem_ops_def mem_add_def mem_get_set ttl_ok_def)
  show "0 < n \<Longrightarrow> c_get mem_ops k' (c_expire mem_ops k n s) = c_get mem_ops k' s"
    by (auto simp: mem_ops_def mem_expire_def mem_get_set ttl_ok_def split: option.splits)
  show "fst (c_delete mem_ops k s) = (c_get mem_ops k s \<noteq> None)"
    by (simp add: mem_ops_def mem_delete_def)
  show "c_get mem_ops k' (snd (c_delete mem_ops k s)) =
      (if k' = k then None else c_get mem_ops k' s)"
    by (simp add: mem_ops_def mem_get_delete)
  show "k \<in> set (c_scan mem_ops pre suf s) \<longleftrightarrow>
      (\<exists>mid. k = pre @ mid @ suf) \<and> c_get mem_ops k s \<noteq> None"
    by (auto simp: mem_ops_def mem_scan_def glob_match_iff dest: mem_get_key)
  show "0 \<le> n \<Longrightarrow> c_get mem_ops k (c_elapse mem_ops n s) = None \<or>
      c_get mem_ops k (c_elapse mem_ops n s) = c_get mem_ops k s"
    by (auto simp: mem_ops_def mem_get_def mem_elapse_def split: option.splits)
qed

section \<open>Times to live\<close>

text \<open>
  A store that keeps time: \<open>left k s\<close> is how many seconds the key \<open>k\<close> has left, if it expires. A key that
  \<open>c_add\<close> created is there for exactly as long as it was given, and an \<open>add\<close> that finds the key changes nothing.
\<close>

locale expiring_cache = cache_backend ops for ops :: "'s cache_ops" +
  fixes left :: "string \<Rightarrow> 's \<Rightarrow> int option"
  assumes left_present: "left k s = Some n \<Longrightarrow> 0 < n \<and> c_get ops k s \<noteq> None"
    and left_add: "0 < n \<Longrightarrow> c_get ops k s = None \<Longrightarrow>
      left k' (snd (c_add ops k v n s)) = (if k' = k then Some n else left k' s)"
    and add_taken: "c_get ops k s \<noteq> None \<Longrightarrow> snd (c_add ops k v n s) = s"
    and left_elapse: "0 \<le> m \<Longrightarrow> left k (c_elapse ops m s) =
      (case left k s of None \<Rightarrow> None | Some n \<Rightarrow> if m < n then Some (n - m) else None)"
    and left_set: "0 < n \<Longrightarrow> left k' (c_set ops k v (Some n) s) = (if k' = k then Some n else left k' s)"
    and left_delete: "left k' (snd (c_delete ops k s)) = (if k' = k then None else left k' s)"
    and elapse_gone: "left k s = Some n \<Longrightarrow> n \<le> m \<Longrightarrow> c_get ops k (c_elapse ops m s) = None"

text \<open>EXPIRE gives a key that is there a new time to live, and nothing to one that is not.\<close>

locale renewing_cache = expiring_cache +
  assumes left_expire: "0 < n \<Longrightarrow> left k' (c_expire ops k n s) =
      (if k' = k \<and> c_get ops k s \<noteq> None then Some n else left k' s)"

definition mem_left :: "string \<Rightarrow> mem_cache \<Rightarrow> int option" where
  "mem_left k s = (case mem_entries s k of
     Some (_, Some t) \<Rightarrow> if k \<in> set (mem_keys s) \<and> mem_now s < t then Some (t - mem_now s) else None
   | _ \<Rightarrow> None)"

interpretation timed_mem: expiring_cache mem_ops mem_left
  by unfold_locales
    (auto simp: mem_defs mem_left_def split: option.splits if_splits)

interpretation renewed_mem: renewing_cache mem_ops mem_left
  by unfold_locales
    (auto simp: mem_defs mem_left_def split: option.splits if_splits)

end
