(* ===== verification/Rooms.thy ===== *)
theory Rooms
  imports In_Service Cache_Backend
begin

text \<open>
  \<open>chats/apps/rooms/models.py\<close>: the life of a room, its pins, notes, transfer history,
  notifications and last-message cols, and the saving of a message
  (\<open>chats/apps/msgs/models.py\<close>).

  An operation on a model instance is a statement over the database that takes the instance
  (\<open>room_obj\<close>) and returns it updated. The instance holds its own copy of the row and what
  \<open>FieldTracker\<close> remembers of \<open>user_id\<close> and \<open>queue_id\<close>; it may be older than the row. When an
  operation raises, its caller gives the instance up, so only the database is kept. The clock
  \<open>env_now\<close> stands still during one operation.
\<close>

section \<open>Instances\<close>

record room_obj =
  ob_row :: room
  ob_adding :: bool
  ob_tracked_user :: "email option"
  ob_tracked_queue :: "uuid option"

text \<open>\<open>Room.objects.get(pk=...)\<close> and \<open>Room(...)\<close>.\<close>

definition load_room :: "uuid \<Rightarrow> (world, room_obj) py" where
  "load_room k = bnd (need (DoesNotExist ''Room'') (\<lambda>w. find_room w k)) (\<lambda>r.
     ret \<lparr>ob_row = r, ob_adding = False, ob_tracked_user = rm_user r, ob_tracked_queue = rm_queue r\<rparr>)"

definition new_room :: "room \<Rightarrow> room_obj" where
  "new_room r = \<lparr>ob_row = r, ob_adding = True, ob_tracked_user = rm_user r,
     ob_tracked_queue = rm_queue r\<rparr>"

definition set_row :: "(room \<Rightarrow> room) \<Rightarrow> room_obj \<Rightarrow> room_obj" where
  "set_row f ob = ob\<lparr>ob_row := f (ob_row ob)\<rparr>"

definition room_pk :: "room_obj \<Rightarrow> uuid" where
  "room_pk ob = rm_uuid (ob_row ob)"

text \<open>\<open>Room.objects.filter(pk=...).update(...)\<close>.\<close>

definition update_room :: "uuid \<Rightarrow> (room \<Rightarrow> room) \<Rightarrow> (world, unit) py" where
  "update_room k f = modify (\<lambda>w. w\<lparr>rooms := update_where (\<lambda>r. rm_uuid r = k) f (rooms w)\<rparr>)"

section \<open>Notes, billing and pins\<close>

definition mark_notes_as_non_deletable :: "uuid \<Rightarrow> (world, unit) py" where
  "mark_notes_as_non_deletable k = modify (\<lambda>w. w\<lparr>room_notes :=
     update_where (\<lambda>n. note_room n = k) (\<lambda>n. n\<lparr>note_is_deletable := False\<rparr>) (room_notes w)\<rparr>)"

definition get_config :: "(string \<times> json) list option \<Rightarrow> string \<Rightarrow> json \<Rightarrow> json" where
  "get_config c k d = obj_get (case c of None \<Rightarrow> [] | Some kvs \<Rightarrow> kvs) k d"

definition is_billing_notified :: "room \<Rightarrow> bool" where
  "is_billing_notified r = truthy (get_config (rm_config r) ''is_billing_notified'' (JBool False))"

definition dict_set :: "string \<Rightarrow> 'v \<Rightarrow> (string \<times> 'v) list \<Rightarrow> (string \<times> 'v) list" where
  "dict_set k v kvs = (if list_ex (\<lambda>p. fst p = k) kvs
     then map (\<lambda>p. if fst p = k then (k, v) else p) kvs else kvs @ [(k, v)])"

text \<open>\<open>RoomInfoUseCase._get_project_uuid\<close>.\<close>

definition billing_project_uuid :: "world \<Rightarrow> room \<Rightarrow> uuid option" where
  "billing_project_uuid w r = (case (project_of w r, sector_of w r) of
     (Some p, Some s) \<Rightarrow>
       (if truthy (project_config_get p ''its_principal'' (JBool False))
        then (case sec_secondary_project s of
            Some (kv # kvs) \<Rightarrow>
              (case obj_get (kv # kvs) ''uuid'' JNull of JStr u \<Rightarrow> Some u | _ \<Rightarrow> Some ''None'')
          | _ \<Rightarrow> Some (prj_uuid p))
        else Some (prj_uuid p))
   | _ \<Rightarrow> None)"

definition notify_billing :: "env \<Rightarrow> room_obj \<Rightarrow> (world, unit) py" where
  "notify_billing env ob =
     bnd (need AttributeError (\<lambda>w. billing_project_uuid w (ob_row ob))) (\<lambda>p.
     bnd (need AttributeError (\<lambda>w. rm_contact (ob_row ob))) (\<lambda>_.
     andthen (delay env ''billing.room'' [room_pk ob, p])
       (update_room (room_pk ob) (\<lambda>r. r\<lparr>rm_config := Some (dict_set ''is_billing_notified'' (JBool True)
          (case rm_config (ob_row ob) of None \<Rightarrow> [] | Some c \<Rightarrow> c))\<rparr>))))"

definition clear_pins :: "uuid \<Rightarrow> (world, unit) py" where
  "clear_pins k = modify (\<lambda>w. w\<lparr>pins := filter (\<lambda>p. pin_room p \<noteq> k) (pins w)\<rparr>)"

text \<open>Pins of a user in a project whose room is active.\<close>

definition room_row_active :: "world \<Rightarrow> uuid \<Rightarrow> bool" where
  "room_row_active w k = (map_option rm_is_active (find_room w k) = Some True)"

definition active_pin_count :: "world \<Rightarrow> email \<Rightarrow> uuid \<Rightarrow> nat" where
  "active_pin_count w u p = count_where
     (\<lambda>x. pin_user x = u \<and> pin_project x = p \<and> room_row_active w (pin_room x)) (pins w)"

definition pin_room_op :: "env \<Rightarrow> room_obj \<Rightarrow> email \<Rightarrow> (world, unit) py" where
  "pin_room_op env ob u =
     bnd (gets (\<lambda>w. list_ex (\<lambda>x. pin_room x = room_pk ob \<and> pin_user x = u) (pins w))) (\<lambda>pinned.
     if pinned then ret () else
     bnd (need AttributeError (\<lambda>w. project_of w (ob_row ob))) (\<lambda>p.
     bnd (gets (\<lambda>w. active_pin_count w u (prj_uuid p))) (\<lambda>n.
     if n \<ge> set_max_room_pins env then raise (ValidationError ''Max pin room limit reached'')
     else if rm_user (ob_row ob) \<noteq> Some u then raise (PermissionDenied [])
     else if \<not> rm_is_active (ob_row ob) then raise (ValidationError ''Room is not active'')
     else modify (\<lambda>w. w\<lparr>pins := pins w @
            [\<lparr>pin_room = room_pk ob, pin_user = u, pin_created_on = env_now env,
              pin_project = prj_uuid p\<rparr>]\<rparr>))))"

definition unpin_room_op :: "room_obj \<Rightarrow> email \<Rightarrow> (world, unit) py" where
  "unpin_room_op ob u =
     (if rm_user (ob_row ob) \<noteq> Some u then raise (PermissionDenied [])
      else modify (\<lambda>w. w\<lparr>pins := filter (\<lambda>x. \<not> (pin_room x = room_pk ob \<and> pin_user x = u)) (pins w)\<rparr>))"

section \<open>Saving\<close>

text \<open>
  \<open>_update_agent_service_status\<close> runs after the row was written, so \<open>old_user\<close> is the user the
  row has now.
\<close>

definition update_agent_service_status :: "env \<Rightarrow> bool \<Rightarrow> room \<Rightarrow> (world, unit) py" where
  "update_agent_service_status env is_new r =
     bnd (gets (\<lambda>w. Option.bind (find_room w (rm_uuid r)) rm_user)) (\<lambda>old_user.
     bnd (gets (\<lambda>w. map_option prj_uuid (project_of w r))) (\<lambda>prj.
     case prj of None \<Rightarrow> ret ()
     | Some p \<Rightarrow>
        (case rm_user r of
           Some new \<Rightarrow>
             if is_new then room_assigned env (Some new) (Some p)
             else (case old_user of
                 None \<Rightarrow> room_assigned env (Some new) (Some p)
               | Some old \<Rightarrow>
                   if old \<noteq> new
                   then andthen (room_closed env (Some old) (Some p))
                                (room_assigned env (Some new) (Some p))
                   else ret ())
         | None \<Rightarrow> (case old_user of None \<Rightarrow> ret ()
               | Some old \<Rightarrow> room_closed env (Some old) (Some p)))))"

text \<open>
  Writing the row. \<open>cols\<close> copies the columns of \<open>update_fields\<close> from the instance into the row;
  \<open>None\<close> writes them all. The tags live in a table of their own.
\<close>

type_synonym update_fields = "(room \<Rightarrow> room \<Rightarrow> room) option"

definition copy_columns :: "update_fields \<Rightarrow> room \<Rightarrow> room \<Rightarrow> room" where
  "copy_columns cols r row = (case cols of
     None \<Rightarrow> r\<lparr>rm_tags := rm_tags row\<rparr> | Some f \<Rightarrow> f r row)"

definition contact_queue_clash :: "room list \<Rightarrow> room \<Rightarrow> bool" where
  "contact_queue_clash rs r \<longleftrightarrow> rm_is_active r \<and> rm_contact r \<noteq> None \<and> rm_queue r \<noteq> None \<and>
     list_ex (\<lambda>x. rm_uuid x \<noteq> rm_uuid r \<and> rm_is_active x \<and> rm_contact x = rm_contact r
                  \<and> rm_queue x = rm_queue r) rs"

definition write_room :: "update_fields \<Rightarrow> bool \<Rightarrow> room \<Rightarrow> (world, unit) py" where
  "write_room cols adding r w =
     (case find_room w (rm_uuid r) of
        None \<Rightarrow>
          if cols \<noteq> None then (Inl (ExternalError ''DatabaseError''), w)
          else if contact_queue_clash (rooms w) r
            then (Inl (IntegrityError ''unique_contact_queue_is_activetrue_room''), w)
          else (Inr (), w\<lparr>rooms := rooms w @ [r\<lparr>rm_tags := []\<rparr>]\<rparr>)
      | Some row \<Rightarrow>
          if adding then (Inl (IntegrityError ''rooms_room_pkey''), w)
          else if contact_queue_clash (rooms w) (copy_columns cols r row)
            then (Inl (IntegrityError ''unique_contact_queue_is_activetrue_room''), w)
          else update_room (rm_uuid r) (copy_columns cols r) w)"

text \<open>The time stamps \<open>save\<close> sets on the instance.\<close>

definition stamp_times :: "timestamp \<Rightarrow> bool \<Rightarrow> bool \<Rightarrow> room \<Rightarrow> room" where
  "stamp_times now adding user_has_changed r0 =
     (let r1 = (if adding then r0\<lparr>rm_added_to_queue_at := Some now\<rparr> else r0);
          r2 = (if rm_user r1 \<noteq> None \<and> rm_user_assigned_at r1 = None \<or> user_has_changed
                then r1\<lparr>rm_user_assigned_at := Some now\<rparr> else r1);
          r3 = (if rm_is_active r2 \<and> rm_user r2 \<noteq> None \<and> rm_first_user_assigned_at r2 = None
                then r2\<lparr>rm_first_user_assigned_at :=
                  (case rm_user_assigned_at r2 of Some t \<Rightarrow> Some t | None \<Rightarrow> Some now)\<rparr> else r2)
      in if user_has_changed \<and> rm_user r3 = None
         then r3\<lparr>rm_added_to_queue_at := Some now\<rparr> else r3)"

definition user_changed :: "room_obj \<Rightarrow> bool" where
  "user_changed ob \<longleftrightarrow> rm_user (ob_row ob) \<noteq> ob_tracked_user ob"

definition stamped :: "env \<Rightarrow> room_obj \<Rightarrow> room" where
  "stamped env ob = stamp_times (env_now env) (ob_adding ob) (user_changed ob) (ob_row ob)"

definition clear_tags :: "uuid \<Rightarrow> (world, unit) py" where
  "clear_tags k = update_room k (\<lambda>r. r\<lparr>rm_tags := []\<rparr>)"

definition tags_on_queue_change :: "room_obj \<Rightarrow> room \<Rightarrow> (world, unit) py" where
  "tags_on_queue_change ob r =
     (case (ob_tracked_queue ob, rm_queue r) of
        (Some old, Some new) \<Rightarrow>
          if old = new then ret () else
          bnd (need (DoesNotExist ''Queue'') (\<lambda>w. find (\<lambda>q. que_uuid q = old) (live_queues w))) (\<lambda>oq.
          bnd (need (DoesNotExist ''Queue'') (\<lambda>w. find_queue w new)) (\<lambda>nq.
          when_true (que_sector oq \<noteq> que_sector nq) (clear_tags (rm_uuid r))))
      | _ \<Rightarrow> ret ())"

text \<open>What the instance looks like after a successful save; \<open>update_fields\<close> names no tracked field.\<close>

definition saved_obj :: "update_fields \<Rightarrow> room \<Rightarrow> room_obj \<Rightarrow> room_obj" where
  "saved_obj cols r ob = ob\<lparr>ob_row := r, ob_adding := False,
     ob_tracked_user := (if cols = None then rm_user r else ob_tracked_user ob),
     ob_tracked_queue := (if cols = None then rm_queue r else ob_tracked_queue ob)\<rparr>"

definition room_save :: "env \<Rightarrow> update_fields \<Rightarrow> room_obj \<Rightarrow> (world, room_obj) py" where
  "room_save env cols ob =
     bnd (gets (\<lambda>w. map_option rm_is_active (find_room w (room_pk ob)))) (\<lambda>current_is_active.
     if \<not> ob_adding ob \<and> current_is_active = Some False
     then raise (ValidationError ''Closed rooms can't receive updates'')
     else andthen (when_true (user_changed ob) (clear_pins (room_pk ob)))
          (andthen (write_room cols (ob_adding ob) (stamped env ob))
          (andthen (tags_on_queue_change ob (stamped env ob))
          (andthen (update_agent_service_status env (ob_adding ob) (stamped env ob))
            (ret (saved_obj cols (stamped env ob) ob))))))"

section \<open>Closing\<close>

definition handle_close_tags :: "uuid \<Rightarrow> uuid list \<Rightarrow> (world, unit) py" where
  "handle_close_tags k tags = update_room k (\<lambda>r. r\<lparr>rm_tags :=
     filter (\<lambda>t. t \<in> set tags) (rm_tags r) @ filter (\<lambda>t. t \<notin> set (rm_tags r)) (remdups tags)\<rparr>)"

definition start_csat_flow :: "env \<Rightarrow> uuid \<Rightarrow> (world, unit) py" where
  "start_csat_flow env k = delay env ''start_csat_flow'' [k]"

definition closing :: "env \<Rightarrow> string \<Rightarrow> email option \<Rightarrow> room_obj \<Rightarrow> room_obj" where
  "closing env end_by closed_by ob = set_row (\<lambda>r. r\<lparr>rm_is_active := False,
     rm_ended_at := Some (env_now env), rm_ended_by := Some end_by, rm_closed_by := closed_by\<rparr>) ob"

text \<open>The steps of \<open>close\<close> after its transaction.\<close>

definition after_close :: "env \<Rightarrow> room_obj \<Rightarrow> (world, room_obj) py" where
  "after_close env ob =
     andthen (case rm_user (ob_row ob) of None \<Rightarrow> ret ()
         | Some u \<Rightarrow> bnd (gets (\<lambda>w. map_option prj_uuid (project_of w (ob_row ob)))) (\<lambda>prj.
             case prj of None \<Rightarrow> ret () | Some p \<Rightarrow> room_closed env (Some u) (Some p)))
       (bnd (need AttributeError (\<lambda>w. sector_of w (ob_row ob))) (\<lambda>s.
        andthen (when_true (sec_is_csat_enabled s \<and> rm_user (ob_row ob) \<noteq> None)
                   (start_csat_flow env (room_pk ob)))
          (ret ob)))"

definition room_close ::
  "env \<Rightarrow> uuid list option \<Rightarrow> string \<Rightarrow> email option \<Rightarrow> room_obj \<Rightarrow> (world, room_obj) py" where
  "room_close env tags end_by closed_by ob =
     bnd (atomic
           (andthen (case tags of None \<Rightarrow> ret () | Some ts \<Rightarrow> handle_close_tags (room_pk ob) ts)
           (andthen (clear_pins (room_pk ob)) (room_save env None (closing env end_by closed_by ob)))))
       (after_close env)"

section \<open>Transfers and messages\<close>

definition add_transfer_to_history :: "env \<Rightarrow> json \<Rightarrow> room_obj \<Rightarrow> (world, room_obj) py" where
  "add_transfer_to_history env transfer ob =
     room_save env
       (Some (\<lambda>r row. row\<lparr>rm_full_transfer_history := rm_full_transfer_history r,
                          rm_transfer_history := rm_transfer_history r\<rparr>))
       (set_row (\<lambda>r. r\<lparr>rm_full_transfer_history :=
            Some ((case rm_full_transfer_history r of None \<Rightarrow> [] | Some h \<Rightarrow> h) @ [transfer]),
          rm_transfer_history := Some transfer\<rparr>) ob)"

definition older_than :: "timestamp option \<Rightarrow> timestamp \<Rightarrow> bool" where
  "older_than t m = (case t of None \<Rightarrow> True | Some x \<Rightarrow> x < m)"

definition increment_unread_messages_count :: "uuid \<Rightarrow> int \<Rightarrow> timestamp \<Rightarrow> (world, unit) py" where
  "increment_unread_messages_count k n at = update_room k (\<lambda>r.
     if older_than (rm_last_unread_message_at r) at
     then r\<lparr>rm_unread_messages_count := rm_unread_messages_count r + n\<rparr> else r)"

definition clear_unread_messages_count :: "env \<Rightarrow> uuid \<Rightarrow> (world, unit) py" where
  "clear_unread_messages_count env k = update_room k (\<lambda>r.
     r\<lparr>rm_unread_messages_count := 0, rm_last_unread_message_at := Some (env_now env)\<rparr>)"

definition update_last_message :: "uuid \<Rightarrow> message \<Rightarrow> email option \<Rightarrow> bool \<Rightarrow> (world, unit) py" where
  "update_last_message k m user update_last_interaction = update_room k (\<lambda>r.
     (if update_last_interaction then r\<lparr>rm_last_interaction := Some (msg_created_on m)\<rparr> else r)
     \<lparr>rm_last_message := Some (msg_id m), rm_last_message_text := Some (msg_text m),
      rm_last_message_user := user, rm_last_message_contact := None,
      rm_last_message_media := msg_medias m\<rparr>)"

text \<open>
  \<open>on_new_message\<close>; its last step resets the inactivity of a room that is marked inactive, see
  \<open>reset_inactivity\<close>, which is passed as \<open>reset\<close>.
\<close>

definition on_new_message ::
  "(room_obj \<Rightarrow> (world, unit) py) \<Rightarrow> room_obj \<Rightarrow> message \<Rightarrow> uuid option \<Rightarrow> int \<Rightarrow> (world, unit) py" where
  "on_new_message reset ob m contact increment_unread =
     andthen (update_room (room_pk ob) (\<lambda>r.
        if older_than (rm_last_interaction r) (msg_created_on m)
        then r\<lparr>rm_last_interaction := Some (msg_created_on m), rm_last_message := Some (msg_id m),
               rm_last_message_text := Some (msg_text m), rm_last_message_user := None,
               rm_last_message_contact := contact, rm_last_message_media := msg_medias m,
               rm_unread_messages_count := (if increment_unread > 0
                  then rm_unread_messages_count r + increment_unread
                  else rm_unread_messages_count r)\<rparr>
        else r))
     (when_true (rm_is_inactive (ob_row ob) \<and> contact \<noteq> None) (reset ob))"

definition get_automatic_message_sent_at :: "world \<Rightarrow> room \<Rightarrow> timestamp option" where
  "get_automatic_message_sent_at w r = (case rm_automatic_message_sent_at r of
     Some t \<Rightarrow> Some t
   | None \<Rightarrow> map_option msg_created_on
       (find (\<lambda>m. msg_room m = rm_uuid r \<and> msg_automatic m = Some AUTOMATIC_OPEN) (messages w)))"

definition get_time_to_send_automatic_message :: "world \<Rightarrow> room \<Rightarrow> int option" where
  "get_time_to_send_automatic_message w r =
     (case (get_automatic_message_sent_at w r, rm_first_user_assigned_at r) of
        (Some sent, Some first) \<Rightarrow> Some (max (trunc_seconds (sent - first)) 0)
      | _ \<Rightarrow> None)"

text \<open>\<open>is_24h_valid\<close> without and with its cache (\<open>ROOM_24H_VALID_CACHE_TTL\<close>, 0 by default).\<close>

definition DAY :: int where "DAY = micros 86400"

definition is_24h_valid_now :: "env \<Rightarrow> world \<Rightarrow> room \<Rightarrow> bool" where
  "is_24h_valid_now env w r =
     (\<not> starts_with ''whatsapp'' (rm_urn r) \<or>
      list_ex (\<lambda>m. msg_room m = rm_uuid r \<and> env_now env - DAY \<le> msg_created_on m
                   \<and> msg_contact m = rm_contact r) (messages w) \<or>
      env_now env - DAY < rm_created_on r)"

definition room_24h_valid_cache_key :: "room \<Rightarrow> string" where
  "room_24h_valid_cache_key r = ''room_24h_valid_cache:'' @ rm_uuid r"

definition is_24h_valid ::
  "env \<Rightarrow> 'c cache_ops \<Rightarrow> int \<Rightarrow> world \<Rightarrow> room \<Rightarrow> 'c \<Rightarrow> bool \<times> 'c" where
  "is_24h_valid env ops ttl w r c =
     (if \<not> starts_with ''whatsapp'' (rm_urn r) then (True, c)
      else if ttl \<noteq> 0 \<and> (case c_get ops (room_24h_valid_cache_key r) c of
                 None \<Rightarrow> False | Some v \<Rightarrow> truthy v) then (True, c)
      else let v = is_24h_valid_now env w r
           in (v, if ttl = 0 then c
                  else c_set ops (room_24h_valid_cache_key r) (JBool v) (Some ttl) c))"

section \<open>Notifications\<close>

text \<open>\<open>request_callback\<close>: one attempt after another until an answer below 400 or a 404.\<close>

fun request_callback_from :: "env \<Rightarrow> string \<Rightarrow> nat \<Rightarrow> nat \<Rightarrow> (world, unit) py" where
  "request_callback_from env url attempt 0 = ret ()"
| "request_callback_from env url attempt (Suc left) =
     andthen (emit (Http_Post url ''room.update''))
     (case http_status env url attempt of
        Some code \<Rightarrow>
          if code = 404 then emit (Sentry url)
          else if code < 400 \<or> 600 \<le> code then ret ()
          else if left = 0 then raise (RuntimeError ''Failed to send callback'')
          else request_callback_from env url (Suc attempt) left
      | None \<Rightarrow>
          if left = 0 then raise (RuntimeError ''Failed to send callback'')
          else request_callback_from env url (Suc attempt) left)"

definition request_callback :: "env \<Rightarrow> room \<Rightarrow> (world, unit) py" where
  "request_callback env r = (case rm_callback_url r of None \<Rightarrow> ret ()
     | Some url \<Rightarrow> request_callback_from env url 0 (set_max_retries env))"

definition room_get_permission :: "room \<Rightarrow> email option \<Rightarrow> (world, permission option) py" where
  "room_get_permission r user =
     bnd (need AttributeError (\<lambda>w. project_of w r)) (\<lambda>p.
     gets (\<lambda>w. project_get_permission w (prj_uuid p) user))"

definition send_group :: "env \<Rightarrow> string \<Rightarrow> string \<Rightarrow> string \<Rightarrow> (world, unit) py" where
  "send_group env group_name call_type action =
     send_channels_group env group_name call_type action (set_ws_retries env)"

definition base_notification :: "env \<Rightarrow> room \<Rightarrow> string \<Rightarrow> (world, unit) py" where
  "base_notification env r action = (case rm_user r of
     Some u \<Rightarrow> bnd (room_get_permission r (Some u)) (\<lambda>perm.
       case perm of None \<Rightarrow> ret ()
       | Some p \<Rightarrow> send_group env (''permission_'' @ prm_uuid p) ''notify'' action)
   | None \<Rightarrow> bnd (need AttributeError (\<lambda>w. queue_of w r)) (\<lambda>q.
       send_group env (''queue_'' @ que_uuid q) ''notify'' action))"

definition callback_action :: "string \<Rightarrow> bool" where
  "callback_action action \<longleftrightarrow> action \<in> {''update'', ''destroy'', ''close''}"

definition notify_queue :: "env \<Rightarrow> room \<Rightarrow> string \<Rightarrow> bool \<Rightarrow> (world, unit) py" where
  "notify_queue env r action callback =
     bnd (need AttributeError (\<lambda>w. queue_of w r)) (\<lambda>q.
     andthen (send_group env (''queue_'' @ que_uuid q) ''notify'' (''rooms.'' @ action))
       (when_true (rm_callback_url r \<notin> {None, Some []} \<and> callback \<and> callback_action action)
          (request_callback env r)))"

definition notify_user :: "env \<Rightarrow> room \<Rightarrow> string \<Rightarrow> email option \<Rightarrow> (world, unit) py" where
  "notify_user env r action user =
     bnd (room_get_permission r (case user of Some u \<Rightarrow> Some u | None \<Rightarrow> rm_user r)) (\<lambda>perm.
       case perm of None \<Rightarrow> ret ()
       | Some p \<Rightarrow> send_group env (''permission_'' @ prm_uuid p) ''notify'' (''rooms.'' @ action))"

definition notify_room :: "env \<Rightarrow> room \<Rightarrow> string \<Rightarrow> bool \<Rightarrow> (world, unit) py" where
  "notify_room env r action callback =
     andthen (case rm_user r of Some _ \<Rightarrow> notify_user env r action None
                              | None \<Rightarrow> notify_queue env r action False)
       (when_true (rm_callback_url r \<notin> {None, Some []} \<and> callback \<and> callback_action action)
          (request_callback env r))"

definition notify_inactivity :: "env \<Rightarrow> room \<Rightarrow> (world, unit) py" where
  "notify_inactivity env r = base_notification env r ''rooms.inactivity''"

definition user_connection :: "env \<Rightarrow> room \<Rightarrow> string \<Rightarrow> email option \<Rightarrow> (world, unit) py" where
  "user_connection env r action user =
     bnd (room_get_permission r (case user of Some u \<Rightarrow> Some u | None \<Rightarrow> rm_user r)) (\<lambda>perm.
       case perm of None \<Rightarrow> raise AttributeError
       | Some p \<Rightarrow> send_group env (''permission_'' @ prm_uuid p) action (''groups.'' @ action))"

definition queue_connection :: "env \<Rightarrow> room \<Rightarrow> string \<Rightarrow> uuid option \<Rightarrow> (world, unit) py" where
  "queue_connection env r action queue =
     bnd (need AttributeError (\<lambda>w. case queue of Some q \<Rightarrow> Some q | None \<Rightarrow> rm_queue r)) (\<lambda>q.
     send_group env (''queue_'' @ q) action (''group.'' @ action))"

definition update_ticket_async :: "env \<Rightarrow> room \<Rightarrow> (world, unit) py" where
  "update_ticket_async env r = (case (rm_ticket_uuid r, rm_user r) of
     (Some t, Some u) \<Rightarrow> delay env ''update_ticket_assignee_async'' [rm_uuid r, t, u]
   | _ \<Rightarrow> ret ())"

definition update_ticket :: "env \<Rightarrow> room \<Rightarrow> (world, unit) py" where
  "update_ticket env r = (case (rm_ticket_uuid r, rm_user r) of
     (Some t, Some u) \<Rightarrow>
       if flows_ok env ''update_ticket_assignee'' [t, u]
       then emit (Flows_Call ''update_ticket_assignee'' [t, u])
       else raise (ExternalError ''update_ticket_assignee'')
   | _ \<Rightarrow> ret ())"

definition send_automatic_message :: "env \<Rightarrow> room \<Rightarrow> (world, unit) py" where
  "send_automatic_message env r =
     (if rm_user r \<noteq> None \<and> rm_user_assigned_at r \<noteq> None
      then bnd (need AttributeError (\<lambda>w. sector_of w r)) (\<lambda>s.
        case (sec_is_automatic_message_active s, sec_automatic_message_text s) of
          (True, Some (c # cs)) \<Rightarrow> delay env ''send_automatic_message'' [rm_uuid r, c # cs]
        | _ \<Rightarrow> ret ())
      else ret ())"

section \<open>Messages\<close>

text \<open>
  \<open>room.messages.create(...)\<close>, i.e. \<open>Message.save\<close> of a new message; \<open>r\<close> is the instance the
  message refers to.
\<close>

definition message_create ::
  "env \<Rightarrow> room \<Rightarrow> email option \<Rightarrow> uuid option \<Rightarrow> string \<Rightarrow> bool \<Rightarrow> (world, message) py" where
  "message_create env r user contact text seen =
     (if \<not> rm_is_active r then raise (ValidationError ''Closed rooms can't receive messages'')
      else bnd (gets (\<lambda>w. is_24h_valid_now env w r)) (\<lambda>valid.
        if \<not> valid \<and> user \<noteq> None
        then raise (ValidationError ''You can't send messages after 24h'')
        else bnd new_id (\<lambda>pk.
          let m = \<lparr>msg_id = pk, msg_created_on = env_now env, msg_room = rm_uuid r, msg_user = user,
                   msg_contact = contact, msg_text = text, msg_seen = seen, msg_automatic = None,
                   msg_medias = []\<rparr>
          in andthen (modify (\<lambda>w. w\<lparr>messages := messages w @ [m]\<rparr>)) (ret m))))"

definition message_notify_room :: "env \<Rightarrow> room \<Rightarrow> message \<Rightarrow> string \<Rightarrow> bool \<Rightarrow> (world, unit) py" where
  "message_notify_room env r m action callback =
     andthen (base_notification env r (''msg.'' @ action))
       (case rm_callback_url r of
          Some (c # cs) \<Rightarrow>
            if callback
            then (case http_status env (c # cs) 0 of
                    None \<Rightarrow> emit (Sentry (c # cs))
                  | Some code \<Rightarrow> andthen (emit (Http_Post (c # cs) ''msg.create''))
                      (when_true (400 \<le> code) (emit (Sentry (c # cs)))))
            else ret ()
        | _ \<Rightarrow> ret ())"

definition trigger_default_message ::
  "env \<Rightarrow> 'c cache_ops \<Rightarrow> room \<Rightarrow> 'c \<Rightarrow> world \<Rightarrow> (exn + unit) \<times> world \<times> 'c" where
  "trigger_default_message env ops r c w =
     (case sector_of w r of
        None \<Rightarrow> (Inl AttributeError, w, c)
      | Some s \<Rightarrow>
          (case (sec_is_automatic_message_queue_active s, sec_automatic_message_queue_text s) of
             (True, Some (x # xs)) \<Rightarrow>
               (let (claimed, c') = c_add ops (''room_default_message:'' @ rm_uuid r) (JStr ''1'') 10 c
                in if \<not> claimed then (Inr (), w, c')
                   else (case bnd (message_create env r None None (x # xs) False)
                                 (\<lambda>m. message_notify_room env r m ''create'' True) w of
                           (res, w') \<Rightarrow> (res, w', c')))
           | _ \<Rightarrow> (Inr (), w, c)))"

text \<open>
  \<open>create_transfer_json\<close>, \<open>create_room_feedback_message\<close> of \<open>rooms/utils.py\<close> and \<open>views.py\<close>. The
  code fills the keys after \<open>type\<close> and \<open>name\<close> in the order of a Python set; here they have a fixed
  order, as the order of the keys of a JSON object means nothing.
\<close>

datatype party = Party_None | Party_User email | Party_Queue uuid string

fun party_json :: "env \<Rightarrow> party \<Rightarrow> json" where
  "party_json env Party_None = JObj [(''type'', JStr []), (''name'', JStr [])]"
| "party_json env (Party_User u) = JObj [(''type'', JStr ''user''), (''name'', JStr (user_first_name env u)),
     (''email'', JStr u), (''id'', JStr (digits (user_pk env u)))]"
| "party_json env (Party_Queue k nm) =
     JObj [(''type'', JStr ''queue''), (''name'', JStr nm), (''uuid'', JStr k)]"

definition create_transfer_json :: "env \<Rightarrow> string \<Rightarrow> party \<Rightarrow> party \<Rightarrow> party option \<Rightarrow> json" where
  "create_transfer_json env action source target requested_by =
     JObj ([(''action'', JStr action), (''from'', party_json env source),
            (''to'', party_json env target)] @
       (case requested_by of None \<Rightarrow> [] | Some p \<Rightarrow> [(''requested_by'', party_json env p)]))"

definition create_room_feedback_message :: "env \<Rightarrow> room \<Rightarrow> json \<Rightarrow> string \<Rightarrow> (world, unit) py" where
  "create_room_feedback_message env r feedback method =
     bnd (message_create env r None None
           (json_dumps (JObj [(''method'', JStr method), (''content'', feedback)])) True)
       (\<lambda>m. message_notify_room env r m ''create'' False)"

text \<open>\<open>close_room\<close> of \<open>rooms/views.py\<close>; \<open>generate_metrics\<close> is a separate component.\<close>

definition close_room :: "env \<Rightarrow> (uuid \<Rightarrow> (world, unit) py) \<Rightarrow> uuid \<Rightarrow> (world, unit) py" where
  "close_room env generate_metrics k =
     andthen (when_true (set_use_celery env) (delay env ''close_metrics'' [k])) (generate_metrics k)"

section \<open>Notes\<close>

definition note_notify_websocket :: "env \<Rightarrow> room \<Rightarrow> string \<Rightarrow> (world, unit) py" where
  "note_notify_websocket env r action =
     (if action \<in> {''create'', ''delete''}
      then let event = ''room_note.'' @ action in
        andthen (send_group env (''room_'' @ rm_uuid r) ''notify'' event)
          (case rm_user r of
             Some u \<Rightarrow> bnd (room_get_permission r (Some u)) (\<lambda>perm. case perm of None \<Rightarrow> ret ()
               | Some p \<Rightarrow> send_group env (''permission_'' @ prm_uuid p) ''notify'' event)
           | None \<Rightarrow> (case rm_queue r of None \<Rightarrow> ret ()
               | Some q \<Rightarrow> send_group env (''queue_'' @ q) ''notify'' event))
      else ret ())"

definition note_delete :: "room_note \<Rightarrow> (world, unit) py" where
  "note_delete n = andthen (modify (\<lambda>w. w\<lparr>room_notes := removeAll n (room_notes w)\<rparr>))
     (case note_message n of None \<Rightarrow> ret ()
      | Some k \<Rightarrow> modify (\<lambda>w. w\<lparr>messages := filter (\<lambda>m. msg_id m \<noteq> k) (messages w)\<rparr>))"

section \<open>What an operation leaves alone\<close>

text \<open>No operation on one room changes the row of another.\<close>

definition others_kept :: "uuid \<Rightarrow> world \<Rightarrow> world \<Rightarrow> bool" where
  "others_kept k s t \<longleftrightarrow> (\<forall>x. x \<noteq> k \<longrightarrow> find_room t x = find_room s x)"

interpretation others: world_order "others_kept k" for k
  by unfold_locales (auto simp: others_kept_def find_room_def)

text \<open>A closed room keeps everything but its message counters and its configuration.\<close>

definition closed_core :: "room \<Rightarrow> room" where
  "closed_core r = r\<lparr>rm_unread_messages_count := 0, rm_last_unread_message_at := None,
     rm_last_interaction := None, rm_last_message := None, rm_last_message_text := None,
     rm_last_message_user := None, rm_last_message_contact := None, rm_last_message_media := [],
     rm_automatic_message_sent_at := None, rm_is_inactive := False, rm_config := None\<rparr>"

lemma closed_core_active: "closed_core r = closed_core r' \<Longrightarrow> rm_is_active r = rm_is_active r'"
  by (cases r; cases r') (simp add: closed_core_def)

definition frozen :: "world \<Rightarrow> world \<Rightarrow> bool" where
  "frozen s t \<longleftrightarrow> (\<forall>k r. find_room s k = Some r \<and> \<not> rm_is_active r \<longrightarrow>
     (\<exists>r'. find_room t k = Some r' \<and> closed_core r' = closed_core r))"

interpretation frozen: world_order frozen
proof
  show "frozen s s" for s by (auto simp: frozen_def)
  show "frozen s t \<Longrightarrow> frozen t u \<Longrightarrow> frozen s u" for s t u
    unfolding frozen_def by (metis closed_core_active)
  show "frozen s (s\<lparr>effects := es\<rparr>)" for s es by (auto simp: frozen_def find_room_def)
qed

lemma frozen_same_rooms: "rooms t = rooms s \<Longrightarrow> frozen s t"
  by (auto simp: frozen_def find_room_def)

lemma frozen_others:
  "others_kept k s t \<Longrightarrow> (\<And>r. find_room s k = Some r \<Longrightarrow> rm_is_active r) \<Longrightarrow> frozen s t"
  unfolding others_kept_def frozen_def by metis

lemma others_same_rooms: "rooms t = rooms s \<Longrightarrow> others_kept k s t"
  by (simp add: others_kept_def find_room_def)

lemma find_room_update:
  "(\<And>r. rm_uuid (f r) = rm_uuid r) \<Longrightarrow>
   find_room (w\<lparr>rooms := update_where (\<lambda>r. rm_uuid r = k) f (rooms w)\<rparr>) x =
     (if x = k then map_option f (find_room w x) else find_room w x)"
  by (simp add: find_room_def find_key_update)

lemma find_room_uuid: "find_room w k = Some r \<Longrightarrow> rm_uuid r = k"
  by (auto simp: find_room_def find_Some_iff)

definition keeps_uuid :: "update_fields \<Rightarrow> bool" where
  "keeps_uuid cols = (case cols of None \<Rightarrow> True | Some f \<Rightarrow> (\<forall>r row. rm_uuid (f r row) = rm_uuid row))"

lemma others_update_room:
  "(\<And>r. rm_uuid (f r) = rm_uuid r) \<Longrightarrow> keeps (others_kept k) (update_room k f)"
  by (rule keepsI) (simp add: update_room_def modify_def others_kept_def find_room_update)

lemma frozen_update_room:
  "(\<And>r. rm_uuid (f r) = rm_uuid r) \<Longrightarrow> (\<And>r. closed_core (f r) = closed_core r) \<Longrightarrow>
   keeps frozen (update_room k f)"
  by (rule keepsI) (auto simp: update_room_def modify_def frozen_def find_room_update)

lemma rooms_modify_pins: "rooms (snd (modify (\<lambda>w. w\<lparr>pins := f w\<rparr>) s)) = rooms s"
  by (simp add: modify_def)

lemma others_modify_pins: "keeps (others_kept k) (modify (\<lambda>w. w\<lparr>pins := f w\<rparr>))"
  by (rule keepsI) (rule others_same_rooms, rule rooms_modify_pins)

lemma others_status_frame: "keeps status_frame m \<Longrightarrow> keeps (others_kept k) m"
  by (simp add: keeps_def) (metis others_same_rooms status_frame_tables(1))

lemma stamp_times_uuid [simp]: "rm_uuid (stamp_times now a u r) = rm_uuid r"
  by (simp add: stamp_times_def Let_def)

lemma others_write_room:
  assumes "keeps_uuid cols"
  shows "keeps (others_kept (rm_uuid r)) (write_room cols adding r)"
proof (rule keepsI)
  fix s
  show "others_kept (rm_uuid r) s (snd (write_room cols adding r s))"
  proof (cases "find_room s (rm_uuid r)")
    case None
    then show ?thesis
      by (auto simp: write_room_def others_kept_def find_room_def find_append split: option.split)
  next
    case (Some row)
    have "others_kept (rm_uuid r) s (s\<lparr>rooms :=
        update_where (\<lambda>x. rm_uuid x = rm_uuid r) (copy_columns cols r) (rooms s)\<rparr>)"
      unfolding others_kept_def
    proof (intro allI impI)
      fix x assume "x \<noteq> rm_uuid r"
      have eq: "find (\<lambda>y. rm_uuid y = x) (update_where (\<lambda>x. rm_uuid x = rm_uuid r)
            (copy_columns cols r) xs) = find (\<lambda>y. rm_uuid y = x) xs" for xs
      proof (induction xs)
        case (Cons a ys)
        have "rm_uuid (copy_columns cols r a) = rm_uuid r" if "rm_uuid a = rm_uuid r"
          using assms that by (auto simp: copy_columns_def keeps_uuid_def split: option.splits)
        then show ?case using Cons \<open>x \<noteq> rm_uuid r\<close> by auto
      qed simp
      show "find_room (s\<lparr>rooms := update_where (\<lambda>x. rm_uuid x = rm_uuid r) (copy_columns cols r)
          (rooms s)\<rparr>) x = find_room s x"
        by (simp add: find_room_def eq)
    qed
    then show ?thesis
      using Some others.R_refl
      by (auto simp: write_room_def update_room_def modify_def)
  qed
qed

lemma frame_update_agent_service_status:
  "keeps status_frame (update_agent_service_status env n r)"
  unfolding update_agent_service_status_def
  by (auto intro!: frame_rules frame_room_assigned frame_room_closed split: option.split)

lemmas others_rules = others.keeps_world others_modify_pins others_update_room others_write_room
  frame_update_agent_service_status [THEN others_status_frame]
  frame_room_closed [THEN others_status_frame] frame_room_assigned [THEN others_status_frame]

lemma others_clear_pins: "keeps (others_kept k) (clear_pins x)"
  unfolding clear_pins_def by (rule others_modify_pins)

lemma others_tags_on_queue_change: "keeps (others_kept (rm_uuid r)) (tags_on_queue_change ob r)"
  unfolding tags_on_queue_change_def clear_tags_def
  by (auto intro!: others_rules split: option.split)

lemma others_room_save:
  assumes "keeps_uuid cols"
  shows "keeps (others_kept (room_pk ob)) (room_save env cols ob)"
proof -
  have pk: "room_pk ob = rm_uuid (stamped env ob)" by (simp add: stamped_def room_pk_def)
  show ?thesis
    unfolding room_save_def
    by (intro others_rules others_clear_pins)
      (simp_all add: pk others_write_room others_tags_on_queue_change assms)
qed

lemma others_room_save':
  "room_pk ob = k \<Longrightarrow> keeps_uuid cols \<Longrightarrow> keeps (others_kept k) (room_save env cols ob)"
  using others_room_save by blast

lemma others_room_close: "keeps (others_kept (room_pk ob)) (room_close env tags e c ob)"
  unfolding room_close_def after_close_def handle_close_tags_def start_csat_flow_def
  by (intro others_rules others_clear_pins others_room_save')
    (simp_all add: room_pk_def closing_def set_row_def keeps_uuid_def)

lemma save_closed_row:
  assumes "find_room w (room_pk ob) = Some row" and "\<not> rm_is_active row"
  shows "\<exists>e w'. room_save env cols ob w = (Inl e, w') \<and> rooms w' = rooms w"
  using assms
  by (auto simp: room_save_def py_defs clear_pins_def write_room_def find_room_def room_pk_def
      stamped_def)

lemma closed_save_raises:
  assumes "find_room w (room_pk ob) = Some row" and "\<not> rm_is_active row" and "\<not> ob_adding ob"
  shows "room_save env cols ob w =
    (Inl (ValidationError ''Closed rooms can't receive updates''), w)"
  using assms by (simp add: room_save_def py_defs)

lemma frozen_room_save: "keeps_uuid cols \<Longrightarrow> keeps frozen (room_save env cols ob)"
proof (rule keepsI)
  fix s assume cols: "keeps_uuid cols"
  show "frozen s (snd (room_save env cols ob s))"
  proof (cases "\<exists>row. find_room s (room_pk ob) = Some row \<and> \<not> rm_is_active row")
    case True
    then obtain row where "find_room s (room_pk ob) = Some row" "\<not> rm_is_active row" by blast
    from save_closed_row [OF this, of env cols] show ?thesis by (auto intro: frozen_same_rooms)
  next
    case False
    with others_room_save [OF cols, of ob env] show ?thesis
      by (auto simp: keeps_def intro: frozen_others)
  qed
qed

lemma find_room_update_other:
  "(\<And>r. rm_uuid (f r) = rm_uuid r) \<Longrightarrow> find_room s k = Some row \<Longrightarrow>
   find_room (snd (update_room k f s)) k = Some (f row)"
  by (simp add: update_room_def modify_def find_room_update)

lemma update_room_run: "update_room k f s = (Inr (), snd (update_room k f s))"
  by (simp add: update_room_def modify_def)

lemma room_pk_closing [simp]: "room_pk (closing env e c ob) = room_pk ob"
  by (simp add: closing_def room_pk_def set_row_def)

lemma ob_adding_closing [simp]: "ob_adding (closing env e c ob) = ob_adding ob"
  by (simp add: closing_def set_row_def)

lemma close_closed_row:
  assumes row: "find_room w (room_pk ob) = Some row" and "\<not> rm_is_active row"
  shows "\<exists>e es. room_close env tags end_by c ob w = (Inl e, w\<lparr>effects := es\<rparr>)"
proof -
  obtain w1 where tags: "(case tags of None \<Rightarrow> ret ()
      | Some ts \<Rightarrow> handle_close_tags (room_pk ob) ts) w = (Inr (), w1)"
    and "\<exists>r. find_room w1 (room_pk ob) = Some r \<and> \<not> rm_is_active r"
    using assms
    by (cases tags) (auto simp: handle_close_tags_def ret_def update_room_def modify_def
        find_room_update)
  then obtain r where r: "find_room w1 (room_pk ob) = Some r" "\<not> rm_is_active r" by blast
  define w2 where "w2 = w1\<lparr>pins := filter (\<lambda>p. pin_room p \<noteq> room_pk ob) (pins w1)\<rparr>"
  have "find_room w2 (room_pk (closing env end_by c ob)) = Some r"
    using r by (simp add: w2_def find_room_def)
  from save_closed_row [OF this r(2), of env None] obtain e w3
    where "room_save env None (closing env end_by c ob) w2 = (Inl e, w3)" by blast
  then have "room_close env tags end_by c ob w = (Inl e, rollback w w3)"
    using tags by (simp add: room_close_def bnd_def andthen_def atomic_def clear_pins_def
        modify_def w2_def)
  then show ?thesis unfolding rollback_def by blast
qed

lemma frozen_room_close: "keeps frozen (room_close env tags e c ob)"
proof (rule keepsI)
  fix s
  show "frozen s (snd (room_close env tags e c ob s))"
  proof (cases "\<exists>row. find_room s (room_pk ob) = Some row \<and> \<not> rm_is_active row")
    case True
    then obtain row where "find_room s (room_pk ob) = Some row" "\<not> rm_is_active row" by blast
    from close_closed_row [OF this, of env tags e c] show ?thesis
      by (auto intro: frozen_same_rooms)
  next
    case False
    with others_room_close [of ob env tags e c] show ?thesis
      by (auto simp: keeps_def intro: frozen_others)
  qed
qed

lemma frozen_add_transfer: "keeps frozen (add_transfer_to_history env t ob)"
  unfolding add_transfer_to_history_def
  by (rule frozen_room_save) (simp add: keeps_uuid_def)

lemma frozen_status_frame: "keeps status_frame m \<Longrightarrow> keeps frozen m"
  by (simp add: keeps_def) (metis frozen_same_rooms status_frame_tables(1))

lemma frozen_modify_tables:
  "keeps frozen (modify (\<lambda>w. w\<lparr>pins := f1 w\<rparr>))"
  "keeps frozen (modify (\<lambda>w. w\<lparr>room_notes := f2 w\<rparr>))"
  "keeps frozen (modify (\<lambda>w. w\<lparr>messages := f3 w\<rparr>))"
  "keeps frozen (modify (\<lambda>w. w\<lparr>metrics := f4 w\<rparr>))"
  "keeps frozen (modify (\<lambda>w. w\<lparr>permissions := f5 w\<rparr>))"
  by (simp_all add: keeps_def modify_def frozen_same_rooms)

lemma frozen_counters:
  "keeps frozen (increment_unread_messages_count k n at)"
  "keeps frozen (clear_unread_messages_count env k)"
  "keeps frozen (update_last_message k m u b)"
  "keeps frozen (update_room k (\<lambda>r. r\<lparr>rm_config := x\<rparr>))"
  unfolding increment_unread_messages_count_def clear_unread_messages_count_def
    update_last_message_def
  by (rule frozen_update_room; simp add: closed_core_def)+

lemma frozen_on_new_message:
  assumes "\<And>x. keeps frozen (reset x)"
  shows "keeps frozen (on_new_message reset ob m c n)"
  unfolding on_new_message_def
  by (intro frozen.keeps_world assms) (rule frozen_update_room; simp add: closed_core_def)

lemma frozen_notifications:
  "keeps frozen (send_group env g c a)"
  "keeps frozen (request_callback_from env url n m)"
  unfolding send_group_def
  by (rule frozen.keeps_send)
    (induction env url n m rule: request_callback_from.induct,
     auto intro!: frozen.keeps_world split: option.split)

lemmas frozen_rules = frozen.keeps_world frozen_modify_tables frozen_counters frozen_notifications
  frozen_room_save frozen_room_close frozen_add_transfer
  frame_new_id [THEN frozen_status_frame] frame_room_closed [THEN frozen_status_frame]
  frame_room_assigned [THEN frozen_status_frame]

lemma frozen_request_callback: "keeps frozen (request_callback env r)"
  unfolding request_callback_def by (intro frozen_rules)

lemma frozen_room_get_permission: "keeps frozen (room_get_permission r u)"
  unfolding room_get_permission_def by (intro frozen_rules)

lemma frozen_notify:
  "keeps frozen (base_notification env r a)"
  "keeps frozen (notify_queue env r a b)"
  "keeps frozen (notify_user env r a u)"
  "keeps frozen (notify_room env r a b)"
  "keeps frozen (user_connection env r a u)"
  "keeps frozen (queue_connection env r a q)"
  "keeps frozen (update_ticket env r)"
  "keeps frozen (update_ticket_async env r)"
  unfolding base_notification_def notify_queue_def notify_user_def notify_room_def
    user_connection_def queue_connection_def update_ticket_def update_ticket_async_def
  by (auto intro!: frozen_rules frozen_request_callback frozen_room_get_permission
      split: option.split)

lemma frozen_message_create: "keeps frozen (message_create env r u c t b)"
  unfolding message_create_def Let_def by (intro frozen_rules)

lemma frozen_message_notify: "keeps frozen (message_notify_room env r m a b)"
  unfolding message_notify_room_def
  by (auto intro!: frozen_rules frozen_notify split: option.split list.split)

lemma frozen_feedback: "keeps frozen (create_room_feedback_message env r x m)"
  unfolding create_room_feedback_message_def
  by (intro frozen_rules frozen_message_create frozen_message_notify)

lemma frozen_pins:
  "keeps frozen (pin_room_op env ob u)" "keeps frozen (unpin_room_op ob u)"
  "keeps frozen (clear_pins k)" "keeps frozen (mark_notes_as_non_deletable k)"
  unfolding pin_room_op_def unpin_room_op_def clear_pins_def mark_notes_as_non_deletable_def
  by (intro frozen_rules)+

lemma frozen_notify_billing: "keeps frozen (notify_billing env ob)"
  unfolding notify_billing_def by (intro frozen_rules)

section \<open>The effect of a save and of a close\<close>

definition without_pins :: "bool \<Rightarrow> uuid \<Rightarrow> world \<Rightarrow> world" where
  "without_pins b k w = (if b then w\<lparr>pins := filter (\<lambda>p. pin_room p \<noteq> k) (pins w)\<rparr> else w)"

lemma stamped_simps [simp]:
  "rm_uuid (stamped env ob) = room_pk ob" "rm_user (stamped env ob) = rm_user (ob_row ob)"
  "rm_queue (stamped env ob) = rm_queue (ob_row ob)"
  "rm_is_active (stamped env ob) = rm_is_active (ob_row ob)"
  "rm_ended_at (stamped env ob) = rm_ended_at (ob_row ob)"
  "rm_ended_by (stamped env ob) = rm_ended_by (ob_row ob)"
  "rm_closed_by (stamped env ob) = rm_closed_by (ob_row ob)"
  by (auto simp: stamped_def stamp_times_def Let_def room_pk_def)

lemma without_pins_simps [simp]:
  "rooms (without_pins b k w) = rooms w" "find_room (without_pins b k w) = find_room w"
  "statuses (without_pins b k w) = statuses w" "effects (without_pins b k w) = effects w"
  "queues (without_pins b k w) = queues w"
  "pins (without_pins b k w) = (if b then filter (\<lambda>p. pin_room p \<noteq> k) (pins w) else pins w)"
  by (simp_all add: without_pins_def fun_eq_iff find_room_def)

lemma service_status_unchanged:
  assumes "find_room w (rm_uuid r) = Some row" and "rm_user row = rm_user r"
  shows "update_agent_service_status env False r w = (Inr (), w)"
  using assms
  by (auto simp: update_agent_service_status_def bnd_def gets_def ret_def split: option.splits)

text \<open>Every outcome of a full save of an instance whose row exists and is active.\<close>

lemma room_save_cases:
  assumes row: "find_room w (room_pk ob) = Some row" "rm_is_active row" and old: "\<not> ob_adding ob"
    and run: "room_save env None ob w = (res, w')"
  obtains e where "res = Inl e" "w' = without_pins (user_changed ob) (room_pk ob) w"
  | e ts where "res = Inl e"
      "w' = (without_pins (user_changed ob) (room_pk ob) w)\<lparr>rooms := update_where
          (\<lambda>x. rm_uuid x = room_pk ob) (\<lambda>x. (stamped env ob)\<lparr>rm_tags := ts x\<rparr>) (rooms w)\<rparr>"
  | ts where "res = Inr (saved_obj None (stamped env ob) ob)"
      "w' = (without_pins (user_changed ob) (room_pk ob) w)\<lparr>rooms := update_where
          (\<lambda>x. rm_uuid x = room_pk ob) (\<lambda>x. (stamped env ob)\<lparr>rm_tags := ts x\<rparr>) (rooms w)\<rparr>"
      "ts row = rm_tags row \<or> ob_tracked_queue ob \<noteq> rm_queue (ob_row ob) \<and> ts row = []"
proof -
  define r where "r = stamped env ob"
  define w1 where "w1 = without_pins (user_changed ob) (room_pk ob) w"
  have clear: "when_true (user_changed ob) (clear_pins (room_pk ob)) w = (Inr (), w1)"
    by (simp add: w1_def without_pins_def when_true_def clear_pins_def modify_def ret_def)
  have rw: "find_room w1 (rm_uuid r) = Some row" using row by (simp add: w1_def r_def)
  have save: "room_save env None ob w = andthen (write_room None False r)
      (andthen (tags_on_queue_change ob r) (andthen (update_agent_service_status env False r)
         (ret (saved_obj None r ob)))) w1"
    using row old run_Inr(2) [where m = "when_true (user_changed ob) (clear_pins (room_pk ob))"
        and s = w, OF clear]
    by (simp add: room_save_def run_gets r_def)
  let ?upd = "\<lambda>ts. w1\<lparr>rooms := update_where (\<lambda>x. rm_uuid x = room_pk ob)
      (\<lambda>x. r\<lparr>rm_tags := ts x\<rparr>) (rooms w)\<rparr>"
  have rooms1: "rooms w1 = rooms w" by (simp add: w1_def)
  have wrote: "write_room None False r w1 =
      (if contact_queue_clash (rooms w) (r\<lparr>rm_tags := rm_tags row\<rparr>)
       then (Inl (IntegrityError ''unique_contact_queue_is_activetrue_room''), w1)
       else (Inr (), ?upd rm_tags))"
    using rw by (simp add: write_room_def copy_columns_def [abs_def] update_room_def modify_def rooms1 r_def)
  have clear_tags: "clear_tags (rm_uuid r) (?upd rm_tags) = (Inr (), ?upd (\<lambda>_. []))"
    by (simp add: clear_tags_def update_room_def modify_def update_where_def r_def o_def
        if_distrib cong: if_cong)
  have tags: "tags_on_queue_change ob r (?upd rm_tags) = (Inr (), ?upd rm_tags) \<or>
      ob_tracked_queue ob \<noteq> rm_queue (ob_row ob) \<and>
      tags_on_queue_change ob r (?upd rm_tags) = (Inr (), ?upd (\<lambda>_. [])) \<or>
      (\<exists>e. tags_on_queue_change ob r (?upd rm_tags) = (Inl e, ?upd rm_tags))"
    using clear_tags r_def
    by (auto simp: tags_on_queue_change_def bnd_def need_def ret_def when_true_def
        split: option.splits)
  have found: "find_room (?upd ts) (rm_uuid r) = Some (r\<lparr>rm_tags := ts row\<rparr>)" for ts
  proof -
    have "find (\<lambda>x. rm_uuid x = room_pk ob) (update_where (\<lambda>x. rm_uuid x = room_pk ob)
        (\<lambda>x. r\<lparr>rm_tags := ts x\<rparr>) xs) =
        map_option (\<lambda>x. r\<lparr>rm_tags := ts x\<rparr>) (find (\<lambda>x. rm_uuid x = room_pk ob) xs)" for xs
      by (induction xs) (auto simp: r_def)
    then show ?thesis using row by (simp add: find_room_def r_def)
  qed
  have service: "update_agent_service_status env False r (?upd ts) = (Inr (), ?upd ts)" for ts
    by (rule service_status_unchanged [OF found]) simp
  show ?thesis
  proof (cases "contact_queue_clash (rooms w) (r\<lparr>rm_tags := rm_tags row\<rparr>)")
    case True
    with run save wrote have "res = Inl (IntegrityError ''unique_contact_queue_is_activetrue_room'')"
      "w' = w1" by (auto simp: run_Inl)
    then show ?thesis using that(1) by (simp add: w1_def)
  next
    case False
    from tags consider "tags_on_queue_change ob r (?upd rm_tags) = (Inr (), ?upd rm_tags)"
      | "ob_tracked_queue ob \<noteq> rm_queue (ob_row ob)"
        "tags_on_queue_change ob r (?upd rm_tags) = (Inr (), ?upd (\<lambda>_. []))"
      | e where "tags_on_queue_change ob r (?upd rm_tags) = (Inl e, ?upd rm_tags)" by blast
    then show ?thesis
    proof cases
      case 1
      with False run save wrote service [of rm_tags] show ?thesis
        by (intro that(3) [of rm_tags]) (auto simp: w1_def r_def run_Inr ret_def)
    next
      case 2
      with False run save wrote service [of "\<lambda>_. []"] show ?thesis
        by (intro that(3) [of "\<lambda>_. []"]) (auto simp: w1_def r_def run_Inr ret_def)
    next
      case 3
      with False run save wrote show ?thesis
        by (intro that(2) [of e rm_tags]) (auto simp: w1_def r_def run_Inr run_Inl)
    qed
  qed
qed

definition loaded :: "room \<Rightarrow> room_obj" where
  "loaded r = \<lparr>ob_row = r, ob_adding = False, ob_tracked_user = rm_user r,
     ob_tracked_queue = rm_queue r\<rparr>"

lemma load_room_run: "find_room w k = Some r \<Longrightarrow> load_room k w = (Inr (loaded r), w)"
  by (simp add: load_room_def need_def py_defs loaded_def)

lemma loaded_simps [simp]:
  "ob_row (loaded r) = r" "ob_adding (loaded r) = False" "ob_tracked_user (loaded r) = rm_user r"
  "ob_tracked_queue (loaded r) = rm_queue r" "room_pk (loaded r) = rm_uuid r"
  by (simp_all add: loaded_def room_pk_def)

definition close_tags :: "uuid list option \<Rightarrow> uuid list \<Rightarrow> uuid list" where
  "close_tags tags old = (case tags of None \<Rightarrow> old
     | Some ts \<Rightarrow> filter (\<lambda>t. t \<in> set ts) old @ filter (\<lambda>t. t \<notin> set old) (remdups ts))"

lemma set_close_tags: "tags = Some ts \<Longrightarrow> set (close_tags tags old) = set ts"
  by (auto simp: close_tags_def)

lemma distinct_close_tags: "distinct old \<Longrightarrow> distinct (close_tags tags old)"
  by (auto simp: close_tags_def split: option.split)

definition same_rooms_pins :: "world \<Rightarrow> world \<Rightarrow> bool" where
  "same_rooms_pins s t \<longleftrightarrow> rooms t = rooms s \<and> pins t = pins s \<and> queues t = queues s
     \<and> sectors t = sectors s \<and> projects t = projects s"

interpretation rooms_pins: world_order same_rooms_pins
  by unfold_locales (auto simp: same_rooms_pins_def)

lemma rooms_pins_status_frame: "keeps status_frame m \<Longrightarrow> keeps same_rooms_pins m"
  by (erule keeps_mono) (simp add: same_rooms_pins_def status_frame_tables)

text \<open>Every outcome of closing an active room whose instance has the user and queue of the row.\<close>

definition up_to_date :: "uuid \<Rightarrow> room_obj \<Rightarrow> bool" where
  "up_to_date k ob \<longleftrightarrow> room_pk ob = k \<and> \<not> ob_adding ob \<and> ob_tracked_queue ob = rm_queue (ob_row ob)
     \<and> ob_tracked_user ob = rm_user (ob_row ob)"

lemma up_to_date_loaded: "up_to_date (rm_uuid r) (loaded r)"
  by (simp add: up_to_date_def)

lemma close_cases_of:
  assumes row: "find_room w k = Some row" "rm_is_active row"
    and f0: "up_to_date k ob0" and run: "room_close env tags end_by c ob0 w = (res, w')"
  obtains e where "res = Inl e" "rooms w' = rooms w" "pins w' = pins w"
  | r' where "find_room w' k = Some r'"
      "r' = (stamped env (closing env end_by c ob0))\<lparr>rm_tags := close_tags tags (rm_tags row)\<rparr>"
      "others_kept k w w'" "pins w' = filter (\<lambda>p. pin_room p \<noteq> k) (pins w)"
proof -
  have k: "room_pk ob0 = k" using f0 by (simp add: up_to_date_def)
  define ob where "ob = closing env end_by c ob0"
  have ob: "room_pk ob = k" "\<not> ob_adding ob" "ob_tracked_queue ob = rm_queue (ob_row ob)"
    "\<not> user_changed ob"
    using f0 by (simp_all add: ob_def up_to_date_def) (simp_all add: closing_def set_row_def user_changed_def)
  obtain w1 where w1: "(case tags of None \<Rightarrow> ret () | Some ts \<Rightarrow> handle_close_tags k ts) w = (Inr (), w1)"
    and f1: "find_room w1 k = Some (row\<lparr>rm_tags := close_tags tags (rm_tags row)\<rparr>)"
    and p1: "pins w1 = pins w" and o1: "others_kept k w w1"
    using row
    by (cases tags) (auto simp: handle_close_tags_def ret_def update_room_def modify_def
        find_room_update close_tags_def others_kept_def)
  define w2 where "w2 = w1\<lparr>pins := filter (\<lambda>p. pin_room p \<noteq> k) (pins w1)\<rparr>"
  have f2: "find_room w2 (room_pk ob) = Some (row\<lparr>rm_tags := close_tags tags (rm_tags row)\<rparr>)"
    using f1 by (simp add: w2_def find_room_def ob)
  obtain sres w3 where save: "room_save env None ob w2 = (sres, w3)" by fastforce
  have pre: "atomic (andthen (case tags of None \<Rightarrow> ret () | Some ts \<Rightarrow> handle_close_tags k ts)
      (andthen (clear_pins k) (room_save env None ob))) w =
      (case sres of Inl e \<Rightarrow> (Inl e, rollback w w3) | Inr x \<Rightarrow> (Inr x, w3))"
    using w1 save
    by (simp add: atomic_def andthen_def bnd_def clear_pins_def modify_def w2_def split: sum.split)
  have closep: "room_close env tags end_by c ob0 w =
     bnd (atomic (andthen (case tags of None \<Rightarrow> ret () | Some ts \<Rightarrow> handle_close_tags k ts)
      (andthen (clear_pins k) (room_save env None ob)))) (after_close env) w"
    by (simp add: room_close_def ob_def k cong: option.case_cong)
  show ?thesis
  proof (cases sres)
    case (Inl e)
    with run pre closep show ?thesis
      by (intro that(1) [of e]) (auto simp: bnd_def)
  next
    case (Inr ob2)
    have "keeps same_rooms_pins (after_close env ob2)"
      unfolding after_close_def start_csat_flow_def
      by (intro rooms_pins.keeps_world frame_room_closed [THEN rooms_pins_status_frame])
    moreover have "after_close env ob2 w3 = (res, w')"
      using run pre closep Inr by (simp add: bnd_def)
    ultimately have same: "same_rooms_pins w3 w'" by (rule keepsD)
    from f2 have "rm_is_active (row\<lparr>rm_tags := close_tags tags (rm_tags row)\<rparr>)" using row by simp
    with f2 ob(2) save Inr ob obtain ts where
      w3: "w3 = w2\<lparr>rooms := update_where (\<lambda>x. rm_uuid x = k)
            (\<lambda>x. (stamped env ob)\<lparr>rm_tags := ts x\<rparr>) (rooms w2)\<rparr>"
      and ts: "ts (row\<lparr>rm_tags := close_tags tags (rm_tags row)\<rparr>) = close_tags tags (rm_tags row)"
      by (elim room_save_cases) (auto simp: without_pins_def)
    have "find_room w3 k = Some ((stamped env ob)\<lparr>rm_tags := close_tags tags (rm_tags row)\<rparr>)"
    proof -
      have "find (\<lambda>x. rm_uuid x = k) (update_where (\<lambda>x. rm_uuid x = k)
          (\<lambda>x. (stamped env ob)\<lparr>rm_tags := ts x\<rparr>) xs) =
          map_option (\<lambda>x. (stamped env ob)\<lparr>rm_tags := ts x\<rparr>) (find (\<lambda>x. rm_uuid x = k) xs)" for xs
        by (induction xs) (auto simp: ob)
      then show ?thesis using f2 ts by (simp add: find_room_def w3 ob)
    qed
    moreover have "others_kept k w w3"
    proof -
      have "others_kept k w1 w2" by (simp add: others_kept_def find_room_def w2_def)
      moreover have "others_kept k w2 w3"
        by (rule keepsD [OF others_room_save' [OF ob(1)] save]) (simp add: keeps_uuid_def)
      ultimately show ?thesis using o1 others.R_trans by blast
    qed
    ultimately show ?thesis
      using same p1
      by (intro that(2)) (auto simp: same_rooms_pins_def others_kept_def find_room_def w3 w2_def ob_def)
  qed
qed

lemma room_close_cases:
  assumes row: "find_room w k = Some row" "rm_is_active row"
    and run: "room_close env tags end_by c (loaded row) w = (res, w')"
  obtains e where "res = Inl e" "rooms w' = rooms w" "pins w' = pins w"
  | r' where "find_room w' k = Some r'"
      "r' = (stamped env (closing env end_by c (loaded row)))\<lparr>rm_tags := close_tags tags (rm_tags row)\<rparr>"
      "others_kept k w w'" "pins w' = filter (\<lambda>p. pin_room p \<noteq> k) (pins w)"
  using close_cases_of [OF row _ run] up_to_date_loaded [of row] that row
  by (auto simp: find_room_uuid)

section \<open>Pins\<close>

definition pin_row_ok :: "world \<Rightarrow> room_pin \<Rightarrow> bool" where
  "pin_row_ok w x \<longleftrightarrow> (case find_room w (pin_room x) of None \<Rightarrow> False
     | Some r \<Rightarrow> rm_is_active r \<and> rm_user r = Some (pin_user x))"

definition pins_ok :: "nat \<Rightarrow> world \<Rightarrow> bool" where
  "pins_ok limit w \<longleftrightarrow> list_all (pin_row_ok w) (pins w) \<and>
     distinct (map (\<lambda>x. (pin_room x, pin_user x)) (pins w)) \<and>
     (\<forall>u p. active_pin_count w u p \<le> limit)"

lemma active_pin_count_ok:
  assumes "list_all (pin_row_ok w) (pins w)"
  shows "active_pin_count w u p = count_where (\<lambda>x. pin_user x = u \<and> pin_project x = p) (pins w)"
proof -
  have "list_all (pin_row_ok w) xs \<Longrightarrow>
      filter (\<lambda>x. pin_user x = u \<and> pin_project x = p \<and> room_row_active w (pin_room x)) xs =
      filter (\<lambda>x. pin_user x = u \<and> pin_project x = p) xs" for xs
    by (induction xs) (auto simp: room_row_active_def pin_row_ok_def split: option.splits)
  with assms show ?thesis by (simp add: active_pin_count_def count_where_def)
qed

lemma pins_ok_shrink:
  assumes ok: "pins_ok n w" and pins: "pins w' = filter q (pins w)"
    and rows: "\<And>x. x \<in> set (pins w) \<Longrightarrow> q x \<Longrightarrow> pin_row_ok w' x"
  shows "pins_ok n w'"
proof -
  have all: "list_all (pin_row_ok w') (pins w')"
    using rows by (auto simp: pins list_all_iff)
  have fewer: "count_where (\<lambda>x. pin_user x = u \<and> pin_project x = p) (filter q xs) \<le>
      count_where (\<lambda>x. pin_user x = u \<and> pin_project x = p) xs" for u p xs
    by (induction xs) auto
  have "active_pin_count w' u p \<le> n" for u p
  proof -
    have "active_pin_count w u p \<le> n" "list_all (pin_row_ok w) (pins w)"
      using ok by (simp_all add: pins_ok_def)
    moreover have "active_pin_count w' u p \<le>
        count_where (\<lambda>x. pin_user x = u \<and> pin_project x = p) (pins w)"
      unfolding active_pin_count_ok [OF all] by (simp add: pins fewer)
    ultimately show ?thesis by (simp add: active_pin_count_ok)
  qed
  then show ?thesis
    using ok all by (auto simp: pins_ok_def pins distinct_map intro: inj_on_subset)
qed

lemma pins_ok_same:
  "pins_ok n w \<Longrightarrow> pins w' = pins w \<Longrightarrow> rooms w' = rooms w \<Longrightarrow> pins_ok n w'"
  by (simp add: pins_ok_def pin_row_ok_def [abs_def] active_pin_count_def room_row_active_def
      find_room_def)

lemma pin_row_ok_others:
  "others_kept k w w' \<Longrightarrow> pin_room x \<noteq> k \<Longrightarrow> pin_row_ok w' x = pin_row_ok w x"
  by (simp add: others_kept_def pin_row_ok_def)

lemma pins_ok_rowD: "pins_ok n w \<Longrightarrow> x \<in> set (pins w) \<Longrightarrow> pin_row_ok w x"
  by (auto simp: pins_ok_def list_all_iff)

lemma pins_ok_save:
  assumes ok: "pins_ok n w" and row: "find_room w k = Some row"
    and f: "rm_uuid (f row) = rm_uuid row" "rm_is_active (f row) = rm_is_active row"
    and run: "room_save env None (set_row f (loaded row)) w = (res, w')"
  shows "pins_ok n w'"
proof (cases "rm_is_active row")
  case False
  have "room_pk (set_row f (loaded row)) = k" "\<not> ob_adding (set_row f (loaded row))"
    using row f by (simp_all add: set_row_def room_pk_def loaded_def find_room_uuid)
  with False row run ok closed_save_raises [of w "set_row f (loaded row)" row env None]
  show ?thesis by simp
next
  case True
  define ob where "ob = set_row f (loaded row)"
  have ob: "room_pk ob = k" "\<not> ob_adding ob" "ob_row ob = f row"
      "user_changed ob \<longleftrightarrow> rm_user (f row) \<noteq> rm_user row"
    using row f by (simp_all add: ob_def set_row_def room_pk_def loaded_def find_room_uuid
        user_changed_def)
  have others: "others_kept k w w'"
    by (rule keepsD [OF others_room_save' [OF ob(1)] run [folded ob_def]]) (simp add: keeps_uuid_def)
  have at_k: "pin_row_ok (v\<lparr>rooms := update_where (\<lambda>x. rm_uuid x = room_pk ob)
      (\<lambda>x. (stamped env ob)\<lparr>rm_tags := ts x\<rparr>) (rooms w)\<rparr>) x"
    if "x \<in> set (pins w)" "pin_room x = k" "\<not> user_changed ob" for v ts x
  proof -
    have "find (\<lambda>x. rm_uuid x = k) (update_where (\<lambda>x. rm_uuid x = room_pk ob)
        (\<lambda>x. (stamped env ob)\<lparr>rm_tags := ts x\<rparr>) xs) =
        map_option (\<lambda>x. (stamped env ob)\<lparr>rm_tags := ts x\<rparr>) (find (\<lambda>x. rm_uuid x = k) xs)" for xs
      by (induction xs) (auto simp: ob)
    then show ?thesis
      using row True f that ob pins_ok_rowD [OF ok that(1)]
      by (auto simp: pin_row_ok_def find_room_def)
  qed
  from row True ob(1,2) have pre: "find_room w (room_pk ob) = Some row" "rm_is_active row"
    "\<not> ob_adding ob" by simp_all
  have pins: "pins w' = filter (\<lambda>p. user_changed ob \<longrightarrow> pin_room p \<noteq> k) (pins w) \<and>
      (\<forall>x \<in> set (pins w). pin_room x = k \<and> \<not> user_changed ob \<longrightarrow> pin_row_ok w' x)"
    using run [folded ob_def]
  proof (cases rule: room_save_cases [OF pre, where env = env and res = res and w' = w',
      consumes 1, case_names refused broken saved])
    case (refused e)
    then show ?thesis using pins_ok_rowD [OF ok]
      by (auto simp: ob pin_row_ok_def filter_id_conv [THEN iffD2])
  next
    case (broken e ts)
    then show ?thesis using at_k by (auto simp: ob filter_id_conv [THEN iffD2])
  next
    case (saved ts)
    then show ?thesis using at_k by (auto simp: ob filter_id_conv [THEN iffD2])
  qed
  show ?thesis
  proof (rule pins_ok_shrink [OF ok, of w' "\<lambda>p. user_changed ob \<longrightarrow> pin_room p \<noteq> k"])
    show "pins w' = filter (\<lambda>p. user_changed ob \<longrightarrow> pin_room p \<noteq> k) (pins w)" using pins by simp
  next
    fix x assume x: "x \<in> set (pins w)" "user_changed ob \<longrightarrow> pin_room x \<noteq> k"
    show "pin_row_ok w' x"
      using x pins pins_ok_rowD [OF ok x(1)] pin_row_ok_others [OF others, of x]
      by (cases "pin_room x = k") auto
  qed
qed

lemma pins_ok_close:
  assumes ok: "pins_ok n w" and row: "find_room w k = Some row"
    and run: "room_close env tags e c (loaded row) w = (res, w')"
  shows "pins_ok n w'"
proof (cases "rm_is_active row")
  case False
  then obtain x es where "w' = w\<lparr>effects := es\<rparr>"
    using close_closed_row [of w "loaded row" row env tags e c] row run
    by (auto simp: find_room_uuid)
  then show ?thesis by (intro pins_ok_same [OF ok]) simp_all
next
  case True
  from row True run show ?thesis
  proof (cases rule: room_close_cases [consumes 3, case_names refused closed])
    case (refused x)
    then show ?thesis by (intro pins_ok_same [OF ok])
  next
    case (closed r')
    show ?thesis
    proof (rule pins_ok_shrink [OF ok closed(4)])
      fix x assume "x \<in> set (pins w)" "pin_room x \<noteq> k"
      then show "pin_row_ok w' x"
        using pins_ok_rowD [OF ok] pin_row_ok_others [OF closed(3)] by blast
    qed
  qed
qed

lemma pin_room_run:
  "snd (pin_room_op env ob u w) =
    (if list_ex (\<lambda>x. pin_room x = room_pk ob \<and> pin_user x = u) (pins w) then w
     else case project_of w (ob_row ob) of None \<Rightarrow> w
     | Some p \<Rightarrow>
        if active_pin_count w u (prj_uuid p) \<ge> set_max_room_pins env
           \<or> rm_user (ob_row ob) \<noteq> Some u \<or> \<not> rm_is_active (ob_row ob) then w
        else w\<lparr>pins := pins w @ [\<lparr>pin_room = room_pk ob, pin_user = u,
               pin_created_on = env_now env, pin_project = prj_uuid p\<rparr>]\<rparr>)"
  by (simp add: pin_room_op_def py_defs need_def split: option.split)

lemma pins_ok_pin:
  assumes ok: "pins_ok (set_max_room_pins env) w" and row: "find_room w k = Some row"
  shows "pins_ok (set_max_room_pins env) (snd (pin_room_op env (loaded row) u w))"
proof (cases "snd (pin_room_op env (loaded row) u w) = w")
  case True
  with ok show ?thesis by simp
next
  case False
  obtain p where new: "snd (pin_room_op env (loaded row) u w) = w\<lparr>pins := pins w @
        [\<lparr>pin_room = k, pin_user = u, pin_created_on = env_now env, pin_project = p\<rparr>]\<rparr>"
      (is "_ = ?w'")
    and free: "\<not> list_ex (\<lambda>x. pin_room x = k \<and> pin_user x = u) (pins w)"
    and few: "active_pin_count w u p < set_max_room_pins env"
    and own: "rm_user row = Some u" "rm_is_active row"
  proof (cases "project_of w row")
    case None
    with False show ?thesis by (simp add: pin_room_run split: if_splits)
  next
    case (Some p)
    with False row show ?thesis
      by (intro that [of "prj_uuid p"])
        (simp_all add: pin_room_run find_room_uuid split: if_splits)
  qed
  have same: "pin_row_ok ?w' = pin_row_ok w"
    by (simp add: fun_eq_iff pin_row_ok_def find_room_def)
  have all: "list_all (pin_row_ok ?w') (pins ?w')"
    using ok own row by (auto simp: same pins_ok_def) (simp add: pin_row_ok_def)
  have "count_where f (xs @ ys) = count_where f xs + count_where f ys" for f and xs ys :: "room_pin list"
    by (simp add: count_where_def)
  then have "active_pin_count ?w' x y \<le> set_max_room_pins env" for x y
    using ok few all unfolding pins_ok_def
    by (auto simp: active_pin_count_ok Suc_le_eq)
  then show ?thesis
    using ok all free new by (auto simp: pins_ok_def list_ex_iff)
qed

lemma pins_ok_unpin:
  assumes "pins_ok n w"
  shows "pins_ok n (snd (unpin_room_op ob u w))"
proof -
  have "pins_ok n (w\<lparr>pins := filter q (pins w)\<rparr>)" for q
    by (rule pins_ok_shrink [OF assms, of _ q])
      (auto simp: pin_row_ok_def find_room_def dest: pins_ok_rowD [OF assms])
  with assms show ?thesis by (simp add: unpin_room_op_def py_defs)
qed

definition same_pins :: "world \<Rightarrow> world \<Rightarrow> bool" where
  "same_pins s t \<longleftrightarrow> pins t = pins s"

interpretation pins_kept: world_order same_pins
  by unfold_locales (auto simp: same_pins_def)

lemma same_pins_rules:
  "keeps status_frame m \<Longrightarrow> keeps same_pins m"
  "keeps same_pins (update_room k f)"
  "keeps same_pins (write_room cols b r)"
  by (erule keeps_mono, simp add: same_pins_def status_frame_tables)
    (auto simp: keeps_def same_pins_def update_room_def modify_def write_room_def split: option.split)

lemma pins_ok_create:
  assumes ok: "pins_ok n w"
  shows "pins_ok n (snd (room_save env None (new_room r) w))"
proof -
  have pk: "room_pk (new_room r) = rm_uuid r" by (simp add: new_room_def room_pk_def)
  have others: "others_kept (rm_uuid r) w (snd (room_save env None (new_room r) w))"
    using others_room_save' [OF pk, of None env] by (simp add: keeps_def keeps_uuid_def)
  have unch: "user_changed (new_room r) = False" by (simp add: user_changed_def new_room_def)
  have "keeps same_pins (room_save env None (new_room r))"
    unfolding room_save_def unch when_true_simps tags_on_queue_change_def clear_tags_def
    by (auto intro!: pins_kept.keeps_world same_pins_rules(2,3)
        frame_update_agent_service_status [THEN same_pins_rules(1)] split: option.split)
  then have pins: "pins (snd (room_save env None (new_room r) w)) = pins w"
    by (simp add: keeps_def same_pins_def)
  show ?thesis
  proof (cases "find_room w (rm_uuid r)")
    case None
    show ?thesis
    proof (rule pins_ok_shrink [OF ok, of _ "\<lambda>_. True"])
      fix x assume x: "x \<in> set (pins w)"
      then have "pin_room x \<noteq> rm_uuid r"
        using pins_ok_rowD [OF ok x] None by (auto simp: pin_row_ok_def)
      then show "pin_row_ok (snd (room_save env None (new_room r) w)) x"
        using pins_ok_rowD [OF ok x] pin_row_ok_others [OF others] by blast
    qed (simp add: pins)
  next
    case (Some row)
    have "write_room None True (stamped env (new_room r)) w = (Inl (IntegrityError ''rooms_room_pkey''), w)"
      using Some by (simp add: write_room_def pk)
    moreover have "ob_adding (new_room r)" by (simp add: new_room_def)
    ultimately have "rooms (snd (room_save env None (new_room r) w)) = rooms w"
      by (simp add: room_save_def unch run_gets run_Inl)
    then show ?thesis by (intro pins_ok_same [OF ok] pins)
  qed
qed

section \<open>Properties\<close>

text \<open>What the handlers of the API do with one room: load it, change it, save it.\<close>

datatype room_step =
    Assign uuid "email option"
  | Move uuid "uuid option"
  | Close_Step uuid "uuid list option" string "email option"
  | Pin_Step uuid email
  | Unpin_Step uuid email
  | Create_Step room

fun run_room_step :: "env \<Rightarrow> room_step \<Rightarrow> world \<Rightarrow> world" where
  "run_room_step env (Assign k u) w = snd (bnd (load_room k)
     (\<lambda>ob. room_save env None (set_row (\<lambda>r. r\<lparr>rm_user := u\<rparr>) ob)) w)"
| "run_room_step env (Move k q) w = snd (bnd (load_room k)
     (\<lambda>ob. room_save env None (set_row (\<lambda>r. r\<lparr>rm_queue := q\<rparr>) ob)) w)"
| "run_room_step env (Close_Step k tags e c) w = snd (bnd (load_room k) (room_close env tags e c) w)"
| "run_room_step env (Pin_Step k u) w = snd (bnd (load_room k) (\<lambda>ob. pin_room_op env ob u) w)"
| "run_room_step env (Unpin_Step k u) w = snd (bnd (load_room k) (\<lambda>ob. unpin_room_op ob u) w)"
| "run_room_step env (Create_Step r) w = snd (room_save env None (new_room r) w)"

lemma load_room_missing:
  "find_room w k = None \<Longrightarrow> load_room k w = (Inl (DoesNotExist ''Room''), w)"
  by (simp add: load_room_def need_def bnd_def)

lemma pins_ok_step:
  assumes ok: "pins_ok (set_max_room_pins env) w"
  shows "pins_ok (set_max_room_pins env) (run_room_step env x w)"
proof (cases x)
  case (Create_Step r)
  then show ?thesis using pins_ok_create [OF ok] by simp
next
  case (Assign k u)
  then show ?thesis
    using ok pins_ok_save [OF ok, of k _ "\<lambda>r. r\<lparr>rm_user := u\<rparr>" env, OF _ _ _ prod.collapse [symmetric]]
    by (cases "find_room w k") (simp_all add: load_room_run load_room_missing bnd_def)
next
  case (Move k q)
  then show ?thesis
    using ok pins_ok_save [OF ok, of k _ "\<lambda>r. r\<lparr>rm_queue := q\<rparr>" env, OF _ _ _ prod.collapse [symmetric]]
    by (cases "find_room w k") (simp_all add: load_room_run load_room_missing bnd_def)
next
  case (Close_Step k tags e c)
  then show ?thesis
    using ok pins_ok_close [OF ok, of k _ env tags e c, OF _ prod.collapse [symmetric]]
    by (cases "find_room w k") (simp_all add: load_room_run load_room_missing bnd_def)
next
  case (Pin_Step k u)
  then show ?thesis
    using ok pins_ok_pin [OF ok, of k _ u]
    by (cases "find_room w k") (simp_all add: load_room_run load_room_missing bnd_def)
next
  case (Unpin_Step k u)
  then show ?thesis
    using ok pins_ok_unpin [OF ok]
    by (cases "find_room w k") (simp_all add: load_room_run load_room_missing bnd_def)
qed

text \<open>C3. Through any sequence of assignments, moves, closures, pins and new rooms, whatever
  exceptions they raise, every pin belongs to an active room assigned to its user, a room is pinned
  once per user, and nobody has more than \<open>MAX_ROOM_PINS_LIMIT\<close> pins in a project.\<close>

theorem pins_invariant:
  assumes "list_all (\<lambda>(env, x). set_max_room_pins env = limit) steps" and "pins_ok limit w"
  shows "pins_ok limit (fold (\<lambda>(env, x). run_room_step env x) steps w)"
  using assms by (induction steps arbitrary: w) (auto dest: pins_ok_step)

definition pinned_world :: world where
  "pinned_world = small_world\<lparr>rooms := [blank_room\<lparr>rm_user := Some ''a@x'', rm_queue := Some ''q''\<rparr>],
     pins := [\<lparr>pin_room = ''r1'', pin_user = ''a@x'', pin_created_on = 0, pin_project = ''p''\<rparr>]\<rparr>"

lemma pins_ok_pinned_world: "pins_ok 3 pinned_world"
  by (auto simp: pins_ok_def pin_row_ok_def active_pin_count_def pinned_world_def sample_defs
      find_room_def count_where_def)

theorem pins_invariant_witness:
  "pins_ok 3 (fold (\<lambda>(env, x). run_room_step env x)
     [(calm_env, Assign ''r1'' (Some ''b@x'')), (calm_env, Pin_Step ''r1'' ''b@x''),
      (calm_env, Close_Step ''r1'' None ''agent'' None)] pinned_world)"
  by (rule pins_invariant) (simp_all add: pins_ok_pinned_world, simp add: calm_env_def)

lemma room_save_effect:
  assumes "find_room w (room_pk ob) = Some row" and "rm_is_active row" and "\<not> ob_adding ob"
    and "room_save env None ob w = (Inr ob', w')"
  shows "\<exists>tags. find_room w' (room_pk ob) = Some ((stamped env ob)\<lparr>rm_tags := tags\<rparr>) \<and>
      (tags = rm_tags row \<or> ob_tracked_queue ob \<noteq> rm_queue (ob_row ob) \<and> tags = []) \<and>
      pins w' = (if user_changed ob then filter (\<lambda>p. pin_room p \<noteq> room_pk ob) (pins w) else pins w) \<and>
      ob_row ob' = stamped env ob \<and>
      (\<forall>k. k \<noteq> room_pk ob \<longrightarrow> find_room w' k = find_room w k)"
proof -
  have others: "others_kept (room_pk ob) w w'"
    by (rule keepsD [OF others_room_save assms(4)]) (simp add: keeps_uuid_def)
  from assms(1-3) assms(4) obtain ts where
    w': "w' = (without_pins (user_changed ob) (room_pk ob) w)\<lparr>rooms := update_where
          (\<lambda>x. rm_uuid x = room_pk ob) (\<lambda>x. (stamped env ob)\<lparr>rm_tags := ts x\<rparr>) (rooms w)\<rparr>"
    and ts: "ts row = rm_tags row \<or> ob_tracked_queue ob \<noteq> rm_queue (ob_row ob) \<and> ts row = []"
    and ob': "ob' = saved_obj None (stamped env ob) ob"
    by (elim room_save_cases) auto
  have "find (\<lambda>x. rm_uuid x = room_pk ob) (update_where (\<lambda>x. rm_uuid x = room_pk ob)
      (\<lambda>x. (stamped env ob)\<lparr>rm_tags := ts x\<rparr>) xs) =
      map_option (\<lambda>x. (stamped env ob)\<lparr>rm_tags := ts x\<rparr>) (find (\<lambda>x. rm_uuid x = room_pk ob) xs)" for xs
    by (induction xs) auto
  then have "find_room w' (room_pk ob) = Some ((stamped env ob)\<lparr>rm_tags := ts row\<rparr>)"
    using assms(1) by (simp add: w' find_room_def)
  then show ?thesis
    using ts others by (auto simp: w' ob' saved_obj_def others_kept_def)
qed

text \<open>C1. A full save of a loaded instance either leaves the rows alone, or writes exactly the
  stamped instance (its tags kept, or dropped when the queue changed), clears the pins when the user
  changed, and changes no other room.\<close>

theorem room_save_persists:
  assumes "find_room w (room_pk ob) = Some row" and "rm_is_active row" and "\<not> ob_adding ob"
    and "room_save env None ob w = (Inr ob', w')"
  shows "\<exists>tags. find_room w' (room_pk ob) = Some ((stamped env ob)\<lparr>rm_tags := tags\<rparr>) \<and>
      (tags = rm_tags row \<or> ob_tracked_queue ob \<noteq> rm_queue (ob_row ob) \<and> tags = []) \<and>
      pins w' = (if user_changed ob then filter (\<lambda>p. pin_room p \<noteq> room_pk ob) (pins w) else pins w) \<and>
      ob_row ob' = stamped env ob \<and>
      (\<forall>k. k \<noteq> room_pk ob \<longrightarrow> find_room w' k = find_room w k)"
  using assms by (rule room_save_effect)

theorem room_save_persists_witness:
  "\<exists>tags. find_room (snd (room_save calm_env None (loaded (hd (rooms pinned_world))) pinned_world))
      (room_pk (loaded (hd (rooms pinned_world)))) =
      Some ((stamped calm_env (loaded (hd (rooms pinned_world))))\<lparr>rm_tags := tags\<rparr>)"
proof -
  have "find_room pinned_world (room_pk (loaded (hd (rooms pinned_world)))) = Some (hd (rooms pinned_world))"
    by (simp add: pinned_world_def sample_defs find_room_def)
  moreover have "rm_is_active (hd (rooms pinned_world))"
    by (simp add: pinned_world_def sample_defs)
  moreover have "room_save calm_env None (loaded (hd (rooms pinned_world))) pinned_world =
      (Inr (saved_obj None (stamped calm_env (loaded (hd (rooms pinned_world))))
         (loaded (hd (rooms pinned_world)))),
       snd (room_save calm_env None (loaded (hd (rooms pinned_world))) pinned_world))"
    by (simp add: room_save_def run_gets andthen_def bnd_def pinned_world_def sample_defs find_room_def
        user_changed_def tags_on_queue_change_def write_room_def contact_queue_clash_def
        copy_columns_def update_room_def modify_def update_agent_service_status_def ret_def gets_def
        project_of_def sector_of_def queue_of_def find_queue_def sector_of_queue_def find_sector_def
        project_of_sector_def find_project_def)
  ultimately show ?thesis using room_save_persists by fastforce
qed

text \<open>Saving an existing room never touches the \<open>In-Service\<close> statuses, whoever the room is
  transferred to: the status update compares the new user with the row that was just written.\<close>

theorem save_ignores_service_status:
  assumes "find_room w (room_pk ob) = Some row" and "rm_is_active row" and "\<not> ob_adding ob"
  shows "statuses (snd (room_save env None ob w)) = statuses w \<and>
    effects (snd (room_save env None ob w)) = effects w"
  by (rule room_save_cases [OF assms prod.collapse [symmetric], where env = env]) simp_all

theorem save_ignores_service_status_witness:
  "statuses (snd (room_save calm_env None
       (set_row (\<lambda>r. r\<lparr>rm_user := Some ''b@x''\<rparr>) (loaded (hd (rooms pinned_world)))) pinned_world)) =
     statuses pinned_world \<and>
   effects (snd (room_save calm_env None
       (set_row (\<lambda>r. r\<lparr>rm_user := Some ''b@x''\<rparr>) (loaded (hd (rooms pinned_world)))) pinned_world)) =
     effects pinned_world"
  by (rule save_ignores_service_status [where row = "hd (rooms pinned_world)"])
    (simp_all add: pinned_world_def sample_defs find_room_def room_pk_def set_row_def loaded_def)

text \<open>Moving a room away from a queue that was deleted meanwhile raises \<open>DoesNotExist\<close>, but the
  row has already been written with the new queue.\<close>

theorem move_from_deleted_queue:
  assumes "find_room w k = Some row" and "rm_is_active row" and "rm_queue row = Some old"
    and "\<not> list_ex (\<lambda>q. que_uuid q = old) (live_queues w)" and "old \<noteq> new"
    and "\<not> contact_queue_clash (rooms w) (row\<lparr>rm_queue := Some new\<rparr>)"
  shows "\<exists>w'. room_save env None (set_row (\<lambda>r. r\<lparr>rm_queue := Some new\<rparr>) (loaded row)) w =
      (Inl (DoesNotExist ''Queue''), w') \<and>
    map_option rm_queue (find_room w' k) = Some (Some new)"
proof -
  define ob where "ob = set_row (\<lambda>r. r\<lparr>rm_queue := Some new\<rparr>) (loaded row)"
  have ob: "room_pk ob = k" "\<not> ob_adding ob" "\<not> user_changed ob" "ob_tracked_queue ob = Some old"
    "rm_queue (ob_row ob) = Some new" "rm_user (ob_row ob) = rm_user row"
    using assms(1,3) by (simp_all add: ob_def set_row_def room_pk_def loaded_def find_room_uuid
        user_changed_def)
  have same: "contact_queue_clash (rooms w) ((stamped env ob)\<lparr>rm_tags := rm_tags row\<rparr>) =
      contact_queue_clash (rooms w) (row\<lparr>rm_queue := Some new\<rparr>)"
    using ob by (simp add: contact_queue_clash_def ob_def stamped_def stamp_times_def set_row_def
        loaded_def Let_def room_pk_def)
  define w1 where "w1 = w\<lparr>rooms := update_where (\<lambda>x. rm_uuid x = k) (copy_columns None (stamped env ob))
      (rooms w)\<rparr>"
  have wrote: "write_room None False (stamped env ob) w = (Inr (), w1)"
    using assms same ob by (simp add: write_room_def copy_columns_def [of None] update_room_def
        modify_def w1_def)
  have gone: "find (\<lambda>q. que_uuid q = old) (live_queues w1) = None"
    using assms(4) by (auto simp: w1_def find_None_iff list_ex_iff)
  have "tags_on_queue_change ob (stamped env ob) w1 = (Inl (DoesNotExist ''Queue''), w1)"
    using ob assms(5) gone by (simp add: tags_on_queue_change_def need_def bnd_def)
  then have "room_save env None ob w = (Inl (DoesNotExist ''Queue''), w1)"
    using assms ob wrote by (simp add: room_save_def run_gets run_Inr run_Inl)
  moreover have "find (\<lambda>x. rm_uuid x = k) (update_where (\<lambda>x. rm_uuid x = k)
      (copy_columns None (stamped env ob)) xs) =
      map_option (copy_columns None (stamped env ob)) (find (\<lambda>x. rm_uuid x = k) xs)" for xs
    using ob by (induction xs) (auto simp: copy_columns_def)
  then have "map_option rm_queue (find_room w1 k) = Some (Some new)"
    using assms(1) ob by (simp add: w1_def find_room_def copy_columns_def)
  ultimately show ?thesis by (simp add: ob_def)
qed

theorem move_from_deleted_queue_witness:
  "\<exists>w'. room_save calm_env None (set_row (\<lambda>r. r\<lparr>rm_queue := Some ''q''\<rparr>)
        (loaded (blank_room\<lparr>rm_queue := Some ''gone''\<rparr>)))
        (small_world\<lparr>rooms := [blank_room\<lparr>rm_queue := Some ''gone''\<rparr>]\<rparr>) =
      (Inl (DoesNotExist ''Queue''), w') \<and>
    map_option rm_queue (find_room w' ''r1'') = Some (Some ''q'')"
  by (rule move_from_deleted_queue [where old = "''gone''"])
    (simp_all add: sample_defs find_room_def contact_queue_clash_def)

lemma room_close_effect:
  assumes "find_room w k = Some row" and "room_close env tags end_by c (loaded row) w = (res, w')"
  shows "(rooms w' = rooms w \<and> pins w' = pins w \<and> (\<exists>e. res = Inl e)) \<or>
    (rm_is_active row \<and> (\<exists>r'. find_room w' k = Some r' \<and> \<not> rm_is_active r' \<and>
       rm_ended_at r' = Some (env_now env) \<and> rm_ended_by r' = Some end_by \<and> rm_closed_by r' = c \<and>
       rm_user r' = rm_user row \<and> rm_tags r' = close_tags tags (rm_tags row)) \<and>
     pins w' = filter (\<lambda>p. pin_room p \<noteq> k) (pins w) \<and>
     (\<forall>x. x \<noteq> k \<longrightarrow> find_room w' x = find_room w x))"
proof (cases "rm_is_active row")
  case True
  from assms(1) True assms(2) show ?thesis
    by (cases rule: room_close_cases)
      (simp_all add: others_kept_def True, simp_all add: closing_def set_row_def loaded_def)
next
  case False
  with assms close_closed_row [of w "loaded row" row env tags end_by c] show ?thesis
    by (auto simp: find_room_uuid)
qed

text \<open>C2. Closing an active room either fails and leaves rooms and pins as they were, or stores the
  closed row with its end, its author and exactly the given tags, drops all pins of the room and
  leaves every other room alone; a closed room refuses to be closed or saved again.\<close>

theorem room_close_outcome:
  assumes "find_room w k = Some row" and "room_close env tags end_by c (loaded row) w = (res, w')"
  shows "(rooms w' = rooms w \<and> pins w' = pins w \<and> (\<exists>e. res = Inl e)) \<or>
    (rm_is_active row \<and> (\<exists>r'. find_room w' k = Some r' \<and> \<not> rm_is_active r' \<and>
       rm_ended_at r' = Some (env_now env) \<and> rm_ended_by r' = Some end_by \<and> rm_closed_by r' = c \<and>
       rm_user r' = rm_user row \<and> rm_tags r' = close_tags tags (rm_tags row)) \<and>
     pins w' = filter (\<lambda>p. pin_room p \<noteq> k) (pins w) \<and>
     (\<forall>x. x \<noteq> k \<longrightarrow> find_room w' x = find_room w x))"
  using assms by (rule room_close_effect)

theorem room_close_outcome_witness:
  "(rooms (snd (room_close calm_env None ''agent'' None (loaded (hd (rooms pinned_world))) pinned_world))
      = rooms pinned_world \<and>
    pins (snd (room_close calm_env None ''agent'' None (loaded (hd (rooms pinned_world))) pinned_world))
      = pins pinned_world \<and>
    (\<exists>e. fst (room_close calm_env None ''agent'' None (loaded (hd (rooms pinned_world))) pinned_world)
      = Inl e)) \<or>
   (rm_is_active (hd (rooms pinned_world)) \<and>
    (\<exists>r'. find_room (snd (room_close calm_env None ''agent'' None
          (loaded (hd (rooms pinned_world))) pinned_world)) ''r1'' = Some r' \<and> \<not> rm_is_active r' \<and>
       rm_ended_at r' = Some (env_now calm_env) \<and> rm_ended_by r' = Some ''agent'' \<and>
       rm_closed_by r' = None \<and> rm_user r' = rm_user (hd (rooms pinned_world)) \<and>
       rm_tags r' = close_tags None (rm_tags (hd (rooms pinned_world)))) \<and>
    pins (snd (room_close calm_env None ''agent'' None (loaded (hd (rooms pinned_world))) pinned_world))
      = filter (\<lambda>p. pin_room p \<noteq> ''r1'') (pins pinned_world) \<and>
    (\<forall>x. x \<noteq> ''r1'' \<longrightarrow> find_room (snd (room_close calm_env None ''agent'' None
          (loaded (hd (rooms pinned_world))) pinned_world)) x = find_room pinned_world x))"
  by (rule room_close_outcome [OF _ prod.collapse [symmetric]])
    (simp add: pinned_world_def sample_defs find_room_def)

text \<open>The time stamps of a save: the first assignment is recorded once and never moved, an
  assigned active room has both assignment times, a change of user restarts the assignment, and the
  queue time restarts exactly for a new room and for a room that loses its user.\<close>

theorem stamp_times_spec:
  assumes "r' = stamp_times now adding changed r"
  shows "(rm_first_user_assigned_at r \<noteq> None \<longrightarrow>
        rm_first_user_assigned_at r' = rm_first_user_assigned_at r) \<and>
    (rm_is_active r \<and> rm_user r \<noteq> None \<longrightarrow>
        rm_first_user_assigned_at r' \<noteq> None \<and> rm_user_assigned_at r' \<noteq> None) \<and>
    (changed \<longrightarrow> rm_user_assigned_at r' = Some now) \<and>
    (rm_added_to_queue_at r' =
       (if adding \<or> changed \<and> rm_user r = None then Some now else rm_added_to_queue_at r))"
  unfolding assms
  by (cases adding; cases changed; cases "rm_user r"; cases "rm_is_active r";
      cases "rm_first_user_assigned_at r"; cases "rm_user_assigned_at r"; simp add: stamp_times_def)

theorem stamp_times_spec_witness:
  "rm_added_to_queue_at (stamp_times 5 True False blank_room) = Some 5"
  using stamp_times_spec [OF refl, where now = 5 and adding = True and changed = False
      and r = blank_room] by simp

text \<open>\<open>request_callback\<close> posts at most \<open>MAX_RETRIES\<close> times, stops at the first answer that
  is a 404 (which it reports) or not an error, and raises when every attempt failed.\<close>

definition final_answer :: "nat option \<Rightarrow> bool" where
  "final_answer st = (case st of None \<Rightarrow> False | Some c \<Rightarrow> c = 404 \<or> c < 400 \<or> 600 \<le> c)"

definition callback_outcome :: "env \<Rightarrow> string \<Rightarrow> nat \<Rightarrow> nat \<Rightarrow> world \<Rightarrow> (exn + unit) \<times> world" where
  "callback_outcome env url start left w =
     (case find (\<lambda>i. final_answer (http_status env url i)) [start..<start + left] of
        Some i \<Rightarrow> (Inr (), w\<lparr>effects := effects w
            @ replicate (Suc i - start) (Http_Post url ''room.update'')
            @ (if http_status env url i = Some 404 then [Sentry url] else [])\<rparr>)
      | None \<Rightarrow> (if left = 0 then Inr () else Inl (RuntimeError ''Failed to send callback''),
            w\<lparr>effects := effects w @ replicate left (Http_Post url ''room.update'')\<rparr>))"

lemma request_callback_from_outcome:
  "request_callback_from env url start left w = callback_outcome env url start left w"
proof (induction left arbitrary: start w)
  case 0
  show ?case by (simp add: callback_outcome_def ret_def)
next
  case (Suc left)
  let ?st = "http_status env url start"
  let ?w1 = "w\<lparr>effects := effects w @ [Http_Post url ''room.update'']\<rparr>"
  have range: "[start..<start + Suc left] = start # [Suc start..<Suc start + left]"
    by (simp add: upt_conv_Cons)
  have step: "request_callback_from env url start (Suc left) w =
      (if final_answer ?st then (if ?st = Some 404 then emit (Sentry url) ?w1 else (Inr (), ?w1))
       else if left = 0 then (Inl (RuntimeError ''Failed to send callback''), ?w1)
       else request_callback_from env url (Suc start) left ?w1)"
    by (auto simp: andthen_def bnd_def emit_def modify_def final_answer_def ret_def raise_def
        split: option.split)
  show ?case
  proof (cases "final_answer ?st")
    case True
    then show ?thesis
      unfolding step callback_outcome_def range by (simp add: emit_def modify_def)
  next
    case False
    then have "callback_outcome env url start (Suc left) w =
        (if left = 0 then (Inl (RuntimeError ''Failed to send callback''), ?w1)
         else callback_outcome env url (Suc start) left ?w1)"
    proof (cases "find (\<lambda>i. final_answer (http_status env url i)) [Suc start..<Suc start + left]")
      case None
      with False show ?thesis unfolding callback_outcome_def range by (simp del: upt_Suc)
    next
      case (Some i)
      then have "i \<in> set [Suc start..<Suc start + left]" using find_in_set by fastforce
      then have "Suc start \<le> i" "0 < left" by (simp_all only: set_upt atLeastLessThan_iff) arith+
      then have "Suc i - start = Suc (i - start)" "0 < left" by simp_all
      with False Some show ?thesis unfolding callback_outcome_def range by (simp del: upt_Suc)
    qed
    with False Suc.IH [of "Suc start" ?w1] show ?thesis unfolding step by simp
  qed
qed

theorem request_callback_outcome:
  "request_callback env (r\<lparr>rm_callback_url := Some url\<rparr>) w =
     callback_outcome env url 0 (set_max_retries env) w"
  by (simp add: request_callback_def request_callback_from_outcome)

end
