(* ===== verification/Queue_Routing.thy ===== *)
theory Queue_Routing
  imports Rooms
begin

text \<open>
  Choosing an agent for a room: \<open>chats/apps/queues/models.py\<close> (limits, online and available
  agents, \<open>get_available_agent\<close>), \<open>queues/services.py\<close> (\<open>QueueRouterService\<close>),
  \<open>queues/usecases/can_agent_receive_room.py\<close>, \<open>rooms/usecases/resolve_room_user.py\<close> and the
  waiting-time part of \<open>dashboard/utils.py\<close>.

  \<^item> Django joins a multi-valued relation once per \<open>filter\<close> call, so the two chained filters of
    \<open>online_agents\<close> are two existential conditions on the user; \<open>annotate\<close> groups by user.
  \<^item> \<open>order_by\<close> leaves ties in any order; the model keeps table order, and nothing below depends
    on it but the argument of \<open>random.choice\<close>, which is arbitrary.
  \<^item> What other transactions commit while a routing run is going on is the argument \<open>race\<close>: a change
    of the database before a room is re-read and another between the choice of an agent and the
    assignment.
  \<^item> \<open>get_cached_config\<close> reads the project configuration through a cache; the model reads the row.
\<close>

section \<open>Limits\<close>

definition find_group_sector :: "world \<Rightarrow> uuid \<Rightarrow> group_sector option" where
  "find_group_sector w k = find (\<lambda>g. gse_uuid g = k) (group_sectors w)"

definition queue_limit_of :: "world \<Rightarrow> sector \<Rightarrow> nat" where
  "queue_limit_of w s =
     (case find (\<lambda>g. \<not> gse_is_deleted g \<and> (gse_uuid g, sec_uuid s) \<in> set (group_members w))
        (group_sectors w) of
        Some g \<Rightarrow> gse_rooms_limit g
      | None \<Rightarrow> sec_rooms_limit s)"

definition queued_rooms_count :: "world \<Rightarrow> uuid \<Rightarrow> nat" where
  "queued_rooms_count w q = count_where
     (\<lambda>r. rm_queue r = Some q \<and> rm_is_active r \<and> rm_user r = None \<and> \<not> rm_is_waiting r) (rooms w)"

text \<open>A flag whose evaluation is wrapped in \<open>try ... except Exception: return False\<close>.\<close>

definition flag_or_false :: "env \<Rightarrow> string \<Rightarrow> uuid \<Rightarrow> bool" where
  "flag_or_false env key prj = (flag_attr env key prj = Some True)"

definition flag_or_raise :: "env \<Rightarrow> string \<Rightarrow> uuid \<Rightarrow> (world, bool) py" where
  "flag_or_raise env key prj = (case flag_attr env key prj of
     None \<Rightarrow> raise (ExternalError key) | Some b \<Rightarrow> ret b)"

section \<open>Agents\<close>

definition lower_char :: "char \<Rightarrow> char" where
  "lower_char c = (let n = (of_char c :: nat) in if 65 \<le> n \<and> n \<le> 90 then char_of (n + 32) else c)"

definition iequal :: "string \<Rightarrow> string \<Rightarrow> bool" where
  "iequal a b = (map lower_char a = map lower_char b)"

text \<open>The two \<open>filter\<close> calls of \<open>online_agents\<close>, each with its own permission and authorization.\<close>

definition agent_join :: "world \<Rightarrow> queue \<Rightarrow> project \<Rightarrow> email \<Rightarrow> bool" where
  "agent_join w q p u = list_ex (\<lambda>m. prm_user m = Some u \<and> prm_project m = prj_uuid p
       \<and> \<not> prm_is_deleted m
       \<and> list_ex (\<lambda>a. qau_queue a = que_uuid q \<and> qau_permission a = prm_uuid m
                      \<and> \<not> qau_is_deleted a) (queue_auths w)) (permissions w)"

definition recently_seen :: "env \<Rightarrow> permission \<Rightarrow> bool" where
  "recently_seen env m = (case prm_last_seen m of None \<Rightarrow> False
     | Some t \<Rightarrow> env_now env - micros (set_last_seen_threshold env) \<le> t)"

definition online_join :: "env \<Rightarrow> world \<Rightarrow> queue \<Rightarrow> project \<Rightarrow> email \<Rightarrow> bool" where
  "online_join env w q p u = list_ex (\<lambda>m. prm_user m = Some u \<and> prm_project m = prj_uuid p
       \<and> prm_status m = ''ONLINE''
       \<and> (flag_or_false env ''ping_timeout'' (prj_uuid p) \<longrightarrow> recently_seen env m)
       \<and> list_ex (\<lambda>a. qau_queue a = que_uuid q \<and> qau_permission a = prm_uuid m \<and> qau_role a = 1
                      \<and> \<not> qau_is_deleted a) (queue_auths w)) (permissions w)"

definition on_pause :: "world \<Rightarrow> project \<Rightarrow> email \<Rightarrow> bool" where
  "on_pause w p u = list_ex (\<lambda>c. cus_user c = Some u \<and> cus_is_active c \<and>
     (case find_status_type w (cus_status_type c) of None \<Rightarrow> False
      | Some t \<Rightarrow> cst_project t = prj_uuid p \<and> \<not> iequal (cst_name t) ''in-service''))
     (statuses w)"

definition users_with_permission :: "world \<Rightarrow> email list" where
  "users_with_permission w = remdups (concat (map
     (\<lambda>m. case prm_user m of None \<Rightarrow> [] | Some u \<Rightarrow> [u]) (permissions w)))"

definition online_agents :: "env \<Rightarrow> world \<Rightarrow> queue \<Rightarrow> project \<Rightarrow> email list" where
  "online_agents env w q p = filter
     (\<lambda>u. agent_join w q p u \<and> online_join env w q p u \<and> \<not> on_pause w p u) (users_with_permission w)"

definition sector_active_rooms :: "world \<Rightarrow> uuid \<Rightarrow> email \<Rightarrow> nat" where
  "sector_active_rooms w sec u = count_where
     (\<lambda>r. rm_user r = Some u \<and> rm_is_active r \<and> room_in_sector w sec r) (rooms w)"

definition custom_limit :: "world \<Rightarrow> project \<Rightarrow> email \<Rightarrow> nat option" where
  "custom_limit w p u = Option.bind
     (find (\<lambda>m. prm_user m = Some u \<and> prm_project m = prj_uuid p \<and> prm_is_custom_limit_active m
               \<and> prm_custom_rooms_limit m \<noteq> None) (live_permissions w)) prm_custom_rooms_limit"

definition effective_limit :: "env \<Rightarrow> world \<Rightarrow> sector \<Rightarrow> project \<Rightarrow> email \<Rightarrow> nat" where
  "effective_limit env w s p u =
     (case (if flag_or_false env ''agents_management'' (prj_uuid p) then custom_limit w p u else None) of
        Some n \<Rightarrow> n | None \<Rightarrow> queue_limit_of w s)"

text \<open>
  \<open>active_and_day_closed_rooms\<close>: \<open>ended_at__date\<close> is the date in \<open>TIME_ZONE\<close>, while
  \<open>timezone.now().date()\<close> is the date in UTC.
\<close>

definition utc_day :: "timestamp \<Rightarrow> int" where
  "utc_day t = t div DAY"

definition day_rooms :: "env \<Rightarrow> world \<Rightarrow> uuid \<Rightarrow> email \<Rightarrow> nat" where
  "day_rooms env w sec u = count_where (\<lambda>r. rm_user r = Some u \<and> room_in_sector w sec r \<and>
     (rm_is_active r \<or> (case rm_ended_at r of None \<Rightarrow> False
        | Some t \<Rightarrow> utc_day (env_now env) \<le> day_of env t))) (rooms w)"

definition is_general_routing :: "project \<Rightarrow> bool" where
  "is_general_routing p = (routing_option p = JStr ''general'')"

definition agent_load :: "env \<Rightarrow> world \<Rightarrow> sector \<Rightarrow> project \<Rightarrow> email \<Rightarrow> nat" where
  "agent_load env w s p u =
     (if is_general_routing p then day_rooms env w (sec_uuid s) u
      else sector_active_rooms w (sec_uuid s) u)"

definition available_agents :: "env \<Rightarrow> world \<Rightarrow> queue \<Rightarrow> sector \<Rightarrow> project \<Rightarrow> email list" where
  "available_agents env w q s p = sort_key (agent_load env w s p)
     (filter (\<lambda>u. sector_active_rooms w (sec_uuid s) u < effective_limit env w s p u)
        (online_agents env w q p))"

text \<open>\<open>random.choice\<close> on a list that is not empty.\<close>

definition choice :: "env \<Rightarrow> email list \<Rightarrow> email" where
  "choice env xs = xs ! (random_index env xs mod length xs)"

definition closed_today :: "env \<Rightarrow> world \<Rightarrow> uuid \<Rightarrow> email \<Rightarrow> nat" where
  "closed_today env w sec u = count_where (\<lambda>r. rm_user r = Some u \<and> room_in_sector w sec r
     \<and> \<not> rm_is_active r \<and> (case rm_ended_at r of None \<Rightarrow> False
        | Some t \<Rightarrow> utc_day (env_now env) * DAY \<le> t \<and> t < utc_day (env_now env) * DAY + DAY)) (rooms w)"

text \<open>The agents with the smallest value: \<open>min(...)\<close> and the comprehension that follows it.\<close>

definition with_min :: "('a \<Rightarrow> nat) \<Rightarrow> 'a list \<Rightarrow> 'a list" where
  "with_min f xs = filter (\<lambda>x. f x = Min (f ` set xs)) xs"

definition get_agent_with_least_rooms_closed_today ::
  "env \<Rightarrow> world \<Rightarrow> sector \<Rightarrow> email list \<Rightarrow> email" where
  "get_agent_with_least_rooms_closed_today env w s agents =
     choice env (with_min (closed_today env w (sec_uuid s)) agents)"

definition get_available_agent ::
  "env \<Rightarrow> queue \<Rightarrow> sector \<Rightarrow> project \<Rightarrow> (world, email option) py" where
  "get_available_agent env q s p =
     bnd (gets (\<lambda>w. available_agents env w q s p)) (\<lambda>agents.
     if agents = [] then ret None
     else bnd (gets (\<lambda>w. with_min (agent_load env w s p) agents)) (\<lambda>eligible.
       case eligible of [a] \<Rightarrow> ret (Some a)
       | _ \<Rightarrow> bnd (flag_or_raise env ''least_rooms_closed_today'' (prj_uuid p)) (\<lambda>least.
           if least
           then gets (\<lambda>w. Some (get_agent_with_least_rooms_closed_today env w s eligible))
           else ret (Some (choice env eligible)))))"

section \<open>The capacity recheck\<close>

record capacity_result =
  cap_can_receive :: bool
  cap_active_rooms_count :: nat
  cap_limit :: nat

definition can_agent_receive_room ::
  "env \<Rightarrow> world \<Rightarrow> sector \<Rightarrow> project \<Rightarrow> email \<Rightarrow> capacity_result" where
  "can_agent_receive_room env w s p u =
     (let custom = (if flag_or_false env ''agents_management'' (prj_uuid p)
                    then custom_limit w p u else None);
          limit = (case custom of Some n \<Rightarrow> n | None \<Rightarrow> queue_limit_of w s);
          active = sector_active_rooms w (sec_uuid s) u
      in \<lparr>cap_can_receive = active < limit, cap_active_rooms_count = active, cap_limit = limit\<rparr>)"

section \<open>Routing the rooms of a queue\<close>

text \<open>\<open>Coalesce("added_to_queue_at", "created_on")\<close>.\<close>

definition queue_date :: "room \<Rightarrow> timestamp" where
  "queue_date r = (case rm_added_to_queue_at r of Some t \<Rightarrow> t | None \<Rightarrow> rm_created_on r)"

definition get_rooms_to_route :: "world \<Rightarrow> uuid \<Rightarrow> room list" where
  "get_rooms_to_route w q = sort_key queue_date
     (filter (\<lambda>r. rm_queue r = Some q \<and> rm_is_active r \<and> rm_user r = None) (rooms w))"

definition calculate_last_queue_waiting_time :: "env \<Rightarrow> room \<Rightarrow> int" where
  "calculate_last_queue_waiting_time env r = (case rm_added_to_queue_at r of None \<Rightarrow> 0
     | Some t \<Rightarrow> trunc_seconds (env_now env - t))"

definition empty_metrics :: "uuid \<Rightarrow> room_metrics" where
  "empty_metrics k = \<lparr>met_room = k, met_waiting_time = 0, met_queued_count = 0,
     met_message_response_time = 0, met_first_response_time = None, met_interaction_time = 0,
     met_transfer_count = 0\<rparr>"

text \<open>\<open>RoomMetrics.objects.get_or_create(room=room)[0]\<close>, a change of its fields, and \<open>save()\<close>.\<close>

definition update_metrics :: "uuid \<Rightarrow> (room_metrics \<Rightarrow> room_metrics) \<Rightarrow> (world, unit) py" where
  "update_metrics k f = modify (\<lambda>w. w\<lparr>metrics :=
     (if list_ex (\<lambda>m. met_room m = k) (metrics w)
      then update_where (\<lambda>m. met_room m = k) f (metrics w)
      else metrics w @ [f (empty_metrics k)])\<rparr>)"

definition count_waiting :: "env \<Rightarrow> room \<Rightarrow> room_metrics \<Rightarrow> room_metrics" where
  "count_waiting env r m = m\<lparr>met_waiting_time := met_waiting_time m
        + calculate_last_queue_waiting_time env r, met_queued_count := met_queued_count m + 1\<rparr>"

definition still_online :: "env \<Rightarrow> world \<Rightarrow> project \<Rightarrow> email \<Rightarrow> bool" where
  "still_online env w p u = list_ex (\<lambda>m. prm_user m = Some u \<and> prm_project m = prj_uuid p
     \<and> prm_status m = ''ONLINE''
     \<and> (flag_or_false env ''ping_timeout'' (prj_uuid p) \<longrightarrow> recently_seen env m)) (live_permissions w)"

definition create_room_assigned_from_queue_feedback ::
  "env \<Rightarrow> room \<Rightarrow> queue \<Rightarrow> email \<Rightarrow> (world, unit) py" where
  "create_room_assigned_from_queue_feedback env r q u = create_room_feedback_message env r
     (create_transfer_json env ''auto_assign_from_queue'' (Party_Queue (que_uuid q) (que_name q))
        (Party_User u) None) ''rt''"

text \<open>What follows the choice of the agent, once every check has passed.\<close>

definition assign_room :: "env \<Rightarrow> room_obj \<Rightarrow> email \<Rightarrow> (world, unit) py" where
  "assign_room env ob agent =
     bnd (room_save env None (set_row (\<lambda>r. r\<lparr>rm_user := Some agent\<rparr>) ob)) (\<lambda>ob'.
     let r = ob_row ob' in
     sequence
      [notify_user env r ''update'' None,
       notify_queue env r ''update'' False,
       delay env ''update_ticket_assignee_async''
         [rm_uuid r, (case rm_ticket_uuid r of None \<Rightarrow> ''None'' | Some t \<Rightarrow> t), agent],
       bnd (need AttributeError (\<lambda>w. queue_of w r))
         (\<lambda>q. create_room_assigned_from_queue_feedback env r q agent),
       (if rm_user_assigned_at (ob_row ob) = None
        then bnd (need AttributeError (\<lambda>w. sector_of w r)) (\<lambda>s.
          when_true (sec_is_automatic_message_active s \<and> sec_automatic_message_text s \<notin> {None, Some []})
            (send_automatic_message env r))
        else ret ()),
       update_metrics (rm_uuid r) (count_waiting env r)])"

datatype loop_step = Continue | Break

type_synonym race = "bool \<Rightarrow> uuid \<Rightarrow> world \<Rightarrow> world"

definition route_room ::
  "env \<Rightarrow> race \<Rightarrow> queue \<Rightarrow> sector \<Rightarrow> project \<Rightarrow> uuid \<Rightarrow> (world, loop_step) py" where
  "route_room env race q s p k =
     andthen (modify (race False k))
     (bnd (load_room k) (\<lambda>ob.
      if rm_user (ob_row ob) \<noteq> None then ret Continue else
      bnd (get_available_agent env q s p) (\<lambda>found.
      case found of None \<Rightarrow> ret Break | Some agent \<Rightarrow>
      andthen (modify (race True k))
      (bnd (gets (\<lambda>w. still_online env w p agent)) (\<lambda>online.
       if \<not> online then ret Continue else
       bnd (flag_or_raise env ''agent_capacity_recheck'' (prj_uuid p)) (\<lambda>recheck.
       bnd (gets (\<lambda>w. can_agent_receive_room env w s p agent)) (\<lambda>capacity.
       if recheck \<and> \<not> cap_can_receive capacity then ret Continue
       else andthen (assign_room env ob agent) (ret Continue))))))))"

fun route_loop ::
  "env \<Rightarrow> race \<Rightarrow> queue \<Rightarrow> sector \<Rightarrow> project \<Rightarrow> uuid list \<Rightarrow> (world, unit) py" where
  "route_loop env race q s p [] = ret ()"
| "route_loop env race q s p (k # ks) = bnd (route_room env race q s p k) (\<lambda>step.
     case step of Break \<Rightarrow> ret () | Continue \<Rightarrow> route_loop env race q s p ks)"

definition route_rooms :: "env \<Rightarrow> race \<Rightarrow> queue \<Rightarrow> (world, unit) py" where
  "route_rooms env race q =
     bnd (need AttributeError (\<lambda>w. sector_of_queue w q)) (\<lambda>s.
     bnd (need AttributeError (\<lambda>w. project_of_sector w s)) (\<lambda>p.
     if \<not> use_queue_priority_routing p
     then raise (ValueError ''Queue priority routing is not enabled for this project'')
     else bnd (gets (\<lambda>w. map rm_uuid (get_rooms_to_route w (que_uuid q)))) (\<lambda>ks.
       if ks = [] then ret ()
       else bnd (gets (\<lambda>w. available_agents env w q s p)) (\<lambda>agents.
         if agents = [] then ret () else route_loop env race q s p ks))))"

section \<open>The user of a new room\<close>

text \<open>\<open>LinkContact.is_online\<close>.\<close>

definition link_is_online :: "world \<Rightarrow> project \<Rightarrow> link_contact \<Rightarrow> bool" where
  "link_is_online w p l =
     (case find (\<lambda>m. prm_project m = prj_uuid p \<and> prm_user m = lin_user l) (live_permissions w) of
        None \<Rightarrow> False | Some m \<Rightarrow> iequal (prm_status m) ''online'')"

text \<open>\<open>start_queue_priority_routing\<close>; \<open>route_now\<close> is the task run in place when Celery is off.\<close>

definition start_queue_priority_routing ::
  "env \<Rightarrow> (uuid \<Rightarrow> (world, unit) py) \<Rightarrow> queue \<Rightarrow> (world, unit) py" where
  "start_queue_priority_routing env route_now q =
     bnd (need AttributeError (\<lambda>w. project_of_queue w q)) (\<lambda>p.
     if \<not> use_queue_priority_routing p then ret ()
     else if \<not> set_use_celery env then route_now (que_uuid q)
     else delay env ''route_queue_rooms'' [que_uuid q])"

text \<open>\<open>is_feature_active(key, None, project)\<close>, which is evaluated without a guard.\<close>

definition flag_user_or_raise :: "env \<Rightarrow> string \<Rightarrow> uuid \<Rightarrow> (world, bool) py" where
  "flag_user_or_raise env key prj = (case flag_user env key prj of
     None \<Rightarrow> raise (ExternalError key) | Some b \<Rightarrow> ret b)"

definition resolve_queue_priority ::
  "env \<Rightarrow> (uuid \<Rightarrow> (world, unit) py) \<Rightarrow> queue \<Rightarrow> sector \<Rightarrow> project \<Rightarrow> (world, email option) py" where
  "resolve_queue_priority env route_now q s p =
     bnd (gets (\<lambda>w. count_where (\<lambda>r. rm_queue r = Some (que_uuid q) \<and> rm_is_active r
                       \<and> rm_user r = None) (rooms w))) (\<lambda>current_queue_size.
     if current_queue_size = 0
     then bnd (get_available_agent env q s p) (\<lambda>found.
       case found of None \<Rightarrow> ret None
       | Some agent \<Rightarrow>
         bnd (flag_user_or_raise env ''agent_capacity_recheck'' (prj_uuid p)) (\<lambda>recheck.
         if \<not> recheck then ret (Some agent)
         else bnd (gets (\<lambda>w. can_agent_receive_room env w s p agent)) (\<lambda>capacity.
           if cap_can_receive capacity then ret (Some agent)
           else andthen (start_queue_priority_routing env route_now q) (ret None))))
     else andthen (start_queue_priority_routing env route_now q) (ret None))"

definition resolve_general ::
  "env \<Rightarrow> queue \<Rightarrow> sector \<Rightarrow> project \<Rightarrow> (world, email option) py" where
  "resolve_general env q s p =
     bnd (gets (\<lambda>w. list_ex (\<lambda>r. rm_queue r = Some (que_uuid q) \<and> rm_is_active r
                       \<and> rm_user r = None) (rooms w))) (\<lambda>waiting.
     if waiting then ret None
     else bnd (get_available_agent env q s p) (\<lambda>found.
       case found of None \<Rightarrow> ret None
       | Some agent \<Rightarrow>
         bnd (flag_user_or_raise env ''agent_capacity_recheck'' (prj_uuid p)) (\<lambda>recheck.
         if \<not> recheck then ret (Some agent)
         else bnd (gets (\<lambda>w. can_agent_receive_room env w s p agent)) (\<lambda>capacity.
           ret (if cap_can_receive capacity then Some agent else None)))))"

text \<open>
  \<open>ResolveRoomUserUseCase.execute\<close>. The rooms of the contact and its link are arguments;
  \<open>permission\<close> of a flow start is nullable.
\<close>

definition flow_start_user ::
  "world \<Rightarrow> project \<Rightarrow> uuid \<Rightarrow> bool \<Rightarrow> flow_start \<Rightarrow> exn + email option option" where
  "flow_start_user w p contact is_created f =
     (if is_created \<or> \<not> list_ex (\<lambda>r. rm_contact r = Some contact \<and> room_in_project w (prj_uuid p) r
                          \<and> flo_created_on f < rm_created_on r) (rooms w)
      then (case Option.bind (flo_permission f) (find_permission_pk w) of
              None \<Rightarrow> Inl AttributeError
            | Some m \<Rightarrow> Inr (if prm_status m = ''ONLINE'' then Some (prm_user m) else None))
      else Inr None)"

definition linked_choice ::
  "world \<Rightarrow> project \<Rightarrow> bool \<Rightarrow> link_contact option \<Rightarrow> email option option" where
  "linked_choice w p is_created link = (if is_created then None else (case link of None \<Rightarrow> None
     | Some l \<Rightarrow> if link_is_online w p l then Some (lin_user l) else None))"

definition resolve_requested ::
  "env \<Rightarrow> (uuid \<Rightarrow> (world, unit) py) \<Rightarrow> queue \<Rightarrow> sector \<Rightarrow> project \<Rightarrow> email option \<Rightarrow>
   (world, email option) py" where
  "resolve_requested env route_now q s p user =
     bnd (gets (\<lambda>w. user \<noteq> None \<and> list_ex (\<lambda>m. prm_project m = prj_uuid p \<and> prm_user m = user
                      \<and> prm_status m = ''ONLINE'') (live_permissions w))) (\<lambda>requested.
     if requested then ret user
     else if use_queue_priority_routing p then resolve_queue_priority env route_now q s p
     else resolve_general env q s p)"

definition resolve_room_user ::
  "env \<Rightarrow> (uuid \<Rightarrow> (world, unit) py) \<Rightarrow> queue \<Rightarrow> sector \<Rightarrow> project \<Rightarrow> uuid \<Rightarrow> link_contact option \<Rightarrow>
   email option \<Rightarrow> bool \<Rightarrow> flow_start option \<Rightarrow> (world, email option) py" where
  "resolve_room_user env route_now q s p contact link user is_created last_flow_start =
     bnd (case last_flow_start of None \<Rightarrow> ret None
          | Some f \<Rightarrow> (\<lambda>w. (flow_start_user w p contact is_created f, w))) (\<lambda>from_flow.
     case from_flow of Some u \<Rightarrow> ret u
     | None \<Rightarrow>
       bnd (gets (\<lambda>w. linked_choice w p is_created link)) (\<lambda>linked.
       case linked of Some u \<Rightarrow> ret u
       | None \<Rightarrow> resolve_requested env route_now q s p user))"

section \<open>Choosing an agent\<close>

lemma set_with_min:
  "x \<in> set (with_min f xs) \<longleftrightarrow> x \<in> set xs \<and> (\<forall>y \<in> set xs. f x \<le> f y)"
proof
  assume "x \<in> set (with_min f xs)"
  then show "x \<in> set xs \<and> (\<forall>y \<in> set xs. f x \<le> f y)" by (auto simp: with_min_def)
next
  assume x: "x \<in> set xs \<and> (\<forall>y \<in> set xs. f x \<le> f y)"
  then have "Min (f ` set xs) = f x" by (intro Min_eqI) auto
  with x show "x \<in> set (with_min f xs)" by (simp add: with_min_def)
qed

lemma with_min_subset: "set (with_min f xs) \<subseteq> set xs"
  by (auto simp: with_min_def)

lemma with_min_not_empty: "xs \<noteq> [] \<Longrightarrow> with_min f xs \<noteq> []"
proof -
  assume "xs \<noteq> []"
  then have "Min (f ` set xs) \<in> f ` set xs" by (intro Min_in) auto
  then show ?thesis by (auto simp: with_min_def filter_empty_conv)
qed

lemma choice_in: "xs \<noteq> [] \<Longrightarrow> choice env xs \<in> set xs"
  by (simp add: choice_def)

lemma set_available_agents:
  "u \<in> set (available_agents env w q s p) \<longleftrightarrow> u \<in> set (online_agents env w q p) \<and>
     sector_active_rooms w (sec_uuid s) u < effective_limit env w s p u"
  by (auto simp: available_agents_def)

lemma get_available_agent_state: "snd (get_available_agent env q s p w) = w"
  by (simp add: get_available_agent_def py_defs flag_or_raise_def split: list.split option.split)

lemma get_available_agent_cases:
  assumes "get_available_agent env q s p w = (Inr found, w')"
  shows "w' = w" and "(found = None) = (available_agents env w q s p = [])"
    and "found = Some u \<Longrightarrow> u \<in> set (with_min (agent_load env w s p) (available_agents env w q s p))"
    and "found = Some u \<Longrightarrow> flag_attr env ''least_rooms_closed_today'' (prj_uuid p) = Some True \<Longrightarrow>
      u \<in> set (with_min (closed_today env w (sec_uuid s))
                 (with_min (agent_load env w s p) (available_agents env w q s p)))"
proof -
  let ?as = "available_agents env w q s p" and ?el = "with_min (agent_load env w s p) (available_agents env w q s p)"
  show w': "w' = w" using get_available_agent_state [of env q s p w] assms by simp
  have "found = None \<and> ?as = [] \<or> (\<exists>u. found = Some u \<and> ?as \<noteq> [] \<and> u \<in> set ?el \<and>
      (flag_attr env ''least_rooms_closed_today'' (prj_uuid p) = Some True \<longrightarrow>
        u \<in> set (with_min (closed_today env w (sec_uuid s)) ?el)))"
  proof (cases "?as = []")
    case True
    with assms show ?thesis by (simp add: get_available_agent_def run_gets ret_def)
  next
    case False
    then have ne: "?el \<noteq> []" by (rule with_min_not_empty)
    consider a where "?el = [a]" | a b rest where "?el = a # b # rest"
      using ne by (cases ?el rule: list.exhaust) (metis list.exhaust)+
    then show ?thesis
    proof cases
      case (1 a)
      with assms False have "found = Some a"
        by (simp add: get_available_agent_def run_gets ret_def)
      with 1 False show ?thesis by (simp add: with_min_def)
    next
      case (2 a b rest)
      with assms False have "found = Some (if flag_attr env ''least_rooms_closed_today'' (prj_uuid p) = Some True
          then get_agent_with_least_rooms_closed_today env w s ?el else choice env ?el)"
        by (auto simp: get_available_agent_def run_gets flag_or_raise_def py_defs
            split: option.splits if_splits)
      then show ?thesis
        using False ne choice_in [OF ne, of env]
          choice_in [OF with_min_not_empty [OF ne, of "closed_today env w (sec_uuid s)"], of env]
        by (auto simp: get_agent_with_least_rooms_closed_today_def set_with_min)
    qed
  qed
  then show "(found = None) = (?as = [])" and "found = Some u \<Longrightarrow> u \<in> set ?el"
    and "found = Some u \<Longrightarrow> flag_attr env ''least_rooms_closed_today'' (prj_uuid p) = Some True \<Longrightarrow>
      u \<in> set (with_min (closed_today env w (sec_uuid s)) ?el)"
    by auto
qed


section \<open>Assigning a room\<close>

text \<open>After the save, an assignment writes only messages, metrics and the status tables.\<close>

definition routing_frame :: "world \<Rightarrow> world \<Rightarrow> bool" where
  "routing_frame s t \<longleftrightarrow> rooms t = rooms s \<and> queues t = queues s \<and> sectors t = sectors s
     \<and> projects t = projects s \<and> permissions t = permissions s \<and> queue_auths t = queue_auths s
     \<and> group_sectors t = group_sectors s \<and> group_members t = group_members s"

interpretation routing_frame: world_order routing_frame
  by unfold_locales (auto simp: routing_frame_def)

lemma rframe_status: "keeps status_frame m \<Longrightarrow> keeps routing_frame m"
  by (erule keeps_mono) (simp add: routing_frame_def status_frame_tables)

lemma rframe_modify:
  "keeps routing_frame (modify (\<lambda>w. w\<lparr>messages := f1 w\<rparr>))"
  "keeps routing_frame (modify (\<lambda>w. w\<lparr>metrics := f2 w\<rparr>))"
  "keeps routing_frame (modify (\<lambda>w. w\<lparr>pins := f3 w\<rparr>))"
  "keeps routing_frame (modify (\<lambda>w. w\<lparr>room_notes := f4 w\<rparr>))"
  "keeps routing_frame new_id"
  by (simp_all add: keeps_def modify_def routing_frame_def new_id_def)

lemmas rframe_rules = routing_frame.keeps_world rframe_modify

lemma rframe_send: "keeps routing_frame (send_group env g c a)"
  unfolding send_group_def by (rule routing_frame.keeps_send)

lemma rframe_callback_from: "keeps routing_frame (request_callback_from env url n m)"
  by (induction env url n m rule: request_callback_from.induct)
    (auto intro!: rframe_rules split: option.split)

lemma rframe_notify:
  "keeps routing_frame (base_notification env r a)"
  "keeps routing_frame (notify_user env r a u)"
  "keeps routing_frame (notify_queue env r a b)"
  unfolding base_notification_def notify_user_def notify_queue_def room_get_permission_def
    request_callback_def
  by (auto intro!: rframe_rules rframe_send rframe_callback_from split: option.split)

lemma rframe_messages:
  "keeps routing_frame (message_create env r u c t b)"
  "keeps routing_frame (message_notify_room env r m a cb)"
  unfolding message_create_def message_notify_room_def Let_def
  by (auto intro!: rframe_rules rframe_notify split: option.split list.split)

lemma rframe_feedback: "keeps routing_frame (create_room_feedback_message env r x m)"
  unfolding create_room_feedback_message_def by (intro rframe_rules rframe_messages)

lemma rframe_metrics: "keeps routing_frame (update_metrics k f)"
  unfolding update_metrics_def by (rule rframe_modify)

lemma rframe_automatic: "keeps routing_frame (send_automatic_message env r)"
  unfolding send_automatic_message_def
  by (auto intro!: rframe_rules split: option.split list.split bool.split)

text \<open>The steps of an assignment after the save.\<close>

definition after_assign :: "env \<Rightarrow> bool \<Rightarrow> email \<Rightarrow> room \<Rightarrow> (world, unit) py" where
  "after_assign env first agent r = sequence
      [notify_user env r ''update'' None,
       notify_queue env r ''update'' False,
       delay env ''update_ticket_assignee_async''
         [rm_uuid r, (case rm_ticket_uuid r of None \<Rightarrow> ''None'' | Some t \<Rightarrow> t), agent],
       bnd (need AttributeError (\<lambda>w. queue_of w r))
         (\<lambda>q. create_room_assigned_from_queue_feedback env r q agent),
       (if first
        then bnd (need AttributeError (\<lambda>w. sector_of w r)) (\<lambda>s.
          when_true (sec_is_automatic_message_active s \<and> sec_automatic_message_text s \<notin> {None, Some []})
            (send_automatic_message env r))
        else ret ()),
       update_metrics (rm_uuid r) (count_waiting env r)]"

lemma assign_room_split: "assign_room env ob agent =
    bnd (room_save env None (set_row (\<lambda>r. r\<lparr>rm_user := Some agent\<rparr>) ob))
      (\<lambda>ob'. after_assign env (rm_user_assigned_at (ob_row ob) = None) agent (ob_row ob'))"
  by (simp add: assign_room_def after_assign_def Let_def)

lemma rframe_after_assign: "keeps routing_frame (after_assign env first agent r)"
  unfolding after_assign_def sequence.simps create_room_assigned_from_queue_feedback_def
  by (intro rframe_rules rframe_notify rframe_feedback rframe_metrics rframe_automatic)

text \<open>The configuration tables, which nothing in a routing run writes.\<close>

definition config_frame :: "world \<Rightarrow> world \<Rightarrow> bool" where
  "config_frame s t \<longleftrightarrow> queues t = queues s \<and> sectors t = sectors s
     \<and> projects t = projects s \<and> permissions t = permissions s \<and> queue_auths t = queue_auths s
     \<and> group_sectors t = group_sectors s \<and> group_members t = group_members s"

interpretation config_frame: world_order config_frame
  by unfold_locales (auto simp: config_frame_def)

lemma cframe_routing: "keeps routing_frame m \<Longrightarrow> keeps config_frame m"
  by (erule keeps_mono) (simp add: routing_frame_def config_frame_def)

lemma cframe_rooms:
  "keeps config_frame (update_room k f)" "keeps config_frame (write_room cols b r)"
  "keeps config_frame (clear_pins k)"
  by (auto simp: keeps_def update_room_def modify_def config_frame_def write_room_def clear_pins_def
      split: option.split)

lemma cframe_room_save: "keeps config_frame (room_save env cols ob)"
  unfolding room_save_def tags_on_queue_change_def clear_tags_def
  by (intro config_frame.keeps_world cframe_rooms
      frame_update_agent_service_status [THEN rframe_status, THEN cframe_routing])
    (auto intro!: config_frame.keeps_world cframe_rooms split: option.split)

lemma save_missing_row:
  assumes none: "find_room w (room_pk ob) = None" and old: "\<not> ob_adding ob"
  shows "rooms (snd (room_save env None ob w)) = rooms w \<or>
    rooms (snd (room_save env None ob w)) = rooms w @ [(stamped env ob)\<lparr>rm_tags := []\<rparr>]"
proof -
  define w1 where "w1 = without_pins (user_changed ob) (room_pk ob) w"
  have clear: "when_true (user_changed ob) (clear_pins (room_pk ob)) w = (Inr (), w1)"
    by (simp add: w1_def without_pins_def when_true_def clear_pins_def modify_def ret_def)
  have save: "room_save env None ob w = andthen (write_room None False (stamped env ob))
      (andthen (tags_on_queue_change ob (stamped env ob))
      (andthen (update_agent_service_status env False (stamped env ob))
         (ret (saved_obj None (stamped env ob) ob)))) w1"
    using none old run_Inr(2) [where m = "when_true (user_changed ob) (clear_pins (room_pk ob))"
        and s = w, OF clear]
    by (simp add: room_save_def run_gets)
  show ?thesis
  proof (cases "contact_queue_clash (rooms w) (stamped env ob)")
    case True
    then have "write_room None False (stamped env ob) w1 =
        (Inl (IntegrityError ''unique_contact_queue_is_activetrue_room''), w1)"
      using none by (simp add: write_room_def w1_def)
    then show ?thesis by (simp add: save run_Inl) (simp add: w1_def)
  next
    case False
    let ?r = "(stamped env ob)\<lparr>rm_tags := []\<rparr>"
    let ?w2 = "w1\<lparr>rooms := rooms w @ [?r]\<rparr>"
    have wrote: "write_room None False (stamped env ob) w1 = (Inr (), ?w2)"
      using none False by (simp add: write_room_def w1_def)
    have "update_where (\<lambda>r. rm_uuid r = room_pk ob) (\<lambda>r. r\<lparr>rm_tags := []\<rparr>) (rooms w @ [?r]) =
        rooms w @ [?r]"
    proof -
      have "\<forall>x \<in> set (rooms w). rm_uuid x \<noteq> room_pk ob"
        using none by (auto simp: find_room_def find_None_iff)
      then have "update_where (\<lambda>r. rm_uuid r = room_pk ob) (\<lambda>r. r\<lparr>rm_tags := []\<rparr>) (rooms w) = rooms w"
        by (auto simp: update_where_def intro: map_idI)
      then show ?thesis by (simp add: update_where_def)
    qed
    then have "rooms (snd (tags_on_queue_change ob (stamped env ob) ?w2)) = rooms ?w2"
      by (auto simp: tags_on_queue_change_def clear_tags_def update_room_def modify_def py_defs
          need_def split: option.split)
    moreover have "rooms (snd (andthen (update_agent_service_status env False r) (ret x) v)) = rooms v"
      for r v and x :: room_obj
    proof -
      have "status_frame v (snd (andthen (update_agent_service_status env False r) (ret x) v))"
        using status_frame.keeps_andthen [OF frame_update_agent_service_status
            status_frame.keeps_ret, of env False r x]
        by (simp add: keeps_def)
      then show ?thesis by (rule status_frame_tables(1))
    qed
    ultimately show ?thesis
      unfolding save run_Inr(2) [where m = "write_room None False (stamped env ob)" and s = w1, OF wrote]
      by (auto simp: andthen_def [of "tags_on_queue_change ob (stamped env ob)"] bnd_def
          split: prod.splits sum.splits)
  qed
qed

text \<open>Every outcome of a full save for the table of rooms.\<close>

lemma save_rooms_cases:
  assumes "\<not> ob_adding ob"
  obtains "rooms (snd (room_save env None ob w)) = rooms w"
  | ts where "rooms (snd (room_save env None ob w)) = update_where (\<lambda>x. rm_uuid x = room_pk ob)
      (\<lambda>x. (stamped env ob)\<lparr>rm_tags := ts x\<rparr>) (rooms w)"
  | "find_room w (room_pk ob) = None"
    "rooms (snd (room_save env None ob w)) = rooms w @ [(stamped env ob)\<lparr>rm_tags := []\<rparr>]"
proof (cases "find_room w (room_pk ob)")
  case None
  with save_missing_row [OF None assms, of env] that show ?thesis by blast
next
  case (Some row)
  show ?thesis
  proof (cases "rm_is_active row")
    case False
    with closed_save_raises [OF Some False assms, of env None] that(1) show ?thesis by simp
  next
    case True
    show ?thesis
      by (rule room_save_cases [OF Some True assms prod.collapse [symmetric], where env = env])
        (use that(1,2) in auto)
  qed
qed

section \<open>Limits are respected\<close>

definition within_limits :: "env \<Rightarrow> sector \<Rightarrow> project \<Rightarrow> world \<Rightarrow> bool" where
  "within_limits env s p w \<longleftrightarrow> distinct (map rm_uuid (rooms w)) \<and>
     (\<forall>u. sector_active_rooms w (sec_uuid s) u \<le> effective_limit env w s p u)"

lemma count_update_le:
  assumes "distinct (map key xs)"
  shows "count_where P (update_where (\<lambda>x. key x = k) f xs) \<le> Suc (count_where P xs)"
proof -
  have no: "j \<notin> key ` set ys \<Longrightarrow> update_where (\<lambda>x. key x = j) f ys = ys" for ys j
    by (induction ys) auto
  show ?thesis using assms
    by (induction xs) (auto simp: no)
qed

lemma count_update_other:
  assumes "\<And>x. x \<in> set xs \<Longrightarrow> key x = k \<Longrightarrow> \<not> P (f x)"
  shows "count_where P (update_where (\<lambda>x. key x = k) f xs) \<le> count_where P xs"
  using assms by (induction xs) auto

lemma room_in_sector_cong: "queues t = queues s \<Longrightarrow> room_in_sector t = room_in_sector s"
  using lookup_cong(1) [of t s] by (simp add: fun_eq_iff room_in_sector_def)

lemma effective_limit_cong: "config_frame s t \<Longrightarrow> effective_limit env t = effective_limit env s"
proof -
  assume f: "config_frame s t"
  then have "queue_limit_of t = queue_limit_of s" "custom_limit t = custom_limit s"
    by (simp_all add: fun_eq_iff custom_limit_def queue_limit_of_def config_frame_def)
  then show ?thesis by (intro ext) (simp add: effective_limit_def cong: option.case_cong)
qed

lemma sector_active_cong:
  "rooms t = rooms s \<Longrightarrow> queues t = queues s \<Longrightarrow> sector_active_rooms t = sector_active_rooms s"
  using room_in_sector_cong [of t s] by (intro ext) (simp add: sector_active_rooms_def)

lemma within_limits_cong:
  "config_frame s t \<Longrightarrow> rooms t = rooms s \<Longrightarrow> within_limits env sec p t = within_limits env sec p s"
  using effective_limit_cong [of s t env] sector_active_cong [of t s]
  by (simp add: within_limits_def config_frame_def)

text \<open>Saving a room for an agent below the limit keeps everybody within it.\<close>

lemma within_limits_save:
  assumes w: "within_limits env s p w" and old: "\<not> ob_adding ob"
    and agent: "rm_user (ob_row ob) = Some a"
    and below: "sector_active_rooms w (sec_uuid s) a < effective_limit env w s p a"
  shows "within_limits env s p (snd (room_save env None ob w))"
proof -
  let ?t = "snd (room_save env None ob w)"
  have frame: "config_frame w ?t" using cframe_room_save by (simp add: keeps_def)
  then have sec: "room_in_sector ?t = room_in_sector w"
    by (intro room_in_sector_cong) (simp add: config_frame_def)
  let ?P = "\<lambda>u r. rm_user r = Some u \<and> rm_is_active r \<and> room_in_sector w (sec_uuid s) r"
  have dist: "distinct (map rm_uuid (rooms w))" using w by (simp add: within_limits_def)
  have fin: "within_limits env s p ?t"
    if "distinct (map rm_uuid (rooms ?t))" and "count_where (?P a) (rooms ?t) \<le> Suc (count_where (?P a) (rooms w))"
      and "\<And>u. u \<noteq> a \<Longrightarrow> count_where (?P u) (rooms ?t) \<le> count_where (?P u) (rooms w)"
  proof -
    have "sector_active_rooms ?t (sec_uuid s) u \<le> effective_limit env w s p u" for u
    proof (cases "u = a")
      case True
      then show ?thesis using that(2) below by (simp add: sector_active_rooms_def sec)
    next
      case False
      have "sector_active_rooms w (sec_uuid s) u \<le> effective_limit env w s p u"
        using w by (simp add: within_limits_def)
      then show ?thesis using that(3) [OF False] by (simp add: sector_active_rooms_def sec)
    qed
    then show ?thesis using that(1) frame by (simp add: within_limits_def effective_limit_cong)
  qed
  from old show ?thesis
  proof (cases rule: save_rooms_cases [where w = w and env = env])
    case 1
    then show ?thesis using within_limits_cong [OF frame] w by simp
  next
    case (2 ts)
    have "map rm_uuid (update_where (\<lambda>x. rm_uuid x = room_pk ob)
        (\<lambda>x. (stamped env ob)\<lparr>rm_tags := ts x\<rparr>) xs) = map rm_uuid xs" for xs
      by (induction xs) auto
    with dist show ?thesis
      by (intro fin) (auto simp: 2 agent intro: count_update_le count_update_other)
  next
    case 3
    have "room_pk ob \<notin> rm_uuid ` set (rooms w)"
      using 3(1) by (auto simp: find_room_def find_None_iff)
    with dist show ?thesis
      by (intro fin) (auto simp: 3(2) agent count_where_def)
  qed
qed

lemma within_limits_assign:
  assumes "within_limits env s p w" and "\<not> ob_adding ob"
    and "sector_active_rooms w (sec_uuid s) a < effective_limit env w s p a"
  shows "within_limits env s p (snd (assign_room env ob a w))"
proof -
  let ?ob = "set_row (\<lambda>r. r\<lparr>rm_user := Some a\<rparr>) ob"
  have saved: "within_limits env s p (snd (room_save env None ?ob w))"
    using assms by (intro within_limits_save) (auto simp: set_row_def)
  have after: "within_limits env s p t \<Longrightarrow> within_limits env s p (snd (after_assign env b a r t))" for t b r
    using within_limits_cong [of t "snd (after_assign env b a r t)"] rframe_after_assign [of env b a r]
    by (auto simp: keeps_def routing_frame_def config_frame_def)
  show ?thesis
    using saved after
    by (auto simp: assign_room_split bnd_def split: prod.split sum.split)
qed

text \<open>Nothing commits between the choice of an agent and the assignment, or the capacity of the chosen agent is
  checked once more.\<close>

definition choice_holds :: "env \<Rightarrow> project \<Rightarrow> race \<Rightarrow> bool" where
  "choice_holds env p race \<longleftrightarrow>
     flag_attr env ''agent_capacity_recheck'' (prj_uuid p) = Some True \<or> (\<forall>k w. race True k w = w)"

lemma picked_available:
  "get_available_agent env q s p w = (Inr (Some u), w') \<Longrightarrow>
   u \<in> set (available_agents env w q s p) \<and> w' = w"
  by (rule conjI, rule subsetD [OF with_min_subset get_available_agent_cases(3) [OF _ refl]])
    (auto dest: get_available_agent_cases(1))

text \<open>Whoever a room is assigned to was picked for it, and is below the limit if nothing has changed since or
  the recheck is on.\<close>

lemma route_room_outcome:
  assumes "w1 = race False k w" and "w2 = race True k w1"
  shows "snd (route_room env race q s p k w) = w1 \<or> snd (route_room env race q s p k w) = w2 \<or>
    (\<exists>row a. a \<in> set (available_agents env w1 q s p) \<and>
       (flag_attr env ''agent_capacity_recheck'' (prj_uuid p) = Some True \<longrightarrow>
        cap_can_receive (can_agent_receive_room env w2 s p a)) \<and>
       snd (route_room env race q s p k w) = snd (assign_room env (loaded row) a w2))"
proof (cases "find_room w1 k")
  case None
  then show ?thesis
    by (simp add: route_room_def andthen_def bnd_def modify_def load_room_missing ret_def assms(1) [symmetric])
next
  case (Some row)
  obtain found w' where pick: "get_available_agent env q s p w1 = (found, w')" by fastforce
  have w': "w' = w1" using get_available_agent_state [of env q s p w1] pick by simp
  show ?thesis
  proof (cases "\<exists>a. found = Inr (Some a)")
    case False
    then show ?thesis using Some pick w'
      by (auto simp: route_room_def andthen_def bnd_def modify_def load_room_run ret_def assms(1) [symmetric]
          split: option.splits sum.splits)
  next
    case True
    then obtain a where a: "found = Inr (Some a)" by blast
    have "a \<in> set (available_agents env w1 q s p)" using picked_available pick a by blast
    then show ?thesis using Some pick w' a
      by (auto simp: route_room_def andthen_def bnd_def modify_def load_room_run ret_def gets_def raise_def
          flag_or_raise_def assms [symmetric] split: option.splits sum.splits prod.splits if_splits)
        (metis snd_conv)+
  qed
qed

lemma within_limits_route_room:
  assumes w: "within_limits env s p w"
    and race: "\<And>b w. within_limits env s p w \<Longrightarrow> within_limits env s p (race b k w)"
    and holds: "choice_holds env p race"
  shows "within_limits env s p (snd (route_room env race q s p k w))"
proof -
  define w1 where "w1 = race False k w"
  define w2 where "w2 = race True k w1"
  have ok: "within_limits env s p w1" "within_limits env s p w2"
    using w race by (simp_all add: w1_def w2_def)
  have "within_limits env s p (snd (assign_room env (loaded row) a w2))"
    if a: "a \<in> set (available_agents env w1 q s p)"
      and cap: "flag_attr env ''agent_capacity_recheck'' (prj_uuid p) = Some True \<longrightarrow>
        cap_can_receive (can_agent_receive_room env w2 s p a)" for row a
  proof -
    have "sector_active_rooms w2 (sec_uuid s) a < effective_limit env w2 s p a"
    proof (cases "flag_attr env ''agent_capacity_recheck'' (prj_uuid p) = Some True")
      case True
      then show ?thesis using cap by (simp add: can_agent_receive_room_def effective_limit_def Let_def)
    next
      case False
      then have "w2 = w1" using holds by (simp add: w2_def choice_holds_def)
      then show ?thesis using a by (simp add: set_available_agents)
    qed
    then show ?thesis using within_limits_assign [OF ok(2), of "loaded row" a] by simp
  qed
  with route_room_outcome [of w1 race k w w2 env q s p, OF w1_def w2_def] ok show ?thesis by metis
qed

lemma within_limits_loop:
  assumes race: "\<And>b k w. within_limits env s p w \<Longrightarrow> within_limits env s p (race b k w)"
    and holds: "choice_holds env p race"
  shows "within_limits env s p w \<Longrightarrow> within_limits env s p (snd (route_loop env race q s p ks w))"
proof (induction ks arbitrary: w)
  case (Cons k ks)
  have "within_limits env s p (snd (route_room env race q s p k w))"
    by (rule within_limits_route_room [OF Cons.prems race holds])
  then show ?case
    using Cons.IH
    by (auto simp: bnd_def ret_def split: prod.split sum.split loop_step.split)
qed (simp add: ret_def)

section \<open>First come, first served\<close>

definition no_race :: race where
  "no_race = (\<lambda>_ _ w. w)"

definition perms_unique :: "world \<Rightarrow> bool" where
  "perms_unique w \<longleftrightarrow> (\<forall>a \<in> set (permissions w). \<forall>b \<in> set (permissions w).
     prm_user a \<noteq> None \<and> prm_user a = prm_user b \<and> prm_project a = prm_project b \<longrightarrow> a = b)"

lemma available_still_online:
  assumes "perms_unique w" and "u \<in> set (available_agents env w q s p)"
  shows "still_online env w p u"
proof -
  have "agent_join w q p u" "online_join env w q p u"
    using assms(2) by (simp_all add: set_available_agents online_agents_def)
  then obtain m n where m: "m \<in> set (permissions w)" "prm_user m = Some u"
      "prm_project m = prj_uuid p" "\<not> prm_is_deleted m"
    and n: "n \<in> set (permissions w)" "prm_user n = Some u" "prm_project n = prj_uuid p"
      "prm_status n = ''ONLINE''"
      "flag_or_false env ''ping_timeout'' (prj_uuid p) \<longrightarrow> recently_seen env n"
    by (auto simp: agent_join_def online_join_def list_ex_iff)
  then have "m = n" using assms(1) by (simp add: perms_unique_def)
  with m n show ?thesis by (auto simp: still_online_def list_ex_iff)
qed

definition has_user :: "world \<Rightarrow> uuid \<Rightarrow> bool" where
  "has_user w k \<longleftrightarrow> (\<exists>r u. find_room w k = Some r \<and> rm_user r = Some u)"

lemma assign_room_effect:
  assumes row: "find_room w k = Some row"
    and run: "assign_room env (loaded row) a w = (res, w')"
  shows "others_kept k w w'" and "res = Inr () \<Longrightarrow> has_user w' k" and "config_frame w w'"
proof -
  let ?ob = "set_row (\<lambda>r. r\<lparr>rm_user := Some a\<rparr>) (loaded row)"
  have k: "room_pk ?ob = k" "\<not> ob_adding ?ob" "rm_user (ob_row ?ob) = Some a"
    using row by (simp_all add: set_row_def loaded_def room_pk_def find_room_uuid)
  obtain sres w1 where save: "room_save env None ?ob w = (sres, w1)" by fastforce
  have o1: "others_kept k w w1"
    by (rule keepsD [OF others_room_save' [OF k(1)] save]) (simp add: keeps_uuid_def)
  have c1: "config_frame w w1" by (rule keepsD [OF cframe_room_save save])
  have all: "others_kept k w w' \<and> (res = Inr () \<longrightarrow> has_user w' k) \<and> config_frame w w'"
  proof (cases sres)
    case (Inl e)
    then show ?thesis using run save o1 c1 by (auto simp: assign_room_split bnd_def)
  next
    case (Inr ob')
    have "after_assign env (rm_user_assigned_at (ob_row (loaded row)) = None) a (ob_row ob') w1 = (res, w')"
      using run save Inr by (simp add: assign_room_split bnd_def)
    then have f: "routing_frame w1 w'" by (rule keepsD [OF rframe_after_assign])
    have "rm_is_active row"
      using save Inr closed_save_raises [of w ?ob row env None] row k by auto
    from room_save_effect [OF row [folded k(1)] this k(2) save [unfolded Inr]]
    have "has_user w1 k" using k by (auto simp: has_user_def)
    then show ?thesis
      using f o1 c1
      by (auto simp: has_user_def others_kept_def find_room_def routing_frame_def config_frame_def)
  qed
  then show "others_kept k w w'" "res = Inr () \<Longrightarrow> has_user w' k" "config_frame w w'" by auto
qed

lemma route_room_quiet:
  assumes uniq: "perms_unique w" and run: "route_room env no_race q s p k w = (res, w')"
  shows "others_kept k w w' \<and> config_frame w w' \<and>
    (res = Inr Continue \<longrightarrow> has_user w' k) \<and>
    (res = Inr Break \<longrightarrow> w' = w \<and> available_agents env w q s p = [])"
proof (cases "find_room w k")
  case None
  then show ?thesis
    using run others.R_refl config_frame.R_refl
    by (auto simp: route_room_def no_race_def andthen_def bnd_def modify_def load_room_missing)
next
  case (Some row)
  define rest where "rest = (\<lambda>agent. bnd (flag_or_raise env ''agent_capacity_recheck'' (prj_uuid p)) (\<lambda>recheck.
       bnd (gets (\<lambda>w. can_agent_receive_room env w s p agent)) (\<lambda>capacity.
       if recheck \<and> \<not> cap_can_receive capacity then ret Continue
       else andthen (assign_room env (loaded row) agent) (ret Continue))))"
  have step: "route_room env no_race q s p k w =
     (if rm_user row \<noteq> None then (Inr Continue, w)
      else bnd (get_available_agent env q s p) (\<lambda>found. case found of None \<Rightarrow> ret Break
        | Some agent \<Rightarrow> (\<lambda>w. if \<not> still_online env w p agent then (Inr Continue, w) else rest agent w)) w)"
    using Some get_available_agent_state [of env q s p w]
    by (auto simp: route_room_def no_race_def andthen_def bnd_def modify_def load_room_run gets_def
        ret_def rest_def split: option.splits prod.splits sum.splits)
  show ?thesis
  proof (cases "rm_user row \<noteq> None")
    case True
    then show ?thesis
      using run step Some others.R_refl config_frame.R_refl by (auto simp: has_user_def)
  next
    case False
    obtain gres where g: "get_available_agent env q s p w = (gres, w)"
      using get_available_agent_state [of env q s p w] by (metis prod.collapse)
    consider e where "gres = Inl e" | "gres = Inr None" | a where "gres = Inr (Some a)"
    proof (cases gres)
      case (Inr b)
      then show thesis using that by (cases b) auto
    qed (use that in auto)
    then show ?thesis
    proof cases
      case (1 e)
      then show ?thesis using run step False g others.R_refl config_frame.R_refl
        by (auto simp: bnd_def)
    next
      case 2
      have "route_room env no_race q s p k w = (Inr Break, w)"
        using step False g 2 by (simp add: bnd_def ret_def)
      with run have "res = Inr Break" "w' = w" by simp_all
      moreover have "available_agents env w q s p = []"
        using get_available_agent_cases(2) [OF g [unfolded 2]] by simp
      ultimately show ?thesis by (simp add: others.R_refl config_frame.R_refl)
    next
      case (3 a)
      have a: "a \<in> set (available_agents env w q s p)"
        by (rule subsetD [OF with_min_subset get_available_agent_cases(3) [OF g [unfolded 3] refl]])
      have online: "still_online env w p a" by (rule available_still_online [OF uniq a])
      have cap: "cap_can_receive (can_agent_receive_room env w s p a)"
        using a by (simp add: set_available_agents can_agent_receive_room_def effective_limit_def Let_def)
      have "route_room env no_race q s p k w = rest a w"
        using step False g 3 online by (simp add: bnd_def)
      also have "\<dots> = bnd (flag_or_raise env ''agent_capacity_recheck'' (prj_uuid p))
          (\<lambda>_. andthen (assign_room env (loaded row) a) (ret Continue)) w"
        using cap by (auto simp: rest_def bnd_def gets_def flag_or_raise_def ret_def raise_def
            split: option.split)
      finally have eq: "route_room env no_race q s p k w =
          bnd (flag_or_raise env ''agent_capacity_recheck'' (prj_uuid p))
          (\<lambda>_. andthen (assign_room env (loaded row) a) (ret Continue)) w" .
      obtain ares w1 where ar: "assign_room env (loaded row) a w = (ares, w1)" by fastforce
      have "(\<exists>e. res = Inl e \<and> w' = w) \<or> (w' = w1 \<and> (res = Inr Continue \<longrightarrow> ares = Inr ()) \<and> res \<noteq> Inr Break)"
        using run eq ar
        by (auto simp: bnd_def andthen_def flag_or_raise_def ret_def raise_def
            split: option.splits sum.splits)
      then show ?thesis
        using assign_room_effect [OF Some ar] others.R_refl config_frame.R_refl by auto
    qed
  qed
qed

lemma route_loop_quiet:
  assumes "distinct ks" and "perms_unique w" and "route_loop env no_race q s p ks w = (Inr (), w')"
  shows "(\<forall>k. k \<notin> set ks \<longrightarrow> find_room w' k = find_room w k) \<and>
    (\<exists>n. (\<forall>k \<in> set (take n ks). has_user w' k) \<and>
      (\<forall>k \<in> set (drop n ks). find_room w' k = find_room w k) \<and>
      (drop n ks = [] \<or> available_agents env w' q s p = []))"
  using assms
proof (induction ks arbitrary: w)
  case Nil
  then show ?case by (simp add: ret_def)
next
  case (Cons k ks)
  obtain res w1 where step: "route_room env no_race q s p k w = (res, w1)" by fastforce
  have q: "others_kept k w w1" "config_frame w w1" "res = Inr Continue \<longrightarrow> has_user w1 k"
    "res = Inr Break \<longrightarrow> w1 = w \<and> available_agents env w q s p = []"
    using route_room_quiet [OF Cons.prems(2) step] by blast+
  show ?case
  proof (cases "res = Inr Continue")
    case False
    then have "res = Inr Break" "w' = w1"
      using Cons.prems(3) step by (auto simp: bnd_def ret_def split: sum.splits loop_step.splits)
    then show ?thesis using q by (intro conjI exI [of _ 0]) auto
  next
    case True
    then have run: "route_loop env no_race q s p ks w1 = (Inr (), w')"
      using Cons.prems(3) step by (simp add: bnd_def)
    have "perms_unique w1" using Cons.prems(2) q(2) by (simp add: perms_unique_def config_frame_def)
    from Cons.IH [OF _ this run] Cons.prems(1) obtain n where
      out: "\<And>x. x \<notin> set ks \<Longrightarrow> find_room w' x = find_room w1 x"
      and n: "\<forall>k \<in> set (take n ks). has_user w' k"
        "\<forall>k \<in> set (drop n ks). find_room w' k = find_room w1 k"
        "drop n ks = [] \<or> available_agents env w' q s p = []" by auto
    have "has_user w' k"
      using q(3) True out [of k] Cons.prems(1) by (simp add: has_user_def)
    moreover have "find_room w1 x = find_room w x" if "x \<noteq> k" for x
      using q(1) that by (simp add: others_kept_def)
    moreover have "find_room w' x = find_room w x" if "x \<in> set (drop n ks)" for x
    proof -
      have "x \<in> set ks" using that by (rule in_set_dropD)
      then have "x \<noteq> k" using Cons.prems(1) by auto
      then show ?thesis using n(2) that q(1) by (simp add: others_kept_def)
    qed
    ultimately show ?thesis
      using out n(1,3) by (intro conjI exI [of _ "Suc n"]) auto
  qed
qed

section \<open>Properties\<close>

text \<open>The agent chosen for a room is available (online on this queue, not on a pause, below the
  limit), carries the smallest load of all available agents and, when the flag says so, closed the
  fewest rooms today among those with that load; no agent is chosen exactly when none is available.\<close>

theorem get_available_agent_least_loaded:
  assumes "get_available_agent env q s p w = (Inr found, w')"
  shows "w' = w \<and> ((found = None) = (available_agents env w q s p = [])) \<and>
    (\<forall>u. found = Some u \<longrightarrow>
       u \<in> set (online_agents env w q p) \<and>
       sector_active_rooms w (sec_uuid s) u < effective_limit env w s p u \<and>
       (\<forall>v \<in> set (available_agents env w q s p). agent_load env w s p u \<le> agent_load env w s p v \<and>
          (flag_attr env ''least_rooms_closed_today'' (prj_uuid p) = Some True \<and>
           agent_load env w s p v = agent_load env w s p u \<longrightarrow>
           closed_today env w (sec_uuid s) u \<le> closed_today env w (sec_uuid s) v)))"
  using get_available_agent_cases [OF assms]
  by (auto simp: set_with_min set_available_agents)

definition routing_world :: world where
  "routing_world = small_world\<lparr>
     projects := [blank_project\<lparr>prj_room_routing_type := Some ''QUEUE_PRIORITY''\<rparr>],
     queue_auths := [\<lparr>qau_queue = ''q'', qau_role = 1, qau_permission = ''m1'', qau_is_deleted = False\<rparr>],
     rooms := [blank_room\<lparr>rm_queue := Some ''q''\<rparr>, blank_room\<lparr>rm_uuid := ''r2'', rm_queue := Some ''q'',
                rm_added_to_queue_at := Some (- 5)\<rparr>]\<rparr>"

lemmas routing_simps = routing_world_def sample_defs online_agents_def agent_join_def online_join_def
  on_pause_def users_with_permission_def sector_active_rooms_def room_in_sector_def queue_of_def
  find_queue_def effective_limit_def queue_limit_of_def flag_or_false_def

lemma routing_available:
  "available_agents calm_env routing_world blank_queue blank_sector
     (hd (projects routing_world)) = [''a@x'']"
  by (simp add: available_agents_def agent_load_def is_general_routing_def routing_option_def
      project_config_get_def obj_get_def routing_simps)

theorem get_available_agent_least_loaded_witness:
  "''a@x'' \<in> set (online_agents calm_env routing_world blank_queue (hd (projects routing_world)))"
proof -
  have "get_available_agent calm_env blank_queue blank_sector (hd (projects routing_world)) routing_world =
      (Inr (Some ''a@x''), routing_world)"
    using routing_available by (simp add: get_available_agent_def run_gets with_min_def ret_def)
  from get_available_agent_least_loaded [OF this] show ?thesis by simp
qed

text \<open>The capacity recheck mirrors \<open>available_agents\<close>: for an online agent it says yes exactly when
  the agent is available.\<close>

lemma recheck_mirrors_available_agents:
  assumes "u \<in> set (online_agents env w q p)"
  shows "cap_can_receive (can_agent_receive_room env w s p u) =
    (u \<in> set (available_agents env w q s p))"
  using assms by (simp add: set_available_agents can_agent_receive_room_def effective_limit_def Let_def)



text \<open>C7. A run that returns and without concurrent changes serves the queue in order: the rooms that got an
  agent are a prefix of the rooms ordered by their queue date, the rest is untouched, and rooms are left over
  only when no agent is available any more.\<close>

theorem route_rooms_serves_in_order:
  assumes "distinct (map rm_uuid (rooms w))" and "perms_unique w"
    and "sector_of_queue w q = Some s" and "project_of_sector w s = Some p"
    and "route_rooms env no_race q w = (Inr (), w')"
  shows "let ks = map rm_uuid (get_rooms_to_route w (que_uuid q)) in
    \<exists>n. (\<forall>k \<in> set (take n ks). has_user w' k) \<and>
      (\<forall>k \<in> set (drop n ks). find_room w' k = find_room w k) \<and>
      (drop n ks = [] \<or> available_agents env w' q s p = [])"
proof -
  let ?ks = "map rm_uuid (get_rooms_to_route w (que_uuid q))"
  have "distinct ?ks"
    using assms(1) by (simp add: get_rooms_to_route_def distinct_map inj_on_def)
  moreover have "w' = w \<and> (?ks = [] \<or> available_agents env w q s p = []) \<or>
      route_loop env no_race q s p ?ks w = (Inr (), w')"
    using assms(3-5)
    by (auto simp: route_rooms_def need_def bnd_def gets_def ret_def raise_def split: if_splits)
  ultimately show ?thesis
    using route_loop_quiet [OF _ assms(2), of ?ks env q s p w'] unfolding Let_def
    by (auto intro: exI [of _ 0])
qed

lemma routing_run_ok: "fst (route_rooms calm_env no_race blank_queue routing_world) = Inr ()"
  by code_simp

theorem route_rooms_serves_in_order_witness:
  "let ks = map rm_uuid (get_rooms_to_route routing_world ''q'') in
    \<exists>n. (\<forall>k \<in> set (take n ks).
          has_user (snd (route_rooms calm_env no_race blank_queue routing_world)) k) \<and>
      (\<forall>k \<in> set (drop n ks). find_room (snd (route_rooms calm_env no_race blank_queue routing_world)) k
          = find_room routing_world k) \<and>
      (drop n ks = [] \<or> available_agents calm_env
          (snd (route_rooms calm_env no_race blank_queue routing_world)) blank_queue blank_sector
          (hd (projects routing_world)) = [])"
proof -
  have run: "route_rooms calm_env no_race blank_queue routing_world =
      (Inr (), snd (route_rooms calm_env no_race blank_queue routing_world))"
    using routing_run_ok by (metis prod.collapse)
  have "distinct (map rm_uuid (rooms routing_world))" "perms_unique routing_world"
    "sector_of_queue routing_world blank_queue = Some blank_sector"
    "project_of_sector routing_world blank_sector = Some (hd (projects routing_world))"
    by (simp_all add: perms_unique_def routing_simps sector_of_queue_def find_sector_def
        project_of_sector_def find_project_def)
  from route_rooms_serves_in_order [OF this run] show ?thesis
    by (simp add: blank_queue_def)
qed

definition rooms_wait :: "world \<Rightarrow> queue \<Rightarrow> bool" where
  "rooms_wait w q \<longleftrightarrow> (\<exists>r \<in> set (rooms w).
     rm_queue r = Some (que_uuid q) \<and> rm_is_active r \<and> rm_user r = None)"

lemma rooms_wait_count:
  "(count_where (\<lambda>r. rm_queue r = Some (que_uuid q) \<and> rm_is_active r \<and> rm_user r = None) (rooms w) = 0)
     = (\<not> rooms_wait w q)"
  by (auto simp: rooms_wait_def count_where_def filter_empty_conv)

lemma rooms_wait_ex:
  "list_ex (\<lambda>r. rm_queue r = Some (que_uuid q) \<and> rm_is_active r \<and> rm_user r = None) (rooms w)
     = rooms_wait w q"
  by (auto simp: rooms_wait_def list_ex_iff)

lemma resolve_general_some:
  assumes "resolve_general env q s p w = (Inr (Some u), w')"
  shows "\<not> rooms_wait w q \<and> u \<in> set (available_agents env w q s p)"
  using assms
  by (cases "get_available_agent env q s p w")
    (auto simp: resolve_general_def run_gets rooms_wait_ex bnd_def ret_def flag_user_or_raise_def
      raise_def gets_def split: if_splits sum.splits option.splits dest: picked_available)

lemma resolve_queue_priority_some:
  assumes "resolve_queue_priority env route_now q s p w = (Inr (Some u), w')"
  shows "\<not> rooms_wait w q \<and> u \<in> set (available_agents env w q s p)"
  using assms
  by (cases "get_available_agent env q s p w")
    (auto simp: resolve_queue_priority_def run_gets rooms_wait_count bnd_def ret_def andthen_def
      flag_user_or_raise_def raise_def gets_def
      split: if_splits sum.splits option.splits prod.splits dest: picked_available)

text \<open>Whoever a new room is given to is the online owner of its flow start, the online agent
  linked to the contact, the requested user if online in the project, or an available agent of a
  queue in which no room waits: automatic routing never lets a new room overtake a waiting one.\<close>

theorem resolve_room_user_sources:
  assumes "resolve_room_user env route_now q s p contact link user is_created flow w = (Inr (Some u), w')"
  shows "(\<exists>f m. flow = Some f \<and> Option.bind (flo_permission f) (find_permission_pk w) = Some m
            \<and> prm_status m = ''ONLINE'' \<and> prm_user m = Some u) \<or>
    (\<exists>l. link = Some l \<and> \<not> is_created \<and> link_is_online w p l \<and> lin_user l = Some u) \<or>
    (user = Some u \<and> (\<exists>m \<in> set (live_permissions w). prm_project m = prj_uuid p
            \<and> prm_user m = Some u \<and> prm_status m = ''ONLINE'')) \<or>
    (\<not> rooms_wait w q \<and> u \<in> set (available_agents env w q s p))"
proof -
  have tail: ?thesis if "resolve_requested env route_now q s p user w = (Inr (Some u), w')"
    using that resolve_general_some resolve_queue_priority_some
    by (auto simp: resolve_requested_def run_gets ret_def list_ex_iff split: if_splits)
  have middle: ?thesis if "(case linked_choice w p is_created link of Some v \<Rightarrow> ret v
      | None \<Rightarrow> resolve_requested env route_now q s p user) w = (Inr (Some u), w')"
  proof (cases "linked_choice w p is_created link")
    case None
    with that tail show ?thesis by simp
  next
    case (Some v)
    with that show ?thesis
      by (auto simp: linked_choice_def ret_def split: if_splits option.splits)
  qed
  show ?thesis
  proof (cases flow)
    case None
    then show ?thesis
      using assms by (intro middle) (simp add: resolve_room_user_def run_gets)
  next
    case (Some f)
    show ?thesis
    proof (cases "flow_start_user w p contact is_created f")
      case (Inl e)
      with Some assms show ?thesis by (simp add: resolve_room_user_def bnd_def)
    next
      case (Inr from_flow)
      show ?thesis
      proof (cases from_flow)
        case None
        then show ?thesis
          using assms Some Inr by (intro middle) (simp add: resolve_room_user_def bnd_def gets_def)
      next
        case (Some v)
        then have "v = Some u"
          using assms \<open>flow = Some f\<close> Inr by (simp add: resolve_room_user_def bnd_def ret_def)
        with Inr Some \<open>flow = Some f\<close> show ?thesis
          by (auto simp: flow_start_user_def split: if_splits option.splits)
      qed
    qed
  qed
qed

lemma resolve_run_ok: "fst (resolve_room_user calm_env (\<lambda>_. ret ()) blank_queue blank_sector
    (hd (projects routing_world)) ''c'' None (Some ''a@x'') True None routing_world) = Inr (Some ''a@x'')"
  by code_simp

theorem resolve_room_user_sources_witness:
  "(\<exists>m \<in> set (live_permissions routing_world). prm_user m = Some ''a@x'' \<and> prm_status m = ''ONLINE'')
    \<or> ''a@x'' \<in> set (available_agents calm_env routing_world blank_queue blank_sector (hd (projects routing_world)))"
proof -
  have "resolve_room_user calm_env (\<lambda>_. ret ()) blank_queue blank_sector
    (hd (projects routing_world)) ''c'' None (Some ''a@x'') True None routing_world =
    (Inr (Some ''a@x''), snd (resolve_room_user calm_env (\<lambda>_. ret ()) blank_queue blank_sector
    (hd (projects routing_world)) ''c'' None (Some ''a@x'') True None routing_world))"
    using resolve_run_ok by (metis prod.collapse)
  from resolve_room_user_sources [OF this] show ?thesis by auto
qed

text \<open>Contrary to what \<open>RoomRoutingType\<close> documents, \<open>GENERAL\<close> leaves a new room unassigned
  whenever rooms wait, and \<open>QUEUE_PRIORITY\<close> hands a new room directly to an available agent when
  none waits.\<close>

theorem routing_types_as_coded:
  "(rooms_wait w q \<longrightarrow> resolve_general env q s p w = (Inr None, w)) \<and>
   (\<not> rooms_wait w q \<and> get_available_agent env q s p w = (Inr (Some a), w) \<and>
    flag_user env ''agent_capacity_recheck'' (prj_uuid p) = Some False \<longrightarrow>
    resolve_queue_priority env route_now q s p w = (Inr (Some a), w))"
  by (auto simp: resolve_general_def resolve_queue_priority_def gets_def rooms_wait_ex
      rooms_wait_count bnd_def ret_def flag_user_or_raise_def)

theorem routing_types_as_coded_witness:
  "resolve_general calm_env blank_queue blank_sector (hd (projects routing_world)) routing_world =
     (Inr None, routing_world)"
  using routing_types_as_coded [of routing_world blank_queue calm_env blank_sector
      "hd (projects routing_world)"]
  by (simp add: rooms_wait_def routing_simps)

end
