(* ===== verification/Route_Locks.thy ===== *)
theory Route_Locks
  imports Queue_Routing
begin

text \<open>
  The routing tasks of \<open>chats/apps/queues/tasks.py\<close> and their scheduling in
  \<open>chats/apps/queues/utils.py\<close>. A task runs on the database and the shared cache, whose commands
  are the argument \<open>ops\<close>; the two timeouts are settings. \<open>Inr None\<close> is the bare \<open>return\<close> of a task
  whose queue or sector is gone, \<open>Inr (Some False)\<close> the return of a task that found the lock taken.

  The second half is the interleaving of several workers on one lock: \<open>worker_step\<close> runs the two
  halves of the task, \<open>start_route_queue\<close> and \<open>leave_lock\<close>, between which others can get in.
\<close>

section \<open>Tasks\<close>

definition get_route_lock_key :: "uuid \<Rightarrow> string" where
  "get_route_lock_key k = ''route_queue_rooms_lock:'' @ k"

definition get_route_pending_key_for_queue :: "uuid \<Rightarrow> string" where
  "get_route_pending_key_for_queue k = ''route_queue_rooms_pending:'' @ k"

definition get_route_pending_key_for_sector :: "uuid \<Rightarrow> string" where
  "get_route_pending_key_for_sector k = ''route_sector_rooms_pending:'' @ k"

type_synonym 'c shared = "world \<times> 'c"

text \<open>The lock was not acquired: schedule one deferred run unless one is pending.\<close>

definition defer_run ::
  "env \<Rightarrow> 'c cache_ops \<Rightarrow> int \<Rightarrow> string \<Rightarrow> string \<Rightarrow> uuid \<Rightarrow> ('c shared, bool option) py" where
  "defer_run env ops retry_delay pending_key task k = (\<lambda>(w, c).
     let (fresh, c') = c_add ops pending_key (JBool True) retry_delay c
     in if fresh
        then (case delay env task [k] w of
                (Inl e, w') \<Rightarrow> (Inl e, (w', c'))
              | (Inr _, w') \<Rightarrow> (Inr (Some False), (w', c')))
        else (Inr (Some False), (w, c')))"

text \<open>
  \<open>cache.add\<close> on the lock, and \<open>finally: cache.delete(lock_key)\<close> with the return of the task. A task that
  starts has either returned by then or goes on to route \<open>x\<close> under the lock.
\<close>

datatype 'a started = Returned "exn + bool option" | Started 'a

definition enter_lock ::
  "'c cache_ops \<Rightarrow> int \<Rightarrow> string \<Rightarrow> ('c shared, bool option) py \<Rightarrow> 'a \<Rightarrow> 'c shared \<Rightarrow>
   'a started \<times> 'c shared" where
  "enter_lock ops max_time lock_key blocked x = (\<lambda>(w, c).
     let (acquired, c1) = c_add ops lock_key (JBool True) max_time c
     in if acquired then (Started x, (w, c1))
        else (case blocked (w, c1) of (r, wc) \<Rightarrow> (Returned r, wc)))"

definition leave_lock ::
  "'c cache_ops \<Rightarrow> string \<Rightarrow> (exn + unit) \<times> world \<Rightarrow> 'c \<Rightarrow> (exn + bool option) \<times> 'c shared" where
  "leave_lock ops lock_key outcome c = (case outcome of
       (Inl e, w) \<Rightarrow> (Inl e, (w, snd (c_delete ops lock_key c)))
     | (Inr _, w) \<Rightarrow> (Inr (Some True), (w, snd (c_delete ops lock_key c))))"

text \<open>\<open>route_queue_rooms\<close>: what it does before it routes, and the whole task.\<close>

definition start_route_queue ::
  "env \<Rightarrow> 'c cache_ops \<Rightarrow> int \<Rightarrow> int \<Rightarrow> uuid \<Rightarrow> 'c shared \<Rightarrow> queue started \<times> 'c shared" where
  "start_route_queue env ops max_time retry_delay k = (\<lambda>(w, c).
     case find (\<lambda>q. que_uuid q = k) (live_queues w) of
       None \<Rightarrow> (Returned (Inr None), (w, c))
     | Some q \<Rightarrow> enter_lock ops max_time (get_route_lock_key k)
         (defer_run env ops retry_delay (get_route_pending_key_for_queue k) ''route_queue_rooms'' k) q (w, c))"

definition route_queue_rooms ::
  "env \<Rightarrow> 'c cache_ops \<Rightarrow> int \<Rightarrow> int \<Rightarrow> race \<Rightarrow> uuid \<Rightarrow> ('c shared, bool option) py" where
  "route_queue_rooms env ops max_time retry_delay race k wc =
     (case start_route_queue env ops max_time retry_delay k wc of
        (Returned r, wc') \<Rightarrow> (r, wc')
      | (Started q, (w, c)) \<Rightarrow> leave_lock ops (get_route_lock_key k) (route_rooms env race q w) c)"

text \<open>The loop over the queues of a sector; only a \<open>ValueError\<close> is caught.\<close>

fun skip_value_error :: "exn \<Rightarrow> (world, unit) py" where
  "skip_value_error (ValueError m) = ret ()"
| "skip_value_error e = raise e"

definition route_queues :: "env \<Rightarrow> race \<Rightarrow> queue list \<Rightarrow> (world, unit) py" where
  "route_queues env race = for_each (\<lambda>q. try_except (route_rooms env race q) skip_value_error)"

definition route_sector_rooms ::
  "env \<Rightarrow> 'c cache_ops \<Rightarrow> int \<Rightarrow> int \<Rightarrow> race \<Rightarrow> uuid \<Rightarrow> ('c shared, bool option) py" where
  "route_sector_rooms env ops max_time retry_delay race k = (\<lambda>(w, c).
     case find (\<lambda>s. sec_uuid s = k \<and> \<not> sec_is_deleted s) (sectors w) of
       None \<Rightarrow> (Inr None, (w, c))
     | Some s \<Rightarrow>
         (case enter_lock ops max_time (get_route_lock_key k)
            (defer_run env ops retry_delay (get_route_pending_key_for_sector k) ''route_sector_rooms'' k) k (w, c) of
            (Returned r, wc) \<Rightarrow> (r, wc)
          | (Started sec, (w', c')) \<Rightarrow> leave_lock ops (get_route_lock_key k)
              (route_queues env race (filter (\<lambda>q. que_sector q = sec) (live_queues w')) w') c'))"

text \<open>\<open>start_queue_priority_routing_for_all_queues_in_project\<close>; without Celery the task runs in place.\<close>

definition start_routing_for_project ::
  "env \<Rightarrow> (uuid \<Rightarrow> (world, unit) py) \<Rightarrow> project \<Rightarrow> (world, unit) py" where
  "start_routing_for_project env route_now p =
     (if \<not> use_queue_priority_routing p then ret ()
      else bnd (gets (\<lambda>w. remdups (map que_sector
             (filter (\<lambda>q. map_option sec_project (sector_of_queue w q) = Some (prj_uuid p))
                (live_queues w))))) (\<lambda>ks.
        for_each (\<lambda>k. if set_use_celery env then delay env ''route_sector_rooms'' [k]
                      else route_now k) ks))"

text \<open>\<open>requeue_agent_rooms\<close> of \<open>chats/apps/rooms/services.py\<close>.\<close>

definition requeue_agent_rooms ::
  "env \<Rightarrow> (uuid \<Rightarrow> (world, unit) py) \<Rightarrow> uuid list \<Rightarrow> (world, unit) py" where
  "requeue_agent_rooms env route_now ks =
     bnd (fold_each (\<lambda>k qs.
       bnd (load_room k) (\<lambda>ob.
       case rm_user (ob_row ob) of None \<Rightarrow> ret qs
       | Some old_user \<Rightarrow>
         bnd (room_save env None (set_row (\<lambda>r. r\<lparr>rm_user := None\<rparr>) ob)) (\<lambda>ob'.
         andthen (notify_user env (ob_row ob') ''update'' (Some old_user))
         (andthen (notify_queue env (ob_row ob') ''update'' False)
           (ret (case rm_queue (ob_row ob') of None \<Rightarrow> qs | Some q \<Rightarrow> List.insert q qs)))))) ks [])
     (for_each (\<lambda>k. bnd (need AttributeError (\<lambda>w. find_queue w k))
        (start_queue_priority_routing env route_now)))"

section \<open>The protocol of one task\<close>

text \<open>What \<open>add\<close> says and leaves behind, in the form in which the lock and the pending key use it.\<close>

lemma add_lockE:
  assumes "cache_backend ops" and "0 < n"
  obtains acq c1 where "c_add ops l (JBool True) n c = (acq, c1)" "acq = (c_get ops l c = None)"
    "\<And>x. c_get ops x c1 = (if x = l \<and> acq then Some (JBool True) else c_get ops x c)"
proof -
  obtain acq c1 where add: "c_add ops l (JBool True) n c = (acq, c1)" by fastforce
  moreover have "acq = (c_get ops l c = None)"
    using cache_backend.add_result [OF assms(1), of l "JBool True" n c] add by simp
  moreover from this have "c_get ops x c1 = (if x = l \<and> acq then Some (JBool True) else c_get ops x c)" for x
    using cache_backend.get_add [OF assms, of x l "JBool True" c] add by simp
  ultimately show ?thesis by (rule that)
qed

lemma keys_differ: "get_route_lock_key k \<noteq> get_route_pending_key_for_queue k"
  by (simp add: get_route_lock_key_def get_route_pending_key_for_queue_def)

lemma leave_lock_eq:
  "leave_lock ops l outcome c =
     (map_sum id (\<lambda>_. Some True) (fst outcome), (snd outcome, snd (c_delete ops l c)))"
  by (cases outcome) (auto simp: leave_lock_def split: sum.splits)

text \<open>A task starts routing exactly when the queue is there and the lock is free; then the lock is taken and
  nothing else has happened. Otherwise the lock is as it was, and of the tables only the outbox of deferred
  runs may have grown.\<close>

lemma start_route_queue_cases:
  assumes backend: "cache_backend ops" and "0 < max_time" and "0 < retry_delay"
    and run: "start_route_queue env ops max_time retry_delay k (w, c) = (out, (w', c'))"
  shows "(\<exists>q. out = Started q \<and> find (\<lambda>q. que_uuid q = k) (live_queues w) = Some q \<and>
       c_get ops (get_route_lock_key k) c = None \<and> w' = w \<and>
       c_get ops (get_route_lock_key k) c' \<noteq> None) \<or>
     (\<exists>r. out = Returned r \<and> r \<noteq> Inr (Some True) \<and>
       (find (\<lambda>q. que_uuid q = k) (live_queues w) = None \<and> w' = w \<and> c' = c \<or>
        c_get ops (get_route_lock_key k) c \<noteq> None \<and>
        c_get ops (get_route_pending_key_for_queue k) c' \<noteq> None \<and>
        (w' = w \<or> c_get ops (get_route_pending_key_for_queue k) c = None \<and>
          w' = w\<lparr>effects := effects w @ [Enqueued ''route_queue_rooms'' [k]]\<rparr>)) \<and>
       c_get ops (get_route_lock_key k) c' = c_get ops (get_route_lock_key k) c)"
proof (cases "find (\<lambda>q. que_uuid q = k) (live_queues w)")
  case None
  then show ?thesis using run by (auto simp: start_route_queue_def)
next
  case (Some q)
  obtain acq c1 where add: "c_add ops (get_route_lock_key k) (JBool True) max_time c = (acq, c1)"
      "acq = (c_get ops (get_route_lock_key k) c = None)"
      "\<And>x. c_get ops x c1 = (if x = get_route_lock_key k \<and> acq then Some (JBool True) else c_get ops x c)"
    by (rule add_lockE [OF backend assms(2), of "get_route_lock_key k" c]) (rule that)
  obtain fresh c2 where add2: "c_add ops (get_route_pending_key_for_queue k) (JBool True) retry_delay c1 = (fresh, c2)"
      "fresh = (c_get ops (get_route_pending_key_for_queue k) c1 = None)"
      "\<And>x. c_get ops x c2 = (if x = get_route_pending_key_for_queue k \<and> fresh then Some (JBool True) else c_get ops x c1)"
    by (rule add_lockE [OF backend assms(3), of "get_route_pending_key_for_queue k" c1]) (rule that)
  show ?thesis
  proof (cases acq)
    case True
    then show ?thesis using run Some add(1,2) add(3) [of "get_route_lock_key k"]
      by (simp add: start_route_queue_def enter_lock_def)
  next
    case False
    have start: "start_route_queue env ops max_time retry_delay k (w, c) =
        (case defer_run env ops retry_delay (get_route_pending_key_for_queue k) ''route_queue_rooms'' k (w, c1) of
           (r, wc) \<Rightarrow> (Returned r, wc))"
      using Some add(1) False by (simp add: start_route_queue_def enter_lock_def)
    have p: "c_get ops (get_route_pending_key_for_queue k) c' \<noteq> None"
      "c_get ops (get_route_lock_key k) c' = c_get ops (get_route_lock_key k) c"
      "w' = w \<or> fresh \<and> w' = w\<lparr>effects := effects w @ [Enqueued ''route_queue_rooms'' [k]]\<rparr>"
      "\<exists>r. out = Returned r \<and> r \<noteq> Inr (Some True)"
      using run start add2(1,2) add2(3) [of "get_route_pending_key_for_queue k"]
        add2(3) [of "get_route_lock_key k"] add(3) [of "get_route_lock_key k"] False keys_differ [of k]
      by (auto simp: defer_run_def delay_def emit_def modify_def raise_def split: if_splits)
    moreover have "c_get ops (get_route_pending_key_for_queue k) c = None" if fresh
      using that add2(2) add(3) [of "get_route_pending_key_for_queue k"] False by simp
    ultimately show ?thesis using False add(2) by blast
  qed
qed

text \<open>A queue task that finds its lock taken changes nothing but the pending key and schedules at
  most one deferred run while that key lives; a task that gets the lock has released it when it ends,
  whether the routing returned or raised.\<close>

theorem route_task_lock_protocol:
  assumes backend: "cache_backend ops" and "0 < max_time" and "0 < retry_delay"
    and "find (\<lambda>q. que_uuid q = k) (live_queues w) = Some q"
    and run: "route_queue_rooms env ops max_time retry_delay race k (w, c) = (res, (w', c'))"
  shows "if c_get ops (get_route_lock_key k) c = None
     then c_get ops (get_route_lock_key k) c' = None \<and>
       w' = snd (route_rooms env race q w) \<and>
       (res = Inr (Some True) \<or> (\<exists>e. res = Inl e))
     else c_get ops (get_route_lock_key k) c' = c_get ops (get_route_lock_key k) c \<and>
       c_get ops (get_route_pending_key_for_queue k) c' \<noteq> None \<and>
       (w' = w \<or> c_get ops (get_route_pending_key_for_queue k) c = None \<and>
         w' = w\<lparr>effects := effects w @ [Enqueued ''route_queue_rooms'' [k]]\<rparr>)"
proof -
  obtain out w1 c1 where start: "start_route_queue env ops max_time retry_delay k (w, c) = (out, (w1, c1))"
    by (metis prod.collapse)
  show ?thesis
    using start_route_queue_cases [OF assms(1-3) start] start run assms(4) cache_backend.get_delete [OF backend]
    by (cases "route_rooms env race q w1"; cases "fst (route_rooms env race q w1)")
      (auto simp: route_queue_rooms_def leave_lock_eq)
qed

theorem route_task_lock_protocol_witness:
  "c_get mem_ops (get_route_lock_key ''q'')
     (snd (snd (route_queue_rooms calm_env mem_ops 60 5 no_race ''q'' (routing_world, mem_empty)))) = None"
proof -
  have f: "find (\<lambda>q. que_uuid q = ''q'') (live_queues routing_world) = Some blank_queue"
    by (simp add: routing_world_def sample_defs)
  obtain res w' c' where run: "route_queue_rooms calm_env mem_ops 60 5 no_race ''q''
      (routing_world, mem_empty) = (res, (w', c'))" by (metis prod.collapse)
  have "c_get mem_ops (get_route_lock_key ''q'') mem_empty = None"
    by (simp add: mem_ops_def mem_get_def mem_empty_def)
  with route_task_lock_protocol [OF mem.cache_backend_axioms _ _ f run] run show ?thesis by simp
qed

section \<open>Interleaved workers\<close>

datatype phase = Idle | Routing queue

record 'c lock_state =
  lk_world :: world
  lk_cache :: 'c
  lk_phase :: "nat \<Rightarrow> phase"

text \<open>
  Workers that run the task of one queue \<open>k\<close>, split where others get in between: a worker starts, routes and
  leaves, or is killed while it routes and leaves the lock behind. Everything else in the system changes the
  tables and the cache in any way, the lock of the queue apart. \<open>timely\<close> says that a routing run ends before
  its lock expires, i.e. within \<open>ROUTE_QUEUE_COOLDOWN_MAX_TIME\<close>: time does not take the lock away while a
  worker is routing.
\<close>

inductive worker_step ::
  "env \<Rightarrow> 'c cache_ops \<Rightarrow> int \<Rightarrow> int \<Rightarrow> uuid \<Rightarrow> bool \<Rightarrow> 'c lock_state \<Rightarrow> 'c lock_state \<Rightarrow> bool"
  for env ops max_time retry_delay k timely where
  start: "lk_phase s i = Idle \<Longrightarrow>
     start_route_queue env ops max_time retry_delay k (lk_world s, lk_cache s) = (out, (w, c)) \<Longrightarrow>
     worker_step env ops max_time retry_delay k timely s
       (s\<lparr>lk_world := w, lk_cache := c,
          lk_phase := (lk_phase s)(i := (case out of Returned r \<Rightarrow> Idle | Started q \<Rightarrow> Routing q))\<rparr>)"
| finish: "lk_phase s i = Routing q \<Longrightarrow>
     leave_lock ops (get_route_lock_key k) (route_rooms env race q (lk_world s)) (lk_cache s) = (res, (w, c)) \<Longrightarrow>
     worker_step env ops max_time retry_delay k timely s
       (s\<lparr>lk_world := w, lk_cache := c, lk_phase := (lk_phase s)(i := Idle)\<rparr>)"
| killed: "lk_phase s i = Routing q \<Longrightarrow>
     worker_step env ops max_time retry_delay k timely s (s\<lparr>lk_phase := (lk_phase s)(i := Idle)\<rparr>)"
| others: "c_get ops (get_route_lock_key k) c = c_get ops (get_route_lock_key k) (lk_cache s) \<Longrightarrow>
     worker_step env ops max_time retry_delay k timely s (s\<lparr>lk_world := w, lk_cache := c\<rparr>)"
| elapse: "0 \<le> n \<Longrightarrow>
     timely \<Longrightarrow> (\<forall>i. lk_phase s i = Idle) \<or>
        c_get ops (get_route_lock_key k) (c_elapse ops n (lk_cache s)) =
        c_get ops (get_route_lock_key k) (lk_cache s) \<Longrightarrow>
     worker_step env ops max_time retry_delay k timely s (s\<lparr>lk_cache := c_elapse ops n (lk_cache s)\<rparr>)"
| late: "0 \<le> n \<Longrightarrow> \<not> timely \<Longrightarrow>
     worker_step env ops max_time retry_delay k timely s (s\<lparr>lk_cache := c_elapse ops n (lk_cache s)\<rparr>)"

text \<open>Somebody routes only under the lock, and at most one worker does.\<close>

definition lock_ok :: "'c cache_ops \<Rightarrow> uuid \<Rightarrow> 'c lock_state \<Rightarrow> bool" where
  "lock_ok ops k s \<longleftrightarrow>
     (\<forall>i. lk_phase s i \<noteq> Idle \<longrightarrow> c_get ops (get_route_lock_key k) (lk_cache s) \<noteq> None) \<and>
     (\<forall>i j. lk_phase s i \<noteq> Idle \<and> lk_phase s j \<noteq> Idle \<longrightarrow> i = j)"

lemma lock_ok_step:
  assumes backend: "cache_backend ops" "0 < max_time" "0 < retry_delay"
    and ok: "lock_ok ops k s"
    and step: "worker_step env ops max_time retry_delay k True s t"
  shows "lock_ok ops k t"
  using step
proof (cases rule: worker_step.cases)
  case (start i out w c)
  show ?thesis
    using start_route_queue_cases [OF backend start(3)] start ok
    by (auto simp: lock_ok_def)
next
  case (finish i q race res w c)
  then show ?thesis using ok by (auto simp: lock_ok_def)
next
  case (killed i q)
  then show ?thesis using ok by (auto simp: lock_ok_def)
next
  case (others c w)
  then show ?thesis using ok by (auto simp: lock_ok_def)
next
  case (elapse n)
  then show ?thesis using ok by (auto simp: lock_ok_def)
qed simp

lemma lock_ok_steps:
  assumes "cache_backend ops" "0 < max_time" "0 < retry_delay"
    and "(worker_step env ops max_time retry_delay k True)\<^sup>*\<^sup>* s t" and "lock_ok ops k s"
  shows "lock_ok ops k t"
  using assms(4,5) by (induction rule: rtranclp_induct) (auto intro: lock_ok_step [OF assms(1-3)])

text \<open>A whole task that finds the lock taken returns without routing; one that finds it free routes the queue
  and has released the lock when it ends, whether the routing returned or raised.\<close>

definition task_respects_lock ::
  "env \<Rightarrow> 'c cache_ops \<Rightarrow> int \<Rightarrow> int \<Rightarrow> race \<Rightarrow> uuid \<Rightarrow> 'c shared \<Rightarrow> bool" where
  "task_respects_lock env ops max_time retry_delay race k = (\<lambda>(w, c).
     case route_queue_rooms env ops max_time retry_delay race k (w, c) of (res, (w', c')) \<Rightarrow>
       if c_get ops (get_route_lock_key k) c \<noteq> None
       then res \<noteq> Inr (Some True) \<and> w'\<lparr>effects := effects w\<rparr> = w \<and>
         c_get ops (get_route_lock_key k) c' = c_get ops (get_route_lock_key k) c
       else c_get ops (get_route_lock_key k) c' = None \<and>
         w' = (case find (\<lambda>q. que_uuid q = k) (live_queues w) of
                 None \<Rightarrow> w | Some q \<Rightarrow> snd (route_rooms env race q w)))"

lemma every_task_respects_lock:
  assumes backend: "cache_backend ops" "0 < max_time" "0 < retry_delay"
  shows "task_respects_lock env ops max_time retry_delay race k (w, c)"
proof -
  obtain out w1 c1 where run: "start_route_queue env ops max_time retry_delay k (w, c) = (out, (w1, c1))"
    by (metis prod.collapse)
  show ?thesis
    using start_route_queue_cases [OF backend run] run cache_backend.get_delete [OF backend(1)]
    by (auto simp: task_respects_lock_def route_queue_rooms_def leave_lock_eq)
qed

section \<open>Properties\<close>


definition idle_state :: "mem_cache lock_state" where
  "idle_state = \<lparr>lk_world = routing_world, lk_cache = mem_empty, lk_phase = (\<lambda>_. Idle)\<rparr>"

definition locked :: "mem_cache \<Rightarrow> mem_cache" where
  "locked c = snd (c_add mem_ops (get_route_lock_key ''q'') (JBool True) 60 c)"

definition unlocked :: "mem_cache \<Rightarrow> mem_cache" where
  "unlocked c = snd (c_delete mem_ops (get_route_lock_key ''q'') c)"

definition first_routing :: "mem_cache lock_state" where
  "first_routing = idle_state\<lparr>lk_cache := locked mem_empty, lk_phase := (lk_phase idle_state)(0 := Routing blank_queue)\<rparr>"

lemma sample_queue_found:
  "find (\<lambda>q. que_uuid q = ''q'') (live_queues routing_world) = Some blank_queue"
  by (simp add: routing_world_def sample_defs)

lemma start_step:
  assumes "lk_phase s i = Idle" and "lk_world s = routing_world"
    and "c_get mem_ops (get_route_lock_key ''q'') (lk_cache s) = None"
  shows "worker_step calm_env mem_ops 60 5 ''q'' timely s
    (s\<lparr>lk_cache := locked (lk_cache s), lk_phase := (lk_phase s)(i := Routing blank_queue)\<rparr>)"
proof -
  have "fst (c_add mem_ops (get_route_lock_key ''q'') (JBool True) 60 (lk_cache s))"
    using assms(3) by (simp add: mem.add_result)
  then have "start_route_queue calm_env mem_ops 60 5 ''q'' (lk_world s, lk_cache s) =
      (Started blank_queue, (routing_world, locked (lk_cache s)))"
    using assms(2) sample_queue_found
    by (auto simp: start_route_queue_def enter_lock_def locked_def split: prod.splits)
  moreover have "s\<lparr>lk_world := routing_world, lk_cache := c, lk_phase := p\<rparr> = s\<lparr>lk_cache := c, lk_phase := p\<rparr>" for c p
    using assms(2) by (cases s) simp
  ultimately show ?thesis using worker_step.start [OF assms(1), of calm_env mem_ops 60 5 "''q''"] by fastforce
qed

lemma first_routing_step: "worker_step calm_env mem_ops 60 5 ''q'' timely idle_state first_routing"
  using start_step [of idle_state 0]
  by (simp add: first_routing_def idle_state_def mem_defs mem_empty_def)


text \<open>When a run outlives its lock, two workers route the same queue, and the \<open>finally\<close> of the
  late one deletes the lock of the other, so that a third one starts as well.\<close>

theorem late_finish_releases_foreign_lock:
  "\<exists>s. (worker_step calm_env mem_ops 60 5 ''q'' False)\<^sup>*\<^sup>* idle_state s \<and>
     lk_phase s 1 = Routing blank_queue \<and> lk_phase s 2 = Routing blank_queue"
proof -
  let ?step = "worker_step calm_env mem_ops 60 5 ''q'' False"
  define s2 where "s2 = first_routing\<lparr>lk_cache := c_elapse mem_ops 61 (lk_cache first_routing)\<rparr>"
  define s3 where "s3 = s2\<lparr>lk_cache := locked (lk_cache s2), lk_phase := (lk_phase s2)(1 := Routing blank_queue)\<rparr>"
  define s4 where "s4 = s3\<lparr>lk_world := snd (route_rooms calm_env no_race blank_queue (lk_world s3)),
     lk_cache := unlocked (lk_cache s3), lk_phase := (lk_phase s3)(0 := Idle)\<rparr>"
  define s5 where "s5 = s4\<lparr>lk_world := routing_world\<rparr>"
  define s6 where "s6 = s5\<lparr>lk_cache := locked (lk_cache s5), lk_phase := (lk_phase s5)(2 := Routing blank_queue)\<rparr>"
  note defs = s6_def s5_def s4_def s3_def s2_def first_routing_def idle_state_def
  have free: "c_get mem_ops (get_route_lock_key ''q'') (unlocked c) = None" for c
    by (simp add: unlocked_def)
  have "?step idle_state first_routing" by (rule first_routing_step)
  moreover have "?step first_routing s2"
    unfolding s2_def by (rule worker_step.late) simp_all
  moreover have "?step s2 s3"
    unfolding s3_def by (rule start_step) (simp_all add: defs locked_def mem_defs mem_empty_def)
  moreover have "?step s3 s4"
    unfolding s4_def by (rule worker_step.finish [where q = blank_queue and race = no_race])
      (simp_all add: defs leave_lock_eq unlocked_def)
  moreover have "?step s4 s5"
    using worker_step.others [of mem_ops "''q''" "lk_cache s4" s4 calm_env 60 5 False routing_world]
    by (simp add: s5_def)
  moreover have "?step s5 s6"
    unfolding s6_def by (rule start_step) (simp_all add: defs free)
  ultimately have "?step\<^sup>*\<^sup>* idle_state s6" by (meson converse_rtranclp_into_rtranclp rtranclp.rtrancl_refl)
  moreover have "lk_phase s6 1 = Routing blank_queue" "lk_phase s6 2 = Routing blank_queue"
    by (simp_all add: defs)
  ultimately show ?thesis by blast
qed

text \<open>The tasks of a queue and of its sector take different locks: while a sector run holds its
  lock, a queue task of that sector still starts routing.\<close>

theorem queue_run_ignores_sector_lock:
  assumes backend: "cache_backend ops" and "0 < max_time"
    and "find (\<lambda>q. que_uuid q = k) (live_queues w) = Some q" and "que_sector q = sec" and "sec \<noteq> k"
    and "c_get ops (get_route_lock_key sec) c \<noteq> None"
    and "c_get ops (get_route_lock_key k) c = None"
    and "route_queue_rooms env ops max_time retry_delay race k (w, c) = (res, (w', c'))"
  shows "w' = snd (route_rooms env race q w) \<and> c_get ops (get_route_lock_key sec) c' \<noteq> None"
proof -
  have ne: "get_route_lock_key sec \<noteq> get_route_lock_key k"
    using assms(5) by (simp add: get_route_lock_key_def)
  obtain c1 where add: "c_add ops (get_route_lock_key k) (JBool True) max_time c = (True, c1)"
    using cache_backend.add_result [OF backend, of "get_route_lock_key k" "JBool True" max_time c] assms(7)
    by (cases "c_add ops (get_route_lock_key k) (JBool True) max_time c") simp
  have "c_get ops (get_route_lock_key sec) c1 = c_get ops (get_route_lock_key sec) c"
    using cache_backend.get_add [OF backend assms(2), of "get_route_lock_key sec" "get_route_lock_key k"
        "JBool True" c] add ne by simp
  then show ?thesis
    using assms(3,6,8) add ne
      cache_backend.get_delete [OF backend, of "get_route_lock_key sec" "get_route_lock_key k" c1]
    by (auto simp: route_queue_rooms_def start_route_queue_def enter_lock_def leave_lock_eq)
qed

definition sector_locked :: mem_cache where
  "sector_locked = mem_set (get_route_lock_key ''s'') (JBool True) (Some 60) mem_empty"

theorem queue_run_ignores_sector_lock_witness:
  "fst (snd (route_queue_rooms calm_env mem_ops 60 5 no_race ''q'' (routing_world, sector_locked))) =
     snd (route_rooms calm_env no_race blank_queue routing_world)"
proof -
  have f: "find (\<lambda>q. que_uuid q = ''q'') (live_queues routing_world) = Some blank_queue"
    by (simp add: routing_world_def sample_defs)
  obtain res w' c' where run: "route_queue_rooms calm_env mem_ops 60 5 no_race ''q''
      (routing_world, sector_locked) = (res, (w', c'))" by (metis prod.collapse)
  have "que_sector blank_queue = ''s''" by (simp add: blank_queue_def)
  moreover have "c_get mem_ops (get_route_lock_key ''s'') sector_locked \<noteq> None"
    "c_get mem_ops (get_route_lock_key ''q'') sector_locked = None"
    by (simp_all add: mem_ops_def mem_get_def mem_set_def mem_empty_def sector_locked_def
        get_route_lock_key_def)
  ultimately show ?thesis
    using queue_run_ignores_sector_lock [OF mem.cache_backend_axioms _ f _ _ _ _ run] run by simp
qed

end
