(* ===== verification/Room_Metrics_Calc.thy ===== *)
theory Room_Metrics_Calc
  imports Queue_Routing
begin

text \<open>
  Response-time metrics: \<open>chats/apps/dashboard/utils.py\<close> and the tasks \<open>generate_metrics\<close>,
  \<open>close_metrics\<close> and \<open>calculate_first_response_time_task\<close> of \<open>chats/apps/dashboard/tasks.py\<close>.

  Averages are computed in the code with floating-point seconds and truncated to an integer; the
  model divides the exact sum of microseconds.
\<close>

section \<open>Response times\<close>

text \<open>The loop over the messages: last time stamp, whether the agent spoke last, sum, count.\<close>

fun response_loop :: "message list \<Rightarrow> timestamp \<Rightarrow> bool \<Rightarrow> int \<Rightarrow> nat \<Rightarrow> int \<times> nat" where
  "response_loop [] last_time from_agent ttl n = (ttl, n)"
| "response_loop (m # ms) last_time from_agent ttl n =
     (if msg_contact m \<noteq> None then response_loop ms (msg_created_on m) False ttl n
      else if msg_user m \<noteq> None
      then (if from_agent then response_loop ms last_time from_agent ttl n
            else response_loop ms last_time True (ttl + (msg_created_on m - last_time)) (Suc n))
      else response_loop ms last_time from_agent ttl n)"

definition talk_messages :: "world \<Rightarrow> room \<Rightarrow> message list" where
  "talk_messages w r = sort_key msg_created_on (filter (\<lambda>m. msg_room m = rm_uuid r
     \<and> (msg_user m \<noteq> None \<or> msg_contact m \<noteq> None) \<and> rm_created_on r \<le> msg_created_on m) (messages w))"

definition calculate_response_time :: "world \<Rightarrow> room \<Rightarrow> int" where
  "calculate_response_time w r =
     (let ms = talk_messages w r
      in if ms = [] then 0
         else (case response_loop ms (rm_created_on r) False 0 0 of (ttl, n) \<Rightarrow>
           if n = 0 then 0 else trunc_seconds (ttl div int n)))"

definition calculate_waiting_until :: "env \<Rightarrow> room \<Rightarrow> timestamp option \<Rightarrow> int" where
  "calculate_waiting_until env r end_time = (case rm_added_to_queue_at r of None \<Rightarrow> 0
     | Some t \<Rightarrow> trunc_seconds ((case end_time of Some e \<Rightarrow> e | None \<Rightarrow> env_now env) - t))"

definition calculate_first_response_time :: "world \<Rightarrow> room \<Rightarrow> int" where
  "calculate_first_response_time w r = (case rm_first_user_assigned_at r of None \<Rightarrow> 0
     | Some t \<Rightarrow>
        (case sort_key msg_created_on (filter (\<lambda>m. msg_room m = rm_uuid r \<and> msg_user m \<noteq> None
                \<and> t \<le> msg_created_on m \<and> msg_automatic m = None) (messages w)) of
           [] \<Rightarrow> 0
         | m # _ \<Rightarrow> trunc_seconds (msg_created_on m - t)))"

section \<open>Tasks\<close>

definition generate_metrics :: "env \<Rightarrow> uuid \<Rightarrow> (world, unit) py" where
  "generate_metrics env k =
     bnd (need (DoesNotExist ''Room'') (\<lambda>w. find_room w k)) (\<lambda>r.
     bnd (gets (\<lambda>w. calculate_response_time w r)) (\<lambda>response.
     update_metrics k (\<lambda>m. m\<lparr>met_message_response_time := response,
       met_interaction_time :=
         (case (rm_is_active r, rm_first_user_assigned_at r, rm_ended_at r) of
            (False, Some first, Some ended) \<Rightarrow> trunc_seconds (ended - first)
          | _ \<Rightarrow> 0),
       met_waiting_time := met_waiting_time m
         + (if rm_user r = None then calculate_waiting_until env r (rm_ended_at r) else 0)\<rparr>)))"

definition calculate_first_response_time_task :: "env \<Rightarrow> uuid \<Rightarrow> (world, unit) py" where
  "calculate_first_response_time_task env k = try_except
     (bnd (need (DoesNotExist ''Room'') (\<lambda>w. find_room w k)) (\<lambda>r.
      bnd (gets (\<lambda>w. calculate_first_response_time w r)) (\<lambda>t.
      update_metrics k (\<lambda>m. if met_first_response_time m = None
                            then m\<lparr>met_first_response_time := Some t\<rparr> else m))))
     (\<lambda>_. ret ())"

section \<open>The loop against a reference\<close>

text \<open>
  The reference: the messages of contacts and agents in order, each paired with the one before it;
  an agent answers when the message before it is not an agent's, and the answer is measured from that
  message, or from the creation of the room when there is none.
\<close>

definition by_contact :: "message \<Rightarrow> bool" where
  "by_contact m \<longleftrightarrow> msg_contact m \<noteq> None"

fun answers :: "(timestamp \<times> bool) \<Rightarrow> message list \<Rightarrow> int list" where
  "answers (t, agent) [] = []"
| "answers (t, agent) (m # ms) =
     (if \<not> by_contact m \<and> \<not> agent then [msg_created_on m - t] else [])
     @ answers (msg_created_on m, \<not> by_contact m) ms"

lemma response_loop_answers:
  assumes "list_all (\<lambda>m. msg_user m \<noteq> None \<or> msg_contact m \<noteq> None) ms"
    and "\<not> agent \<Longrightarrow> t' = t"
  shows "response_loop ms t agent ttl n =
     (ttl + sum_list (answers (t', agent) ms), n + length (answers (t', agent) ms))"
  using assms
proof (induction ms arbitrary: t t' agent ttl n)
  case (Cons m ms)
  show ?case
  proof (cases "by_contact m")
    case True
    then show ?thesis
      using Cons.prems Cons.IH [of False "msg_created_on m" "msg_created_on m"]
      by (simp add: by_contact_def)
  next
    case False
    show ?thesis
    proof (cases agent)
      case True
      with False Cons.prems show ?thesis
        using Cons.IH [of True "msg_created_on m" t] by (simp add: by_contact_def)
    next
      case not_agent: False
      with False Cons.prems show ?thesis
        using Cons.IH [of True "msg_created_on m" t "ttl + (msg_created_on m - t)" "Suc n"]
        by (simp add: by_contact_def)
    qed
  qed
qed simp

lemma talk_messages_sided:
  "list_all (\<lambda>m. msg_user m \<noteq> None \<or> msg_contact m \<noteq> None) (talk_messages w r)"
  by (auto simp: talk_messages_def list_all_iff)

lemma answers_nonneg:
  "sorted (map msg_created_on ms) \<Longrightarrow> (\<And>m. m \<in> set ms \<Longrightarrow> t \<le> msg_created_on m) \<Longrightarrow>
   x \<in> set (answers (t, agent) ms) \<Longrightarrow> 0 \<le> x"
proof (induction ms arbitrary: t agent)
  case (Cons m ms)
  have "\<And>x. x \<in> set ms \<Longrightarrow> msg_created_on m \<le> msg_created_on x" using Cons.prems(1) by auto
  with Cons show ?case by (auto split: if_splits)
qed simp

section \<open>Properties\<close>

text \<open>The response time of a room is the mean, in whole seconds, of the waits that ended with the
  first agent message after a message of the contact (or after the creation of the room), and 0
  without any; it is never negative.\<close>

theorem response_time_is_mean_of_answers:
  "calculate_response_time w r =
     (let xs = answers (rm_created_on r, False) (talk_messages w r)
      in if xs = [] then 0 else trunc_seconds (sum_list xs div int (length xs))) \<and>
   0 \<le> calculate_response_time w r"
proof -
  let ?ms = "talk_messages w r" and ?xs = "answers (rm_created_on r, False) (talk_messages w r)"
  have loop: "response_loop ?ms (rm_created_on r) False 0 0 = (sum_list ?xs, length ?xs)"
    using response_loop_answers [OF talk_messages_sided, of False "rm_created_on r" "rm_created_on r"]
    by simp
  have eq: "calculate_response_time w r =
      (if ?xs = [] then 0 else trunc_seconds (sum_list ?xs div int (length ?xs)))"
    by (cases "?ms = []") (simp_all add: calculate_response_time_def loop Let_def)
  have "sorted (map msg_created_on ?ms)" by (simp add: talk_messages_def)
  moreover have "rm_created_on r \<le> msg_created_on m" if "m \<in> set ?ms" for m
    using that by (simp add: talk_messages_def)
  ultimately have "0 \<le> sum_list ?xs"
    by (intro sum_list_nonneg) (blast dest: answers_nonneg)
  then have "0 \<le> calculate_response_time w r"
    by (simp add: eq trunc_seconds_def pos_imp_zdiv_nonneg_iff)
  with eq show ?thesis by (simp add: Let_def)
qed

definition metrics_of :: "world \<Rightarrow> uuid \<Rightarrow> room_metrics" where
  "metrics_of w k = (case find (\<lambda>m. met_room m = k) (metrics w) of
     Some m \<Rightarrow> m | None \<Rightarrow> empty_metrics k)"

lemma update_metrics_of:
  assumes "\<And>m. met_room (f m) = met_room m"
  shows "update_metrics k f w = (Inr (), snd (update_metrics k f w))"
    and "metrics_of (snd (update_metrics k f w)) k = f (metrics_of w k)"
    and "find_room (snd (update_metrics k f w)) = find_room w"
    and "messages (snd (update_metrics k f w)) = messages w"
proof -
  show "update_metrics k f w = (Inr (), snd (update_metrics k f w))"
    by (simp add: update_metrics_def modify_def)
  show "find_room (snd (update_metrics k f w)) = find_room w"
    "messages (snd (update_metrics k f w)) = messages w"
    by (simp_all add: fun_eq_iff update_metrics_def modify_def find_room_def)
  show "metrics_of (snd (update_metrics k f w)) k = f (metrics_of w k)"
  proof (cases "list_ex (\<lambda>m. met_room m = k) (metrics w)")
    case True
    then obtain m where "find (\<lambda>m. met_room m = k) (metrics w) = Some m"
      by (cases "find (\<lambda>m. met_room m = k) (metrics w)") (auto simp: find_None_iff list_ex_iff)
    with True show ?thesis
      using assms by (simp add: update_metrics_def modify_def metrics_of_def find_key_update)
  next
    case False
    then have "find (\<lambda>m. met_room m = k) (metrics w) = None"
      by (auto simp: find_None_iff list_ex_iff)
    with False show ?thesis
      using assms by (simp add: update_metrics_def modify_def metrics_of_def find_append empty_metrics_def)
  qed
qed

lemma generate_metrics_run:
  assumes "find_room w k = Some r"
  shows "\<exists>w'. generate_metrics env k w = (Inr (), w') \<and> find_room w' = find_room w \<and>
    messages w' = messages w \<and> metrics_of w' k = (metrics_of w k)\<lparr>
       met_message_response_time := calculate_response_time w r,
       met_interaction_time :=
         (case (rm_is_active r, rm_first_user_assigned_at r, rm_ended_at r) of
            (False, Some first, Some ended) \<Rightarrow> trunc_seconds (ended - first)
          | _ \<Rightarrow> 0),
       met_waiting_time := met_waiting_time (metrics_of w k)
         + (if rm_user r = None then calculate_waiting_until env r (rm_ended_at r) else 0)\<rparr>"
proof -
  define f where "f = (\<lambda>m. m\<lparr>met_message_response_time := calculate_response_time w r,
       met_interaction_time :=
         (case (rm_is_active r, rm_first_user_assigned_at r, rm_ended_at r) of
            (False, Some first, Some ended) \<Rightarrow> trunc_seconds (ended - first)
          | _ \<Rightarrow> 0),
       met_waiting_time := met_waiting_time m
         + (if rm_user r = None then calculate_waiting_until env r (rm_ended_at r) else 0)\<rparr> :: room_metrics)"
  have "generate_metrics env k w = update_metrics k f w"
    using assms by (simp add: generate_metrics_def bnd_def need_def gets_def f_def)
  moreover have "met_room (f m) = met_room m" for m by (simp add: f_def)
  ultimately show ?thesis
    using update_metrics_of [of f k w] by (intro exI [of _ "snd (update_metrics k f w)"]) (simp add: f_def)
qed

lemma response_time_cong:
  "messages w' = messages w \<Longrightarrow> calculate_response_time w' r = calculate_response_time w r"
  by (simp add: calculate_response_time_def talk_messages_def)

text \<open>\<open>close_room\<close> runs \<open>generate_metrics\<close> in place and, with Celery, once more as a task: for a
  room with a user the second run changes nothing, but for a room that was closed in its queue the
  waiting time is counted twice.\<close>

theorem generate_metrics_twice:
  assumes "find_room w k = Some r"
  shows "\<exists>w1 w2. generate_metrics env k w = (Inr (), w1) \<and> generate_metrics env k w1 = (Inr (), w2) \<and>
    (rm_user r \<noteq> None \<longrightarrow> metrics_of w2 k = metrics_of w1 k) \<and>
    (rm_user r = None \<longrightarrow> met_waiting_time (metrics_of w2 k) = met_waiting_time (metrics_of w k)
       + 2 * calculate_waiting_until env r (rm_ended_at r))"
proof -
  obtain w1 where w1: "generate_metrics env k w = (Inr (), w1)" "find_room w1 = find_room w"
    "messages w1 = messages w" and m1: "metrics_of w1 k = (metrics_of w k)\<lparr>
       met_message_response_time := calculate_response_time w r,
       met_interaction_time :=
         (case (rm_is_active r, rm_first_user_assigned_at r, rm_ended_at r) of
            (False, Some first, Some ended) \<Rightarrow> trunc_seconds (ended - first)
          | _ \<Rightarrow> 0),
       met_waiting_time := met_waiting_time (metrics_of w k)
         + (if rm_user r = None then calculate_waiting_until env r (rm_ended_at r) else 0)\<rparr>"
    using generate_metrics_run [OF assms] by blast
  have "find_room w1 k = Some r" using w1 assms by simp
  from generate_metrics_run [OF this] obtain w2 where "generate_metrics env k w1 = (Inr (), w2)"
    and "metrics_of w2 k = (metrics_of w1 k)\<lparr>
       met_message_response_time := calculate_response_time w1 r,
       met_interaction_time :=
         (case (rm_is_active r, rm_first_user_assigned_at r, rm_ended_at r) of
            (False, Some first, Some ended) \<Rightarrow> trunc_seconds (ended - first)
          | _ \<Rightarrow> 0),
       met_waiting_time := met_waiting_time (metrics_of w1 k)
         + (if rm_user r = None then calculate_waiting_until env r (rm_ended_at r) else 0)\<rparr>"
    by blast
  with w1 m1 response_time_cong [OF w1(3)] show ?thesis
    by (intro exI [of _ w1] exI [of _ w2]) simp
qed

theorem generate_metrics_twice_witness:
  "\<exists>w1 w2. generate_metrics calm_env ''r1'' routing_world = (Inr (), w1) \<and>
     generate_metrics calm_env ''r1'' w1 = (Inr (), w2)"
  using generate_metrics_twice [of routing_world "''r1''" "blank_room\<lparr>rm_queue := Some ''q''\<rparr>" calm_env]
  by (auto simp: routing_world_def sample_defs find_room_def)

end
