(* ===== verification/Bulk_Ops.thy ===== *)
theory Bulk_Ops
  imports Route_Locks Room_Metrics_Calc
begin

text \<open>
  The bulk services of \<open>chats/apps/api/v1/rooms/services/\<close> (\<open>BulkTransferService\<close>,
  \<open>BulkCloseService\<close>, \<open>BulkTakeService\<close>) and \<open>change_ticketer_for_room\<close> of
  \<open>chats/apps/rooms/flows_ticketer_service.py\<close>.

  A service gets the keys of its rooms; a batch is read from the database as a list of instances,
  as \<open>list(Room.objects.filter(pk__in=...))\<close> does. An exception of one room becomes a failure in the
  result; \<open>attempt\<close> is that \<open>try\<close>. \<open>route_now\<close> is the routing task when Celery is off. The set of
  affected queues is walked in the order of first insertion.
\<close>

section \<open>Results\<close>

record bulk_result =
  res_success :: nat
  res_failed :: nat
  res_errors :: "string list"
  res_failed_rooms :: "uuid list"

definition empty_result :: bulk_result where
  "empty_result = \<lparr>res_success = 0, res_failed = 0, res_errors = [], res_failed_rooms = []\<rparr>"

definition add_success :: "bulk_result \<Rightarrow> bulk_result" where
  "add_success r = r\<lparr>res_success := res_success r + 1\<rparr>"

definition add_failure :: "uuid \<Rightarrow> string \<Rightarrow> bulk_result \<Rightarrow> bulk_result" where
  "add_failure k e r = r\<lparr>res_failed := res_failed r + 1, res_errors := res_errors r @ [e],
     res_failed_rooms := res_failed_rooms r @ [k]\<rparr>"

definition result_to_dict :: "bulk_result \<Rightarrow> json" where
  "result_to_dict r = JObj
     [(''success_count'', JInt (int (res_success r))),
      (''failed_count'', JInt (int (res_failed r))),
      (''total_processed'', JInt (int (res_success r + res_failed r))),
      (''errors'', JList (map JStr (take 10 (res_errors r)))),
      (''failed_rooms'', JList (map JStr (take 10 (res_failed_rooms r)))),
      (''has_more_errors'', JBool (10 < length (res_errors r)))]"

definition room_error :: "env \<Rightarrow> uuid \<Rightarrow> exn \<Rightarrow> string" where
  "room_error env k e = ''Room '' @ k @ '': '' @ exn_text env e"

definition attempt :: "('s, 'a) py \<Rightarrow> ('s, exn + 'a) py" where
  "attempt m s = (case m s of (r, s') \<Rightarrow> (Inr r, s'))"

definition swallow :: "('s, 'a) py \<Rightarrow> ('s, unit) py" where
  "swallow m = andthen (attempt m) (ret ())"

definition insert_once :: "'a \<Rightarrow> 'a list \<Rightarrow> 'a list" where
  "insert_once x xs = (if x \<in> set xs then xs else xs @ [x])"

definition insert_queue :: "uuid option \<Rightarrow> uuid list \<Rightarrow> uuid list" where
  "insert_queue q qs = (case q of None \<Rightarrow> qs | Some k \<Rightarrow> insert_once k qs)"

text \<open>\<open>list(Room.objects.filter(pk__in=ks))\<close>.\<close>

definition load_rooms :: "uuid list \<Rightarrow> (world, room_obj list) py" where
  "load_rooms ks = gets (\<lambda>w. map loaded (filter (\<lambda>r. rm_uuid r \<in> set ks) (rooms w)))"

definition queue_party :: "queue option \<Rightarrow> party" where
  "queue_party q = (case q of None \<Rightarrow> Party_None | Some x \<Rightarrow> Party_Queue (que_uuid x) (que_name x))"

definition user_party :: "email option \<Rightarrow> party" where
  "user_party u = (case u of None \<Rightarrow> Party_None | Some x \<Rightarrow> Party_User x)"

text \<open>The routing of the affected queues at the end of a batch.\<close>

definition route_affected ::
  "env \<Rightarrow> (uuid \<Rightarrow> (world, unit) py) \<Rightarrow> uuid list \<Rightarrow> (world, unit) py" where
  "route_affected env route_now = for_each (\<lambda>k. swallow
     (bnd (need (DoesNotExist ''Queue'') (\<lambda>w. find (\<lambda>q. que_uuid q = k) (live_queues w)))
        (start_queue_priority_routing env route_now)))"

section \<open>Transfer\<close>

text \<open>\<open>change_ticketer_for_room\<close>; Sentry sees a failure before it is raised again.\<close>

definition change_ticketer_for_room :: "env \<Rightarrow> room \<Rightarrow> uuid \<Rightarrow> (world, unit) py" where
  "change_ticketer_for_room env r destination =
     (if \<not> set_use_weni_flows env then ret ()
      else case rm_ticket_uuid r of None \<Rightarrow> ret ()
      | Some ticket \<Rightarrow>
        bnd (gets (\<lambda>w. (map_option sec_uuid (sector_of w r), project_of w r))) (\<lambda>(current, prj).
        if current = Some destination then ret ()
        else case prj of None \<Rightarrow> ret ()
        | Some p \<Rightarrow>
          bnd (flag_user_or_raise env ''change_ticketer_on_transfer'' (prj_uuid p)) (\<lambda>active.
          if \<not> active then ret ()
          else case ticketer_of env (prj_uuid p) destination of
            None \<Rightarrow> andthen (emit (Sentry ''ticketer_not_found''))
                      (raise (ExternalError ''FlowsTicketerNotFoundError''))
          | Some t \<Rightarrow>
              if flows_ok env ''change_ticketer'' [ticket, t]
              then emit (Flows_Call ''change_ticketer'' [ticket, t])
              else andthen (emit (Sentry ''change_ticketer''))
                     (raise (ExternalError ''FlowsChangeTicketerError'')))))"

definition history_and_feedback ::
  "env \<Rightarrow> json list \<Rightarrow> room_obj \<Rightarrow> (world, room_obj) py" where
  "history_and_feedback env feedbacks ob =
     bnd (fold_each (add_transfer_to_history env) feedbacks ob) (\<lambda>ob'.
     andthen (for_each (\<lambda>f. create_room_feedback_message env (ob_row ob') f ''rt'') feedbacks)
       (ret ob'))"

definition count_if_queued :: "env \<Rightarrow> email option \<Rightarrow> room \<Rightarrow> (world, unit) py" where
  "count_if_queued env old_user r = when_true (old_user = None)
     (update_metrics (rm_uuid r) (count_waiting env r))"

definition service_transfer_user_and_queue ::
  "env \<Rightarrow> room_obj \<Rightarrow> email \<Rightarrow> queue \<Rightarrow> email \<Rightarrow> (world, room_obj) py" where
  "service_transfer_user_and_queue env ob user q requester =
     (let old_user = rm_user (ob_row ob) in
     bnd (gets (\<lambda>w. queue_of w (ob_row ob))) (\<lambda>old_queue.
     bnd (need AttributeError (\<lambda>w. sector_of_queue w q)) (\<lambda>s.
     andthen (change_ticketer_for_room env (ob_row ob) (sec_uuid s))
     (bnd (room_save env None (set_row (\<lambda>r. r\<lparr>rm_user := Some user, rm_queue := Some (que_uuid q)\<rparr>) ob))
      (\<lambda>ob1.
     andthen (count_if_queued env old_user (ob_row ob1))
     (bnd (history_and_feedback env
        [create_transfer_json env ''transfer'' (queue_party old_queue) (queue_party (Some q))
           (Some (Party_User requester)),
         create_transfer_json env ''transfer'' (user_party old_user) (Party_User user)
           (Some (Party_User requester))] ob1) (\<lambda>ob2.
     let r = ob_row ob2 in
     andthen (sequence
       [notify_queue env r ''update'' False,
        notify_user env r ''update'' old_user,
        notify_user env r ''update'' None,
        mark_notes_as_non_deletable (rm_uuid r),
        update_ticket_async env r]) (ret ob2))))))))"

definition automatic_message_after_transfer ::
  "env \<Rightarrow> timestamp option \<Rightarrow> room \<Rightarrow> (world, unit) py" where
  "automatic_message_after_transfer env assigned_before r =
     (if assigned_before = None
      then bnd (need AttributeError (\<lambda>w. sector_of w r)) (\<lambda>s.
        when_true (sec_is_automatic_message_active s \<and> sec_automatic_message_text s \<notin> {None, Some []})
          (send_automatic_message env r))
      else ret ())"

definition service_transfer_user ::
  "env \<Rightarrow> room_obj \<Rightarrow> email \<Rightarrow> email \<Rightarrow> (world, room_obj) py" where
  "service_transfer_user env ob user requester =
     (let old_user = rm_user (ob_row ob);
          transfer_user = (case old_user of Some u \<Rightarrow> u | None \<Rightarrow> requester);
          feedback = create_transfer_json env ''transfer'' (user_party old_user)
             (Party_User transfer_user) (Some (Party_User requester)) in
     bnd (room_save env None (set_row (\<lambda>r. r\<lparr>rm_user := Some user\<rparr>) ob)) (\<lambda>ob1.
     andthen (count_if_queued env old_user (ob_row ob1))
     (bnd (history_and_feedback env [feedback] ob1) (\<lambda>ob2.
     let r = ob_row ob2 in
     andthen (sequence
       [notify_user env r ''update'' (Some transfer_user),
        notify_user env r ''update'' None,
        notify_queue env r ''update'' False,
        update_ticket env r,
        mark_notes_as_non_deletable (rm_uuid r),
        automatic_message_after_transfer env (rm_user_assigned_at (ob_row ob)) r]) (ret ob2)))))"

definition service_transfer_queue ::
  "env \<Rightarrow> room_obj \<Rightarrow> queue \<Rightarrow> email \<Rightarrow> (world, room_obj) py" where
  "service_transfer_queue env ob q requester =
     (let transfer_user = (case rm_user (ob_row ob) of Some u \<Rightarrow> u | None \<Rightarrow> requester) in
     bnd (need AttributeError (\<lambda>w. sector_of_queue w q)) (\<lambda>s.
     andthen (change_ticketer_for_room env (ob_row ob) (sec_uuid s))
     (bnd (room_save env None (set_row (\<lambda>r. r\<lparr>rm_user := None, rm_queue := Some (que_uuid q)\<rparr>) ob))
      (\<lambda>ob1.
     bnd (history_and_feedback env
        [create_transfer_json env ''transfer'' (Party_User transfer_user) (queue_party (Some q))
           (Some (Party_User requester))] ob1) (\<lambda>ob2.
     let r = ob_row ob2 in
     andthen (sequence
       [notify_user env r ''update'' (Some transfer_user),
        notify_queue env r ''update'' False,
        mark_notes_as_non_deletable (rm_uuid r)]) (ret ob2))))))"

definition transfer_room ::
  "env \<Rightarrow> room_obj \<Rightarrow> email option \<Rightarrow> queue option \<Rightarrow> email \<Rightarrow> (world, room_obj) py" where
  "transfer_room env ob user q requester = (case (user, q) of
     (Some u, Some x) \<Rightarrow> service_transfer_user_and_queue env ob u x requester
   | (Some u, None) \<Rightarrow> service_transfer_user env ob u requester
   | (None, Some x) \<Rightarrow> service_transfer_queue env ob x requester
   | (None, None) \<Rightarrow> ret ob)"

definition transfer_one ::
  "env \<Rightarrow> email option \<Rightarrow> queue option \<Rightarrow> email \<Rightarrow> room_obj \<Rightarrow> bulk_result \<times> uuid list \<Rightarrow>
   (world, bulk_result \<times> uuid list) py" where
  "transfer_one env user q requester ob acc = (case acc of (res, affected) \<Rightarrow>
     bnd (attempt (atomic (transfer_room env ob user q requester))) (\<lambda>out. ret (case out of
       Inr ob' \<Rightarrow> (add_success res,
          insert_queue (rm_queue (ob_row ob')) (insert_queue (rm_queue (ob_row ob)) affected))
     | Inl e \<Rightarrow> (add_failure (room_pk ob) (room_error env (room_pk ob) e) res, affected))))"

definition transfer_process_batch ::
  "env \<Rightarrow> (uuid \<Rightarrow> (world, unit) py) \<Rightarrow> email option \<Rightarrow> queue option \<Rightarrow> email \<Rightarrow> room_obj list \<Rightarrow>
   bulk_result \<Rightarrow> (world, bulk_result) py" where
  "transfer_process_batch env route_now user q requester batch res =
     bnd (fold_each (transfer_one env user q requester) batch (res, [])) (\<lambda>(res', affected).
     andthen (route_affected env route_now affected) (ret res'))"

text \<open>\<open>_get_rooms_projects\<close>: the projects of the rooms, \<open>None\<close> for a room without one.\<close>

definition get_rooms_projects :: "world \<Rightarrow> uuid list \<Rightarrow> uuid option list" where
  "get_rooms_projects w ks = remdups (map (\<lambda>r. map_option sec_project (sector_of w r))
     (filter (\<lambda>r. rm_uuid r \<in> set ks) (rooms w)))"

definition validate_queue :: "world \<Rightarrow> uuid list \<Rightarrow> queue option \<Rightarrow> exn + string option" where
  "validate_queue w ks q = (case q of None \<Rightarrow> Inr None
     | Some x \<Rightarrow> (case project_of_queue w x of None \<Rightarrow> Inl AttributeError
       | Some p \<Rightarrow> Inr (if list_ex (\<lambda>k. k \<noteq> Some (prj_uuid p)) (get_rooms_projects w ks)
            then Some ''Cannot transfer rooms from a project to another'' else None)))"

definition validate_user :: "world \<Rightarrow> uuid list \<Rightarrow> email option \<Rightarrow> exn + string option" where
  "validate_user w ks user = Inr (case user of None \<Rightarrow> None
     | Some u \<Rightarrow> (case find (\<lambda>k. k \<notin> (Some \<circ> prm_project) `
            set (filter (\<lambda>m. prm_user m = Some u) (live_permissions w))) (get_rooms_projects w ks) of
          None \<Rightarrow> None
        | Some k \<Rightarrow> Some (''User '' @ u @ '' has no permission on the project '' @
            (case k of None \<Rightarrow> ''None'' | Some x \<Rightarrow> x))))"

definition check_validations ::
  "world \<Rightarrow> uuid list \<Rightarrow> email option \<Rightarrow> queue option \<Rightarrow> exn + string option" where
  "check_validations w ks user q = (case validate_queue w ks q of
     Inl e \<Rightarrow> Inl e | Inr (Some m) \<Rightarrow> Inr (Some m) | Inr None \<Rightarrow> validate_user w ks user)"

definition bulk_transfer ::
  "env \<Rightarrow> (uuid \<Rightarrow> (world, unit) py) \<Rightarrow> uuid list \<Rightarrow> email \<Rightarrow> email option \<Rightarrow> queue option \<Rightarrow>
   (world, bulk_result) py" where
  "bulk_transfer env route_now ks requester user q =
     bnd (\<lambda>w. (check_validations w ks user q, w)) (\<lambda>verdict.
     case verdict of
       Some m \<Rightarrow> ret (fold (\<lambda>k. add_failure k m) ks empty_result)
     | None \<Rightarrow> fold_each (\<lambda>ks' res.
         bnd (load_rooms ks') (\<lambda>batch.
         transfer_process_batch env route_now user q requester batch res))
         (batches (set_batch_size env) ks) empty_result)"

text \<open>
  The older entry points of \<open>BulkTransferService\<close>: no transaction, no result, routing for every room.
\<close>

definition start_routing_of ::
  "env \<Rightarrow> (uuid \<Rightarrow> (world, unit) py) \<Rightarrow> queue option \<Rightarrow> (world, unit) py" where
  "start_routing_of env route_now q = (case q of None \<Rightarrow> raise AttributeError
     | Some x \<Rightarrow> start_queue_priority_routing env route_now x)"

definition transfer_user_and_queue_one ::
  "env \<Rightarrow> (uuid \<Rightarrow> (world, unit) py) \<Rightarrow> email \<Rightarrow> queue \<Rightarrow> email \<Rightarrow> room_obj \<Rightarrow> (world, unit) py" where
  "transfer_user_and_queue_one env route_now user q requester ob =
     (let old_user = rm_user (ob_row ob) in
     bnd (gets (\<lambda>w. queue_of w (ob_row ob))) (\<lambda>old_queue.
     bnd (room_save env None (set_row (\<lambda>r. r\<lparr>rm_user := Some user, rm_queue := Some (que_uuid q)\<rparr>) ob))
      (\<lambda>ob1.
     andthen (count_if_queued env old_user (ob_row ob1))
     (bnd (history_and_feedback env
        [create_transfer_json env ''transfer'' (queue_party old_queue) (queue_party (Some q))
           (Some (Party_User requester)),
         create_transfer_json env ''transfer'' (user_party old_user) (Party_User user)
           (Some (Party_User requester))] ob1) (\<lambda>ob2.
     let r = ob_row ob2 in
     sequence
       [notify_queue env r ''update'' False,
        notify_user env r ''update'' old_user,
        notify_user env r ''update'' None,
        start_queue_priority_routing env route_now q,
        start_routing_of env route_now old_queue,
        mark_notes_as_non_deletable (rm_uuid r),
        update_ticket_async env r])))))"

definition transfer_user_one ::
  "env \<Rightarrow> (uuid \<Rightarrow> (world, unit) py) \<Rightarrow> email \<Rightarrow> email \<Rightarrow> room_obj \<Rightarrow> (world, unit) py" where
  "transfer_user_one env route_now user requester ob =
     (let old_user = rm_user (ob_row ob);
          transfer_user = (case old_user of Some u \<Rightarrow> u | None \<Rightarrow> requester);
          feedback = create_transfer_json env ''transfer'' (user_party old_user)
             (Party_User transfer_user) (Some (Party_User requester)) in
     bnd (room_save env None (set_row (\<lambda>r. r\<lparr>rm_user := Some user\<rparr>) ob)) (\<lambda>ob1.
     andthen (count_if_queued env old_user (ob_row ob1))
     (bnd (gets (\<lambda>w. queue_of w (ob_row ob1))) (\<lambda>current.
     andthen (start_routing_of env route_now current)
     (bnd (history_and_feedback env [feedback] ob1) (\<lambda>ob2.
     let r = ob_row ob2 in
     sequence
       [notify_user env r ''update'' (Some transfer_user),
        notify_user env r ''update'' None,
        notify_queue env r ''update'' False,
        update_ticket env r,
        mark_notes_as_non_deletable (rm_uuid r),
        automatic_message_after_transfer env (rm_user_assigned_at (ob_row ob)) r]))))))"

definition transfer_queue_one ::
  "env \<Rightarrow> (uuid \<Rightarrow> (world, unit) py) \<Rightarrow> queue \<Rightarrow> email \<Rightarrow> room_obj \<Rightarrow> (world, unit) py" where
  "transfer_queue_one env route_now q requester ob =
     (let transfer_user = (case rm_user (ob_row ob) of Some u \<Rightarrow> u | None \<Rightarrow> requester) in
     bnd (gets (\<lambda>w. queue_of w (ob_row ob))) (\<lambda>old_queue.
     bnd (room_save env None (set_row (\<lambda>r. r\<lparr>rm_user := None, rm_queue := Some (que_uuid q)\<rparr>) ob))
      (\<lambda>ob1.
     bnd (history_and_feedback env
        [create_transfer_json env ''transfer'' (Party_User transfer_user) (queue_party (Some q))
           (Some (Party_User requester))] ob1) (\<lambda>ob2.
     let r = ob_row ob2 in
     sequence
       [notify_user env r ''update'' (Some transfer_user),
        notify_queue env r ''update'' False,
        start_queue_priority_routing env route_now q,
        start_routing_of env route_now old_queue,
        mark_notes_as_non_deletable (rm_uuid r)]))))"

definition for_rooms :: "uuid list \<Rightarrow> (room_obj \<Rightarrow> (world, unit) py) \<Rightarrow> (world, unit) py" where
  "for_rooms ks f = bnd (load_rooms ks) (for_each f)"

definition transfer_user_and_queue ::
  "env \<Rightarrow> (uuid \<Rightarrow> (world, unit) py) \<Rightarrow> uuid list \<Rightarrow> email \<Rightarrow> queue \<Rightarrow> email \<Rightarrow> (world, unit) py" where
  "transfer_user_and_queue env route_now ks user q requester =
     for_rooms ks (transfer_user_and_queue_one env route_now user q requester)"

definition transfer_user ::
  "env \<Rightarrow> (uuid \<Rightarrow> (world, unit) py) \<Rightarrow> uuid list \<Rightarrow> email \<Rightarrow> email \<Rightarrow> (world, unit) py" where
  "transfer_user env route_now ks user requester =
     for_rooms ks (transfer_user_one env route_now user requester)"

definition transfer_queue ::
  "env \<Rightarrow> (uuid \<Rightarrow> (world, unit) py) \<Rightarrow> uuid list \<Rightarrow> queue \<Rightarrow> email \<Rightarrow> (world, unit) py" where
  "transfer_queue env route_now ks q requester =
     for_rooms ks (transfer_queue_one env route_now q requester)"

section \<open>Close\<close>

definition post_close :: "env \<Rightarrow> uuid \<Rightarrow> (world, unit) py" where
  "post_close env k = bnd (load_room k) (\<lambda>ob. let r = ob_row ob in sequence
     [swallow (notify_queue env r ''close'' True),
      (case rm_user r of None \<Rightarrow> ret () | Some _ \<Rightarrow> swallow (notify_user env r ''close'' None)),
      swallow (close_room env (generate_metrics env) k)])"

definition close_one ::
  "env \<Rightarrow> (uuid \<Rightarrow> uuid list option) \<Rightarrow> string \<Rightarrow> email option \<Rightarrow> room_obj \<Rightarrow>
   bulk_result \<times> uuid list \<Rightarrow> (world, bulk_result \<times> uuid list) py" where
  "close_one env tags_map end_by closed_by ob acc = (case acc of (res, affected) \<Rightarrow>
     bnd (attempt (room_close env (Some (case tags_map (room_pk ob) of Some ts \<Rightarrow> ts | None \<Rightarrow> []))
            end_by closed_by ob)) (\<lambda>out.
     case out of
       Inr ob' \<Rightarrow> andthen (post_close env (room_pk ob))
         (ret (add_success res, insert_queue (rm_queue (ob_row ob')) affected))
     | Inl e \<Rightarrow> ret (add_failure (room_pk ob) (room_error env (room_pk ob) e) res, affected)))"

definition bulk_close ::
  "env \<Rightarrow> (uuid \<Rightarrow> (world, unit) py) \<Rightarrow> uuid list \<Rightarrow> (uuid \<Rightarrow> uuid list option) \<Rightarrow> string \<Rightarrow>
   email option \<Rightarrow> (world, bulk_result) py" where
  "bulk_close env route_now ks tags_map end_by closed_by =
     bnd (load_rooms ks) (\<lambda>obs.
     fold_each (\<lambda>batch res.
       bnd (fold_each (close_one env tags_map end_by closed_by) batch (res, [])) (\<lambda>(res', affected).
       andthen (route_affected env route_now affected) (ret res')))
       (batches (set_batch_size env) obs) empty_result)"

section \<open>Take\<close>

definition post_take :: "env \<Rightarrow> room \<Rightarrow> (world, unit) py" where
  "post_take env r = sequence
     [swallow (notify_queue env r ''update'' False),
      swallow (send_automatic_message env r),
      swallow (update_metrics (rm_uuid r) (count_waiting env r)),
      swallow (update_ticket_async env r)]"

definition take_room :: "env \<Rightarrow> email \<Rightarrow> room_obj \<Rightarrow> (world, room_obj) py" where
  "take_room env user ob =
     bnd (gets (\<lambda>w. create_transfer_json env ''pick'' (queue_party (queue_of w (ob_row ob)))
            (Party_User user) (Some (Party_User user)))) (\<lambda>feedback.
     bnd (room_save env None (set_row (\<lambda>r. r\<lparr>rm_user := Some user\<rparr>) ob)) (\<lambda>ob1.
     history_and_feedback env [feedback] ob1))"

definition take_one ::
  "env \<Rightarrow> email \<Rightarrow> room_obj \<Rightarrow> bulk_result \<times> uuid list \<Rightarrow> (world, bulk_result \<times> uuid list) py" where
  "take_one env user ob acc = (case acc of (res, affected) \<Rightarrow>
     case rm_user (ob_row ob) of
       Some u \<Rightarrow> ret (add_failure (room_pk ob)
          (''Room '' @ room_pk ob @ '': already assigned to '' @ u) res, affected)
     | None \<Rightarrow> bnd (attempt (take_room env user ob)) (\<lambda>out.
         case out of
           Inr ob' \<Rightarrow> andthen (post_take env (ob_row ob'))
             (ret (add_success res, insert_queue (rm_queue (ob_row ob')) affected))
         | Inl e \<Rightarrow> ret (add_failure (room_pk ob) (room_error env (room_pk ob) e) res, affected)))"

definition bulk_take ::
  "env \<Rightarrow> (uuid \<Rightarrow> (world, unit) py) \<Rightarrow> uuid list \<Rightarrow> email \<Rightarrow> (world, bulk_result) py" where
  "bulk_take env route_now ks user = fold_each (\<lambda>ks' res.
     bnd (load_rooms ks') (\<lambda>batch.
     bnd (fold_each (take_one env user) batch (res, [])) (\<lambda>(res', affected).
     andthen (route_affected env route_now affected) (ret res'))))
     (batches (set_batch_size env) ks) empty_result"

section \<open>Statements that return the instance they were given\<close>

definition returns :: "('a \<Rightarrow> bool) \<Rightarrow> ('s, 'a) py \<Rightarrow> bool" where
  "returns P m \<longleftrightarrow> (\<forall>s x t. m s = (Inr x, t) \<longrightarrow> P x)"

lemma returnsD: "returns P m \<Longrightarrow> m s = (Inr x, t) \<Longrightarrow> P x"
  by (auto simp: returns_def)

lemma returns_ret: "P x \<Longrightarrow> returns P (ret x)"
  by (simp add: returns_def ret_def)

lemma returns_raise: "returns P (raise e)"
  by (simp add: returns_def raise_def)

lemma returns_bnd: "(\<And>x. returns P (f x)) \<Longrightarrow> returns P (bnd m f)"
  unfolding returns_def bnd_def by (auto split: prod.splits sum.splits)

lemma returns_bnd2: "returns Q m \<Longrightarrow> (\<And>x. Q x \<Longrightarrow> returns P (f x)) \<Longrightarrow> returns P (bnd m f)"
  unfolding returns_def bnd_def by (auto split: prod.splits sum.splits) blast

lemma returns_andthen: "returns P k \<Longrightarrow> returns P (andthen m k)"
  unfolding andthen_def by (rule returns_bnd)

lemma returns_if: "returns P m \<Longrightarrow> returns P k \<Longrightarrow> returns P (if b then m else k)"
  by simp

lemmas returns_rules = returns_ret returns_raise returns_andthen returns_if

lemma room_pk_saved: "room_pk (saved_obj cols (stamped env ob) ob) = room_pk ob"
  by (simp add: saved_obj_def) (simp add: room_pk_def stamped_def)

lemma returns_room_save: "returns (\<lambda>ob'. room_pk ob' = room_pk ob) (room_save env cols ob)"
  unfolding room_save_def by (intro returns_bnd returns_rules) (rule room_pk_saved)

lemma room_pk_set_row [simp]: "(\<And>r. rm_uuid (f r) = rm_uuid r) \<Longrightarrow> room_pk (set_row f ob) = room_pk ob"
  by (simp add: set_row_def room_pk_def)

lemma returns_save_set:
  assumes "room_pk ob = k" and "\<And>r. rm_uuid (f r) = rm_uuid r"
  shows "returns (\<lambda>ob'. room_pk ob' = k) (room_save env cols (set_row f ob))"
  using returns_room_save [of "set_row f ob" env cols] assms by simp

lemma returns_history: "room_pk ob = k \<Longrightarrow> returns (\<lambda>ob'. room_pk ob' = k) (add_transfer_to_history env x ob)"
  unfolding add_transfer_to_history_def by (rule returns_save_set) simp_all

lemma returns_history_all:
  "room_pk ob = k \<Longrightarrow> returns (\<lambda>ob'. room_pk ob' = k) (fold_each (add_transfer_to_history env) xs ob)"
  by (induction xs arbitrary: ob) (auto intro: returns_ret returns_bnd2 [OF returns_history])

context step_order
begin

lemma keeps_bnd_returns:
  assumes "keeps R m" and "returns P m" and "\<And>x. P x \<Longrightarrow> keeps R (f x)"
  shows "keeps R (bnd m f)"
proof (rule keepsI)
  fix s
  obtain r t where m: "m s = (r, t)" by fastforce
  with assms(1) have st: "R s t" by (rule keepsD)
  show "R s (snd (bnd m f s))"
  proof (cases r)
    case (Inl e)
    with m st show ?thesis by (simp add: bnd_def)
  next
    case (Inr x)
    with m assms(2) have "P x" by (auto dest: returnsD)
    with assms(3) have "R t (snd (f x t))" by (auto simp: keeps_def)
    with m st Inr show ?thesis by (auto simp: bnd_def intro: R_trans)
  qed
qed

lemma keeps_attempt: "keeps R m \<Longrightarrow> keeps R (attempt m)"
  by (auto simp: keeps_def attempt_def split: prod.splits) (metis snd_conv)

lemma keeps_swallow: "keeps R m \<Longrightarrow> keeps R (swallow m)"
  unfolding swallow_def by (intro keeps_andthen keeps_attempt keeps_ret)

end

section \<open>What a transfer changes after its save\<close>

text \<open>
  After the save a transfer or a take only adds to the history of the same room: the user, the queue
  and the state of the row stay, no other row changes, and no row comes or goes.
\<close>

definition placed :: "room \<Rightarrow> email option \<times> uuid option \<times> bool" where
  "placed r = (rm_user r, rm_queue r, rm_is_active r)"

definition same_ids :: "world \<Rightarrow> world \<Rightarrow> bool" where
  "same_ids s t \<longleftrightarrow> map rm_uuid (rooms t) = map rm_uuid (rooms s)"

definition history_frame :: "uuid \<Rightarrow> world \<Rightarrow> world \<Rightarrow> bool" where
  "history_frame k s t \<longleftrightarrow> others_kept k s t \<and> same_ids s t \<and>
     map_option placed (find_room t k) = map_option placed (find_room s k)"

interpretation history: world_order "history_frame k" for k
  by unfold_locales (auto simp: history_frame_def others_kept_def same_ids_def find_room_def)

lemma hframe_rooms: "rooms t = rooms s \<Longrightarrow> history_frame k s t"
  by (simp add: history_frame_def others_kept_def same_ids_def find_room_def)

lemma routing_frame_rooms: "routing_frame s t \<Longrightarrow> rooms t = rooms s"
  by (simp add: routing_frame_def)

lemma hframe_routing: "keeps routing_frame m \<Longrightarrow> keeps (history_frame k) m"
  by (erule keeps_mono) (rule hframe_rooms, simp add: routing_frame_def)

lemma hframe_update:
  assumes "\<And>r. rm_uuid (f r) = rm_uuid r" and "\<And>r. placed (f r) = placed r"
  shows "history_frame k s (snd (update_room k f s))"
proof -
  have "others_kept k s (snd (update_room k f s))"
    using others_update_room [OF assms(1)] by (simp add: keeps_def)
  moreover have "same_ids s (snd (update_room k f s))"
    using assms(1) by (simp add: same_ids_def update_room_def modify_def map_update_where)
  moreover have "map_option placed (find_room (snd (update_room k f s)) k) =
      map_option placed (find_room s k)"
    using assms by (simp add: update_room_def modify_def find_room_update option.map_comp o_def)
  ultimately show ?thesis by (simp add: history_frame_def)
qed

lemma hframe_save:
  assumes pk: "room_pk ob = k" and "\<And>r row. rm_uuid (c r row) = rm_uuid row"
    and "\<And>r row. placed (c r row) = placed row"
  shows "keeps (history_frame k) (room_save env (Some c) ob)"
proof -
  have uuid: "rm_uuid (stamped env ob) = k" using pk by simp
  have wrote: "keeps (history_frame k) (write_room (Some c) b (stamped env ob))" for b
  proof (rule keepsI)
    fix s
    show "history_frame k s (snd (write_room (Some c) b (stamped env ob) s))"
      using hframe_update [of "c (stamped env ob)" k s] assms history.R_refl uuid
      by (auto simp: write_room_def copy_columns_def [abs_def] split: option.split)
  qed
  have tags: "keeps (history_frame k) (clear_tags k)"
    unfolding clear_tags_def by (rule keepsI, rule hframe_update) (simp_all add: placed_def)
  have "keeps (history_frame k) (tags_on_queue_change ob (stamped env ob))"
    unfolding tags_on_queue_change_def uuid
    by (auto intro!: history.keeps_world tags split: option.split)
  then show ?thesis
    unfolding room_save_def clear_pins_def
    by (intro history.keeps_world wrote rframe_modify [THEN hframe_routing]
        frame_update_agent_service_status [THEN rframe_status, THEN hframe_routing])
qed

lemma hframe_add_transfer:
  "room_pk ob = k \<Longrightarrow> keeps (history_frame k) (add_transfer_to_history env x ob)"
  unfolding add_transfer_to_history_def
  by (rule hframe_save) (simp_all add: placed_def)

lemma hframe_history_all:
  "room_pk ob = k \<Longrightarrow> keeps (history_frame k) (fold_each (add_transfer_to_history env) xs ob)"
  by (induction xs arbitrary: ob)
    (auto intro: history.keeps_ret history.keeps_bnd_returns [OF hframe_add_transfer returns_history])

lemma returns_history_and_feedback:
  "room_pk ob = k \<Longrightarrow> returns (\<lambda>ob'. room_pk ob' = k) (history_and_feedback env xs ob)"
  unfolding history_and_feedback_def
  by (rule returns_bnd2 [OF returns_history_all]) (auto intro: returns_rules)

lemma hframe_history_and_feedback:
  "room_pk ob = k \<Longrightarrow> keeps (history_frame k) (history_and_feedback env xs ob)"
  unfolding history_and_feedback_def
  by (rule history.keeps_bnd_returns [OF hframe_history_all returns_history_all])
    (auto intro!: history.keeps_world rframe_feedback [THEN hframe_routing])

lemma rframe_ticket:
  "keeps routing_frame (update_ticket env r)" "keeps routing_frame (update_ticket_async env r)"
  unfolding update_ticket_def update_ticket_async_def
  by (auto intro!: rframe_rules split: option.split)

lemma rframe_change_ticketer: "keeps routing_frame (change_ticketer_for_room env r d)"
  unfolding change_ticketer_for_room_def flag_user_or_raise_def
  by (auto intro!: rframe_rules split: option.split prod.split)

lemma rframe_notes: "keeps routing_frame (mark_notes_as_non_deletable k)"
  unfolding mark_notes_as_non_deletable_def by (rule rframe_modify)

lemma rframe_count: "keeps routing_frame (count_if_queued env u r)"
  unfolding count_if_queued_def by (intro rframe_rules rframe_metrics)

lemma rframe_automatic_after: "keeps routing_frame (automatic_message_after_transfer env a r)"
  unfolding automatic_message_after_transfer_def
  by (auto intro!: rframe_rules rframe_automatic)

lemmas rframe_bulk = rframe_notify rframe_ticket rframe_change_ticketer rframe_notes rframe_count
  rframe_automatic_after rframe_feedback rframe_metrics rframe_automatic
lemmas hframe_bulk = rframe_bulk [THEN hframe_routing]

section \<open>The contract of one step of a bulk run\<close>

text \<open>
  \<open>good\<close> and \<open>bad\<close> relate the row before a run to the row after it, for a room counted as a success
  and for one counted as a failure. \<open>bulk_outcome\<close> is the contract of a run over some rows: every row
  is counted exactly once, on the side its outcome belongs to, and no other row is touched.
\<close>

definition bulk_outcome ::
  "(room \<Rightarrow> room \<Rightarrow> bool) \<Rightarrow> (room \<Rightarrow> room \<Rightarrow> bool) \<Rightarrow> room list \<Rightarrow> bulk_result \<Rightarrow> world \<Rightarrow>
   bulk_result \<Rightarrow> world \<Rightarrow> bool" where
  "bulk_outcome good bad rows res w res' w' \<longleftrightarrow> same_ids w w' \<and>
     (\<forall>k. k \<notin> rm_uuid ` set rows \<longrightarrow> find_room w' k = find_room w k) \<and>
     (\<exists>fs. res_failed_rooms res' = res_failed_rooms res @ fs \<and>
        distinct fs \<and> res_failed res' = res_failed res + length fs \<and>
        res_success res' + length fs = res_success res + length rows \<and>
        set fs \<subseteq> rm_uuid ` set rows \<and>
        (\<forall>row \<in> set rows. \<exists>r'. find_room w' (rm_uuid row) = Some r' \<and>
           (if rm_uuid row \<in> set fs then bad row r' else good row r')))"

lemma same_ids_trans: "same_ids s t \<Longrightarrow> same_ids t u \<Longrightarrow> same_ids s u"
  by (simp add: same_ids_def)

lemma bulk_outcome_nil: "same_ids w w' \<Longrightarrow> find_room w' = find_room w \<Longrightarrow> bulk_outcome good bad [] res w res w'"
  by (simp add: bulk_outcome_def)

lemma bulk_outcome_append:
  assumes a: "bulk_outcome good bad xs res w res1 w1" and b: "bulk_outcome good bad ys res1 w1 res2 w2"
    and disj: "rm_uuid ` set xs \<inter> rm_uuid ` set ys = {}"
  shows "bulk_outcome good bad (xs @ ys) res w res2 w2"
proof -
  from a obtain fs where fs: "res_failed_rooms res1 = res_failed_rooms res @ fs" "distinct fs"
    "res_failed res1 = res_failed res + length fs"
    "res_success res1 + length fs = res_success res + length xs" "set fs \<subseteq> rm_uuid ` set xs"
    and rx: "\<And>row. row \<in> set xs \<Longrightarrow> \<exists>r'. find_room w1 (rm_uuid row) = Some r' \<and>
       (if rm_uuid row \<in> set fs then bad row r' else good row r')"
    by (auto simp: bulk_outcome_def)
  from b obtain gs where gs: "res_failed_rooms res2 = res_failed_rooms res1 @ gs" "distinct gs"
    "res_failed res2 = res_failed res1 + length gs"
    "res_success res2 + length gs = res_success res1 + length ys" "set gs \<subseteq> rm_uuid ` set ys"
    and ry: "\<And>row. row \<in> set ys \<Longrightarrow> \<exists>r'. find_room w2 (rm_uuid row) = Some r' \<and>
       (if rm_uuid row \<in> set gs then bad row r' else good row r')"
    by (auto simp: bulk_outcome_def)
  have kept: "\<And>k. k \<notin> rm_uuid ` set ys \<Longrightarrow> find_room w2 k = find_room w1 k"
    using b by (simp add: bulk_outcome_def)
  have rows: "\<exists>r'. find_room w2 (rm_uuid row) = Some r' \<and>
       (if rm_uuid row \<in> set (fs @ gs) then bad row r' else good row r')"
    if "row \<in> set (xs @ ys)" for row
  proof (cases "row \<in> set xs")
    case True
    then have "rm_uuid row \<notin> rm_uuid ` set ys" "rm_uuid row \<notin> set gs" using disj gs(5) by auto
    with rx [OF True] kept show ?thesis by simp
  next
    case False
    with that have y: "row \<in> set ys" by simp
    then have "rm_uuid row \<notin> set fs" using disj fs(5) by auto
    with ry [OF y] show ?thesis by simp
  qed
  have "same_ids w w2" using a b same_ids_trans unfolding bulk_outcome_def by blast
  moreover have "\<forall>k. k \<notin> rm_uuid ` set (xs @ ys) \<longrightarrow> find_room w2 k = find_room w k"
    using a kept by (simp add: bulk_outcome_def image_Un)
  moreover have "distinct (fs @ gs)" using fs(2,5) gs(2,5) disj by auto
  ultimately show ?thesis
    unfolding bulk_outcome_def using fs gs rows by (intro conjI exI [of _ "fs @ gs"]) auto
qed

lemma bulk_outcome_frame:
  assumes "bulk_outcome good bad xs res w res' w1" and "rooms w2 = rooms w1"
  shows "bulk_outcome good bad xs res w res' w2"
  using assms by (simp add: bulk_outcome_def same_ids_def find_room_def)

text \<open>Rows of a query.\<close>

definition rows_of :: "world \<Rightarrow> uuid list \<Rightarrow> room list" where
  "rows_of w ks = filter (\<lambda>r. rm_uuid r \<in> set ks) (rooms w)"

lemma load_rooms_run: "load_rooms ks w = (Inr (map loaded (rows_of w ks)), w)"
  by (simp add: load_rooms_def gets_def rows_of_def)

lemma rows_of_found:
  "distinct (map rm_uuid (rooms w)) \<Longrightarrow> r \<in> set (rows_of w ks) \<Longrightarrow> find_room w (rm_uuid r) = Some r"
  by (simp add: rows_of_def find_room_def find_distinct_key)

lemma distinct_rows: "distinct (map rm_uuid (rooms w)) \<Longrightarrow> distinct (map rm_uuid (rows_of w ks))"
  unfolding rows_of_def by (simp add: distinct_map_filter)

lemma rows_keys: "rm_uuid ` set (rows_of w ks) = set ks \<inter> rm_uuid ` set (rooms w)"
  by (auto simp: rows_of_def)

lemma filter_same_keys:
  assumes "map key xs = map key ys" and "distinct (map key xs)"
    and "\<And>k. k \<in> K \<Longrightarrow> find (\<lambda>y. key y = k) ys = find (\<lambda>y. key y = k) xs"
  shows "filter (\<lambda>y. key y \<in> K) ys = filter (\<lambda>y. key y \<in> K) xs"
proof -
  have "length xs = length ys" using assms(1) by (rule map_eq_imp_length_eq)
  then show ?thesis
    using assms
  proof (induction xs ys arbitrary: K rule: list_induct2)
    case (Cons x xs y ys)
    have same: "key x = key y" using Cons.prems(1) by simp
    have IH: "filter (\<lambda>z. key z \<in> K - {key x}) ys = filter (\<lambda>z. key z \<in> K - {key x}) xs"
    proof (rule Cons.IH)
      fix k assume "k \<in> K - {key x}"
      with Cons.prems(3) [of k] same show "find (\<lambda>y. key y = k) ys = find (\<lambda>y. key y = k) xs" by auto
    qed (use Cons.prems in auto)
    have drop: "filter (\<lambda>z. key z \<in> K - {key x}) zs = filter (\<lambda>z. key z \<in> K) zs"
      if "key x \<notin> key ` set zs" for zs
      using that by (intro filter_cong refl) (metis Diff_iff empty_iff image_eqI insert_iff)
    have "key ` set ys = key ` set xs" using Cons.prems(1) by (metis list.set_map list.simps(9) list.inject)
    then have "filter (\<lambda>z. key z \<in> K) ys = filter (\<lambda>z. key z \<in> K) xs"
      using IH drop [of xs] drop [of ys] Cons.prems(2) by auto
    moreover have "key x \<in> K \<Longrightarrow> y = x" using Cons.prems(3) [of "key x"] same by simp
    ultimately show ?case using same by auto
  qed simp
qed

lemma rows_of_kept:
  assumes "same_ids w w'" and "distinct (map rm_uuid (rooms w))"
    and "\<And>k. k \<in> set ks \<Longrightarrow> find_room w' k = find_room w k"
  shows "rows_of w' ks = rows_of w ks"
  unfolding rows_of_def using assms
  by (intro filter_same_keys [where key = rm_uuid]) (simp_all add: same_ids_def find_room_def)

lemma length_rows_of:
  assumes "distinct (map rm_uuid (rooms w))" and "distinct ks" and "set ks \<subseteq> rm_uuid ` set (rooms w)"
  shows "length (rows_of w ks) = length ks"
proof -
  have "length (rows_of w ks) = card (rm_uuid ` set (rows_of w ks))"
    using distinct_rows [OF assms(1)] by (metis distinct_card length_map list.set_map)
  also have "\<dots> = card (set ks)" using assms(3) by (simp add: rows_keys Int_absorb2)
  finally show ?thesis using assms(2) by (simp add: distinct_card)
qed

text \<open>With Celery, the routing at the end of a batch only enqueues tasks.\<close>

lemma rframe_route_affected:
  assumes "set_use_celery env"
  shows "keeps routing_frame (route_affected env route_now qs)"
  unfolding route_affected_def start_queue_priority_routing_def
  using assms by (auto intro!: routing_frame.keeps_swallow rframe_rules)

lemma run_swallow: "swallow m w = (Inr (), snd (m w))"
  by (simp add: swallow_def attempt_def py_defs split: prod.splits)

lemma run_route_affected: "fst (route_affected env route_now qs w) = Inr ()"
proof -
  have "fst (for_each (\<lambda>k. swallow (m k)) qs w) = Inr ()" for m :: "uuid \<Rightarrow> (world, unit) py"
    by (induction qs arbitrary: w) (auto simp: py_defs run_swallow)
  then show ?thesis unfolding route_affected_def .
qed

lemma batches_map: "batches n (map f xs) = map (map f) (batches n xs)"
proof (induction n xs rule: batches.induct)
  case (1 n xs)
  then show ?case
    by (simp add: batches.simps [of n xs] batches.simps [of n "map f xs"] take_map drop_map)
qed

lemma distinct_concatD: "distinct (concat (xs # xss)) \<Longrightarrow> distinct xs \<and> distinct (concat xss) \<and>
   set xs \<inter> set (concat xss) = {}"
  by simp

text \<open>The report of a whole run over the keys \<open>ks\<close>.\<close>

definition bulk_report ::
  "(room \<Rightarrow> room \<Rightarrow> bool) \<Rightarrow> (room \<Rightarrow> room \<Rightarrow> bool) \<Rightarrow> uuid list \<Rightarrow> world \<Rightarrow> bulk_result \<Rightarrow> world \<Rightarrow> bool" where
  "bulk_report good bad ks w res w' \<longleftrightarrow>
     res_failed res = length (res_failed_rooms res) \<and> distinct (res_failed_rooms res) \<and>
     res_success res + res_failed res = length ks \<and> set (res_failed_rooms res) \<subseteq> set ks \<and>
     (\<forall>k \<in> set ks. \<exists>r r'. find_room w k = Some r \<and> find_room w' k = Some r' \<and>
        (if k \<in> set (res_failed_rooms res) then bad r r' else good r r')) \<and>
     (\<forall>k. k \<notin> set ks \<longrightarrow> find_room w' k = find_room w k)"

definition query_keys :: "world \<Rightarrow> uuid list \<Rightarrow> bool" where
  "query_keys w ks \<longleftrightarrow> distinct (map rm_uuid (rooms w)) \<and> distinct ks \<and>
     set ks \<subseteq> rm_uuid ` set (rooms w)"

lemma bulk_report_outcome:
  assumes keys: "query_keys w ks" and rows: "set rows = set (rows_of w ks)" "length rows = length ks"
    and out: "bulk_outcome good bad rows empty_result w res w'"
  shows "bulk_report good bad ks w res w'"
proof -
  have ids: "rm_uuid ` set rows = set ks" using keys by (auto simp: rows rows_keys query_keys_def)
  have row: "\<exists>r r'. find_room w k = Some r \<and> find_room w' k = Some r' \<and>
      (if k \<in> set (res_failed_rooms res) then bad r r' else good r r')" if "k \<in> set ks" for k
  proof -
    from that ids obtain r where r: "r \<in> set rows" "rm_uuid r = k" by (metis imageE)
    then have "find_room w k = Some r"
      using keys rows_of_found [of w r ks] by (auto simp: query_keys_def rows)
    moreover have "\<forall>row \<in> set rows. \<exists>r'. find_room w' (rm_uuid row) = Some r' \<and>
        (if rm_uuid row \<in> set (res_failed_rooms res) then bad row r' else good row r')"
      using out by (auto simp: bulk_outcome_def empty_result_def)
    ultimately show ?thesis using r by metis
  qed
  with out ids rows show ?thesis
    by (auto simp: bulk_report_def bulk_outcome_def empty_result_def)
qed

definition process_rows ::
  "env \<Rightarrow> (uuid \<Rightarrow> (world, unit) py) \<Rightarrow>
   (room_obj \<Rightarrow> bulk_result \<times> uuid list \<Rightarrow> (world, bulk_result \<times> uuid list) py) \<Rightarrow>
   room_obj list \<Rightarrow> bulk_result \<Rightarrow> (world, bulk_result) py" where
  "process_rows env route_now one batch res =
     bnd (fold_each one batch (res, [])) (\<lambda>(res', affected).
       andthen (route_affected env route_now affected) (ret res'))"

locale bulk_step =
  fixes one :: "room_obj \<Rightarrow> bulk_result \<times> uuid list \<Rightarrow> (world, bulk_result \<times> uuid list) py"
    and good bad :: "room \<Rightarrow> room \<Rightarrow> bool"
  assumes one_step: "find_room w (rm_uuid row) = Some row \<Longrightarrow>
    \<exists>res' qs' w'. one (loaded row) (res, qs) w = (Inr (res', qs'), w') \<and>
      bulk_outcome good bad [row] res w res' w'"
begin

lemma fold_rows:
  assumes "distinct (map rm_uuid rows)"
    and "\<And>row. row \<in> set rows \<Longrightarrow> find_room w (rm_uuid row) = Some row"
  shows "\<exists>res' qs' w'. fold_each one (map loaded rows) (res, qs) w = (Inr (res', qs'), w') \<and>
    bulk_outcome good bad rows res w res' w'"
  using assms
proof (induction rows arbitrary: res qs w)
  case Nil
  show ?case by (simp add: ret_def bulk_outcome_nil same_ids_def)
next
  case (Cons row rows)
  obtain res1 qs1 w1 where one: "one (loaded row) (res, qs) w = (Inr (res1, qs1), w1)"
    and o1: "bulk_outcome good bad [row] res w res1 w1"
    using one_step Cons.prems(2) [of row] by fastforce
  have new: "rm_uuid row \<notin> rm_uuid ` set rows" using Cons.prems(1) by simp
  have "find_room w1 (rm_uuid r) = Some r" if "r \<in> set rows" for r
  proof -
    have "rm_uuid r \<noteq> rm_uuid row" using new that by (metis image_eqI)
    then have "find_room w1 (rm_uuid r) = find_room w (rm_uuid r)"
      using o1 by (auto simp: bulk_outcome_def)
    then show ?thesis using Cons.prems(2) [of r] that by simp
  qed
  then obtain res2 qs2 w2
    where rest: "fold_each one (map loaded rows) (res1, qs1) w1 = (Inr (res2, qs2), w2)"
    and o2: "bulk_outcome good bad rows res1 w1 res2 w2"
    using Cons.IH [of w1 res1 qs1] Cons.prems(1) by auto
  have "bulk_outcome good bad ([row] @ rows) res w res2 w2"
    by (rule bulk_outcome_append [OF o1 o2]) (use new in simp)
  with one rest show ?case by (simp add: run_Inr)
qed

lemma batch:
  assumes "set_use_celery env" and "distinct (map rm_uuid rows)"
    and "\<And>row. row \<in> set rows \<Longrightarrow> find_room w (rm_uuid row) = Some row"
  shows "\<exists>res' w'. process_rows env route_now one (map loaded rows) res w = (Inr res', w') \<and>
    bulk_outcome good bad rows res w res' w'"
proof -
  obtain res' qs' w1 where run: "fold_each one (map loaded rows) (res, []) w = (Inr (res', qs'), w1)"
    and out: "bulk_outcome good bad rows res w res' w1"
    using fold_rows [of rows w res "[]"] assms(2,3) by auto
  obtain w2 where route: "route_affected env route_now qs' w1 = (Inr (), w2)"
    using run_route_affected [of env route_now qs' w1] by (metis prod.collapse)
  have "routing_frame w1 w2" by (rule keepsD [OF rframe_route_affected [OF assms(1)] route])
  with out have "bulk_outcome good bad rows res w res' w2"
    by (auto intro: bulk_outcome_frame simp: routing_frame_def)
  moreover have "process_rows env route_now one (map loaded rows) res w = (Inr res', w2)"
    using run route by (simp add: process_rows_def bnd_def andthen_def ret_def)
  ultimately show ?thesis by blast
qed

lemma reloaded_batches:
  assumes "set_use_celery env" and "distinct (map rm_uuid (rooms w))" and "distinct (concat kss)"
  shows "\<exists>res' w'. fold_each (\<lambda>ks res. bnd (load_rooms ks)
        (\<lambda>b. process_rows env route_now one b res)) kss res w = (Inr res', w') \<and>
    bulk_outcome good bad (concat (map (rows_of w) kss)) res w res' w'"
  using assms(2,3)
proof (induction kss arbitrary: res w)
  case Nil
  show ?case by (simp add: ret_def bulk_outcome_nil same_ids_def)
next
  case (Cons ks kss)
  obtain res1 w1 where run: "process_rows env route_now one (map loaded (rows_of w ks)) res w = (Inr res1, w1)"
    and o1: "bulk_outcome good bad (rows_of w ks) res w res1 w1"
    using batch [OF assms(1) distinct_rows [OF Cons.prems(1), of ks], of w route_now res]
      rows_of_found [OF Cons.prems(1), of _ ks] by blast
  have ids: "same_ids w w1" using o1 by (simp add: bulk_outcome_def)
  have disj: "set ks \<inter> set (concat kss) = {}" using distinct_concatD [OF Cons.prems(2)] by blast
  have kept: "rows_of w1 js = rows_of w js" if "js \<in> set kss" for js
  proof (rule rows_of_kept [OF ids Cons.prems(1)])
    fix k assume "k \<in> set js"
    then have "k \<notin> rm_uuid ` set (rows_of w ks)" using that disj by (auto simp: rows_keys)
    with o1 show "find_room w1 k = find_room w k" by (simp add: bulk_outcome_def)
  qed
  obtain res2 w2 where rest: "fold_each (\<lambda>ks res. bnd (load_rooms ks)
        (\<lambda>b. process_rows env route_now one b res)) kss res1 w1 = (Inr res2, w2)"
    and o2: "bulk_outcome good bad (concat (map (rows_of w1) kss)) res1 w1 res2 w2"
    using Cons.IH [of w1 res1] Cons.prems ids by (auto simp: same_ids_def)
  have same: "map (rows_of w1) kss = map (rows_of w) kss" by (simp add: kept)
  have "rm_uuid ` set (rows_of w ks) \<inter> rm_uuid ` set (concat (map (rows_of w) kss)) = {}"
    using disj by (auto simp: rows_of_def)
  then have "bulk_outcome good bad (concat (map (rows_of w) (ks # kss))) res w res2 w2"
    using bulk_outcome_append [OF o1 o2 [unfolded same]] by simp
  moreover have "bnd (load_rooms ks) (\<lambda>b. process_rows env route_now one b res) w = (Inr res1, w1)"
    using run by (simp add: run_Inr(1) [OF load_rooms_run])
  ultimately show ?case using rest by (auto simp: run_Inr(1))
qed

lemma report_reloaded:
  assumes "set_use_celery env" and "0 < n" and keys: "query_keys w ks"
  shows "\<exists>res w'. fold_each (\<lambda>ks res. bnd (load_rooms ks)
        (\<lambda>b. process_rows env route_now one b res)) (batches n ks) empty_result w = (Inr res, w') \<and>
    bulk_report good bad ks w res w'"
proof -
  have c: "concat (batches n ks) = ks" by (rule concat_batches [OF assms(2)])
  have d: "distinct (map rm_uuid (rooms w))" using keys by (simp add: query_keys_def)
  obtain res w' where run: "fold_each (\<lambda>ks res. bnd (load_rooms ks)
        (\<lambda>b. process_rows env route_now one b res)) (batches n ks) empty_result w = (Inr res, w')"
    and out: "bulk_outcome good bad (concat (map (rows_of w) (batches n ks))) empty_result w res w'"
    using reloaded_batches [OF assms(1) d, of "batches n ks" route_now empty_result] keys c
    by (auto simp: query_keys_def)
  have len: "length (concat (map (rows_of w) kss)) = length (concat kss)"
    if "distinct (concat kss)" "set (concat kss) \<subseteq> rm_uuid ` set (rooms w)" for kss
    using that by (induction kss) (auto simp: length_rows_of [OF d])
  have "set (concat (map (rows_of w) (batches n ks))) = set (rows_of w (concat (batches n ks)))"
    by (auto simp: rows_of_def)
  with out len [of "batches n ks"] keys c run show ?thesis
    by (intro exI conjI bulk_report_outcome [of w ks]) (auto simp: query_keys_def)
qed

lemma loaded_batches:
  assumes "set_use_celery env" and "distinct (map rm_uuid (concat rss))"
    and "\<And>row. row \<in> set (concat rss) \<Longrightarrow> find_room w (rm_uuid row) = Some row"
  shows "\<exists>res' w'. fold_each (process_rows env route_now one) (map (map loaded) rss) res w = (Inr res', w') \<and>
    bulk_outcome good bad (concat rss) res w res' w'"
  using assms(2,3)
proof (induction rss arbitrary: res w)
  case Nil
  show ?case by (simp add: ret_def bulk_outcome_nil same_ids_def)
next
  case (Cons rs rss)
  have disj: "rm_uuid ` set rs \<inter> rm_uuid ` set (concat rss) = {}" using Cons.prems(1) by auto
  obtain res1 w1 where run: "process_rows env route_now one (map loaded rs) res w = (Inr res1, w1)"
    and o1: "bulk_outcome good bad rs res w res1 w1"
    using batch [OF assms(1), of rs w route_now res] Cons.prems by auto
  have "find_room w1 (rm_uuid row) = Some row" if "row \<in> set (concat rss)" for row
  proof -
    have "rm_uuid row \<notin> rm_uuid ` set rs" using disj that by blast
    with o1 have "find_room w1 (rm_uuid row) = find_room w (rm_uuid row)"
      by (simp add: bulk_outcome_def)
    with Cons.prems(2) [of row] that show ?thesis by simp
  qed
  then obtain res2 w2
    where rest: "fold_each (process_rows env route_now one) (map (map loaded) rss) res1 w1 = (Inr res2, w2)"
    and o2: "bulk_outcome good bad (concat rss) res1 w1 res2 w2"
    using Cons.IH [of w1 res1] Cons.prems(1) by auto
  from bulk_outcome_append [OF o1 o2 disj] run rest show ?case by (simp add: run_Inr)
qed

lemma report_loaded:
  assumes "set_use_celery env" and "0 < n" and keys: "query_keys w ks"
  shows "\<exists>res w'. bnd (load_rooms ks) (\<lambda>obs. fold_each (process_rows env route_now one)
        (batches n obs) empty_result) w = (Inr res, w') \<and>
    bulk_report good bad ks w res w'"
proof -
  have d: "distinct (map rm_uuid (rooms w))" using keys by (simp add: query_keys_def)
  have c: "concat (batches n (rows_of w ks)) = rows_of w ks" by (rule concat_batches [OF assms(2)])
  obtain res w' where "fold_each (process_rows env route_now one)
        (map (map loaded) (batches n (rows_of w ks))) empty_result w = (Inr res, w')"
    and out: "bulk_outcome good bad (rows_of w ks) empty_result w res w'"
    using loaded_batches [OF assms(1), of "batches n (rows_of w ks)" w route_now empty_result]
      distinct_rows [OF d] rows_of_found [OF d]
    by (auto simp: c)
  moreover have "bulk_report good bad ks w res w'"
    by (rule bulk_report_outcome [OF keys _ _ out])
      (use keys in \<open>auto simp: query_keys_def length_rows_of\<close>)
  ultimately show ?thesis by (simp add: bnd_def load_rooms_run batches_map)
qed

end

section \<open>One room of a transfer or a take\<close>

lemma find_room_ids: "find_room s k \<noteq> None \<longleftrightarrow> k \<in> set (map rm_uuid (rooms s))"
  unfolding find_room_def find_None_iff by auto

lemma ids_find: "same_ids s t \<Longrightarrow> find_room s k \<noteq> None \<Longrightarrow> find_room t k \<noteq> None"
  unfolding find_room_ids same_ids_def by simp

definition ids_kept :: "uuid \<Rightarrow> world \<Rightarrow> world \<Rightarrow> bool" where
  "ids_kept k s t \<longleftrightarrow> (find_room s k \<noteq> None \<longrightarrow> same_ids s t)"

interpretation ids: world_order "ids_kept k" for k
proof
  show "ids_kept k s s" for s by (simp add: ids_kept_def same_ids_def)
  show "ids_kept k s t \<Longrightarrow> ids_kept k t u \<Longrightarrow> ids_kept k s u" for s t u
    unfolding ids_kept_def using ids_find same_ids_trans by blast
  show "ids_kept k s (s\<lparr>effects := es\<rparr>)" for s es by (simp add: ids_kept_def same_ids_def)
qed

lemma ids_rooms: "rooms t = rooms s \<Longrightarrow> ids_kept k s t"
  by (simp add: ids_kept_def same_ids_def)

lemma ids_routing: "keeps routing_frame m \<Longrightarrow> keeps (ids_kept k) m"
  by (erule keeps_mono) (rule ids_rooms, simp add: routing_frame_def)

lemma ids_update_room: "(\<And>r. rm_uuid (f r) = rm_uuid r) \<Longrightarrow> keeps (ids_kept k) (update_room j f)"
  by (simp add: keeps_def ids_kept_def same_ids_def update_room_def modify_def map_update_where)

lemma ids_save:
  assumes "\<not> ob_adding ob"
  shows "keeps (ids_kept (room_pk ob)) (room_save env None ob)"
proof (rule keepsI)
  fix w
  show "ids_kept (room_pk ob) w (snd (room_save env None ob w))"
  proof (rule save_rooms_cases [OF assms, of env w])
    fix ts assume upd: "rooms (snd (room_save env None ob w)) = update_where (\<lambda>x. rm_uuid x = room_pk ob)
      (\<lambda>x. (stamped env ob)\<lparr>rm_tags := ts x\<rparr>) (rooms w)"
    have "map rm_uuid (update_where (\<lambda>x. rm_uuid x = room_pk ob)
        (\<lambda>x. (stamped env ob)\<lparr>rm_tags := ts x\<rparr>) xs) = map rm_uuid xs" for xs
      by (induction xs) auto
    with upd show ?thesis by (simp add: ids_kept_def same_ids_def)
  qed (auto simp: ids_kept_def same_ids_def)
qed

lemma ids_save_set:
  "rm_uuid row = k \<Longrightarrow> (\<And>r. rm_uuid (f r) = rm_uuid r) \<Longrightarrow>
   keeps (ids_kept k) (room_save env None (set_row f (loaded row)))"
  using ids_save [of "set_row f (loaded row)" env] by (simp add: set_row_def room_pk_def loaded_def)

text \<open>\<open>moves k row f m\<close>: \<open>m\<close> ends with the row as it was or as \<open>f\<close> places it, the latter when it
  succeeds.\<close>

definition moved_to :: "uuid \<Rightarrow> room \<Rightarrow> (room \<Rightarrow> room) \<Rightarrow> bool \<Rightarrow> world \<Rightarrow> world \<Rightarrow> bool" where
  "moved_to k row f ok w w' \<longleftrightarrow> same_ids w w' \<and> others_kept k w w' \<and>
     (\<exists>r'. find_room w' k = Some r' \<and> (r' = row \<and> \<not> ok \<or> placed r' = placed (f row)))"

definition moves :: "uuid \<Rightarrow> room \<Rightarrow> (room \<Rightarrow> room) \<Rightarrow> (world, 'a) py \<Rightarrow> bool" where
  "moves k row f m \<longleftrightarrow> (\<forall>w out w'. find_room w k = Some row \<longrightarrow> m w = (out, w') \<longrightarrow>
     moved_to k row f (\<exists>x. out = Inr x) w w')"

lemma moves_frame:
  assumes "keeps routing_frame m" and "\<And>x. moves k row f (g x)"
  shows "moves k row f (bnd m g)"
  unfolding moves_def
proof (intro allI impI)
  fix w out w' assume row: "find_room w k = Some row" and run: "bnd m g w = (out, w')"
  obtain r t where m: "m w = (r, t)" by fastforce
  with assms(1) have "routing_frame w t" by (rule keepsD)
  then have rooms: "rooms t = rooms w" by (simp add: routing_frame_def)
  show "moved_to k row f (\<exists>x. out = Inr x) w w'"
  proof (cases r)
    case (Inl e)
    with m run rooms row show ?thesis
      by (auto simp: bnd_def moved_to_def same_ids_def others_kept_def find_room_def)
  next
    case (Inr x)
    with m run have "g x t = (out, w')" by (simp add: bnd_def)
    with assms(2) [of x] row rooms have "moved_to k row f (\<exists>x. out = Inr x) t w'"
      by (simp add: moves_def find_room_def)
    with rooms show ?thesis
      by (simp add: moved_to_def same_ids_def others_kept_def find_room_def)
  qed
qed

lemma moves_frame_then: "keeps routing_frame m \<Longrightarrow> moves k row f g \<Longrightarrow> moves k row f (andthen m g)"
  unfolding andthen_def by (rule moves_frame)

lemma save_placed:
  assumes row: "find_room w k = Some row" and f: "\<And>r. rm_uuid (f r) = rm_uuid r"
    and run: "room_save env None (set_row f (loaded row)) w = (out, w')"
  shows "moved_to k row f (\<exists>x. out = Inr x) w w'"
proof -
  let ?ob = "set_row f (loaded row)"
  have k: "rm_uuid row = k" "room_pk ?ob = k" "\<not> ob_adding ?ob" "ob_row ?ob = f row"
    using row f by (simp_all add: find_room_uuid) (simp_all add: set_row_def)
  have ids: "same_ids w w'"
    using keepsD [OF ids_save_set [OF k(1) f] run] row by (simp add: ids_kept_def)
  have others: "others_kept k w w'"
    by (rule keepsD [OF others_room_save' [OF k(2)] run]) (simp add: keeps_uuid_def)
  have "\<exists>r'. find_room w' k = Some r' \<and> (r' = row \<and> \<not> (\<exists>x. out = Inr x) \<or> placed r' = placed (f row))"
  proof (cases out)
    case (Inr ob')
    have active: "rm_is_active row"
    proof (rule ccontr)
      assume "\<not> ?thesis"
      with closed_save_raises [of w ?ob row env None] row k run Inr show False by simp
    qed
    from room_save_effect [OF row [folded k(2)] active k(3) run [unfolded Inr]] k
    show ?thesis by (auto simp: placed_def)
  next
    case (Inl e)
    show ?thesis
    proof (rule save_rooms_cases [OF k(3), of env w])
      assume "rooms (snd (room_save env None ?ob w)) = rooms w"
      with run row Inl show ?thesis by (simp add: find_room_def)
    next
      fix ts assume upd: "rooms (snd (room_save env None ?ob w)) = update_where
        (\<lambda>x. rm_uuid x = room_pk ?ob) (\<lambda>x. (stamped env ?ob)\<lparr>rm_tags := ts x\<rparr>) (rooms w)"
      have "find (\<lambda>x. rm_uuid x = k) (update_where (\<lambda>x. rm_uuid x = k)
          (\<lambda>x. (stamped env ?ob)\<lparr>rm_tags := ts x\<rparr>) xs) =
          map_option (\<lambda>x. (stamped env ?ob)\<lparr>rm_tags := ts x\<rparr>) (find (\<lambda>x. rm_uuid x = k) xs)" for xs
        by (induction xs) (auto simp: k)
      with upd run row k show ?thesis by (auto simp: find_room_def placed_def)
    next
      assume "find_room w (room_pk ?ob) = None"
      with row k show ?thesis by simp
    qed
  qed
  with ids others show ?thesis by (simp add: moved_to_def)
qed

lemma moves_save:
  assumes f: "\<And>r. rm_uuid (f r) = rm_uuid r"
    and c: "\<And>ob1. room_pk ob1 = k \<Longrightarrow> keeps (history_frame k) (c ob1)"
  shows "moves k row f (bnd (room_save env None (set_row f (loaded row))) c)"
  unfolding moves_def
proof (intro allI impI)
  fix w out w' assume row: "find_room w k = Some row"
    and run: "bnd (room_save env None (set_row f (loaded row))) c w = (out, w')"
  obtain r t where save: "room_save env None (set_row f (loaded row)) w = (r, t)" by fastforce
  have m: "moved_to k row f (\<exists>x. r = Inr x) w t" by (rule save_placed [OF row f save])
  show "moved_to k row f (\<exists>x. out = Inr x) w w'"
  proof (cases r)
    case (Inl e)
    with m save run show ?thesis by (auto simp: bnd_def)
  next
    case (Inr ob1)
    have pk: "room_pk ob1 = k"
      using returnsD [OF returns_save_set [of "loaded row" k f env None] save [unfolded Inr]] row f
      by (simp add: find_room_uuid)
    have "c ob1 t = (out, w')" using save run Inr by (simp add: bnd_def)
    then have "history_frame k t w'" by (rule keepsD [OF c [OF pk]])
    with m Inr show ?thesis
      by (auto simp: moved_to_def history_frame_def same_ids_def others_kept_def)
  qed
qed

definition moved :: "email option \<Rightarrow> queue option \<Rightarrow> room \<Rightarrow> room" where
  "moved user q r = (case (user, q) of
     (Some u, Some x) \<Rightarrow> r\<lparr>rm_user := Some u, rm_queue := Some (que_uuid x)\<rparr>
   | (Some u, None) \<Rightarrow> r\<lparr>rm_user := Some u\<rparr>
   | (None, Some x) \<Rightarrow> r\<lparr>rm_user := None, rm_queue := Some (que_uuid x)\<rparr>
   | (None, None) \<Rightarrow> r)"

lemma hframe_save_rest:
  assumes "room_pk ob = k" and "\<And>x. keeps (history_frame k) (g x)"
  shows "keeps (history_frame k) (bnd (history_and_feedback env xs ob) g)"
  by (rule history.keeps_bnd_returns [OF hframe_history_and_feedback returns_history_and_feedback])
    (use assms in auto)

lemmas hframe_tail = hframe_save_rest history.keeps_andthen history.keeps_ret history.keeps_sequence
  hframe_bulk

lemma moves_user_and_queue:
  "moves k row (moved (Some u) (Some q)) (service_transfer_user_and_queue env (loaded row) u q requester)"
proof -
  have f: "(\<lambda>r. r\<lparr>rm_user := Some u, rm_queue := Some (que_uuid q)\<rparr>) = moved (Some u) (Some q)"
    by (simp add: fun_eq_iff moved_def)
  show ?thesis
    unfolding service_transfer_user_and_queue_def Let_def f
    by (rule moves_frame, rule routing_frame.keeps_gets, rule moves_frame,
        rule routing_frame.keeps_need, rule moves_frame_then, rule rframe_change_ticketer,
        rule moves_save) (auto simp: moved_def intro!: hframe_tail)
qed

lemma moves_user:
  "moves k row (moved (Some u) None) (service_transfer_user env (loaded row) u requester)"
proof -
  have f: "(\<lambda>r. r\<lparr>rm_user := Some u\<rparr>) = moved (Some u) None"
    by (simp add: fun_eq_iff moved_def)
  show ?thesis
    unfolding service_transfer_user_def Let_def f
    by (rule moves_save) (auto simp: moved_def intro!: hframe_tail)
qed

lemma moves_queue:
  "moves k row (moved None (Some q)) (service_transfer_queue env (loaded row) q requester)"
proof -
  have f: "(\<lambda>r. r\<lparr>rm_user := None, rm_queue := Some (que_uuid q)\<rparr>) = moved None (Some q)"
    by (simp add: fun_eq_iff moved_def)
  show ?thesis
    unfolding service_transfer_queue_def Let_def f
    by (rule moves_frame, rule routing_frame.keeps_need, rule moves_frame_then,
        rule rframe_change_ticketer, rule moves_save) (auto simp: moved_def intro!: hframe_tail)
qed

lemma moves_transfer_room: "moves k row (moved user q) (transfer_room env (loaded row) user q requester)"
proof (cases user; cases q)
  assume "user = None" and "q = None"
  then show ?thesis
    by (auto simp: transfer_room_def moves_def ret_def moved_to_def same_ids_def others_kept_def
        moved_def)
qed (simp_all add: transfer_room_def moves_user_and_queue moves_user moves_queue)

lemma bulk_outcome_single:
  assumes "same_ids w w'" and "others_kept (rm_uuid row) w w'" and "find_room w' (rm_uuid row) = Some r'"
    and "ok \<and> res' = add_success res \<and> good row r' \<or>
         \<not> ok \<and> (\<exists>e. res' = add_failure (rm_uuid row) e res) \<and> bad row r'"
  shows "bulk_outcome good bad [row] res w res' w'"
proof (cases ok)
  case True
  with assms show ?thesis
    by (auto simp: bulk_outcome_def others_kept_def add_success_def intro!: exI [of _ "[]"])
next
  case False
  with assms(4) obtain e where "res' = add_failure (rm_uuid row) e res" by blast
  with False assms show ?thesis
    by (auto simp: bulk_outcome_def others_kept_def add_failure_def intro!: exI [of _ "[rm_uuid row]"])
qed

lemma bulk_outcome_one:
  assumes "moved_to (rm_uuid row) row f ok w w'" and "ok \<Longrightarrow> res' = add_success res"
    and "\<not> ok \<Longrightarrow> \<exists>e. res' = add_failure (rm_uuid row) e res"
    and "\<And>r'. find_room w' (rm_uuid row) = Some r' \<Longrightarrow> ok \<Longrightarrow> placed r' = placed (f row) \<Longrightarrow> good row r'"
    and "\<And>r'. find_room w' (rm_uuid row) = Some r' \<Longrightarrow> \<not> ok \<Longrightarrow>
       r' = row \<or> placed r' = placed (f row) \<Longrightarrow> bad row r'"
  shows "bulk_outcome good bad [row] res w res' w'"
proof -
  from assms(1) obtain r' where r': "find_room w' (rm_uuid row) = Some r'"
    "r' = row \<and> \<not> ok \<or> placed r' = placed (f row)"
    and frame: "same_ids w w'" "others_kept (rm_uuid row) w w'"
    by (auto simp: moved_to_def)
  then show ?thesis
    using assms(2-5) by (intro bulk_outcome_single [OF frame r'(1), where ok = ok]) blast
qed

definition unchanged :: "room \<Rightarrow> room \<Rightarrow> bool" where
  "unchanged r r' \<longleftrightarrow> r' = r"

definition transferred :: "email option \<Rightarrow> queue option \<Rightarrow> room \<Rightarrow> room \<Rightarrow> bool" where
  "transferred user q r r' \<longleftrightarrow> placed r' = placed (moved user q r)"

interpretation transfer: bulk_step "transfer_one env user q requester" "transferred user q" unchanged
  for env user q requester
proof
  fix w :: world and row res qs
  assume row: "find_room w (rm_uuid row) = Some row"
  let ?m = "transfer_room env (loaded row) user q requester"
  obtain r t where m: "?m w = (r, t)" by fastforce
  have moved: "moved_to (rm_uuid row) row (moved user q) (\<exists>x. r = Inr x) w t"
    using moves_transfer_room row m unfolding moves_def by blast
  show "\<exists>res' qs' w'. transfer_one env user q requester (loaded row) (res, qs) w = (Inr (res', qs'), w') \<and>
      bulk_outcome (transferred user q) unchanged [row] res w res' w'"
  proof (cases r)
    case (Inl e)
    let ?res = "add_failure (rm_uuid row) (room_error env (rm_uuid row) e) res"
    have "transfer_one env user q requester (loaded row) (res, qs) w = (Inr (?res, qs), rollback w t)"
      using m Inl by (simp add: transfer_one_def attempt_def atomic_def bnd_def ret_def)
    moreover have "bulk_outcome (transferred user q) unchanged [row] res w ?res (rollback w t)"
      by (rule bulk_outcome_one [where ok = False and f = "\<lambda>r. r"])
        (use row in \<open>auto simp: moved_to_def same_ids_def others_kept_def find_room_def unchanged_def\<close>)
    ultimately show ?thesis by blast
  next
    case (Inr ob')
    have "bulk_outcome (transferred user q) unchanged [row] res w (add_success res) t"
      by (rule bulk_outcome_one [OF moved]) (simp_all add: Inr transferred_def)
    then show ?thesis
      using m Inr by (simp add: transfer_one_def attempt_def atomic_def bnd_def ret_def)
  qed
qed

section \<open>One room of a take\<close>

definition taken_by :: "email \<Rightarrow> room \<Rightarrow> room \<Rightarrow> bool" where
  "taken_by u r r' \<longleftrightarrow> rm_user r = None \<and> placed r' = placed (r\<lparr>rm_user := Some u\<rparr>)"

definition taken_or_unchanged :: "email \<Rightarrow> room \<Rightarrow> room \<Rightarrow> bool" where
  "taken_or_unchanged u r r' \<longleftrightarrow> unchanged r r' \<or> taken_by u r r'"

lemma moves_take_room: "moves k row (\<lambda>r. r\<lparr>rm_user := Some u\<rparr>) (take_room env u (loaded row))"
  unfolding take_room_def
  by (intro moves_frame rframe_rules moves_save) (simp_all add: hframe_history_and_feedback)

lemma rframe_post_take: "keeps routing_frame (post_take env r)"
  unfolding post_take_def sequence.simps
  by (intro rframe_rules routing_frame.keeps_swallow rframe_bulk)

lemma run_sequence_swallow:
  "fst (sequence (map swallow ms) w) = Inr ()"
  by (induction ms arbitrary: w) (simp_all add: py_defs run_swallow)

lemma run_post_take: "fst (post_take env r w) = Inr ()"
  unfolding post_take_def by (simp add: py_defs run_swallow)

interpretation take: bulk_step "take_one env u" "taken_by u" "taken_or_unchanged u" for env u
proof
  fix w :: world and row res qs
  assume row: "find_room w (rm_uuid row) = Some row"
  show "\<exists>res' qs' w'. take_one env u (loaded row) (res, qs) w = (Inr (res', qs'), w') \<and>
      bulk_outcome (taken_by u) (taken_or_unchanged u) [row] res w res' w'"
  proof (cases "rm_user row")
    case (Some v)
    have "bulk_outcome (taken_by u) (taken_or_unchanged u) [row] res w
        (add_failure (rm_uuid row) (''Room '' @ rm_uuid row @ '': already assigned to '' @ v) res) w"
      by (rule bulk_outcome_one [where ok = False and f = "\<lambda>r. r"])
        (use row in \<open>auto simp: moved_to_def same_ids_def others_kept_def taken_or_unchanged_def unchanged_def\<close>)
    then show ?thesis using Some by (simp add: take_one_def ret_def)
  next
    case None
    obtain r t where m: "take_room env u (loaded row) w = (r, t)" by fastforce
    have moved: "moved_to (rm_uuid row) row (\<lambda>r. r\<lparr>rm_user := Some u\<rparr>) (\<exists>x. r = Inr x) w t"
      using moves_take_room row m unfolding moves_def by blast
    show ?thesis
    proof (cases r)
      case (Inl e)
      let ?res = "add_failure (rm_uuid row) (room_error env (rm_uuid row) e) res"
      have "bulk_outcome (taken_by u) (taken_or_unchanged u) [row] res w ?res t"
        by (rule bulk_outcome_one [OF moved])
          (auto simp: Inl taken_or_unchanged_def taken_by_def unchanged_def None)
      then show ?thesis
        using m Inl None by (simp add: take_one_def attempt_def bnd_def ret_def)
    next
      case (Inr ob')
      obtain t' where post: "post_take env (ob_row ob') t = (Inr (), t')"
        using run_post_take [of env "ob_row ob'" t] by (metis prod.collapse)
      have "routing_frame t t'" by (rule keepsD [OF rframe_post_take post])
      moreover have "bulk_outcome (taken_by u) (taken_or_unchanged u) [row] res w (add_success res) t"
        by (rule bulk_outcome_one [OF moved]) (simp_all add: Inr taken_by_def None)
      ultimately have "bulk_outcome (taken_by u) (taken_or_unchanged u) [row] res w (add_success res) t'"
        by (auto intro: bulk_outcome_frame simp: routing_frame_def)
      then show ?thesis
        using m Inr None post by (simp add: take_one_def attempt_def bnd_def andthen_def ret_def)
    qed
  qed
qed

section \<open>One room of a close\<close>

definition closed_with ::
  "env \<Rightarrow> (uuid \<Rightarrow> uuid list option) \<Rightarrow> string \<Rightarrow> email option \<Rightarrow> room \<Rightarrow> room \<Rightarrow> bool" where
  "closed_with env tags_map end_by c r r' \<longleftrightarrow> rm_is_active r \<and> \<not> rm_is_active r' \<and>
     rm_ended_at r' = Some (env_now env) \<and> rm_ended_by r' = Some end_by \<and> rm_closed_by r' = c \<and>
     rm_user r' = rm_user r \<and>
     set (rm_tags r') = set (case tags_map (rm_uuid r) of Some ts \<Rightarrow> ts | None \<Rightarrow> [])"

definition closed_or_unchanged ::
  "env \<Rightarrow> (uuid \<Rightarrow> uuid list option) \<Rightarrow> string \<Rightarrow> email option \<Rightarrow> room \<Rightarrow> room \<Rightarrow> bool" where
  "closed_or_unchanged env tags_map end_by c r r' \<longleftrightarrow> unchanged r r' \<or> closed_with env tags_map end_by c r r'"

lemma ids_room_close:
  assumes "room_pk ob = k" and "\<not> ob_adding ob"
  shows "keeps (ids_kept k) (room_close env tags end_by c ob)"
proof -
  have save: "keeps (ids_kept k) (room_save env None (closing env end_by c ob))"
    using ids_save [of "closing env end_by c ob" env] assms by simp
  show ?thesis
    unfolding room_close_def after_close_def handle_close_tags_def start_csat_flow_def clear_pins_def
    by (intro ids.keeps_world save ids_update_room rframe_modify [THEN ids_routing]
        frame_room_closed [THEN rframe_status, THEN ids_routing]) simp
qed

lemma cframe_room_close: "keeps config_frame (room_close env tags end_by c ob)"
  unfolding room_close_def after_close_def handle_close_tags_def start_csat_flow_def
  by (intro config_frame.keeps_world cframe_rooms cframe_room_save
      frame_room_closed [THEN rframe_status, THEN cframe_routing])

lemma rframe_generate_metrics: "keeps routing_frame (generate_metrics env k)"
  unfolding generate_metrics_def by (intro rframe_rules rframe_metrics)

lemma post_close_run:
  assumes "find_room w k = Some r"
  shows "\<exists>w'. post_close env k w = (Inr (), w') \<and> routing_frame w w'"
proof -
  let ?m = "sequence
     [swallow (notify_queue env r ''close'' True),
      (case rm_user r of None \<Rightarrow> ret () | Some _ \<Rightarrow> swallow (notify_user env r ''close'' None)),
      swallow (close_room env (generate_metrics env) k)]"
  have loaded: "ob_row (loaded r) = r" by simp
  have eq: "post_close env k w = ?m w"
    by (simp add: post_close_def Let_def run_Inr(1) [where m = "load_room k" and s = w,
          OF load_room_run [OF assms]] loaded del: sequence.simps cong: option.case_cong)
  have "keeps routing_frame ?m"
    unfolding sequence.simps close_room_def
    by (auto intro!: rframe_rules routing_frame.keeps_swallow rframe_bulk rframe_generate_metrics
        split: option.split)
  moreover have "fst (?m w) = Inr ()"
    by (simp add: py_defs run_swallow split: option.split)
  ultimately show ?thesis
    unfolding eq keeps_def by (metis prod.collapse)
qed

interpretation close: bulk_step "close_one env tags_map end_by c" "closed_with env tags_map end_by c"
  "closed_or_unchanged env tags_map end_by c" for env tags_map end_by c
proof
  fix w :: world and row res qs
  assume row: "find_room w (rm_uuid row) = Some row"
  let ?k = "rm_uuid row"
  let ?ts = "case tags_map ?k of Some ts \<Rightarrow> ts | None \<Rightarrow> []"
  let ?good = "closed_with env tags_map end_by c"
  let ?bad = "closed_or_unchanged env tags_map end_by c"
  obtain r t where run: "room_close env (Some ?ts) end_by c (loaded row) w = (r, t)" by fastforce
  have ids: "same_ids w t"
    using keepsD [OF ids_room_close [of "loaded row"] run] row by (simp add: ids_kept_def)
  have others: "others_kept ?k w t"
    using keepsD [OF others_room_close run] by simp
  have "\<exists>r'. find_room t ?k = Some r' \<and> (?good row r' \<or> (\<exists>e. r = Inl e) \<and> unchanged row r')"
    using room_close_effect [OF row run] row
    by (auto simp: closed_with_def unchanged_def find_room_def set_close_tags)
  then obtain r' where r': "find_room t ?k = Some r'"
    "?good row r' \<or> (\<exists>e. r = Inl e) \<and> unchanged row r'" by blast
  show "\<exists>res' qs' w'. close_one env tags_map end_by c (loaded row) (res, qs) w = (Inr (res', qs'), w') \<and>
      bulk_outcome ?good ?bad [row] res w res' w'"
  proof (cases r)
    case (Inl e)
    let ?res = "add_failure ?k (room_error env ?k e) res"
    have "bulk_outcome ?good ?bad [row] res w ?res t"
      by (rule bulk_outcome_single [OF ids others r'(1), where ok = False])
        (use r'(2) in \<open>auto simp: closed_or_unchanged_def\<close>)
    then show ?thesis using run Inl by (simp add: close_one_def attempt_def bnd_def ret_def)
  next
    case (Inr ob')
    have "bulk_outcome ?good ?bad [row] res w (add_success res) t"
      by (rule bulk_outcome_single [OF ids others r'(1), where ok = True]) (use r'(2) Inr in auto)
    moreover obtain t' where post: "post_close env ?k t = (Inr (), t')" and "routing_frame t t'"
      using post_close_run [OF r'(1)] by blast
    ultimately have "bulk_outcome ?good ?bad [row] res w (add_success res) t'"
      by (auto intro: bulk_outcome_frame simp: routing_frame_def)
    then show ?thesis
      using run Inr post by (simp add: close_one_def attempt_def bnd_def andthen_def ret_def)
  qed
qed

section \<open>Properties\<close>

lemma bulk_transfer_run:
  "check_validations w ks user q = Inr None \<Longrightarrow>
   bulk_transfer env route_now ks requester user q w =
     fold_each (\<lambda>ks res. bnd (load_rooms ks)
        (\<lambda>b. process_rows env route_now (transfer_one env user q requester) b res))
       (batches (set_batch_size env) ks) empty_result w"
  by (simp add: bulk_transfer_def bnd_def transfer_process_batch_def process_rows_def)

lemma bulk_take_run:
  "bulk_take env route_now ks u = fold_each (\<lambda>ks res. bnd (load_rooms ks)
        (\<lambda>b. process_rows env route_now (take_one env u) b res))
       (batches (set_batch_size env) ks) empty_result"
  by (simp add: bulk_take_def process_rows_def)

lemma bulk_close_run:
  "bulk_close env route_now ks tags_map end_by c = bnd (load_rooms ks) (\<lambda>obs.
     fold_each (process_rows env route_now (close_one env tags_map end_by c))
       (batches (set_batch_size env) obs) empty_result)"
  unfolding bulk_close_def process_rows_def [abs_def] ..

lemma fold_failures: "fold (\<lambda>k. add_failure k m) ks res = res\<lparr>res_failed := res_failed res + length ks,
   res_errors := res_errors res @ replicate (length ks) m,
   res_failed_rooms := res_failed_rooms res @ ks\<rparr>"
  by (induction ks arbitrary: res) (simp_all add: add_failure_def)

text \<open>C9. With Celery on, so that the routing at the end of a batch is left to tasks, a bulk transfer of
  rooms that exist either stops at its validation, changing nothing and reporting every room
  as failed with the same message, or counts each room exactly once: a room counted as a success has
  the new user and queue, a room counted as a failure is exactly as it was, and no other room changes.\<close>

theorem bulk_transfer_reports_truth:
  assumes "set_use_celery env" and "0 < set_batch_size env" and "query_keys w ks"
  shows "case check_validations w ks user q of
      Inl e \<Rightarrow> bulk_transfer env route_now ks requester user q w = (Inl e, w)
    | Inr (Some m) \<Rightarrow> bulk_transfer env route_now ks requester user q w =
        (Inr \<lparr>res_success = 0, res_failed = length ks, res_errors = replicate (length ks) m,
              res_failed_rooms = ks\<rparr>, w)
    | Inr None \<Rightarrow> \<exists>res w'. bulk_transfer env route_now ks requester user q w = (Inr res, w') \<and>
        bulk_report (transferred user q) unchanged ks w res w'"
  using transfer.report_reloaded [OF assms, of route_now env user q requester]
  by (auto simp: bulk_transfer_run split: sum.split option.split)
    (auto simp: bulk_transfer_def bnd_def ret_def fold_failures empty_result_def)

definition two_rooms :: world where
  "two_rooms = small_world\<lparr>rooms := [blank_room\<lparr>rm_queue := Some ''q''\<rparr>,
     blank_room\<lparr>rm_uuid := ''r2'', rm_queue := Some ''q'', rm_is_active := False\<rparr>]\<rparr>"

lemma two_rooms_keys: "query_keys two_rooms [''r1'', ''r2'']"
  by (simp add: query_keys_def two_rooms_def sample_defs)

lemma calm_bulk: "set_use_celery calm_env" "0 < set_batch_size calm_env"
  by (simp_all add: calm_env_def)

theorem bulk_transfer_reports_truth_witness:
  "\<exists>res w'. bulk_transfer calm_env (\<lambda>_. ret ()) [''r1'', ''r2''] ''a@x'' (Some ''a@x'') None two_rooms =
      (Inr res, w') \<and>
    bulk_report (transferred (Some ''a@x'') None) unchanged [''r1'', ''r2''] two_rooms res w'"
proof -
  have "check_validations two_rooms [''r1'', ''r2''] (Some ''a@x'') None = Inr None"
    by (simp add: check_validations_def validate_queue_def validate_user_def get_rooms_projects_def
        two_rooms_def sample_defs sector_of_def queue_of_def find_queue_def sector_of_queue_def
        find_sector_def)
  with bulk_transfer_reports_truth [OF calm_bulk two_rooms_keys,
      where user = "Some ''a@x''" and q = None and route_now = "\<lambda>_. ret ()" and requester = "''a@x''"]
  show ?thesis by simp
qed

text \<open>C10. A bulk close counts each room exactly once: a success was active and is now closed with the
  given end and exactly the given tags; a failure is as it was, or was closed although a later step
  failed; no other room changes, and the run itself never raises.\<close>

theorem bulk_close_reports_truth:
  assumes "set_use_celery env" and "0 < set_batch_size env" and "query_keys w ks"
  shows "\<exists>res w'. bulk_close env route_now ks tags_map end_by c w = (Inr res, w') \<and>
    bulk_report (closed_with env tags_map end_by c) (closed_or_unchanged env tags_map end_by c) ks w res w'"
  using close.report_loaded [OF assms, of route_now env tags_map end_by c] by (simp add: bulk_close_run)

theorem bulk_close_reports_truth_witness:
  "\<exists>res w'. bulk_close calm_env (\<lambda>_. ret ()) [''r1'', ''r2''] (\<lambda>_. None) ''agent'' None two_rooms =
      (Inr res, w') \<and>
    bulk_report (closed_with calm_env (\<lambda>_. None) ''agent'' None)
      (closed_or_unchanged calm_env (\<lambda>_. None) ''agent'' None) [''r1'', ''r2''] two_rooms res w'"
  by (rule bulk_close_reports_truth [OF calm_bulk two_rooms_keys])

text \<open>C11. A bulk take counts each room exactly once and never takes a room away from an agent: a
  success was free and now belongs to the taker, in the same queue; a failure is as it was, or was
  free and belongs to the taker because a later step failed.\<close>

theorem bulk_take_reports_truth:
  assumes "set_use_celery env" and "0 < set_batch_size env" and "query_keys w ks"
  shows "\<exists>res w'. bulk_take env route_now ks u w = (Inr res, w') \<and>
    bulk_report (taken_by u) (taken_or_unchanged u) ks w res w'"
  using take.report_reloaded [OF assms] by (simp add: bulk_take_run)

theorem bulk_take_reports_truth_witness:
  "\<exists>res w'. bulk_take calm_env (\<lambda>_. ret ()) [''r1'', ''r2''] ''a@x'' two_rooms = (Inr res, w') \<and>
    bulk_report (taken_by ''a@x'') (taken_or_unchanged ''a@x'') [''r1'', ''r2''] two_rooms res w'"
  by (rule bulk_take_reports_truth [OF calm_bulk two_rooms_keys])

definition latest_transfer :: "world \<Rightarrow> uuid \<Rightarrow> json option option" where
  "latest_transfer w k = map_option rm_transfer_history (find_room w k)"

lemma add_transfer_recorded:
  assumes pk: "room_pk ob = k" and run: "add_transfer_to_history env x ob w = (Inr ob', w')"
  shows "latest_transfer w' k = Some (Some x)"
proof -
  let ?cols = "\<lambda>r row. row\<lparr>rm_full_transfer_history := rm_full_transfer_history r,
      rm_transfer_history := rm_transfer_history r\<rparr>"
  let ?ob = "set_row (\<lambda>r. r\<lparr>rm_full_transfer_history :=
       Some ((case rm_full_transfer_history r of None \<Rightarrow> [] | Some h \<Rightarrow> h) @ [x]),
       rm_transfer_history := Some x\<rparr>) ob"
  let ?r = "stamped env ?ob"
  let ?rest = "andthen (tags_on_queue_change ?ob ?r)
      (andthen (update_agent_service_status env (ob_adding ?ob) ?r) (ret (saved_obj (Some ?cols) ?r ?ob)))"
  have hist: "rm_transfer_history ?r = Some x" "rm_uuid ?r = k"
    using pk by (simp_all add: stamped_def stamp_times_def Let_def set_row_def room_pk_def)
  have "andthen (when_true (user_changed ?ob) (clear_pins (room_pk ?ob)))
      (andthen (write_room (Some ?cols) (ob_adding ?ob) ?r) ?rest) w = (Inr ob', w')"
    using run
    by (auto simp: add_transfer_to_history_def room_save_def run_gets raise_def split: if_splits)
  then obtain w1 where "andthen (write_room (Some ?cols) (ob_adding ?ob) ?r) ?rest w1 = (Inr ob', w')"
    by (rule andthen_InrE)
  then obtain w2 where wrote: "write_room (Some ?cols) (ob_adding ?ob) ?r w1 = (Inr (), w2)"
    and rest: "?rest w2 = (Inr ob', w')"
    by (rule andthen_InrE) auto
  have "latest_transfer w2 k = Some (Some x)"
  proof -
    obtain row where "find_room w1 k = Some row" and w2: "w2 = snd (update_room k (copy_columns (Some ?cols) ?r) w1)"
      using wrote hist(2)
      by (auto simp: write_room_def update_room_def modify_def split: option.splits if_splits)
    then have "find_room w2 k = Some (copy_columns (Some ?cols) ?r row)"
      unfolding w2 by (intro find_room_update_other) (simp_all add: copy_columns_def)
    then show ?thesis using hist by (simp add: latest_transfer_def copy_columns_def)
  qed
  moreover have "latest_transfer w' k = latest_transfer w2 k"
  proof -
    obtain w3 where tags: "tags_on_queue_change ?ob ?r w2 = (Inr (), w3)"
      and service: "andthen (update_agent_service_status env (ob_adding ?ob) ?r)
          (ret (saved_obj (Some ?cols) ?r ?ob)) w3 = (Inr ob', w')"
      using rest by (rule andthen_InrE) auto
    have "latest_transfer w3 k = latest_transfer w2 k"
      using tags hist(2)
      by (auto simp: tags_on_queue_change_def clear_tags_def update_room_def modify_def py_defs need_def
          latest_transfer_def find_room_update option.map_comp o_def split: option.splits if_splits)
    moreover
    have "keeps status_frame (andthen (update_agent_service_status env (ob_adding ?ob) ?r)
          (ret (saved_obj (Some ?cols) ?r ?ob)))"
      by (intro status_frame.keeps_andthen frame_update_agent_service_status status_frame.keeps_ret)
    from status_frame_tables(1) [OF keepsD [OF this service]] have "rooms w' = rooms w3" .
    ultimately show ?thesis by (simp add: latest_transfer_def find_room_def)
  qed
  ultimately show ?thesis by simp
qed

lemma history_recorded:
  assumes "room_pk ob = k" and "history_and_feedback env [x] ob w = (Inr ob', w')"
  shows "latest_transfer w' k = Some (Some x)"
proof -
  have "bnd (add_transfer_to_history env x ob) (\<lambda>ob'. andthen (create_room_feedback_message env (ob_row ob') x ''rt'')
      (ret ob')) w = (Inr ob', w')"
    using assms(2) by (simp add: history_and_feedback_def bnd_assoc andthen_def)
  then obtain ob1 w1 where add: "add_transfer_to_history env x ob w = (Inr ob1, w1)"
    and rest: "andthen (create_room_feedback_message env (ob_row ob1) x ''rt'') (ret ob1) w1 = (Inr ob', w')"
    by (rule bnd_InrE)
  have "keeps routing_frame (andthen (create_room_feedback_message env (ob_row ob1) x ''rt'') (ret ob1))"
    by (intro rframe_rules rframe_feedback)
  from keepsD [OF this rest] have "rooms w' = rooms w1" by (rule routing_frame_rooms)
  with add_transfer_recorded [OF assms(1) add] show ?thesis by (simp add: latest_transfer_def find_room_def)
qed

definition transfer_user_tail :: "env \<Rightarrow> email \<Rightarrow> room \<Rightarrow> room_obj \<Rightarrow> (world, unit) py" where
  "transfer_user_tail env old row ob2 = sequence
     [notify_user env (ob_row ob2) ''update'' (Some old), notify_user env (ob_row ob2) ''update'' None,
      notify_queue env (ob_row ob2) ''update'' False, update_ticket env (ob_row ob2),
      mark_notes_as_non_deletable (rm_uuid (ob_row ob2)),
      automatic_message_after_transfer env (rm_user_assigned_at row) (ob_row ob2)]"

text \<open>When a room that has an agent is transferred to a user, the transfer that the room
  records and shows in its feedback message names the previous agent as its target, not the new one.\<close>

theorem user_transfer_records_old_user:
  assumes "rm_user row = Some old" and "find_room w k = Some row"
    and "service_transfer_user env (loaded row) new requester w = (Inr ob', w')"
  shows "latest_transfer w' k = Some (Some (create_transfer_json env ''transfer'' (Party_User old)
     (Party_User old) (Some (Party_User requester))))"
proof -
  let ?x = "create_transfer_json env ''transfer'' (Party_User old) (Party_User old)
     (Some (Party_User requester))"
  have k: "rm_uuid row = k" using assms(2) by (rule find_room_uuid)
  obtain ob1 w1 where save: "room_save env None (set_row (\<lambda>r. r\<lparr>rm_user := Some new\<rparr>) (loaded row)) w =
      (Inr ob1, w1)"
    and rest: "andthen (count_if_queued env (Some old) (ob_row ob1))
       (bnd (history_and_feedback env [?x] ob1) (\<lambda>ob2. andthen (transfer_user_tail env old row ob2) (ret ob2)))
       w1 = (Inr ob', w')"
    using assms(1,3)
    by (auto simp: service_transfer_user_def user_party_def Let_def transfer_user_tail_def elim: bnd_InrE)
  have pk: "room_pk ob1 = k"
    using returnsD [OF returns_save_set [of "loaded row" k _ env None] save] k by simp
  from rest obtain w2 where "bnd (history_and_feedback env [?x] ob1)
      (\<lambda>ob2. andthen (transfer_user_tail env old row ob2) (ret ob2)) w2 = (Inr ob', w')"
    by (rule andthen_InrE)
  then obtain ob2 w3 where history: "history_and_feedback env [?x] ob1 w2 = (Inr ob2, w3)"
    and tail: "andthen (transfer_user_tail env old row ob2) (ret ob2) w3 = (Inr ob', w')"
    by (rule bnd_InrE)
  have "keeps routing_frame (andthen (transfer_user_tail env old row ob2) (ret ob2))"
    by (auto simp: transfer_user_tail_def intro!: rframe_rules rframe_bulk)
  from keepsD [OF this tail] have "rooms w' = rooms w3" by (rule routing_frame_rooms)
  then show ?thesis
    using history_recorded [OF pk history] by (simp add: latest_transfer_def find_room_def)
qed

definition busy_world :: world where
  "busy_world = small_world\<lparr>rooms := [blank_room\<lparr>rm_user := Some ''a@x'', rm_queue := Some ''q''\<rparr>]\<rparr>"

lemma busy_transfer_ok: "\<not> isl (fst (service_transfer_user calm_env (loaded (hd (rooms busy_world)))
    ''b@x'' ''m@x'' busy_world))"
  by code_simp

theorem user_transfer_records_old_user_witness:
  "latest_transfer (snd (service_transfer_user calm_env (loaded (hd (rooms busy_world))) ''b@x'' ''m@x'' busy_world)) ''r1'' =
     Some (Some (create_transfer_json calm_env ''transfer'' (Party_User ''a@x'') (Party_User ''a@x'')
       (Some (Party_User ''m@x''))))"
proof -
  let ?run = "service_transfer_user calm_env (loaded (hd (rooms busy_world))) ''b@x'' ''m@x'' busy_world"
  have run: "?run = (Inr (projr (fst ?run)), snd ?run)"
    using busy_transfer_ok by (simp add: prod_eq_iff)
  have "rm_user (hd (rooms busy_world)) = Some ''a@x''"
    "find_room busy_world ''r1'' = Some (hd (rooms busy_world))"
    by (simp_all add: busy_world_def sample_defs find_room_def)
  from user_transfer_records_old_user [OF this run] show ?thesis .
qed

lemma no_queue: "rm_queue r = None \<Longrightarrow> queue_of w r = None \<and> sector_of w r = None \<and> project_of w r = None"
  by (simp add: queue_of_def sector_of_def project_of_def)

lemma save_out_of_queue:
  assumes row: "find_room w (room_pk ob) = Some row" "rm_is_active row" and "\<not> ob_adding ob"
    and q: "rm_queue (ob_row ob) = None" "rm_queue (copy_columns cols (stamped env ob) row) = None"
  shows "\<exists>w'. room_save env cols ob w = (Inr (saved_obj cols (stamped env ob) ob), w')"
proof -
  let ?r = "stamped env ob"
  define w1 where "w1 = without_pins (user_changed ob) (room_pk ob) w"
  have clear: "when_true (user_changed ob) (clear_pins (room_pk ob)) w = (Inr (), w1)"
    by (simp add: w1_def without_pins_def when_true_def clear_pins_def modify_def ret_def)
  have "\<not> contact_queue_clash (rooms w1) (copy_columns cols ?r row)"
    using q(2) by (simp add: contact_queue_clash_def)
  then obtain w2 where wrote: "write_room cols False ?r w1 = (Inr (), w2)"
    using row by (simp add: write_room_def w1_def update_room_def modify_def)
  have tags: "tags_on_queue_change ob ?r w2 = (Inr (), w2)"
    using q(1) by (simp add: tags_on_queue_change_def ret_def split: option.split)
  have service: "update_agent_service_status env b ?r w2 = (Inr (), w2)" for b
    using no_queue [of ?r] q(1) by (simp add: update_agent_service_status_def py_defs)
  show ?thesis
    using row assms(3) clear wrote tags service
    by (simp add: room_save_def run_gets run_Inr(2) [where m = "when_true (user_changed ob) (clear_pins (room_pk ob))", OF clear]
        run_Inr(2) [where m = "write_room cols False ?r", OF wrote]
        run_Inr(2) [where m = "tags_on_queue_change ob ?r", OF tags]
        run_Inr(2) [where m = "update_agent_service_status env False ?r", OF service] ret_def)
qed

lemma feedback_out_of_queue:
  assumes "rm_is_active r" and "rm_queue r = None" and "rm_user r = Some u"
  shows "\<exists>w'. create_room_feedback_message env r x m w = (Inl AttributeError, w')"
  using assms no_queue [OF assms(2)]
  by (simp add: create_room_feedback_message_def message_create_def message_notify_room_def
      base_notification_def room_get_permission_def py_defs need_def new_id_def Let_def)

text \<open>Taking a room that waits outside every queue fails while its feedback message is announced,
  after the room was given to the taker: the take is reported as a failure, but the room is theirs.\<close>

theorem failed_take_keeps_room:
  assumes "find_room w k = Some row" and "rm_is_active row" and "rm_user row = None"
    and "rm_queue row = None"
  shows "\<exists>w'. take_one env u (loaded row) (res, qs) w =
      (Inr (add_failure k (room_error env k AttributeError) res, qs), w') \<and>
    map_option rm_user (find_room w' k) = Some (Some u)"
proof -
  let ?ob = "set_row (\<lambda>r. r\<lparr>rm_user := Some u\<rparr>) (loaded row)"
  have k: "rm_uuid row = k" using assms(1) by (rule find_room_uuid)
  obtain out w' where run: "take_room env u (loaded row) w = (out, w')" by fastforce
  have ob: "room_pk ?ob = k" "\<not> ob_adding ?ob" "ob_row ?ob = row\<lparr>rm_user := Some u\<rparr>"
    using k by simp_all (simp_all add: set_row_def)
  have "rm_queue (copy_columns None (stamped env ?ob) row) = None"
    using assms(4) ob(3) by (simp add: copy_columns_def)
  then obtain w1 where save: "room_save env None ?ob w = (Inr (saved_obj None (stamped env ?ob) ?ob), w1)"
    using save_out_of_queue [of w ?ob row None env] assms ob by auto
  define ob1 where "ob1 = saved_obj None (stamped env ?ob) ?ob"
  let ?f = "create_transfer_json env ''pick'' (queue_party (queue_of w row)) (Party_User u) (Some (Party_User u))"
  define ob2 where "ob2 = set_row (\<lambda>r. r\<lparr>rm_full_transfer_history :=
       Some ((case rm_full_transfer_history r of None \<Rightarrow> [] | Some h \<Rightarrow> h) @ [?f]),
       rm_transfer_history := Some ?f\<rparr>) ob1"
  have row1: "ob_row ob1 = stamped env ?ob" "\<not> ob_adding ob1" "room_pk ob1 = k"
    using ob(1) by (simp_all add: ob1_def room_pk_saved) (simp_all add: saved_obj_def)
  have row2: "\<not> ob_adding ob2" "room_pk ob2 = k" "rm_queue (ob_row ob2) = None"
    "rm_is_active (ob_row ob2)" "rm_user (ob_row ob2) = Some u"
    using row1 ob assms by (simp_all add: ob2_def) (simp_all add: set_row_def)
  obtain tags where found: "find_room w1 k = Some ((stamped env ?ob)\<lparr>rm_tags := tags\<rparr>)"
    using room_save_effect [OF _ assms(2) ob(2) save] assms(1) ob(1) by auto
  let ?cols = "\<lambda>r row. row\<lparr>rm_full_transfer_history := rm_full_transfer_history r,
      rm_transfer_history := rm_transfer_history r\<rparr>"
  have "rm_queue (copy_columns (Some ?cols) (stamped env ob2) ((stamped env ?ob)\<lparr>rm_tags := tags\<rparr>)) = None"
    using ob(3) assms(4) by (simp add: copy_columns_def)
  then obtain w2 where "room_save env (Some ?cols) ob2 w1 = (Inr (saved_obj (Some ?cols) (stamped env ob2) ob2), w2)"
    using save_out_of_queue [of w1 ob2 "(stamped env ?ob)\<lparr>rm_tags := tags\<rparr>" "Some ?cols" env]
      found row2 assms(2) ob by auto
  moreover have "add_transfer_to_history env ?f ob1 = room_save env (Some ?cols) ob2"
    by (simp add: add_transfer_to_history_def ob2_def)
  ultimately obtain ob3 where add: "add_transfer_to_history env ?f ob1 w1 = (Inr ob3, w2)"
    and ob3: "ob_row ob3 = stamped env ob2"
    by (simp add: saved_obj_def)
  obtain w3 where feedback: "create_room_feedback_message env (ob_row ob3) ?f ''rt'' w2 = (Inl AttributeError, w3)"
    using feedback_out_of_queue [of "ob_row ob3" u env ?f "''rt''" w2] row2 by (auto simp: ob3)
  have "out = Inl AttributeError" and w': "w' = w3"
    using run save add feedback by (simp_all add: take_room_def history_and_feedback_def py_defs ob1_def)
  moreover have "map_option rm_user (find_room w3 k) = Some (Some u)"
  proof -
    have "history_frame k w1 w2" by (rule keepsD [OF hframe_add_transfer [OF row1(3)] add])
    moreover have "history_frame k w2 w3" by (rule keepsD [OF rframe_feedback [THEN hframe_routing] feedback])
    ultimately have "map_option placed (find_room w3 k) = map_option placed (find_room w1 k)"
      by (simp add: history_frame_def)
    with found ob show ?thesis by (auto simp: placed_def)
  qed
  ultimately show ?thesis
    using run assms(3) k by (simp add: take_one_def attempt_def bnd_def ret_def)
qed

theorem failed_take_keeps_room_witness:
  "\<exists>w'. take_one calm_env ''a@x'' (loaded blank_room) (empty_result, [])
        (small_world\<lparr>rooms := [blank_room]\<rparr>) =
      (Inr (add_failure ''r1'' (room_error calm_env ''r1'' AttributeError) empty_result, []), w') \<and>
    map_option rm_user (find_room w' ''r1'') = Some (Some ''a@x'')"
  by (rule failed_take_keeps_room) (simp_all add: sample_defs find_room_def)

end
