(* ===== verification/Inactivity.thy ===== *)
theory Inactivity
  imports Bulk_Ops
begin

text \<open>
  Messages the system sends on its own and the rooms it closes: \<open>AutomaticMessagesService\<close>
  (\<open>chats/apps/sectors/services.py\<close>), \<open>InactivityService\<close>
  (\<open>chats/apps/rooms/usecases/inactivity.py\<close>) and the periodic task \<open>check_inactivity_rooms\<close>
  (\<open>chats/apps/rooms/tasks.py\<close>).

  A pass works on the instances its query returned at the start, as the server-side cursor of
  \<open>iterator()\<close> does. \<open>elapsed < timeout\<close> compares seconds as floats in the code and microseconds here.
  The texts in a sector's configuration are strings; \<open>transaction.on_commit\<close> runs when the block ends,
  inside the surrounding \<open>try\<close>.
\<close>

section \<open>Automatic messages\<close>

definition mark_automatic :: "nat \<Rightarrow> automatic_type \<Rightarrow> (world, unit) py" where
  "mark_automatic k t = modify (\<lambda>w. w\<lparr>messages :=
     update_where (\<lambda>m. msg_id m = k) (\<lambda>m. m\<lparr>msg_automatic := Some t\<rparr>) (messages w)\<rparr>)"

datatype ticket_response =
    Ticket_Error
  | Ticket_Http nat
  | Ticket_Unreadable
  | Ticket_No_Results
  | Ticket_Results nat

text \<open>
  The loop that waits for the ticket: \<open>left\<close> attempts remain, the next pause lasts \<open>wait\<close> seconds.
  The result is whether the ticket was found and how long the loop slept. \<open>len(None)\<close> raises.
\<close>

fun wait_for_ticket :: "(nat \<Rightarrow> ticket_response) \<Rightarrow> nat \<Rightarrow> nat \<Rightarrow> nat \<Rightarrow> exn + bool \<times> nat" where
  "wait_for_ticket reply i wait 0 = Inr (False, 0)"
| "wait_for_ticket reply i wait (Suc left) =
     (let again = (case wait_for_ticket reply (Suc i) (2 * wait) left of
           Inl e \<Rightarrow> Inl e | Inr (found, slept) \<Rightarrow> Inr (found, wait + slept))
      in case reply i of
           Ticket_Error \<Rightarrow> Inl (ExternalError ''get_ticket'')
         | Ticket_No_Results \<Rightarrow> Inl TypeError
         | Ticket_Results n \<Rightarrow> if 0 < n then Inr (True, 0) else again
         | _ \<Rightarrow> again)"

text \<open>The project whose Flows holds the ticket; \<open>Project.objects.get\<close> raises when it is missing.\<close>

definition ticket_project :: "world \<Rightarrow> room \<Rightarrow> exn + project" where
  "ticket_project w r = (case sector_of w r of None \<Rightarrow> Inl AttributeError
     | Some s \<Rightarrow>
        (case obj_get (case sec_secondary_project s of None \<Rightarrow> [] | Some c \<Rightarrow> c) ''uuid'' JNull of
           JStr (c # cs) \<Rightarrow> (case find_project w (c # cs) of None \<Rightarrow> Inl (DoesNotExist ''Project'') | Some p \<Rightarrow> Inr p)
         | _ \<Rightarrow> (case project_of_sector w s of None \<Rightarrow> Inl AttributeError | Some p \<Rightarrow> Inr p)))"

definition check_ticket_exists ::
  "(uuid \<Rightarrow> nat \<Rightarrow> ticket_response) \<Rightarrow> nat \<Rightarrow> world \<Rightarrow> room \<Rightarrow> exn + unit" where
  "check_ticket_exists reply retries w r = (case ticket_project w r of Inl e \<Rightarrow> Inl e
     | Inr p \<Rightarrow> (case wait_for_ticket (reply (prj_uuid p)) 0 1 (retries + 1) of
           Inl e \<Rightarrow> Inl e
         | Inr (found, _) \<Rightarrow> if found then Inr () else Inl (RuntimeError ''ticket not found'')))"

definition automatic_open_blocked :: "world \<Rightarrow> room \<Rightarrow> sector \<Rightarrow> bool" where
  "automatic_open_blocked w r s \<longleftrightarrow> \<not> sec_is_automatic_message_active s
     \<or> sec_automatic_message_text s \<in> {None, Some []}
     \<or> list_ex (\<lambda>m. msg_room m = rm_uuid r \<and> msg_automatic m = Some AUTOMATIC_OPEN) (messages w)
     \<or> list_ex (\<lambda>m. msg_room m = rm_uuid r \<and> msg_user m \<noteq> None) (messages w)"

definition create_automatic_message ::
  "env \<Rightarrow> room \<Rightarrow> email option \<Rightarrow> string \<Rightarrow> automatic_type \<Rightarrow> (world, message) py" where
  "create_automatic_message env r user text t =
     bnd (message_create env r user None text False) (\<lambda>m.
     andthen (mark_automatic (msg_id m) t) (ret m))"

definition automatic_message_send ::
  "env \<Rightarrow> (uuid \<Rightarrow> nat \<Rightarrow> ticket_response) \<Rightarrow> nat \<Rightarrow> room \<Rightarrow> string \<Rightarrow> email \<Rightarrow> bool \<Rightarrow> (world, bool) py" where
  "automatic_message_send env reply retries r text user check_ticket =
     andthen (\<lambda>w. (if rm_ticket_uuid r \<noteq> None \<and> check_ticket
                   then check_ticket_exists reply retries w r else Inr (), w))
     (bnd (need AttributeError (\<lambda>w. sector_of w r)) (\<lambda>s.
      bnd (gets (\<lambda>w. automatic_open_blocked w r s)) (\<lambda>blocked.
      if blocked then ret False else
      try_except
        (bnd (atomic (bnd (create_automatic_message env r (Some user) text AUTOMATIC_OPEN) (\<lambda>m.
            andthen (update_room (rm_uuid r) (\<lambda>x. x\<lparr>rm_automatic_message_sent_at := Some (msg_created_on m)\<rparr>))
            (andthen (when_true (text \<noteq> []) (update_last_message (rm_uuid r) m (Some user) True)) (ret m)))))
          (\<lambda>m. andthen (message_notify_room env r m ''create'' True) (ret True)))
        (\<lambda>_. ret False))))"

section \<open>Inactivity\<close>

text \<open>\<open>config.get(key) or 0\<close> and \<open>config.get(key) or ""\<close>; comparing anything but a number raises.\<close>

definition config_seconds :: "(string \<times> json) list \<Rightarrow> string \<Rightarrow> exn + int" where
  "config_seconds c k = (case obj_get c k JNull of
     JInt n \<Rightarrow> Inr n | JBool b \<Rightarrow> Inr (if b then 1 else 0) | v \<Rightarrow> if truthy v then Inl TypeError else Inr 0)"

definition config_text :: "(string \<times> json) list \<Rightarrow> string \<Rightarrow> string" where
  "config_text c k = (case obj_get c k JNull of JStr s \<Rightarrow> s | v \<Rightarrow> if truthy v then json_dumps v else [])"

definition read_inactivity_config :: "world \<Rightarrow> room \<Rightarrow> (string \<times> json) list" where
  "read_inactivity_config w r = (case Option.bind (sector_of w r) sec_inactivity_timeout of
     None \<Rightarrow> [] | Some c \<Rightarrow> c)"

definition sector_switch :: "world \<Rightarrow> room \<Rightarrow> string \<Rightarrow> bool" where
  "sector_switch w r k = (obj_get (read_inactivity_config w r) k JNull = JBool True)"

definition eligible_warn :: "world \<Rightarrow> room \<Rightarrow> bool" where
  "eligible_warn w r \<longleftrightarrow> rm_is_active r \<and> \<not> rm_is_inactive r \<and> \<not> rm_is_waiting r \<and> rm_user r \<noteq> None
     \<and> rm_last_message_user r \<noteq> None \<and> sector_switch w r ''is_message_timeout_enabled''"

definition eligible_close :: "world \<Rightarrow> room \<Rightarrow> bool" where
  "eligible_close w r \<longleftrightarrow> rm_is_active r \<and> rm_is_inactive r \<and> \<not> rm_is_waiting r \<and> rm_user r \<noteq> None
     \<and> rm_last_message_user r \<noteq> None \<and> sector_switch w r ''is_close_room_enabled''"

text \<open>\<open>_send_silent_automatic_message\<close>.\<close>

definition send_silent_automatic_message ::
  "env \<Rightarrow> room \<Rightarrow> string \<Rightarrow> email option \<Rightarrow> automatic_type \<Rightarrow> (world, message option) py" where
  "send_silent_automatic_message env r text user t =
     (if text = [] then ret None else try_except
        (bnd (atomic (bnd (create_automatic_message env r user text t) (\<lambda>m.
            andthen (update_last_message (rm_uuid r) m user False) (ret m))))
          (\<lambda>m. andthen (message_notify_room env r m ''create'' True) (ret (Some m))))
        (\<lambda>_. andthen (emit (Sentry ''inactivity'')) (ret None)))"

definition warn_room :: "env \<Rightarrow> room \<Rightarrow> (string \<times> json) list \<Rightarrow> (world, bool) py" where
  "warn_room env r c =
     (let text = config_text c ''message_timeout_text'' in
      bnd (send_silent_automatic_message env r text (rm_user r) INACTIVE_WARNING) (\<lambda>message.
      if message = None \<and> text \<noteq> [] then ret False
      else andthen (update_room (rm_uuid r) (\<lambda>x. if \<not> rm_is_inactive x \<and> rm_is_active x
                      then x\<lparr>rm_is_inactive := True\<rparr> else x))
           (andthen (swallow (notify_inactivity env (r\<lparr>rm_is_inactive := True\<rparr>))) (ret True))))"

definition reset_inactivity :: "env \<Rightarrow> room_obj \<Rightarrow> (world, bool) py" where
  "reset_inactivity env ob =
     (if \<not> rm_is_active (ob_row ob) \<or> \<not> rm_is_inactive (ob_row ob) then ret False
      else andthen (update_room (room_pk ob) (\<lambda>x. if rm_is_active x then x\<lparr>rm_is_inactive := False\<rparr> else x))
           (andthen (swallow (notify_inactivity env ((ob_row ob)\<lparr>rm_is_inactive := False\<rparr>))) (ret True)))"

definition report_to_sentry :: "(world, unit) py \<Rightarrow> (world, unit) py" where
  "report_to_sentry m = try_except m (\<lambda>_. emit (Sentry ''inactivity''))"

definition after_automatic_close ::
  "env \<Rightarrow> (uuid \<Rightarrow> (world, unit) py) \<Rightarrow> room \<Rightarrow> (world, unit) py" where
  "after_automatic_close env route_now r = sequence
     [report_to_sentry (andthen (notify_queue env r ''close'' True) (notify_user env r ''close'' None)),
      when_true (set_activate_calc_metrics env)
        (report_to_sentry (delay env ''close_metrics'' [rm_uuid r])),
      bnd (gets (\<lambda>w. queue_of w r)) (\<lambda>q. case q of None \<Rightarrow> ret ()
        | Some x \<Rightarrow> report_to_sentry (start_queue_priority_routing env route_now x))]"

text \<open>\<open>room.close\<close> without tags: the default \<open>[]\<close> takes the tags of the room away.\<close>

definition close_inactive_room ::
  "env \<Rightarrow> (uuid \<Rightarrow> (world, unit) py) \<Rightarrow> room \<Rightarrow> (string \<times> json) list \<Rightarrow> (world, bool) py" where
  "close_inactive_room env route_now r c =
     bnd (send_silent_automatic_message env r (config_text c ''close_room_message_text'') (rm_user r)
            INACTIVE_CLOSE) (\<lambda>_.
     andthen (report_to_sentry (create_room_feedback_message env r
                (JObj [(''action'', JStr ''automatic_close'')]) ''rc''))
     (bnd (load_room (rm_uuid r)) (\<lambda>ob.
      bnd (attempt (room_close env (Some []) ''inactivity'' (rm_user (ob_row ob))
             (set_row (\<lambda>x. x\<lparr>rm_automatic_closed := True\<rparr>) ob))) (\<lambda>out.
      case out of
        Inl e \<Rightarrow> andthen (emit (Sentry ''inactivity'')) (ret False)
      | Inr ob' \<Rightarrow> andthen (after_automatic_close env route_now (ob_row ob')) (ret True)))))"

text \<open>The two passes over their instances; \<open>n\<close> counts what was done so far.\<close>

definition idle_for :: "env \<Rightarrow> room \<Rightarrow> int \<Rightarrow> bool" where
  "idle_for env r seconds = (case rm_last_interaction r of None \<Rightarrow> False
     | Some t \<Rightarrow> micros seconds \<le> env_now env - t)"

fun warn_loop :: "env \<Rightarrow> room list \<Rightarrow> nat \<Rightarrow> (world, nat) py" where
  "warn_loop env [] n = ret n"
| "warn_loop env (r # rs) n =
     (if set_max_warnings env \<le> n then ret n else
      bnd (gets (\<lambda>w. read_inactivity_config w r)) (\<lambda>c.
      bnd (lift_result (config_seconds c ''message_timeout_time'')) (\<lambda>timeout.
      if timeout \<le> 0 \<or> \<not> idle_for env r timeout then warn_loop env rs n
      else bnd (warn_room env r c) (\<lambda>ok. warn_loop env rs (if ok then Suc n else n)))))"

fun close_loop ::
  "env \<Rightarrow> (uuid \<Rightarrow> (world, unit) py) \<Rightarrow> room list \<Rightarrow> nat \<Rightarrow> (world, nat) py" where
  "close_loop env route_now [] n = ret n"
| "close_loop env route_now (r # rs) n =
     (if set_max_closures env \<le> n then ret n else
      bnd (gets (\<lambda>w. read_inactivity_config w r)) (\<lambda>c.
      bnd (lift_result (config_seconds c ''message_timeout_time'')) (\<lambda>warn_timeout.
      bnd (lift_result (config_seconds c ''close_room_timeout_time'')) (\<lambda>close_timeout.
      if warn_timeout \<le> 0 \<or> close_timeout \<le> 0 \<or> \<not> idle_for env r (warn_timeout + close_timeout)
      then close_loop env route_now rs n
      else bnd (close_inactive_room env route_now r c)
             (\<lambda>ok. close_loop env route_now rs (if ok then Suc n else n))))))"

definition warn_inactive_rooms :: "env \<Rightarrow> (world, nat) py" where
  "warn_inactive_rooms env =
     bnd (gets (\<lambda>w. filter (eligible_warn w) (rooms w))) (\<lambda>rs. warn_loop env rs 0)"

definition close_inactive_rooms :: "env \<Rightarrow> (uuid \<Rightarrow> (world, unit) py) \<Rightarrow> (world, nat) py" where
  "close_inactive_rooms env route_now =
     bnd (gets (\<lambda>w. filter (eligible_close w) (rooms w))) (\<lambda>rs. close_loop env route_now rs 0)"

text \<open>
  \<open>check_inactivity_rooms\<close>. The lock of \<open>redis-py\<close> carries a token of its owner: it is acquired with
  \<open>SET NX PX\<close>, like \<open>cache.add\<close>, and released only while it still holds the token.
\<close>

definition check_inactivity_rooms ::
  "env \<Rightarrow> 'c cache_ops \<Rightarrow> string \<Rightarrow> int \<Rightarrow> string \<Rightarrow> (uuid \<Rightarrow> (world, unit) py) \<Rightarrow> ('c shared, unit) py" where
  "check_inactivity_rooms env ops lock_name timeout token route_now = (\<lambda>(w, c).
     let (acquired, c1) = c_add ops lock_name (JStr token) timeout c
     in if \<not> acquired then (Inr (), (w, c1))
        else (let w1 = snd (report_to_sentry (bnd (warn_inactive_rooms env) (\<lambda>_. ret ())) w);
                  w2 = snd (report_to_sentry (bnd (close_inactive_rooms env route_now) (\<lambda>_. ret ())) w1)
              in (Inr (), (w2, if c_get ops lock_name c1 = Some (JStr token)
                               then snd (c_delete ops lock_name c1) else c1))))"

section \<open>What a message of the system changes\<close>

text \<open>
  Such a message changes the last-message columns of its room; \<open>quiet\<close> is the row without them.
\<close>

definition quiet :: "room \<Rightarrow> room" where
  "quiet r = r\<lparr>rm_last_message := None, rm_last_message_text := None, rm_last_message_user := None,
     rm_last_message_contact := None, rm_last_message_media := []\<rparr>"

definition talk_frame :: "uuid \<Rightarrow> world \<Rightarrow> world \<Rightarrow> bool" where
  "talk_frame k s t \<longleftrightarrow> config_frame s t \<and> same_ids s t \<and> others_kept k s t \<and>
     map_option quiet (find_room t k) = map_option quiet (find_room s k)"

interpretation talk: world_order "talk_frame k" for k
proof
  show "talk_frame k s s" for s
    by (simp add: talk_frame_def config_frame.R_refl others.R_refl same_ids_def)
  show "talk_frame k s t \<Longrightarrow> talk_frame k t u \<Longrightarrow> talk_frame k s u" for s t u
    unfolding talk_frame_def
    using config_frame.R_trans others.R_trans same_ids_trans by (metis (no_types, lifting))
  show "talk_frame k s (s\<lparr>effects := es\<rparr>)" for s es
    by (simp add: talk_frame_def config_frame.R_effects others.R_effects same_ids_def find_room_def)
qed

lemma talk_rooms: "config_frame s t \<Longrightarrow> rooms t = rooms s \<Longrightarrow> talk_frame k s t"
  by (simp add: talk_frame_def same_ids_def others_kept_def find_room_def)

lemma talk_routing: "keeps routing_frame m \<Longrightarrow> keeps (talk_frame k) m"
  by (erule keeps_mono) (rule talk_rooms, simp_all add: routing_frame_def config_frame_def)

lemma talk_update:
  assumes "\<And>r. rm_uuid (f r) = rm_uuid r" and "\<And>r. quiet (f r) = quiet r"
  shows "keeps (talk_frame k) (update_room k f)"
proof (rule keepsI)
  fix s
  have "config_frame s (snd (update_room k f s))"
    using cframe_rooms(1) by (simp add: keeps_def)
  moreover have "others_kept k s (snd (update_room k f s))"
    using others_update_room [OF assms(1)] by (simp add: keeps_def)
  moreover have "same_ids s (snd (update_room k f s))"
    using assms(1) by (simp add: same_ids_def update_room_def modify_def map_update_where)
  moreover have "map_option quiet (find_room (snd (update_room k f s)) k) = map_option quiet (find_room s k)"
    using assms by (simp add: update_room_def modify_def find_room_update option.map_comp o_def)
  ultimately show "talk_frame k s (snd (update_room k f s))" by (simp add: talk_frame_def)
qed

lemma rframe_create_automatic: "keeps routing_frame (create_automatic_message env r u t x)"
  unfolding create_automatic_message_def mark_automatic_def by (intro rframe_rules rframe_messages)

lemma talk_silent:
  assumes "rm_uuid r = k"
  shows "keeps (talk_frame k) (send_silent_automatic_message env r text u t)"
proof -
  have "keeps (talk_frame k) (update_last_message (rm_uuid r) m u False)" for m
    unfolding update_last_message_def assms by (rule talk_update) (simp_all add: quiet_def)
  then show ?thesis
    unfolding send_silent_automatic_message_def
    by (intro talk.keeps_world rframe_create_automatic [THEN talk_routing]
        rframe_messages [THEN talk_routing])
qed

lemma rframe_inactivity: "keeps routing_frame (swallow (notify_inactivity env r))"
  unfolding notify_inactivity_def by (intro routing_frame.keeps_swallow rframe_notify)

section \<open>Warnings\<close>

definition flagless :: "room \<Rightarrow> room" where
  "flagless r = (quiet r)\<lparr>rm_is_inactive := False\<rparr>"

definition warn_due :: "env \<Rightarrow> world \<Rightarrow> room \<Rightarrow> bool" where
  "warn_due env w r \<longleftrightarrow> eligible_warn w r \<and>
     (\<exists>t > 0. config_seconds (read_inactivity_config w r) ''message_timeout_time'' = Inr t \<and> idle_for env r t)"

text \<open>Between the start of a pass and any later point: rooms differ in their last message only, and
  in the flag when a warning was due.\<close>

definition warned_from :: "env \<Rightarrow> world \<Rightarrow> world \<Rightarrow> bool" where
  "warned_from env w0 w \<longleftrightarrow> config_frame w0 w \<and> same_ids w0 w \<and>
     (\<forall>k. map_option flagless (find_room w k) = map_option flagless (find_room w0 k)) \<and>
     (\<forall>k r0 r. find_room w0 k = Some r0 \<longrightarrow> find_room w k = Some r \<longrightarrow>
        rm_is_inactive r = rm_is_inactive r0 \<or> rm_is_inactive r \<and> warn_due env w0 r0)"

lemma quiet_flag: "quiet r = quiet r' \<Longrightarrow> rm_is_inactive r = rm_is_inactive r' \<and> flagless r = flagless r'"
  unfolding flagless_def by (cases r; cases r') (simp add: quiet_def)

lemma warned_talk:
  assumes "warned_from env w0 w" and "talk_frame k w w'"
  shows "warned_from env w0 w'"
proof -
  have same: "map_option quiet (find_room w' j) = map_option quiet (find_room w j)" for j
    using assms(2) by (cases "j = k") (auto simp: talk_frame_def others_kept_def)
  have rel: "find_room w' j = None \<and> find_room w j = None \<or>
      (\<exists>r r'. find_room w j = Some r \<and> find_room w' j = Some r' \<and> rm_is_inactive r' = rm_is_inactive r
         \<and> flagless r' = flagless r)" for j
  proof (cases "find_room w' j")
    case None
    with same [of j] show ?thesis by (cases "find_room w j") auto
  next
    case (Some r')
    with same [of j] obtain r where "find_room w j = Some r" "quiet r' = quiet r"
      by (cases "find_room w j") auto
    with quiet_flag [of r' r] Some show ?thesis by auto
  qed
  have "map_option flagless (find_room w' j) = map_option flagless (find_room w j)" for j
    using rel [of j] by auto
  moreover have "rm_is_inactive r = rm_is_inactive r0 \<or> rm_is_inactive r \<and> warn_due env w0 r0"
    if r0: "find_room w0 j = Some r0" and r: "find_room w' j = Some r" for j r0 r
  proof -
    obtain x where "find_room w j = Some x" "rm_is_inactive r = rm_is_inactive x"
      using rel [of j] r by auto
    with assms(1) r0 show ?thesis unfolding warned_from_def by auto
  qed
  moreover have "config_frame w0 w'" "same_ids w0 w'"
    using assms config_frame.R_trans [of w0 w w'] same_ids_trans [of w0 w w']
    by (simp_all add: warned_from_def talk_frame_def)
  ultimately show ?thesis using assms(1) unfolding warned_from_def by simp
qed

lemma warned_flag:
  assumes w: "warned_from env w0 w" and r: "find_room w0 k = Some r0" and due: "warn_due env w0 r0"
  shows "warned_from env w0 (snd (update_room k (\<lambda>x. if \<not> rm_is_inactive x \<and> rm_is_active x
     then x\<lparr>rm_is_inactive := True\<rparr> else x) w))" (is "warned_from env w0 (snd (update_room k ?f w))")
proof -
  have f: "\<And>r. rm_uuid (?f r) = rm_uuid r" "\<And>r. flagless (?f r) = flagless r"
    by (simp_all add: flagless_def quiet_def)
  let ?w = "snd (update_room k ?f w)"
  have found: "find_room ?w j = (if j = k then map_option ?f (find_room w j) else find_room w j)" for j
    using find_room_update [where f = ?f] f(1) by (simp add: update_room_def modify_def)
  have "config_frame w ?w" using cframe_rooms(1) by (simp add: keeps_def)
  moreover have "same_ids w ?w"
    using f(1) by (simp add: same_ids_def update_room_def modify_def map_update_where)
  moreover have "map_option flagless (find_room ?w j) = map_option flagless (find_room w j)" for j
    using f(2) by (simp add: found option.map_comp o_def)
  moreover have "rm_is_inactive r = rm_is_inactive r1 \<or> rm_is_inactive r \<and> warn_due env w0 r1"
    if r1: "find_room w0 j = Some r1" and x1: "find_room ?w j = Some r" for j r1 r
  proof (cases "j = k")
    case True
    then obtain x where "find_room w k = Some x" "r = ?f x" using x1 found by auto
    with w r1 True due r show ?thesis
      unfolding warned_from_def by (cases "\<not> rm_is_inactive x \<and> rm_is_active x") auto
  next
    case False
    with w r1 x1 found show ?thesis unfolding warned_from_def by auto
  qed
  moreover have "config_frame w0 ?w" "same_ids w0 ?w"
    using w calculation(1,2) config_frame.R_trans [of w0 w ?w] same_ids_trans [of w0 w ?w]
    by (simp_all add: warned_from_def)
  ultimately show ?thesis using w unfolding warned_from_def by simp
qed

lemma config_cong: "config_frame s t \<Longrightarrow> read_inactivity_config t = read_inactivity_config s"
  unfolding config_frame_def read_inactivity_config_def [abs_def] using lookup_cong(4) [of t s] by simp

lemma warned_routing: "warned_from env w0 w \<Longrightarrow> routing_frame w w' \<Longrightarrow> warned_from env w0 w'"
  by (erule warned_talk [where k = "[]"], rule talk_rooms) (simp_all add: routing_frame_def config_frame_def)

lemma run_update_room: "andthen (update_room k f) m w = m (snd (update_room k f w))"
  by (simp add: andthen_def bnd_def update_room_def modify_def)

lemma warned_warn_room:
  assumes w: "warned_from env w0 w" and r: "find_room w0 (rm_uuid r) = Some r" and due: "warn_due env w0 r"
    and run: "warn_room env r c w = (res, w')"
  shows "warned_from env w0 w'"
proof -
  let ?text = "config_text c ''message_timeout_text''"
  obtain out w1 where sent: "send_silent_automatic_message env r ?text (rm_user r) INACTIVE_WARNING w = (out, w1)"
    by fastforce
  have w1: "warned_from env w0 w1" by (rule warned_talk [OF w keepsD [OF talk_silent [OF refl] sent]])
  show ?thesis
  proof (cases out)
    case (Inl e)
    with run sent w1 show ?thesis by (simp add: warn_room_def Let_def bnd_def)
  next
    case (Inr message)
    show ?thesis
    proof (cases "message = None \<and> ?text \<noteq> []")
      case True
      with run sent w1 Inr show ?thesis by (simp add: warn_room_def Let_def bnd_def ret_def)
    next
      case False
      let ?upd = "update_room (rm_uuid r) (\<lambda>x. if \<not> rm_is_inactive x \<and> rm_is_active x
         then x\<lparr>rm_is_inactive := True\<rparr> else x)"
      have w2: "warned_from env w0 (snd (?upd w1))" by (rule warned_flag [OF w1 r due])
      let ?rest = "andthen (swallow (notify_inactivity env (r\<lparr>rm_is_inactive := True\<rparr>))) (ret True)"
      have "andthen ?upd ?rest w1 = (res, w')"
        using run unfolding warn_room_def Let_def
        by (subst (asm) run_Inr(1) [where m = "send_silent_automatic_message env r ?text (rm_user r) INACTIVE_WARNING"
            and s = w, OF sent [unfolded Inr]]) (simp only: False if_False)
      then have "?rest (snd (?upd w1)) = (res, w')"
        by (simp only: run_update_room)
      moreover have "keeps routing_frame (andthen (swallow (notify_inactivity env (r\<lparr>rm_is_inactive := True\<rparr>))) (ret True))"
        by (intro rframe_rules rframe_inactivity)
      ultimately show ?thesis using w2 by (blast intro: warned_routing keepsD)
    qed
  qed
qed

lemma warned_loop:
  assumes "\<And>r. r \<in> set rs \<Longrightarrow> find_room w0 (rm_uuid r) = Some r \<and> eligible_warn w0 r"
    and "warned_from env w0 w" and "n \<le> set_max_warnings env" and "warn_loop env rs n w = (res, w')"
  shows "warned_from env w0 w' \<and> (\<forall>m. res = Inr m \<longrightarrow> m \<le> set_max_warnings env)"
  using assms
proof (induction rs arbitrary: n w)
  case Nil
  then show ?case by (auto simp: ret_def)
next
  case (Cons r rs)
  note IH = Cons.IH [OF Cons.prems(1)]
  have r: "find_room w0 (rm_uuid r) = Some r" "eligible_warn w0 r" using Cons.prems(1) by auto
  show ?case
  proof (cases "set_max_warnings env \<le> n")
    case True
    with Cons.prems show ?thesis by (auto simp: ret_def)
  next
    case False
    let ?c = "read_inactivity_config w0 r"
    have c: "read_inactivity_config w r = ?c"
      using Cons.prems(2) config_cong [of w0 w] by (simp add: warned_from_def)
    show ?thesis
    proof (cases "config_seconds ?c ''message_timeout_time''")
      case (Inl e)
      with False Cons.prems c show ?thesis by (auto simp: run_gets run_lift)
    next
      case (Inr t)
      show ?thesis
      proof (cases "t \<le> 0 \<or> \<not> idle_for env r t")
        case True
        with Inr False c Cons.prems(4) have "warn_loop env rs n w = (res, w')"
          by (auto simp: run_gets run_lift)
        from IH [OF _ Cons.prems(2,3) this] show ?thesis by simp
      next
        case idle: False
        with Inr r have due: "warn_due env w0 r" by (auto simp: warn_due_def)
        have step: "bnd (warn_room env r ?c) (\<lambda>ok. warn_loop env rs (if ok then Suc n else n)) w = (res, w')"
          using idle Inr False c Cons.prems(4) by (simp add: run_gets run_lift)
        obtain out w1 where one: "warn_room env r ?c w = (out, w1)" by fastforce
        have w1: "warned_from env w0 w1" by (rule warned_warn_room [OF Cons.prems(2) r(1) due one])
        show ?thesis
        proof (cases out)
          case (Inl e)
          with one step w1 show ?thesis by (auto simp: bnd_def)
        next
          case (Inr ok)
          with one step have "warn_loop env rs (if ok then Suc n else n) w1 = (res, w')"
            by (simp add: bnd_def)
          from IH [OF _ w1 _ this] False show ?thesis by (simp split: if_splits)
        qed
      qed
    qed
  qed
qed

section \<open>Closures\<close>

definition close_due :: "env \<Rightarrow> world \<Rightarrow> room \<Rightarrow> bool" where
  "close_due env w r \<longleftrightarrow> eligible_close w r \<and>
     (\<exists>a > 0. \<exists>b > 0. config_seconds (read_inactivity_config w r) ''message_timeout_time'' = Inr a \<and>
        config_seconds (read_inactivity_config w r) ''close_room_timeout_time'' = Inr b \<and>
        idle_for env r (a + b))"

definition idle_closed :: "room \<Rightarrow> room \<Rightarrow> bool" where
  "idle_closed r0 r \<longleftrightarrow> \<not> rm_is_active r \<and> rm_ended_by r = Some ''inactivity'' \<and>
     rm_closed_by r = rm_user r0 \<and> rm_user r = rm_user r0 \<and> rm_automatic_closed r \<and>
     rm_tags r = []"

definition closed_from :: "env \<Rightarrow> world \<Rightarrow> world \<Rightarrow> bool" where
  "closed_from env w0 w \<longleftrightarrow> config_frame w0 w \<and> same_ids w0 w \<and>
     (\<forall>k r0. find_room w0 k = Some r0 \<longrightarrow> (\<exists>r. find_room w k = Some r \<and>
        (quiet r = quiet r0 \<or> close_due env w0 r0 \<and> idle_closed r0 r)))"

lemma quiet_fields:
  assumes "quiet r = quiet r'"
  shows "rm_user r = rm_user r'" "rm_is_active r = rm_is_active r'" "rm_ended_by r = rm_ended_by r'"
    "rm_closed_by r = rm_closed_by r'" "rm_automatic_closed r = rm_automatic_closed r'" "rm_tags r = rm_tags r'"
  using assms by (cases r; cases r'; simp add: quiet_def)+

lemma idle_closed_quiet: "quiet r = quiet r' \<Longrightarrow> idle_closed r0 r = idle_closed r0 r'"
  using quiet_fields [of r r'] by (simp add: idle_closed_def)

lemma closed_step:
  assumes w: "closed_from env w0 w" and frame: "config_frame w w'" "same_ids w w'"
    and rows: "\<And>k r. find_room w k = Some r \<Longrightarrow> \<exists>r'. find_room w' k = Some r' \<and>
      (quiet r' = quiet r \<or> (\<forall>r0. find_room w0 k = Some r0 \<and> quiet r = quiet r0 \<longrightarrow>
          close_due env w0 r0 \<and> idle_closed r0 r') \<and> rm_is_active r)"
  shows "closed_from env w0 w'"
proof -
  have "\<exists>r'. find_room w' k = Some r' \<and> (quiet r' = quiet r0 \<or> close_due env w0 r0 \<and> idle_closed r0 r')"
    if r0: "find_room w0 k = Some r0" for k r0
  proof -
    from w r0 obtain r where r: "find_room w k = Some r"
      "quiet r = quiet r0 \<or> close_due env w0 r0 \<and> idle_closed r0 r"
      unfolding closed_from_def by blast
    from rows [OF r(1)] obtain r' where r': "find_room w' k = Some r'"
      "quiet r' = quiet r \<or> (\<forall>r0. find_room w0 k = Some r0 \<and> quiet r = quiet r0 \<longrightarrow>
          close_due env w0 r0 \<and> idle_closed r0 r') \<and> rm_is_active r" by blast
    from r(2) r'(2) r0 idle_closed_quiet [of r' r r0]
    have "quiet r' = quiet r0 \<or> close_due env w0 r0 \<and> idle_closed r0 r'"
      by (auto simp: idle_closed_def)
    with r'(1) show ?thesis by blast
  qed
  moreover have "config_frame w0 w'" "same_ids w0 w'"
    using w frame config_frame.R_trans [of w0 w w'] same_ids_trans [of w0 w w']
    by (simp_all add: closed_from_def)
  ultimately show ?thesis by (simp add: closed_from_def)
qed

lemma closed_talk:
  assumes "closed_from env w0 w" and t: "talk_frame k w w'"
  shows "closed_from env w0 w'"
proof (rule closed_step [OF assms(1)])
  fix j r assume r: "find_room w j = Some r"
  show "\<exists>r'. find_room w' j = Some r' \<and> (quiet r' = quiet r \<or> (\<forall>r0. find_room w0 j = Some r0 \<and>
      quiet r = quiet r0 \<longrightarrow> close_due env w0 r0 \<and> idle_closed r0 r') \<and> rm_is_active r)"
  proof (cases "j = k")
    case True
    with t r have "map_option quiet (find_room w' j) = Some (quiet r)" by (simp add: talk_frame_def)
    then show ?thesis by auto
  next
    case False
    with t r show ?thesis by (auto simp: talk_frame_def others_kept_def)
  qed
qed (use t in \<open>simp_all add: talk_frame_def\<close>)

lemma closed_routing: "closed_from env w0 w \<Longrightarrow> routing_frame w w' \<Longrightarrow> closed_from env w0 w'"
  by (erule closed_talk [where k = "[]"], rule talk_rooms) (simp_all add: routing_frame_def config_frame_def)

lemma closed_close:
  assumes w: "closed_from env w0 w" and r0: "find_room w0 k = Some r0" and due: "close_due env w0 r0"
    and row: "find_room w k = Some row"
    and run: "room_close env (Some []) ''inactivity'' (rm_user row)
        (set_row (\<lambda>x. x\<lparr>rm_automatic_closed := True\<rparr>) (loaded row)) w = (res, w')"
  shows "closed_from env w0 w'"
proof (rule closed_step [OF w])
  let ?ob = "set_row (\<lambda>x. x\<lparr>rm_automatic_closed := True\<rparr>) (loaded row)"
  have k: "rm_uuid row = k" using row by (rule find_room_uuid)
  have ob: "up_to_date k ?ob" "room_pk ?ob = k" "\<not> ob_adding ?ob"
    using k by (simp_all add: up_to_date_def) (simp_all add: set_row_def)
  show "config_frame w w'" by (rule keepsD [OF cframe_room_close run])
  show "same_ids w w'"
    using keepsD [OF ids_room_close [OF ob(2,3)] run] row by (simp add: ids_kept_def)
  have others: "others_kept k w w'" using keepsD [OF others_room_close run] ob(2) by simp
  fix j r assume r: "find_room w j = Some r"
  show "\<exists>r'. find_room w' j = Some r' \<and> (quiet r' = quiet r \<or> (\<forall>r0. find_room w0 j = Some r0 \<and>
      quiet r = quiet r0 \<longrightarrow> close_due env w0 r0 \<and> idle_closed r0 r') \<and> rm_is_active r)"
  proof (cases "j = k \<and> rm_is_active row")
    case True
    with r row have j: "j = k" "r = row" "rm_is_active row" by simp_all
    show ?thesis
    proof (cases rule: close_cases_of [OF row j(3) ob(1) run])
      case (1 e)
      with r show ?thesis by (auto simp: find_room_def)
    next
      case (2 r')
      have "idle_closed r1 r'" if "quiet row = quiet r1" for r1
      proof -
        have "close_tags (Some []) ts = []" for ts by (simp add: close_tags_def)
        then have "rm_tags r' = []" using 2(2) by simp
        then show ?thesis using 2(2) quiet_fields(1) [OF that]
          by (simp add: idle_closed_def) (simp add: stamped_def stamp_times_def closing_def set_row_def Let_def)
      qed
      with 2(1) j r0 due show ?thesis by auto
    qed
  next
    case False
    then consider "j \<noteq> k" | "j = k" "\<not> rm_is_active row" by blast
    then show ?thesis
    proof cases
      case 1
      with others r show ?thesis by (auto simp: others_kept_def)
    next
      case 2
      with close_closed_row [of w ?ob row env "Some []" "''inactivity''" "rm_user row"] row ob(2) run r
      show ?thesis by (auto simp: find_room_def)
    qed
  qed
qed

lemma rframe_report: "keeps routing_frame m \<Longrightarrow> keeps routing_frame (report_to_sentry m)"
  unfolding report_to_sentry_def by (intro rframe_rules)

lemma rframe_after_automatic_close:
  assumes "set_use_celery env"
  shows "keeps routing_frame (after_automatic_close env route_now r)"
  using assms unfolding after_automatic_close_def start_queue_priority_routing_def
  by (auto intro!: rframe_rules rframe_report rframe_notify split: option.split)

text \<open>A statement that keeps \<open>closed_from\<close> from one start world.\<close>

lemma closed_then:
  assumes "closed_from env w0 w" and "\<And>r t. m w = (r, t) \<Longrightarrow> closed_from env w0 t"
    and "\<And>x t. m w = (Inr x, t) \<Longrightarrow> closed_from env w0 t \<Longrightarrow> closed_from env w0 (snd (f x t))"
  shows "closed_from env w0 (snd (bnd m f w))"
proof -
  obtain r t where m: "m w = (r, t)" by fastforce
  with assms show ?thesis by (cases r) (auto simp: bnd_def)
qed

lemma closed_keeps: "closed_from env w0 w \<Longrightarrow> keeps routing_frame m \<Longrightarrow> closed_from env w0 (snd (m w))"
  by (auto simp: keeps_def intro: closed_routing)

lemma closed_close_inactive:
  assumes celery: "set_use_celery env" and w: "closed_from env w0 w"
    and r0: "find_room w0 (rm_uuid r) = Some r0" and due: "close_due env w0 r0"
  shows "closed_from env w0 (snd (close_inactive_room env route_now r c w))"
  unfolding close_inactive_room_def
proof (rule closed_then [OF w])
  fix out t assume "send_silent_automatic_message env r (config_text c ''close_room_message_text'')
    (rm_user r) INACTIVE_CLOSE w = (out, t)"
  then show "closed_from env w0 t" by (rule closed_talk [OF w keepsD [OF talk_silent [OF refl]]])
next
  fix m t assume t: "closed_from env w0 t"
  let ?feedback = "report_to_sentry (create_room_feedback_message env r
      (JObj [(''action'', JStr ''automatic_close'')]) ''rc'')"
  show "closed_from env w0 (snd (andthen ?feedback
     (bnd (load_room (rm_uuid r)) (\<lambda>ob. bnd (attempt (room_close env (Some []) ''inactivity''
        (rm_user (ob_row ob)) (set_row (\<lambda>x. x\<lparr>rm_automatic_closed := True\<rparr>) ob))) (\<lambda>out.
      case out of Inl e \<Rightarrow> andthen (emit (Sentry ''inactivity'')) (ret False)
      | Inr ob' \<Rightarrow> andthen (after_automatic_close env route_now (ob_row ob')) (ret True)))) t))"
    unfolding andthen_def [of ?feedback]
  proof (rule closed_then [OF t])
    fix x u assume "?feedback t = (x, u)"
    with closed_keeps [OF t rframe_report [OF rframe_feedback]] show "closed_from env w0 u"
      by (metis snd_conv)
  next
    fix x u assume u: "closed_from env w0 u"
    show "closed_from env w0 (snd (bnd (load_room (rm_uuid r)) (\<lambda>ob. bnd (attempt (room_close env (Some [])
        ''inactivity'' (rm_user (ob_row ob)) (set_row (\<lambda>x. x\<lparr>rm_automatic_closed := True\<rparr>) ob))) (\<lambda>out.
      case out of Inl e \<Rightarrow> andthen (emit (Sentry ''inactivity'')) (ret False)
      | Inr ob' \<Rightarrow> andthen (after_automatic_close env route_now (ob_row ob')) (ret True))) u))"
    proof (cases "find_room u (rm_uuid r)")
      case None
      then show ?thesis using u by (simp add: load_room_def need_def bnd_def)
    next
      case (Some row)
      show ?thesis
        unfolding run_Inr(1) [where m = "load_room (rm_uuid r)" and s = u, OF load_room_run [OF Some]] loaded_simps
      proof (rule closed_then [OF u])
        fix out v assume "attempt (room_close env (Some []) ''inactivity'' (rm_user row)
            (set_row (\<lambda>x. x\<lparr>rm_automatic_closed := True\<rparr>) (loaded row))) u = (out, v)"
        then obtain res where "room_close env (Some []) ''inactivity'' (rm_user row)
            (set_row (\<lambda>x. x\<lparr>rm_automatic_closed := True\<rparr>) (loaded row)) u = (res, v)"
          by (auto simp: attempt_def split: prod.splits)
        then show "closed_from env w0 v" by (rule closed_close [OF u r0 due Some])
      next
        fix out v assume v: "closed_from env w0 v"
        show "closed_from env w0 (snd ((case out of
            Inl e \<Rightarrow> andthen (emit (Sentry ''inactivity'')) (ret False)
          | Inr ob' \<Rightarrow> andthen (after_automatic_close env route_now (ob_row ob')) (ret True)) v))"
          by (cases out) (auto intro!: closed_keeps [OF v] rframe_rules rframe_after_automatic_close [OF celery])
      qed
    qed
  qed
qed

lemma closed_loop:
  assumes celery: "set_use_celery env"
    and "\<And>r. r \<in> set rs \<Longrightarrow> find_room w0 (rm_uuid r) = Some r \<and> eligible_close w0 r"
    and "closed_from env w0 w" and "n \<le> set_max_closures env" and "close_loop env route_now rs n w = (res, w')"
  shows "closed_from env w0 w' \<and> (\<forall>m. res = Inr m \<longrightarrow> m \<le> set_max_closures env)"
  using assms(2-5)
proof (induction rs arbitrary: n w)
  case Nil
  then show ?case by (auto simp: ret_def)
next
  case (Cons r rs)
  note IH = Cons.IH [OF Cons.prems(1)]
  have r: "find_room w0 (rm_uuid r) = Some r" "eligible_close w0 r" using Cons.prems(1) by auto
  show ?case
  proof (cases "set_max_closures env \<le> n")
    case True
    with Cons.prems show ?thesis by (auto simp: ret_def)
  next
    case False
    let ?c = "read_inactivity_config w0 r"
    let ?a = "config_seconds ?c ''message_timeout_time''" and ?b = "config_seconds ?c ''close_room_timeout_time''"
    have c: "read_inactivity_config w r = ?c"
      using Cons.prems(2) config_cong [of w0 w] by (simp add: closed_from_def)
    show ?thesis
    proof (cases "\<exists>a b. ?a = Inr a \<and> ?b = Inr b")
      case failed: False
      with False Cons.prems c show ?thesis by (cases ?a; cases ?b) (auto simp: run_gets run_lift)
    next
      case True
      then obtain a b where ab: "?a = Inr a" "?b = Inr b" by blast
      show ?thesis
      proof (cases "a \<le> 0 \<or> b \<le> 0 \<or> \<not> idle_for env r (a + b)")
        case True
        with ab False c Cons.prems(4) have "close_loop env route_now rs n w = (res, w')"
          by (auto simp: run_gets run_lift)
        from IH [OF _ Cons.prems(2,3) this] show ?thesis by simp
      next
        case idle: False
        with ab r have due: "close_due env w0 r" by (auto simp: close_due_def)
        have step: "bnd (close_inactive_room env route_now r ?c)
            (\<lambda>ok. close_loop env route_now rs (if ok then Suc n else n)) w = (res, w')"
          using idle ab False c Cons.prems(4) by (simp add: run_gets run_lift)
        obtain out w1 where one: "close_inactive_room env route_now r ?c w = (out, w1)" by fastforce
        have w1: "closed_from env w0 w1"
          using closed_close_inactive [OF celery Cons.prems(2) r(1) due, of route_now ?c] one by simp
        show ?thesis
        proof (cases out)
          case (Inl e)
          with one step w1 show ?thesis by (auto simp: bnd_def)
        next
          case (Inr ok)
          with one step have "close_loop env route_now rs (if ok then Suc n else n) w1 = (res, w')"
            by (simp add: bnd_def)
          from IH [OF _ w1 _ this] False show ?thesis by (simp split: if_splits)
        qed
      qed
    qed
  qed
qed

section \<open>Properties\<close>

text \<open>A warning pass closes no room and changes nothing but the last message of rooms and the
  inactivity flag, which it only sets, and only for a room whose agent spoke last and whose contact has
  been silent for the configured time; it never reports more warnings than the cap.\<close>

theorem warn_pass_only_flags_idle_rooms:
  assumes "distinct (map rm_uuid (rooms w))" and "warn_inactive_rooms env w = (res, w')"
  shows "warned_from env w w' \<and> (\<forall>n. res = Inr n \<longrightarrow> n \<le> set_max_warnings env)"
proof (rule warned_loop [of "filter (eligible_warn w) (rooms w)" w env w 0 res w'])
  show "find_room w (rm_uuid r) = Some r \<and> eligible_warn w r" if "r \<in> set (filter (eligible_warn w) (rooms w))" for r
    using that find_distinct_key [OF assms(1)] by (simp add: find_room_def)
  show "warned_from env w w" by (simp add: warned_from_def config_frame_def same_ids_def)
qed (use assms(2) in \<open>simp_all add: warn_inactive_rooms_def run_gets\<close>)

definition idle_world :: world where
  "idle_world = small_world\<lparr>
     sectors := [blank_sector\<lparr>sec_inactivity_timeout := Some
       [(''is_message_timeout_enabled'', JBool True), (''message_timeout_time'', JInt 600),
        (''is_close_room_enabled'', JBool True), (''close_room_timeout_time'', JInt 60)]\<rparr>],
     rooms := [blank_room\<lparr>rm_queue := Some ''q'', rm_user := Some ''a@x'',
       rm_last_message_user := Some ''a@x'', rm_last_interaction := Some 0\<rparr>]\<rparr>"

definition late_env :: env where
  "late_env = calm_env\<lparr>env_now := micros 700\<rparr>"

theorem warn_pass_only_flags_idle_rooms_witness:
  "warned_from late_env idle_world (snd (warn_inactive_rooms late_env idle_world))"
  using warn_pass_only_flags_idle_rooms [OF _ prod.collapse [symmetric], of idle_world late_env]
  by (simp add: idle_world_def sample_defs)

text \<open>C12. A closing pass, with Celery on so that routing is left to a task, closes only rooms that were
  flagged before it began, whose agent spoke last and whose contact has been silent for both timeouts
  together; they end by inactivity in the name of their agent and without tags. Every other room keeps
  everything but its last message, and the cap holds.\<close>

theorem close_pass_only_closes_idle_rooms:
  assumes "set_use_celery env" and "distinct (map rm_uuid (rooms w))"
    and "close_inactive_rooms env route_now w = (res, w')"
  shows "closed_from env w w' \<and> (\<forall>n. res = Inr n \<longrightarrow> n \<le> set_max_closures env)"
proof (rule closed_loop [of env "filter (eligible_close w) (rooms w)" w w 0 route_now res w'])
  show "find_room w (rm_uuid r) = Some r \<and> eligible_close w r" if "r \<in> set (filter (eligible_close w) (rooms w))" for r
    using that find_distinct_key [OF assms(2)] by (simp add: find_room_def)
  show "closed_from env w w" by (auto simp: closed_from_def config_frame_def same_ids_def)
qed (use assms in \<open>simp_all add: close_inactive_rooms_def run_gets\<close>)

text \<open>The room of the example has been flagged and is closed by the pass, which takes its tags away.\<close>

definition flagged_room :: room where
  "flagged_room = blank_room\<lparr>rm_queue := Some ''q'', rm_user := Some ''a@x'', rm_tags := [''t''],
     rm_last_message_user := Some ''a@x'', rm_last_interaction := Some 0, rm_is_inactive := True\<rparr>"

definition flagged_world :: world where
  "flagged_world = idle_world\<lparr>rooms := [flagged_room]\<rparr>"

lemma flagged_pass_closes:
  "map_option rm_is_active (find_room (snd (close_inactive_rooms late_env (\<lambda>_. ret ()) flagged_world)) ''r1'') =
     Some False"
  by code_simp

theorem close_pass_only_closes_idle_rooms_witness:
  "\<exists>r. find_room (snd (close_inactive_rooms late_env (\<lambda>_. ret ()) flagged_world)) ''r1'' = Some r \<and>
     idle_closed flagged_room r"
proof -
  define w' where "w' = snd (close_inactive_rooms late_env (\<lambda>_. ret ()) flagged_world)"
  have "closed_from late_env flagged_world w'"
    unfolding w'_def
    using close_pass_only_closes_idle_rooms [OF _ _ prod.collapse [symmetric], of late_env flagged_world "\<lambda>_. ret ()"]
    by (simp add: flagged_world_def late_env_def sample_defs)
  moreover have "find_room flagged_world ''r1'' = Some flagged_room" "rm_is_active flagged_room"
    by (simp_all add: flagged_world_def flagged_room_def find_room_def sample_defs)
  ultimately obtain r where r: "find_room w' ''r1'' = Some r" "quiet r = quiet flagged_room \<or> idle_closed flagged_room r"
    unfolding closed_from_def by blast
  moreover have "\<not> rm_is_active r" using flagged_pass_closes r(1) by (simp add: w'_def)
  ultimately show ?thesis
    using quiet_fields(2) [of r flagged_room] \<open>rm_is_active flagged_room\<close> unfolding w'_def by blast
qed

section \<open>Warnings that arrive and warnings that cannot\<close>

lemma send_group_ok: "\<exists>w'. send_group env g c a w = (Inr (), w')"
  unfolding send_group_def using send_channels_group_effects by blast

lemma notify_room_ok:
  assumes "project_of w r \<noteq> None" and "rm_user r = Some u"
  shows "\<exists>w'. message_notify_room env r m a cb w = (Inr (), w')"
proof -
  from assms(1) obtain p where "project_of w r = Some p" by blast
  then have "base_notification env r (''msg.'' @ a) w =
      (case project_get_permission w (prj_uuid p) (Some u) of None \<Rightarrow> (Inr (), w)
       | Some x \<Rightarrow> send_group env (''permission_'' @ prm_uuid x) ''notify'' (''msg.'' @ a) w)"
    using assms(2)
    by (simp add: base_notification_def room_get_permission_def bnd_def need_def gets_def ret_def
        split: option.split)
  moreover have "\<exists>w1. (case q of None \<Rightarrow> (Inr (), w)
       | Some x \<Rightarrow> send_group env (''permission_'' @ prm_uuid x) ''notify'' (''msg.'' @ a) w) = (Inr (), w1)" for q
    using send_group_ok by (cases q) auto
  ultimately obtain w1 where base: "base_notification env r (''msg.'' @ a) w = (Inr (), w1)" by metis
  show ?thesis
    unfolding message_notify_room_def
    by (subst run_Inr(2) [where m = "base_notification env r (''msg.'' @ a)", OF base])
      (simp add: py_defs emit_def split: option.split list.split)
qed

lemma project_of_frame: "config_frame s t \<Longrightarrow> project_of t = project_of s"
  using lookup_cong(5) [of t s] by (simp add: config_frame_def)

lemma silent_message_outcome:
  assumes "rm_is_active r" and "rm_user r = Some u" and "text \<noteq> []"
  shows "\<not> is_24h_valid_now env w r \<Longrightarrow>
      \<exists>w'. send_silent_automatic_message env r text (Some u) t w = (Inr None, w') \<and> rooms w' = rooms w"
    and "is_24h_valid_now env w r \<Longrightarrow> project_of w r \<noteq> None \<Longrightarrow>
      \<exists>m w'. send_silent_automatic_message env r text (Some u) t w = (Inr (Some m), w')"
proof -
  assume "\<not> is_24h_valid_now env w r"
  then have "create_automatic_message env r (Some u) text t w = (Inl (ValidationError ''You can't send messages after 24h''), w)"
    using assms by (simp add: create_automatic_message_def message_create_def py_defs)
  then show "\<exists>w'. send_silent_automatic_message env r text (Some u) t w = (Inr None, w') \<and> rooms w' = rooms w"
    using assms by (simp add: send_silent_automatic_message_def try_except_def bnd_def atomic_def andthen_def
        emit_def modify_def ret_def rollback_def)
next
  assume valid: "is_24h_valid_now env w r" and prj: "project_of w r \<noteq> None"
  let ?body = "bnd (create_automatic_message env r (Some u) text t) (\<lambda>m.
            andthen (update_last_message (rm_uuid r) m (Some u) False) (ret m))"
  obtain m w1 where body: "?body w = (Inr m, w1)"
    using assms valid
    by (simp add: create_automatic_message_def message_create_def mark_automatic_def update_last_message_def
        update_room_def new_id_def py_defs Let_def)
  have "keeps (talk_frame (rm_uuid r)) ?body"
    unfolding update_last_message_def
    by (intro talk.keeps_world rframe_create_automatic [THEN talk_routing] talk_update) (simp_all add: quiet_def)
  from keepsD [OF this body] have "project_of w1 r \<noteq> None"
    using prj project_of_frame [of w w1] by (simp add: talk_frame_def)
  then obtain w2 where "message_notify_room env r m ''create'' True w1 = (Inr (), w2)"
    using notify_room_ok assms(2) by blast
  with body show "\<exists>m w'. send_silent_automatic_message env r text (Some u) t w = (Inr (Some m), w')"
    using assms(3) by (simp add: send_silent_automatic_message_def try_except_def atomic_def andthen_def bnd_def ret_def)
qed

lemma warn_room_sent:
  assumes "send_silent_automatic_message env r text (rm_user r) INACTIVE_WARNING w = (Inr out, w1)"
    and "text = config_text c ''message_timeout_text''"
  shows "warn_room env r c w = (if out = None \<and> text \<noteq> [] then (Inr False, w1)
    else (Inr True, snd (swallow (notify_inactivity env (r\<lparr>rm_is_inactive := True\<rparr>))
      (snd (update_room (rm_uuid r) (\<lambda>x. if \<not> rm_is_inactive x \<and> rm_is_active x
         then x\<lparr>rm_is_inactive := True\<rparr> else x) w1)))))"
proof -
  let ?K = "andthen (swallow (notify_inactivity env (r\<lparr>rm_is_inactive := True\<rparr>))) (ret True)"
  have "?K v = (Inr True, snd (swallow (notify_inactivity env (r\<lparr>rm_is_inactive := True\<rparr>)) v))" for v
    by (simp add: andthen_def bnd_def run_swallow ret_def)
  then show ?thesis
    unfolding warn_room_def Let_def assms(2) [symmetric]
    by (subst run_Inr(1) [where m = "send_silent_automatic_message env r text (rm_user r) INACTIVE_WARNING"
          and s = w, OF assms(1)]) (simp add: run_update_room ret_def)
qed

definition flagged :: "world \<Rightarrow> uuid \<Rightarrow> bool" where
  "flagged w k \<longleftrightarrow> (\<exists>r. find_room w k = Some r \<and> rm_is_inactive r)"

lemma warn_room_flags:
  assumes sent: "send_silent_automatic_message env r text (rm_user r) INACTIVE_WARNING w = (Inr out, w1)"
    and body: "text = config_text c ''message_timeout_text''" "out \<noteq> None \<or> text = []"
    and row: "find_room w (rm_uuid r) = Some row" "rm_is_active row"
  shows "\<exists>w'. warn_room env r c w = (Inr True, w') \<and> flagged w' (rm_uuid r)"
proof -
  let ?f = "\<lambda>x. if \<not> rm_is_inactive x \<and> rm_is_active x then x\<lparr>rm_is_inactive := True\<rparr> else x"
  have "map_option quiet (find_room w1 (rm_uuid r)) = Some (quiet row)"
    using keepsD [OF talk_silent [OF refl] sent] row(1) by (simp add: talk_frame_def)
  then obtain x where x: "find_room w1 (rm_uuid r) = Some x" and q: "quiet x = quiet row"
    by (cases "find_room w1 (rm_uuid r)") auto
  from row(2) have act: "rm_is_active x" by (simp add: quiet_fields(2) [OF q])
  let ?w2 = "snd (update_room (rm_uuid r) ?f w1)"
  let ?w3 = "snd (swallow (notify_inactivity env (r\<lparr>rm_is_inactive := True\<rparr>)) ?w2)"
  have "find_room ?w2 (rm_uuid r) = Some (?f x)" by (rule find_room_update_other [OF _ x]) simp
  then have "flagged ?w2 (rm_uuid r)" using act by (simp add: flagged_def)
  moreover have "rooms ?w3 = rooms ?w2"
    using rframe_inactivity by (simp add: keeps_def routing_frame_def)
  ultimately have "flagged ?w3 (rm_uuid r)" by (simp add: flagged_def find_room_def)
  moreover have "\<not> (out = None \<and> text \<noteq> [])" using body(2) by blast
  then have "warn_room env r c w = (Inr True, ?w3)"
    by (simp only: warn_room_sent [OF sent body(1)] if_False)
  ultimately show ?thesis by blast
qed

text \<open>Warning one room: inside the 24-hour window the warning is sent, the room is flagged and
  the warning counts; once the window has closed a configured text cannot be sent, the warning does not
  count and the room is not flagged, so that it is never closed for inactivity either.\<close>

theorem warn_room_needs_window:
  assumes "find_room w (rm_uuid r) = Some r" and "rm_is_active r" and "rm_user r = Some u"
    and "config_text c ''message_timeout_text'' \<noteq> []" and "project_of w r \<noteq> None"
  shows "if is_24h_valid_now env w r
    then \<exists>w'. warn_room env r c w = (Inr True, w') \<and> flagged w' (rm_uuid r)
    else \<exists>w'. warn_room env r c w = (Inr False, w') \<and> rooms w' = rooms w"
proof (cases "is_24h_valid_now env w r")
  case True
  from silent_message_outcome(2) [OF assms(2,3,4) True assms(5), of INACTIVE_WARNING] obtain m w1
    where "send_silent_automatic_message env r (config_text c ''message_timeout_text'') (rm_user r)
      INACTIVE_WARNING w = (Inr (Some m), w1)" using assms(3) by auto
  from warn_room_flags [OF this refl _ assms(1,2)] True show ?thesis by simp
next
  case False
  from silent_message_outcome(1) [OF assms(2,3,4) False, of INACTIVE_WARNING] assms(3,4)
  show ?thesis using False by (auto simp: warn_room_sent [OF _ refl])
qed

theorem warn_room_needs_window_witness:
  "\<exists>w'. warn_room (late_env\<lparr>env_now := 2 * DAY\<rparr>)
      ((hd (rooms idle_world))\<lparr>rm_urn := ''whatsapp:1'', rm_contact := Some ''c''\<rparr>)
      [(''message_timeout_text'', JStr ''hello'')]
      (idle_world\<lparr>rooms := [(hd (rooms idle_world))\<lparr>rm_urn := ''whatsapp:1'', rm_contact := Some ''c''\<rparr>]\<rparr>) =
      (Inr False, w')"
proof -
  let ?r = "(hd (rooms idle_world))\<lparr>rm_urn := ''whatsapp:1'', rm_contact := Some ''c''\<rparr>"
  let ?w = "idle_world\<lparr>rooms := [?r]\<rparr>"
  have "\<not> is_24h_valid_now (late_env\<lparr>env_now := 2 * DAY\<rparr>) ?w ?r"
    by (simp add: is_24h_valid_now_def idle_world_def sample_defs starts_with_def DAY_def micros_def)
  moreover have "find_room ?w (rm_uuid ?r) = Some ?r" "rm_is_active ?r" "rm_user ?r = Some ''a@x''"
    "config_text [(''message_timeout_text'', JStr ''hello'')] ''message_timeout_text'' \<noteq> []"
    "project_of ?w ?r \<noteq> None"
    by (simp_all add: idle_world_def sample_defs find_room_def config_text_def obj_get_def project_of_def
        sector_of_def queue_of_def find_queue_def sector_of_queue_def find_sector_def
        project_of_sector_def find_project_def)
  ultimately show ?thesis
    using warn_room_needs_window [of ?w ?r "''a@x''" "[(''message_timeout_text'', JStr ''hello'')]"
        "late_env\<lparr>env_now := 2 * DAY\<rparr>"] by auto
qed

section \<open>Waiting for the ticket\<close>

text \<open>A reply after which the loop tries again.\<close>

definition ticket_missing :: "ticket_response \<Rightarrow> bool" where
  "ticket_missing x \<longleftrightarrow> x = Ticket_Unreadable \<or> x = Ticket_Results 0 \<or> (\<exists>n. x = Ticket_Http n)"

lemma wait_for_ticket_missing:
  "ticket_missing (reply i) \<Longrightarrow> wait_for_ticket reply i wait (Suc left) =
     (case wait_for_ticket reply (Suc i) (2 * wait) left of
        Inl e \<Rightarrow> Inl e | Inr (found, slept) \<Rightarrow> Inr (found, wait + slept))"
  by (auto simp: ticket_missing_def Let_def)

lemma wait_for_ticket_stops:
  assumes "\<And>j. j < k \<Longrightarrow> ticket_missing (reply (i + j))"
  shows "wait_for_ticket reply i wait (k + left) =
     (case wait_for_ticket reply (i + k) (2 ^ k * wait) left of
        Inl e \<Rightarrow> Inl e | Inr (found, slept) \<Rightarrow> Inr (found, (2 ^ k - 1) * wait + slept))"
  using assms
proof (induction k arbitrary: i wait)
  case 0
  show ?case by (simp split: sum.split)
next
  case (Suc k)
  have rest: "ticket_missing (reply (Suc i + j))" if "j < k" for j
    using Suc.prems [of "Suc j"] that by simp
  have first: "ticket_missing (reply i)" using Suc.prems [of 0] by simp
  have double: "(2::nat) ^ k * (2 * wait) = 2 ^ Suc k * wait" by simp
  have slept: "wait + ((2 ^ k - 1) * (2 * wait) + s) = (2 ^ Suc k - 1) * wait + s" for s :: nat
  proof -
    have "(2::nat) ^ k \<ge> 1" by simp
    then obtain c where "(2::nat) ^ k = Suc c" using not0_implies_Suc by fastforce
    then show ?thesis by (simp add: algebra_simps)
  qed
  show ?case
    using wait_for_ticket_missing [where reply = reply and i = i, OF first, of wait "k + left"]
      Suc.IH [OF rest, of "2 * wait"] slept double
    by (simp split: sum.splits prod.splits del: power_Suc wait_for_ticket.simps)
qed

lemma wait_for_ticket_all_missing:
  assumes "\<And>j. j < n \<Longrightarrow> ticket_missing (reply j)"
  shows "wait_for_ticket reply 0 1 n = Inr (False, 2 ^ n - 1)"
  using wait_for_ticket_stops [of n reply 0 1 0] assms by simp

text \<open>The loop that waits for a ticket makes at most \<open>retries + 1\<close> attempts and sleeps for
  \<open>2 ^ k - 1\<close> seconds when attempt \<open>k\<close> settles the matter: it ends with the ticket, with the exception of
  that attempt, or after all attempts with \<open>2 ^ (retries + 1) - 1\<close> seconds slept and no ticket.\<close>

theorem ticket_wait_backs_off:
  "case wait_for_ticket reply 0 1 (Suc retries) of
     Inr (True, slept) \<Rightarrow> \<exists>k \<le> retries. (\<exists>n > 0. reply k = Ticket_Results n) \<and> slept = 2 ^ k - 1
   | Inr (False, slept) \<Rightarrow> list_all ticket_missing (map reply [0..<Suc retries]) \<and> slept = 2 ^ Suc retries - 1
   | Inl e \<Rightarrow> \<exists>k \<le> retries. reply k = Ticket_Error \<or> reply k = Ticket_No_Results"
proof (cases "\<forall>k < Suc retries. ticket_missing (reply k)")
  case True
  then show ?thesis
    using wait_for_ticket_all_missing [of "Suc retries" reply]
    by (simp add: list_all_iff del: wait_for_ticket.simps power_Suc upt_Suc)
next
  case False
  define k where "k = (LEAST k. \<not> ticket_missing (reply k))"
  have k: "\<not> ticket_missing (reply k)" unfolding k_def using False by (metis LeastI)
  have before: "j < k \<Longrightarrow> ticket_missing (reply (0 + j))" for j
    using not_less_Least [of j "\<lambda>k. \<not> ticket_missing (reply k)"] by (auto simp: k_def)
  have le: "k \<le> retries"
    using False Least_le [of "\<lambda>k. \<not> ticket_missing (reply k)"] unfolding k_def by (meson le_trans less_Suc_eq_le)
  then obtain left where left: "Suc retries = k + Suc left" using le_Suc_ex by force
  have run: "wait_for_ticket reply 0 1 (Suc retries) = (case wait_for_ticket reply k (2 ^ k) (Suc left) of
      Inl e \<Rightarrow> Inl e | Inr (found, slept) \<Rightarrow> Inr (found, 2 ^ k - 1 + slept))"
    unfolding left using wait_for_ticket_stops [of k reply 0 1 "Suc left"] before
    by (simp del: wait_for_ticket.simps split: sum.split)
  show ?thesis
  proof (cases "reply k")
    case (Ticket_Results n)
    moreover from this k have "0 < n" by (simp add: ticket_missing_def)
    ultimately show ?thesis using le unfolding run by auto
  qed (use k le run in \<open>auto simp: ticket_missing_def\<close>)
qed

end
