(* ===== verification/Agent_Messages.thy ===== *)
theory Agent_Messages
  imports Inactivity
begin

text \<open>
  Messages of agents: \<open>chats/apps/msgs/usecases/create_agent_message.py\<close> and \<open>msgs/validators/agent_message_create.py\<close>,
  the serializer behind them and the REST view of \<open>api/v1/msgs/viewsets.py\<close> with its permission classes.

  \<^item> A request of the WebSocket carries the id of the request, by which a repeated request gets the message of the first
    one. \<open>request_step\<close> is one use of Redis or of the database; requests interleave between them.
  \<^item> The argument \<open>up\<close> of a step says whether Redis answers; the code goes on without it when it does not.
  \<^item> The uuid of a message is its number, which Redis keeps in digits. The texts of the errors are left out where their
    code decides; metadata and the content of notifications are left out.
\<close>

section \<open>A message of an agent\<close>

record agent_data =
  ad_room :: "uuid option"
  ad_text :: string
  ad_improvement :: "(string \<times> string) option"

definition require_online :: "exn \<Rightarrow> email \<Rightarrow> room \<Rightarrow> (world, unit) py" where
  "require_online e u r =
     (if rm_queue r = None then ret ()
      else bnd (need AttributeError (\<lambda>w. project_of w r)) (\<lambda>p.
        if \<not> truthy (project_config_get p ''restrict_offline_agents'' (JBool False)) then ret ()
        else bnd (gets (\<lambda>w. list_ex (\<lambda>m. prm_user m = Some u \<and> prm_project m = prj_uuid p \<and> prm_status m = ''ONLINE'')
               (live_permissions w))) (\<lambda>online.
          if online then ret () else raise e)))"

definition validate_agent_can_create_message :: "email \<Rightarrow> room \<Rightarrow> (world, unit) py" where
  "validate_agent_can_create_message u r =
     (if rm_user r \<noteq> Some u then raise (MessageCreateError ''permission_denied'')
      else require_online (MessageCreateError ''agent_offline'') u r)"

fun contains :: "string \<Rightarrow> string \<Rightarrow> bool" where
  "contains part [] = (part = [])"
| "contains part (c # cs) = (starts_with part (c # cs) \<or> contains part cs)"

definition map_save_validation_error :: "string \<Rightarrow> exn" where
  "map_save_validation_error msg = (let normalized = map lower_char msg in
     if contains ''closed rooms can't receive messages'' normalized then MessageCreateError ''room_closed''
     else if contains ''24h'' normalized then MessageCreateError ''message_window_expired''
     else MessageCreateError ''validation_error'')"

text \<open>\<open>AITextImprovementSerializer\<close>, as type and status.\<close>

definition improvement_ok :: "string \<times> string \<Rightarrow> bool" where
  "improvement_ok x \<longleftrightarrow> fst x \<in> {''GRAMMAR_AND_SPELLING'', ''MORE_EMPATHY'', ''CLARITY''} \<and>
     snd x \<in> {''USED'', ''DISCARDED'', ''EDITED''}"

text \<open>\<open>BaseMessageSerializer.create\<close>; a \<open>CharField\<close> strips the text.\<close>

definition base_serializer_create :: "env \<Rightarrow> room \<Rightarrow> email option \<Rightarrow> string \<Rightarrow> bool \<Rightarrow> (world, message) py" where
  "base_serializer_create env r user txt seen =
     (if rm_is_waiting r then raise (APIException ''Cannot create message when the room is waiting for contact's answer'')
      else message_create env r user None (strip txt) seen)"

text \<open>The hook of \<open>MessageSerializer.create\<close>, which runs after the commit.\<close>

definition improvement_hook :: "env \<Rightarrow> message \<Rightarrow> (string \<times> string) option \<Rightarrow> (world, unit) py" where
  "improvement_hook env m imp = (case imp of None \<Rightarrow> ret ()
     | Some (kind, st) \<Rightarrow> delay env ''register_message_improvement_task'' [digits (msg_id m), kind, st])"

text \<open>\<open>PostCreateAgentMessageUseCase.execute\<close>.\<close>

definition request_first_response :: "env \<Rightarrow> message \<Rightarrow> (world, unit) py" where
  "request_first_response env m =
     bnd (need (DoesNotExist ''Room'') (\<lambda>w. find_room w (msg_room m))) (\<lambda>r.
     when_true (msg_user m \<noteq> None \<and> rm_first_user_assigned_at r \<noteq> None)
       (bnd (gets (\<lambda>w. find (\<lambda>x. met_room x = rm_uuid r) (metrics w))) (\<lambda>met.
        when_true (case met of None \<Rightarrow> True | Some x \<Rightarrow> met_first_response_time x = None)
          (delay env ''calculate_first_response_time_task'' [rm_uuid r]))))"

definition post_create_agent_message :: "env \<Rightarrow> room \<Rightarrow> message \<Rightarrow> bool \<Rightarrow> (world, unit) py" where
  "post_create_agent_message env r m is_media_instance =
     andthen (message_notify_room env r m ''create'' True)
    (andthen (when_true (msg_text m \<noteq> [] \<or> is_media_instance \<or> msg_medias m \<noteq> [])
        (update_last_message (rm_uuid r) m (msg_user m) True))
      (request_first_response env m))"

definition create_error :: "exn \<Rightarrow> (world, 'a) py" where
  "create_error e = (case e of
     ValidationError t \<Rightarrow> raise (map_save_validation_error t)
   | APIException t \<Rightarrow> raise (MessageCreateError
       (if contains ''waiting for contact'' (map lower_char t) then ''room_waiting'' else ''validation_error''))
   | PermissionDenied t \<Rightarrow> raise (MessageCreateError ''validation_error'')
   | _ \<Rightarrow> raise e)"

definition save_agent_message :: "env \<Rightarrow> email \<Rightarrow> room \<Rightarrow> agent_data \<Rightarrow> (world, message) py" where
  "save_agent_message env u r d = atomic
     (bnd (base_serializer_create env r (Some u) (ad_text d) False) (\<lambda>m.
      andthen (post_create_agent_message env r m False) (ret m)))"

definition create_message :: "env \<Rightarrow> email \<Rightarrow> agent_data \<Rightarrow> (world, message) py" where
  "create_message env u d = (case ad_room d of
     None \<Rightarrow> raise (MessageCreateError ''validation_error'')
   | Some [] \<Rightarrow> raise (MessageCreateError ''validation_error'')
   | Some k \<Rightarrow>
      bnd (gets (\<lambda>w. find_room w k)) (\<lambda>found. case found of None \<Rightarrow> raise (MessageCreateError ''room_not_found'') | Some r \<Rightarrow>
      andthen (validate_agent_can_create_message u r)
        (if (case ad_improvement d of None \<Rightarrow> False | Some x \<Rightarrow> \<not> improvement_ok x)
         then raise (MessageCreateError ''validation_error'')
         else try_except
           (bnd (save_agent_message env u r d) (\<lambda>m. andthen (improvement_hook env m (ad_improvement d)) (ret m)))
           create_error)))"

section \<open>Who may write\<close>

definition may_write :: "env \<Rightarrow> world \<Rightarrow> email \<Rightarrow> room \<Rightarrow> bool" where
  "may_write env w u r \<longleftrightarrow> rm_user r = Some u \<and> rm_is_active r \<and> \<not> rm_is_waiting r \<and> is_24h_valid_now env w r \<and>
     (case project_of w r of None \<Rightarrow> False | Some p \<Rightarrow>
       truthy (project_config_get p ''restrict_offline_agents'' (JBool False)) \<longrightarrow>
         list_ex (\<lambda>m. prm_user m = Some u \<and> prm_project m = prj_uuid p \<and> prm_status m = ''ONLINE'') (live_permissions w))"

lemma tables_notify: "keeps same_tables (message_notify_room env r m a cb)"
  unfolding message_notify_room_def base_notification_def room_get_permission_def send_group_def
  by (auto intro!: tables.keeps_world split: option.split list.split)

lemma tables_first_response: "keeps same_tables (request_first_response env m)"
  unfolding request_first_response_def by (intro tables.keeps_world)

lemma tables_hook: "keeps same_tables (improvement_hook env m imp)"
  unfolding improvement_hook_def by (auto intro!: tables.keeps_world split: option.split)

lemma same_tables_lookups:
  assumes "same_tables s t"
  shows "rooms t = rooms s" "messages t = messages s" "find_room t = find_room s" "project_of t = project_of s"
    "live_permissions t = live_permissions s" "metrics t = metrics s"
proof -
  obtain es where t: "t = s\<lparr>effects := es\<rparr>" using assms unfolding same_tables_def by blast
  show "rooms t = rooms s" "messages t = messages s" "find_room t = find_room s" "project_of t = project_of s"
    "live_permissions t = live_permissions s" "metrics t = metrics s"
    by (simp_all add: t fun_eq_iff find_room_def lookup_cong(5) [of "s\<lparr>effects := es\<rparr>" s])
qed

lemma validated:
  assumes "validate_agent_can_create_message u r w = (Inr x, w')"
  shows "w' = w" "rm_user r = Some u" "project_of w r = Some p \<Longrightarrow>
    truthy (project_config_get p ''restrict_offline_agents'' (JBool False)) \<Longrightarrow>
    list_ex (\<lambda>m. prm_user m = Some u \<and> prm_project m = prj_uuid p \<and> prm_status m = ''ONLINE'') (live_permissions w)"
  using assms
  by (auto simp: validate_agent_can_create_message_def require_online_def py_defs need_def project_of_def sector_of_def
      queue_of_def split: if_splits option.splits)

lemma validate_reads: "snd (validate_agent_can_create_message u r w) = w"
  by (auto simp: validate_agent_can_create_message_def require_online_def py_defs need_def split: if_splits option.splits)

lemma notified_needs_project:
  assumes "message_notify_room env r m a cb w = (Inr x, w')" and "rm_user r = Some u"
  shows "project_of w r \<noteq> None"
  using assms by (auto simp: message_notify_room_def base_notification_def room_get_permission_def andthen_def bnd_def need_def
      split: option.splits)

lemma created:
  assumes "base_serializer_create env r u txt seen w = (Inr m, w')"
  shows "\<not> rm_is_waiting r" "rm_is_active r" "u \<noteq> None \<Longrightarrow> is_24h_valid_now env w r"
    "m = \<lparr>msg_id = next_id w, msg_created_on = env_now env, msg_room = rm_uuid r, msg_user = u, msg_contact = None,
       msg_text = strip txt, msg_seen = seen, msg_automatic = None, msg_medias = []\<rparr>"
    "w' = w\<lparr>next_id := Suc (next_id w), messages := messages w @ [m]\<rparr>"
  using assms
  by (auto simp: base_serializer_create_def message_create_def py_defs new_id_def Let_def split: if_splits)

text \<open>What is saved: the message and, when it has a text, the last message of its room.\<close>

definition message_saved :: "env \<Rightarrow> email \<Rightarrow> room \<Rightarrow> string \<Rightarrow> world \<Rightarrow> message \<Rightarrow> world \<Rightarrow> bool" where
  "message_saved env u r txt w m w' \<longleftrightarrow> messages w' = messages w @ [m] \<and> msg_room m = rm_uuid r \<and> msg_user m = Some u \<and>
     msg_contact m = None \<and> msg_text m = strip txt \<and>
     rooms w' = (if strip txt = [] then rooms w else update_where (\<lambda>x. rm_uuid x = rm_uuid r)
       (\<lambda>x. x\<lparr>rm_last_interaction := Some (env_now env), rm_last_message := Some (msg_id m), rm_last_message_text := Some (strip txt),
          rm_last_message_user := Some u, rm_last_message_contact := None, rm_last_message_media := []\<rparr>) (rooms w))"

lemma saved:
  assumes "save_agent_message env u r d w = (Inr m, w')" and "rm_user r = Some u"
  shows "message_saved env u r (ad_text d) w m w'" "\<not> rm_is_waiting r" "rm_is_active r" "is_24h_valid_now env w r" "project_of w r \<noteq> None"
proof -
  obtain w1 w2 w3 where s: "base_serializer_create env r (Some u) (ad_text d) False w = (Inr m, w1)"
    "message_notify_room env r m ''create'' True w1 = (Inr (), w2)"
    "when_true (msg_text m \<noteq> [] \<or> False \<or> msg_medias m \<noteq> []) (update_last_message (rm_uuid r) m (msg_user m) True) w2 = (Inr (), w3)"
    "request_first_response env m w3 = (Inr (), w')"
    using assms(1) unfolding save_agent_message_def atomic_def post_create_agent_message_def
    by (auto split: prod.splits sum.splits elim!: bnd_InrE andthen_InrE simp: ret_def)
  note c = created [OF s(1)]
  note t2 = same_tables_lookups [OF keepsD [OF tables_notify s(2)]] and t4 = same_tables_lookups [OF keepsD [OF tables_first_response s(4)]]
  show "\<not> rm_is_waiting r" "rm_is_active r" "is_24h_valid_now env w r" using c by auto
  show "project_of w r \<noteq> None"
    using notified_needs_project [OF s(2) assms(2)] c(5) lookup_cong(5) [of w1 w] by simp
  show "message_saved env u r (ad_text d) w m w'"
    using s(3) c(4,5) t2 t4
    by (auto simp: message_saved_def update_last_message_def update_room_def modify_def when_true_def ret_def split: if_splits)
qed

lemma create_outcome:
  assumes "create_message env u d w = (res, w')"
  shows "case res of
     Inl e \<Rightarrow> same_tables w w' \<or> (\<exists>r m kind st. find_room w (msg_room m) = Some r \<and> message_saved env u r (ad_text d) w m w' \<and>
       ad_improvement d = Some (kind, st) \<and> \<not> task_ok env ''register_message_improvement_task'' [digits (msg_id m), kind, st])
   | Inr m \<Rightarrow> \<exists>r. ad_room d = Some (rm_uuid r) \<and> find_room w (rm_uuid r) = Some r \<and> may_write env w u r \<and>
       message_saved env u r (ad_text d) w m w'"
proof (cases "ad_room d")
  case None
  then show ?thesis using assms by (auto simp: create_message_def raise_def tables.R_refl)
next
  case (Some k)
  show ?thesis
  proof (cases "k = [] \<or> find_room w k = None")
    case True
    then show ?thesis using assms Some by (cases k) (auto simp: create_message_def raise_def bnd_def gets_def tables.R_refl)
  next
    case False
    then obtain c cs r where r: "k = c # cs" "find_room w k = Some r" by (cases k) auto
    have key: "rm_uuid r = k" using r(2) unfolding find_room_def by (auto dest: find_in_set)
    obtain v w1 where v: "validate_agent_can_create_message u r w = (v, w1)" by force
    have w1: "w1 = w" using validate_reads [of u r w] v by simp
    let ?bad = "case ad_improvement d of None \<Rightarrow> False | Some x \<Rightarrow> \<not> improvement_ok x"
    show ?thesis
    proof (cases "(\<exists>e. v = Inl e) \<or> ?bad")
      case True
      then show ?thesis using assms Some r v w1
        by (auto simp: create_message_def bnd_def gets_def andthen_def raise_def tables.R_refl split: sum.splits prod.splits)
    next
      case False
      then obtain x where x: "v = Inr x" by (cases v) auto
      note ok = validated [OF v [unfolded x w1]]
      have run: "(res, w') = try_except (bnd (save_agent_message env u r d) (\<lambda>m. andthen (improvement_hook env m (ad_improvement d)) (ret m))) create_error w"
        using assms Some r v w1 x False by (auto simp: create_message_def bnd_def gets_def andthen_def)
      obtain q w2 where q: "save_agent_message env u r d w = (q, w2)" by force
      show ?thesis
      proof (cases q)
        case (Inl e)
        have "same_tables w w2" using atomic_error [OF q [unfolded save_agent_message_def Inl]] unfolding same_tables_def rollback_def by blast
        moreover have "\<exists>e'. create_error e w2 = (Inl e', w2)" by (cases e) (simp_all add: create_error_def raise_def)
        then obtain e' where "create_error e w2 = (Inl e' :: exn + message, w2)" by blast
        then have "res = Inl e'" "w' = w2" using run q Inl by (simp_all add: try_except_def bnd_def)
        ultimately show ?thesis by simp
      next
        case (Inr m)
        note s = saved [OF q [unfolded Inr] ok(2)]
        obtain h w3 where h: "improvement_hook env m (ad_improvement d) w2 = (h, w3)" by force
        have saved': "message_saved env u r (ad_text d) w m w3"
          using s(1) same_tables_lookups [OF keepsD [OF tables_hook h]] by (simp add: message_saved_def)
        have may: "may_write env w u r" using s ok by (auto simp: may_write_def)
        show ?thesis
        proof (cases h)
          case [simp]: (Inl e)
          have "\<exists>kind st. ad_improvement d = Some (kind, st) \<and> \<not> task_ok env ''register_message_improvement_task'' [digits (msg_id m), kind, st] \<and>
            e = ExternalError ''register_message_improvement_task''"
            using h by (auto simp: improvement_hook_def ret_def delay_def emit_def modify_def raise_def split: option.splits if_splits)
          moreover have "msg_room m = k" using saved' key by (simp add: message_saved_def)
          ultimately show ?thesis
            using run q Inr h saved' r(2) by (force simp: try_except_def bnd_def andthen_def create_error_def raise_def)
        next
          case [simp]: (Inr y)
          have "res = Inr m" "w' = w3" using run q \<open>q = Inr m\<close> h by (simp_all add: try_except_def bnd_def andthen_def ret_def)
          then show ?thesis using Some key r(2) may saved' by auto
        qed
      qed
    qed
  qed
qed

lemma create_rows:
  assumes "create_message env u d w = (res, w')" and "\<And>a. task_ok env ''register_message_improvement_task'' a"
  shows "messages w' = messages w @ (case res of Inl e \<Rightarrow> [] | Inr m \<Rightarrow> [m])"
  using create_outcome [OF assms(1)] assms(2) by (auto simp: message_saved_def same_tables_lookups split: sum.splits)

text \<open>C33. A message of an agent is written only to an open room of his own, not waiting and within the 24 hours, by an agent
  who is online where the project wants it; then it is there with the last message of its room. Any other request leaves
  every table as it was, but for one: when the task of the hook is refused, the request fails and the message stays.\<close>

theorem agent_message_outcome:
  assumes "create_message env u d w = (res, w')"
  shows "case res of
     Inl e \<Rightarrow> same_tables w w' \<or> (\<exists>r m kind st. find_room w (msg_room m) = Some r \<and> message_saved env u r (ad_text d) w m w' \<and>
       ad_improvement d = Some (kind, st) \<and> \<not> task_ok env ''register_message_improvement_task'' [digits (msg_id m), kind, st])
   | Inr m \<Rightarrow> \<exists>r. ad_room d = Some (rm_uuid r) \<and> find_room w (rm_uuid r) = Some r \<and> may_write env w u r \<and>
       message_saved env u r (ad_text d) w m w'"
  by (rule create_outcome [OF assms])

section \<open>The REST views\<close>

record rest_message =
  rst_room :: uuid
  rst_text :: string
  rst_seen :: bool
  rst_user_email :: "email option"
  rst_improvement :: "(string \<times> string) option"
  rst_media :: "string \<times> string"

text \<open>\<open>BaseMessageSerializer.validate\<close>: the author is whom the request names; \<open>known\<close> is the cached lookup of a user.\<close>

definition serializer_user :: "(email \<Rightarrow> bool) \<Rightarrow> email option \<Rightarrow> exn + email option" where
  "serializer_user known em = (case em of
     None \<Rightarrow> Inr None
   | Some [] \<Rightarrow> Inr None
   | Some e \<Rightarrow> if known e then Inr (Some (map lower_char e)) else Inl (ValidationError ''user_email''))"

definition message_permission :: "email \<Rightarrow> uuid \<Rightarrow> (world, unit) py" where
  "message_permission u k = bnd (gets (\<lambda>w. find_room w k)) (\<lambda>found. case found of
     None \<Rightarrow> raise (PermissionDenied ''message'')
   | Some r \<Rightarrow> if rm_user r = Some u then ret ()
       else andthen (bnd (need AttributeError (\<lambda>w. project_of w r)) (\<lambda>p. ret ())) (raise (PermissionDenied ''message'')))"

definition restrict_offline_agents :: "email \<Rightarrow> uuid \<Rightarrow> (world, unit) py" where
  "restrict_offline_agents u k = bnd (gets (\<lambda>w. find_room w k)) (\<lambda>found. case found of
     None \<Rightarrow> ret ()
   | Some r \<Rightarrow> require_online (PermissionDenied ''agent_offline'') u r)"

definition create_message_view :: "env \<Rightarrow> (email \<Rightarrow> bool) \<Rightarrow> email \<Rightarrow> rest_message \<Rightarrow> (world, message) py" where
  "create_message_view env known u rq =
     andthen (message_permission u (rst_room rq))
    (andthen (restrict_offline_agents u (rst_room rq))
    (bnd (need (ValidationError ''room'') (\<lambda>w. find_room w (rst_room rq))) (\<lambda>r.
     if (case rst_improvement rq of None \<Rightarrow> False | Some x \<Rightarrow> \<not> improvement_ok x) then raise (ValidationError ''ai_text_improvement'')
     else bnd (lift_result (serializer_user known (rst_user_email rq))) (\<lambda>author.
       bnd (atomic (bnd (base_serializer_create env r author (rst_text rq) (rst_seen rq)) (\<lambda>m.
          andthen (post_create_agent_message env r m False) (ret m)))) (\<lambda>m.
       andthen (improvement_hook env m (rst_improvement rq)) (ret m))))))"

text \<open>\<open>create_media\<close>: the permission classes know only the actions \<open>list\<close> and \<open>create\<close>, and the serializer writes the
  message itself.\<close>

definition create_media_view :: "env \<Rightarrow> (email \<Rightarrow> bool) \<Rightarrow> email \<Rightarrow> rest_message \<Rightarrow> (world, message) py" where
  "create_media_view env known u rq =
     bnd (need (ValidationError ''room'') (\<lambda>w. find_room w (rst_room rq))) (\<lambda>r.
     bnd (lift_result (serializer_user known (rst_user_email rq))) (\<lambda>author. atomic
       (bnd (message_create env r author None (strip (rst_text rq)) (rst_seen rq)) (\<lambda>m.
        let m' = m\<lparr>msg_medias := [rst_media rq]\<rparr> in
        andthen (modify (\<lambda>w. w\<lparr>messages := update_where (\<lambda>x. msg_id x = msg_id m) (\<lambda>x. x\<lparr>msg_medias := msg_medias x @ [rst_media rq]\<rparr>) (messages w)\<rparr>))
       (andthen (post_create_agent_message env r m' True) (ret m'))))))"

lemma view_needs_own_room:
  assumes "create_message_view env known u rq w = (Inr m, w')"
  shows "\<exists>r. find_room w (rst_room rq) = Some r \<and> rm_user r = Some u \<and> rm_is_active r \<and> \<not> rm_is_waiting r"
proof -
  from assms obtain w1 w2 w3 w4 r r' author w5 where s: "message_permission u (rst_room rq) w = (Inr (), w1)"
    "restrict_offline_agents u (rst_room rq) w1 = (Inr (), w2)" "need (ValidationError ''room'') (\<lambda>w. find_room w (rst_room rq)) w2 = (Inr r, w3)"
    "base_serializer_create env r author (rst_text rq) (rst_seen rq) w4 = (Inr r', w5)"
    unfolding create_message_view_def atomic_def
    by (auto elim!: andthen_InrE bnd_InrE split: if_splits prod.splits sum.splits simp: raise_def)
  have "find_room w (rst_room rq) \<noteq> None \<and> rm_user (the (find_room w (rst_room rq))) = Some u \<and> w1 = w"
    using s(1) by (auto simp: message_permission_def need_def py_defs split: option.splits if_splits)
  moreover have "snd (restrict_offline_agents u (rst_room rq) w1) = w1"
    by (auto simp: restrict_offline_agents_def require_online_def py_defs need_def split: if_splits option.splits)
  ultimately show ?thesis using s(2,3) created(1,2) [OF s(4)] by (auto simp: need_def split: option.splits)
qed

section \<open>Ids of requests\<close>

record agent_request =
  ar_user :: email
  ar_id :: string
  ar_data :: agent_data

record 'c send_env =
  sen_env :: env
  sen_ops :: "'c cache_ops"
  sen_ttl :: int
  sen_polls :: nat

definition request_id_cache_key :: "env \<Rightarrow> email \<Rightarrow> string \<Rightarrow> string" where
  "request_id_cache_key env u rid = ''agent_message_create:'' @ digits (user_pk env u) @ '':'' @ rid"

abbreviation request_key :: "'c send_env \<Rightarrow> agent_request \<Rightarrow> string" where
  "request_key cx rq \<equiv> request_id_cache_key (sen_env cx) (ar_user rq) (ar_id rq)"

definition claim_request_id :: "'c send_env \<Rightarrow> bool \<Rightarrow> agent_request \<Rightarrow> 'c \<Rightarrow> bool \<times> 'c" where
  "claim_request_id cx up rq c = (if \<not> up then (True, c)
     else c_add (sen_ops cx) (request_key cx rq) (JStr ''pending'') (sen_ttl cx) c)"

definition get_request_id_value :: "'c send_env \<Rightarrow> bool \<Rightarrow> agent_request \<Rightarrow> 'c \<Rightarrow> string option" where
  "get_request_id_value cx up rq c = (if \<not> up then None
     else case c_get (sen_ops cx) (request_key cx rq) c of Some (JStr v) \<Rightarrow> Some v | _ \<Rightarrow> None)"

definition store_request_id_message :: "'c send_env \<Rightarrow> bool \<Rightarrow> agent_request \<Rightarrow> nat \<Rightarrow> 'c \<Rightarrow> 'c" where
  "store_request_id_message cx up rq pk c = (if \<not> up then c
     else c_set (sen_ops cx) (request_key cx rq) (JStr (digits pk)) (Some (sen_ttl cx)) c)"

definition release_request_id :: "'c send_env \<Rightarrow> bool \<Rightarrow> agent_request \<Rightarrow> 'c \<Rightarrow> 'c" where
  "release_request_id cx up rq c = (if \<not> up then c else snd (c_delete (sen_ops cx) (request_key cx rq) c))"

text \<open>One look of \<open>_resolve_existing_message\<close>.\<close>

definition look_up_message :: "'c send_env \<Rightarrow> bool \<Rightarrow> agent_request \<Rightarrow> world \<Rightarrow> 'c \<Rightarrow> nat option" where
  "look_up_message cx up rq w c = (case get_request_id_value cx up rq c of
     None \<Rightarrow> None
   | Some v \<Rightarrow> if v = [] \<or> v = ''pending'' then None
       else map_option msg_id (find (\<lambda>m. digits (msg_id m) = v) (messages w)))"

text \<open>
  Where a request is in \<open>CreateAgentMessageUseCase.execute\<close>: before the claim, before the creation (and whether it holds
  the claim), before the store or the release, before a look with so many pauses left, or done.
\<close>

datatype stage =
    Arrived
  | Creating bool
  | Storing nat
  | Releasing exn
  | Polling nat
  | Returned nat
  | Refused exn

fun request_step :: "'c send_env \<Rightarrow> bool \<Rightarrow> timestamp \<Rightarrow> agent_request \<Rightarrow> stage \<Rightarrow> world \<times> 'c \<Rightarrow> stage \<times> world \<times> 'c" where
  "request_step cx up now rq Arrived (w, c) =
     (if ar_id rq = [] then (Creating False, w, c)
      else case claim_request_id cx up rq c of (True, c') \<Rightarrow> (Creating True, w, c') | (False, c') \<Rightarrow> (Polling (sen_polls cx), w, c'))"
| "request_step cx up now rq (Creating claimed) (w, c) =
     (case create_message ((sen_env cx)\<lparr>env_now := now\<rparr>) (ar_user rq) (ar_data rq) w of
        (Inl e, w') \<Rightarrow> (if claimed then Releasing e else Refused e, w', c)
      | (Inr m, w') \<Rightarrow> (if claimed then Storing (msg_id m) else Returned (msg_id m), w', c))"
| "request_step cx up now rq (Storing pk) (w, c) = (Returned pk, w, store_request_id_message cx up rq pk c)"
| "request_step cx up now rq (Releasing e) (w, c) = (Refused e, w, release_request_id cx up rq c)"
| "request_step cx up now rq (Polling n) (w, c) = (case look_up_message cx up rq w c of
     Some pk \<Rightarrow> (Returned pk, w, c)
   | None \<Rightarrow> (case n of Suc k \<Rightarrow> Polling k | 0 \<Rightarrow> Refused (MessageCreateError ''duplicate_in_progress''), w, c))"
| "request_step cx up now rq st (w, c) = (st, w, c)"

section \<open>Requests at the same time\<close>

text \<open>\<open>sn_made\<close> records the messages that requests with an id have written, with the key of the request.\<close>

record 'c sending =
  sn_world :: world
  sn_cache :: 'c
  sn_now :: int
  sn_requests :: "(agent_request \<times> stage) list"
  sn_made :: "(string \<times> nat) list"

datatype send_event =
    Arrive agent_request
  | Advance nat bool
  | Pass nat
  | Others world

definition made_now :: "'c send_env \<Rightarrow> agent_request \<Rightarrow> world \<Rightarrow> world \<Rightarrow> (string \<times> nat) list" where
  "made_now cx rq w w' = (if ar_id rq = [] then [] else map (\<lambda>m. (request_key cx rq, msg_id m)) (drop (length (messages w)) (messages w')))"

definition advance :: "'c send_env \<Rightarrow> nat \<Rightarrow> bool \<Rightarrow> 'c sending \<Rightarrow> 'c sending" where
  "advance cx i up s = (if length (sn_requests s) \<le> i then s else
     case sn_requests s ! i of (rq, st) \<Rightarrow>
       (case request_step cx up (micros (sn_now s)) rq st (sn_world s, sn_cache s) of (st', w, c) \<Rightarrow>
          s\<lparr>sn_world := w, sn_cache := c, sn_requests := (sn_requests s)[i := (rq, st')],
            sn_made := sn_made s @ made_now cx rq (sn_world s) w\<rparr>))"

fun send_step :: "'c send_env \<Rightarrow> send_event \<Rightarrow> 'c sending \<Rightarrow> 'c sending" where
  "send_step cx (Arrive rq) s = s\<lparr>sn_requests := sn_requests s @ [(rq, Arrived)]\<rparr>"
| "send_step cx (Advance i up) s = advance cx i up s"
| "send_step cx (Pass n) s = s\<lparr>sn_now := sn_now s + int n, sn_cache := c_elapse (sen_ops cx) (int n) (sn_cache s)\<rparr>"
| "send_step cx (Others w) s = s\<lparr>sn_world := w\<rparr>"

definition no_requests :: "world \<Rightarrow> 'c \<Rightarrow> 'c sending" where
  "no_requests w c = \<lparr>sn_world = w, sn_cache = c, sn_now = 0, sn_requests = [], sn_made = []\<rparr>"

fun redis_up :: "send_event \<Rightarrow> bool" where
  "redis_up (Advance i up) = up"
| "redis_up _ = True"

section \<open>At most one message\<close>

lemma digit_char: "d < 10 \<Longrightarrow> of_char (char_of (48 + d) :: char) = (48 + d :: nat)"
  by (simp add: of_char_of take_bit_eq_mod)

lemma digits_rec:
  "n < 10 \<Longrightarrow> digits n = [char_of (48 + n)]" "\<not> n < 10 \<Longrightarrow> digits n = digits (n div 10) @ [char_of (48 + n mod 10)]"
  by (subst digits.simps, simp)+

lemma digits_read: "foldl (\<lambda>a c. 10 * a + (of_char c - 48)) 0 (digits n) = n"
proof (induction n rule: digits.induct)
  case (1 n)
  then show ?case by (cases "n < 10") (simp_all add: digits_rec digit_char)
qed

lemma digits_chars: "c \<in> set (digits n) \<Longrightarrow> of_char c < (58 :: nat)"
proof (induction n rule: digits.induct)
  case (1 n)
  then show ?case by (cases "n < 10") (auto simp: digits_rec digit_char)
qed

lemma digits_inj: "digits m = digits n \<longleftrightarrow> m = n"
  by (metis digits_read)

lemma digits_not_pending: "digits n \<noteq> ''pending''" "digits n \<noteq> []"
proof -
  show "digits n \<noteq> ''pending''"
  proof
    assume "digits n = ''pending''"
    then have "CHR ''p'' \<in> set (digits n)" by simp
    from digits_chars [OF this] show False by simp
  qed
  show "digits n \<noteq> []" by (subst digits.simps) simp
qed

definition holding :: "stage \<Rightarrow> bool" where
  "holding st = (case st of Creating claimed \<Rightarrow> claimed | Storing m \<Rightarrow> True | Releasing e \<Rightarrow> True | _ \<Rightarrow> False)"

definition stage_ok :: "agent_request \<times> stage \<Rightarrow> bool" where
  "stage_ok x = (case x of (rq, st) \<Rightarrow>
     if ar_id rq = [] then \<not> holding st \<and> (\<forall>n. st \<noteq> Polling n) else st \<noteq> Creating False)"

definition stages_of :: "'c send_env \<Rightarrow> string \<Rightarrow> (agent_request \<times> stage) list \<Rightarrow> stage list" where
  "stages_of cx k rs = map snd (filter (\<lambda>(rq, st). ar_id rq \<noteq> [] \<and> request_key cx rq = k) rs)"

text \<open>The requests with one key, the value of the key with the time it has left, and the messages they made.\<close>

definition key_fine :: "int \<Rightarrow> int \<Rightarrow> stage list \<Rightarrow> json option \<Rightarrow> int option \<Rightarrow> nat list \<Rightarrow> bool" where
  "key_fine ttl now sts v l made \<longleftrightarrow>
     (v \<noteq> None \<longrightarrow> (\<exists>n. l = Some n \<and> ttl - now \<le> n)) \<and>
     (case filter holding sts of
        [] \<Rightarrow> v = None \<and> made = [] \<or> (\<exists>m. v = Some (JStr (digits m)) \<and> made = [m])
      | [st] \<Rightarrow> v = Some (JStr ''pending'') \<and> made = (case st of Storing m \<Rightarrow> [m] | _ \<Rightarrow> [])
      | _ \<Rightarrow> False) \<and>
     (\<forall>m. Returned m \<in> set sts \<longrightarrow> made = [m])"

definition made_for :: "string \<Rightarrow> (string \<times> nat) list \<Rightarrow> nat list" where
  "made_for k xs = map snd (filter (\<lambda>x. fst x = k) xs)"

definition keys_fine :: "'c send_env \<Rightarrow> (string \<Rightarrow> 'c \<Rightarrow> int option) \<Rightarrow> 'c sending \<Rightarrow> bool" where
  "keys_fine cx left s \<longleftrightarrow> 0 \<le> sn_now s \<and> (\<forall>x \<in> set (sn_requests s). stage_ok x) \<and>
     (\<forall>k. key_fine (sen_ttl cx) (sn_now s) (stages_of cx k (sn_requests s)) (c_get (sen_ops cx) k (sn_cache s))
        (left k (sn_cache s)) (made_for k (sn_made s)))"

lemma key_fine_move:
  assumes "key_fine ttl now (xs @ st # ys) v l made" and "\<not> holding st" "\<not> holding st'"
    and "\<And>m. st' = Returned m \<Longrightarrow> st = st' \<or> v = Some (JStr (digits m))"
  shows "key_fine ttl now (xs @ st' # ys) v l made"
  using assms unfolding key_fine_def
  by (auto simp: digits_inj digits_not_pending [symmetric] digits_not_pending split: list.splits)

lemma key_fine_few: "key_fine ttl now sts v l made \<Longrightarrow> length made \<le> 1"
  unfolding key_fine_def by (auto split: list.splits stage.splits)

lemma key_fine_claim:
  assumes "key_fine ttl now (xs @ Arrived # ys) None l made" and "0 \<le> now"
  shows "key_fine ttl now (xs @ Creating True # ys) (Some (JStr ''pending'')) (Some ttl) made"
  using assms unfolding key_fine_def
  by (auto simp: holding_def [of Arrived] holding_def [of "Creating True"] split: list.splits)

lemma only_holder:
  assumes "key_fine ttl now (xs @ st # ys) v l made" and "holding st"
  shows "filter holding xs = []" "filter holding ys = []" "v = Some (JStr ''pending'')"
    "made = (case st of Storing m \<Rightarrow> [m] | _ \<Rightarrow> [])" "\<exists>n. l = Some n \<and> ttl - now \<le> n"
    "Returned m \<in> set (xs @ ys) \<Longrightarrow> made = [m]"
proof -
  have "filter holding xs = [] \<and> filter holding ys = []"
    using assms unfolding key_fine_def by (cases "filter holding xs") (auto split: list.splits)
  then show "filter holding xs = []" "filter holding ys = []" by simp_all
  then have one: "filter holding (xs @ st # ys) = [st]" using assms(2) by simp
  show "v = Some (JStr ''pending'')" "made = (case st of Storing m \<Rightarrow> [m] | _ \<Rightarrow> [])" "\<exists>n. l = Some n \<and> ttl - now \<le> n"
    "Returned m \<in> set (xs @ ys) \<Longrightarrow> made = [m]"
    using assms(1) unfolding key_fine_def one by auto
qed

lemma key_fine_create:
  assumes "key_fine ttl now (xs @ Creating True # ys) v l made"
  shows "key_fine ttl now (xs @ Releasing e # ys) v l made" "key_fine ttl now (xs @ Storing m # ys) v l (made @ [m])"
proof -
  have h: "holding (Creating True)" "holding (Releasing e)" "holding (Storing m)" by (simp_all add: holding_def)
  note o = only_holder [OF assms h(1)]
  have "Returned n \<notin> set (xs @ ys)" for n using o(4) o(6) [of n] by auto
  then show "key_fine ttl now (xs @ Releasing e # ys) v l made" "key_fine ttl now (xs @ Storing m # ys) v l (made @ [m])"
    using o(1-5) h unfolding key_fine_def by auto
qed

lemma key_fine_store:
  assumes "key_fine ttl now (xs @ Storing m # ys) v l made" and "0 \<le> now"
  shows "key_fine ttl now (xs @ Returned m # ys) (Some (JStr (digits m))) (Some ttl) made"
proof -
  have h: "holding (Storing m)" "\<not> holding (Returned m)" by (simp_all add: holding_def)
  note o = only_holder [OF assms(1) h(1)]
  show ?thesis using o(1,2,4,6) h assms(2) unfolding key_fine_def by auto
qed

lemma key_fine_release:
  assumes "key_fine ttl now (xs @ Releasing e # ys) v l made"
  shows "key_fine ttl now (xs @ Refused e # ys) None None made"
proof -
  have h: "holding (Releasing e)" "\<not> holding (Refused e)" by (simp_all add: holding_def)
  note o = only_holder [OF assms h(1)]
  have "Returned n \<notin> set (xs @ ys)" for n using o(4) o(6) [of n] by auto
  then show ?thesis using o(1,2,4) h unfolding key_fine_def by auto
qed

lemma stages_append: "stages_of cx k (xs @ ys) = stages_of cx k xs @ stages_of cx k ys"
  "stages_of cx k ((rq, st) # ys) = (if ar_id rq \<noteq> [] \<and> request_key cx rq = k then [st] else []) @ stages_of cx k ys"
  by (simp_all add: stages_of_def)

lemma made_for_append: "made_for k (xs @ ys) = made_for k xs @ made_for k ys"
  by (simp add: made_for_def)

text \<open>What one move does to the cache, to the stage and to the log, seen from one key.\<close>

lemma request_step_other:
  assumes cache: "expiring_cache (sen_ops cx) left" and ttl: "0 < sen_ttl cx" and fine: "stage_ok (rq, st)"
    and move: "request_step cx up now rq st (w, c) = (st', w', c')" and other: "ar_id rq = [] \<or> request_key cx rq \<noteq> k"
  shows "c_get (sen_ops cx) k c' = c_get (sen_ops cx) k c" "left k c' = left k c"
proof -
  have base: "cache_backend (sen_ops cx)" using cache by (simp add: expiring_cache_def)
  note laws = cache_backend.get_set [OF base] cache_backend.get_add [OF base ttl] cache_backend.get_delete [OF base]
    expiring_cache.left_set [OF cache ttl] expiring_cache.left_delete [OF cache]
  have add: "c_get (sen_ops cx) k (snd (c_add (sen_ops cx) (request_key cx rq) v (sen_ttl cx) c)) = c_get (sen_ops cx) k c \<and>
      left k (snd (c_add (sen_ops cx) (request_key cx rq) v (sen_ttl cx) c)) = left k c" if "request_key cx rq \<noteq> k" for v
    using that laws(2) expiring_cache.left_add [OF cache ttl] expiring_cache.add_taken [OF cache]
    by (cases "c_get (sen_ops cx) (request_key cx rq) c = None") auto
  have "c' = c \<or> request_key cx rq \<noteq> k \<and> (c' = snd (c_add (sen_ops cx) (request_key cx rq) (JStr ''pending'') (sen_ttl cx) c) \<or>
      (\<exists>m. c' = c_set (sen_ops cx) (request_key cx rq) (JStr (digits m)) (Some (sen_ttl cx)) c) \<or>
      c' = snd (c_delete (sen_ops cx) (request_key cx rq) c))"
    using move fine other
    by (cases st) (auto simp: stage_ok_def holding_def claim_request_id_def store_request_id_message_def release_request_id_def
        split: if_splits prod.splits sum.splits bool.splits option.splits nat.splits)
  then show "c_get (sen_ops cx) k c' = c_get (sen_ops cx) k c" "left k c' = left k c"
    using laws add ttl by (auto simp: ttl_ok_def)
qed

lemma request_step_stage:
  assumes "stage_ok (rq, st)" and "request_step cx up now rq st (w, c) = (st', w', c')"
  shows "stage_ok (rq, st')"
  using assms
  by (cases st) (auto simp: stage_ok_def holding_def split: if_splits prod.splits sum.splits bool.splits option.splits nat.splits)

lemma request_step_rows:
  assumes "\<And>a. task_ok (sen_env cx) ''register_message_improvement_task'' a" and "stage_ok (rq, st)" and "ar_id rq \<noteq> []"
    and "request_step cx up now rq st (w, c) = (st', w', c')"
  shows "map msg_id (drop (length (messages w)) (messages w')) = (case (st, st') of (Creating True, Storing m) \<Rightarrow> [m] | _ \<Rightarrow> [])"
proof (cases "st = Creating True")
  case True
  let ?env = "(sen_env cx)\<lparr>env_now := now\<rparr>"
  obtain res w1 where res: "create_message ?env (ar_user rq) (ar_data rq) w = (res, w1)" by force
  have "messages w1 = messages w @ (case res of Inl e \<Rightarrow> [] | Inr m \<Rightarrow> [m])"
    by (rule create_rows [OF res]) (simp add: assms(1))
  with assms(4) True res show ?thesis by (auto split: sum.splits)
next
  case False
  then have "w' = w" using assms(2-4)
    by (cases st) (auto simp: stage_ok_def holding_def split: if_splits prod.splits sum.splits bool.splits option.splits nat.splits)
  then show ?thesis using False by (auto split: stage.splits bool.splits)
qed

lemma request_step_own:
  assumes cache: "expiring_cache (sen_ops cx) left" and ttl: "0 < sen_ttl cx" and ok: "stage_ok (rq, st)" and id: "ar_id rq \<noteq> []"
    and move: "request_step cx True at rq st (w, c) = (st', w', c')" and now: "0 \<le> now"
    and fine: "key_fine (sen_ttl cx) now (xs @ st # ys) (c_get (sen_ops cx) (request_key cx rq) c) (left (request_key cx rq) c) made"
  shows "key_fine (sen_ttl cx) now (xs @ st' # ys) (c_get (sen_ops cx) (request_key cx rq) c') (left (request_key cx rq) c')
    (made @ (case (st, st') of (Creating True, Storing m) \<Rightarrow> [m] | _ \<Rightarrow> []))"
proof -
  have base: "cache_backend (sen_ops cx)" using cache by (simp add: expiring_cache_def)
  note laws = cache_backend.get_set [OF base] cache_backend.get_add [OF base ttl] cache_backend.get_delete [OF base]
    expiring_cache.left_set [OF cache ttl] expiring_cache.left_delete [OF cache] expiring_cache.left_add [OF cache ttl]
  let ?K = "request_key cx rq" and ?get = "c_get (sen_ops cx)"
  show ?thesis
  proof (cases st)
    case [simp]: Arrived
    let ?a = "c_add (sen_ops cx) ?K (JStr ''pending'') (sen_ttl cx) c"
    have won: "fst ?a \<longleftrightarrow> ?get ?K c = None" by (rule cache_backend.add_result [OF base])
    show ?thesis
    proof (cases "?get ?K c = None")
      case True
      then have "st' = Creating True" "c' = snd ?a"
        using move id won by (auto simp: claim_request_id_def split: prod.splits bool.splits)
      then show ?thesis using key_fine_claim [of "sen_ttl cx" now xs ys] fine now laws True by simp
    next
      case False
      then have "st' = Polling (sen_polls cx)" "c' = c"
        using move id won expiring_cache.add_taken [OF cache False, of "JStr ''pending''" "sen_ttl cx"]
        by (auto simp: claim_request_id_def split: prod.splits bool.splits)
      then show ?thesis using key_fine_move [OF fine, of "Polling (sen_polls cx)"] by (simp add: holding_def)
    qed
  next
    case [simp]: (Creating claimed)
    have "claimed" using ok id by (simp add: stage_ok_def)
    then show ?thesis using move key_fine_create fine by (auto split: prod.splits sum.splits)
  next
    case [simp]: (Storing m)
    have "st' = Returned m" "c' = c_set (sen_ops cx) ?K (JStr (digits m)) (Some (sen_ttl cx)) c"
      using move by (simp_all add: store_request_id_message_def)
    then show ?thesis using key_fine_store fine now laws ttl by (simp add: ttl_ok_def)
  next
    case [simp]: (Releasing e)
    have "st' = Refused e" "c' = snd (c_delete (sen_ops cx) ?K c)" using move by (simp_all add: release_request_id_def)
    then show ?thesis using key_fine_release fine laws by simp
  next
    case [simp]: (Polling n)
    have c': "c' = c" using move by (auto split: option.splits nat.splits)
    have "\<not> holding st'" using move by (auto simp: holding_def split: option.splits nat.splits)
    moreover have "?get ?K c = Some (JStr (digits m))" if "st' = Returned m" for m
    proof -
      have look: "look_up_message cx True rq w c = Some m" using move that by (auto split: option.splits nat.splits)
      then obtain v where "?get ?K c = Some (JStr v)" "v \<noteq> ''pending''"
        by (auto simp: look_up_message_def get_request_id_value_def split: option.splits json.splits if_splits)
      moreover from this obtain m' where "v = digits m'"
        using fine by (auto simp: key_fine_def split: list.splits)
      moreover from calculation have "m = m'" using look
        by (auto simp: look_up_message_def get_request_id_value_def digits_inj dest!: find_in_set split: if_splits)
      ultimately show ?thesis by simp
    qed
    ultimately show ?thesis using key_fine_move [OF fine] c' by (simp add: holding_def)
  next
    case (Returned m)
    then show ?thesis using move fine by auto
  next
    case (Refused e)
    then show ?thesis using move fine by auto
  qed
qed

lemma keys_fine_advance:
  assumes cache: "expiring_cache (sen_ops cx) left" and ttl: "0 < sen_ttl cx"
    and hook: "\<And>a. task_ok (sen_env cx) ''register_message_improvement_task'' a" and fine: "keys_fine cx left s"
  shows "keys_fine cx left (advance cx i True s)"
proof (cases "i < length (sn_requests s)")
  case False
  then show ?thesis using fine by (simp add: advance_def)
next
  case True
  obtain rq st where x: "sn_requests s ! i = (rq, st)" by force
  obtain xs ys where split: "sn_requests s = xs @ (rq, st) # ys" "length xs = i"
    using id_take_nth_drop [OF True] x True by (metis length_take min.absorb4)
  obtain st' w c where move: "request_step cx True (micros (sn_now s)) rq st (sn_world s, sn_cache s) = (st', w, c)"
    using prod_cases3 by blast
  let ?s = "s\<lparr>sn_world := w, sn_cache := c, sn_requests := xs @ (rq, st') # ys, sn_made := sn_made s @ made_now cx rq (sn_world s) w\<rparr>"
  have s': "advance cx i True s = ?s"
    using True x move split by (simp add: advance_def list_update_append)
  have ok: "stage_ok (rq, st)" using fine split(1) by (simp add: keys_fine_def)
  have "key_fine (sen_ttl cx) (sn_now s) (stages_of cx k (xs @ (rq, st') # ys)) (c_get (sen_ops cx) k c) (left k c)
      (made_for k (sn_made ?s))" for k
  proof -
    have old: "key_fine (sen_ttl cx) (sn_now s) (stages_of cx k (xs @ (rq, st) # ys)) (c_get (sen_ops cx) k (sn_cache s))
      (left k (sn_cache s)) (made_for k (sn_made s))" using fine split(1) by (simp add: keys_fine_def)
    show ?thesis
    proof (cases "ar_id rq \<noteq> [] \<and> request_key cx rq = k")
      case True
      have "made_for k (made_now cx rq (sn_world s) w) = (case (st, st') of (Creating True, Storing m) \<Rightarrow> [m] | _ \<Rightarrow> [])"
        using request_step_rows [OF hook ok _ move] True by (simp add: made_now_def made_for_def filter_map o_def)
      then show ?thesis
        using request_step_own [OF cache ttl ok _ move] old True fine
        by (simp add: stages_append made_for_append keys_fine_def)
    next
      case False
      then have "made_for k (made_now cx rq (sn_world s) w) = []" by (auto simp: made_now_def made_for_def filter_empty_conv)
      then show ?thesis
        using request_step_other [OF cache ttl ok move, of k] old False by (auto simp: stages_append made_for_append)
    qed
  qed
  then show ?thesis
    unfolding s' keys_fine_def using fine split(1) request_step_stage [OF ok move] by (auto simp: keys_fine_def)
qed

lemma keys_fine_step:
  assumes cache: "expiring_cache (sen_ops cx) left" and ttl: "0 < sen_ttl cx"
    and hook: "\<And>a. task_ok (sen_env cx) ''register_message_improvement_task'' a" and fine: "keys_fine cx left s"
    and up: "redis_up ev" and timely: "sn_now (send_step cx ev s) < sen_ttl cx"
  shows "keys_fine cx left (send_step cx ev s)"
proof (cases ev)
  case (Arrive rq)
  have "key_fine ttl now sts v l made \<Longrightarrow> key_fine ttl now (sts @ [Arrived]) v l made" for ttl now sts v l made
    by (simp add: key_fine_def holding_def)
  then show ?thesis
    using fine Arrive by (auto simp: keys_fine_def stage_ok_def holding_def stages_of_def)
next
  case (Advance i b)
  then show ?thesis using keys_fine_advance [OF cache ttl hook fine] up by simp
next
  case (Pass n)
  have base: "cache_backend (sen_ops cx)" using cache by (simp add: expiring_cache_def)
  have "key_fine (sen_ttl cx) (sn_now s + int n) sts (c_get (sen_ops cx) k (c_elapse (sen_ops cx) (int n) (sn_cache s)))
      (left k (c_elapse (sen_ops cx) (int n) (sn_cache s))) made"
    if old: "key_fine (sen_ttl cx) (sn_now s) sts (c_get (sen_ops cx) k (sn_cache s)) (left k (sn_cache s)) made" for k sts made
  proof (cases "c_get (sen_ops cx) k (sn_cache s)")
    case None
    then have "c_get (sen_ops cx) k (c_elapse (sen_ops cx) (int n) (sn_cache s)) = None"
      using cache_backend.get_elapse [OF base, of "int n" k "sn_cache s"] by simp
    then show ?thesis using old None by (simp add: key_fine_def split: list.splits)
  next
    case (Some v)
    then obtain m where m: "left k (sn_cache s) = Some m" "sen_ttl cx - sn_now s \<le> m" using old by (auto simp: key_fine_def)
    have "int n < m" using timely m(2) Pass by simp
    then have l: "left k (c_elapse (sen_ops cx) (int n) (sn_cache s)) = Some (m - int n)"
      using expiring_cache.left_elapse [OF cache, of "int n" k "sn_cache s"] m(1) by simp
    then have "c_get (sen_ops cx) k (c_elapse (sen_ops cx) (int n) (sn_cache s)) = Some v"
      using cache_backend.get_elapse [OF base, of "int n" k "sn_cache s"] expiring_cache.left_present [OF cache l] Some by auto
    then show ?thesis using old Some l m by (simp add: key_fine_def)
  qed
  then show ?thesis using fine Pass by (simp add: keys_fine_def)
next
  case (Others w)
  then show ?thesis using fine by (simp add: keys_fine_def)
qed

lemma send_step_now: "sn_now s \<le> sn_now (send_step cx ev s)"
  by (cases ev) (auto simp: advance_def split: prod.splits)

lemma keys_fine_steps:
  assumes cache: "expiring_cache (sen_ops cx) left" and ttl: "0 < sen_ttl cx"
    and hook: "\<And>a. task_ok (sen_env cx) ''register_message_improvement_task'' a" and fine: "keys_fine cx left s"
    and up: "list_all redis_up evs" and timely: "sn_now (fold (send_step cx) evs s) < sen_ttl cx"
  shows "keys_fine cx left (fold (send_step cx) evs s)"
  using up timely
proof (induction evs rule: rev_induct)
  case (snoc ev evs)
  have "sn_now (fold (send_step cx) evs s) < sen_ttl cx" using snoc.prems(2) send_step_now [of "fold (send_step cx) evs s" cx ev] by simp
  then show ?case using keys_fine_step [OF cache ttl hook] snoc by simp
qed (simp add: fine)

text \<open>C32. Requests with an id, in any number, with any other transactions in between: as long as Redis answers, the broker
  accepts the task of the improvement hook, and all of them come within the time to live of a claim, the requests of a user
  with one id write at most one message, whether they are repeated before, after or while it is written, and each that
  returns gives this message.\<close>

theorem agent_message_written_once:
  assumes "expiring_cache (sen_ops cx) left" and "0 < sen_ttl cx"
    and "\<And>a. task_ok (sen_env cx) ''register_message_improvement_task'' a"
    and "\<And>k. c_get (sen_ops cx) k c = None" and "list_all redis_up evs"
    and "s = fold (send_step cx) evs (no_requests w c)" and "sn_now s < sen_ttl cx"
  shows "distinct (map fst (sn_made s)) \<and>
    (\<forall>rq m. (rq, Returned m) \<in> set (sn_requests s) \<and> ar_id rq \<noteq> [] \<longrightarrow> (request_key cx rq, m) \<in> set (sn_made s))"
proof -
  have "keys_fine cx left (no_requests w c)"
    using assms(4) by (simp add: keys_fine_def no_requests_def stages_of_def made_for_def key_fine_def)
  then have fine: "keys_fine cx left s"
    unfolding assms(6) using keys_fine_steps [OF assms(1-3) _ assms(5)] assms(6,7) by simp
  have few: "length (made_for k (sn_made s)) \<le> 1" for k
    using fine key_fine_few unfolding keys_fine_def by blast
  have "(\<And>k. length (made_for k xs) \<le> 1) \<Longrightarrow> distinct (map fst xs)" for xs
  proof (induction xs)
    case (Cons x xs)
    have "length (made_for k xs) \<le> 1" for k
      using Cons.prems [of k] by (simp add: made_for_def split: if_splits)
    moreover have "filter (\<lambda>y. fst y = fst x) xs = []" using Cons.prems [of "fst x"] by (simp add: made_for_def)
    ultimately show ?case using Cons.IH by (auto simp: filter_empty_conv)
  qed simp
  then have "distinct (map fst (sn_made s))" using few by blast
  moreover have "(request_key cx rq, m) \<in> set (sn_made s)" if "(rq, Returned m) \<in> set (sn_requests s)" "ar_id rq \<noteq> []" for rq m
  proof -
    have "Returned m \<in> set (stages_of cx (request_key cx rq) (sn_requests s))" using that by (force simp: stages_of_def)
    then have "made_for (request_key cx rq) (sn_made s) = [m]" using fine unfolding keys_fine_def key_fine_def by blast
    then have "m \<in> set (made_for (request_key cx rq) (sn_made s))" by simp
    then show ?thesis by (force simp: made_for_def)
  qed
  ultimately show ?thesis by blast
qed

section \<open>Samples\<close>

definition own_room :: world where
  "own_room = small_world\<lparr>rooms := [blank_room\<lparr>rm_queue := Some ''q'', rm_user := Some ''a@x'', rm_first_user_assigned_at := Some 1\<rparr>]\<rparr>"

definition hello :: agent_data where
  "hello = \<lparr>ad_room = Some ''r1'', ad_text = ''Hello'', ad_improvement = None\<rparr>"

definition answering :: "mem_cache send_env" where
  "answering = \<lparr>sen_env = calm_env, sen_ops = mem_ops, sen_ttl = 86400, sen_polls = 10\<rparr>"

abbreviation hello_request :: agent_request where
  "hello_request \<equiv> \<lparr>ar_user = ''a@x'', ar_id = ''1'', ar_data = hello\<rparr>"

text \<open>A request and its repetition: the second one waits for the first.\<close>

definition repeated :: "send_event list" where
  "repeated = [Arrive hello_request, Arrive hello_request, Advance 0 True, Advance 1 True, Advance 1 True, Advance 0 True,
     Pass 1, Advance 0 True, Advance 1 True]"

lemma repeated_runs:
  "let s = fold (send_step answering) repeated (no_requests own_room mem_empty) in
     map snd (sn_requests s) = [Returned 0, Returned 0] \<and> length (sn_made s) = 1 \<and> sn_now s = 1"
  by code_simp

theorem agent_message_written_once_witness:
  "\<exists>s. s = fold (send_step answering) repeated (no_requests own_room mem_empty) \<and> distinct (map fst (sn_made s)) \<and> length (sn_made s) = 1"
proof -
  let ?s = "fold (send_step answering) repeated (no_requests own_room mem_empty)"
  have "distinct (map fst (sn_made ?s))"
    using agent_message_written_once [of answering mem_left mem_empty repeated ?s own_room] repeated_runs
      timed_mem.expiring_cache_axioms
    by (simp add: Let_def answering_def calm_env_def repeated_def mem_defs mem_empty_def)
  then show ?thesis using repeated_runs by (simp add: Let_def)
qed

theorem agent_message_outcome_witness:
  "\<exists>m w' r. create_message calm_env ''a@x'' hello own_room = (Inr m, w') \<and> messages w' = [m] \<and> may_write calm_env own_room ''a@x'' r"
proof -
  obtain res w' where run: "create_message calm_env ''a@x'' hello own_room = (res, w')" by force
  have "\<not> isl (fst (create_message calm_env ''a@x'' hello own_room))" by code_simp
  then obtain m where m: "res = Inr m" using run by (cases res) auto
  have "messages own_room = []" by code_simp
  then show ?thesis using agent_message_outcome [OF run] m run by (auto simp: message_saved_def)
qed

text \<open>When the broker refuses the task of the hook the request fails, gives its id back and has still written its message:
  the repetition writes another one.\<close>

lemma refused_hook_writes_twice:
  "let cx = answering\<lparr>sen_env := calm_env\<lparr>task_ok := \<lambda>n a. n \<noteq> ''register_message_improvement_task'' \<or> a = [''1'', ''CLARITY'', ''USED'']\<rparr>\<rparr>;
       rq = hello_request\<lparr>ar_data := hello\<lparr>ad_improvement := Some (''CLARITY'', ''USED'')\<rparr>\<rparr>;
       s = fold (send_step cx) [Arrive rq, Advance 0 True, Advance 0 True, Advance 0 True, Arrive rq, Advance 1 True, Advance 1 True, Advance 1 True]
         (no_requests own_room mem_empty) in
     map msg_text (messages (sn_world s)) = [''Hello'', ''Hello''] \<and> snd (sn_requests s ! 1) = Returned 1"
  by code_simp

text \<open>When Redis does not answer the store, the message is written but every repetition is refused until the claim expires.\<close>

lemma lost_store_refuses:
  "let cx = answering\<lparr>sen_polls := 1\<rparr>;
       s = fold (send_step cx) [Arrive hello_request, Advance 0 True, Advance 0 True, Advance 0 False, Arrive hello_request,
         Advance 1 True, Advance 1 True, Advance 1 True] (no_requests own_room mem_empty) in
     map snd (sn_requests s) = [Returned 0, Refused (MessageCreateError ''duplicate_in_progress'')]"
  by code_simp

text \<open>Somebody who has nothing to do with the project writes into a room of another agent that waits for its contact, in the
  name of that agent.\<close>

lemma anybody_posts_media:
  "let w = own_room\<lparr>rooms := map (\<lambda>r. r\<lparr>rm_is_waiting := True\<rparr>) (rooms own_room)\<rparr>;
       (res, w') = create_media_view calm_env (\<lambda>_. True) ''nobody@y''
         \<lparr>rst_room = ''r1'', rst_text = [], rst_seen = False, rst_user_email = Some ''a@x'', rst_improvement = None, rst_media = (''image/png'', ''x'')\<rparr> w in
     \<not> isl res \<and> map msg_user (messages w') = [Some ''a@x'']"
  by code_simp

text \<open>The contact gets a message that is not there: the callback is called inside the transaction, before the task of the
  first response is refused.\<close>

lemma refused_task_after_callback:
  "let env = calm_env\<lparr>task_ok := \<lambda>n _. n \<noteq> ''calculate_first_response_time_task''\<rparr>;
       w = own_room\<lparr>rooms := map (\<lambda>r. r\<lparr>rm_callback_url := Some ''u''\<rparr>) (rooms own_room)\<rparr>;
       (res, w') = create_message env ''a@x'' hello w in
     isl res \<and> messages w' = [] \<and> Http_Post ''u'' ''msg.create'' \<in> set (effects w')"
  by code_simp

end
