(* ===== verification/Agent_Connections.thy ===== *)
theory Agent_Connections
  imports Agent_Messages "HOL-Library.AList" "HOL-Library.List_Lexorder" "HOL-Library.Char_ord"
begin

text \<open>
  The WebSocket consumers of agents: \<open>AgentRoomConsumer\<close> of
  \<open>chats/apps/api/websockets/rooms/consumers/agent.py\<close> and its subclass \<open>ManagerAgentRoomConsumer\<close> of
  \<open>manager.py\<close>.

  \<^item> A handler is a statement over \<open>sockets\<close>: the connections by their \<open>connection_id\<close>, the groups of the
    channel layer, the Redis cache, the database and the clock. An exception that leaves a handler ends the consumer
    without a call of \<open>disconnect\<close>: the connection is then \<open>Crashed\<close>.
  \<^item> The consumers run as events, in any order: a handshake, a frame of the client, a message of the channel layer,
    the end of the socket, the second half of \<open>disconnect\<close> after its \<open>asyncio.sleep\<close>, a round of
    \<open>ping_timeout_checker\<close>, the clock, and what happens elsewhere: other parts of the program write in the
    database and publish to groups, and the layer may lose a message.
  \<^item> The settings, the flag service, the JSON parser, the rule for group names and the history of rooms are arguments.
    A frame \<open>message_create\<close> with a request id starts the requests of \<open>Agent_Messages\<close>; here it changes nothing.
  \<^item> What \<open>send_channels_group\<close> sends is in the trace of the world, and arrives as a published message.
  \<^item> The clock counts seconds, as the times to live do.
\<close>

section \<open>State\<close>

record 'c ws_env =
  wsx_env :: env
  wsx_ops :: "'c cache_ops"
  wsx_check :: bool
  wsx_timeout :: int
  wsx_interval :: int
  wsx_seen_interval :: int
  wsx_debug :: bool
  wsx_loads :: "string \<Rightarrow> json option"
  wsx_group_ok :: "string \<Rightarrow> bool"
  wsx_uuid_ok :: "string \<Rightarrow> bool"
  wsx_user_exists :: "email \<Rightarrow> bool"
  wsx_has_history :: "world \<Rightarrow> room \<Rightarrow> email \<Rightarrow> bool"

datatype phase = Accepted | Rejected | Waiting int | Closed | Crashed

record connection =
  cn_user :: email
  cn_project :: uuid
  cn_permission :: "uuid option"
  cn_phase :: phase
  cn_added_groups :: "string list"
  cn_last_ping :: int
  cn_seen_updated_at :: "int option"
  cn_checker :: "int option"
  cn_inbox :: "(string \<times> json) list list"
  cn_sent :: "json list"
  cn_close_code :: "nat option"

record 'c sockets =
  sk_now :: int
  sk_world :: world
  sk_cache :: 'c
  sk_layer :: "string \<Rightarrow> string list"
  sk_conns :: "string \<Rightarrow> connection option"

definition conn :: "string \<Rightarrow> ('c sockets, connection) py" where
  "conn c s = (case sk_conns s c of None \<Rightarrow> (Inl AttributeError, s) | Some k \<Rightarrow> (Inr k, s))"

definition upd_conn :: "string \<Rightarrow> (connection \<Rightarrow> connection) \<Rightarrow> 'c sockets \<Rightarrow> 'c sockets" where
  "upd_conn c f s = s\<lparr>sk_conns := (sk_conns s)(c := map_option f (sk_conns s c))\<rparr>"

definition set_conn :: "string \<Rightarrow> (connection \<Rightarrow> connection) \<Rightarrow> ('c sockets, unit) py" where
  "set_conn c f = modify (upd_conn c f)"

text \<open>\<open>database_sync_to_async\<close> and the synchronous client of Redis.\<close>

definition in_db :: "'c ws_env \<Rightarrow> (env \<Rightarrow> (world, 'a) py) \<Rightarrow> ('c sockets, 'a) py" where
  "in_db cx m s = (case m ((wsx_env cx)\<lparr>env_now := micros (sk_now s)\<rparr>) (sk_world s) of
     (r, w) \<Rightarrow> (r, s\<lparr>sk_world := w\<rparr>))"

section \<open>Groups\<close>

text \<open>The channel layer refuses invalid names; a message goes to the members a group has when it is sent.\<close>

definition group_add :: "'c ws_env \<Rightarrow> string \<Rightarrow> string \<Rightarrow> ('c sockets, unit) py" where
  "group_add cx g c = (if wsx_group_ok cx g
     then modify (\<lambda>s. s\<lparr>sk_layer := (sk_layer s)(g := List.insert c (sk_layer s g))\<rparr>) else raise TypeError)"

definition group_discard :: "'c ws_env \<Rightarrow> string \<Rightarrow> string \<Rightarrow> ('c sockets, unit) py" where
  "group_discard cx g c = (if wsx_group_ok cx g
     then modify (\<lambda>s. s\<lparr>sk_layer := (sk_layer s)(g := removeAll c (sk_layer s g))\<rparr>) else raise TypeError)"

definition deliver_to :: "string list \<Rightarrow> (string \<times> json) list \<Rightarrow> 'c sockets \<Rightarrow> 'c sockets" where
  "deliver_to cs ev s = s\<lparr>sk_conns := (\<lambda>c. map_option
     (\<lambda>k. if c \<in> set cs then k\<lparr>cn_inbox := cn_inbox k @ [ev]\<rparr> else k) (sk_conns s c))\<rparr>"

definition group_send :: "'c ws_env \<Rightarrow> string \<Rightarrow> (string \<times> json) list \<Rightarrow> ('c sockets, unit) py" where
  "group_send cx g ev = (if wsx_group_ok cx g then modify (\<lambda>s. deliver_to (sk_layer s g) ev s) else raise TypeError)"

definition send_json :: "string \<Rightarrow> json \<Rightarrow> ('c sockets, unit) py" where
  "send_json c j = set_conn c (\<lambda>k. k\<lparr>cn_sent := cn_sent k @ [j]\<rparr>)"

definition permission_group :: "uuid \<Rightarrow> string" where
  "permission_group pk = ''permission_'' @ pk"

text \<open>A JSON value in an f-string; lists and dictionaries never make the name of a group or a key that is used.\<close>

definition f_text :: "json \<Rightarrow> string" where
  "f_text j = (case j of JStr s \<Rightarrow> s | JInt i \<Rightarrow> show_int i | JNull \<Rightarrow> ''None''
     | JBool b \<Rightarrow> (if b then ''True'' else ''False'') | _ \<Rightarrow> json_dumps j)"

text \<open>\<open>d[k]\<close> and \<open>j.get(k)\<close>.\<close>

definition item :: "(string \<times> json) list \<Rightarrow> string \<Rightarrow> ('s, json) py" where
  "item kvs k = (case map_of kvs k of None \<Rightarrow> raise (RuntimeError ''KeyError'') | Some v \<Rightarrow> ret v)"

definition as_dict :: "json \<Rightarrow> ('s, (string \<times> json) list) py" where
  "as_dict j = (case j of JObj kvs \<Rightarrow> ret kvs | _ \<Rightarrow> raise AttributeError)"

definition loads :: "'c ws_env \<Rightarrow> json \<Rightarrow> exn + json" where
  "loads cx j = (case j of
     JStr t \<Rightarrow> (case wsx_loads cx t of None \<Rightarrow> Inl (ValueError ''JSONDecodeError'') | Some v \<Rightarrow> Inr v)
   | _ \<Rightarrow> Inl TypeError)"

section \<open>Status and last seen\<close>

definition permission_notify_user :: "env \<Rightarrow> uuid \<Rightarrow> string \<Rightarrow> (world, unit) py" where
  "permission_notify_user env pk action =
     send_channels_group env (permission_group pk) ''notify'' (''status.'' @ action) (set_ws_retries env)"

definition set_user_status :: "'c ws_env \<Rightarrow> uuid \<Rightarrow> string \<Rightarrow> ('c sockets, unit) py" where
  "set_user_status cx pk status = in_db cx (\<lambda>env.
     bnd (need (DoesNotExist ''ProjectPermission'') (\<lambda>w. find_permission_pk w pk)) (\<lambda>_.
     andthen (modify (\<lambda>w. w\<lparr>permissions := update_where (\<lambda>p. prm_uuid p = pk) (\<lambda>p. p\<lparr>prm_status := status\<rparr>) (permissions w)\<rparr>))
       (permission_notify_user env pk ''update'')))"

definition update_last_seen_db :: "'c ws_env \<Rightarrow> uuid \<Rightarrow> ('c sockets, unit) py" where
  "update_last_seen_db cx pk = in_db cx (\<lambda>env.
     bnd (need (RuntimeError ''DatabaseError'') (\<lambda>w. find_permission_pk w pk)) (\<lambda>_.
     modify (\<lambda>w. w\<lparr>permissions := update_where (\<lambda>p. prm_uuid p = pk)
       (\<lambda>p. p\<lparr>prm_last_seen := Some (env_now env)\<rparr>) (permissions w)\<rparr>)))"

definition maybe_update_last_seen :: "'c ws_env \<Rightarrow> string \<Rightarrow> ('c sockets, unit) py" where
  "maybe_update_last_seen cx c =
     bnd (gets sk_now) (\<lambda>now. bnd (conn c) (\<lambda>k.
     if (case cn_seen_updated_at k of None \<Rightarrow> False | Some t \<Rightarrow> now - t < wsx_seen_interval cx) then ret ()
     else case cn_permission k of None \<Rightarrow> raise AttributeError
       | Some pk \<Rightarrow> andthen (update_last_seen_db cx pk) (set_conn c (\<lambda>k. k\<lparr>cn_seen_updated_at := Some now\<rparr>))))"

definition is_ping_timeout_feature_enabled :: "'c ws_env \<Rightarrow> string \<Rightarrow> ('c sockets, bool) py" where
  "is_ping_timeout_feature_enabled cx c = bnd (conn c) (\<lambda>k.
     if cn_permission k = None then ret False
     else case flag_attr (wsx_env cx) ''ping_timeout'' (cn_project k) of
       None \<Rightarrow> raise (ExternalError ''feature flag'') | Some b \<Rightarrow> ret b)"

text \<open>\<open>finalize_in_service_if_needed\<close> and \<open>log_status_change\<close>.\<close>

definition finalize_in_service_if_needed :: "'c ws_env \<Rightarrow> email \<Rightarrow> uuid \<Rightarrow> ('c sockets, unit) py" where
  "finalize_in_service_if_needed cx user prj = in_db cx (\<lambda>env.
     bnd (gets (\<lambda>w. project_get_permission w prj (Some user))) (\<lambda>found. case found of
       None \<Rightarrow> ret ()
     | Some p \<Rightarrow> when_true (prm_status p = ''ONLINE'') (room_closed env (Some user) (Some prj))))"

definition log_status_change :: "'c ws_env \<Rightarrow> email \<Rightarrow> uuid \<Rightarrow> string \<Rightarrow> ('c sockets, unit) py" where
  "log_status_change cx user prj status = in_db cx (\<lambda>env. delay env ''log_agent_status_change'' [user, prj, status])"

text \<open>The three calls that \<open>disconnect\<close> and \<open>ping_timeout_checker\<close> make.\<close>

definition go_offline :: "'c ws_env \<Rightarrow> connection \<Rightarrow> uuid \<Rightarrow> ('c sockets, unit) py" where
  "go_offline cx k pk = andthen (set_user_status cx pk ''OFFLINE'')
    (andthen (finalize_in_service_if_needed cx (cn_user k) (cn_project k))
      (log_status_change cx (cn_user k) (cn_project k) ''OFFLINE''))"

section \<open>Connection checks\<close>

definition check_key :: "string \<Rightarrow> string" where
  "check_key c = ''connection_check_response_'' @ c"

definition set_connection_check_response :: "'c ws_env \<Rightarrow> string \<Rightarrow> bool \<Rightarrow> ('c sockets, unit) py" where
  "set_connection_check_response cx c response = modify (\<lambda>s. s\<lparr>sk_cache :=
     c_set (wsx_ops cx) (check_key c) (JStr (if response then ''True'' else ''False'')) (Some 10) (sk_cache s)\<rparr>)"

definition get_connection_check_response :: "'c ws_env \<Rightarrow> string \<Rightarrow> ('c sockets, json option) py" where
  "get_connection_check_response cx c = bnd (gets (\<lambda>s. c_get (wsx_ops cx) (check_key c) (sk_cache s))) (\<lambda>response.
     andthen (when_true (response \<noteq> None)
       (modify (\<lambda>s. s\<lparr>sk_cache := snd (c_delete (wsx_ops cx) (check_key c) (sk_cache s))\<rparr>)))
     (ret response))"

definition check_event :: "string \<Rightarrow> email \<Rightarrow> (string \<times> json) list" where
  "check_event c user = [(''type'', JStr ''notify''), (''action'', JStr ''connection_check''),
     (''content'', JObj [(''connection_id'', JStr c), (''user_email'', JStr user)])]"

definition response_event :: "json \<Rightarrow> email \<Rightarrow> (string \<times> json) list" where
  "response_event c user = [(''type'', JStr ''notify''), (''action'', JStr ''connection_check_response''),
     (''content'', JObj [(''connection_id'', c), (''user_email'', JStr user)])]"

section \<open>Notifications\<close>

text \<open>\<open>json.dumps\<close> with \<open>sort_keys=True\<close> and \<open>indent=1\<close>.\<close>

fun sort_keys :: "json \<Rightarrow> json" where
  "sort_keys (JList xs) = JList (map sort_keys xs)"
| "sort_keys (JObj kvs) = JObj (sort_key fst (map (\<lambda>(k, v). (k, sort_keys v)) kvs))"
| "sort_keys j = j"

definition new_line :: "nat \<Rightarrow> string" where
  "new_line lvl = char_of (10::nat) # replicate lvl (CHR '' '')"

fun indented :: "nat \<Rightarrow> json \<Rightarrow> string" where
  "indented lvl (JList xs) = (if xs = [] then ''[]'' else ''['' @ new_line (Suc lvl) @
     joined ('','' @ new_line (Suc lvl)) (map (indented (Suc lvl)) xs) @ new_line lvl @ '']'')"
| "indented lvl (JObj kvs) = (if kvs = [] then ''{}'' else ''{'' @ new_line (Suc lvl) @
     joined ('','' @ new_line (Suc lvl)) (map (\<lambda>(k, v). quoted k @ '': '' @ indented (Suc lvl) v) kvs) @
     new_line lvl @ ''}'')"
| "indented lvl j = json_dumps j"

definition action_of :: "(string \<times> json) list \<Rightarrow> json" where
  "action_of ev = obj_get ev ''action'' JNull"

text \<open>The Python test \<open>"rooms." in event.get("action")\<close>.\<close>

definition rooms_in :: "json \<Rightarrow> ('s, bool) py" where
  "rooms_in a = (case a of
     JStr t \<Rightarrow> ret (contains ''rooms.'' t)
   | JList xs \<Rightarrow> ret (JStr ''rooms.'' \<in> set xs)
   | JObj kvs \<Rightarrow> ret (''rooms.'' \<in> fst ` set kvs)
   | _ \<Rightarrow> raise TypeError)"

definition get_has_history_by_room_uuid :: "'c ws_env \<Rightarrow> email \<Rightarrow> json \<Rightarrow> ('c sockets, bool) py" where
  "get_has_history_by_room_uuid cx user u = in_db cx (\<lambda>env.
     bnd (need (DoesNotExist ''Room'') (\<lambda>w. find_room w (f_text u))) (\<lambda>r.
     bnd (need AttributeError (\<lambda>w. project_of w r)) (\<lambda>_.
     gets (\<lambda>w. wsx_has_history cx w r user))))"

text \<open>
  The branch of \<open>rooms.\<close> events. \<open>return self.send_json(event)\<close> without \<open>await\<close> returns a coroutine that
  nobody runs, so nothing is sent.
\<close>

definition send_room_event :: "'c ws_env \<Rightarrow> string \<Rightarrow> (string \<times> json) list \<Rightarrow> ('c sockets, unit) py" where
  "send_room_event cx c ev = bnd (conn c) (\<lambda>k. bnd (try_except
     (bnd (case obj_get ev ''content'' (JObj []) of JStr t \<Rightarrow> lift_result (loads cx (JStr t)) | j \<Rightarrow> ret j) (\<lambda>content.
      bnd (as_dict content) (\<lambda>kvs.
      if \<not> truthy (obj_get kvs ''uuid'' JNull) then ret None
      else bnd (get_has_history_by_room_uuid cx (cn_user k) (obj_get kvs ''uuid'' JNull)) (\<lambda>has_history.
           ret (Some (AList.update ''content''
             (JStr (indented 0 (sort_keys (JObj (AList.update ''has_history'' (JBool has_history) kvs))))) ev))))))
     (\<lambda>_. ret None))
   (\<lambda>out. case out of None \<Rightarrow> ret () | Some ev' \<Rightarrow> send_json c (JObj ev')))"

definition notify :: "'c ws_env \<Rightarrow> string \<Rightarrow> (string \<times> json) list \<Rightarrow> ('c sockets, unit) py" where
  "notify cx c ev = (let action = action_of ev in
     if action = JStr ''connection_check'' then
       bnd (bnd (item ev ''content'') as_dict) (\<lambda>content. bnd (conn c) (\<lambda>k.
       if obj_get content ''connection_id'' JNull \<noteq> JStr c \<and> obj_get content ''user_email'' JNull = JStr (cn_user k)
       then case cn_permission k of None \<Rightarrow> raise AttributeError
         | Some pk \<Rightarrow> group_send cx (permission_group pk)
             (response_event (obj_get content ''connection_id'' JNull) (cn_user k))
       else ret ()))
     else if action = JStr ''connection_check_response'' then
       bnd (bnd (item ev ''content'') as_dict) (\<lambda>content.
       set_connection_check_response cx (f_text (obj_get content ''connection_id'' JNull)) True)
     else if action = JStr ''rooms.inactivity'' then send_json c (JObj ev)
     else bnd (rooms_in action) (\<lambda>r. if r then send_room_event cx c ev else send_json c (JObj ev)))"

section \<open>Methods\<close>

definition notice :: "string \<Rightarrow> json \<Rightarrow> (string \<times> json) list" where
  "notice action content = [(''type'', JStr ''notify''), (''action'', JStr action), (''content'', content)]"

definition unpack :: "'c ws_env \<Rightarrow> (string \<times> json) list \<Rightarrow> exn + (string \<times> json) list" where
  "unpack cx ev = (let content = obj_get ev ''content'' JNull in
     if truthy content then (case loads cx content of Inl e \<Rightarrow> Inl e | Inr (JObj kvs) \<Rightarrow> Inr kvs | Inr _ \<Rightarrow> Inl AttributeError)
     else Inr ev)"

definition group_name :: "(string \<times> json) list \<Rightarrow> ('c sockets, string) py" where
  "group_name ev = bnd (item ev ''name'') (\<lambda>n. bnd (item ev ''id'') (\<lambda>i. ret (f_text n @ ''_'' @ f_text i)))"

definition enter_group :: "'c ws_env \<Rightarrow> string \<Rightarrow> string \<Rightarrow> ('c sockets, unit) py" where
  "enter_group cx g c = andthen (group_add cx g c)
     (set_conn c (\<lambda>k. k\<lparr>cn_added_groups := cn_added_groups k @ [g]\<rparr>))"

definition join :: "'c ws_env \<Rightarrow> string \<Rightarrow> (string \<times> json) list \<Rightarrow> ('c sockets, unit) py" where
  "join cx c ev0 = bnd (lift_result (unpack cx ev0)) (\<lambda>ev. bnd (group_name ev) (\<lambda>g.
     if obj_get ev ''name'' JNull \<notin> {JStr ''permission'', JStr ''queue''}
     then notify cx c (notice ''group.join'' (JStr (json_dumps (JObj [(''msg'', JStr (''Group '' @ g @ '' is deprecated''))]))))
     else andthen (enter_group cx g c)
         (when_true (wsx_debug cx) (notify cx c (notice ''group.join''
            (JStr (json_dumps (JObj [(''msg'', JStr (''Added '' @ g @ '' to your listening groups''))]))))))))"

definition exit :: "'c ws_env \<Rightarrow> string \<Rightarrow> (string \<times> json) list \<Rightarrow> ('c sockets, unit) py" where
  "exit cx c ev0 = bnd (lift_result (unpack cx ev0)) (\<lambda>ev. bnd (group_name ev) (\<lambda>g. bnd (conn c) (\<lambda>k.
     andthen (when_true (g \<in> set (cn_added_groups k))
        (andthen (set_conn c (\<lambda>k. k\<lparr>cn_added_groups := remove1 g (cn_added_groups k)\<rparr>)) (group_discard cx g c)))
     (when_true (wsx_debug cx) (notify cx c (notice ''group.exit''
        (JStr (json_dumps (JObj [(''msg'', JStr (''Exited '' @ g @ '' to your listening groups''))])))))))))"

definition list_groups :: "'c ws_env \<Rightarrow> string \<Rightarrow> ('c sockets, unit) py" where
  "list_groups cx c = bnd (conn c) (\<lambda>k.
     notify cx c (notice ''groups'' (JObj [(''groups'', JList (map JStr (cn_added_groups k)))])))"

definition message_create_frame :: "string \<Rightarrow> json \<Rightarrow> ('c sockets, unit) py" where
  "message_create_frame c content = (let kvs = (case content of JObj kvs \<Rightarrow> kvs | _ \<Rightarrow> []) in
     when_true (\<not> truthy (obj_get kvs ''request_id'' JNull))
       (send_json c (JObj (notice ''msg.create.error''
          (JObj [(''error_code'', JStr ''validation_error''), (''error_message'', JStr ''request_id is required'')])))))"

definition receive_method :: "'c ws_env \<Rightarrow> string \<Rightarrow> (string \<times> json) list \<Rightarrow> ('c sockets, unit) py" where
  "receive_method cx c payload = (let action = action_of payload; content = obj_get payload ''content'' (JObj []) in
     case action of
       JList _ \<Rightarrow> raise TypeError
     | JObj _ \<Rightarrow> raise TypeError
     | _ \<Rightarrow>
       if action = JStr ''join'' then bnd (as_dict content) (join cx c)
       else if action = JStr ''exit'' then bnd (as_dict content) (exit cx c)
       else if action = JStr ''list_groups'' then list_groups cx c
       else if action = JStr ''message_create'' then message_create_frame c content
       else send_json c (JObj (notice ''method.error'' (JObj [(''error_code'', JStr ''method_not_allowed''),
              (''error_message'', JStr (''Unknown action: '' @ f_text action))]))))"

definition receive_json :: "'c ws_env \<Rightarrow> string \<Rightarrow> json \<Rightarrow> ('c sockets, unit) py" where
  "receive_json cx c j = bnd (as_dict j) (\<lambda>payload.
     let command = obj_get payload ''type'' JNull in
     if command = JStr ''notify'' then bnd (bnd (item payload ''content'') as_dict) (notify cx c)
     else if command = JStr ''method'' then receive_method cx c payload
     else if command = JStr ''ping'' then
       bnd (gets sk_now) (\<lambda>now.
       andthen (set_conn c (\<lambda>k. k\<lparr>cn_last_ping := now\<rparr>))
       (andthen (bnd (is_ping_timeout_feature_enabled cx c) (\<lambda>b. when_true b (maybe_update_last_seen cx c)))
         (send_json c (JObj [(''type'', JStr ''pong'')]))))
     else ret ())"

section \<open>Connecting\<close>

text \<open>\<open>ProjectPermission.queue_ids\<close> and \<open>is_manager(any_sector=True)\<close>.\<close>

definition queue_ids :: "world \<Rightarrow> permission \<Rightarrow> uuid list" where
  "queue_ids w p =
     (if prm_role p = 1
      then map que_uuid (filter (\<lambda>q. \<exists>s \<in> set (sectors w). sec_uuid s = que_sector q \<and> sec_project s = prm_project p
             \<and> \<not> sec_is_deleted s) (queues w))
      else let managed = map que_uuid (filter (\<lambda>q. \<exists>a \<in> set (live_sector_auths w).
             sau_permission a = prm_uuid p \<and> sau_sector a = que_sector q) (queues w)) in
        remdups (managed @ map qau_queue (filter (\<lambda>a. qau_permission a = prm_uuid p \<and> qau_queue a \<notin> set managed
           \<and> qau_role a \<noteq> 2) (live_queue_auths w))))"

definition is_manager_any_sector :: "world \<Rightarrow> permission \<Rightarrow> bool" where
  "is_manager_any_sector w p \<longleftrightarrow> prm_role p = 1 \<or> list_ex (\<lambda>a. sau_permission a = prm_uuid p) (live_sector_auths w)"

text \<open>What the handshake brings: the user of the token, if any, and the parameters of the query.\<close>

record scope =
  sc_user :: "email option"
  sc_project :: "string option"
  sc_manager :: bool
  sc_user_email :: "string option"

definition new_connection :: connection where
  "new_connection = \<lparr>cn_user = [], cn_project = [], cn_permission = None, cn_phase = Rejected, cn_added_groups = [],
     cn_last_ping = 0, cn_seen_updated_at = None, cn_checker = None, cn_inbox = [], cn_sent = [], cn_close_code = None\<rparr>"

definition get_permission :: "'c ws_env \<Rightarrow> string \<Rightarrow> email \<Rightarrow> ('c sockets, permission option) py" where
  "get_permission cx prj user = (if wsx_uuid_ok cx prj
     then in_db cx (\<lambda>env. gets (\<lambda>w. project_get_permission w prj (Some user)))
     else raise (ValidationError ''uuid''))"

text \<open>The part after \<open>accept()\<close>, the same in both consumers.\<close>

definition start_listening :: "'c ws_env \<Rightarrow> string \<Rightarrow> permission \<Rightarrow> ('c sockets, unit) py" where
  "start_listening cx c p =
     andthen (set_conn c (\<lambda>k. k\<lparr>cn_phase := Accepted\<rparr>))
    (andthen (bnd (in_db cx (\<lambda>env. gets (\<lambda>w. queue_ids w p)))
        (for_each (\<lambda>q. join cx c [(''name'', JStr ''queue''), (''id'', JStr q)])))
    (andthen (join cx c [(''name'', JStr ''permission''), (''id'', JStr (prm_uuid p))])
    (bnd (gets sk_now) (\<lambda>now.
     andthen (set_conn c (\<lambda>k. k\<lparr>cn_last_ping := now, cn_seen_updated_at := None\<rparr>))
    (bnd (is_ping_timeout_feature_enabled cx c) (\<lambda>b. when_true b
       (andthen (maybe_update_last_seen cx c)
         (set_conn c (\<lambda>k. k\<lparr>cn_checker := Some (now + wsx_interval cx)\<rparr>)))))))))"

definition connect_agent :: "'c ws_env \<Rightarrow> string \<Rightarrow> email \<Rightarrow> string \<Rightarrow> ('c sockets, unit) py" where
  "connect_agent cx c user prj = bnd (get_permission cx prj user) (\<lambda>found. case found of
     None \<Rightarrow> ret ()
   | Some p \<Rightarrow> andthen (set_conn c (\<lambda>k. k\<lparr>cn_permission := Some (prm_uuid p)\<rparr>)) (start_listening cx c p))"

text \<open>
  A manager listens in the place of the agent \<open>user_email\<close>: the consumer becomes the user and the
  permission of that agent. A refused handshake keeps what was set until then.
\<close>

definition connect_manager :: "'c ws_env \<Rightarrow> string \<Rightarrow> email \<Rightarrow> string \<Rightarrow> string option \<Rightarrow> ('c sockets, unit) py" where
  "connect_manager cx c user prj user_email = bnd (get_permission cx prj user) (\<lambda>found. case found of
     None \<Rightarrow> ret ()
   | Some p \<Rightarrow> andthen (set_conn c (\<lambda>k. k\<lparr>cn_permission := Some (prm_uuid p)\<rparr>))
      (case user_email of None \<Rightarrow> raise TypeError
       | Some u \<Rightarrow> bnd (in_db cx (\<lambda>env. gets (\<lambda>w. is_manager_any_sector w p))) (\<lambda>is_manager.
          when_true (u \<noteq> [] \<and> is_manager \<and> wsx_user_exists cx u)
            (andthen (set_conn c (\<lambda>k. k\<lparr>cn_user := u\<rparr>))
            (bnd (get_permission cx prj u) (\<lambda>found. case found of
               None \<Rightarrow> ret ()
             | Some q \<Rightarrow> andthen (set_conn c (\<lambda>k. k\<lparr>cn_permission := Some (prm_uuid q)\<rparr>)) (start_listening cx c q)))))))"

definition connect :: "'c ws_env \<Rightarrow> string \<Rightarrow> scope \<Rightarrow> ('c sockets, unit) py" where
  "connect cx c sc = (case (sc_user sc, sc_project sc) of
     (Some u, Some prj) \<Rightarrow>
       andthen (modify (\<lambda>s. s\<lparr>sk_conns := (sk_conns s)(c \<mapsto> new_connection\<lparr>cn_user := u, cn_project := prj\<rparr>)\<rparr>))
         (if sc_manager sc then connect_manager cx c u prj (sc_user_email sc) else connect_agent cx c u prj)
   | _ \<Rightarrow> modify (\<lambda>s. s\<lparr>sk_conns := (sk_conns s)(c \<mapsto> new_connection)\<rparr>))"

section \<open>Disconnecting\<close>

text \<open>\<open>disconnect\<close> up to its sleep, and the rest.\<close>

definition hang_up :: "'c ws_env \<Rightarrow> string \<Rightarrow> ('c sockets, unit) py" where
  "hang_up cx c = bnd (conn c) (\<lambda>k.
     andthen (set_conn c (\<lambda>k. k\<lparr>cn_checker := None, cn_phase := Closed\<rparr>))
    (andthen (for_each (\<lambda>g. group_discard cx g c) (remdups (cn_added_groups k)))
    (case cn_permission k of None \<Rightarrow> ret ()
     | Some pk \<Rightarrow>
        if wsx_check cx
        then andthen (group_send cx (permission_group pk) (check_event c (cn_user k)))
             (bnd (gets sk_now) (\<lambda>now. set_conn c (\<lambda>k. k\<lparr>cn_phase := Waiting now\<rparr>)))
        else go_offline cx k pk)))"

definition wake_up :: "'c ws_env \<Rightarrow> string \<Rightarrow> ('c sockets, unit) py" where
  "wake_up cx c = bnd (conn c) (\<lambda>k.
     andthen (set_conn c (\<lambda>k. k\<lparr>cn_phase := Closed\<rparr>))
    (bnd (get_connection_check_response cx c) (\<lambda>response.
     case cn_permission k of None \<Rightarrow> ret ()
     | Some pk \<Rightarrow> when_true (\<not> (case response of None \<Rightarrow> False | Some r \<Rightarrow> truthy r)) (go_offline cx k pk))))"

section \<open>The ping timeout\<close>

text \<open>One round of \<open>ping_timeout_checker\<close>; \<open>cn_checker\<close> is when the task wakes up next.\<close>

definition checker_round :: "'c ws_env \<Rightarrow> string \<Rightarrow> ('c sockets, unit) py" where
  "checker_round cx c = bnd (conn c) (\<lambda>k. bnd (gets sk_now) (\<lambda>now.
     case cn_permission k of None \<Rightarrow> set_conn c (\<lambda>k. k\<lparr>cn_checker := None\<rparr>)
     | Some pk \<Rightarrow>
       if now - cn_last_ping k > wsx_timeout cx
       then andthen (set_conn c (\<lambda>k. k\<lparr>cn_checker := None\<rparr>))
              (try_except (andthen (go_offline cx k pk) (set_conn c (\<lambda>k. k\<lparr>cn_close_code := Some 1000\<rparr>)))
                (\<lambda>_. ret ()))
       else set_conn c (\<lambda>k. k\<lparr>cn_checker := Some (now + wsx_interval cx)\<rparr>)))"

section \<open>Runs\<close>

datatype socket_event =
    Connect string scope
  | Receive string json
  | Deliver string
  | Lose string nat
  | Hang_Up string
  | Wake_Up string
  | Check_Ping string
  | Wait nat
  | Publish string "(string \<times> json) list"
  | Elsewhere "world \<Rightarrow> world"

definition phase_of :: "'c sockets \<Rightarrow> string \<Rightarrow> phase option" where
  "phase_of s c = map_option cn_phase (sk_conns s c)"

text \<open>An exception that leaves a handler ends the consumer.\<close>

definition handled :: "string \<Rightarrow> ('c sockets, unit) py \<Rightarrow> 'c sockets \<Rightarrow> 'c sockets" where
  "handled c m s = (case m s of (Inr _, t) \<Rightarrow> t | (Inl e, t) \<Rightarrow> upd_conn c (\<lambda>k. k\<lparr>cn_phase := Crashed\<rparr>) t)"

fun socket_step :: "'c ws_env \<Rightarrow> socket_event \<Rightarrow> 'c sockets \<Rightarrow> 'c sockets" where
  "socket_step cx (Connect c sc) s = (if sk_conns s c = None then handled c (connect cx c sc) s else s)"
| "socket_step cx (Receive c j) s = (if phase_of s c = Some Accepted then handled c (receive_json cx c j) s else s)"
| "socket_step cx (Deliver c) s = (case sk_conns s c of
     Some k \<Rightarrow> (case cn_inbox k of
       ev # rest \<Rightarrow> if cn_phase k = Accepted
         then handled c (andthen (set_conn c (\<lambda>k. k\<lparr>cn_inbox := rest\<rparr>)) (notify cx c ev)) s else s
     | [] \<Rightarrow> s)
   | None \<Rightarrow> s)"
| "socket_step cx (Lose c n) s = upd_conn c (\<lambda>k. k\<lparr>cn_inbox := take n (cn_inbox k) @ drop (Suc n) (cn_inbox k)\<rparr>) s"
| "socket_step cx (Hang_Up c) s = (if phase_of s c \<in> {Some Accepted, Some Rejected}
     then snd (hang_up cx c s) else s)"
| "socket_step cx (Wake_Up c) s = (case phase_of s c of
     Some (Waiting t) \<Rightarrow> if t + 1 \<le> sk_now s then snd (wake_up cx c s) else s
   | _ \<Rightarrow> s)"
| "socket_step cx (Check_Ping c) s = (case sk_conns s c of
     Some k \<Rightarrow> (case cn_checker k of Some t \<Rightarrow> if t \<le> sk_now s then snd (checker_round cx c s) else s | None \<Rightarrow> s)
   | None \<Rightarrow> s)"
| "socket_step cx (Wait n) s = s\<lparr>sk_now := sk_now s + int n, sk_cache := c_elapse (wsx_ops cx) (int n) (sk_cache s)\<rparr>"
| "socket_step cx (Publish g ev) s = deliver_to (sk_layer s g) ev s"
| "socket_step cx (Elsewhere f) s = s\<lparr>sk_world := f (sk_world s)\<rparr>"

definition no_sockets :: "world \<Rightarrow> 'c \<Rightarrow> 'c sockets" where
  "no_sockets w c = \<lparr>sk_now = 0, sk_world = w, sk_cache = c, sk_layer = (\<lambda>_. []), sk_conns = (\<lambda>_. None)\<rparr>"

section \<open>What a handler touches\<close>

definition status_of :: "world \<Rightarrow> uuid \<Rightarrow> string option" where
  "status_of w pk = map_option prm_status (find_permission_pk w pk)"

text \<open>The consumers only ever switch an existing permission off.\<close>

definition status_calm :: "world \<Rightarrow> world \<Rightarrow> bool" where
  "status_calm v w \<longleftrightarrow> (\<forall>pk. status_of w pk = status_of v pk \<or>
     status_of v pk \<noteq> None \<and> status_of w pk = Some ''OFFLINE'')"

lemma status_of_effects [simp]: "status_of (w\<lparr>effects := es\<rparr>) = status_of w"
  by (intro ext) (simp add: status_of_def find_permission_pk_def)

interpretation status_calm: world_order status_calm
proof
  show "status_calm v v" for v by (simp add: status_calm_def)
  show "status_calm u v \<Longrightarrow> status_calm v w \<Longrightarrow> status_calm u w" for u v w
    unfolding status_calm_def by (metis option.distinct(1))
  show "status_calm v (v\<lparr>effects := es\<rparr>)" for v es by (simp add: status_calm_def)
qed

lemma calm_same_permissions: "permissions w = permissions v \<Longrightarrow> status_calm v w"
  by (simp add: status_calm_def status_of_def find_permission_pk_def)

lemma calm_frame: "keeps status_frame m \<Longrightarrow> keeps status_calm m"
  by (erule keeps_mono) (rule calm_same_permissions, erule status_frame_tables)

lemma find_permission_update:
  "(\<And>p. prm_uuid (f p) = prm_uuid p) \<Longrightarrow>
   find_permission_pk (w\<lparr>permissions := update_where (\<lambda>p. prm_uuid p = pk) f (permissions w)\<rparr>) q =
     (if q = pk then map_option f (find_permission_pk w q) else find_permission_pk w q)"
  by (simp add: find_permission_pk_def find_key_update)

text \<open>Another connection only receives messages.\<close>

definition grown :: "connection \<Rightarrow> connection \<Rightarrow> bool" where
  "grown k k' \<longleftrightarrow> (\<exists>evs. cn_inbox k' = cn_inbox k @ evs) \<and> k'\<lparr>cn_inbox := []\<rparr> = k\<lparr>cn_inbox := []\<rparr>"

definition groups_ok :: "'c ws_env \<Rightarrow> connection option \<Rightarrow> connection option \<Rightarrow> bool" where
  "groups_ok cx a b \<longleftrightarrow> (\<forall>k'. b = Some k' \<longrightarrow> (\<forall>g \<in> set (cn_added_groups k').
     wsx_group_ok cx g \<or> (\<exists>k. a = Some k \<and> g \<in> set (cn_added_groups k))))"

text \<open>The answer to a check is as it was, or has just been given.\<close>

definition answer_kept :: "'c ws_env \<Rightarrow> (string \<Rightarrow> 'c \<Rightarrow> int option) \<Rightarrow> string \<Rightarrow> 'c \<Rightarrow> 'c \<Rightarrow> bool" where
  "answer_kept cx left x a b \<longleftrightarrow> left (check_key x) b = left (check_key x) a \<and>
       c_get (wsx_ops cx) (check_key x) b = c_get (wsx_ops cx) (check_key x) a \<or>
     left (check_key x) b = Some 10 \<and> c_get (wsx_ops cx) (check_key x) b = Some (JStr ''True'')"

lemma answer_kept_refl [simp]: "answer_kept cx left x a a"
  by (simp add: answer_kept_def)

lemma answer_kept_trans: "answer_kept cx left x a b \<Longrightarrow> answer_kept cx left x b c \<Longrightarrow> answer_kept cx left x a c"
  unfolding answer_kept_def by (elim disjE) simp_all

definition touched :: "'c ws_env \<Rightarrow> (string \<Rightarrow> 'c \<Rightarrow> int option) \<Rightarrow> string \<Rightarrow> 'c sockets \<Rightarrow> 'c sockets \<Rightarrow> bool" where
  "touched cx left c s t \<longleftrightarrow> sk_now t = sk_now s \<and>
     (\<forall>x. x \<noteq> c \<longrightarrow> rel_option grown (sk_conns s x) (sk_conns t x)) \<and>
     (sk_conns s c \<noteq> None \<longrightarrow> sk_conns t c \<noteq> None) \<and> groups_ok cx (sk_conns s c) (sk_conns t c) \<and>
     (\<forall>x g. x \<noteq> c \<longrightarrow> (x \<in> set (sk_layer t g)) = (x \<in> set (sk_layer s g))) \<and>
     (\<forall>x. x \<noteq> c \<longrightarrow> answer_kept cx left x (sk_cache s) (sk_cache t)) \<and>
     status_calm (sk_world s) (sk_world t)"

lemma grown_refl [simp]: "grown k k"
  by (simp add: grown_def)

lemma grown_trans: "grown a b \<Longrightarrow> grown b c \<Longrightarrow> grown a c"
  unfolding grown_def by (metis append.assoc)

lemma rel_grown_trans: "rel_option grown a b \<Longrightarrow> rel_option grown b c \<Longrightarrow> rel_option grown a c"
  by (cases a; cases b; cases c) (auto intro: grown_trans)

lemma check_key_inject [simp]: "check_key a = check_key b \<longleftrightarrow> a = b"
  by (simp add: check_key_def)

lemma touchedD:
  assumes "touched cx left c s t"
  shows "sk_now t = sk_now s" "sk_conns s c \<noteq> None \<Longrightarrow> sk_conns t c \<noteq> None"
    "x \<noteq> c \<Longrightarrow> rel_option grown (sk_conns s x) (sk_conns t x)" "groups_ok cx (sk_conns s c) (sk_conns t c)"
    "x \<noteq> c \<Longrightarrow> (x \<in> set (sk_layer t g)) = (x \<in> set (sk_layer s g))"
    "x \<noteq> c \<Longrightarrow> answer_kept cx left x (sk_cache s) (sk_cache t)"
    "status_calm (sk_world s) (sk_world t)"
  using assms unfolding touched_def by blast+

interpretation touched: step_order "touched cx left c" for cx left c
proof
  show "touched cx left c s s" for s
    by (auto simp: touched_def groups_ok_def status_calm.R_refl option.rel_refl)
  fix s t u assume a: "touched cx left c s t" and b: "touched cx left c t u"
  show "touched cx left c s u"
    unfolding touched_def
  proof (intro conjI allI impI)
    fix x g assume x: "x \<noteq> c"
    show "rel_option grown (sk_conns s x) (sk_conns u x)"
      using touchedD(3) [OF a x] touchedD(3) [OF b x] by (rule rel_grown_trans)
    show "(x \<in> set (sk_layer u g)) = (x \<in> set (sk_layer s g))"
      using touchedD(5) [OF a x] touchedD(5) [OF b x] by blast
    show "answer_kept cx left x (sk_cache s) (sk_cache u)"
      using touchedD(6) [OF a x] touchedD(6) [OF b x] by (rule answer_kept_trans)
  next
    show "groups_ok cx (sk_conns s c) (sk_conns u c)"
      using touchedD(4) [OF a] touchedD(4) [OF b] unfolding groups_ok_def by blast
    show "status_calm (sk_world s) (sk_world u)"
      by (rule status_calm.R_trans [OF touchedD(7) [OF a] touchedD(7) [OF b]])
  qed (use touchedD(1,2) [OF a] touchedD(1,2) [OF b] in auto)
qed

lemma touched_conns:
  fixes f :: "'c sockets \<Rightarrow> string \<Rightarrow> connection option"
  assumes "\<And>s. sk_conns s c = None \<Longrightarrow> f s c = None"
    and "\<And>s x. x \<noteq> c \<Longrightarrow> rel_option grown (sk_conns s x) (f s x)"
    and "\<And>s k. sk_conns s c = Some k \<Longrightarrow>
      \<exists>k'. f s c = Some k' \<and> (\<forall>g \<in> set (cn_added_groups k'). wsx_group_ok cx g \<or> g \<in> set (cn_added_groups k))"
  shows "keeps (touched cx left c) (modify (\<lambda>s. s\<lparr>sk_conns := f s\<rparr>))"
proof (rule touched.keeps_modify)
  fix s :: "'c sockets"
  have "groups_ok cx (sk_conns s c) (f s c)"
    using assms(1) [of s] assms(3) [of s] by (cases "sk_conns s c") (auto simp: groups_ok_def)
  moreover have "sk_conns s c \<noteq> None \<longrightarrow> f s c \<noteq> None" using assms(3) [of s] by auto
  ultimately show "touched cx left c s (s\<lparr>sk_conns := f s\<rparr>)"
    using assms(2) by (simp add: touched_def status_calm.R_refl)
qed

lemma touched_set_conn:
  "(\<And>k. set (cn_added_groups (f k)) \<subseteq> set (cn_added_groups k)) \<Longrightarrow> keeps (touched cx left c) (set_conn c f)"
  unfolding set_conn_def upd_conn_def by (rule touched_conns) (auto simp: option.rel_refl)

lemma touched_send_json: "keeps (touched cx left c) (send_json c j)"
  unfolding send_json_def by (rule touched_set_conn) simp

lemma touched_conn: "keeps (touched cx left c) (conn x)"
  by (auto simp: keeps_def conn_def touched.R_refl split: option.split)

lemma touched_in_db:
  fixes cx :: "'c ws_env"
  assumes "\<And>env. keeps status_calm (m env)"
  shows "keeps (touched cx left c) (in_db cx m)"
proof (rule keepsI)
  fix s :: "'c sockets"
  have "status_calm (sk_world s) (snd (m ((wsx_env cx)\<lparr>env_now := micros (sk_now s)\<rparr>) (sk_world s)))"
    using assms by (simp add: keeps_def)
  then show "touched cx left c s (snd (in_db cx m s))"
    by (auto simp: in_db_def touched_def groups_ok_def option.rel_refl split: prod.split)
qed

lemma touched_group_send: "keeps (touched cx left c) (group_send cx g ev)"
  unfolding group_send_def deliver_to_def
  by (intro touched.keeps_structure touched_conns) (auto simp: grown_def option.rel_map intro!: option.rel_refl_strong)

lemma touched_layer:
  "(\<And>s x g. x \<noteq> c \<Longrightarrow> (x \<in> set (f s g)) = (x \<in> set (sk_layer s g))) \<Longrightarrow>
   keeps (touched cx left c) (modify (\<lambda>s. s\<lparr>sk_layer := f s\<rparr>))"
  by (rule touched.keeps_modify) (auto simp: touched_def groups_ok_def option.rel_refl status_calm.R_refl)

lemma touched_group_discard: "keeps (touched cx left c) (group_discard cx g c)"
  unfolding group_discard_def
  by (intro touched.keeps_structure touched_layer) auto

lemma touched_enter_group: "keeps (touched cx left c) (enter_group cx g c)"
proof (cases "wsx_group_ok cx g")
  case True
  have "keeps (touched cx left c) (set_conn c (\<lambda>k. k\<lparr>cn_added_groups := cn_added_groups k @ [g]\<rparr>))"
    unfolding set_conn_def upd_conn_def using True by (intro touched_conns) (auto simp: option.rel_refl)
  moreover have "keeps (touched cx left c) (group_add cx g c)"
    unfolding group_add_def by (intro touched.keeps_structure touched_layer) auto
  ultimately show ?thesis
    unfolding enter_group_def by (rule touched.keeps_andthen [rotated])
next
  case False
  then show ?thesis by (simp add: enter_group_def group_add_def andthen_def touched.keeps_raise)
qed

lemma touched_cache:
  "(\<And>s x. x \<noteq> c \<Longrightarrow> answer_kept cx left x (sk_cache s) (f s)) \<Longrightarrow>
   keeps (touched cx left c) (modify (\<lambda>s. s\<lparr>sk_cache := f s\<rparr>))"
  by (rule touched.keeps_modify) (auto simp: touched_def groups_ok_def option.rel_refl status_calm.R_refl)

lemmas touched_steps = touched.keeps_structure touched_set_conn touched_send_json touched_conn touched_in_db
  touched_group_send touched_group_discard touched_enter_group

lemma calm_set_status:
  "keeps status_calm (bnd (need e (\<lambda>w. find_permission_pk w pk)) (\<lambda>_. andthen
     (modify (\<lambda>w. w\<lparr>permissions := update_where (\<lambda>p. prm_uuid p = pk) (\<lambda>p. p\<lparr>prm_status := ''OFFLINE''\<rparr>) (permissions w)\<rparr>))
     (permission_notify_user env pk act)))"
proof -
  have "status_calm w (snd (andthen
     (modify (\<lambda>w. w\<lparr>permissions := update_where (\<lambda>p. prm_uuid p = pk) (\<lambda>p. p\<lparr>prm_status := ''OFFLINE''\<rparr>) (permissions w)\<rparr>))
     (permission_notify_user env pk act) w))" if some: "find_permission_pk w pk \<noteq> None" for w
  proof -
    let ?w = "w\<lparr>permissions := update_where (\<lambda>p. prm_uuid p = pk) (\<lambda>p. p\<lparr>prm_status := ''OFFLINE''\<rparr>) (permissions w)\<rparr>"
    have "status_calm w ?w"
      using some by (auto simp: status_calm_def status_of_def find_permission_update)
    moreover have "keeps status_calm (permission_notify_user env pk act)"
      unfolding permission_notify_user_def by (rule status_calm.keeps_send)
    ultimately show ?thesis
      by (auto simp: keeps_def run_modify intro: status_calm.R_trans)
  qed
  then show ?thesis
    by (auto simp: keeps_def bnd_def need_def status_calm.R_refl split: option.split)
qed

lemma calm_last_seen:
  "keeps status_calm (bnd (need e (\<lambda>w. find_permission_pk w pk)) (\<lambda>_.
     modify (\<lambda>w. w\<lparr>permissions := update_where (\<lambda>p. prm_uuid p = pk) (\<lambda>p. p\<lparr>prm_last_seen := t\<rparr>) (permissions w)\<rparr>)))"
  by (intro status_calm.keeps_world status_calm.keeps_modify)
    (simp add: status_calm_def status_of_def find_permission_update option.map_comp comp_def)

lemma touched_go_offline: "keeps (touched cx left c) (go_offline cx k pk)"
  unfolding go_offline_def set_user_status_def finalize_in_service_if_needed_def log_status_change_def
  by (intro touched_steps calm_set_status status_calm.keeps_world frame_room_closed [THEN calm_frame])

lemma touched_last_seen: "keeps (touched cx left c) (maybe_update_last_seen cx c)"
  unfolding maybe_update_last_seen_def update_last_seen_db_def
  by (intro touched_steps calm_last_seen) auto

lemma touched_feature: "keeps (touched cx left c) (is_ping_timeout_feature_enabled cx x)"
  unfolding is_ping_timeout_feature_enabled_def by (intro touched_steps)

lemma touched_history: "keeps (touched cx left c) (get_has_history_by_room_uuid cx u j)"
  unfolding get_has_history_by_room_uuid_def by (intro touched_steps status_calm.keeps_world)

lemma touched_dicts:
  "keeps (touched cx left c) (as_dict j)" "keeps (touched cx left c) (item kvs n)"
  "keeps (touched cx left c) (rooms_in a)" "keeps (touched cx left c) (group_name kvs)"
  by (auto simp: as_dict_def item_def rooms_in_def group_name_def
      intro!: touched.keeps_structure split: json.split option.split)

lemma touched_room_event: "keeps (touched cx left c) (send_room_event cx c ev)"
  unfolding send_room_event_def
  by (intro touched_steps touched_dicts touched_history)
    (auto intro!: touched.keeps_structure split: json.split)

locale connection_cache = expiring_cache "wsx_ops cx" left for cx :: "'c ws_env" and left
begin

lemma elapse_value:
  assumes "left k s = Some n" and "0 \<le> m" and "m < n"
  shows "c_get (wsx_ops cx) k (c_elapse (wsx_ops cx) m s) = c_get (wsx_ops cx) k s"
  using get_elapse [of m k s] left_present [of k "c_elapse (wsx_ops cx) m s" "n - m"] left_elapse [of m k s] assms by auto

lemma touched_set_response: "keeps (touched cx left c) (set_connection_check_response cx x True)"
  unfolding set_connection_check_response_def
  by (rule touched_cache) (simp add: left_set get_set ttl_ok_def answer_kept_def)

lemma touched_get_response: "keeps (touched cx left c) (get_connection_check_response cx c)"
  unfolding get_connection_check_response_def
  by (intro touched_steps touched_cache) (simp add: left_delete get_delete answer_kept_def)

lemma touched_notify: "keeps (touched cx left c) (notify cx c ev)"
  unfolding notify_def Let_def
  by (intro touched_steps touched_dicts touched_set_response touched_room_event)

lemma touched_join: "keeps (touched cx left c) (join cx c ev)"
  unfolding join_def by (intro touched_steps touched_dicts touched_notify)

lemma touched_exit: "keeps (touched cx left c) (exit cx c ev)"
  unfolding exit_def
  by (intro touched_steps touched_dicts touched_notify) (auto dest: set_remove1_subset [THEN subsetD])

lemma touched_receive: "keeps (touched cx left c) (receive_json cx c j)"
  unfolding receive_json_def receive_method_def Let_def list_groups_def message_create_frame_def
  by (intro touched_steps touched_dicts touched_notify touched_feature touched_last_seen)
    (auto intro!: touched_steps touched_dicts touched_join touched_exit touched_notify split: json.split)

lemma touched_checker: "keeps (touched cx left c) (checker_round cx c)"
  unfolding checker_round_def
  by (intro touched_steps touched_go_offline) auto

lemma touched_hang_up: "keeps (touched cx left c) (hang_up cx c)"
  unfolding hang_up_def by (intro touched_steps touched_go_offline) auto

lemma touched_wake_up: "keeps (touched cx left c) (wake_up cx c)"
  unfolding wake_up_def by (intro touched_steps touched_go_offline touched_get_response) auto

lemma touched_listening: "keeps (touched cx left c) (start_listening cx c p)"
  unfolding start_listening_def
  by (intro touched_steps touched_join touched_feature touched_last_seen status_calm.keeps_world) auto

lemma touched_get_permission: "keeps (touched cx left c) (get_permission cx prj u)"
  unfolding get_permission_def by (intro touched_steps status_calm.keeps_world)

lemma touched_connect_as:
  "keeps (touched cx left c) (connect_agent cx c u prj)" "keeps (touched cx left c) (connect_manager cx c u prj e)"
  unfolding connect_agent_def connect_manager_def
  by (intro touched_steps touched_listening touched_get_permission status_calm.keeps_world; simp)+

end

fun actor :: "socket_event \<Rightarrow> string option" where
  "actor (Connect c sc) = Some c"
| "actor (Receive c j) = Some c"
| "actor (Deliver c) = Some c"
| "actor (Lose c n) = Some c"
| "actor (Hang_Up c) = Some c"
| "actor (Wake_Up c) = Some c"
| "actor (Check_Ping c) = Some c"
| "actor _ = None"

lemma touched_new:
  "sk_conns s c = None \<Longrightarrow> cn_added_groups k = [] \<Longrightarrow>
   touched cx left c s (s\<lparr>sk_conns := (sk_conns s)(c \<mapsto> k)\<rparr>)"
  by (auto simp: touched_def groups_ok_def option.rel_refl status_calm.R_refl)

lemma touched_upd_conn:
  "(\<And>k. set (cn_added_groups (f k)) \<subseteq> set (cn_added_groups k)) \<Longrightarrow> touched cx left c s (upd_conn c f s)"
  using touched_set_conn [of f cx left c] by (simp add: keeps_def set_conn_def modify_def)

lemma touched_handled_run:
  assumes "touched cx left c s (snd (m s))"
  shows "touched cx left c s (handled c m s)"
proof -
  obtain r t where m: "m s = (r, t)" by fastforce
  have "touched cx left c t (upd_conn c (\<lambda>k. k\<lparr>cn_phase := Crashed\<rparr>) t)"
    by (rule touched_upd_conn) simp
  then show ?thesis
    using assms touched.R_trans [of cx left c s t] by (cases r) (simp_all add: handled_def m)
qed

lemma touched_handled: "keeps (touched cx left c) m \<Longrightarrow> touched cx left c s (handled c m s)"
  by (rule touched_handled_run) (simp add: keeps_def)

context connection_cache
begin

lemma touched_connect:
  assumes "sk_conns s c = None"
  shows "touched cx left c s (snd (connect cx c sc s))"
proof -
  have new: "touched cx left c s (s\<lparr>sk_conns := (sk_conns s)(c \<mapsto> new_connection\<lparr>cn_user := u, cn_project := p\<rparr>)\<rparr>)"
    "touched cx left c s (s\<lparr>sk_conns := (sk_conns s)(c \<mapsto> new_connection)\<rparr>)" for u p
    using assms by (auto simp: new_connection_def intro!: touched_new)
  have "keeps (touched cx left c) (if sc_manager sc then connect_manager cx c u p (sc_user_email sc) else connect_agent cx c u p)" for u p
    by (intro touched.keeps_if touched_connect_as)
  then have "touched cx left c s (snd (andthen
      (modify (\<lambda>s. s\<lparr>sk_conns := (sk_conns s)(c \<mapsto> new_connection\<lparr>cn_user := u, cn_project := p\<rparr>)\<rparr>))
      (if sc_manager sc then connect_manager cx c u p (sc_user_email sc) else connect_agent cx c u p) s))" for u p
    unfolding run_modify by (intro touched.R_trans [OF new(1) [of p u]]) (simp only: keeps_def)
  then show ?thesis
    unfolding connect_def using new(2) by (auto simp: modify_def split: option.split)
qed

lemma step_touched:
  assumes "actor e = Some c"
  shows "touched cx left c s (socket_step cx e s)"
proof (cases e)
  case (Connect x sc)
  with assms show ?thesis by (auto simp: touched.R_refl intro!: touched_handled_run touched_connect)
next
  case (Deliver x)
  have "keeps (touched cx left c) (andthen (set_conn c (\<lambda>k. k\<lparr>cn_inbox := rest\<rparr>)) (notify cx c ev))" for rest ev
    by (intro touched_steps touched_notify) auto
  with Deliver assms show ?thesis
    by (auto simp: touched.R_refl intro!: touched_handled split: option.split list.split)
next
  case (Receive x j)
  with assms show ?thesis by (auto simp: touched.R_refl intro!: touched_handled touched_receive)
next
  case (Lose x n)
  with assms show ?thesis by (auto intro!: touched_upd_conn)
next
  case (Hang_Up x)
  with assms touched_hang_up [of c] show ?thesis by (auto simp: touched.R_refl keeps_def)
next
  case (Wake_Up x)
  with assms touched_wake_up [of c] show ?thesis
    by (auto simp: touched.R_refl keeps_def split: option.split phase.split)
next
  case (Check_Ping x)
  with assms touched_checker [of c] show ?thesis
    by (auto simp: touched.R_refl keeps_def split: option.split)
qed (use assms in auto)

end

text \<open>What a handler keeps of its own connection.\<close>

definition owner :: "connection \<Rightarrow> email \<times> uuid \<times> uuid option \<times> phase" where
  "owner k = (cn_user k, cn_project k, cn_permission k, cn_phase k)"

definition kept :: "string \<Rightarrow> 'c sockets \<Rightarrow> 'c sockets \<Rightarrow> bool" where
  "kept c s t \<longleftrightarrow> (\<forall>k. sk_conns s c = Some k \<longrightarrow> (\<exists>k'. sk_conns t c = Some k' \<and> owner k' = owner k \<and>
     set (cn_inbox k) \<subseteq> set (cn_inbox k')))"

definition stays :: "string \<Rightarrow> 'c sockets \<Rightarrow> 'c sockets \<Rightarrow> bool" where
  "stays c s t \<longleftrightarrow> kept c s t \<and> (\<forall>g. c \<in> set (sk_layer s g) \<longrightarrow> c \<in> set (sk_layer t g))"

lemma kept_trans:
  assumes "kept c s t" and "kept c t u"
  shows "kept c s u"
  unfolding kept_def
proof (intro allI impI)
  fix k assume "sk_conns s c = Some k"
  with assms(1) obtain k' where "sk_conns t c = Some k'" "owner k' = owner k" "set (cn_inbox k) \<subseteq> set (cn_inbox k')"
    unfolding kept_def by blast
  moreover from this(1) assms(2) obtain k'' where "sk_conns u c = Some k''" "owner k'' = owner k'"
      "set (cn_inbox k') \<subseteq> set (cn_inbox k'')"
    unfolding kept_def by blast
  ultimately show "\<exists>k'. sk_conns u c = Some k' \<and> owner k' = owner k \<and> set (cn_inbox k) \<subseteq> set (cn_inbox k')"
    by (intro exI [of _ k'']) simp
qed

interpretation kept: step_order "kept c" for c
  by (unfold_locales, simp add: kept_def, rule kept_trans)

interpretation stays: step_order "stays c" for c
  by unfold_locales (simp add: stays_def kept.R_refl, unfold stays_def, blast intro: kept_trans)

lemma stays_same_conns: "sk_conns t = sk_conns s \<Longrightarrow> sk_layer t = sk_layer s \<Longrightarrow> stays c s t"
  by (simp add: stays_def kept_def)

lemma stays_set_conn:
  "(\<And>k. owner (f k) = owner k) \<Longrightarrow> (\<And>k. cn_inbox (f k) = cn_inbox k) \<Longrightarrow> keeps (stays c) (set_conn c f)"
  by (auto simp: keeps_def set_conn_def modify_def upd_conn_def stays_def kept_def)

lemma stays_in_db: "keeps (stays c) (in_db cx m)"
  by (auto simp: keeps_def in_db_def intro!: stays_same_conns split: prod.split)

lemma stays_group_send: "keeps (stays c) (group_send cx g ev)"
  unfolding group_send_def
  by (intro stays.keeps_structure stays.keeps_modify)
    (auto simp: deliver_to_def stays_def kept_def owner_def)

lemma stays_enter_group: "keeps (stays c) (enter_group cx g c)"
  unfolding enter_group_def group_add_def
  by (intro stays.keeps_structure stays_set_conn stays.keeps_modify) (auto simp: stays_def kept_def owner_def)

lemma stays_conn: "keeps (stays c) (conn x)"
  by (auto simp: keeps_def conn_def stays.R_refl split: option.split)

lemma stays_cache: "keeps (stays c) (modify (\<lambda>s. s\<lparr>sk_cache := f s\<rparr>))"
  by (rule stays.keeps_modify) (simp add: stays_same_conns)

lemma stays_send_json: "keeps (stays c) (send_json c j)"
  unfolding send_json_def by (rule stays_set_conn) (simp_all add: owner_def)

lemmas stays_steps = stays.keeps_structure stays_in_db stays_group_send stays_enter_group stays_conn stays_cache
  stays_send_json stays_set_conn

lemma stays_dicts:
  "keeps (stays c) (as_dict j)" "keeps (stays c) (item kvs n)"
  "keeps (stays c) (rooms_in a)" "keeps (stays c) (group_name kvs)"
  by (auto simp: as_dict_def item_def rooms_in_def group_name_def
      intro!: stays.keeps_structure split: json.split option.split)

lemma stays_room_event: "keeps (stays c) (send_room_event cx c ev)"
  unfolding send_room_event_def get_has_history_by_room_uuid_def
  by (intro stays_steps stays_dicts) (auto intro!: stays.keeps_structure split: json.split)

lemma stays_notify: "keeps (stays c) (notify cx c ev)"
  unfolding notify_def Let_def set_connection_check_response_def
  by (intro stays_steps stays_dicts stays_room_event)

lemma stays_join: "keeps (stays c) (join cx c ev)"
  unfolding join_def by (intro stays_steps stays_dicts stays_notify)

lemma stays_last_seen: "keeps (stays c) (maybe_update_last_seen cx c)"
  unfolding maybe_update_last_seen_def update_last_seen_db_def
  by (intro stays_steps) (auto simp: owner_def)

lemma stays_feature: "keeps (stays c) (is_ping_timeout_feature_enabled cx x)"
  unfolding is_ping_timeout_feature_enabled_def by (intro stays_steps)

lemma stays_go_offline: "keeps (stays c) (go_offline cx k pk)"
  unfolding go_offline_def set_user_status_def finalize_in_service_if_needed_def log_status_change_def
  by (intro stays_steps)

lemma stays_checker: "keeps (stays c) (checker_round cx c)"
  unfolding checker_round_def by (intro stays_steps stays_go_offline) (auto simp: owner_def)

lemma as_dict_obj [simp]: "as_dict (JObj kvs) = ret kvs"
  by (simp add: as_dict_def)

text \<open>A frame that asks to leave a group.\<close>

definition exit_frame :: "json \<Rightarrow> bool" where
  "exit_frame j = (case j of JObj payload \<Rightarrow> obj_get payload ''type'' JNull = JStr ''method'' \<and>
      action_of payload = JStr ''exit'' | _ \<Rightarrow> False)"

lemma stays_method: "action_of payload \<noteq> JStr ''exit'' \<Longrightarrow> keeps (stays c) (receive_method cx c payload)"
  unfolding receive_method_def Let_def list_groups_def message_create_frame_def
  by (auto intro!: stays_steps stays_dicts stays_join stays_notify split: json.split)

lemma stays_receive: "\<not> exit_frame j \<Longrightarrow> keeps (stays c) (receive_json cx c j)"
proof (cases "\<exists>payload. j = JObj payload")
  case True
  then obtain payload where j: "j = JObj payload" ..
  assume "\<not> exit_frame j"
  then have "keeps (stays c) (receive_method cx c payload)" if "obj_get payload ''type'' JNull = JStr ''method''"
    using that by (intro stays_method) (simp add: exit_frame_def j)
  then show ?thesis
    unfolding receive_json_def j as_dict_obj bnd_ret Let_def
    by (intro stays_steps stays_dicts stays_notify stays_feature stays_last_seen) (simp_all add: owner_def)
next
  case False
  then have "receive_json cx c j = raise AttributeError"
    by (cases j) (simp_all add: receive_json_def as_dict_def)
  then show ?thesis by (simp add: stays.keeps_raise)
qed

section \<open>Phases\<close>

fun gone :: "phase \<Rightarrow> bool" where
  "gone Closed = True"
| "gone (Waiting t) = True"
| "gone _ = False"

definition gone_kept :: "string \<Rightarrow> 'c sockets \<Rightarrow> 'c sockets \<Rightarrow> bool" where
  "gone_kept c s t \<longleftrightarrow> (\<forall>k. sk_conns s c = Some k \<and> gone (cn_phase k) \<longrightarrow>
     (\<exists>k'. sk_conns t c = Some k' \<and> gone (cn_phase k') \<and> cn_checker k' = cn_checker k \<and> cn_permission k' = cn_permission k))"

interpretation gone_kept: step_order "gone_kept c" for c
proof
  show "gone_kept c s s" for s by (simp add: gone_kept_def)
  show "gone_kept c s u" if "gone_kept c s t" "gone_kept c t u" for s t u
    using that unfolding gone_kept_def by metis
qed

lemma gone_same: "sk_conns t = sk_conns s \<Longrightarrow> gone_kept c s t"
  by (simp add: gone_kept_def)

lemma gone_in_db: "keeps (gone_kept c) (in_db cx m)"
  by (auto simp: keeps_def in_db_def intro!: gone_same split: prod.split)

lemma gone_go_offline: "keeps (gone_kept c) (go_offline cx k pk)"
  unfolding go_offline_def set_user_status_def finalize_in_service_if_needed_def log_status_change_def
  by (intro gone_kept.keeps_structure gone_in_db)

lemma gone_set_conn:
  "(\<And>k. gone (cn_phase k) \<Longrightarrow> gone (cn_phase (f k)) \<and> cn_checker (f k) = cn_checker k \<and> cn_permission (f k) = cn_permission k) \<Longrightarrow>
   keeps (gone_kept c) (set_conn c f)"
  by (auto simp: keeps_def set_conn_def modify_def upd_conn_def gone_kept_def)

lemma gone_groups: "keeps (gone_kept c) (group_discard cx g x)" "keeps (gone_kept c) (group_send cx g ev)"
  unfolding group_discard_def group_send_def
  by (intro gone_kept.keeps_structure gone_kept.keeps_modify; auto simp: gone_kept_def deliver_to_def)+

lemma hang_up_gone:
  assumes "sk_conns s c = Some k"
  shows "\<exists>k'. sk_conns (snd (hang_up cx c s)) c = Some k' \<and> gone (cn_phase k') \<and> cn_checker k' = None \<and>
    cn_permission k' = cn_permission k"
proof -
  define m where "m = andthen (for_each (\<lambda>g. group_discard cx g c) (remdups (cn_added_groups k)))
    (case cn_permission k of None \<Rightarrow> ret ()
     | Some pk \<Rightarrow> if wsx_check cx
        then andthen (group_send cx (permission_group pk) (check_event c (cn_user k)))
             (bnd (gets sk_now) (\<lambda>now. set_conn c (\<lambda>k. k\<lparr>cn_phase := Waiting now\<rparr>)))
        else go_offline cx k pk)"
  have "keeps (gone_kept c) m"
    unfolding m_def by (intro gone_kept.keeps_structure gone_groups gone_go_offline gone_set_conn) auto
  moreover have "hang_up cx c s = m (upd_conn c (\<lambda>k. k\<lparr>cn_checker := None, cn_phase := Closed\<rparr>) s)"
    using assms by (simp add: hang_up_def m_def conn_def run_modify set_conn_def bnd_def)
  ultimately have "gone_kept c (upd_conn c (\<lambda>k. k\<lparr>cn_checker := None, cn_phase := Closed\<rparr>) s) (snd (hang_up cx c s))"
    by (simp add: keeps_def)
  moreover have "sk_conns (upd_conn c (\<lambda>k. k\<lparr>cn_checker := None, cn_phase := Closed\<rparr>) s) c =
      Some (k\<lparr>cn_checker := None, cn_phase := Closed\<rparr>)"
    using assms by (simp add: upd_conn_def)
  ultimately show ?thesis unfolding gone_kept_def by fastforce
qed

lemma wake_up_closed:
  assumes "sk_conns s c = Some k"
  shows "phase_of (snd (wake_up cx c s)) c = Some Closed"
proof -
  define m where "m = bnd (get_connection_check_response cx c) (\<lambda>response.
     case cn_permission k of None \<Rightarrow> ret ()
     | Some pk \<Rightarrow> when_true (\<not> (case response of None \<Rightarrow> False | Some r \<Rightarrow> truthy r)) (go_offline cx k pk))"
  have "keeps (stays c) m"
    unfolding m_def get_connection_check_response_def by (intro stays_steps stays_go_offline)
  moreover have "wake_up cx c s = m (upd_conn c (\<lambda>k. k\<lparr>cn_phase := Closed\<rparr>) s)"
    using assms by (simp add: wake_up_def m_def conn_def run_modify set_conn_def bnd_def)
  ultimately have "kept c (upd_conn c (\<lambda>k. k\<lparr>cn_phase := Closed\<rparr>) s) (snd (wake_up cx c s))"
    by (simp add: keeps_def stays_def)
  moreover have "sk_conns (upd_conn c (\<lambda>k. k\<lparr>cn_phase := Closed\<rparr>) s) c = Some (k\<lparr>cn_phase := Closed\<rparr>)"
    using assms by (simp add: upd_conn_def)
  ultimately show ?thesis unfolding kept_def by (fastforce simp: phase_of_def owner_def)
qed

lemma grown_phase: "rel_option grown (sk_conns s x) (sk_conns t x) \<Longrightarrow> phase_of t x = phase_of s x"
  by (cases "sk_conns s x"; cases "sk_conns t x")
    (auto simp: phase_of_def grown_def dest!: arg_cong [where f = cn_phase])

text \<open>A phase that is over stays over.\<close>

lemma checker_phase: "sk_conns s c = Some k \<Longrightarrow> phase_of (snd (checker_round cx c s)) c = phase_of s c"
  using stays_checker [of c cx] unfolding keeps_def stays_def kept_def by (fastforce simp: phase_of_def owner_def)

lemma own_step_phase:
  assumes "actor e = Some c" and "phase_of s c = Some p" and "p \<noteq> Accepted"
  shows "\<exists>q. phase_of (socket_step cx e s) c = Some q \<and> q \<noteq> Accepted \<and> (p = Closed \<longrightarrow> q = Closed) \<and> (gone p \<longrightarrow> gone q)"
proof -
  obtain k where k: "sk_conns s c = Some k" and p: "cn_phase k = p"
    using assms(2) by (auto simp: phase_of_def)
  show ?thesis
  proof (cases e)
    case (Hang_Up x)
    then show ?thesis
      using hang_up_gone [OF k, of cx] assms p k by (auto simp: phase_of_def)
  next
    case (Wake_Up x)
    then show ?thesis
      using wake_up_closed [OF k, of cx] assms p k by (cases p) (auto simp: phase_of_def)
  next
    case (Check_Ping x)
    then show ?thesis
      using checker_phase [OF k, of cx] assms p k by (auto simp: phase_of_def split: option.split)
  qed (use assms p k in \<open>auto simp: phase_of_def upd_conn_def split: list.split\<close>)
qed

context connection_cache
begin

lemma phase_over:
  assumes "phase_of s c = Some p" and "p \<noteq> Accepted"
  shows "\<exists>q. phase_of (socket_step cx e s) c = Some q \<and> q \<noteq> Accepted \<and> (p = Closed \<longrightarrow> q = Closed) \<and> (gone p \<longrightarrow> gone q)"
proof (cases "actor e")
  case None
  then show ?thesis using assms by (cases e) (auto simp: phase_of_def deliver_to_def option.map_comp comp_def if_distrib cong: if_cong)
next
  case (Some x)
  show ?thesis
  proof (cases "x = c")
    case True
    with Some assms show ?thesis by (intro own_step_phase) simp_all
  next
    case False
    have "phase_of (socket_step cx e s) c = phase_of s c"
      by (rule grown_phase, rule touchedD(3) [OF step_touched [OF Some]]) (use False in simp)
    with assms show ?thesis by simp
  qed
qed

end

section \<open>Other connections are heard\<close>

definition inbox_of :: "'c sockets \<Rightarrow> string \<Rightarrow> (string \<times> json) list list" where
  "inbox_of s c = (case sk_conns s c of None \<Rightarrow> [] | Some k \<Rightarrow> cn_inbox k)"

definition listens :: "'c sockets \<Rightarrow> string \<Rightarrow> email \<Rightarrow> uuid \<Rightarrow> bool" where
  "listens s d user pk \<longleftrightarrow> d \<in> set (sk_layer s (permission_group pk)) \<and>
     (\<exists>k. sk_conns s d = Some k \<and> cn_phase k = Accepted \<and> cn_user k = user \<and> cn_permission k = Some pk)"

definition leaves :: "string \<Rightarrow> socket_event \<Rightarrow> bool" where
  "leaves d e \<longleftrightarrow> (case e of Receive x j \<Rightarrow> x = d \<and> exit_frame j | Lose x n \<Rightarrow> x = d | _ \<Rightarrow> False)"

definition awaited :: "'c ws_env \<Rightarrow> (string \<Rightarrow> 'c \<Rightarrow> int option) \<Rightarrow> string \<Rightarrow> email \<Rightarrow> int \<Rightarrow> string \<Rightarrow> 'c sockets \<Rightarrow> bool" where
  "awaited cx left c user t0 d s \<longleftrightarrow> check_event c user \<in> set (inbox_of s d) \<or>
     response_event (JStr c) user \<in> set (inbox_of s d) \<or>
     c_get (wsx_ops cx) (check_key c) (sk_cache s) = Some (JStr ''True'') \<and>
       (\<exists>n. left (check_key c) (sk_cache s) = Some n \<and> t0 + 10 \<le> n + sk_now s)"

definition answered_soon ::
  "'c ws_env \<Rightarrow> (string \<Rightarrow> 'c \<Rightarrow> int option) \<Rightarrow> string \<Rightarrow> email \<Rightarrow> uuid \<Rightarrow> int \<Rightarrow> string \<Rightarrow> 'c sockets \<Rightarrow> bool" where
  "answered_soon cx left c user pk t0 d s \<longleftrightarrow> (\<exists>p. phase_of s d = Some p \<and> p \<noteq> Accepted) \<or>
     phase_of s c = Some Closed \<or> t0 + 10 \<le> sk_now s \<or>
     listens s d user pk \<and> t0 \<le> sk_now s \<and> awaited cx left c user t0 d s \<and>
     (\<exists>k. sk_conns s c = Some k \<and> gone (cn_phase k) \<and> cn_checker k = None)"

lemma stays_listens: "stays d s t \<Longrightarrow> listens s d user pk \<Longrightarrow> listens t d user pk"
  unfolding stays_def kept_def listens_def owner_def by fastforce

lemma stays_inbox: "stays d s t \<Longrightarrow> set (inbox_of s d) \<subseteq> set (inbox_of t d)"
  by (cases "sk_conns s d") (auto simp: stays_def kept_def inbox_of_def)

lemma handled_stays:
  assumes "stays d s (snd (m s))" and "sk_conns s d = Some k"
  shows "stays d s (handled d m s) \<or> phase_of (handled d m s) d = Some Crashed"
proof -
  obtain r t where m: "m s = (r, t)" by fastforce
  then obtain k' where "sk_conns t d = Some k'" using assms by (auto simp: stays_def kept_def)
  with assms m show ?thesis by (cases r) (simp_all add: handled_def phase_of_def upd_conn_def)
qed

lemma own_stays:
  assumes "actor e = Some d" and "\<not> leaves d e" and "phase_of s d = Some Accepted" and "\<And>x. e \<noteq> Deliver x"
  shows "stays d s (socket_step cx e s) \<or> (\<exists>p. phase_of (socket_step cx e s) d = Some p \<and> p \<noteq> Accepted)"
proof -
  obtain k where k: "sk_conns s d = Some k" "cn_phase k = Accepted"
    using assms(3) by (auto simp: phase_of_def)
  show ?thesis
  proof (cases e)
    case (Receive x j)
    then have "\<not> exit_frame j" and x: "x = d" using assms by (auto simp: leaves_def)
    then have "keeps (stays d) (receive_json cx d j)" by (intro stays_receive)
    then have "stays d s (snd (receive_json cx d j s))" by (simp add: keeps_def)
    from handled_stays [of d s "receive_json cx d j", OF this k(1)] show ?thesis
      using Receive x assms(3) by auto
  next
    case (Hang_Up x)
    then show ?thesis using hang_up_gone [OF k(1), of cx] assms by (auto simp: phase_of_def)
  next
    case (Check_Ping x)
    then show ?thesis using stays_checker [of d cx] assms k
      by (auto simp: keeps_def stays.R_refl split: option.split)
  qed (use assms k in \<open>auto simp: stays.R_refl leaves_def phase_of_def\<close>)
qed

lemma awaited_mono:
  "awaited cx left c user t0 d s \<Longrightarrow> set (inbox_of s d) \<subseteq> set (inbox_of t d) \<Longrightarrow> sk_now t = sk_now s \<Longrightarrow> sk_now s < t0 + 10 \<Longrightarrow>
   t0 \<le> sk_now s \<Longrightarrow>
   answer_kept cx left c (sk_cache s) (sk_cache t) \<Longrightarrow>
   awaited cx left c user t0 d t"
  unfolding awaited_def answer_kept_def by (elim disjE) auto

lemma notify_check:
  assumes "sk_conns s d = Some k" and "c \<noteq> d" and "cn_user k = user" and "cn_permission k = Some pk"
  shows "notify cx d (check_event c user) s = group_send cx (permission_group pk) (response_event (JStr c) user) s"
  using assms by (simp add: notify_def action_of_def check_event_def obj_get_def item_def Let_def conn_def bnd_def ret_def)

lemma notify_response:
  "notify cx d (response_event (JStr c) user) = set_connection_check_response cx c True"
  by (simp add: notify_def action_of_def response_event_def obj_get_def item_def Let_def f_text_def)

context connection_cache
begin

lemma deliver_awaited:
  assumes "listens s d user pk" and "awaited cx left c user t0 d s" and "c \<noteq> d" and "t0 \<le> sk_now s" and "sk_now s < t0 + 10"
  defines "t \<equiv> socket_step cx (Deliver d) s"
  shows "listens t d user pk \<and> awaited cx left c user t0 d t \<or> phase_of t d = Some Crashed"
proof -
  obtain k where k: "sk_conns s d = Some k" "cn_phase k = Accepted" "cn_user k = user" "cn_permission k = Some pk"
      and lay: "d \<in> set (sk_layer s (permission_group pk))"
    using assms(1) by (auto simp: listens_def)
  show ?thesis
  proof (cases "cn_inbox k")
    case Nil
    then show ?thesis using assms k by (simp add: t_def)
  next
    case (Cons ev rest)
    let ?s = "upd_conn d (\<lambda>k. k\<lparr>cn_inbox := rest\<rparr>) s"
    have k': "sk_conns ?s d = Some (k\<lparr>cn_inbox := rest\<rparr>)" using k by (simp add: upd_conn_def)
    have listens: "listens ?s d user pk" using k k' lay by (simp add: listens_def upd_conn_def)
    have t: "t = handled d (notify cx d ev) ?s"
      using k Cons by (simp add: t_def handled_def set_conn_def run_modify)
    have still: "stays d ?s t \<or> phase_of t d = Some Crashed"
      unfolding t using stays_notify [of d cx ev] by (intro handled_stays [OF _ k']) (simp add: keeps_def)
    have time: "sk_now t = sk_now s" and cache: "answer_kept cx left c (sk_cache s) (sk_cache t)"
      using touchedD(1) [OF step_touched, of "Deliver d" d s] touchedD(6) [OF step_touched, of "Deliver d" d c s] assms(3)
      by (simp_all add: t_def)
    have sub: "awaited cx left c user t0 d t" if "stays d ?s t"
    proof -
      have rest: "set rest \<subseteq> set (inbox_of t d)"
        using stays_inbox [OF that] k' by (simp add: inbox_of_def)
      consider "ev = check_event c user" | "ev = response_event (JStr c) user" |
        "ev \<noteq> check_event c user" "ev \<noteq> response_event (JStr c) user" by blast
      then show ?thesis
      proof cases
        case 1
        have n: "notify cx d ev ?s = group_send cx (permission_group pk) (response_event (JStr c) user) ?s"
          unfolding 1 using k assms(3) by (intro notify_check [OF k']) auto
        show ?thesis
        proof (cases "wsx_group_ok cx (permission_group pk)")
          case True
          then have "t = deliver_to (sk_layer ?s (permission_group pk)) (response_event (JStr c) user) ?s"
            unfolding t handled_def n by (simp add: group_send_def modify_def)
          then show ?thesis using k' lay
            by (simp add: awaited_def inbox_of_def deliver_to_def) (simp add: upd_conn_def)
        next
          case False
          then have "phase_of t d = Some Crashed"
            unfolding t handled_def n using k(1) by (simp add: group_send_def raise_def phase_of_def upd_conn_def)
          with that listens have False
            by (auto simp: stays_def kept_def listens_def phase_of_def owner_def)
          then show ?thesis ..
        qed
      next
        case 2
        then have "left (check_key c) (sk_cache t) = Some 10 \<and> c_get (wsx_ops cx) (check_key c) (sk_cache t) = Some (JStr ''True'')"
          unfolding t 2 notify_response handled_def
          by (simp add: set_connection_check_response_def modify_def left_set get_set ttl_ok_def)
        then show ?thesis using time assms(4) by (simp add: awaited_def)
      next
        case 3
        then have "awaited cx left c user t0 d ?s"
          using assms(2) k Cons k' by (auto simp: awaited_def inbox_of_def upd_conn_def)
        then show ?thesis
          by (rule awaited_mono) (use rest k' time cache assms in \<open>auto simp: inbox_of_def upd_conn_def\<close>)
      qed
    qed
    then show ?thesis using still listens stays_listens by blast
  qed
qed

end

context connection_cache
begin

lemma grown_listens:
  assumes "rel_option grown (sk_conns s d) (sk_conns t d)" and "listens s d user pk"
    and "(d \<in> set (sk_layer t (permission_group pk))) = (d \<in> set (sk_layer s (permission_group pk)))"
  shows "listens t d user pk"
proof -
  obtain k where k: "sk_conns s d = Some k" "cn_phase k = Accepted" "cn_user k = user" "cn_permission k = Some pk"
    using assms(2) by (auto simp: listens_def)
  with assms(1) obtain k' where k': "sk_conns t d = Some k'" and eq: "k'\<lparr>cn_inbox := []\<rparr> = k\<lparr>cn_inbox := []\<rparr>"
    by (cases "sk_conns t d") (auto simp: grown_def)
  from arg_cong [OF eq, of cn_phase] arg_cong [OF eq, of cn_user] arg_cong [OF eq, of cn_permission]
  show ?thesis using assms(2,3) k k' by (simp add: listens_def)
qed

lemma grown_inbox: "rel_option grown (sk_conns s d) (sk_conns t d) \<Longrightarrow> set (inbox_of s d) \<subseteq> set (inbox_of t d)"
  by (cases "sk_conns s d"; cases "sk_conns t d") (auto simp: inbox_of_def grown_def)

lemma grown_gone:
  assumes "rel_option grown (sk_conns s c) (sk_conns t c)"
    and "\<exists>k. sk_conns s c = Some k \<and> gone (cn_phase k) \<and> cn_checker k = None"
  shows "\<exists>k. sk_conns t c = Some k \<and> gone (cn_phase k) \<and> cn_checker k = None"
proof -
  obtain k where k: "sk_conns s c = Some k" "gone (cn_phase k)" "cn_checker k = None" using assms(2) by blast
  with assms(1) obtain k' where k': "sk_conns t c = Some k'" and eq: "k'\<lparr>cn_inbox := []\<rparr> = k\<lparr>cn_inbox := []\<rparr>"
    by (cases "sk_conns t c") (auto simp: grown_def)
  from arg_cong [OF eq, of cn_phase] arg_cong [OF eq, of cn_checker] show ?thesis using k k' by simp
qed

text \<open>The events of a connection that has hung up do nothing until it wakes up.\<close>

lemma gone_step:
  assumes "sk_conns s c = Some k" and "gone (cn_phase k)" and "cn_checker k = None" and "actor e = Some c"
  shows "phase_of (socket_step cx e s) c = Some Closed \<or> socket_step cx e s = s \<or> (\<exists>n. e = Lose c n)"
proof (cases e)
  case (Wake_Up x)
  then show ?thesis using wake_up_closed [OF assms(1), of cx] assms
    by (cases "cn_phase k") (auto simp: phase_of_def)
qed (use assms in \<open>auto simp: phase_of_def split: list.split\<close>)

lemma answered_step:
  assumes "answered_soon cx left c user pk t0 d s" and "c \<noteq> d" and "\<not> leaves d e"
  shows "answered_soon cx left c user pk t0 d (socket_step cx e s)"
proof -
  let ?t = "socket_step cx e s"
  have later: "sk_now s \<le> sk_now ?t"
  proof (cases "actor e")
    case None
    then show ?thesis by (cases e) (simp_all add: deliver_to_def)
  qed (use touchedD(1) [OF step_touched] in simp)
  consider (over) p where "phase_of s d = Some p" "p \<noteq> Accepted" | (closed) "phase_of s c = Some Closed" |
    (late) "t0 + 10 \<le> sk_now s" |
    (active) "listens s d user pk" "t0 \<le> sk_now s" "awaited cx left c user t0 d s" "sk_now s < t0 + 10"
      "\<exists>k. sk_conns s c = Some k \<and> gone (cn_phase k) \<and> cn_checker k = None"
    using assms(1) unfolding answered_soon_def by force
  then show ?thesis
  proof cases
    case over
    then show ?thesis using phase_over [of s d p e] by (auto simp: answered_soon_def)
  next
    case closed
    then show ?thesis using phase_over [of s c Closed e] by (auto simp: answered_soon_def)
  next
    case late
    with later show ?thesis by (simp add: answered_soon_def)
  next
    case active
    have d: "phase_of s d = Some Accepted" using active(1) by (auto simp: listens_def phase_of_def)
    obtain k where k: "sk_conns s c = Some k" "gone (cn_phase k)" "cn_checker k = None" using active(5) by blast
    show ?thesis
    proof (cases "actor e")
      case None
      then show ?thesis
      proof (cases e)
        case (Wait n)
        then show ?thesis using active
          by (auto simp: answered_soon_def listens_def awaited_def inbox_of_def left_elapse elapse_value)
      next
        case (Publish g ev)
        have grow: "rel_option grown (sk_conns s x) (sk_conns ?t x)" for x
          by (auto simp: Publish deliver_to_def grown_def option.rel_map intro!: option.rel_refl_strong)
        from grown_listens [OF grow active(1)] grown_inbox [OF grow [of d]] grown_gone [OF grow active(5)] active show ?thesis
          by (auto simp: answered_soon_def awaited_def Publish deliver_to_def)
      next
        case (Elsewhere f)
        then show ?thesis using active by (simp add: answered_soon_def listens_def awaited_def inbox_of_def)
      qed simp_all
    next
      case (Some x)
      note t = step_touched [OF Some, of s]
      have now: "sk_now ?t = sk_now s" by (rule touchedD(1) [OF t])
      consider "x = c" | "x = d" | "x \<noteq> c" "x \<noteq> d" by blast
      then show ?thesis
      proof cases
        case 1
        with gone_step [OF k, of e] Some consider "phase_of ?t c = Some Closed" | "?t = s" | n where "e = Lose c n" by blast
        then show ?thesis
        proof cases
          case 3
          then show ?thesis using active assms(2)
            by (auto simp: answered_soon_def listens_def awaited_def inbox_of_def upd_conn_def)
        qed (use assms(1) in \<open>simp_all add: answered_soon_def\<close>)
      next
        case 2
        have gone: "\<exists>k. sk_conns ?t c = Some k \<and> gone (cn_phase k) \<and> cn_checker k = None"
          by (rule grown_gone [OF touchedD(3) [OF t] active(5)]) (use 2 assms(2) in simp)
        have "(\<exists>p. phase_of ?t d = Some p \<and> p \<noteq> Accepted) \<or> listens ?t d user pk \<and> awaited cx left c user t0 d ?t"
        proof (cases "e = Deliver d")
          case True
          then show ?thesis using deliver_awaited [OF active(1,3) assms(2) active(2,4)] by auto
        next
          case False
          then have "\<And>y. e \<noteq> Deliver y" using Some 2 by auto
          from own_stays [OF _ assms(3) d this] consider "stays d s ?t" | p where "phase_of ?t d = Some p" "p \<noteq> Accepted"
            using Some 2 by auto
          then show ?thesis
          proof cases
            case 1
            have "awaited cx left c user t0 d ?t"
              by (rule awaited_mono [OF active(3) stays_inbox [OF 1] now active(4,2)], rule touchedD(6) [OF t])
                (use \<open>x = d\<close> assms(2) in simp)
            with stays_listens [OF 1 active(1)] show ?thesis by blast
          qed blast
        qed
        then show ?thesis using gone active now by (auto simp: answered_soon_def)
      next
        case 3
        have "awaited cx left c user t0 d ?t"
          by (rule awaited_mono [OF active(3) _ now active(4,2)], rule grown_inbox, rule touchedD(3) [OF t], use 3 in simp,
              rule touchedD(6) [OF t], use 3 in simp)
        moreover have "listens ?t d user pk"
          by (rule grown_listens [OF touchedD(3) [OF t] active(1) touchedD(5) [OF t]]; use 3 in simp)
        moreover have "\<exists>k. sk_conns ?t c = Some k \<and> gone (cn_phase k) \<and> cn_checker k = None"
          by (rule grown_gone [OF touchedD(3) [OF t] active(5)]) (use 3 in simp)
        ultimately show ?thesis using active now by (simp add: answered_soon_def)
      qed
    qed
  qed
qed

lemma answered_run:
  assumes "answered_soon cx left c user pk t0 d s" and "c \<noteq> d" and "\<forall>e \<in> set evs. \<not> leaves d e"
  shows "answered_soon cx left c user pk t0 d (fold (socket_step cx) evs s)"
  using assms by (induction evs arbitrary: s) (auto intro: answered_step)

end

lemma kept_discard: "keeps (kept c) (for_each (\<lambda>g. group_discard cx g x) gs)"
  unfolding group_discard_def
  by (intro kept.keeps_structure kept.keeps_modify) (auto simp: kept_def)

lemma hang_up_split:
  assumes "sk_conns s c = Some k" and "cn_permission k = Some pk" and "wsx_check cx"
  obtains s2 where "touched cx left c s s2" "phase_of s2 c = Some Closed" "snd (hang_up cx c s) = s2"
  | s2 where "touched cx left c s s2"
     "hang_up cx c s = (Inr (), upd_conn c (\<lambda>k. k\<lparr>cn_phase := Waiting (sk_now s)\<rparr>)
        (deliver_to (sk_layer s2 (permission_group pk)) (check_event c (cn_user k)) s2))"
     "for_each (\<lambda>g. group_discard cx g c) (remdups (cn_added_groups k))
        (upd_conn c (\<lambda>k. k\<lparr>cn_checker := None, cn_phase := Closed\<rparr>) s) = (Inr (), s2)"
proof -
  let ?s1 = "upd_conn c (\<lambda>k. k\<lparr>cn_checker := None, cn_phase := Closed\<rparr>) s"
  let ?loop = "for_each (\<lambda>g. group_discard cx g c) (remdups (cn_added_groups k))"
  obtain r s2 where loop: "?loop ?s1 = (r, s2)" by fastforce
  have "touched cx left c s ?s1" by (rule touched_upd_conn) simp
  moreover have "touched cx left c ?s1 s2"
    by (rule keepsD [where m = ?loop, OF _ loop]) (intro touched_steps)
  ultimately have t: "touched cx left c s s2" by (rule touched.R_trans)
  have "kept c ?s1 s2" by (rule keepsD [where m = ?loop, OF kept_discard loop])
  moreover have "sk_conns ?s1 c = Some (k\<lparr>cn_checker := None, cn_phase := Closed\<rparr>)"
    using assms(1) by (simp add: upd_conn_def)
  ultimately have closed: "phase_of s2 c = Some Closed" unfolding kept_def by (fastforce simp: owner_def phase_of_def)
  have run: "hang_up cx c s = andthen ?loop (andthen (group_send cx (permission_group pk) (check_event c (cn_user k)))
      (bnd (gets sk_now) (\<lambda>now. set_conn c (\<lambda>k. k\<lparr>cn_phase := Waiting now\<rparr>)))) ?s1"
    using assms by (simp add: hang_up_def conn_def run_modify set_conn_def bnd_def)
  have now: "sk_now s2 = sk_now s" by (rule touchedD(1) [OF t])
  show ?thesis
  proof (cases "r = Inr () \<and> wsx_group_ok cx (permission_group pk)")
    case True
    then have "hang_up cx c s = (Inr (), upd_conn c (\<lambda>k. k\<lparr>cn_phase := Waiting (sk_now s)\<rparr>)
        (deliver_to (sk_layer s2 (permission_group pk)) (check_event c (cn_user k)) s2))"
      using run loop now by (simp add: run_Inr group_send_def run_modify run_gets set_conn_def)
        (simp add: modify_def deliver_to_def)
    then show ?thesis using that(2) t loop True by blast
  next
    case False
    then have "snd (hang_up cx c s) = s2"
      using run loop by (cases r) (auto simp: andthen_def bnd_def group_send_def raise_def)
    then show ?thesis using that(1) t closed by blast
  qed
qed

context connection_cache
begin

lemma answered_start:
  assumes "sk_conns s c = Some k" and "cn_permission k = Some pk" and "wsx_check cx"
    and "listens s d (cn_user k) pk" and "c \<noteq> d"
  shows "answered_soon cx left c (cn_user k) pk (sk_now s) d (snd (hang_up cx c s))"
proof (rule hang_up_split [OF assms(1-3), of left])
  fix s2 assume "phase_of s2 c = Some Closed" "snd (hang_up cx c s) = s2"
  then show ?thesis by (simp add: answered_soon_def)
next
  fix s2 assume t2: "touched cx left c s s2"
    and run: "hang_up cx c s = (Inr (), upd_conn c (\<lambda>k. k\<lparr>cn_phase := Waiting (sk_now s)\<rparr>)
        (deliver_to (sk_layer s2 (permission_group pk)) (check_event c (cn_user k)) s2))"
  let ?t = "snd (hang_up cx c s)"
  have t: "touched cx left c s ?t" using touched_hang_up by (simp add: keeps_def)
  have l2: "listens s2 d (cn_user k) pk"
    by (rule grown_listens [OF touchedD(3) [OF t2] assms(4) touchedD(5) [OF t2]]; use assms(5) in simp)
  have "check_event c (cn_user k) \<in> set (inbox_of ?t d)"
    using l2 assms(5) unfolding run by (auto simp: inbox_of_def upd_conn_def deliver_to_def listens_def)
  moreover have "listens ?t d (cn_user k) pk"
    by (rule grown_listens [OF touchedD(3) [OF t] assms(4) touchedD(5) [OF t]]; use assms(5) in simp)
  ultimately show ?thesis
    using hang_up_gone [OF assms(1), of cx] touchedD(1) [OF t] by (auto simp: answered_soon_def awaited_def)
qed

lemma woken_by_answer:
  assumes "answered_soon cx left c user pk t0 d t" and "phase_of t d = Some Accepted" and "inbox_of t d = []"
    and "sk_now t < t0 + 10"
  shows "sk_world (socket_step cx (Wake_Up c) t) = sk_world t"
proof (cases "phase_of t c")
  case (Some p)
  show ?thesis
  proof (cases "\<exists>w. p = Waiting w \<and> w + 1 \<le> sk_now t")
    case True
    with Some assms have "awaited cx left c user t0 d t" by (auto simp: answered_soon_def)
    then have "c_get (wsx_ops cx) (check_key c) (sk_cache t) = Some (JStr ''True'')"
      using assms(3) by (auto simp: awaited_def)
    then have "sk_world (snd (wake_up cx c t)) = sk_world t"
      by (simp add: wake_up_def get_connection_check_response_def conn_def set_conn_def upd_conn_def py_defs
          split: option.split)
    then show ?thesis using Some by (auto split: phase.split)
  qed (use Some in \<open>auto split: phase.split\<close>)
qed simp

end

section \<open>An agent who is heard stays online\<close>

definition two_tabs_env :: "mem_cache ws_env" where
  "two_tabs_env = \<lparr>wsx_env = calm_env, wsx_ops = mem_ops, wsx_check = True, wsx_timeout = 60, wsx_interval = 10,
     wsx_seen_interval = 60, wsx_debug = False, wsx_loads = (\<lambda>_. None), wsx_group_ok = (\<lambda>_. True),
     wsx_uuid_ok = (\<lambda>_. True), wsx_user_exists = (\<lambda>_. True), wsx_has_history = (\<lambda>_ _ _. False)\<rparr>"

interpretation two_tabs: connection_cache two_tabs_env mem_left
  by (simp add: connection_cache_def two_tabs_env_def timed_mem.expiring_cache_axioms)

text \<open>C36. With the check of connections on (\<open>USE_WS_CONNECTION_CHECK\<close>, off by default), a connection that hangs up asks whether the agent is still there. When another connection of the agent to the
  project was in its group at that time, has not left it or lost a message, and has handled all it got, then the
  connection leaves the agent online when it wakes up within the ten seconds an answer lives, whatever else happened
  in between.\<close>

theorem live_connection_keeps_agent_online:
  assumes "connection_cache cx left" and "wsx_check cx"
    and "sk_conns s c = Some k" and "cn_phase k = Accepted" and "cn_permission k = Some pk"
    and "listens s d (cn_user k) pk" and "c \<noteq> d" and "\<forall>e \<in> set evs. \<not> leaves d e"
    and "t = fold (socket_step cx) (Hang_Up c # evs) s"
    and "phase_of t d = Some Accepted" and "inbox_of t d = []" and "sk_now t < sk_now s + 10"
  shows "sk_world (socket_step cx (Wake_Up c) t) = sk_world t"
proof (rule connection_cache.woken_by_answer [OF assms(1)])
  have "answered_soon cx left c (cn_user k) pk (sk_now s) d (socket_step cx (Hang_Up c) s)"
    using connection_cache.answered_start [OF assms(1,3,5,2,6,7)] assms(3,4) by (simp add: phase_of_def)
  then show "answered_soon cx left c (cn_user k) pk (sk_now s) d t"
    unfolding assms(9) using connection_cache.answered_run [OF assms(1) _ assms(7,8)] by simp
qed (use assms in simp_all)

definition agent_scope :: scope where
  "agent_scope = \<lparr>sc_user = Some ''a@x'', sc_project = Some ''p'', sc_manager = False, sc_user_email = None\<rparr>"

definition two_tabs :: "mem_cache sockets" where
  "two_tabs = fold (socket_step two_tabs_env) [Connect ''c'' agent_scope, Connect ''d'' agent_scope]
     (no_sockets small_world mem_empty)"

lemmas socket_run_simps = two_tabs_env_def agent_scope_def no_sockets_def connect_def connect_agent_def get_permission_def
  in_db_def start_listening_def set_conn_def upd_conn_def queue_ids_def join_def unpack_def group_name_def item_def
  enter_group_def group_add_def is_ping_timeout_feature_enabled_def conn_def project_get_permission_def phase_of_def handled_def
  py_defs sample_defs obj_get_def f_text_def new_connection_def live_sector_auths_def live_queue_auths_def

lemma two_tabs_run:
  "sk_now two_tabs = 0" "sk_cache two_tabs = mem_empty" "sk_world two_tabs = small_world"
  "sk_layer two_tabs = (\<lambda>g. if g = ''permission_m1'' then [''d'', ''c''] else [])"
  "sk_conns two_tabs x = (if x \<in> {''c'', ''d''} then Some (new_connection\<lparr>cn_user := ''a@x'', cn_project := ''p'',
     cn_permission := Some ''m1'', cn_phase := Accepted, cn_added_groups := [''permission_m1'']\<rparr>) else None)"
  by (simp_all add: two_tabs_def socket_run_simps fun_eq_iff)

lemmas socket_step_simps = hang_up_def group_discard_def group_send_def deliver_to_def go_offline_def wake_up_def
  get_connection_check_response_def notify_def action_of_def check_event_def response_event_def permission_group_def
  set_connection_check_response_def check_key_def inbox_of_def as_dict_def Let_def

definition one_closes :: "socket_event list" where
  "one_closes = [Deliver ''d'', Deliver ''d'', Wait 1]"

lemma one_closes_run:
  assumes "t = fold (socket_step two_tabs_env) (Hang_Up ''c'' # one_closes) two_tabs"
  shows "phase_of t ''d'' = Some Accepted" "inbox_of t ''d'' = []" "sk_now t = 1" "phase_of t ''c'' = Some (Waiting 0)"
  unfolding assms one_closes_def
  by (simp_all add: two_tabs_run socket_run_simps socket_step_simps mem_defs mem_empty_def)

theorem live_connection_keeps_agent_online_witness:
  "\<exists>t. t = fold (socket_step two_tabs_env) (Hang_Up ''c'' # one_closes) two_tabs \<and>
     phase_of t ''c'' = Some (Waiting 0) \<and> sk_world (socket_step two_tabs_env (Wake_Up ''c'') t) = sk_world t"
proof -
  let ?t = "fold (socket_step two_tabs_env) (Hang_Up ''c'' # one_closes) two_tabs"
  have l: "listens two_tabs ''d'' ''a@x'' ''m1''"
    by (simp add: listens_def two_tabs_run permission_group_def new_connection_def)
  have "sk_world (socket_step two_tabs_env (Wake_Up ''c'') ?t) = sk_world ?t"
  proof (rule live_connection_keeps_agent_online [OF two_tabs.connection_cache_axioms])
    show "sk_conns two_tabs ''c'' = Some (new_connection\<lparr>cn_user := ''a@x'', cn_project := ''p'',
        cn_permission := Some ''m1'', cn_phase := Accepted, cn_added_groups := [''permission_m1'']\<rparr>)"
      by (simp only: two_tabs_run) simp
    show "listens two_tabs ''d'' (cn_user (new_connection\<lparr>cn_user := ''a@x'', cn_project := ''p'',
        cn_permission := Some ''m1'', cn_phase := Accepted, cn_added_groups := [''permission_m1'']\<rparr>)) ''m1''"
      using l by simp
    show "\<forall>e \<in> set one_closes. \<not> leaves ''d'' e" by (simp add: one_closes_def leaves_def)
    show "phase_of ?t ''d'' = Some Accepted" "inbox_of ?t ''d'' = []" by (rule one_closes_run [OF refl])+
    show "sk_now ?t < sk_now two_tabs + 10" unfolding one_closes_run(3) [OF refl] by (simp add: two_tabs_run)
    show "wsx_check two_tabs_env" by (simp add: two_tabs_env_def)
  qed simp_all
  with one_closes_run(4) [OF refl] show ?thesis by blast
qed

section \<open>What the connections tell each other\<close>

definition control :: "(string \<times> json) list \<Rightarrow> bool" where
  "control ev \<longleftrightarrow> action_of ev \<in> {JStr ''connection_check'', JStr ''connection_check_response''}"

definition about :: "string \<Rightarrow> (string \<times> json) list \<Rightarrow> bool" where
  "about w ev \<longleftrightarrow> (\<exists>user. ev = check_event w user \<or> ev = response_event (JStr w) user)"

text \<open>
  Between two states no message of a check comes up but about \<open>B\<close>, no answer but to \<open>B\<close>, and nobody enters the
  group of a permission but \<open>c\<close> that of \<open>a\<close>.
\<close>

definition discreet :: "'c ws_env \<Rightarrow> uuid option \<Rightarrow> string set \<Rightarrow> string \<Rightarrow> 'c sockets \<Rightarrow> 'c sockets \<Rightarrow> bool" where
  "discreet cx a B c s t \<longleftrightarrow>
     (\<forall>x ev. ev \<in> set (inbox_of t x) \<and> control ev \<longrightarrow> ev \<in> set (inbox_of s x) \<or> (\<exists>w \<in> B. about w ev)) \<and>
     (\<forall>w. w \<notin> B \<and> c_get (wsx_ops cx) (check_key w) (sk_cache s) = None \<longrightarrow> c_get (wsx_ops cx) (check_key w) (sk_cache t) = None) \<and>
     (\<forall>x q. x \<in> set (sk_layer t (permission_group q)) \<longrightarrow> x \<in> set (sk_layer s (permission_group q)) \<or> x = c \<and> a = Some q)"

lemma discreetD:
  assumes "discreet cx a B c s t"
  shows "ev \<in> set (inbox_of t x) \<Longrightarrow> control ev \<Longrightarrow> ev \<in> set (inbox_of s x) \<or> (\<exists>w \<in> B. about w ev)"
    "w \<notin> B \<Longrightarrow> c_get (wsx_ops cx) (check_key w) (sk_cache s) = None \<Longrightarrow> c_get (wsx_ops cx) (check_key w) (sk_cache t) = None"
    "x \<in> set (sk_layer t (permission_group q)) \<Longrightarrow> x \<in> set (sk_layer s (permission_group q)) \<or> x = c \<and> a = Some q"
  using assms unfolding discreet_def by blast+

interpretation discreet: step_order "discreet cx a B c" for cx a B c
proof
  show "discreet cx a B c s s" for s by (simp add: discreet_def)
  show "discreet cx a B c s u" if 1: "discreet cx a B c s t" and 2: "discreet cx a B c t u" for s t u
    unfolding discreet_def
  proof (intro conjI allI impI)
    fix x ev assume "ev \<in> set (inbox_of u x) \<and> control ev"
    then show "ev \<in> set (inbox_of s x) \<or> (\<exists>w \<in> B. about w ev)"
      using discreetD(1) [OF 2, of ev x] discreetD(1) [OF 1, of ev x] by blast
  next
    fix w assume "w \<notin> B \<and> c_get (wsx_ops cx) (check_key w) (sk_cache s) = None"
    then show "c_get (wsx_ops cx) (check_key w) (sk_cache u) = None"
      using discreetD(2) [OF 1, of w] discreetD(2) [OF 2, of w] by blast
  next
    fix x q assume "x \<in> set (sk_layer u (permission_group q))"
    then show "x \<in> set (sk_layer s (permission_group q)) \<or> x = c \<and> a = Some q"
      using discreetD(3) [OF 2, of x q] discreetD(3) [OF 1, of x q] by blast
  qed
qed

lemma discreet_mono: "discreet cx a B c s t \<Longrightarrow> B \<subseteq> B' \<Longrightarrow> discreet cx a B' c s t"
  unfolding discreet_def by blast

lemma discreet_same: "sk_conns t = sk_conns s \<Longrightarrow> sk_layer t = sk_layer s \<Longrightarrow> sk_cache t = sk_cache s \<Longrightarrow> discreet cx a B c s t"
  by (simp add: discreet_def inbox_of_def)

lemma discreet_upd_conn: "(\<And>k. set (cn_inbox (f k)) \<subseteq> set (cn_inbox k)) \<Longrightarrow> discreet cx a B c s (upd_conn x f s)"
  unfolding discreet_def
  by (cases "sk_conns s x") (auto simp: inbox_of_def upd_conn_def split: option.splits if_splits)

lemma discreet_set_conn: "(\<And>k. set (cn_inbox (f k)) \<subseteq> set (cn_inbox k)) \<Longrightarrow> keeps (discreet cx a B c) (set_conn x f)"
  by (simp add: keeps_def set_conn_def modify_def discreet_upd_conn)

lemma discreet_in_db: "keeps (discreet cx a B c) (in_db cx m)"
  by (auto simp: keeps_def in_db_def intro!: discreet_same split: prod.split)

lemma discreet_conn: "keeps (discreet cx a B c) (conn x)"
  by (auto simp: keeps_def conn_def discreet.R_refl split: option.split)

lemma discreet_deliver_to: "\<not> control ev \<or> (\<exists>w \<in> B. about w ev) \<Longrightarrow> discreet cx a B c s (deliver_to xs ev s)"
  by (auto simp: discreet_def inbox_of_def deliver_to_def split: option.splits if_splits)

lemma discreet_group_send: "\<not> control ev \<or> (\<exists>w \<in> B. about w ev) \<Longrightarrow> keeps (discreet cx a B c) (group_send cx g ev)"
  unfolding group_send_def by (intro discreet.keeps_structure discreet.keeps_modify discreet_deliver_to)

lemma discreet_group_discard: "keeps (discreet cx a B c) (group_discard cx g x)"
  unfolding group_discard_def
  by (intro discreet.keeps_structure discreet.keeps_modify) (auto simp: discreet_def inbox_of_def)

lemma discreet_enter_group:
  "(\<And>q. g = permission_group q \<Longrightarrow> a = Some q) \<Longrightarrow> keeps (discreet cx a B c) (enter_group cx g c)"
  unfolding enter_group_def group_add_def
  by (intro discreet.keeps_structure discreet_set_conn discreet.keeps_modify) (auto simp: discreet_def inbox_of_def)

lemmas discreet_steps = discreet.keeps_structure discreet_in_db discreet_conn discreet_group_discard

lemma discreet_send_json: "keeps (discreet cx a B c) (send_json x j)"
  unfolding send_json_def by (rule discreet_set_conn) simp

lemma discreet_dicts:
  "keeps (discreet cx a B c) (as_dict j)" "keeps (discreet cx a B c) (item kvs n)"
  "keeps (discreet cx a B c) (rooms_in x)" "keeps (discreet cx a B c) (group_name kvs)"
  by (auto simp: as_dict_def item_def rooms_in_def group_name_def
      intro!: discreet.keeps_structure split: json.split option.split)

lemma discreet_room_event: "keeps (discreet cx a B c) (send_room_event cx x ev)"
  unfolding send_room_event_def get_has_history_by_room_uuid_def
  by (intro discreet_steps discreet_dicts discreet_send_json) (auto intro!: discreet.keeps_structure split: json.split)

lemma discreet_notify: "\<not> control ev \<Longrightarrow> keeps (discreet cx a B c) (notify cx x ev)"
  unfolding notify_def Let_def control_def
  by (intro discreet.keeps_if discreet_steps discreet_dicts discreet_send_json discreet_room_event; simp)

lemma discreet_last_seen: "keeps (discreet cx a B c) (maybe_update_last_seen cx x)"
  unfolding maybe_update_last_seen_def update_last_seen_db_def
  by (intro discreet_steps discreet_set_conn) simp

lemma discreet_feature: "keeps (discreet cx a B c) (is_ping_timeout_feature_enabled cx x)"
  unfolding is_ping_timeout_feature_enabled_def by (intro discreet_steps)

lemma discreet_go_offline: "keeps (discreet cx a B c) (go_offline cx k pk)"
  unfolding go_offline_def set_user_status_def finalize_in_service_if_needed_def log_status_change_def
  by (intro discreet_steps)

lemma discreet_checker: "keeps (discreet cx a B c) (checker_round cx c)"
  unfolding checker_round_def by (intro discreet_steps discreet_go_offline discreet_set_conn) auto

lemma about_check [simp]: "about w (check_event w user)" "about w (response_event (JStr w) user)"
  by (auto simp: about_def)

lemma control_about: "about w ev \<Longrightarrow> control ev"
  by (auto simp: about_def control_def action_of_def check_event_def response_event_def obj_get_def)

lemma about_inject: "about v ev \<Longrightarrow> about w ev \<Longrightarrow> v = w"
  by (auto simp: about_def check_event_def response_event_def)

lemma notice_not_control [simp]:
  "action \<notin> {''connection_check'', ''connection_check_response''} \<Longrightarrow> \<not> control (notice action j)"
  by (simp add: control_def action_of_def notice_def obj_get_def)

lemma discreet_hang_up: "keeps (discreet cx None {c} c) (hang_up cx c)"
  unfolding hang_up_def
  by (intro discreet_steps discreet_go_offline discreet_set_conn discreet_group_send) auto

lemma queue_group [simp]: "''queue'' @ ''_'' @ i \<noteq> permission_group q"
  by (simp add: permission_group_def)

lemma run_group_name:
  "group_name ev s = (Inr g, t) \<Longrightarrow> t = s \<and> g = f_text (obj_get ev ''name'' JNull) @ ''_'' @ f_text (obj_get ev ''id'' JNull)"
  by (auto simp: group_name_def item_def bnd_def obj_get_def py_defs split: option.splits)

lemma discreet_join:
  assumes "\<And>ev. unpack cx ev0 = Inr ev \<Longrightarrow> obj_get ev ''name'' JNull = JStr ''permission'' \<Longrightarrow>
    a = Some (f_text (obj_get ev ''id'' JNull))"
  shows "keeps (discreet cx a B c) (join cx c ev0)"
proof (rule keepsI)
  fix s
  show "discreet cx a B c s (snd (join cx c ev0 s))"
  proof (cases "unpack cx ev0")
    case (Inl e)
    then show ?thesis by (simp add: join_def run_lift discreet.R_refl)
  next
    case (Inr ev)
    obtain r t where g: "group_name ev s = (r, t)" by fastforce
    show ?thesis
    proof (cases r)
      case (Inl e)
      then have "discreet cx a B c s t" using keepsD [OF discreet_dicts(4) g] by simp
      moreover have "snd (join cx c ev0 s) = t"
        using Inl Inr g by (simp add: join_def run_lift run_Inl)
      ultimately show ?thesis by simp
    next
      case (Inr g')
      from run_group_name [OF g [unfolded Inr]] have t: "t = s"
        and g': "g' = f_text (obj_get ev ''name'' JNull) @ ''_'' @ f_text (obj_get ev ''id'' JNull)" by auto
      let ?m = "if obj_get ev ''name'' JNull \<notin> {JStr ''permission'', JStr ''queue''}
     then notify cx c (notice ''group.join'' (JStr (json_dumps (JObj [(''msg'', JStr (''Group '' @ g' @ '' is deprecated''))]))))
     else andthen (enter_group cx g' c)
         (when_true (wsx_debug cx) (notify cx c (notice ''group.join''
            (JStr (json_dumps (JObj [(''msg'', JStr (''Added '' @ g' @ '' to your listening groups''))]))))))"
      have enter: "keeps (discreet cx a B c) (enter_group cx g' c)"
        if "obj_get ev ''name'' JNull \<in> {JStr ''permission'', JStr ''queue''}"
        using that assms [OF \<open>unpack cx ev0 = Inr ev\<close>]
        by (intro discreet_enter_group) (auto simp: g' f_text_def permission_group_def)
      have "keeps (discreet cx a B c) ?m"
        by (intro discreet.keeps_if discreet.keeps_andthen discreet.keeps_when discreet_notify enter; simp)
      moreover have "join cx c ev0 s = ?m s"
        using \<open>unpack cx ev0 = Inr ev\<close> g Inr t by (simp add: join_def run_lift run_Inr)
      ultimately show ?thesis by (simp add: keeps_def)
    qed
  qed
qed

lemma discreet_exit: "keeps (discreet cx a B c) (exit cx c ev)"
  unfolding exit_def by (intro discreet_steps discreet_dicts discreet_set_conn discreet_notify) simp_all

text \<open>A client that plays by the rules: it sends no messages of checks, and enters no group of a permission.\<close>

definition fair_frame :: "'c ws_env \<Rightarrow> json \<Rightarrow> bool" where
  "fair_frame cx j = (case j of JObj payload \<Rightarrow>
     (obj_get payload ''type'' JNull = JStr ''notify'' \<longrightarrow>
        (case map_of payload ''content'' of Some (JObj ev) \<Rightarrow> \<not> control ev | _ \<Rightarrow> True)) \<and>
     (obj_get payload ''type'' JNull = JStr ''method'' \<and> action_of payload = JStr ''join'' \<longrightarrow>
        (case obj_get payload ''content'' (JObj []) of
           JObj ev0 \<Rightarrow> (case unpack cx ev0 of Inr ev \<Rightarrow> obj_get ev ''name'' JNull \<noteq> JStr ''permission'' | _ \<Rightarrow> True)
         | _ \<Rightarrow> True))
   | _ \<Rightarrow> True)"

lemma discreet_method:
  assumes "action_of payload = JStr ''join'' \<Longrightarrow> (case obj_get payload ''content'' (JObj []) of
       JObj ev0 \<Rightarrow> (case unpack cx ev0 of Inr ev \<Rightarrow> obj_get ev ''name'' JNull \<noteq> JStr ''permission'' | _ \<Rightarrow> True)
     | _ \<Rightarrow> True)"
  shows "keeps (discreet cx None {} c) (receive_method cx c payload)"
proof -
  have "keeps (discreet cx None {} c) (bnd (as_dict (obj_get payload ''content'' (JObj []))) (join cx c))"
    if "action_of payload = JStr ''join''"
    using assms [OF that]
    by (cases "obj_get payload ''content'' (JObj [])")
      (auto simp: as_dict_def intro!: discreet.keeps_structure discreet_join)
  then show ?thesis
    unfolding receive_method_def Let_def list_groups_def message_create_frame_def
    by (auto intro!: discreet_steps discreet_dicts discreet_exit discreet_notify discreet_send_json split: json.split)
qed

lemma discreet_receive:
  assumes "fair_frame cx j"
  shows "keeps (discreet cx None {} c) (receive_json cx c j)"
proof (cases "\<exists>payload. j = JObj payload")
  case True
  then obtain payload where j: "j = JObj payload" ..
  have n: "keeps (discreet cx None {} c) (bnd (bnd (item payload ''content'') as_dict) (notify cx c))"
    if "obj_get payload ''type'' JNull = JStr ''notify''"
    using assms that
    by (auto simp: fair_frame_def j item_def as_dict_def intro!: discreet.keeps_structure discreet_notify
        split: option.splits json.splits)
  have m: "keeps (discreet cx None {} c) (receive_method cx c payload)"
    if "obj_get payload ''type'' JNull = JStr ''method''"
    using assms that by (intro discreet_method) (auto simp: fair_frame_def j)
  show ?thesis
    unfolding receive_json_def j as_dict_obj bnd_ret Let_def
    by (intro discreet_steps n m discreet_send_json discreet_feature discreet_last_seen discreet_set_conn) simp_all
next
  case False
  then have "receive_json cx c j = raise AttributeError"
    by (cases j) (simp_all add: receive_json_def as_dict_def)
  then show ?thesis by (simp add: discreet.keeps_raise)
qed

section \<open>The permission of a connection\<close>

definition perm_kept :: "string \<Rightarrow> 'c sockets \<Rightarrow> 'c sockets \<Rightarrow> bool" where
  "perm_kept c s t \<longleftrightarrow> (\<forall>k. sk_conns s c = Some k \<longrightarrow> (\<exists>k'. sk_conns t c = Some k' \<and> cn_permission k' = cn_permission k))"

interpretation perm_kept: step_order "perm_kept c" for c
proof
  show "perm_kept c s s" for s by (simp add: perm_kept_def)
  show "perm_kept c s u" if "perm_kept c s t" "perm_kept c t u" for s t u
    using that unfolding perm_kept_def by metis
qed

lemma stays_perm: "keeps (stays c) m \<Longrightarrow> keeps (perm_kept c) m"
proof (erule keeps_mono)
  show "stays c s t \<Longrightarrow> perm_kept c s t" for s t
    unfolding stays_def kept_def perm_kept_def by (fastforce simp: owner_def)
qed

lemma perm_set_conn: "(\<And>k. cn_permission (f k) = cn_permission k) \<Longrightarrow> keeps (perm_kept c) (set_conn x f)"
  by (auto simp: keeps_def set_conn_def modify_def upd_conn_def perm_kept_def)

lemma perm_discard: "keeps (perm_kept c) (group_discard cx g x)"
  unfolding group_discard_def
  by (intro perm_kept.keeps_structure perm_kept.keeps_modify) (simp add: perm_kept_def)

lemmas perm_steps = perm_kept.keeps_structure perm_discard stays_in_db [THEN stays_perm] stays_group_send [THEN stays_perm]
  stays_conn [THEN stays_perm] stays_dicts [THEN stays_perm] stays_notify [THEN stays_perm] stays_go_offline [THEN stays_perm]
  stays_join [THEN stays_perm] stays_feature [THEN stays_perm] stays_last_seen [THEN stays_perm] stays_cache [THEN stays_perm]

lemma perm_exit: "keeps (perm_kept c) (exit cx c ev)"
  unfolding exit_def by (intro perm_steps perm_set_conn) simp

lemma perm_receive: "keeps (perm_kept c) (receive_json cx c j)"
proof (cases "\<exists>payload. j = JObj payload \<and> obj_get payload ''type'' JNull = JStr ''method'' \<and> action_of payload = JStr ''exit''")
  case True
  then obtain payload where j: "j = JObj payload" "obj_get payload ''type'' JNull = JStr ''method''" "action_of payload = JStr ''exit''"
    by blast
  have "keeps (perm_kept c) (bnd (as_dict x) (exit cx c))" for x
    by (intro perm_steps perm_exit)
  then show ?thesis by (simp add: receive_json_def receive_method_def j Let_def)
next
  case False
  then have "\<not> exit_frame j" by (cases j) (auto simp: exit_frame_def)
  then show ?thesis by (intro stays_perm stays_receive)
qed

lemma perm_listening: "keeps (perm_kept c) (start_listening cx c p)"
  unfolding start_listening_def by (intro perm_steps perm_set_conn) simp_all

lemma perm_wake_up: "keeps (perm_kept c) (wake_up cx c)"
  unfolding wake_up_def get_connection_check_response_def by (intro perm_steps perm_set_conn) simp

lemma perm_hang_up: "keeps (perm_kept c) (hang_up cx c)"
  unfolding hang_up_def by (intro perm_steps perm_set_conn) simp_all

lemma perm_handled:
  assumes "keeps (perm_kept c) m"
  shows "perm_kept c s (handled c m s)"
proof -
  obtain r t where m: "m s = (r, t)" by fastforce
  have "perm_kept c s t" by (rule keepsD [OF assms m])
  moreover have "perm_kept c t (upd_conn c (\<lambda>k. k\<lparr>cn_phase := Crashed\<rparr>) t)"
    by (simp add: perm_kept_def upd_conn_def)
  ultimately show ?thesis
    using perm_kept.R_trans [of c s t] by (cases r) (simp_all add: handled_def m)
qed

lemma step_perm:
  assumes "sk_conns s c \<noteq> None" and "actor e = Some c"
  shows "perm_kept c s (socket_step cx e s)"
proof (cases e)
  case (Receive x j)
  then show ?thesis using assms by (auto simp: perm_kept.R_refl intro!: perm_handled perm_receive)
next
  case (Deliver x)
  have "keeps (perm_kept c) (andthen (set_conn c (\<lambda>k. k\<lparr>cn_inbox := rest\<rparr>)) (notify cx c ev))" for rest ev
    by (intro perm_steps perm_set_conn) simp
  with Deliver assms show ?thesis
    by (auto simp: perm_kept.R_refl intro!: perm_handled split: option.split list.split)
next
  case (Lose x n)
  then show ?thesis using assms by (auto simp: perm_kept_def upd_conn_def)
next
  case (Hang_Up x)
  then show ?thesis using assms perm_hang_up [of c cx] by (auto simp: keeps_def perm_kept.R_refl)
next
  case (Wake_Up x)
  then show ?thesis using assms perm_wake_up [of c cx] by (auto simp: keeps_def perm_kept.R_refl split: option.split phase.split)
next
  case (Check_Ping x)
  then show ?thesis using assms stays_checker [THEN stays_perm, of c cx]
    by (auto simp: keeps_def perm_kept.R_refl split: option.split)
qed (use assms in \<open>auto simp: perm_kept.R_refl\<close>)

definition perm_of :: "'c sockets \<Rightarrow> string \<Rightarrow> uuid option" where
  "perm_of s c = Option.bind (sk_conns s c) cn_permission"

lemma perm_kept_of: "perm_kept c s t \<Longrightarrow> sk_conns s c \<noteq> None \<Longrightarrow> perm_of t c = perm_of s c"
  by (auto simp: perm_kept_def perm_of_def)

text \<open>A handshake puts the connection into the group of its own permission only.\<close>

lemma run_get_permission:
  "get_permission cx prj u s = (if wsx_uuid_ok cx prj then (Inr (project_get_permission (sk_world s) prj (Some u)), s)
     else (Inl (ValidationError ''uuid''), s))"
  by (simp add: get_permission_def in_db_def gets_def raise_def)

lemma discreet_listening: "keeps (discreet cx (Some (prm_uuid p)) B c) (start_listening cx c p)"
  unfolding start_listening_def
  by (intro discreet_steps discreet_set_conn discreet_feature discreet_last_seen discreet_join)
    (simp_all add: unpack_def obj_get_def f_text_def split: if_splits)

lemma listening_result:
  assumes "sk_conns s c = Some k" and "cn_permission k = Some (prm_uuid p)"
  shows "discreet cx (Some (prm_uuid p)) B c s (snd (start_listening cx c p s))"
    and "perm_of (snd (start_listening cx c p s)) c = Some (prm_uuid p)"
proof -
  show "discreet cx (Some (prm_uuid p)) B c s (snd (start_listening cx c p s))"
    using discreet_listening [of cx p B c] unfolding keeps_def by blast
  have "perm_kept c s (snd (start_listening cx c p s))"
    using perm_listening [of c cx p] unfolding keeps_def by blast
  from perm_kept_of [OF this] show "perm_of (snd (start_listening cx c p s)) c = Some (prm_uuid p)"
    using assms by (simp add: perm_of_def)
qed

definition lone_entry :: "'c ws_env \<Rightarrow> string \<Rightarrow> 'c sockets \<Rightarrow> 'c sockets \<Rightarrow> bool" where
  "lone_entry cx c s t \<longleftrightarrow> (\<exists>a. discreet cx a {} c s t \<and> (a = None \<or> perm_of t c = a))"

lemma lone_refl: "lone_entry cx c s s"
  unfolding lone_entry_def using discreet.R_refl by blast

lemma lone_none: "discreet cx None {} c s t \<Longrightarrow> lone_entry cx c s t"
  unfolding lone_entry_def by blast

lemma lone_listening:
  assumes "sk_conns s c \<noteq> None"
  shows "lone_entry cx c s (snd (start_listening cx c p (upd_conn c (\<lambda>k. k\<lparr>cn_permission := Some (prm_uuid p)\<rparr>) s)))"
proof -
  let ?s = "upd_conn c (\<lambda>k. k\<lparr>cn_permission := Some (prm_uuid p)\<rparr>) s"
  obtain k where k: "sk_conns ?s c = Some k" "cn_permission k = Some (prm_uuid p)"
    using assms by (auto simp: upd_conn_def)
  have "discreet cx (Some (prm_uuid p)) {} c s ?s" by (rule discreet_upd_conn) simp
  from discreet.R_trans [OF this listening_result(1) [OF k]] listening_result(2) [OF k]
  show ?thesis unfolding lone_entry_def by blast
qed

lemma lone_agent:
  "sk_conns s c \<noteq> None \<Longrightarrow> lone_entry cx c s (snd (connect_agent cx c u prj s))"
  by (simp add: connect_agent_def bnd_def run_get_permission run_modify set_conn_def lone_refl lone_listening ret_def
      split: option.split)

lemma discreet_lone: "discreet cx None {} c s t \<Longrightarrow> lone_entry cx c t u \<Longrightarrow> lone_entry cx c s u"
  unfolding lone_entry_def discreet_def by (elim exE conjE) (intro exI conjI; blast)

lemma lone_manager:
  assumes "sk_conns s c \<noteq> None"
  shows "lone_entry cx c s (snd (connect_manager cx c u prj e s))"
proof -
  let ?with = "\<lambda>p s. upd_conn c (\<lambda>k. k\<lparr>cn_permission := Some (prm_uuid p)\<rparr>) s"
  let ?as = "\<lambda>v s. upd_conn c (\<lambda>k. k\<lparr>cn_user := v\<rparr>) s"
  have named: "discreet cx None {} c s (?with p s)" for p s by (rule discreet_upd_conn) simp
  have as_user: "discreet cx None {} c s (?as v (?with p s))" for p v s
    by (rule discreet.R_trans [OF named]) (rule discreet_upd_conn, simp)
  have some: "sk_conns (?as v (?with p s)) c \<noteq> None" for p v using assms by (simp add: upd_conn_def)
  show ?thesis
    using lone_none [OF named] lone_none [OF as_user]
      discreet_lone [OF as_user lone_listening [OF some]]
    by (auto simp: connect_manager_def bnd_def run_get_permission run_modify set_conn_def lone_refl ret_def raise_def
        in_db_def gets_def when_true_def split: option.split)
qed

lemma lone_handled:
  assumes "lone_entry cx c s (snd (m s))"
  shows "lone_entry cx c s (handled c m s)"
proof -
  obtain r t where m: "m s = (r, t)" by fastforce
  have "discreet cx a {} c t (upd_conn c (\<lambda>k. k\<lparr>cn_phase := Crashed\<rparr>) t)" for a
    by (rule discreet_upd_conn) simp
  moreover have "perm_of (upd_conn c (\<lambda>k. k\<lparr>cn_phase := Crashed\<rparr>) t) c = perm_of t c"
    by (cases "sk_conns t c") (simp_all add: perm_of_def upd_conn_def)
  ultimately have "lone_entry cx c s t \<Longrightarrow> lone_entry cx c s (upd_conn c (\<lambda>k. k\<lparr>cn_phase := Crashed\<rparr>) t)"
    unfolding lone_entry_def by (metis discreet.R_trans)
  then show ?thesis using assms m by (cases r) (simp_all add: handled_def)
qed

lemma discreet_new: "sk_conns s c = None \<Longrightarrow> cn_inbox k = [] \<Longrightarrow> discreet cx a B c s (s\<lparr>sk_conns := (sk_conns s)(c \<mapsto> k)\<rparr>)"
  by (auto simp: discreet_def inbox_of_def split: if_splits)

lemma lone_connect:
  assumes "sk_conns s c = None"
  shows "lone_entry cx c s (snd (connect cx c sc s))"
proof -
  have new: "discreet cx None {} c s (s\<lparr>sk_conns := (sk_conns s)(c \<mapsto> new_connection\<lparr>cn_user := u, cn_project := p\<rparr>)\<rparr>)"
    "discreet cx None {} c s (s\<lparr>sk_conns := (sk_conns s)(c \<mapsto> new_connection)\<rparr>)" for u p
    using assms by (simp_all add: discreet_new new_connection_def)
  have some: "sk_conns (s\<lparr>sk_conns := (sk_conns s)(c \<mapsto> k)\<rparr>) c \<noteq> None" for k by simp
  show ?thesis
    using discreet_lone [OF new(1) lone_agent [OF some]] discreet_lone [OF new(1) lone_manager [OF some]] lone_none [OF new(2)]
    by (simp add: connect_def run_modify split: option.split) (simp add: modify_def)
qed

section \<open>Messages of checks are about connections that are gone\<close>

definition gone_in :: "'c sockets \<Rightarrow> string \<Rightarrow> bool" where
  "gone_in s w \<longleftrightarrow> (\<exists>k. sk_conns s w = Some k \<and> gone (cn_phase k))"

definition sound :: "'c ws_env \<Rightarrow> 'c sockets \<Rightarrow> bool" where
  "sound cx s \<longleftrightarrow>
     (\<forall>x ev. ev \<in> set (inbox_of s x) \<and> control ev \<longrightarrow> (\<exists>w. about w ev \<and> gone_in s w)) \<and>
     (\<forall>w. c_get (wsx_ops cx) (check_key w) (sk_cache s) \<noteq> None \<longrightarrow> gone_in s w) \<and>
     (\<forall>x q. x \<in> set (sk_layer s (permission_group q)) \<longrightarrow> perm_of s x = Some q) \<and>
     (\<forall>x k. sk_conns s x = Some k \<longrightarrow> (\<forall>g \<in> set (cn_added_groups k). wsx_group_ok cx g))"

lemma soundD:
  assumes "sound cx s"
  shows "ev \<in> set (inbox_of s x) \<Longrightarrow> control ev \<Longrightarrow> \<exists>w. about w ev \<and> gone_in s w"
    "c_get (wsx_ops cx) (check_key w) (sk_cache s) \<noteq> None \<Longrightarrow> gone_in s w"
    "x \<in> set (sk_layer s (permission_group q)) \<Longrightarrow> perm_of s x = Some q"
    "sk_conns s x = Some k \<Longrightarrow> g \<in> set (cn_added_groups k) \<Longrightarrow> wsx_group_ok cx g"
  using assms unfolding sound_def by blast+

lemma grown_fields:
  assumes "rel_option grown (sk_conns s x) (sk_conns t x)"
  shows "gone_in s x \<Longrightarrow> gone_in t x" "perm_of t x = perm_of s x"
    "sk_conns t x = Some k' \<Longrightarrow> \<exists>k. sk_conns s x = Some k \<and> cn_added_groups k' = cn_added_groups k \<and>
       cn_checker k' = cn_checker k \<and> cn_phase k' = cn_phase k \<and> cn_permission k' = cn_permission k"
    "sk_conns s x = Some k \<Longrightarrow> \<exists>k'. sk_conns t x = Some k' \<and> cn_checker k' = cn_checker k \<and> cn_phase k' = cn_phase k \<and>
       cn_permission k' = cn_permission k"
proof -
  have eq: "\<exists>k'. sk_conns t x = Some k' \<and> cn_added_groups k' = cn_added_groups k \<and> cn_checker k' = cn_checker k \<and>
      cn_phase k' = cn_phase k \<and> cn_permission k' = cn_permission k" if k: "sk_conns s x = Some k" for k
  proof -
    from k assms obtain k' where k': "sk_conns t x = Some k'" and eq: "k'\<lparr>cn_inbox := []\<rparr> = k\<lparr>cn_inbox := []\<rparr>"
      by (cases "sk_conns t x") (auto simp: grown_def)
    from arg_cong [OF eq, of cn_phase] arg_cong [OF eq, of cn_permission] arg_cong [OF eq, of cn_checker]
      arg_cong [OF eq, of cn_added_groups] k' show ?thesis by simp
  qed
  show "gone_in s x \<Longrightarrow> gone_in t x" using eq unfolding gone_in_def by fastforce
  show "sk_conns s x = Some k \<Longrightarrow> \<exists>k'. sk_conns t x = Some k' \<and> cn_checker k' = cn_checker k \<and> cn_phase k' = cn_phase k \<and>
       cn_permission k' = cn_permission k" using eq by blast
  have none: "sk_conns s x = None \<Longrightarrow> sk_conns t x = None"
    using assms by (cases "sk_conns t x") auto
  show "perm_of t x = perm_of s x"
    using eq none by (cases "sk_conns s x") (fastforce simp: perm_of_def)+
  show "sk_conns t x = Some k' \<Longrightarrow> \<exists>k. sk_conns s x = Some k \<and> cn_added_groups k' = cn_added_groups k \<and>
       cn_checker k' = cn_checker k \<and> cn_phase k' = cn_phase k \<and> cn_permission k' = cn_permission k"
    using eq none by (cases "sk_conns s x") fastforce+
qed

lemma sound_touched:
  assumes "sound cx s" and t: "touched cx left c s t"
    and n1: "\<And>x ev. ev \<in> set (inbox_of t x) \<Longrightarrow> control ev \<Longrightarrow> ev \<in> set (inbox_of s x) \<or> (\<exists>w. about w ev \<and> gone_in t w)"
    and n2: "\<And>w. c_get (wsx_ops cx) (check_key w) (sk_cache t) \<noteq> None \<Longrightarrow>
      c_get (wsx_ops cx) (check_key w) (sk_cache s) \<noteq> None \<or> gone_in t w"
    and n3: "\<And>q. c \<in> set (sk_layer t (permission_group q)) \<Longrightarrow> perm_of t c = Some q"
    and n4: "gone_in s c \<Longrightarrow> gone_in t c"
  shows "sound cx t"
  unfolding sound_def
proof (intro conjI allI impI)
  have gone: "gone_in s w \<Longrightarrow> gone_in t w" for w
    using n4 grown_fields(1) [OF touchedD(3) [OF t]] by (cases "w = c") auto
  show "\<exists>w. about w ev \<and> gone_in t w" if "ev \<in> set (inbox_of t x) \<and> control ev" for x ev
    using n1 [of ev x] that soundD(1) [OF assms(1), of ev x] gone by blast
  show "gone_in t w" if "c_get (wsx_ops cx) (check_key w) (sk_cache t) \<noteq> None" for w
    using n2 [OF that] soundD(2) [OF assms(1), of w] gone by blast
  show "perm_of t x = Some q" if "x \<in> set (sk_layer t (permission_group q))" for x q
  proof (cases "x = c")
    case True
    with n3 that show ?thesis by simp
  next
    case False
    then show ?thesis
      using grown_fields(2) [OF touchedD(3) [OF t False]] touchedD(5) [OF t False] that soundD(3) [OF assms(1)] by simp
  qed
  show "\<forall>g \<in> set (cn_added_groups k). wsx_group_ok cx g" if "sk_conns t x = Some k" for x k
  proof (cases "x = c")
    case True
    with touchedD(4) [OF t] that soundD(4) [OF assms(1)] show ?thesis unfolding groups_ok_def by blast
  next
    case False
    with grown_fields(3) [OF touchedD(3) [OF t False] that] soundD(4) [OF assms(1)] show ?thesis by auto
  qed
qed

lemma sound_cong:
  "sk_conns t = sk_conns s \<Longrightarrow> sk_layer t = sk_layer s \<Longrightarrow> sk_cache t = sk_cache s \<Longrightarrow> sound cx t = sound cx s"
  by (simp add: sound_def inbox_of_def gone_in_def perm_of_def)

text \<open>What one event adds: at most messages about the connection that hangs up, or about one that the connection has been asked about.\<close>

definition fair :: "'c ws_env \<Rightarrow> uuid \<Rightarrow> 'c sockets \<Rightarrow> socket_event \<Rightarrow> bool" where
  "fair cx pk s e \<longleftrightarrow> (case e of
     Receive c j \<Rightarrow> fair_frame cx j
   | Publish g ev \<Rightarrow> \<not> control ev
   | Elsewhere f \<Rightarrow> status_of (f (sk_world s)) pk \<noteq> None \<and>
       (status_of (f (sk_world s)) pk = status_of (sk_world s) pk \<or>
        (\<exists>c k. sk_conns s c = Some k \<and> cn_phase k = Accepted \<and> cn_permission k = Some pk))
   | _ \<Rightarrow> True)"

definition asked_about :: "'c sockets \<Rightarrow> socket_event \<Rightarrow> string \<Rightarrow> string \<Rightarrow> bool" where
  "asked_about s e c w \<longleftrightarrow> w = c \<and> e = Hang_Up c \<and> phase_of s c \<in> {Some Accepted, Some Rejected} \<or>
     (\<exists>ev \<in> set (inbox_of s c). about w ev \<and> phase_of s c = Some Accepted \<and> e = Deliver c)"

lemma discreet_handled:
  assumes "keeps (discreet cx None B c) m"
  shows "discreet cx None B c s (handled c m s)"
proof -
  obtain r t where m: "m s = (r, t)" by fastforce
  have "discreet cx None B c s t" by (rule keepsD [OF assms m])
  moreover have "discreet cx None B c t (upd_conn c (\<lambda>k. k\<lparr>cn_phase := Crashed\<rparr>) t)"
    by (rule discreet_upd_conn) simp
  ultimately show ?thesis
    using discreet.R_trans [of cx None B c s t] by (cases r) (simp_all add: handled_def m)
qed

lemma run_check:
  "notify cx c (check_event w user) = bnd (conn c) (\<lambda>k. if w \<noteq> c \<and> user = cn_user k
     then case cn_permission k of None \<Rightarrow> raise AttributeError
       | Some pk \<Rightarrow> group_send cx (permission_group pk) (response_event (JStr w) (cn_user k))
     else ret ())"
  by (simp add: notify_def action_of_def check_event_def obj_get_def item_def Let_def cong: option.case_cong if_cong)

context connection_cache
begin

lemma discreet_set_response: "w \<in> B \<Longrightarrow> keeps (discreet cx a B c) (set_connection_check_response cx w b)"
  unfolding set_connection_check_response_def
  by (rule discreet.keeps_modify) (auto simp: discreet_def inbox_of_def get_set ttl_ok_def)

lemma discreet_get_response: "keeps (discreet cx a B c) (get_connection_check_response cx x)"
  unfolding get_connection_check_response_def
  by (intro discreet_steps discreet.keeps_modify) (auto simp: discreet_def inbox_of_def get_delete)

lemma discreet_wake_up: "keeps (discreet cx a B c) (wake_up cx c)"
  unfolding wake_up_def by (intro discreet_steps discreet_get_response discreet_go_offline discreet_set_conn) simp

lemma discreet_control: "about w ev \<Longrightarrow> keeps (discreet cx None {w} c) (notify cx c ev)"
  unfolding about_def
proof (elim exE disjE)
  fix user assume "ev = check_event w user"
  then show ?thesis
    by (simp only: run_check) (intro discreet_steps discreet_group_send, auto)
next
  fix user assume "ev = response_event (JStr w) user"
  then show ?thesis by (simp add: notify_response discreet_set_response)
qed

lemma step_discreet:
  assumes "sound cx s" and "actor e = Some c" and "fair cx pk s e"
  shows "\<exists>a B. discreet cx a B c s (socket_step cx e s) \<and> (\<forall>q. a = Some q \<longrightarrow> perm_of (socket_step cx e s) c = Some q) \<and>
    (\<forall>w \<in> B. asked_about s e c w)"
proof -
  have plain: ?thesis if "discreet cx None B c s (socket_step cx e s)" "\<forall>w \<in> B. asked_about s e c w" for B
    using that by (intro exI [of _ None] exI [of _ B]) simp
  show ?thesis
  proof (cases e)
    case (Connect x sc)
    show ?thesis
    proof (cases "sk_conns s c = None")
      case True
      then have "lone_entry cx c s (socket_step cx e s)"
        using Connect assms(2) by (simp add: lone_handled lone_connect)
      then show ?thesis unfolding lone_entry_def by (metis empty_iff option.distinct(1))
    next
      case False
      then have "socket_step cx e s = s" using Connect assms(2) by auto
      then show ?thesis using plain [of "{}"] by (simp add: discreet.R_refl)
    qed
  next
    case (Receive x j)
    then have "discreet cx None {} c s (socket_step cx e s)"
      using assms by (auto simp: fair_def discreet.R_refl intro!: discreet_handled discreet_receive)
    then show ?thesis by (rule plain) simp
  next
    case (Deliver x)
    show ?thesis
    proof (cases "\<exists>k ev rest. sk_conns s c = Some k \<and> cn_inbox k = ev # rest \<and> cn_phase k = Accepted")
      case False
      then have "socket_step cx e s = s"
        using Deliver assms(2) by (auto split: option.split list.split)
      then show ?thesis using plain [of "{}"] by (simp add: discreet.R_refl)
    next
      case True
      then obtain k ev rest where k: "sk_conns s c = Some k" "cn_inbox k = ev # rest" "cn_phase k = Accepted" by blast
      then have here: "ev \<in> set (inbox_of s c)" by (simp add: inbox_of_def)
      have run: "socket_step cx e s = handled c (andthen (set_conn c (\<lambda>k. k\<lparr>cn_inbox := rest\<rparr>)) (notify cx c ev)) s"
        using Deliver assms(2) k by simp
      have first: "discreet cx None B c s (upd_conn c (\<lambda>k. k\<lparr>cn_inbox := rest\<rparr>) s)" for B
        using k by (auto simp: discreet_def inbox_of_def upd_conn_def split: option.splits if_splits)
      have step: "discreet cx None B c s (socket_step cx e s)" if "keeps (discreet cx None B c) (notify cx c ev)" for B
      proof -
        have "handled c (andthen (set_conn c (\<lambda>k. k\<lparr>cn_inbox := rest\<rparr>)) (notify cx c ev)) s =
            handled c (notify cx c ev) (upd_conn c (\<lambda>k. k\<lparr>cn_inbox := rest\<rparr>) s)"
          by (simp add: handled_def set_conn_def run_modify)
        with run first discreet_handled [OF that] show ?thesis by (metis discreet.R_trans)
      qed
      show ?thesis
      proof (cases "control ev")
        case True
        with soundD(1) [OF assms(1) here] obtain w where w: "about w ev" by blast
        then show ?thesis
          using plain [OF step [OF discreet_control [OF w]]] here k Deliver assms(2)
          by (auto simp: asked_about_def phase_of_def)
      next
        case False
        then show ?thesis using plain [OF step [OF discreet_notify]] by blast
      qed
    qed
  next
    case (Lose x n)
    have "discreet cx None {} c s (socket_step cx e s)"
      using Lose by (auto intro!: discreet_upd_conn dest: in_set_takeD in_set_dropD)
    then show ?thesis by (rule plain) simp
  next
    case (Hang_Up x)
    show ?thesis
    proof (cases "phase_of s c \<in> {Some Accepted, Some Rejected}")
      case True
      have "discreet cx None {c} c s (socket_step cx e s)"
        using Hang_Up True assms(2) discreet_hang_up [of cx c] unfolding keeps_def by simp
      then show ?thesis by (rule plain) (use True Hang_Up assms(2) in \<open>simp add: asked_about_def\<close>)
    next
      case False
      then have "socket_step cx e s = s" using Hang_Up assms(2) by simp
      then show ?thesis using plain [of "{}"] by (simp add: discreet.R_refl)
    qed
  next
    case (Wake_Up x)
    have "discreet cx None {} c s (socket_step cx e s)"
      using Wake_Up assms(2) discreet_wake_up [of None "{}" c]
      by (auto simp: keeps_def discreet.R_refl split: option.split phase.split)
    then show ?thesis by (rule plain) simp
  next
    case (Check_Ping x)
    have "discreet cx None {} c s (socket_step cx e s)"
      using Check_Ping assms(2) discreet_checker [of cx None "{}" c]
      by (auto simp: keeps_def discreet.R_refl split: option.split)
    then show ?thesis by (rule plain) simp
  qed (use assms in simp_all)
qed

end

lemma own_step_gone:
  assumes "actor e = Some c" and "gone_in s c"
  shows "gone_in (socket_step cx e s) c"
proof -
  obtain k where k: "sk_conns s c = Some k" "gone (cn_phase k)" using assms(2) by (auto simp: gone_in_def)
  have "phase_of s c = Some (cn_phase k)" "cn_phase k \<noteq> Accepted" using k by (auto simp: phase_of_def)
  from own_step_phase [OF assms(1) this, of cx] k show ?thesis by (auto simp: phase_of_def gone_in_def)
qed

context connection_cache
begin

lemma asked_gone:
  assumes "sound cx s" and "actor e = Some c" and "asked_about s e c w"
  shows "gone_in (socket_step cx e s) w"
proof -
  consider "w = c" "e = Hang_Up c" "phase_of s c \<in> {Some Accepted, Some Rejected}" |
    ev where "ev \<in> set (inbox_of s c)" "about w ev" "phase_of s c = Some Accepted"
    using assms(3) unfolding asked_about_def by blast
  then show ?thesis
  proof cases
    case 1
    then obtain k where "sk_conns s c = Some k" by (auto simp: phase_of_def)
    from hang_up_gone [OF this, of cx] 1 show ?thesis by (auto simp: gone_in_def)
  next
    case 2
    then have "gone_in s w"
      using soundD(1) [OF assms(1) 2(1) control_about [OF 2(2)]] about_inject [OF 2(2)] by blast
    moreover from this have "w \<noteq> c" using 2(3) by (auto simp: gone_in_def phase_of_def)
    ultimately show ?thesis
      using grown_fields(1) [OF touchedD(3) [OF step_touched [OF assms(2)]]] by blast
  qed
qed

lemma sound_step:
  assumes "sound cx s" and "fair cx pk s e"
  shows "sound cx (socket_step cx e s)"
proof (cases "actor e")
  case None
  then show ?thesis
  proof (cases e)
    case (Wait n)
    have "c_get (wsx_ops cx) k (c_elapse (wsx_ops cx) (int n) c') \<noteq> None \<Longrightarrow> c_get (wsx_ops cx) k c' \<noteq> None" for k c'
      using get_elapse [of "int n" k c'] by auto
    then show ?thesis using assms(1) Wait unfolding sound_def by (simp add: inbox_of_def gone_in_def perm_of_def) blast
  next
    case (Publish g ev)
    then have quiet: "discreet cx None {} c s (socket_step cx e s)" for c
      using assms(2) by (auto simp: fair_def intro!: discreet_deliver_to)
    have grow: "rel_option grown (sk_conns s x) (sk_conns (socket_step cx e s) x)" for x
      by (auto simp: Publish deliver_to_def grown_def option.rel_map intro!: option.rel_refl_strong)
    show ?thesis
      unfolding sound_def
    proof (intro conjI allI impI)
      fix x ev assume "ev \<in> set (inbox_of (socket_step cx e s) x) \<and> control ev"
      with discreetD(1) [OF quiet, of ev x] soundD(1) [OF assms(1), of ev x] grown_fields(1) [OF grow]
      show "\<exists>w. about w ev \<and> gone_in (socket_step cx e s) w" by blast
    next
      fix x k assume "sk_conns (socket_step cx e s) x = Some k"
      with grown_fields(3) [OF grow] soundD(4) [OF assms(1)]
      show "\<forall>g \<in> set (cn_added_groups k). wsx_group_ok cx g" by fastforce
    next
      fix x q assume "x \<in> set (sk_layer (socket_step cx e s) (permission_group q))"
      then show "perm_of (socket_step cx e s) x = Some q"
        using soundD(3) [OF assms(1), of x q] grown_fields(2) [OF grow] by (simp add: Publish deliver_to_def)
    next
      fix w assume "c_get (wsx_ops cx) (check_key w) (sk_cache (socket_step cx e s)) \<noteq> None"
      then show "gone_in (socket_step cx e s) w"
        using soundD(2) [OF assms(1), of w] grown_fields(1) [OF grow] by (simp add: Publish deliver_to_def)
    qed
  next
    case (Elsewhere f)
    have "sound cx (socket_step cx e s) = sound cx s"
      by (rule sound_cong) (simp_all add: Elsewhere)
    then show ?thesis using assms(1) by simp
  qed simp_all
next
  case (Some c)
  let ?t = "socket_step cx e s"
  obtain a B where d: "discreet cx a B c s ?t" and a: "\<And>q. a = Some q \<Longrightarrow> perm_of ?t c = Some q"
      and B: "\<And>w. w \<in> B \<Longrightarrow> gone_in ?t w"
    using step_discreet [OF assms(1) Some assms(2)] asked_gone [OF assms(1) Some] by blast
  show ?thesis
  proof (rule sound_touched [OF assms(1) step_touched [OF Some]])
    show "ev \<in> set (inbox_of s x) \<or> (\<exists>w. about w ev \<and> gone_in ?t w)" if "ev \<in> set (inbox_of ?t x)" "control ev" for x ev
      using discreetD(1) [OF d that] B by blast
    show "c_get (wsx_ops cx) (check_key w) (sk_cache s) \<noteq> None \<or> gone_in ?t w"
      if "c_get (wsx_ops cx) (check_key w) (sk_cache ?t) \<noteq> None" for w
      using discreetD(2) [OF d, of w] B that by blast
    show "perm_of ?t c = Some q" if "c \<in> set (sk_layer ?t (permission_group q))" for q
    proof (cases "c \<in> set (sk_layer s (permission_group q))")
      case True
      then have "perm_of s c = Some q" by (rule soundD(3) [OF assms(1)])
      moreover from this have "sk_conns s c \<noteq> None" by (cases "sk_conns s c") (simp_all add: perm_of_def)
      ultimately show ?thesis
        using perm_kept_of [OF step_perm [OF \<open>sk_conns s c \<noteq> None\<close> Some] \<open>sk_conns s c \<noteq> None\<close>] by metis
    next
      case False
      with discreetD(3) [OF d that] a show ?thesis by blast
    qed
    show "gone_in s c \<Longrightarrow> gone_in ?t c" by (rule own_step_gone [OF Some])
  qed
qed

end

section \<open>Nobody left means offline\<close>

definition up :: "uuid \<Rightarrow> 'c sockets \<Rightarrow> bool" where
  "up pk s \<longleftrightarrow> (\<exists>x k. sk_conns s x = Some k \<and> cn_permission k = Some pk \<and> cn_phase k \<in> {Accepted, Crashed})"

definition unheard :: "'c ws_env \<Rightarrow> uuid \<Rightarrow> 'c sockets \<Rightarrow> bool" where
  "unheard cx pk s \<longleftrightarrow> (\<exists>y k t. sk_conns s y = Some k \<and> cn_permission k = Some pk \<and> cn_phase k = Waiting t \<and>
     cn_checker k = None \<and> c_get (wsx_ops cx) (check_key y) (sk_cache s) = None \<and>
     (\<forall>x ev. phase_of s x = Some Accepted \<and> ev \<in> set (inbox_of s x) \<longrightarrow> \<not> about y ev))"

definition accounted :: "'c ws_env \<Rightarrow> uuid \<Rightarrow> 'c sockets \<Rightarrow> bool" where
  "accounted cx pk s \<longleftrightarrow> status_of (sk_world s) pk \<noteq> None \<and>
     (up pk s \<or> status_of (sk_world s) pk = Some ''OFFLINE'' \<or> unheard cx pk s)"

lemma go_offline_status:
  assumes "status_of (sk_world s) pk \<noteq> None"
  shows "status_of (sk_world (snd (go_offline cx k pk s))) pk = Some ''OFFLINE''"
proof -
  let ?rest = "andthen (finalize_in_service_if_needed cx (cn_user k) (cn_project k))
      (log_status_change cx (cn_user k) (cn_project k) ''OFFLINE'')"
  obtain p where p: "find_permission_pk (sk_world s) pk = Some p" using assms by (auto simp: status_of_def)
  let ?w = "(sk_world s)\<lparr>permissions := update_where (\<lambda>p. prm_uuid p = pk) (\<lambda>p. p\<lparr>prm_status := ''OFFLINE''\<rparr>)
      (permissions (sk_world s))\<rparr>"
  obtain es where es: "permission_notify_user ((wsx_env cx)\<lparr>env_now := micros (sk_now s)\<rparr>) pk ''update'' ?w =
      (Inr (), ?w\<lparr>effects := es\<rparr>)"
    unfolding permission_notify_user_def using send_channels_group_effects by blast
  have set: "set_user_status cx pk ''OFFLINE'' s = (Inr (), s\<lparr>sk_world := ?w\<lparr>effects := es\<rparr>\<rparr>)"
    using p es by (simp add: set_user_status_def in_db_def need_def bnd_def run_modify)
  have off: "status_of (?w\<lparr>effects := es\<rparr>) pk = Some ''OFFLINE''"
    using p by (simp add: status_of_def find_permission_update)
  have "keeps (touched cx (\<lambda>_ _. None) x) ?rest" for x
    unfolding finalize_in_service_if_needed_def log_status_change_def
    by (intro touched_steps status_calm.keeps_world frame_room_closed [THEN calm_frame])
  then have calm: "status_calm (?w\<lparr>effects := es\<rparr>) (sk_world (snd (?rest (s\<lparr>sk_world := ?w\<lparr>effects := es\<rparr>\<rparr>))))"
    using touchedD(7) [where s = "s\<lparr>sk_world := ?w\<lparr>effects := es\<rparr>\<rparr>"] by (fastforce simp: keeps_def)
  then show ?thesis
    unfolding go_offline_def run_Inr(2) [where m = "set_user_status cx pk ''OFFLINE''", OF set]
    using off calm unfolding status_calm_def by metis
qed

lemma discard_runs:
  assumes "\<forall>g \<in> set gs. wsx_group_ok cx g"
  shows "\<exists>s'. for_each (\<lambda>g. group_discard cx g c) gs s = (Inr (), s') \<and> sk_conns s' = sk_conns s \<and> sk_cache s' = sk_cache s \<and>
    sk_world s' = sk_world s \<and> (\<forall>x g. x \<in> set (sk_layer s' g) \<longrightarrow> x \<in> set (sk_layer s g))"
  using assms
proof (induction gs arbitrary: s)
  case (Cons g gs)
  let ?s = "s\<lparr>sk_layer := (sk_layer s)(g := removeAll c (sk_layer s g))\<rparr>"
  obtain s' where s': "for_each (\<lambda>g. group_discard cx g c) gs ?s = (Inr (), s')" "sk_conns s' = sk_conns s" "sk_cache s' = sk_cache s"
    "sk_world s' = sk_world s" "\<forall>x h. x \<in> set (sk_layer s' h) \<longrightarrow> x \<in> set (sk_layer ?s h)"
    using Cons.IH [of ?s] Cons.prems by auto
  then have "x \<in> set (sk_layer s h)" if "x \<in> set (sk_layer s' h)" for x h
    using that by (fastforce split: if_splits)
  with s' Cons.prems show ?case by (auto simp: group_discard_def run_modify)
qed (simp add: ret_def)

text \<open>How a connection of the permission that was listening goes.\<close>

lemma hang_up_runs:
  assumes "sound cx s" and k: "sk_conns s c = Some k" and pk: "cn_permission k = Some pk" and "wsx_group_ok cx (permission_group pk)"
  shows "\<exists>s2. sk_conns s2 = (sk_conns s)(c \<mapsto> k\<lparr>cn_checker := None, cn_phase := Closed\<rparr>) \<and> sk_cache s2 = sk_cache s \<and>
    sk_world s2 = sk_world s \<and> (\<forall>x g. x \<in> set (sk_layer s2 g) \<longrightarrow> x \<in> set (sk_layer s g)) \<and>
    hang_up cx c s = (if wsx_check cx
       then (Inr (), upd_conn c (\<lambda>k. k\<lparr>cn_phase := Waiting (sk_now s2)\<rparr>)
              (deliver_to (sk_layer s2 (permission_group pk)) (check_event c (cn_user k)) s2))
       else go_offline cx k pk s2)"
proof -
  let ?s = "upd_conn c (\<lambda>k. k\<lparr>cn_checker := None, cn_phase := Closed\<rparr>) s"
  have "\<forall>g \<in> set (remdups (cn_added_groups k)). wsx_group_ok cx g" using soundD(4) [OF assms(1) k] by simp
  from discard_runs [OF this, of c ?s] obtain s2 where s2:
    "for_each (\<lambda>g. group_discard cx g c) (remdups (cn_added_groups k)) ?s = (Inr (), s2)" "sk_conns s2 = sk_conns ?s"
    "sk_cache s2 = sk_cache ?s" "sk_world s2 = sk_world ?s" "\<And>x g. x \<in> set (sk_layer s2 g) \<Longrightarrow> x \<in> set (sk_layer ?s g)"
    by blast
  have "hang_up cx c s = (if wsx_check cx
       then (Inr (), upd_conn c (\<lambda>k. k\<lparr>cn_phase := Waiting (sk_now s2)\<rparr>)
              (deliver_to (sk_layer s2 (permission_group pk)) (check_event c (cn_user k)) s2))
       else go_offline cx k pk s2)"
    using k pk s2(1) assms(4)
    by (simp add: hang_up_def conn_def bnd_def [of "conn c"] set_conn_def run_modify run_Inr group_send_def run_gets)
      (simp add: modify_def deliver_to_def)
  then show ?thesis using s2 k by (intro exI [of _ s2]) (simp add: upd_conn_def)
qed

lemma stays_kept: "keeps (stays c) m \<Longrightarrow> keeps (kept c) m"
  by (erule keeps_mono) (simp add: stays_def)

lemma calm_row: "status_calm v w \<Longrightarrow> status_of v pk \<noteq> None \<Longrightarrow> status_of w pk \<noteq> None"
  unfolding status_calm_def by (metis option.distinct(1))

lemma kept_exit: "keeps (kept c) (exit cx c ev)"
proof -
  have "keeps (kept c) (group_discard cx g c)" for g
    unfolding group_discard_def by (intro kept.keeps_structure kept.keeps_modify) (simp add: kept_def)
  moreover have "keeps (kept c) (set_conn c (\<lambda>k. k\<lparr>cn_added_groups := remove1 g (cn_added_groups k)\<rparr>))" for g
    by (rule stays_kept [OF stays_set_conn]) (simp_all add: owner_def)
  ultimately show ?thesis
    unfolding exit_def
    by (intro kept.keeps_structure stays_notify [THEN stays_kept] stays_conn [THEN stays_kept] stays_dicts [THEN stays_kept])
qed

lemma kept_receive: "keeps (kept c) (receive_json cx c j)"
proof (cases "\<exists>payload. j = JObj payload \<and> obj_get payload ''type'' JNull = JStr ''method'' \<and> action_of payload = JStr ''exit''")
  case True
  then obtain payload where j: "j = JObj payload" "obj_get payload ''type'' JNull = JStr ''method''" "action_of payload = JStr ''exit''"
    by blast
  have "keeps (kept c) (bnd (as_dict x) (exit cx c))" for x
    by (intro kept.keeps_structure kept_exit stays_dicts [THEN stays_kept])
  then show ?thesis by (simp add: receive_json_def receive_method_def j Let_def)
next
  case False
  then have "\<not> exit_frame j" by (cases j) (auto simp: exit_frame_def)
  then show ?thesis by (intro stays_kept stays_receive)
qed

lemma kept_handled:
  assumes "keeps (kept c) m" and "sk_conns s c = Some k"
  shows "\<exists>k'. sk_conns (handled c m s) c = Some k' \<and> cn_permission k' = cn_permission k \<and>
    (cn_phase k' = cn_phase k \<or> cn_phase k' = Crashed)"
proof -
  obtain r t where m: "m s = (r, t)" by fastforce
  from keepsD [OF assms(1) m] assms(2) obtain k' where "sk_conns t c = Some k'" "owner k' = owner k"
    unfolding kept_def by blast
  with m show ?thesis by (cases r) (auto simp: handled_def upd_conn_def owner_def)
qed

lemma own_step_up:
  assumes "actor e = Some c" and "sk_conns s c = Some k" and "cn_phase k \<in> {Accepted, Crashed}" and "e \<noteq> Hang_Up c"
  shows "\<exists>k'. sk_conns (socket_step cx e s) c = Some k' \<and> cn_permission k' = cn_permission k \<and> cn_phase k' \<in> {Accepted, Crashed}"
proof (cases e)
  case (Receive x j)
  then show ?thesis using kept_handled [OF kept_receive [of c cx j] assms(2)] assms by (auto simp: phase_of_def)
next
  case (Deliver x)
  have kn: "keeps (kept c) (notify cx c ev)" for ev
    by (rule stays_kept [OF stays_notify])
  have "\<exists>k'. sk_conns (handled c (andthen (set_conn c (\<lambda>k. k\<lparr>cn_inbox := rest\<rparr>)) (notify cx c ev)) s) c = Some k' \<and>
      cn_permission k' = cn_permission k \<and> (cn_phase k' = cn_phase k \<or> cn_phase k' = Crashed)" for rest ev
  proof -
    let ?s = "upd_conn c (\<lambda>k. k\<lparr>cn_inbox := rest\<rparr>) s"
    have "sk_conns ?s c = Some (k\<lparr>cn_inbox := rest\<rparr>)" using assms(2) by (simp add: upd_conn_def)
    from kept_handled [OF kn [of ev] this] show ?thesis by (simp add: handled_def set_conn_def run_modify)
  qed
  with Deliver assms show ?thesis by (fastforce split: list.split)
next
  case (Check_Ping x)
  have "kept c s (snd (checker_round cx c s))"
    using stays_checker [of c cx] by (simp add: keeps_def stays_def)
  with assms(2) obtain k' where "sk_conns (snd (checker_round cx c s)) c = Some k'" "owner k' = owner k"
    unfolding kept_def by blast
  with Check_Ping assms show ?thesis by (auto simp: owner_def split: option.split)
next
  case (Wake_Up x)
  with assms show ?thesis by (auto simp: phase_of_def split: phase.split)
qed (use assms in \<open>auto simp: upd_conn_def\<close>)

context connection_cache
begin

lemma accounted_hang_up:
  assumes "sound cx s" and "accounted cx pk s" and k: "sk_conns s c = Some k" "cn_phase k = Accepted" "cn_permission k = Some pk"
    and "wsx_group_ok cx (permission_group pk)"
  shows "accounted cx pk (socket_step cx (Hang_Up c) s)"
proof -
  define t where "t = socket_step cx (Hang_Up c) s"
  have t: "t = snd (hang_up cx c s)" using k by (simp add: t_def phase_of_def)
  have row: "status_of (sk_world t) pk \<noteq> None"
    unfolding t_def by (rule calm_row [OF touchedD(7) [OF step_touched [of "Hang_Up c" c s]]]) (use assms(2) in \<open>simp_all add: accounted_def\<close>)
  obtain s2 where s2: "sk_conns s2 = (sk_conns s)(c \<mapsto> k\<lparr>cn_checker := None, cn_phase := Closed\<rparr>)" "sk_cache s2 = sk_cache s"
    "sk_world s2 = sk_world s" "\<And>x g. x \<in> set (sk_layer s2 g) \<Longrightarrow> x \<in> set (sk_layer s g)"
    "hang_up cx c s = (if wsx_check cx
       then (Inr (), upd_conn c (\<lambda>k. k\<lparr>cn_phase := Waiting (sk_now s2)\<rparr>)
              (deliver_to (sk_layer s2 (permission_group pk)) (check_event c (cn_user k)) s2))
       else go_offline cx k pk s2)"
    using hang_up_runs [OF assms(1) k(1,3) assms(6)] by blast
  have "accounted cx pk t"
  proof (cases "wsx_check cx")
    case False
    then have "status_of (sk_world t) pk = Some ''OFFLINE''"
      unfolding t using go_offline_status [of s2 pk cx k] assms(2) s2 by (simp add: accounted_def)
    then show ?thesis by (simp add: accounted_def)
  next
    case True
    then have run: "t = upd_conn c (\<lambda>k. k\<lparr>cn_phase := Waiting (sk_now s2)\<rparr>)
              (deliver_to (sk_layer s2 (permission_group pk)) (check_event c (cn_user k)) s2)"
      unfolding t by (simp add: s2(5))
    have "unheard cx pk t" if not_up: "\<not> up pk t"
    proof -
      have fresh: "\<not> gone_in s c" using k by (simp add: gone_in_def)
      have key: "c_get (wsx_ops cx) (check_key c) (sk_cache t) = None"
        using soundD(2) [OF assms(1), of c] fresh
        by (cases "c_get (wsx_ops cx) (check_key c) (sk_cache s)") (auto simp: run s2(2) upd_conn_def deliver_to_def)
      have silent: "\<not> about c ev" if x: "phase_of t x = Some Accepted" and ev: "ev \<in> set (inbox_of t x)" for x ev
      proof
        assume ab: "about c ev"
        have "x \<noteq> c" using x s2(1) by (auto simp: run phase_of_def upd_conn_def deliver_to_def)
        then obtain kx where kx: "sk_conns s x = Some kx" "cn_phase kx = Accepted"
          and tx: "sk_conns t x = Some (if x \<in> set (sk_layer s2 (permission_group pk))
             then kx\<lparr>cn_inbox := cn_inbox kx @ [check_event c (cn_user k)]\<rparr> else kx)"
          using x s2(1) by (auto simp: run phase_of_def upd_conn_def deliver_to_def split: if_splits)
        have "ev \<notin> set (inbox_of s x)"
          using soundD(1) [OF assms(1) _ control_about [OF ab], of x] about_inject [OF ab] fresh by blast
        with ev tx kx have "x \<in> set (sk_layer s2 (permission_group pk))" by (auto simp: inbox_of_def split: if_splits)
        then have "cn_permission kx = Some pk"
          using soundD(3) [OF assms(1) s2(4), of x pk] kx by (simp add: perm_of_def)
        then have "up pk t" using tx kx unfolding up_def by (intro exI [of _ x]) auto
        with not_up show False ..
      qed
      have "\<exists>k'. sk_conns t c = Some k' \<and> cn_permission k' = Some pk \<and> cn_phase k' = Waiting (sk_now s2) \<and> cn_checker k' = None"
        using s2(1) k(3) by (simp add: run upd_conn_def deliver_to_def)
      then show ?thesis unfolding unheard_def using key silent by blast
    qed
    then show ?thesis using row by (auto simp: accounted_def)
  qed
  then show ?thesis by (simp only: t_def)
qed

lemma accounted_wake_up:
  assumes "sk_conns s c = Some k" and "cn_permission k = Some pk" and "c_get (wsx_ops cx) (check_key c) (sk_cache s) = None"
    and "status_of (sk_world s) pk \<noteq> None"
  shows "accounted cx pk (snd (wake_up cx c s))"
proof -
  let ?s = "upd_conn c (\<lambda>k. k\<lparr>cn_phase := Closed\<rparr>) s"
  have "wake_up cx c s = go_offline cx k pk ?s"
    using assms(1-3) by (simp add: wake_up_def conn_def bnd_def [of "conn c"] set_conn_def run_modify
        get_connection_check_response_def run_gets upd_conn_def bnd_assoc)
  then show ?thesis using go_offline_status [of ?s pk cx k] assms(4) by (simp add: accounted_def upd_conn_def)
qed

lemma unheard_step:
  assumes "sound cx s" and "unheard cx pk s" and "fair cx pk s e" and "actor e = Some c" and "status_of (sk_world s) pk \<noteq> None"
  shows "accounted cx pk (socket_step cx e s)"
proof -
  let ?t = "socket_step cx e s"
  note t = step_touched [OF assms(4), of s]
  have row: "status_of (sk_world ?t) pk \<noteq> None"
    by (rule calm_row [OF touchedD(7) [OF t] assms(5)])
  obtain y k w where y: "sk_conns s y = Some k" "cn_permission k = Some pk" "cn_phase k = Waiting w" "cn_checker k = None"
      "c_get (wsx_ops cx) (check_key y) (sk_cache s) = None"
    and silent: "\<And>x ev. phase_of s x = Some Accepted \<Longrightarrow> ev \<in> set (inbox_of s x) \<Longrightarrow> \<not> about y ev"
    using assms(2) unfolding unheard_def by blast
  show ?thesis
  proof (cases "y = c")
    case True
    consider "e = Wake_Up c" "w + 1 \<le> sk_now s" | "?t = s" | n where "e = Lose c n"
      using y assms(4) True
      by (cases e; cases "w + 1 \<le> sk_now s") (auto simp: phase_of_def split: list.split)
    then show ?thesis
    proof cases
      case 1
      then show ?thesis using accounted_wake_up [of s c k pk] y True assms(5) by (simp add: phase_of_def)
    next
      case 2
      with assms show ?thesis by (simp add: accounted_def)
    next
      case 3
      have "unheard cx pk ?t"
        unfolding unheard_def using y True silent
        by (intro exI [of _ y] exI [of _ "k\<lparr>cn_inbox := take n (cn_inbox k) @ drop (Suc n) (cn_inbox k)\<rparr>"] exI [of _ w])
          (auto simp: 3 upd_conn_def phase_of_def inbox_of_def split: if_splits)
      with row show ?thesis by (simp add: accounted_def)
    qed
  next
    case False
    obtain a B where d: "discreet cx a B c s ?t" and B: "\<And>v. v \<in> B \<Longrightarrow> asked_about s e c v"
      using step_discreet [OF assms(1,4,3)] by blast
    have "y \<notin> B"
      using B [of y] False silent unfolding asked_about_def by blast
    obtain k' where k': "sk_conns ?t y = Some k'" "cn_checker k' = None" "cn_phase k' = Waiting w" "cn_permission k' = Some pk"
      using grown_fields(4) [OF touchedD(3) [OF t False] y(1)] y by auto
    have key: "c_get (wsx_ops cx) (check_key y) (sk_cache ?t) = None"
      by (rule discreetD(2) [OF d \<open>y \<notin> B\<close> y(5)])
    have "\<not> about y ev" if x: "phase_of ?t x = Some Accepted" and ev: "ev \<in> set (inbox_of ?t x)" for x ev
    proof
      assume ab: "about y ev"
      have "ev \<in> set (inbox_of s x)"
        using discreetD(1) [OF d ev control_about [OF ab]] about_inject [OF ab] \<open>y \<notin> B\<close> by blast
      moreover from this have "sk_conns s x \<noteq> None" by (cases "sk_conns s x") (simp_all add: inbox_of_def)
      then have "phase_of s x = Some Accepted"
        using phase_over [of s x "the (phase_of s x)" e] x by (cases "the (phase_of s x) = Accepted") (auto simp: phase_of_def)
      ultimately show False using silent ab by blast
    qed
    then have "unheard cx pk ?t" unfolding unheard_def using k' key by blast
    with row show ?thesis by (simp add: accounted_def)
  qed
qed

lemma accounted_step:
  assumes "sound cx s" and "accounted cx pk s" and "fair cx pk s e" and "wsx_group_ok cx (permission_group pk)"
  shows "accounted cx pk (socket_step cx e s)"
proof (cases "actor e")
  case None
  then show ?thesis
  proof (cases e)
    case (Wait n)
    have "c_get (wsx_ops cx) k c' = None \<Longrightarrow> c_get (wsx_ops cx) k (c_elapse (wsx_ops cx) (int n) c') = None" for k c'
      using get_elapse [of "int n" k c'] by auto
    then show ?thesis using assms(2) Wait unfolding accounted_def up_def unheard_def
      by (simp add: inbox_of_def phase_of_def) blast
  next
    case (Publish g ev)
    let ?t = "socket_step cx e s"
    have quiet: "discreet cx None {} c s ?t" for c
      using assms(3) by (auto simp: fair_def Publish intro!: discreet_deliver_to)
    have grow: "rel_option grown (sk_conns s x) (sk_conns ?t x)" for x
      by (auto simp: Publish deliver_to_def grown_def option.rel_map intro!: option.rel_refl_strong)
    have "up pk s \<Longrightarrow> up pk ?t" unfolding up_def using grown_fields(4) [OF grow] by metis
    moreover have "unheard cx pk s \<Longrightarrow> unheard cx pk ?t"
      unfolding unheard_def
    proof (elim exE conjE)
      fix y k w assume y: "sk_conns s y = Some k" "cn_permission k = Some pk" "cn_phase k = Waiting w" "cn_checker k = None"
        "c_get (wsx_ops cx) (check_key y) (sk_cache s) = None"
        and silent: "\<forall>x ev. phase_of s x = Some Accepted \<and> ev \<in> set (inbox_of s x) \<longrightarrow> \<not> about y ev"
      have "\<not> about y ev" if "phase_of ?t x = Some Accepted" "ev \<in> set (inbox_of ?t x)" for x ev
        using that silent grown_phase [OF grow, of x] discreetD(1) [OF quiet that(2)] control_about [of y ev] by auto
      moreover obtain k' where "sk_conns ?t y = Some k'" "cn_checker k' = None" "cn_phase k' = Waiting w" "cn_permission k' = Some pk"
        using grown_fields(4) [OF grow y(1)] y by auto
      moreover have "sk_cache ?t = sk_cache s" by (simp add: Publish deliver_to_def)
      ultimately show "\<exists>y k t. sk_conns ?t y = Some k \<and> cn_permission k = Some pk \<and> cn_phase k = Waiting t \<and>
         cn_checker k = None \<and> c_get (wsx_ops cx) (check_key y) (sk_cache ?t) = None \<and>
         (\<forall>x ev. phase_of ?t x = Some Accepted \<and> ev \<in> set (inbox_of ?t x) \<longrightarrow> \<not> about y ev)"
        using y(5) by metis
    qed
    moreover have "sk_world ?t = sk_world s" by (simp add: Publish deliver_to_def)
    ultimately show ?thesis using assms(2) by (auto simp: accounted_def)
  next
    case (Elsewhere f)
    have same: "up pk (socket_step cx e s) = up pk s" "unheard cx pk (socket_step cx e s) = unheard cx pk s"
      by (simp_all add: Elsewhere up_def unheard_def inbox_of_def phase_of_def)
    show ?thesis
      using assms(2,3) unfolding accounted_def same by (auto simp: Elsewhere fair_def up_def)
  qed simp_all
next
  case (Some c)
  let ?t = "socket_step cx e s"
  note t = step_touched [OF Some, of s]
  have row: "status_of (sk_world ?t) pk \<noteq> None"
    by (rule calm_row [OF touchedD(7) [OF t]]) (use assms(2) in \<open>simp add: accounted_def\<close>)
  consider "up pk s" | "status_of (sk_world s) pk = Some ''OFFLINE''" | "unheard cx pk s"
    using assms(2) unfolding accounted_def by blast
  then show ?thesis
  proof cases
    case 1
    then obtain x k where x: "sk_conns s x = Some k" "cn_permission k = Some pk" "cn_phase k \<in> {Accepted, Crashed}"
      unfolding up_def by blast
    show ?thesis
    proof (cases "x = c \<and> e = Hang_Up c \<and> cn_phase k = Accepted")
      case True
      then show ?thesis using accounted_hang_up [OF assms(1,2) x(1) _ x(2) assms(4)] by simp
    next
      case False
      have "\<exists>k'. sk_conns ?t x = Some k' \<and> cn_permission k' = cn_permission k \<and> cn_phase k' \<in> {Accepted, Crashed}"
      proof (cases "x = c")
        case True
        show ?thesis
        proof (cases "e = Hang_Up c")
          case False
          then show ?thesis using own_step_up [OF Some _ x(3)] x(1) True by simp
        next
          case hang: True
          then have "?t = s" using False True x by (auto simp: phase_of_def)
          then show ?thesis using x by simp
        qed
      next
        case False
        from grown_fields(4) [OF touchedD(3) [OF t False] x(1)] x(3) show ?thesis by auto
      qed
      then have "up pk ?t" unfolding up_def using x(2) by auto
      with row show ?thesis by (simp add: accounted_def)
    qed
  next
    case 2
    then have "status_of (sk_world ?t) pk = Some ''OFFLINE''"
      using touchedD(7) [OF t] unfolding status_calm_def by metis
    then show ?thesis by (simp add: accounted_def)
  next
    case 3
    then show ?thesis using unheard_step [OF assms(1) _ assms(3) Some] assms(2) by (simp add: accounted_def)
  qed
qed

end

text \<open>
  The states that fair events reach from a start without connections, where the agent is offline: clients send no
  messages of checks and enter no group of a permission by themselves, and other parts of the program change the status of the
  permission only while the agent has a connection.
\<close>

inductive connected :: "'c ws_env \<Rightarrow> uuid \<Rightarrow> 'c sockets \<Rightarrow> bool" for cx :: "'c ws_env" and pk :: uuid where
  start: "status_of w pk = Some ''OFFLINE'' \<Longrightarrow> (\<And>c. c_get (wsx_ops cx) (check_key c) cache = None) \<Longrightarrow>
    connected cx pk (no_sockets w cache)"
| event: "connected cx pk s \<Longrightarrow> fair cx pk s e \<Longrightarrow> connected cx pk (socket_step cx e s)"

lemma connected_accounted:
  assumes "connection_cache cx left" and "wsx_group_ok cx (permission_group pk)" and "connected cx pk s"
  shows "sound cx s \<and> accounted cx pk s"
  using assms(3)
proof (induction rule: connected.induct)
  case (start w cache)
  then show ?case
    by (simp add: sound_def accounted_def no_sockets_def inbox_of_def)
next
  case (event s e)
  then show ?case
    using connection_cache.sound_step [OF assms(1)] connection_cache.accounted_step [OF assms(1) _ _ _ assms(2)] by blast
qed

text \<open>C37. Whatever fair events follow each other, with the check or without it: when no connection of an agent to a project is
  listening any more, none still waits for answers and none was broken off by an exception, the agent is offline there.\<close>

theorem nobody_left_means_offline:
  assumes "connection_cache cx left" and "wsx_group_ok cx (permission_group pk)" and "connected cx pk s"
    and "\<And>c k. sk_conns s c = Some k \<Longrightarrow> cn_permission k = Some pk \<Longrightarrow> cn_phase k \<in> {Closed, Rejected}"
  shows "status_of (sk_world s) pk = Some ''OFFLINE''"
proof -
  have "\<not> up pk s" unfolding up_def using assms(4) by fastforce
  moreover have "\<not> unheard cx pk s" unfolding unheard_def using assms(4) by fastforce
  ultimately show ?thesis using connected_accounted [OF assms(1-3)] by (simp add: accounted_def)
qed

definition offline_world :: world where
  "offline_world = small_world\<lparr>permissions := [blank_permission\<lparr>prm_status := ''OFFLINE''\<rparr>]\<rparr>"

definition go_online :: "world \<Rightarrow> world" where
  "go_online w = w\<lparr>permissions := update_where (\<lambda>p. prm_uuid p = ''m1'') (\<lambda>p. p\<lparr>prm_status := ''ONLINE''\<rparr>) (permissions w)\<rparr>"

definition one_visit :: "socket_event list" where
  "one_visit = [Connect ''c'' agent_scope, Elsewhere go_online, Hang_Up ''c'', Wait 1, Wake_Up ''c'']"

lemmas offline_simps = set_user_status_def finalize_in_service_if_needed_def log_status_change_def need_def
  send_channels_group.simps permission_notify_user_def delay_def emit_def status_of_def find_permission_pk_def

lemma one_visit_states:
  defines "s1 \<equiv> socket_step two_tabs_env (Connect ''c'' agent_scope) (no_sockets offline_world mem_empty)"
  shows "fair two_tabs_env ''m1'' s1 (Elsewhere go_online)"
    and "status_of (sk_world (fold (socket_step two_tabs_env) [Connect ''c'' agent_scope, Elsewhere go_online]
           (no_sockets offline_world mem_empty))) ''m1'' = Some ''ONLINE''"
    and "sk_conns (fold (socket_step two_tabs_env) one_visit (no_sockets offline_world mem_empty)) x =
      (if x = ''c'' then Some (new_connection\<lparr>cn_user := ''a@x'', cn_project := ''p'', cn_permission := Some ''m1'',
         cn_phase := Closed, cn_added_groups := [''permission_m1'']\<rparr>) else None)"
  by (simp_all add: s1_def fair_def one_visit_def offline_world_def go_online_def socket_run_simps socket_step_simps mem_defs mem_empty_def offline_simps)

theorem nobody_left_means_offline_witness:
  "\<exists>s. s = fold (socket_step two_tabs_env) one_visit (no_sockets offline_world mem_empty) \<and>
     connected two_tabs_env ''m1'' s \<and> status_of (sk_world s) ''m1'' = Some ''OFFLINE''"
proof -
  let ?s0 = "no_sockets offline_world mem_empty" and ?step = "socket_step two_tabs_env"
  have "connected two_tabs_env ''m1'' ?s0"
    by (rule connected.start) (simp_all add: offline_world_def sample_defs status_of_def find_permission_pk_def
        two_tabs_env_def mem_defs mem_empty_def)
  then have "connected two_tabs_env ''m1'' (?step (Connect ''c'' agent_scope) ?s0)"
    by (rule connected.event) (simp add: fair_def)
  then have "connected two_tabs_env ''m1'' (?step (Elsewhere go_online) (?step (Connect ''c'' agent_scope) ?s0))"
    by (rule connected.event) (rule one_visit_states(1))
  then have "connected two_tabs_env ''m1'' (?step (Hang_Up ''c'') (?step (Elsewhere go_online) (?step (Connect ''c'' agent_scope) ?s0)))"
    by (rule connected.event) (simp add: fair_def)
  then have "connected two_tabs_env ''m1'' (?step (Wait 1) (?step (Hang_Up ''c'') (?step (Elsewhere go_online)
      (?step (Connect ''c'' agent_scope) ?s0))))"
    by (rule connected.event) (simp add: fair_def)
  then have "connected two_tabs_env ''m1'' (?step (Wake_Up ''c'') (?step (Wait 1) (?step (Hang_Up ''c'') (?step (Elsewhere go_online)
      (?step (Connect ''c'' agent_scope) ?s0)))))"
    by (rule connected.event) (simp add: fair_def)
  then have reach: "connected two_tabs_env ''m1'' (fold ?step one_visit ?s0)"
    unfolding one_visit_def by (simp only: fold.simps comp_apply id_apply)
  have "status_of (sk_world (fold ?step one_visit ?s0)) ''m1'' = Some ''OFFLINE''"
    by (rule nobody_left_means_offline [OF two_tabs.connection_cache_axioms _ reach])
      (simp add: two_tabs_env_def, unfold one_visit_states(3), auto split: if_splits)
  with reach show ?thesis by blast
qed

section \<open>Where the consumers let the agent down\<close>

definition unchecked_env :: "mem_cache ws_env" where
  "unchecked_env = two_tabs_env\<lparr>wsx_check := False\<rparr>"

text \<open>
  Without the check, which is off by default, the end of any connection ends the agent: of a second tab, of a manager who
  looked at the queue of the agent, and of a handshake of the agent at the socket of managers, which was refused.
\<close>

definition manager_scope :: "email \<Rightarrow> scope" where
  "manager_scope u = \<lparr>sc_user = Some u, sc_project = Some ''p'', sc_manager = True, sc_user_email = Some ''a@x''\<rparr>"

definition watched_world :: world where
  "watched_world = small_world\<lparr>permissions := [blank_permission,
     blank_permission\<lparr>prm_uuid := ''m2'', prm_user := Some ''b@x'', prm_role := 1\<rparr>]\<rparr>"

lemmas manager_simps = unchecked_env_def manager_scope_def watched_world_def connect_manager_def is_manager_any_sector_def

lemma watching_manager_ends_agent:
  assumes "s = fold (socket_step unchecked_env)
    [Connect ''c'' agent_scope, Connect ''w'' (manager_scope ''b@x''), Hang_Up ''w''] (no_sockets watched_world mem_empty)"
  shows "phase_of s ''c'' = Some Accepted" "status_of (sk_world s) ''m1'' = Some ''OFFLINE''"
  by (simp_all add: assms manager_simps socket_run_simps socket_step_simps offline_simps)

lemma refused_handshake_ends_agent:
  assumes "s = fold (socket_step unchecked_env)
    [Connect ''c'' agent_scope, Connect ''w'' (manager_scope ''a@x''), Hang_Up ''w''] (no_sockets small_world mem_empty)"
  shows "phase_of s ''c'' = Some Accepted" "status_of (sk_world s) ''m1'' = Some ''OFFLINE''"
  by (simp_all add: assms manager_simps socket_run_simps socket_step_simps offline_simps)

text \<open>The ping timeout of one connection ends the agent without asking the others, even with the check.\<close>

definition pinged_env :: "mem_cache ws_env" where
  "pinged_env = two_tabs_env\<lparr>wsx_env := calm_env\<lparr>flag_attr := (\<lambda>_ _. Some True)\<rparr>\<rparr>"

lemma silent_tab_ends_agent:
  assumes "s = fold (socket_step pinged_env)
    [Connect ''c'' agent_scope, Connect ''d'' agent_scope, Wait 61, Receive ''d'' (JObj [(''type'', JStr ''ping'')]), Check_Ping ''c'']
    (no_sockets small_world mem_empty)"
  shows "phase_of s ''d'' = Some Accepted" "map_option cn_last_ping (sk_conns s ''d'') = Some (sk_now s)"
    "status_of (sk_world s) ''m1'' = Some ''OFFLINE''"
  by (simp_all add: assms pinged_env_def socket_run_simps socket_step_simps offline_simps checker_round_def receive_json_def
      send_json_def maybe_update_last_seen_def update_last_seen_db_def micros_def)

text \<open>A frame the code does not expect breaks the consumer off: the agent stays online without a connection.\<close>

lemma broken_off_stays_online:
  assumes "s = fold (socket_step two_tabs_env)
    [Connect ''c'' agent_scope, Receive ''c'' (JObj [(''type'', JStr ''notify''), (''content'', JObj [])])]
    (no_sockets small_world mem_empty)"
  shows "phase_of s ''c'' = Some Crashed" "status_of (sk_world s) ''m1'' = Some ''ONLINE''"
  by (simp_all add: assms socket_run_simps socket_step_simps offline_simps receive_json_def rooms_in_def)

text \<open>An event of a room that cannot be looked up, or names none, is dropped: \<open>send_json\<close> is not awaited.\<close>

lemma room_event_dropped:
  assumes "sk_conns s c = Some k" and "map_of ev ''action'' = Some (JStr a)" and "contains ''rooms.'' a" and "a \<noteq> ''rooms.inactivity''"
    and "a \<noteq> ''connection_check''" and "a \<noteq> ''connection_check_response''"
    and "map_of ev ''content'' = Some (JObj kvs)" and "map_of kvs ''uuid'' = Some (JStr u)" and "find_room (sk_world s) u = None"
  shows "notify cx c ev s = (Inr (), s)"
  using assms
  by (simp add: notify_def action_of_def obj_get_def rooms_in_def send_room_event_def conn_def get_has_history_by_room_uuid_def
      in_db_def need_def f_text_def py_defs)

text \<open>
  \<open>finalize_in_service_if_needed\<close> runs after the status was switched off and tests for \<open>ONLINE\<close>: the In-Service
  status of an agent who leaves is never ended.
\<close>

lemma find_filter_update:
  assumes "\<And>x. P (f x) = P x" and "\<And>x. Q (f x) = Q x"
  shows "find Q (filter P (update_where R f xs)) = map_option (\<lambda>x. if R x then f x else x) (find Q (filter P xs))"
  using assms by (induction xs) auto

lemma leaving_keeps_in_service:
  assumes "project_get_permission (sk_world s) (cn_project k) (Some (cn_user k)) = Some p" and "prm_uuid p = pk"
  shows "statuses (sk_world (snd (go_offline cx k pk s))) = statuses (sk_world s)"
proof -
  have "p \<in> set (permissions (sk_world s))"
    using assms(1) by (auto simp: project_get_permission_def dest: find_in_set)
  then obtain q where q: "find_permission_pk (sk_world s) pk = Some q"
    using assms(2) by (cases "find_permission_pk (sk_world s) pk") (auto simp: find_permission_pk_def find_None_iff)
  let ?w = "(sk_world s)\<lparr>permissions := update_where (\<lambda>p. prm_uuid p = pk) (\<lambda>p. p\<lparr>prm_status := ''OFFLINE''\<rparr>)
      (permissions (sk_world s))\<rparr>"
  let ?env = "(wsx_env cx)\<lparr>env_now := micros (sk_now s)\<rparr>"
  obtain es where es: "permission_notify_user ?env pk ''update'' ?w = (Inr (), ?w\<lparr>effects := es\<rparr>)"
    unfolding permission_notify_user_def using send_channels_group_effects by blast
  have off: "project_get_permission (?w\<lparr>effects := es\<rparr>) (cn_project k) (Some (cn_user k)) = Some (p\<lparr>prm_status := ''OFFLINE''\<rparr>)"
    using assms by (simp add: project_get_permission_def find_filter_update)
  show ?thesis
    using q es off
    by (simp add: go_offline_def set_user_status_def finalize_in_service_if_needed_def log_status_change_def in_db_def need_def
        bnd_def [of "need _ _"] run_modify py_defs delay_def emit_def)
qed

end
