(* ===== verification/Agent_Status.thy ===== *)
theory Agent_Status
  imports Agent_Connections
begin

text \<open>
  The requests by which agents go online and offline, take breaks and end them, and by which an
  administrator disconnects an agent: \<open>status\<close> of \<open>api/v1/internal/projects/viewsets.py\<close>,
  \<open>CustomStatusViewSet\<close> of \<open>api/v1/projects/viewsets.py\<close> and \<open>api/v1/internal/agents\<close>.

  \<^item> \<^bold>\<open>Answers.\<close> A \<open>Response\<close> is the pair of its code and its text; an exception that leaves the view is
    \<open>Inl\<close>. The permission class of the view set of statuses fails on every single status, so its generic updates and
    deletions never run; \<open>close_status\<close> looks its status up itself and asks no permission. Conversions between
    zones do not change the length of a status and are left out.
  \<^item> \<^bold>\<open>Arguments.\<close> \<open>route_sector\<close> is the task \<open>route_sector_rooms\<close> run in place when Celery is off,
    \<open>write_disconnect_log\<close> the task of the audit row, \<open>known\<close> says which emails have a user.
  \<^item> \<^bold>\<open>Saves of a permission.\<close> \<open>instance.save()\<close> writes back the columns it has read; without another
    transaction in between that is a write of the status.
\<close>

section \<open>Helpers\<close>

definition same_agent :: "email option \<Rightarrow> uuid \<Rightarrow> permission \<Rightarrow> bool" where
  "same_agent u p x \<longleftrightarrow> prm_user x = u \<and> prm_project x = p"

definition get_project_permission :: "exn \<Rightarrow> email option \<Rightarrow> uuid \<Rightarrow> (world, permission) py" where
  "get_project_permission e u p =
     bnd (gets (\<lambda>w. filter (same_agent u p) (live_permissions w))) (\<lambda>found.
     case found of [] \<Rightarrow> raise e | [x] \<Rightarrow> ret x | _ \<Rightarrow> raise MultipleObjectsReturned)"

definition set_presence :: "uuid \<Rightarrow> string \<Rightarrow> (world, unit) py" where
  "set_presence pk st = modify (\<lambda>w. w\<lparr>permissions :=
     update_where (\<lambda>x. prm_uuid x = pk) (\<lambda>x. x\<lparr>prm_status := st\<rparr>) (permissions w)\<rparr>)"

text \<open>\<open>ProjectPermission.objects.filter(user=..., project=...).update(status=...)\<close>, which must hit a row.\<close>

definition update_presence :: "email option \<Rightarrow> uuid \<Rightarrow> string \<Rightarrow> (world, unit) py" where
  "update_presence u p st =
     bnd (gets (\<lambda>w. filter (same_agent u p) (live_permissions w))) (\<lambda>rows.
     if rows = [] then raise (ValidationError ''Can not update user status in project.'')
     else modify (\<lambda>w. w\<lparr>permissions := update_where
            (\<lambda>x. same_agent u p x \<and> \<not> prm_is_deleted x \<and> prm_user x \<noteq> None)
            (\<lambda>x. x\<lparr>prm_status := st\<rparr>) (permissions w)\<rparr>))"

text \<open>\<open>.exclude(status_type__name__iexact="in-service")\<close>.\<close>

definition is_break :: "world \<Rightarrow> custom_status \<Rightarrow> bool" where
  "is_break w c = (case find_status_type w (cus_status_type c) of
     None \<Rightarrow> True | Some t \<Rightarrow> \<not> iequal (cst_name t) ''in-service'')"

definition active_breaks :: "world \<Rightarrow> email \<Rightarrow> uuid \<Rightarrow> custom_status list" where
  "active_breaks w u p = filter (\<lambda>c. cus_user c = Some u \<and> cus_project c = Some p
     \<and> cus_is_active c \<and> is_break w c) (statuses w)"

definition log_report :: "env \<Rightarrow> email option \<Rightarrow> uuid \<Rightarrow> string \<Rightarrow> string list \<Rightarrow> (world, unit) py" where
  "log_report env u p st extra = bnd (case u of None \<Rightarrow> raise AttributeError | Some x \<Rightarrow> ret x) (\<lambda>x.
     delay env ''log_agent_status_change'' ([x, p, st] @ extra))"

text \<open>\<open>start_queue_priority_routing_for_all_queues_in_project\<close>.\<close>

definition sectors_to_route :: "world \<Rightarrow> uuid \<Rightarrow> uuid list" where
  "sectors_to_route w p = remdups (map que_sector
     (filter (\<lambda>q. map_option sec_project (find_sector w (que_sector q)) = Some p) (live_queues w)))"

definition route_project :: "env \<Rightarrow> (uuid \<Rightarrow> (world, unit) py) \<Rightarrow> uuid \<Rightarrow> (world, unit) py" where
  "route_project env route_sector p =
     bnd (need (DoesNotExist ''Project'') (\<lambda>w. find_project w p)) (\<lambda>prj.
     if \<not> use_queue_priority_routing prj then ret ()
     else bnd (gets (\<lambda>w. sectors_to_route w p)) (for_each (\<lambda>k.
       if set_use_celery env then delay env ''route_sector_rooms'' [k] else route_sector k)))"

section \<open>Online and offline\<close>

definition status_online :: "env \<Rightarrow> permission \<Rightarrow> email \<Rightarrow> (world, unit) py" where
  "status_online env inst u = (let p = prm_project inst in
     bnd (gets (\<lambda>w. active_breaks w u p)) (\<lambda>active_custom_statuses.
     andthen (for_each (end_status env) active_custom_statuses)
    (andthen (set_presence (prm_uuid inst) ''ONLINE'')
    (andthen (log_report env (Some u) p ''ONLINE'' [])
    (bnd (gets (\<lambda>w. active_room_count w u (Some p))) (\<lambda>room_count.
     bnd (has_priority_status u (Project_Obj p)) (\<lambda>has_other_priority.
     when_true (room_count > 0 \<and> \<not> has_other_priority)
       (bnd (get_or_create_status_type (Project_Obj p)) (\<lambda>t.
        bnd (gets (\<lambda>w. in_service_status w u t (Some p))) (\<lambda>existing.
        when_true (existing = None) (custom_status_create env (Some u) t)))))))))))"

definition end_in_service :: "env \<Rightarrow> email \<Rightarrow> uuid \<Rightarrow> (world, unit) py" where
  "end_in_service env u p =
     bnd (get_or_create_status_type (Project_Obj p)) (\<lambda>t.
     bnd (gets (\<lambda>w. in_service_status w u t (Some p))) (\<lambda>in_service.
     case in_service of None \<Rightarrow> ret () | Some c \<Rightarrow> end_status env c))"

definition status_offline :: "env \<Rightarrow> permission \<Rightarrow> email \<Rightarrow> (world, unit) py" where
  "status_offline env inst u =
     andthen (set_presence (prm_uuid inst) ''OFFLINE'')
    (andthen (log_report env (Some u) (prm_project inst) ''OFFLINE'' [])
       (end_in_service env u (prm_project inst)))"

definition status_request ::
  "env \<Rightarrow> (uuid \<Rightarrow> (world, unit) py) \<Rightarrow> email \<Rightarrow> uuid \<Rightarrow> string option \<Rightarrow> (world, nat \<times> string) py" where
  "status_request env route_sector u p user_status =
     bnd (get_project_permission (APIException ''Not found'') (Some u) p) (\<lambda>inst.
     case user_status of None \<Rightarrow> ret (200, prm_status inst)
     | Some st \<Rightarrow>
         bnd (if iequal st ''online'' then andthen (status_online env inst u) (ret ''ONLINE'')
              else if iequal st ''offline'' then andthen (status_offline env inst u) (ret ''OFFLINE'')
              else ret (prm_status inst)) (\<lambda>connection_status.
         andthen (permission_notify_user env (prm_uuid inst) ''update'')
        (andthen (route_project env route_sector p) (ret (200, connection_status)))))"

section \<open>Breaks\<close>

definition perform_create_status ::
  "env \<Rightarrow> email \<Rightarrow> custom_status_type \<Rightarrow> bool \<Rightarrow> int \<Rightarrow> (world, unit) py" where
  "perform_create_status env u t is_active break_time = (let p = cst_project t in atomic (
     andthen (update_presence (Some u) p ''OFFLINE'')
    (andthen (end_in_service env u p)
    (andthen (bnd new_id (\<lambda>pk. custom_status_save True
        \<lparr>cus_id = pk, cus_created_on = env_now env, cus_user = Some u, cus_status_type = cst_uuid t,
         cus_is_active = is_active, cus_break_time = break_time, cus_project = None\<rparr>))
       (log_report env (Some u) p ''OFFLINE'' [cst_name t])))))"

text \<open>\<open>create\<close>: the serializer looks the type up before \<open>perform_create\<close> runs.\<close>

definition create_status :: "env \<Rightarrow> email \<Rightarrow> nat \<Rightarrow> bool \<Rightarrow> int \<Rightarrow> (world, nat \<times> string) py" where
  "create_status env u k is_active break_time =
     bnd (need (ValidationError ''status_type'') (\<lambda>w. find_status_type w k)) (\<lambda>t.
     andthen (perform_create_status env u t is_active break_time) (ret (201, [])))"

definition last_active :: "world \<Rightarrow> email option \<Rightarrow> uuid \<Rightarrow> custom_status option" where
  "last_active w u p =
     (case sort_key (\<lambda>c. - cus_created_on c) (filter (\<lambda>c. cus_user c = u \<and> cus_is_active c
         \<and> map_option cst_project (find_status_type w (cus_status_type c)) = Some p) (statuses w)) of
        [] \<Rightarrow> None | c # _ \<Rightarrow> Some c)"

text \<open>A status without a user ends in \<open>DoesNotExist\<close> at the permission, and nothing is kept.\<close>

definition close_body :: "env \<Rightarrow> custom_status \<Rightarrow> uuid \<Rightarrow> bool \<Rightarrow> (world, unit) py" where
  "close_body env c p is_active =
     andthen (when_true is_active (andthen (update_presence (cus_user c) p ''ONLINE'')
                                           (log_report env (cus_user c) p ''ONLINE'' [])))
    (andthen (end_status env c)
    (bnd (case cus_user c of None \<Rightarrow> raise (DoesNotExist ''ProjectPermission'') | Some u \<Rightarrow> ret u) (\<lambda>u.
     bnd (gets (\<lambda>w. active_room_count w u (Some p))) (\<lambda>room_count.
     bnd (has_priority_status u (Project_Obj p)) (\<lambda>has_other_priority.
     bnd (get_project_permission (DoesNotExist ''ProjectPermission'') (Some u) p) (\<lambda>x.
     when_true (room_count > 0 \<and> \<not> has_other_priority \<and> prm_status x = ''ONLINE'')
       (bnd (get_or_create_status_type (Project_Obj p)) (custom_status_create env (Some u)))))))))"

definition close_status ::
  "env \<Rightarrow> (uuid \<Rightarrow> (world, unit) py) \<Rightarrow> nat \<Rightarrow> bool \<Rightarrow> (world, nat \<times> string) py" where
  "close_status env route_sector pk is_active =
     bnd (gets (\<lambda>w. find (\<lambda>c. cus_id c = pk) (statuses w))) (\<lambda>found.
     case found of None \<Rightarrow> ret (404, ''Custom Status not found.'')
     | Some c \<Rightarrow>
         bnd (need (DoesNotExist ''CustomStatusType'') (\<lambda>w. find_status_type w (cus_status_type c))) (\<lambda>t.
         bnd (gets (\<lambda>w. last_active w (cus_user c) (cst_project t))) (\<lambda>latest.
         if latest \<noteq> None \<and> map_option cus_id latest \<noteq> Some (cus_id c)
         then ret (400, ''not the last active status'')
         else andthen (route_project env route_sector (cst_project t))
             (andthen (atomic (close_body env c (cst_project t) is_active))
                (ret (200, ''CustomStatus updated successfully.''))))))"

section \<open>Disconnection by an administrator\<close>

definition validate_agent_disconnect ::
  "(email \<Rightarrow> bool) \<Rightarrow> email \<Rightarrow> uuid \<Rightarrow> email \<Rightarrow> (world, permission) py" where
  "validate_agent_disconnect known requester p agent =
     (if p = [] \<or> agent = [] then raise (APIException ''Required fields not found'')
      else bnd (need (APIException ''Project not found'') (\<lambda>w. find_project w p)) (\<lambda>_.
        if \<not> known agent then raise (APIException ''Agent not found'')
        else bnd (get_project_permission (PermissionDenied ''Not allowed on this project'') (Some requester) p) (\<lambda>r.
          if prm_role r \<noteq> 1 then raise (PermissionDenied ''Not allowed'')
          else bnd (get_project_permission (APIException ''Agent permission not found'') (Some agent) p) (\<lambda>x.
            bnd (gets (\<lambda>w. current_status w agent p)) (\<lambda>active.
            if prm_status x = ''OFFLINE'' \<and> active = []
            then raise (ValidationError ''User already disconnected'') else ret x)))))"

text \<open>
  \<open>custom_status.save(update_fields=["break_time"])\<close> of an instance read before the update: it
  still reads as active, so \<open>save\<close> deactivates the other statuses of the agent first.
\<close>

definition save_break_time :: "env \<Rightarrow> custom_status \<Rightarrow> (world, unit) py" where
  "save_break_time env c =
     bnd (need (DoesNotExist ''CustomStatusType'') (\<lambda>w. find_status_type w (cus_status_type c))) (\<lambda>t.
     let b = trunc_seconds (env_now env - cus_created_on c) in atomic (andthen
       (when_true (cus_is_active c \<and> cus_user c \<noteq> None) (modify (\<lambda>w. w\<lparr>statuses := update_where
          (\<lambda>x. cus_user x = cus_user c \<and> cus_project x = Some (cst_project t) \<and> cus_is_active x
               \<and> cus_id x \<noteq> cus_id c) (\<lambda>x. x\<lparr>cus_is_active := False\<rparr>) (statuses w)\<rparr>)))
       (if b < 0 then raise (IntegrityError ''break_time'')
        else modify (\<lambda>w. w\<lparr>statuses := update_where (\<lambda>x. cus_id x = cus_id c)
               (\<lambda>x. x\<lparr>cus_break_time := b\<rparr>) (statuses w)\<rparr>))))"

definition breaks_to_close :: "world \<Rightarrow> email \<Rightarrow> uuid \<Rightarrow> custom_status list" where
  "breaks_to_close w u p = filter (\<lambda>c. cus_user c = Some u \<and> cus_project c = Some p \<and> cus_is_active c
     \<and> (case find_status_type w (cus_status_type c) of None \<Rightarrow> False
        | Some t \<Rightarrow> \<not> created_by_system t)) (statuses w)"

definition disconnect_body :: "env \<Rightarrow> permission \<Rightarrow> email \<Rightarrow> uuid \<Rightarrow> (world, string) py" where
  "disconnect_body env x agent p =
     bnd (gets (\<lambda>w. breaks_to_close w agent p)) (\<lambda>cs.
     andthen (modify (\<lambda>w. w\<lparr>statuses := update_where (\<lambda>c. cus_id c \<in> cus_id ` set cs)
                            (\<lambda>c. c\<lparr>cus_is_active := False\<rparr>) (statuses w)\<rparr>))
    (andthen (for_each (save_break_time env) cs)
     (if cs \<noteq> [] then ret ''custom_status.close''
      else andthen (when_true (prm_status x \<noteq> ''OFFLINE'') (set_presence (prm_uuid x) ''OFFLINE''))
             (ret ''status.close''))))"

definition agent_disconnect ::
  "env \<Rightarrow> (email \<Rightarrow> bool) \<Rightarrow> (uuid \<Rightarrow> email \<Rightarrow> email \<Rightarrow> (world, unit) py) \<Rightarrow> email \<Rightarrow> uuid \<Rightarrow> email
     \<Rightarrow> (world, nat \<times> string) py" where
  "agent_disconnect env known write_disconnect_log requester p agent =
     bnd (validate_agent_disconnect known requester p agent) (\<lambda>x.
     bnd (atomic (disconnect_body env x agent p)) (\<lambda>act.
     andthen (send_channels_group env (permission_group (prm_uuid x)) ''notify'' act (set_ws_retries env))
    (andthen (if set_use_celery env then delay env ''create_agent_disconnect_log'' [p, agent, requester]
              else write_disconnect_log p agent requester)
       (ret (200, [])))))"

section \<open>Breaks and presence\<close>

text \<open>
  \<open>tidy\<close>: the status tables are well formed and every status carries the project of its type, as
  \<open>CustomStatus.save\<close> writes it. \<open>breaks\<close> are the active statuses other than In-Service.
\<close>

definition tidy :: "world \<Rightarrow> bool" where
  "tidy w \<longleftrightarrow> wf_status w \<and> (\<forall>c\<in>set (statuses w). \<exists>t.
     find_status_type w (cus_status_type c) = Some t \<and> cus_project c = Some (cst_project t))"

definition breaks :: "world \<Rightarrow> (email option \<times> uuid option \<times> nat) set" where
  "breaks w = {(cus_user c, cus_project c, cus_id c) | c.
     c \<in> set (statuses w) \<and> cus_is_active c \<and> is_break w c}"

definition online_now :: "world \<Rightarrow> (email option \<times> uuid) set" where
  "online_now w = {(prm_user x, prm_project x) | x.
     x \<in> set (live_permissions w) \<and> prm_status x = ''ONLINE''}"

definition permission_key :: "permission \<Rightarrow> uuid \<times> email option \<times> uuid \<times> bool" where
  "permission_key x = (prm_uuid x, prm_user x, prm_project x, prm_is_deleted x)"

text \<open>Steps that start no break, bring nobody online and leave the permissions apart from their status.\<close>

definition quiet :: "world \<Rightarrow> world \<Rightarrow> bool" where
  "quiet s t \<longleftrightarrow> set (status_types s) \<subseteq> set (status_types t) \<and> online_now t \<subseteq> online_now s
     \<and> map permission_key (permissions t) = map permission_key (permissions s)
     \<and> (tidy s \<longrightarrow> tidy t \<and> breaks t \<subseteq> breaks s)"

lemma tidy_effects [simp]:
  "tidy (w\<lparr>effects := es\<rparr>) = tidy w" "breaks (w\<lparr>effects := es\<rparr>) = breaks w"
  "online_now (w\<lparr>effects := es\<rparr>) = online_now w"
  by (simp_all add: tidy_def breaks_def online_now_def is_break_def find_status_type_def)

lemma tidy_permissions [simp]:
  "tidy (w\<lparr>permissions := xs\<rparr>) = tidy w" "breaks (w\<lparr>permissions := xs\<rparr>) = breaks w"
  by (simp_all add: tidy_def breaks_def is_break_def find_status_type_def wf_status_def)

interpretation quiet: world_order quiet
  by unfold_locales (auto simp: quiet_def)

lemma find_status_type_grows:
  assumes "wf_status s" "wf_status t" "set (status_types s) \<subseteq> set (status_types t)"
    and "find_status_type s k = Some x"
  shows "find_status_type t k = Some x"
proof -
  have "x \<in> set (status_types s)" "cst_uuid x = k"
    using assms(4) by (auto simp: find_status_type_def find_Some_iff)
  then show ?thesis using find_status_type_unique[OF assms(2)] assms(3) by blast
qed

text \<open>Two forms of writing the statuses: changing rows without activating any, and adding rows.\<close>

lemma quiet_update:
  assumes t: "t = s\<lparr>statuses := update_where q f (statuses s)\<rparr>"
    and f: "\<And>c. cus_id (f c) = cus_id c \<and> cus_user (f c) = cus_user c \<and> cus_project (f c) = cus_project c
              \<and> cus_status_type (f c) = cus_status_type c \<and> (cus_is_active (f c) \<longrightarrow> cus_is_active c)"
  shows "quiet s t"
proof -
  have types: "status_types t = status_types s" "next_id t = next_id s" "permissions t = permissions s"
    by (simp_all add: t)
  have found: "find_status_type t = find_status_type s" by (simp add: find_status_type_def types fun_eq_iff)
  have ids: "map cus_id (statuses t) = map cus_id (statuses s)"
    using f by (simp add: t map_update_where)
  have row: "\<exists>c\<in>set (statuses s). cus_id d = cus_id c \<and> cus_user d = cus_user c \<and> cus_project d = cus_project c
      \<and> cus_status_type d = cus_status_type c \<and> (cus_is_active d \<longrightarrow> cus_is_active c)"
    if "d \<in> set (statuses t)" for d
    using that f by (auto simp: t set_update_where)
  have wf: "wf_status t" if w: "wf_status s"
  proof -
    have "distinct (map (\<lambda>c. (cus_user c, cus_project c))
        (filter (\<lambda>c. cus_is_active c \<and> cus_user c \<noteq> None) (statuses t)))"
      unfolding t using w f by (simp add: wf_status_def) (rule distinct_filter_update, auto)
    moreover have "\<forall>d\<in>set (statuses t). cus_id d < next_id t"
      using row w types(2) by (fastforce simp: wf_status_def)
    ultimately show ?thesis using w by (simp add: wf_status_def ids types)
  qed
  have "tidy t" if "tidy s"
    using that wf row unfolding tidy_def found by metis
  moreover have "breaks t \<subseteq> breaks s"
  proof
    fix x assume "x \<in> breaks t"
    then obtain d where d: "d \<in> set (statuses t)" "cus_is_active d" "is_break t d"
      "x = (cus_user d, cus_project d, cus_id d)" by (auto simp: breaks_def)
    from row[OF d(1)] obtain c where "c \<in> set (statuses s)" "cus_is_active c"
      "x = (cus_user c, cus_project c, cus_id c)" "is_break s c"
      using d by (auto simp: is_break_def found)
    then show "x \<in> breaks s" by (auto simp: breaks_def)
  qed
  ultimately show ?thesis by (auto simp: quiet_def types online_now_def)
qed

lemma quiet_types:
  assumes "wf_status s \<Longrightarrow> wf_status t" "statuses t = statuses s" "permissions t = permissions s"
    and "set (status_types s) \<subseteq> set (status_types t)"
  shows "quiet s t"
proof -
  have "tidy t \<and> breaks t \<subseteq> breaks s" if tidy: "tidy s"
  proof -
    have wf: "wf_status s" "wf_status t" using tidy assms(1) by (auto simp: tidy_def)
    have type: "\<exists>x. find_status_type s (cus_status_type c) = Some x \<and> find_status_type t (cus_status_type c) = Some x
        \<and> cus_project c = Some (cst_project x)" if "c \<in> set (statuses s)" for c
      using tidy that find_status_type_grows[OF wf assms(4)] by (fastforce simp: tidy_def)
    have "is_break t c = is_break s c" if "c \<in> set (statuses s)" for c
      using type[OF that] by (auto simp: is_break_def)
    moreover have "tidy t" using type wf(2) unfolding tidy_def assms(2) by metis
    ultimately show ?thesis using assms(2) by (auto simp: breaks_def)
  qed
  then show ?thesis using assms(3,4) by (simp add: quiet_def online_now_def)
qed

section \<open>Which steps are quiet\<close>

lemma quiet_end_status: "keeps quiet (end_status env c)"
proof (rule keepsI)
  fix w
  define g where "g = (\<lambda>x :: custom_status. x\<lparr>cus_is_active := False,
     cus_break_time := trunc_seconds (env_now env - cus_created_on c)\<rparr>)"
  have "snd (end_status env c w) = w \<or>
      snd (end_status env c w) = w\<lparr>statuses := update_where (\<lambda>x. cus_id x = cus_id c) g (statuses w)\<rparr>
      \<or> snd (end_status env c w) = rollback w w"
    by (auto simp: end_status_def custom_status_save_def need_def py_defs atomic_def write_status_def
        when_true_def g_def Let_def split: option.splits)
  moreover have "quiet w (w\<lparr>statuses := update_where (\<lambda>x. cus_id x = cus_id c) g (statuses w)\<rparr>)"
    by (rule quiet_update[OF refl]) (simp add: g_def)
  ultimately show "quiet w (snd (end_status env c w))" by (auto simp: quiet.R_refl quiet.R_rollback)
qed

lemma quiet_type_create: "keeps quiet (custom_status_type_create nm p c)"
proof (rule keepsI)
  fix w
  have "wf_status w \<Longrightarrow> wf_status (snd (custom_status_type_create nm p c w))"
    using keeps_custom_status_type_create[of nm p c] by (simp add: keeps_def keeps_wf_status_def)
  then show "quiet w (snd (custom_status_type_create nm p c w))"
    by (rule quiet_types)
       (auto simp: custom_status_type_create_def new_id_def py_defs custom_status_type_save_def Let_def)
qed

lemmas quiet_rules = quiet.keeps_world quiet_end_status quiet_type_create

lemma quiet_get_or_create: "keeps quiet (get_or_create_status_type prj)"
  unfolding get_or_create_status_type_def
  by (cases prj) (auto intro!: quiet_rules split: list.split)

lemma quiet_has_priority: "keeps quiet (has_priority_status u prj)"
  unfolding has_priority_status_def by (intro quiet_rules quiet_get_or_create)

text \<open>
  \<open>with_type t\<close>: steps that are quiet once \<open>t\<close> is the In-Service type of the table, as
  \<open>get_or_create_status_type\<close> returns it.
\<close>

definition with_type :: "custom_status_type \<Rightarrow> world \<Rightarrow> world \<Rightarrow> bool" where
  "with_type t s s' \<longleftrightarrow> (t \<in> set (status_types s) \<and> cst_name t = STATUS_NAME \<longrightarrow> quiet s s')"

interpretation with_type: world_order "with_type t" for t
proof
  show "with_type t s s" for s by (simp add: with_type_def quiet.R_refl)
  show "with_type t s u" if a: "with_type t s v" "with_type t v u" for s v u
    unfolding with_type_def
  proof
    assume t: "t \<in> set (status_types s) \<and> cst_name t = STATUS_NAME"
    then have one: "quiet s v" using a(1) by (simp add: with_type_def)
    then have "t \<in> set (status_types v)" using t unfolding quiet_def by (blast dest: subsetD)
    then have "quiet v u" using a(2) t by (simp add: with_type_def)
    with one show "quiet s u" by (rule quiet.R_trans)
  qed
  show "with_type t s (s\<lparr>effects := es\<rparr>)" for s es by (simp add: with_type_def quiet.R_effects)
qed

lemma with_typeI: "keeps quiet m \<Longrightarrow> keeps (with_type t) m"
  by (erule keeps_mono) (simp add: with_type_def)

lemma get_or_create_named:
  "get_or_create_status_type prj w = (Inr t, w') \<Longrightarrow> t \<in> set (status_types w') \<and> cst_name t = STATUS_NAME"
  by (cases prj)
     (auto simp: get_or_create_status_type_def py_defs atomic_def custom_status_type_create_def new_id_def
        custom_status_type_save_def Let_def split: list.splits if_splits dest: filter_head)

lemma quiet_with_type:
  assumes "\<And>t. keeps (with_type t) (f t)"
  shows "keeps quiet (bnd (get_or_create_status_type prj) f)"
proof (rule keepsI)
  fix w
  obtain r w' where run: "get_or_create_status_type prj w = (r, w')" by fastforce
  have one: "quiet w w'" using keepsD[OF quiet_get_or_create run] .
  show "quiet w (snd (bnd (get_or_create_status_type prj) f w))"
  proof (cases r)
    case (Inl e)
    then show ?thesis using one run by (simp add: bnd_def)
  next
    case (Inr t)
    then have "quiet w' (snd (f t w'))"
      using assms[of t] get_or_create_named run by (auto simp: keeps_def with_type_def)
    then show ?thesis using Inr one run quiet.R_trans by (auto simp: bnd_def)
  qed
qed

lemma iequal_in_service: "iequal STATUS_NAME ''in-service''"
  by code_simp

lemma quiet_create: "keeps (with_type t) (custom_status_create env u t)"
proof (rule keepsI)
  fix w
  show "with_type t w (snd (custom_status_create env u t w))"
    unfolding with_type_def
  proof (intro impI, elim conjE)
    assume t: "t \<in> set (status_types w)" "cst_name t = STATUS_NAME"
    define w1 where "w1 = w\<lparr>next_id := Suc (next_id w)\<rparr>"
    define old where "old = update_where (\<lambda>x. cus_user x = u \<and> cus_project x = Some (cst_project t)
       \<and> cus_is_active x \<and> cus_id x \<noteq> next_id w) (\<lambda>x. x\<lparr>cus_is_active := False\<rparr>) (statuses w)"
    define new where "new = \<lparr>cus_id = next_id w, cus_created_on = env_now env, cus_user = u,
       cus_status_type = cst_uuid t, cus_is_active = True, cus_break_time = 0, cus_project = Some (cst_project t)\<rparr>"
    define w2 where "w2 = w\<lparr>statuses := (if u = None then statuses w else old)\<rparr>"
    have quiet2: "quiet w w2"
      unfolding w2_def old_def
      by (cases u) (auto intro: quiet.R_refl quiet_update)
    show "quiet w (snd (custom_status_create env u t w))"
    proof (cases "tidy w")
      case False
      then show ?thesis
        by (auto simp: quiet_def custom_status_create_def custom_status_save_def write_status_def new_id_def
            need_def py_defs atomic_def rollback_def when_true_def Let_def online_now_def split: option.splits)
    next
      case True
      then have wf: "wf_status w" by (simp add: tidy_def)
      have found: "find_status_type w (cst_uuid t) = Some t" using find_status_type_unique wf t by blast
      have run: "snd (custom_status_create env u t w) = w2\<lparr>next_id := Suc (next_id w), statuses := statuses w2 @ [new]\<rparr>"
        using found
        by (auto simp: custom_status_create_def custom_status_save_def write_status_def new_id_def need_def
            py_defs atomic_def when_true_def Let_def w2_def old_def new_def find_status_type_def)
      have wf': "wf_status (snd (custom_status_create env u t w))"
        using keeps_custom_status_create[of env u t] wf by (simp add: keeps_def keeps_wf_status_def)
      have same: "find_status_type (w2\<lparr>next_id := n, statuses := xs\<rparr>) = find_status_type w2"
        "find_status_type w2 = find_status_type w" for n xs
        by (simp_all add: find_status_type_def w2_def fun_eq_iff)
      have tidy2: "tidy w2" "breaks w2 \<subseteq> breaks w" using quiet2 True by (auto simp: quiet_def)
      have "tidy (snd (custom_status_create env u t w))"
        using wf' tidy2(1) found unfolding tidy_def run same by (auto simp: new_def)
      moreover have "breaks (snd (custom_status_create env u t w)) \<subseteq> breaks w2"
        using found t iequal_in_service unfolding run
        by (auto simp: breaks_def is_break_def same new_def)
      ultimately show ?thesis
        using tidy2 unfolding quiet_def run by (auto simp: online_now_def w2_def)
    qed
  qed
qed

lemma quiet_modify_permissions:
  assumes "\<And>x. permission_key (f x) = permission_key x \<and> prm_status (f x) \<noteq> ''ONLINE''"
  shows "keeps quiet (modify (\<lambda>w. w\<lparr>permissions := update_where q f (permissions w)\<rparr>))"
proof (rule quiet.keeps_modify)
  fix w :: world
  have "online_now (w\<lparr>permissions := update_where q f (permissions w)\<rparr>) \<subseteq> online_now w"
    using assms by (auto simp: online_now_def set_update_where permission_key_def split: if_splits)
  then show "quiet w (w\<lparr>permissions := update_where q f (permissions w)\<rparr>)"
    using assms by (simp add: quiet_def map_update_where)
qed

lemma quiet_modify_statuses:
  assumes "\<And>c. cus_id (f c) = cus_id c \<and> cus_user (f c) = cus_user c \<and> cus_project (f c) = cus_project c
              \<and> cus_status_type (f c) = cus_status_type c \<and> (cus_is_active (f c) \<longrightarrow> cus_is_active c)"
  shows "keeps quiet (modify (\<lambda>w. w\<lparr>statuses := update_where q f (statuses w)\<rparr>))"
  by (rule quiet.keeps_modify) (rule quiet_update[OF refl assms])

lemma quiet_set_presence: "st \<noteq> ''ONLINE'' \<Longrightarrow> keeps quiet (set_presence pk st)"
  unfolding set_presence_def by (rule quiet_modify_permissions) (simp add: permission_key_def)

lemma quiet_update_presence: "st \<noteq> ''ONLINE'' \<Longrightarrow> keeps quiet (update_presence u p st)"
  unfolding update_presence_def
  by (intro quiet_rules quiet_modify_permissions) (simp add: permission_key_def)

lemma quiet_get_permission: "keeps quiet (get_project_permission e u p)"
  unfolding get_project_permission_def
  by (intro quiet.keeps_bnd quiet.keeps_gets) (auto intro!: quiet_rules split: list.split)

lemma quiet_log_report: "keeps quiet (log_report env u p st extra)"
  unfolding log_report_def by (intro quiet_rules)

lemma quiet_route_project:
  assumes "\<And>k. keeps quiet (route k)"
  shows "keeps quiet (route_project env route p)"
  unfolding route_project_def by (intro quiet_rules assms)

lemma quiet_notify: "keeps quiet (permission_notify_user env pk act)"
  unfolding permission_notify_user_def by (rule quiet.keeps_send)

lemma quiet_end_in_service: "keeps quiet (end_in_service env u p)"
  unfolding end_in_service_def by (intro quiet_rules quiet_get_or_create)

lemma quiet_status_offline: "keeps quiet (status_offline env inst u)"
  unfolding status_offline_def
  by (intro quiet_rules quiet_set_presence quiet_log_report quiet_end_in_service) simp

lemma quiet_save_break_time: "keeps quiet (save_break_time env c)"
  unfolding save_break_time_def Let_def by (intro quiet_rules quiet_modify_statuses) auto

lemma quiet_disconnect_body: "keeps quiet (disconnect_body env x agent p)"
  unfolding disconnect_body_def
  by (intro quiet_rules quiet_modify_statuses quiet_save_break_time quiet_set_presence) auto

lemma quiet_validate: "keeps quiet (validate_agent_disconnect known requester p agent)"
  unfolding validate_agent_disconnect_def by (intro quiet_rules quiet_get_permission)

lemma quiet_agent_disconnect:
  assumes "\<And>p a r. keeps quiet (log_now p a r)"
  shows "keeps quiet (agent_disconnect env known log_now requester p agent)"
  unfolding agent_disconnect_def
  by (intro quiet_rules quiet_validate quiet_disconnect_body assms)

text \<open>The services of \<open>In_Service\<close>.\<close>

lemma quiet_room_assigned: "keeps quiet (room_assigned env user prj)"
  unfolding room_assigned_def
  by (cases user; cases prj)
     (auto intro!: quiet_rules quiet_with_type with_type.keeps_world with_typeI[OF quiet_has_priority] quiet_create)

lemma quiet_room_closed: "keeps quiet (room_closed env user prj)"
  unfolding room_closed_def
  by (cases user; cases prj) (auto intro!: quiet_rules quiet_get_or_create)

lemma quiet_sync_body: "keeps quiet (sync_body env u prj)"
  unfolding sync_body_def
  by (cases prj)
     (auto intro!: quiet_with_type with_type.keeps_world with_typeI[OF quiet_has_priority]
        with_typeI[OF quiet_end_status] quiet_create)

lemma quiet_sync: "keeps quiet (sync_agent_status env users user prj)"
  unfolding sync_agent_status_def user_by_key_def
  by (cases user; cases prj) (auto intro!: quiet_rules quiet_sync_body split: option.splits)

lemma quiet_schedule: "keeps quiet (schedule_sync_for_all_agents env users)"
  unfolding schedule_sync_for_all_agents_def by (auto intro!: quiet_rules quiet_sync)

section \<open>Nobody is online on a break\<close>

definition presence_ok :: "world \<Rightarrow> bool" where
  "presence_ok w \<longleftrightarrow> tidy w \<and> distinct (map prm_uuid (permissions w))
     \<and> (\<forall>u p k. (u, Some p, k) \<in> breaks w \<longrightarrow> (u, p) \<notin> online_now w)"

definition keeps_presence :: "world \<Rightarrow> world \<Rightarrow> bool" where
  "keeps_presence s t \<longleftrightarrow> (presence_ok s \<longrightarrow> presence_ok t)"

interpretation presence: world_order keeps_presence
  by unfold_locales (auto simp: keeps_presence_def presence_ok_def)

lemma quiet_uuids: "quiet s t \<Longrightarrow> map prm_uuid (permissions t) = map prm_uuid (permissions s)"
  unfolding quiet_def permission_key_def
  by (drule conjunct2, drule conjunct2, drule conjunct1, drule arg_cong[of _ _ "map fst"]) (simp add: comp_def)

lemma quiet_presence: "quiet s t \<Longrightarrow> keeps_presence s t"
  using quiet_uuids[of s t] unfolding keeps_presence_def presence_ok_def quiet_def by (metis subsetD)

lemma presence_of_quiet: "keeps quiet m \<Longrightarrow> keeps keeps_presence m"
  by (erule keeps_mono) (rule quiet_presence)

lemma quiet_uuid_agent:
  assumes "map permission_key (permissions t) = map permission_key (permissions s)"
    and dist: "distinct (map prm_uuid (permissions s))" and x: "x \<in> set (permissions s)"
    and y: "y \<in> set (permissions t)" "prm_uuid y = prm_uuid x"
  shows "prm_user y = prm_user x \<and> prm_project y = prm_project x"
proof -
  have "permission_key y \<in> permission_key ` set (permissions s)"
    using assms(1) y(1) by (metis image_eqI image_set)
  then obtain z where z: "z \<in> set (permissions s)" "permission_key z = permission_key y" by auto
  then have "z = x" using dist x y(2) by (auto simp: permission_key_def distinct_map inj_on_def)
  then show ?thesis using z(2) by (simp add: permission_key_def)
qed

text \<open>Setting one agent online brings nobody else online.\<close>

lemma set_presence_online:
  assumes "\<And>y. y \<in> set (permissions s) \<Longrightarrow> prm_uuid y = pk \<Longrightarrow> prm_user y = u \<and> prm_project y = p"
  shows "online_now (snd (set_presence pk ''ONLINE'' s)) \<subseteq> insert (u, p) (online_now s)"
  using assms
  by (auto simp: set_presence_def modify_def online_now_def set_update_where split: if_splits)

lemma update_presence_online:
  "online_now (snd (update_presence u p ''ONLINE'' s)) \<subseteq> insert (u, p) (online_now s)"
  by (auto simp: update_presence_def py_defs online_now_def set_update_where same_agent_def split: if_splits)

lemma update_presence_tables:
  "tidy (snd (update_presence u p st s)) = tidy s" "breaks (snd (update_presence u p st s)) = breaks s"
  "map prm_uuid (permissions (snd (update_presence u p st s))) = map prm_uuid (permissions s)"
  by (auto simp: update_presence_def py_defs map_update_where)

lemma set_presence_tables:
  "tidy (snd (set_presence pk st s)) = tidy s" "breaks (snd (set_presence pk st s)) = breaks s"
  "map prm_uuid (permissions (snd (set_presence pk st s))) = map prm_uuid (permissions s)"
  by (auto simp: set_presence_def modify_def map_update_where)

text \<open>What it takes to bring an agent online: there is no break left.\<close>

lemma presence_online:
  assumes ok: "presence_ok s" and t: "tidy t" "breaks t = breaks s"
    "map prm_uuid (permissions t) = map prm_uuid (permissions s)"
    and on: "online_now t \<subseteq> insert (u, p) (online_now s)" and none: "\<And>k. (u, Some p, k) \<notin> breaks s"
  shows "presence_ok t"
  using assms unfolding presence_ok_def by (metis insertE prod.inject subsetD)

text \<open>A status that ends is no break any more.\<close>

lemma end_status_run:
  assumes "end_status env c w = (Inr x, w')"
  shows "w' = w\<lparr>statuses := update_where (\<lambda>x. cus_id x = cus_id c)
     (\<lambda>x. x\<lparr>cus_is_active := False, cus_break_time := trunc_seconds (env_now env - cus_created_on c)\<rparr>)
     (statuses w)\<rparr>"
  using assms
  by (auto simp: end_status_def custom_status_save_def need_def py_defs atomic_def write_status_def
      when_true_def Let_def split: option.splits if_splits)

lemma end_status_no_break:
  assumes "end_status env c w = (Inr x, w')"
  shows "(u, q, cus_id c) \<notin> breaks w'"
proof
  assume "(u, q, cus_id c) \<in> breaks w'"
  then obtain d where d: "d \<in> set (statuses w')" "cus_is_active d" "cus_id d = cus_id c"
    by (auto simp: breaks_def)
  then obtain e where "d = (if cus_id e = cus_id c then e\<lparr>cus_is_active := False,
      cus_break_time := trunc_seconds (env_now env - cus_created_on c)\<rparr> else e)"
    unfolding end_status_run[OF assms] by (auto simp: set_update_where)
  then show False using d(2,3) by (simp split: if_splits)
qed

lemma end_all_no_break:
  "for_each (end_status env) cs w = (Inr x, w') \<Longrightarrow> tidy w \<Longrightarrow> c \<in> set cs \<Longrightarrow> (u, q, cus_id c) \<notin> breaks w'"
proof (induction cs arbitrary: w)
  case (Cons d cs)
  obtain y v where run: "end_status env d w = (Inr y, v)" "for_each (end_status env) cs v = (Inr x, w')"
    using Cons.prems(1) by (auto elim: andthen_InrE)
  have "tidy v" using keepsD[OF quiet_end_status run(1)] Cons.prems(2) by (simp add: quiet_def)
  moreover have "breaks w' \<subseteq> breaks v"
    using keepsD[OF quiet.keeps_for[OF quiet_end_status] run(2)] \<open>tidy v\<close> by (simp add: quiet_def)
  ultimately show ?case
    using Cons.IH[OF run(2)] Cons.prems(3) end_status_no_break[OF run(1)] by auto
qed simp

lemma active_breaks_are_breaks:
  "(Some u, Some p, k) \<in> breaks w \<longleftrightarrow> k \<in> cus_id ` set (active_breaks w u p)"
  by (auto simp: breaks_def active_breaks_def) metis

lemma presence_status_online:
  assumes ok: "presence_ok w" and inst: "inst \<in> set (live_permissions w)" "prm_user inst = Some u"
  shows "presence_ok (snd (status_online env inst u w))"
proof -
  let ?p = "prm_project inst"
  define rest where "rest = andthen (log_report env (Some u) ?p ''ONLINE'' [])
    (bnd (gets (\<lambda>w. active_room_count w u (Some ?p))) (\<lambda>room_count.
     bnd (has_priority_status u (Project_Obj ?p)) (\<lambda>has_other_priority.
     when_true (room_count > 0 \<and> \<not> has_other_priority)
       (bnd (get_or_create_status_type (Project_Obj ?p)) (\<lambda>t.
        bnd (gets (\<lambda>w. in_service_status w u t (Some ?p))) (\<lambda>existing.
        when_true (existing = None) (custom_status_create env (Some u) t)))))))"
  have quiet_rest: "keeps quiet rest"
    unfolding rest_def
    by (intro quiet_rules quiet_log_report quiet_has_priority quiet_with_type with_type.keeps_world quiet_create)
  have run: "status_online env inst u w = andthen (for_each (end_status env) (active_breaks w u ?p))
      (andthen (set_presence (prm_uuid inst) ''ONLINE'') rest) w"
    by (simp add: status_online_def rest_def Let_def bnd_def[of "gets _"] gets_def)
  obtain r w1 where ends: "for_each (end_status env) (active_breaks w u ?p) w = (r, w1)" by fastforce
  have one: "quiet w w1" using keepsD[OF quiet.keeps_for[OF quiet_end_status] ends] .
  have ok1: "presence_ok w1" using quiet_presence[OF one] ok by (simp add: keeps_presence_def)
  show ?thesis
  proof (cases r)
    case (Inl e)
    then show ?thesis using ok1 by (simp add: run andthen_def bnd_def ends)
  next
    case (Inr x)
    have none: "(Some u, Some ?p, k) \<notin> breaks w1" for k
    proof
      assume k: "(Some u, Some ?p, k) \<in> breaks w1"
      then have "(Some u, Some ?p, k) \<in> breaks w" using one ok by (auto simp: quiet_def presence_ok_def)
      then obtain c where "c \<in> set (active_breaks w u ?p)" "k = cus_id c"
        by (auto simp: active_breaks_are_breaks)
      then show False using end_all_no_break ends Inr k ok by (auto simp: presence_ok_def)
    qed
    have "\<And>y. y \<in> set (permissions w1) \<Longrightarrow> prm_uuid y = prm_uuid inst \<Longrightarrow>
            prm_user y = Some u \<and> prm_project y = ?p"
      using quiet_uuid_agent[of w1 w inst] one ok inst by (auto simp: quiet_def presence_ok_def)
    then have "presence_ok (snd (set_presence (prm_uuid inst) ''ONLINE'' w1))"
      by (intro presence_online[OF ok1 _ _ _ _ none] set_presence_online)
         (use ok1 in \<open>auto simp: set_presence_tables presence_ok_def\<close>)
    moreover obtain w2 where go: "set_presence (prm_uuid inst) ''ONLINE'' w1 = (Inr (), w2)"
      by (simp add: set_presence_def modify_def)
    ultimately have "presence_ok w2" by simp
    then have "presence_ok (snd (rest w2))"
      using presence_of_quiet[OF quiet_rest] by (simp add: keeps_def keeps_presence_def)
    then show ?thesis using Inr by (simp add: run andthen_def bnd_def ends go)
  qed
qed

lemma update_presence_offline:
  assumes "update_presence u p ''OFFLINE'' s = (Inr x, s')"
  shows "(u, p) \<notin> online_now s'"
proof
  assume "(u, p) \<in> online_now s'"
  then obtain d where d: "d \<in> set (permissions s')" "same_agent u p d" "\<not> prm_is_deleted d"
    "prm_user d \<noteq> None" "prm_status d = ''ONLINE''"
    by (auto simp: online_now_def same_agent_def)
  have "permissions s' = update_where (\<lambda>x. same_agent u p x \<and> \<not> prm_is_deleted x \<and> prm_user x \<noteq> None)
      (\<lambda>x. x\<lparr>prm_status := ''OFFLINE''\<rparr>) (permissions s)"
    using assms by (auto simp: update_presence_def py_defs split: if_splits)
  then obtain e where "d = (if same_agent u p e \<and> \<not> prm_is_deleted e \<and> prm_user e \<noteq> None
      then e\<lparr>prm_status := ''OFFLINE''\<rparr> else e)"
    using d(1) by (simp only: set_update_where) (erule imageE, blast)
  then show False using d(2-5) by (simp add: same_agent_def split: if_splits)
qed

text \<open>Adding a status adds at most one break, of its own user and project.\<close>

lemma save_new_status:
  assumes tidy: "tidy s" and t: "find_status_type s k = Some t"
    and run: "bnd new_id (\<lambda>pk. custom_status_save True \<lparr>cus_id = pk, cus_created_on = now,
        cus_user = u, cus_status_type = k, cus_is_active = act, cus_break_time = b,
        cus_project = None\<rparr>) s = (Inr x, s')"
  shows "tidy s' \<and> breaks s' \<subseteq> insert (u, Some (cst_project t), next_id s) (breaks s)
     \<and> permissions s' = permissions s"
proof -
  define new where "new = \<lparr>cus_id = next_id s, cus_created_on = now, cus_user = u, cus_status_type = k,
     cus_is_active = act, cus_break_time = b, cus_project = Some (cst_project t)\<rparr>"
  define s1 where "s1 = (if act \<and> u \<noteq> None then s\<lparr>statuses := update_where
      (\<lambda>x. cus_user x = u \<and> cus_project x = Some (cst_project t) \<and> cus_is_active x \<and> cus_id x \<noteq> next_id s)
      (\<lambda>x. x\<lparr>cus_is_active := False\<rparr>) (statuses s)\<rparr> else s)"
  have found: "find_status_type (s\<lparr>next_id := n\<rparr>) k = Some t" for n
    using t by (simp add: find_status_type_def)
  have s': "s' = s1\<lparr>next_id := Suc (next_id s), statuses := statuses s1 @ [new]\<rparr>"
    using run t found
    by (cases act; cases u; cases "b < 0")
       (simp_all add: custom_status_save_def write_status_def new_id_def need_def py_defs atomic_def
          when_true_def Let_def s1_def new_def)
  have quiet1: "quiet s s1"
    unfolding s1_def by (auto intro: quiet.R_refl quiet_update)
  then have tidy1: "tidy s1" "breaks s1 \<subseteq> breaks s" using tidy by (auto simp: quiet_def)
  have same: "find_status_type s' = find_status_type s1" "find_status_type s1 = find_status_type s"
    "permissions s' = permissions s"
    by (simp_all add: find_status_type_def s' s1_def fun_eq_iff)
  have "wf_status s'"
  proof (rule wf_write_status[OF wf_new_id])
    show "wf_status s" using tidy by (simp add: tidy_def)
    show "custom_status_save True \<lparr>cus_id = next_id s, cus_created_on = now, cus_user = u,
        cus_status_type = k, cus_is_active = act, cus_break_time = b, cus_project = None\<rparr>
        (s\<lparr>next_id := Suc (next_id s)\<rparr>) = (Inr x, s')"
      using run by (simp add: bnd_def new_id_def)
  qed (use tidy in \<open>auto simp: tidy_def wf_status_def\<close>)
  then have "tidy s'" using tidy1(1) t unfolding tidy_def same by (auto simp: s' new_def)
  moreover have "breaks s' \<subseteq> insert (u, Some (cst_project t), next_id s) (breaks s1)"
    by (auto simp: breaks_def is_break_def same(1)) (auto simp: s' new_def)
  ultimately show ?thesis using tidy1(2) same(3) by blast
qed

lemma presence_rollback [simp]: "presence_ok (rollback s t) = presence_ok s"
  by (simp add: rollback_def presence_ok_def)

lemma presence_perform_create:
  assumes ok: "presence_ok w" and t: "find_status_type w (cst_uuid t) = Some t"
  shows "presence_ok (snd (perform_create_status env u t act b w))"
proof -
  let ?p = "cst_project t"
  define add where "add = bnd new_id (\<lambda>pk. custom_status_save True \<lparr>cus_id = pk,
     cus_created_on = env_now env, cus_user = Some u, cus_status_type = cst_uuid t, cus_is_active = act,
     cus_break_time = b, cus_project = None\<rparr>)"
  define body where "body = andthen (update_presence (Some u) ?p ''OFFLINE'') (andthen (end_in_service env u ?p)
     (andthen add (log_report env (Some u) ?p ''OFFLINE'' [cst_name t])))"
  have run: "perform_create_status env u t act b w = atomic body w"
    by (simp add: perform_create_status_def body_def add_def Let_def)
  have "presence_ok s'" if fin: "body w = (Inr x, s')" for x s'
  proof -
    obtain x1 w1 x2 w2 x3 w3 where steps:
      "update_presence (Some u) ?p ''OFFLINE'' w = (Inr x1, w1)" "end_in_service env u ?p w1 = (Inr x2, w2)"
      "add w2 = (Inr x3, w3)" "log_report env (Some u) ?p ''OFFLINE'' [cst_name t] w3 = (Inr x, s')"
      using fin unfolding body_def by (elim andthen_InrE) blast
    have q1: "quiet w w1" using keepsD[OF quiet_update_presence steps(1)] by simp
    have q2: "quiet w1 w2" using keepsD[OF quiet_end_in_service steps(2)] .
    have q: "quiet w w2" using quiet.R_trans[OF q1 q2] .
    have ok2: "presence_ok w2" using quiet_presence[OF q] ok by (simp add: keeps_presence_def)
    have off: "(Some u, ?p) \<notin> online_now w2"
      using update_presence_offline[OF steps(1)] q2 by (auto simp: quiet_def)
    have "find_status_type w2 (cst_uuid t) = Some t"
      using find_status_type_grows[OF _ _ _ t] q ok ok2 by (auto simp: quiet_def presence_ok_def tidy_def)
    then have new: "tidy w3" "breaks w3 \<subseteq> insert (Some u, Some ?p, next_id w2) (breaks w2)"
        "permissions w3 = permissions w2"
      using save_new_status[OF _ _ steps(3)[unfolded add_def]] ok2 by (auto simp: presence_ok_def)
    have same: "online_now w3 = online_now w2" using new(3) by (simp add: online_now_def)
    have "(v, p) \<notin> online_now w3" if "(v, Some p, k) \<in> breaks w3" for v p k
      using that new(2) off ok2 unfolding same presence_ok_def by blast
    then have "presence_ok w3" using new(1,3) ok2 by (simp add: presence_ok_def)
    then show ?thesis
      using keepsD[OF presence_of_quiet[OF quiet_log_report] steps(4)] by (simp add: keeps_presence_def)
  qed
  then show ?thesis using ok by (auto simp: run atomic_def split: prod.splits sum.splits)
qed

lemma sort_key_first:
  assumes "x \<in> set xs"
  shows "\<exists>e es. sort_key f xs = e # es \<and> e \<in> set xs"
proof (cases "sort_key f xs")
  case Nil
  then have "set xs = {}" by (metis list.set(1) set_sort)
  with assms show ?thesis by simp
next
  case (Cons e es)
  then have "e \<in> set xs" by (metis list.set_intros(1) set_sort)
  with Cons show ?thesis by blast
qed

text \<open>Closing a status: the status that ends is the only one that can be a break of its agent.\<close>

lemma last_active_only:
  assumes tidy: "tidy w" and c: "c \<in> set (statuses w)" "find_status_type w (cus_status_type c) = Some t"
    and u: "cus_user c = Some u"
    and latest: "last_active w (cus_user c) (cst_project t) = None
      \<or> map_option cus_id (last_active w (cus_user c) (cst_project t)) = Some (cus_id c)"
    and k: "(Some u, Some (cst_project t), k) \<in> breaks w"
  shows "k = cus_id c"
proof -
  obtain d where d: "d \<in> set (statuses w)" "cus_is_active d" "cus_user d = Some u"
    "cus_project d = Some (cst_project t)" "k = cus_id d" using k by (auto simp: breaks_def)
  let ?act = "filter (\<lambda>c. cus_user c = Some u \<and> cus_is_active c
     \<and> map_option cst_project (find_status_type w (cus_status_type c)) = Some (cst_project t)) (statuses w)"
  have "d \<in> set ?act" using tidy d by (auto simp: tidy_def)
  from sort_key_first[OF this, of "\<lambda>c. - cus_created_on c"]
  obtain e es where s: "sort_key (\<lambda>c. - cus_created_on c) ?act = e # es" and "e \<in> set ?act"
    by (elim exE conjE)
  then have e: "e \<in> set (statuses w)" "cus_user e = Some u" "cus_is_active e" "cus_project e = Some (cst_project t)"
    using tidy by (auto simp: tidy_def)
  have "last_active w (cus_user c) (cst_project t) = Some e" using s u by (simp add: last_active_def)
  then have "cus_id e = cus_id c" using latest by simp
  moreover have "inj_on (\<lambda>c. (cus_user c, cus_project c))
      (set (filter (\<lambda>c. cus_is_active c \<and> cus_user c \<noteq> None) (statuses w)))"
    using tidy by (simp add: tidy_def wf_status_def distinct_map)
  then have "e = d" by (rule inj_onD) (use e d in simp_all)
  ultimately show ?thesis using d(5) by simp
qed

lemma end_break_run:
  assumes ok: "presence_ok w" and w: "quiet w w1"
    and c: "c \<in> set (statuses w)" "find_status_type w (cus_status_type c) = Some t" "cus_user c = Some u"
    and latest: "last_active w (cus_user c) (cst_project t) = None
      \<or> map_option cus_id (last_active w (cus_user c) (cst_project t)) = Some (cus_id c)"
    and online: "update_presence (Some u) (cst_project t) ''ONLINE'' w1 = (Inr x, w2)"
    and ends: "end_status env c w2' = (Inr y, w3)" "quiet w2 w2'"
  shows "presence_ok w3"
proof -
  let ?p = "cst_project t"
  have ok1: "presence_ok w1" using quiet_presence[OF w] ok by (simp add: keeps_presence_def)
  have t2: "tidy w2" "breaks w2 = breaks w1" "map prm_uuid (permissions w2) = map prm_uuid (permissions w1)"
    using update_presence_tables[of "Some u" ?p "''ONLINE''" w1] ok1 by (simp_all add: online presence_ok_def)
  have on2: "online_now w2 \<subseteq> insert (Some u, ?p) (online_now w1)"
    using update_presence_online[of "Some u" ?p w1] by (simp add: online)
  have q: "quiet w2 w3" using quiet.R_trans[OF ends(2) keepsD[OF quiet_end_status ends(1)]] .
  then have t3: "tidy w3" "breaks w3 \<subseteq> breaks w1" "online_now w3 \<subseteq> online_now w2" using t2 by (auto simp: quiet_def)
  have "(v, r) \<notin> online_now w3" if b: "(v, Some r, k) \<in> breaks w3" for v r k
  proof (cases "(v, r) = (Some u, ?p)")
    case True
    then have "(Some u, Some ?p, k) \<in> breaks w" using b t3(2) w ok by (auto simp: quiet_def presence_ok_def)
    then have "k = cus_id c" using last_active_only[OF _ c latest] ok by (simp add: presence_ok_def)
    then show ?thesis using end_status_no_break[OF ends(1)] b by blast
  next
    case False
    then show ?thesis using b t3(2,3) on2 ok1 unfolding presence_ok_def by blast
  qed
  moreover have "map prm_uuid (permissions w3) = map prm_uuid (permissions w1)"
    using quiet_uuids[OF q] t2(3) by simp
  ultimately show ?thesis using t3(1) ok1 by (simp add: presence_ok_def distinct_map)
qed

lemma presence_close_status:
  assumes ok: "presence_ok w" and route: "\<And>k. keeps quiet (route k)"
  shows "presence_ok (snd (close_status env route pk is_active w))"
proof (cases "find (\<lambda>c. cus_id c = pk) (statuses w)")
  case None
  then show ?thesis using ok by (simp add: close_status_def run_gets ret_def)
next
  case (Some c)
  then have c: "c \<in> set (statuses w)" by (auto simp: find_Some_iff)
  then obtain t where t: "find_status_type w (cus_status_type c) = Some t" using ok by (auto simp: presence_ok_def tidy_def)
  let ?p = "cst_project t" and ?latest = "last_active w (cus_user c) (cst_project t)"
  show ?thesis
  proof (cases "?latest \<noteq> None \<and> map_option cus_id ?latest \<noteq> Some (cus_id c)")
    case True
    then show ?thesis using ok Some t by (simp add: close_status_def need_def bnd_def gets_def ret_def)
  next
    case latest: False
    have run: "close_status env route pk is_active w = andthen (route_project env route ?p)
        (andthen (atomic (close_body env c ?p is_active)) (ret (200, ''CustomStatus updated successfully.''))) w"
      using Some t latest by (auto simp: close_status_def need_def bnd_def gets_def)
    obtain r w1 where routed: "route_project env route ?p w = (r, w1)" by fastforce
    have q: "quiet w w1" using keepsD[OF quiet_route_project[OF route] routed] .
    have ok1: "presence_ok w1" using quiet_presence[OF q] ok by (simp add: keeps_presence_def)
    have "presence_ok w4" if body: "close_body env c ?p is_active w1 = (Inr x, w4)" for x w4
    proof -
      define rest where "rest = bnd (case cus_user c of None \<Rightarrow> raise (DoesNotExist ''ProjectPermission'') | Some u \<Rightarrow> ret u) (\<lambda>u.
        bnd (gets (\<lambda>w. active_room_count w u (Some ?p))) (\<lambda>room_count.
        bnd (has_priority_status u (Project_Obj ?p)) (\<lambda>has_other_priority.
        bnd (get_project_permission (DoesNotExist ''ProjectPermission'') (Some u) ?p) (\<lambda>x.
        when_true (room_count > 0 \<and> \<not> has_other_priority \<and> prm_status x = ''ONLINE'')
          (bnd (get_or_create_status_type (Project_Obj ?p)) (custom_status_create env (Some u)))))))"
      have quiet_rest: "keeps quiet rest"
        unfolding rest_def
        by (intro quiet_rules quiet_has_priority quiet_get_permission quiet_with_type quiet_create)
      obtain y w2 z w3 where steps:
        "when_true is_active (andthen (update_presence (cus_user c) ?p ''ONLINE'')
           (log_report env (cus_user c) ?p ''ONLINE'' [])) w1 = (Inr y, w2)"
        "end_status env c w2 = (Inr z, w3)" "rest w3 = (Inr x, w4)"
        using body unfolding close_body_def rest_def[symmetric] by (elim andthen_InrE) blast
      obtain u where u: "cus_user c = Some u" using steps(3) by (auto simp: rest_def bnd_def raise_def split: option.splits)
      have "presence_ok w3"
      proof (cases is_active)
        case True
        then obtain a v b where online: "update_presence (Some u) ?p ''ONLINE'' w1 = (Inr a, v)"
          "log_report env (Some u) ?p ''ONLINE'' [] v = (Inr b, w2)"
          using steps(1) u by (auto simp: when_true_def elim: andthen_InrE)
        show ?thesis
          using latest by (intro end_break_run[OF ok q c t u _ online(1) steps(2) keepsD[OF quiet_log_report online(2)]]) auto
      next
        case False
        then have "w2 = w1" using steps(1) by (simp add: when_true_def ret_def)
        then show ?thesis using keepsD[OF presence_of_quiet[OF quiet_end_status] steps(2)] ok1 by (simp add: keeps_presence_def)
      qed
      then show ?thesis using keepsD[OF presence_of_quiet[OF quiet_rest] steps(3)] by (simp add: keeps_presence_def)
    qed
    then show ?thesis
      using ok1 by (auto simp: run routed andthen_def bnd_def ret_def atomic_def split: prod.splits sum.splits)
  qed
qed

lemma presence_status_request:
  assumes ok: "presence_ok w" and route: "\<And>k. keeps quiet (route k)"
  shows "presence_ok (snd (status_request env route u p st w))"
proof -
  obtain r w1 where found: "get_project_permission (APIException ''Not found'') (Some u) p w = (r, w1)" by fastforce
  have w1: "w1 = w" and inst: "inst \<in> set (live_permissions w) \<and> prm_user inst = Some u" if "r = Inr inst" for inst
  proof -
    have head: "filter (same_agent (Some u) p) (live_permissions w) = [inst]" "w1 = w"
      using found that by (auto simp: get_project_permission_def run_gets py_defs split: list.splits)
    have "inst \<in> set (filter (same_agent (Some u) p) (live_permissions w))" unfolding head(1) by simp
    then show "inst \<in> set (live_permissions w) \<and> prm_user inst = Some u" by (simp add: same_agent_def)
    show "w1 = w" by (rule head(2))
  qed
  have ok1: "presence_ok w1"
    using keepsD[OF presence_of_quiet[OF quiet_get_permission] found] ok by (simp add: keeps_presence_def)
  show ?thesis
  proof (cases r)
    case (Inl e)
    then show ?thesis using found ok1 by (simp add: status_request_def bnd_def)
  next
    case (Inr inst)
    define tell where "tell = (\<lambda>x::string. andthen (permission_notify_user env (prm_uuid inst) ''update'')
        (andthen (route_project env route p) (ret (200::nat, x))))"
    have "keeps quiet (tell x)" for x
      unfolding tell_def by (intro quiet_rules quiet_notify quiet_route_project route)
    then have told: "presence_ok s \<Longrightarrow> presence_ok (snd (tell x s))" for x s
      using presence_of_quiet[of "tell x"] by (simp add: keeps_def keeps_presence_def)
    have go: "presence_ok (snd (bnd m tell w))" if "presence_ok (snd (m w))" for m
      using that told by (auto simp: bnd_def split: prod.splits sum.splits)
    have on: "presence_ok (snd (andthen (status_online env inst u) (ret x) w))" for x :: string
      using presence_status_online[OF ok, of inst u env] inst[OF Inr] by (auto simp: andthen_def bnd_def ret_def split: prod.splits sum.splits)
    have "keeps quiet (andthen (status_offline env inst u) (ret x))" for x :: string
      by (intro quiet.keeps_andthen quiet_status_offline quiet.keeps_ret)
    then have off: "presence_ok (snd (andthen (status_offline env inst u) (ret x) w))" for x :: string
      using presence_of_quiet[of "andthen (status_offline env inst u) (ret x)"] ok by (simp add: keeps_def keeps_presence_def)
    have same: "presence_ok (snd (ret x w))" for x :: string using ok by (simp add: ret_def)
    show ?thesis
    proof (cases st)
      case None
      then show ?thesis using found Inr w1[OF Inr] ok by (simp add: status_request_def bnd_def ret_def)
    next
      case (Some x)
      then have "status_request env route u p st w = bnd (if iequal x ''online'' then andthen (status_online env inst u) (ret ''ONLINE'')
          else if iequal x ''offline'' then andthen (status_offline env inst u) (ret ''OFFLINE'') else ret (prm_status inst)) tell w"
        using found Inr w1[OF Inr] by (simp add: status_request_def tell_def
          run_Inr(1)[where m = "get_project_permission (APIException ''Not found'') (Some u) p" and s = w])
      then show ?thesis
        using go[of "andthen (status_online env inst u) (ret ''ONLINE'')"] go[of "andthen (status_offline env inst u) (ret ''OFFLINE'')"]
          go[of "ret (prm_status inst)"] on off same by simp
    qed
  qed
qed

text \<open>The requests and services that change a status, in any order, each in its own environment.\<close>

datatype presence_op =
    Report email uuid "string option"
  | Start_Status email nat bool int
  | Close_Status nat bool
  | Disconnect email uuid email
  | Service status_op

fun run_presence_op ::
  "(uuid \<Rightarrow> (world, unit) py) \<Rightarrow> (uuid \<Rightarrow> email \<Rightarrow> email \<Rightarrow> (world, unit) py) \<Rightarrow> (email \<Rightarrow> bool) \<Rightarrow> (string \<Rightarrow> email option)
     \<Rightarrow> env \<Rightarrow> presence_op \<Rightarrow> world \<Rightarrow> world" where
  "run_presence_op route audit known users env (Report u p st) w = snd (status_request env route u p st w)"
| "run_presence_op route audit known users env (Start_Status u k act b) w = snd (create_status env u k act b w)"
| "run_presence_op route audit known users env (Close_Status pk act) w = snd (close_status env route pk act w)"
| "run_presence_op route audit known users env (Disconnect r p a) w = snd (agent_disconnect env known audit r p a w)"
| "run_presence_op route audit known users env (Service x) w = run_status_op env users x w"

lemma presence_create_status:
  assumes "presence_ok w"
  shows "presence_ok (snd (create_status env u k act b w))"
proof (cases "find_status_type w k")
  case None
  then show ?thesis using assms by (simp add: create_status_def need_def bnd_def gets_def raise_def)
next
  case (Some t)
  then have "cst_uuid t = k" by (auto simp: find_status_type_def find_Some_iff)
  then have "presence_ok (snd (perform_create_status env u t act b w))"
    using presence_perform_create[OF assms] Some by simp
  then show ?thesis
    using Some by (auto simp: create_status_def need_def bnd_def gets_def andthen_def ret_def split: prod.splits sum.splits)
qed

lemma presence_services: "presence_ok w \<Longrightarrow> presence_ok (run_status_op env users x w)"
  using presence_of_quiet[OF quiet_room_assigned] presence_of_quiet[OF quiet_room_closed]
    presence_of_quiet[OF quiet_sync] presence_of_quiet[OF quiet_schedule]
  by (cases x) (auto simp: keeps_def keeps_presence_def)

text \<open>C40. Whatever requests about statuses follow each other, one at a time, with assignments, closures and
  synchronisations of rooms in between: an agent who has an active status other than In-Service in a project is not
  online there, in any permission he has. What routing and the audit log do in place, when Celery is off, starts no break
  and brings nobody online.\<close>

theorem nobody_online_on_a_break:
  assumes "presence_ok w" and "\<And>k. keeps quiet (route k)" and "\<And>p a r. keeps quiet (audit p a r)"
  shows "presence_ok (fold (\<lambda>(env, x). run_presence_op route audit known users env x) ops w)"
proof -
  have "presence_ok (run_presence_op route audit known users env x w)" if "presence_ok w" for env x w
  proof (cases x)
    case (Report u p st)
    then show ?thesis using presence_status_request[OF that assms(2)] by simp
  next
    case (Close_Status pk act)
    then show ?thesis using presence_close_status[OF that assms(2)] by simp
  next
    case (Disconnect r p a)
    have "keeps keeps_presence (agent_disconnect env known audit r p a)"
      by (rule presence_of_quiet[OF quiet_agent_disconnect[OF assms(3)]])
    then show ?thesis using that Disconnect by (simp add: keeps_def keeps_presence_def)
  qed (use that in \<open>simp_all add: presence_create_status presence_services\<close>)
  then show ?thesis using assms(1) by (induction ops arbitrary: w) auto
qed

section \<open>Examples\<close>

definition lunch :: custom_status_type where
  "lunch = \<lparr>cst_uuid = 7, cst_name = ''Lunch'', cst_project = ''p'', cst_is_deleted = False, cst_config = None\<rparr>"

definition lunch_world :: world where
  "lunch_world = small_world\<lparr>status_types := [lunch], next_id := 8\<rparr>"

definition lunch_day :: "(env \<times> presence_op) list" where
  "lunch_day = [(calm_env, Start_Status ''a@x'' 7 True 0), (calm_env, Report ''a@x'' ''p'' (Some ''Online'')),
     (calm_env, Start_Status ''a@x'' 7 True 0)]"

lemma lunch_fine: "presence_ok lunch_world"
  by (simp add: presence_ok_def tidy_def breaks_def wf_status_def in_service_types_def lunch_world_def lunch_def sample_defs)

theorem nobody_online_on_a_break_witness:
  "let w = fold (\<lambda>(env, x). run_presence_op (\<lambda>_. ret ()) (\<lambda>_ _ _. ret ()) (\<lambda>_. True) (\<lambda>_. None) env x) lunch_day lunch_world in
     presence_ok w \<and> length (active_breaks w ''a@x'' ''p'') = 1 \<and> map prm_status (permissions w) = [''OFFLINE'']"
proof -
  let ?w = "fold (\<lambda>(env, x). run_presence_op (\<lambda>_. ret ()) (\<lambda>_ _ _. ret ()) (\<lambda>_. True) (\<lambda>_. None) env x) lunch_day lunch_world"
  have "length (active_breaks ?w ''a@x'' ''p'') = 1 \<and> map prm_status (permissions ?w) = [''OFFLINE'']" by code_simp
  moreover have "presence_ok ?w"
    by (intro nobody_online_on_a_break lunch_fine quiet.keeps_ret)
  ultimately show ?thesis by simp
qed

text \<open>An administrator disconnects an agent who is In-Service: In-Service is no break, so the agent goes offline with
  it still active, and no report of it is sent.\<close>

lemma disconnect_keeps_in_service:
  "let w = snd (room_assigned calm_env (Some ''a@x'') (Some ''p'')
         (busy_world\<lparr>permissions := [blank_permission, blank_permission\<lparr>prm_uuid := ''m2'', prm_user := Some ''m@x'', prm_role := 1\<rparr>]\<rparr>));
       (r, w') = agent_disconnect calm_env (\<lambda>_. True) (\<lambda>_ _ _. ret ()) ''m@x'' ''p'' ''a@x'' w in
     r = Inr (200, []) \<and> map prm_status (permissions w') = [''OFFLINE'', ''ONLINE''] \<and> length (current_status w' ''a@x'' ''p'') = 1"
  by code_simp

text \<open>The end of a break with \<open>is_active\<close> brings its agent online, whoever asks for it.\<close>

lemma anyone_ends_a_break:
  "let w = snd (create_status calm_env ''a@x'' 7 True 0 lunch_world);
       (r, w') = close_status calm_env (\<lambda>_. ret ()) 9 True w in
     r = Inr (200, ''CustomStatus updated successfully.'') \<and> map prm_status (permissions w) = [''OFFLINE''] \<and>
     map prm_status (permissions w') = [''ONLINE''] \<and> active_breaks w' ''a@x'' ''p'' = []"
  by code_simp

end
