(* ===== verification/Phone_Search.thy ===== *)
theory Phone_Search
  imports Cache_Backend
begin

text \<open>
  Searching rooms and contacts: Brazilian mobile numbers with or without the ninth digit
  (\<open>chats/core/phone.py\<close>), the search filters of the REST API (\<open>chats/core/filters.py\<close>) and the
  normal form in which documents are stored (\<open>chats/apps/contacts/models.py\<close>).

  A Django \<open>Q\<close> is a \<open>cond\<close>; \<open>holds\<close> evaluates it on a row, a map from fields to columns.
  \<open>startswith\<close> and \<open>endswith\<close> compare literally; every other lookup (\<open>icontains\<close>,
  \<open>unaccent\<close>) belongs to the database and is the parameter \<open>look\<close> of \<open>holds\<close>. The answer of
  the feature-flag service is a parameter as well.
\<close>

section \<open>Conditions\<close>

datatype cond =
    Startswith string string
  | Endswith string string
  | Lookup string string
  | Cond_Or cond cond
  | Cond_And cond cond

type_synonym row = "string \<Rightarrow> string option"

fun holds :: "(string \<Rightarrow> string \<Rightarrow> row \<Rightarrow> bool) \<Rightarrow> row \<Rightarrow> cond \<Rightarrow> bool" where
  "holds look row (Startswith f x) = (case row f of None \<Rightarrow> False | Some v \<Rightarrow> starts_with x v)"
| "holds look row (Endswith f x) = (case row f of None \<Rightarrow> False | Some v \<Rightarrow> ends_with x v)"
| "holds look row (Lookup key x) = look key x row"
| "holds look row (Cond_Or a b) = (holds look row a \<or> holds look row b)"
| "holds look row (Cond_And a b) = (holds look row a \<and> holds look row b)"

section \<open>Phone numbers\<close>

definition is_digit :: "char \<Rightarrow> bool" where
  "is_digit c \<longleftrightarrow> (48::nat) \<le> of_char c \<and> (of_char c :: nat) \<le> 57"

definition only_digits :: "string \<Rightarrow> string" where
  "only_digits needle = filter is_digit needle"

definition last_n :: "nat \<Rightarrow> 'a list \<Rightarrow> 'a list" where
  "last_n n xs = drop (length xs - n) xs"

text \<open>\<open>_parse_br_phone_digits\<close>. For at least eight digits \<open>digits[-8:]\<close> and \<open>digits[:-8]\<close> are the last
  eight and the ones before.\<close>

definition parse_br_phone_digits :: "string \<Rightarrow> (string \<times> string) option" where
  "parse_br_phone_digits needle =
     (let digits = only_digits needle in
      if length digits < 8 \<or> 13 < length digits then None
      else let long = (length digits \<in> {12, 13}); local = starts_with ''55'' digits \<and> long in
      if \<not> local \<and> long then None
      else let digits = (if local then drop 2 digits else digits) in
      if length digits \<notin> {8, 9, 10, 11} then None
      else let base8 = last_n 8 digits; rest = take (length digits - 8) digits in
      Some (if 2 \<le> length rest then take 2 rest else [], base8))"

definition phone_urn_q :: "string \<Rightarrow> string \<Rightarrow> cond option" where
  "phone_urn_q needle field = (case parse_br_phone_digits needle of None \<Rightarrow> None
     | Some (ddd, base8) \<Rightarrow> Some
         (if ddd \<noteq> [] then Cond_Or (Startswith field (''whatsapp:'' @ ''55'' @ ddd @ base8))
            (Startswith field (''whatsapp:'' @ ''55'' @ ddd @ ''9'' @ base8))
          else Cond_And (Startswith field (''whatsapp:'' @ ''55'')) (Endswith field base8)))"

definition build_urn_lookup_q :: "string \<Rightarrow> string \<Rightarrow> string \<Rightarrow> bool \<Rightarrow> bool \<Rightarrow> cond" where
  "build_urn_lookup_q needle field lookup use_unaccent ninth_digit_enabled =
     (let phone_q = (if ninth_digit_enabled then phone_urn_q needle field else None);
          key = field @ (if use_unaccent then ''__unaccent__'' else ''__'') @ lookup;
          default_q = Lookup key needle
      in case phone_q of Some q \<Rightarrow> Cond_Or q default_q | None \<Rightarrow> default_q)"

text \<open>
  The feature flag of a request. \<open>flag email project\<close> is the answer of the flag service, with an email
  for a named user and without one for the project; any exception of the service counts as disabled.
  The answer is kept on the request.
\<close>

record search_request =
  sr_cached :: "bool option"
  sr_project :: "string option"
  sr_user :: "string option"

definition is_ninth_digit_search_enabled ::
  "(string option \<Rightarrow> string \<Rightarrow> exn + bool) \<Rightarrow> string option \<Rightarrow> string option \<Rightarrow> bool" where
  "is_ninth_digit_search_enabled flag user_email project_uuid = (case project_uuid of
     None \<Rightarrow> False
   | Some [] \<Rightarrow> False
   | Some p \<Rightarrow>
       (case flag (if user_email = Some [] then None else user_email) p of Inl _ \<Rightarrow> False | Inr b \<Rightarrow> b))"

definition ninth_digit_search_enabled_from_request ::
  "(string option \<Rightarrow> string \<Rightarrow> exn + bool) \<Rightarrow> search_request option \<Rightarrow> bool \<times> search_request option" where
  "ninth_digit_search_enabled_from_request flag request = (case request of
     None \<Rightarrow> (False, None)
   | Some r \<Rightarrow> (case sr_cached r of
       Some b \<Rightarrow> (b, Some r)
     | None \<Rightarrow> (let result = is_ninth_digit_search_enabled flag (sr_user r) (sr_project r)
               in (result, Some (r\<lparr>sr_cached := Some result\<rparr>)))))"

section \<open>Documents\<close>

definition is_alnum :: "char \<Rightarrow> bool" where
  "is_alnum c \<longleftrightarrow> is_digit c \<or> (let n = (of_char c :: nat) in 65 \<le> n \<and> n \<le> 90 \<or> 97 \<le> n \<and> n \<le> 122)"

definition upper_char :: "char \<Rightarrow> char" where
  "upper_char c = (let n = (of_char c :: nat) in if 97 \<le> n \<and> n \<le> 122 then char_of (n - 32) else c)"

definition normalize_document :: "string \<Rightarrow> string" where
  "normalize_document v = (if v = [] then v else map upper_char (filter is_alnum v))"

text \<open>\<open>Contact.save\<close> on the row of a contact.\<close>

definition contact_save :: "row \<Rightarrow> row" where
  "contact_save c = c(''document'' := map_option normalize_document (c ''document''))"

section \<open>Search filters\<close>

definition strip_search_prefix :: "string \<Rightarrow> string" where
  "strip_search_prefix field = (case field of [] \<Rightarrow> []
     | c # cs \<Rightarrow> if c \<in> set ''^=$@'' then cs else field)"

text \<open>\<open>construct\<close> is \<open>SearchFilter.construct_search\<close> of the REST framework.\<close>

definition build_field_search_q :: "(string \<Rightarrow> string) \<Rightarrow> string \<Rightarrow> string \<Rightarrow> bool \<Rightarrow> cond option" where
  "build_field_search_q construct field needle ninth_digit_enabled =
     (let bare = strip_search_prefix field in
      if ends_with ''document'' bare then
        (let v = normalize_document needle in if v \<noteq> [] then Some (Lookup (construct field) v) else None)
      else if ends_with ''urn'' bare then
        (let phone_q = (if ninth_digit_enabled then phone_urn_q needle bare else None);
             default_q = Lookup (construct field) needle
         in Some (case phone_q of Some q \<Rightarrow> Cond_Or q default_q | None \<Rightarrow> default_q))
      else Some (Lookup (construct field) needle))"

fun any_of :: "cond \<Rightarrow> cond list \<Rightarrow> cond" where
  "any_of q [] = q"
| "any_of q (x # xs) = any_of (Cond_Or q x) xs"

text \<open>The loop over the terms: \<open>None\<close> is the early return of \<open>queryset.none()\<close>.\<close>

fun search_conditions ::
  "(string \<Rightarrow> string) \<Rightarrow> string list \<Rightarrow> bool \<Rightarrow> string list \<Rightarrow> cond list option" where
  "search_conditions construct search_fields enabled [] = Some []"
| "search_conditions construct search_fields enabled (needle # terms) =
     (case List.map_filter (\<lambda>f. build_field_search_q construct f needle enabled) search_fields of
        [] \<Rightarrow> None
      | q # qs \<Rightarrow> map_option (Cons (any_of q qs)) (search_conditions construct search_fields enabled terms))"

text \<open>\<open>filter_queryset\<close> of both filters over the objects of a queryset, each listed once, as
  \<open>distinct()\<close> leaves them when a search field joins another table.\<close>

definition filter_queryset ::
  "(string \<Rightarrow> string \<Rightarrow> row \<Rightarrow> bool) \<Rightarrow> (string \<Rightarrow> string) \<Rightarrow> string list \<Rightarrow> string list \<Rightarrow> bool \<Rightarrow> row list \<Rightarrow> row list" where
  "filter_queryset look construct search_fields search_terms enabled rows =
     (if search_fields = [] \<or> search_terms = [] then rows
      else case search_conditions construct search_fields enabled search_terms of
        None \<Rightarrow> []
      | Some qs \<Rightarrow> filter (\<lambda>row. list_all (holds look row) qs) rows)"

section \<open>Parsing a number\<close>

lemma only_digits_ids: "list_all is_digit s \<Longrightarrow> only_digits s = s"
  by (simp add: only_digits_def list_all_iff)

lemma last_n_append: "length b = n \<Longrightarrow> last_n n (a @ b) = b"
  by (simp add: last_n_def)

lemma split_last: "n \<le> length xs \<Longrightarrow> xs = take (length xs - n) xs @ last_n n xs \<and> length (last_n n xs) = n"
  by (simp add: last_n_def)

lemma starts_with_split: "length a = length p \<Longrightarrow> starts_with p (a @ b) \<longleftrightarrow> p = a"
  by (auto simp: starts_with_def)

lemma parse_br_phone_local:
  assumes "only_digits needle = rest @ base" and "length base = 8" and "length rest \<le> 3"
  shows "parse_br_phone_digits needle = Some (if 2 \<le> length rest then take 2 rest else [], base)"
proof -
  have "length rest = 0 \<or> length rest = 1 \<or> length rest = 2 \<or> length rest = 3" using assms(3) by arith
  then show ?thesis
    using assms(1,2) by (auto simp: parse_br_phone_digits_def Let_def last_n_append)
qed

lemma parse_br_phone_international:
  assumes "only_digits needle = ''55'' @ rest @ base" and "length base = 8" and "length rest \<in> {2, 3}"
  shows "parse_br_phone_digits needle = Some (take 2 rest, base)"
  using assms by (auto simp: parse_br_phone_digits_def Let_def last_n_def starts_with_def)

lemma parse_br_phone_cases:
  assumes "parse_br_phone_digits needle = Some (ddd, base)"
  obtains (national) rest where "only_digits needle = rest @ base" "length base = 8" "length rest \<le> 3"
      "ddd = (if 2 \<le> length rest then take 2 rest else [])"
    | (international) rest where "only_digits needle = ''55'' @ rest @ base" "length base = 8"
      "length rest \<in> {2, 3}" "ddd = take 2 rest"
proof -
  let ?ds = "only_digits needle"
  let ?long = "length ?ds \<in> {12, 13}"
  have n: "8 \<le> length ?ds" "length ?ds \<le> 13"
    using assms by (auto simp: parse_br_phone_digits_def Let_def split: if_splits)
  show thesis
  proof (cases ?long)
    case True
    then have pre: "starts_with ''55'' ?ds"
      using assms by (auto simp: parse_br_phone_digits_def Let_def split: if_splits)
    then obtain tail where ds: "?ds = ''55'' @ tail" by (auto simp: starts_with_iff)
    with True have len: "length tail \<in> {10, 11}" by auto
    then have tail: "tail = take (length tail - 8) tail @ last_n 8 tail" "length (last_n 8 tail) = 8"
      using split_last [of 8 tail] by auto
    have "only_digits needle = ''55'' @ take (length tail - 8) tail @ last_n 8 tail" using ds tail(1) by simp
    moreover have "length (take (length tail - 8) tail) \<in> {2, 3}" using len by auto
    moreover have "(ddd, base) = (take 2 (take (length tail - 8) tail), last_n 8 tail)"
      using parse_br_phone_international [OF calculation(1) tail(2) calculation(2)] assms by simp
    ultimately show thesis using international tail(2) by blast
  next
    case False
    with n have len: "length ?ds \<le> 11" by auto
    let ?rest = "take (length ?ds - 8) ?ds"
    have split: "?ds = ?rest @ last_n 8 ?ds" "length (last_n 8 ?ds) = 8" using split_last n by auto
    have "length ?rest \<le> 3" using len by simp
    with parse_br_phone_local [OF split this] assms split show thesis using national by fastforce
  qed
qed

lemma phone_forms:
  assumes "ddd \<noteq> []"
  shows "parse_br_phone_digits needle = Some (ddd, base8) \<longleftrightarrow> length ddd = 2 \<and> length base8 = 8 \<and>
    (\<exists>x. only_digits needle \<in> {ddd @ base8, ddd @ [x] @ base8, ''55'' @ ddd @ base8, ''55'' @ ddd @ [x] @ base8})"
    (is "?parse \<longleftrightarrow> ?form")
proof
  have rest: "length rest = 2 \<Longrightarrow> rest = take 2 rest"
    "length rest = 3 \<Longrightarrow> \<exists>x. rest = take 2 rest @ [x]" for rest :: string
    by (simp_all add: numeral_2_eq_2 numeral_3_eq_3 length_Suc_conv) auto
  assume ?parse
  then show ?form
  proof (cases rule: parse_br_phone_cases)
    case (national rest)
    with assms have "length rest = 2 \<or> length rest = 3" by (auto split: if_splits)
    with national rest [of rest] show ?thesis by (auto simp del: append_assoc)
  next
    case (international rest)
    with rest [of rest] show ?thesis by (auto simp del: append_assoc)
  qed
next
  assume ?form
  then obtain x where len: "length ddd = 2" "length base8 = 8" and
    "only_digits needle = ddd @ base8 \<or> only_digits needle = (ddd @ [x]) @ base8 \<or>
     only_digits needle = ''55'' @ ddd @ base8 \<or> only_digits needle = ''55'' @ (ddd @ [x]) @ base8" by auto
  then show ?parse
    using parse_br_phone_local [of needle ddd base8] parse_br_phone_local [of needle "ddd @ [x]" base8]
      parse_br_phone_international [of needle ddd base8] parse_br_phone_international [of needle "ddd @ [x]" base8]
    by auto
qed

lemma parse_without_area:
  "parse_br_phone_digits needle = Some ([], base8) \<longleftrightarrow> length base8 = 8 \<and>
    (\<exists>x. only_digits needle \<in> {base8, [x] @ base8})"
    (is "?parse \<longleftrightarrow> ?form")
proof
  assume ?parse
  then show ?form
  proof (cases rule: parse_br_phone_cases)
    case (national rest)
    then have "\<not> 2 \<le> length rest" by (auto split: if_splits)
    then have "length rest = 0 \<or> length rest = 1" by arith
    with national show ?thesis by (auto simp: length_Suc_conv)
  qed auto
next
  assume ?form
  then show ?parse
    using parse_br_phone_local [of needle "[]" base8] parse_br_phone_local [of needle "[x]" base8 for x] by auto
qed

text \<open>C13. A search term parses to an area code and eight digits exactly when its digits spell them in one
  of four forms: with or without the country code 55, and with or without one digit before the eight;
  punctuation does not matter. It parses to eight digits without an area code exactly when its digits are the
  eight, or the eight after one digit. In the place of the ninth digit any digit is accepted, not only a 9:
  the numbers that parse are those of these forms, which a foreign number of ten or eleven digits has as well.\<close>

theorem phone_forms_roundtrip:
  "parse_br_phone_digits needle = Some (ddd, base8) \<longleftrightarrow> length base8 = 8 \<and>
    (if ddd = [] then \<exists>x. only_digits needle \<in> {base8, [x] @ base8}
     else length ddd = 2 \<and> (\<exists>x. only_digits needle \<in>
       {ddd @ base8, ddd @ [x] @ base8, ''55'' @ ddd @ base8, ''55'' @ ddd @ [x] @ base8}))"
  using phone_forms [of ddd needle base8] parse_without_area [of needle base8] by auto

theorem phone_forms_roundtrip_witness:
  "parse_br_phone_digits ''+55 (84) 9 9212-6050'' = Some (''84'', ''92126050'')"
  by (subst phone_forms_roundtrip) (auto simp: only_digits_def is_digit_def)

text \<open>A number of the United States reads as a Brazilian one, although the docstring speaks of the ninth digit.\<close>

lemma foreign_number_parses:
  "parse_br_phone_digits ''+1 (415) 555-2671'' = Some (''14'', ''55552671'')"
  by (subst phone_forms) (auto simp: only_digits_def is_digit_def)

section \<open>Finding a number\<close>

text \<open>The WhatsApp URN of a Brazilian mobile number, with or without the ninth digit.\<close>

definition br_urn :: "string \<Rightarrow> bool \<Rightarrow> string \<Rightarrow> string" where
  "br_urn ddd nine base8 = ''whatsapp:55'' @ ddd @ (if nine then ''9'' else []) @ base8"

lemma prefix_of_br_urn:
  assumes "length ddd = 2" "length d = 2" "length base8 = 8" "length b = 8"
  shows "starts_with (br_urn ddd nine base8) (br_urn d nine' b) \<longleftrightarrow> ddd = d \<and>
    (nine = nine' \<and> base8 = b \<or> \<not> nine \<and> nine' \<and> base8 = CHR ''9'' # butlast b)"
  using assms by (cases nine; cases nine')
    (auto simp: br_urn_def starts_with_def butlast_conv_take take_Cons' split: if_splits)

text \<open>What a search with an area code finds among the WhatsApp numbers of Brazilian mobiles:
  the number searched for, stored with or without the ninth digit, and also every number of that area
  whose ninth digit and first seven digits spell the eight digits searched for, because the two
  prefixes are not anchored at the end.\<close>

theorem ninth_digit_search_finds:
  assumes "parse_br_phone_digits needle = Some (ddd, base8)" and "ddd \<noteq> []"
    and "row field = Some (br_urn d nine b)" and "length d = 2" and "length b = 8"
  shows "\<exists>q. phone_urn_q needle field = Some q \<and>
    (holds look row q \<longleftrightarrow> d = ddd \<and> (b = base8 \<or> nine \<and> base8 = CHR ''9'' # butlast b))"
proof -
  have len: "length ddd = 2" "length base8 = 8"
    using assms(1,2) phone_forms by auto
  have "phone_urn_q needle field = Some (Cond_Or (Startswith field (br_urn ddd False base8))
      (Startswith field (br_urn ddd True base8)))"
    using assms(1,2) by (simp add: phone_urn_q_def br_urn_def)
  then show ?thesis
    using prefix_of_br_urn [OF len(1) assms(4) len(2) assms(5)] assms(3) by auto
qed

theorem ninth_digit_search_finds_witness:
  "\<exists>q. phone_urn_q ''(84) 9212-6050'' ''urn'' = Some q \<and>
     holds (\<lambda>_ _ _. False) [''urn'' \<mapsto> ''whatsapp:5584921260507''] q"
proof -
  have "parse_br_phone_digits ''(84) 9212-6050'' = Some (''84'', ''92126050'')"
    by (simp add: parse_br_phone_digits_def only_digits_def is_digit_def last_n_def)
  from ninth_digit_search_finds [OF this, of "[''urn'' \<mapsto> ''whatsapp:5584921260507'']" "''urn''" "''84''" True
      "''21260507''" "\<lambda>_ _ _. False"]
  show ?thesis by (simp add: br_urn_def)
qed

section \<open>Documents and filters\<close>

lemma is_alnum_upper: "is_alnum c \<Longrightarrow> is_alnum (upper_char c)"
  by (auto simp: is_alnum_def upper_char_def is_digit_def Let_def)

lemma upper_char_idem: "upper_char (upper_char c) = upper_char c"
  by (auto simp: upper_char_def Let_def)

lemma normalize_document_idem: "normalize_document (normalize_document v) = normalize_document v"
proof -
  have "filter is_alnum (map upper_char (filter is_alnum v)) = map upper_char (filter is_alnum v)"
    by (auto simp: filter_id_conv is_alnum_upper)
  then show ?thesis by (simp add: normalize_document_def upper_char_idem)
qed

lemma contact_save_idem: "contact_save (contact_save c) = contact_save c"
  by (auto simp: contact_save_def option.map_comp o_def normalize_document_idem cong: option.map_cong)

text \<open>When a term matches a search field of a row.\<close>

definition field_hit ::
  "(string \<Rightarrow> string \<Rightarrow> row \<Rightarrow> bool) \<Rightarrow> (string \<Rightarrow> string) \<Rightarrow> bool \<Rightarrow> row \<Rightarrow> string \<Rightarrow> string \<Rightarrow> bool" where
  "field_hit look construct enabled row needle f \<longleftrightarrow>
     (let bare = strip_search_prefix f in
      if ends_with ''document'' bare
      then normalize_document needle \<noteq> [] \<and> look (construct f) (normalize_document needle) row
      else look (construct f) needle row \<or>
        ends_with ''urn'' bare \<and> enabled \<and> (\<exists>q. phone_urn_q needle bare = Some q \<and> holds look row q))"

lemma holds_any_of: "holds look row (any_of q qs) \<longleftrightarrow> holds look row q \<or> (\<exists>x\<in>set qs. holds look row x)"
  by (induction qs arbitrary: q) auto

lemma field_search_hit:
  "field_hit look construct enabled row needle f \<longleftrightarrow>
     (\<exists>q. build_field_search_q construct f needle enabled = Some q \<and> holds look row q)"
  by (auto simp: field_hit_def build_field_search_q_def Let_def split: option.split)

lemma search_conditions_hit:
  "(\<exists>qs. search_conditions construct search_fields enabled terms = Some qs \<and> list_all (holds look row) qs) \<longleftrightarrow>
     (\<forall>t\<in>set terms. \<exists>f\<in>set search_fields. field_hit look construct enabled row t f)"
proof (induction terms)
  case Nil
  show ?case by simp
next
  case (Cons t ts)
  let ?qs = "List.map_filter (\<lambda>f. build_field_search_q construct f t enabled) search_fields"
  have hit: "(\<exists>f\<in>set search_fields. field_hit look construct enabled row t f) \<longleftrightarrow> (\<exists>q\<in>set ?qs. holds look row q)"
    by (force simp: field_search_hit List.map_filter_def)
  show ?case
  proof (cases ?qs)
    case Nil
    with hit show ?thesis by simp
  next
    case (Cons q qs)
    with hit Cons.IH show ?thesis by (auto simp: holds_any_of)
  qed
qed

text \<open>A search filter returns the rows, in their order, in which every term matches some search
  field, where a document is compared in its normal form and a URN also with the ninth digit added or
  dropped; a term that is empty in normal form matches no document.\<close>

theorem search_filter_spec:
  assumes "search_fields \<noteq> []"
  shows "filter_queryset look construct search_fields terms enabled rows =
    filter (\<lambda>row. \<forall>t\<in>set terms. \<exists>f\<in>set search_fields. field_hit look construct enabled row t f) rows"
proof -
  have "filter (\<lambda>row. \<forall>t\<in>set terms. \<exists>f\<in>set search_fields. field_hit look construct enabled row t f) rows =
      filter (\<lambda>row. \<exists>qs. search_conditions construct search_fields enabled terms = Some qs \<and>
        list_all (holds look row) qs) rows"
    by (simp only: search_conditions_hit)
  also have "\<dots> = filter_queryset look construct search_fields terms enabled rows"
    using assms by (auto simp: filter_queryset_def filter_id_conv split: option.split)
  finally show ?thesis by simp
qed

theorem search_filter_spec_witness:
  "filter_queryset (\<lambda>_ _ _. False) id [''urn'', ''document''] [''84992126050''] True
     [[''urn'' \<mapsto> ''whatsapp:558492126050''], [''urn'' \<mapsto> ''whatsapp:551192126050'']] =
     [[''urn'' \<mapsto> ''whatsapp:558492126050'']]"
proof -
  have "phone_urn_q ''84992126050'' ''urn'' = Some (Cond_Or (Startswith ''urn'' ''whatsapp:558492126050'')
      (Startswith ''urn'' ''whatsapp:5584992126050''))"
    by (simp add: phone_urn_q_def parse_br_phone_digits_def only_digits_def is_digit_def last_n_def)
  then show ?thesis
    by (subst search_filter_spec)
      (simp_all add: field_hit_def strip_search_prefix_def ends_with_def starts_with_def Let_def)
qed

end
