(* ===== verification/Room_Opening.thy ===== *)
theory Room_Opening
  imports Inactivity Phone_Search
begin

text \<open>
  Opening a room from outside: \<open>RoomFlowViewSet.create\<close> (\<open>chats/apps/api/v1/external/rooms/viewsets.py\<close>)
  and \<open>RoomFlowSerializer.create\<close> (\<open>serializers.py\<close>), which put the pieces together: working hours, the
  contact, its flow starts, the agent of the new room, the limit of the queue and the message history.

  \<^item> \<open>room_request\<close> is the validated request. A field that the request may leave out is an \<open>option\<close>; a
    \<open>contact\<close> and the direction of a history message are present, an absent URN is the empty string and
    \<open>rq_urn = None\<close> is an explicit null. A null text column is the empty string.
  \<^item> \<open>opening_context\<close> holds what the request finds around it: the environment, the answer of the working-hours
    validator, the routing task run in place, \<open>Room.trigger_default_message\<close> over its cache, and the
    primary keys that \<open>uuid4\<close> gives to a new contact and a new room.
  \<^item> The request is one transaction; what \<open>transaction.on_commit\<close> registers runs after it.
\<close>

section \<open>Requests\<close>

record history_message =
  hm_direction :: string
  hm_text :: "string option"
  hm_created_on :: "timestamp option"
  hm_attachments :: "(string \<times> string) list"

record room_request =
  rq_queue :: "uuid option"
  rq_sector :: "uuid option"
  rq_user :: "email option"
  rq_created_on :: "timestamp option"
  rq_external_id :: string
  rq_document :: "string option option"
  rq_contact_columns :: "(string \<times> json) list"
  rq_urn :: "string option"
  rq_groups :: "string list"
  rq_is_anon :: bool
  rq_flow :: "string option"
  rq_ticket :: "uuid option"
  rq_callback_url :: "string option"
  rq_custom_fields :: "json option"
  rq_is_waiting :: bool
  rq_protocol :: "string option"
  rq_project_info :: "(string \<times> json) list"
  rq_history :: "history_message list"
  rq_requested_by :: "email option"
  rq_auth_project :: "uuid option"

record opening_context =
  op_env :: env
  op_hours :: "sector \<Rightarrow> timestamp \<Rightarrow> exn option"
  op_route_now :: "uuid \<Rightarrow> (world, unit) py"
  op_default_message :: "room \<Rightarrow> (world, unit) py"
  op_contact_pk :: uuid
  op_room_pk :: uuid

section \<open>Queue, sector and working time\<close>

definition get_queue_and_sector :: "room_request \<Rightarrow> (world, queue \<times> sector) py" where
  "get_queue_and_sector rq =
     (if rq_queue rq = None \<and> rq_sector rq = None
      then raise (ValidationError ''Can't create a room without queue_uuid or sector_uuid'')
      else bnd (need (ValidationError ''No active queue found for the provided sector_uuid'') (\<lambda>w.
          case rq_queue rq of Some k \<Rightarrow> find (\<lambda>q. que_uuid q = k) (live_queues w)
          | None \<Rightarrow> find (\<lambda>q. Some (que_sector q) = rq_sector rq) (live_queues w))) (\<lambda>q.
        bnd (need AttributeError (\<lambda>w. sector_of_queue w q)) (\<lambda>s.
        if rq_sector rq \<notin> {None, Some []} \<and> rq_sector rq \<noteq> Some (sec_uuid s)
        then raise (ValidationError ''queue_uuid doesn't belong to the provided sector_uuid'')
        else ret (q, s))))"

text \<open>\<open>Sector.validate_agent_status()\<close> without a queue: the join does not look at deleted rows.\<close>

definition validate_agent_status :: "world \<Rightarrow> sector \<Rightarrow> bool" where
  "validate_agent_status w s \<longleftrightarrow> sec_open_offline s \<or>
     list_ex (\<lambda>q. que_sector q = sec_uuid s \<and>
        list_ex (\<lambda>a. qau_queue a = que_uuid q \<and>
           (case find_permission_pk w (qau_permission a) of None \<Rightarrow> False | Some p \<Rightarrow> prm_status p = ''ONLINE''))
        (queue_auths w)) (live_queues w)"

definition check_work_time :: "opening_context \<Rightarrow> sector \<Rightarrow> timestamp \<Rightarrow> (world, unit) py" where
  "check_work_time cx s at =
     (case op_hours cx s at of Some e \<Rightarrow> raise e
      | None \<Rightarrow> bnd (gets (\<lambda>w. validate_agent_status w s)) (\<lambda>online.
          if online then ret ()
          else raise (ValidationError ''No chat can start while representatives are offline'')))"

text \<open>\<open>validated_data.get("custom_fields", {}).pop(key, None)\<close>.\<close>

fun pop_custom_field :: "string \<Rightarrow> json option \<Rightarrow> exn + json \<times> json option" where
  "pop_custom_field k None = Inr (JNull, None)"
| "pop_custom_field k (Some (JObj kvs)) = Inr (obj_get kvs k JNull, Some (JObj (filter (\<lambda>kv. fst kv \<noteq> k) kvs)))"
| "pop_custom_field k (Some (JList xs)) = Inl TypeError"
| "pop_custom_field k (Some _) = Inl AttributeError"

fun column_text :: "json \<Rightarrow> string" where
  "column_text JNull = []"
| "column_text (JStr s) = s"
| "column_text v = json_dumps v"

text \<open>The protocol and the service chat of the room, and the custom fields that are left.\<close>

definition protocol_and_service :: "room_request \<Rightarrow> exn + string \<times> string \<times> json option" where
  "protocol_and_service rq =
     (case (case rq_protocol rq of
              Some (c # cs) \<Rightarrow> Inr (c # cs, rq_custom_fields rq)
            | _ \<Rightarrow> map_sum id (\<lambda>(v, cf). (column_text v, cf)) (pop_custom_field ''protocol'' (rq_custom_fields rq))) of
        Inl e \<Rightarrow> Inl e
      | Inr (protocol, cf) \<Rightarrow>
          map_sum id (\<lambda>(v, cf'). (protocol, column_text v, cf')) (pop_custom_field ''service_chats'' cf))"

definition handle_urn :: "room_request \<Rightarrow> exn + string" where
  "handle_urn rq = (case rq_urn rq of None \<Rightarrow> Inl AttributeError
     | Some urn \<Rightarrow> Inr (if rq_is_anon rq then [] else takeWhile (\<lambda>c. c \<noteq> CHR ''?'') urn))"

section \<open>The contact and its flow starts\<close>

definition find_contact :: "world \<Rightarrow> string \<Rightarrow> contact option" where
  "find_contact w external_id = find (\<lambda>c. con_external_id c = Some external_id) (contacts w)"

text \<open>What \<open>update_or_create\<close> and \<open>Contact.save\<close> make of a row.\<close>

definition merge_contact :: "room_request \<Rightarrow> contact \<Rightarrow> contact" where
  "merge_contact rq c = c\<lparr>con_document := map_option normalize_document
       (case rq_document rq of None \<Rightarrow> con_document c | Some d \<Rightarrow> d),
     con_columns := fold (\<lambda>(k, v). dict_set k v) (rq_contact_columns rq) (con_columns c)\<rparr>"

definition update_or_create_contact :: "opening_context \<Rightarrow> room_request \<Rightarrow> (world, uuid \<times> bool) py" where
  "update_or_create_contact cx rq = bnd (gets (\<lambda>w. find_contact w (rq_external_id rq))) (\<lambda>found.
     case found of
       None \<Rightarrow> andthen (modify (\<lambda>w. w\<lparr>contacts := contacts w @ [merge_contact rq
            \<lparr>con_uuid = op_contact_pk cx, con_external_id = Some (rq_external_id rq), con_document = None,
             con_columns = []\<rparr>]\<rparr>)) (ret (op_contact_pk cx, True))
     | Some c \<Rightarrow> andthen (modify (\<lambda>w. w\<lparr>contacts :=
            update_where (\<lambda>x. con_uuid x = con_uuid c) (\<lambda>_. merge_contact rq c) (contacts w)\<rparr>))
          (ret (con_uuid c, False)))"

definition newest_first :: "flow_start list \<Rightarrow> flow_start list" where
  "newest_first fs = sort_key (\<lambda>f. - flo_created_on f) fs"

text \<open>The flow starts of the contact that have a room; the join returns one row per reference.\<close>

definition room_flow_starts :: "world \<Rightarrow> uuid \<Rightarrow> string \<Rightarrow> flow_start list" where
  "room_flow_starts w prj external_id =
     concat (map (\<lambda>f. map (\<lambda>_. f) (filter (\<lambda>x. x = external_id) (flo_references f)))
       (filter (\<lambda>f. flo_project f = prj \<and> flo_room f \<noteq> None \<and> \<not> flo_is_deleted f) (flow_starts w)))"

definition delete_flow_start :: "flow_start \<Rightarrow> (world, unit) py" where
  "delete_flow_start f = modify (\<lambda>w. w\<lparr>flow_starts :=
     update_where (\<lambda>x. flo_id x = flo_id f) (\<lambda>_. f\<lparr>flo_is_deleted := True\<rparr>) (flow_starts w)\<rparr>)"

definition close_flow_start_room :: "env \<Rightarrow> flow_start \<Rightarrow> (world, unit) py" where
  "close_flow_start_room env f = andthen (delete_flow_start f)
     (bnd (need AttributeError (\<lambda>w. Option.bind (flo_room f) (find_room w))) (\<lambda>r.
      when_true (rm_is_active r) (bnd (load_room (rm_uuid r)) (\<lambda>ob.
        andthen (room_close env (Some []) ''new_room'' None ob) (close_room env (generate_metrics env) (rm_uuid r))))))"

definition ignores_open_rooms :: "project \<Rightarrow> bool" where
  "ignores_open_rooms p = truthy (project_config_get p ''ignore_close_rooms_on_flow_start'' (JBool False))"

definition get_active_room_flow_start ::
  "env \<Rightarrow> string \<Rightarrow> string option \<Rightarrow> project \<Rightarrow> (world, room_obj option) py" where
  "get_active_room_flow_start env external_id flow p =
     bnd (gets (\<lambda>w. newest_first (filter (\<lambda>f. flo_flow f = flow) (room_flow_starts w (prj_uuid p) external_id)))) (\<lambda>fs.
     case fs of
       f # _ \<Rightarrow>
         bnd (need AttributeError (\<lambda>w. Option.bind (flo_room f) (find_room w))) (\<lambda>r.
         if rm_is_active r then andthen (delete_flow_start f) (bnd (load_room (rm_uuid r)) (\<lambda>ob. ret (Some ob)))
         else ret None)
     | [] \<Rightarrow> if ignores_open_rooms p then ret None
         else bnd (gets (\<lambda>w. room_flow_starts w (prj_uuid p) external_id)) (\<lambda>all_starts.
           andthen (for_each (close_flow_start_room env) all_starts) (ret None)))"

definition get_last_flow_start :: "world \<Rightarrow> string \<Rightarrow> string list \<Rightarrow> uuid \<Rightarrow> string option \<Rightarrow> flow_start option" where
  "get_last_flow_start w external_id groups prj flow =
     find (\<lambda>f. flo_project f = prj \<and> list_ex (\<lambda>x. x \<in> set (groups @ [external_id])) (flo_references f)
               \<and> (flow \<in> {None, Some []} \<or> flo_flow f = flow)) (newest_first (flow_starts w))"

definition get_linked_user :: "world \<Rightarrow> uuid \<Rightarrow> uuid \<Rightarrow> link_contact option" where
  "get_linked_user w contact prj = find (\<lambda>l. lin_contact l = contact \<and> lin_project l = prj) (link_contacts w)"

section \<open>The message history\<close>

definition get_is_waiting :: "world \<Rightarrow> room \<Rightarrow> bool" where
  "get_is_waiting w r \<longleftrightarrow> rm_is_waiting r \<or>
     list_ex (\<lambda>f. flo_room f = Some (rm_uuid r) \<and> \<not> flo_is_deleted f) (flow_starts w)"

definition incoming :: "history_message \<Rightarrow> bool" where
  "incoming h \<longleftrightarrow> hm_direction h = ''incoming''"

definition history_row :: "room \<Rightarrow> nat \<Rightarrow> history_message \<Rightarrow> timestamp \<Rightarrow> message" where
  "history_row r pk h at = \<lparr>msg_id = pk, msg_created_on = at, msg_room = rm_uuid r, msg_user = None,
     msg_contact = (if incoming h then rm_contact r else None),
     msg_text = (case hm_text h of None \<Rightarrow> [] | Some t \<Rightarrow> t), msg_seen = False, msg_automatic = None,
     msg_medias = hm_attachments h\<rparr>"

text \<open>One row of the \<open>bulk_create\<close>; a null time breaks the constraint of the column.\<close>

definition create_history_row :: "room \<Rightarrow> history_message \<Rightarrow> (world, message) py" where
  "create_history_row r h = (case hm_created_on h of
     None \<Rightarrow> raise (IntegrityError ''created_on'')
   | Some at \<Rightarrow> bnd new_id (\<lambda>pk. let m = history_row r pk h at in
       andthen (modify (\<lambda>w. w\<lparr>messages := messages w @ [m]\<rparr>)) (ret m)))"

definition process_message_history ::
  "opening_context \<Rightarrow> room_obj \<Rightarrow> history_message list \<Rightarrow> (world, room_obj) py" where
  "process_message_history cx ob hs =
     bnd (gets (\<lambda>w. (get_is_waiting w (ob_row ob), is_24h_valid_now (op_env cx) w (ob_row ob)))) (\<lambda>(waiting, valid).
     if list_ex (\<lambda>h. hm_text h = None \<and> hm_attachments h = []) hs
     then raise (ValidationError ''Cannot create message without text or media'')
     else
      let any_incoming = list_ex incoming hs;
          ob1 = (if any_incoming \<and> waiting then set_row (\<lambda>r. r\<lparr>rm_is_waiting := False\<rparr>) ob else ob)
      in bnd (if any_incoming \<and> (waiting \<or> \<not> valid) then room_save (op_env cx) None ob1 else ret ob1) (\<lambda>ob2.
         if hs = [] then ret ob2
         else bnd (atomic (fold_each (\<lambda>h ms. bnd (create_history_row (ob_row ob2) h) (\<lambda>m. ret (ms @ [m]))) hs [])) (\<lambda>ms.
           andthen (sequence
             [notify_room (op_env cx) (ob_row ob2) ''create'' False,
              when_true (rm_user (ob_row ob2) = None \<and> rm_contact (ob_row ob2) \<noteq> None \<and> any_incoming)
                (op_default_message cx (ob_row ob2)),
              on_new_message (\<lambda>x. andthen (reset_inactivity (op_env cx) x) (ret ())) ob2 (last ms)
                (msg_contact (last ms)) (int (length ms))])
             (ret ob2))))"

section \<open>Creating the room\<close>

text \<open>\<open>validate_unique_active_project\<close>: an open room of the contact is an error, or gets the new callback
  and ticket when the project says so.\<close>

definition callback_and_ticket :: "room \<Rightarrow> room \<Rightarrow> room" where
  "callback_and_ticket r row = row\<lparr>rm_callback_url := rm_callback_url r, rm_ticket_uuid := rm_ticket_uuid r\<rparr>"

definition open_room_of :: "world \<Rightarrow> uuid \<Rightarrow> uuid \<Rightarrow> room option" where
  "open_room_of w contact prj =
     find (\<lambda>r. rm_is_active r \<and> rm_contact r = Some contact \<and> room_in_project w prj r) (rooms w)"

definition validate_unique_active_project ::
  "env \<Rightarrow> room_request \<Rightarrow> uuid \<Rightarrow> project \<Rightarrow> (world, room_obj option) py" where
  "validate_unique_active_project env rq contact p =
     bnd (gets (\<lambda>w. open_room_of w contact (prj_uuid p))) (\<lambda>found.
     case found of None \<Rightarrow> ret None
     | Some r \<Rightarrow>
         if \<not> ignores_open_rooms p
         then raise (ValidationError ''The contact already has an open room in the project'')
         else bnd (load_room (rm_uuid r)) (\<lambda>ob.
           andthen (request_callback env (ob_row ob))
           (bnd (room_save env (Some callback_and_ticket)
                  (set_row (\<lambda>r. r\<lparr>rm_callback_url := rq_callback_url rq, rm_ticket_uuid := rq_ticket rq\<rparr>) ob))
             (\<lambda>ob'. ret (Some ob')))))"

text \<open>The room of an active flow start takes over the callback and the ticket that the request brings.\<close>

definition reuse_flow_start_room :: "opening_context \<Rightarrow> room_request \<Rightarrow> room_obj \<Rightarrow> (world, room_obj) py" where
  "reuse_flow_start_room cx rq ob =
     (let with_url = (case rq_callback_url rq of None \<Rightarrow> id | Some u \<Rightarrow> set_row (\<lambda>r. r\<lparr>rm_callback_url := Some u\<rparr>));
          with_ticket = (case rq_ticket rq of None \<Rightarrow> id | Some t \<Rightarrow> set_row (\<lambda>r. r\<lparr>rm_ticket_uuid := Some t\<rparr>));
          ob1 = with_ticket (with_url ob);
          columns = (\<lambda>r row. let row1 = (if rq_callback_url rq = None then row else row\<lparr>rm_callback_url := rm_callback_url r\<rparr>)
             in if rq_ticket rq = None then row1 else row1\<lparr>rm_ticket_uuid := rm_ticket_uuid r\<rparr>)
      in bnd (if rq_callback_url rq = None \<and> rq_ticket rq = None then ret ob1
              else andthen (request_callback (op_env cx) (ob_row ob1)) (room_save (op_env cx) (Some columns) ob1)) (\<lambda>ob2.
         if rq_history rq = [] then ret ob2 else process_message_history cx ob2 (rq_history rq)))"

definition validate_queue_limit :: "queue \<Rightarrow> (world, unit) py" where
  "validate_queue_limit q =
     (if \<not> que_is_queue_limit_active q then ret ()
      else bnd (gets (\<lambda>w. queued_rooms_count w (que_uuid q))) (\<lambda>count.
        if (case que_queue_limit q of None \<Rightarrow> 0 | Some n \<Rightarrow> n) \<le> count
        then raise (PermissionDenied ''human_support_queue_limit_reached'') else ret ()))"

definition room_row ::
  "opening_context \<Rightarrow> room_request \<Rightarrow> queue \<Rightarrow> project \<Rightarrow> uuid \<Rightarrow> email option \<Rightarrow> string \<Rightarrow> string \<times> string \<times> json option \<Rightarrow> room" where
  "room_row cx rq q p contact user urn cols =
     \<lparr>rm_uuid = op_room_pk cx, rm_created_on = env_now (op_env cx), rm_user = user, rm_contact = Some contact,
      rm_queue = Some (que_uuid q), rm_custom_fields = snd (snd cols), rm_urn = urn, rm_project_uuid = prj_uuid p,
      rm_ticket_uuid = rq_ticket rq, rm_callback_url = rq_callback_url rq, rm_ended_at = None, rm_ended_by = None,
      rm_closed_by = None, rm_is_active = True, rm_is_waiting = rq_is_waiting rq, rm_transfer_history = None,
      rm_full_transfer_history = Some [], rm_tags = [], rm_protocol = fst cols, rm_service_chat = fst (snd cols),
      rm_first_user_assigned_at = None, rm_user_assigned_at = None, rm_added_to_queue_at = None,
      rm_unread_messages_count = 0, rm_last_unread_message_at = None, rm_last_interaction = None,
      rm_last_message = None, rm_last_message_text = Some [], rm_last_message_user = None,
      rm_last_message_contact = None, rm_last_message_media = [], rm_automatic_message_sent_at = None,
      rm_is_inactive = False, rm_automatic_closed = False, rm_config = Some (rq_project_info rq)\<rparr>"

text \<open>\<open>Room.objects.create(...)\<close> and \<open>RoomMetrics.objects.create(room=room)\<close>.\<close>

definition insert_room :: "env \<Rightarrow> room \<Rightarrow> (world, room_obj) py" where
  "insert_room env r = bnd (room_save env None (new_room r)) (\<lambda>ob.
     andthen (modify (\<lambda>w. w\<lparr>metrics := metrics w @ [empty_metrics (rm_uuid r)]\<rparr>)) (ret ob))"

definition room_after :: "world \<Rightarrow> uuid \<Rightarrow> uuid \<Rightarrow> flow_start \<Rightarrow> bool" where
  "room_after w contact prj f = list_ex (\<lambda>r. rm_contact r = Some contact \<and> room_in_project w prj r
     \<and> flo_created_on f < rm_created_on r) (rooms w)"

text \<open>The limit of the queue counts for a room without an agent, unless it answers a flow start.\<close>

definition create_room ::
  "opening_context \<Rightarrow> room_request \<Rightarrow> queue \<Rightarrow> project \<Rightarrow> uuid \<Rightarrow> email option \<Rightarrow> string \<Rightarrow>
   string \<times> string \<times> json option \<Rightarrow> flow_start option \<Rightarrow> (world, room_obj) py" where
  "create_room cx rq q p contact user urn cols flow =
     bnd (gets (\<lambda>w. user = None \<and> (case flow of None \<Rightarrow> True | Some f \<Rightarrow> room_after w contact (prj_uuid p) f))) (\<lambda>limited.
     if limited
     then atomic (bnd (need (DoesNotExist ''Queue'') (\<lambda>w. find (\<lambda>x. que_uuid x = que_uuid q) (live_queues w))) (\<lambda>q'.
       andthen (validate_queue_limit q') (insert_room (op_env cx) (room_row cx rq q' p contact user urn cols))))
     else insert_room (op_env cx) (room_row cx rq q p contact user urn cols))"

definition new_room_for ::
  "opening_context \<Rightarrow> room_request \<Rightarrow> queue \<Rightarrow> sector \<Rightarrow> project \<Rightarrow> uuid \<times> bool \<Rightarrow> string \<Rightarrow>
   string \<times> string \<times> json option \<Rightarrow> (world, room_obj) py" where
  "new_room_for cx rq q s p who urn cols =
     bnd (gets (\<lambda>w. get_last_flow_start w (rq_external_id rq) (rq_groups rq) (prj_uuid p) (rq_flow rq))) (\<lambda>flow.
     bnd (gets (\<lambda>w. get_linked_user w (fst who) (prj_uuid p))) (\<lambda>link.
     bnd (resolve_room_user (op_env cx) (op_route_now cx) q s p (fst who) link (rq_user rq) (snd who) flow) (\<lambda>user.
     bnd (create_room cx rq q p (fst who) user urn cols flow) (\<lambda>ob.
     if rq_history rq = [] then ret ob else process_message_history cx ob (rq_history rq)))))"

definition serializer_create :: "opening_context \<Rightarrow> room_request \<Rightarrow> (world, room_obj) py" where
  "serializer_create cx rq =
     bnd (get_queue_and_sector rq) (\<lambda>(q, s).
     bnd (need AttributeError (\<lambda>w. project_of_sector w s)) (\<lambda>p.
     bnd (lift_result (protocol_and_service rq)) (\<lambda>cols.
     andthen (check_work_time cx s (case rq_created_on rq of None \<Rightarrow> env_now (op_env cx) | Some t \<Rightarrow> t))
     (bnd (lift_result (handle_urn rq)) (\<lambda>urn.
     bnd (update_or_create_contact cx rq) (\<lambda>who.
     bnd (get_active_room_flow_start (op_env cx) (rq_external_id rq) (rq_flow rq) p) (\<lambda>active.
     case active of Some ob \<Rightarrow> reuse_flow_start_room cx rq ob
     | None \<Rightarrow>
       bnd (validate_unique_active_project (op_env cx) rq (fst who) p) (\<lambda>existing.
       case existing of Some ob \<Rightarrow> ret ob
       | None \<Rightarrow> new_room_for cx rq q s p who urn cols))))))))"

section \<open>The request\<close>

definition add_user_or_queue_to_room :: "env \<Rightarrow> room_request \<Rightarrow> room_obj \<Rightarrow> (world, room_obj option) py" where
  "add_user_or_queue_to_room env rq ob =
     (if rq_user rq = None \<and> rq_queue rq = None then ret None
      else let by = map_option Party_User (rq_requested_by rq) in
        bnd (case rq_queue rq of
               Some _ \<Rightarrow> bnd (need AttributeError (\<lambda>w. queue_of w (ob_row ob))) (\<lambda>q.
                 ret (create_transfer_json env ''forward'' Party_None (Party_Queue (que_uuid q) (que_name q)) by))
             | None \<Rightarrow> (case rm_user (ob_row ob) of
                   Some u \<Rightarrow> ret (create_transfer_json env ''forward'' Party_None (Party_User u) by)
                 | None \<Rightarrow> raise (RuntimeError ''UnboundLocalError''))) (\<lambda>feedback.
        bnd (add_transfer_to_history env feedback ob) (\<lambda>ob'.
        andthen (create_room_feedback_message env (ob_row ob') feedback ''rt'') (ret (Some ob')))))"

text \<open>\<open>perform_create\<close>: the result is the room and the notification that waits for the commit.\<close>

definition perform_create :: "opening_context \<Rightarrow> room_request \<Rightarrow> (world, room_obj \<times> bool \<times> string) py" where
  "perform_create cx rq =
     bnd (need AttributeError (\<lambda>w. Option.bind (rq_queue rq) (\<lambda>k.
            Option.bind (find (\<lambda>q. que_uuid q = k) (live_queues w)) (project_of_queue w)))) (\<lambda>p.
     if rq_auth_project rq \<notin> {None, Some (prj_uuid p)}
     then raise (PermissionDenied ''Ticketer token permission failed on room project'')
     else bnd (serializer_create cx rq) (\<lambda>ob.
       bnd (gets (\<lambda>w. list_ex (\<lambda>f. flo_room f = Some (room_pk ob)) (flow_starts w))) (\<lambda>has_starts.
       bnd (if has_starts then ret (Some ob) else add_user_or_queue_to_room (op_env cx) rq ob) (\<lambda>instance.
       case instance of None \<Rightarrow> raise AttributeError
       | Some ob1 \<Rightarrow>
         bnd (load_room (room_pk ob1)) (\<lambda>ob2.
         andthen (case rm_user (ob_row ob2) of None \<Rightarrow> ret ()
           | Some u \<Rightarrow> bnd (need AttributeError (\<lambda>w. queue_of w (ob_row ob2))) (\<lambda>q.
               create_room_assigned_from_queue_feedback (op_env cx) (ob_row ob2) q u))
         (ret (ob2, rm_user (ob_row ob1) \<noteq> None, if has_starts then ''update'' else ''create'')))))))"

text \<open>\<open>serializer.is_valid\<close> rejects a queue that is deleted or unknown.\<close>

definition request_valid :: "world \<Rightarrow> room_request \<Rightarrow> bool" where
  "request_valid w rq \<longleftrightarrow> (case rq_queue rq of None \<Rightarrow> True | Some k \<Rightarrow> list_ex (\<lambda>q. que_uuid q = k) (live_queues w))"

datatype response = Created room | Bad_Request string

definition create_view :: "opening_context \<Rightarrow> room_request \<Rightarrow> (world, response) py" where
  "create_view cx rq = try_except
     (bnd (atomic (bnd (gets (\<lambda>w. request_valid w rq)) (\<lambda>ok.
        if \<not> ok then raise (ValidationError ''queue_uuid'') else perform_create cx rq))) (\<lambda>(ob, to_user, action).
      andthen (if to_user then notify_user (op_env cx) (ob_row ob) action None
               else notify_queue (op_env cx) (ob_row ob) action False)
      (andthen (when_true (rm_user (ob_row ob) \<noteq> None) (send_automatic_message (op_env cx) (ob_row ob)))
        (ret (Created (ob_row ob))))))
     (\<lambda>e. case e of IntegrityError _ \<Rightarrow> ret (Bad_Request ''The contact already have an open room in the especified queue'')
        | _ \<Rightarrow> raise e)"

end
