(* ===== verification/Message_Replies.thy ===== *)
theory Message_Replies
  imports Room_Opening Agent_Messages
begin

text \<open>
  Ids of other services on messages: \<open>chats/apps/msgs/utils.py\<close>, \<open>create_reply_index\<close> of \<open>api/utils.py\<close>,
  \<open>_resolve_reply_index\<close> of the serializers, \<open>set_msg_external_id.py\<close>, the status updates of
  \<open>UpdateStatusMessageUseCase.py\<close> with their task, and the messages that arrive from a contact through
  \<open>api/v1/external/msgs\<close>.

  \<^item> Bytes are numbers below 256. \<open>a2b\<close> is the decoder of Python for base64 that is not strict: it skips what is not in
    the alphabet and ends at a padding that completes a group.
  \<^item> \<open>reply_db\<close> is the world with the table of the index, the columns of messages that no other theory reads, and
    the queue of status updates that a worker keeps in memory.
\<close>

section \<open>The core of a WAMID\<close>

definition b64_value :: "char \<Rightarrow> nat option" where
  "b64_value c = (let n = of_char c :: nat in
     if 65 \<le> n \<and> n \<le> 90 then Some (n - 65) else if 97 \<le> n \<and> n \<le> 122 then Some (n - 71)
     else if 48 \<le> n \<and> n \<le> 57 then Some (n + 4) else if n = 43 then Some 62 else if n = 47 then Some 63 else None)"

text \<open>\<open>a2b q l p s\<close>: \<open>q\<close> characters of the group are read, \<open>l\<close> are the bits that are left of the last one, \<open>p\<close> the
  paddings since then.\<close>

fun a2b :: "nat \<Rightarrow> nat \<Rightarrow> nat \<Rightarrow> string \<Rightarrow> nat list option" where
  "a2b q l p [] = (if q = 0 then Some [] else None)"
| "a2b q l p (c # cs) =
     (if c = CHR ''='' then
        (if 2 \<le> q then (if 4 \<le> q + Suc p then Some [] else a2b q l (Suc p) cs) else a2b q l p cs)
      else case b64_value c of None \<Rightarrow> a2b q l p cs
      | Some v \<Rightarrow>
          if q = 0 then a2b 1 v 0 cs
          else if q = 1 then map_option ((#) (4 * l + v div 16)) (a2b 2 (v mod 16) 0 cs)
          else if q = 2 then map_option ((#) (16 * l + v div 4)) (a2b 3 (v mod 4) 0 cs)
          else map_option ((#) (64 * l + v)) (a2b 0 0 0 cs))"

definition b64decode :: "string \<Rightarrow> nat list option" where
  "b64decode s = (if list_ex (\<lambda>c. 128 \<le> (of_char c :: nat)) s then None else a2b 0 0 0 s)"

definition WAMID_TRAILER_MARKERS :: "nat list list" where
  "WAMID_TRAILER_MARKERS = [[18, 24, 22], [17, 24, 18], [18, 24, 32]]"

text \<open>What follows the last occurrence, \<open>raw[raw.rfind(marker) + len(marker):]\<close>.\<close>

fun after_last :: "nat list \<Rightarrow> nat list \<Rightarrow> nat list option" where
  "after_last m [] = None"
| "after_last m (x # xs) = (case after_last m xs of Some rest \<Rightarrow> Some rest
     | None \<Rightarrow> if take (length m) (x # xs) = m then Some (drop (length m) (x # xs)) else None)"

definition upper_hex :: "nat list \<Rightarrow> string" where
  "upper_hex bs = concat (map (\<lambda>b. [''0123456789ABCDEF'' ! (b div 16), ''0123456789ABCDEF'' ! (b mod 16)]) bs)"

fun first_core :: "nat list \<Rightarrow> nat list list \<Rightarrow> string option" where
  "first_core raw [] = None"
| "first_core raw (m # ms) = (case after_last m raw of
     Some (b # bs) \<Rightarrow> Some (upper_hex (b # bs)) | _ \<Rightarrow> first_core raw ms)"

definition extract_wamid_core :: "string option \<Rightarrow> string option" where
  "extract_wamid_core wamid = (case wamid of None \<Rightarrow> None
     | Some s \<Rightarrow> if \<not> starts_with ''wamid.'' s then None
       else (let encoded = drop 6 s; padded = encoded @ replicate ((4 - length encoded mod 4) mod 4) (CHR ''='') in
         case b64decode padded of None \<Rightarrow> None | Some raw \<Rightarrow> first_core raw WAMID_TRAILER_MARKERS))"

text \<open>The encoder, as the reference: a group of three bytes is four characters.\<close>

definition b64_char :: "nat \<Rightarrow> char" where
  "b64_char v = char_of (if v < 26 then v + 65 else if v < 52 then v + 71 else if v < 62 then v - 4 else if v = 62 then 43 else 47)"

fun b64_encode :: "nat list \<Rightarrow> string" where
  "b64_encode [] = []"
| "b64_encode [a] = map b64_char [a div 4, a mod 4 * 16]"
| "b64_encode [a, b] = map b64_char [a div 4, a mod 4 * 16 + b div 16, b mod 16 * 4]"
| "b64_encode (a # b # c # bs) =
     map b64_char [a div 4, a mod 4 * 16 + b div 16, b mod 16 * 4 + c div 64, c mod 64] @ b64_encode bs"

lemma b64_char: "v < 64 \<Longrightarrow> b64_value (b64_char v) = Some v" "b64_char v \<noteq> CHR ''=''" "(of_char (b64_char v) :: nat) < 128"
proof -
  define n where "n = (if v < 26 then v + 65 else if v < 52 then v + 71 else if v < 62 then v - 4 else if v = 62 then 43 else 47)"
  have n: "n < 128" "n \<noteq> 61" by (auto simp: n_def)
  then have c: "(of_char (b64_char v) :: nat) = n" by (simp add: b64_char_def n_def [symmetric])
  show "(of_char (b64_char v) :: nat) < 128" using c n by simp
  show "b64_char v \<noteq> CHR ''=''"
  proof
    assume "b64_char v = CHR ''=''"
    with c have "n = 61" by simp
    with n(2) show False by simp
  qed
  show "v < 64 \<Longrightarrow> b64_value (b64_char v) = Some v" unfolding b64_value_def c Let_def by (auto simp: n_def)
qed

lemma a2b_char:
  assumes "v < 64"
  shows "a2b q l p (b64_char v # cs) =
    (if q = 0 then a2b 1 v 0 cs
     else if q = 1 then map_option ((#) (4 * l + v div 16)) (a2b 2 (v mod 16) 0 cs)
     else if q = 2 then map_option ((#) (16 * l + v div 4)) (a2b 3 (v mod 4) 0 cs)
     else map_option ((#) (64 * l + v)) (a2b 0 0 0 cs))"
  using b64_char(1) [OF assms] b64_char(2) by simp

lemma a2b_pad: "a2b q l p (CHR ''='' # cs) = (if 2 \<le> q then (if 4 \<le> q + Suc p then Some [] else a2b q l (Suc p) cs) else a2b q l p cs)"
  by simp

declare a2b.simps(2) [simp del]

lemma decode_encode:
  assumes "\<forall>b \<in> set bs. b < 256" and "(length (b64_encode bs) + k) mod 4 = 0" and "k < 4"
  shows "a2b 0 0 0 (b64_encode bs @ replicate k (CHR ''='')) = Some bs"
  using assms
proof (induction bs rule: b64_encode.induct)
  case 1
  then have "k = 0" by simp
  then show ?case by simp
next
  case (2 a)
  then have "k = 2" by simp presburger
  moreover have "a div 4 < 64" "a mod 4 * 16 < 64" using 2 by auto
  ultimately show ?case by (simp add: a2b_char a2b_pad numeral_2_eq_2)
next
  case (3 a b)
  then have "k = 1" by simp presburger
  moreover have "a div 4 < 64" "a mod 4 * 16 + b div 16 < 64" "b mod 16 * 4 < 64" "b div 16 < 16" using 3 by auto
  ultimately show ?case by (simp add: a2b_char a2b_pad)
next
  case (4 a b c bs)
  have v: "a div 4 < 64" "a mod 4 * 16 + b div 16 < 64" "b mod 16 * 4 + c div 64 < 64" "c mod 64 < 64" "b div 16 < 16" "c div 64 < 4" using 4 by auto
  have "a2b 0 0 0 (b64_encode bs @ replicate k CHR ''='') = Some bs" using 4 by simp
  then show ?case using 4 by (simp add: a2b_char v)
qed

definition wamid_of :: "bool \<Rightarrow> nat list \<Rightarrow> string" where
  "wamid_of padded raw = ''wamid.'' @ b64_encode raw @
     (if padded then replicate ((4 - length (b64_encode raw) mod 4) mod 4) (CHR ''='') else [])"

text \<open>An envelope: bytes, a marker, and the id of the message; the marker is the last of its kind and no marker that is
  tried before it is followed by anything.\<close>

definition envelope :: "nat list \<Rightarrow> nat list \<Rightarrow> nat list \<Rightarrow> bool" where
  "envelope front m core \<longleftrightarrow> (\<forall>b \<in> set (front @ core). b < 256) \<and> core \<noteq> [] \<and> m \<in> set WAMID_TRAILER_MARKERS \<and>
     after_last m (tl m @ core) = None \<and>
     (\<forall>m' \<in> set (takeWhile (\<lambda>x. x \<noteq> m) WAMID_TRAILER_MARKERS). after_last m' (front @ m @ core) \<in> {None, Some []})"

lemma after_last_append: "after_last m ys = Some rest \<Longrightarrow> after_last m (xs @ ys) = Some rest"
  by (induction xs) simp_all

lemma after_last_marker:
  assumes "after_last m (tl m @ core) = None" and "m \<noteq> []"
  shows "after_last m (front @ m @ core) = Some core"
proof -
  obtain x xs where m: "m = x # xs" using assms(2) by (cases m) auto
  have "after_last m (m @ core) = Some core" using assms(1) m by simp
  then show ?thesis by (rule after_last_append)
qed

lemma envelope_core:
  assumes "envelope front m core"
  shows "first_core (front @ m @ core) WAMID_TRAILER_MARKERS = Some (upper_hex core)"
proof -
  have "first_core raw ms = Some (upper_hex core)"
    if "m \<in> set ms" "after_last m raw = Some core" "\<forall>m' \<in> set (takeWhile (\<lambda>x. x \<noteq> m) ms). after_last m' raw \<in> {None, Some []}" for raw ms
    using that
  proof (induction ms)
    case (Cons a ms)
    obtain b bs where core: "core = b # bs" using assms by (cases core) (auto simp: envelope_def)
    show ?case
    proof (cases "a = m")
      case True
      then show ?thesis using Cons.prems core by simp
    next
      case False
      then have "after_last a raw \<in> {None, Some []}" "first_core raw ms = Some (upper_hex core)"
        using Cons by auto
      then show ?thesis by auto
    qed
  qed simp
  moreover have "m \<noteq> []" using assms by (auto simp: envelope_def WAMID_TRAILER_MARKERS_def)
  ultimately show ?thesis using assms after_last_marker by (auto simp: envelope_def)
qed

lemma b64_encode_ascii: "c \<in> set (b64_encode bs) \<Longrightarrow> (of_char c :: nat) < 128"
  by (induction bs rule: b64_encode.induct) (auto simp: b64_char(3))

lemma padding_fills: "((n :: nat) + (4 - n mod 4) mod 4) mod 4 = 0" "(4 - n mod 4) mod 4 < (4 :: nat)"
proof -
  let ?r = "n mod 4"
  have "?r < 4" by simp
  then have "?r = 0 \<or> ?r = 1 \<or> ?r = 2 \<or> ?r = 3" by linarith
  then have "(?r + (4 - ?r) mod 4) mod 4 = 0" by (elim disjE) simp_all
  then show "(n + (4 - n mod 4) mod 4) mod 4 = 0" by (metis mod_add_left_eq)
qed simp

lemma decode_wamid:
  assumes "\<forall>b \<in> set raw. b < 256"
  shows "extract_wamid_core (Some (wamid_of padded raw)) = first_core raw WAMID_TRAILER_MARKERS"
proof -
  let ?e = "b64_encode raw" and ?k = "(4 - length (b64_encode raw) mod 4) mod 4"
  have k: "(length ?e + ?k) mod 4 = 0" "?k < 4" by (rule padding_fills)+
  have "b64decode (?e @ replicate ?k CHR ''='') = Some raw"
    using decode_encode [OF assms k] b64_encode_ascii [of _ raw] by (force simp: b64decode_def list_ex_iff)
  then show ?thesis
    by (cases padded) (simp_all add: extract_wamid_core_def wamid_of_def Let_def starts_with_def padding_fills)
qed

lemma hex_digit_inj: "i < 16 \<Longrightarrow> j < 16 \<Longrightarrow> ''0123456789ABCDEF'' ! i = ''0123456789ABCDEF'' ! j \<longleftrightarrow> i = j"
  by (rule nth_eq_iff_index_eq) simp_all

lemma upper_hex_inj:
  assumes "\<forall>b \<in> set xs. b < 256" and "\<forall>b \<in> set ys. b < 256"
  shows "upper_hex xs = upper_hex ys \<longleftrightarrow> xs = ys"
  using assms
proof (induction xs arbitrary: ys)
  case Nil
  then show ?case by (cases ys) (simp_all add: upper_hex_def)
next
  case (Cons x xs)
  show ?case
  proof (cases ys)
    case (Cons y zs)
    have "x div 16 < 16" "y div 16 < 16" using Cons.prems \<open>ys = y # zs\<close> by auto
    then have "upper_hex (x # xs) = upper_hex (y # zs) \<longleftrightarrow> x div 16 = y div 16 \<and> x mod 16 = y mod 16 \<and> upper_hex xs = upper_hex zs"
      by (simp add: upper_hex_def hex_digit_inj)
    moreover have "x div 16 = y div 16 \<and> x mod 16 = y mod 16 \<longleftrightarrow> x = y" by (metis div_mult_mod_eq)
    ultimately show ?thesis using Cons.IH [of zs] Cons.prems \<open>ys = y # zs\<close> by auto
  qed (simp add: upper_hex_def)
qed

text \<open>The core of a WAMID is the id inside its envelope, with or without padding: two WAMIDs of the same message have
  the same core whatever envelopes they come in, and WAMIDs of different messages have different cores.\<close>

theorem wamid_core_identifies:
  assumes "envelope front m core" and "envelope front' m' core'"
  shows "extract_wamid_core (Some (wamid_of p (front @ m @ core))) = Some (upper_hex core) \<and>
    (extract_wamid_core (Some (wamid_of p (front @ m @ core))) = extract_wamid_core (Some (wamid_of p' (front' @ m' @ core')))
       \<longleftrightarrow> core = core')"
proof -
  have bytes: "\<forall>b \<in> set (f @ n @ c). b < 256" if "envelope f n c" for f n c
    using that by (auto simp: envelope_def WAMID_TRAILER_MARKERS_def)
  have "extract_wamid_core (Some (wamid_of q (f @ n @ c))) = Some (upper_hex c)" if "envelope f n c" for q f n c
    using decode_wamid [OF bytes [OF that]] envelope_core [OF that] by simp
  then show ?thesis using assms bytes [OF assms(1)] bytes [OF assms(2)] upper_hex_inj [of core core'] by auto
qed

theorem wamid_core_identifies_witness:
  "extract_wamid_core (Some (wamid_of True ([28, 24, 13] @ [18, 24, 22] @ [55, 56]))) =
   extract_wamid_core (Some (wamid_of False ([28, 24, 19, 7] @ [18, 24, 32] @ [55, 56])))"
proof -
  have "envelope [28, 24, 13] [18, 24, 22] [55, 56]" "envelope [28, 24, 19, 7] [18, 24, 32] [55, 56]" by code_simp+
  then show ?thesis using wamid_core_identifies by blast
qed

section \<open>The index of replies\<close>

record reply_row =
  rp_external_id :: string
  rp_core :: "string option"
  rp_message :: nat
  rp_created_on :: timestamp

record status_update =
  su_message_id :: string
  su_status :: string

record reply_db =
  rd_world :: world
  rd_external :: "nat \<Rightarrow> string option"
  rd_index :: "reply_row list"
  rd_is_read :: "nat \<Rightarrow> string option"
  rd_is_delivered :: "nat \<Rightarrow> string option"
  rd_media :: "(nat \<times> nat) list"
  rd_pending :: "status_update list"

definition find_message :: "world \<Rightarrow> nat \<Rightarrow> message option" where
  "find_message w k = find (\<lambda>m. msg_id m = k) (messages w)"

definition create_reply_index :: "timestamp \<Rightarrow> string option \<Rightarrow> nat \<Rightarrow> reply_row list \<Rightarrow> reply_row list" where
  "create_reply_index now ext m idx = (case ext of None \<Rightarrow> idx | Some e \<Rightarrow>
     if e = [] then idx
     else let core = extract_wamid_core (Some e) in
       if list_ex (\<lambda>x. rp_external_id x = e) idx
       then update_where (\<lambda>x. rp_external_id x = e) (\<lambda>x. x\<lparr>rp_message := m, rp_core := core\<rparr>) idx
       else idx @ [\<lparr>rp_external_id = e, rp_core = core, rp_message = m, rp_created_on = now\<rparr>])"

text \<open>\<open>is_reply_core_fallback_active\<close> with the project that \<open>_resolve_reply_index\<close> finds for a message.\<close>

definition reply_core_fallback :: "env \<Rightarrow> world \<Rightarrow> message \<Rightarrow> bool" where
  "reply_core_fallback env w m = (case find_room w (msg_room m) of None \<Rightarrow> False
     | Some r \<Rightarrow> (let prj = (if rm_project_uuid r \<noteq> [] then Some (rm_project_uuid r) else map_option prj_uuid (project_of w r)) in
         case prj of None \<Rightarrow> False | Some p \<Rightarrow> p \<noteq> [] \<and> flag_attr env ''weniChatsReplyCoreFallback'' p = Some True))"

definition resolve_reply_index :: "env \<Rightarrow> reply_db \<Rightarrow> message \<Rightarrow> string \<Rightarrow> reply_row option" where
  "resolve_reply_index env d m replied_id =
     (case find (\<lambda>x. rp_external_id x = replied_id) (rd_index d) of
        Some x \<Rightarrow> Some x
      | None \<Rightarrow> (case extract_wamid_core (Some replied_id) of
          None \<Rightarrow> None
        | Some core \<Rightarrow>
            if \<not> reply_core_fallback env (rd_world d) m then None
            else (case sort_key (\<lambda>x. - rp_created_on x) (filter (\<lambda>x. rp_core x = Some core \<and>
                  map_option msg_room (find_message (rd_world d) (rp_message x)) = Some (msg_room m)) (rd_index d)) of
               [] \<Rightarrow> None | x # _ \<Rightarrow> Some x)))"

text \<open>\<open>message.save(update_fields=["external_id"])\<close> is \<open>Message.save\<close>, with its checks of the room.\<close>

definition save_external_id :: "env \<Rightarrow> message \<Rightarrow> string \<Rightarrow> (reply_db, unit) py" where
  "save_external_id env m ext d = (case find_room (rd_world d) (msg_room m) of
     None \<Rightarrow> (Inl AttributeError, d)
   | Some r \<Rightarrow>
      if \<not> rm_is_active r then (Inl (ValidationError ''Closed rooms can't receive messages''), d)
      else if \<not> is_24h_valid_now env (rd_world d) r \<and> msg_user m \<noteq> None then (Inl (ValidationError ''You can't send messages after 24h''), d)
      else (Inr (), d\<lparr>rd_external := (rd_external d)(msg_id m := Some ext),
             rd_index := create_reply_index (env_now env) (Some ext) (msg_id m) (rd_index d)\<rparr>))"

text \<open>\<open>SetMsgExternalIdUseCase.execute\<close>: the uuid of a message or of a media; whatever is raised is logged and dropped.\<close>

definition set_msg_external_id :: "env \<Rightarrow> nat \<Rightarrow> string \<Rightarrow> reply_db \<Rightarrow> reply_db" where
  "set_msg_external_id env k ext d = (case find_message (rd_world d) k of
     Some m \<Rightarrow> snd (save_external_id env m ext d)
   | None \<Rightarrow> (case Option.bind (map_of (rd_media d) k) (find_message (rd_world d)) of
       None \<Rightarrow> d | Some m \<Rightarrow> snd (save_external_id env m ext d)))"

text \<open>What \<open>MsgConsumer\<close> does with a message of the queue: both keys or nothing.\<close>

definition consume_external_id :: "env \<Rightarrow> nat option \<Rightarrow> string option \<Rightarrow> reply_db \<Rightarrow> reply_db" where
  "consume_external_id env chats_uuid message_id d = (case (chats_uuid, message_id) of
     (Some k, Some (c # cs)) \<Rightarrow> set_msg_external_id env k (c # cs) d | _ \<Rightarrow> d)"

section \<open>Status updates\<close>

definition read_alias :: "string \<Rightarrow> bool" where
  "read_alias st \<longleftrightarrow> st = ''READ'' \<or> st = ''V''"

definition delivered_alias :: "string \<Rightarrow> bool" where
  "delivered_alias st \<longleftrightarrow> st = ''DELIVERED'' \<or> st = ''D''"

definition upper_char :: "char \<Rightarrow> char" where
  "upper_char c = (let n = of_char c :: nat in if 97 \<le> n \<and> n \<le> 122 then char_of (n - 32) else c)"

definition unset :: "string option \<Rightarrow> bool" where
  "unset x \<longleftrightarrow> x = None \<or> x = Some []"

datatype status_field = Is_Read | Is_Delivered

text \<open>\<open>_apply_status_update\<close>: the field to write, if any; no status is in both sets of aliases.\<close>

definition apply_status_update :: "reply_db \<Rightarrow> nat \<Rightarrow> string \<Rightarrow> status_field option" where
  "apply_status_update d k st =
     (if read_alias st \<and> unset (rd_is_read d k) then Some Is_Read
      else if delivered_alias st \<and> unset (rd_is_delivered d k) then Some Is_Delivered else None)"

definition process_message :: "reply_db \<Rightarrow> status_update \<Rightarrow> (message \<times> status_field) option" where
  "process_message d u = (if su_message_id u = [] then None else
     case find (\<lambda>x. rp_external_id x = su_message_id u) (rd_index d) of None \<Rightarrow> None
     | Some x \<Rightarrow> (case find_message (rd_world d) (rp_message x) of None \<Rightarrow> None
       | Some m \<Rightarrow> (case Option.bind (find_room (rd_world d) (msg_room m)) (project_of (rd_world d)) of None \<Rightarrow> None
         | Some p \<Rightarrow> map_option (Pair m) (apply_status_update d (msg_id m) (map upper_char (su_status u))))))"

text \<open>\<open>Message.objects.bulk_update(messages, [field])\<close>.\<close>

definition write_column :: "status_field \<Rightarrow> nat list \<Rightarrow> reply_db \<Rightarrow> reply_db" where
  "write_column f ks d = (case f of
     Is_Read \<Rightarrow> d\<lparr>rd_is_read := (\<lambda>k. if k \<in> set ks then Some ''read'' else rd_is_read d k)\<rparr>
   | Is_Delivered \<Rightarrow> d\<lparr>rd_is_delivered := (\<lambda>k. if k \<in> set ks then Some ''delivered'' else rd_is_delivered d k)\<rparr>)"

definition notify_for_message :: "env \<Rightarrow> message \<Rightarrow> (world, unit) py" where
  "notify_for_message env m = bnd (gets (\<lambda>w. find_room w (msg_room m))) (\<lambda>found. case found of None \<Rightarrow> ret ()
   | Some r \<Rightarrow> (case rm_user r of None \<Rightarrow> ret ()
     | Some u \<Rightarrow> bnd (need AttributeError (\<lambda>w. project_of w r)) (\<lambda>p.
         bnd (gets (\<lambda>w. project_get_permission w (prj_uuid p) (Some u))) (\<lambda>perm. case perm of None \<Rightarrow> ret ()
         | Some q \<Rightarrow> send_group env (''permission_'' @ prm_uuid q) ''notify'' ''message.status_update''))))"

text \<open>\<open>_bulk_create\<close>: every update of the queue is read against the tables as they are, then each field is written once for
  the messages it changes in, then each change is announced; a notification that fails is dropped.\<close>

definition changed_by :: "reply_db \<Rightarrow> status_update list \<Rightarrow> (message \<times> status_field) list" where
  "changed_by d us = List.map_filter (process_message d) us"

definition ids_for :: "status_field \<Rightarrow> (message \<times> status_field) list \<Rightarrow> nat list" where
  "ids_for f xs = map (msg_id \<circ> fst) (filter (\<lambda>x. snd x = f) xs)"

definition bulk_status_update :: "env \<Rightarrow> reply_db \<Rightarrow> reply_db" where
  "bulk_status_update env d = (let changed = changed_by d (rd_pending d);
       d1 = write_column Is_Delivered (ids_for Is_Delivered changed) (write_column Is_Read (ids_for Is_Read changed) (d\<lparr>rd_pending := []\<rparr>))
     in d1\<lparr>rd_world := snd (for_each (\<lambda>x. try_except (notify_for_message env (fst x)) (\<lambda>e. ret ())) changed (rd_world d1))\<rparr>)"

definition update_status_message :: "env \<Rightarrow> nat \<Rightarrow> status_update \<Rightarrow> reply_db \<Rightarrow> reply_db" where
  "update_status_message env bulk_size u d = (let d' = d\<lparr>rd_pending := rd_pending d @ [u]\<rparr> in
     if bulk_size \<le> length (rd_pending d') then bulk_status_update env d' else d')"

text \<open>The task: an id that is not in the index yet is tried again, \<open>retries\<close> times in all; \<open>True\<close> asks for a retry.\<close>

definition process_message_status :: "env \<Rightarrow> nat \<Rightarrow> nat \<Rightarrow> nat \<Rightarrow> status_update \<Rightarrow> reply_db \<Rightarrow> bool \<times> reply_db" where
  "process_message_status env bulk_size max_retries retries u d =
     (if \<not> list_ex (\<lambda>x. rp_external_id x = su_message_id u) (rd_index d)
      then (int retries < int max_retries - 1, d)
      else (False, update_status_message env bulk_size u d))"

text \<open>The reference: each update is applied when it arrives.\<close>

definition apply_one :: "status_update \<Rightarrow> reply_db \<Rightarrow> reply_db" where
  "apply_one u d = (case process_message d u of None \<Rightarrow> d | Some (m, f) \<Rightarrow> write_column f [msg_id m] d)"

definition status_target :: "reply_db \<Rightarrow> status_update \<Rightarrow> nat option" where
  "status_target d u = (if su_message_id u = [] then None else
     case find (\<lambda>x. rp_external_id x = su_message_id u) (rd_index d) of None \<Rightarrow> None
     | Some x \<Rightarrow> (case find_message (rd_world d) (rp_message x) of None \<Rightarrow> None
       | Some m \<Rightarrow> map_option (\<lambda>_. msg_id m) (Option.bind (find_room (rd_world d) (msg_room m)) (project_of (rd_world d)))))"

definition says :: "status_field \<Rightarrow> status_update \<Rightarrow> bool" where
  "says f u = (case f of Is_Read \<Rightarrow> read_alias (map upper_char (su_status u)) | Is_Delivered \<Rightarrow> delivered_alias (map upper_char (su_status u)))"

definition status_of :: "status_field \<Rightarrow> reply_db \<Rightarrow> nat \<Rightarrow> string option" where
  "status_of f d = (case f of Is_Read \<Rightarrow> rd_is_read d | Is_Delivered \<Rightarrow> rd_is_delivered d)"

definition status_text :: "status_field \<Rightarrow> string" where
  "status_text f = (case f of Is_Read \<Rightarrow> ''read'' | Is_Delivered \<Rightarrow> ''delivered'')"

text \<open>The column after updates that are read against the tables of \<open>d\<close>.\<close>

definition status_after :: "reply_db \<Rightarrow> status_update list \<Rightarrow> status_field \<Rightarrow> nat \<Rightarrow> string option" where
  "status_after d us f k = (if unset (status_of f d k) \<and> (\<exists>u \<in> set us. status_target d u = Some k \<and> says f u)
     then Some (status_text f) else status_of f d k)"

lemma one_alias: "says Is_Read u \<Longrightarrow> \<not> says Is_Delivered u"
  by (auto simp: says_def read_alias_def delivered_alias_def)

lemma processed_iff:
  "(\<exists>m. process_message d u = Some (m, f) \<and> msg_id m = k) \<longleftrightarrow> status_target d u = Some k \<and> says f u \<and> unset (status_of f d k)"
  using one_alias [of u]
  by (cases f) (auto simp: process_message_def status_target_def apply_status_update_def says_def status_of_def
      split: option.splits if_splits)

lemma write_column_of: "status_of g (write_column f ks d) k = (if f = g \<and> k \<in> set ks then Some (status_text f) else status_of g d k)"
  by (cases f; cases g) (simp_all add: write_column_def status_of_def status_text_def)

definition same_lookups :: "reply_db \<Rightarrow> reply_db \<Rightarrow> bool" where
  "same_lookups d d' \<longleftrightarrow> rd_index d' = rd_index d \<and> same_tables (rd_world d) (rd_world d')"

lemma same_target:
  assumes "same_lookups d d'" shows "status_target d' u = status_target d u"
proof -
  have "find_message (rd_world d') = find_message (rd_world d)" "find_room (rd_world d') = find_room (rd_world d)"
    "project_of (rd_world d') = project_of (rd_world d)" "rd_index d' = rd_index d"
    using assms same_tables_lookups [of "rd_world d" "rd_world d'"] by (simp_all add: same_lookups_def find_message_def fun_eq_iff)
  then show ?thesis by (simp only: status_target_def)
qed

lemma same_lookups_refl: "same_lookups d d"
  by (simp add: same_lookups_def tables.R_refl)

lemma same_lookups_trans: "same_lookups d d' \<Longrightarrow> same_lookups d' d'' \<Longrightarrow> same_lookups d d''"
  using tables.R_trans by (auto simp: same_lookups_def)

lemma write_same: "same_lookups d (write_column f ks d)" "rd_pending (write_column f ks d) = rd_pending d"
  "rd_world (write_column f ks d) = rd_world d"
  by (cases f; simp add: write_column_def same_lookups_def tables.R_refl)+

lemma apply_one_status: "status_of f (apply_one u d) k = status_after d [u] f k"
proof (cases "process_message d u")
  case None
  then have "\<not> (status_target d u = Some k \<and> says f u \<and> unset (status_of f d k))" using processed_iff [of d u f k] by simp
  then show ?thesis using None by (auto simp: apply_one_def status_after_def)
next
  case (Some x)
  obtain m g where x: "x = (m, g)" by force
  have "(g = f \<and> msg_id m = k) \<longleftrightarrow> status_target d u = Some k \<and> says f u \<and> unset (status_of f d k)"
    using processed_iff [of d u f k] Some x by auto
  then show ?thesis using Some x by (auto simp: apply_one_def status_after_def write_column_of)
qed

lemma apply_one_same: "same_lookups d (apply_one u d)"
  by (auto simp: apply_one_def same_lookups_refl write_same split: option.split)

lemma text_set: "\<not> unset (Some (status_text f))"
  by (cases f) (simp_all add: unset_def status_text_def)

lemma status_after_more:
  assumes "same_lookups d d'" and "\<And>k. status_of f d' k = status_after d us f k"
  shows "status_after d' vs f k = status_after d (us @ vs) f k"
proof (cases "unset (status_of f d k) \<and> (\<exists>u \<in> set us. status_target d u = Some k \<and> says f u)")
  case True
  then have "status_of f d' k = Some (status_text f)" using assms(2) by (simp add: status_after_def)
  then show ?thesis using True text_set by (auto simp: status_after_def)
next
  case False
  then have "status_of f d' k = status_of f d k" using assms(2) by (simp only: status_after_def if_False)
  then show ?thesis using False by (auto simp: status_after_def same_target [OF assms(1)])
qed

lemma fold_apply: "same_lookups d (fold apply_one us d) \<and> status_of f (fold apply_one us d) k = status_after d us f k"
proof (induction us arbitrary: k rule: rev_induct)
  case Nil
  then show ?case by (simp add: same_lookups_refl status_after_def)
next
  case (snoc u us)
  let ?d = "fold apply_one us d"
  have "same_lookups d (apply_one u ?d)" using snoc same_lookups_trans apply_one_same by blast
  then show ?case using status_after_more [of d ?d f us "[u]" k] snoc by (simp add: apply_one_status)
qed

lemma ids_for_iff: "k \<in> set (ids_for f (changed_by d us)) \<longleftrightarrow> (\<exists>u \<in> set us. status_target d u = Some k \<and> says f u) \<and> unset (status_of f d k)"
proof -
  have "k \<in> set (ids_for f (changed_by d us)) \<longleftrightarrow> (\<exists>u \<in> set us. \<exists>m. process_message d u = Some (m, f) \<and> msg_id m = k)"
    by (force simp: ids_for_def changed_by_def List.map_filter_def)
  then show ?thesis using processed_iff [of d _ f k] by blast
qed

lemma notify_same: "keeps same_tables (notify_for_message env m)"
  unfolding notify_for_message_def send_group_def by (intro tables.keeps_world)

lemma bulk_status:
  "same_lookups d (bulk_status_update env d)" "rd_pending (bulk_status_update env d) = []"
  "status_of f (bulk_status_update env d) k = status_after d (rd_pending d) f k"
proof -
  let ?ch = "changed_by d (rd_pending d)"
  let ?d1 = "write_column Is_Delivered (ids_for Is_Delivered ?ch) (write_column Is_Read (ids_for Is_Read ?ch) (d\<lparr>rd_pending := []\<rparr>))"
  have "keeps same_tables (for_each (\<lambda>x. try_except (notify_for_message env (fst x)) (\<lambda>e. ret ())) ?ch)"
    by (intro tables.keeps_world notify_same)
  then have w: "same_tables (rd_world d) (rd_world (bulk_status_update env d))"
    by (simp add: bulk_status_update_def Let_def write_same keeps_def)
  have d': "bulk_status_update env d = ?d1\<lparr>rd_world := rd_world (bulk_status_update env d)\<rparr>"
    by (simp add: bulk_status_update_def Let_def)
  have i: "rd_index ?d1 = rd_index d" "rd_pending ?d1 = []" by (simp_all add: write_column_def)
  have "rd_index (bulk_status_update env d) = rd_index d" using i(1) by (simp add: bulk_status_update_def Let_def)
  with w show "same_lookups d (bulk_status_update env d)" by (simp add: same_lookups_def)
  show "rd_pending (bulk_status_update env d) = []" using i(2) by (simp add: bulk_status_update_def Let_def)
  have "status_of f (bulk_status_update env d) k = status_of f ?d1 k"
    by (cases f) (simp_all add: bulk_status_update_def Let_def status_of_def)
  also have "\<dots> = status_after d (rd_pending d) f k"
  proof -
    have "status_of f (d\<lparr>rd_pending := []\<rparr>) k = status_of f d k" by (cases f) (simp_all add: status_of_def)
    then show ?thesis using ids_for_iff [of k f d "rd_pending d"] by (cases f) (auto simp: write_column_of status_after_def)
  qed
  finally show "status_of f (bulk_status_update env d) k = status_after d (rd_pending d) f k" .
qed

lemma take_drop_more: "n \<le> length xs \<Longrightarrow> take n xs @ drop n (xs @ ys) = xs @ ys"
  by (simp add: append.assoc [symmetric])

lemma run_updates:
  assumes "0 < bulk_size" and "length (rd_pending d) < bulk_size"
  shows "same_lookups d (fold (update_status_message env bulk_size) us d) \<and>
    (\<exists>n. rd_pending (fold (update_status_message env bulk_size) us d) = drop n (rd_pending d @ us) \<and> n \<le> length (rd_pending d @ us) \<and>
      bulk_size dvd n \<and> length (rd_pending d @ us) < n + bulk_size \<and>
      (\<forall>f k. status_of f (fold (update_status_message env bulk_size) us d) k = status_after d (take n (rd_pending d @ us)) f k))"
proof (induction us rule: rev_induct)
  case Nil
  then show ?case using assms by (auto simp: same_lookups_refl status_after_def intro!: exI [of _ 0])
next
  case (snoc u us)
  let ?d = "fold (update_status_message env bulk_size) us d" and ?all = "rd_pending d @ us"
  obtain n where n: "same_lookups d ?d" "rd_pending ?d = drop n ?all" "n \<le> length ?all" "bulk_size dvd n" "length ?all < n + bulk_size"
    "\<And>f k. status_of f ?d k = status_after d (take n ?all) f k" using snoc by blast
  let ?e = "?d\<lparr>rd_pending := rd_pending ?d @ [u]\<rparr>"
  have e: "same_lookups d ?e" "status_of f ?e k = status_of f ?d k" for f k
    using n(1) by (auto simp: same_lookups_def status_of_def split: status_field.split)
  show ?case
  proof (cases "bulk_size \<le> length (rd_pending ?e)")
    case False
    then have "fold (update_status_message env bulk_size) (us @ [u]) d = ?e" by (simp add: update_status_message_def)
    then show ?thesis using e n False by (auto simp: intro!: exI [of _ n])
  next
    case True
    then have r: "fold (update_status_message env bulk_size) (us @ [u]) d = bulk_status_update env ?e" by (simp add: update_status_message_def)
    have len: "length (?all @ [u]) = n + bulk_size" using True n(2,3,5) by simp
    have pend: "rd_pending ?e = drop n (?all @ [u])" using n(2,3) by simp
    have "status_of f (bulk_status_update env ?e) k = status_after d (?all @ [u]) f k" for f k
    proof -
      have "status_of f (bulk_status_update env ?e) k = status_after ?e (drop n (?all @ [u])) f k"
        using bulk_status(3) [of f env ?e k] pend by simp
      also have "\<dots> = status_after d (take n ?all @ drop n (?all @ [u])) f k"
        by (rule status_after_more [OF e(1)]) (simp add: e(2) n(6))
      also have "take n ?all @ drop n (?all @ [u]) = ?all @ [u]" by (rule take_drop_more [OF n(3)])
      finally show ?thesis .
    qed
    then show ?thesis
      unfolding r using same_lookups_trans [OF e(1) bulk_status(1)] bulk_status(2) len n(4) assms(1)
      by (intro conjI exI [of _ "n + bulk_size"]) simp_all
  qed
qed

text \<open>C35. Updates that are collected and written in bulk leave the same columns as updates that are written one by one: after
  any number of them all full batches are written and the rest waits in memory, in order.\<close>

theorem status_batches_equal_single_updates:
  assumes "0 < bulk_size" and "rd_pending d = []" and "n = bulk_size * (length us div bulk_size)"
  shows "rd_pending (fold (update_status_message env bulk_size) us d) = drop n us \<and>
    rd_is_read (fold (update_status_message env bulk_size) us d) = rd_is_read (fold apply_one (take n us) d) \<and>
    rd_is_delivered (fold (update_status_message env bulk_size) us d) = rd_is_delivered (fold apply_one (take n us) d)"
proof -
  let ?r = "fold (update_status_message env bulk_size) us d"
  obtain m where m: "rd_pending ?r = drop m us" "m \<le> length us" "bulk_size dvd m" "length us < m + bulk_size"
    "\<And>f k. status_of f ?r k = status_after d (take m us) f k"
    using run_updates [of bulk_size d env us] assms(1,2) by auto
  obtain q where q: "m = bulk_size * q" using m(3) by (elim dvdE)
  have "length us div bulk_size = q"
    using m(2,4) assms(1) unfolding q by (intro div_nat_eqI) (simp_all add: algebra_simps)
  then have n: "m = n" using q assms(3) by simp
  have "status_of f ?r k = status_of f (fold apply_one (take n us) d) k" for f k
    using m(5) fold_apply [of d "take n us" f k] by (simp add: n)
  from this [of Is_Read] this [of Is_Delivered] show ?thesis
    using m(1) by (auto simp: n status_of_def fun_eq_iff)
qed

section \<open>Finding the message of a reply\<close>

lemma first_of_sort:
  assumes "x \<in> set xs" and "\<And>y. y \<in> set xs \<Longrightarrow> f y \<le> f x \<Longrightarrow> y = x"
  shows "\<exists>ys. sort_key f xs = x # ys"
proof (cases "sort_key f xs")
  case (Cons y ys)
  have "sorted (map f (y # ys))" using sorted_sort_key [of f xs] Cons by simp
  moreover have "set (y # ys) = set xs" using set_sort [of f xs] Cons by simp
  ultimately have "f y \<le> f x" "y \<in> set xs" using assms(1) by auto
  then show ?thesis using assms(2) Cons by blast
qed (use assms(1) set_sort [of f xs] in auto)

lemma wamid_core:
  assumes "envelope front m core"
  shows "extract_wamid_core (Some (wamid_of p (front @ m @ core))) = Some (upper_hex core)"
proof -
  have "\<forall>b \<in> set (front @ m @ core). b < 256" using assms by (auto simp: envelope_def WAMID_TRAILER_MARKERS_def)
  then show ?thesis using decode_wamid envelope_core [OF assms] by simp
qed

lemma external_id_set:
  assumes "find_message (rd_world d) k = Some m" and "find_room (rd_world d) (msg_room m) = Some r" and "rm_is_active r"
    and "msg_user m = None \<or> is_24h_valid_now env (rd_world d) r"
  shows "set_msg_external_id env k ext d = d\<lparr>rd_external := (rd_external d)(k := Some ext),
    rd_index := create_reply_index (env_now env) (Some ext) k (rd_index d)\<rparr>"
  using assms find_in_set [of "\<lambda>m. msg_id m = k"]
  by (auto simp: set_msg_external_id_def save_external_id_def find_message_def)

text \<open>An id is indexed under its message, whether or not another message had it before.\<close>

lemma index_finds_exact:
  assumes "ext \<noteq> []"
  shows "\<exists>x. find (\<lambda>x. rp_external_id x = ext) (create_reply_index now (Some ext) k idx) = Some x \<and> rp_message x = k"
proof (cases "list_ex (\<lambda>x. rp_external_id x = ext) idx")
  case True
  then obtain x where x: "find (\<lambda>x. rp_external_id x = ext) idx = Some x"
    by (metis find_None_iff list_ex_iff not_None_eq)
  have "find (\<lambda>x. rp_external_id x = ext) (update_where (\<lambda>x. rp_external_id x = ext) (\<lambda>x. x\<lparr>rp_message := k, rp_core := c\<rparr>) xs) =
      map_option (\<lambda>x. x\<lparr>rp_message := k, rp_core := c\<rparr>) (find (\<lambda>x. rp_external_id x = ext) xs)" for c xs
    by (induction xs) simp_all
  from this [of "extract_wamid_core (Some ext)" idx] show ?thesis
    using True x assms by (intro exI [of _ "x\<lparr>rp_message := k, rp_core := extract_wamid_core (Some ext)\<rparr>"])
      (simp add: create_reply_index_def Let_def del: map_option_eq_Some)
next
  case False
  then have "find (\<lambda>x. rp_external_id x = ext) idx = None" by (auto simp: find_None_iff list_ex_iff)
  then show ?thesis using False assms by (simp add: create_reply_index_def Let_def find_append)
qed

text \<open>Two ids of one message of the network, in any two envelopes.\<close>

definition same_core_ids :: "string \<Rightarrow> string \<Rightarrow> bool" where
  "same_core_ids a b \<longleftrightarrow> (\<exists>front m front' m' core p p'. envelope front m core \<and> envelope front' m' core \<and>
     a = wamid_of p (front @ m @ core) \<and> b = wamid_of p' (front' @ m' @ core))"

lemma same_core_ids_core:
  assumes "same_core_ids a b"
  shows "\<exists>c. extract_wamid_core (Some a) = Some c \<and> extract_wamid_core (Some b) = Some c"
  using assms wamid_core unfolding same_core_ids_def by metis

text \<open>The newest row of a core is the one the fallback finds.\<close>

lemma fallback_finds_newest:
  assumes "x \<in> set (rd_index d)" and "rp_core x = Some c" and "find_message (rd_world d) (rp_message x) = Some m"
    and "\<And>y. y \<in> set (rd_index d) \<Longrightarrow> rp_external_id y \<noteq> cited" and "\<And>y. y \<in> set (rd_index d) \<Longrightarrow> y \<noteq> x \<Longrightarrow> rp_created_on y < rp_created_on x"
    and "extract_wamid_core (Some cited) = Some c" and "reply_core_fallback env (rd_world d) reply" and "msg_room reply = msg_room m"
  shows "resolve_reply_index env d reply cited = Some x"
proof -
  let ?xs = "filter (\<lambda>x. rp_core x = Some c \<and>
    map_option msg_room (find_message (rd_world d) (rp_message x)) = Some (msg_room reply)) (rd_index d)"
  have "\<exists>ys. sort_key (\<lambda>x. - rp_created_on x) ?xs = x # ys"
    using assms(1,2,3,5,8) by (intro first_of_sort) force+
  moreover have "find (\<lambda>x. rp_external_id x = cited) (rd_index d) = None" using assms(4) by (auto simp: find_None_iff)
  ultimately show ?thesis using assms(6,7) by (auto simp: resolve_reply_index_def)
qed

text \<open>C34. Suppose an id arrives for a message while its room is open and, for a message of a user, within the 24 hours.
  Then every reply that quotes this id gets the message, whoever had the id before. Where the project has the fallback, and
  neither id is in the index and the others in it are older, so does a reply in the same room that quotes the id in another
  envelope.\<close>

theorem reply_finds_message:
  assumes "find_message (rd_world d) k = Some m" and "find_room (rd_world d) (msg_room m) = Some r" and "rm_is_active r"
    and "msg_user m = None \<or> is_24h_valid_now env (rd_world d) r" and "ext \<noteq> []"
  shows "let d' = set_msg_external_id env k ext d in
    (\<forall>reply. map_option rp_message (resolve_reply_index env d' reply ext) = Some k) \<and>
    (\<forall>reply cited. same_core_ids ext cited \<and> msg_room reply = msg_room m \<and> reply_core_fallback env (rd_world d) reply \<and>
       (\<forall>x \<in> set (rd_index d). rp_external_id x \<notin> {ext, cited} \<and> rp_created_on x < env_now env) \<longrightarrow>
       map_option rp_message (resolve_reply_index env d' reply cited) = Some k)"
proof -
  let ?d = "set_msg_external_id env k ext d"
  have d': "?d = d\<lparr>rd_external := (rd_external d)(k := Some ext), rd_index := create_reply_index (env_now env) (Some ext) k (rd_index d)\<rparr>"
    using external_id_set [OF assms(1-4)] .
  have exact: "map_option rp_message (resolve_reply_index env ?d reply ext) = Some k" for reply
    using index_finds_exact [OF assms(5), of "env_now env" k "rd_index d"] by (auto simp: resolve_reply_index_def d')
  have "map_option rp_message (resolve_reply_index env ?d reply cited) = Some k"
    if ids: "same_core_ids ext cited" "cited \<noteq> ext" and room: "msg_room reply = msg_room m"
      and fallback: "reply_core_fallback env (rd_world d) reply"
      and new: "\<forall>x \<in> set (rd_index d). rp_external_id x \<notin> {ext, cited} \<and> rp_created_on x < env_now env" for reply cited
  proof -
    obtain c where c: "extract_wamid_core (Some ext) = Some c" "extract_wamid_core (Some cited) = Some c"
      using same_core_ids_core [OF ids(1)] by blast
    let ?x = "\<lparr>rp_external_id = ext, rp_core = Some c, rp_message = k, rp_created_on = env_now env\<rparr>"
    have "rd_index ?d = rd_index d @ [?x]"
      using new c(1) assms(5) by (auto simp: d' create_reply_index_def Let_def list_ex_iff)
    moreover have "rd_world ?d = rd_world d" by (simp add: d')
    ultimately have "resolve_reply_index env ?d reply cited = Some ?x"
      using assms(1) c(2) room fallback new ids(2) by (intro fallback_finds_newest [where m = m]) auto
    then show ?thesis by simp
  qed
  then have "map_option rp_message (resolve_reply_index env ?d reply cited) = Some k"
    if "same_core_ids ext cited \<and> msg_room reply = msg_room m \<and> reply_core_fallback env (rd_world d) reply \<and>
       (\<forall>x \<in> set (rd_index d). rp_external_id x \<notin> {ext, cited} \<and> rp_created_on x < env_now env)" for reply cited
    using that exact by (cases "cited = ext") blast+
  then show ?thesis using exact unfolding Let_def by blast
qed

text \<open>An id that arrives after the room was closed is dropped, and with it every status of the message.\<close>

lemma closed_room_drops_external_id:
  assumes "find_message (rd_world d) k = Some m" and "find_room (rd_world d) (msg_room m) = Some r" and "\<not> rm_is_active r"
  shows "set_msg_external_id env k ext d = d"
    and "\<forall>x \<in> set (rd_index d). rp_external_id x \<noteq> ext \<Longrightarrow> su_message_id u = ext \<Longrightarrow>
      snd (process_message_status env bulk_size retries n u (set_msg_external_id env k ext d)) = d"
  using assms by (auto simp: set_msg_external_id_def save_external_id_def process_message_status_def list_ex_iff)

section \<open>Messages that arrive\<close>

record flow_message =
  fm_room :: uuid
  fm_direction :: string
  fm_text :: "string option"
  fm_seen :: bool
  fm_attachments :: "(string \<times> string) list option"
  fm_created_on :: "timestamp option"
  fm_external_id :: "string option"

definition in_world :: "(world, 'a) py \<Rightarrow> (reply_db, 'a) py" where
  "in_world m d = (case m (rd_world d) of (r, w) \<Rightarrow> (r, d\<lparr>rd_world := w\<rparr>))"

definition fm_incoming :: "flow_message \<Rightarrow> bool" where
  "fm_incoming fm \<longleftrightarrow> fm_direction fm = ''incoming''"

text \<open>The room stops waiting with the first message of its contact; a room that was out of the 24 hours is announced.\<close>

definition contact_answered :: "env \<Rightarrow> flow_message \<Rightarrow> room_obj \<Rightarrow> bool \<times> bool \<Rightarrow> (world, room_obj) py" where
  "contact_answered env fm ob before = (case before of (waiting, valid) \<Rightarrow>
     if fm_incoming fm \<and> waiting
     then bnd (room_save env None (set_row (\<lambda>r. r\<lparr>rm_is_waiting := False\<rparr>) ob)) (\<lambda>ob'.
       andthen (notify_room env (ob_row ob') ''update'' False) (ret ob'))
     else if fm_incoming fm \<and> \<not> valid then andthen (notify_room env (ob_row ob) ''update'' False) (ret ob)
     else ret ob)"

definition add_medias :: "message \<Rightarrow> (string \<times> string) list \<Rightarrow> (world, unit) py" where
  "add_medias m meds = modify (\<lambda>w. w\<lparr>messages :=
     update_where (\<lambda>x. msg_id x = msg_id m) (\<lambda>x. x\<lparr>msg_medias := msg_medias x @ meds\<rparr>) (messages w)\<rparr>)"

text \<open>\<open>MsgFlowSerializer.create\<close>; the attachments are taken with \<open>pop\<close>, which raises when the request has none.\<close>

definition flow_serializer_create :: "env \<Rightarrow> flow_message \<Rightarrow> room_obj \<Rightarrow> (reply_db, message \<times> room_obj) py" where
  "flow_serializer_create env fm ob = (case fm_attachments fm of None \<Rightarrow> raise (RuntimeError ''KeyError attachments'')
   | Some meds \<Rightarrow>
      if fm_text fm = None \<and> meds = [] then raise (APIException ''Cannot create message without text or media'')
      else bnd (gets (\<lambda>d. (get_is_waiting (rd_world d) (ob_row ob), is_24h_valid_now env (rd_world d) (ob_row ob)))) (\<lambda>before.
        bnd (in_world (message_create (case fm_created_on fm of None \<Rightarrow> env | Some t \<Rightarrow> env\<lparr>env_now := t\<rparr>) (ob_row ob) None
          (if fm_incoming fm then rm_contact (ob_row ob) else None) (case fm_text fm of None \<Rightarrow> [] | Some t \<Rightarrow> strip t) (fm_seen fm))) (\<lambda>m.
        andthen (in_world (add_medias m meds))
        (bnd (in_world (contact_answered env fm ob before)) (\<lambda>ob'.
        andthen (modify (\<lambda>d. d\<lparr>rd_external := (rd_external d)(msg_id m := fm_external_id fm),
            rd_index := create_reply_index (env_now env) (fm_external_id fm) (msg_id m) (rd_index d)\<rparr>))
          (ret (m\<lparr>msg_medias := meds\<rparr>, ob')))))))"

definition create_flow_message ::
  "env \<Rightarrow> uuid option \<Rightarrow> (room \<Rightarrow> (world, unit) py) \<Rightarrow> flow_message \<Rightarrow> (reply_db, message) py" where
  "create_flow_message env auth_project trigger_default fm =
     bnd (in_world (need (ValidationError ''room'') (\<lambda>w. find_room w (fm_room fm)))) (\<lambda>r.
     if auth_project \<noteq> None \<and> auth_project \<noteq> Some (rm_project_uuid r) then raise (PermissionDenied ''Ticketer token permission failed on room project'')
     else bnd (flow_serializer_create env fm (loaded r)) (\<lambda>(m, ob).
       andthen (in_world (message_notify_room env (ob_row ob) m ''create'' False))
      (andthen (in_world (on_new_message (\<lambda>x. andthen (reset_inactivity env x) (ret ())) ob m (msg_contact m) 1))
      (andthen (in_world (when_true (rm_user (ob_row ob) = None \<and> msg_contact m \<noteq> None) (trigger_default (ob_row ob))))
        (ret m)))))"

lemma tables_notify_room: "keeps same_tables (notify_room env r a False)"
  unfolding notify_room_def notify_user_def notify_queue_def room_get_permission_def send_group_def
  by (auto intro!: tables.keeps_world split: option.split)

lemma answered:
  assumes "contact_answered env fm (loaded r) before w = (Inr ob, w')" and "find_room w (rm_uuid r) = Some r" and "rm_is_active r"
  shows "messages w' = messages w" "fm_incoming fm \<Longrightarrow> fst before \<Longrightarrow> \<exists>r'. find_room w' (rm_uuid r) = Some r' \<and> \<not> rm_is_waiting r'"
    "\<not> (fm_incoming fm \<and> fst before) \<Longrightarrow> rooms w' = rooms w" "rm_uuid (ob_row ob) = rm_uuid r"
proof -
  obtain waiting valid where b: "before = (waiting, valid)" by force
  let ?ob = "set_row (\<lambda>r. r\<lparr>rm_is_waiting := False\<rparr>) (loaded r)"
  have "messages w' = messages w \<and> (fm_incoming fm \<and> waiting \<longrightarrow> (\<exists>r'. find_room w' (rm_uuid r) = Some r' \<and> \<not> rm_is_waiting r')) \<and>
    (\<not> (fm_incoming fm \<and> waiting) \<longrightarrow> rooms w' = rooms w) \<and> rm_uuid (ob_row ob) = rm_uuid r"
  proof (cases "fm_incoming fm \<and> waiting")
    case True
    obtain ob1 w1 where s: "room_save env None ?ob w = (Inr ob1, w1)" "notify_room env (ob_row ob1) ''update'' False w1 = (Inr (), w')" "ob = ob1"
      using assms(1) True b by (auto simp: contact_answered_def ret_def elim!: bnd_InrE andthen_InrE)
    have row: "find_room w (room_pk ?ob) = Some r" "\<not> ob_adding ?ob" using assms(2) by (simp_all add: set_row_def loaded_def room_pk_def)
    obtain tags where t: "find_room w1 (room_pk ?ob) = Some ((stamped env ?ob)\<lparr>rm_tags := tags\<rparr>)" "ob_row ob1 = stamped env ?ob"
      using room_save_effect [OF row(1) assms(3) row(2) s(1)] by blast
    have "messages w1 = messages w"
      by (rule room_save_cases [OF row(1) assms(3) row(2) s(1)]) (simp_all add: without_pins_def)
    moreover have "\<not> rm_is_waiting (stamped env ?ob)" "rm_uuid (stamped env ?ob) = rm_uuid r" "room_pk ?ob = rm_uuid r"
      by (simp_all add: stamped_def stamp_times_def set_row_def loaded_def room_pk_def Let_def)
    ultimately show ?thesis
      using same_tables_lookups [OF keepsD [OF tables_notify_room s(2)]] t s(3) True by auto
  next
    case False
    then have "same_tables w w' \<and> ob = loaded r"
      using assms(1) b keepsD [OF tables_notify_room]
      by (auto simp: contact_answered_def ret_def tables.R_refl elim!: andthen_InrE split: if_splits)
    then show ?thesis using False same_tables_lookups by (auto simp: loaded_def)
  qed
  then show "messages w' = messages w" "fm_incoming fm \<Longrightarrow> fst before \<Longrightarrow> \<exists>r'. find_room w' (rm_uuid r) = Some r' \<and> \<not> rm_is_waiting r'"
    "\<not> (fm_incoming fm \<and> fst before) \<Longrightarrow> rooms w' = rooms w" "rm_uuid (ob_row ob) = rm_uuid r"
    using b by auto
qed

lemma in_world_Inr: "in_world m d = (Inr x, d') \<Longrightarrow> \<exists>w. m (rd_world d) = (Inr x, w) \<and> d' = d\<lparr>rd_world := w\<rparr>"
  by (auto simp: in_world_def split: prod.splits)

lemma update_last:
  assumes "\<forall>x \<in> set xs. msg_id x \<noteq> msg_id m"
  shows "update_where (\<lambda>x. msg_id x = msg_id m) f (xs @ [m]) = xs @ [f m]"
  using assms by (induction xs) auto

text \<open>A message that arrives is the last message of an open room, from the contact exactly when it is incoming; the first
  message of the contact ends the waiting of the room, no other message touches a room; and its id finds it.\<close>

theorem arriving_message_recorded:
  assumes "find_room (rd_world d) (rm_uuid r) = Some r" and "\<forall>x \<in> set (messages (rd_world d)). msg_id x < next_id (rd_world d)"
    and "flow_serializer_create env fm (loaded r) d = (Inr (m, ob), d')"
  shows "rm_is_active r \<and> messages (rd_world d') = messages (rd_world d) @ [m] \<and> msg_room m = rm_uuid r \<and> msg_user m = None \<and>
    msg_contact m = (if fm_incoming fm then rm_contact r else None) \<and> Some (msg_medias m) = fm_attachments fm \<and>
    (if fm_incoming fm \<and> get_is_waiting (rd_world d) r
     then \<exists>r'. find_room (rd_world d') (rm_uuid r) = Some r' \<and> \<not> rm_is_waiting r' else rooms (rd_world d') = rooms (rd_world d)) \<and>
    (\<forall>e. fm_external_id fm = Some e \<and> e \<noteq> [] \<longrightarrow> map_option rp_message (find (\<lambda>x. rp_external_id x = e) (rd_index d')) = Some (msg_id m))"
proof -
  let ?w = "rd_world d" and ?b = "(get_is_waiting (rd_world d) r, is_24h_valid_now env (rd_world d) r)"
  let ?env = "case fm_created_on fm of None \<Rightarrow> env | Some t \<Rightarrow> env\<lparr>env_now := t\<rparr>"
  obtain meds where meds: "fm_attachments fm = Some meds"
    using assms(3) by (cases "fm_attachments fm") (auto simp: flow_serializer_create_def raise_def)
  have row: "ob_row (loaded r) = r" by (simp add: loaded_def)
  obtain m0 w1 w2 w3 where s: "message_create ?env r None (if fm_incoming fm then rm_contact r else None)
      (case fm_text fm of None \<Rightarrow> [] | Some t \<Rightarrow> strip t) (fm_seen fm) ?w = (Inr m0, w1)"
    "add_medias m0 meds w1 = (Inr (), w2)" "contact_answered env fm (loaded r) ?b w2 = (Inr ob, w3)"
    "m = m0\<lparr>msg_medias := meds\<rparr>" "rd_world d' = w3"
    "rd_index d' = create_reply_index (env_now env) (fm_external_id fm) (msg_id m0) (rd_index d)"
    using assms(3) meds unfolding flow_serializer_create_def row
    by (auto simp: run_gets ret_def modify_def raise_def split: if_splits elim!: bnd_InrE andthen_InrE dest!: in_world_Inr)
  have m0: "rm_is_active r" "w1 = ?w\<lparr>next_id := Suc (next_id ?w), messages := messages ?w @ [m0]\<rparr>" "msg_id m0 = next_id ?w"
    "msg_room m0 = rm_uuid r" "msg_user m0 = None" "msg_contact m0 = (if fm_incoming fm then rm_contact r else None)" "msg_medias m0 = []"
    using s(1) by (auto simp: message_create_def py_defs new_id_def Let_def split: if_splits)
  have fresh: "\<forall>x \<in> set (messages ?w). msg_id x \<noteq> msg_id m0" using assms(2) m0(3) by auto
  have w2: "w2 = w1\<lparr>messages := messages ?w @ [m]\<rparr>"
    using s(2,4) m0(2,7) update_last [OF fresh] by (simp add: add_medias_def modify_def)
  have r2: "find_room w2 (rm_uuid r) = Some r" "rooms w2 = rooms ?w" using assms(1) by (simp_all add: w2 m0(2) find_room_def)
  note a = answered [OF s(3) r2(1) m0(1)]
  have "map_option rp_message (find (\<lambda>x. rp_external_id x = e) (rd_index d')) = Some (msg_id m)"
    if "fm_external_id fm = Some e" "e \<noteq> []" for e
  proof (cases "list_ex (\<lambda>x. rp_external_id x = e) (rd_index d)")
    case True
    have "find (\<lambda>x. rp_external_id x = e) (update_where (\<lambda>x. rp_external_id x = e) (\<lambda>x. x\<lparr>rp_message := k, rp_core := q\<rparr>) xs) =
      map_option (\<lambda>x. x\<lparr>rp_message := k, rp_core := q\<rparr>) (find (\<lambda>x. rp_external_id x = e) xs)" for k q and xs :: "reply_row list"
      by (induction xs) auto
    moreover obtain x where "find (\<lambda>x. rp_external_id x = e) (rd_index d) = Some x"
      using True by (cases "find (\<lambda>x. rp_external_id x = e) (rd_index d)") (auto simp: find_None_iff list_ex_iff)
    ultimately show ?thesis using s(4,6) that True by (simp add: create_reply_index_def Let_def)
  next
    case False
    then have "find (\<lambda>x. rp_external_id x = e) (rd_index d) = None" by (auto simp: find_None_iff list_ex_iff)
    then show ?thesis using s(4,6) that False by (simp add: create_reply_index_def Let_def find_append)
  qed
  then show ?thesis using a m0 s(4,5) meds w2 r2(2) by auto
qed

section \<open>Samples\<close>

definition sample_message :: message where
  "sample_message = \<lparr>msg_id = 0, msg_created_on = 0, msg_room = ''r1'', msg_user = Some ''a@x'', msg_contact = None, msg_text = ''Hello'',
     msg_seen = False, msg_automatic = None, msg_medias = []\<rparr>"

definition sample_replies :: reply_db where
  "sample_replies = \<lparr>rd_world = own_room\<lparr>messages := [sample_message], next_id := 1\<rparr>, rd_external = (\<lambda>_. None), rd_index = [],
     rd_is_read = (\<lambda>_. None), rd_is_delivered = (\<lambda>_. None), rd_media = [], rd_pending = []\<rparr>"

theorem status_batches_equal_single_updates_witness:
  "let us = [\<lparr>su_message_id = ''e'', su_status = ''delivered''\<rparr>, \<lparr>su_message_id = ''e'', su_status = ''read''\<rparr>, \<lparr>su_message_id = ''x'', su_status = ''V''\<rparr>];
       d = sample_replies\<lparr>rd_index := create_reply_index 0 (Some ''e'') 0 []\<rparr>; d' = fold (update_status_message calm_env 2) us d in
     rd_pending d' = drop 2 us \<and> rd_is_read d' 0 = Some ''read'' \<and> rd_is_delivered d' 0 = Some ''delivered''"
proof -
  let ?us = "[\<lparr>su_message_id = ''e'', su_status = ''delivered''\<rparr>, \<lparr>su_message_id = ''e'', su_status = ''read''\<rparr>, \<lparr>su_message_id = ''x'', su_status = ''V''\<rparr>]"
  let ?d = "sample_replies\<lparr>rd_index := create_reply_index 0 (Some ''e'') 0 []\<rparr>"
  have "rd_is_read (fold apply_one (take 2 ?us) ?d) 0 = Some ''read''" "rd_is_delivered (fold apply_one (take 2 ?us) ?d) 0 = Some ''delivered''"
    by code_simp+
  then show ?thesis
    using status_batches_equal_single_updates [of 2 ?d 2 ?us calm_env] by (simp add: Let_def sample_replies_def)
qed

theorem reply_finds_message_witness:
  "let env = calm_env\<lparr>env_now := 5, flag_attr := \<lambda>_ _. Some True\<rparr>;
       ext = wamid_of True ([28, 24, 13] @ [18, 24, 22] @ [55, 56]); cited = wamid_of False ([28, 24, 19, 7] @ [18, 24, 32] @ [55, 56]);
       d' = set_msg_external_id env 0 ext sample_replies in
     map_option rp_message (resolve_reply_index env d' sample_message ext) = Some 0 \<and>
     map_option rp_message (resolve_reply_index env d' sample_message cited) = Some 0"
proof -
  let ?env = "calm_env\<lparr>env_now := 5, flag_attr := \<lambda>_ _. Some True\<rparr>" and ?r = "hd (rooms own_room)"
  let ?ext = "wamid_of True ([28, 24, 13] @ [18, 24, 22] @ [55, 56])" and ?cited = "wamid_of False ([28, 24, 19, 7] @ [18, 24, 32] @ [55, 56])"
  have "find_message (rd_world sample_replies) 0 = Some sample_message" "find_room (rd_world sample_replies) (msg_room sample_message) = Some ?r"
    "rm_is_active ?r" "is_24h_valid_now ?env (rd_world sample_replies) ?r" "reply_core_fallback ?env (rd_world sample_replies) sample_message"
    by code_simp+
  moreover have "envelope [28, 24, 13] [18, 24, 22] [55, 56]" "envelope [28, 24, 19, 7] [18, 24, 32] [55, 56]" by code_simp+
  then have "same_core_ids ?ext ?cited" unfolding same_core_ids_def by blast
  moreover have "rd_index sample_replies = []" by (simp add: sample_replies_def)
  moreover have "?ext \<noteq> []" by (simp add: wamid_of_def)
  ultimately show ?thesis
    using reply_finds_message [of sample_replies 0 sample_message ?r ?env ?ext] by (simp add: Let_def)
qed

definition answer :: flow_message where
  "answer = \<lparr>fm_room = ''r1'', fm_direction = ''incoming'', fm_text = Some ''Yes'', fm_seen = False, fm_attachments = Some [], fm_created_on = None,
     fm_external_id = Some ''e''\<rparr>"

theorem arriving_message_recorded_witness:
  "\<exists>m ob d'. flow_serializer_create calm_env answer (loaded (hd (rooms own_room))) sample_replies = (Inr (m, ob), d') \<and>
     messages (rd_world d') = [sample_message, m] \<and> msg_user m = None"
proof -
  let ?run = "flow_serializer_create calm_env answer (loaded (hd (rooms own_room))) sample_replies"
  obtain res d' where run: "?run = (res, d')" by force
  have "\<not> isl (fst ?run)" by code_simp
  then obtain m ob where m: "res = Inr (m, ob)" using run by (cases res) auto
  have "find_room (rd_world sample_replies) (rm_uuid (hd (rooms own_room))) = Some (hd (rooms own_room))"
    "\<forall>x \<in> set (messages (rd_world sample_replies)). msg_id x < next_id (rd_world sample_replies)"
    "messages (rd_world sample_replies) = [sample_message]" by code_simp+
  then show ?thesis using arriving_message_recorded [of sample_replies "hd (rooms own_room)" calm_env answer m ob d'] run m by auto
qed

end
