(* ===== verification/Bulk_Sends.thy ===== *)
theory Bulk_Sends
  imports Inactivity
begin

text \<open>
  Bulk sends of messages: \<open>chats/apps/msgs/usecases\<close> (\<open>start_bulk_send_messages.py\<close>, \<open>get_bulk_send_rooms.py\<close>,
  \<open>send_bulk_message_to_room.py\<close>, \<open>update_bulk_message_send_progress.py\<close>) with their tasks in
  \<open>chats/apps/msgs/tasks.py\<close>.

  \<^item> The state \<open>bulk_db\<close> holds the two tables of bulk sends beside the world, the shared cache, the clock in seconds and
    the queue of Celery, whose tasks carry the time before which they do not run. A worker takes any task that is due.
  \<^item> \<open>bulk_env\<close> is the environment with the commands of the cache and the settings \<open>BULK_SEND_PROGRESS_COOLDOWN_SECONDS\<close>,
    \<open>BULK_SEND_PROGRESS_RETRY_DELAY\<close> and \<open>BULK_SEND_STALE_FINISH_MINUTES\<close>; \<open>ben_gap\<close> is what other transactions do
    while a send is between its two queries for rooms. For the rest a task runs to its end before the next one starts.
  \<^item> Functions registered with \<open>transaction.on_commit\<close> run after the transaction, in their order; what they raise comes
    out of the \<open>with\<close> statement.
  \<^item> The percentage of a notification is the quotient of two numbers of the model and is left out.
\<close>

section \<open>Tables and tasks\<close>

datatype send_status = PENDING | PROCESSING | FINISHED

record bulk_send =
  bs_uuid :: uuid
  bs_created_on :: timestamp
  bs_user :: email
  bs_project :: uuid
  bs_text :: string
  bs_statuses :: "string list"
  bs_queues :: "uuid list"
  bs_agents :: "email list"
  bs_status :: send_status
  bs_rooms_qty :: "nat option"

datatype outcome = SUCCESS | FAILED

record bulk_row =
  br_send :: uuid
  br_room :: uuid
  br_message :: "nat option"
  br_status :: outcome
  br_error :: "string option"

datatype bulk_task =
    Process_Send uuid
  | Send_Room uuid uuid
  | Update_Progress uuid

record 'c bulk_db =
  b_world :: world
  b_sends :: "bulk_send list"
  b_rows :: "bulk_row list"
  b_cache :: 'c
  b_tasks :: "(int \<times> bulk_task) list"
  b_now :: int

record 'c bulk_env =
  ben_env :: env
  ben_ops :: "'c cache_ops"
  ben_cooldown :: int
  ben_retry_delay :: int
  ben_stale_minutes :: int
  ben_user_exists :: "email \<Rightarrow> bool"
  ben_gap :: "uuid \<Rightarrow> world \<Rightarrow> world"

definition env_at :: "'c bulk_env \<Rightarrow> 'c bulk_db \<Rightarrow> env" where
  "env_at cx s = (ben_env cx)\<lparr>env_now := micros (b_now s)\<rparr>"

definition in_bulk :: "(world, 'a) py \<Rightarrow> ('c bulk_db, 'a) py" where
  "in_bulk m s = (case m (b_world s) of (r, w) \<Rightarrow> (r, s\<lparr>b_world := w\<rparr>))"

definition b_need :: "exn \<Rightarrow> ('c bulk_db \<Rightarrow> 'a option) \<Rightarrow> ('c bulk_db, 'a) py" where
  "b_need e f s = (case f s of None \<Rightarrow> (Inl e, s) | Some x \<Rightarrow> (Inr x, s))"

definition b_atomic :: "('c bulk_db, 'a) py \<Rightarrow> ('c bulk_db, 'a) py" where
  "b_atomic m s = (case m s of
     (Inl e, s') \<Rightarrow> (Inl e, s'\<lparr>b_world := rollback (b_world s) (b_world s'), b_sends := b_sends s, b_rows := b_rows s\<rparr>)
   | (Inr x, s') \<Rightarrow> (Inr x, s'))"

fun task_name :: "bulk_task \<Rightarrow> string" where
  "task_name (Process_Send k) = ''process_bulk_message_send''"
| "task_name (Send_Room k r) = ''send_bulk_message_to_room''"
| "task_name (Update_Progress k) = ''update_bulk_message_send_progress''"

fun task_args :: "bulk_task \<Rightarrow> string list" where
  "task_args (Process_Send k) = [k]"
| "task_args (Send_Room k r) = [k, r]"
| "task_args (Update_Progress k) = [k]"

text \<open>\<open>delay\<close> and \<open>apply_async\<close> with a countdown.\<close>

definition enqueue :: "'c bulk_env \<Rightarrow> int \<Rightarrow> bulk_task \<Rightarrow> ('c bulk_db, unit) py" where
  "enqueue cx countdown t s =
     (if task_ok (ben_env cx) (task_name t) (task_args t) then (Inr (), s\<lparr>b_tasks := b_tasks s @ [(b_now s + countdown, t)]\<rparr>)
      else (Inl (ExternalError (task_name t)), s))"

definition find_send :: "'c bulk_db \<Rightarrow> uuid \<Rightarrow> bulk_send option" where
  "find_send s k = find (\<lambda>b. bs_uuid b = k) (b_sends s)"

definition write_send :: "uuid \<Rightarrow> (bulk_send \<Rightarrow> bulk_send) \<Rightarrow> ('c bulk_db, unit) py" where
  "write_send k f = modify (\<lambda>s. s\<lparr>b_sends := update_where (\<lambda>b. bs_uuid b = k) f (b_sends s)\<rparr>)"

definition add_row :: "bulk_row \<Rightarrow> ('c bulk_db, unit) py" where
  "add_row row = modify (\<lambda>s. s\<lparr>b_rows := b_rows s @ [row]\<rparr>)"

section \<open>Starting and fanning out\<close>

definition validate_statuses :: "string list \<Rightarrow> exn + unit" where
  "validate_statuses sts =
     (if sts = [] then Inl (ValueError ''At least one status is required'')
      else if \<not> set sts \<subseteq> {''ongoing'', ''waiting''} then Inl (ValueError ''Invalid status(es)'')
      else Inr ())"

definition start_bulk_send ::
  "'c bulk_env \<Rightarrow> uuid \<Rightarrow> email \<Rightarrow> string \<Rightarrow> uuid \<Rightarrow> string list \<Rightarrow> uuid list \<Rightarrow> email list \<Rightarrow> ('c bulk_db, bulk_send) py" where
  "start_bulk_send cx k user txt project sts qs ags =
     andthen (lift_result (validate_statuses sts))
    (andthen (b_need (DoesNotExist ''User'') (\<lambda>s. if ben_user_exists cx user then Some () else None))
    (bnd (b_need (DoesNotExist ''Project'') (\<lambda>s. find_project (b_world s) project)) (\<lambda>p.
     bnd (gets (\<lambda>s. \<lparr>bs_uuid = k, bs_created_on = micros (b_now s), bs_user = user, bs_project = prj_uuid p, bs_text = txt,
        bs_statuses = sts, bs_queues = qs, bs_agents = ags, bs_status = PENDING, bs_rooms_qty = None\<rparr>)) (\<lambda>b.
     bnd (gets (\<lambda>s. find_send s k)) (\<lambda>present.
     if present \<noteq> None then raise (IntegrityError ''pkey'')
     else andthen (modify (\<lambda>s. s\<lparr>b_sends := b_sends s @ [b]\<rparr>))
       (andthen (enqueue cx 0 (Process_Send k)) (ret b)))))))"

text \<open>\<open>GetBulkSendRoomsUseCase\<close>; a snapshot that names neither status leaves the filter empty.\<close>

definition send_matches :: "world \<Rightarrow> bulk_send \<Rightarrow> room \<Rightarrow> bool" where
  "send_matches w b r \<longleftrightarrow> rm_is_active r \<and>
     (case queue_of w r of None \<Rightarrow> False | Some q \<Rightarrow> \<not> que_is_deleted q \<and>
       (case sector_of_queue w q of None \<Rightarrow> False | Some sec \<Rightarrow> \<not> sec_is_deleted sec \<and> sec_project sec = bs_project b) \<and>
       (bs_queues b = [] \<or> que_uuid q \<in> set (bs_queues b))) \<and>
     (bs_agents b = [] \<or> (case rm_user r of None \<Rightarrow> False | Some u \<Rightarrow> u \<in> set (bs_agents b))) \<and>
     bs_statuses b \<noteq> [] \<and>
     (''ongoing'' \<notin> set (bs_statuses b) \<and> ''waiting'' \<notin> set (bs_statuses b) \<or>
      ''ongoing'' \<in> set (bs_statuses b) \<and> rm_user r \<noteq> None \<and> \<not> rm_is_waiting r \<or>
      ''waiting'' \<in> set (bs_statuses b) \<and> rm_user r = None \<and> \<not> rm_is_waiting r)"

definition get_bulk_send_rooms :: "world \<Rightarrow> bulk_send \<Rightarrow> uuid list" where
  "get_bulk_send_rooms w b = map rm_uuid (filter (send_matches w b) (rooms w))"

text \<open>The rooms are counted by one query and listed by another; \<open>between\<close> is what other transactions do in between.\<close>

definition process_bulk_message_send :: "'c bulk_env \<Rightarrow> (world \<Rightarrow> world) \<Rightarrow> uuid \<Rightarrow> ('c bulk_db, unit) py" where
  "process_bulk_message_send cx between k =
     bnd (b_need (DoesNotExist ''BulkMessageSend'') (\<lambda>s. find_send s k)) (\<lambda>b.
     bnd (gets (\<lambda>s. length (get_bulk_send_rooms (b_world s) b))) (\<lambda>count.
     andthen (modify (\<lambda>s. s\<lparr>b_world := between (b_world s)\<rparr>))
    (bnd (gets (\<lambda>s. get_bulk_send_rooms (b_world s) b)) (\<lambda>ks.
     andthen (write_send k (\<lambda>b. b\<lparr>bs_status := PROCESSING, bs_rooms_qty := Some count\<rparr>))
       (for_each (\<lambda>r. enqueue cx 0 (Send_Room k r)) ks)))))"

section \<open>One room\<close>

definition schedule_progress_update :: "'c bulk_env \<Rightarrow> uuid \<Rightarrow> ('c bulk_db, unit) py" where
  "schedule_progress_update cx k = enqueue cx 0 (Update_Progress k)"

definition fail_row :: "bulk_send \<Rightarrow> room \<Rightarrow> string \<Rightarrow> bulk_row" where
  "fail_row b r err = \<lparr>br_send = bs_uuid b, br_room = rm_uuid r, br_message = None, br_status = FAILED, br_error = Some err\<rparr>"

definition deliver :: "'c bulk_env \<Rightarrow> bulk_send \<Rightarrow> room \<Rightarrow> ('c bulk_db, message) py" where
  "deliver cx b r =
     bnd (gets (env_at cx)) (\<lambda>env.
     bnd (in_bulk (message_create env r (rm_user r) None (bs_text b) False)) (\<lambda>m.
     andthen (add_row \<lparr>br_send = bs_uuid b, br_room = rm_uuid r, br_message = Some (msg_id m), br_status = SUCCESS, br_error = None\<rparr>)
    (andthen (in_bulk (update_last_message (rm_uuid r) m (rm_user r) True)) (ret m))))"

definition send_bulk_message :: "'c bulk_env \<Rightarrow> bulk_send \<Rightarrow> room \<Rightarrow> ('c bulk_db, unit) py" where
  "send_bulk_message cx b r =
     (if \<not> rm_is_active r
      then andthen (add_row (fail_row b r ''Closed rooms can't receive messages'')) (schedule_progress_update cx (bs_uuid b))
      else try_except
        (bnd (b_atomic (deliver cx b r)) (\<lambda>m.
         bnd (gets (env_at cx)) (\<lambda>env.
         andthen (in_bulk (message_notify_room env r m ''create'' True))
           (schedule_progress_update cx (bs_uuid b)))))
        (\<lambda>e. andthen (add_row (fail_row b r (exn_text (ben_env cx) e))) (schedule_progress_update cx (bs_uuid b))))"

definition send_bulk_message_to_room :: "'c bulk_env \<Rightarrow> uuid \<Rightarrow> uuid \<Rightarrow> ('c bulk_db, unit) py" where
  "send_bulk_message_to_room cx k r =
     bnd (b_need (DoesNotExist ''BulkMessageSend'') (\<lambda>s. find_send s k)) (\<lambda>b.
     bnd (b_need (DoesNotExist ''Room'') (\<lambda>s. find_room (b_world s) r)) (send_bulk_message cx b))"

section \<open>Progress\<close>

definition rows_of :: "'c bulk_db \<Rightarrow> uuid \<Rightarrow> bulk_row list" where
  "rows_of s k = filter (\<lambda>x. br_send x = k) (b_rows s)"

definition processed :: "'c bulk_db \<Rightarrow> uuid \<Rightarrow> nat" where
  "processed s k = count_where (\<lambda>x. br_status x = SUCCESS) (rows_of s k) + count_where (\<lambda>x. br_status x = FAILED) (rows_of s k)"

definition total_to_send :: "bulk_send \<Rightarrow> nat" where
  "total_to_send b = (case bs_rooms_qty b of None \<Rightarrow> 0 | Some n \<Rightarrow> n)"

definition update_progress :: "'c bulk_env \<Rightarrow> uuid \<Rightarrow> ('c bulk_db, unit) py" where
  "update_progress cx k =
     bnd (gets (\<lambda>s. find_send s k)) (\<lambda>found. case found of None \<Rightarrow> ret () | Some b \<Rightarrow>
     bnd (gets (\<lambda>s. processed s k)) (\<lambda>n.
     andthen (when_true (0 < total_to_send b \<and> total_to_send b \<le> n \<and> bs_status b \<noteq> FINISHED)
         (write_send k (\<lambda>b. b\<lparr>bs_status := FINISHED\<rparr>)))
       (bnd (gets (\<lambda>s. find (\<lambda>p. prm_user p = Some (bs_user b) \<and> prm_project p = bs_project b) (live_permissions (b_world s)))) (\<lambda>perm.
        case perm of None \<Rightarrow> ret ()
        | Some p \<Rightarrow> in_bulk (send_group (ben_env cx) (''permission_'' @ prm_uuid p) ''notify'' ''bulk_message_progress_update'')))))"

definition get_bulk_send_progress_lock_key :: "uuid \<Rightarrow> string" where
  "get_bulk_send_progress_lock_key k = ''bulk_send_progress_lock:'' @ k"

definition get_bulk_send_progress_pending_key :: "uuid \<Rightarrow> string" where
  "get_bulk_send_progress_pending_key k = ''bulk_send_progress_pending:'' @ k"

definition cache_add :: "'c bulk_env \<Rightarrow> string \<Rightarrow> int \<Rightarrow> ('c bulk_db, bool) py" where
  "cache_add cx key timeout s = (case c_add (ben_ops cx) key (JBool True) timeout (b_cache s) of
     (fresh, c) \<Rightarrow> (Inr fresh, s\<lparr>b_cache := c\<rparr>))"

definition update_bulk_message_send_progress :: "'c bulk_env \<Rightarrow> uuid \<Rightarrow> ('c bulk_db, bool) py" where
  "update_bulk_message_send_progress cx k =
     bnd (cache_add cx (get_bulk_send_progress_lock_key k) (ben_cooldown cx)) (\<lambda>acquired.
     if acquired then andthen (update_progress cx k) (ret True)
     else bnd (cache_add cx (get_bulk_send_progress_pending_key k) (ben_retry_delay cx)) (\<lambda>fresh.
       andthen (when_true fresh (enqueue cx (ben_retry_delay cx) (Update_Progress k))) (ret False)))"

definition is_stale :: "'c bulk_env \<Rightarrow> 'c bulk_db \<Rightarrow> bulk_send \<Rightarrow> bool" where
  "is_stale cx s b \<longleftrightarrow> bs_created_on b \<le> micros (b_now s) - micros (60 * ben_stale_minutes cx)"

definition finish_stale_bulk_message_sends :: "'c bulk_env \<Rightarrow> 'c bulk_db \<Rightarrow> 'c bulk_db" where
  "finish_stale_bulk_message_sends cx s =
     s\<lparr>b_sends := update_where (\<lambda>b. is_stale cx s b \<and> bs_status b \<noteq> FINISHED) (\<lambda>b. b\<lparr>bs_status := FINISHED\<rparr>) (b_sends s)\<rparr>"

section \<open>Workers\<close>

fun run_task :: "'c bulk_env \<Rightarrow> bulk_task \<Rightarrow> 'c bulk_db \<Rightarrow> 'c bulk_db" where
  "run_task cx (Process_Send k) s = snd (process_bulk_message_send cx (ben_gap cx k) k s)"
| "run_task cx (Send_Room k r) s = snd (send_bulk_message_to_room cx k r s)"
| "run_task cx (Update_Progress k) s = snd (update_bulk_message_send_progress cx k s)"

text \<open>What the rest of the program keeps: the foreign keys of rooms lead somewhere, and no room is deleted.\<close>

definition linked :: "world \<Rightarrow> bool" where
  "linked w \<longleftrightarrow> distinct (map rm_uuid (rooms w)) \<and> (\<forall>r \<in> set (rooms w). project_of w r \<noteq> None)"

definition may_follow :: "world \<Rightarrow> world \<Rightarrow> bool" where
  "may_follow w w' \<longleftrightarrow> linked w' \<and> rm_uuid ` set (rooms w) \<subseteq> rm_uuid ` set (rooms w')"

text \<open>Between counting and listing the rooms of a send their number stays the same.\<close>

definition count_holds :: "'c bulk_env \<Rightarrow> bool" where
  "count_holds cx \<longleftrightarrow> (\<forall>k w b. linked w \<longrightarrow> may_follow w (ben_gap cx k w) \<and>
     length (get_bulk_send_rooms (ben_gap cx k w) b) = length (get_bulk_send_rooms w b))"

datatype bulk_step =
    Start uuid email string uuid "string list" "uuid list" "email list"
  | Run nat
  | Wait nat
  | Sweep
  | Other_Transactions world

definition wait_for :: "'c bulk_env \<Rightarrow> nat \<Rightarrow> 'c bulk_db \<Rightarrow> 'c bulk_db" where
  "wait_for cx n s = s\<lparr>b_now := b_now s + int n, b_cache := c_elapse (ben_ops cx) (int n) (b_cache s)\<rparr>"

definition run_nth :: "'c bulk_env \<Rightarrow> nat \<Rightarrow> 'c bulk_db \<Rightarrow> 'c bulk_db" where
  "run_nth cx i s = (if i < length (b_tasks s) \<and> fst (b_tasks s ! i) \<le> b_now s
     then run_task cx (snd (b_tasks s ! i)) (s\<lparr>b_tasks := take i (b_tasks s) @ drop (Suc i) (b_tasks s)\<rparr>) else s)"

fun run_bulk_step :: "'c bulk_env \<Rightarrow> bulk_step \<Rightarrow> 'c bulk_db \<Rightarrow> 'c bulk_db" where
  "run_bulk_step cx (Start k u t p ss qs as) s = snd (start_bulk_send cx k u t p ss qs as s)"
| "run_bulk_step cx (Run i) s = run_nth cx i s"
| "run_bulk_step cx (Wait n) s = wait_for cx n s"
| "run_bulk_step cx Sweep s = finish_stale_bulk_message_sends cx s"
| "run_bulk_step cx (Other_Transactions w) s = (if may_follow (b_world s) w then s\<lparr>b_world := w\<rparr> else s)"

section \<open>One room, whatever happens\<close>

text \<open>Sending changes neither the keys of the rooms nor what their foreign keys lead to.\<close>

definition roomy :: "world \<Rightarrow> world \<Rightarrow> bool" where
  "roomy w w' \<longleftrightarrow> queues w' = queues w \<and> sectors w' = sectors w \<and> projects w' = projects w \<and>
     map (\<lambda>r. (rm_uuid r, rm_queue r)) (rooms w') = map (\<lambda>r. (rm_uuid r, rm_queue r)) (rooms w)"

interpretation roomy: world_order roomy
  by unfold_locales (auto simp: roomy_def)

lemma roomy_keys: "roomy w w' \<Longrightarrow> map rm_uuid (rooms w') = map rm_uuid (rooms w)"
  unfolding roomy_def by (metis (no_types, lifting) comp_apply fst_conv map_eq_conv map_map)

lemma project_of_queue_id: "rm_queue r = rm_queue r' \<Longrightarrow> project_of w r = project_of w r'"
  by (simp add: project_of_def sector_of_def queue_of_def)

lemma linked_roomy:
  assumes "roomy w w'" and "linked w"
  shows "linked w'"
proof -
  have same: "project_of w' = project_of w" using assms(1) lookup_cong(5) [of w' w] by (simp add: roomy_def)
  have "project_of w' r \<noteq> None" if "r \<in> set (rooms w')" for r
  proof -
    have "(rm_uuid r, rm_queue r) \<in> set (map (\<lambda>r. (rm_uuid r, rm_queue r)) (rooms w'))" using that by simp
    then obtain r' where "r' \<in> set (rooms w)" "rm_queue r' = rm_queue r" using assms(1) unfolding roomy_def by auto
    then show ?thesis using same assms(2) project_of_queue_id [of r' r] by (auto simp: linked_def)
  qed
  then show ?thesis using assms(2) roomy_keys [OF assms(1)] by (simp add: linked_def)
qed

lemma roomy_update: "(\<And>r. rm_uuid (f r) = rm_uuid r \<and> rm_queue (f r) = rm_queue r) \<Longrightarrow> keeps roomy (update_room k f)"
  unfolding update_room_def by (intro roomy.keeps_modify) (simp add: roomy_def map_update_where)

lemma roomy_message:
  "keeps roomy (message_create env r u c t seen)" "keeps roomy (message_notify_room env r m a cb)"
  by (rule keeps_mono [OF rframe_messages(1)], simp add: roomy_def routing_frame_def)
    (rule keeps_mono [OF rframe_messages(2)], simp add: roomy_def routing_frame_def)

lemma roomy_last: "keeps roomy (update_last_message k m u b)"
  unfolding update_last_message_def by (rule roomy_update) simp


text \<open>A message about a room whose project exists is always announced.\<close>

lemma notify_linked:
  assumes "project_of w r \<noteq> None"
  shows "\<exists>w'. message_notify_room env r m a cb w = (Inr (), w')"
proof (cases "rm_user r")
  case None
  obtain q where q: "queue_of w r = Some q"
    using assms by (auto simp: project_of_def sector_of_def bind_eq_None_conv)
  obtain w1 where "send_group env (''queue_'' @ que_uuid q) ''notify'' (''msg.'' @ a) w = (Inr (), w1)"
    using send_group_ok by blast
  with None q have base: "base_notification env r (''msg.'' @ a) w = (Inr (), w1)"
    by (simp add: base_notification_def bnd_def need_def)
  show ?thesis
    unfolding message_notify_room_def
    by (subst run_Inr(2) [where m = "base_notification env r (''msg.'' @ a)", OF base])
      (simp add: py_defs emit_def split: option.split list.split)
next
  case (Some u)
  with assms show ?thesis by (rule notify_room_ok)
qed

text \<open>With a working broker a task that finds its room adds one outcome and one task, and nothing else.\<close>

definition attempted :: "'c bulk_db \<Rightarrow> bulk_send \<Rightarrow> room \<Rightarrow> 'c bulk_db \<Rightarrow> bool" where
  "attempted s b r s' \<longleftrightarrow> (\<exists>w row. roomy (b_world s) w \<and> br_send row = bs_uuid b \<and> br_room row = rm_uuid r \<and>
     s' = s\<lparr>b_world := w, b_rows := b_rows s @ [row], b_tasks := b_tasks s @ [(b_now s, Update_Progress (bs_uuid b))]\<rparr>)"

lemma deliver_run:
  "\<exists>w row. roomy (b_world s) w \<and> br_send row = bs_uuid b \<and> br_room row = rm_uuid r \<and>
     (deliver cx b r s = (Inl e, s') \<longrightarrow> s' = s\<lparr>b_world := w\<rparr>) \<and>
     (deliver cx b r s = (Inr m, s') \<longrightarrow> s' = s\<lparr>b_world := w, b_rows := b_rows s @ [row]\<rparr>)"
proof -
  let ?create = "message_create (env_at cx s) r (rm_user r) None (bs_text b) False"
  obtain c w1 where c: "?create (b_world s) = (c, w1)" by force
  have w1: "roomy (b_world s) w1" using keepsD [OF roomy_message(1) c] .
  show ?thesis
  proof (cases c)
    case (Inl x)
    then show ?thesis using c w1 by (auto simp: deliver_def gets_def bnd_def in_bulk_def
          intro!: exI [of _ w1] exI [of _ "fail_row b r []"] simp: fail_row_def)
  next
    case (Inr y)
    let ?row = "\<lparr>br_send = bs_uuid b, br_room = rm_uuid r, br_message = Some (msg_id y), br_status = SUCCESS, br_error = None\<rparr>"
    obtain w2 where w2: "update_last_message (rm_uuid r) y (rm_user r) True w1 = (Inr (), w2)"
      by (simp add: update_last_message_def update_room_def modify_def)
    have "roomy (b_world s) w2" using roomy.R_trans [OF w1 keepsD [OF roomy_last w2]] .
    then show ?thesis using c Inr w2
      by (auto simp: deliver_def gets_def bnd_def in_bulk_def andthen_def add_row_def modify_def ret_def
          intro!: exI [of _ w2] exI [of _ ?row])
  qed
qed

lemma enqueue_run:
  "(\<And>n a. task_ok (ben_env cx) n a) \<Longrightarrow> enqueue cx t x s = (Inr (), s\<lparr>b_tasks := b_tasks s @ [(b_now s + t, x)]\<rparr>)"
  by (simp add: enqueue_def)

lemma send_bulk_message_run:
  assumes broker: "\<And>n a. task_ok (ben_env cx) n a" and "linked (b_world s)" and "r \<in> set (rooms (b_world s))"
  shows "fst (send_bulk_message cx b r s) = Inr () \<and> attempted s b r (snd (send_bulk_message cx b r s))"
proof (cases "rm_is_active r")
  case False
  then show ?thesis
    by (auto simp: send_bulk_message_def add_row_def run_modify schedule_progress_update_def enqueue_run [OF broker] attempted_def
        fail_row_def intro!: exI [of _ "b_world s"] exI [of _ "fail_row b r ''Closed rooms can't receive messages''"] roomy.R_refl)
next
  case True
  obtain c s1 where run: "deliver cx b r s = (c, s1)" by force
  show ?thesis
  proof (cases c)
    case (Inl e)
    obtain w where "s1 = s\<lparr>b_world := w\<rparr>" using deliver_run [of s b r cx e s1] run Inl by auto
    then have "b_atomic (deliver cx b r) s = (Inl e, s\<lparr>b_world := rollback (b_world s) w\<rparr>)"
      using run Inl by (simp add: b_atomic_def)
    moreover have "roomy (b_world s) (rollback (b_world s) w)" by (rule roomy.R_rollback)
    ultimately show ?thesis using True
      by (auto simp: send_bulk_message_def try_except_def bnd_def add_row_def run_modify schedule_progress_update_def
          enqueue_run [OF broker] attempted_def fail_row_def
          intro!: exI [of _ "rollback (b_world s) w"] exI [of _ "fail_row b r (exn_text (ben_env cx) e)"])
  next
    case (Inr m)
    then obtain w row where w: "roomy (b_world s) w" "br_send row = bs_uuid b" "br_room row = rm_uuid r"
      "s1 = s\<lparr>b_world := w, b_rows := b_rows s @ [row]\<rparr>"
      using deliver_run [of s b r cx undefined s1 m] run by auto
    have "project_of w r \<noteq> None"
      using assms(2,3) w(1) lookup_cong(5) [of w "b_world s"] by (auto simp: linked_def roomy_def)
    then obtain w2 where told: "message_notify_room (env_at cx s1) r m ''create'' True w = (Inr (), w2)"
      using notify_linked by blast
    have "roomy (b_world s) w2" using roomy.R_trans [OF w(1) keepsD [OF roomy_message(2) told]] .
    then show ?thesis using True run Inr told w(2-4)
      by (auto simp: send_bulk_message_def try_except_def bnd_def b_atomic_def gets_def andthen_def in_bulk_def
          schedule_progress_update_def enqueue_run [OF broker] attempted_def intro!: exI [of _ w2] exI [of _ row])
  qed
qed

section \<open>Every room is accounted for\<close>

definition starts :: "'c bulk_db \<Rightarrow> uuid \<Rightarrow> nat" where
  "starts s k = count_where (\<lambda>t. snd t = Process_Send k) (b_tasks s)"

definition to_send :: "'c bulk_db \<Rightarrow> uuid \<Rightarrow> nat" where
  "to_send s k = count_where (\<lambda>t. \<exists>r. snd t = Send_Room k r) (b_tasks s)"

definition attempts :: "'c bulk_db \<Rightarrow> uuid \<Rightarrow> uuid \<Rightarrow> nat" where
  "attempts s k r = count_where (\<lambda>x. br_send x = k \<and> br_room x = r) (b_rows s) +
     count_where (\<lambda>t. snd t = Send_Room k r) (b_tasks s)"

definition reported :: "'c bulk_db \<Rightarrow> uuid \<Rightarrow> nat" where
  "reported s k = count_where (\<lambda>x. br_send x = k) (b_rows s)"

definition progress_due :: "'c bulk_db \<Rightarrow> uuid \<Rightarrow> int \<Rightarrow> bool" where
  "progress_due s k t \<longleftrightarrow> (\<exists>d. (d, Update_Progress k) \<in> set (b_tasks s) \<and> t \<le> d)"

text \<open>The books of one send: before it was processed only its start waits; afterwards outcomes and waiting rooms add up
  to its number of rooms, it is finished because it is old or all rooms are done, and once they are done a progress
  update waits until it is finished.\<close>

definition account :: "'c bulk_env \<Rightarrow> 'c bulk_db \<Rightarrow> bulk_send \<Rightarrow> bool" where
  "account cx s b \<longleftrightarrow> (let k = bs_uuid b in case bs_rooms_qty b of
     None \<Rightarrow> starts s k = 1 \<and> reported s k = 0 \<and> to_send s k = 0 \<and> (bs_status b = FINISHED \<longrightarrow> is_stale cx s b)
   | Some q \<Rightarrow> starts s k = 0 \<and> reported s k + to_send s k = q \<and>
       (bs_status b = FINISHED \<longrightarrow> is_stale cx s b \<or> 0 < q \<and> reported s k = q) \<and>
       (bs_status b \<noteq> FINISHED \<and> 0 < q \<and> reported s k = q \<longrightarrow> (\<exists>d. (d, Update_Progress k) \<in> set (b_tasks s))))"

definition send_ok :: "'c bulk_env \<Rightarrow> (string \<Rightarrow> 'c \<Rightarrow> int option) \<Rightarrow> 'c bulk_db \<Rightarrow> uuid \<Rightarrow> bool" where
  "send_ok cx left s k \<longleftrightarrow>
     (\<forall>r. attempts s k r \<le> 1) \<and>
     (\<forall>d r. (d, Send_Room k r) \<in> set (b_tasks s) \<longrightarrow> r \<in> rm_uuid ` set (rooms (b_world s))) \<and>
     (let p = get_bulk_send_progress_pending_key k in c_get (ben_ops cx) p (b_cache s) \<noteq> None \<longrightarrow>
        (\<exists>n. left p (b_cache s) = Some n \<and> progress_due s k (b_now s + n))) \<and>
     (case find_send s k of None \<Rightarrow> starts s k = 0 \<and> reported s k = 0 \<and> to_send s k = 0 | Some b \<Rightarrow> account cx s b)"

definition bulk_ok :: "'c bulk_env \<Rightarrow> (string \<Rightarrow> 'c \<Rightarrow> int option) \<Rightarrow> 'c bulk_db \<Rightarrow> bool" where
  "bulk_ok cx left s \<longleftrightarrow> linked (b_world s) \<and> (\<forall>k. send_ok cx left s k)"

lemma count_where_append [simp]: "count_where p (xs @ ys) = count_where p xs + count_where p ys"
  by (simp add: count_where_def)

lemma count_where_0: "count_where p xs = 0 \<longleftrightarrow> (\<forall>x \<in> set xs. \<not> p x)"
  by (simp add: count_where_def filter_empty_conv)

lemma found_send: "find_send s k = Some b \<Longrightarrow> bs_uuid b = k \<and> b \<in> set (b_sends s)"
  unfolding find_send_def by (drule find_in_set) simp

lemma find_written:
  "(\<And>b. bs_uuid (f b) = bs_uuid b) \<Longrightarrow>
   find_send (s\<lparr>b_sends := update_where (\<lambda>b. bs_uuid b = k) f (b_sends s)\<rparr>) j = (if j = k then map_option f (find_send s j) else find_send s j)"
  by (simp add: find_send_def find_key_update)

lemma processed_reported: "processed s k = reported s k"
proof -
  have "count_where (\<lambda>x. br_status x = SUCCESS) (filter p xs) + count_where (\<lambda>x. br_status x = FAILED) (filter p xs) = count_where p xs"
    for p and xs :: "bulk_row list"
  proof (induction xs)
    case (Cons x xs)
    then show ?case by (cases "br_status x") auto
  qed simp
  then show ?thesis by (simp add: processed_def reported_def rows_of_def)
qed

lemma task_keys: "get_bulk_send_progress_lock_key k \<noteq> get_bulk_send_progress_pending_key j"
  "get_bulk_send_progress_pending_key k = get_bulk_send_progress_pending_key j \<longleftrightarrow> k = j"
  by (simp_all add: get_bulk_send_progress_lock_key_def get_bulk_send_progress_pending_key_def)

lemmas account_simps = account_def starts_def to_send_def attempts_def reported_def progress_due_def is_stale_def find_send_def

lemma count_where_map [simp]: "count_where p (map f xs) = count_where (\<lambda>x. p (f x)) xs"
  by (induction xs) simp_all

lemma count_where_all: "count_where (\<lambda>_. b) xs = (if b then length xs else 0)"
  by (simp add: count_where_def)

lemma count_distinct: "distinct xs \<Longrightarrow> count_where (\<lambda>x. x = y) xs \<le> 1"
proof (induction xs)
  case (Cons x xs)
  then show ?case by (cases "x = y") (auto simp: count_where_0)
qed simp

text \<open>A step that leaves the books of a send alone, but for further progress updates, keeps them.\<close>

lemma send_ok_others:
  assumes ok: "send_ok cx left s j" and "find_send s' j = find_send s j"
    and "starts s' j = starts s j" "to_send s' j = to_send s j" "reported s' j = reported s j" "\<And>r. attempts s' j r = attempts s j r"
    and "\<And>d r. (d, Send_Room j r) \<in> set (b_tasks s') \<Longrightarrow> (d, Send_Room j r) \<in> set (b_tasks s)"
    and "rm_uuid ` set (rooms (b_world s)) \<subseteq> rm_uuid ` set (rooms (b_world s'))"
    and prog: "\<And>d. (d, Update_Progress j) \<in> set (b_tasks s) \<Longrightarrow> (d, Update_Progress j) \<in> set (b_tasks s')"
    and "b_now s' = b_now s"
    and "c_get (ben_ops cx) (get_bulk_send_progress_pending_key j) (b_cache s') = c_get (ben_ops cx) (get_bulk_send_progress_pending_key j) (b_cache s)"
    and "left (get_bulk_send_progress_pending_key j) (b_cache s') = left (get_bulk_send_progress_pending_key j) (b_cache s)"
  shows "send_ok cx left s' j"
proof -
  have due: "progress_due s j t \<Longrightarrow> progress_due s' j t" for t using prog by (auto simp: progress_due_def)
  have "account cx s' b" if "find_send s j = Some b" "account cx s b" for b
    using that(2) found_send [OF that(1)] assms(3-5,10) prog
    by (auto simp: account_def Let_def is_stale_def split: option.splits)
  moreover have "r \<in> rm_uuid ` set (rooms (b_world s'))" if "(d, Send_Room j r) \<in> set (b_tasks s')" for d r
    using ok assms(7) [OF that] assms(8) by (auto simp: send_ok_def)
  ultimately show ?thesis
    using ok due assms(2-6,10-12) unfolding send_ok_def Let_def by (cases "find_send s j") auto
qed

lemma ok_process:
  assumes broker: "\<And>n a. task_ok (ben_env cx) n a" and gap: "count_holds cx"
    and ok: "bulk_ok cx left s" and tasks: "b_tasks s = ys @ (d, Process_Send k) # zs"
  shows "bulk_ok cx left (snd (process_bulk_message_send cx (ben_gap cx k) k (s\<lparr>b_tasks := ys @ zs\<rparr>)))"
proof -
  let ?s = "s\<lparr>b_tasks := ys @ zs\<rparr>"
  have sok: "send_ok cx left s j" for j using ok by (simp add: bulk_ok_def)
  have "starts s k \<noteq> 0" using tasks by (simp add: starts_def)
  then obtain b where b: "find_send s k = Some b" "bs_rooms_qty b = None" "starts s k = 1" "reported s k = 0" "to_send s k = 0"
    using sok [of k] found_send [of s k] by (auto simp: send_ok_def account_def Let_def split: option.splits)
  let ?w = "ben_gap cx k (b_world s)"
  have follows: "may_follow (b_world s) ?w" "length (get_bulk_send_rooms ?w b) = length (get_bulk_send_rooms (b_world s) b)"
    using gap ok by (auto simp: count_holds_def bulk_ok_def)
  let ?ks = "get_bulk_send_rooms ?w b"
  let ?f = "\<lambda>b. b\<lparr>bs_status := PROCESSING, bs_rooms_qty := Some (length ?ks)\<rparr>"
  let ?s' = "s\<lparr>b_world := ?w, b_sends := update_where (\<lambda>b. bs_uuid b = k) ?f (b_sends s),
     b_tasks := ys @ zs @ map (\<lambda>r. (b_now s, Send_Room k r)) ?ks\<rparr>"
  have fan: "for_each (\<lambda>r. enqueue cx 0 (Send_Room k r)) ks t = (Inr (), t\<lparr>b_tasks := b_tasks t @ map (\<lambda>r. (b_now t, Send_Room k r)) ks\<rparr>)" for ks t
    by (induction ks arbitrary: t) (simp_all add: ret_def andthen_def bnd_def enqueue_run [OF broker])
  have run: "process_bulk_message_send cx (ben_gap cx k) k ?s = (Inr (), ?s')"
    using b(1) by (simp add: follows(2) process_bulk_message_send_def b_need_def find_send_def bnd_def gets_def andthen_def modify_def write_send_def fan)
  have distinct: "distinct ?ks" "set ?ks \<subseteq> rm_uuid ` set (rooms ?w)"
    using follows(1) by (auto simp: may_follow_def linked_def get_bulk_send_rooms_def distinct_map_filter)
  have starts': "starts ?s' j = (if j = k then 0 else starts s j)" for j
    using b(3) tasks by (auto simp: starts_def count_where_all)
  have sends': "to_send ?s' j = (if j = k then length ?ks else to_send s j)" for j
    using b(5) tasks by (auto simp: to_send_def count_where_all)
  have attempts': "attempts ?s' j r \<le> 1" for j r
  proof (cases "j = k")
    case True
    have "attempts s k r = 0"
      using b(4,5) by (auto simp: attempts_def reported_def to_send_def count_where_0)
    then show ?thesis using True tasks distinct(1)
      using count_distinct [of ?ks r] by (simp add: attempts_def)
  next
    case False
    then show ?thesis using sok [of j] tasks by (auto simp: send_ok_def attempts_def count_where_all)
  qed
  have found': "find_send ?s' j = (if j = k then Some (?f b) else find_send s j)" for j
    using b(1) by (simp add: find_send_def find_key_update)
  have "send_ok cx left ?s' j" for j
  proof (cases "j = k")
    case True
    have "account cx ?s' (?f b)"
      using b(4) found_send [OF b(1)] starts' [of k] sends' [of k] by (simp add: account_def Let_def reported_def)
    moreover have "\<forall>d r. (d, Send_Room k r) \<in> set (b_tasks ?s') \<longrightarrow> r \<in> rm_uuid ` set (rooms ?w)"
      using sok [of k] tasks distinct(2) follows(1) by (auto simp: send_ok_def may_follow_def)
    moreover have "progress_due ?s' k t = progress_due s k t" for t using tasks by (auto simp: progress_due_def)
    ultimately show ?thesis
      using True sok [of k] attempts' found' [of k] by (simp add: send_ok_def Let_def)
  next
    case False
    have same: "attempts ?s' j r = attempts s j r" for r
      using False tasks by (simp add: attempts_def count_where_all)
    show ?thesis
      by (rule send_ok_others [OF sok]) (use False tasks found' starts' sends' same follows(1) in \<open>auto simp: reported_def may_follow_def\<close>)
  qed
  then show ?thesis using follows(1) run by (simp add: bulk_ok_def may_follow_def)
qed

lemma ok_room:
  assumes broker: "\<And>n a. task_ok (ben_env cx) n a" and ok: "bulk_ok cx left s" and tasks: "b_tasks s = ys @ (d, Send_Room k r) # zs"
  shows "bulk_ok cx left (snd (send_bulk_message_to_room cx k r (s\<lparr>b_tasks := ys @ zs\<rparr>)))"
proof -
  let ?s = "s\<lparr>b_tasks := ys @ zs\<rparr>"
  have sok: "send_ok cx left s j" for j using ok by (simp add: bulk_ok_def)
  have lk: "linked (b_world s)" using ok by (simp add: bulk_ok_def)
  have "to_send s k \<noteq> 0" using tasks by (auto simp: to_send_def)
  then obtain b q where b: "find_send s k = Some b" "bs_rooms_qty b = Some q" "account cx s b"
    using sok [of k] found_send [of s k] by (auto simp: send_ok_def account_def Let_def split: option.splits)
  have bk: "bs_uuid b = k" using found_send [OF b(1)] by simp
  have "r \<in> rm_uuid ` set (rooms (b_world s))" using sok [of k] tasks by (auto simp: send_ok_def)
  then obtain rm where rm: "rm \<in> set (rooms (b_world s))" "rm_uuid rm = r" "find_room (b_world s) r = Some rm"
    using find_distinct_key [of rm_uuid "rooms (b_world s)"] lk by (auto simp: linked_def find_room_def)
  let ?s' = "snd (send_bulk_message cx b rm ?s)"
  have run: "send_bulk_message_to_room cx k r ?s = send_bulk_message cx b rm ?s"
    using b(1) rm(3) by (simp add: send_bulk_message_to_room_def b_need_def find_send_def bnd_def)
  obtain w row where w: "roomy (b_world s) w" "br_send row = k" "br_room row = r"
    and s': "?s' = ?s\<lparr>b_world := w, b_rows := b_rows s @ [row], b_tasks := ys @ zs @ [(b_now s, Update_Progress k)]\<rparr>"
    using send_bulk_message_run [OF broker, of ?s rm b] lk rm bk by (auto simp: attempted_def)
  have keys: "set (map rm_uuid (rooms w)) = set (map rm_uuid (rooms (b_world s)))" using roomy_keys [OF w(1)] by simp
  have starts': "starts ?s' j = starts s j" for j using tasks by (simp add: s' starts_def)
  have reported': "reported ?s' j = (if j = k then Suc (reported s j) else reported s j)" for j
    using w(2) by (simp add: s' reported_def)
  have sends': "to_send s j = (if j = k then Suc (to_send ?s' j) else to_send ?s' j)" for j
    using tasks by (auto simp: s' to_send_def)
  have attempts': "attempts ?s' j x = attempts s j x" for j x
    using tasks w(2,3) by (simp add: s' attempts_def)
  have found': "find_send ?s' j = find_send s j" for j by (simp add: s' find_send_def)
  have "send_ok cx left ?s' j" for j
  proof (cases "j = k")
    case True
    have "account cx ?s' b"
      using b(2,3) bk starts' [of k] reported' [of k] sends' [of k] by (auto simp: account_def Let_def is_stale_def s')
    moreover have "\<forall>d x. (d, Send_Room k x) \<in> set (b_tasks ?s') \<longrightarrow> x \<in> rm_uuid ` set (rooms (b_world ?s'))"
      using sok [of k] tasks keys by (auto simp: send_ok_def s')
    moreover have "progress_due s k t \<Longrightarrow> progress_due ?s' k t" for t using tasks by (auto simp: progress_due_def s')
    ultimately show ?thesis
      using True sok [of k] attempts' found' [of k] b(1) by (auto simp: send_ok_def Let_def s')
  next
    case False
    show ?thesis
      by (rule send_ok_others [OF sok])
        (use False tasks found' starts' sends' reported' attempts' keys in \<open>auto simp: s'\<close>)
  qed
  then show ?thesis using run linked_roomy [OF w(1) lk] s' by (simp add: bulk_ok_def)
qed

lemma send_group_in_bulk:
  "\<exists>w. in_bulk (send_group env g c a) s = (Inr (), s\<lparr>b_world := w\<rparr>) \<and> roomy (b_world s) w"
  using send_channels_group_effects [of env g c a "set_ws_retries env" "b_world s"] roomy.R_effects
  by (auto simp: in_bulk_def send_group_def)

definition marked :: "'c bulk_db \<Rightarrow> uuid \<Rightarrow> bulk_send \<Rightarrow> bulk_send list" where
  "marked s k b = (if 0 < total_to_send b \<and> total_to_send b \<le> reported s k \<and> bs_status b \<noteq> FINISHED
     then update_where (\<lambda>b. bs_uuid b = k) (\<lambda>b. b\<lparr>bs_status := FINISHED\<rparr>) (b_sends s) else b_sends s)"

lemma update_progress_run:
  assumes "find_send s k = Some b"
  shows "\<exists>w. roomy (b_world s) w \<and> update_progress cx k s = (Inr (), s\<lparr>b_sends := marked s k b, b_world := w\<rparr>)"
proof -
  let ?done = "0 < total_to_send b \<and> total_to_send b \<le> reported s k \<and> bs_status b \<noteq> FINISHED"
  let ?s1 = "s\<lparr>b_sends := marked s k b\<rparr>"
  have mark: "when_true ?done (write_send k (\<lambda>b. b\<lparr>bs_status := FINISHED\<rparr>)) s = (Inr (), ?s1)"
    by (simp add: when_true_def write_send_def modify_def ret_def marked_def)
  let ?perm = "find (\<lambda>p. prm_user p = Some (bs_user b) \<and> prm_project p = bs_project b) (live_permissions (b_world s))"
  have run: "update_progress cx k s = (case ?perm of None \<Rightarrow> (Inr (), ?s1)
      | Some p \<Rightarrow> in_bulk (send_group (ben_env cx) (''permission_'' @ prm_uuid p) ''notify'' ''bulk_message_progress_update'') ?s1)"
    using assms by (simp add: update_progress_def run_gets processed_reported
        run_Inr(2) [where m = "when_true ?done (write_send k (\<lambda>b. b\<lparr>bs_status := FINISHED\<rparr>))", OF mark] ret_def split: option.split)
  show ?thesis
  proof (cases ?perm)
    case None
    with run show ?thesis by (intro exI [of _ "b_world s"]) (simp add: roomy.R_refl)
  next
    case (Some p)
    obtain w where "in_bulk (send_group (ben_env cx) (''permission_'' @ prm_uuid p) ''notify'' ''bulk_message_progress_update'') ?s1 =
        (Inr (), ?s1\<lparr>b_world := w\<rparr>)" "roomy (b_world s) w"
      using send_group_in_bulk [of "ben_env cx" "''permission_'' @ prm_uuid p" "''notify''" "''bulk_message_progress_update''" ?s1]
      by auto
    with run Some show ?thesis by auto
  qed
qed

context expiring_cache
begin

text \<open>\<open>cache.add\<close> on a key: the other keys stay as they are.\<close>

lemma add_fresh:
  assumes "0 < n" and "c_get ops k c = None"
  shows "c_add ops k v n c = (True, snd (c_add ops k v n c))"
    and "c_get ops k' (snd (c_add ops k v n c)) = (if k' = k then Some v else c_get ops k' c)"
    and "left k' (snd (c_add ops k v n c)) = (if k' = k then Some n else left k' c)"
  using assms by (simp_all add: prod_eq_iff add_result get_add left_add)

lemma add_kept:
  assumes "c_get ops k c \<noteq> None"
  shows "c_add ops k v n c = (False, c)"
  using assms by (simp add: prod_eq_iff add_result add_taken)

end

lemma ok_cong:
  assumes "bulk_ok cx left s" and "b_sends s' = b_sends s" "b_rows s' = b_rows s" "b_tasks s' = b_tasks s" "b_now s' = b_now s"
    and "b_world s' = b_world s"
    and "\<And>j. c_get (ben_ops cx) (get_bulk_send_progress_pending_key j) (b_cache s') = c_get (ben_ops cx) (get_bulk_send_progress_pending_key j) (b_cache s)"
    and "\<And>j. left (get_bulk_send_progress_pending_key j) (b_cache s') = left (get_bulk_send_progress_pending_key j) (b_cache s)"
  shows "bulk_ok cx left s'"
  using assms send_ok_others [of cx left s _ s']
  by (simp add: bulk_ok_def find_send_def starts_def to_send_def reported_def attempts_def)

lemma ok_progress:
  assumes cache: "expiring_cache (ben_ops cx) left" and broker: "\<And>n a. task_ok (ben_env cx) n a"
    and times: "0 < ben_cooldown cx" "0 < ben_retry_delay cx"
    and ok: "bulk_ok cx left s" and tasks: "b_tasks s = ys @ (d, Update_Progress k) # zs" and due: "d \<le> b_now s"
  shows "bulk_ok cx left (snd (update_bulk_message_send_progress cx k (s\<lparr>b_tasks := ys @ zs\<rparr>)))"
proof -
  let ?s = "s\<lparr>b_tasks := ys @ zs\<rparr>"
  let ?lock = "get_bulk_send_progress_lock_key k" and ?pend = "get_bulk_send_progress_pending_key k"
  have sok: "send_ok cx left s j" for j using ok by (simp add: bulk_ok_def)
  note add_fresh = expiring_cache.add_fresh [OF cache] and add_kept = expiring_cache.add_kept [OF cache]
  have books: "starts s' j = starts s j \<and> to_send s' j = to_send s j \<and> reported s' j = reported s j \<and> attempts s' j r = attempts s j r"
    if "b_rows s' = b_rows s" "b_tasks s' = ys @ zs @ ts" "\<forall>t \<in> set ts. snd t = Update_Progress k" for s' :: "'a bulk_db" and ts j r
  proof -
    have "count_where (\<lambda>t. snd t = Process_Send j) ts = 0" "count_where (\<lambda>t. \<exists>r. snd t = Send_Room j r) ts = 0"
      "count_where (\<lambda>t. snd t = Send_Room j r) ts = 0"
      using that(3) by (auto simp: count_where_0)
    then show ?thesis using that tasks by (simp add: starts_def to_send_def reported_def attempts_def count_where_all)
  qed
  have others: "send_ok cx left s' j" if "j \<noteq> k" "find_send s' j = find_send s j" "b_rows s' = b_rows s" "b_tasks s' = ys @ zs @ ts"
      "\<forall>t \<in> set ts. snd t = Update_Progress k" "rm_uuid ` set (rooms (b_world s)) \<subseteq> rm_uuid ` set (rooms (b_world s'))" "b_now s' = b_now s"
      "\<And>j. j \<noteq> k \<Longrightarrow> c_get (ben_ops cx) (get_bulk_send_progress_pending_key j) (b_cache s') = c_get (ben_ops cx) (get_bulk_send_progress_pending_key j) (b_cache s)"
      "\<And>j. j \<noteq> k \<Longrightarrow> left (get_bulk_send_progress_pending_key j) (b_cache s') = left (get_bulk_send_progress_pending_key j) (b_cache s)" for s' ts j
    using that tasks books [OF that(3-5)] by (intro send_ok_others [OF sok]) auto
  have mine: "send_ok cx left s' k" if "b_rows s' = b_rows s" "b_tasks s' = ys @ zs @ ts"
      "\<forall>t \<in> set ts. snd t = Update_Progress k" "rm_uuid ` set (rooms (b_world s)) \<subseteq> rm_uuid ` set (rooms (b_world s'))"
      "c_get (ben_ops cx) ?pend (b_cache s') \<noteq> None \<Longrightarrow> \<exists>n. left ?pend (b_cache s') = Some n \<and> progress_due s' k (b_now s' + n)"
      "case find_send s' k of None \<Rightarrow> find_send s k = None | Some b \<Rightarrow> account cx s' b" for s' ts
    using that tasks books [OF that(1-3)] sok [of k] unfolding send_ok_def Let_def
    by (fastforce split: option.splits)
  have still: "progress_due ?s k t" if "progress_due s k t" "b_now s < t" for t
    using that due tasks by (auto simp: progress_due_def)
  have pending: "\<exists>n. left ?pend (b_cache s) = Some n \<and> progress_due ?s k (b_now s + n)" if "c_get (ben_ops cx) ?pend (b_cache s) \<noteq> None"
    using that sok [of k] still expiring_cache.left_present [OF cache, of ?pend "b_cache s"] by (auto simp: send_ok_def Let_def)
  have lk: "linked (b_world s)" using ok by (simp add: bulk_ok_def)
  show ?thesis
  proof (cases "c_get (ben_ops cx) ?lock (b_cache s) = None")
    case True
    let ?c = "snd (c_add (ben_ops cx) ?lock (JBool True) (ben_cooldown cx) (b_cache s))"
    let ?s1 = "?s\<lparr>b_cache := ?c\<rparr>"
    have keys: "c_get (ben_ops cx) (get_bulk_send_progress_pending_key j) ?c = c_get (ben_ops cx) (get_bulk_send_progress_pending_key j) (b_cache s)"
      "left (get_bulk_send_progress_pending_key j) ?c = left (get_bulk_send_progress_pending_key j) (b_cache s)" for j
      using add_fresh(2,3) [OF times(1) True] task_keys(1) [of k j] by auto
    have add: "cache_add cx ?lock (ben_cooldown cx) ?s = (Inr True, ?s1)"
      using add_fresh(1) [OF times(1) True] by (simp add: cache_add_def split: prod.split) (metis prod.inject)
    have "snd (andthen m (ret x) t) = snd (m t)" for m :: "('a bulk_db, unit) py" and x :: bool and t
      by (simp add: andthen_def bnd_def ret_def split: prod.split sum.split)
    then have run: "snd (update_bulk_message_send_progress cx k ?s) = snd (update_progress cx k ?s1)"
      using add by (simp add: update_bulk_message_send_progress_def run_Inr(1) [where m = "cache_add cx ?lock (ben_cooldown cx)"])
    show ?thesis
    proof (cases "find_send s k")
      case None
      then have "snd (update_progress cx k ?s1) = ?s1"
        by (simp add: update_progress_def run_gets find_send_def ret_def)
      moreover have "send_ok cx left ?s1 j" for j
        using mine [of ?s1 "[]"] others [of j ?s1 "[]"] None keys pending
        by (cases "j = k") (auto simp: find_send_def progress_due_def)
      ultimately show ?thesis using run lk by (simp add: bulk_ok_def)
    next
      case (Some b)
      then have "find_send ?s1 k = Some b" by (simp add: find_send_def)
      then obtain w where w: "roomy (b_world s) w" "update_progress cx k ?s1 = (Inr (), ?s1\<lparr>b_sends := marked ?s1 k b, b_world := w\<rparr>)"
        using update_progress_run [of ?s1 k b cx] by auto
      let ?s' = "?s1\<lparr>b_sends := marked ?s1 k b, b_world := w\<rparr>"
      let ?done = "0 < total_to_send b \<and> total_to_send b \<le> reported s k \<and> bs_status b \<noteq> FINISHED"
      have found: "find_send ?s' j = (if j = k \<and> ?done then Some (b\<lparr>bs_status := FINISHED\<rparr>) else find_send s j)" for j
        using Some by (auto simp: marked_def find_send_def find_key_update reported_def)
      have bk: "bs_uuid b = k" using found_send [OF Some] by simp
      have "account cx s b" using sok [of k] Some by (simp add: send_ok_def)
      then have "account cx ?s' (if ?done then b\<lparr>bs_status := FINISHED\<rparr> else b)"
        using books [of ?s' "[]"] bk by (auto simp: account_def Let_def total_to_send_def is_stale_def split: option.splits)
      then have acc: "case find_send ?s' k of None \<Rightarrow> find_send s k = None | Some b \<Rightarrow> account cx ?s' b"
        using found [of k] Some by auto
      have keyset: "rm_uuid ` set (rooms w) = rm_uuid ` set (rooms (b_world s))"
        using roomy_keys [OF w(1)] by (metis set_map)
      have "send_ok cx left ?s' j" for j
        using mine [of ?s' "[]", OF _ _ _ _ _ acc] others [of j ?s' "[]"] found [of j] keys pending keyset
        by (cases "j = k") (auto simp: progress_due_def)
      then show ?thesis using run w linked_roomy [OF w(1) lk] by (simp add: bulk_ok_def)
    qed
  next
    case False
    have add: "cache_add cx ?lock (ben_cooldown cx) ?s = (Inr False, ?s)"
      using add_kept [OF False] by (simp add: cache_add_def)
    have acc: "case find_send s' k of None \<Rightarrow> find_send s k = None | Some b \<Rightarrow> account cx s' b"
      if "find_send s' k = find_send s k" "b_rows s' = b_rows s" "b_tasks s' = ys @ zs @ ts" "\<forall>t \<in> set ts. snd t = Update_Progress k"
        "b_now s' = b_now s" "\<exists>e. (e, Update_Progress k) \<in> set (b_tasks s')" for s' ts
      using that(1,5,6) books [OF that(2-4)] sok [of k] found_send [of s k]
      by (auto simp: send_ok_def account_def Let_def is_stale_def split: option.splits)
    show ?thesis
    proof (cases "c_get (ben_ops cx) ?pend (b_cache s) = None")
      case True
      let ?c = "snd (c_add (ben_ops cx) ?pend (JBool True) (ben_retry_delay cx) (b_cache s))"
      let ?t = "(b_now s + ben_retry_delay cx, Update_Progress k)"
      let ?s' = "?s\<lparr>b_cache := ?c, b_tasks := ys @ zs @ [?t]\<rparr>"
      have keys: "c_get (ben_ops cx) (get_bulk_send_progress_pending_key j) ?c = c_get (ben_ops cx) (get_bulk_send_progress_pending_key j) (b_cache s)"
        "left (get_bulk_send_progress_pending_key j) ?c = left (get_bulk_send_progress_pending_key j) (b_cache s)" if "j \<noteq> k" for j
        using that add_fresh(2,3) [OF times(2) True] task_keys(2) [of j k] by auto
      have mine': "left ?pend ?c = Some (ben_retry_delay cx)" using add_fresh(3) [OF times(2) True] by simp
      have "c_add (ben_ops cx) ?pend (JBool True) (ben_retry_delay cx) (b_cache s) = (True, ?c)"
        using add_fresh(1) [OF times(2) True] .
      then have add2: "cache_add cx ?pend (ben_retry_delay cx) ?s = (Inr True, ?s\<lparr>b_cache := ?c\<rparr>)"
        by (simp add: cache_add_def split: prod.split) (metis prod.inject)
      have run: "update_bulk_message_send_progress cx k ?s = (Inr False, ?s')"
        using add add2 by (simp add: update_bulk_message_send_progress_def bnd_def andthen_def enqueue_run [OF broker] ret_def)
      have "progress_due ?s' k (b_now s + ben_retry_delay cx)" by (auto simp: progress_due_def)
      then have "send_ok cx left ?s' j" for j
        using mine [of ?s' "[?t]"] others [of j ?s' "[?t]"] acc [of ?s' "[?t]"] keys mine'
        by (cases "j = k") (auto simp: find_send_def)
      then show ?thesis using run lk by (simp add: bulk_ok_def)
    next
      case taken: False
      have run: "update_bulk_message_send_progress cx k ?s = (Inr False, ?s)"
        using add add_kept [OF taken] by (simp add: update_bulk_message_send_progress_def bnd_def cache_add_def andthen_def ret_def)
      obtain n where "progress_due ?s k (b_now s + n)" using pending [OF taken] by blast
      then have "\<exists>e. (e, Update_Progress k) \<in> set (b_tasks ?s)" by (auto simp: progress_due_def)
      then have "send_ok cx left ?s j" for j
        using mine [of ?s "[]"] others [of j ?s "[]"] acc [of ?s "[]"] pending
        by (cases "j = k") (auto simp: find_send_def)
      then show ?thesis using run lk by (simp add: bulk_ok_def)
    qed
  qed
qed

lemma ok_start:
  assumes broker: "\<And>n a. task_ok (ben_env cx) n a" and ok: "bulk_ok cx left s"
  shows "bulk_ok cx left (snd (start_bulk_send cx k u t p ss qs as s))"
proof -
  have sok: "send_ok cx left s j" for j using ok by (simp add: bulk_ok_def)
  have added: "bulk_ok cx left (s\<lparr>b_sends := b_sends s @ [b], b_tasks := b_tasks s @ [(b_now s, Process_Send k)]\<rparr>)"
    if b: "bs_uuid b = k" "bs_rooms_qty b = None" "bs_status b = PENDING" and none: "find_send s k = None" for b
  proof -
    let ?s' = "s\<lparr>b_sends := b_sends s @ [b], b_tasks := b_tasks s @ [(b_now s, Process_Send k)]\<rparr>"
    have found: "find_send ?s' j = (if j = k then Some b else find_send s j)" for j
      using none b(1) by (auto simp: find_send_def find_append split: option.split)
    have "account cx ?s' b"
      using sok [of k] none b by (auto simp: send_ok_def account_def Let_def starts_def to_send_def reported_def)
    then have "send_ok cx left ?s' k"
      using sok [of k] none found [of k] by (auto simp: send_ok_def Let_def attempts_def progress_due_def)
    moreover have "send_ok cx left ?s' j" if "j \<noteq> k" for j
      using that by (intro send_ok_others [OF sok]) (auto simp: found starts_def to_send_def reported_def attempts_def)
    ultimately have "send_ok cx left ?s' j" for j by (cases "j = k") simp_all
    then show ?thesis using ok by (simp add: bulk_ok_def)
  qed
  show ?thesis
    using ok added by (auto simp: start_bulk_send_def lift_result_def andthen_def bnd_def gets_def b_need_def raise_def ret_def modify_def
        enqueue_run [OF broker] split: option.split sum.split)
qed

lemma ok_wait:
  assumes cache: "expiring_cache (ben_ops cx) left" and ok: "bulk_ok cx left s"
  shows "bulk_ok cx left (wait_for cx n s)"
proof -
  let ?s' = "wait_for cx n s"
  have base: "cache_backend (ben_ops cx)" using cache by (simp add: expiring_cache_def)
  have "send_ok cx left ?s' j" for j
  proof -
    let ?p = "get_bulk_send_progress_pending_key j"
    have sok: "send_ok cx left s j" using ok by (simp add: bulk_ok_def)
    have "\<exists>m. left ?p (b_cache ?s') = Some m \<and> progress_due ?s' j (b_now ?s' + m)" if "c_get (ben_ops cx) ?p (b_cache ?s') \<noteq> None"
    proof -
      have there: "c_get (ben_ops cx) ?p (c_elapse (ben_ops cx) (int n) (b_cache s)) \<noteq> None" using that by (simp add: wait_for_def)
      then have "c_get (ben_ops cx) ?p (b_cache s) \<noteq> None"
        using cache_backend.get_elapse [OF base, of "int n" ?p "b_cache s"] by auto
      then obtain m where m: "left ?p (b_cache s) = Some m" "progress_due s j (b_now s + m)"
        using sok by (auto simp: send_ok_def Let_def)
      then have "int n < m" using expiring_cache.elapse_gone [OF cache m(1), of "int n"] there by force
      then show ?thesis using m expiring_cache.left_elapse [OF cache, of "int n" ?p "b_cache s"]
        by (simp add: wait_for_def progress_due_def)
    qed
    moreover have "account cx s b \<Longrightarrow> account cx ?s' b" for b
      by (auto simp: account_def Let_def wait_for_def starts_def to_send_def reported_def is_stale_def micros_def split: option.splits)
    ultimately show ?thesis
      using sok by (auto simp: send_ok_def Let_def wait_for_def attempts_def find_send_def starts_def to_send_def reported_def split: option.splits)
  qed
  then show ?thesis using ok by (simp add: bulk_ok_def wait_for_def)
qed

lemma find_swept: "find_send (finish_stale_bulk_message_sends cx s) k =
    map_option (\<lambda>b. if is_stale cx s b \<and> bs_status b \<noteq> FINISHED then b\<lparr>bs_status := FINISHED\<rparr> else b) (find_send s k)"
  by (simp add: find_send_def finish_stale_bulk_message_sends_def find_update_where)

lemma ok_sweep:
  assumes ok: "bulk_ok cx left s"
  shows "bulk_ok cx left (finish_stale_bulk_message_sends cx s)"
proof -
  let ?s' = "finish_stale_bulk_message_sends cx s"
  have "send_ok cx left ?s' j" for j
  proof -
    have sok: "send_ok cx left s j" using ok by (simp add: bulk_ok_def)
    have "account cx s b \<Longrightarrow> account cx ?s' (if is_stale cx s b \<and> bs_status b \<noteq> FINISHED then b\<lparr>bs_status := FINISHED\<rparr> else b)" for b
      by (auto simp: account_def Let_def finish_stale_bulk_message_sends_def starts_def to_send_def reported_def is_stale_def split: option.splits)
    then have acc: "find_send s j = Some b \<Longrightarrow> account cx ?s'
        (if is_stale cx s b \<and> bs_status b \<noteq> FINISHED then b\<lparr>bs_status := FINISHED\<rparr> else b)" for b
      using sok by (simp add: send_ok_def)
    have same: "attempts ?s' j r = attempts s j r" "starts ?s' j = starts s j" "to_send ?s' j = to_send s j" "reported ?s' j = reported s j"
      "b_tasks ?s' = b_tasks s" "b_cache ?s' = b_cache s" "b_world ?s' = b_world s" "b_now ?s' = b_now s" "progress_due ?s' j t = progress_due s j t" for r t
      by (simp_all add: finish_stale_bulk_message_sends_def attempts_def starts_def to_send_def reported_def progress_due_def)
    show ?thesis
      using sok acc unfolding send_ok_def find_swept same Let_def by (cases "find_send s j") auto
  qed
  then show ?thesis using ok by (simp add: bulk_ok_def finish_stale_bulk_message_sends_def)
qed

lemma ok_other:
  assumes "bulk_ok cx left s" and "may_follow (b_world s) w"
  shows "bulk_ok cx left (s\<lparr>b_world := w\<rparr>)"
proof -
  have "send_ok cx left (s\<lparr>b_world := w\<rparr>) j" for j
    by (rule send_ok_others [of cx left s])
      (use assms in \<open>simp_all add: bulk_ok_def may_follow_def find_send_def starts_def to_send_def reported_def attempts_def\<close>)
  then show ?thesis using assms by (simp add: bulk_ok_def may_follow_def)
qed

lemma bulk_ok_run:
  assumes "expiring_cache (ben_ops cx) left" and "\<And>n a. task_ok (ben_env cx) n a"
    and "0 < ben_cooldown cx" "0 < ben_retry_delay cx" and ok: "bulk_ok cx left s" and gap: "count_holds cx"
  shows "bulk_ok cx left (run_nth cx i s)"
proof (cases "i < length (b_tasks s) \<and> fst (b_tasks s ! i) \<le> b_now s")
  case True
  obtain d t where dt: "b_tasks s ! i = (d, t)" by force
  have split: "b_tasks s = take i (b_tasks s) @ (d, t) # drop (Suc i) (b_tasks s)"
    using id_take_nth_drop [of i "b_tasks s"] True dt by simp
  show ?thesis
  proof (cases t)
    case (Process_Send k)
    then show ?thesis using True dt ok_process [OF assms(2) gap ok split [unfolded Process_Send]] by (simp add: run_nth_def)
  next
    case (Send_Room k r)
    then show ?thesis using True dt ok_room [OF assms(2) ok split [unfolded Send_Room]] by (simp add: run_nth_def)
  next
    case (Update_Progress k)
    then show ?thesis using True dt ok_progress [OF assms(1-4) ok split [unfolded Update_Progress]] by (simp add: run_nth_def)
  qed
next
  case False
  then have "run_nth cx i s = s" unfolding run_nth_def by (rule if_not_P)
  with ok show ?thesis by simp
qed

lemma ok_steps:
  assumes "expiring_cache (ben_ops cx) left" and "\<And>n a. task_ok (ben_env cx) n a"
    and "0 < ben_cooldown cx" "0 < ben_retry_delay cx" and "bulk_ok cx left s" and gap: "count_holds cx"
  shows "bulk_ok cx left (fold (run_bulk_step cx) steps s)"
  using assms(5)
proof (induction steps arbitrary: s)
  case (Cons x xs)
  have "bulk_ok cx left (run_bulk_step cx x s)"
    using Cons.prems by (cases x) (simp_all add: ok_start [OF assms(2)] bulk_ok_run [OF assms(1-4) _ gap] ok_wait [OF assms(1)] ok_sweep ok_other)
  then show ?case using Cons.IH by simp
qed simp

section \<open>What a bulk send promises\<close>

definition fresh_bulk :: "world \<Rightarrow> 'c \<Rightarrow> 'c bulk_db" where
  "fresh_bulk w c = \<lparr>b_world = w, b_sends = [], b_rows = [], b_cache = c, b_tasks = [], b_now = 0\<rparr>"

lemma fresh_ok: "linked w \<Longrightarrow> (\<And>k. c_get (ben_ops cx) k c = None) \<Longrightarrow> bulk_ok cx left (fresh_bulk w c)"
  by (simp add: bulk_ok_def send_ok_def fresh_bulk_def attempts_def find_send_def starts_def reported_def to_send_def)

lemma rooms_once:
  assumes "bulk_ok cx left s"
  shows "distinct (map br_room (rows_of s k))"
proof -
  have "(\<forall>r. count_where (\<lambda>x. br_send x = k \<and> br_room x = r) xs \<le> 1) \<Longrightarrow> distinct (map br_room (filter (\<lambda>x. br_send x = k) xs))" for xs
  proof (induction xs)
    case (Cons x xs)
    have "count_where (\<lambda>x. br_send x = k \<and> br_room x = r) xs \<le> 1" for r
      using Cons.prems [rule_format, of r] by (simp split: if_splits)
    moreover have "\<forall>y \<in> set xs. br_send y = k \<longrightarrow> br_room y \<noteq> br_room x" if "br_send x = k"
      using Cons.prems [rule_format, of "br_room x"] that by (auto simp: count_where_0)
    ultimately show ?case using Cons.IH by auto
  qed simp
  moreover have "count_where (\<lambda>x. br_send x = k \<and> br_room x = r) (b_rows s) \<le> 1" for r
  proof -
    have "attempts s k r \<le> 1" using assms by (simp add: bulk_ok_def send_ok_def)
    then show ?thesis unfolding attempts_def by linarith
  qed
  ultimately show ?thesis unfolding rows_of_def by blast
qed

text \<open>C29. Suppose the broker accepts every task and Redis answers, no room is deleted, and as many rooms match a send when
  they are listed as when they were counted. Then, with a positive cooldown and retry delay, whatever requests, tasks, waiting times, sweeps and other transactions follow each other, a room has at
  most one outcome in a bulk send, no more rooms are done than the send has, and a send is finished only when it is
  older than the limit for stale sends, or when every one of its rooms is done and none waits.\<close>

theorem bulk_progress_tells_truth:
  assumes "expiring_cache (ben_ops cx) left" and "\<And>n a. task_ok (ben_env cx) n a" and "0 < ben_cooldown cx" and "0 < ben_retry_delay cx"
    and "count_holds cx" and "linked w" and "\<And>k. c_get (ben_ops cx) k c = None"
    and "s = fold (run_bulk_step cx) steps (fresh_bulk w c)" and "find_send s k = Some b"
  shows "distinct (map br_room (rows_of s k)) \<and> (\<forall>q. bs_rooms_qty b = Some q \<longrightarrow> processed s k + to_send s k = q) \<and>
    (bs_status b = FINISHED \<longrightarrow> is_stale cx s b \<or> (\<exists>q>0. bs_rooms_qty b = Some q \<and> processed s k = q \<and> to_send s k = 0))"
proof -
  have ok: "bulk_ok cx left s" unfolding assms(8) by (rule ok_steps [OF assms(1-4) fresh_ok [OF assms(6,7)] assms(5)])
  then have "account cx s b" using assms(9) by (auto simp: bulk_ok_def send_ok_def dest: spec [of _ k])
  then show ?thesis
    using rooms_once [OF ok] found_send [OF assms(9)]
    by (auto simp: account_def Let_def processed_reported split: option.splits)
qed

text \<open>C30. Under the same conditions, once no task is left, every bulk send has an outcome for each of its rooms and is finished, unless it had no
  room at all: the cooldown of the progress updates never loses the last one.\<close>

theorem bulk_sends_finish:
  assumes "expiring_cache (ben_ops cx) left" and "\<And>n a. task_ok (ben_env cx) n a" and "0 < ben_cooldown cx" and "0 < ben_retry_delay cx"
    and "count_holds cx" and "linked w" and "\<And>k. c_get (ben_ops cx) k c = None"
    and "s = fold (run_bulk_step cx) steps (fresh_bulk w c)" and "b_tasks s = []" and "find_send s k = Some b"
  shows "\<exists>q. bs_rooms_qty b = Some q \<and> length (rows_of s k) = q \<and> (bs_status b = FINISHED \<or> q = 0)"
proof -
  have "bulk_ok cx left s" unfolding assms(8) by (rule ok_steps [OF assms(1-4) fresh_ok [OF assms(6,7)] assms(5)])
  then have "account cx s b" using assms(10) by (auto simp: bulk_ok_def send_ok_def dest: spec [of _ k])
  then show ?thesis
    using found_send [OF assms(10)] assms(9)
    by (auto simp: account_def Let_def starts_def to_send_def reported_def rows_of_def count_where_def split: option.splits)
qed

section \<open>The tasks run out\<close>

definition locks_timed :: "'c bulk_env \<Rightarrow> (string \<Rightarrow> 'c \<Rightarrow> int option) \<Rightarrow> 'c bulk_db \<Rightarrow> bool" where
  "locks_timed cx left s \<longleftrightarrow> (\<forall>k. let l = get_bulk_send_progress_lock_key k in
     c_get (ben_ops cx) l (b_cache s) \<noteq> None \<longrightarrow> (\<exists>n. left l (b_cache s) = Some n \<and> n \<le> ben_cooldown cx))"

text \<open>One move: time passes, other transactions and sweeps happen, and a worker runs a task that is due.\<close>

inductive bulk_move :: "'c bulk_env \<Rightarrow> 'c bulk_db \<Rightarrow> 'c bulk_db \<Rightarrow> bool" for cx where
  "u = (wait_for cx n s)\<lparr>b_world := w, b_sends := sends\<rparr> \<Longrightarrow> i < length (b_tasks u) \<Longrightarrow> fst (b_tasks u ! i) \<le> b_now u \<Longrightarrow>
   bulk_move cx s (run_nth cx i u)"

definition adds_only :: "(bulk_task \<Rightarrow> bool) \<Rightarrow> 'c bulk_db \<Rightarrow> 'c bulk_db \<Rightarrow> bool" where
  "adds_only p s t \<longleftrightarrow> b_cache t = b_cache s \<and> b_now t = b_now s \<and> (\<exists>ts. b_tasks t = b_tasks s @ ts \<and> (\<forall>x \<in> set ts. p (snd x)))"

interpretation adding: step_order "adds_only p" for p
  by unfold_locales (auto simp: adds_only_def)

lemma adds_in_bulk: "keeps (adds_only p) (in_bulk m)"
  by (simp add: keeps_def adds_only_def in_bulk_def split: prod.split)

lemma adds_need: "keeps (adds_only p) (b_need e f)"
  by (simp add: keeps_def adds_only_def b_need_def split: option.split)

lemma adds_enqueue: "p t \<Longrightarrow> keeps (adds_only p) (enqueue cx n t)"
  by (simp add: keeps_def adds_only_def enqueue_def)

lemma adds_atomic: "keeps (adds_only p) m \<Longrightarrow> keeps (adds_only p) (b_atomic m)"
  unfolding keeps_def b_atomic_def by (auto simp: adds_only_def split: prod.splits sum.splits) (metis snd_conv)+

lemma adds_writes: "keeps (adds_only p) (add_row row)" "keeps (adds_only p) (write_send k f)"
  by (simp_all add: keeps_def adds_only_def add_row_def write_send_def modify_def)

lemmas adds_rules = adding.keeps_structure adds_in_bulk adds_need adds_enqueue adds_atomic adds_writes

lemma process_adds: "keeps (adds_only (\<lambda>t. \<exists>k r. t = Send_Room k r)) (process_bulk_message_send cx f k)"
  unfolding process_bulk_message_send_def
  by (intro adds_rules adding.keeps_modify) (auto simp: adds_only_def)

lemma room_adds: "keeps (adds_only (\<lambda>t. \<exists>k. t = Update_Progress k)) (send_bulk_message_to_room cx k r)"
  unfolding send_bulk_message_to_room_def send_bulk_message_def deliver_def schedule_progress_update_def
  by (intro adds_rules) auto

lemma progress_adds: "keeps (adds_only (\<lambda>t. False)) (update_progress cx k)"
  unfolding update_progress_def by (intro adds_rules)

fun turned_away :: "(string \<Rightarrow> int option) \<Rightarrow> int \<Rightarrow> int \<times> bulk_task \<Rightarrow> bool" where
  "turned_away lives now (d, Update_Progress k) = (\<exists>n. lives (get_bulk_send_progress_lock_key k) = Some n \<and> d < now + n)"
| "turned_away lives now _ = False"

definition blocked :: "(string \<Rightarrow> 'c \<Rightarrow> int option) \<Rightarrow> 'c bulk_db \<Rightarrow> nat" where
  "blocked left s = count_where (turned_away (\<lambda>l. left l (b_cache s)) (b_now s)) (b_tasks s)"

lemma turned_away_mono:
  assumes "turned_away f now x" and "\<And>k n. f (get_bulk_send_progress_lock_key k) = Some n \<Longrightarrow>
    \<exists>m. g (get_bulk_send_progress_lock_key k) = Some m \<and> now + n \<le> now' + m"
  shows "turned_away g now' x"
proof -
  obtain d t where "x = (d, t)" by force
  then show ?thesis using assms by (cases t) force+
qed

text \<open>Starts, rooms, progress updates, and progress updates that the present lock turns away.\<close>

definition work_left :: "(string \<Rightarrow> 'c \<Rightarrow> int option) \<Rightarrow> ('c bulk_db \<Rightarrow> nat) list" where
  "work_left left =
     [\<lambda>s. count_where (\<lambda>t. \<exists>k. snd t = Process_Send k) (b_tasks s), \<lambda>s. count_where (\<lambda>t. \<exists>k r. snd t = Send_Room k r) (b_tasks s),
      \<lambda>s. count_where (\<lambda>t. \<exists>k. snd t = Update_Progress k) (b_tasks s), blocked left]"

lemma count_where_mono: "(\<And>x. x \<in> set xs \<Longrightarrow> p x \<Longrightarrow> q x) \<Longrightarrow> count_where p xs \<le> count_where q xs"
  by (induction xs) auto

lemma wait_world:
  assumes cache: "expiring_cache (ben_ops cx) left" and timed: "locks_timed cx left s"
  shows "locks_timed cx left ((wait_for cx n s)\<lparr>b_world := w, b_sends := sends\<rparr>)"
    and "blocked left ((wait_for cx n s)\<lparr>b_world := w, b_sends := sends\<rparr>) \<le> blocked left s"
proof -
  have base: "cache_backend (ben_ops cx)" using cache by (simp add: expiring_cache_def)
  note elapse = expiring_cache.left_elapse [OF cache, of "int n"]
  have "\<exists>m. left l (c_elapse (ben_ops cx) (int n) (b_cache s)) = Some m \<and> m \<le> ben_cooldown cx"
    if l: "l = get_bulk_send_progress_lock_key k" and there: "c_get (ben_ops cx) l (c_elapse (ben_ops cx) (int n) (b_cache s)) \<noteq> None" for l k
  proof -
    have "c_get (ben_ops cx) l (b_cache s) \<noteq> None" using there cache_backend.get_elapse [OF base, of "int n" l "b_cache s"] by auto
    then obtain m where m: "left l (b_cache s) = Some m" "m \<le> ben_cooldown cx" using timed l by (auto simp: locks_timed_def Let_def)
    then have "int n < m" using expiring_cache.elapse_gone [OF cache m(1), of "int n"] there by force
    with m elapse [of l "b_cache s"] show ?thesis by simp
  qed
  then show "locks_timed cx left ((wait_for cx n s)\<lparr>b_world := w, b_sends := sends\<rparr>)" by (simp add: locks_timed_def Let_def wait_for_def)
  show "blocked left ((wait_for cx n s)\<lparr>b_world := w, b_sends := sends\<rparr>) \<le> blocked left s"
    unfolding blocked_def wait_for_def
    by (auto simp: elapse intro!: count_where_mono elim!: turned_away_mono split: option.splits if_splits)
qed

lemma adds_counts:
  assumes "adds_only p s t" and "\<And>x. p x \<Longrightarrow> \<not> q x"
  shows "count_where (\<lambda>x. q (snd x)) (b_tasks t) = count_where (\<lambda>x. q (snd x)) (b_tasks s)"
proof -
  obtain ts where "b_tasks t = b_tasks s @ ts" "\<forall>x \<in> set ts. p (snd x)" using assms(1) by (auto simp: adds_only_def)
  moreover from this(2) have "count_where (\<lambda>x. q (snd x)) ts = 0" using assms(2) by (auto simp: count_where_0)
  ultimately show ?thesis by simp
qed

lemma adds_timed: "adds_only p s t \<Longrightarrow> locks_timed cx left t = locks_timed cx left s"
  by (simp add: adds_only_def locks_timed_def)

lemma run_split:
  assumes "i < length (b_tasks u)" and "fst (b_tasks u ! i) \<le> b_now u"
  obtains ys d t zs where "b_tasks u = ys @ (d, t) # zs" "d \<le> b_now u" "run_nth cx i u = run_task cx t (u\<lparr>b_tasks := ys @ zs\<rparr>)"
proof -
  obtain d t where dt: "b_tasks u ! i = (d, t)" by force
  show thesis
    by (rule that [of "take i (b_tasks u)" d t "drop (Suc i) (b_tasks u)"])
      (use assms dt id_take_nth_drop [of i "b_tasks u"] in \<open>simp_all add: run_nth_def\<close>)
qed

lemma progress_move:
  assumes cache: "expiring_cache (ben_ops cx) left" and times: "0 < ben_cooldown cx" "ben_cooldown cx \<le> ben_retry_delay cx"
    and timed: "locks_timed cx left u" and tasks: "b_tasks u = ys @ (d, Update_Progress k) # zs" and due: "d \<le> b_now u"
  shows "locks_timed cx left (run_task cx (Update_Progress k) (u\<lparr>b_tasks := ys @ zs\<rparr>))"
    and "(run_task cx (Update_Progress k) (u\<lparr>b_tasks := ys @ zs\<rparr>), u) \<in> measures (work_left left)"
proof -
  let ?u = "u\<lparr>b_tasks := ys @ zs\<rparr>" and ?r = "run_task cx (Update_Progress k) (u\<lparr>b_tasks := ys @ zs\<rparr>)"
  let ?lock = "get_bulk_send_progress_lock_key k" and ?pend = "get_bulk_send_progress_pending_key k"
  note add_fresh = expiring_cache.add_fresh [OF cache] and add_kept = expiring_cache.add_kept [OF cache]
  have R: "0 < ben_retry_delay cx" using times by simp
  have "locks_timed cx left ?r \<and> (?r, u) \<in> measures (work_left left)"
  proof (cases "c_get (ben_ops cx) ?lock (b_cache u) = None")
    case True
    let ?c = "snd (c_add (ben_ops cx) ?lock (JBool True) (ben_cooldown cx) (b_cache u))"
    let ?u1 = "?u\<lparr>b_cache := ?c\<rparr>"
    have "cache_add cx ?lock (ben_cooldown cx) ?u = (Inr True, ?u1)"
      using add_fresh(1) [OF times(1) True] by (simp add: cache_add_def split: prod.split) (metis prod.inject)
    moreover have "snd (andthen m (ret x) t) = snd (m t)" for m :: "('a bulk_db, unit) py" and x :: bool and t
      by (simp add: andthen_def bnd_def ret_def split: prod.split sum.split)
    ultimately have "?r = snd (update_progress cx k ?u1)"
      by (simp add: update_bulk_message_send_progress_def run_Inr(1) [where m = "cache_add cx ?lock (ben_cooldown cx)"])
    moreover have "adds_only (\<lambda>t. False) ?u1 (snd (update_progress cx k ?u1))"
      using progress_adds [of cx k] by (simp add: keeps_def)
    ultimately have a: "adds_only (\<lambda>t. False) ?u1 ?r" by simp
    then obtain ts where ts: "b_tasks ?r = (ys @ zs) @ ts" "\<forall>x \<in> set ts. False" by (auto simp: adds_only_def)
    then have "ts = []" by (cases ts) auto
    with a ts(1) have r: "b_cache ?r = ?c" "b_tasks ?r = ys @ zs" by (simp_all add: adds_only_def)
    have "locks_timed cx left ?r"
      unfolding locks_timed_def r Let_def using timed add_fresh(2,3) [OF times(1) True] by (auto simp: locks_timed_def Let_def)
    then show ?thesis using r tasks by (simp add: work_left_def count_where_all)
  next
    case False
    then obtain n where n: "left ?lock (b_cache u) = Some n" "n \<le> ben_cooldown cx" using timed by (auto simp: locks_timed_def Let_def)
    have pos: "0 < n" using expiring_cache.left_present [OF cache n(1)] by simp
    have add: "cache_add cx ?lock (ben_cooldown cx) ?u = (Inr False, ?u)"
      using add_kept [OF False] by (simp add: cache_add_def)
    show ?thesis
    proof (cases "c_get (ben_ops cx) ?pend (b_cache u) = None")
      case True
      let ?c = "snd (c_add (ben_ops cx) ?pend (JBool True) (ben_retry_delay cx) (b_cache u))"
      let ?t = "(b_now u + ben_retry_delay cx, Update_Progress k)"
      have keys: "c_get (ben_ops cx) (get_bulk_send_progress_lock_key j) ?c = c_get (ben_ops cx) (get_bulk_send_progress_lock_key j) (b_cache u)"
        "left (get_bulk_send_progress_lock_key j) ?c = left (get_bulk_send_progress_lock_key j) (b_cache u)" for j
        using add_fresh(2,3) [OF R True] task_keys(1) [of j k] by auto
      have "c_add (ben_ops cx) ?pend (JBool True) (ben_retry_delay cx) (b_cache u) = (True, ?c)" by (rule add_fresh(1) [OF R True])
      then have add2: "cache_add cx ?pend (ben_retry_delay cx) ?u = (Inr True, ?u\<lparr>b_cache := ?c\<rparr>)"
        by (simp add: cache_add_def split: prod.split) (metis prod.inject)
      have "?r = ?u\<lparr>b_cache := ?c, b_tasks := ys @ zs @ [?t]\<rparr> \<or> ?r = ?u\<lparr>b_cache := ?c\<rparr>"
        using add add2 by (auto simp: update_bulk_message_send_progress_def bnd_def andthen_def enqueue_def ret_def)
      moreover have "locks_timed cx left t" if "b_cache t = ?c" for t
        using timed keys that by (simp add: locks_timed_def Let_def)
      moreover have "locks_timed cx left x \<and> (x, u) \<in> measures (work_left left)"
        if "x = ?u\<lparr>b_cache := ?c, b_tasks := ys @ zs @ [?t]\<rparr> \<or> x = ?u\<lparr>b_cache := ?c\<rparr>"
          and "\<And>t. b_cache t = ?c \<Longrightarrow> locks_timed cx left t" for x
      proof -
        have same: "count_where (turned_away (\<lambda>l. left l ?c) now) ts = count_where (turned_away (\<lambda>l. left l (b_cache u)) now) ts" for now ts
        proof -
          have "turned_away (\<lambda>l. left l ?c) now y = turned_away (\<lambda>l. left l (b_cache u)) now y" for y
          proof -
            obtain d t where "y = (d, t)" by force
            then show ?thesis by (cases t) (simp_all add: keys)
          qed
          then show ?thesis by presburger
        qed
        show ?thesis using that tasks n due pos times by (auto simp: work_left_def blocked_def same keys)
      qed
      ultimately show ?thesis by blast
    next
      case taken: False
      have "?r = ?u"
        using add add_kept [OF taken] by (simp add: update_bulk_message_send_progress_def bnd_def cache_add_def andthen_def ret_def)
      then show ?thesis using tasks timed by (simp add: work_left_def locks_timed_def)
    qed
  qed
  then show "locks_timed cx left ?r" "(?r, u) \<in> measures (work_left left)" by auto
qed

lemma bulk_move_decreases:
  assumes cache: "expiring_cache (ben_ops cx) left" and times: "0 < ben_cooldown cx" "ben_cooldown cx \<le> ben_retry_delay cx"
    and timed: "locks_timed cx left s" and move: "bulk_move cx s s'"
  shows "locks_timed cx left s' \<and> (s', s) \<in> measures (work_left left)"
  using move
proof cases
  case (1 u n w sends i)
  note waited = wait_world [OF cache timed, of n w sends, folded 1(2)]
  obtain ys d t zs where split: "b_tasks u = ys @ (d, t) # zs" "d \<le> b_now u" "s' = run_task cx t (u\<lparr>b_tasks := ys @ zs\<rparr>)"
    using run_split [OF 1(3,4)] 1(1) by metis
  let ?u = "u\<lparr>b_tasks := ys @ zs\<rparr>"
  have "locks_timed cx left s' \<and> (s', u) \<in> measures (work_left left)"
  proof (cases t)
    case (Process_Send k)
    have a: "adds_only (\<lambda>t. \<exists>k r. t = Send_Room k r) ?u s'"
      using process_adds [of cx "ben_gap cx k" k] split(3) Process_Send by (simp add: keeps_def)
    have "locks_timed cx left s'" using adds_timed [OF a, of cx left] waited(1) by (simp add: locks_timed_def)
    moreover have "count_where (\<lambda>x. \<exists>k. snd x = Process_Send k) (b_tasks s') = count_where (\<lambda>x. \<exists>k. snd x = Process_Send k) (b_tasks ?u)"
      by (rule adds_counts [OF a, of "\<lambda>t. \<exists>k. t = Process_Send k"]) auto
    then have "count_where (\<lambda>x. \<exists>k. snd x = Process_Send k) (b_tasks s') < count_where (\<lambda>x. \<exists>k. snd x = Process_Send k) (b_tasks u)"
      using split(1) Process_Send by simp
    ultimately show ?thesis by (simp add: work_left_def)
  next
    case (Send_Room k r)
    have a: "adds_only (\<lambda>t. \<exists>k. t = Update_Progress k) ?u s'"
      using room_adds [of cx k r] split(3) Send_Room by (simp add: keeps_def)
    have "locks_timed cx left s'" using adds_timed [OF a, of cx left] waited(1) by (simp add: locks_timed_def)
    moreover have "count_where (\<lambda>x. \<exists>k. snd x = Process_Send k) (b_tasks s') = count_where (\<lambda>x. \<exists>k. snd x = Process_Send k) (b_tasks ?u)"
      by (rule adds_counts [OF a, of "\<lambda>t. \<exists>k. t = Process_Send k"]) auto
    then have "count_where (\<lambda>x. \<exists>k. snd x = Process_Send k) (b_tasks s') = count_where (\<lambda>x. \<exists>k. snd x = Process_Send k) (b_tasks u)"
      using split(1) Send_Room by simp
    moreover have "count_where (\<lambda>x. \<exists>k r. snd x = Send_Room k r) (b_tasks s') = count_where (\<lambda>x. \<exists>k r. snd x = Send_Room k r) (b_tasks ?u)"
      by (rule adds_counts [OF a, of "\<lambda>t. \<exists>k r. t = Send_Room k r"]) auto
    then have "count_where (\<lambda>x. \<exists>k r. snd x = Send_Room k r) (b_tasks s') < count_where (\<lambda>x. \<exists>k r. snd x = Send_Room k r) (b_tasks u)"
      using split(1) Send_Room by simp
    ultimately show ?thesis by (simp add: work_left_def)
  next
    case (Update_Progress k)
    then show ?thesis using progress_move [OF cache times waited(1) split(1) [unfolded Update_Progress] split(2)] split(3) by simp
  qed
  moreover have "b_tasks u = b_tasks s" by (simp add: 1(2) wait_for_def)
  ultimately show ?thesis using waited(2) by (auto simp: work_left_def)
qed

text \<open>C31. With a retry delay that is not shorter than the cooldown the workers never run for ever: whatever happens between
  the tasks, and whatever fails in them, only finitely many tasks run until a new bulk send starts.\<close>

theorem bulk_tasks_run_out:
  assumes "expiring_cache (ben_ops cx) left" and "0 < ben_cooldown cx" and "ben_cooldown cx \<le> ben_retry_delay cx"
  shows "\<nexists>f. locks_timed cx left (f 0) \<and> (\<forall>i::nat. bulk_move cx (f i) (f (Suc i)))"
proof
  assume "\<exists>f. locks_timed cx left (f 0) \<and> (\<forall>i::nat. bulk_move cx (f i) (f (Suc i)))"
  then obtain f where f: "locks_timed cx left (f 0)" "\<And>i::nat. bulk_move cx (f i) (f (Suc i))" by blast
  have "locks_timed cx left (f i) \<and> (f (Suc i), f i) \<in> measures (work_left left)" for i
  proof (induction i)
    case 0
    show ?case using f(1) bulk_move_decreases [OF assms f(1) f(2)] by blast
  next
    case (Suc i)
    then have "locks_timed cx left (f (Suc i))" using bulk_move_decreases [OF assms _ f(2)] by blast
    then show ?case using bulk_move_decreases [OF assms _ f(2)] by blast
  qed
  then have "\<exists>f. \<forall>i. (f (Suc i), f i) \<in> measures (work_left left)" by blast
  moreover have "wf (measures (work_left left))" by (rule wf_measures)
  ultimately show False by (simp add: wf_iff_no_infinite_down_chain)
qed

section \<open>Samples\<close>

definition sending :: "mem_cache bulk_env" where
  "sending = \<lparr>ben_env = calm_env, ben_ops = mem_ops, ben_cooldown = 1, ben_retry_delay = 2, ben_stale_minutes = 30,
     ben_user_exists = (\<lambda>_. True), ben_gap = (\<lambda>_ w. w)\<rparr>"

definition two_waiting :: world where
  "two_waiting = small_world\<lparr>rooms := [blank_room\<lparr>rm_queue := Some ''q''\<rparr>, blank_room\<lparr>rm_uuid := ''r2'', rm_queue := Some ''q''\<rparr>]\<rparr>"

text \<open>The first progress update finishes the send, the second is turned away and comes back after two seconds.\<close>

definition one_send :: "bulk_step list" where
  "one_send = [Start ''b'' ''m@x'' ''Hi'' ''p'' [''waiting''] [] [], Run 0, Run 0, Run 0, Run 0, Run 0, Wait 2, Run 0]"

lemma sending_fine: "expiring_cache (ben_ops sending) mem_left" "task_ok (ben_env sending) n a" "0 < ben_cooldown sending"
  "0 < ben_retry_delay sending" "count_holds sending" "ben_cooldown sending \<le> ben_retry_delay sending"
  by (simp_all add: count_holds_def may_follow_def sending_def calm_env_def timed_mem.expiring_cache_axioms)

lemma two_waiting_fine: "linked two_waiting" "c_get (ben_ops sending) k mem_empty = None"
proof -
  show "linked two_waiting" by code_simp
  show "c_get (ben_ops sending) k mem_empty = None" by (simp add: sending_def mem_defs mem_empty_def)
qed

lemma one_send_runs:
  "let s = fold (run_bulk_step sending) one_send (fresh_bulk two_waiting mem_empty) in
     b_tasks s = [] \<and> map_option bs_status (find_send s ''b'') = Some FINISHED \<and>
     map_option bs_rooms_qty (find_send s ''b'') = Some (Some 2)"
  by code_simp

theorem bulk_progress_tells_truth_witness:
  "\<exists>s b. s = fold (run_bulk_step sending) one_send (fresh_bulk two_waiting mem_empty) \<and> find_send s ''b'' = Some b \<and>
     distinct (map br_room (rows_of s ''b'')) \<and> processed s ''b'' + to_send s ''b'' = 2 \<and> bs_status b = FINISHED"
proof -
  let ?s = "fold (run_bulk_step sending) one_send (fresh_bulk two_waiting mem_empty)"
  obtain b where b: "find_send ?s ''b'' = Some b" "bs_status b = FINISHED" "bs_rooms_qty b = Some 2"
    using one_send_runs by (auto simp: Let_def)
  show ?thesis
    using bulk_progress_tells_truth [OF sending_fine(1-5) two_waiting_fine refl b(1)] b by blast
qed

theorem bulk_sends_finish_witness:
  "\<exists>s b. s = fold (run_bulk_step sending) one_send (fresh_bulk two_waiting mem_empty) \<and> find_send s ''b'' = Some b \<and>
     length (rows_of s ''b'') = 2 \<and> bs_status b = FINISHED"
proof -
  let ?s = "fold (run_bulk_step sending) one_send (fresh_bulk two_waiting mem_empty)"
  obtain b where b: "b_tasks ?s = []" "find_send ?s ''b'' = Some b" "bs_status b = FINISHED" "bs_rooms_qty b = Some 2"
    using one_send_runs by (auto simp: Let_def)
  show ?thesis
    using bulk_sends_finish [OF sending_fine(1-5) two_waiting_fine refl b(1,2)] b by auto
qed

theorem bulk_tasks_run_out_witness:
  "locks_timed sending mem_left (fresh_bulk two_waiting mem_empty) \<and>
   (\<nexists>f. locks_timed sending mem_left (f 0) \<and> (\<forall>i::nat. bulk_move sending (f i) (f (Suc i))))"
  using bulk_tasks_run_out [OF sending_fine(1,3,6)] two_waiting_fine(2)
  by (simp add: locks_timed_def fresh_bulk_def)

lemma to_send_code [code]: "to_send s k = count_where (\<lambda>t. case snd t of Send_Room j r \<Rightarrow> j = k | _ \<Rightarrow> False) (b_tasks s)"
  unfolding to_send_def by (rule arg_cong [where f = "\<lambda>p. count_where p (b_tasks s)"]) (auto simp: fun_eq_iff split: bulk_task.splits)

text \<open>A broker that refuses progress updates counts one room twice: the update is refused after the transaction of the
  message is committed, and the handler of the exception adds a second row.\<close>

definition refusing :: "mem_cache bulk_env" where
  "refusing = sending\<lparr>ben_env := calm_env\<lparr>task_ok := \<lambda>n _. n \<noteq> ''update_bulk_message_send_progress''\<rparr>\<rparr>"

lemma refused_update_counts_twice:
  "let s = fold (run_bulk_step refusing) [Start ''b'' ''m@x'' ''Hi'' ''p'' [''waiting''] [] [], Run 0, Run 0] (fresh_bulk two_waiting mem_empty) in
     map (\<lambda>x. (br_room x, br_status x)) (rows_of s ''b'') = [(''r1'', SUCCESS), (''r1'', FAILED)]"
  by code_simp

text \<open>A room that closes between the two queries is counted and never sent to: the send stays in process until it is stale.\<close>

definition closing_between :: "mem_cache bulk_env" where
  "closing_between = sending\<lparr>ben_gap := \<lambda>_ w.
     w\<lparr>rooms := update_where (\<lambda>r. rm_uuid r = ''r2'') (\<lambda>r. r\<lparr>rm_is_active := False\<rparr>) (rooms w)\<rparr>\<rparr>"

lemma uncounted_room_blocks:
  "let s = fold (run_bulk_step closing_between) [Start ''b'' ''m@x'' ''Hi'' ''p'' [''waiting''] [] [], Run 0, Run 0, Run 0]
         (fresh_bulk two_waiting mem_empty) in
     b_tasks s = [] \<and> map_option (\<lambda>b. (bs_status b, bs_rooms_qty b)) (find_send s ''b'') = Some (PROCESSING, Some 2)"
  by code_simp

end
