(* ===== verification/Room_API.thy ===== *)
theory Room_API
  imports Bulk_Ops Room_Metrics_Calc
begin

text \<open>
  The actions of \<open>RoomViewset\<close> and \<open>RoomNoteViewSet\<close> (\<open>chats/apps/api/v1/rooms/viewsets.py\<close>) with the permission
  classes and serializers that guard them (\<open>api/v1/permissions.py\<close>, \<open>api/v1/rooms/permissions.py\<close>,
  \<open>api/v1/rooms/serializers.py\<close>).

  \<^item> An action is a request of a user on a room: \<open>get_object\<close> finds it among the rooms of the user's projects and
    asks the permission class, then the body of the action runs. A 404 is \<open>DoesNotExist\<close>, a 403 \<open>PermissionDenied\<close>.
  \<^item> A transfer request carries an e-mail, a queue or both; \<open>api_user_exists\<close> is the answer of the cached lookup
    of accounts.
  \<^item> The tags of sectors are a table of their own here, which the actions only read.
\<close>

section \<open>Permissions\<close>

definition perm_is_admin :: "permission \<Rightarrow> bool" where
  "perm_is_admin p \<longleftrightarrow> prm_role p = 1"

definition perm_is_manager_of :: "world \<Rightarrow> permission \<Rightarrow> uuid \<Rightarrow> bool" where
  "perm_is_manager_of w p s \<longleftrightarrow> perm_is_admin p \<or>
     (case find (\<lambda>a. sau_permission a = prm_uuid p \<and> sau_sector a = s) (live_sector_auths w) of
        None \<Rightarrow> False | Some a \<Rightarrow> sau_role a = 1)"

definition perm_is_any_manager :: "world \<Rightarrow> permission \<Rightarrow> bool" where
  "perm_is_any_manager w p \<longleftrightarrow> perm_is_admin p \<or> list_ex (\<lambda>a. sau_permission a = prm_uuid p) (live_sector_auths w)"

definition perm_is_agent :: "world \<Rightarrow> permission \<Rightarrow> uuid \<Rightarrow> exn + bool" where
  "perm_is_agent w p q =
     (if perm_is_admin p then Inr True
      else case find (\<lambda>s. \<not> sec_is_deleted s \<and> sec_project s = prm_project p
             \<and> list_ex (\<lambda>x. que_uuid x = q \<and> que_sector x = sec_uuid s) (queues w)) (sectors w) of
        None \<Rightarrow> Inl (DoesNotExist ''Sector'')
      | Some s \<Rightarrow>
          if perm_is_manager_of w p (sec_uuid s) then Inr True
          else if list_ex (\<lambda>a. qau_permission a = prm_uuid p \<and> qau_queue a = q) (live_queue_auths w) then Inr True
          else Inl (DoesNotExist ''QueueAuthorization''))"

text \<open>\<open>IsQueueAgent.has_object_permission\<close>.\<close>

definition queue_agent_may :: "email \<Rightarrow> room \<Rightarrow> (world, bool) py" where
  "queue_agent_may u r =
     (if rm_user r = Some u then ret True
      else bnd (room_get_permission r (Some u)) (\<lambda>perm. case perm of None \<Rightarrow> ret False
        | Some p \<Rightarrow> bnd (need AttributeError (\<lambda>w. queue_of w r)) (\<lambda>q.
            gets (\<lambda>w. case perm_is_agent w p (que_uuid q) of Inr b \<Rightarrow> b | Inl _ \<Rightarrow> perm_is_any_manager w p))))"

definition visible_to :: "world \<Rightarrow> email \<Rightarrow> room \<Rightarrow> bool" where
  "visible_to w u r \<longleftrightarrow> list_ex (\<lambda>p. prm_user p = Some u \<and> room_in_project w (prm_project p) r) (live_permissions w)"

definition get_object :: "email \<Rightarrow> uuid \<Rightarrow> (world, room_obj) py" where
  "get_object u k =
     bnd (need (DoesNotExist ''Room'') (\<lambda>w. find (\<lambda>r. rm_uuid r = k \<and> visible_to w u r) (rooms w))) (\<lambda>r.
     bnd (queue_agent_may u r) (\<lambda>may.
     if may then ret (loaded r) else raise (PermissionDenied ''IsQueueAgent'')))"

section \<open>Reading and closing\<close>

record sector_tag =
  tag_uuid :: uuid
  tag_sector :: uuid
  tag_is_deleted :: bool

definition bulk_update_msgs :: "env \<Rightarrow> email \<Rightarrow> uuid \<Rightarrow> (world, unit) py" where
  "bulk_update_msgs env u k = bnd (get_object u k) (\<lambda>ob.
     if rm_user (ob_row ob) = None then raise (ValidationError ''Can't mark queued rooms as read'')
     else andthen (clear_unread_messages_count env (room_pk ob))
       (bnd (load_room (room_pk ob)) (\<lambda>ob1. notify_user env (ob_row ob1) ''update'' None)))"

text \<open>\<open>SectorTag.objects\<close> leaves out deleted tags and the tags of deleted sectors; so does \<open>room.tags\<close>.\<close>

definition sector_tag_uuids :: "sector_tag list \<Rightarrow> sector \<Rightarrow> uuid list" where
  "sector_tag_uuids ts s =
     map tag_uuid (filter (\<lambda>t. tag_sector t = sec_uuid s \<and> \<not> tag_is_deleted t \<and> \<not> sec_is_deleted s) ts)"

definition live_tag :: "sector_tag list \<Rightarrow> world \<Rightarrow> uuid \<Rightarrow> bool" where
  "live_tag ts w k = list_ex (\<lambda>t. tag_uuid t = k \<and> \<not> tag_is_deleted t \<and>
     (case find_sector w (tag_sector t) of None \<Rightarrow> False | Some s \<Rightarrow> \<not> sec_is_deleted s)) ts"

definition can_close_chats_in_queue :: "sector \<Rightarrow> bool" where
  "can_close_chats_in_queue s \<longleftrightarrow> truthy (get_config (sec_config s) ''can_close_chats_in_queue'' (JBool False))"

definition no_tags_after_close :: "sector_tag list \<Rightarrow> world \<Rightarrow> uuid list option \<Rightarrow> room \<Rightarrow> bool" where
  "no_tags_after_close table w tags r \<longleftrightarrow>
     (case tags of Some ts \<Rightarrow> ts = [] | None \<Rightarrow> filter (live_tag table w) (rm_tags r) = [])"

definition check_close_tags ::
  "sector_tag list \<Rightarrow> world \<Rightarrow> uuid list option \<Rightarrow> sector \<Rightarrow> room \<Rightarrow> exn + unit" where
  "check_close_tags table w tags s r =
     (if (case tags of None \<Rightarrow> False | Some ts \<Rightarrow> \<not> set ts \<subseteq> set (sector_tag_uuids table s))
      then Inl (ValidationError ''tag_not_found'')
      else if sec_required_tags s \<and> no_tags_after_close table w tags r then Inl (ValidationError ''tags_required'')
      else Inr ())"

definition check_close_queued :: "email \<Rightarrow> sector \<Rightarrow> room \<Rightarrow> (world, unit) py" where
  "check_close_queued u s r =
     (if rm_user r = None \<and> can_close_chats_in_queue s
      then bnd (room_get_permission r (Some u)) (\<lambda>perm.
        if (case perm of None \<Rightarrow> False | Some p \<Rightarrow> perm_is_admin p) then ret ()
        else raise (PermissionDenied ''queued_room_close_disabled''))
      else ret ())"

text \<open>What follows the transaction of the close: messages, metrics, billing, routing of the queue.\<close>

definition finish_close :: "env \<Rightarrow> (uuid \<Rightarrow> (world, unit) py) \<Rightarrow> room_obj \<Rightarrow> (world, unit) py" where
  "finish_close env route_now ob =
     andthen (notify_queue env (ob_row ob) ''close'' True)
     (andthen (notify_user env (ob_row ob) ''close'' None)
     (when_true (set_activate_calc_metrics env)
       (andthen (close_room env (generate_metrics env) (room_pk ob))
       (andthen (when_true (\<not> is_billing_notified (ob_row ob)) (notify_billing env ob))
       (bnd (gets (\<lambda>w. queue_of w (ob_row ob))) (\<lambda>q. case q of None \<Rightarrow> ret ()
          | Some x \<Rightarrow> start_queue_priority_routing env route_now x))))))"

definition close_action ::
  "env \<Rightarrow> (uuid \<Rightarrow> (world, unit) py) \<Rightarrow> sector_tag list \<Rightarrow> email \<Rightarrow> uuid \<Rightarrow> uuid list option \<Rightarrow> (world, unit) py" where
  "close_action env route_now table u k tags = bnd (get_object u k) (\<lambda>ob.
     bnd (need AttributeError (\<lambda>w. sector_of w (ob_row ob))) (\<lambda>s.
     andthen (\<lambda>w. (check_close_tags table w tags s (ob_row ob), w))
     (andthen (check_close_queued u s (ob_row ob))
     (andthen (atomic (room_close env tags ''agent'' (Some u) ob))
     (bnd (load_room (room_pk ob)) (finish_close env route_now))))))"

section \<open>Taking and transferring\<close>

definition pick_queue_room :: "env \<Rightarrow> email \<Rightarrow> uuid \<Rightarrow> (world, unit) py" where
  "pick_queue_room env u k = bnd (get_object u k) (\<lambda>ob.
     if rm_user (ob_row ob) \<noteq> None then raise (ValidationError ''Room is not queued'')
     else bnd (gets (\<lambda>w. create_transfer_json env ''pick'' (queue_party (queue_of w (ob_row ob))) (Party_User u)
            (Some (Party_User u)))) (\<lambda>feedback.
     bnd (room_save env None (set_row (\<lambda>r. r\<lparr>rm_user := Some u\<rparr>) ob)) (\<lambda>ob1.
     bnd (add_transfer_to_history env feedback ob1) (\<lambda>ob2. let r = ob_row ob2 in
     sequence
       [create_room_feedback_message env r feedback ''rt'',
        notify_queue env r ''update'' False,
        send_automatic_message env r,
        update_metrics (rm_uuid r) (count_waiting env r),
        update_ticket_async env r]))))"

record transfer_request =
  trq_user :: "email option"
  trq_queue :: "uuid option"

record api_context =
  api_env :: env
  api_user_exists :: "email \<Rightarrow> bool"

text \<open>\<open>TransferRoomSerializer\<close>: the columns that the save will write. An email field takes no blank text. The serializer
  has more writable columns of the room (\<open>protocol\<close>, \<open>is_waiting\<close> and others), none of which is who serves it, its queue
  or whether it is open; a request here names none of them.\<close>

definition validate_transfer :: "api_context \<Rightarrow> transfer_request \<Rightarrow> (world, room \<Rightarrow> room) py" where
  "validate_transfer cx rq =
     bnd (gets (\<lambda>w. case trq_queue rq of None \<Rightarrow> True | Some q \<Rightarrow> list_ex (\<lambda>x. que_uuid x = q) (live_queues w))) (\<lambda>known.
     if \<not> known then raise (ValidationError ''queue_uuid'')
     else if trq_user rq = Some [] then raise (ValidationError ''user_email'')
     else case trq_user rq of
       Some (c # cs) \<Rightarrow>
         if \<not> api_user_exists cx (c # cs) then raise (ValidationError ''user_email: not found'')
         else ret (\<lambda>r. (case trq_queue rq of None \<Rightarrow> r | Some q \<Rightarrow> r\<lparr>rm_queue := Some q\<rparr>)
                \<lparr>rm_user := Some (map lower_char (c # cs))\<rparr>)
     | _ \<Rightarrow> ret (\<lambda>r. case trq_queue rq of None \<Rightarrow> r | Some q \<Rightarrow> r\<lparr>rm_queue := Some q\<rparr>))"

definition count_transfer :: "room_metrics \<Rightarrow> room_metrics" where
  "count_transfer m = m\<lparr>met_transfer_count := met_transfer_count m + 1\<rparr>"

text \<open>The ticketer of the new sector; the instance was saved before, so it already is in the new queue.\<close>

definition sync_ticketer :: "env \<Rightarrow> uuid option \<Rightarrow> room \<Rightarrow> (world, unit) py" where
  "sync_ticketer env old_sector r =
     bnd (gets (\<lambda>w. map_option sec_uuid (sector_of w r))) (\<lambda>new_sector.
     case new_sector of None \<Rightarrow> ret ()
     | Some s \<Rightarrow> when_true (Some s \<noteq> old_sector) (try_except (change_ticketer_for_room env r s) (\<lambda>e.
         if e = ExternalError ''FlowsTicketerNotFoundError'' \<or> e = ExternalError ''FlowsChangeTicketerError''
         then raise (ValidationError ''Could not update the ticketer in Flows'') else raise e)))"

text \<open>\<open>old_user or old_instance.queue\<close>, read from the instance after the save.\<close>

definition transfer_source :: "world \<Rightarrow> email option \<Rightarrow> room \<Rightarrow> party" where
  "transfer_source w old_user r = (case old_user of Some u \<Rightarrow> Party_User u | None \<Rightarrow> queue_party (queue_of w r))"

definition record_user_transfer ::
  "env \<Rightarrow> email \<Rightarrow> email \<Rightarrow> email option \<Rightarrow> room_obj \<Rightarrow> (world, room_obj) py" where
  "record_user_transfer env requester user old_user ob =
     andthen (update_metrics (room_pk ob) (if old_user = None then count_waiting env (ob_row ob) else count_transfer))
     (bnd (gets (\<lambda>w. create_transfer_json env (if requester \<noteq> user then ''transfer'' else ''pick'')
            (transfer_source w old_user (ob_row ob)) (user_party (rm_user (ob_row ob))) (Some (Party_User requester)))) (\<lambda>f.
      andthen (create_room_feedback_message env (ob_row ob) f ''rt'') (add_transfer_to_history env f ob)))"

definition record_queue_transfer ::
  "env \<Rightarrow> email \<Rightarrow> bool \<Rightarrow> email option \<Rightarrow> room_obj \<Rightarrow> (world, room_obj) py" where
  "record_queue_transfer env requester keep_user old_user ob =
     bnd (gets (\<lambda>w. create_transfer_json env ''transfer'' (transfer_source w old_user (ob_row ob))
            (queue_party (queue_of w (ob_row ob))) (Some (Party_User requester)))) (\<lambda>f.
     let ob1 = (if keep_user then ob else set_row (\<lambda>r. r\<lparr>rm_user := None\<rparr>) ob) in
     andthen (update_metrics (room_pk ob1) count_transfer)
     (andthen (create_room_feedback_message env (ob_row ob1) f ''rt'') (add_transfer_to_history env f ob1)))"

definition notify_transfer :: "env \<Rightarrow> email option \<Rightarrow> bool \<Rightarrow> bool \<Rightarrow> room \<Rightarrow> (world, unit) py" where
  "notify_transfer env old_user to_user to_queue r =
     (if old_user = None \<and> to_user then notify_queue env r ''update'' False
      else case old_user of None \<Rightarrow> ret ()
      | Some u \<Rightarrow> andthen (notify_user env r ''update'' (Some u))
          (if to_queue then notify_queue env r ''update'' False else notify_user env r ''update'' None))"

definition perform_update ::
  "env \<Rightarrow> email \<Rightarrow> transfer_request \<Rightarrow> (room \<Rightarrow> room) \<Rightarrow> room_obj \<Rightarrow> (world, unit) py" where
  "perform_update env requester rq columns ob =
     (let old_user = rm_user (ob_row ob); to_user = trq_user rq \<notin> {None, Some []}; to_queue = trq_queue rq \<noteq> None in
     atomic
      (bnd (gets (\<lambda>w. map_option sec_uuid (sector_of w (ob_row ob)))) (\<lambda>old_sector.
       bnd (room_save env None (set_row columns ob)) (\<lambda>ob1.
       andthen (when_true to_queue (sync_ticketer env old_sector (ob_row ob1)))
       (if \<not> to_user \<and> \<not> to_queue then ret ()
        else andthen (mark_notes_as_non_deletable (room_pk ob1))
         (bnd (if to_user then record_user_transfer env requester (the (trq_user rq)) old_user ob1 else ret ob1) (\<lambda>ob2.
          bnd (if to_queue then record_queue_transfer env requester to_user old_user ob2 else ret ob2) (\<lambda>ob3.
          bnd (room_save env None ob3) (\<lambda>ob4.
            notify_transfer env old_user to_user to_queue (ob_row ob4))))))))))"

definition update_action :: "api_context \<Rightarrow> email \<Rightarrow> uuid \<Rightarrow> transfer_request \<Rightarrow> (world, unit) py" where
  "update_action cx u k rq = bnd (get_object u k) (\<lambda>ob.
     bnd (validate_transfer cx rq) (\<lambda>columns. perform_update (api_env cx) u rq columns ob))"

section \<open>Pins, tags and notes\<close>

definition pin_action :: "env \<Rightarrow> email \<Rightarrow> uuid \<Rightarrow> bool \<Rightarrow> (world, unit) py" where
  "pin_action env u k status = bnd (get_object u k) (\<lambda>ob.
     if status then pin_room_op env ob u else unpin_room_op ob u)"

text \<open>The guards the two tag actions share. \<open>get_permissions\<close> ignores the permission classes the actions name,
  so the object permission is the one of the queue.\<close>

definition tag_room :: "sector_tag list \<Rightarrow> email \<Rightarrow> uuid \<Rightarrow> uuid \<Rightarrow> (world, room) py" where
  "tag_room table u k tag = bnd (get_object u k) (\<lambda>ob. let r = ob_row ob in
     if \<not> rm_is_active r then raise (ValidationError ''room_is_not_active'')
     else if rm_user r \<noteq> Some u then raise (PermissionDenied ''user_is_not_the_room_user'')
     else bnd (need AttributeError (\<lambda>w. sector_of w r)) (\<lambda>s.
       if tag \<notin> set (sector_tag_uuids table s) then raise (ValidationError ''tag_not_found'') else ret r))"

definition add_tag :: "sector_tag list \<Rightarrow> email \<Rightarrow> uuid \<Rightarrow> uuid \<Rightarrow> (world, unit) py" where
  "add_tag table u k tag = bnd (tag_room table u k tag) (\<lambda>r.
     if tag \<in> set (rm_tags r) then raise (ValidationError ''tag_already_exists'')
     else update_room k (\<lambda>x. x\<lparr>rm_tags := rm_tags x @ [tag]\<rparr>))"

definition remove_tag :: "sector_tag list \<Rightarrow> email \<Rightarrow> uuid \<Rightarrow> uuid \<Rightarrow> (world, unit) py" where
  "remove_tag table u k tag = bnd (tag_room table u k tag) (\<lambda>r.
     if tag \<notin> set (rm_tags r) then raise (ValidationError ''tag_not_found'')
     else update_room k (\<lambda>x. x\<lparr>rm_tags := filter (\<lambda>t. t \<noteq> tag) (rm_tags x)\<rparr>))"

text \<open>\<open>verify_user_room\<close> returns the agent of the room or the user of the request, never a false value.\<close>

definition verify_user_room :: "room \<Rightarrow> email \<Rightarrow> email" where
  "verify_user_room r u = (case rm_user r of Some x \<Rightarrow> x | None \<Rightarrow> u)"

definition create_note :: "env \<Rightarrow> email \<Rightarrow> uuid \<Rightarrow> string \<Rightarrow> (world, room_note) py" where
  "create_note env u k text_value = bnd (get_object u k) (\<lambda>ob. let r = ob_row ob in
     if verify_user_room r u = [] then raise (PermissionDenied ''notes'')
     else if \<not> rm_is_active r then raise (ValidationError ''Cannot add notes to closed rooms'')
     else bnd (message_create env r (Some u) None [] False) (\<lambda>m.
       let n = \<lparr>note_room = rm_uuid r, note_user = u, note_text = text_value, note_is_deletable = True,
                note_message = Some (msg_id m)\<rparr> in
       andthen (modify (\<lambda>w. w\<lparr>room_notes := room_notes w @ [n]\<rparr>))
       (andthen (message_notify_room env r m ''create'' True) (ret n))))"

text \<open>The notes a user reaches: of the own rooms and of the projects with any permission, deleted ones too.\<close>

definition note_visible :: "world \<Rightarrow> email \<Rightarrow> room_note \<Rightarrow> bool" where
  "note_visible w u n = (case find_room w (note_room n) of None \<Rightarrow> False
     | Some r \<Rightarrow> rm_user r = Some u \<or> list_ex (\<lambda>p. prm_user p = Some u \<and> room_in_project w (prm_project p) r) (permissions w))"

definition destroy_note :: "env \<Rightarrow> email \<Rightarrow> room_note \<Rightarrow> (world, unit) py" where
  "destroy_note env u n =
     bnd (need (DoesNotExist ''RoomNote'') (\<lambda>w. if n \<in> set (room_notes w) \<and> note_visible w u n
            then find_room w (note_room n) else None)) (\<lambda>r.
     if \<not> note_is_deletable n then raise (ValidationError ''Note cannot be deleted'')
     else if note_user n \<noteq> u then raise (PermissionDenied ''You can only delete your own notes'')
     else if \<not> rm_is_active r then raise (ValidationError ''Cannot delete notes from closed rooms'')
     else andthen (note_notify_websocket env r ''delete'') (note_delete n))"

section \<open>Bulk requests\<close>

datatype bulk_status = Bulk_OK bulk_result | Bulk_Multi bulk_result | Bulk_Failed bulk_result | Bulk_Error

definition bulk_status_of :: "bulk_result \<Rightarrow> bulk_status" where
  "bulk_status_of res = (if res_success res = 0 \<and> 0 < res_failed res then Bulk_Failed res
     else if 0 < res_failed res then Bulk_Multi res else Bulk_OK res)"

definition rooms_list_ok :: "nat \<Rightarrow> uuid list \<Rightarrow> bool" where
  "rooms_list_ok max_rooms ks \<longleftrightarrow> ks \<noteq> [] \<and> length ks \<le> max_rooms \<and> distinct ks"

definition active_keys :: "world \<Rightarrow> uuid list \<Rightarrow> uuid list" where
  "active_keys w ks = map rm_uuid (filter (\<lambda>r. rm_uuid r \<in> set ks \<and> rm_is_active r) (rooms w))"

text \<open>The view asks only for an account: no permission class looks at the rooms of the list.\<close>

definition bulk_transfer_view ::
  "api_context \<Rightarrow> (uuid \<Rightarrow> (world, unit) py) \<Rightarrow> nat \<Rightarrow> email \<Rightarrow> uuid list \<Rightarrow> email option \<Rightarrow> uuid option \<Rightarrow>
   (world, bulk_status) py" where
  "bulk_transfer_view cx route_now max_rooms u ks user queue =
     (if \<not> rooms_list_ok max_rooms ks then raise (ValidationError ''rooms_list'')
      else if user \<in> {None, Some []} \<and> queue = None then raise (ValidationError ''user_email or queue_uuid'')
      else bnd (gets (\<lambda>w. active_keys w ks)) (\<lambda>found.
        if found = [] then raise (ValidationError ''No active rooms found'')
        else if (case user of Some (c # cs) \<Rightarrow> \<not> api_user_exists cx (c # cs) | _ \<Rightarrow> False)
        then raise (DoesNotExist ''User'')
        else bnd (case queue of None \<Rightarrow> ret None
               | Some k \<Rightarrow> bnd (need (DoesNotExist ''Queue'') (\<lambda>w. find (\<lambda>q. que_uuid q = k) (live_queues w))) (\<lambda>q. ret (Some q))) (\<lambda>q.
          try_except (bnd (bulk_transfer (api_env cx) route_now found u (if user = Some [] then None else user) q)
              (\<lambda>res. ret (bulk_status_of res)))
            (\<lambda>_. ret Bulk_Error))))"

definition bulk_take_view ::
  "env \<Rightarrow> (uuid \<Rightarrow> (world, unit) py) \<Rightarrow> nat \<Rightarrow> email \<Rightarrow> uuid list \<Rightarrow> (world, bulk_status) py" where
  "bulk_take_view env route_now max_rooms u ks =
     (if \<not> rooms_list_ok max_rooms ks then raise (ValidationError ''rooms_list'')
      else bnd (gets (\<lambda>w. map rm_uuid (filter (\<lambda>r. rm_uuid r \<in> set ks \<and> rm_is_active r \<and> rm_user r = None) (rooms w)))) (\<lambda>found.
        if found = [] then raise (ValidationError ''No available rooms found in the queue'')
        else try_except (bnd (bulk_take env route_now found u) (\<lambda>res. ret (bulk_status_of res))) (\<lambda>_. ret Bulk_Error)))"

text \<open>\<open>BulkCloseSerializer\<close>: first the sector of every room is read, then the tags of each room are checked; the
  user of the request, and the user named as author, need a permission in every project of the rooms.\<close>

definition check_room_tags :: "sector_tag list \<Rightarrow> world \<Rightarrow> (uuid \<Rightarrow> uuid list) \<Rightarrow> room list \<Rightarrow> exn + unit" where
  "check_room_tags table w tags found =
     (if list_ex (\<lambda>r. sector_of w r = None) found then Inl AttributeError
      else if list_ex (\<lambda>r. \<not> set (tags (rm_uuid r)) \<subseteq> set (sector_tag_uuids table (the (sector_of w r)))) found
      then Inl (ValidationError ''tags not found'') else Inr ())"

definition check_close_projects :: "api_context \<Rightarrow> world \<Rightarrow> email \<Rightarrow> email option \<Rightarrow> room list \<Rightarrow> exn + unit" where
  "check_close_projects cx w u closed_by found =
     (if (case closed_by of None \<Rightarrow> False | Some c \<Rightarrow> \<not> api_user_exists cx c)
      then Inl (ValidationError ''closed_by_email'')
      else if \<not> list_all (visible_to w u) found then Inl (ValidationError ''User does not have permission'')
      else case closed_by of None \<Rightarrow> Inr ()
      | Some c \<Rightarrow> if list_all (visible_to w c) found then Inr ()
          else Inl (ValidationError ''User does not have permission''))"

definition bulk_close_view ::
  "api_context \<Rightarrow> (uuid \<Rightarrow> (world, unit) py) \<Rightarrow> sector_tag list \<Rightarrow> nat \<Rightarrow> email \<Rightarrow> uuid list \<Rightarrow> (uuid \<Rightarrow> uuid list) \<Rightarrow>
   string \<Rightarrow> email option \<Rightarrow> (world, bulk_status) py" where
  "bulk_close_view cx route_now table max_rooms u ks tags end_by closed_by =
     (if \<not> rooms_list_ok max_rooms ks then raise (ValidationError ''rooms'')
      else bnd (gets (\<lambda>w. filter (\<lambda>r. rm_uuid r \<in> set ks \<and> rm_is_active r) (rooms w))) (\<lambda>found.
        if found = [] then raise (ValidationError ''No active rooms found'')
        else andthen (\<lambda>w. (check_room_tags table w tags found, w))
          (andthen (\<lambda>w. (check_close_projects cx w u closed_by found, w))
          (try_except (bnd (bulk_close (api_env cx) route_now (map rm_uuid found) (\<lambda>k. Some (tags k)) end_by closed_by)
              (\<lambda>res. ret (bulk_status_of res)))
            (\<lambda>_. ret Bulk_Error)))))"

section \<open>Finding the room of a request\<close>

interpretation readonly: step_order "(=)"
  by unfold_locales auto

lemma readonly_need: "keeps (=) (need e f)"
  by (simp add: keeps_def)

lemma readonly_permission: "keeps (=) (room_get_permission r u)"
  unfolding room_get_permission_def by (intro readonly.keeps_structure readonly_need)

lemma readonly_queue_agent: "keeps (=) (queue_agent_may u r)"
  unfolding queue_agent_may_def
  by (auto intro!: readonly.keeps_structure readonly_need readonly_permission split: option.split)

lemma readonly_get_object: "keeps (=) (get_object u k)"
  unfolding get_object_def by (intro readonly.keeps_structure readonly_need readonly_queue_agent)

lemma needE:
  assumes "need e f w = (Inr x, w')"
  obtains "f w = Some x" and "w' = w"
  using assms by (auto simp: need_def split: option.splits)

lemma run_need: "bnd (need e f) g w = (case f w of None \<Rightarrow> (Inl e, w) | Some x \<Rightarrow> g x w)"
  by (simp add: bnd_def need_def split: option.split)

lemma get_object_row:
  assumes "get_object u k w = (Inr ob, w')"
  obtains r where "find (\<lambda>r. rm_uuid r = k \<and> visible_to w u r) (rooms w) = Some r" and "ob = loaded r"
proof -
  obtain r s where "need (DoesNotExist ''Room'') (\<lambda>w. find (\<lambda>r. rm_uuid r = k \<and> visible_to w u r) (rooms w)) w =
      (Inr r, s)"
    and run: "bnd (queue_agent_may u r) (\<lambda>may. if may then ret (loaded r)
      else raise (PermissionDenied ''IsQueueAgent'')) s = (Inr ob, w')"
    using assms unfolding get_object_def by (rule bnd_InrE)
  then show thesis by (intro that [of r]) (auto elim!: needE bnd_InrE simp: ret_def raise_def split: if_splits)
qed

lemma get_object_found:
  assumes "distinct (map rm_uuid (rooms w))" and "get_object u k w = (Inr ob, w')"
  obtains row where "w' = w" and "find_room w k = Some row" and "ob = loaded row"
proof -
  have same: "w' = w" using keepsD [OF readonly_get_object assms(2)] by simp
  obtain r where found: "find (\<lambda>r. rm_uuid r = k \<and> visible_to w u r) (rooms w) = Some r" and "ob = loaded r"
    using assms(2) by (rule get_object_row)
  moreover have "find_room w k = Some r"
    using find_in_set [OF found] find_distinct_key [OF assms(1), of r] by (simp add: find_room_def)
  ultimately show thesis using same that by simp
qed

text \<open>An action on the instance that \<open>get_object\<close> returns.\<close>

lemma get_object_then:
  assumes "bnd (get_object u k) f w = (out, w')" and "distinct (map rm_uuid (rooms w))"
    and "find_room w k = Some row"
  shows "(\<exists>e. out = Inl e) \<and> w' = w \<or> f (loaded row) w = (out, w')"
proof -
  obtain g t where run: "get_object u k w = (g, t)" by fastforce
  have t: "t = w" using keepsD [OF readonly_get_object run] by simp
  show ?thesis
  proof (cases g)
    case (Inl e)
    with run t assms(1) show ?thesis by (auto simp: bnd_def)
  next
    case (Inr ob)
    with run have "get_object u k w = (Inr ob, t)" by simp
    then have "ob = loaded row" by (rule get_object_found [OF assms(2)]) (use assms(3) in simp)
    with run Inr t assms(1) show ?thesis by (simp add: bnd_def)
  qed
qed

section \<open>Who may act on a room\<close>

text \<open>What the permission class of the view set decides, in terms of the tables: the rule is about the whole
  project of the room, not about its sector.\<close>

definition reaches_queue :: "world \<Rightarrow> permission \<Rightarrow> uuid \<Rightarrow> bool" where
  "reaches_queue w p q \<longleftrightarrow> prm_role p = 1 \<or>
     (\<exists>a \<in> set (live_sector_auths w). sau_permission a = prm_uuid p) \<or>
     (\<exists>a \<in> set (live_queue_auths w). qau_queue a = q \<and> qau_permission a = prm_uuid p) \<and>
     (\<exists>s \<in> set (sectors w). \<not> sec_is_deleted s \<and> sec_project s = prm_project p \<and>
        (\<exists>x \<in> set (queues w). que_uuid x = q \<and> que_sector x = sec_uuid s))"

lemma manager_of_any: "perm_is_manager_of w p s \<Longrightarrow> perm_is_any_manager w p"
  by (auto simp: perm_is_manager_of_def perm_is_any_manager_def list_ex_iff find_Some_iff
      split: option.splits)

lemma agent_or_manager:
  "(case perm_is_agent w p q of Inr b \<Rightarrow> b | Inl _ \<Rightarrow> perm_is_any_manager w p) \<longleftrightarrow> reaches_queue w p q"
proof -
  let ?live = "\<lambda>s. \<not> sec_is_deleted s \<and> sec_project s = prm_project p
     \<and> list_ex (\<lambda>x. que_uuid x = q \<and> que_sector x = sec_uuid s) (queues w)"
  show ?thesis
  proof (cases "find ?live (sectors w)")
    case None
    then have "\<forall>s \<in> set (sectors w). \<not> ?live s" by (simp add: find_None_iff)
    with None show ?thesis
      by (auto simp: perm_is_agent_def reaches_queue_def perm_is_any_manager_def perm_is_admin_def list_ex_iff)
  next
    case (Some s)
    from find_in_set [OF Some] have "s \<in> set (sectors w) \<and> ?live s" .
    with Some manager_of_any [of w p "sec_uuid s"] show ?thesis
      by (auto simp: perm_is_agent_def reaches_queue_def perm_is_any_manager_def perm_is_admin_def list_ex_iff)
  qed
qed

text \<open>C24. Who may act on a room: its agent, an admin of the project, an agent of its queue while its sector is not
  deleted, and whoever has an authorization of any sector of the project, even of another one.\<close>

theorem queue_agent_policy:
  assumes "queue_of w r = Some q" and "project_of w r = Some prj"
  shows "queue_agent_may u r w = (Inr (rm_user r = Some u \<or>
     (\<exists>p. project_get_permission w (prj_uuid prj) (Some u) = Some p \<and> reaches_queue w p (que_uuid q))), w)"
  using assms
  by (auto simp: queue_agent_may_def room_get_permission_def py_defs need_def agent_or_manager split: option.split)

definition foreign_manager_world :: world where
  "foreign_manager_world = small_world\<lparr>rooms := [blank_room\<lparr>rm_queue := Some ''q''\<rparr>],
     sectors := [blank_sector, blank_sector\<lparr>sec_uuid := ''s2''\<rparr>],
     sector_auths := [\<lparr>sau_permission = ''m1'', sau_sector = ''s2'', sau_role = 0, sau_is_deleted = False\<rparr>]\<rparr>"

theorem queue_agent_policy_witness:
  "queue_agent_may ''a@x'' (hd (rooms foreign_manager_world)) foreign_manager_world =
     (Inr True, foreign_manager_world)"
proof -
  have "queue_of foreign_manager_world (hd (rooms foreign_manager_world)) = Some blank_queue"
    "project_of foreign_manager_world (hd (rooms foreign_manager_world)) = Some blank_project"
    by (simp_all add: foreign_manager_world_def sample_defs queue_of_def find_queue_def project_of_def sector_of_def
        sector_of_queue_def find_sector_def project_of_sector_def find_project_def)
  moreover have "project_get_permission foreign_manager_world (prj_uuid blank_project) (Some ''a@x'') =
      Some blank_permission"
    by (simp add: foreign_manager_world_def sample_defs project_get_permission_def)
  moreover have "reaches_queue foreign_manager_world blank_permission (que_uuid blank_queue)"
    by (simp add: reaches_queue_def live_sector_auths_def foreign_manager_world_def sample_defs
        permission_row_deleted_def find_permission_pk_def)
  ultimately show ?thesis by (simp add: queue_agent_policy)
qed

section \<open>Picking a waiting room\<close>

lemma moves_pick:
  assumes "rm_uuid row = k"
  shows "moves k row (\<lambda>r. r\<lparr>rm_user := Some u\<rparr>)
    (bnd (room_save env None (set_row (\<lambda>r. r\<lparr>rm_user := Some u\<rparr>) (loaded row))) (\<lambda>ob1.
     bnd (add_transfer_to_history env feedback ob1) (\<lambda>ob2. let r = ob_row ob2 in
     sequence
       [create_room_feedback_message env r feedback ''rt'',
        notify_queue env r ''update'' False,
        send_automatic_message env r,
        update_metrics (rm_uuid r) (count_waiting env r),
        update_ticket_async env r])))"
  by (rule moves_save) (auto simp: Let_def intro!: history.keeps_bnd_returns [OF hframe_add_transfer returns_history] hframe_tail)

text \<open>C23. Picking never takes a room away from an agent: a room with an agent is refused and nothing changes. A
  room that waits goes to the user of the request, in the queue where it was, when the request succeeds; when it fails,
  the room is as before or already theirs. No other room changes.\<close>

theorem pick_takes_waiting_room:
  assumes "distinct (map rm_uuid (rooms w))" and "find_room w k = Some row"
    and "pick_queue_room env u k w = (out, w')"
  shows "if rm_user row = None
    then others_kept k w w' \<and> (\<exists>r'. find_room w' k = Some r' \<and>
      (r' = row \<and> (\<exists>e. out = Inl e) \<or> placed r' = (Some u, rm_queue row, rm_is_active row)))
    else w' = w \<and> (\<exists>e. out = Inl e)"
proof -
  from get_object_then [OF assms(3) [unfolded pick_queue_room_def] assms(1,2)]
  consider "\<exists>e. out = Inl e" "w' = w"
    | (body) "(if rm_user (ob_row (loaded row)) \<noteq> None then raise (ValidationError ''Room is not queued'')
         else bnd (gets (\<lambda>w. create_transfer_json env ''pick'' (queue_party (queue_of w (ob_row (loaded row))))
            (Party_User u) (Some (Party_User u)))) (\<lambda>feedback.
     bnd (room_save env None (set_row (\<lambda>r. r\<lparr>rm_user := Some u\<rparr>) (loaded row))) (\<lambda>ob1.
     bnd (add_transfer_to_history env feedback ob1) (\<lambda>ob2. let r = ob_row ob2 in
     sequence
       [create_room_feedback_message env r feedback ''rt'',
        notify_queue env r ''update'' False,
        send_automatic_message env r,
        update_metrics (rm_uuid r) (count_waiting env r),
        update_ticket_async env r])))) w = (out, w')"
    by blast
  then show ?thesis
  proof cases
    case 1
    then show ?thesis using assms(2) by (auto simp: others_kept_def)
  next
    case body
    show ?thesis
    proof (cases "rm_user row")
      case (Some v)
      with body show ?thesis by (auto simp: raise_def)
    next
      case None
      note moves = moves_pick [OF find_room_uuid [OF assms(2)], of u env]
      from body None assms(2) moves have "moved_to k row (\<lambda>r. r\<lparr>rm_user := Some u\<rparr>) (\<exists>x. out = Inr x) w w'"
        unfolding moves_def by (simp add: run_gets)
      with None show ?thesis by (cases out) (auto simp: moved_to_def placed_def)
    qed
  qed
qed

theorem pick_takes_waiting_room_witness:
  "\<exists>r'. find_room (snd (pick_queue_room calm_env ''a@x'' ''r1'' foreign_manager_world)) ''r1'' = Some r' \<and>
     placed r' = (Some ''a@x'', Some ''q'', True)"
proof -
  let ?w = "foreign_manager_world" and ?row = "hd (rooms foreign_manager_world)"
  let ?run = "pick_queue_room calm_env ''a@x'' ''r1'' ?w"
  have start: "distinct (map rm_uuid (rooms ?w))" "find_room ?w ''r1'' = Some ?row" "rm_user ?row = None"
    "rm_queue ?row = Some ''q''" "rm_is_active ?row"
    by (simp_all add: foreign_manager_world_def sample_defs find_room_def)
  have "fst ?run = Inr ()" by code_simp
  then obtain w' where run: "?run = (Inr (), w')" by (cases ?run) simp
  from pick_takes_waiting_room [OF start(1,2) run] start(3-5) show ?thesis by (simp add: run)
qed

section \<open>A transfer to a user or to a queue\<close>

text \<open>What a transfer request asks for.\<close>

definition asked_user :: "transfer_request \<Rightarrow> email option" where
  "asked_user rq = (case trq_user rq of Some (c # cs) \<Rightarrow> Some (map lower_char (c # cs)) | _ \<Rightarrow> None)"

definition asked_columns :: "transfer_request \<Rightarrow> room \<Rightarrow> room" where
  "asked_columns rq r = r\<lparr>rm_queue := (case trq_queue rq of None \<Rightarrow> rm_queue r | q \<Rightarrow> q),
     rm_user := (case asked_user rq of None \<Rightarrow> rm_user r | u \<Rightarrow> u)\<rparr>"

definition transferred_to :: "transfer_request \<Rightarrow> room \<Rightarrow> email option \<times> uuid option \<times> bool" where
  "transferred_to rq row =
     (case asked_user rq of None \<Rightarrow> if trq_queue rq = None then rm_user row else None | u \<Rightarrow> u,
      case trq_queue rq of None \<Rightarrow> rm_queue row | q \<Rightarrow> q,
      rm_is_active row)"

lemma validate_transfer_columns:
  assumes "validate_transfer cx rq w = (Inr columns, w')"
  shows "w' = w \<and> columns = asked_columns rq \<and> (asked_user rq = None \<longleftrightarrow> trq_user rq \<in> {None, Some []})"
  using assms
  by (auto simp: validate_transfer_def py_defs asked_columns_def asked_user_def fun_eq_iff
      split: if_splits option.splits list.splits)

text \<open>The room was saved in its new queue before the ticketer is looked at: the sector of the instance and the
  destination are the same, and the call ends at its first guard.\<close>

lemma sync_ticketer_noop: "sync_ticketer env old_sector r w = (Inr (), w)"
  by (auto simp: sync_ticketer_def change_ticketer_for_room_def py_defs split: option.split)

text \<open>An instance during a transfer: \<open>carries k p h ob\<close> is the loaded instance of the room \<open>k\<close>, placed at \<open>p\<close>.\<close>

definition carries :: "uuid \<Rightarrow> email option \<times> uuid option \<times> bool \<Rightarrow> room_obj \<Rightarrow> bool" where
  "carries k p ob \<longleftrightarrow> room_pk ob = k \<and> \<not> ob_adding ob \<and> placed (ob_row ob) = p"

lemma carriesD: "carries k p ob \<Longrightarrow> room_pk ob = k"
  by (simp add: carries_def)

lemma carries_without_user:
  "carries k (u, q, a) ob \<Longrightarrow> carries k (None, q, a) (set_row (\<lambda>r. r\<lparr>rm_user := None\<rparr>) ob)"
  by (simp add: carries_def placed_def) (simp add: set_row_def)

lemma returns_saved: "returns (\<lambda>ob'. ob' = saved_obj cols (stamped env ob) ob) (room_save env cols ob)"
  unfolding room_save_def by (intro returns_bnd returns_rules refl)

lemma returns_mono: "returns Q m \<Longrightarrow> (\<And>x. Q x \<Longrightarrow> P x) \<Longrightarrow> returns P m"
  by (auto simp: returns_def)

lemma saved_carries: "carries k p ob \<Longrightarrow> carries k p (saved_obj cols (stamped env ob) ob)"
  using room_pk_saved [of cols env ob] by (simp add: carries_def placed_def) (simp add: saved_obj_def)

lemma carries_add_transfer:
  assumes "carries k p ob"
  shows "returns (carries k p) (add_transfer_to_history env x ob)"
proof -
  let ?ob = "set_row (\<lambda>r. r\<lparr>rm_full_transfer_history :=
       Some ((case rm_full_transfer_history r of None \<Rightarrow> [] | Some h \<Rightarrow> h) @ [x]), rm_transfer_history := Some x\<rparr>) ob"
  have "carries k p ?ob" using assms by (simp add: carries_def placed_def) (simp add: set_row_def)
  then show ?thesis
    unfolding add_transfer_to_history_def
    by (intro returns_mono [OF returns_saved]) (simp add: saved_carries)
qed

lemma record_user:
  assumes "carries k p ob"
  shows "returns (carries k p) (record_user_transfer env u user old ob)"
    and "keeps (history_frame k) (record_user_transfer env u user old ob)"
  using assms unfolding record_user_transfer_def
  by (auto intro!: returns_bnd returns_andthen carries_add_transfer history.keeps_bnd history.keeps_andthen
      hframe_bulk history.keeps_gets hframe_add_transfer carriesD)

lemma record_queue:
  assumes "carries k (u, q, a) ob"
  shows "returns (carries k (if keep then u else None, q, a)) (record_queue_transfer env r keep old ob)"
    and "keeps (history_frame k) (record_queue_transfer env r keep old ob)"
  using assms carries_without_user [OF assms] unfolding record_queue_transfer_def Let_def
  by (auto intro!: returns_bnd returns_andthen carries_add_transfer history.keeps_bnd history.keeps_andthen
      hframe_bulk history.keeps_gets hframe_add_transfer carriesD)

lemma rframe_notify_transfer: "keeps routing_frame (notify_transfer env old a b r)"
  unfolding notify_transfer_def by (auto intro!: rframe_rules rframe_notify split: option.split)

text \<open>The history of the transfer, between the two saves.\<close>

definition record_transfers ::
  "env \<Rightarrow> email \<Rightarrow> transfer_request \<Rightarrow> email option \<Rightarrow> room_obj \<Rightarrow> (world, room_obj) py" where
  "record_transfers env requester rq old_user ob1 =
     bnd (if trq_user rq \<notin> {None, Some []} then record_user_transfer env requester (the (trq_user rq)) old_user ob1
          else ret ob1) (\<lambda>ob2.
       if trq_queue rq \<noteq> None then record_queue_transfer env requester (trq_user rq \<notin> {None, Some []}) old_user ob2
       else ret ob2)"

lemma record_transfers:
  assumes "carries k (u, q, a) ob"
  shows "returns (carries k (if trq_queue rq = None \<or> trq_user rq \<notin> {None, Some []} then u else None, q, a))
      (record_transfers env r rq old ob)"
    and "keeps (history_frame k) (record_transfers env r rq old ob)"
proof -
  let ?first = "if trq_user rq \<notin> {None, Some []} then record_user_transfer env r (the (trq_user rq)) old ob else ret ob"
  have first: "returns (carries k (u, q, a)) ?first" "keeps (history_frame k) ?first"
    using record_user [OF assms] assms by (auto intro: returns_ret history.keeps_ret)
  have "returns (carries k (if trq_queue rq = None \<or> trq_user rq \<notin> {None, Some []} then u else None, q, a))
      (if trq_queue rq \<noteq> None then record_queue_transfer env r (trq_user rq \<notin> {None, Some []}) old ob2 else ret ob2)"
    if "carries k (u, q, a) ob2" for ob2
    using record_queue(1) [OF that, of "trq_user rq \<notin> {None, Some []}"] that by (auto intro: returns_ret)
  from returns_bnd2 [OF first(1) this]
  show "returns (carries k (if trq_queue rq = None \<or> trq_user rq \<notin> {None, Some []} then u else None, q, a))
      (record_transfers env r rq old ob)" by (simp only: record_transfers_def)
  have "keeps (history_frame k)
      (if trq_queue rq \<noteq> None then record_queue_transfer env r (trq_user rq \<notin> {None, Some []}) old ob2 else ret ob2)"
    if "carries k (u, q, a) ob2" for ob2
    using record_queue(2) [OF that] by (auto intro: history.keeps_ret)
  from history.keeps_bnd_returns [OF first(2,1) this]
  show "keeps (history_frame k) (record_transfers env r rq old ob)" by (simp only: record_transfers_def)
qed

lemma bnd_gets_unused: "bnd (gets g) (\<lambda>_. m) = m"
  by (rule ext) (simp add: py_defs)

lemma atomic_InrD: "atomic m w = (Inr x, w') \<Longrightarrow> m w = (Inr x, w')"
  by (auto simp: atomic_def split: prod.splits sum.splits)

lemma perform_update_run:
  "perform_update env requester rq columns ob = atomic (bnd (room_save env None (set_row columns ob)) (\<lambda>ob1.
     if trq_user rq \<in> {None, Some []} \<and> trq_queue rq = None then ret ()
     else andthen (mark_notes_as_non_deletable (room_pk ob1))
       (bnd (record_transfers env requester rq (rm_user (ob_row ob)) ob1) (\<lambda>ob3.
        bnd (room_save env None ob3) (\<lambda>ob4.
          notify_transfer env (rm_user (ob_row ob)) (trq_user rq \<notin> {None, Some []}) (trq_queue rq \<noteq> None)
            (ob_row ob4))))))"
proof -
  have "sync_ticketer env old_sector r = ret ()" for old_sector r
    by (rule ext) (simp add: sync_ticketer_noop ret_def)
  then have "andthen (when_true b (sync_ticketer env old_sector r)) m = m" for b old_sector r and m :: "(world, unit) py"
    by (simp add: when_true_def)
  then show ?thesis
    by (simp only: perform_update_def Let_def record_transfers_def bnd_assoc bnd_gets_unused)
      (simp cong: if_cong)
qed

lemma asked_uuid: "rm_uuid (asked_columns rq r) = rm_uuid r"
  by (simp add: asked_columns_def)

lemma placed_asked: "placed (asked_columns rq r) = (case asked_user rq of None \<Rightarrow> rm_user r | u \<Rightarrow> u,
    case trq_queue rq of None \<Rightarrow> rm_queue r | q \<Rightarrow> q, rm_is_active r)"
  by (simp add: asked_columns_def placed_def)

text \<open>The first save of a transfer.\<close>

lemma first_save:
  assumes "find_room w k = Some row" and "room_save env None (set_row (asked_columns rq) (loaded row)) w = (Inr ob1, w1)"
  shows "rm_is_active row" and "carries k (placed (asked_columns rq row)) ob1" and "others_kept k w w1"
    and "\<exists>r'. find_room w1 k = Some r' \<and> placed r' = placed (asked_columns rq row)"
proof -
  let ?ob = "set_row (asked_columns rq) (loaded row)"
  have ob: "carries k (placed (asked_columns rq row)) ?ob"
    using find_room_uuid [OF assms(1)] by (simp add: carries_def asked_uuid) (simp add: set_row_def)
  have moved: "moved_to k row (asked_columns rq) True w w1"
    using save_placed [OF assms(1) asked_uuid assms(2)] by simp
  then show "others_kept k w w1" "\<exists>r'. find_room w1 k = Some r' \<and> placed r' = placed (asked_columns rq row)"
    by (auto simp: moved_to_def)
  show "carries k (placed (asked_columns rq row)) ob1"
    using returnsD [OF returns_saved assms(2)] saved_carries [OF ob] by simp
  show "rm_is_active row"
  proof (rule ccontr)
    assume "\<not> ?thesis"
    with closed_save_raises [of w ?ob row env None] assms ob show False by (simp add: carries_def)
  qed
qed

text \<open>The second save, of an instance that was carried through the recording.\<close>

lemma second_save:
  assumes "carries k (u, q, True) ob" and "find_room w k = Some row" and "rm_is_active row"
    and "room_save env None ob w = (Inr ob', w')"
  shows "others_kept k w w' \<and> (\<exists>r'. find_room w' k = Some r' \<and> placed r' = (u, q, True))"
  using assms(1) room_save_effect [of w ob row env ob' w'] assms(2-4)
  by (auto simp: carries_def placed_def others_kept_def)

lemma transfer_effect:
  assumes row: "find_room w k = Some row"
    and run: "perform_update env requester rq (asked_columns rq) (loaded row) w = (Inr (), w')"
    and user: "asked_user rq = None \<longleftrightarrow> trq_user rq \<in> {None, Some []}"
  shows "others_kept k w w' \<and> (\<exists>r'. find_room w' k = Some r' \<and> placed r' = transferred_to rq row)"
proof -
  let ?none = "trq_user rq \<in> {None, Some []} \<and> trq_queue rq = None"
  obtain ob1 w1 where save: "room_save env None (set_row (asked_columns rq) (loaded row)) w = (Inr ob1, w1)"
    and rest: "(if ?none then ret ()
      else andthen (mark_notes_as_non_deletable (room_pk ob1))
       (bnd (record_transfers env requester rq (rm_user row) ob1) (\<lambda>ob3.
        bnd (room_save env None ob3) (\<lambda>ob4.
          notify_transfer env (rm_user row) (trq_user rq \<notin> {None, Some []}) (trq_queue rq \<noteq> None)
            (ob_row ob4))))) w1 = (Inr (), w')"
    using atomic_InrD [OF run [unfolded perform_update_run loaded_simps]] by (rule bnd_InrE)
  note saved = first_save [OF row save]
  obtain u q where p: "placed (asked_columns rq row) = (u, q, True)"
    using saved(1) by (simp add: placed_asked)
  show ?thesis
  proof (cases ?none)
    case True
    with rest saved user show ?thesis by (auto simp: ret_def transferred_to_def placed_asked)
  next
    case False
    note rest [unfolded if_not_P [OF False]]
    then obtain x w2 where marked: "mark_notes_as_non_deletable (room_pk ob1) w1 = (Inr x, w2)"
      and "bnd (record_transfers env requester rq (rm_user row) ob1) (\<lambda>ob3. bnd (room_save env None ob3) (\<lambda>ob4.
          notify_transfer env (rm_user row) (trq_user rq \<notin> {None, Some []}) (trq_queue rq \<noteq> None)
            (ob_row ob4))) w2 = (Inr (), w')"
      by (rule andthen_InrE)
    then obtain ob3 w3 ob4 w4 where recorded: "record_transfers env requester rq (rm_user row) ob1 w2 = (Inr ob3, w3)"
      and save2: "room_save env None ob3 w3 = (Inr ob4, w4)"
      and notified: "notify_transfer env (rm_user row) (trq_user rq \<notin> {None, Some []}) (trq_queue rq \<noteq> None)
        (ob_row ob4) w4 = (Inr (), w')"
      by (elim bnd_InrE)
    let ?u = "if trq_queue rq = None \<or> trq_user rq \<notin> {None, Some []} then u else None"
    have "history_frame k w1 w2" by (rule keepsD [OF rframe_notes [THEN hframe_routing] marked])
    moreover have "history_frame k w2 w3"
      by (rule keepsD [OF record_transfers(2) [OF saved(2) [unfolded p]] recorded])
    ultimately have frame: "history_frame k w1 w3" by (rule history.R_trans)
    obtain row3 where row3: "find_room w3 k = Some row3" "rm_is_active row3"
      using frame saved(4) p by (auto simp: history_frame_def placed_def)
    have "carries k (?u, q, True) ob3"
      by (rule returnsD [OF record_transfers(1) [OF saved(2) [unfolded p]] recorded])
    from second_save [OF this row3 save2]
    have "others_kept k w3 w4 \<and> (\<exists>r'. find_room w4 k = Some r' \<and> placed r' = (?u, q, True))" .
    moreover have "rooms w' = rooms w4"
      by (rule routing_frame_rooms [OF keepsD [OF rframe_notify_transfer notified]])
    moreover have "others_kept k w w3" using saved(3) frame by (auto simp: others_kept_def history_frame_def)
    moreover have "(?u, q, True) = transferred_to rq row"
      using p user False saved(1) by (auto simp: placed_asked transferred_to_def split: option.splits)
    ultimately show ?thesis by (auto simp: others_kept_def find_room_def)
  qed
qed

text \<open>C22. A transfer request that succeeds puts the room where it was asked: the new agent and the new queue when
  given, the old queue without one, nobody when only a queue is given. A request that fails leaves every table as it
  was. No other room changes.\<close>

theorem transfer_request_moves_room:
  assumes "distinct (map rm_uuid (rooms w))" and "find_room w k = Some row"
    and "update_action cx u k rq w = (out, w')"
  shows "(case out of Inl e \<Rightarrow> w' = rollback w w'
     | Inr _ \<Rightarrow> others_kept k w w' \<and> (\<exists>r'. find_room w' k = Some r' \<and> placed r' = transferred_to rq row))"
proof -
  have same: "w = rollback w w" by (simp add: rollback_def)
  from get_object_then [OF assms(3) [unfolded update_action_def] assms(1,2)]
  consider "\<exists>e. out = Inl e" "w' = w"
    | (body) "bnd (validate_transfer cx rq) (\<lambda>columns. perform_update (api_env cx) u rq columns (loaded row)) w = (out, w')"
    by blast
  then show ?thesis
  proof cases
    case 1
    then show ?thesis using same by auto
  next
    case body
    obtain v t where valid: "validate_transfer cx rq w = (v, t)" by fastforce
    show ?thesis
    proof (cases v)
      case (Inl e)
      then have "t = w" using valid
        by (auto simp: validate_transfer_def py_defs split: if_splits option.splits list.splits)
      with valid body Inl same show ?thesis by (auto simp: bnd_def)
    next
      case (Inr columns)
      note cols = validate_transfer_columns [OF valid [unfolded Inr]]
      have run: "perform_update (api_env cx) u rq (asked_columns rq) (loaded row) w = (out, w')"
        using body valid Inr cols by (simp add: bnd_def)
      show ?thesis
      proof (cases out)
        case (Inl e)
        with run show ?thesis by (auto simp: perform_update_def Let_def dest: atomic_error)
      next
        case (Inr x)
        have "perform_update (api_env cx) u rq (asked_columns rq) (loaded row) w = (Inr (), w')"
          using run Inr by simp
        from transfer_effect [OF assms(2) this] cols Inr show ?thesis by simp
      qed
    qed
  qed
qed

definition calm_api :: api_context where
  "calm_api = \<lparr>api_env = calm_env, api_user_exists = (\<lambda>_. True)\<rparr>"

theorem transfer_request_moves_room_witness:
  "\<exists>r'. find_room (snd (update_action calm_api ''a@x'' ''r1'' \<lparr>trq_user = Some ''B@x'', trq_queue = None\<rparr>
       foreign_manager_world)) ''r1'' = Some r' \<and> placed r' = (Some ''b@x'', Some ''q'', True)"
proof -
  let ?w = "foreign_manager_world" and ?row = "hd (rooms foreign_manager_world)"
  let ?rq = "\<lparr>trq_user = Some ''B@x'', trq_queue = None\<rparr>"
  let ?run = "update_action calm_api ''a@x'' ''r1'' ?rq ?w"
  have start: "distinct (map rm_uuid (rooms ?w))" "find_room ?w ''r1'' = Some ?row"
    by (simp_all add: foreign_manager_world_def sample_defs find_room_def)
  have "fst ?run = Inr ()" by code_simp
  then obtain w' where run: "?run = (Inr (), w')" by (cases ?run) simp
  have "transferred_to ?rq ?row = (Some ''b@x'', Some ''q'', True)" by code_simp
  with transfer_request_moves_room [OF start run] show ?thesis by (simp add: run)
qed

text \<open>C25. A single transfer to a queue of another sector never moves the ticket of the room to the ticketer of that
  sector, although the call for it is made and the same call, made before the save as the bulk service does, moves it.\<close>

theorem queue_transfer_keeps_ticketer:
  assumes "set_use_weni_flows env" and "rm_ticket_uuid row = Some ticket"
    and "sector_of w row = Some s" and "sec_uuid s \<noteq> destination" and "project_of w row = Some prj"
    and "flag_user env ''change_ticketer_on_transfer'' (prj_uuid prj) = Some True"
    and "ticketer_of env (prj_uuid prj) destination = Some t" and "flows_ok env ''change_ticketer'' [ticket, t]"
  shows "change_ticketer_for_room env row destination w =
      (Inr (), w\<lparr>effects := effects w @ [Flows_Call ''change_ticketer'' [ticket, t]]\<rparr>) \<and>
    (\<forall>old_sector r v. sync_ticketer env old_sector r v = (Inr (), v))"
  using assms
  by (simp add: sync_ticketer_noop change_ticketer_for_room_def flag_user_or_raise_def emit_def py_defs need_def
      split: option.split)

definition ticket_env :: env where
  "ticket_env = calm_env\<lparr>flag_user := (\<lambda>_ _. Some True)\<rparr>"

theorem queue_transfer_keeps_ticketer_witness:
  "change_ticketer_for_room ticket_env (blank_room\<lparr>rm_queue := Some ''q'', rm_ticket_uuid := Some ''k''\<rparr>) ''s2'' small_world =
      (Inr (), small_world\<lparr>effects := effects small_world @ [Flows_Call ''change_ticketer'' [''k'', ''t'']]\<rparr>) \<and>
    (\<forall>old_sector r v. sync_ticketer ticket_env old_sector r v = (Inr (), v))"
  by (rule queue_transfer_keeps_ticketer [where s = blank_sector and prj = blank_project])
    (simp_all add: ticket_env_def sample_defs queue_of_def find_queue_def project_of_def sector_of_def
        sector_of_queue_def find_sector_def project_of_sector_def find_project_def)

section \<open>Notes of a transferred room\<close>

definition notes_kept :: "world \<Rightarrow> world \<Rightarrow> bool" where
  "notes_kept s t \<longleftrightarrow> room_notes t = room_notes s"

interpretation note_table: world_order notes_kept
  by unfold_locales (auto simp: notes_kept_def)

lemma notes_modify:
  "keeps notes_kept (modify (\<lambda>w. w\<lparr>messages := f1 w\<rparr>))" "keeps notes_kept (modify (\<lambda>w. w\<lparr>metrics := f2 w\<rparr>))"
  "keeps notes_kept (update_room k f)" "keeps notes_kept (write_room cols b r)" "keeps notes_kept (clear_pins k)"
  "keeps notes_kept (update_metrics k g)"
  by (auto simp: keeps_def modify_def notes_kept_def update_room_def write_room_def clear_pins_def update_metrics_def
      split: option.split)

lemma notes_status: "keeps status_frame m \<Longrightarrow> keeps notes_kept m"
  by (erule keeps_mono) (simp add: notes_kept_def status_frame_tables)

lemma notes_save: "keeps notes_kept (room_save env cols ob)"
  unfolding room_save_def tags_on_queue_change_def clear_tags_def
  by (intro note_table.keeps_world notes_modify frame_update_agent_service_status [THEN notes_status])
    (auto intro!: note_table.keeps_world notes_modify split: option.split)

lemma notes_callback: "keeps notes_kept (request_callback_from env url n m)"
  by (induction env url n m rule: request_callback_from.induct)
    (auto intro!: note_table.keeps_world split: option.split)

lemma notes_notify:
  "keeps notes_kept (base_notification env r a)" "keeps notes_kept (notify_user env r a u)"
  "keeps notes_kept (notify_queue env r a b)" "keeps notes_kept (notify_transfer env old x y r)"
  unfolding base_notification_def notify_user_def notify_queue_def notify_transfer_def room_get_permission_def
    request_callback_def send_group_def
  by (auto intro!: note_table.keeps_world notes_callback split: option.split)

lemma notes_feedback: "keeps notes_kept (create_room_feedback_message env r x m)"
  unfolding create_room_feedback_message_def message_create_def message_notify_room_def Let_def
  by (auto intro!: note_table.keeps_world notes_modify notes_notify notes_status [OF frame_new_id] split: option.split list.split)

lemma notes_record: "keeps notes_kept (record_transfers env requester rq old ob)"
  unfolding record_transfers_def record_user_transfer_def record_queue_transfer_def add_transfer_to_history_def Let_def
  by (auto intro!: note_table.keeps_world notes_modify notes_feedback notes_save)

lemma transfer_marks_notes:
  assumes "perform_update env requester rq columns ob w = (Inr (), w')" and "rm_uuid (columns (ob_row ob)) = k"
    and "\<not> (trq_user rq \<in> {None, Some []} \<and> trq_queue rq = None)"
    and "n \<in> set (room_notes w')" and "note_room n = k"
  shows "\<not> note_is_deletable n"
proof -
  let ?rest = "\<lambda>ob1. bnd (record_transfers env requester rq (rm_user (ob_row ob)) ob1) (\<lambda>ob3. bnd (room_save env None ob3)
          (\<lambda>ob4. notify_transfer env (rm_user (ob_row ob)) (trq_user rq \<notin> {None, Some []}) (trq_queue rq \<noteq> None)
            (ob_row ob4)))"
  note run = atomic_InrD [OF assms(1) [unfolded perform_update_run if_not_P [OF assms(3)]]]
  then obtain ob1 w1 where save: "room_save env None (set_row columns ob) w = (Inr ob1, w1)"
    and "andthen (mark_notes_as_non_deletable (room_pk ob1)) (?rest ob1) w1 = (Inr (), w')"
    by (rule bnd_InrE)
  then obtain x w2 where marked: "mark_notes_as_non_deletable (room_pk ob1) w1 = (Inr x, w2)"
    and rest: "?rest ob1 w2 = (Inr (), w')"
    by (elim andthen_InrE)
  have "room_pk ob1 = k"
    using returnsD [OF returns_room_save save] assms(2) by (simp add: room_pk_def set_row_def)
  then have "\<forall>n \<in> set (room_notes w2). note_room n = k \<longrightarrow> \<not> note_is_deletable n"
    using marked by (auto simp: mark_notes_as_non_deletable_def modify_def set_update_where)
  moreover have "keeps notes_kept (?rest ob1)"
    by (intro note_table.keeps_bnd notes_record notes_save notes_notify)
  from keepsD [OF this rest] have "room_notes w' = room_notes w2" by (simp add: notes_kept_def)
  ultimately show ?thesis using assms(4,5) by simp
qed

text \<open>Once a room was transferred to a user or a queue, none of the notes it had can be deleted any more,
  whoever asks for it.\<close>

theorem transfer_freezes_notes:
  assumes "distinct (map rm_uuid (rooms w))" and "find_room w k = Some row"
    and "update_action cx u k rq w = (Inr (), w')" and "asked_user rq \<noteq> None \<or> trq_queue rq \<noteq> None"
    and "n \<in> set (room_notes w')" and "note_room n = k"
  shows "\<exists>e. destroy_note env v n w' = (Inl e, w')"
proof -
  have run: "bnd (validate_transfer cx rq) (\<lambda>columns. perform_update (api_env cx) u rq columns (loaded row)) w = (Inr (), w')"
    using get_object_then [OF assms(3) [unfolded update_action_def] assms(1,2)] by auto
  then obtain columns t where valid: "validate_transfer cx rq w = (Inr columns, t)"
    and "perform_update (api_env cx) u rq columns (loaded row) t = (Inr (), w')"
    by (rule bnd_InrE)
  with validate_transfer_columns [OF valid]
  have "perform_update (api_env cx) u rq (asked_columns rq) (loaded row) w = (Inr (), w')"
    and user: "asked_user rq = None \<longleftrightarrow> trq_user rq \<in> {None, Some []}" by simp_all
  from transfer_marks_notes [OF this(1), of k n] have "\<not> note_is_deletable n"
    using assms(2,4-6) user find_room_uuid [OF assms(2)] by (simp add: asked_uuid)
  then show ?thesis by (auto simp: destroy_note_def py_defs need_def split: option.split)
qed

definition noted_world :: world where
  "noted_world = foreign_manager_world\<lparr>room_notes := [\<lparr>note_room = ''r1'', note_user = ''a@x'', note_text = [],
     note_is_deletable = True, note_message = None\<rparr>]\<rparr>"

theorem transfer_freezes_notes_witness:
  "\<exists>e. destroy_note calm_env ''a@x'' (hd (room_notes (snd (update_action calm_api ''a@x'' ''r1''
        \<lparr>trq_user = Some ''b@x'', trq_queue = None\<rparr> noted_world))))
      (snd (update_action calm_api ''a@x'' ''r1'' \<lparr>trq_user = Some ''b@x'', trq_queue = None\<rparr> noted_world)) =
    (Inl e, snd (update_action calm_api ''a@x'' ''r1'' \<lparr>trq_user = Some ''b@x'', trq_queue = None\<rparr> noted_world))"
proof -
  let ?rq = "\<lparr>trq_user = Some ''b@x'', trq_queue = None\<rparr>"
  let ?run = "update_action calm_api ''a@x'' ''r1'' ?rq noted_world"
  have start: "distinct (map rm_uuid (rooms noted_world))"
    "find_room noted_world ''r1'' = Some (hd (rooms noted_world))"
    by (simp_all add: noted_world_def foreign_manager_world_def sample_defs find_room_def)
  have "fst ?run = Inr ()" by code_simp
  then have run: "?run = (Inr (), snd ?run)" by (cases ?run) simp
  have left: "map note_room (room_notes (snd ?run)) = [''r1'']" by code_simp
  have n: "hd (room_notes (snd ?run)) \<in> set (room_notes (snd ?run))" "note_room (hd (room_notes (snd ?run))) = ''r1''"
    using left by auto
  have asked: "asked_user ?rq \<noteq> None \<or> trq_queue ?rq \<noteq> None" by (simp add: asked_user_def)
  show ?thesis by (rule transfer_freezes_notes [OF start run asked n])
qed

section \<open>Closing and tagging\<close>

lemma frozen_routing: "keeps routing_frame m \<Longrightarrow> keeps frozen m"
  by (erule keeps_mono) (rule frozen_same_rooms, simp add: routing_frame_def)

lemma readonly_check_queued: "keeps (=) (check_close_queued u s r)"
  unfolding check_close_queued_def by (intro readonly.keeps_structure readonly_permission)

lemma frozen_after_close:
  assumes "set_use_celery env"
  shows "keeps frozen (start_queue_priority_routing env route_now q)"
  using assms unfolding start_queue_priority_routing_def
  by (intro frozen.keeps_world) auto

lemma frozen_finish: "set_use_celery env \<Longrightarrow> keeps frozen (finish_close env route_now ob)"
  unfolding finish_close_def close_room_def
  by (auto intro!: frozen.keeps_world frozen_notify frozen_notify_billing frozen_after_close
      frozen_routing [OF rframe_generate_metrics] split: option.split)

lemma close_tags_nonempty: "no_tags_after_close table w tags r = False \<Longrightarrow> close_tags tags (rm_tags r) \<noteq> []"
proof (cases tags)
  case (Some ts)
  assume "no_tags_after_close table w tags r = False"
  with Some show ?thesis
    using set_close_tags [OF Some, of "rm_tags r"] by (auto simp: no_tags_after_close_def)
qed (auto simp: no_tags_after_close_def close_tags_def)

text \<open>A request to close a room either fails and leaves all rooms as they were, or the room is closed by the agent
  of the request with exactly the tags of the request (those it had, without any): all of them tags of its sector, and
  at least one when the sector requires tags. Nothing later in the request undoes this.\<close>

theorem close_request_outcome:
  assumes "distinct (map rm_uuid (rooms w))" and "find_room w k = Some row" and "set_use_celery env"
    and "close_action env route_now table u k tags w = (out, w')"
  shows "(rooms w' = rooms w \<and> (\<exists>e. out = Inl e)) \<or>
    (\<exists>r' s. find_room w' k = Some r' \<and> sector_of w row = Some s \<and> rm_is_active row \<and> \<not> rm_is_active r' \<and>
       rm_ended_by r' = Some ''agent'' \<and> rm_closed_by r' = Some u \<and> rm_tags r' = close_tags tags (rm_tags row) \<and>
       (tags \<noteq> None \<longrightarrow> set (rm_tags r') \<subseteq> set (sector_tag_uuids table s)) \<and>
       (sec_required_tags s \<longrightarrow> rm_tags r' \<noteq> []))"
proof -
  let ?after = "\<lambda>j. bnd (load_room j) (finish_close env route_now)"
  have after: "keeps frozen (?after j)" for j
    unfolding load_room_def by (intro frozen.keeps_world frozen_finish assms(3))
  from get_object_then [OF assms(4) [unfolded close_action_def] assms(1,2)]
  consider "\<exists>e. out = Inl e" "w' = w"
    | (body) "bnd (need AttributeError (\<lambda>w. sector_of w row)) (\<lambda>s.
       andthen (\<lambda>w. (check_close_tags table w tags s row, w))
       (andthen (check_close_queued u s row)
       (andthen (atomic (room_close env tags ''agent'' (Some u) (loaded row))) (?after (rm_uuid row))))) w = (out, w')"
    by (auto simp del: split_paired_Ex)
  then show ?thesis
  proof cases
    case body
    show ?thesis
    proof (cases "sector_of w row")
      case None
      with body show ?thesis by (auto simp: need_def bnd_def)
    next
      case (Some s)
      show ?thesis
      proof (cases "check_close_tags table w tags s row")
        case (Inl e)
        with body Some have "out = Inl e" "w' = w" by (simp_all add: need_def py_defs)
        then show ?thesis by simp
      next
        case (Inr x)
        obtain c v where check: "check_close_queued u s row w = (c, v)" by fastforce
        have v: "v = w" using keepsD [OF readonly_check_queued check] by simp
        obtain res t where close: "room_close env tags ''agent'' (Some u) (loaded row) w = (res, t)" by fastforce
        show ?thesis
        proof (cases "\<exists>e e'. c = Inl e \<or> res = Inl e'")
          case True
          with body Some Inr check v close show ?thesis
            by (auto simp: need_def py_defs atomic_def rollback_def split: sum.splits)
        next
          case False
          then obtain ob' where res: "res = Inr ob'" and c: "c = Inr ()" by (cases res; cases c) auto
          then have rest: "?after (rm_uuid row) t = (out, w')"
            using body Some Inr check v close by (simp add: need_def py_defs atomic_def)
          obtain r' where r': "find_room t k = Some r'" "\<not> rm_is_active r'" "rm_ended_by r' = Some ''agent''"
            "rm_closed_by r' = Some u" "rm_tags r' = close_tags tags (rm_tags row)" "rm_is_active row"
            using room_close_effect [OF assms(2) close] res by auto
          have "frozen t w'" by (rule keepsD [OF after rest])
          then obtain r'' where r'': "find_room w' k = Some r''" "closed_core r'' = closed_core r'"
            using r'(1,2) unfolding frozen_def by blast
          have "rm_is_active r'' = rm_is_active r' \<and> rm_ended_by r'' = rm_ended_by r' \<and>
              rm_closed_by r'' = rm_closed_by r' \<and> rm_tags r'' = rm_tags r'"
            using r''(2) by (cases r'; cases r'') (simp add: closed_core_def)
          moreover have "tags \<noteq> None \<longrightarrow> set (close_tags tags (rm_tags row)) \<subseteq> set (sector_tag_uuids table s)"
            using Inr set_close_tags by (auto simp: check_close_tags_def split: if_splits)
          moreover have "sec_required_tags s \<longrightarrow> close_tags tags (rm_tags row) \<noteq> []"
            using Inr close_tags_nonempty by (auto simp: check_close_tags_def split: if_splits)
          ultimately show ?thesis using r' r''(1) Some by auto
        qed
      qed
    qed
  qed auto
qed

definition tagged_world :: world where
  "tagged_world = small_world\<lparr>rooms := [blank_room\<lparr>rm_queue := Some ''q'', rm_user := Some ''a@x'', rm_contact := Some ''c''\<rparr>],
     sectors := [blank_sector\<lparr>sec_required_tags := True\<rparr>]\<rparr>"

definition tag_table :: "sector_tag list" where
  "tag_table = [\<lparr>tag_uuid = ''t1'', tag_sector = ''s'', tag_is_deleted = False\<rparr>]"

theorem close_request_outcome_witness:
  "\<exists>r'. find_room (snd (close_action calm_env (\<lambda>_. ret ()) tag_table ''a@x'' ''r1'' (Some [''t1'']) tagged_world)) ''r1'' =
     Some r' \<and> \<not> rm_is_active r' \<and> rm_tags r' = [''t1'']"
proof -
  let ?run = "close_action calm_env (\<lambda>_. ret ()) tag_table ''a@x'' ''r1'' (Some [''t1'']) tagged_world"
  let ?row = "hd (rooms tagged_world)"
  have start: "distinct (map rm_uuid (rooms tagged_world))" "find_room tagged_world ''r1'' = Some ?row"
    "set_use_celery calm_env" "rm_tags ?row = []"
    by (simp_all add: tagged_world_def sample_defs find_room_def)
  have "fst ?run = Inr ()" by code_simp
  then obtain w' where run: "?run = (Inr (), w')" by (cases ?run) simp
  show ?thesis
    using close_request_outcome [OF start(1-3) run] start(4) by (auto simp: run close_tags_def)
qed

lemma tag_room_InrD:
  assumes "tag_room table u k tag w = (Inr r, w')"
  shows "w' = w \<and> find (\<lambda>r. rm_uuid r = k \<and> visible_to w u r) (rooms w) = Some r \<and> rm_user r = Some u \<and>
    rm_is_active r \<and> (\<exists>s. sector_of w r = Some s \<and> tag \<in> set (sector_tag_uuids table s))"
proof -
  obtain ob s where found: "get_object u k w = (Inr ob, s)"
    and rest: "(let r = ob_row ob in
       if \<not> rm_is_active r then raise (ValidationError ''room_is_not_active'')
       else if rm_user r \<noteq> Some u then raise (PermissionDenied ''user_is_not_the_room_user'')
       else bnd (need AttributeError (\<lambda>w. sector_of w r)) (\<lambda>s.
         if tag \<notin> set (sector_tag_uuids table s) then raise (ValidationError ''tag_not_found'') else ret r)) s = (Inr r, w')"
    using assms unfolding tag_room_def by (rule bnd_InrE)
  have "s = w" using keepsD [OF readonly_get_object found] by simp
  moreover obtain x where "find (\<lambda>r. rm_uuid r = k \<and> visible_to w u r) (rooms w) = Some x" and "ob = loaded x"
    using get_object_row [OF found] .
  ultimately show ?thesis
    using rest by (auto simp: Let_def run_need ret_def raise_def split: if_splits option.splits)
qed

lemma tag_room_run:
  "find (\<lambda>r. rm_uuid r = k \<and> visible_to w u r) (rooms w) = Some r \<Longrightarrow> rm_user r = Some u \<Longrightarrow> rm_is_active r \<Longrightarrow>
   sector_of w r = Some s \<Longrightarrow> tag \<in> set (sector_tag_uuids table s) \<Longrightarrow>
   tag_room table u k tag w = (Inr r, w)"
  by (simp add: tag_room_def get_object_def queue_agent_may_def py_defs need_def Let_def)

lemma sector_of_queue_rooms: "sector_of_queue (w\<lparr>rooms := rs\<rparr>) = sector_of_queue w"
  by (rule ext) (simp add: sector_of_queue_def find_sector_def)

lemma retagged:
  "sector_of (w\<lparr>rooms := rs\<rparr>) r = sector_of w r" "visible_to (w\<lparr>rooms := rs\<rparr>) u r = visible_to w u r"
  "sector_of w (r\<lparr>rm_tags := ts\<rparr>) = sector_of w r" "visible_to w u (r\<lparr>rm_tags := ts\<rparr>) = visible_to w u r"
  by (simp_all add: sector_of_def queue_of_def sector_of_queue_rooms find_queue_def visible_to_def room_in_project_def)

lemma filter_other: "tag \<notin> set ts \<Longrightarrow> filter (\<lambda>t. t \<noteq> tag) (ts @ [tag]) = ts"
  by (induction ts) auto

text \<open>C0. A tag that was added to a room can be removed again by the same agent, and that restores everything; it
  was not among the tags before.\<close>

theorem tag_roundtrip:
  assumes "distinct (map rm_uuid (rooms w))" and "add_tag table u k tag w = (Inr (), w')"
  shows "remove_tag table u k tag w' = (Inr (), w)"
proof -
  obtain r t where tagging: "tag_room table u k tag w = (Inr r, t)"
    and rest: "(if tag \<in> set (rm_tags r) then raise (ValidationError ''tag_already_exists'')
       else update_room k (\<lambda>x. x\<lparr>rm_tags := rm_tags x @ [tag]\<rparr>)) t = (Inr (), w')"
    using assms(2) unfolding add_tag_def by (rule bnd_InrE)
  note D = tag_room_InrD [OF tagging]
  let ?f = "\<lambda>x. x\<lparr>rm_tags := rm_tags x @ [tag]\<rparr>" and ?q = "\<lambda>r. rm_uuid r = k \<and> visible_to w u r"
  have fresh: "tag \<notin> set (rm_tags r)" and w': "w' = w\<lparr>rooms := update_where (\<lambda>x. rm_uuid x = k) ?f (rooms w)\<rparr>"
    using rest D by (auto simp: raise_def update_room_def modify_def split: if_splits)
  have r: "r \<in> set (rooms w)" "rm_uuid r = k" using D find_in_set by fastforce+
  have "find ?q (rooms w') = map_option (\<lambda>x. if rm_uuid x = k then ?f x else x) (find ?q (rooms w))"
    unfolding w' by (simp add: find_update_where retagged)
  then have found: "find (\<lambda>r. rm_uuid r = k \<and> visible_to w' u r) (rooms w') = Some (?f r)"
    using D r(2) by (simp add: w' retagged)
  have "tag_room table u k tag w' = (Inr (?f r), w')"
    using D by (elim conjE exE, intro tag_room_run [OF found]) (auto simp: w' retagged)
  moreover have "update_where (\<lambda>x. rm_uuid x = k) (\<lambda>x. x\<lparr>rm_tags := filter (\<lambda>t. t \<noteq> tag) (rm_tags x)\<rparr>)
      (update_where (\<lambda>x. rm_uuid x = k) ?f (rooms w)) = rooms w"
  proof -
    have "tag \<notin> set (rm_tags x)" if "x \<in> set (rooms w)" "rm_uuid x = k" for x
      using that r fresh inj_onD [of rm_uuid "set (rooms w)" x r] assms(1) by (simp add: distinct_map)
    then have "x\<lparr>rm_tags := filter (\<lambda>t. t \<noteq> tag) (rm_tags x @ [tag])\<rparr> = x" if "x \<in> set (rooms w)" "rm_uuid x = k" for x
      unfolding filter_other [OF \<open>\<And>x. \<lbrakk>x \<in> set (rooms w); rm_uuid x = k\<rbrakk> \<Longrightarrow> tag \<notin> set (rm_tags x)\<close> [OF that]] by simp
    then show ?thesis unfolding update_where_def by (simp add: map_idI)
  qed
  ultimately show ?thesis
    by (simp add: remove_tag_def bnd_def update_room_def modify_def) (simp add: w')
qed

theorem tag_roundtrip_witness:
  "remove_tag tag_table ''a@x'' ''r1'' ''t1'' (snd (add_tag tag_table ''a@x'' ''r1'' ''t1'' tagged_world)) =
     (Inr (), tagged_world)"
proof -
  have start: "distinct (map rm_uuid (rooms tagged_world))"
    by (simp add: tagged_world_def sample_defs)
  have "fst (add_tag tag_table ''a@x'' ''r1'' ''t1'' tagged_world) = Inr ()" by code_simp
  then have "add_tag tag_table ''a@x'' ''r1'' ''t1'' tagged_world =
      (Inr (), snd (add_tag tag_table ''a@x'' ''r1'' ''t1'' tagged_world))"
    by (cases "add_tag tag_table ''a@x'' ''r1'' ''t1'' tagged_world") simp
  from tag_roundtrip [OF start this] show ?thesis .
qed

section \<open>What the bulk views answer\<close>

lemma active_keys_query: "distinct (map rm_uuid (rooms w)) \<Longrightarrow> query_keys w (active_keys w ks)"
  by (auto simp: query_keys_def active_keys_def distinct_map_filter)

lemma bulk_transfer_outcomes:
  assumes "set_use_celery env" and "0 < set_batch_size env" and "query_keys w ks"
  shows "(\<exists>e. bulk_transfer env route_now ks u user q w = (Inl e, w)) \<or>
    (\<exists>res. bulk_transfer env route_now ks u user q w = (Inr res, w) \<and> res_success res = 0 \<and> res_failed res = length ks) \<or>
    (\<exists>res w'. bulk_transfer env route_now ks u user q w = (Inr res, w') \<and>
       bulk_report (transferred user q) unchanged ks w res w')"
proof (cases "check_validations w ks user q")
  case (Inl e)
  then show ?thesis by (simp add: bulk_transfer_def bnd_def)
next
  case (Inr m)
  then show ?thesis
    using transfer.report_reloaded [OF assms, of route_now env user q u]
    by (cases m) (simp_all add: bulk_transfer_run, simp add: bulk_transfer_def bnd_def ret_def fold_failures empty_result_def)
qed

lemma all_failed_unchanged:
  assumes report: "bulk_report good unchanged ks w res w'" and none: "res_success res = 0" and "distinct ks"
  shows "find_room w' k = find_room w k"
proof (cases "k \<in> set ks")
  case True
  have "card (set (res_failed_rooms res)) = card (set ks)"
    using report none assms(3) by (simp add: bulk_report_def distinct_card)
  then have "set (res_failed_rooms res) = set ks"
    using report by (intro card_subset_eq) (auto simp: bulk_report_def)
  with report True show ?thesis by (auto simp: bulk_report_def unchanged_def)
qed (use report in \<open>simp add: bulk_report_def\<close>)

definition asked_queue :: "world \<Rightarrow> uuid option \<Rightarrow> queue option" where
  "asked_queue w q = Option.bind q (\<lambda>k. find (\<lambda>x. que_uuid x = k) (live_queues w))"


lemma bulk_view_run:
  assumes "bulk_transfer_view cx route_now n u ks user queue w = (Inr st, w')"
  shows "try_except (bnd (bulk_transfer (api_env cx) route_now (active_keys w ks) u
      (if user = Some [] then None else user) (asked_queue w queue)) (\<lambda>res. ret (bulk_status_of res)))
      (\<lambda>_. ret Bulk_Error) w = (Inr st, w') \<and> active_keys w ks \<noteq> []"
  using assms
  by (auto simp: bulk_transfer_view_def asked_queue_def run_gets run_need raise_def bnd_assoc
      split: if_splits option.splits)

text \<open>The answer to a bulk transfer tells the truth, whoever asks for it: a full success means that every active
  room of the list was moved, a failure that no room changed at all, an error that nothing was written, and a partial
  success lists exactly the rooms that stayed. The user of the request needs no permission on any of the rooms.\<close>

theorem bulk_transfer_status_tells_truth:
  assumes "set_use_celery (api_env cx)" and "0 < set_batch_size (api_env cx)" and "distinct (map rm_uuid (rooms w))"
    and "bulk_transfer_view cx route_now n u ks user queue w = (Inr st, w')"
  shows "case st of
      Bulk_OK res \<Rightarrow> res_success res = length (active_keys w ks) \<and>
        (\<forall>k \<in> set (active_keys w ks). \<exists>r r'. find_room w k = Some r \<and> find_room w' k = Some r' \<and>
           transferred (if user = Some [] then None else user) (asked_queue w queue) r r')
    | Bulk_Failed res \<Rightarrow> \<forall>k. find_room w' k = find_room w k
    | Bulk_Multi res \<Rightarrow> bulk_report (transferred (if user = Some [] then None else user) (asked_queue w queue)) unchanged
        (active_keys w ks) w res w'
    | Bulk_Error \<Rightarrow> w' = w"
proof -
  let ?ks = "active_keys w ks" and ?user = "if user = Some [] then None else user" and ?q = "asked_queue w queue"
  let ?run = "bulk_transfer (api_env cx) route_now ?ks u ?user ?q w"
  note run = bulk_view_run [OF assms(4)] and keys = active_keys_query [OF assms(3), of ks]
  from bulk_transfer_outcomes [OF assms(1,2) keys, of route_now u ?user ?q]
  consider e where "?run = (Inl e, w)"
    | res where "?run = (Inr res, w)" "res_success res = 0" "res_failed res = length ?ks"
    | res t where "?run = (Inr res, t)" "bulk_report (transferred ?user ?q) unchanged ?ks w res t"
    by blast
  then show ?thesis
  proof cases
    case 1
    with run show ?thesis by (auto simp: try_except_def bnd_def ret_def)
  next
    case 2
    with run have "st = Bulk_Failed res" "w' = w"
      by (auto simp: try_except_def bnd_def ret_def bulk_status_of_def)
    then show ?thesis by simp
  next
    case (3 res t)
    with run have st: "st = bulk_status_of res" and w': "w' = t"
      by (auto simp: try_except_def bnd_def ret_def)
    have "find_room t k = find_room w k" if "res_success res = 0" for k
      using all_failed_unchanged [OF 3(2) that] keys by (simp add: query_keys_def)
    then show ?thesis using 3(2) by (auto simp: st w' bulk_status_of_def bulk_report_def)
  qed
qed

theorem bulk_transfer_status_tells_truth_witness:
  "\<exists>r'. find_room (snd (bulk_transfer_view calm_api (\<lambda>_. ret ()) 200 ''outsider@x'' [''r1''] (Some ''a@x'') None
       two_rooms)) ''r1'' = Some r' \<and> rm_user r' = Some ''a@x''"
proof -
  let ?run = "bulk_transfer_view calm_api (\<lambda>_. ret ()) 200 ''outsider@x'' [''r1''] (Some ''a@x'') None two_rooms"
  have env: "set_use_celery (api_env calm_api)" "0 < set_batch_size (api_env calm_api)"
    by (simp_all add: calm_api_def calm_env_def)
  have keys: "distinct (map rm_uuid (rooms two_rooms))"
    using two_rooms_keys by (simp add: query_keys_def)
  have "fst ?run = Inr (Bulk_OK (add_success empty_result))" by code_simp
  then obtain w' where run: "?run = (Inr (Bulk_OK (add_success empty_result)), w')" by (cases ?run) simp
  have active: "''r1'' \<in> set (active_keys two_rooms [''r1''])"
    by (simp add: active_keys_def two_rooms_def sample_defs)
  show ?thesis
    using bulk_transfer_status_tells_truth [OF env keys run] active
    by (auto simp: run transferred_def moved_def placed_def asked_queue_def)
qed

end
