(* ===== verification/Discussions.thy ===== *)
theory Discussions
  imports Room_API
begin

text \<open>
  Discussions: \<open>chats/apps/discussions\<close>, its models, use cases, permission class and view set.

  \<^item> The three tables stand beside the world in the record \<open>ddb\<close>; \<open>den\<close> is what an operation finds around it: the
    environment, the setting \<open>DISCUSSION_AGENTS_LIMIT\<close>, and whether a user with an email exists.
  \<^item> A method that saves gives back the instance it has changed, since later statements go on with it.
  \<^item> The key of a new row is an argument. The exception \<open>UserProjectPermissionNotFound\<close> is a \<open>RuntimeError\<close> with
    that text, \<open>DiscussionValidationException\<close> a \<open>ValueError\<close>.
  \<^item> An update of a discussion may name a room and a key, the two writable fields of its serializer; with another key
    Django saves a copy beside the row. The listings and their filters are not modelled.
\<close>

section \<open>Rows\<close>

record discussion =
  dis_uuid :: uuid
  dis_subject :: string
  dis_created_by :: email
  dis_room :: uuid
  dis_queue :: uuid
  dis_is_queued :: bool
  dis_is_active :: bool
  dis_is_deleted :: bool

record discussion_user =
  dus_discussion :: uuid
  dus_permission :: uuid
  dus_role :: nat

record discussion_message =
  dms_discussion :: uuid
  dms_user :: "email option"
  dms_text :: "string option"
  dms_medias :: "(string \<times> string) list"

record ddb =
  d_world :: world
  discussions :: "discussion list"
  d_users :: "discussion_user list"
  d_messages :: "discussion_message list"

record discussion_env =
  den_env :: env
  den_limit :: nat
  den_user_exists :: "email \<Rightarrow> bool"

definition in_world :: "(world, 'a) py \<Rightarrow> (ddb, 'a) py" where
  "in_world m d = (case m (d_world d) of (r, w) \<Rightarrow> (r, d\<lparr>d_world := w\<rparr>))"

definition d_need :: "exn \<Rightarrow> (ddb \<Rightarrow> 'a option) \<Rightarrow> (ddb, 'a) py" where
  "d_need e f d = (case f d of None \<Rightarrow> (Inl e, d) | Some x \<Rightarrow> (Inr x, d))"

definition check :: "bool \<Rightarrow> exn \<Rightarrow> (ddb, unit) py" where
  "check b e = (if b then ret () else raise e)"

section \<open>The model\<close>

definition find_discussion :: "ddb \<Rightarrow> uuid \<Rightarrow> discussion option" where
  "find_discussion d k = find (\<lambda>x. dis_uuid x = k \<and> \<not> dis_is_deleted x) (discussions d)"

definition added_users :: "ddb \<Rightarrow> uuid \<Rightarrow> discussion_user list" where
  "added_users d k = filter (\<lambda>m. dus_discussion m = k) (d_users d)"

definition is_added_user :: "ddb \<Rightarrow> discussion \<Rightarrow> email \<Rightarrow> bool" where
  "is_added_user d x u = list_ex (\<lambda>m. Option.bind (find_permission_pk (d_world d) (dus_permission m)) prm_user = Some u)
     (added_users d (dis_uuid x))"

definition discussion_permission :: "ddb \<Rightarrow> discussion \<Rightarrow> email \<Rightarrow> permission option" where
  "discussion_permission d x u =
     Option.bind (Option.bind (find_queue (d_world d) (dis_queue x)) (project_of_queue (d_world d)))
       (\<lambda>p. project_get_permission (d_world d) (prj_uuid p) (Some u))"

definition can_add_user :: "nat \<Rightarrow> ddb \<Rightarrow> discussion \<Rightarrow> permission \<Rightarrow> bool" where
  "can_add_user limit d x p \<longleftrightarrow>
     perm_is_any_manager (d_world d) p \<or> length (added_users d (dis_uuid x)) < limit"

text \<open>Without a permission the call on \<open>None\<close> raises \<open>AttributeError\<close>, which the method answers with \<open>False\<close>.\<close>

definition is_admin_manager_or_creator :: "ddb \<Rightarrow> discussion \<Rightarrow> email \<Rightarrow> bool" where
  "is_admin_manager_or_creator d x u = (case discussion_permission d x u of None \<Rightarrow> False
     | Some p \<Rightarrow> perm_is_any_manager (d_world d) p \<or> dis_created_by x = u)"

definition discussion_can_retrieve :: "ddb \<Rightarrow> discussion \<Rightarrow> email \<Rightarrow> bool" where
  "discussion_can_retrieve d x u \<longleftrightarrow> is_added_user d x u \<or> is_admin_manager_or_creator d x u \<or>
     dis_is_queued x \<and> list_ex (\<lambda>a. qau_queue a = dis_queue x \<and>
       Option.bind (find_permission_pk (d_world d) (qau_permission a)) prm_user = Some u) (live_queue_auths (d_world d))"

definition discussion_groups :: "ddb \<Rightarrow> discussion \<Rightarrow> string list" where
  "discussion_groups d x = (if dis_is_queued x then [''queue_'' @ dis_queue x]
     else map (\<lambda>m. ''permission_'' @ dus_permission m) (added_users d (dis_uuid x)))"

definition send_to :: "env \<Rightarrow> string \<Rightarrow> string list \<Rightarrow> (ddb, unit) py" where
  "send_to env action groups = in_world (for_each (\<lambda>g. send_group env g ''notify'' action) groups)"

definition notify_discussion :: "env \<Rightarrow> discussion \<Rightarrow> string \<Rightarrow> (ddb, unit) py" where
  "notify_discussion env x action = bnd (gets (\<lambda>d. discussion_groups d x)) (send_to env action)"

text \<open>\<open>save\<close>: the row with the key of the instance, which Django inserts when it updated none, under the constraint of
  one active discussion per room.\<close>

definition room_taken :: "ddb \<Rightarrow> discussion \<Rightarrow> bool" where
  "room_taken d x \<longleftrightarrow> dis_is_active x \<and>
     list_ex (\<lambda>y. dis_uuid y \<noteq> dis_uuid x \<and> dis_is_active y \<and> dis_room y = dis_room x) (discussions d)"

definition put :: "discussion \<Rightarrow> discussion list \<Rightarrow> discussion list" where
  "put x = update_where (\<lambda>y. dis_uuid y = dis_uuid x) (\<lambda>_. x)"

definition save_discussion :: "discussion \<Rightarrow> (ddb, unit) py" where
  "save_discussion x d = (if room_taken d x then (Inl (IntegrityError ''unique_room_is_activetrue_discussion''), d)
     else (Inr (), d\<lparr>discussions := (if dis_uuid x \<in> set (map dis_uuid (discussions d)) then put x (discussions d)
       else discussions d @ [x])\<rparr>))"

definition insert_discussion :: "discussion \<Rightarrow> (ddb, unit) py" where
  "insert_discussion x d = (if dis_uuid x \<in> set (map dis_uuid (discussions d)) then (Inl (IntegrityError ''pkey''), d)
     else if room_taken d x then (Inl (IntegrityError ''unique_room_is_activetrue_discussion''), d)
     else (Inr (), d\<lparr>discussions := discussions d @ [x]\<rparr>))"

definition insert_discussion_user :: "discussion_user \<Rightarrow> (ddb, unit) py" where
  "insert_discussion_user m d =
     (if list_ex (\<lambda>n. dus_discussion n = dus_discussion m \<and> dus_permission n = dus_permission m) (d_users d)
      then (Inl (IntegrityError ''unique_permission_per_discussion''), d)
      else (Inr (), d\<lparr>d_users := d_users d @ [m]\<rparr>))"

definition delete_discussion :: "env \<Rightarrow> discussion \<Rightarrow> (ddb, unit) py" where
  "delete_discussion env x = (let x' = x\<lparr>dis_is_active := False\<rparr> in
     andthen (save_discussion x') (notify_discussion env x' ''discussions.close''))"

definition check_queued_discussion :: "env \<Rightarrow> discussion \<Rightarrow> (ddb, discussion) py" where
  "check_queued_discussion env x = bnd (gets (\<lambda>d. length (added_users d (dis_uuid x)))) (\<lambda>n.
     if dis_is_queued x \<and> 1 < n
     then let x' = x\<lparr>dis_is_queued := False\<rparr> in
       andthen (save_discussion x')
         (andthen (send_to env ''discussions.update'' [''queue_'' @ dis_queue x']) (ret x'))
     else ret x)"

definition create_discussion_user ::
  "discussion_env \<Rightarrow> discussion \<Rightarrow> email \<Rightarrow> email \<Rightarrow> nat option \<Rightarrow> (ddb, discussion \<times> discussion_user option) py" where
  "create_discussion_user D x from_user to_user role =
     bnd (d_need (RuntimeError ''UserProjectPermissionNotFound'') (\<lambda>d. discussion_permission d x from_user)) (\<lambda>p.
     bnd (d_need (RuntimeError ''UserProjectPermissionNotFound'') (\<lambda>d. discussion_permission d x to_user)) (\<lambda>q.
     bnd (gets (\<lambda>d. can_add_user (den_limit D) d x p)) (\<lambda>may.
     if \<not> may then ret (x, None)
     else let m = \<lparr>dus_discussion = dis_uuid x, dus_permission = prm_uuid q,
            dus_role = (case role of Some r \<Rightarrow> r | None \<Rightarrow> prm_role q)\<rparr> in
       andthen (insert_discussion_user m)
         (bnd (check_queued_discussion (den_env D) x) (\<lambda>x'.
          andthen (send_to (den_env D) ''discussions.update'' [''permission_'' @ prm_uuid q]) (ret (x', Some m)))))))"

definition create_discussion_message ::
  "env \<Rightarrow> discussion \<Rightarrow> string option \<Rightarrow> email option \<Rightarrow> bool \<Rightarrow> bool \<Rightarrow> (ddb, unit) py" where
  "create_discussion_message env x text user system notify =
     (let sender = (if system then None else case user of Some u \<Rightarrow> Some u | None \<Rightarrow> Some (dis_created_by x)) in
      andthen (modify (\<lambda>d. d\<lparr>d_messages := d_messages d @
         [\<lparr>dms_discussion = dis_uuid x, dms_user = sender, dms_text = text, dms_medias = []\<rparr>]\<rparr>))
        (when_true notify (notify_discussion env x ''discussion_msg.create'')))"

definition create_discussion_feedback ::
  "env \<Rightarrow> discussion \<Rightarrow> (string \<times> json) list \<Rightarrow> string \<Rightarrow> bool \<Rightarrow> (ddb, unit) py" where
  "create_discussion_feedback env x feedback kind notify =
     create_discussion_message env x
       (Some (json_dumps (JObj [(''method'', JStr kind), (''content'', JObj feedback)]))) None True notify"

section \<open>Use cases\<close>

record discussion_request =
  dre_room :: uuid
  dre_queue :: uuid
  dre_subject :: string
  dre_initial_message :: "string option"

text \<open>\<open>DiscussionCreateSerializer\<close>: text fields are trimmed and may not be blank.\<close>

definition discussion_fields_ok :: "ddb \<Rightarrow> discussion_request \<Rightarrow> bool" where
  "discussion_fields_ok d rq \<longleftrightarrow>
     find_room (d_world d) (dre_room rq) \<noteq> None \<and>
     find (\<lambda>q. que_uuid q = dre_queue rq) (live_queues (d_world d)) \<noteq> None \<and>
     strip (dre_subject rq) \<noteq> [] \<and> length (strip (dre_subject rq)) \<le> 50 \<and>
     (case dre_initial_message rq of None \<Rightarrow> True | Some t \<Rightarrow> strip t \<noteq> [])"

definition validate_queue_and_room :: "ddb \<Rightarrow> discussion_request \<Rightarrow> bool option" where
  "validate_queue_and_room d rq = Option.bind (Option.bind (find_queue (d_world d) (dre_queue rq)) (project_of_queue (d_world d)))
     (\<lambda>p. map_option (\<lambda>p'. prj_uuid p = prj_uuid p')
       (Option.bind (find_room (d_world d) (dre_room rq)) (project_of (d_world d))))"

definition create_discussion :: "discussion_env \<Rightarrow> uuid \<Rightarrow> discussion_request \<Rightarrow> email \<Rightarrow> (ddb, uuid) py" where
  "create_discussion D k rq u =
     bnd (d_need AttributeError (\<lambda>d. validate_queue_and_room d rq)) (\<lambda>same.
     if \<not> same then raise (ValueError ''Cannot set outside project queue on the discussion'')
     else let x = \<lparr>dis_uuid = k, dis_subject = strip (dre_subject rq), dis_created_by = u, dis_room = dre_room rq,
            dis_queue = dre_queue rq, dis_is_queued = True, dis_is_active = True, dis_is_deleted = False\<rparr> in
       andthen (insert_discussion x)
      (bnd (d_need AttributeError (\<lambda>d. find_queue (d_world d) (dis_queue x))) (\<lambda>q.
       andthen (create_discussion_feedback (den_env D) x
          [(''user'', JStr (user_first_name (den_env D) u)), (''queue'', JStr (que_name q))] ''dc'' False)
      (andthen (create_discussion_message (den_env D) x (map_option strip (dre_initial_message rq)) None False False)
      (bnd (create_discussion_user D x u u (Some 0)) (\<lambda>(x', _).
       andthen (notify_discussion (den_env D) x' ''discussions.create'') (ret k)))))))"

definition add_user_to_discussion ::
  "discussion_env \<Rightarrow> discussion \<Rightarrow> email \<Rightarrow> email \<Rightarrow> (ddb, discussion_user) py" where
  "add_user_to_discussion D x user_email from_user = (let u = map lower_char user_email in
     andthen (check (den_user_exists D u) (DoesNotExist ''User''))
     (bnd (gets (\<lambda>d. is_added_user d x u)) (\<lambda>already.
      if already then raise (ValidationError ''already added to this discussion'')
      else bnd (try_except (create_discussion_user D x from_user u None)
          (\<lambda>e. if e = RuntimeError ''UserProjectPermissionNotFound'' then raise (ValidationError ''not found in the project'')
               else raise e)) (\<lambda>(x', added).
        case added of None \<Rightarrow> raise AttributeError
        | Some m \<Rightarrow> andthen (create_discussion_feedback (den_env D) x' [(''user'', JStr (user_first_name (den_env D) u))] ''da'' True)
            (ret m)))))"

text \<open>\<open>CreateMessageWithMediaUseCase\<close>: the column of the content type holds 300 characters.\<close>

definition create_message_with_media ::
  "env \<Rightarrow> discussion \<Rightarrow> email \<Rightarrow> string option \<Rightarrow> string \<times> string \<Rightarrow> (ddb, unit) py" where
  "create_message_with_media env x u text media =
     (let row = (\<lambda>ms. \<lparr>dms_discussion = dis_uuid x, dms_user = Some u,
            dms_text = Some (case text of None \<Rightarrow> [] | Some t \<Rightarrow> t), dms_medias = ms\<rparr>) in
      bnd (gets d_messages) (\<lambda>before.
      andthen (modify (\<lambda>d. d\<lparr>d_messages := before @ [row []]\<rparr>))
     (andthen (check (length (fst media) \<le> 300) (ExternalError ''DataError''))
     (andthen (modify (\<lambda>d. d\<lparr>d_messages := before @ [row [media]]\<rparr>))
        (notify_discussion env x ''discussion_msg.create'')))))"

section \<open>Requests\<close>

text \<open>\<open>Room.can_create_discussion\<close> behind \<open>CanManageDiscussion.has_permission\<close>, which answers every exception with
  \<open>False\<close>.\<close>

definition can_create_discussion :: "room \<Rightarrow> email \<Rightarrow> (world, bool) py" where
  "can_create_discussion r u =
     (if rm_user r = Some u then ret True
      else bnd (room_get_permission r (Some u)) (\<lambda>perm.
        if \<not> rm_is_active r then ret True
        else case perm of None \<Rightarrow> raise AttributeError | Some p \<Rightarrow> gets (\<lambda>w. perm_is_any_manager w p)))"

definition may_create_discussion :: "world \<Rightarrow> uuid \<Rightarrow> email \<Rightarrow> bool" where
  "may_create_discussion w k u = (case find_room w k of None \<Rightarrow> False
     | Some r \<Rightarrow> (case can_create_discussion r u w of (Inl _, _) \<Rightarrow> False | (Inr b, _) \<Rightarrow> b))"

definition create_discussion_view :: "discussion_env \<Rightarrow> uuid \<Rightarrow> discussion_request \<Rightarrow> email \<Rightarrow> (ddb, uuid) py" where
  "create_discussion_view D k rq u =
     bnd (gets (\<lambda>d. may_create_discussion (d_world d) (dre_room rq) u)) (\<lambda>may.
     andthen (check may (PermissionDenied ''CanManageDiscussion''))
    (bnd (gets (\<lambda>d. list_ex (\<lambda>x. dis_room x = dre_room rq \<and> dis_is_active x \<and> \<not> dis_is_deleted x) (discussions d))) (\<lambda>open.
     andthen (check (\<not> open) (ValidationError ''The room already have an open discussion.''))
    (bnd (gets (\<lambda>d. discussion_fields_ok d rq)) (\<lambda>ok.
     andthen (check ok (ValidationError ''fields''))
       (create_discussion D k rq u))))))"

datatype discussion_action = Retrieve | Destroy_Discussion | Update_Discussion | Add_Agents email | Send_Messages

text \<open>\<open>DiscussionObjectPermissionActions\<close>; an action it does not define raises \<open>AttributeError\<close>, for which the class
  falls back on \<open>can_retrieve\<close>.\<close>

definition action_allowed :: "ddb \<Rightarrow> discussion \<Rightarrow> discussion_action \<Rightarrow> email \<Rightarrow> bool" where
  "action_allowed d x a u = (case a of
       Retrieve \<Rightarrow> discussion_can_retrieve d x u
     | Update_Discussion \<Rightarrow> discussion_can_retrieve d x u
     | Destroy_Discussion \<Rightarrow> is_admin_manager_or_creator d x u
     | Add_Agents e \<Rightarrow> is_admin_manager_or_creator d x u \<or> length (added_users d (dis_uuid x)) < 2 \<and> e = u
     | Send_Messages \<Rightarrow> is_added_user d x u)"

definition get_discussion :: "uuid \<Rightarrow> discussion_action \<Rightarrow> email \<Rightarrow> (ddb, discussion) py" where
  "get_discussion k a u =
     bnd (d_need (DoesNotExist ''Discussion'') (\<lambda>d. find_discussion d k)) (\<lambda>x.
     bnd (gets (\<lambda>d. action_allowed d x a u)) (\<lambda>may.
     if may then ret x else raise (PermissionDenied ''CanManageDiscussion'')))"

definition destroy_discussion_view :: "discussion_env \<Rightarrow> uuid \<Rightarrow> email \<Rightarrow> (ddb, unit) py" where
  "destroy_discussion_view D k u = bnd (get_discussion k Destroy_Discussion u) (delete_discussion (den_env D))"

text \<open>\<open>partial_update\<close> with \<open>DiscussionDetailSerializer\<close>, whose fields \<open>uuid\<close> and \<open>room\<close> are writable. The
  validator of the key looks for it among the other rows that are not deleted.\<close>

definition update_discussion_view :: "uuid \<Rightarrow> uuid option \<Rightarrow> uuid option \<Rightarrow> email \<Rightarrow> (ddb, unit) py" where
  "update_discussion_view k key rm u = bnd (get_discussion k Update_Discussion u) (\<lambda>x.
     let key' = (case key of None \<Rightarrow> k | Some n \<Rightarrow> n); room' = (case rm of None \<Rightarrow> dis_room x | Some r \<Rightarrow> r) in
     bnd (gets (\<lambda>d. (key' = k \<or> find_discussion d key' = None) \<and> (rm = None \<or> find_room (d_world d) room' \<noteq> None))) (\<lambda>ok.
     andthen (check ok (ValidationError ''fields'')) (save_discussion (x\<lparr>dis_uuid := key', dis_room := room'\<rparr>))))"

definition add_agents_view :: "discussion_env \<Rightarrow> uuid \<Rightarrow> email \<Rightarrow> email \<Rightarrow> (ddb, discussion_user) py" where
  "add_agents_view D k e u = bnd (get_discussion k (Add_Agents e) u) (\<lambda>x. add_user_to_discussion D x e u)"

definition send_messages_view :: "discussion_env \<Rightarrow> uuid \<Rightarrow> string \<Rightarrow> email \<Rightarrow> (ddb, unit) py" where
  "send_messages_view D k t u = bnd (get_discussion k Send_Messages u) (\<lambda>x.
     andthen (check (strip t \<noteq> []) (ValidationError ''text''))
       (create_discussion_message (den_env D) x (Some (strip t)) (Some u) False True))"

definition send_media_messages_view ::
  "discussion_env \<Rightarrow> uuid \<Rightarrow> string option \<Rightarrow> string \<times> string \<Rightarrow> email \<Rightarrow> (ddb, unit) py" where
  "send_media_messages_view D k t media u =
     andthen (check (strip (fst media) \<noteq> [] \<and> (case t of None \<Rightarrow> True | Some s \<Rightarrow> strip s \<noteq> [])) (ValidationError ''fields''))
    (bnd (get_discussion k Send_Messages u) (\<lambda>x.
       create_message_with_media (den_env D) x u (map_option strip t) (strip (fst media), snd media)))"

section \<open>What a request leaves behind\<close>

text \<open>A notification adds to the effects only.\<close>

definition talks :: "ddb \<Rightarrow> ddb \<Rightarrow> bool" where
  "talks d d' \<longleftrightarrow> (\<exists>es. d' = d\<lparr>d_world := (d_world d)\<lparr>effects := es\<rparr>\<rparr>)"

lemma talks_refl: "talks d d"
  unfolding talks_def by (rule exI [of _ "effects (d_world d)"]) simp

lemma talks_tables:
  assumes "talks d d'"
  shows "discussions d' = discussions d" "d_users d' = d_users d" "d_messages d' = d_messages d"
    "queues (d_world d') = queues (d_world d)" "sectors (d_world d') = sectors (d_world d)"
    "projects (d_world d') = projects (d_world d)" "permissions (d_world d') = permissions (d_world d)"
    "rooms (d_world d') = rooms (d_world d)" "sector_auths (d_world d') = sector_auths (d_world d)"
  using assms by (auto simp: talks_def)

interpretation talking: step_order talks
proof unfold_locales
  show "talks s s" for s by (rule talks_refl)
  show "talks s t \<Longrightarrow> talks t u \<Longrightarrow> talks s u" for s t u by (auto simp: talks_def)
qed

lemma sends_effects: "\<exists>es. for_each (\<lambda>g. send_group env g c a) gs w = (Inr (), w\<lparr>effects := es\<rparr>)"
proof (induction gs arbitrary: w)
  case Nil
  show ?case by (rule exI [of _ "effects w"]) (simp add: ret_def)
next
  case (Cons g gs)
  obtain es where es: "send_group env g c a w = (Inr (), w\<lparr>effects := effects w @ es\<rparr>)"
    using send_channels_group_effects unfolding send_group_def by blast
  obtain fs where "for_each (\<lambda>g. send_group env g c a) gs (w\<lparr>effects := effects w @ es\<rparr>) = (Inr (), w\<lparr>effects := fs\<rparr>)"
    using Cons.IH [of "w\<lparr>effects := effects w @ es\<rparr>"] by auto
  then show ?case by (auto simp: run_Inr(2) [where m = "send_group env g c a", OF es])
qed

lemma send_to_run: "\<exists>d'. send_to env a gs d = (Inr (), d') \<and> talks d d'"
  using sends_effects [of env "''notify''" a gs "d_world d"] by (auto simp: send_to_def in_world_def talks_def)

lemma notify_discussion_run: "\<exists>d'. notify_discussion env x a d = (Inr (), d') \<and> talks d d'"
  unfolding notify_discussion_def run_gets by (rule send_to_run)

lemma create_discussion_message_run:
  "\<exists>d' m. create_discussion_message env x t u sys notify d = (Inr (), d') \<and> dms_discussion m = dis_uuid x \<and>
     dms_user m = (if sys then None else case u of Some v \<Rightarrow> Some v | None \<Rightarrow> Some (dis_created_by x)) \<and>
     talks (d\<lparr>d_messages := d_messages d @ [m]\<rparr>) d'"
proof -
  let ?m = "\<lparr>dms_discussion = dis_uuid x, dms_user = if sys then None else case u of Some v \<Rightarrow> Some v | None \<Rightarrow> Some (dis_created_by x),
    dms_text = t, dms_medias = []\<rparr>"
  let ?d = "d\<lparr>d_messages := d_messages d @ [?m]\<rparr>"
  obtain d' where "notify_discussion env x ''discussion_msg.create'' ?d = (Inr (), d')" "talks ?d d'"
    using notify_discussion_run by blast
  then show ?thesis
    by (cases notify) (auto simp: create_discussion_message_def Let_def andthen_def bnd_def modify_def ret_def intro!: exI [of _ ?m] talks_refl)
qed

text \<open>The instance after \<open>check_queued\<close>, when the discussion has \<open>n\<close> members.\<close>

definition dequeued :: "nat \<Rightarrow> discussion \<Rightarrow> discussion" where
  "dequeued n x = (if dis_is_queued x \<and> 1 < n then x\<lparr>dis_is_queued := False\<rparr> else x)"


lemma dequeued_simps [simp]:
  "dis_uuid (dequeued n x) = dis_uuid x" "dis_room (dequeued n x) = dis_room x" "dis_is_active (dequeued n x) = dis_is_active x"
  "dis_queue (dequeued n x) = dis_queue x"
  by (simp_all add: dequeued_def)

lemma put_same: "distinct (map dis_uuid xs) \<Longrightarrow> x \<in> set xs \<Longrightarrow> put x xs = xs"
  unfolding put_def update_where_def by (rule map_idI) (metis distinct_map inj_onD)

text \<open>The keys are unique, and no room has two active discussions.\<close>

definition rows_ok :: "discussion list \<Rightarrow> bool" where
  "rows_ok xs \<longleftrightarrow> distinct (map dis_uuid xs) \<and> distinct (map dis_room (filter dis_is_active xs))"

lemma not_taken:
  assumes "rows_ok (discussions d)" and "x \<in> set (discussions d)"
    and "dis_uuid y = dis_uuid x" "dis_room y = dis_room x" "dis_is_active y \<Longrightarrow> dis_is_active x"
  shows "\<not> room_taken d y"
proof
  assume "room_taken d y"
  then obtain z where z: "z \<in> set (discussions d)" "dis_uuid z \<noteq> dis_uuid x" "dis_is_active z" "dis_room z = dis_room x"
    and x: "dis_is_active x"
    using assms(3,4,5) by (auto simp: room_taken_def list_ex_iff)
  have "inj_on dis_room (set (filter dis_is_active (discussions d)))"
    using assms(1) by (simp add: rows_ok_def distinct_map)
  then have "z = x" using z x assms(2) by (auto dest: inj_onD)
  with z(2) show False by simp
qed

lemma check_queued_run:
  assumes "rows_ok (discussions d)" and "x \<in> set (discussions d)"
  shows "\<exists>d'. check_queued_discussion env x d = (Inr (dequeued (length (added_users d (dis_uuid x))) x), d') \<and>
     talks (d\<lparr>discussions := put (dequeued (length (added_users d (dis_uuid x))) x) (discussions d)\<rparr>) d'"
proof -
  let ?x = "x\<lparr>dis_is_queued := False\<rparr>"
  let ?d = "d\<lparr>discussions := put ?x (discussions d)\<rparr>"
  have save: "save_discussion ?x d = (Inr (), ?d)"
    using not_taken [OF assms, of ?x] assms(2) by (auto simp: save_discussion_def)
  obtain d' where "send_to env ''discussions.update'' [''queue_'' @ dis_queue x] ?d = (Inr (), d')" "talks ?d d'"
    using send_to_run by blast
  moreover have "put x (discussions d) = discussions d" using assms by (simp add: put_same rows_ok_def)
  ultimately show ?thesis
    using save by (auto simp: check_queued_discussion_def gets_def dequeued_def Let_def andthen_def bnd_def ret_def talks_refl)
qed

definition new_member :: "discussion \<Rightarrow> permission \<Rightarrow> nat option \<Rightarrow> discussion_user" where
  "new_member x q role = \<lparr>dus_discussion = dis_uuid x, dus_permission = prm_uuid q,
     dus_role = (case role of Some r \<Rightarrow> r | None \<Rightarrow> prm_role q)\<rparr>"

definition joined_row :: "ddb \<Rightarrow> discussion \<Rightarrow> discussion" where
  "joined_row d x = dequeued (Suc (length (added_users d (dis_uuid x)))) x"

definition join :: "discussion \<Rightarrow> discussion_user \<Rightarrow> ddb \<Rightarrow> ddb" where
  "join x m d = d\<lparr>d_users := d_users d @ [m], discussions := put (joined_row d x) (discussions d)\<rparr>"

lemma create_discussion_user_run:
  assumes "rows_ok (discussions d)" and "x \<in> set (discussions d)"
    and "discussion_permission d x f = Some p" and "discussion_permission d x u = Some q" and "can_add_user (den_limit D) d x p"
    and "\<not> list_ex (\<lambda>n. dus_discussion n = dis_uuid x \<and> dus_permission n = prm_uuid q) (d_users d)"
  shows "\<exists>d'. create_discussion_user D x f u role d = (Inr (joined_row d x, Some (new_member x q role)), d') \<and>
     talks (join x (new_member x q role) d) d'"
proof -
  let ?m = "new_member x q role"
  let ?d = "d\<lparr>d_users := d_users d @ [?m]\<rparr>"
  have ins: "insert_discussion_user ?m d = (Inr (), ?d)"
    using assms(6) by (simp add: insert_discussion_user_def new_member_def)
  have n: "length (added_users ?d (dis_uuid x)) = Suc (length (added_users d (dis_uuid x)))"
    by (simp add: added_users_def new_member_def)
  obtain d1 where d1: "check_queued_discussion (den_env D) x ?d = (Inr (joined_row d x), d1)"
      "talks (join x ?m d) d1"
    using check_queued_run [of ?d x "den_env D"] assms(1,2) n by (auto simp: joined_row_def join_def)
  obtain d2 where d2: "send_to (den_env D) ''discussions.update'' [''permission_'' @ prm_uuid q] d1 = (Inr (), d2)" "talks d1 d2"
    using send_to_run by blast
  have "create_discussion_user D x f u role d = (Inr (joined_row d x, Some ?m), d2)"
    using assms(3,4,5) ins d1(1) d2(1)
    by (simp add: create_discussion_user_def d_need_def gets_def Let_def andthen_def bnd_def ret_def new_member_def)
  then show ?thesis using talking.R_trans [OF d1(2) d2(2)] by auto
qed

text \<open>Otherwise nothing happens.\<close>

lemma create_discussion_user_refused:
  assumes "case discussion_permission d x f of None \<Rightarrow> True | Some p \<Rightarrow> (case discussion_permission d x u of None \<Rightarrow> True
     | Some q \<Rightarrow> \<not> can_add_user (den_limit D) d x p \<or>
         list_ex (\<lambda>n. dus_discussion n = dis_uuid x \<and> dus_permission n = prm_uuid q) (d_users d))"
  shows "snd (create_discussion_user D x f u role d) = d"
    and "fst (create_discussion_user D x f u role d) = Inr y \<Longrightarrow> y = (x, None)"
  using assms by (auto simp: create_discussion_user_def d_need_def gets_def Let_def andthen_def bnd_def ret_def
      insert_discussion_user_def raise_def split: option.splits if_splits)

section \<open>Discussions stay consistent\<close>

text \<open>Keys are unique, a room has one active discussion, a permission is in a discussion once, every member belongs to
  a discussion, and a discussion waits in its queue exactly while it has fewer than two members, unless its key is one of
  \<open>E\<close>.\<close>

definition discussions_ok :: "uuid set \<Rightarrow> ddb \<Rightarrow> bool" where
  "discussions_ok E d \<longleftrightarrow> rows_ok (discussions d) \<and>
     distinct (map (\<lambda>m. (dus_discussion m, dus_permission m)) (d_users d)) \<and>
     dus_discussion ` set (d_users d) \<subseteq> dis_uuid ` set (discussions d) \<and>
     (\<forall>x \<in> set (discussions d). dis_uuid x \<notin> E \<longrightarrow> dis_is_queued x = (length (added_users d (dis_uuid x)) < 2))"

lemma added_users_cong: "d_users d' = d_users d \<Longrightarrow> added_users d' k = added_users d k"
  by (simp add: added_users_def)

lemma ok_talks: "talks d d' \<Longrightarrow> discussions_ok E d' \<longleftrightarrow> discussions_ok E d"
  using talks_tables [of d d'] by (simp add: discussions_ok_def added_users_def)

lemma ok_messages [simp]: "discussions_ok E (d\<lparr>d_messages := ms\<rparr>) = discussions_ok E d"
  "discussions_ok E (d\<lparr>d_world := w\<rparr>) = discussions_ok E d"
  by (simp_all add: discussions_ok_def added_users_def)

lemma set_put: "distinct (map dis_uuid xs) \<Longrightarrow> x \<in> set xs \<Longrightarrow> dis_uuid y = dis_uuid x \<Longrightarrow>
    set (put y xs) = insert y (set xs - {x})"
  unfolding put_def set_update_where by (auto simp: distinct_map inj_on_def)

lemma map_put: "dis_uuid y = dis_uuid x \<Longrightarrow> map dis_uuid (put y xs) = map dis_uuid xs"
  unfolding put_def update_where_def by auto

lemma put_simps [simp]: "put y [] = []" "put y (z # zs) = (if dis_uuid z = dis_uuid y then y else z) # put y zs"
  by (simp_all add: put_def)

lemma rows_ok_put:
  assumes "rows_ok (discussions d)" and "\<not> room_taken d y"
  shows "rows_ok (put y (discussions d))"
proof -
  have "distinct (map dis_uuid xs) \<Longrightarrow> distinct (map dis_room (filter dis_is_active xs)) \<Longrightarrow>
      (dis_is_active y \<Longrightarrow> \<forall>z \<in> set xs. dis_uuid z \<noteq> dis_uuid y \<longrightarrow> dis_is_active z \<longrightarrow> dis_room z \<noteq> dis_room y) \<Longrightarrow>
      distinct (map dis_room (filter dis_is_active (put y xs)))" for xs
  proof (induction xs)
    case (Cons z zs)
    have tail: "put y zs = zs" if "dis_uuid z = dis_uuid y"
    proof -
      have "dis_uuid y \<notin> dis_uuid ` set zs" using that Cons.prems(1) by simp
      then show ?thesis unfolding put_def update_where_def by (intro map_idI) (metis image_eqI)
    qed
    have rooms: "dis_room ` set (filter dis_is_active (put y zs)) \<subseteq>
        dis_room ` set (filter dis_is_active zs) \<union> (if dis_is_active y then {dis_room y} else {})"
      by (auto simp: put_def set_update_where)
    show ?case
    proof (cases "dis_uuid z = dis_uuid y")
      case True
      then have "dis_uuid v \<noteq> dis_uuid y" if "v \<in> set zs" for v using that Cons.prems(1) by (auto simp: image_iff)
      then show ?thesis using Cons.prems True tail by (auto split: if_splits)
    next
      case False
      then have "distinct (map dis_room (filter dis_is_active (put y zs)))" using Cons by (simp split: if_splits)
      moreover have "dis_room z \<notin> dis_room ` set (filter dis_is_active (put y zs))" if "dis_is_active z"
        using that False Cons.prems(2,3) rooms by (auto split: if_splits)
      ultimately show ?thesis using False by simp
    qed
  qed simp
  moreover have "map dis_uuid (put y xs) = map dis_uuid xs" for xs by (rule map_put) simp
  ultimately show ?thesis using assms by (auto simp: rows_ok_def room_taken_def list_ex_iff)
qed

text \<open>A save of a row with its own key, or of a copy under an exempt key.\<close>

lemma ok_save:
  assumes ok: "discussions_ok E d" and x: "x \<in> set (discussions d)" "dis_uuid y = dis_uuid x"
    and q: "dis_uuid y \<notin> E \<Longrightarrow> dis_is_queued y = dis_is_queued x"
  shows "discussions_ok E (snd (save_discussion y d))"
proof (cases "room_taken d y")
  case False
  have key: "dis_uuid y \<in> set (map dis_uuid (discussions d))" using x by auto
  have "set (put y (discussions d)) = insert y (set (discussions d) - {x})"
    using ok x by (intro set_put) (auto simp: discussions_ok_def rows_ok_def)
  moreover have "dis_uuid ` set (put y (discussions d)) = dis_uuid ` set (discussions d)"
    using map_put [of y y "discussions d"] by (metis image_set)
  ultimately show ?thesis
    using ok x q key False rows_ok_put [of d y]
    by (auto simp: save_discussion_def discussions_ok_def added_users_def)
qed (use ok in \<open>simp add: save_discussion_def\<close>)

lemma ok_save_copy:
  assumes ok: "discussions_ok E d" and y: "dis_uuid y \<in> E"
  shows "discussions_ok E (snd (save_discussion y d))"
proof (cases "dis_uuid y \<in> set (map dis_uuid (discussions d))")
  case True
  then obtain x where "x \<in> set (discussions d)" "dis_uuid y = dis_uuid x" by auto
  then show ?thesis using ok_save [OF ok] y by blast
next
  case new: False
  show ?thesis
  proof (cases "room_taken d y")
    case False
    then have "\<forall>z \<in> set (discussions d). dis_is_active y \<longrightarrow> dis_is_active z \<longrightarrow> dis_room z \<noteq> dis_room y"
      using new unfolding room_taken_def list_ex_iff set_map by (metis imageI)
    then have "rows_ok (discussions d @ [y])"
      using ok new by (auto simp: discussions_ok_def rows_ok_def)
    with ok y new False show ?thesis by (auto simp: save_discussion_def discussions_ok_def added_users_def)
  qed (use ok in \<open>simp add: save_discussion_def\<close>)
qed

lemma ok_exempt: "discussions_ok E d \<Longrightarrow> E \<subseteq> F \<Longrightarrow> discussions_ok F d"
  by (auto simp: discussions_ok_def)

lemma ok_join:
  assumes ok: "discussions_ok E d" and x: "x \<in> set (discussions d)" and m: "dus_discussion m = dis_uuid x"
    and new: "\<not> list_ex (\<lambda>n. dus_discussion n = dis_uuid x \<and> dus_permission n = dus_permission m) (d_users d)"
  shows "discussions_ok E (join x m d)"
proof -
  let ?y = "joined_row d x"
  have rows: "rows_ok (discussions d)" using ok by (simp add: discussions_ok_def)
  have "\<not> room_taken d ?y" using not_taken [OF rows x, of ?y] by (simp add: joined_row_def)
  then have ok1: "rows_ok (put ?y (discussions d))" using rows_ok_put [OF rows] by blast
  have set1: "set (put ?y (discussions d)) = insert ?y (set (discussions d) - {x})"
    using rows x by (intro set_put) (auto simp: rows_ok_def joined_row_def)
  have keys: "dis_uuid ` set (put ?y (discussions d)) = dis_uuid ` set (discussions d)"
    using map_put [of ?y ?y "discussions d"] by (metis image_set)
  have n: "length (added_users (join x m d) k) = (if k = dis_uuid x then Suc (length (added_users d k)) else length (added_users d k))" for k
    using m by (simp add: added_users_def join_def)
  have other: "dis_uuid z \<noteq> dis_uuid x" if "z \<in> set (discussions d) - {x}" for z
    using that rows x by (auto simp: rows_ok_def distinct_map dest: inj_onD)
  have "dis_uuid x \<notin> E \<Longrightarrow> dis_is_queued ?y \<longleftrightarrow> Suc (length (added_users d (dis_uuid x))) < 2"
    using ok x by (auto simp: discussions_ok_def joined_row_def dequeued_def)
  then have "\<forall>z \<in> set (discussions (join x m d)). dis_uuid z \<notin> E \<longrightarrow>
      dis_is_queued z = (length (added_users (join x m d) (dis_uuid z)) < 2)"
    using ok other set1 unfolding n by (auto simp: discussions_ok_def join_def joined_row_def)
  moreover have "distinct (map (\<lambda>m. (dus_discussion m, dus_permission m)) (d_users d @ [m]))"
    using ok new m by (auto simp: discussions_ok_def list_ex_iff)
  ultimately show ?thesis
    using ok ok1 keys m x by (auto simp: discussions_ok_def join_def)
qed

text \<open>What opening a discussion and adding somebody to it leave.\<close>

lemma get_discussion_run:
  "snd (get_discussion k a u d) = d"
  "get_discussion k a u d = (Inr x, d') \<Longrightarrow> d' = d \<and> find_discussion d k = Some x \<and> action_allowed d x a u"
  by (auto simp: get_discussion_def d_need_def gets_def bnd_def ret_def raise_def split: option.splits if_splits)

lemma found_row: "find_discussion d k = Some x \<Longrightarrow> x \<in> set (discussions d) \<and> dis_uuid x = k"
  unfolding find_discussion_def by (drule find_in_set) simp

definition keeps_ok :: "uuid set \<Rightarrow> (ddb, 'a) py \<Rightarrow> bool" where
  "keeps_ok E m \<longleftrightarrow> keeps (\<lambda>s t. discussions_ok E s \<longrightarrow> discussions_ok E t) m"

interpretation consistent: step_order "\<lambda>s t. discussions_ok E s \<longrightarrow> discussions_ok E t"
  by unfold_locales auto

lemma view_keeps_ok:
  assumes "\<And>d x. discussions_ok E d \<Longrightarrow> find_discussion d k = Some x \<Longrightarrow> action_allowed d x a u \<Longrightarrow> discussions_ok E (snd (f x d))"
  shows "keeps_ok E (bnd (get_discussion k a u) f)"
proof -
  have "discussions_ok E (snd (bnd (get_discussion k a u) f d))" if ok: "discussions_ok E d" for d
  proof (cases "get_discussion k a u d")
    case (Pair r d')
    then show ?thesis
      using get_discussion_run(1) [of k a u d] get_discussion_run(2) [of k a u d] assms [OF ok] ok
      by (cases r) (auto simp: bnd_def)
  qed
  then show ?thesis by (simp add: keeps_ok_def keeps_def)
qed

lemma ok_notify: "discussions_ok E d \<Longrightarrow> discussions_ok E (snd (notify_discussion env x a d))"
  using notify_discussion_run [of env x a d] by (auto simp: ok_talks)

lemma ok_message: "discussions_ok E d \<Longrightarrow> discussions_ok E (snd (create_discussion_message env x t u sys notify d))"
  using create_discussion_message_run [of env x t u sys notify d] by (auto simp: ok_talks)

lemma ok_create_user:
  assumes "discussions_ok E d" and "x \<in> set (discussions d)"
  shows "discussions_ok E (snd (create_discussion_user D x f u role d))"
proof (cases "\<exists>p q. discussion_permission d x f = Some p \<and> discussion_permission d x u = Some q \<and> can_add_user (den_limit D) d x p \<and>
    \<not> list_ex (\<lambda>n. dus_discussion n = dis_uuid x \<and> dus_permission n = prm_uuid q) (d_users d)")
  case True
  then obtain p q where pq: "discussion_permission d x f = Some p" "discussion_permission d x u = Some q" "can_add_user (den_limit D) d x p"
    "\<not> list_ex (\<lambda>n. dus_discussion n = dis_uuid x \<and> dus_permission n = prm_uuid q) (d_users d)" by blast
  then have "discussions_ok E (join x (new_member x q role) d)"
    by (intro ok_join [OF assms]) (simp_all add: new_member_def)
  moreover have "rows_ok (discussions d)" using assms(1) by (simp add: discussions_ok_def)
  ultimately show ?thesis
    using create_discussion_user_run [OF _ assms(2) pq, of role] ok_talks [of "join x (new_member x q role) d"] by auto
next
  case False
  then have "snd (create_discussion_user D x f u role d) = d"
    by (intro create_discussion_user_refused(1)) (auto split: option.split)
  with assms(1) show ?thesis by simp
qed

lemma ok_insert:
  assumes "discussions_ok E d" and "dis_is_queued x"
  shows "discussions_ok E (snd (insert_discussion x d))"
proof -
  let ?d = "d\<lparr>discussions := discussions d @ [x]\<rparr>"
  have "discussions_ok E ?d" if new: "dis_uuid x \<notin> dis_uuid ` set (discussions d)" and free: "\<not> room_taken d x"
  proof -
    have "dus_discussion m \<noteq> dis_uuid x" if "m \<in> set (d_users d)" for m
      using assms(1) that new unfolding discussions_ok_def by (metis imageI subsetD)
    then have none: "added_users d (dis_uuid x) = []" by (auto simp: added_users_def filter_empty_conv)
    have "\<forall>y \<in> set (discussions d). dis_is_active x \<longrightarrow> dis_is_active y \<longrightarrow> dis_room y \<noteq> dis_room x"
      using new free unfolding room_taken_def list_ex_iff by (metis imageI)
    then have "rows_ok (discussions ?d)" using assms(1) new by (auto simp: discussions_ok_def rows_ok_def)
    moreover have "dus_discussion ` set (d_users d) \<subseteq> dis_uuid ` set (discussions ?d)"
      using assms(1) by (auto simp: discussions_ok_def)
    ultimately show ?thesis
      using assms none by (simp add: discussions_ok_def added_users_cong [of ?d d])
  qed
  with assms(1) show ?thesis by (simp add: insert_discussion_def)
qed


lemma ok_run:
  "keeps_ok E m \<Longrightarrow> discussions_ok E d \<Longrightarrow> discussions_ok E (snd (m d))"
  "(\<And>d. discussions_ok E d \<Longrightarrow> discussions_ok E (snd (m d))) \<Longrightarrow> keeps_ok E m"
  by (simp_all add: keeps_ok_def keeps_def)

lemma d_need_run: "bnd (d_need e f) g d = (case f d of None \<Rightarrow> (Inl e, d) | Some x \<Rightarrow> g x d)"
  by (simp add: bnd_def d_need_def split: option.split)

lemma check_run: "andthen (check b e) m d = (if b then m d else (Inl e, d))"
  by (simp add: check_def andthen_def bnd_def ret_def raise_def)

definition opened :: "uuid \<Rightarrow> discussion_request \<Rightarrow> email \<Rightarrow> discussion" where
  "opened k rq u = \<lparr>dis_uuid = k, dis_subject = strip (dre_subject rq), dis_created_by = u, dis_room = dre_room rq,
     dis_queue = dre_queue rq, dis_is_queued = True, dis_is_active = True, dis_is_deleted = False\<rparr>"

text \<open>A request that passes its checks inserts the discussion and two messages; then its creator is added.\<close>

lemma create_discussion_run:
  assumes "insert_discussion (opened k rq u) d = (Inr (), d1)" and "validate_queue_and_room d rq = Some True"
    and "find_queue (d_world d) (dre_queue rq) \<noteq> None"
  shows "\<exists>d2. discussions d2 = discussions d1 \<and> d_users d2 = d_users d \<and> d_world d2 = d_world d \<and>
    length (d_messages d2) = length (d_messages d) + 2 \<and>
    create_discussion D k rq u d = bnd (create_discussion_user D (opened k rq u) u u (Some 0))
      (\<lambda>(x', _). andthen (notify_discussion (den_env D) x' ''discussions.create'') (ret k)) d2"
proof -
  let ?x = "opened k rq u"
  obtain q where q: "find_queue (d_world d) (dre_queue rq) = Some q" using assms(3) by blast
  have d1: "d1 = d\<lparr>discussions := discussions d @ [?x]\<rparr>" using assms(1) by (auto simp: insert_discussion_def split: if_splits)
  define d2 where "d2 = snd (andthen (create_discussion_feedback (den_env D) ?x
     [(''user'', JStr (user_first_name (den_env D) u)), (''queue'', JStr (que_name q))] ''dc'' False)
     (create_discussion_message (den_env D) ?x (map_option strip (dre_initial_message rq)) None False False) d1)"
  have "create_discussion D k rq u d = bnd (create_discussion_user D ?x u u (Some 0))
      (\<lambda>(x', _). andthen (notify_discussion (den_env D) x' ''discussions.create'') (ret k)) d2"
    using assms(1,2) q by (simp add: create_discussion_def d_need_def opened_def Let_def d2_def d1
      create_discussion_feedback_def create_discussion_message_def andthen_def bnd_def modify_def ret_def)
  moreover have "discussions d2 = discussions d1 \<and> d_users d2 = d_users d \<and> d_world d2 = d_world d \<and>
      length (d_messages d2) = length (d_messages d) + 2"
    by (simp add: d2_def d1 create_discussion_feedback_def create_discussion_message_def Let_def andthen_def bnd_def modify_def ret_def)
  ultimately show ?thesis by blast
qed

lemma ok_add_self:
  assumes "discussions_ok E d" and "x \<in> set (discussions d)"
  shows "discussions_ok E (snd (bnd (create_discussion_user D x u u role)
      (\<lambda>(x', _). andthen (notify_discussion env x' a) (ret k)) d))"
proof (cases "create_discussion_user D x u u role d")
  case (Pair r t)
  then have t: "discussions_ok E t" using ok_create_user [OF assms, of D u u role] by simp
  then have "discussions_ok E (snd (andthen (notify_discussion env x' a) (ret k) t))" for x'
    using ok_notify [OF t, of env x' a]
    by (cases "notify_discussion env x' a t") (auto simp: andthen_def bnd_def ret_def split: sum.splits)
  with Pair t show ?thesis by (auto simp: bnd_def split: sum.splits)
qed

lemma ok_create_discussion:
  assumes ok: "discussions_ok E d"
  shows "discussions_ok E (snd (create_discussion D k rq u d))"
proof (cases "validate_queue_and_room d rq")
  case None
  with ok show ?thesis by (simp add: create_discussion_def d_need_run)
next
  case (Some same)
  show ?thesis
  proof (cases same)
    case False
    with ok Some show ?thesis by (simp add: create_discussion_def d_need_run raise_def)
  next
    case True
    obtain r d1 where ins: "insert_discussion (opened k rq u) d = (r, d1)" by force
    have ok1: "discussions_ok E d1" using ok_insert [OF ok, of "opened k rq u"] ins by (simp add: opened_def)
    show ?thesis
    proof (cases r)
      case (Inl e)
      with ok1 ins Some True show ?thesis
        by (simp add: create_discussion_def d_need_def Let_def opened_def andthen_def bnd_def)
    next
      case (Inr x)
      obtain q where q: "find_queue (d_world d) (dre_queue rq) = Some q"
        using Some by (auto simp: validate_queue_and_room_def bind_eq_Some_conv)
      obtain d2 where d2: "discussions d2 = discussions d1" "d_users d2 = d_users d"
        "create_discussion D k rq u d = bnd (create_discussion_user D (opened k rq u) u u (Some 0))
           (\<lambda>(x', _). andthen (notify_discussion (den_env D) x' ''discussions.create'') (ret k)) d2"
        using create_discussion_run [of k rq u d d1 D] ins Inr Some True q by auto
      have "d_users d1 = d_users d" "opened k rq u \<in> set (discussions d1)"
        using ins Inr by (auto simp: insert_discussion_def split: if_splits)
      then have "discussions_ok E d2" "opened k rq u \<in> set (discussions d2)"
        using ok1 d2 by (auto simp: discussions_ok_def added_users_def)
      then show ?thesis unfolding d2(3) by (rule ok_add_self)
    qed
  qed
qed

lemma ok_open_view: "discussions_ok E d \<Longrightarrow> discussions_ok E (snd (create_discussion_view D k rq u d))"
  by (simp add: create_discussion_view_def run_gets check_run ok_create_discussion)

lemma ok_add_agents: "keeps_ok E (add_agents_view D k e u)"
  unfolding add_agents_view_def
proof (rule view_keeps_ok)
  fix d x
  assume ok: "discussions_ok E d" and found: "find_discussion d k = Some x"
  let ?u = "map lower_char e"
  obtain r t where run: "create_discussion_user D x u ?u None d = (r, t)" by force
  have t: "discussions_ok E t" using ok_create_user [OF ok, of x D u ?u None] found_row [OF found] run by simp
  have tell: "discussions_ok E (snd (andthen (create_discussion_feedback (den_env D) x' f kind b) (ret m) t))" for x' f kind b and m :: discussion_user
  proof -
    obtain r' t' where "create_discussion_feedback (den_env D) x' f kind b t = (r', t')" by force
    moreover from this have "discussions_ok E t'"
      using ok_message [OF t, of "den_env D" x'] by (metis create_discussion_feedback_def snd_conv)
    ultimately show ?thesis by (cases r') (auto simp: andthen_def bnd_def ret_def)
  qed
  show "discussions_ok E (snd (add_user_to_discussion D x e u d))"
    using ok t tell by (simp add: add_user_to_discussion_def Let_def check_run gets_def raise_def try_except_def bnd_def run
        split: sum.split prod.split option.split)
qed

lemma ok_destroy: "keeps_ok E (destroy_discussion_view D k u)"
  unfolding destroy_discussion_view_def
proof (rule view_keeps_ok)
  fix d x
  assume ok: "discussions_ok E d" and found: "find_discussion d k = Some x"
  let ?x = "x\<lparr>dis_is_active := False\<rparr>"
  obtain r t where run: "save_discussion ?x d = (r, t)" by force
  have t: "discussions_ok E t" using ok_save [OF ok, of x ?x] found_row [OF found] run by simp
  show "discussions_ok E (snd (delete_discussion (den_env D) x d))"
    using ok_notify [OF t] t by (cases r) (simp_all add: delete_discussion_def Let_def andthen_def bnd_def run)
qed

lemma ok_update:
  assumes "\<And>n. key = Some n \<Longrightarrow> n \<noteq> k \<Longrightarrow> n \<in> E"
  shows "keeps_ok E (update_discussion_view k key rm u)"
  unfolding update_discussion_view_def
proof (rule view_keeps_ok)
  fix d x
  assume ok: "discussions_ok E d" and found: "find_discussion d k = Some x"
  have saved: "discussions_ok E (snd (save_discussion (x\<lparr>dis_uuid := case key of None \<Rightarrow> k | Some n \<Rightarrow> n, dis_room := r\<rparr>) d))" for r
    using ok_save [OF ok, of x "x\<lparr>dis_uuid := k, dis_room := r\<rparr>"] ok_save_copy [OF ok] assms found_row [OF found]
    by (cases "key = None \<or> key = Some k") (auto split: option.splits)
  show "discussions_ok E (snd ((let key' = (case key of None \<Rightarrow> k | Some n \<Rightarrow> n); room' = (case rm of None \<Rightarrow> dis_room x | Some r \<Rightarrow> r) in
     bnd (gets (\<lambda>d. (key' = k \<or> find_discussion d key' = None) \<and> (rm = None \<or> find_room (d_world d) room' \<noteq> None))) (\<lambda>ok.
     andthen (check ok (ValidationError ''fields'')) (save_discussion (x\<lparr>dis_uuid := key', dis_room := room'\<rparr>)))) d))"
    using ok saved by (simp add: Let_def run_gets check_run)
qed

lemma ok_send: "keeps_ok E (send_messages_view D k t u)"
  unfolding send_messages_view_def by (rule view_keeps_ok) (simp add: check_run ok_message)

lemma ok_send_media: "keeps_ok E (send_media_messages_view D k t media u)"
proof (rule ok_run(2))
  have "discussions_ok E (snd (create_message_with_media env x u t m d))" if "discussions_ok E d" for env x t m d
    using that ok_notify [of E "d\<lparr>d_messages := ms\<rparr>" for ms]
    by (simp add: create_message_with_media_def Let_def run_gets check_run run_modify)
  then have "keeps_ok E (bnd (get_discussion k Send_Messages u)
      (\<lambda>x. create_message_with_media (den_env D) x u (map_option strip t) (strip (fst media), snd media)))"
    by (intro view_keeps_ok) simp
  then show "discussions_ok E (snd (send_media_messages_view D k t media u d))" if "discussions_ok E d" for d
    using that by (simp add: send_media_messages_view_def check_run ok_run(1))
qed

text \<open>Requests in any order; in between the rest of the database changes as it likes.\<close>

datatype discussion_step =
    Create_Discussion uuid discussion_request email
  | Add_Agent uuid email email
  | Destroy uuid email
  | Update uuid "uuid option" "uuid option" email
  | Send uuid string email
  | Send_Media uuid "string option" "string \<times> string" email
  | Elsewhere world

fun run_discussion_step :: "discussion_env \<Rightarrow> discussion_step \<Rightarrow> ddb \<Rightarrow> ddb" where
  "run_discussion_step D (Create_Discussion k rq u) d = snd (create_discussion_view D k rq u d)"
| "run_discussion_step D (Add_Agent k e u) d = snd (add_agents_view D k e u d)"
| "run_discussion_step D (Destroy k u) d = snd (destroy_discussion_view D k u d)"
| "run_discussion_step D (Update k n r u) d = snd (update_discussion_view k n r u d)"
| "run_discussion_step D (Send k t u) d = snd (send_messages_view D k t u d)"
| "run_discussion_step D (Send_Media k t m u) d = snd (send_media_messages_view D k t m u d)"
| "run_discussion_step D (Elsewhere w) d = d\<lparr>d_world := w\<rparr>"

text \<open>The keys under which updates save copies.\<close>

fun copy_keys :: "discussion_step \<Rightarrow> uuid list" where
  "copy_keys (Update k (Some n) r u) = (if n = k then [] else [n])"
| "copy_keys _ = []"

lemma ok_step:
  assumes "discussions_ok E d" and "set (copy_keys x) \<subseteq> E"
  shows "discussions_ok E (run_discussion_step D x d)"
proof (cases x)
  case (Update k key r u)
  have "keeps_ok E (update_discussion_view k key r u)"
    using assms(2) Update by (intro ok_update) auto
  with assms(1) Update show ?thesis by (simp add: ok_run(1))
qed (use assms(1) in \<open>simp_all add: ok_open_view ok_add_agents ok_destroy ok_send ok_send_media ok_run(1)\<close>)

text \<open>C27. Whatever requests follow each other, and whatever happens in the other tables, a room never has two active
  discussions, nobody is in a discussion twice, and a discussion waits in its queue exactly while fewer than two people
  are in it. The last does not hold of a copy that an update saved by naming another key, and of such copies only.\<close>

theorem discussions_stay_consistent:
  assumes "discussions_ok {} d"
  shows "discussions_ok (set (concat (map copy_keys steps))) (fold (run_discussion_step D) steps d)"
proof -
  have "set (concat (map copy_keys xs)) \<subseteq> E \<Longrightarrow> discussions_ok E d \<Longrightarrow> discussions_ok E (fold (run_discussion_step D) xs d)"
    for E xs and d
  proof (induction xs arbitrary: d)
    case (Cons x xs)
    then have "discussions_ok E (run_discussion_step D x d)" by (intro ok_step) auto
    with Cons show ?case by simp
  qed simp
  then show ?thesis using ok_exempt [OF assms] by simp
qed

text \<open>A copy keeps the flags of its row and takes none of its members: of a discussion with two people it is one that
  waits in no queue and has nobody in it.\<close>

lemma update_copies_discussion:
  assumes "find_discussion d k = Some x" and "action_allowed d x Update_Discussion u" and "n \<notin> dis_uuid ` set (discussions d)"
    and "find_room (d_world d) r \<noteq> None" and "\<not> room_taken d (x\<lparr>dis_uuid := n, dis_room := r\<rparr>)"
  shows "update_discussion_view k (Some n) (Some r) u d =
    (Inr (), d\<lparr>discussions := discussions d @ [x\<lparr>dis_uuid := n, dis_room := r\<rparr>]\<rparr>)"
proof -
  have "get_discussion k Update_Discussion u d = (Inr x, d)"
    using assms(1,2) by (simp add: get_discussion_def d_need_run run_gets ret_def)
  moreover have "find_discussion d n = None"
    using assms(3) by (auto simp: find_discussion_def find_None_iff)
  ultimately show ?thesis
    using assms(3-5) by (simp add: update_discussion_view_def Let_def bnd_def gets_def check_run save_discussion_def)
qed

section \<open>Adding people\<close>

lemma add_user_steps:
  "add_user_to_discussion D x e f d = (let u = map lower_char e in
     if \<not> den_user_exists D u then (Inl (DoesNotExist ''User''), d)
     else if is_added_user d x u then (Inl (ValidationError ''already added to this discussion''), d)
     else case create_discussion_user D x f u None d of
         (Inl err, t) \<Rightarrow> (Inl (if err = RuntimeError ''UserProjectPermissionNotFound''
            then ValidationError ''not found in the project'' else err), t)
       | (Inr (x', added), t) \<Rightarrow> (case added of None \<Rightarrow> (Inl AttributeError, t)
           | Some m \<Rightarrow> andthen (create_discussion_feedback (den_env D) x' [(''user'', JStr (user_first_name (den_env D) u))] ''da'' True)
               (ret m) t))"
  by (simp add: add_user_to_discussion_def Let_def check_run gets_def raise_def bnd_def try_except_def
      split: prod.split sum.split option.split)

lemma add_user_outcome:
  assumes "discussions_ok E d" and "x \<in> set (discussions d)" and "add_user_to_discussion D x e f d = (r, d')"
  shows "case r of Inl err \<Rightarrow> d' = d
    | Inr m \<Rightarrow> \<exists>p q. discussion_permission d x f = Some p \<and> discussion_permission d x (map lower_char e) = Some q \<and>
        \<not> is_added_user d x (map lower_char e) \<and> can_add_user (den_limit D) d x p \<and> m = new_member x q None \<and>
        d_users d' = d_users d @ [m] \<and> discussions d' = put (joined_row d x) (discussions d)"
proof -
  let ?u = "map lower_char e"
  obtain c t where c: "create_discussion_user D x f ?u None d = (c, t)" by force
  show ?thesis
  proof (cases "\<exists>p q. discussion_permission d x f = Some p \<and> discussion_permission d x ?u = Some q \<and> can_add_user (den_limit D) d x p \<and>
      \<not> list_ex (\<lambda>n. dus_discussion n = dis_uuid x \<and> dus_permission n = prm_uuid q) (d_users d)")
    case False
    then have "case discussion_permission d x f of None \<Rightarrow> True | Some p \<Rightarrow> (case discussion_permission d x ?u of None \<Rightarrow> True
        | Some q \<Rightarrow> \<not> can_add_user (den_limit D) d x p \<or>
            list_ex (\<lambda>n. dus_discussion n = dis_uuid x \<and> dus_permission n = prm_uuid q) (d_users d))"
      by (auto split: option.split)
    note refused = create_discussion_user_refused [OF this, where role = None]
    have "t = d" "\<And>y. c = Inr y \<Longrightarrow> y = (x, None)" using refused c by auto
    then show ?thesis
      using assms(3) c by (cases c) (auto simp: add_user_steps Let_def split: if_splits)
  next
    case True
    then obtain p q where pq: "discussion_permission d x f = Some p" "discussion_permission d x ?u = Some q"
      "can_add_user (den_limit D) d x p"
      "\<not> list_ex (\<lambda>n. dus_discussion n = dis_uuid x \<and> dus_permission n = prm_uuid q) (d_users d)" by blast
    let ?m = "new_member x q None"
    have made: "c = Inr (joined_row d x, Some ?m)" "talks (join x ?m d) t"
      using create_discussion_user_run [OF _ assms(2) pq, of None] assms(1) c by (auto simp: discussions_ok_def)
    obtain d2 msg where told: "create_discussion_feedback (den_env D) (joined_row d x)
        [(''user'', JStr (user_first_name (den_env D) ?u))] ''da'' True t = (Inr (), d2)"
      "talks (t\<lparr>d_messages := d_messages t @ [msg]\<rparr>) d2"
      unfolding create_discussion_feedback_def using create_discussion_message_run by blast
    show ?thesis
      using assms(3) c made(1) told(1) pq talks_tables [OF made(2)] talks_tables [OF told(2)]
      by (auto simp: add_user_steps Let_def andthen_def bnd_def ret_def join_def split: if_splits)
  qed
qed

text \<open>A request to add somebody to a discussion either changes nothing at all, or adds exactly one person of the
  project who was not in it. Then the requester manages the project, opened the discussion, or joined it himself while it
  had fewer than two people; only a manager takes it over the limit; and with the second person it leaves its queue.\<close>

theorem add_agents_outcome:
  assumes "discussions_ok E d" and "add_agents_view D k e u d = (r, d')"
  shows "case r of Inl err \<Rightarrow> d' = d
    | Inr m \<Rightarrow> \<exists>x p q. find_discussion d k = Some x \<and> discussion_permission d x u = Some p \<and>
        discussion_permission d x (map lower_char e) = Some q \<and> \<not> is_added_user d x (map lower_char e) \<and>
        (is_admin_manager_or_creator d x u \<or> length (added_users d k) < 2 \<and> e = u) \<and>
        (perm_is_any_manager (d_world d) p \<or> length (added_users d k) < den_limit D) \<and>
        m = new_member x q None \<and> d_users d' = d_users d @ [m] \<and>
        discussions d' = put (dequeued (Suc (length (added_users d k))) x) (discussions d)"
proof -
  obtain g t where g: "get_discussion k (Add_Agents e) u d = (g, t)" by force
  have t: "t = d" using get_discussion_run(1) [of k "Add_Agents e" u d] g by simp
  show ?thesis
  proof (cases g)
    case (Inl err)
    then show ?thesis using assms(2) g t by (auto simp: add_agents_view_def bnd_def)
  next
    case (Inr x)
    then have x: "find_discussion d k = Some x" "action_allowed d x (Add_Agents e) u"
      using get_discussion_run(2) [of k "Add_Agents e" u d x] g by auto
    then have key: "dis_uuid x = k" "x \<in> set (discussions d)" using found_row by auto
    have "add_user_to_discussion D x e u d = (r, d')"
      using assms(2) g t Inr by (simp add: add_agents_view_def bnd_def)
    from add_user_outcome [OF assms(1) key(2) this] show ?thesis
      using x key(1) by (auto simp: action_allowed_def can_add_user_def joined_row_def split: sum.splits)
  qed
qed

text \<open>At the limit \<open>create_discussion_user\<close> gives nothing back, and the use case reads the name of nothing.\<close>

lemma full_discussion_crashes:
  assumes "find_discussion d k = Some x" and "is_admin_manager_or_creator d x u"
    and "discussion_permission d x u = Some p" and "\<not> perm_is_any_manager (d_world d) p" and "den_limit D \<le> length (added_users d k)"
    and "discussion_permission d x (map lower_char e) \<noteq> None" and "den_user_exists D (map lower_char e)"
    and "\<not> is_added_user d x (map lower_char e)"
  shows "add_agents_view D k e u d = (Inl AttributeError, d)"
proof -
  have "get_discussion k (Add_Agents e) u d = (Inr x, d)"
    using assms(1,2) by (simp add: get_discussion_def d_need_run run_gets action_allowed_def ret_def)
  moreover have "create_discussion_user D x u (map lower_char e) None d = (Inr (x, None), d)"
    using assms(3-6) found_row [OF assms(1)]
    by (auto simp: create_discussion_user_def d_need_run run_gets can_add_user_def ret_def)
  ultimately show ?thesis
    using assms(7,8) by (simp add: add_agents_view_def add_user_steps bnd_def)
qed

section \<open>A request of somebody outside the project\<close>

lemma active_room_conflict:
  assumes "x \<in> set (discussions d)" and "dis_is_active x" "\<not> dis_is_deleted x" "dis_room x = dre_room rq"
  shows "\<exists>e. create_discussion_view D k rq u d = (Inl e, d)"
proof -
  have "list_ex (\<lambda>y. dis_room y = dre_room rq \<and> dis_is_active y \<and> \<not> dis_is_deleted y) (discussions d)"
    using assms by (auto simp: list_ex_iff)
  then show ?thesis by (simp add: create_discussion_view_def run_gets check_run)
qed

text \<open>C28. Anyone who is logged in may open a discussion of a closed room, even outside its project. The request fails
  because the requester has no permission there, but it leaves behind an active discussion with nobody in it and the
  message of the requester, and from then on no discussion of the room can be opened by anyone.\<close>

theorem outsider_blocks_room:
  assumes "find_room (d_world d) (dre_room rq) = Some r" and "\<not> rm_is_active r" and "rm_user r \<noteq> Some u"
    and "project_of (d_world d) r = Some prj" and "project_get_permission (d_world d) (prj_uuid prj) (Some u) = None"
    and "discussion_fields_ok d rq" and "Option.bind (find_queue (d_world d) (dre_queue rq)) (project_of_queue (d_world d)) = Some prj"
    and "\<forall>x \<in> set (discussions d). \<not> (dis_is_active x \<and> dis_room x = dre_room rq)" and "k \<notin> dis_uuid ` set (discussions d)"
    and "discussions_ok E d"
  shows "\<exists>d'. create_discussion_view D k rq u d = (Inl (RuntimeError ''UserProjectPermissionNotFound''), d') \<and>
     opened k rq u \<in> set (discussions d') \<and> added_users d' k = [] \<and> length (d_messages d') = length (d_messages d) + 2 \<and>
     (\<forall>k' rq' u'. dre_room rq' = dre_room rq \<longrightarrow> (\<exists>e. create_discussion_view D k' rq' u' d' = (Inl e, d')))"
proof -
  let ?x = "opened k rq u"
  let ?d1 = "d\<lparr>discussions := discussions d @ [?x]\<rparr>"
  have may: "may_create_discussion (d_world d) (dre_room rq) u"
    using assms(1-5) by (simp add: may_create_discussion_def can_create_discussion_def room_get_permission_def bnd_def
        need_def gets_def ret_def)
  have free: "\<not> list_ex (\<lambda>x. dis_room x = dre_room rq \<and> dis_is_active x \<and> \<not> dis_is_deleted x) (discussions d)"
    using assms(8) by (auto simp: list_ex_iff)
  have view: "create_discussion_view D k rq u d = create_discussion D k rq u d"
    using may free assms(6) by (simp add: create_discussion_view_def run_gets check_run)
  have "insert_discussion ?x d = (Inr (), ?d1)"
    using assms(8,9) by (auto simp: insert_discussion_def room_taken_def list_ex_iff opened_def)
  moreover have "validate_queue_and_room d rq = Some True" "find_queue (d_world d) (dre_queue rq) \<noteq> None"
    using assms(1,4,7) by (auto simp: validate_queue_and_room_def bind_eq_Some_conv)
  ultimately obtain d2 where d2: "discussions d2 = discussions ?d1" "d_users d2 = d_users d" "d_world d2 = d_world d"
    "length (d_messages d2) = length (d_messages d) + 2"
    "create_discussion D k rq u d = bnd (create_discussion_user D ?x u u (Some 0))
      (\<lambda>(x', _). andthen (notify_discussion (den_env D) x' ''discussions.create'') (ret k)) d2"
    using create_discussion_run [of k rq u d ?d1 D] by metis
  have "discussion_permission d2 ?x u = None"
    using assms(5,7) d2(3) by (simp add: discussion_permission_def opened_def)
  then have failed: "create_discussion_view D k rq u d = (Inl (RuntimeError ''UserProjectPermissionNotFound''), d2)"
    unfolding view d2(5) by (simp add: create_discussion_user_def d_need_run bnd_def d_need_def)
  have there: "?x \<in> set (discussions d2)" by (simp add: d2(1))
  have "added_users d2 k = []"
    using assms(9,10) d2(2) by (auto simp: discussions_ok_def added_users_def filter_empty_conv)
  moreover have "\<exists>e. create_discussion_view D k' rq' u' d2 = (Inl e, d2)" if "dre_room rq' = dre_room rq" for k' rq' u'
    using that by (intro active_room_conflict [OF there]) (simp_all add: opened_def)
  ultimately show ?thesis using failed there d2(4) by blast
qed

section \<open>Examples\<close>

definition closed_room_world :: ddb where
  "closed_room_world = \<lparr>d_world = small_world\<lparr>rooms := [blank_room\<lparr>rm_queue := Some ''q'', rm_is_active := False\<rparr>]\<rparr>,
     discussions = [], d_users = [], d_messages = []\<rparr>"

definition calm_discussions :: discussion_env where
  "calm_discussions = \<lparr>den_env = calm_env, den_limit = 5, den_user_exists = (\<lambda>_. True)\<rparr>"

definition question :: discussion_request where
  "question = \<lparr>dre_room = ''r1'', dre_queue = ''q'', dre_subject = ''help'', dre_initial_message = Some ''hi''\<rparr>"

lemma nothing_yet: "discussions_ok {} closed_room_world"
  by (simp add: closed_room_world_def discussions_ok_def rows_ok_def)

definition copying_steps :: "discussion_step list" where
  "copying_steps = [Create_Discussion ''d1'' question ''a@x'', Add_Agent ''d1'' ''a@x'' ''a@x'', Destroy ''d1'' ''a@x'',
     Update ''d1'' (Some ''d2'') None ''a@x'', Elsewhere empty_world]"

theorem discussions_stay_consistent_witness:
  "discussions_ok {''d2''} (fold (run_discussion_step calm_discussions) copying_steps closed_room_world) \<and>
   length (discussions (fold (run_discussion_step calm_discussions) copying_steps closed_room_world)) = 2"
proof -
  have "length (discussions (fold (run_discussion_step calm_discussions) copying_steps closed_room_world)) = 2" by code_simp
  then show ?thesis
    using discussions_stay_consistent [OF nothing_yet, of copying_steps calm_discussions]
    by (simp add: copying_steps_def)
qed

theorem outsider_blocks_room_witness:
  "\<exists>d'. create_discussion_view calm_discussions ''d1'' question ''z@y'' closed_room_world =
     (Inl (RuntimeError ''UserProjectPermissionNotFound''), d') \<and> added_users d' ''d1'' = []"
  using outsider_blocks_room [of closed_room_world question "blank_room\<lparr>rm_queue := Some ''q'', rm_is_active := False\<rparr>"
      "''z@y''" blank_project "''d1''" "{}" calm_discussions, OF _ _ _ _ _ _ _ _ _ nothing_yet]
  by (auto simp: closed_room_world_def question_def sample_defs find_room_def project_of_def sector_of_def queue_of_def
      find_queue_def sector_of_queue_def find_sector_def project_of_sector_def find_project_def project_get_permission_def
      discussion_fields_ok_def strip_def is_space_def project_of_queue_def)

definition shared_discussion :: ddb where
  "shared_discussion = \<lparr>d_world = small_world\<lparr>permissions := [blank_permission, blank_permission\<lparr>prm_uuid := ''m2'', prm_user := Some ''b@x''\<rparr>]\<rparr>,
     discussions = [opened ''d1'' question ''a@x''],
     d_users = [\<lparr>dus_discussion = ''d1'', dus_permission = ''m1'', dus_role = 0\<rparr>], d_messages = []\<rparr>"

lemma shared_ok: "discussions_ok {} shared_discussion"
  by (simp add: shared_discussion_def discussions_ok_def rows_ok_def added_users_def opened_def)

theorem add_agents_outcome_witness:
  "length (d_users (snd (add_agents_view calm_discussions ''d1'' ''b@x'' ''a@x'' shared_discussion))) = 2"
proof -
  let ?run = "add_agents_view calm_discussions ''d1'' ''b@x'' ''a@x'' shared_discussion"
  have "\<not> isl (fst ?run)" by code_simp
  then obtain m where "?run = (Inr m, snd ?run)" by (cases "fst ?run") (auto simp: prod_eq_iff)
  from add_agents_outcome [OF shared_ok this] have "\<exists>n. d_users (snd ?run) = d_users shared_discussion @ [n]" by auto
  then show ?thesis by (auto simp: shared_discussion_def)
qed

end
