(* ===== verification/Group_Sectors.thy ===== *)
theory Group_Sectors
  imports Queue_Routing
begin

text \<open>
  Groups of sectors: the use cases of \<open>chats/apps/sectors/usecases/group_sector_authorization.py\<close> with the view sets
  of \<open>chats/apps/api/v1/groups_sectors/viewsets.py\<close>, and the signal of \<open>chats/apps/projects/models/signals.py\<close> that
  removes the authorizations of a permission.

  \<^item> \<open>group_members\<close> holds the rows of \<open>SectorGroupSector\<close>, without their own keys; the authorizations of a group
    are a table of their own beside the world, so the state is the record \<open>gdb\<close>.
  \<^item> \<open>QuerySet.delete\<close> removes rows; the related managers it runs on show only rows that are not deleted, of
    permissions that are not deleted.
  \<^item> \<open>role_arg\<close> is the role of a request: a number, or a string that \<open>int\<close> reads as one.
\<close>

record group_auth =
  gau_group :: uuid
  gau_permission :: uuid
  gau_role :: nat

record gdb =
  g_world :: world
  g_auths :: "group_auth list"

definition on_world :: "(world, 'a) py \<Rightarrow> (gdb, 'a) py" where
  "on_world m s = (case m (g_world s) of (r, w) \<Rightarrow> (r, s\<lparr>g_world := w\<rparr>))"

text \<open>\<open>transaction.atomic\<close> over both parts of the state.\<close>

definition g_atomic :: "(gdb, 'a) py \<Rightarrow> (gdb, 'a) py" where
  "g_atomic m s = (case m s of
     (Inl e, s') \<Rightarrow> (Inl e, s\<lparr>g_world := rollback (g_world s) (g_world s')\<rparr>)
   | (Inr x, s') \<Rightarrow> (Inr x, s'))"

definition g_need :: "exn \<Rightarrow> (gdb \<Rightarrow> 'a option) \<Rightarrow> (gdb, 'a) py" where
  "g_need e f s = (case f s of None \<Rightarrow> (Inl e, s) | Some x \<Rightarrow> (Inr x, s))"

section \<open>Authorizations of sectors and queues\<close>

text \<open>\<open>Sector.set_user_authorization\<close>, \<open>Queue.set_user_authorization\<close>: \<open>get_or_create\<close> through the related manager,
  with the constraint of one row that is not deleted per permission.\<close>

definition sector_set_user_authorization :: "uuid \<Rightarrow> uuid \<Rightarrow> (world, unit) py" where
  "sector_set_user_authorization s p w =
     (if list_ex (\<lambda>a. sau_sector a = s \<and> sau_permission a = p \<and> sau_role a = 1) (live_sector_auths w) then (Inr (), w)
      else if list_ex (\<lambda>a. sau_sector a = s \<and> sau_permission a = p \<and> \<not> sau_is_deleted a) (sector_auths w)
      then (Inl (IntegrityError ''unique_sector_auth''), w)
      else (Inr (), w\<lparr>sector_auths := sector_auths w @
        [\<lparr>sau_permission = p, sau_sector = s, sau_role = 1, sau_is_deleted = False\<rparr>]\<rparr>))"

definition queue_set_user_authorization :: "uuid \<Rightarrow> uuid \<Rightarrow> (world, unit) py" where
  "queue_set_user_authorization q p w =
     (if list_ex (\<lambda>a. qau_queue a = q \<and> qau_permission a = p \<and> qau_role a = 1) (live_queue_auths w) then (Inr (), w)
      else if list_ex (\<lambda>a. qau_queue a = q \<and> qau_permission a = p \<and> \<not> qau_is_deleted a) (queue_auths w)
      then (Inl (IntegrityError ''unique_queue_auth''), w)
      else (Inr (), w\<lparr>queue_auths := queue_auths w @
        [\<lparr>qau_queue = q, qau_role = 1, qau_permission = p, qau_is_deleted = False\<rparr>]\<rparr>))"

definition delete_sector_auths :: "uuid \<Rightarrow> uuid \<Rightarrow> (world, unit) py" where
  "delete_sector_auths s p = modify (\<lambda>w. w\<lparr>sector_auths := filter (\<lambda>a. \<not> (sau_sector a = s \<and> sau_permission a = p \<and>
     sau_role a = 1 \<and> \<not> sau_is_deleted a \<and> \<not> permission_row_deleted w (sau_permission a))) (sector_auths w)\<rparr>)"

definition delete_queue_auths :: "uuid \<Rightarrow> uuid \<Rightarrow> (world, unit) py" where
  "delete_queue_auths q p = modify (\<lambda>w. w\<lparr>queue_auths := filter (\<lambda>a. \<not> (qau_queue a = q \<and> qau_permission a = p \<and>
     qau_role a = 1 \<and> \<not> qau_is_deleted a \<and> \<not> permission_row_deleted w (qau_permission a))) (queue_auths w)\<rparr>)"

section \<open>The sectors and the people of a group\<close>

definition sectors_of_group :: "world \<Rightarrow> uuid \<Rightarrow> uuid list" where
  "sectors_of_group w g = map sec_uuid
     (filter (\<lambda>s. \<not> sec_is_deleted s \<and> (g, sec_uuid s) \<in> set (group_members w)) (sectors w))"

definition queues_of_sector :: "world \<Rightarrow> uuid \<Rightarrow> uuid list" where
  "queues_of_sector w s = map que_uuid (filter (\<lambda>q. que_sector q = s) (live_queues w))"

definition queues_of_group :: "world \<Rightarrow> uuid \<Rightarrow> uuid list" where
  "queues_of_group w g = concat (map (queues_of_sector w) (sectors_of_group w g))"

definition people_of_group :: "gdb \<Rightarrow> uuid \<Rightarrow> nat \<Rightarrow> uuid list" where
  "people_of_group s g role = map gau_permission (filter (\<lambda>a. gau_group a = g \<and> gau_role a = role) (g_auths s))"

definition live_group :: "world \<Rightarrow> uuid \<Rightarrow> group_sector option" where
  "live_group w g = find (\<lambda>x. gse_uuid x = g \<and> \<not> gse_is_deleted x) (group_sectors w)"

definition live_permission :: "world \<Rightarrow> uuid \<Rightarrow> permission option" where
  "live_permission w p = find (\<lambda>x. prm_uuid x = p) (live_permissions w)"

section \<open>Authorizations of a group\<close>

datatype role_arg = Int_Role nat | Str_Role nat

definition role_number :: "role_arg \<Rightarrow> nat" where
  "role_number r = (case r of Int_Role n \<Rightarrow> n | Str_Role n \<Rightarrow> n)"

definition create_group_row :: "group_auth \<Rightarrow> (gdb, unit) py" where
  "create_group_row a s = (if a \<in> set (g_auths s) then (Inl (IntegrityError ''unique_group_sector_auth''), s)
     else (Inr (), s\<lparr>g_auths := g_auths s @ [a]\<rparr>))"

text \<open>\<open>GroupSectorAuthorizationCreationUseCase\<close>: the role is checked as a number, and compared as it came.\<close>

definition write_group_authorization :: "uuid \<Rightarrow> uuid \<Rightarrow> role_arg \<Rightarrow> (gdb, unit) py" where
  "write_group_authorization g p role =
       (if role_number role \<notin> {1, 2} then raise (ValueError ''Invalid role'')
        else try_except
          (bnd (gets g_world) (\<lambda>w.
           andthen (if role = Int_Role 1
              then on_world (for_each (\<lambda>k. sector_set_user_authorization k p) (sectors_of_group w g))
              else if role = Int_Role 2
              then on_world (for_each (\<lambda>k. queue_set_user_authorization k p) (queues_of_group w g))
              else ret ())
            (create_group_row \<lparr>gau_group = g, gau_permission = p, gau_role = role_number role\<rparr>)))
          (\<lambda>_. raise (ValueError ''group sector authorization'')))"

definition create_group_authorization :: "uuid \<Rightarrow> uuid \<Rightarrow> role_arg \<Rightarrow> (gdb, unit) py" where
  "create_group_authorization g p role =
     andthen (g_need (ValueError ''Group sector or permission not found'') (\<lambda>s. live_group (g_world s) g))
     (andthen (g_need (ValueError ''Group sector or permission not found'') (\<lambda>s. live_permission (g_world s) p))
     (g_atomic (write_group_authorization g p role)))"

text \<open>\<open>GroupSectorAuthorizationDeletionUseCase\<close>.\<close>

definition delete_group_authorization :: "group_auth \<Rightarrow> (gdb, unit) py" where
  "delete_group_authorization a =
     bnd (gets g_world) (\<lambda>w.
     andthen (if gau_role a = 1
        then on_world (for_each (\<lambda>k. delete_sector_auths k (gau_permission a)) (sectors_of_group w (gau_group a)))
        else if gau_role a = 2
        then on_world (for_each (\<lambda>k. delete_queue_auths k (gau_permission a)) (queues_of_group w (gau_group a)))
        else ret ())
      (modify (\<lambda>s. s\<lparr>g_auths := filter (\<lambda>x. x \<noteq> a) (g_auths s)\<rparr>)))"

section \<open>Sectors of a group\<close>

definition project_sector :: "world \<Rightarrow> uuid \<Rightarrow> uuid \<Rightarrow> sector option" where
  "project_sector w s prj = find (\<lambda>x. sec_uuid x = s \<and> \<not> sec_is_deleted x \<and> sec_project x = prj) (sectors w)"

text \<open>\<open>exclude(uuid=self.group_sector.uuid)\<close> compares the key of a row of the relation with the key of a group, so it
  excludes no row: a sector of the same group counts as one of another.\<close>

definition in_another_group :: "world \<Rightarrow> uuid \<Rightarrow> bool" where
  "in_another_group w s = list_ex (\<lambda>m. snd m = s) (group_members w)"

definition add_member :: "uuid \<Rightarrow> uuid \<Rightarrow> (world, unit) py" where
  "add_member g s = modify (\<lambda>w. w\<lparr>group_members := group_members w @ [(g, s)]\<rparr>)"

definition remove_member :: "uuid \<Rightarrow> uuid \<Rightarrow> (world, unit) py" where
  "remove_member g s = modify (\<lambda>w. w\<lparr>group_members := filter (\<lambda>m. m \<noteq> (g, s)) (group_members w)\<rparr>)"

text \<open>\<open>AddSectorToGroupSectorUseCase\<close>; \<open>_create_queue_permissions\<close> is defined there and not called.\<close>

definition add_sector :: "uuid \<Rightarrow> group_sector \<Rightarrow> (gdb, unit) py" where
  "add_sector s grp =
     andthen (g_need (DoesNotExist ''Sector not found in project'') (\<lambda>d. project_sector (g_world d) s (gse_project grp)))
     (g_atomic (bnd (gets (\<lambda>d. in_another_group (g_world d) s)) (\<lambda>other.
       if other then raise (ValueError ''Sector is already in another group sector'')
       else bnd (gets (\<lambda>d. s \<in> set (sectors_of_group (g_world d) (gse_uuid grp)))) (\<lambda>inside.
         if inside then raise (ValueError ''Sector already in group sector'')
         else andthen (on_world (add_member (gse_uuid grp) s))
           (bnd (gets (\<lambda>d. people_of_group d (gse_uuid grp) 1))
             (\<lambda>ps. on_world (for_each (sector_set_user_authorization s) ps)))))))"

text \<open>\<open>RemoveSectorFromGroupSectorUseCase\<close>.\<close>

definition delete_sector_permissions :: "uuid \<Rightarrow> uuid \<Rightarrow> (gdb, unit) py" where
  "delete_sector_permissions s g =
     bnd (gets (\<lambda>d. people_of_group d g 1)) (\<lambda>ps. on_world (for_each (delete_sector_auths s) ps))"

definition delete_queue_permissions :: "uuid \<Rightarrow> uuid \<Rightarrow> (gdb, unit) py" where
  "delete_queue_permissions s g =
     bnd (gets (\<lambda>d. (people_of_group d g 2, queues_of_sector (g_world d) s)))
       (\<lambda>(ps, qs). on_world (for_each (\<lambda>p. for_each (\<lambda>q. delete_queue_auths q p) qs) ps))"

definition remove_sector :: "uuid \<Rightarrow> group_sector \<Rightarrow> (gdb, unit) py" where
  "remove_sector s grp = g_atomic
     (andthen (g_need (DoesNotExist ''Sector not found in project'') (\<lambda>d. project_sector (g_world d) s (gse_project grp)))
     (andthen (delete_sector_permissions s (gse_uuid grp))
     (andthen (delete_queue_permissions s (gse_uuid grp))
     (bnd (gets (\<lambda>d. s \<in> set (sectors_of_group (g_world d) (gse_uuid grp)))) (\<lambda>inside.
      if inside then on_world (remove_member (gse_uuid grp) s)
      else raise (ValueError ''Sector not found in group sector''))))))"

text \<open>\<open>perform_destroy\<close> of the group view set.\<close>

definition destroy_group :: "group_sector \<Rightarrow> (gdb, unit) py" where
  "destroy_group grp =
     bnd (gets (\<lambda>d. sectors_of_group (g_world d) (gse_uuid grp))) (\<lambda>ss.
     andthen (for_each (\<lambda>s. remove_sector s grp) ss)
       (on_world (modify (\<lambda>w. w\<lparr>group_sectors :=
          update_where (\<lambda>x. gse_uuid x = gse_uuid grp) (\<lambda>x. x\<lparr>gse_is_deleted := True\<rparr>) (group_sectors w)\<rparr>))))"

section \<open>Queues of agents\<close>

text \<open>\<open>QueueGroupSectorAuthorizationCreationUseCase\<close>, when a queue is created.\<close>

definition authorize_new_queue :: "queue \<Rightarrow> (gdb, unit) py" where
  "authorize_new_queue q = g_atomic
     (bnd (gets (\<lambda>d. concat (map (\<lambda>m. people_of_group d (fst m) 2)
          (filter (\<lambda>m. snd m = que_sector q) (group_members (g_world d)))))) (\<lambda>ps.
      on_world (for_each (queue_set_user_authorization (que_uuid q)) ps)))"

text \<open>\<open>UpdateAgentQueueAuthorizationsUseCase\<close>. \<open>bulk_create\<close> ignores the rows that break the constraint.\<close>

definition bulk_create_auth :: "uuid \<Rightarrow> uuid \<Rightarrow> world \<Rightarrow> world" where
  "bulk_create_auth p q w =
     (if list_ex (\<lambda>a. qau_queue a = q \<and> qau_permission a = p \<and> \<not> qau_is_deleted a) (queue_auths w) then w
      else w\<lparr>queue_auths := queue_auths w @
        [\<lparr>qau_queue = q, qau_role = 1, qau_permission = p, qau_is_deleted = False\<rparr>]\<rparr>)"

definition enable_queues :: "uuid \<Rightarrow> uuid list \<Rightarrow> world \<Rightarrow> world" where
  "enable_queues p enable w =
     (let missing = filter (\<lambda>q. \<not> list_ex (\<lambda>a. qau_queue a = q \<and> qau_permission a = p) (live_queue_auths w)) enable in
      fold (bulk_create_auth p) (map que_uuid (filter (\<lambda>q. que_uuid q \<in> set missing) (live_queues w))) w)"

definition disable_queues :: "uuid \<Rightarrow> uuid list \<Rightarrow> world \<Rightarrow> world" where
  "disable_queues p disable w = w\<lparr>queue_auths := filter (\<lambda>a. \<not> (qau_permission a = p \<and> qau_queue a \<in> set disable \<and>
     \<not> qau_is_deleted a \<and> \<not> permission_row_deleted w (qau_permission a))) (queue_auths w)\<rparr>"

definition update_agent_queues :: "uuid \<Rightarrow> uuid \<Rightarrow> uuid list \<Rightarrow> uuid list \<Rightarrow> (gdb, unit) py" where
  "update_agent_queues g p enabled disabled =
     bnd (g_need (ValueError ''Group sector or permission not found'') (\<lambda>s. live_group (g_world s) g)) (\<lambda>grp.
     bnd (g_need (ValueError ''Group sector or permission not found'') (\<lambda>s. live_permission (g_world s) p)) (\<lambda>prm.
     if prm_project prm \<noteq> gse_project grp then raise (ValueError ''Permission does not belong to the GroupSector project'')
     else on_world (modify (\<lambda>w. let allowed = set (queues_of_group w g) in
       disable_queues p (filter (\<lambda>q. q \<in> allowed) disabled)
         (enable_queues p (filter (\<lambda>q. q \<in> allowed) enabled) w)))))"

text \<open>The view: with lists of queues only agents are accepted, and their row is written before the use case runs.\<close>

definition create_authorization_view ::
  "uuid \<Rightarrow> uuid \<Rightarrow> role_arg \<Rightarrow> uuid list \<Rightarrow> uuid list \<Rightarrow> (gdb, unit) py" where
  "create_authorization_view g p role enabled disabled =
     (if enabled = [] \<and> disabled = [] then create_group_authorization g p role
      else if role_number role \<noteq> 2 then raise (ValidationError ''supported only for agent role'')
      else andthen (g_need (IntegrityError ''group_sector_id'') (\<lambda>s. find (\<lambda>x. gse_uuid x = g) (group_sectors (g_world s))))
        (andthen (g_need (IntegrityError ''permission_id'') (\<lambda>s. find_permission_pk (g_world s) p))
        (andthen (modify (\<lambda>s. let a = \<lparr>gau_group = g, gau_permission = p, gau_role = 2\<rparr> in
          if a \<in> set (g_auths s) then s else s\<lparr>g_auths := g_auths s @ [a]\<rparr>))
        (update_agent_queues g p enabled disabled))))"

text \<open>\<open>handle_permission_soft_delete\<close>: the permission is deleted, its authorizations of sectors and queues with it.\<close>

definition remove_permission :: "permission \<Rightarrow> (world, unit) py" where
  "remove_permission p = andthen
     (modify (\<lambda>w. w\<lparr>permissions := update_where (\<lambda>x. prm_uuid x = prm_uuid p) (\<lambda>x. x\<lparr>prm_is_deleted := True\<rparr>) (permissions w)\<rparr>))
     (case (prm_is_deleted p, prm_user p) of (True, _) \<Rightarrow> ret () | (_, None) \<Rightarrow> ret ()
      | (_, Some u) \<Rightarrow> andthen (emit (Enqueued ''requeue_agent_rooms_task'' [u, prm_project p]))
          (modify (\<lambda>w. w\<lparr>sector_auths := filter (\<lambda>a. sau_permission a \<noteq> prm_uuid p) (sector_auths w),
             queue_auths := filter (\<lambda>a. qau_permission a \<noteq> prm_uuid p) (queue_auths w)\<rparr>)))"

section \<open>The contract of a table of authorizations\<close>

text \<open>What the use cases need of a table: granting keeps what others hold and gives the authorization to a permission
  that is not deleted; revoking takes away exactly one; neither touches the rest of the world, which is \<open>rest\<close>.\<close>

locale auth_table =
  fixes grant :: "uuid \<Rightarrow> uuid \<Rightarrow> (world, unit) py"
    and revoke :: "uuid \<Rightarrow> uuid \<Rightarrow> (world, unit) py"
    and holds :: "world \<Rightarrow> uuid \<Rightarrow> uuid \<Rightarrow> bool"
    and rest :: "world \<Rightarrow> world \<Rightarrow> bool"
  assumes rest_order: "step_order rest"
    and rest_permissions: "rest w w' \<Longrightarrow> permissions w' = permissions w"
    and grant_rest: "rest w (snd (grant k p w))"
    and revoke_rest: "rest w (snd (revoke k p w))"
    and revoke_run: "fst (revoke k p w) = Inr ()"
    and grant_holds: "grant k p w = (Inr (), w') \<Longrightarrow> \<not> permission_row_deleted w p \<Longrightarrow> holds w' k p"
    and grant_keeps: "holds w j q \<Longrightarrow> holds (snd (grant k p w)) j q"
    and revoke_holds: "holds (snd (revoke k p w)) j q \<longleftrightarrow> holds w j q \<and> (j, q) \<noteq> (k, p)"
begin

lemma rest_refl: "rest w w"
  using rest_order by (rule step_order.R_refl)

lemma rest_trans: "rest s t \<Longrightarrow> rest t u \<Longrightarrow> rest s u"
  using rest_order by (rule step_order.R_trans)

lemma rest_live: "rest w w' \<Longrightarrow> permission_row_deleted w' p = permission_row_deleted w p"
  using rest_permissions by (simp add: permission_row_deleted_def find_permission_pk_def)

lemma grants_rest: "rest w (snd (for_each (\<lambda>(k, p). grant k p) xs w))"
proof -
  have "keeps rest (case x of (k, p) \<Rightarrow> grant k p)" for x
    by (cases x) (simp add: keeps_def grant_rest)
  then have "keeps rest (for_each (\<lambda>(k, p). grant k p) xs)"
    by (intro step_order.keeps_for [OF rest_order])
  then show ?thesis by (simp add: keeps_def)
qed

lemma grants_keep: "holds w j q \<Longrightarrow> holds (snd (for_each (\<lambda>(k, p). grant k p) xs w)) j q"
proof (induction xs arbitrary: w)
  case (Cons x xs)
  obtain k p where x: "x = (k, p)" by (cases x)
  obtain r w1 where one: "grant k p w = (r, w1)" by (cases "grant k p w")
  have "holds w1 j q" using grant_keeps [OF Cons.prems, of k p] one by simp
  with one Cons.IH [of w1] show ?case by (cases r) (simp_all add: x andthen_def bnd_def)
qed (simp add: ret_def)

lemma grants_hold:
  "for_each (\<lambda>(k, p). grant k p) xs w = (Inr (), w') \<Longrightarrow> (k, p) \<in> set xs \<Longrightarrow>
   \<not> permission_row_deleted w p \<Longrightarrow> holds w' k p"
proof (induction xs arbitrary: w)
  case (Cons x xs)
  obtain j q where x: "x = (j, q)" by (cases x)
  obtain w1 where one: "grant j q w = (Inr (), w1)" and more: "for_each (\<lambda>(k, p). grant k p) xs w1 = (Inr (), w')"
    using Cons.prems(1) x by (auto elim: andthen_InrE)
  have live: "\<not> permission_row_deleted w1 p"
    using rest_live [OF grant_rest [of w j q]] one Cons.prems(3) by simp
  show ?case
  proof (cases "(k, p) = (j, q)")
    case True
    with grant_holds [OF one] Cons.prems(3) have "holds w1 k p" by simp
    with more show ?thesis using grants_keep [of w1 k p xs] by simp
  next
    case False
    then have "(k, p) \<in> set xs" using Cons.prems(2) x by auto
    from Cons.IH [OF more this live] show ?thesis .
  qed
qed simp

lemma revoke_step: "revoke k p w = (Inr (), snd (revoke k p w))"
  using revoke_run by (simp add: prod_eq_iff)

lemma revokes_Cons:
  "for_each (\<lambda>(k, p). revoke k p) ((k, p) # xs) w = for_each (\<lambda>(k, p). revoke k p) xs (snd (revoke k p w))"
  using run_Inr(2) [where m = "revoke k p" and s = w, OF revoke_step] by simp

lemma revokes_run: "fst (for_each (\<lambda>(k, p). revoke k p) xs w) = Inr ()"
proof (induction xs arbitrary: w)
  case (Cons x xs)
  then show ?case by (cases x) (simp only: revokes_Cons)
qed (simp add: ret_def)

lemma revokes_rest: "rest w (snd (for_each (\<lambda>(k, p). revoke k p) xs w))"
proof -
  have "keeps rest (case x of (k, p) \<Rightarrow> revoke k p)" for x
    by (cases x) (simp add: keeps_def revoke_rest)
  then have "keeps rest (for_each (\<lambda>(k, p). revoke k p) xs)"
    by (intro step_order.keeps_for [OF rest_order])
  then show ?thesis by (simp add: keeps_def)
qed

lemma revokes_hold:
  "holds (snd (for_each (\<lambda>(k, p). revoke k p) xs w)) j q \<longleftrightarrow> holds w j q \<and> (j, q) \<notin> set xs"
proof (induction xs arbitrary: w)
  case (Cons x xs)
  obtain k p where x: "x = (k, p)" by (cases x)
  show ?case
    unfolding x revokes_Cons using Cons.IH [of "snd (revoke k p w)"] revoke_holds [of k p w j q] by auto
qed (simp add: ret_def)

end

definition holds_sector :: "world \<Rightarrow> uuid \<Rightarrow> uuid \<Rightarrow> bool" where
  "holds_sector w s p = list_ex (\<lambda>a. sau_sector a = s \<and> sau_permission a = p \<and> sau_role a = 1) (live_sector_auths w)"

definition holds_queue :: "world \<Rightarrow> uuid \<Rightarrow> uuid \<Rightarrow> bool" where
  "holds_queue w q p = list_ex (\<lambda>a. qau_queue a = q \<and> qau_permission a = p \<and> qau_role a = 1) (live_queue_auths w)"

definition but_sector_auths :: "world \<Rightarrow> world \<Rightarrow> bool" where
  "but_sector_auths s t \<longleftrightarrow> (\<exists>a. t = s\<lparr>sector_auths := a\<rparr>)"

definition but_queue_auths :: "world \<Rightarrow> world \<Rightarrow> bool" where
  "but_queue_auths s t \<longleftrightarrow> (\<exists>a. t = s\<lparr>queue_auths := a\<rparr>)"

lemma but_refl: "but_sector_auths w w" "but_queue_auths w w"
  unfolding but_sector_auths_def but_queue_auths_def
  by (rule exI [of _ "sector_auths w"], simp) (rule exI [of _ "queue_auths w"], simp)

lemma but_order: "step_order but_sector_auths" "step_order but_queue_auths"
proof -
  show "step_order but_sector_auths"
    by unfold_locales (simp_all add: but_refl, auto simp: but_sector_auths_def)
  show "step_order but_queue_auths"
    by unfold_locales (simp_all add: but_refl, auto simp: but_queue_auths_def)
qed

lemma but_update: "but_sector_auths w (w\<lparr>sector_auths := a\<rparr>)" "but_queue_auths w (w\<lparr>queue_auths := b\<rparr>)"
  unfolding but_sector_auths_def but_queue_auths_def by blast+

lemma deleted_but_auths:
  "permission_row_deleted (w\<lparr>sector_auths := a\<rparr>) p = permission_row_deleted w p"
  "permission_row_deleted (w\<lparr>queue_auths := b\<rparr>) p = permission_row_deleted w p"
  by (simp_all add: permission_row_deleted_def find_permission_pk_def)

interpretation sector_table: auth_table sector_set_user_authorization delete_sector_auths holds_sector but_sector_auths
proof (rule auth_table.intro)
  fix w w' :: world and k p j q
  show "step_order but_sector_auths" by (rule but_order)
  show "but_sector_auths w w' \<Longrightarrow> permissions w' = permissions w" by (auto simp: but_sector_auths_def)
  show "but_sector_auths w (snd (sector_set_user_authorization k p w))"
    by (simp add: sector_set_user_authorization_def but_refl but_update)
  show "but_sector_auths w (snd (delete_sector_auths k p w))" "fst (delete_sector_auths k p w) = Inr ()"
    by (simp_all add: delete_sector_auths_def modify_def but_update)
  show "sector_set_user_authorization k p w = (Inr (), w') \<Longrightarrow> \<not> permission_row_deleted w p \<Longrightarrow> holds_sector w' k p"
    by (auto simp: sector_set_user_authorization_def holds_sector_def live_sector_auths_def deleted_but_auths
        split: if_splits)
  show "holds_sector w j q \<Longrightarrow> holds_sector (snd (sector_set_user_authorization k p w)) j q"
    by (simp add: sector_set_user_authorization_def holds_sector_def live_sector_auths_def deleted_but_auths)
  show "holds_sector (snd (delete_sector_auths k p w)) j q \<longleftrightarrow> holds_sector w j q \<and> (j, q) \<noteq> (k, p)"
    by (auto simp: delete_sector_auths_def modify_def holds_sector_def live_sector_auths_def deleted_but_auths list_ex_iff)
qed

interpretation queue_table: auth_table queue_set_user_authorization delete_queue_auths holds_queue but_queue_auths
proof (rule auth_table.intro)
  fix w w' :: world and k p j q
  show "step_order but_queue_auths" by (rule but_order)
  show "but_queue_auths w w' \<Longrightarrow> permissions w' = permissions w" by (auto simp: but_queue_auths_def)
  show "but_queue_auths w (snd (queue_set_user_authorization k p w))"
    by (simp add: queue_set_user_authorization_def but_refl but_update)
  show "but_queue_auths w (snd (delete_queue_auths k p w))" "fst (delete_queue_auths k p w) = Inr ()"
    by (simp_all add: delete_queue_auths_def modify_def but_update)
  show "queue_set_user_authorization k p w = (Inr (), w') \<Longrightarrow> \<not> permission_row_deleted w p \<Longrightarrow> holds_queue w' k p"
    by (auto simp: queue_set_user_authorization_def holds_queue_def live_queue_auths_def deleted_but_auths
        split: if_splits)
  show "holds_queue w j q \<Longrightarrow> holds_queue (snd (queue_set_user_authorization k p w)) j q"
    by (simp add: queue_set_user_authorization_def holds_queue_def live_queue_auths_def deleted_but_auths)
  show "holds_queue (snd (delete_queue_auths k p w)) j q \<longleftrightarrow> holds_queue w j q \<and> (j, q) \<noteq> (k, p)"
    by (auto simp: delete_queue_auths_def modify_def holds_queue_def live_queue_auths_def deleted_but_auths list_ex_iff)
qed

section \<open>The managers of a group\<close>

text \<open>A sector is in one group at most, and every manager of a group whose permission is not deleted holds the
  authorization of each of its sectors; the pairs of group and permission in \<open>E\<close> are left out.\<close>

definition groups_ok :: "(uuid \<times> uuid) set \<Rightarrow> gdb \<Rightarrow> bool" where
  "groups_ok E d \<longleftrightarrow>
     (\<forall>g g' s. (g, s) \<in> set (group_members (g_world d)) \<and> (g', s) \<in> set (group_members (g_world d)) \<longrightarrow> g = g') \<and>
     (\<forall>a \<in> set (g_auths d). gau_role a = 1 \<and> (gau_group a, gau_permission a) \<notin> E \<and> \<not> permission_row_deleted (g_world d) (gau_permission a) \<longrightarrow>
        (\<forall>s \<in> set (sectors_of_group (g_world d) (gau_group a)). holds_sector (g_world d) s (gau_permission a)))"

lemma groups_okD:
  assumes "groups_ok E d"
  shows "(g, s) \<in> set (group_members (g_world d)) \<Longrightarrow> (g', s) \<in> set (group_members (g_world d)) \<Longrightarrow> g = g'"
    and "a \<in> set (g_auths d) \<Longrightarrow> gau_role a = 1 \<Longrightarrow> (gau_group a, gau_permission a) \<notin> E \<Longrightarrow> \<not> permission_row_deleted (g_world d) (gau_permission a) \<Longrightarrow>
      s \<in> set (sectors_of_group (g_world d) (gau_group a)) \<Longrightarrow> holds_sector (g_world d) s (gau_permission a)"
  using assms unfolding groups_ok_def by blast+

lemma set_sectors_of_group: "s \<in> set (sectors_of_group w g) \<longleftrightarrow> (g, s) \<in> set (group_members w) \<and>
    (\<exists>x \<in> set (sectors w). sec_uuid x = s \<and> \<not> sec_is_deleted x)"
  by (auto simp: sectors_of_group_def)

lemma set_people_of_group: "p \<in> set (people_of_group d g role) \<longleftrightarrow>
    \<lparr>gau_group = g, gau_permission = p, gau_role = role\<rparr> \<in> set (g_auths d)"
proof
  assume "p \<in> set (people_of_group d g role)"
  then obtain a where "a \<in> set (g_auths d)" "gau_group a = g" "gau_permission a = p" "gau_role a = role"
    by (auto simp: people_of_group_def)
  moreover from this have "a = \<lparr>gau_group = g, gau_permission = p, gau_role = role\<rparr>" by simp
  ultimately show "\<lparr>gau_group = g, gau_permission = p, gau_role = role\<rparr> \<in> set (g_auths d)" by simp
qed (force simp: people_of_group_def)

text \<open>The tables the invariant reads.\<close>

definition group_view :: "world \<Rightarrow> (uuid \<times> uuid) list \<times> sector list \<times> permission list \<times> sector_authorization list" where
  "group_view w = (group_members w, sectors w, permissions w, sector_auths w)"

lemma group_view_cong:
  assumes "group_view w' = group_view w"
  shows "group_members w' = group_members w" "sectors_of_group w' = sectors_of_group w"
    "permission_row_deleted w' = permission_row_deleted w" "holds_sector w' = holds_sector w"
  using assms
  by (simp_all add: fun_eq_iff group_view_def sectors_of_group_def permission_row_deleted_def find_permission_pk_def
      holds_sector_def live_sector_auths_def)

lemma groups_ok_view:
  assumes "group_view (g_world d') = group_view (g_world d)"
    and "set (g_auths d') \<subseteq> set (g_auths d) \<union> {a. gau_role a \<noteq> 1}" and "groups_ok E d"
  shows "groups_ok E d'"
  using assms(2,3) unfolding groups_ok_def group_view_cong [OF assms(1)] by blast

lemma group_view_queue: "but_queue_auths w w' \<Longrightarrow> group_view w' = group_view w"
  by (auto simp: but_queue_auths_def group_view_def)

lemma sector_view:
  assumes "but_sector_auths w w'"
  shows "group_members w' = group_members w" "sectors_of_group w' = sectors_of_group w"
    "permission_row_deleted w' = permission_row_deleted w"
  using assms
  by (auto simp: fun_eq_iff but_sector_auths_def sectors_of_group_def deleted_but_auths)

lemma for_each_map: "for_each f (map g xs) = for_each (\<lambda>x. f (g x)) xs"
  by (induction xs) simp_all

lemma grants_of: "for_each (\<lambda>k. sector_set_user_authorization k p) ks =
    for_each (\<lambda>(k, p). sector_set_user_authorization k p) (map (\<lambda>k. (k, p)) ks)"
  "for_each (sector_set_user_authorization k) ps =
    for_each (\<lambda>(k, p). sector_set_user_authorization k p) (map (Pair k) ps)"
  "for_each (\<lambda>k. delete_sector_auths k p) ks = for_each (\<lambda>(k, p). delete_sector_auths k p) (map (\<lambda>k. (k, p)) ks)"
  "for_each (delete_sector_auths k) ps = for_each (\<lambda>(k, p). delete_sector_auths k p) (map (Pair k) ps)"
  "for_each (\<lambda>k. queue_set_user_authorization k p) qs =
    for_each (\<lambda>(k, p). queue_set_user_authorization k p) (map (\<lambda>k. (k, p)) qs)"
  "for_each (queue_set_user_authorization q) ps =
    for_each (\<lambda>(k, p). queue_set_user_authorization k p) (map (Pair q) ps)"
  "for_each (\<lambda>k. delete_queue_auths k p) qs = for_each (\<lambda>(k, p). delete_queue_auths k p) (map (\<lambda>k. (k, p)) qs)"
  by (simp_all add: for_each_map)

lemma groups_ok_rollback: "groups_ok E d \<Longrightarrow> groups_ok E (d\<lparr>g_world := rollback (g_world d) w\<rparr>)"
  by (rule groups_ok_view [of _ d]) (simp_all add: group_view_def rollback_def)

lemma groups_ok_atomic:
  assumes "groups_ok E d" and "\<And>x t. m d = (Inr x, t) \<Longrightarrow> groups_ok E t"
  shows "groups_ok E (snd (g_atomic m d))"
  using assms groups_ok_rollback [OF assms(1)]
  by (cases "m d") (auto simp: g_atomic_def split: sum.split)

text \<open>Granting a manager, or revoking one sector, whatever else is granted or revoked.\<close>

lemma groups_ok_grant:
  assumes "groups_ok E d" and "but_sector_auths (g_world d) w"
    and "\<And>s p. holds_sector (g_world d) s p \<Longrightarrow> holds_sector w s p"
    and "\<And>s. gau_role a = 1 \<Longrightarrow> (gau_group a, gau_permission a) \<notin> E \<Longrightarrow> \<not> permission_row_deleted (g_world d) (gau_permission a) \<Longrightarrow>
      s \<in> set (sectors_of_group (g_world d) (gau_group a)) \<Longrightarrow> holds_sector w s (gau_permission a)"
  shows "groups_ok E (d\<lparr>g_world := w, g_auths := g_auths d @ [a]\<rparr>)"
  using assms(1,3,4) by (auto simp: groups_ok_def sector_view [OF assms(2)])

section \<open>Every operation keeps the managers covered\<close>

lemma on_world_run: "on_world m d = (r, d') \<longleftrightarrow> (\<exists>w. m (g_world d) = (r, w) \<and> d' = d\<lparr>g_world := w\<rparr>)"
  by (auto simp: on_world_def split: prod.split)

lemma run_g_need: "andthen (g_need e f) m d = (case f d of None \<Rightarrow> (Inl e, d) | Some _ \<Rightarrow> m d)"
  by (simp add: andthen_def bnd_def g_need_def split: option.split)

lemma ok_create:
  assumes "groups_ok E d"
  shows "groups_ok E (snd (create_group_authorization g p (Int_Role n) d))"
proof -
  have role: "role_number (Int_Role n) = n" by (simp add: role_number_def)
  have body: "groups_ok E t" if run: "write_group_authorization g p (Int_Role n) d = (Inr x, t)" for x t
  proof -
    let ?a = "\<lparr>gau_group = g, gau_permission = p, gau_role = n\<rparr>"
    note run = run [unfolded write_group_authorization_def role role_arg.inject]
    consider "n = 1" | "n = 2" using run by (auto simp: raise_def split: if_splits)
    then show ?thesis
    proof cases
      case 1
      let ?pairs = "map (\<lambda>k. (k, p)) (sectors_of_group (g_world d) g)"
      obtain w where grants: "for_each (\<lambda>(k, p). sector_set_user_authorization k p) ?pairs (g_world d) = (Inr (), w)"
        and t: "t = d\<lparr>g_world := w, g_auths := g_auths d @ [?a]\<rparr>"
        using run 1
        by (auto simp: try_except_def bnd_def andthen_def gets_def raise_def on_world_def create_group_row_def grants_of
            split: prod.splits sum.splits if_splits)
      have rest: "but_sector_auths (g_world d) w"
        using sector_table.grants_rest [of "g_world d" ?pairs] grants by simp
      show ?thesis
        unfolding t
      proof (rule groups_ok_grant [OF assms rest])
        show "holds_sector (g_world d) s q \<Longrightarrow> holds_sector w s q" for s q
          using sector_table.grants_keep [of "g_world d" s q ?pairs] grants by simp
        show "\<not> permission_row_deleted (g_world d) (gau_permission ?a) \<Longrightarrow>
            s \<in> set (sectors_of_group (g_world d) (gau_group ?a)) \<Longrightarrow> holds_sector w s (gau_permission ?a)" for s
          using sector_table.grants_hold [OF grants, of s p] by simp
      qed
    next
      case 2
      let ?pairs = "map (\<lambda>k. (k, p)) (queues_of_group (g_world d) g)"
      obtain w where grants: "for_each (\<lambda>(k, p). queue_set_user_authorization k p) ?pairs (g_world d) = (Inr (), w)"
        and t: "t = d\<lparr>g_world := w, g_auths := g_auths d @ [?a]\<rparr>"
        using run 2
        by (auto simp: try_except_def bnd_def andthen_def gets_def raise_def on_world_def create_group_row_def grants_of
            split: prod.splits sum.splits if_splits)
      have "but_queue_auths (g_world d) w"
        using queue_table.grants_rest [of "g_world d" ?pairs] grants by simp
      then show ?thesis using 2 by (intro groups_ok_view [OF _ _ assms]) (auto simp: t group_view_queue)
    qed
  qed
  have "groups_ok E (snd (g_atomic (write_group_authorization g p (Int_Role n)) d))"
    by (rule groups_ok_atomic [OF assms body])
  then show ?thesis
    unfolding create_group_authorization_def using assms by (simp add: run_g_need split: option.split)
qed

text \<open>A role that comes as a string gives no authorization.\<close>

lemma ok_create_string:
  assumes "groups_ok E d" and "n = 1 \<Longrightarrow> (g, p) \<in> E"
  shows "groups_ok E (snd (create_group_authorization g p (Str_Role n) d))"
proof -
  have "groups_ok E t" if "write_group_authorization g p (Str_Role n) d = (Inr x, t)" for x t
  proof -
    let ?a = "\<lparr>gau_group = g, gau_permission = p, gau_role = n\<rparr>"
    have "t = d\<lparr>g_auths := g_auths d @ [?a]\<rparr>"
      using that by (auto simp: write_group_authorization_def role_number_def try_except_def run_gets create_group_row_def
          raise_def split: if_splits)
    with assms show ?thesis by (auto simp: groups_ok_def)
  qed
  then have "groups_ok E (snd (g_atomic (write_group_authorization g p (Str_Role n)) d))"
    by (rule groups_ok_atomic [OF assms(1)])
  then show ?thesis
    unfolding create_group_authorization_def using assms(1) by (simp add: run_g_need split: option.split)
qed

lemma ok_delete:
  assumes "groups_ok E d"
  shows "groups_ok E (snd (delete_group_authorization a d))"
proof -
  let ?g = "gau_group a" and ?p = "gau_permission a" and ?w = "g_world d"
  consider "gau_role a = 1" | "gau_role a = 2" | "gau_role a \<noteq> 1" "gau_role a \<noteq> 2" by blast
  then show ?thesis
  proof cases
    case 1
    let ?pairs = "map (\<lambda>k. (k, ?p)) (sectors_of_group ?w ?g)"
    obtain w where revokes: "for_each (\<lambda>(k, p). delete_sector_auths k p) ?pairs ?w = (Inr (), w)"
      using sector_table.revokes_run [of ?pairs ?w] by (metis prod.collapse)
    have rest: "but_sector_auths ?w w"
      using sector_table.revokes_rest [of ?w ?pairs] revokes by simp
    have holds: "holds_sector w s p \<longleftrightarrow> holds_sector ?w s p \<and> (s, p) \<notin> set ?pairs" for s p
      using sector_table.revokes_hold [of ?pairs ?w s p] revokes by simp
    have "holds_sector w s (gau_permission b)"
      if "b \<in> set (g_auths d)" "b \<noteq> a" "gau_role b = 1" "(gau_group b, gau_permission b) \<notin> E" "\<not> permission_row_deleted ?w (gau_permission b)"
        "s \<in> set (sectors_of_group ?w (gau_group b))" for b s
    proof -
      have "gau_group b = ?g" if "s \<in> set (sectors_of_group ?w ?g)"
        using groups_okD(1) [OF assms] \<open>s \<in> set (sectors_of_group ?w (gau_group b))\<close> that
        by (auto simp: set_sectors_of_group)
      then have "(s, gau_permission b) \<notin> set ?pairs"
        using that(2,3) 1 by auto
      with groups_okD(2) [OF assms that(1,3-6)] show ?thesis by (simp add: holds)
    qed
    then have "groups_ok E (d\<lparr>g_world := w, g_auths := filter (\<lambda>x. x \<noteq> a) (g_auths d)\<rparr>)"
      using groups_okD(1) [OF assms] by (auto simp: groups_ok_def sector_view [OF rest])
    moreover have "on_world (for_each (\<lambda>k. delete_sector_auths k ?p) (sectors_of_group ?w ?g)) d =
        (Inr (), d\<lparr>g_world := w\<rparr>)"
      by (simp add: on_world_def grants_of revokes)
    ultimately show ?thesis
      using 1 by (simp add: delete_group_authorization_def run_gets run_Inr(2) modify_def)
  next
    case 2
    let ?pairs = "map (\<lambda>k. (k, ?p)) (queues_of_group ?w ?g)"
    obtain w where revokes: "for_each (\<lambda>(k, p). delete_queue_auths k p) ?pairs ?w = (Inr (), w)"
      using queue_table.revokes_run [of ?pairs ?w] by (metis prod.collapse)
    have "but_queue_auths ?w w" using queue_table.revokes_rest [of ?w ?pairs] revokes by simp
    then have "groups_ok E (d\<lparr>g_world := w, g_auths := filter (\<lambda>x. x \<noteq> a) (g_auths d)\<rparr>)"
      by (intro groups_ok_view [OF _ _ assms]) (auto simp: group_view_queue)
    moreover have "on_world (for_each (\<lambda>k. delete_queue_auths k ?p) (queues_of_group ?w ?g)) d =
        (Inr (), d\<lparr>g_world := w\<rparr>)"
      by (simp add: on_world_def grants_of revokes)
    ultimately show ?thesis
      using 2 by (simp add: delete_group_authorization_def run_gets run_Inr(2) modify_def)
  next
    case 3
    then show ?thesis
      by (auto simp: delete_group_authorization_def run_gets modify_def intro: groups_ok_view [OF _ _ assms])
  qed
qed

lemma members_update:
  "permission_row_deleted (w\<lparr>group_members := m\<rparr>) = permission_row_deleted w"
  "holds_sector (w\<lparr>group_members := m\<rparr>) = holds_sector w"
  by (simp_all add: fun_eq_iff permission_row_deleted_def find_permission_pk_def holds_sector_def live_sector_auths_def)

lemma ok_add_sector:
  assumes "groups_ok E d"
  shows "groups_ok E (snd (add_sector s grp d))"
proof -
  let ?g = "gse_uuid grp"
  let ?body = "bnd (gets (\<lambda>d. in_another_group (g_world d) s)) (\<lambda>other.
       if other then raise (ValueError ''Sector is already in another group sector'')
       else bnd (gets (\<lambda>d. s \<in> set (sectors_of_group (g_world d) ?g))) (\<lambda>inside.
         if inside then raise (ValueError ''Sector already in group sector'')
         else andthen (on_world (add_member ?g s))
           (bnd (gets (\<lambda>d. people_of_group d ?g 1))
             (\<lambda>ps. on_world (for_each (sector_set_user_authorization s) ps)))))"
  have body: "groups_ok E t" if run: "?body d = (Inr x, t)" for x t
  proof -
    define w1 where "w1 = g_world d\<lparr>group_members := group_members (g_world d) @ [(?g, s)]\<rparr>"
    let ?pairs = "map (Pair s) (people_of_group d ?g 1)"
    have fresh: "(g, s) \<notin> set (group_members (g_world d))" for g
      using run by (auto simp: run_gets raise_def in_another_group_def list_ex_iff split: if_splits)
    have "people_of_group (d\<lparr>g_world := w1\<rparr>) ?g 1 = people_of_group d ?g 1" by (simp add: people_of_group_def)
    then obtain w where grants: "for_each (\<lambda>(k, p). sector_set_user_authorization k p) ?pairs w1 = (Inr (), w)"
      and t: "t = d\<lparr>g_world := w\<rparr>"
      using run by (auto simp: run_gets raise_def andthen_def bnd_def on_world_def add_member_def modify_def w1_def
          gets_def grants_of split: if_splits prod.splits)
    have rest: "but_sector_auths w1 w" using sector_table.grants_rest [of w1 ?pairs] grants by simp
    note view = sector_view [OF rest]
    have "holds_sector w k (gau_permission a)"
      if "a \<in> set (g_auths d)" "gau_role a = 1" "(gau_group a, gau_permission a) \<notin> E" "\<not> permission_row_deleted w1 (gau_permission a)"
        "k \<in> set (sectors_of_group w1 (gau_group a))" for a k
    proof (cases "(gau_group a, k) \<in> set (group_members (g_world d))")
      case True
      then have "holds_sector w1 k (gau_permission a)"
        using groups_okD(2) [OF assms that(1-3)] that(4,5)
        by (simp add: w1_def members_update set_sectors_of_group)
      then show ?thesis using sector_table.grants_keep [of w1 k "gau_permission a" ?pairs] grants by simp
    next
      case False
      then have "gau_group a = ?g" "k = s" using that(5) by (auto simp: w1_def set_sectors_of_group)
      moreover from this have "gau_permission a \<in> set (people_of_group d ?g 1)"
        using that(1,2) by (auto simp: people_of_group_def)
      ultimately show ?thesis
        using sector_table.grants_hold [OF grants, of k "gau_permission a"] that(4) by auto
    qed
    moreover have "g = g'" if "(g, k) \<in> set (group_members w1)" "(g', k) \<in> set (group_members w1)" for g g' k
      using that groups_okD(1) [OF assms] fresh by (auto simp: w1_def)
    ultimately show ?thesis by (auto simp: groups_ok_def t view)
  qed
  have "groups_ok E (snd (g_atomic ?body d))" by (rule groups_ok_atomic [OF assms body])
  then show ?thesis
    unfolding add_sector_def using assms by (simp add: run_g_need del: if_True if_False split: option.split)
qed

lemma queue_revokes_rest:
  "\<exists>w'. for_each (\<lambda>p. for_each (\<lambda>q. delete_queue_auths q p) qs) ps w = (Inr (), w') \<and> but_queue_auths w w' \<and>
    (\<forall>k p. holds_queue w' k p \<longrightarrow> \<not> (k \<in> set qs \<and> p \<in> set ps))"
proof -
  have "for_each (\<lambda>p. for_each (\<lambda>q. delete_queue_auths q p) qs) ps =
      for_each (\<lambda>(k, p). delete_queue_auths k p) (concat (map (\<lambda>p. map (\<lambda>q. (q, p)) qs) ps))"
    by (induction ps) (simp_all add: for_each_append grants_of)
  moreover have "\<exists>w'. for_each (\<lambda>(k, p). delete_queue_auths k p) xs w = (Inr (), w') \<and> but_queue_auths w w' \<and>
      (\<forall>k p. holds_queue w' k p \<longrightarrow> (k, p) \<notin> set xs)" for xs
    using queue_table.revokes_run [of xs w] queue_table.revokes_rest [of w xs] queue_table.revokes_hold [of xs w]
    by (cases "for_each (\<lambda>(k, p). delete_queue_auths k p) xs w") simp
  ultimately show ?thesis by (simp only:) (fastforce elim!: exE)
qed

lemma delete_sector_permissions_run:
  "\<exists>w. delete_sector_permissions s g d = (Inr (), d\<lparr>g_world := w\<rparr>) \<and> but_sector_auths (g_world d) w \<and>
    (\<forall>k p. holds_sector w k p \<longleftrightarrow> holds_sector (g_world d) k p \<and> (k = s \<longrightarrow> p \<notin> set (people_of_group d g 1)))"
proof -
  let ?pairs = "map (Pair s) (people_of_group d g 1)"
  obtain w where revokes: "for_each (\<lambda>(k, p). delete_sector_auths k p) ?pairs (g_world d) = (Inr (), w)"
    using sector_table.revokes_run [of ?pairs "g_world d"] by (metis prod.collapse)
  show ?thesis
  proof (intro exI conjI allI)
    show "delete_sector_permissions s g d = (Inr (), d\<lparr>g_world := w\<rparr>)"
      by (simp add: delete_sector_permissions_def run_gets on_world_def grants_of revokes [simplified])
    show "but_sector_auths (g_world d) w"
      using sector_table.revokes_rest [of "g_world d" ?pairs] revokes by simp
    show "holds_sector w k p \<longleftrightarrow> holds_sector (g_world d) k p \<and> (k = s \<longrightarrow> p \<notin> set (people_of_group d g 1))" for k p
      using sector_table.revokes_hold [of ?pairs "g_world d" k p] revokes by auto
  qed
qed

lemma delete_queue_permissions_run:
  "\<exists>w. delete_queue_permissions s g d = (Inr (), d\<lparr>g_world := w\<rparr>) \<and> but_queue_auths (g_world d) w \<and>
    (\<forall>k p. holds_queue w k p \<longrightarrow> \<not> (k \<in> set (queues_of_sector (g_world d) s) \<and> p \<in> set (people_of_group d g 2)))"
  using queue_revokes_rest [of "queues_of_sector (g_world d) s" "people_of_group d g 2" "g_world d"]
  by (auto simp: delete_queue_permissions_def run_gets on_world_def)

lemma ok_remove_sector:
  assumes "groups_ok E d"
  shows "groups_ok E (snd (remove_sector s grp d))"
  unfolding remove_sector_def
proof (rule groups_ok_atomic [OF assms])
  let ?g = "gse_uuid grp" and ?w = "g_world d"
  let ?ms = "people_of_group d ?g 1"
  fix x t
  assume run: "andthen (g_need (DoesNotExist ''Sector not found in project'') (\<lambda>d. project_sector (g_world d) s (gse_project grp)))
     (andthen (delete_sector_permissions s ?g)
     (andthen (delete_queue_permissions s ?g)
     (bnd (gets (\<lambda>d. s \<in> set (sectors_of_group (g_world d) ?g))) (\<lambda>inside.
      if inside then on_world (remove_member ?g s)
      else raise (ValueError ''Sector not found in group sector''))))) d = (Inr x, t)"
  obtain w1 where first: "delete_sector_permissions s ?g d = (Inr (), d\<lparr>g_world := w1\<rparr>)"
    and rest: "but_sector_auths ?w w1"
    and holds: "\<And>k p. holds_sector w1 k p \<longleftrightarrow> holds_sector ?w k p \<and> (k = s \<longrightarrow> p \<notin> set ?ms)"
    using delete_sector_permissions_run [of s ?g d] by blast
  obtain w2 where second: "delete_queue_permissions s ?g (d\<lparr>g_world := w1\<rparr>) = (Inr (), d\<lparr>g_world := w2\<rparr>)"
    and rest2: "but_queue_auths w1 w2"
    using delete_queue_permissions_run [of s ?g "d\<lparr>g_world := w1\<rparr>"] by auto
  note view = sector_view [OF rest] and view2 = group_view_cong [OF group_view_queue [OF rest2]]
  have t: "t = d\<lparr>g_world := w2\<lparr>group_members := filter (\<lambda>m. m \<noteq> (?g, s)) (group_members w2)\<rparr>\<rparr>"
    and inside: "(?g, s) \<in> set (group_members ?w)"
    using run view view2
    by (auto simp: run_g_need run_gets run_Inr(2) [where m = "delete_sector_permissions s ?g", OF first]
        run_Inr(2) [where m = "delete_queue_permissions s ?g", OF second] on_world_def remove_member_def modify_def raise_def
        set_sectors_of_group split: option.splits if_splits)
  have sectors: "k \<in> set (sectors_of_group (g_world t) g) \<longleftrightarrow> k \<in> set (sectors_of_group ?w g) \<and> (g, k) \<noteq> (?g, s)" for g k
    using rest2 rest by (auto simp: t set_sectors_of_group but_queue_auths_def but_sector_auths_def)
  have tables: "permission_row_deleted (g_world t) = permission_row_deleted ?w" "holds_sector (g_world t) = holds_sector w1"
    "g_auths t = g_auths d" "set (group_members (g_world t)) \<subseteq> set (group_members ?w)"
    using view view2 by (auto simp: t members_update)
  have "holds_sector (g_world t) k (gau_permission a)"
    if "a \<in> set (g_auths d)" "gau_role a = 1" "(gau_group a, gau_permission a) \<notin> E"
      "\<not> permission_row_deleted ?w (gau_permission a)" "k \<in> set (sectors_of_group (g_world t) (gau_group a))" for a k
  proof -
    have old: "k \<in> set (sectors_of_group ?w (gau_group a))" and other: "(gau_group a, k) \<noteq> (?g, s)"
      using that(5) sectors by auto
    then have "k \<noteq> s" using inside groups_okD(1) [OF assms] by (auto simp: set_sectors_of_group)
    with groups_okD(2) [OF assms that(1-4) old] show ?thesis by (simp add: tables holds)
  qed
  then show "groups_ok E t"
    unfolding groups_ok_def tables using groups_okD(1) [OF assms] tables(4) by blast
qed

lemma keeps_steps:
  assumes "\<And>x d. groups_ok E d \<Longrightarrow> groups_ok E (snd (f x d))" and "groups_ok E d"
  shows "groups_ok E (snd (for_each f xs d))"
  using assms(2)
proof (induction xs arbitrary: d)
  case (Cons x xs)
  obtain r t where run: "f x d = (r, t)" by (cases "f x d")
  then have "groups_ok E t" using assms(1) [OF Cons.prems, of x] by simp
  with run Cons.IH show ?case by (cases r) (simp_all add: andthen_def bnd_def)
qed (simp add: ret_def)

lemma ok_destroy_group:
  assumes "groups_ok E d"
  shows "groups_ok E (snd (destroy_group grp d))"
proof -
  let ?m = "for_each (\<lambda>s. remove_sector s grp) (sectors_of_group (g_world d) (gse_uuid grp))"
  obtain r t where run: "?m d = (r, t)" by (cases "?m d")
  have ok: "groups_ok E t"
    using keeps_steps [where f = "\<lambda>s. remove_sector s grp", OF ok_remove_sector assms] run by (metis snd_conv)
  have "groups_ok E (t\<lparr>g_world := g_world t\<lparr>group_sectors := gs\<rparr>\<rparr>)" for gs
    by (rule groups_ok_view [OF _ _ ok]) (simp_all add: group_view_def)
  with ok run show ?thesis
    by (cases r) (simp_all add: destroy_group_def run_gets run_Inl run_Inr on_world_def modify_def)
qed

lemma ok_queues: "groups_ok E d \<Longrightarrow> but_queue_auths (g_world d) w \<Longrightarrow> groups_ok E (d\<lparr>g_world := w\<rparr>)"
  by (rule groups_ok_view [of _ d]) (simp_all add: group_view_queue)

lemma ok_authorize_new_queue:
  assumes "groups_ok E d"
  shows "groups_ok E (snd (authorize_new_queue q d))"
proof -
  have "but_queue_auths (g_world d) (snd (for_each (queue_set_user_authorization (que_uuid q)) ps (g_world d)))" for ps
    unfolding grants_of by (rule queue_table.grants_rest)
  from ok_queues [OF assms this]
  have "groups_ok E (d\<lparr>g_world := w\<rparr>)" if "for_each (queue_set_user_authorization (que_uuid q)) ps (g_world d) = (r, w)" for ps r w
    using that by (metis snd_conv)
  then show ?thesis
    unfolding authorize_new_queue_def by (intro groups_ok_atomic [OF assms]) (auto simp: run_gets on_world_def split: prod.splits) 
qed

lemma enable_rest: "but_queue_auths w (enable_queues p qs w)"
proof -
  have "but_queue_auths v (fold (bulk_create_auth p) ks v)" for ks v
  proof (induction ks arbitrary: v)
    case (Cons k ks)
    have "but_queue_auths v (bulk_create_auth p k v)" by (simp add: bulk_create_auth_def but_refl but_update)
    then show ?case using Cons.IH queue_table.rest_trans by simp
  qed (simp add: but_refl)
  then show ?thesis by (simp add: enable_queues_def Let_def)
qed

lemma ok_update_agent_queues: "groups_ok E d \<Longrightarrow> groups_ok E (snd (update_agent_queues g p es ds d))"
proof -
  assume ok: "groups_ok E d"
  have "but_queue_auths (g_world d) (disable_queues p y (enable_queues p x (g_world d)))" for x y
    by (rule queue_table.rest_trans [OF enable_rest [of "g_world d" p x]]) (simp add: disable_queues_def but_update)
  from ok_queues [OF ok this] show ?thesis
    using ok
    by (auto simp: update_agent_queues_def bnd_def g_need_def raise_def on_world_def modify_def Let_def split: option.split)
qed

lemma ok_create_view:
  assumes "groups_ok E d" and "role = Str_Role 1 \<Longrightarrow> (g, p) \<in> E"
  shows "groups_ok E (snd (create_authorization_view g p role es ds d))"
proof (cases "es = [] \<and> ds = []")
  case True
  then show ?thesis using ok_create [OF assms(1)] ok_create_string [OF assms(1)] assms(2)
    by (cases role) (simp_all add: create_authorization_view_def)
next
  case False
  let ?a = "\<lparr>gau_group = g, gau_permission = p, gau_role = 2\<rparr>"
  have "groups_ok E (if ?a \<in> set (g_auths d) then d else d\<lparr>g_auths := g_auths d @ [?a]\<rparr>)"
    using assms(1) by (auto intro: groups_ok_view [OF _ _ assms(1)])
  note updated = ok_update_agent_queues [OF this, of g p es ds]
  show ?thesis
    unfolding create_authorization_view_def if_not_P [OF False] using assms(1) updated
    by (auto simp: run_g_need raise_def Let_def run_modify split: option.split)
qed

lemma deleted_after:
  "permission_row_deleted (w\<lparr>permissions := update_where (\<lambda>x. prm_uuid x = k) (\<lambda>x. x\<lparr>prm_is_deleted := True\<rparr>) (permissions w)\<rparr>) q
     \<longleftrightarrow> q = k \<or> permission_row_deleted w q"
  by (simp add: permission_row_deleted_def find_permission_pk_def find_key_update split: option.split)

lemma removed_permission:
  fixes w p
  defines "w' \<equiv> snd (remove_permission p w)"
  shows "group_members w' = group_members w" "sectors w' = sectors w"
    "permission_row_deleted w' q \<longleftrightarrow> q = prm_uuid p \<or> permission_row_deleted w q"
    "a \<in> set (sector_auths w) \<Longrightarrow> sau_permission a \<noteq> prm_uuid p \<Longrightarrow> a \<in> set (sector_auths w')"
proof -
  let ?w1 = "w\<lparr>permissions := update_where (\<lambda>x. prm_uuid x = prm_uuid p) (\<lambda>x. x\<lparr>prm_is_deleted := True\<rparr>) (permissions w)\<rparr>"
  have "w' = ?w1 \<or> (\<exists>es ss qs. w' = ?w1\<lparr>effects := es, sector_auths := filter (\<lambda>a. sau_permission a \<noteq> prm_uuid p) (sector_auths w),
      queue_auths := qs\<rparr>)"
    by (cases "prm_is_deleted p"; cases "prm_user p")
      (auto simp: w'_def remove_permission_def run_modify ret_def emit_def modify_def)
  moreover have "permission_row_deleted (v\<lparr>effects := es, sector_auths := ss, queue_auths := qs\<rparr>) = permission_row_deleted v"
    for v es ss qs by (simp add: fun_eq_iff permission_row_deleted_def find_permission_pk_def)
  ultimately show "group_members w' = group_members w" "sectors w' = sectors w"
    "permission_row_deleted w' q \<longleftrightarrow> q = prm_uuid p \<or> permission_row_deleted w q"
    "a \<in> set (sector_auths w) \<Longrightarrow> sau_permission a \<noteq> prm_uuid p \<Longrightarrow> a \<in> set (sector_auths w')"
    using deleted_after [where w = w and k = "prm_uuid p" and q = q] by auto
qed

lemma ok_remove_permission:
  assumes "groups_ok E d"
  shows "groups_ok E (snd (on_world (remove_permission p) d))"
proof -
  define w where "w = snd (remove_permission p (g_world d))"
  note removed = removed_permission [where p = p and w = "g_world d", folded w_def]
  have tables: "group_members w = group_members (g_world d)" "sectors w = sectors (g_world d)"
    by (rule removed)+
  have gone: "permission_row_deleted w q" if "permission_row_deleted (g_world d) q" for q
    using that removed(3) by simp
  have holds: "holds_sector w s q" if "holds_sector (g_world d) s q" "\<not> permission_row_deleted w q" for s q
    using that removed(3,4) by (auto simp: holds_sector_def live_sector_auths_def list_ex_iff)
  have "groups_ok E (d\<lparr>g_world := w\<rparr>)"
    using assms gone holds unfolding groups_ok_def
    by (simp add: tables sectors_of_group_def) blast
  then show ?thesis by (cases "remove_permission p (g_world d)") (simp add: on_world_def w_def)
qed

section \<open>Properties\<close>

datatype group_step =
    Create_Auth uuid uuid role_arg "uuid list" "uuid list"
  | Delete_Auth group_auth
  | Add_Sector uuid group_sector
  | Remove_Sector uuid group_sector
  | Destroy_Group group_sector
  | New_Queue queue
  | Remove_Permission permission

fun run_group_step :: "group_step \<Rightarrow> gdb \<Rightarrow> gdb" where
  "run_group_step (Create_Auth g p role es ds) d = snd (create_authorization_view g p role es ds d)"
| "run_group_step (Delete_Auth a) d = snd (delete_group_authorization a d)"
| "run_group_step (Add_Sector s g) d = snd (add_sector s g d)"
| "run_group_step (Remove_Sector s g) d = snd (remove_sector s g d)"
| "run_group_step (Destroy_Group g) d = snd (destroy_group g d)"
| "run_group_step (New_Queue q) d = snd (authorize_new_queue q d)"
| "run_group_step (Remove_Permission p) d = snd (on_world (remove_permission p) d)"

text \<open>The managers that a request adds with the role \<open>"1"\<close>, a string.\<close>

definition string_managers :: "group_step list \<Rightarrow> (uuid \<times> uuid) list" where
  "string_managers = List.map_filter (\<lambda>x. case x of
     Create_Auth g p (Str_Role n) _ _ \<Rightarrow> if n = 1 then Some (g, p) else None | _ \<Rightarrow> None)"

lemma in_string_managers: "Create_Auth g p (Str_Role 1) es ds \<in> set steps \<Longrightarrow> (g, p) \<in> set (string_managers steps)"
  by (induction steps) (auto simp: string_managers_def map_filter_simps split: option.split)

lemma groups_ok_steps:
  assumes "groups_ok E d" and "set (string_managers steps) \<subseteq> E"
  shows "groups_ok E (fold run_group_step steps d)"
  using assms
proof (induction steps arbitrary: d)
  case (Cons x xs)
  have exempt: "(g, p) \<in> E" if "x = Create_Auth g p (Str_Role 1) es ds" for g p es ds
    using that Cons.prems(2) in_string_managers [of g p es ds "x # xs"] by auto
  have "groups_ok E (run_group_step x d)"
    using Cons.prems(1) exempt
    by (cases x) (auto simp: ok_create_view ok_delete ok_add_sector ok_remove_sector ok_destroy_group
        ok_authorize_new_queue ok_remove_permission)
  moreover have "set (string_managers xs) \<subseteq> E"
    using Cons.prems(2) by (auto simp: string_managers_def map_filter_simps split: option.splits)
  ultimately show ?case using Cons.IH by simp
qed simp


definition one_group :: group_sector where
  "one_group = \<lparr>gse_uuid = ''g'', gse_name = [], gse_project = ''p'', gse_rooms_limit = 4, gse_is_deleted = False\<rparr>"

definition grouped :: gdb where
  "grouped = \<lparr>g_world = small_world\<lparr>group_sectors := [one_group]\<rparr>, g_auths = []\<rparr>"

lemma grouped_ok: "groups_ok {} grouped"
  by (simp add: groups_ok_def grouped_def sample_defs)


text \<open>The same request with the role as a string passes the check of the role, stores the manager, and gives no
  authorization.\<close>

lemma string_role_authorizes_nothing:
  assumes "live_group (g_world d) g \<noteq> None" and "live_permission (g_world d) p \<noteq> None" and "n \<in> {1, 2}"
    and "\<lparr>gau_group = g, gau_permission = p, gau_role = n\<rparr> \<notin> set (g_auths d)"
  shows "create_group_authorization g p (Str_Role n) d =
    (Inr (), d\<lparr>g_auths := g_auths d @ [\<lparr>gau_group = g, gau_permission = p, gau_role = n\<rparr>]\<rparr>)"
  using assms
  by (auto simp: create_group_authorization_def write_group_authorization_def run_g_need role_number_def g_atomic_def
      try_except_def run_gets create_group_row_def split: option.split)

lemma holds_queue_cong:
  "queue_auths w' = queue_auths w \<Longrightarrow> permissions w' = permissions w \<Longrightarrow> holds_queue w' = holds_queue w"
  by (simp add: fun_eq_iff holds_queue_def live_queue_auths_def permission_row_deleted_def find_permission_pk_def)

lemma added_sector_tables:
  assumes "add_sector s grp d = (out, d')"
  shows "queue_auths (g_world d') = queue_auths (g_world d)" "permissions (g_world d') = permissions (g_world d)"
proof -
  have grants: "queue_auths (snd (for_each (sector_set_user_authorization s) ps w)) = queue_auths w \<and>
      permissions (snd (for_each (sector_set_user_authorization s) ps w)) = permissions w" for ps w
    using sector_table.grants_rest [of w "map (Pair s) ps"] by (auto simp: grants_of but_sector_auths_def)
  have "queue_auths (g_world (snd (add_sector s grp d))) = queue_auths (g_world d) \<and>
      permissions (g_world (snd (add_sector s grp d))) = permissions (g_world d)"
  proof (cases "project_sector (g_world d) s (gse_project grp)")
    case (Some x)
    define w1 where "w1 = g_world d\<lparr>group_members := group_members (g_world d) @ [(gse_uuid grp, s)]\<rparr>"
    have add: "on_world (add_member (gse_uuid grp) s) d = (Inr (), d\<lparr>g_world := w1\<rparr>)"
      by (simp add: on_world_def add_member_def modify_def w1_def)
    obtain r w2 where run: "for_each (sector_set_user_authorization s)
        (people_of_group (d\<lparr>g_world := w1\<rparr>) (gse_uuid grp) 1) w1 = (r, w2)" by fastforce
    with grants [of "people_of_group (d\<lparr>g_world := w1\<rparr>) (gse_uuid grp) 1" w1]
    have "queue_auths w2 = queue_auths (g_world d)" "permissions w2 = permissions (g_world d)"
      by (simp_all add: w1_def)
    with Some run show ?thesis
      by (cases r) (simp_all add: add_sector_def run_g_need run_gets g_atomic_def raise_def run_Inr(2) [where m = "on_world (add_member (gse_uuid grp) s)", OF add]
          on_world_def rollback_def)
  qed (simp add: add_sector_def run_g_need)
  then show "queue_auths (g_world d') = queue_auths (g_world d)" "permissions (g_world d') = permissions (g_world d)"
    by (simp_all add: assms)
qed

lemma removed_sector_agents:
  assumes "remove_sector s grp d = (Inr (), d')" and "p \<in> set (people_of_group d (gse_uuid grp) 2)"
    and "q \<in> set (queues_of_sector (g_world d) s)"
  shows "\<not> holds_queue (g_world d') q p"
proof -
  let ?g = "gse_uuid grp"
  obtain w1 where first: "delete_sector_permissions s ?g d = (Inr (), d\<lparr>g_world := w1\<rparr>)"
    and rest: "but_sector_auths (g_world d) w1"
    using delete_sector_permissions_run [of s ?g d] by blast
  let ?d1 = "d\<lparr>g_world := w1\<rparr>"
  have same: "people_of_group ?d1 ?g 2 = people_of_group d ?g 2" "queues_of_sector w1 s = queues_of_sector (g_world d) s"
    using rest by (auto simp: people_of_group_def queues_of_sector_def but_sector_auths_def)
  obtain w2 where second: "delete_queue_permissions s ?g ?d1 = (Inr (), ?d1\<lparr>g_world := w2\<rparr>)"
    and gone: "\<forall>k p. holds_queue w2 k p \<longrightarrow> \<not> (k \<in> set (queues_of_sector w1 s) \<and> p \<in> set (people_of_group ?d1 ?g 2))"
    using delete_queue_permissions_run [of s ?g ?d1] by auto
  have "d' = ?d1\<lparr>g_world := w2\<lparr>group_members := filter (\<lambda>m. m \<noteq> (?g, s)) (group_members w2)\<rparr>\<rparr>"
    using assms(1)
    by (auto simp: remove_sector_def g_atomic_def run_g_need run_gets run_Inr(2) [where m = "delete_sector_permissions s ?g", OF first]
        run_Inr(2) [where m = "delete_queue_permissions s ?g", OF second]
        on_world_def remove_member_def modify_def raise_def split: option.splits if_splits)
  moreover have "holds_queue (w2\<lparr>group_members := m\<rparr>) = holds_queue w2" for m
    by (rule holds_queue_cong) simp_all
  ultimately show ?thesis using gone assms(2,3) same by auto
qed

text \<open>A sector that is taken out of a group and added again is not as before: the agents of the group have lost the
  queues of the sector for good, because adding a sector authorizes the managers of the group only.\<close>

theorem readded_sector_loses_agents:
  assumes "remove_sector s grp d = (Inr (), d1)" and "add_sector s grp d1 = (Inr (), d2)"
    and "p \<in> set (people_of_group d (gse_uuid grp) 2)" and "q \<in> set (queues_of_sector (g_world d) s)"
  shows "\<not> holds_queue (g_world d2) q p"
  using removed_sector_agents [OF assms(1,3,4)] holds_queue_cong [OF added_sector_tables [OF assms(2)]] by simp

definition grouped_agent :: gdb where
  "grouped_agent = grouped\<lparr>g_world := (g_world grouped)\<lparr>group_members := [(''g'', ''s'')],
       queue_auths := [\<lparr>qau_queue = ''q'', qau_role = 1, qau_permission = ''m1'', qau_is_deleted = False\<rparr>]\<rparr>,
     g_auths := [\<lparr>gau_group = ''g'', gau_permission = ''m1'', gau_role = 2\<rparr>]\<rparr>"

theorem readded_sector_loses_agents_witness:
  "\<not> holds_queue (g_world (snd (add_sector ''s'' one_group (snd (remove_sector ''s'' one_group grouped_agent))))) ''q'' ''m1''"
proof -
  let ?d1 = "snd (remove_sector ''s'' one_group grouped_agent)"
  have "fst (remove_sector ''s'' one_group grouped_agent) = Inr ()" "fst (add_sector ''s'' one_group ?d1) = Inr ()"
    by code_simp+
  then have runs: "remove_sector ''s'' one_group grouped_agent = (Inr (), ?d1)"
    "add_sector ''s'' one_group ?d1 = (Inr (), snd (add_sector ''s'' one_group ?d1))"
    by (simp_all add: prod_eq_iff)
  have "''m1'' \<in> set (people_of_group grouped_agent (gse_uuid one_group) 2)"
    "''q'' \<in> set (queues_of_sector (g_world grouped_agent) ''s'')"
    by (simp_all add: grouped_agent_def grouped_def one_group_def people_of_group_def queues_of_sector_def sample_defs)
  from readded_sector_loses_agents [OF runs this] show ?thesis .
qed

section \<open>Authorizing a manager and taking it back\<close>

definition manager_row :: "uuid \<Rightarrow> uuid \<Rightarrow> sector_authorization" where
  "manager_row p s = \<lparr>sau_permission = p, sau_sector = s, sau_role = 1, sau_is_deleted = False\<rparr>"

definition no_manager_row :: "uuid \<Rightarrow> uuid list \<Rightarrow> world \<Rightarrow> bool" where
  "no_manager_row p ks w \<longleftrightarrow>
     (\<forall>a \<in> set (sector_auths w). \<not> (sau_permission a = p \<and> sau_sector a \<in> set ks \<and> \<not> sau_is_deleted a))"

lemma fresh_grants:
  "distinct ks \<Longrightarrow> no_manager_row p ks w \<Longrightarrow>
   for_each (\<lambda>k. sector_set_user_authorization k p) ks w =
     (Inr (), w\<lparr>sector_auths := sector_auths w @ map (manager_row p) ks\<rparr>)"
proof (induction ks arbitrary: w)
  case (Cons k ks)
  have "sector_set_user_authorization k p w = (Inr (), w\<lparr>sector_auths := sector_auths w @ [manager_row p k]\<rparr>)"
    using Cons.prems(2)
    by (auto simp: sector_set_user_authorization_def no_manager_row_def manager_row_def live_sector_auths_def list_ex_iff)
  moreover have "no_manager_row p ks (w\<lparr>sector_auths := sector_auths w @ [manager_row p k]\<rparr>)"
    using Cons.prems by (auto simp: no_manager_row_def manager_row_def)
  ultimately show ?case using Cons.IH Cons.prems(1) by (simp add: andthen_def bnd_def)
qed (simp add: ret_def)

lemma revokes_filter:
  "for_each (\<lambda>k. delete_sector_auths k p) ks w =
     (Inr (), w\<lparr>sector_auths := filter (\<lambda>a. \<not> (sau_sector a \<in> set ks \<and> sau_permission a = p \<and> sau_role a = 1 \<and>
        \<not> sau_is_deleted a \<and> \<not> permission_row_deleted w p)) (sector_auths w)\<rparr>)"
proof (induction ks arbitrary: w)
  case (Cons k ks)
  have "delete_sector_auths k p w = (Inr (), w\<lparr>sector_auths := filter (\<lambda>a. \<not> (sau_sector a = k \<and> sau_permission a = p \<and>
      sau_role a = 1 \<and> \<not> sau_is_deleted a \<and> \<not> permission_row_deleted w p)) (sector_auths w)\<rparr>)"
    by (simp add: delete_sector_auths_def modify_def cong: conj_cong)
  then show ?case
    by (simp add: andthen_def bnd_def Cons.IH deleted_but_auths)
      (rule arg_cong [where f = "\<lambda>x. w\<lparr>sector_auths := x\<rparr>"], rule filter_cong, auto)
qed (simp add: ret_def)

lemma create_manager_InrD:
  assumes "create_group_authorization g p (Int_Role 1) d = (Inr (), d1)"
  shows "live_permission (g_world d) p \<noteq> None"
    and "\<lparr>gau_group = g, gau_permission = p, gau_role = 1\<rparr> \<notin> set (g_auths d)"
    and "for_each (\<lambda>k. sector_set_user_authorization k p) (sectors_of_group (g_world d) g) (g_world d) = (Inr (), w) \<Longrightarrow>
      d1 = d\<lparr>g_world := w, g_auths := g_auths d @ [\<lparr>gau_group = g, gau_permission = p, gau_role = 1\<rparr>]\<rparr>"
proof -
  let ?grants = "for_each (\<lambda>k. sector_set_user_authorization k p) (sectors_of_group (g_world d) g)"
  let ?a = "\<lparr>gau_group = g, gau_permission = p, gau_role = 1\<rparr>"
  show "live_permission (g_world d) p \<noteq> None"
    using assms by (auto simp: create_group_authorization_def run_g_need split: option.splits)
  have "write_group_authorization g p (Int_Role 1) d = (Inr (), d1)"
    using assms by (auto simp: create_group_authorization_def run_g_need g_atomic_def split: option.splits prod.splits sum.splits)
  then have "bnd (gets g_world) (\<lambda>w. andthen (on_world (for_each (\<lambda>k. sector_set_user_authorization k p) (sectors_of_group w g)))
      (create_group_row ?a)) d = (Inr (), d1)"
    by (auto simp: write_group_authorization_def role_number_def try_except_def raise_def split: prod.splits sum.splits)
  then have run: "andthen (on_world ?grants) (create_group_row ?a) d = (Inr (), d1)" by (simp add: run_gets)
  then obtain x t where on: "on_world ?grants d = (Inr x, t)" and row: "create_group_row ?a t = (Inr (), d1)"
    by (rule andthen_InrE)
  obtain v where v: "?grants (g_world d) = (Inr x, v)" "t = d\<lparr>g_world := v\<rparr>" using on by (auto simp: on_world_run)
  show "?a \<notin> set (g_auths d)" using row v by (auto simp: create_group_row_def split: if_splits)
  show "?grants (g_world d) = (Inr (), w) \<Longrightarrow> d1 = d\<lparr>g_world := w, g_auths := g_auths d @ [?a]\<rparr>"
    using row v by (auto simp: create_group_row_def split: if_splits)
qed

text \<open>A manager who had no authorization in a group's sectors can be added to the group and removed again, and
  everything is as before.\<close>

theorem manager_roundtrip:
  assumes "create_group_authorization g p (Int_Role 1) d = (Inr (), d1)"
    and "delete_group_authorization \<lparr>gau_group = g, gau_permission = p, gau_role = 1\<rparr> d1 = (Inr (), d2)"
    and "distinct (map sec_uuid (sectors (g_world d)))" and "distinct (map prm_uuid (permissions (g_world d)))"
    and "no_manager_row p (sectors_of_group (g_world d) g) (g_world d)"
  shows "d2 = d"
proof -
  let ?w = "g_world d" and ?ks = "sectors_of_group (g_world d) g"
  let ?a = "\<lparr>gau_group = g, gau_permission = p, gau_role = 1\<rparr>"
  let ?w1 = "?w\<lparr>sector_auths := sector_auths ?w @ map (manager_row p) ?ks\<rparr>"
  have "distinct ?ks" using assms(3) by (simp add: sectors_of_group_def distinct_map_filter)
  then have grants: "for_each (\<lambda>k. sector_set_user_authorization k p) ?ks ?w = (Inr (), ?w1)"
    using assms(5) by (rule fresh_grants)
  note d1 = create_manager_InrD(3) [OF assms(1) grants] and new = create_manager_InrD(2) [OF assms(1)]
  obtain x where "live_permission ?w p = Some x" using create_manager_InrD(1) [OF assms(1)] by blast
  then have x: "x \<in> set (permissions ?w)" "prm_uuid x = p" "\<not> prm_is_deleted x"
    using find_in_set [of _ "live_permissions ?w" x] by (auto simp: live_permission_def)
  have "\<not> permission_row_deleted ?w p"
    using find_distinct_key [OF assms(4) x(1)] x(2,3) by (simp add: permission_row_deleted_def find_permission_pk_def)
  then have "filter (\<lambda>a. \<not> (sau_sector a \<in> set ?ks \<and> sau_permission a = p \<and> sau_role a = 1 \<and> \<not> sau_is_deleted a \<and>
      \<not> permission_row_deleted ?w1 p)) (sector_auths ?w1) = sector_auths ?w"
    using assms(5) by (auto simp: deleted_but_auths manager_row_def no_manager_row_def filter_empty_conv filter_id_conv)
  then have "for_each (\<lambda>k. delete_sector_auths k p) ?ks ?w1 = (Inr (), ?w)" unfolding revokes_filter by simp
  then have on: "on_world (for_each (\<lambda>k. delete_sector_auths k p) ?ks) d1 = (Inr (), d\<lparr>g_auths := g_auths d @ [?a]\<rparr>)"
    by (simp add: on_world_run d1)
  have ks: "sectors_of_group (g_world d1) g = ?ks" by (simp add: d1 sectors_of_group_def)
  have "filter (\<lambda>x. x \<noteq> ?a) (g_auths d) = g_auths d" using new by (auto simp: filter_id_conv)
  then show ?thesis
    using assms(2) by (simp add: delete_group_authorization_def run_gets ks modify_def
        run_Inr(2) [where m = "on_world (for_each (\<lambda>k. delete_sector_auths k p) ?ks)", OF on])
qed

theorem manager_roundtrip_witness:
  "snd (delete_group_authorization \<lparr>gau_group = ''g'', gau_permission = ''m1'', gau_role = 1\<rparr>
     (snd (create_group_authorization ''g'' ''m1'' (Int_Role 1) grouped))) = grouped"
proof -
  let ?d1 = "snd (create_group_authorization ''g'' ''m1'' (Int_Role 1) grouped)"
  let ?d2 = "snd (delete_group_authorization \<lparr>gau_group = ''g'', gau_permission = ''m1'', gau_role = 1\<rparr> ?d1)"
  have "fst (create_group_authorization ''g'' ''m1'' (Int_Role 1) grouped) = Inr ()"
    "fst (delete_group_authorization \<lparr>gau_group = ''g'', gau_permission = ''m1'', gau_role = 1\<rparr> ?d1) = Inr ()"
    by code_simp+
  then have runs: "create_group_authorization ''g'' ''m1'' (Int_Role 1) grouped = (Inr (), ?d1)"
    "delete_group_authorization \<lparr>gau_group = ''g'', gau_permission = ''m1'', gau_role = 1\<rparr> ?d1 = (Inr (), ?d2)"
    by (simp_all add: prod_eq_iff)
  show ?thesis
    by (rule manager_roundtrip [OF runs]) (simp_all add: grouped_def sample_defs no_manager_row_def)
qed

end
