(* ===== verification/Metric_Goals.thy ===== *)
theory Metric_Goals
  imports Queue_Routing Cache_Backend "HOL-Library.Sublist"
begin

text \<open>
  The metric goals of a project and their alerts: \<open>MetricGoal\<close> (\<open>chats/apps/dashboard/models.py\<close>), their
  configuration (\<open>api/v1/dashboard/metric_goals\<close>), the sweep that detects violations
  (\<open>dashboard/services/metric_goal_alerts.py\<close>) and its tasks (\<open>dashboard/tasks.py\<close>).

  \<^item> The state holds the tables, the goals, Redis, where the sweep flags violating projects under raw keys,
    and the Django cache with the answers of the feature flag, whose keys carry a prefix of their own.
  \<^item> The callbacks of the sweep are its arguments, as in the code; \<open>task_callbacks\<close> are those of the task.
  \<^item> A set difference is walked in the order of the scan, which the cache interface leaves open.
  \<^item> \<open>active * percent / 100\<close> is exact: the rounding of the quotient does not reach the next integer for
    numbers of rooms below \<open>2 ^ 46\<close>.
\<close>

section \<open>Goals\<close>

record metric_goal =
  goa_project :: uuid
  goa_metric :: string
  goa_threshold_seconds :: int
  goa_unit :: string
  goa_is_active :: bool
  goa_email_enabled :: bool
  goa_rooms_threshold_count :: int
  goa_rooms_threshold_percent :: "int option"
  goa_recipients :: "uuid list"

definition METRIC_WAITING_TIME :: string where "METRIC_WAITING_TIME = ''waiting_time''"
definition METRIC_FIRST_RESPONSE_TIME :: string where "METRIC_FIRST_RESPONSE_TIME = ''first_response_time''"
definition METRIC_CONVERSATION_DURATION :: string where "METRIC_CONVERSATION_DURATION = ''conversation_duration''"

definition VALID_METRICS :: "string list" where
  "VALID_METRICS = [METRIC_WAITING_TIME, METRIC_FIRST_RESPONSE_TIME, METRIC_CONVERSATION_DURATION]"

definition DEFAULT_ROOMS_THRESHOLD_COUNT :: int where "DEFAULT_ROOMS_THRESHOLD_COUNT = 5"

record 'c alert_state =
  al_world :: world
  al_goals :: "metric_goal list"
  al_redis :: 'c
  al_flags :: 'c

text \<open>What a sweep finds around it: both stores speak \<open>ops\<close>; the time to live of a flag; the names of the groups.\<close>

record 'c alert_env =
  ale_env :: env
  ale_ops :: "'c cache_ops"
  ale_flag_ttl :: int
  ale_user_hash :: "email \<Rightarrow> string"

definition on_world :: "(world, 'a) py \<Rightarrow> ('c alert_state, 'a) py" where
  "on_world m s = (case m (al_world s) of (r, w) \<Rightarrow> (r, s\<lparr>al_world := w\<rparr>))"

definition is_metric_goal_alerts_enabled :: "'c alert_env \<Rightarrow> uuid \<Rightarrow> ('c alert_state, bool) py" where
  "is_metric_goal_alerts_enabled cx k = (\<lambda>s.
     if k = [] then (Inr False, s)
     else let key = ''metric_goal_alerts_ff:'' @ k in
       case c_get (ale_ops cx) key (al_flags s) of
         Some v \<Rightarrow> (Inr (truthy v), s)
       | None \<Rightarrow> (case flag_attr (ale_env cx) ''weniChatsMetricGoalAlerts'' k of
             None \<Rightarrow> (Inr False, s)
           | Some enabled \<Rightarrow> (Inr enabled,
               if 0 < ale_flag_ttl cx
               then s\<lparr>al_flags := c_set (ale_ops cx) key (JBool enabled) (Some (ale_flag_ttl cx)) (al_flags s)\<rparr>
               else s)))"

section \<open>Rooms in violation\<close>

record violation =
  vio_project :: uuid
  vio_metric :: string
  vio_violating_count :: nat
  vio_max_value_seconds :: int
  vio_threshold_seconds :: int
  vio_rooms_threshold_count :: int
  vio_rooms_threshold_percent :: "int option"
  vio_active_rooms_count :: "nat option"
  vio_email_enabled :: bool
  vio_detected_at :: timestamp

definition meets_rooms_threshold :: "violation \<Rightarrow> bool" where
  "meets_rooms_threshold v \<longleftrightarrow> vio_rooms_threshold_count v \<le> int (vio_violating_count v)"

definition not_after :: "timestamp option \<Rightarrow> timestamp \<Rightarrow> bool" where
  "not_after t cutoff \<longleftrightarrow> (case t of None \<Rightarrow> False | Some x \<Rightarrow> x \<le> cutoff)"

definition has_responded :: "world \<Rightarrow> room \<Rightarrow> bool" where
  "has_responded w r \<longleftrightarrow> list_ex (\<lambda>m. met_room m = rm_uuid r \<and>
     (case met_first_response_time m of None \<Rightarrow> False | Some t \<Rightarrow> 0 < t)) (metrics w)"

definition build_violation_queryset :: "world \<Rightarrow> string \<Rightarrow> uuid \<Rightarrow> timestamp \<Rightarrow> exn + room list" where
  "build_violation_queryset w metric prj cutoff =
     (let base = filter (\<lambda>r. room_in_project w prj r \<and> rm_is_active r) (rooms w) in
      if metric = METRIC_WAITING_TIME
      then Inr (filter (\<lambda>r. rm_user r = None \<and> not_after (rm_added_to_queue_at r) cutoff) base)
      else if metric = METRIC_FIRST_RESPONSE_TIME
      then Inr (filter (\<lambda>r. rm_user r \<noteq> None \<and> not_after (rm_first_user_assigned_at r) cutoff
                            \<and> \<not> has_responded w r) base)
      else if metric = METRIC_CONVERSATION_DURATION
      then Inr (filter (\<lambda>r. rm_user r \<noteq> None \<and> not_after (rm_first_user_assigned_at r) cutoff) base)
      else Inl (ValueError ''Unknown metric''))"

definition max_age_field :: "string \<Rightarrow> room \<Rightarrow> timestamp option" where
  "max_age_field metric = (if metric = METRIC_WAITING_TIME then rm_added_to_queue_at else rm_first_user_assigned_at)"

text \<open>\<open>aggregate(oldest=Max(field))\<close>.\<close>

definition aggregate_max :: "(room \<Rightarrow> timestamp option) \<Rightarrow> room list \<Rightarrow> timestamp option" where
  "aggregate_max field rs = (case List.map_filter field rs of [] \<Rightarrow> None | t # ts \<Rightarrow> Some (fold max ts t))"

definition resolve_threshold_count :: "metric_goal \<Rightarrow> nat option \<Rightarrow> int" where
  "resolve_threshold_count g active =
     (case (goa_rooms_threshold_percent g, active) of
        (Some p, Some n) \<Rightarrow> if p \<noteq> 0 then max 1 (- ((- (int n * p)) div 100))
          else if goa_rooms_threshold_count g \<noteq> 0 then goa_rooms_threshold_count g else DEFAULT_ROOMS_THRESHOLD_COUNT
      | _ \<Rightarrow> if goa_rooms_threshold_count g \<noteq> 0 then goa_rooms_threshold_count g else DEFAULT_ROOMS_THRESHOLD_COUNT)"

text \<open>The dictionary of counts has a key only for a project with an active room.\<close>

definition project_active_room_count :: "world \<Rightarrow> uuid list \<Rightarrow> uuid \<Rightarrow> nat option" where
  "project_active_room_count w prjs prj =
     (let n = count_where (\<lambda>r. room_in_project w prj r \<and> rm_is_active r) (rooms w)
      in if prj \<in> set prjs \<and> n \<noteq> 0 then Some n else None)"

fun keep_enabled :: "'c alert_env \<Rightarrow> metric_goal list \<Rightarrow> ('c alert_state, metric_goal list) py" where
  "keep_enabled cx [] = ret []"
| "keep_enabled cx (g # gs) = bnd (is_metric_goal_alerts_enabled cx (goa_project g)) (\<lambda>on.
     bnd (keep_enabled cx gs) (\<lambda>rest. ret (if on then g # rest else rest)))"

definition violation_of ::
  "world \<Rightarrow> timestamp \<Rightarrow> string \<Rightarrow> (uuid \<Rightarrow> nat option) \<Rightarrow> metric_goal \<Rightarrow> exn + violation option" where
  "violation_of w now metric active_count g =
     map_sum id (\<lambda>rs.
       if rs = [] then None
       else let active = active_count (goa_project g) in
         Some \<lparr>vio_project = goa_project g, vio_metric = metric, vio_violating_count = length rs,
           vio_max_value_seconds = (case aggregate_max (max_age_field metric) rs of
               None \<Rightarrow> 0 | Some oldest \<Rightarrow> trunc_seconds (now - oldest)),
           vio_threshold_seconds = goa_threshold_seconds g,
           vio_rooms_threshold_count = resolve_threshold_count g active,
           vio_rooms_threshold_percent = goa_rooms_threshold_percent g,
           vio_active_rooms_count = active, vio_email_enabled = goa_email_enabled g, vio_detected_at = now\<rparr>)
       (build_violation_queryset w metric (goa_project g) (now - micros (goa_threshold_seconds g)))"

fun violations_of ::
  "world \<Rightarrow> timestamp \<Rightarrow> string \<Rightarrow> (uuid \<Rightarrow> nat option) \<Rightarrow> metric_goal list \<Rightarrow> exn + violation list" where
  "violations_of w now metric active_count [] = Inr []"
| "violations_of w now metric active_count (g # gs) = (case violation_of w now metric active_count g of
     Inl e \<Rightarrow> Inl e
   | Inr v \<Rightarrow> map_sum id (\<lambda>vs. (case v of None \<Rightarrow> vs | Some x \<Rightarrow> x # vs)) (violations_of w now metric active_count gs))"

definition detect_violations :: "'c alert_env \<Rightarrow> string \<Rightarrow> ('c alert_state, violation list) py" where
  "detect_violations cx metric =
     bnd (gets (\<lambda>s. filter (\<lambda>g. goa_metric g = metric \<and> goa_is_active g) (al_goals s))) (\<lambda>all_goals.
     bnd (keep_enabled cx all_goals) (\<lambda>goals.
     bnd (gets al_world) (\<lambda>w.
       if goals = [] then ret []
       else let needs_count = list_ex (\<lambda>g. goa_rooms_threshold_percent g \<notin> {None, Some 0}) goals;
                counts = (if needs_count then project_active_room_count w (map goa_project goals) else (\<lambda>_. None))
            in lift_result (violations_of w (env_now (ale_env cx)) metric counts goals))))"

section \<open>The flags in Redis\<close>

definition state_prefix :: string where "state_prefix = ''metric_goal_state:''"
definition alert_prefix :: string where "alert_prefix = ''metric_goal_alert_state:''"

definition template_key :: "string \<Rightarrow> uuid \<Rightarrow> string \<Rightarrow> string" where
  "template_key tpl prj metric = tpl @ prj @ '':'' @ metric"

definition state_key :: "uuid \<Rightarrow> string \<Rightarrow> string" where
  "state_key prj metric = template_key state_prefix prj metric"

definition alert_state_key :: "uuid \<Rightarrow> string \<Rightarrow> string" where
  "alert_state_key prj metric = template_key alert_prefix prj metric"

text \<open>SET NX EX, or a new time to live for a key that is there.\<close>

definition claim_key :: "'c cache_ops \<Rightarrow> string \<Rightarrow> json \<Rightarrow> int \<Rightarrow> ('c alert_state, bool) py" where
  "claim_key ops key v ttl = (\<lambda>s.
     let (was_set, r) = c_add ops key v ttl (al_redis s)
     in if was_set then (Inr True, s\<lparr>al_redis := r\<rparr>)
        else (Inr False, s\<lparr>al_redis := c_expire ops key ttl r\<rparr>))"

definition claim_state :: "'c cache_ops \<Rightarrow> uuid \<Rightarrow> string \<Rightarrow> int \<Rightarrow> ('c alert_state, bool) py" where
  "claim_state ops prj metric ttl = claim_key ops (state_key prj metric) (JStr ''violating'') ttl"

definition claim_alert_state :: "'c cache_ops \<Rightarrow> uuid \<Rightarrow> string \<Rightarrow> int \<Rightarrow> ('c alert_state, bool) py" where
  "claim_alert_state ops prj metric ttl = claim_key ops (alert_state_key prj metric) (JStr ''alerting'') ttl"

definition clear_state :: "'c cache_ops \<Rightarrow> uuid \<Rightarrow> string \<Rightarrow> ('c alert_state, unit) py" where
  "clear_state ops prj metric =
     modify (\<lambda>s. s\<lparr>al_redis := snd (c_delete ops (state_key prj metric) (al_redis s))\<rparr>)"

definition clear_alert_state :: "'c cache_ops \<Rightarrow> uuid \<Rightarrow> string \<Rightarrow> ('c alert_state, unit) py" where
  "clear_alert_state ops prj metric =
     modify (\<lambda>s. s\<lparr>al_redis := snd (c_delete ops (alert_state_key prj metric) (al_redis s))\<rparr>)"

text \<open>\<open>key.split(":")[1]\<close> of a key with a colon.\<close>

definition split_second :: "string \<Rightarrow> string" where
  "split_second key = takeWhile (\<lambda>c. c \<noteq> CHR '':'') (drop 1 (dropWhile (\<lambda>c. c \<noteq> CHR '':'') key))"

definition keys_for_metric :: "'c cache_ops \<Rightarrow> string \<Rightarrow> string \<Rightarrow> 'c \<Rightarrow> uuid list" where
  "keys_for_metric ops tpl metric r = remdups (map split_second (c_scan ops tpl ('':'' @ metric) r))"

section \<open>The sweep\<close>

record 'c callbacks =
  cb_new_alert :: "(violation \<Rightarrow> ('c alert_state, unit) py) option"
  cb_update :: "(violation \<Rightarrow> ('c alert_state, unit) py) option"
  cb_resolved :: "(uuid \<Rightarrow> string \<Rightarrow> ('c alert_state, unit) py) option"
  cb_toast :: "(violation \<Rightarrow> ('c alert_state, unit) py) option"
  cb_email :: "(violation \<Rightarrow> ('c alert_state, unit) py) option"

record processing_result =
  pr_metric :: string
  pr_new_alerts :: "violation list"
  pr_updates :: "violation list"
  pr_resolved :: "uuid list"
  pr_toasts :: "violation list"

definition safe_call :: "('c alert_state, unit) py option \<Rightarrow> ('c alert_state, bool) py" where
  "safe_call callback = (case callback of None \<Rightarrow> ret False
     | Some m \<Rightarrow> try_except (andthen m (ret True)) (\<lambda>_. ret False))"

text \<open>One violation of the loop: the widget, then the toast and the e-mail.\<close>

definition process_one ::
  "'c cache_ops \<Rightarrow> 'c callbacks \<Rightarrow> string \<Rightarrow> int \<Rightarrow> violation \<Rightarrow> processing_result \<Rightarrow>
   ('c alert_state, processing_result) py" where
  "process_one ops cb metric ttl v res =
     bnd (claim_state ops (vio_project v) metric ttl) (\<lambda>is_new.
     bnd (if is_new then safe_call (map_option (\<lambda>f. f v) (cb_new_alert cb))
          else safe_call (map_option (\<lambda>f. f v) (cb_update cb))) (\<lambda>_.
     let res1 = (if is_new then res\<lparr>pr_new_alerts := pr_new_alerts res @ [v]\<rparr>
                 else res\<lparr>pr_updates := pr_updates res @ [v]\<rparr>)
     in if \<not> vio_email_enabled v \<or> \<not> meets_rooms_threshold v then ret res1
        else bnd (claim_alert_state ops (vio_project v) metric ttl) (\<lambda>is_new_toast.
          if \<not> is_new_toast then ret res1
          else bnd (safe_call (map_option (\<lambda>f. f v) (cb_toast cb))) (\<lambda>_.
            bnd (safe_call (map_option (\<lambda>f. f v) (cb_email cb))) (\<lambda>_.
            ret (res1\<lparr>pr_toasts := pr_toasts res1 @ [v]\<rparr>))))))"

definition resolve_one ::
  "'c cache_ops \<Rightarrow> 'c callbacks \<Rightarrow> string \<Rightarrow> uuid \<Rightarrow> ('c alert_state, unit) py" where
  "resolve_one ops cb metric prj = sequence
     [clear_state ops prj metric, clear_alert_state ops prj metric,
      andthen (safe_call (map_option (\<lambda>f. f prj metric) (cb_resolved cb))) (ret ())]"

definition process_violations ::
  "'c alert_env \<Rightarrow> 'c callbacks \<Rightarrow> string \<Rightarrow> int \<Rightarrow> ('c alert_state, processing_result) py" where
  "process_violations cx cb metric ttl = (let ops = ale_ops cx in
     bnd (detect_violations cx metric) (\<lambda>vs.
     bnd (gets (\<lambda>s. (keys_for_metric ops state_prefix metric (al_redis s),
                     keys_for_metric ops alert_prefix metric (al_redis s)))) (\<lambda>(previously_violating, previously_alerting).
     bnd (fold_each (process_one ops cb metric ttl) vs
            \<lparr>pr_metric = metric, pr_new_alerts = [], pr_updates = [], pr_resolved = [], pr_toasts = []\<rparr>) (\<lambda>res.
     let currently_violating = map vio_project vs;
         currently_alerting = map vio_project (filter (\<lambda>v. vio_email_enabled v \<and> meets_rooms_threshold v) vs);
         resolved = filter (\<lambda>p. p \<notin> set currently_violating) previously_violating;
         dropped = filter (\<lambda>p. p \<notin> set currently_alerting \<and> p \<in> set currently_violating) previously_alerting
     in andthen (for_each (resolve_one ops cb metric) resolved)
        (andthen (for_each (\<lambda>p. clear_alert_state ops p metric) dropped)
          (ret (res\<lparr>pr_resolved := resolved\<rparr>)))))))"

section \<open>The tasks\<close>

definition lower_strip :: "string \<Rightarrow> string" where
  "lower_strip s = map lower_char (strip s)"

definition project_group_name :: "uuid \<Rightarrow> string" where
  "project_group_name prj = ''metric_goal_alerts.'' @ prj"

definition group_name_for :: "'c alert_env \<Rightarrow> uuid \<Rightarrow> email \<Rightarrow> string" where
  "group_name_for cx prj email = ''metric_goal_alerts.'' @ prj @ ''.'' @ ale_user_hash cx (lower_strip email)"

definition broadcast_metric_goal :: "'c alert_env \<Rightarrow> uuid \<Rightarrow> string \<Rightarrow> string \<Rightarrow> ('c alert_state, unit) py" where
  "broadcast_metric_goal cx prj call_type action = on_world
     (send_channels_group (ale_env cx) (project_group_name prj) call_type action (set_ws_retries (ale_env cx)))"

text \<open>The loop over the recipients with its set of addresses that were served.\<close>

fun broadcast_to_emails ::
  "'c alert_env \<Rightarrow> uuid \<Rightarrow> string \<Rightarrow> string \<Rightarrow> email list \<Rightarrow> email list \<Rightarrow> ('c alert_state, unit) py" where
  "broadcast_to_emails cx prj call_type action [] seen = ret ()"
| "broadcast_to_emails cx prj call_type action (e # es) seen =
     (let normalized = lower_strip e in
      if e = [] \<or> normalized \<in> set seen then broadcast_to_emails cx prj call_type action es seen
      else andthen (on_world (send_channels_group (ale_env cx) (group_name_for cx prj normalized) call_type action
               (set_ws_retries (ale_env cx))))
             (broadcast_to_emails cx prj call_type action es (normalized # seen)))"

definition is_admin :: "permission \<Rightarrow> bool" where
  "is_admin p \<longleftrightarrow> prm_role p = 1"

definition is_eligible_recipient :: "world \<Rightarrow> permission \<Rightarrow> bool" where
  "is_eligible_recipient w p \<longleftrightarrow> is_admin p \<or> list_ex (\<lambda>a. sau_permission a = prm_uuid p) (live_sector_auths w)"

definition eligible_recipient_emails :: "world \<Rightarrow> metric_goal \<Rightarrow> email list" where
  "eligible_recipient_emails w g = List.map_filter
     (\<lambda>p. case prm_user p of Some (c # cs) \<Rightarrow>
            if is_eligible_recipient w p then Some (lower_strip (c # cs)) else None | _ \<Rightarrow> None)
     (filter (\<lambda>p. prm_uuid p \<in> set (goa_recipients g)) (live_permissions w))"

definition goal_for :: "metric_goal list \<Rightarrow> uuid \<Rightarrow> string \<Rightarrow> metric_goal option" where
  "goal_for gs prj metric = find (\<lambda>g. goa_project g = prj \<and> goa_metric g = metric) gs"

definition broadcast_new_alert :: "'c alert_env \<Rightarrow> violation \<Rightarrow> ('c alert_state, unit) py" where
  "broadcast_new_alert cx v = broadcast_metric_goal cx (vio_project v) ''metric_goal_violated'' ''metric_goal.violated''"

definition broadcast_update :: "'c alert_env \<Rightarrow> violation \<Rightarrow> ('c alert_state, unit) py" where
  "broadcast_update cx v = broadcast_metric_goal cx (vio_project v) ''metric_goal_update'' ''metric_goal.update''"

definition broadcast_resolved :: "'c alert_env \<Rightarrow> uuid \<Rightarrow> string \<Rightarrow> ('c alert_state, unit) py" where
  "broadcast_resolved cx prj metric = broadcast_metric_goal cx prj ''metric_goal_resolved'' ''metric_goal.resolved''"

definition broadcast_toast :: "'c alert_env \<Rightarrow> violation \<Rightarrow> ('c alert_state, unit) py" where
  "broadcast_toast cx v =
     bnd (gets (\<lambda>s. case goal_for (al_goals s) (vio_project v) (vio_metric v) of
            None \<Rightarrow> [] | Some g \<Rightarrow> eligible_recipient_emails (al_world s) g)) (\<lambda>recipients.
       broadcast_to_emails cx (vio_project v) ''metric_goal_alert'' ''metric_goal.alert'' recipients [])"

definition queue_metric_goal_email :: "'c alert_env \<Rightarrow> violation \<Rightarrow> ('c alert_state, unit) py" where
  "queue_metric_goal_email cx v = on_world (delay (ale_env cx) ''send_metric_goal_email''
     [vio_project v, vio_metric v, show_int (int (vio_violating_count v)), show_int (vio_threshold_seconds v),
      show_int (vio_max_value_seconds v), show_int (vio_rooms_threshold_count v)])"

definition task_callbacks :: "'c alert_env \<Rightarrow> 'c callbacks" where
  "task_callbacks cx = \<lparr>cb_new_alert = Some (broadcast_new_alert cx), cb_update = Some (broadcast_update cx),
     cb_resolved = Some (broadcast_resolved cx), cb_toast = Some (broadcast_toast cx),
     cb_email = Some (queue_metric_goal_email cx)\<rparr>"

definition check_metric_goal_violations :: "'c alert_env \<Rightarrow> int \<Rightarrow> ('c alert_state, unit) py" where
  "check_metric_goal_violations cx ttl = for_each (\<lambda>metric. try_except
     (andthen (process_violations cx (task_callbacks cx) metric ttl) (ret ())) (\<lambda>_. ret ())) VALID_METRICS"

text \<open>The oracle of \<open>email.send\<close> is that of the task queue, under a name of its own.\<close>

definition send_metric_goal_email :: "'c alert_env \<Rightarrow> uuid \<Rightarrow> string \<Rightarrow> ('c alert_state, unit) py" where
  "send_metric_goal_email cx prj metric = bnd (gets (\<lambda>s. goal_for (al_goals s) prj metric)) (\<lambda>found.
     case found of None \<Rightarrow> ret ()
     | Some g \<Rightarrow> if \<not> goa_is_active g \<or> \<not> goa_email_enabled g then ret ()
       else bnd (is_metric_goal_alerts_enabled cx prj) (\<lambda>on. if \<not> on then ret ()
         else bnd (gets (\<lambda>s. eligible_recipient_emails (al_world s) g)) (\<lambda>recipients.
           if recipients = [] then ret ()
           else on_world (when_true (task_ok (ale_env cx) ''email.send'' recipients) (emit (Mail metric recipients))))))"

section \<open>The widget of the dashboard\<close>

record filters =
  fil_sector :: "uuid list"
  fil_queue :: "uuid list"
  fil_tag :: "uuid list"
  fil_agent :: "email option"

text \<open>How often a row is in the filtered query: the tags are joined without \<open>distinct\<close>.\<close>

definition filter_multiplicity :: "world \<Rightarrow> filters option \<Rightarrow> room \<Rightarrow> nat" where
  "filter_multiplicity w f r = (case f of None \<Rightarrow> 1 | Some f \<Rightarrow>
     (let in_sector = (case queue_of w r of None \<Rightarrow> False | Some q \<Rightarrow> que_sector q \<in> set (fil_sector f));
          in_queue = (case rm_queue r of None \<Rightarrow> False | Some q \<Rightarrow> q \<in> set (fil_queue f))
      in if (fil_sector f = [] \<or> in_sector) \<and> (fil_queue f = [] \<or> in_queue)
            \<and> (fil_agent f \<in> {None, Some []} \<or> rm_user r = fil_agent f)
         then if fil_sector f \<noteq> [] \<and> fil_tag f \<noteq> []
              then count_where (\<lambda>t. t \<in> set (fil_tag f)) (rm_tags r) else 1
         else 0))"

definition no_response_yet :: "world \<Rightarrow> room \<Rightarrow> bool" where
  "no_response_yet w r \<longleftrightarrow> (case find (\<lambda>m. met_room m = rm_uuid r) (metrics w) of
     None \<Rightarrow> True | Some m \<Rightarrow> met_first_response_time m \<in> {None, Some 0})"

definition count_breached_rooms :: "world \<Rightarrow> timestamp \<Rightarrow> metric_goal \<Rightarrow> filters option \<Rightarrow> nat" where
  "count_breached_rooms w now g f =
     (let cutoff = now - micros (goa_threshold_seconds g);
          base = filter (\<lambda>r. room_in_project w (goa_project g) r \<and> rm_is_active r) (rooms w);
          assigned = (\<lambda>r. rm_user r \<noteq> None \<and> not_after (rm_first_user_assigned_at r) cutoff);
          total = (\<lambda>p. sum_list (map (filter_multiplicity w f) (filter p base)))
      in if goa_metric g = METRIC_WAITING_TIME
         then total (\<lambda>r. rm_user r = None \<and> not_after (rm_added_to_queue_at r) cutoff)
         else if goa_metric g = METRIC_FIRST_RESPONSE_TIME then total (\<lambda>r. assigned r \<and> no_response_yet w r)
         else if goa_metric g = METRIC_CONVERSATION_DURATION then total assigned
         else 0)"

definition UNIT_TO_SECONDS :: "(string \<times> int) list" where
  "UNIT_TO_SECONDS = [(''s'', 1), (''m'', 60), (''h'', 3600)]"

definition threshold_seconds_to_unit_value :: "int \<Rightarrow> string \<Rightarrow> int" where
  "threshold_seconds_to_unit_value seconds unit =
     (let n = (case map_of UNIT_TO_SECONDS unit of None \<Rightarrow> 1 | Some n \<Rightarrow> n)
      in if n \<le> 0 then seconds else seconds div n)"

record goal_entry =
  gen_threshold_seconds :: int
  gen_threshold_value :: int
  gen_unit :: string
  gen_is_breached :: bool
  gen_breached_rooms_count :: nat

definition build_goal_entry :: "world \<Rightarrow> timestamp \<Rightarrow> filters option \<Rightarrow> metric_goal \<Rightarrow> goal_entry" where
  "build_goal_entry w now f g = (let n = count_breached_rooms w now g f in
     \<lparr>gen_threshold_seconds = goa_threshold_seconds g,
      gen_threshold_value = threshold_seconds_to_unit_value (goa_threshold_seconds g) (goa_unit g),
      gen_unit = goa_unit g, gen_is_breached = 1 \<le> n, gen_breached_rooms_count = n\<rparr>)"

definition get_goals_payload ::
  "world \<Rightarrow> metric_goal list \<Rightarrow> timestamp \<Rightarrow> uuid \<Rightarrow> filters option \<Rightarrow> (string \<times> goal_entry) list" where
  "get_goals_payload w gs now prj f = map (\<lambda>g. (goa_metric g @ ''_goal'', build_goal_entry w now f g))
     (filter (\<lambda>g. goa_project g = prj \<and> goa_is_active g) gs)"

section \<open>Configuration\<close>

record goal_input =
  gin_threshold :: "int option"
  gin_threshold_seconds :: "int option"
  gin_unit :: string
  gin_is_active :: bool
  gin_email_enabled :: bool
  gin_rooms_threshold_count :: int
  gin_rooms_threshold_percent :: "int option"
  gin_recipients :: "email list option"

text \<open>\<open>validate_recipients\<close>: the permissions of the addresses, all eligible.\<close>

definition validate_recipients :: "world \<Rightarrow> uuid \<Rightarrow> email list \<Rightarrow> exn + uuid list" where
  "validate_recipients w prj emails =
     (let ps = filter (\<lambda>p. prm_project p = prj \<and> (case prm_user p of None \<Rightarrow> False | Some e \<Rightarrow> e \<in> set emails))
                 (live_permissions w)
      in if length ps \<noteq> length (remdups emails) then Inl (ValidationError ''recipients'')
         else if \<not> list_all (is_eligible_recipient w) ps then Inl (ValidationError ''recipients'')
         else Inr (map prm_uuid ps))"

text \<open>The checks of the fields, then \<open>validate\<close>: the threshold in seconds and the recipients, if given.\<close>

definition validate_goal :: "world \<Rightarrow> uuid \<Rightarrow> goal_input \<Rightarrow> exn + int \<times> uuid list option" where
  "validate_goal w prj i =
     (if (case gin_threshold i of None \<Rightarrow> False | Some n \<Rightarrow> n < 1)
         \<or> (case gin_threshold_seconds i of None \<Rightarrow> False | Some n \<Rightarrow> n < 1)
         \<or> gin_unit i \<notin> fst ` set UNIT_TO_SECONDS \<or> gin_rooms_threshold_count i < 0
         \<or> (case gin_rooms_threshold_percent i of None \<Rightarrow> False | Some n \<Rightarrow> n < 1 \<or> 100 < n)
      then Inl (ValidationError ''field'')
      else case (case gin_recipients i of None \<Rightarrow> Inr None
                 | Some es \<Rightarrow> map_sum id Some (validate_recipients w prj es)) of
        Inl e \<Rightarrow> Inl e
      | Inr recipients \<Rightarrow>
          (case (gin_threshold i, gin_threshold_seconds i) of
             (None, None) \<Rightarrow> Inl (ValidationError ''threshold'')
           | (t, s) \<Rightarrow>
             if gin_email_enabled i \<and> gin_rooms_threshold_count i = 0
             then Inl (ValidationError ''rooms_threshold_count'')
             else Inr (case t of Some n \<Rightarrow> n * the (map_of UNIT_TO_SECONDS (gin_unit i)) | None \<Rightarrow> the s, recipients)))"

definition ensure_can_configure :: "'c alert_env \<Rightarrow> uuid \<Rightarrow> email \<Rightarrow> ('c alert_state, unit) py" where
  "ensure_can_configure cx prj u = bnd (is_metric_goal_alerts_enabled cx prj) (\<lambda>on.
     if \<not> on then raise (PermissionDenied ''feature'')
     else bnd (gets (\<lambda>s. (al_world s,
            find (\<lambda>p. prm_project p = prj \<and> prm_user p = Some u) (live_permissions (al_world s))))) (\<lambda>(w, found).
       case found of None \<Rightarrow> raise (PermissionDenied ''project'')
       | Some p \<Rightarrow>
           if is_admin p \<or> list_ex (\<lambda>a. sau_permission a = prm_uuid p \<and> sau_role a = 1) (live_sector_auths w)
           then ret () else raise (PermissionDenied ''role'')))"

text \<open>The columns are PostgreSQL integers: a number that does not fit raises \<open>DataError\<close>.\<close>

definition column_max :: int where "column_max = 2147483647"

definition update_or_create_goal ::
  "uuid \<Rightarrow> string \<Rightarrow> goal_input \<Rightarrow> int \<Rightarrow> uuid list option \<Rightarrow> ('c alert_state, unit) py" where
  "update_or_create_goal prj metric i seconds recipients =
     (if column_max < seconds \<or> column_max < gin_rooms_threshold_count i
      then raise (ExternalError ''integer out of range'')
      else modify (\<lambda>s.
        let is_it = (\<lambda>g. goa_project g = prj \<and> goa_metric g = metric);
            stored = (\<lambda>g. g\<lparr>goa_threshold_seconds := seconds, goa_unit := gin_unit i, goa_is_active := gin_is_active i,
               goa_email_enabled := gin_email_enabled i, goa_rooms_threshold_count := gin_rooms_threshold_count i,
               goa_rooms_threshold_percent := gin_rooms_threshold_percent i,
               goa_recipients := (case recipients of None \<Rightarrow> goa_recipients g | Some ks \<Rightarrow> ks)\<rparr>);
            fresh = \<lparr>goa_project = prj, goa_metric = metric, goa_threshold_seconds = 0, goa_unit = ''s'',
               goa_is_active = True, goa_email_enabled = False, goa_rooms_threshold_count = 0,
               goa_rooms_threshold_percent = None, goa_recipients = []\<rparr>
        in s\<lparr>al_goals := (if list_ex is_it (al_goals s) then update_where is_it stored (al_goals s)
                         else al_goals s @ [stored fresh])\<rparr>))"

definition upsert_metric_goal ::
  "'c alert_env \<Rightarrow> uuid \<Rightarrow> email \<Rightarrow> string \<Rightarrow> goal_input \<Rightarrow> ('c alert_state, metric_goal option) py" where
  "upsert_metric_goal cx prj u metric i =
     (if metric \<notin> set VALID_METRICS then raise (ValidationError ''metric'')
      else andthen (ensure_can_configure cx prj u)
        (bnd (gets (\<lambda>s. validate_goal (al_world s) prj i)) (\<lambda>checked.
         bnd (lift_result checked) (\<lambda>(seconds, recipients).
         andthen (update_or_create_goal prj metric i seconds recipients)
           (gets (\<lambda>s. goal_for (al_goals s) prj metric))))))"

definition delete_metric_goal :: "'c alert_env \<Rightarrow> uuid \<Rightarrow> email \<Rightarrow> string \<Rightarrow> ('c alert_state, unit) py" where
  "delete_metric_goal cx prj u metric =
     (if metric \<notin> set VALID_METRICS then raise (ValidationError ''metric'')
      else andthen (ensure_can_configure cx prj u)
        (bnd (gets (\<lambda>s. goal_for (al_goals s) prj metric)) (\<lambda>found.
         case found of None \<Rightarrow> raise (DoesNotExist ''No goal configured for this metric'')
         | Some _ \<Rightarrow> modify (\<lambda>s. s\<lparr>al_goals := filter (\<lambda>g. \<not> (goa_project g = prj \<and> goa_metric g = metric)) (al_goals s)\<rparr>))))"

section \<open>The flags as sets\<close>

definition flagged :: "'c cache_ops \<Rightarrow> string \<Rightarrow> string \<Rightarrow> 'c \<Rightarrow> uuid set" where
  "flagged ops tpl metric r = {p. c_get ops (template_key tpl p metric) r \<noteq> None}"

definition plain :: "uuid \<Rightarrow> bool" where
  "plain p \<longleftrightarrow> CHR '':'' \<notin> set p"

lemma template_key_same [simp]: "template_key tpl p m = template_key tpl q m \<longleftrightarrow> p = q"
  by (simp add: template_key_def)

lemma template_key_differ [simp]:
  "template_key state_prefix p m \<noteq> template_key alert_prefix q n"
  "template_key alert_prefix q n \<noteq> template_key state_prefix p m"
  by (auto simp: template_key_def state_prefix_def alert_prefix_def)

lemma takeWhile_plain: "plain p \<Longrightarrow> takeWhile (\<lambda>c. c \<noteq> CHR '':'') (p @ CHR '':'' # m) = p"
  unfolding plain_def by (induction p) auto

lemma split_second_template:
  assumes "plain p" "tpl \<in> {state_prefix, alert_prefix}"
  shows "split_second (template_key tpl p m) = p"
  using assms takeWhile_plain [OF assms(1)]
  by (auto simp: split_second_def template_key_def state_prefix_def alert_prefix_def)

definition same_redis :: "'c alert_state \<Rightarrow> 'c alert_state \<Rightarrow> bool" where
  "same_redis s t \<longleftrightarrow> al_redis t = al_redis s \<and> al_goals t = al_goals s"

interpretation redis: step_order same_redis
  by unfold_locales (auto simp: same_redis_def)

lemma keeps_on_world: "keeps same_redis (on_world m)"
  by (rule keepsI) (simp add: on_world_def same_redis_def split: prod.splits)

lemma keeps_enabled: "keeps same_redis (is_metric_goal_alerts_enabled cx k)"
  by (rule keepsI) (simp add: is_metric_goal_alerts_enabled_def same_redis_def Let_def split: option.splits)

lemma keeps_broadcast_to_emails: "keeps same_redis (broadcast_to_emails cx prj c a es seen)"
  by (induction es arbitrary: seen) (auto simp: Let_def intro!: redis.keeps_structure keeps_on_world)

lemma keeps_callbacks:
  "keeps same_redis (broadcast_new_alert cx v)" "keeps same_redis (broadcast_update cx v)"
  "keeps same_redis (broadcast_resolved cx prj metric)" "keeps same_redis (broadcast_toast cx v)"
  "keeps same_redis (queue_metric_goal_email cx v)"
  unfolding broadcast_new_alert_def broadcast_update_def broadcast_resolved_def broadcast_toast_def
    queue_metric_goal_email_def broadcast_metric_goal_def
  by (intro redis.keeps_structure keeps_on_world keeps_broadcast_to_emails)+

lemma keeps_keep_enabled: "keeps same_redis (keep_enabled cx gs)"
  by (induction gs) (auto intro!: redis.keeps_structure keeps_enabled)

section \<open>What the sweep does to the flags\<close>

text \<open>The interface of the sweep: a store with its laws and callbacks that leave Redis alone.\<close>

locale alert_sweep = cache_backend ops for ops :: "'c cache_ops" +
  fixes cb :: "'c callbacks" and metric :: string and ttl :: int
  assumes ttl_pos: "0 < ttl"
    and cb_keep: "cb_new_alert cb = Some f \<Longrightarrow> keeps same_redis (f v)"
      "cb_update cb = Some f \<Longrightarrow> keeps same_redis (f v)"
      "cb_toast cb = Some f \<Longrightarrow> keeps same_redis (f v)"
      "cb_email cb = Some f \<Longrightarrow> keeps same_redis (f v)"
      "cb_resolved cb = Some g \<Longrightarrow> keeps same_redis (g prj metric)"
begin

definition violating :: "'c alert_state \<Rightarrow> uuid set" where
  "violating s = flagged ops state_prefix metric (al_redis s)"

definition alerting :: "'c alert_state \<Rightarrow> uuid set" where
  "alerting s = flagged ops alert_prefix metric (al_redis s)"

lemma sets_of_redis:
  "al_redis t = al_redis s \<Longrightarrow> violating t = violating s"
  "al_redis t = al_redis s \<Longrightarrow> alerting t = alerting s"
  by (simp_all add: violating_def alerting_def)

lemma safe_call_run:
  assumes "\<And>m. callback = Some m \<Longrightarrow> keeps same_redis m"
  obtains b t where "safe_call callback s = (Inr b, t)" and "al_redis t = al_redis s"
proof (cases callback)
  case None
  then show ?thesis by (auto simp: safe_call_def ret_def intro: that)
next
  case (Some m)
  obtain r t where m: "m s = (r, t)" by (cases "m s")
  then have "same_redis s t" using assms Some by (metis keepsD)
  then have "al_redis t = al_redis s" by (simp add: same_redis_def)
  with m Some that show ?thesis
    by (cases r) (auto simp: safe_call_def py_defs)
qed

lemma claim_state_run:
  obtains t where "claim_state ops p metric ttl s = (Inr (p \<notin> violating s), t)"
    and "violating t = insert p (violating s)" and "alerting t = alerting s"
proof -
  let ?k = "state_key p metric" and ?r = "snd (c_add ops (state_key p metric) (JStr ''violating'') ttl (al_redis s))"
  let ?t = "s\<lparr>al_redis := if c_get ops ?k (al_redis s) = None then ?r else c_expire ops ?k ttl ?r\<rparr>"
  have run: "claim_state ops p metric ttl s = (Inr (p \<notin> violating s), ?t)"
    by (simp add: claim_state_def claim_key_def case_prod_beta add_result violating_def flagged_def state_key_def)
  have get: "c_get ops k (al_redis ?t) = (if k = ?k \<and> c_get ops ?k (al_redis s) = None then Some (JStr ''violating'')
      else c_get ops k (al_redis s))" for k
    using ttl_pos by (simp add: get_add get_expire)
  have "violating ?t = insert p (violating s)" "alerting ?t = alerting s"
    unfolding violating_def alerting_def flagged_def get by (auto simp: state_key_def)
  with run show ?thesis by (rule that)
qed

lemma claim_alert_state_run:
  obtains t where "claim_alert_state ops p metric ttl s = (Inr (p \<notin> alerting s), t)"
    and "violating t = violating s" and "alerting t = insert p (alerting s)"
proof -
  let ?k = "alert_state_key p metric"
  let ?r = "snd (c_add ops ?k (JStr ''alerting'') ttl (al_redis s))"
  let ?t = "s\<lparr>al_redis := if c_get ops ?k (al_redis s) = None then ?r else c_expire ops ?k ttl ?r\<rparr>"
  have run: "claim_alert_state ops p metric ttl s = (Inr (p \<notin> alerting s), ?t)"
    by (simp add: claim_alert_state_def claim_key_def case_prod_beta add_result alerting_def flagged_def alert_state_key_def)
  have get: "c_get ops k (al_redis ?t) = (if k = ?k \<and> c_get ops ?k (al_redis s) = None then Some (JStr ''alerting'')
      else c_get ops k (al_redis s))" for k
    using ttl_pos by (simp add: get_add get_expire)
  have "violating ?t = violating s" "alerting ?t = insert p (alerting s)"
    unfolding violating_def alerting_def flagged_def get by (auto simp: alert_state_key_def)
  with run show ?thesis by (rule that)
qed

lemma clear_run:
  obtains t where "clear_state ops p metric s = (Inr (), t)"
    and "violating t = violating s - {p}" and "alerting t = alerting s"
  by (rule that [of "s\<lparr>al_redis := snd (c_delete ops (state_key p metric) (al_redis s))\<rparr>"])
    (auto simp: clear_state_def modify_def violating_def alerting_def flagged_def get_delete state_key_def)

lemma clear_alert_run:
  obtains t where "clear_alert_state ops p metric s = (Inr (), t)"
    and "violating t = violating s" and "alerting t = alerting s - {p}"
  by (rule that [of "s\<lparr>al_redis := snd (c_delete ops (alert_state_key p metric) (al_redis s))\<rparr>"])
    (auto simp: clear_alert_state_def modify_def violating_def alerting_def flagged_def get_delete alert_state_key_def)

end

definition alarms :: "violation \<Rightarrow> bool" where
  "alarms v \<longleftrightarrow> vio_email_enabled v \<and> meets_rooms_threshold v"

context alert_sweep
begin

lemma process_one_run:
  obtains t where "process_one ops cb metric ttl v res s = (Inr (res\<lparr>
        pr_new_alerts := pr_new_alerts res @ (if vio_project v \<notin> violating s then [v] else []),
        pr_updates := pr_updates res @ (if vio_project v \<in> violating s then [v] else []),
        pr_toasts := pr_toasts res @ (if alarms v \<and> vio_project v \<notin> alerting s then [v] else [])\<rparr>), t)"
    and "violating t = insert (vio_project v) (violating s)"
    and "alerting t = (if alarms v then insert (vio_project v) (alerting s) else alerting s)"
proof -
  obtain t1 where t1: "claim_state ops (vio_project v) metric ttl s = (Inr (vio_project v \<notin> violating s), t1)"
    "violating t1 = insert (vio_project v) (violating s)" "alerting t1 = alerting s"
    by (rule claim_state_run)
  let ?call = "if vio_project v \<notin> violating s then safe_call (map_option (\<lambda>f. f v) (cb_new_alert cb))
    else safe_call (map_option (\<lambda>f. f v) (cb_update cb))"
  obtain b t2 where t2: "?call t1 = (Inr b, t2)" "al_redis t2 = al_redis t1"
  proof (cases "vio_project v \<notin> violating s")
    case True
    with that show ?thesis
      by (auto intro: safe_call_run [of "map_option (\<lambda>f. f v) (cb_new_alert cb)" t1] cb_keep)
  next
    case False
    with that show ?thesis
      by (auto intro: safe_call_run [of "map_option (\<lambda>f. f v) (cb_update cb)" t1] cb_keep)
  qed
  note v2 = sets_of_redis [OF t2(2)]
  show ?thesis
  proof (cases "alarms v")
    case False
    then have "\<not> vio_email_enabled v \<or> \<not> meets_rooms_threshold v" by (simp add: alarms_def)
    with t1 t2 v2 False show ?thesis
      by (intro that [of t2]) (auto simp: process_one_def bnd_def ret_def Let_def)
  next
    case True
    obtain t3 where t3: "claim_alert_state ops (vio_project v) metric ttl t2 = (Inr (vio_project v \<notin> alerting t2), t3)"
      "violating t3 = violating t2" "alerting t3 = insert (vio_project v) (alerting t2)"
      by (rule claim_alert_state_run)
    obtain b4 t4 where t4: "safe_call (map_option (\<lambda>f. f v) (cb_toast cb)) t3 = (Inr b4, t4)" "al_redis t4 = al_redis t3"
      by (rule safe_call_run [of "map_option (\<lambda>f. f v) (cb_toast cb)" t3]) (auto intro: cb_keep)
    obtain b5 t5 where t5: "safe_call (map_option (\<lambda>f. f v) (cb_email cb)) t4 = (Inr b5, t5)" "al_redis t5 = al_redis t4"
      by (rule safe_call_run [of "map_option (\<lambda>f. f v) (cb_email cb)" t4]) (auto intro: cb_keep)
    have sets: "violating t5 = violating t3" "alerting t5 = alerting t3"
      using sets_of_redis [of t5 t4] sets_of_redis [of t4 t3] t4 t5 by simp_all
    have e: "vio_email_enabled v" "meets_rooms_threshold v" using True by (simp_all add: alarms_def)
    show ?thesis
    proof (cases "vio_project v \<in> alerting s")
      case True
      with t1 t2 t3 v2 e show ?thesis
        by (intro that [of t3]) (auto simp: process_one_def bnd_def ret_def Let_def alarms_def)
    next
      case False
      with t1 t2 t3 v2 e sets t4 t5 show ?thesis
        by (intro that [of t5]) (auto simp: process_one_def bnd_def ret_def Let_def alarms_def)
    qed
  qed
qed

lemma process_all_run:
  assumes "distinct (map vio_project vs)"
  obtains t where "fold_each (process_one ops cb metric ttl) vs res s = (Inr (res\<lparr>
        pr_new_alerts := pr_new_alerts res @ filter (\<lambda>v. vio_project v \<notin> violating s) vs,
        pr_updates := pr_updates res @ filter (\<lambda>v. vio_project v \<in> violating s) vs,
        pr_toasts := pr_toasts res @ filter (\<lambda>v. alarms v \<and> vio_project v \<notin> alerting s) vs\<rparr>), t)"
    and "violating t = vio_project ` set vs \<union> violating s"
    and "alerting t = vio_project ` set (filter alarms vs) \<union> alerting s"
  using assms
proof (induction vs arbitrary: res s thesis)
  case Nil
  show ?case by (rule Nil(1) [of s]) (simp_all add: ret_def)
next
  case (Cons v vs)
  from process_one_run [of v res s] obtain res1 t1 where one: "process_one ops cb metric ttl v res s = (Inr res1, t1)"
    and res1: "res1 = res\<lparr>
        pr_new_alerts := pr_new_alerts res @ (if vio_project v \<notin> violating s then [v] else []),
        pr_updates := pr_updates res @ (if vio_project v \<in> violating s then [v] else []),
        pr_toasts := pr_toasts res @ (if alarms v \<and> vio_project v \<notin> alerting s then [v] else [])\<rparr>"
    and sets: "violating t1 = insert (vio_project v) (violating s)"
      "alerting t1 = (if alarms v then insert (vio_project v) (alerting s) else alerting s)"
    by metis
  have d: "distinct (map vio_project vs)" using Cons.prems(2) by simp
  have new: "vio_project x \<noteq> vio_project v" if "x \<in> set vs" for x
    using Cons.prems(2) that by (auto simp: image_iff)
  have same: "filter (\<lambda>x. vio_project x \<notin> violating t1) vs = filter (\<lambda>x. vio_project x \<notin> violating s) vs"
    "filter (\<lambda>x. vio_project x \<in> violating t1) vs = filter (\<lambda>x. vio_project x \<in> violating s) vs"
    "filter (\<lambda>x. alarms x \<and> vio_project x \<notin> alerting t1) vs = filter (\<lambda>x. alarms x \<and> vio_project x \<notin> alerting s) vs"
    using new by (auto simp: sets intro!: filter_cong)
  obtain t where rest: "fold_each (process_one ops cb metric ttl) vs res1 t1 = (Inr (res1\<lparr>
        pr_new_alerts := pr_new_alerts res1 @ filter (\<lambda>v. vio_project v \<notin> violating t1) vs,
        pr_updates := pr_updates res1 @ filter (\<lambda>v. vio_project v \<in> violating t1) vs,
        pr_toasts := pr_toasts res1 @ filter (\<lambda>v. alarms v \<and> vio_project v \<notin> alerting t1) vs\<rparr>), t)"
    "violating t = vio_project ` set vs \<union> violating t1" "alerting t = vio_project ` set (filter alarms vs) \<union> alerting t1"
    by (rule Cons.IH [OF _ d])
  have "fold_each (process_one ops cb metric ttl) (v # vs) res s = fold_each (process_one ops cb metric ttl) vs res1 t1"
    by (simp add: bnd_def one)
  note run = this [unfolded rest(1) same]
  show ?case
  proof (rule Cons.prems(1) [OF trans [OF run]])
    show "violating t = vio_project ` set (v # vs) \<union> violating s" using rest(2) sets by auto
    show "alerting t = vio_project ` set (filter alarms (v # vs)) \<union> alerting s" using rest(3) sets by auto
  qed (simp add: res1)
qed

lemma resolve_all_run:
  obtains t where "for_each (resolve_one ops cb metric) ps s = (Inr (), t)"
    and "violating t = violating s - set ps" and "alerting t = alerting s - set ps"
proof (induction ps arbitrary: s thesis)
  case Nil
  show ?case by (rule Nil [of s]) (simp_all add: ret_def)
next
  case (Cons p ps)
  obtain t1 where t1: "clear_state ops p metric s = (Inr (), t1)" "violating t1 = violating s - {p}" "alerting t1 = alerting s"
    by (rule clear_run)
  obtain t2 where t2: "clear_alert_state ops p metric t1 = (Inr (), t2)" "violating t2 = violating t1" "alerting t2 = alerting t1 - {p}"
    by (rule clear_alert_run)
  obtain b t3 where t3: "safe_call (map_option (\<lambda>f. f p metric) (cb_resolved cb)) t2 = (Inr b, t3)" "al_redis t3 = al_redis t2"
    by (rule safe_call_run [of "map_option (\<lambda>f. f p metric) (cb_resolved cb)" t2]) (auto intro: cb_keep)
  have one: "resolve_one ops cb metric p s = (Inr (), t3)"
    by (simp add: resolve_one_def andthen_def ret_def bnd_def t1(1) t2(1) t3(1))
  obtain t where "for_each (resolve_one ops cb metric) ps t3 = (Inr (), t)"
    "violating t = violating t3 - set ps" "alerting t = alerting t3 - set ps"
    by (rule Cons.IH)
  with sets_of_redis [OF t3(2)] t1 t2 show ?case
    by (intro Cons.prems [of t]) (auto simp: andthen_def bnd_def one)
qed

lemma clear_all_run:
  obtains t where "for_each (\<lambda>p. clear_alert_state ops p metric) ps s = (Inr (), t)"
    and "violating t = violating s" and "alerting t = alerting s - set ps"
proof (induction ps arbitrary: s thesis)
  case Nil
  show ?case by (rule Nil [of s]) (simp_all add: ret_def)
next
  case (Cons p ps)
  obtain t1 where t1: "clear_alert_state ops p metric s = (Inr (), t1)" "violating t1 = violating s" "alerting t1 = alerting s - {p}"
    by (rule clear_alert_run)
  obtain t where "for_each (\<lambda>p. clear_alert_state ops p metric) ps t1 = (Inr (), t)"
    "violating t = violating t1" "alerting t = alerting t1 - set ps"
    by (rule Cons.IH)
  with t1 show ?case
    by (intro Cons.prems [of t]) (auto simp: andthen_def bnd_def)
qed

lemma scanned_keys:
  assumes "\<And>p. p \<in> flagged ops tpl metric r \<Longrightarrow> plain p" and "tpl \<in> {state_prefix, alert_prefix}"
  shows "set (keys_for_metric ops tpl metric r) = flagged ops tpl metric r"
proof -
  have "set (c_scan ops tpl ('':'' @ metric) r) = (\<lambda>p. template_key tpl p metric) ` flagged ops tpl metric r"
    using scan_iff [of _ tpl "'':'' @ metric" r] by (auto simp: flagged_def template_key_def)
  then have "set (keys_for_metric ops tpl metric r)
      = (\<lambda>p. split_second (template_key tpl p metric)) ` flagged ops tpl metric r"
    by (simp add: keys_for_metric_def image_image)
  also have "\<dots> = (\<lambda>p. p) ` flagged ops tpl metric r"
    by (intro image_cong refl) (use assms in \<open>auto simp: split_second_template\<close>)
  finally show ?thesis by simp
qed

end

section \<open>What the sweep finds\<close>

lemma enabled_run:
  obtains b t where "is_metric_goal_alerts_enabled cx k s = (Inr b, t)"
    and "same_redis s t" and "al_world t = al_world s"
  by (cases "k = []"; cases "c_get (ale_ops cx) (''metric_goal_alerts_ff:'' @ k) (al_flags s)";
      cases "flag_attr (ale_env cx) ''weniChatsMetricGoalAlerts'' k")
    (auto simp: is_metric_goal_alerts_enabled_def same_redis_def Let_def intro: that)

lemma keep_enabled_run:
  obtains gs' t where "keep_enabled cx gs s = (Inr gs', t)" and "subseq gs' gs"
    and "same_redis s t" and "al_world t = al_world s"
proof (induction gs arbitrary: s thesis)
  case Nil
  show ?case by (rule Nil [of "[]" s]) (simp_all add: ret_def redis.R_refl)
next
  case (Cons g gs)
  obtain b t1 where t1: "is_metric_goal_alerts_enabled cx (goa_project g) s = (Inr b, t1)"
    "same_redis s t1" "al_world t1 = al_world s"
    by (rule enabled_run)
  obtain gs1 t2 where t2: "keep_enabled cx gs t1 = (Inr gs1, t2)" "subseq gs1 gs" "same_redis t1 t2" "al_world t2 = al_world t1"
    by (rule Cons.IH)
  have "same_redis s t2" using t1(2) t2(3) by (rule redis.R_trans)
  with t1 t2 show ?case
    by (intro Cons.prems [of "if b then g # gs1 else gs1" t2]) (auto simp: bnd_def ret_def)
qed

lemma violations_Cons:
  "violations_of w now metric counts (g # gs) = Inr vs \<longleftrightarrow> (\<exists>x us. violation_of w now metric counts g = Inr x
     \<and> violations_of w now metric counts gs = Inr us \<and> vs = (case x of None \<Rightarrow> us | Some y \<Rightarrow> y # us))"
  by (cases "violation_of w now metric counts g"; cases "violations_of w now metric counts gs") auto

lemma violation_of_project: "violation_of w now metric counts g = Inr (Some v) \<Longrightarrow> vio_project v = goa_project g"
  by (cases "build_violation_queryset w metric (goa_project g) (now - micros (goa_threshold_seconds g))")
    (auto simp: violation_of_def Let_def split: if_splits)

lemma violations_of_projects:
  "violations_of w now metric counts gs = Inr vs \<Longrightarrow> subseq (map vio_project vs) (map goa_project gs)"
  by (induction gs arbitrary: vs)
    (auto simp del: violations_of.simps(2) simp: violations_Cons violation_of_project split: option.splits)

lemma violations_of_goal:
  "violations_of w now metric counts gs = Inr vs \<Longrightarrow> v \<in> set vs \<Longrightarrow>
   \<exists>g \<in> set gs. violation_of w now metric counts g = Inr (Some v)"
  by (induction gs arbitrary: vs)
    (auto simp del: violations_of.simps(2) simp: violations_Cons split: option.splits)

lemma detect_Inr:
  assumes "detect_violations cx metric s = (Inr vs, t)"
  shows "same_redis s t" and "al_world t = al_world s"
    and "subseq (map vio_project vs) (map goa_project (filter (\<lambda>g. goa_metric g = metric) (al_goals s)))"
    and "v \<in> set vs \<Longrightarrow> \<exists>g counts. g \<in> set (al_goals s) \<and> goa_metric g = metric \<and> goa_is_active g
           \<and> violation_of (al_world s) (env_now (ale_env cx)) metric counts g = Inr (Some v)"
proof -
  let ?gs = "filter (\<lambda>g. goa_metric g = metric \<and> goa_is_active g) (al_goals s)"
  obtain gs s1 where k: "keep_enabled cx ?gs s = (Inr gs, s1)" "subseq gs ?gs" "same_redis s s1" "al_world s1 = al_world s"
    by (rule keep_enabled_run)
  have "\<exists>counts. violations_of (al_world s) (env_now (ale_env cx)) metric counts gs = Inr vs" and "t = s1"
    using assms k by (auto simp: detect_violations_def bnd_def gets_def ret_def lift_result_def Let_def split: if_splits)
  then obtain counts where v: "violations_of (al_world s) (env_now (ale_env cx)) metric counts gs = Inr vs" by blast
  show "same_redis s t" "al_world t = al_world s" using k \<open>t = s1\<close> by simp_all
  have "subseq ?gs (filter (\<lambda>g. goa_metric g = metric) (al_goals s))"
    using subseq_filter_left [of goa_is_active "filter (\<lambda>g. goa_metric g = metric) (al_goals s)"] by (simp add: conj_commute)
  then show "subseq (map vio_project vs) (map goa_project (filter (\<lambda>g. goa_metric g = metric) (al_goals s)))"
    using violations_of_projects [OF v] k(2) by (meson subseq_map subseq_order.trans)
  show "\<exists>g counts. g \<in> set (al_goals s) \<and> goa_metric g = metric \<and> goa_is_active g
      \<and> violation_of (al_world s) (env_now (ale_env cx)) metric counts g = Inr (Some v)" if listed: "v \<in> set vs"
  proof -
    obtain g where "g \<in> set gs" "violation_of (al_world s) (env_now (ale_env cx)) metric counts g = Inr (Some v)"
      using violations_of_goal [OF v listed] by blast
    moreover have "set gs \<subseteq> set ?gs" using k(2) by (auto elim: list_emb_set)
    ultimately show ?thesis by auto
  qed
qed

lemma detect_total:
  assumes "metric \<in> set VALID_METRICS"
  obtains vs t where "detect_violations cx metric s = (Inr vs, t)"
proof -
  have "\<exists>rs. build_violation_queryset w metric prj c = Inr rs" for w prj c
    using assms by (auto simp: build_violation_queryset_def VALID_METRICS_def Let_def)
  then have "\<exists>x. violation_of w now metric counts g = Inr x" for w now counts g
    by (metis (no_types, lifting) map_sum.simps(2) violation_of_def)
  then have all: "\<exists>vs. violations_of w now metric counts gs = Inr vs" for w now counts gs
    by (induction gs) (simp, metis violations_Cons)
  let ?gs = "filter (\<lambda>g. goa_metric g = metric \<and> goa_is_active g) (al_goals s)"
  obtain gs s1 where k: "keep_enabled cx ?gs s = (Inr gs, s1)" by (rule keep_enabled_run)
  show ?thesis
    using k all that by (fastforce simp: detect_violations_def bnd_def gets_def ret_def lift_result_def Let_def)
qed

context alert_sweep
begin

lemma sweep_run:
  assumes cx: "ale_ops cx = ops"
    and found: "detect_violations cx metric s = (Inr vs, s1)"
    and unique: "distinct (map vio_project vs)"
    and plain: "\<And>p. p \<in> violating s \<union> alerting s \<Longrightarrow> plain p"
  obtains res t where "process_violations cx cb metric ttl s = (Inr res, t)"
    and "pr_new_alerts res = filter (\<lambda>v. vio_project v \<notin> violating s) vs"
    and "pr_updates res = filter (\<lambda>v. vio_project v \<in> violating s) vs"
    and "pr_toasts res = filter (\<lambda>v. alarms v \<and> vio_project v \<notin> alerting s) vs"
    and "set (pr_resolved res) = violating s - vio_project ` set vs"
    and "violating t = vio_project ` set vs"
    and "alerting t = vio_project ` set (filter alarms vs) \<union> (alerting s - violating s - vio_project ` set vs)"
proof -
  have s1: "violating s1 = violating s" "alerting s1 = alerting s"
    using detect_Inr(1) [OF found] by (simp_all add: same_redis_def violating_def alerting_def)
  let ?V = "keys_for_metric ops state_prefix metric (al_redis s1)"
  let ?A = "keys_for_metric ops alert_prefix metric (al_redis s1)"
  have V: "set ?V = violating s" and A: "set ?A = alerting s"
    using scanned_keys [of state_prefix "al_redis s1"] scanned_keys [of alert_prefix "al_redis s1"] plain s1
    by (auto simp: violating_def alerting_def)
  let ?r0 = "\<lparr>pr_metric = metric, pr_new_alerts = [], pr_updates = [], pr_resolved = [], pr_toasts = []\<rparr>"
  obtain t2 where t2: "fold_each (process_one ops cb metric ttl) vs ?r0 s1 = (Inr (?r0\<lparr>
        pr_new_alerts := pr_new_alerts ?r0 @ filter (\<lambda>v. vio_project v \<notin> violating s1) vs,
        pr_updates := pr_updates ?r0 @ filter (\<lambda>v. vio_project v \<in> violating s1) vs,
        pr_toasts := pr_toasts ?r0 @ filter (\<lambda>v. alarms v \<and> vio_project v \<notin> alerting s1) vs\<rparr>), t2)"
    "violating t2 = vio_project ` set vs \<union> violating s1" "alerting t2 = vio_project ` set (filter alarms vs) \<union> alerting s1"
    by (rule process_all_run [OF unique])
  let ?cur = "map vio_project vs" and ?now = "map vio_project (filter (\<lambda>v. vio_email_enabled v \<and> meets_rooms_threshold v) vs)"
  let ?gone = "filter (\<lambda>p. p \<notin> set ?cur) ?V" and ?low = "filter (\<lambda>p. p \<notin> set ?now \<and> p \<in> set ?cur) ?A"
  obtain t3 where t3: "for_each (resolve_one ops cb metric) ?gone t2 = (Inr (), t3)"
    "violating t3 = violating t2 - set ?gone" "alerting t3 = alerting t2 - set ?gone"
    by (rule resolve_all_run)
  obtain t4 where t4: "for_each (\<lambda>p. clear_alert_state ops p metric) ?low t3 = (Inr (), t4)"
    "violating t4 = violating t3" "alerting t4 = alerting t3 - set ?low"
    by (rule clear_all_run)
  have now: "set ?now = vio_project ` set (filter alarms vs)" by (simp add: alarms_def)
  let ?res = "?r0\<lparr>pr_new_alerts := filter (\<lambda>v. vio_project v \<notin> violating s) vs,
     pr_updates := filter (\<lambda>v. vio_project v \<in> violating s) vs,
     pr_toasts := filter (\<lambda>v. alarms v \<and> vio_project v \<notin> alerting s) vs, pr_resolved := ?gone\<rparr>"
  have run: "process_violations cx cb metric ttl s = (Inr ?res, t4)"
    by (simp add: process_violations_def cx Let_def bnd_def found gets_def t2(1) andthen_def t3(1) [simplified] t4(1) [simplified]
        ret_def s1)
  show ?thesis
  proof (rule that [OF run])
    show "violating t4 = vio_project ` set vs"
      using t4(2) t3(2) t2(2) s1 V by auto
    show "alerting t4 = vio_project ` set (filter alarms vs) \<union> (alerting s - violating s - vio_project ` set vs)"
      unfolding t4(3) t3(3) t2(3) s1 set_filter now using V A by (auto simp: alarms_def)
  qed (simp_all add: V set_diff_eq)
qed

end

lemma alert_sweep_task:
  assumes "cache_backend ops" "0 < ttl"
  shows "alert_sweep ops (task_callbacks cx) metric ttl"
  by (intro alert_sweep.intro assms alert_sweep_axioms.intro)
    (auto simp: task_callbacks_def intro: keeps_callbacks)

interpretation sweep: alert_sweep mem_ops "task_callbacks cx" metric 1800 for cx metric
  by (rule alert_sweep_task) (simp_all add: mem.cache_backend_axioms)

section \<open>The sweep renews the flags\<close>

text \<open>A key that is there has its full time to live.\<close>

definition fresh_flag ::
  "'c cache_ops \<Rightarrow> (string \<Rightarrow> 'c \<Rightarrow> int option) \<Rightarrow> int \<Rightarrow> string \<Rightarrow> 'c alert_state \<Rightarrow> bool" where
  "fresh_flag ops left ttl k s \<longleftrightarrow> (c_get ops k (al_redis s) \<noteq> None \<longrightarrow> left k (al_redis s) = Some ttl)"

definition stays_fresh ::
  "'c cache_ops \<Rightarrow> (string \<Rightarrow> 'c \<Rightarrow> int option) \<Rightarrow> int \<Rightarrow> 'c alert_state \<Rightarrow> 'c alert_state \<Rightarrow> bool" where
  "stays_fresh ops left ttl s t \<longleftrightarrow> (\<forall>k. fresh_flag ops left ttl k s \<longrightarrow> fresh_flag ops left ttl k t)"

interpretation renewal: step_order "stays_fresh ops left ttl" for ops left ttl
  by unfold_locales (auto simp: stays_fresh_def)

lemma fresh_same_redis: "keeps same_redis m \<Longrightarrow> keeps (stays_fresh ops left ttl) m"
  by (simp add: keeps_def same_redis_def stays_fresh_def fresh_flag_def)

locale timed_sweep = renewing_cache ops left + alert_sweep ops cb metric ttl
  for ops :: "'c cache_ops" and left and cb :: "'c callbacks" and metric :: string and ttl :: int
begin

lemma claim_key_fresh:
  assumes "claim_key ops k v ttl s = (r, t)"
  shows "fresh_flag ops left ttl k t" and "stays_fresh ops left ttl s t"
proof -
  let ?r = "snd (c_add ops k v ttl (al_redis s))"
  have t: "al_redis t = (if c_get ops k (al_redis s) = None then ?r else c_expire ops k ttl (al_redis s))"
    using assms add_taken [of k "al_redis s" v ttl]
    by (auto simp: claim_key_def case_prod_beta add_result split: if_splits)
  have "c_get ops k' (al_redis t) \<noteq> None \<longrightarrow> left k' (al_redis t) = (if k' = k then Some ttl else left k' (al_redis s))" for k'
    using ttl_pos unfolding t by (auto simp: left_add left_expire get_expire)
  moreover have "c_get ops k' (al_redis t) = c_get ops k' (al_redis s)" if "k' \<noteq> k" for k'
    using ttl_pos that unfolding t by (simp add: get_add get_expire)
  ultimately show "fresh_flag ops left ttl k t" "stays_fresh ops left ttl s t"
    by (auto simp: fresh_flag_def stays_fresh_def)
qed

lemma delete_fresh: "keeps (stays_fresh ops left ttl) (modify (\<lambda>s. s\<lparr>al_redis := snd (c_delete ops k (al_redis s))\<rparr>))"
  by (auto simp: keeps_def modify_def stays_fresh_def fresh_flag_def get_delete left_delete)

lemma claims_fresh:
  "keeps (stays_fresh ops left ttl) (claim_state ops p metric ttl)"
  "keeps (stays_fresh ops left ttl) (claim_alert_state ops p metric ttl)"
  unfolding claim_state_def claim_alert_state_def using claim_key_fresh(2) by (metis keepsI prod.collapse)+

lemma clears_fresh:
  "keeps (stays_fresh ops left ttl) (clear_state ops p metric)"
  "keeps (stays_fresh ops left ttl) (clear_alert_state ops p metric)"
  unfolding clear_state_def clear_alert_state_def by (rule delete_fresh)+

lemma safe_call_fresh: "(\<And>m. callback = Some m \<Longrightarrow> keeps same_redis m) \<Longrightarrow> keeps (stays_fresh ops left ttl) (safe_call callback)"
  by (rule fresh_same_redis, unfold safe_call_def, cases callback) (auto intro!: redis.keeps_structure)

lemma callbacks_fresh:
  "keeps (stays_fresh ops left ttl) (safe_call (map_option (\<lambda>f. f v) (cb_new_alert cb)))"
  "keeps (stays_fresh ops left ttl) (safe_call (map_option (\<lambda>f. f v) (cb_update cb)))"
  "keeps (stays_fresh ops left ttl) (safe_call (map_option (\<lambda>f. f v) (cb_toast cb)))"
  "keeps (stays_fresh ops left ttl) (safe_call (map_option (\<lambda>f. f v) (cb_email cb)))"
  "keeps (stays_fresh ops left ttl) (safe_call (map_option (\<lambda>f. f p metric) (cb_resolved cb)))"
  by (rule safe_call_fresh, auto intro: cb_keep)+

lemma process_one_fresh:
  assumes run: "process_one ops cb metric ttl v res s = (r, t)"
  shows "stays_fresh ops left ttl s t" and "fresh_flag ops left ttl (state_key (vio_project v) metric) t"
    and "alarms v \<Longrightarrow> fresh_flag ops left ttl (alert_state_key (vio_project v) metric) t"
proof -
  have "keeps (stays_fresh ops left ttl) (process_one ops cb metric ttl v res)"
    unfolding process_one_def Let_def
    by (intro renewal.keeps_structure claims_fresh callbacks_fresh)
  then show "stays_fresh ops left ttl s t" using run by (rule keepsD)
  let ?call = "\<lambda>is_new. if is_new then safe_call (map_option (\<lambda>f. f v) (cb_new_alert cb))
          else safe_call (map_option (\<lambda>f. f v) (cb_update cb))"
  let ?res = "\<lambda>is_new. if is_new then res\<lparr>pr_new_alerts := pr_new_alerts res @ [v]\<rparr>
                 else res\<lparr>pr_updates := pr_updates res @ [v]\<rparr>"
  let ?toast = "\<lambda>is_new is_new_toast. if \<not> is_new_toast then ret (?res is_new)
          else bnd (safe_call (map_option (\<lambda>f. f v) (cb_toast cb))) (\<lambda>_.
            bnd (safe_call (map_option (\<lambda>f. f v) (cb_email cb))) (\<lambda>_.
            ret ((?res is_new)\<lparr>pr_toasts := pr_toasts (?res is_new) @ [v]\<rparr>)))"
  let ?alarm = "\<lambda>is_new. if \<not> vio_email_enabled v \<or> \<not> meets_rooms_threshold v then ret (?res is_new)
        else bnd (claim_alert_state ops (vio_project v) metric ttl) (?toast is_new)"
  have kept: "keeps (stays_fresh ops left ttl) (?toast b c)" "keeps (stays_fresh ops left ttl) (?call b)"
    "keeps (stays_fresh ops left ttl) (?alarm b)" for b c
    by (intro renewal.keeps_structure claims_fresh callbacks_fresh)+
  obtain t1 where t1: "claim_state ops (vio_project v) metric ttl s = (Inr (vio_project v \<notin> violating s), t1)"
    by (rule claim_state_run)
  let ?new = "vio_project v \<notin> violating s"
  define m where "m = bnd (?call ?new) (\<lambda>_. ?alarm ?new)"
  have rest: "m t1 = (r, t)"
    using run t1 by (simp add: process_one_def bnd_def Let_def m_def)
  have "fresh_flag ops left ttl (state_key (vio_project v) metric) t1"
    using claim_key_fresh(1) t1 by (simp add: claim_state_def)
  moreover have "keeps (stays_fresh ops left ttl) m"
    unfolding m_def by (intro renewal.keeps_bnd kept)
  from keepsD [OF this rest] have "stays_fresh ops left ttl t1 t" .
  ultimately show "fresh_flag ops left ttl (state_key (vio_project v) metric) t" by (simp add: stays_fresh_def)
  show "fresh_flag ops left ttl (alert_state_key (vio_project v) metric) t" if "alarms v"
  proof -
    obtain b t2 where t2: "?call ?new t1 = (Inr b, t2)"
      by (cases ?new) (auto intro: safe_call_run [of "map_option (\<lambda>f. f v) (cb_new_alert cb)" t1]
        safe_call_run [of "map_option (\<lambda>f. f v) (cb_update cb)" t1] cb_keep)
    obtain c t3 where t3: "claim_alert_state ops (vio_project v) metric ttl t2 = (Inr c, t3)"
      by (rule claim_alert_state_run)
    define m' where "m' = ?toast ?new c"
    have "keeps (stays_fresh ops left ttl) m'" unfolding m'_def by (rule kept(1))
    moreover have "m' t3 = (r, t)"
      using rest t2 t3 that by (simp add: bnd_def alarms_def m_def m'_def)
    ultimately have "stays_fresh ops left ttl t3 t" by (rule keepsD)
    moreover have "fresh_flag ops left ttl (alert_state_key (vio_project v) metric) t3"
      using claim_key_fresh(1) t3 by (simp add: claim_alert_state_def)
    ultimately show ?thesis by (simp add: stays_fresh_def)
  qed
qed

lemma process_all_fresh:
  assumes "fold_each (process_one ops cb metric ttl) vs res s = (Inr res', t)"
  shows "stays_fresh ops left ttl s t"
    and "\<And>v. v \<in> set vs \<Longrightarrow> fresh_flag ops left ttl (state_key (vio_project v) metric) t"
    and "\<And>v. v \<in> set vs \<Longrightarrow> alarms v \<Longrightarrow> fresh_flag ops left ttl (alert_state_key (vio_project v) metric) t"
proof -
  have "stays_fresh ops left ttl s t \<and> (\<forall>v \<in> set vs. fresh_flag ops left ttl (state_key (vio_project v) metric) t \<and>
      (alarms v \<longrightarrow> fresh_flag ops left ttl (alert_state_key (vio_project v) metric) t))"
    using assms
  proof (induction vs arbitrary: res s)
    case Nil
    then show ?case by (simp add: ret_def renewal.R_refl)
  next
    case (Cons v vs)
    then obtain res1 t1 where one: "process_one ops cb metric ttl v res s = (Inr res1, t1)"
      and rest: "fold_each (process_one ops cb metric ttl) vs res1 t1 = (Inr res', t)"
      by (auto simp: bnd_def split: prod.splits sum.splits)
    from Cons.IH [OF rest] process_one_fresh [OF one] renewal.R_trans show ?case
      by (auto simp: stays_fresh_def)
  qed
  then show "stays_fresh ops left ttl s t"
    "\<And>v. v \<in> set vs \<Longrightarrow> fresh_flag ops left ttl (state_key (vio_project v) metric) t"
    "\<And>v. v \<in> set vs \<Longrightarrow> alarms v \<Longrightarrow> fresh_flag ops left ttl (alert_state_key (vio_project v) metric) t"
    by auto
qed

lemma sweep_fresh:
  assumes cx: "ale_ops cx = ops" and found: "detect_violations cx metric s = (Inr vs, s1)"
    and run: "process_violations cx cb metric ttl s = (Inr res, t)" and "v \<in> set vs"
  shows "fresh_flag ops left ttl (state_key (vio_project v) metric) t"
    and "alarms v \<Longrightarrow> fresh_flag ops left ttl (alert_state_key (vio_project v) metric) t"
proof -
  let ?r0 = "\<lparr>pr_metric = metric, pr_new_alerts = [], pr_updates = [], pr_resolved = [], pr_toasts = []\<rparr>"
  let ?tail = "\<lambda>xs ys r. andthen (for_each (resolve_one ops cb metric) xs)
      (andthen (for_each (\<lambda>p. clear_alert_state ops p metric) ys) (ret r))"
  obtain res2 t2 where all: "fold_each (process_one ops cb metric ttl) vs ?r0 s1 = (Inr res2, t2)"
    using run found by (auto simp: process_violations_def cx Let_def bnd_def gets_def split: prod.splits sum.splits)
  with run found obtain xs ys r where rest: "?tail xs ys r t2 = (Inr res, t)"
    by (simp add: process_violations_def cx Let_def bnd_def gets_def)
  have m: "keeps (stays_fresh ops left ttl) (?tail xs ys r)"
    unfolding resolve_one_def sequence.simps
    by (intro renewal.keeps_structure clears_fresh callbacks_fresh)
  from keepsD [OF m rest] process_all_fresh [OF all] assms(4)
  show "fresh_flag ops left ttl (state_key (vio_project v) metric) t"
    "alarms v \<Longrightarrow> fresh_flag ops left ttl (alert_state_key (vio_project v) metric) t"
    by (auto simp: stays_fresh_def)
qed

end

lemma timed_sweep_task:
  assumes "renewing_cache ops left" "0 < ttl"
  shows "timed_sweep ops left (task_callbacks cx) metric ttl"
proof -
  have "cache_backend ops" using assms(1) by (simp add: renewing_cache_def expiring_cache_def)
  from alert_sweep_task [OF this assms(2)] assms(1) show ?thesis by (intro timed_sweep.intro)
qed

interpretation timed: timed_sweep mem_ops mem_left "task_callbacks cx" metric 1800 for cx metric
  by (rule timed_sweep_task) (simp_all add: renewed_mem.renewing_cache_axioms)

section \<open>The sweep against its specification\<close>

definition violating_projects :: "'c cache_ops \<Rightarrow> string \<Rightarrow> 'c alert_state \<Rightarrow> uuid set" where
  "violating_projects ops metric s = flagged ops state_prefix metric (al_redis s)"

definition alerting_projects :: "'c cache_ops \<Rightarrow> string \<Rightarrow> 'c alert_state \<Rightarrow> uuid set" where
  "alerting_projects ops metric s = flagged ops alert_prefix metric (al_redis s)"

text \<open>What the tables and Redis keep: one goal per project and metric, and project ids without a colon.\<close>

definition alert_state_ok :: "'c cache_ops \<Rightarrow> string \<Rightarrow> 'c alert_state \<Rightarrow> bool" where
  "alert_state_ok ops metric s \<longleftrightarrow>
     distinct (map goa_project (filter (\<lambda>g. goa_metric g = metric) (al_goals s)))
     \<and> (\<forall>g \<in> set (al_goals s). plain (goa_project g))
     \<and> (\<forall>p \<in> violating_projects ops metric s \<union> alerting_projects ops metric s. plain p)"

lemma sweep_outcome:
  assumes "cache_backend (ale_ops cx)" "0 < ttl" "metric \<in> set VALID_METRICS" "alert_state_ok (ale_ops cx) metric s"
  obtains vs s1 res t where "detect_violations cx metric s = (Inr vs, s1)"
    and "process_violations cx (task_callbacks cx) metric ttl s = (Inr res, t)"
    and "distinct (map vio_project vs)" and "\<And>v. v \<in> set vs \<Longrightarrow> plain (vio_project v)"
    and "pr_new_alerts res = filter (\<lambda>v. vio_project v \<notin> violating_projects (ale_ops cx) metric s) vs"
    and "pr_updates res = filter (\<lambda>v. vio_project v \<in> violating_projects (ale_ops cx) metric s) vs"
    and "pr_toasts res = filter (\<lambda>v. alarms v \<and> vio_project v \<notin> alerting_projects (ale_ops cx) metric s) vs"
    and "set (pr_resolved res) = violating_projects (ale_ops cx) metric s - vio_project ` set vs"
    and "violating_projects (ale_ops cx) metric t = vio_project ` set vs"
    and "alerting_projects (ale_ops cx) metric t = vio_project ` set (filter alarms vs)
           \<union> (alerting_projects (ale_ops cx) metric s - violating_projects (ale_ops cx) metric s - vio_project ` set vs)"
proof -
  note sweep = alert_sweep_task [OF assms(1,2), of cx metric]
  have sets: "alert_sweep.violating (ale_ops cx) metric = violating_projects (ale_ops cx) metric"
    "alert_sweep.alerting (ale_ops cx) metric = alerting_projects (ale_ops cx) metric"
    using sweep by (auto simp: violating_projects_def alerting_projects_def alert_sweep.violating_def alert_sweep.alerting_def)
  obtain vs s1 where d: "detect_violations cx metric s = (Inr vs, s1)"
    using detect_total [OF assms(3)] by blast
  have sub: "subseq (map vio_project vs) (map goa_project (filter (\<lambda>g. goa_metric g = metric) (al_goals s)))"
    by (rule detect_Inr(3) [OF d])
  have unique: "distinct (map vio_project vs)"
    using sub assms(4) by (auto simp: alert_state_ok_def subseq_conv_nths intro: distinct_nthsI)
  have plain_vs: "plain (vio_project v)" if "v \<in> set vs" for v
  proof -
    have "vio_project v \<in> set (map goa_project (filter (\<lambda>g. goa_metric g = metric) (al_goals s)))"
      using that list_emb_set [OF sub, of "vio_project v"] by auto
    then show ?thesis using assms(4) by (auto simp: alert_state_ok_def)
  qed
  have plain_flags: "plain p" if "p \<in> alert_sweep.violating (ale_ops cx) metric s \<union> alert_sweep.alerting (ale_ops cx) metric s" for p
    using that assms(4) by (auto simp: alert_state_ok_def sets)
  show ?thesis
    by (rule alert_sweep.sweep_run [OF sweep refl d unique], erule plain_flags)
      (rule that [OF d _ unique plain_vs]; simp add: sets)
qed

text \<open>C19. A sweep of a metric implements the two state machines its module describes. For a store that keeps its laws
  and whatever the callbacks meet: the widget is told of a new violation exactly for the projects found that were not
  flagged, of an update for the others, of a resolution for the flagged projects without a violation; a toast
  goes out exactly for the violations over their threshold whose alarm was not raised. Afterwards the flagged projects
  are those found, and the alarms those over their threshold; an alarm without a flag stays until its time to live ends.\<close>

theorem sweep_refines:
  assumes "cache_backend (ale_ops cx)" "0 < ttl" "metric \<in> set VALID_METRICS" "alert_state_ok (ale_ops cx) metric s"
  shows "\<exists>vs s1 res t. detect_violations cx metric s = (Inr vs, s1)
    \<and> process_violations cx (task_callbacks cx) metric ttl s = (Inr res, t)
    \<and> pr_new_alerts res = filter (\<lambda>v. vio_project v \<notin> violating_projects (ale_ops cx) metric s) vs
    \<and> pr_updates res = filter (\<lambda>v. vio_project v \<in> violating_projects (ale_ops cx) metric s) vs
    \<and> set (pr_resolved res) = violating_projects (ale_ops cx) metric s - vio_project ` set vs
    \<and> pr_toasts res = filter (\<lambda>v. alarms v \<and> vio_project v \<notin> alerting_projects (ale_ops cx) metric s) vs
    \<and> violating_projects (ale_ops cx) metric t = vio_project ` set vs
    \<and> alerting_projects (ale_ops cx) metric t = vio_project ` set (filter alarms vs)
        \<union> (alerting_projects (ale_ops cx) metric s - violating_projects (ale_ops cx) metric s - vio_project ` set vs)"
  by (rule sweep_outcome [OF assms]) blast

section \<open>What the dashboard sees over time\<close>

datatype widget_event = Violated | Updated | Resolved

definition widget_events :: "uuid \<Rightarrow> processing_result \<Rightarrow> widget_event list" where
  "widget_events p res =
     (if p \<in> vio_project ` set (pr_new_alerts res) then [Violated] else [])
     @ (if p \<in> vio_project ` set (pr_updates res) then [Updated] else [])
     @ (if p \<in> set (pr_resolved res) then [Resolved] else [])"

text \<open>The life of a violation: it begins, is updated, and is resolved.\<close>

fun alternates :: "bool \<Rightarrow> widget_event list \<Rightarrow> bool" where
  "alternates b [] = True"
| "alternates b (Violated # es) = (\<not> b \<and> alternates True es)"
| "alternates b (Updated # es) = (b \<and> alternates True es)"
| "alternates b (Resolved # es) = (b \<and> alternates False es)"

fun flag_after :: "bool \<Rightarrow> widget_event list \<Rightarrow> bool" where
  "flag_after b [] = b"
| "flag_after b (e # es) = flag_after (e \<noteq> Resolved) es"

lemma alternates_append: "alternates b (xs @ ys) \<longleftrightarrow> alternates b xs \<and> alternates (flag_after b xs) ys"
  by (induction b xs rule: alternates.induct) auto

lemma flag_after_append: "flag_after b (xs @ ys) = flag_after (flag_after b xs) ys"
  by (induction b xs rule: flag_after.induct) auto

text \<open>
  Sweeps of one metric, with the seconds since the last one. In between time passes, less than a time to live in
  all; the tables, the goals, the flags of features and whatever else is in Redis change in any way, but nothing
  else touches the flags of the metric.
\<close>

definition metric_keys :: "string \<Rightarrow> string set" where
  "metric_keys metric = {k. \<exists>p. k = state_key p metric \<or> k = alert_state_key p metric}"

inductive sweeps ::
  "'c alert_env \<Rightarrow> (string \<Rightarrow> 'c \<Rightarrow> int option) \<Rightarrow> string \<Rightarrow> int \<Rightarrow> 'c alert_state \<Rightarrow>
   processing_result list \<Rightarrow> int \<Rightarrow> 'c alert_state \<Rightarrow> bool"
  for cx :: "'c alert_env" and left :: "string \<Rightarrow> 'c \<Rightarrow> int option" and metric :: string and ttl :: int
    and s0 :: "'c alert_state"
  where
    start: "sweeps cx left metric ttl s0 [] 0 s0"
  | pause: "sweeps cx left metric ttl s0 rs d s \<Longrightarrow> 0 \<le> n \<Longrightarrow> d + n < ttl \<Longrightarrow>
      al_redis t = c_elapse (ale_ops cx) n (al_redis s) \<Longrightarrow> sweeps cx left metric ttl s0 rs (d + n) t"
  | others: "sweeps cx left metric ttl s0 rs d s \<Longrightarrow>
      (\<And>k. k \<in> metric_keys metric \<Longrightarrow> c_get (ale_ops cx) k (al_redis t) = c_get (ale_ops cx) k (al_redis s) \<and>
         left k (al_redis t) = left k (al_redis s)) \<Longrightarrow>
      sweeps cx left metric ttl s0 rs d t"
  | sweep: "sweeps cx left metric ttl s0 rs d s \<Longrightarrow> alert_state_ok (ale_ops cx) metric s \<Longrightarrow> ale_ops cx' = ale_ops cx \<Longrightarrow>
      process_violations cx' (task_callbacks cx') metric ttl s = (r, t) \<Longrightarrow> r = Inr res \<Longrightarrow>
      sweeps cx left metric ttl s0 (rs @ [res]) 0 t"

text \<open>The flags of a metric have at least \<open>n\<close> seconds to live.\<close>

definition flags_last ::
  "'c cache_ops \<Rightarrow> (string \<Rightarrow> 'c \<Rightarrow> int option) \<Rightarrow> string \<Rightarrow> int \<Rightarrow> 'c alert_state \<Rightarrow> bool" where
  "flags_last ops left metric n s \<longleftrightarrow> (\<forall>k \<in> metric_keys metric. c_get ops k (al_redis s) \<noteq> None \<longrightarrow>
     (\<exists>m. left k (al_redis s) = Some m \<and> n \<le> m))"

lemma metric_keys_of [simp]: "state_key p metric \<in> metric_keys metric" "alert_state_key p metric \<in> metric_keys metric"
  by (auto simp: metric_keys_def)

lemma same_flags:
  assumes "\<And>k. k \<in> metric_keys metric \<Longrightarrow> c_get ops k (al_redis t) = c_get ops k (al_redis s)"
  shows "violating_projects ops metric t = violating_projects ops metric s"
    "alerting_projects ops metric t = alerting_projects ops metric s"
  using assms [OF metric_keys_of(1)] assms [OF metric_keys_of(2)]
  by (auto simp: violating_projects_def alerting_projects_def flagged_def state_key_def alert_state_key_def)

text \<open>A pause that is shorter than what the flags have left leaves them all there.\<close>

lemma flags_outlive_pause:
  assumes cache: "expiring_cache ops left" and last: "flags_last ops left metric m s" and n: "0 \<le> n" "n < m"
    and t: "al_redis t = c_elapse ops n (al_redis s)"
  shows "flags_last ops left metric (m - n) t"
    and "k \<in> metric_keys metric \<Longrightarrow> c_get ops k (al_redis t) = c_get ops k (al_redis s)"
proof -
  have base: "cache_backend ops" using cache by (simp add: expiring_cache_def)
  have "c_get ops k (al_redis t) = c_get ops k (al_redis s) \<and>
      (c_get ops k (al_redis s) \<noteq> None \<longrightarrow> (\<exists>i. left k (al_redis t) = Some i \<and> m - n \<le> i))"
    if k: "k \<in> metric_keys metric" for k
  proof (cases "c_get ops k (al_redis s)")
    case None
    with cache_backend.get_elapse [OF base n(1), of k "al_redis s"] t show ?thesis by auto
  next
    case (Some v)
    with last k obtain i where i: "left k (al_redis s) = Some i" "m \<le> i" by (auto simp: flags_last_def)
    with n have l: "left k (al_redis t) = Some (i - n)"
      by (simp add: t expiring_cache.left_elapse [OF cache n(1)])
    from expiring_cache.left_present [OF cache l] cache_backend.get_elapse [OF base n(1), of k "al_redis s"] l i(2) Some
    show ?thesis by (auto simp: t)
  qed
  then show "flags_last ops left metric (m - n) t"
    "k \<in> metric_keys metric \<Longrightarrow> c_get ops k (al_redis t) = c_get ops k (al_redis s)"
    by (auto simp: flags_last_def)
qed

lemma events_of_sweep:
  assumes cache: "renewing_cache (ale_ops cx) left" and ttl: "0 < ttl"
    and metric: "metric \<in> set VALID_METRICS" "alert_state_ok (ale_ops cx) metric s"
    and run: "process_violations cx (task_callbacks cx) metric ttl s = (Inr res, t)"
    and sub: "alerting_projects (ale_ops cx) metric s \<subseteq> violating_projects (ale_ops cx) metric s"
  shows "alternates (p \<in> violating_projects (ale_ops cx) metric s) (widget_events p res)"
    and "flag_after (p \<in> violating_projects (ale_ops cx) metric s) (widget_events p res)
           = (p \<in> violating_projects (ale_ops cx) metric t)"
    and "alerting_projects (ale_ops cx) metric t \<subseteq> violating_projects (ale_ops cx) metric t"
    and "flags_last (ale_ops cx) left metric ttl t"
proof -
  let ?V = "violating_projects (ale_ops cx) metric" and ?A = "alerting_projects (ale_ops cx) metric"
  have base: "cache_backend (ale_ops cx)" using cache by (simp add: renewing_cache_def expiring_cache_def)
  obtain vs s1 where found: "detect_violations cx metric s = (Inr vs, s1)"
    and new: "pr_new_alerts res = filter (\<lambda>v. vio_project v \<notin> ?V s) vs"
    and upd: "pr_updates res = filter (\<lambda>v. vio_project v \<in> ?V s) vs"
    and gone: "set (pr_resolved res) = ?V s - vio_project ` set vs" and V: "?V t = vio_project ` set vs"
    and A: "?A t = vio_project ` set (filter alarms vs) \<union> (?A s - ?V s - vio_project ` set vs)"
    by (rule sweep_outcome [OF base ttl metric]) (use run in auto)
  have "widget_events p res = (if p \<in> vio_project ` set vs then if p \<in> ?V s then [Updated] else [Violated]
      else if p \<in> ?V s then [Resolved] else [])"
    unfolding widget_events_def new upd gone by (auto simp: image_iff)
  then show "alternates (p \<in> ?V s) (widget_events p res)" "flag_after (p \<in> ?V s) (widget_events p res) = (p \<in> ?V t)"
    unfolding V by simp_all
  have A': "?A t = vio_project ` set (filter alarms vs)" using A sub by auto
  then show "?A t \<subseteq> ?V t" unfolding V by auto
  note fresh = timed_sweep.sweep_fresh [OF timed_sweep_task [OF cache ttl] refl found run]
  show "flags_last (ale_ops cx) left metric ttl t"
    unfolding flags_last_def
  proof (intro ballI impI)
    fix k
    assume k: "k \<in> metric_keys metric" and there: "c_get (ale_ops cx) k (al_redis t) \<noteq> None"
    then consider q where "k = state_key q metric" "q \<in> ?V t" | q where "k = alert_state_key q metric" "q \<in> ?A t"
      by (auto simp: metric_keys_def violating_projects_def alerting_projects_def flagged_def state_key_def alert_state_key_def)
    then have "fresh_flag (ale_ops cx) left ttl k t"
      using fresh unfolding V A' by cases auto
    with there show "\<exists>m. left k (al_redis t) = Some m \<and> ttl \<le> m" by (simp add: fresh_flag_def)
  qed
qed

lemma sweeps_events:
  assumes "sweeps cx left metric ttl s0 rs d t" and cache: "renewing_cache (ale_ops cx) left" "0 < ttl" "metric \<in> set VALID_METRICS"
    and empty: "violating_projects (ale_ops cx) metric s0 = {}" "alerting_projects (ale_ops cx) metric s0 = {}"
  shows "alternates False (concat (map (widget_events p) rs))
    \<and> flag_after False (concat (map (widget_events p) rs)) = (p \<in> violating_projects (ale_ops cx) metric t)
    \<and> alerting_projects (ale_ops cx) metric t \<subseteq> violating_projects (ale_ops cx) metric t
    \<and> flags_last (ale_ops cx) left metric (ttl - d) t"
  using assms(1)
proof (induction rule: sweeps.induct)
  case start
  have "flags_last (ale_ops cx) left metric (ttl - 0) s0"
    using empty by (auto simp: flags_last_def metric_keys_def violating_projects_def alerting_projects_def flagged_def
        state_key_def alert_state_key_def)
  with empty show ?case by simp
next
  case (pause rs d s n t)
  have "expiring_cache (ale_ops cx) left" using cache(1) by (simp add: renewing_cache_def)
  note out = flags_outlive_pause [OF this _ pause.hyps(2) _ pause.hyps(4), of metric "ttl - d"]
  from pause have "flags_last (ale_ops cx) left metric (ttl - d) s" "n < ttl - d" by auto
  note out = out [OF this]
  from out(1) same_flags [of metric "ale_ops cx" t s, OF out(2)] pause.IH show ?case
    by (simp add: algebra_simps)
next
  case (others rs d s t)
  have "flags_last (ale_ops cx) left metric (ttl - d) t"
    using others.IH others.hyps(2) by (simp add: flags_last_def)
  with others.IH same_flags [of metric "ale_ops cx" t s] others.hyps(2) show ?case by simp
next
  case (sweep rs d s cx' r t res)
  note e = events_of_sweep [of cx' left ttl metric s res t, unfolded sweep.hyps(3), OF cache sweep.hyps(2)]
  show ?case
    using sweep e by (auto simp: alternates_append flag_after_append)
qed

text \<open>C20. Starting from a store without flags of the metric, and with sweeps one after the other and less than a
  time to live apart, a project sees the life of its violations in order: every violation that is announced has been
  resolved before the next one is, updates and resolutions only follow an announcement, and the alarm of a project
  is never up without its violation. The flags do not lapse in between because every sweep renews those of the
  violations it finds.\<close>

theorem violations_announced_in_order:
  assumes "sweeps cx left metric ttl s0 rs d t" "renewing_cache (ale_ops cx) left" "0 < ttl" "metric \<in> set VALID_METRICS"
    and "violating_projects (ale_ops cx) metric s0 = {}" "alerting_projects (ale_ops cx) metric s0 = {}"
  shows "alternates False (concat (map (widget_events p) rs))
    \<and> alerting_projects (ale_ops cx) metric t \<subseteq> violating_projects (ale_ops cx) metric t"
  using sweeps_events [OF assms, of p] by simp

section \<open>What a violation reports\<close>

lemma trunc_seconds_mono: "a \<le> b \<Longrightarrow> trunc_seconds a \<le> trunc_seconds b"
  using zdiv_mono1 [of a b 1000000] zdiv_mono1 [of "- b" "- a" 1000000]
    pos_imp_zdiv_nonneg_iff [of 1000000 b] pos_imp_zdiv_nonneg_iff [of 1000000 "- a"]
  by (auto simp: trunc_seconds_def)

lemma fold_max: "fold max ts (t :: int) \<in> insert t (set ts) \<and> (\<forall>x \<in> insert t (set ts). x \<le> fold max ts t)"
proof (induction ts arbitrary: t)
  case (Cons a ts)
  from Cons [of "max a t"] show ?case by (auto simp: max_def split: if_splits)
qed simp

lemma aggregate_max_spec:
  assumes "rs \<noteq> []" "\<And>r. r \<in> set rs \<Longrightarrow> field r \<noteq> None"
  obtains r t where "aggregate_max field rs = Some t" and "r \<in> set rs" and "field r = Some t"
    and "\<And>r' t'. r' \<in> set rs \<Longrightarrow> field r' = Some t' \<Longrightarrow> t' \<le> t"
proof -
  have set: "set (List.map_filter field rs) = {t. \<exists>r \<in> set rs. field r = Some t}"
    by (induction rs) (auto simp: map_filter_simps split: option.splits)
  obtain r0 where "r0 \<in> set rs" using assms(1) by (cases rs) auto
  then obtain t0 where "t0 \<in> set (List.map_filter field rs)" using assms(2) [of r0] set by auto
  then obtain t ts where l: "List.map_filter field rs = t # ts"
    by (cases "List.map_filter field rs") auto
  then have m: "aggregate_max field rs = Some (fold max ts t)" by (simp add: aggregate_max_def)
  have "fold max ts t \<in> set (List.map_filter field rs)" "\<forall>x \<in> set (List.map_filter field rs). x \<le> fold max ts t"
    using fold_max [of ts t] l by auto
  with m show ?thesis unfolding set by (auto intro: that)
qed

lemma violating_rooms_timed:
  assumes "build_violation_queryset w metric prj cutoff = Inr rs" "r \<in> set rs"
  shows "max_age_field metric r \<noteq> None"
  using assms by (auto simp: build_violation_queryset_def Let_def max_age_field_def not_after_def split: if_splits option.splits)

text \<open>\<open>max_value_seconds\<close>, which the alert and the e-mail give as the longest time, is the shortest: it is the
  time of the room that went over its threshold last, and no violating room has been waiting less.\<close>

theorem max_value_is_of_youngest:
  assumes "detect_violations cx metric s = (Inr vs, s1)" "v \<in> set vs"
  shows "\<exists>rs. build_violation_queryset (al_world s) metric (vio_project v)
        (env_now (ale_env cx) - micros (vio_threshold_seconds v)) = Inr rs
    \<and> vio_violating_count v = length rs
    \<and> (\<exists>r \<in> set rs. \<exists>t. max_age_field metric r = Some t
         \<and> vio_max_value_seconds v = trunc_seconds (env_now (ale_env cx) - t))
    \<and> (\<forall>r \<in> set rs. \<forall>t. max_age_field metric r = Some t \<longrightarrow>
         vio_max_value_seconds v \<le> trunc_seconds (env_now (ale_env cx) - t))"
proof -
  let ?now = "env_now (ale_env cx)" and ?w = "al_world s"
  obtain g counts where g: "violation_of ?w ?now metric counts g = Inr (Some v)"
    using detect_Inr(4) [OF assms] by blast
  then obtain rs where rs: "build_violation_queryset ?w metric (goa_project g) (?now - micros (goa_threshold_seconds g)) = Inr rs"
    by (cases "build_violation_queryset ?w metric (goa_project g) (?now - micros (goa_threshold_seconds g))")
      (auto simp: violation_of_def)
  with g have v: "rs \<noteq> []" "vio_project v = goa_project g" "vio_threshold_seconds v = goa_threshold_seconds g"
    "vio_violating_count v = length rs"
    "vio_max_value_seconds v = (case aggregate_max (max_age_field metric) rs of
        None \<Rightarrow> 0 | Some oldest \<Rightarrow> trunc_seconds (?now - oldest))"
    by (auto simp: violation_of_def Let_def split: if_splits)
  have timed: "max_age_field metric r \<noteq> None" if "r \<in> set rs" for r using violating_rooms_timed [OF rs that] .
  obtain r t where m: "aggregate_max (max_age_field metric) rs = Some t" "r \<in> set rs" "max_age_field metric r = Some t"
    "\<And>r' t'. r' \<in> set rs \<Longrightarrow> max_age_field metric r' = Some t' \<Longrightarrow> t' \<le> t"
    by (rule aggregate_max_spec [of rs "max_age_field metric", OF v(1)], erule timed) metis
  show ?thesis
    by (rule exI [of _ rs]) (use rs v m in \<open>auto intro!: trunc_seconds_mono\<close>)
qed

text \<open>The dashboard and the sweep agree: without filters the number of breached rooms that the widget shows for a
  goal is the number of rooms for which the sweep raises it, for every metric. They ask the metrics of a room in two
  ways, which are the same as long as a room has one row of metrics and no response time is negative.\<close>

theorem breach_counts_agree:
  assumes "goa_metric g \<in> set VALID_METRICS" "distinct (map met_room (metrics w))"
    and "\<forall>m \<in> set (metrics w). \<forall>t. met_first_response_time m = Some t \<longrightarrow> 0 \<le> t"
  shows "map_sum id length (build_violation_queryset w (goa_metric g) (goa_project g)
      (now - micros (goa_threshold_seconds g))) = Inr (count_breached_rooms w now g None)"
proof -
  have same: "no_response_yet w r \<longleftrightarrow> \<not> has_responded w r" for r
  proof (cases "find (\<lambda>m. met_room m = rm_uuid r) (metrics w)")
    case None
    moreover from None have "\<not> has_responded w r" by (auto simp: has_responded_def list_ex_iff find_None_iff)
    ultimately show ?thesis by (simp add: no_response_yet_def)
  next
    case (Some m)
    then have m: "m \<in> set (metrics w)" "met_room m = rm_uuid r" by (auto simp: find_Some_iff)
    have "m' = m" if "m' \<in> set (metrics w)" "met_room m' = rm_uuid r" for m'
      using assms(2) m that by (auto simp: distinct_map inj_on_def)
    then have "has_responded w r \<longleftrightarrow> (case met_first_response_time m of None \<Rightarrow> False | Some t \<Rightarrow> 0 < t)"
      using m unfolding has_responded_def list_ex_iff by blast
    with Some assms(3) m show ?thesis
      by (auto simp: no_response_yet_def order.order_iff_strict split: option.splits)
  qed
  have ones: "sum_list (map (filter_multiplicity w None) rs) = length rs" for rs
    by (induction rs) (auto simp: filter_multiplicity_def)
  show ?thesis
    using assms(1) unfolding VALID_METRICS_def
    by (auto simp: build_violation_queryset_def count_breached_rooms_def Let_def ones same METRIC_WAITING_TIME_def
        METRIC_FIRST_RESPONSE_TIME_def METRIC_CONVERSATION_DURATION_def conj_assoc)
qed

section \<open>The goals stay well formed\<close>

definition goal_ok :: "metric_goal \<Rightarrow> bool" where
  "goal_ok g \<longleftrightarrow> goa_metric g \<in> set VALID_METRICS \<and> 1 \<le> goa_threshold_seconds g \<and> goa_threshold_seconds g \<le> column_max
     \<and> goa_unit g \<in> fst ` set UNIT_TO_SECONDS
     \<and> 0 \<le> goa_rooms_threshold_count g \<and> goa_rooms_threshold_count g \<le> column_max
     \<and> (goa_email_enabled g \<longrightarrow> 1 \<le> goa_rooms_threshold_count g)
     \<and> (case goa_rooms_threshold_percent g of None \<Rightarrow> True | Some p \<Rightarrow> 1 \<le> p \<and> p \<le> 100)"

definition goals_ok :: "metric_goal list \<Rightarrow> bool" where
  "goals_ok gs \<longleftrightarrow> distinct (map (\<lambda>g. (goa_project g, goa_metric g)) gs) \<and> list_all goal_ok gs"

lemma configure_keeps: "keeps same_redis (ensure_can_configure cx prj u)"
  unfolding ensure_can_configure_def
  by (intro redis.keeps_structure keeps_enabled) (auto intro!: redis.keeps_structure split: option.splits prod.splits)

lemma validate_goal_Inr:
  assumes "validate_goal w prj i = Inr (seconds, recipients)"
  shows "1 \<le> seconds" and "gin_unit i \<in> fst ` set UNIT_TO_SECONDS" and "0 \<le> gin_rooms_threshold_count i"
    and "gin_email_enabled i \<Longrightarrow> 1 \<le> gin_rooms_threshold_count i"
    and "case gin_rooms_threshold_percent i of None \<Rightarrow> True | Some p \<Rightarrow> 1 \<le> p \<and> p \<le> 100"
    and "gin_threshold i = Some n \<Longrightarrow> seconds = n * the (map_of UNIT_TO_SECONDS (gin_unit i))"
    and "gin_threshold i = None \<Longrightarrow> gin_threshold_seconds i = Some seconds"
proof -
  have ok: "\<not> (case gin_threshold i of None \<Rightarrow> False | Some n \<Rightarrow> n < 1)"
    "\<not> (case gin_threshold_seconds i of None \<Rightarrow> False | Some n \<Rightarrow> n < 1)"
    and u: "gin_unit i \<in> fst ` set UNIT_TO_SECONDS" and c: "0 \<le> gin_rooms_threshold_count i"
    and p: "\<not> (case gin_rooms_threshold_percent i of None \<Rightarrow> False | Some n \<Rightarrow> n < 1 \<or> 100 < n)"
    and e: "\<not> (gin_email_enabled i \<and> gin_rooms_threshold_count i = 0)"
    and s: "seconds = (case gin_threshold i of Some n \<Rightarrow> n * the (map_of UNIT_TO_SECONDS (gin_unit i))
        | None \<Rightarrow> the (gin_threshold_seconds i))" and some: "gin_threshold i \<noteq> None \<or> gin_threshold_seconds i \<noteq> None"
    using assms by (auto simp: validate_goal_def split: if_splits sum.splits option.splits)
  have "the (map_of UNIT_TO_SECONDS (gin_unit i)) \<ge> 1" using u by (auto simp: UNIT_TO_SECONDS_def)
  then show "1 \<le> seconds" using ok some s
    using mult_mono [of 1 _ 1 "the (map_of UNIT_TO_SECONDS (gin_unit i))"] by (force split: option.splits)
  show "gin_unit i \<in> fst ` set UNIT_TO_SECONDS" "0 \<le> gin_rooms_threshold_count i" by (fact u c)+
  show "gin_email_enabled i \<Longrightarrow> 1 \<le> gin_rooms_threshold_count i" using c e by auto
  show "case gin_rooms_threshold_percent i of None \<Rightarrow> True | Some p \<Rightarrow> 1 \<le> p \<and> p \<le> 100"
    using p by (auto split: option.splits)
  show "gin_threshold i = Some n \<Longrightarrow> seconds = n * the (map_of UNIT_TO_SECONDS (gin_unit i))" using s by simp
  show "gin_threshold i = None \<Longrightarrow> gin_threshold_seconds i = Some seconds" using s some by auto
qed

definition is_goal :: "uuid \<Rightarrow> string \<Rightarrow> metric_goal \<Rightarrow> bool" where
  "is_goal prj metric g \<longleftrightarrow> goa_project g = prj \<and> goa_metric g = metric"

definition stored_goal :: "goal_input \<Rightarrow> int \<Rightarrow> uuid list option \<Rightarrow> metric_goal \<Rightarrow> metric_goal" where
  "stored_goal i seconds recipients g = g\<lparr>goa_threshold_seconds := seconds, goa_unit := gin_unit i,
     goa_is_active := gin_is_active i, goa_email_enabled := gin_email_enabled i,
     goa_rooms_threshold_count := gin_rooms_threshold_count i, goa_rooms_threshold_percent := gin_rooms_threshold_percent i,
     goa_recipients := (case recipients of None \<Rightarrow> goa_recipients g | Some ks \<Rightarrow> ks)\<rparr>"

text \<open>How the rows change: one of the goals is written, or a new one is added.\<close>

definition written_goals ::
  "uuid \<Rightarrow> string \<Rightarrow> goal_input \<Rightarrow> int \<Rightarrow> uuid list option \<Rightarrow> metric_goal list \<Rightarrow> metric_goal list" where
  "written_goals prj metric i seconds recipients gs =
     (if list_ex (is_goal prj metric) gs then update_where (is_goal prj metric) (stored_goal i seconds recipients) gs
      else gs @ [stored_goal i seconds recipients \<lparr>goa_project = prj, goa_metric = metric, goa_threshold_seconds = 0,
         goa_unit = ''s'', goa_is_active = True, goa_email_enabled = False, goa_rooms_threshold_count = 0,
         goa_rooms_threshold_percent = None, goa_recipients = []\<rparr>])"

lemma stored_goal_key [simp]:
  "goa_project (stored_goal i seconds recipients g) = goa_project g"
  "goa_metric (stored_goal i seconds recipients g) = goa_metric g"
  by (simp_all add: stored_goal_def)

lemma upsert_cases:
  obtains (fails) e where "fst (upsert_metric_goal cx prj u metric i s) = Inl e"
      and "al_goals (snd (upsert_metric_goal cx prj u metric i s)) = al_goals s"
  | (stores) w seconds recipients where "metric \<in> set VALID_METRICS"
      and "validate_goal w prj i = Inr (seconds, recipients)"
      and "seconds \<le> column_max" and "gin_rooms_threshold_count i \<le> column_max"
      and "al_goals (snd (upsert_metric_goal cx prj u metric i s)) = written_goals prj metric i seconds recipients (al_goals s)"
      and "fst (upsert_metric_goal cx prj u metric i s)
             = Inr (goal_for (written_goals prj metric i seconds recipients (al_goals s)) prj metric)"
proof (cases "metric \<in> set VALID_METRICS")
  case False
  then show ?thesis by (intro fails) (auto simp: upsert_metric_goal_def raise_def)
next
  case True
  obtain r s1 where c: "ensure_can_configure cx prj u s = (r, s1)" by (cases "ensure_can_configure cx prj u s")
  have goals: "al_goals s1 = al_goals s" using keepsD [OF configure_keeps c] by (simp add: same_redis_def)
  show ?thesis
  proof (cases r)
    case (Inl e)
    then show ?thesis using c goals True by (intro fails) (auto simp: upsert_metric_goal_def andthen_def bnd_def)
  next
    case (Inr x)
    show ?thesis
    proof (cases "validate_goal (al_world s1) prj i")
      case (Inl e)
      then show ?thesis using c goals True \<open>r = Inr x\<close>
        by (intro fails) (auto simp: upsert_metric_goal_def andthen_def bnd_def gets_def lift_result_def)
    next
      case v: (Inr y)
      obtain seconds recipients where y: "y = (seconds, recipients)" by (cases y)
      show ?thesis
      proof (cases "column_max < seconds \<or> column_max < gin_rooms_threshold_count i")
        case True
        then show ?thesis using c goals \<open>metric \<in> set VALID_METRICS\<close> Inr v y
          by (intro fails) (auto simp: upsert_metric_goal_def andthen_def bnd_def gets_def lift_result_def
              update_or_create_goal_def raise_def)
      next
        case False
        then show ?thesis using c goals True Inr v y
          by (intro stores [of "al_world s1" seconds recipients])
            (auto simp: upsert_metric_goal_def andthen_def bnd_def gets_def lift_result_def update_or_create_goal_def
              modify_def written_goals_def stored_goal_def [abs_def] is_goal_def [abs_def] Let_def)
      qed
    qed
  qed
qed

lemma goals_ok_written:
  assumes "goals_ok gs" "metric \<in> set VALID_METRICS" "validate_goal w prj i = Inr (seconds, recipients)"
    "seconds \<le> column_max" "gin_rooms_threshold_count i \<le> column_max"
  shows "goals_ok (written_goals prj metric i seconds recipients gs)"
proof -
  note v = validate_goal_Inr [OF assms(3)]
  have ok: "goal_ok (stored_goal i seconds recipients g)" if "goa_metric g \<in> set VALID_METRICS" for g
    using that v(1-5) assms(4,5) by (auto simp: goal_ok_def stored_goal_def)
  have key: "map (\<lambda>g. (goa_project g, goa_metric g)) (update_where (is_goal prj metric) (stored_goal i seconds recipients) gs)
      = map (\<lambda>g. (goa_project g, goa_metric g)) gs"
    by (rule map_update_where) (simp add: stored_goal_def)
  show ?thesis
  proof (cases "list_ex (is_goal prj metric) gs")
    case True
    with assms(1,2) ok key show ?thesis
      by (auto simp: goals_ok_def written_goals_def list_all_iff set_update_where is_goal_def)
  next
    case False
    then have "(prj, metric) \<notin> (\<lambda>g. (goa_project g, goa_metric g)) ` set gs"
      by (auto simp: list_ex_iff is_goal_def)
    with False assms(1,2) ok show ?thesis
      by (auto simp: goals_ok_def written_goals_def list_all_iff image_iff)
  qed
qed

text \<open>C21. The table of goals stays well formed under every request of every user, accepted or refused: one goal per
  project and metric, thresholds from one second up to what the column holds, known units, percentages from 1 to 100,
  and no goal whose e-mail is on counts zero rooms.\<close>

theorem goals_well_formed:
  assumes "goals_ok (al_goals s)"
  shows "goals_ok (al_goals (snd (upsert_metric_goal cx prj u metric i s)))
    \<and> goals_ok (al_goals (snd (delete_metric_goal cx prj u metric s)))"
proof
  show "goals_ok (al_goals (snd (upsert_metric_goal cx prj u metric i s)))"
  proof (cases rule: upsert_cases [where cx = cx and prj = prj and u = u and metric = metric and i = i and s = s])
    case (stores w seconds recipients)
    with goals_ok_written [OF assms] show ?thesis by metis
  qed (simp add: assms)
  obtain r s1 where c: "ensure_can_configure cx prj u s = (r, s1)" by (cases "ensure_can_configure cx prj u s")
  have goals: "al_goals s1 = al_goals s" using keepsD [OF configure_keeps c] by (simp add: same_redis_def)
  have "goals_ok (filter P gs)" if "goals_ok gs" for P gs
    using that by (auto simp: goals_ok_def list_all_iff distinct_map_filter)
  then show "goals_ok (al_goals (snd (delete_metric_goal cx prj u metric s)))"
    using c goals assms by (cases r; cases "goal_for (al_goals s) prj metric")
      (auto simp: delete_metric_goal_def andthen_def bnd_def gets_def raise_def modify_def)
qed

text \<open>A goal is read back as it was saved: the threshold in the unit of the request, the switches, the count and the
  percentage; no other goal changes.\<close>

theorem saved_goal_reads_back:
  assumes "upsert_metric_goal cx prj u metric i s = (Inr found, t)" "gin_threshold i = Some n"
  shows "\<exists>g. found = Some g \<and> goal_for (al_goals t) prj metric = Some g
    \<and> threshold_seconds_to_unit_value (goa_threshold_seconds g) (goa_unit g) = n \<and> goa_unit g = gin_unit i
    \<and> goa_is_active g = gin_is_active i \<and> goa_email_enabled g = gin_email_enabled i
    \<and> goa_rooms_threshold_count g = gin_rooms_threshold_count i
    \<and> goa_rooms_threshold_percent g = gin_rooms_threshold_percent i
    \<and> filter (\<lambda>g. \<not> is_goal prj metric g) (al_goals t) = filter (\<lambda>g. \<not> is_goal prj metric g) (al_goals s)"
proof (cases rule: upsert_cases [where cx = cx and prj = prj and u = u and metric = metric and i = i and s = s])
  case (fails e)
  with assms show ?thesis by simp
next
  case (stores w seconds recipients)
  let ?f = "stored_goal i seconds recipients"
  note v = validate_goal_Inr [OF stores(2)]
  have keep: "is_goal prj metric (?f g) \<longleftrightarrow> is_goal prj metric g" for g by (simp add: is_goal_def stored_goal_def)
  have seconds: "threshold_seconds_to_unit_value seconds (gin_unit i) = n"
    using v(2) v(6) [OF assms(2)] by (auto simp: threshold_seconds_to_unit_value_def UNIT_TO_SECONDS_def)
  have found: "\<exists>g0. find (is_goal prj metric) (written_goals prj metric i seconds recipients gs) = Some (?f g0)" for gs
  proof (induction gs)
    case Nil
    show ?case by (simp add: written_goals_def is_goal_def) blast
  next
    case (Cons g gs)
    then show ?case by (auto simp: written_goals_def keep update_where_def split: if_splits)
  qed
  have others: "filter (\<lambda>g. \<not> is_goal prj metric g) (written_goals prj metric i seconds recipients gs)
      = filter (\<lambda>g. \<not> is_goal prj metric g) gs" for gs
  proof -
    have "filter (\<lambda>g. \<not> is_goal prj metric g) (update_where (is_goal prj metric) ?f gs) = filter (\<lambda>g. \<not> is_goal prj metric g) gs"
      by (induction gs) (auto simp: keep)
    then show ?thesis by (auto simp: written_goals_def is_goal_def stored_goal_def)
  qed
  have goal_for: "goal_for gs prj metric = find (is_goal prj metric) gs" for gs
    by (simp add: goal_for_def is_goal_def [abs_def])
  from found [of "al_goals s"] obtain g0 where
    g0: "find (is_goal prj metric) (written_goals prj metric i seconds recipients (al_goals s)) = Some (?f g0)" by blast
  with stores(5,6) assms(1) others seconds show ?thesis
    by (intro exI [of _ "?f g0"]) (simp add: goal_for stored_goal_def)
qed

section \<open>Witnesses\<close>

text \<open>Two rooms that nobody took, ten minutes and an hour in the queue, against a goal of five minutes.\<close>

definition goal_world :: world where
  "goal_world = small_world\<lparr>
     rooms := [blank_room\<lparr>rm_queue := Some ''q'', rm_added_to_queue_at := Some (- micros 600)\<rparr>,
               blank_room\<lparr>rm_uuid := ''r2'', rm_queue := Some ''q'', rm_added_to_queue_at := Some (- micros 3600)\<rparr>]\<rparr>"

definition sample_goal :: metric_goal where
  "sample_goal = \<lparr>goa_project = ''p'', goa_metric = ''waiting_time'', goa_threshold_seconds = 300, goa_unit = ''m'',
     goa_is_active = True, goa_email_enabled = False, goa_rooms_threshold_count = 5, goa_rooms_threshold_percent = None,
     goa_recipients = []\<rparr>"

definition goal_state :: "mem_cache alert_state" where
  "goal_state = \<lparr>al_world = goal_world, al_goals = [sample_goal], al_redis = mem_empty, al_flags = mem_empty\<rparr>"

definition goal_env :: "mem_cache alert_env" where
  "goal_env = \<lparr>ale_env = calm_env\<lparr>flag_attr := (\<lambda>_ _. Some True)\<rparr>, ale_ops = mem_ops, ale_flag_ttl = 30,
     ale_user_hash = (\<lambda>e. e)\<rparr>"

lemmas goal_simps = goal_world_def sample_goal_def goal_state_def goal_env_def sample_defs VALID_METRICS_def
  METRIC_WAITING_TIME_def METRIC_FIRST_RESPONSE_TIME_def METRIC_CONVERSATION_DURATION_def

lemma goal_state_ok: "alert_state_ok mem_ops ''waiting_time'' goal_state"
  by (auto simp: alert_state_ok_def violating_projects_def alerting_projects_def flagged_def goal_simps plain_def
      mem_defs mem_empty_def)

lemma goal_ops [simp]: "ale_ops goal_env = mem_ops"
  by (simp add: goal_env_def)

lemma goal_flags [simp]:
  "violating_projects mem_ops ''waiting_time'' goal_state = {}" "alerting_projects mem_ops ''waiting_time'' goal_state = {}"
  by (auto simp: goal_state_def violating_projects_def alerting_projects_def flagged_def mem_defs mem_empty_def)

lemma goal_hyps:
  "cache_backend (ale_ops goal_env)" "''waiting_time'' \<in> set VALID_METRICS"
  "alert_state_ok (ale_ops goal_env) ''waiting_time'' goal_state"
  using goal_state_ok mem.cache_backend_axioms by (auto simp: VALID_METRICS_def METRIC_WAITING_TIME_def)

theorem sweep_refines_witness:
  "\<exists>res t. process_violations goal_env (task_callbacks goal_env) ''waiting_time'' 1800 goal_state = (Inr res, t)
     \<and> pr_updates res = [] \<and> pr_resolved res = []
     \<and> violating_projects mem_ops ''waiting_time'' t = vio_project ` set (pr_new_alerts res)"
  using sweep_refines [OF goal_hyps(1) _ goal_hyps(2,3), of 1800] by auto

text \<open>Two sweeps ten minutes apart.\<close>

lemma goal_cache: "renewing_cache (ale_ops goal_env) mem_left"
  by (simp add: renewed_mem.renewing_cache_axioms)

lemma two_sweeps:
  obtains res1 res2 t2 where
    "sweeps goal_env mem_left ''waiting_time'' 1800 goal_state [res1, res2] 0 t2"
proof -
  let ?m = "''waiting_time''"
  obtain vs s1 res1 t1 where one: "process_violations goal_env (task_callbacks goal_env) ?m 1800 goal_state = (Inr res1, t1)"
    and V1: "violating_projects mem_ops ?m t1 = vio_project ` set vs"
    and A1: "alerting_projects mem_ops ?m t1 = vio_project ` set (filter alarms vs)
      \<union> (alerting_projects mem_ops ?m goal_state - violating_projects mem_ops ?m goal_state - vio_project ` set vs)"
    and plain: "\<And>v. v \<in> set vs \<Longrightarrow> plain (vio_project v)"
    by (rule sweep_outcome [OF goal_hyps(1) _ goal_hyps(2,3), of 1800]) auto
  define t where "t = goal_state\<lparr>al_redis := c_elapse mem_ops 600 (al_redis t1)\<rparr>"
  have s: "sweeps goal_env mem_left ?m 1800 goal_state ([] @ [res1]) 0 t1"
    by (rule sweeps.sweep [OF sweeps.start _ refl one refl]) (simp add: goal_state_ok)
  have s': "sweeps goal_env mem_left ?m 1800 goal_state [res1] (0 + 600) t"
    by (rule sweeps.pause [OF s [simplified]]) (simp_all add: t_def)
  have last: "flags_last mem_ops mem_left ?m (1800 - 0) t1"
    using sweeps_events [OF s goal_cache _ goal_hyps(2)] by simp
  have same: "violating_projects mem_ops ?m t = violating_projects mem_ops ?m t1"
    "alerting_projects mem_ops ?m t = alerting_projects mem_ops ?m t1"
    using same_flags [of ?m mem_ops t t1] flags_outlive_pause(2) [OF timed_mem.expiring_cache_axioms last, of 600 t]
    by (simp_all add: t_def)
  have ok: "alert_state_ok mem_ops ?m t"
    using goal_state_ok plain unfolding alert_state_ok_def same V1 A1 by (auto simp: t_def)
  obtain us s2 res2 t2 where two: "process_violations goal_env (task_callbacks goal_env) ?m 1800 t = (Inr res2, t2)"
    by (rule sweep_outcome [OF goal_hyps(1) _ goal_hyps(2), of 1800 t]) (use ok in auto)
  have "sweeps goal_env mem_left ?m 1800 goal_state ([res1] @ [res2]) 0 t2"
    by (rule sweeps.sweep [OF s' _ refl two refl]) (simp add: ok)
  then show ?thesis by (intro that) simp
qed

theorem violations_announced_in_order_witness:
  "\<exists>res1 res2 t. sweeps goal_env mem_left ''waiting_time'' 1800 goal_state [res1, res2] 0 t \<and>
     alternates False (widget_events ''p'' res1 @ widget_events ''p'' res2)"
proof -
  obtain res1 res2 t where s: "sweeps goal_env mem_left ''waiting_time'' 1800 goal_state [res1, res2] 0 t"
    by (rule two_sweeps)
  have "alternates False (concat (map (widget_events ''p'') [res1, res2]))"
    using violations_announced_in_order [OF s goal_cache _ goal_hyps(2), of "''p''"] by simp
  with s show ?thesis by auto
qed

definition sample_violation :: violation where
  "sample_violation = \<lparr>vio_project = ''p'', vio_metric = ''waiting_time'', vio_violating_count = 2, vio_max_value_seconds = 600,
     vio_threshold_seconds = 300, vio_rooms_threshold_count = 5, vio_rooms_threshold_percent = None,
     vio_active_rooms_count = None, vio_email_enabled = False, vio_detected_at = 0\<rparr>"

lemma goal_detected:
  "\<exists>t. detect_violations goal_env ''waiting_time'' goal_state = (Inr [sample_violation], t)"
  by (simp add: goal_simps detect_violations_def py_defs is_metric_goal_alerts_enabled_def Let_def mem_defs mem_empty_def
      violation_of_def build_violation_queryset_def sample_violation_def room_in_project_def sector_of_def queue_of_def
      find_queue_def find_sector_def sector_of_queue_def not_after_def micros_def max_age_field_def aggregate_max_def map_filter_simps
      trunc_seconds_def resolve_threshold_count_def)

theorem max_value_is_of_youngest_witness:
  "\<exists>rs. build_violation_queryset goal_world ''waiting_time'' ''p'' (- micros 300) = Inr rs \<and> length rs = 2
     \<and> (\<forall>r \<in> set rs. \<forall>t. rm_added_to_queue_at r = Some t \<longrightarrow> 600 \<le> trunc_seconds (- t))"
proof -
  obtain t where "detect_violations goal_env ''waiting_time'' goal_state = (Inr [sample_violation], t)"
    using goal_detected by blast
  from max_value_is_of_youngest [OF this, of sample_violation] show ?thesis
    by (simp add: sample_violation_def goal_state_def goal_env_def calm_env_def max_age_field_def METRIC_WAITING_TIME_def)
      blast
qed

theorem breach_counts_agree_witness:
  "map_sum id length (build_violation_queryset goal_world ''waiting_time'' ''p'' (0 - micros 300))
     = Inr (count_breached_rooms goal_world 0 sample_goal None)"
  using breach_counts_agree [of sample_goal goal_world 0]
  by (simp add: goal_simps)

definition sample_input :: goal_input where
  "sample_input = \<lparr>gin_threshold = Some 5, gin_threshold_seconds = None, gin_unit = ''m'', gin_is_active = True,
     gin_email_enabled = False, gin_rooms_threshold_count = 0, gin_rooms_threshold_percent = Some 20, gin_recipients = None\<rparr>"

lemma sample_goals_ok: "goals_ok (al_goals goal_state)"
  by (simp add: goals_ok_def goal_ok_def goal_simps UNIT_TO_SECONDS_def column_max_def)

theorem goals_well_formed_witness:
  "goals_ok (al_goals (snd (upsert_metric_goal goal_env ''p'' ''a@x'' ''waiting_time'' sample_input goal_state)))"
  using goals_well_formed [OF sample_goals_ok] by blast

definition admin_state :: "mem_cache alert_state" where
  "admin_state = goal_state\<lparr>al_world := goal_world\<lparr>permissions := [blank_permission\<lparr>prm_role := 1\<rparr>]\<rparr>\<rparr>"

lemma sample_upsert:
  "\<exists>found t. upsert_metric_goal goal_env ''p'' ''a@x'' ''waiting_time'' sample_input admin_state = (Inr found, t)"
  by (simp add: admin_state_def goal_simps upsert_metric_goal_def py_defs ensure_can_configure_def
      is_metric_goal_alerts_enabled_def Let_def mem_defs mem_empty_def is_admin_def validate_goal_def sample_input_def
      UNIT_TO_SECONDS_def update_or_create_goal_def column_max_def)

theorem saved_goal_reads_back_witness:
  "\<exists>g t. goal_for (al_goals t) ''p'' ''waiting_time'' = Some g
     \<and> snd (upsert_metric_goal goal_env ''p'' ''a@x'' ''waiting_time'' sample_input admin_state) = t
     \<and> threshold_seconds_to_unit_value (goa_threshold_seconds g) (goa_unit g) = 5"
proof -
  obtain found t where run: "upsert_metric_goal goal_env ''p'' ''a@x'' ''waiting_time'' sample_input admin_state = (Inr found, t)"
    using sample_upsert by blast
  from saved_goal_reads_back [OF run, of 5] run show ?thesis by (auto simp: sample_input_def)
qed

end
