(* ===== verification/Open_Rooms.thy ===== *)
theory Open_Rooms
  imports Room_Opening
begin

text \<open>
  What \<open>Room_Opening\<close> keeps: a contact has at most one open room in a project, and the limit of a queue.
  \<open>fewer_open\<close> relates states between which no room opens and \<open>opens_one\<close> states between which one opens for
  a contact without any; both are shown for every statement of the request in the order of the code.
\<close>

section \<open>Which rooms are open\<close>

text \<open>The open rooms, each with its contact and its queue, and the project of a queue.\<close>

definition open_keys :: "world \<Rightarrow> (uuid \<times> uuid option \<times> uuid option) set" where
  "open_keys w = set (map (\<lambda>r. (rm_uuid r, rm_contact r, rm_queue r)) (filter rm_is_active (rooms w)))"

definition queue_project :: "world \<Rightarrow> uuid option \<Rightarrow> uuid option" where
  "queue_project w q = map_option sec_project (Option.bind (Option.bind q (find_queue w)) (sector_of_queue w))"

text \<open>Two rooms of one contact in one project.\<close>

definition rivals :: "world \<Rightarrow> uuid \<times> uuid option \<times> uuid option \<Rightarrow> uuid \<times> uuid option \<times> uuid option \<Rightarrow> bool" where
  "rivals w a b \<longleftrightarrow> fst (snd a) \<noteq> None \<and> fst (snd a) = fst (snd b) \<and> queue_project w (snd (snd a)) \<noteq> None \<and>
     queue_project w (snd (snd a)) = queue_project w (snd (snd b))"

definition one_open_room :: "world \<Rightarrow> bool" where
  "one_open_room w \<longleftrightarrow> (\<forall>a \<in> open_keys w. \<forall>b \<in> open_keys w. rivals w a b \<longrightarrow> fst a = fst b)"

text \<open>A step that opens no room, and a step that opens at most one, for a contact without any in the project.\<close>

definition fewer_open :: "world \<Rightarrow> world \<Rightarrow> bool" where
  "fewer_open s t \<longleftrightarrow> queues t = queues s \<and> sectors t = sectors s \<and> open_keys t \<subseteq> open_keys s"

definition opens_room :: "uuid \<times> uuid option \<times> uuid option \<Rightarrow> world \<Rightarrow> world \<Rightarrow> bool" where
  "opens_room a s t \<longleftrightarrow> queues t = queues s \<and> sectors t = sectors s \<and> open_keys t \<subseteq> insert a (open_keys s)"

definition opens_one :: "world \<Rightarrow> world \<Rightarrow> bool" where
  "opens_one s t \<longleftrightarrow> fewer_open s t \<or>
     (\<exists>u a. fewer_open s u \<and> opens_room a u t \<and> (\<forall>b \<in> open_keys u. \<not> rivals u a b))"

interpretation fewer: world_order fewer_open
proof
  show "fewer_open s s" for s by (simp add: fewer_open_def)
  show "fewer_open s t \<Longrightarrow> fewer_open t u \<Longrightarrow> fewer_open s u" for s t u
    unfolding fewer_open_def by (metis subset_trans)
  show "fewer_open s (s\<lparr>effects := es\<rparr>)" for s es by (simp add: fewer_open_def open_keys_def)
qed

lemma queue_project_cong: "queues t = queues s \<Longrightarrow> sectors t = sectors s \<Longrightarrow> queue_project t = queue_project s"
  by (simp add: queue_project_def [abs_def] find_queue_def [abs_def] sector_of_queue_def [abs_def] find_sector_def [abs_def])

lemma rivals_cong: "queues t = queues s \<Longrightarrow> sectors t = sectors s \<Longrightarrow> rivals t = rivals s"
  by (simp add: rivals_def [abs_def] queue_project_cong [of t s])

lemma rivals_sym: "rivals w a b \<Longrightarrow> rivals w b a"
  unfolding rivals_def by metis

lemma fewer_then_one: "fewer_open s t \<Longrightarrow> opens_one t u \<Longrightarrow> opens_one s u"
  unfolding opens_one_def using fewer.R_trans by blast

lemma opens_then_fewer: "opens_room a s t \<Longrightarrow> fewer_open t u \<Longrightarrow> opens_room a s u"
  unfolding opens_room_def fewer_open_def by (metis subset_trans)

lemma one_then_fewer: "opens_one s t \<Longrightarrow> fewer_open t u \<Longrightarrow> opens_one s u"
  unfolding opens_one_def using fewer.R_trans opens_then_fewer by blast

lemma one_open_fewer:
  assumes "one_open_room s" and "fewer_open s t"
  shows "one_open_room t"
proof -
  have "rivals t = rivals s" "open_keys t \<subseteq> open_keys s"
    using assms(2) rivals_cong [of t s] unfolding fewer_open_def by blast+
  with assms(1) show ?thesis unfolding one_open_room_def by (metis subsetD)
qed

lemma one_open_kept:
  assumes "one_open_room s" and "opens_one s t"
  shows "one_open_room t"
proof (cases "fewer_open s t")
  case True
  with assms(1) show ?thesis by (rule one_open_fewer)
next
  case False
  with assms(2) obtain u a where u: "fewer_open s u" "opens_room a u t" "\<forall>b \<in> open_keys u. \<not> rivals u a b"
    unfolding opens_one_def by blast
  have one: "one_open_room u" using one_open_fewer [OF assms(1) u(1)] .
  have same: "rivals t = rivals u" and sub: "open_keys t \<subseteq> insert a (open_keys u)"
    using u(2) rivals_cong [of t u] unfolding opens_room_def by blast+
  show ?thesis
    unfolding one_open_room_def same
  proof (intro ballI impI)
    fix x y
    assume "x \<in> open_keys t" "y \<in> open_keys t" "rivals u x y"
    moreover from this have "x = a \<or> x \<in> open_keys u" "y = a \<or> y \<in> open_keys u" using sub by auto
    ultimately show "fst x = fst y"
      using u(3) one rivals_sym unfolding one_open_room_def by blast
  qed
qed

section \<open>Steps that open no room\<close>

lemma fewer_routing: "keeps routing_frame m \<Longrightarrow> keeps fewer_open m"
  by (erule keeps_mono) (simp add: routing_frame_def fewer_open_def open_keys_def)

lemma fewer_modify:
  "keeps fewer_open (modify (\<lambda>w. w\<lparr>contacts := f1 w\<rparr>))" "keeps fewer_open (modify (\<lambda>w. w\<lparr>flow_starts := f2 w\<rparr>))"
  "keeps fewer_open (modify (\<lambda>w. w\<lparr>messages := f3 w\<rparr>))" "keeps fewer_open (modify (\<lambda>w. w\<lparr>metrics := f4 w\<rparr>))"
  "keeps fewer_open new_id"
  by (simp_all add: keeps_def modify_def new_id_def fewer_open_def open_keys_def)

definition same_key :: "(room \<Rightarrow> room) \<Rightarrow> bool" where
  "same_key f \<longleftrightarrow> (\<forall>r. rm_uuid (f r) = rm_uuid r \<and> rm_contact (f r) = rm_contact r \<and> rm_queue (f r) = rm_queue r \<and>
     rm_is_active (f r) = rm_is_active r)"

lemma open_keys_update:
  assumes "same_key f"
  shows "open_keys (w\<lparr>rooms := update_where p f (rooms w)\<rparr>) = open_keys w"
proof -
  have "map (\<lambda>r. (rm_uuid r, rm_contact r, rm_queue r)) (filter rm_is_active (update_where p f rs)) =
      map (\<lambda>r. (rm_uuid r, rm_contact r, rm_queue r)) (filter rm_is_active rs)" for rs
    using assms by (induction rs) (auto simp: same_key_def)
  then show ?thesis by (simp add: open_keys_def del: set_map set_filter)
qed

lemma fewer_update_room: "same_key f \<Longrightarrow> keeps fewer_open (update_room k f)"
  by (rule keepsI) (simp add: update_room_def modify_def fewer_open_def open_keys_update)

lemma fewer_tags: "keeps fewer_open (tags_on_queue_change ob r)" "keeps fewer_open (handle_close_tags k ts)"
  unfolding tags_on_queue_change_def clear_tags_def handle_close_tags_def
  by (auto intro!: fewer.keeps_world fewer_update_room simp: same_key_def split: option.split)

lemma fewer_after_write:
  "keeps fewer_open (andthen (tags_on_queue_change ob r) (andthen (update_agent_service_status env b r) (ret x)))"
  by (intro fewer.keeps_world fewer_tags frame_update_agent_service_status [THEN rframe_status, THEN fewer_routing])

lemma fewer_clear_pins: "keeps fewer_open (clear_pins k)"
  unfolding clear_pins_def by (rule fewer_routing) (rule rframe_modify)

text \<open>\<open>save\<close> opens nothing when what it writes is open nowhere new.\<close>

lemma fewer_save:
  assumes "\<And>w. R w \<Longrightarrow> fewer_open w (snd (write_room cols (ob_adding ob) (stamped env ob) w))"
    and "R s" and "\<And>w w'. R w \<Longrightarrow> rooms w' = rooms w \<Longrightarrow> R w'"
  shows "fewer_open s (snd (room_save env cols ob s))"
proof (cases "\<not> ob_adding ob \<and> map_option rm_is_active (find_room s (room_pk ob)) = Some False")
  case True
  then show ?thesis by (simp add: room_save_def run_gets raise_def fewer.R_refl)
next
  case False
  obtain s1 where s1: "when_true (user_changed ob) (clear_pins (room_pk ob)) s = (Inr (), s1)" "rooms s1 = rooms s"
    by (cases "user_changed ob") (auto simp: clear_pins_def modify_def ret_def)
  have "fewer_open s s1"
    using keepsD [OF fewer.keeps_when [OF fewer_clear_pins] s1(1)] .
  moreover have "fewer_open s1 (snd (andthen (write_room cols (ob_adding ob) (stamped env ob))
          (andthen (tags_on_queue_change ob (stamped env ob))
          (andthen (update_agent_service_status env (ob_adding ob) (stamped env ob))
            (ret (saved_obj cols (stamped env ob) ob)))) s1))"
  proof (cases "write_room cols (ob_adding ob) (stamped env ob) s1")
    case (Pair r s2)
    have "R s1" using assms(2,3) s1(2) by blast
    then have "fewer_open s1 s2" using assms(1) [of s1] Pair by simp
    moreover have "fewer_open s2 (snd (andthen (tags_on_queue_change ob (stamped env ob))
          (andthen (update_agent_service_status env (ob_adding ob) (stamped env ob))
            (ret (saved_obj cols (stamped env ob) ob))) s2))"
      using fewer_after_write [of ob "stamped env ob" env "ob_adding ob" "saved_obj cols (stamped env ob) ob"]
      by (simp add: keeps_def)
    ultimately show ?thesis using Pair by (cases r) (auto simp: andthen_def bnd_def intro: fewer.R_trans)
  qed
  ultimately show ?thesis
    using False s1(1) unfolding room_save_def run_gets by (auto simp: andthen_def bnd_def intro: fewer.R_trans)
qed

lemma fewer_save_columns:
  assumes "\<And>r. same_key (c r)"
  shows "keeps fewer_open (room_save env (Some c) ob)"
proof (rule keepsI, rule fewer_save [where R = "\<lambda>_. True"])
  fix w
  show "fewer_open w (snd (write_room (Some c) (ob_adding ob) (stamped env ob) w))"
    using fewer_update_room [OF assms] fewer.R_refl
    by (auto simp: write_room_def copy_columns_def [abs_def] keeps_def split: option.split)
qed simp_all

lemma fewer_save_inactive:
  assumes "\<not> rm_is_active (ob_row ob)"
  shows "keeps fewer_open (room_save env None ob)"
proof (rule keepsI, rule fewer_save [where R = "\<lambda>_. True"])
  fix w
  have "\<not> rm_is_active (stamped env ob)" using assms by (simp add: stamped_def stamp_times_def Let_def)
  then show "fewer_open w (snd (write_room None (ob_adding ob) (stamped env ob) w))"
    by (auto simp: write_room_def update_room_def modify_def copy_columns_def fewer_open_def open_keys_def update_where_def
        split: option.split if_splits)
qed simp_all

text \<open>An instance whose row has the same contact and queue.\<close>

definition matches :: "room_obj \<Rightarrow> world \<Rightarrow> bool" where
  "matches ob w \<longleftrightarrow> \<not> ob_adding ob \<and> (\<exists>row. find_room w (room_pk ob) = Some row \<and>
     rm_contact row = rm_contact (ob_row ob) \<and> rm_queue row = rm_queue (ob_row ob))"

lemma stamped_key: "rm_uuid (stamped env ob) = room_pk ob" "rm_contact (stamped env ob) = rm_contact (ob_row ob)"
  "rm_queue (stamped env ob) = rm_queue (ob_row ob)" "rm_is_active (stamped env ob) = rm_is_active (ob_row ob)"
  by (simp_all add: stamped_def stamp_times_def Let_def room_pk_def)

lemma fewer_save_matching:
  assumes "matches ob s"
  shows "fewer_open s (snd (room_save env None ob s))"
proof -
  let ?R = "\<lambda>w. \<exists>row. find_room w (room_pk ob) = Some row \<and> rm_is_active row \<and>
     rm_contact row = rm_contact (ob_row ob) \<and> rm_queue row = rm_queue (ob_row ob)"
  obtain row where row: "find_room s (room_pk ob) = Some row" "rm_contact row = rm_contact (ob_row ob)"
    "rm_queue row = rm_queue (ob_row ob)" "\<not> ob_adding ob" using assms by (auto simp: matches_def)
  show ?thesis
  proof (cases "rm_is_active row")
    case False
    with row show ?thesis by (simp add: room_save_def run_gets raise_def fewer.R_refl)
  next
    case True
    show ?thesis
    proof (rule fewer_save [where R = ?R])
      fix w
      assume "?R w"
      then obtain r where r: "find_room w (room_pk ob) = Some r" "rm_is_active r"
        "rm_contact r = rm_contact (ob_row ob)" "rm_queue r = rm_queue (ob_row ob)" by blast
      then have "(room_pk ob, rm_contact (ob_row ob), rm_queue (ob_row ob)) \<in> open_keys w"
        unfolding open_keys_def using find_in_set [OF r(1) [unfolded find_room_def]] find_room_uuid [OF r(1)]
        by (force simp: image_iff)
      then have "open_keys (w\<lparr>rooms := update_where (\<lambda>x. rm_uuid x = room_pk ob) (copy_columns None (stamped env ob)) (rooms w)\<rparr>)
          \<subseteq> open_keys w"
        by (auto simp: open_keys_def update_where_def copy_columns_def stamped_key split: if_splits)
      with r(1) show "fewer_open w (snd (write_room None (ob_adding ob) (stamped env ob) w))"
        by (auto simp: write_room_def stamped_key update_room_def modify_def fewer_open_def)
    next
      show "?R s" using row True by blast
    next
      show "?R w \<Longrightarrow> rooms w' = rooms w \<Longrightarrow> ?R w'" for w w' by (simp add: find_room_def)
    qed
  qed
qed

lemma rframe_notify_room: "keeps routing_frame (notify_room env r a b)" "keeps routing_frame (request_callback env r)"
  unfolding notify_room_def request_callback_def
  by (auto intro!: rframe_rules rframe_notify rframe_callback_from split: option.split)

lemma fewer_reset: "keeps fewer_open (reset_inactivity env ob)"
  unfolding reset_inactivity_def
  by (intro fewer.keeps_world fewer_update_room rframe_inactivity [THEN fewer_routing]) (simp add: same_key_def)

lemma fewer_on_new_message: "(\<And>x. keeps fewer_open (reset x)) \<Longrightarrow> keeps fewer_open (on_new_message reset ob m c n)"
  unfolding on_new_message_def by (intro fewer.keeps_world fewer_update_room) (simp_all add: same_key_def)

lemma fewer_add_transfer: "keeps fewer_open (add_transfer_to_history env x ob)"
  unfolding add_transfer_to_history_def by (rule fewer_save_columns) (simp add: same_key_def)

lemma fewer_room_close: "keeps fewer_open (room_close env tags e c ob)"
  unfolding room_close_def after_close_def start_csat_flow_def
  by (intro fewer.keeps_world fewer_tags fewer_clear_pins fewer_save_inactive
      frame_room_closed [THEN rframe_status, THEN fewer_routing]) (simp add: closing_def set_row_def)

lemmas fewer_rules = fewer.keeps_world fewer_modify rframe_notify_room [THEN fewer_routing]
  rframe_notify [THEN fewer_routing] rframe_feedback [THEN fewer_routing] rframe_automatic [THEN fewer_routing]
  rframe_generate_metrics [THEN fewer_routing] fewer_reset fewer_on_new_message fewer_add_transfer fewer_room_close

lemma fewer_contact: "keeps fewer_open (update_or_create_contact cx rq)"
  unfolding update_or_create_contact_def by (intro fewer_rules)

lemma fewer_close_flow_start: "keeps fewer_open (close_flow_start_room env f)"
  unfolding close_flow_start_room_def delete_flow_start_def load_room_def close_room_def by (intro fewer_rules)

lemma fewer_active_flow_start: "keeps fewer_open (get_active_room_flow_start env e fl p)"
  unfolding get_active_room_flow_start_def delete_flow_start_def load_room_def
  by (auto intro!: fewer_rules fewer_close_flow_start split: list.split)

lemma fewer_get_available: "keeps fewer_open (get_available_agent env q s p)"
  unfolding get_available_agent_def flag_or_raise_def
  by (auto intro!: fewer_rules split: option.split list.split)

lemma fewer_start_routing: "(\<And>k. keeps fewer_open (route k)) \<Longrightarrow> keeps fewer_open (start_queue_priority_routing env route q)"
  unfolding start_queue_priority_routing_def by (intro fewer_rules)

lemma fewer_resolve:
  assumes "\<And>k. keeps fewer_open (route k)"
  shows "keeps fewer_open (resolve_room_user env route q s p c l u b f)"
proof -
  have state: "keeps fewer_open (\<lambda>w. (g w, w))" for g :: "world \<Rightarrow> exn + 'z" by (simp add: keeps_def fewer.R_refl)
  show ?thesis
    unfolding resolve_room_user_def resolve_requested_def resolve_queue_priority_def resolve_general_def flag_user_or_raise_def
    by (auto intro!: fewer_rules state fewer_get_available fewer_start_routing assms split: option.split)
qed

section \<open>Instances of open rooms\<close>

text \<open>A step that keeps the contact and the queue of every row.\<close>

definition keys_kept :: "world \<Rightarrow> world \<Rightarrow> bool" where
  "keys_kept s t \<longleftrightarrow> (\<forall>k. map_option (\<lambda>r. (rm_contact r, rm_queue r)) (find_room t k) =
     map_option (\<lambda>r. (rm_contact r, rm_queue r)) (find_room s k))"

interpretation keys: world_order keys_kept
  by unfold_locales (auto simp: keys_kept_def find_room_def)

lemma keys_routing: "keeps routing_frame m \<Longrightarrow> keeps keys_kept m"
  by (erule keeps_mono) (simp add: routing_frame_def keys_kept_def find_room_def)

lemma keys_update_room: "same_key f \<Longrightarrow> keeps keys_kept (update_room k f)"
  by (rule keepsI)
    (simp add: update_room_def modify_def keys_kept_def same_key_def find_room_update option.map_comp o_def)

lemma keys_tags: "keeps keys_kept (tags_on_queue_change ob r)"
  unfolding tags_on_queue_change_def clear_tags_def
  by (auto intro!: keys.keeps_world keys_update_room simp: same_key_def split: option.split)

lemma keys_save_columns:
  assumes "\<And>r. same_key (c r)"
  shows "keeps keys_kept (room_save env (Some c) ob)"
proof -
  have "keeps keys_kept (write_room (Some c) b r)" for b r
    using keys_update_room [OF assms] keys.R_refl
    by (auto simp: keeps_def write_room_def copy_columns_def [abs_def] split: option.split)
  then show ?thesis
    unfolding room_save_def clear_pins_def
    by (intro keys.keeps_world keys_tags rframe_modify [THEN keys_routing]
      frame_update_agent_service_status [THEN rframe_status, THEN keys_routing])
qed

lemma room_save_result:
  assumes "room_save env cols ob s = (Inr x, t)"
  shows "x = saved_obj cols (stamped env ob) ob"
  using assms unfolding room_save_def
  by (auto simp: py_defs split: prod.splits sum.splits if_splits)

lemma matches_kept:
  "matches ob s \<Longrightarrow> keys_kept s t \<Longrightarrow> room_pk ob' = room_pk ob \<Longrightarrow> rm_contact (ob_row ob') = rm_contact (ob_row ob) \<Longrightarrow>
   rm_queue (ob_row ob') = rm_queue (ob_row ob) \<Longrightarrow> \<not> ob_adding ob' \<Longrightarrow> matches ob' t"
proof -
  assume "matches ob s" "keys_kept s t" and same: "room_pk ob' = room_pk ob" "rm_contact (ob_row ob') = rm_contact (ob_row ob)"
    "rm_queue (ob_row ob') = rm_queue (ob_row ob)" "\<not> ob_adding ob'"
  then have "map_option (\<lambda>r. (rm_contact r, rm_queue r)) (find_room t (room_pk ob)) =
      Some (rm_contact (ob_row ob), rm_queue (ob_row ob))"
    by (auto simp: matches_def keys_kept_def)
  with same show "matches ob' t" by (auto simp: matches_def)
qed

lemma matches_saved:
  assumes "matches ob s" and "room_save env (Some c) ob s = (Inr x, t)" and "\<And>r. same_key (c r)"
  shows "matches x t"
  using matches_kept [OF assms(1) keepsD [OF keys_save_columns assms(2)]] assms(3) room_save_result [OF assms(2)]
  by (simp add: saved_obj_def room_pk_def stamped_key)

lemma matches_loaded: "load_room k s = (Inr ob, t) \<Longrightarrow> matches ob t"
  by (auto simp: load_room_def need_def py_defs matches_def room_pk_def find_room_uuid split: option.splits)

text \<open>A run from a state in which the instance is true to its row.\<close>

lemma fewer_bnd_at:
  assumes "fewer_open s (snd (m s))" and "\<And>x t. m s = (Inr x, t) \<Longrightarrow> fewer_open t (snd (f x t))"
  shows "fewer_open s (snd (bnd m f s))"
  using assms by (cases "m s") (auto simp: bnd_def split: sum.split intro: fewer.R_trans)

lemma fewer_process_history:
  assumes "\<And>r. keeps fewer_open (op_default_message cx r)" and "matches ob s"
  shows "fewer_open s (snd (process_message_history cx ob hs s))"
proof -
  have row: "keeps fewer_open (create_history_row r h)" for r h
    unfolding create_history_row_def Let_def by (auto intro!: fewer_rules split: option.split)
  have rest: "keeps fewer_open (if hs = [] then ret ob2
         else bnd (atomic (fold_each (\<lambda>h ms. bnd (create_history_row (ob_row ob2) h) (\<lambda>m. ret (ms @ [m]))) hs [])) (\<lambda>ms.
           andthen (sequence
             [notify_room (op_env cx) (ob_row ob2) ''create'' False,
              when_true (rm_user (ob_row ob2) = None \<and> rm_contact (ob_row ob2) \<noteq> None \<and> b)
                (op_default_message cx (ob_row ob2)),
              on_new_message (\<lambda>x. andthen (reset_inactivity (op_env cx) x) (ret ())) ob2 (last ms)
                (msg_contact (last ms)) (int (length ms))])
             (ret ob2)))" for ob2 b
    unfolding sequence.simps by (intro fewer_rules row assms(1))
  have "matches (set_row (\<lambda>r. r\<lparr>rm_is_waiting := False\<rparr>) ob) s"
    using assms(2) by (simp add: matches_def set_row_def room_pk_def)
  then have save: "fewer_open s (snd (room_save (op_env cx) None (if b then set_row (\<lambda>r. r\<lparr>rm_is_waiting := False\<rparr>) ob else ob) s))" for b
    using assms(2) fewer_save_matching by simp
  show ?thesis
    unfolding process_message_history_def run_gets prod.case
  proof (cases "list_ex (\<lambda>h. hm_text h = None \<and> hm_attachments h = []) hs", goal_cases)
    case 1
    then show ?case by (simp add: raise_def fewer.R_refl)
  next
    case 2
    then show ?case
      unfolding Let_def if_not_P [OF 2]
      by (intro fewer_bnd_at) (use save rest in \<open>auto simp: keeps_def ret_def fewer.R_refl\<close>)
  qed
qed

lemma fewer_reuse:
  assumes "\<And>r. keeps fewer_open (op_default_message cx r)" and "matches ob s"
  shows "fewer_open s (snd (reuse_flow_start_room cx rq ob s))"
proof -
  define ob1 where "ob1 = (case rq_ticket rq of None \<Rightarrow> id | Some t \<Rightarrow> set_row (\<lambda>r. r\<lparr>rm_ticket_uuid := Some t\<rparr>))
    ((case rq_callback_url rq of None \<Rightarrow> id | Some u \<Rightarrow> set_row (\<lambda>r. r\<lparr>rm_callback_url := Some u\<rparr>)) ob)"
  have m1: "matches ob1 w" if "matches ob w" for w
    using that by (auto simp: ob1_def matches_def set_row_def room_pk_def split: option.split)
  let ?c = "\<lambda>r row. let row1 = (if rq_callback_url rq = None then row else row\<lparr>rm_callback_url := rm_callback_url r\<rparr>)
             in if rq_ticket rq = None then row1 else row1\<lparr>rm_ticket_uuid := rm_ticket_uuid r\<rparr>"
  have c: "same_key (?c r)" for r by (simp add: same_key_def Let_def)
  let ?first = "if rq_callback_url rq = None \<and> rq_ticket rq = None then ret ob1
              else andthen (request_callback (op_env cx) (ob_row ob1)) (room_save (op_env cx) (Some ?c) ob1)"
  have "keeps fewer_open ?first" by (intro fewer_rules fewer_save_columns c)
  then have "fewer_open s (snd (?first s))" unfolding keeps_def by blast
  moreover have "matches x t" if "?first s = (Inr x, t)" for x t
  proof (cases "rq_callback_url rq = None \<and> rq_ticket rq = None")
    case True
    with that m1 [OF assms(2)] show ?thesis by (simp add: ret_def)
  next
    case False
    with that obtain u v where "request_callback (op_env cx) (ob_row ob1) s = (Inr v, u)"
      and save: "room_save (op_env cx) (Some ?c) ob1 u = (Inr x, t)" by (auto elim!: andthen_InrE)
    then have "keys_kept s u" using keepsD [OF rframe_notify_room(2) [THEN keys_routing]] by blast
    with m1 [OF assms(2)] have "matches ob1 u" by (rule matches_kept) (use m1 [OF assms(2)] in \<open>simp_all add: matches_def\<close>)
    from matches_saved [OF this save c] show ?thesis .
  qed
  ultimately show ?thesis
    unfolding reuse_flow_start_room_def Let_def ob1_def [symmetric]
    by (intro fewer_bnd_at) (auto simp: ret_def fewer.R_refl Let_def intro: fewer_process_history [OF assms(1)])
qed

section \<open>The new room\<close>

definition inserted_row :: "env \<Rightarrow> room \<Rightarrow> room" where
  "inserted_row env r = (stamped env (new_room r))\<lparr>rm_tags := []\<rparr>"

lemma inserted_key: "rm_uuid (inserted_row env r) = rm_uuid r" "rm_contact (inserted_row env r) = rm_contact r"
  "rm_queue (inserted_row env r) = rm_queue r" "rm_is_active (inserted_row env r) = rm_is_active r"
  "rm_user (inserted_row env r) = rm_user r" "rm_is_waiting (inserted_row env r) = rm_is_waiting r"
  by (simp_all add: inserted_row_def stamped_def stamp_times_def Let_def new_room_def)

text \<open>Every outcome of the insertion: nothing, or the row at the end of the table.\<close>

lemma insert_room_cases:
  assumes "insert_room env r s = (res, t)"
  shows "config_frame s t \<and> (rooms t = rooms s \<and> (\<exists>e. res = Inl e) \<or> rooms t = rooms s @ [inserted_row env r]) \<and>
    (\<forall>ob. res = Inr ob \<longrightarrow> ob = saved_obj None (stamped env (new_room r)) (new_room r) \<and> find_room s (rm_uuid r) = None)"
proof -
  let ?ob = "new_room r"
  have new: "ob_adding ?ob" "\<not> user_changed ?ob" "tags_on_queue_change ?ob (stamped env ?ob) = ret ()"
    by (simp_all add: new_room_def user_changed_def tags_on_queue_change_def stamped_key split: option.split)
  have save: "room_save env None ?ob s = andthen (write_room None True (stamped env ?ob))
      (andthen (update_agent_service_status env True (stamped env ?ob)) (ret (saved_obj None (stamped env ?ob) ?ob))) s"
    by (simp add: room_save_def run_gets new)
  have "keeps config_frame (insert_room env r)"
    unfolding insert_room_def
    by (intro config_frame.keeps_world cframe_room_save cframe_routing [OF rframe_modify(2)])
  from keepsD [where R = config_frame and m = "insert_room env r", OF this assms] have conf: "config_frame s t" .
  have tail: "rooms u' = rooms u \<and> (\<forall>ob. q = Inr ob \<longrightarrow> ob = saved_obj None (stamped env ?ob) ?ob)"
    if "bnd (andthen (update_agent_service_status env True (stamped env ?ob)) (ret (saved_obj None (stamped env ?ob) ?ob)))
      (\<lambda>ob. andthen (modify (\<lambda>w. w\<lparr>metrics := metrics w @ [empty_metrics (rm_uuid r)]\<rparr>)) (ret ob)) u = (q, u')" for q u u'
  proof -
    have "keeps routing_frame (bnd (andthen (update_agent_service_status env True (stamped env ?ob)) (ret (saved_obj None (stamped env ?ob) ?ob)))
      (\<lambda>ob. andthen (modify (\<lambda>w. w\<lparr>metrics := metrics w @ [empty_metrics (rm_uuid r)]\<rparr>)) (ret ob)))"
      by (intro rframe_rules frame_update_agent_service_status [THEN rframe_status])
    then have "routing_frame u (snd (q, u'))" unfolding keeps_def that [symmetric] by blast
    then have "rooms u' = rooms u" by (simp add: routing_frame_rooms)
    moreover have "\<forall>ob. q = Inr ob \<longrightarrow> ob = saved_obj None (stamped env ?ob) ?ob"
      using that by (auto elim!: bnd_InrE andthen_InrE simp: ret_def)
    ultimately show ?thesis by simp
  qed
  have run: "insert_room env r s = bnd (write_room None True (stamped env ?ob)) (\<lambda>_. bnd (andthen
      (update_agent_service_status env True (stamped env ?ob)) (ret (saved_obj None (stamped env ?ob) ?ob)))
      (\<lambda>ob. andthen (modify (\<lambda>w. w\<lparr>metrics := metrics w @ [empty_metrics (rm_uuid r)]\<rparr>)) (ret ob))) s"
    unfolding insert_room_def using save by (simp add: andthen_def bnd_def split: prod.split sum.split)
  show ?thesis
  proof (cases "write_room None True (stamped env ?ob) s")
    case (Pair p u)
    show ?thesis
    proof (cases p)
      case (Inl e)
      then have "rooms u = rooms s"
        using Pair by (auto simp: write_room_def update_room_def modify_def split: option.splits if_splits)
      with Inl Pair assms conf show ?thesis unfolding run by (auto simp: bnd_def)
    next
      case (Inr x)
      then have u: "rooms u = rooms s @ [inserted_row env r]" "find_room s (rm_uuid r) = None"
        using Pair by (auto simp: write_room_def inserted_row_def stamped_key room_pk_def new_room_def split: option.splits if_splits)
      from assms Pair Inr have "bnd (andthen (update_agent_service_status env True (stamped env ?ob)) (ret (saved_obj None (stamped env ?ob) ?ob)))
        (\<lambda>ob. andthen (modify (\<lambda>w. w\<lparr>metrics := metrics w @ [empty_metrics (rm_uuid r)]\<rparr>)) (ret ob)) u = (res, t)"
        unfolding run by (simp add: bnd_def)
      from tail [OF this] u conf show ?thesis by auto
    qed
  qed
qed

lemma insert_room_opens:
  assumes "insert_room env r s = (res, t)"
  shows "opens_room (rm_uuid r, rm_contact r, rm_queue r) s t"
  using insert_room_cases [OF assms]
  by (auto simp: opens_room_def config_frame_def open_keys_def inserted_key)

lemma insert_room_matches:
  assumes "insert_room env r s = (Inr ob, t)"
  shows "matches ob t \<and> room_pk ob = rm_uuid r"
  using insert_room_cases [OF assms]
  by (auto simp: matches_def saved_obj_def room_pk_def stamped_key new_room_def inserted_key find_room_def find_append
      split: option.split)

lemma opens_refl: "queues t = queues s \<Longrightarrow> sectors t = sectors s \<Longrightarrow> open_keys t \<subseteq> open_keys s \<Longrightarrow> opens_room a s t"
  by (auto simp: opens_room_def)

lemma validate_queue_limit_state: "validate_queue_limit q s = (r, t) \<Longrightarrow> t = s"
  by (auto simp: validate_queue_limit_def py_defs split: if_splits)

lemma create_room_opens:
  assumes run: "create_room cx rq q p c user urn cols flow s = (res, t)"
  shows "opens_room (op_room_pk cx, Some c, Some (que_uuid q)) s t"
    and "res = Inr ob \<Longrightarrow> matches ob t"
proof -
  have key: "(rm_uuid (room_row cx rq x p c user urn cols), rm_contact (room_row cx rq x p c user urn cols),
      rm_queue (room_row cx rq x p c user urn cols)) = (op_room_pk cx, Some c, Some (que_uuid x))" for x
    by (simp add: room_row_def)
  note opens = insert_room_opens [of _ "room_row cx rq x p c user urn cols" for x, unfolded key]
  have self: "opens_room a s s" for a by (rule opens_refl) simp_all
  have "opens_room (op_room_pk cx, Some c, Some (que_uuid q)) s t \<and> (res = Inr ob \<longrightarrow> matches ob t)"
  proof (cases "user = None \<and> (case flow of None \<Rightarrow> True | Some f \<Rightarrow> room_after s c (prj_uuid p) f)")
    case False
    with run have "insert_room (op_env cx) (room_row cx rq q p c user urn cols) s = (res, t)"
      unfolding create_room_def run_gets by (simp only: if_False)
    then show ?thesis using opens insert_room_matches by blast
  next
    case True
    with run have limited: "atomic (bnd (need (DoesNotExist ''Queue'') (\<lambda>w. find (\<lambda>x. que_uuid x = que_uuid q) (live_queues w))) (\<lambda>q'.
       andthen (validate_queue_limit q') (insert_room (op_env cx) (room_row cx rq q' p c user urn cols)))) s = (res, t)"
      unfolding create_room_def run_gets by (subst (asm) if_P) auto
    show ?thesis
    proof (cases "find (\<lambda>x. que_uuid x = que_uuid q) (live_queues s)")
      case None
      with limited self show ?thesis by (auto simp: atomic_def need_def bnd_def rollback_def)
    next
      case (Some q')
      then have q': "que_uuid q' = que_uuid q" by (auto simp: find_Some_iff)
      obtain v where v: "validate_queue_limit q' s = (v, s)" using validate_queue_limit_state by (metis surj_pair)
      obtain r2 u where ins: "insert_room (op_env cx) (room_row cx rq q' p c user urn cols) s = (r2, u)" by fastforce
      have run': "atomic (andthen (validate_queue_limit q') (insert_room (op_env cx) (room_row cx rq q' p c user urn cols))) s = (res, t)"
        using limited Some by (simp add: need_def bnd_def atomic_def)
      have undone: "opens_room a s (rollback s x)" for a x by (rule opens_refl) (simp_all add: open_keys_def)
      show ?thesis
        using run' v ins opens [OF ins] insert_room_matches [of "op_env cx" _ s ob u] q' undone
        by (cases v; cases r2) (auto simp: atomic_def andthen_def bnd_def)
    qed
  qed
  then show "opens_room (op_room_pk cx, Some c, Some (que_uuid q)) s t" and "res = Inr ob \<Longrightarrow> matches ob t" by auto
qed

section \<open>One open room for a contact in a project\<close>

lemma fewer_one: "fewer_open s t \<Longrightarrow> opens_one s t"
  by (simp add: opens_one_def)

lemma one_bnd_at:
  assumes "fewer_open s (snd (m s))" and "\<And>x t. m s = (Inr x, t) \<Longrightarrow> opens_one t (snd (f x t))"
  shows "opens_one s (snd (bnd m f s))"
  using assms by (cases "m s") (auto simp: bnd_def split: sum.split intro: fewer_then_one fewer_one)

lemma one_bnd_keeps: "keeps fewer_open m \<Longrightarrow> (\<And>x t. m s = (Inr x, t) \<Longrightarrow> opens_one t (snd (f x t))) \<Longrightarrow>
    opens_one s (snd (bnd m f s))"
  unfolding keeps_def by (rule one_bnd_at) blast

lemma one_bnd_fewer:
  assumes "opens_one s (snd (m s))" and "\<And>x t. m s = (Inr x, t) \<Longrightarrow> fewer_open t (snd (f x t))"
  shows "opens_one s (snd (bnd m f s))"
  using assms by (cases "m s") (auto simp: bnd_def split: sum.split intro: one_then_fewer)

lemma one_atomic: "opens_one s (snd (m s)) \<Longrightarrow> opens_one s (snd (atomic m s))"
  using fewer.R_rollback by (auto simp: atomic_def split: prod.split sum.split intro: fewer_one)

lemma room_in_project_queue: "room_in_project w prj r \<longleftrightarrow> queue_project w (rm_queue r) = Some prj"
  by (simp add: room_in_project_def sector_of_def queue_of_def queue_project_def)

lemma no_rivals:
  assumes "open_room_of w c prj = None" and "queue_project w q = Some prj"
  shows "\<forall>b \<in> open_keys w. \<not> rivals w (k, Some c, q) b"
  using assms by (auto simp: open_room_of_def find_None_iff room_in_project_queue open_keys_def rivals_def)

lemma no_rivals_fewer:
  assumes "\<forall>b \<in> open_keys s. \<not> rivals s a b" and "fewer_open s t"
  shows "\<forall>b \<in> open_keys t. \<not> rivals t a b"
proof -
  have "rivals t = rivals s" "open_keys t \<subseteq> open_keys s"
    using assms(2) rivals_cong [of t s] unfolding fewer_open_def by blast+
  with assms(1) show ?thesis by auto
qed

lemma fewer_validate_unique: "keeps fewer_open (validate_unique_active_project env rq c p)"
  unfolding validate_unique_active_project_def load_room_def
  by (intro fewer_rules fewer_save_columns) (simp add: same_key_def callback_and_ticket_def)

lemma new_room_one:
  assumes route: "\<And>k. keeps fewer_open (op_route_now cx k)" and greet: "\<And>r. keeps fewer_open (op_default_message cx r)"
    and free: "\<forall>b \<in> open_keys s. \<not> rivals s (op_room_pk cx, Some (fst who), Some (que_uuid q)) b"
  shows "opens_one s (snd (new_room_for cx rq q sec p who urn cols s))"
  unfolding new_room_for_def run_gets
proof (rule one_bnd_at)
  let ?resolve = "\<lambda>l f. resolve_room_user (op_env cx) (op_route_now cx) q sec p (fst who) l (rq_user rq) (snd who) f"
  fix l f
  show "fewer_open s (snd (?resolve l f s))" using fewer_resolve [OF route] by (simp add: keeps_def)
next
  fix user t flow link
  assume "resolve_room_user (op_env cx) (op_route_now cx) q sec p (fst who) link (rq_user rq) (snd who) flow s = (Inr user, t)"
  moreover have "keeps fewer_open (resolve_room_user (op_env cx) (op_route_now cx) q sec p (fst who) link (rq_user rq) (snd who) flow)"
    by (rule fewer_resolve) (rule route)
  ultimately have "fewer_open s t" by (rule keepsD [rotated])
  with free have free': "\<forall>b \<in> open_keys t. \<not> rivals t (op_room_pk cx, Some (fst who), Some (que_uuid q)) b"
    by (rule no_rivals_fewer)
  show "opens_one t (snd (bnd (create_room cx rq q p (fst who) user urn cols flow)
      (\<lambda>ob. if rq_history rq = [] then ret ob else process_message_history cx ob (rq_history rq)) t))"
  proof (rule one_bnd_fewer)
    show "opens_one t (snd (create_room cx rq q p (fst who) user urn cols flow t))"
      using free' create_room_opens(1) [of cx rq q p "fst who" user urn cols flow t] fewer.R_refl
      unfolding opens_one_def by (metis prod.collapse)
  next
    fix ob u
    assume "create_room cx rq q p (fst who) user urn cols flow t = (Inr ob, u)"
    then have "matches ob u" using create_room_opens(2) by blast
    then show "fewer_open u (snd ((if rq_history rq = [] then ret ob else process_message_history cx ob (rq_history rq)) u))"
      by (simp add: fewer_process_history [OF greet] ret_def fewer.R_refl)
  qed
qed

lemma get_queue_facts:
  assumes "get_queue_and_sector rq s = (Inr (q, sec), t)"
  shows "t = s \<and> q \<in> set (live_queues s) \<and> sector_of_queue s q = Some sec \<and> (\<forall>k. rq_queue rq = Some k \<longrightarrow> que_uuid q = k)"
  using assms
  by (auto simp: get_queue_and_sector_def need_def py_defs split: option.splits if_splits dest!: find_in_set)

lemma queue_project_of:
  assumes "q \<in> set (queues w)" and "distinct (map que_uuid (queues w))" and "sector_of_queue w q = Some s"
    and "project_of_sector w s = Some p"
  shows "queue_project w (Some (que_uuid q)) = Some (prj_uuid p)"
proof -
  have "find_queue w (que_uuid q) = Some q"
    using assms(1,2) by (simp add: find_queue_def find_distinct)
  with assms(3,4) show ?thesis
    by (auto simp: queue_project_def project_of_sector_def find_project_def find_Some_iff)
qed

lemma serializer_create_one:
  assumes route: "\<And>k. keeps fewer_open (op_route_now cx k)" and greet: "\<And>r. keeps fewer_open (op_default_message cx r)"
    and keys: "distinct (map que_uuid (queues s))"
  shows "opens_one s (snd (serializer_create cx rq s))"
proof -
  have pure: "keeps fewer_open (get_queue_and_sector rq)" "keeps fewer_open (check_work_time cx sec at)" for sec at
    unfolding get_queue_and_sector_def check_work_time_def by (auto intro!: fewer_rules split: option.split)
  have last: "opens_one v (snd ((case active of Some ob \<Rightarrow> reuse_flow_start_room cx rq ob
     | None \<Rightarrow> bnd (validate_unique_active_project (op_env cx) rq (fst who) p) (\<lambda>existing.
       case existing of Some ob \<Rightarrow> ret ob | None \<Rightarrow> new_room_for cx rq q sec p who urn cols)) v))"
    if active: "\<And>ob. active = Some ob \<Longrightarrow> matches ob v" and qp: "queue_project v (Some (que_uuid q)) = Some (prj_uuid p)"
    for v active who p q sec urn cols
  proof (cases active)
    case (Some ob)
    then show ?thesis using fewer_one [OF fewer_reuse [OF greet active [OF Some]]] by simp
  next
    case None
    show ?thesis
      unfolding None option.case
    proof (rule one_bnd_keeps [OF fewer_validate_unique])
      fix existing t
      assume run: "validate_unique_active_project (op_env cx) rq (fst who) p v = (Inr existing, t)"
      show "opens_one t (snd ((case existing of None \<Rightarrow> new_room_for cx rq q sec p who urn cols | Some ob \<Rightarrow> ret ob) t))"
      proof (cases existing)
        case (Some ob)
        then show ?thesis by (simp add: ret_def fewer_one fewer.R_refl)
      next
        case None
        with run have "open_room_of v (fst who) (prj_uuid p) = None \<and> t = v"
          by (cases "open_room_of v (fst who) (prj_uuid p)")
            (auto simp: validate_unique_active_project_def run_gets ret_def raise_def elim!: bnd_InrE andthen_InrE split: if_splits)
        with no_rivals [OF _ qp] new_room_one [OF route greet] None show ?thesis by auto
      qed
    qed
  qed
  have active: "matches ob t"
    if "get_active_room_flow_start (op_env cx) e fl p u = (Inr (Some ob), t)" for ob t u e fl p
    using that unfolding get_active_room_flow_start_def run_gets
    by (auto simp: ret_def elim!: bnd_InrE andthen_InrE split: list.splits if_splits) (erule matches_loaded)
  show ?thesis
    unfolding serializer_create_def
  proof (rule one_bnd_keeps [OF pure(1)], clarify)
    fix q sec t
    assume "get_queue_and_sector rq s = (Inr (q, sec), t)"
    then have q: "t = s" "q \<in> set (live_queues s)" "sector_of_queue s q = Some sec" using get_queue_facts by blast+
    show "opens_one t (snd (bnd (need AttributeError (\<lambda>w. project_of_sector w sec)) (\<lambda>p.
     bnd (lift_result (protocol_and_service rq)) (\<lambda>cols.
     andthen (check_work_time cx sec (case rq_created_on rq of None \<Rightarrow> env_now (op_env cx) | Some t \<Rightarrow> t))
     (bnd (lift_result (handle_urn rq)) (\<lambda>urn.
     bnd (update_or_create_contact cx rq) (\<lambda>who.
     bnd (get_active_room_flow_start (op_env cx) (rq_external_id rq) (rq_flow rq) p) (\<lambda>active.
     case active of Some ob \<Rightarrow> reuse_flow_start_room cx rq ob
     | None \<Rightarrow>
       bnd (validate_unique_active_project (op_env cx) rq (fst who) p) (\<lambda>existing.
       case existing of Some ob \<Rightarrow> ret ob
       | None \<Rightarrow> new_room_for cx rq q sec p who urn cols))))))) t))"
    proof (rule one_bnd_keeps [OF fewer.keeps_need])
      fix p u
      assume "need AttributeError (\<lambda>w. project_of_sector w sec) t = (Inr p, u)"
      then have "project_of_sector s sec = Some p" "u = s" using q(1) by (auto simp: need_def split: option.splits)
      with q keys have qp: "queue_project u (Some (que_uuid q)) = Some (prj_uuid p)" by (auto intro: queue_project_of)
      have later: "queue_project v (Some (que_uuid q)) = Some (prj_uuid p)" if "fewer_open u v" for v
        using that qp queue_project_cong [of v u] by (simp add: fewer_open_def)
      show "opens_one u (snd (bnd (lift_result (protocol_and_service rq)) (\<lambda>cols.
     andthen (check_work_time cx sec (case rq_created_on rq of None \<Rightarrow> env_now (op_env cx) | Some t \<Rightarrow> t))
     (bnd (lift_result (handle_urn rq)) (\<lambda>urn.
     bnd (update_or_create_contact cx rq) (\<lambda>who.
     bnd (get_active_room_flow_start (op_env cx) (rq_external_id rq) (rq_flow rq) p) (\<lambda>active.
     case active of Some ob \<Rightarrow> reuse_flow_start_room cx rq ob
     | None \<Rightarrow>
       bnd (validate_unique_active_project (op_env cx) rq (fst who) p) (\<lambda>existing.
       case existing of Some ob \<Rightarrow> ret ob
       | None \<Rightarrow> new_room_for cx rq q sec p who urn cols)))))) u))"
        unfolding andthen_def
        by (rule one_bnd_keeps [OF fewer.keeps_lift], rule one_bnd_keeps [OF pure(2)], rule one_bnd_keeps [OF fewer.keeps_lift],
          rule one_bnd_keeps [OF fewer_contact], rule one_bnd_keeps [OF fewer_active_flow_start], rule last,
          rule active, simp, rule later)
          (auto dest!: keepsD [OF fewer.keeps_lift] keepsD [OF pure(2)] keepsD [OF fewer_contact]
            keepsD [OF fewer_active_flow_start], meson fewer.R_trans)
    qed
  qed
qed

lemma fewer_add_user_or_queue: "keeps fewer_open (add_user_or_queue_to_room env rq ob)"
  unfolding add_user_or_queue_to_room_def Let_def
  by (auto intro!: fewer_rules split: option.split)

lemma perform_create_one:
  assumes "\<And>k. keeps fewer_open (op_route_now cx k)" and "\<And>r. keeps fewer_open (op_default_message cx r)"
    and "distinct (map que_uuid (queues s))"
  shows "opens_one s (snd (perform_create cx rq s))"
proof -
  have rest: "keeps fewer_open (bnd (gets (\<lambda>w. list_ex (\<lambda>f. flo_room f = Some (room_pk ob)) (flow_starts w))) (\<lambda>has_starts.
       bnd (if has_starts then ret (Some ob) else add_user_or_queue_to_room (op_env cx) rq ob) (\<lambda>instance.
       case instance of None \<Rightarrow> raise AttributeError
       | Some ob1 \<Rightarrow>
         bnd (load_room (room_pk ob1)) (\<lambda>ob2.
         andthen (case rm_user (ob_row ob2) of None \<Rightarrow> ret ()
           | Some u \<Rightarrow> bnd (need AttributeError (\<lambda>w. queue_of w (ob_row ob2))) (\<lambda>q.
               create_room_assigned_from_queue_feedback (op_env cx) (ob_row ob2) q u))
         (ret (ob2, rm_user (ob_row ob1) \<noteq> None, if has_starts then ''update'' else ''create''))))))" for ob
    unfolding create_room_assigned_from_queue_feedback_def load_room_def
    by (intro fewer_rules fewer_add_user_or_queue)
  show ?thesis
    unfolding perform_create_def
  proof (rule one_bnd_keeps [OF fewer.keeps_need])
    fix p t
    assume "need AttributeError (\<lambda>w. Option.bind (rq_queue rq) (\<lambda>k. Option.bind (find (\<lambda>q. que_uuid q = k) (live_queues w))
      (project_of_queue w))) s = (Inr p, t)"
    then have t: "t = s" by (auto simp: need_def split: option.splits)
    show "opens_one t (snd ((if rq_auth_project rq \<notin> {None, Some (prj_uuid p)}
     then raise (PermissionDenied ''Ticketer token permission failed on room project'')
     else bnd (serializer_create cx rq) (\<lambda>ob.
       bnd (gets (\<lambda>w. list_ex (\<lambda>f. flo_room f = Some (room_pk ob)) (flow_starts w))) (\<lambda>has_starts.
       bnd (if has_starts then ret (Some ob) else add_user_or_queue_to_room (op_env cx) rq ob) (\<lambda>instance.
       case instance of None \<Rightarrow> raise AttributeError
       | Some ob1 \<Rightarrow>
         bnd (load_room (room_pk ob1)) (\<lambda>ob2.
         andthen (case rm_user (ob_row ob2) of None \<Rightarrow> ret ()
           | Some u \<Rightarrow> bnd (need AttributeError (\<lambda>w. queue_of w (ob_row ob2))) (\<lambda>q.
               create_room_assigned_from_queue_feedback (op_env cx) (ob_row ob2) q u))
         (ret (ob2, rm_user (ob_row ob1) \<noteq> None, if has_starts then ''update'' else ''create''))))))) t))"
    proof (cases "rq_auth_project rq \<notin> {None, Some (prj_uuid p)}")
      case True
      then show ?thesis by (simp add: raise_def fewer_one fewer.R_refl)
    next
      case False
      from serializer_create_one [OF assms] rest show ?thesis
        unfolding if_not_P [OF False] t by (intro one_bnd_fewer) (auto simp: keeps_def)
    qed
  qed
qed

lemma create_view_one:
  assumes "\<And>k. keeps fewer_open (op_route_now cx k)" and "\<And>r. keeps fewer_open (op_default_message cx r)"
    and "distinct (map que_uuid (queues s))"
  shows "opens_one s (snd (create_view cx rq s))"
proof -
  let ?body = "bnd (gets (\<lambda>w. request_valid w rq)) (\<lambda>ok. if \<not> ok then raise (ValidationError ''queue_uuid'') else perform_create cx rq)"
  let ?hooks = "\<lambda>(ob, to_user, action).
      andthen (if to_user then notify_user (op_env cx) (ob_row ob) action None
               else notify_queue (op_env cx) (ob_row ob) action False)
      (andthen (when_true (rm_user (ob_row ob) \<noteq> None) (send_automatic_message (op_env cx) (ob_row ob)))
        (ret (Created (ob_row ob))))"
  have "opens_one s (snd (?body s))"
    using perform_create_one [OF assms] by (simp add: run_gets raise_def fewer_one fewer.R_refl)
  then have body: "opens_one s (snd (atomic ?body s))" by (rule one_atomic)
  have "keeps fewer_open (?hooks x)" for x
    by (cases x) (auto intro!: fewer_rules)
  then have hooks: "fewer_open t (snd (?hooks x t))" for x t unfolding keeps_def by blast
  have "opens_one s (snd (bnd (atomic ?body) ?hooks s))"
    by (rule one_bnd_fewer, rule body, rule hooks)
  then show ?thesis
    unfolding create_view_def try_except_def
    by (auto simp: ret_def raise_def split: prod.split sum.split exn.split)
qed

lemma fewer_route_rooms: "keeps fewer_open (route_rooms env no_race q)"
proof -
  have assign: "fewer_open w (snd (assign_room env ob u w))" if "matches ob w" for w ob u
  proof -
    have "matches (set_row (\<lambda>r. r\<lparr>rm_user := Some u\<rparr>) ob) w" using that by (simp add: matches_def set_row_def room_pk_def)
    then show ?thesis
      unfolding assign_room_split
      using fewer_save_matching fewer_routing [OF rframe_after_assign] by (intro fewer_bnd_at) (auto simp: keeps_def)
  qed
  have agent: "keeps keys_kept (get_available_agent env q s p)" for s p
    unfolding get_available_agent_def flag_or_raise_def
    by (auto intro!: keys.keeps_world split: option.split list.split)
  have later: "matches ob u" if "matches ob t" "keeps keys_kept m" "m t = (x, u)" for ob t u x and m :: "(world, 'z) py"
    using matches_kept [OF that(1) keepsD [OF that(2,3)]] that(1) by (simp add: matches_def)
  have flag: "keeps keys_kept (flag_or_raise env f k)" "keeps fewer_open (flag_or_raise env f k)" for f k
    unfolding flag_or_raise_def by (auto intro!: keys.keeps_world fewer_rules split: option.split)
  have room: "fewer_open w (snd (route_room env no_race q s p k w))" for s p k w
  proof -
    have after: "fewer_open u (snd (bnd (gets (\<lambda>w. still_online env w p a)) (\<lambda>online.
       if \<not> online then ret Continue else
       bnd (flag_or_raise env ''agent_capacity_recheck'' (prj_uuid p)) (\<lambda>recheck.
       bnd (gets (\<lambda>w. can_agent_receive_room env w s p a)) (\<lambda>capacity.
       if recheck \<and> \<not> cap_can_receive capacity then ret Continue
       else andthen (assign_room env ob a) (ret Continue)))) u))" if "matches ob u" for a ob u
    proof -
      have "fewer_open t (snd (andthen (assign_room env ob a) (ret Continue) t))" if "matches ob t" for t
        unfolding andthen_def by (rule fewer_bnd_at, rule assign [OF that]) (simp add: ret_def fewer.R_refl)
      then have "fewer_open u (snd (bnd (flag_or_raise env ''agent_capacity_recheck'' (prj_uuid p)) (\<lambda>recheck.
       bnd (gets (\<lambda>w. can_agent_receive_room env w s p a)) (\<lambda>capacity.
       if recheck \<and> \<not> cap_can_receive capacity then ret Continue
       else andthen (assign_room env ob a) (ret Continue))) u))"
        using later [OF \<open>matches ob u\<close> flag(1)] flag(2)
        by (rule_tac fewer_bnd_at) (auto simp: keeps_def run_gets ret_def fewer.R_refl)
      then show ?thesis by (simp add: run_gets ret_def fewer.R_refl)
    qed
    have "fewer_open w (snd (bnd (load_room k) (\<lambda>ob.
      if rm_user (ob_row ob) \<noteq> None then ret Continue else
      bnd (get_available_agent env q s p) (\<lambda>found.
      case found of None \<Rightarrow> ret Break | Some a \<Rightarrow>
      andthen (modify (no_race True k)) (bnd (gets (\<lambda>w. still_online env w p a)) (\<lambda>online.
       if \<not> online then ret Continue else
       bnd (flag_or_raise env ''agent_capacity_recheck'' (prj_uuid p)) (\<lambda>recheck.
       bnd (gets (\<lambda>w. can_agent_receive_room env w s p a)) (\<lambda>capacity.
       if recheck \<and> \<not> cap_can_receive capacity then ret Continue
       else andthen (assign_room env ob a) (ret Continue))))))) w))"
    proof (rule fewer_bnd_at)
      show "fewer_open w (snd (load_room k w))"
        by (auto simp: load_room_def bnd_def need_def ret_def fewer.R_refl split: option.split)
    next
      fix ob t
      assume "load_room k w = (Inr ob, t)"
      then have m: "matches ob t" by (rule matches_loaded)
      have id: "andthen (modify (no_race b k)) n v = n v" for b v and n :: "(world, loop_step) py"
        by (simp add: andthen_def bnd_def modify_def no_race_def)
      show "fewer_open t (snd ((if rm_user (ob_row ob) \<noteq> None then ret Continue else
      bnd (get_available_agent env q s p) (\<lambda>found.
      case found of None \<Rightarrow> ret Break | Some a \<Rightarrow>
      andthen (modify (no_race True k)) (bnd (gets (\<lambda>w. still_online env w p a)) (\<lambda>online.
       if \<not> online then ret Continue else
       bnd (flag_or_raise env ''agent_capacity_recheck'' (prj_uuid p)) (\<lambda>recheck.
       bnd (gets (\<lambda>w. can_agent_receive_room env w s p a)) (\<lambda>capacity.
       if recheck \<and> \<not> cap_can_receive capacity then ret Continue
       else andthen (assign_room env ob a) (ret Continue))))))) t))"
      proof (cases "rm_user (ob_row ob) \<noteq> None")
        case True
        then show ?thesis by (simp add: ret_def fewer.R_refl)
      next
        case False
        have "fewer_open t (snd (get_available_agent env q s p t))" using fewer_get_available by (simp add: keeps_def)
        then show ?thesis
          unfolding if_not_P [OF False]
          by (rule fewer_bnd_at) (auto simp: id ret_def fewer.R_refl intro: after later [OF m agent] split: option.split)
      qed
    qed
    moreover have "andthen (modify (no_race False k)) m w = m w" for m :: "(world, loop_step) py"
      by (simp add: andthen_def bnd_def modify_def no_race_def)
    ultimately show ?thesis unfolding route_room_def by simp
  qed
  have "fewer_open w (snd (route_loop env no_race q s p ks w))" for s p ks w
    by (induction ks arbitrary: w)
      (auto simp: ret_def fewer.R_refl room intro!: fewer_bnd_at split: loop_step.split)
  then show ?thesis
    unfolding route_rooms_def by (intro fewer_rules) (simp add: keeps_def)
qed

section \<open>Properties\<close>

text \<open>\<open>Room.trigger_default_message\<close> with a cache and the routing task run in place.\<close>

definition greets :: "env \<Rightarrow> 'c cache_ops \<Rightarrow> 'c \<Rightarrow> room \<Rightarrow> (world, unit) py" where
  "greets env ops c r w = (case trigger_default_message env ops r c w of (res, w', _) \<Rightarrow> (res, w'))"

definition routes_in_place :: "env \<Rightarrow> uuid \<Rightarrow> (world, unit) py" where
  "routes_in_place env k =
     bnd (need (DoesNotExist ''Queue'') (\<lambda>w. find (\<lambda>q. que_uuid q = k) (live_queues w))) (route_rooms env no_race)"

lemma fewer_routes: "keeps fewer_open (routes_in_place env k)"
  unfolding routes_in_place_def by (intro fewer_rules fewer_route_rooms)

lemma fewer_greets: "keeps fewer_open (greets env ops c r)"
proof (rule keepsI)
  fix w
  have said: "keeps fewer_open (bnd (message_create env r None None x False) (\<lambda>m. message_notify_room env r m ''create'' True))" for x
    by (intro fewer_rules rframe_messages [THEN fewer_routing])
  then have "fewer_open w (snd (bnd (message_create env r None None x False) (\<lambda>m. message_notify_room env r m ''create'' True) w))" for x
    unfolding keeps_def by blast
  then show "fewer_open w (snd (greets env ops c r w))"
    by (auto simp: greets_def trigger_default_message_def Let_def fewer.R_refl split: option.split bool.split list.split prod.split)
      (metis snd_conv)+
qed

text \<open>Requests, routing runs and closures, one after the other.\<close>

inductive open_reach :: "'c cache_ops \<Rightarrow> world \<Rightarrow> world \<Rightarrow> bool" for ops w0 where
  open_start: "open_reach ops w0 w0"
| open_request: "open_reach ops w0 w \<Longrightarrow> op_route_now cx = routes_in_place (op_env cx) \<Longrightarrow>
    op_default_message cx = greets (op_env cx) ops c \<Longrightarrow> open_reach ops w0 (snd (create_view cx rq w))"
| open_route: "open_reach ops w0 w \<Longrightarrow> open_reach ops w0 (snd (routes_in_place env k w))"
| open_close: "open_reach ops w0 w \<Longrightarrow>
    open_reach ops w0 (snd (bnd (load_room k) (room_close env tags end_by by_user) w))"

lemma open_reach_inv:
  "open_reach ops w0 w \<Longrightarrow> one_open_room w0 \<Longrightarrow> distinct (map que_uuid (queues w0)) \<Longrightarrow>
   one_open_room w \<and> queues w = queues w0"
proof (induction rule: open_reach.induct)
  case open_start
  then show ?case by simp
next
  case (open_request w cx c rq)
  have "opens_one w (snd (create_view cx rq w))"
    using open_request fewer_routes fewer_greets by (intro create_view_one) (auto simp only:)
  moreover from this have "queues (snd (create_view cx rq w)) = queues w"
    by (auto simp: opens_one_def fewer_open_def opens_room_def)
  ultimately show ?case using open_request one_open_kept by metis
next
  case (open_route w env k)
  with fewer_routes one_open_fewer show ?case unfolding keeps_def fewer_open_def by metis
next
  case (open_close w k env tags end_by by_user)
  have "keeps fewer_open (bnd (load_room k) (room_close env tags end_by by_user))"
    unfolding load_room_def by (intro fewer_rules)
  with open_close one_open_fewer show ?case unfolding keeps_def fewer_open_def by metis
qed


text \<open>C18. The limit of a queue: a room that would wait without an agent, and that does not answer a flow start, is
  refused with nothing written when the queue is full, and is never created beyond the limit.\<close>

theorem queue_limit_guards:
  assumes "find (\<lambda>x. que_uuid x = que_uuid q) (live_queues w) = Some q'" and "que_is_queue_limit_active q'"
    and "flow = None \<or> (\<exists>f. flow = Some f \<and> room_after w c (prj_uuid p) f)"
    and "limit = (case que_queue_limit q' of None \<Rightarrow> 0 | Some n \<Rightarrow> n)"
  shows "(limit \<le> queued_rooms_count w (que_uuid q) \<longrightarrow>
      create_room cx rq q p c None urn cols flow w = (Inl (PermissionDenied ''human_support_queue_limit_reached''), w)) \<and>
    (\<forall>ob w'. create_room cx rq q p c None urn cols flow w = (Inr ob, w') \<longrightarrow>
      queued_rooms_count w' (que_uuid q) \<le> limit)"
proof -
  let ?r = "room_row cx rq q' p c None urn cols"
  have q': "que_uuid q' = que_uuid q" using assms(1) by (auto dest: find_in_set)
  have run: "create_room cx rq q p c None urn cols flow w =
      atomic (andthen (validate_queue_limit q') (insert_room (op_env cx) ?r)) w"
    using assms(1,3) by (auto simp: create_room_def gets_def need_def bnd_def atomic_def)
  have full: "create_room cx rq q p c None urn cols flow w = (Inl (PermissionDenied ''human_support_queue_limit_reached''), w)"
    if "limit \<le> queued_rooms_count w (que_uuid q)"
    using that assms(2,4) q' unfolding run
    by (simp add: validate_queue_limit_def gets_def andthen_def bnd_def raise_def atomic_def rollback_def)
  moreover have "queued_rooms_count w' (que_uuid q) \<le> limit"
    if "create_room cx rq q p c None urn cols flow w = (Inr ob, w')" for ob w'
  proof -
    have "queued_rooms_count w (que_uuid q) < limit" using that full by (cases "limit \<le> queued_rooms_count w (que_uuid q)") auto
    moreover from this that have "insert_room (op_env cx) ?r w = (Inr ob, w')"
      using assms(2,4) q' unfolding run
      by (auto simp: validate_queue_limit_def gets_def andthen_def bnd_def ret_def atomic_def split: prod.splits sum.splits)
    then have "rooms w' = rooms w @ [inserted_row (op_env cx) ?r]" using insert_room_cases by blast
    ultimately show ?thesis by (simp add: queued_rooms_count_def count_where_def)
  qed
  ultimately show ?thesis by blast
qed

text \<open>The serializer takes a sector instead of a queue, but the view looks for the validated key
  \<open>sector\<close>, which does not exist: a request without a queue never gets to the serializer.\<close>

theorem sector_only_request_fails:
  "create_view cx (rq\<lparr>rq_queue := None\<rparr>) w = (Inl AttributeError, w)"
  by (simp add: create_view_def perform_create_def request_valid_def gets_def need_def bnd_def atomic_def
      rollback_def try_except_def raise_def)

section \<open>Witnesses\<close>

definition opening_world :: world where
  "opening_world = routing_world\<lparr>
     queues := [blank_queue\<lparr>que_is_queue_limit_active := True, que_queue_limit := Some 2\<rparr>,
                blank_queue\<lparr>que_uuid := ''q2''\<rparr>],
     rooms := [blank_room\<lparr>rm_queue := Some ''q'', rm_contact := Some ''c1''\<rparr>,
               blank_room\<lparr>rm_uuid := ''r2'', rm_queue := Some ''q'', rm_contact := Some ''c2''\<rparr>],
     contacts := [\<lparr>con_uuid = ''c1'', con_external_id = Some ''x1'', con_document = None, con_columns = []\<rparr>]\<rparr>"

definition demo_opening :: opening_context where
  "demo_opening = \<lparr>op_env = calm_env, op_hours = \<lambda>_ _. None, op_route_now = routes_in_place calm_env,
     op_default_message = greets calm_env mem_ops mem_empty, op_contact_pk = ''c9'', op_room_pk = ''r9''\<rparr>"

definition demo_request :: room_request where
  "demo_request = \<lparr>rq_queue = Some ''q2'', rq_sector = None, rq_user = None, rq_created_on = None,
     rq_external_id = ''x9'', rq_document = Some (Some ''12.3-a''), rq_contact_columns = [(''name'', JStr ''Ana'')],
     rq_urn = Some ''whatsapp:1?x'', rq_groups = [], rq_is_anon = False, rq_flow = None, rq_ticket = None,
     rq_callback_url = None, rq_custom_fields = None, rq_is_waiting = True, rq_protocol = None,
     rq_project_info = [], rq_history = [\<lparr>hm_direction = ''incoming'', hm_text = Some ''hi'', hm_created_on = Some 0,
        hm_attachments = []\<rparr>],
     rq_requested_by = None, rq_auth_project = Some ''p''\<rparr>"

text \<open>A new contact gets a room; a second request for the same contact, in another queue, is refused.\<close>

definition opened_world :: world where
  "opened_world = snd (create_view demo_opening demo_request opening_world)"

lemma demo_opened:
  "map (\<lambda>r. (rm_uuid r, rm_contact r, rm_user r, rm_is_waiting r)) (rooms opened_world) =
     [(''r1'', Some ''c1'', None, False), (''r2'', Some ''c2'', None, False), (''r9'', Some ''c9'', None, False)]"
  "fst (create_view (demo_opening\<lparr>op_room_pk := ''r10''\<rparr>) (demo_request\<lparr>rq_queue := Some ''q''\<rparr>) opened_world) =
     Inl (ValidationError ''The contact already has an open room in the project'')"
  by code_simp+


lemma queue_limit_guards_witness:
  "create_room demo_opening demo_request (blank_queue\<lparr>que_uuid := ''q''\<rparr>) blank_project ''c9'' None [] ([], [], None) None opening_world =
     (Inl (PermissionDenied ''human_support_queue_limit_reached''), opening_world)"
proof -
  have q: "find (\<lambda>x. que_uuid x = que_uuid (blank_queue\<lparr>que_uuid := ''q''\<rparr>)) (live_queues opening_world) =
      Some (blank_queue\<lparr>que_is_queue_limit_active := True, que_queue_limit := Some 2\<rparr>)"
    by (simp add: opening_world_def blank_queue_def)
  have count: "queued_rooms_count opening_world (que_uuid (blank_queue\<lparr>que_uuid := ''q''\<rparr>)) = 2"
    by (simp add: opening_world_def queued_rooms_count_def count_where_def blank_room_def)
  from queue_limit_guards [OF q, of None "''c9''" blank_project 2 demo_opening demo_request "[]" "([], [], None)"] count
  show ?thesis by simp
qed

end
