(* ===== verification/Archive_Chats.thy ===== *)
theory Archive_Chats
  imports Chats_Prelude "HOL-Library.Product_Lexorder"
begin

text \<open>
  Archiving the messages of old rooms: \<open>ArchiveChatsService\<close> (\<open>chats/apps/archive_chats/services.py\<close>), its
  model \<open>RoomArchivedConversation\<close> (\<open>models.py\<close>) and the tasks that schedule it (\<open>tasks.py\<close>).

  \<^item> The state holds the rows of \<open>RoomArchivedConversation\<close>, the messages and the files of the storage.
    A file is the list of its lines. \<open>Storage.save\<close> never overwrites: it stores under a free name, here the
    path of the room with a serial number.
  \<^item> A worker runs between commits that may fail. \<open>act\<close> is one commit or one call of the storage; the
    oracle \<open>ar_fault\<close> decides for each whether it works, raises before or after it took effect, or whether
    the worker is killed there. \<open>WorkerLost\<close> stands for the end of the process: no \<open>except Exception\<close>
    catches it.
  \<^item> A row that a method holds in memory is passed along as a value; \<open>save(update_fields=...)\<close> writes the
    named columns of it, \<open>file.save(..., save=True)\<close> writes all of them.
  \<^item> A message is ordered by its time and its key; \<open>line\<close> is what \<open>ArchiveMessageSerializer\<close> makes of it.
\<close>

section \<open>State\<close>

datatype archive_status =
    PENDING | PROCESSING_MESSAGES | MESSAGES_PROCESSED | UPLOADING_MESSAGES_FILE | MESSAGES_FILE_UPLOADED
  | DELETING_MESSAGES_FROM_DB | MESSAGES_DELETED_FROM_DB | FINISHED | FAILED

record archived_conversation =
  arc_room :: uuid
  arc_job :: uuid
  arc_status :: archive_status
  arc_file :: "(uuid \<times> nat) option"
  arc_started_at :: "timestamp option"
  arc_messages_deleted_at :: "timestamp option"
  arc_finished_at :: "timestamp option"
  arc_failed_at :: "timestamp option"
  arc_errors :: "(timestamp \<times> exn) list"

record archive_message =
  am_pk :: nat
  am_room :: uuid
  am_created_on :: timestamp
  am_text :: string

record archive_state =
  ar_rows :: "archived_conversation list"
  ar_messages :: "archive_message list"
  ar_files :: "((uuid \<times> nat) \<times> json list) list"
  ar_jobs :: "(uuid \<times> timestamp) list"
  ar_ticks :: nat

datatype fault = Works | Fails exn | Fails_After exn | Kills

record archive_env =
  ar_now :: timestamp
  ar_page_size :: nat
  ar_timeout :: int
  ar_line :: "archive_message \<Rightarrow> json"
  ar_fault :: "nat \<Rightarrow> fault"

definition act :: "archive_env \<Rightarrow> (archive_state \<Rightarrow> archive_state) \<Rightarrow> (archive_state, unit) py" where
  "act env f s = (let s1 = s\<lparr>ar_ticks := Suc (ar_ticks s)\<rparr> in
     case ar_fault env (ar_ticks s) of
       Works \<Rightarrow> (Inr (), f s1)
     | Fails e \<Rightarrow> (Inl (if e = WorkerLost then TypeError else e), s1)
     | Fails_After e \<Rightarrow> (Inl (if e = WorkerLost then TypeError else e), f s1)
     | Kills \<Rightarrow> (Inl WorkerLost, s1))"

definition find_row :: "archive_state \<Rightarrow> uuid \<Rightarrow> archived_conversation option" where
  "find_row s k = find (\<lambda>r. arc_room r = k) (ar_rows s)"

definition update_row :: "uuid \<Rightarrow> (archived_conversation \<Rightarrow> archived_conversation) \<Rightarrow> archive_state \<Rightarrow> archive_state" where
  "update_row k f s = s\<lparr>ar_rows := update_where (\<lambda>r. arc_room r = k) f (ar_rows s)\<rparr>"

text \<open>\<open>row.refresh_from_db()\<close>.\<close>

definition refresh :: "uuid \<Rightarrow> (archive_state, archived_conversation) py" where
  "refresh k s = (case find_row s k of None \<Rightarrow> (Inl (DoesNotExist ''RoomArchivedConversation''), s) | Some r \<Rightarrow> (Inr r, s))"

definition save_status :: "archive_env \<Rightarrow> uuid \<Rightarrow> archive_status \<Rightarrow> (archive_state, unit) py" where
  "save_status env k st = act env (update_row k (\<lambda>r. r\<lparr>arc_status := st\<rparr>))"

text \<open>\<open>except Exception\<close>.\<close>

definition except_exception :: "(archive_state, 'a) py \<Rightarrow> (exn \<Rightarrow> (archive_state, 'a) py) \<Rightarrow> (archive_state, 'a) py" where
  "except_exception m h = try_except m (\<lambda>e. if e = WorkerLost then raise e else h e)"

section \<open>Claiming a room\<close>

definition is_actively_processed :: "archive_env \<Rightarrow> archived_conversation \<Rightarrow> bool" where
  "is_actively_processed env r \<longleftrightarrow> arc_status r \<notin> {FINISHED, FAILED} \<and>
     (case arc_started_at r of None \<Rightarrow> False | Some t \<Rightarrow> ar_now env - t < ar_timeout env)"

definition new_conversation :: "uuid \<Rightarrow> uuid \<Rightarrow> archived_conversation" where
  "new_conversation room job = \<lparr>arc_room = room, arc_job = job, arc_status = PENDING, arc_file = None,
     arc_started_at = None, arc_messages_deleted_at = None, arc_finished_at = None, arc_failed_at = None,
     arc_errors = []\<rparr>"

text \<open>
  The row as the claim leaves it in memory and in the database, or \<open>None\<close>. The transaction is one commit: a
  row that is locked by another transaction is skipped, which \<open>locked\<close> says.
\<close>

definition claimed :: "archive_env \<Rightarrow> uuid \<Rightarrow> archived_conversation \<Rightarrow> archived_conversation option" where
  "claimed env job r = (if arc_status r = FINISHED then Some r
     else if is_actively_processed env r then None
     else Some (r\<lparr>arc_started_at := Some (ar_now env), arc_job := job\<rparr>))"

definition claim_room_for_archive ::
  "archive_env \<Rightarrow> bool \<Rightarrow> uuid \<Rightarrow> uuid \<Rightarrow> (archive_state, archived_conversation option) py" where
  "claim_room_for_archive env locked room job = (\<lambda>s.
     case find_row s room of
       None \<Rightarrow>
         (let r = (new_conversation room job)\<lparr>arc_started_at := Some (ar_now env)\<rparr>
          in bnd (act env (\<lambda>s. s\<lparr>ar_rows := ar_rows s @ [r]\<rparr>)) (\<lambda>_. ret (Some r)) s)
     | Some r \<Rightarrow>
         if locked then (Inr None, s) else
         (case claimed env job r of
            None \<Rightarrow> (Inr None, s)
          | Some r' \<Rightarrow> if arc_status r = FINISHED then (Inr (Some r), s)
                       else bnd (act env (update_row room (\<lambda>_. r'))) (\<lambda>_. ret (Some r')) s))"

section \<open>Writing the file\<close>

definition needs_processing_and_upload :: "archived_conversation \<Rightarrow> bool" where
  "needs_processing_and_upload r \<longleftrightarrow>
     arc_status r \<notin> {MESSAGES_FILE_UPLOADED, DELETING_MESSAGES_FROM_DB, MESSAGES_DELETED_FROM_DB} \<and>
     \<not> (arc_status r = FAILED \<and> arc_file r \<noteq> None)"

definition needs_message_deletion :: "archived_conversation \<Rightarrow> bool" where
  "needs_message_deletion r \<longleftrightarrow> arc_status r \<noteq> MESSAGES_DELETED_FROM_DB \<and>
     \<not> (arc_status r = FAILED \<and> arc_messages_deleted_at r \<noteq> None)"

definition message_key :: "archive_message \<Rightarrow> timestamp \<times> nat" where
  "message_key m = (am_created_on m, am_pk m)"

text \<open>The queryset of one page: the room's messages after the last key, by time and then by key.\<close>

definition order_messages :: "archive_message list \<Rightarrow> archive_message list" where
  "order_messages ms = sort_key message_key ms"

definition room_messages :: "uuid \<Rightarrow> archive_message list \<Rightarrow> archive_message list" where
  "room_messages room ms = filter (\<lambda>m. am_room m = room) ms"

definition messages_after :: "(timestamp \<times> nat) option \<Rightarrow> archive_message list \<Rightarrow> archive_message list" where
  "messages_after after ms = (case after of None \<Rightarrow> ms | Some k \<Rightarrow> filter (\<lambda>m. k < message_key m) ms)"

definition page_of :: "archive_env \<Rightarrow> uuid \<Rightarrow> (timestamp \<times> nat) option \<Rightarrow> archive_state \<Rightarrow> archive_message list" where
  "page_of env room after s =
     take (ar_page_size env) (order_messages (messages_after after (room_messages room (ar_messages s))))"

lemma set_order_messages [simp]: "set (order_messages ms) = set ms"
  by (simp add: order_messages_def)

lemma page_ofD: "m \<in> set (page_of env room after s) \<Longrightarrow> m \<in> set (messages_after after (room_messages room (ar_messages s)))"
  unfolding page_of_def by (drule in_set_takeD) simp

lemma messages_after_again:
  assumes "m \<in> set (messages_after after ms)"
  shows "messages_after (Some (message_key m)) ms = filter (\<lambda>x. message_key m < message_key x) (messages_after after ms)"
proof (cases after)
  case (Some k)
  then have "k < message_key m" using assms by (simp add: messages_after_def)
  then have "k < message_key x" if "message_key m < message_key x" for x using that by (rule less_trans)
  then show ?thesis by (auto simp: Some messages_after_def intro!: filter_cong)
qed (simp add: messages_after_def)

lemma messages_after_shrink:
  assumes "m \<in> set (messages_after after ms)"
  shows "length (messages_after (Some (message_key m)) ms) < length (messages_after after ms)"
  unfolding messages_after_again [OF assms] using assms by (intro length_filter_less [of m]) simp_all

lemma act_messages: "act env id s = (r, t) \<Longrightarrow> ar_messages t = ar_messages s"
  by (auto simp: act_def Let_def split: fault.splits)

lemma next_page_shorter:
  assumes "page_of env room after s \<noteq> []" and "(r, t) = act env id s"
  shows "length (messages_after (Some (message_key (last (page_of env room after s)))) (room_messages room (ar_messages t)))
    < length (messages_after after (room_messages room (ar_messages s)))"
  using messages_after_shrink [OF page_ofD [OF last_in_set [OF assms(1)]]] act_messages [OF assms(2) [symmetric]]
  by simp

text \<open>\<open>_iter_messages\<close>: the pages one after the other. Reading a page may raise.\<close>

function iter_messages ::
  "archive_env \<Rightarrow> uuid \<Rightarrow> (timestamp \<times> nat) option \<Rightarrow> (archive_state, json list) py" where
  "iter_messages env room after s =
     (let page = page_of env room after s
      in if page = [] then (Inr [], s)
         else case act env id s of
           (Inl e, t) \<Rightarrow> (Inl e, t)
         | (Inr _, t) \<Rightarrow> (case iter_messages env room (Some (message_key (last page))) t of
             (Inl e, u) \<Rightarrow> (Inl e, u)
           | (Inr rest, u) \<Rightarrow> (Inr (map (ar_line env) page @ rest), u)))"
  by pat_completeness auto
termination
  by (relation "measure (\<lambda>(env, room, after, s). length (messages_after after (room_messages room (ar_messages s))))")
    (simp, simp add: next_page_shorter)

declare iter_messages.simps [simp del]

text \<open>\<open>process_messages\<close> and \<open>upload_messages_file\<close>; the messages are a generator, which is read by the
  upload after its check of the status.\<close>

definition process_messages ::
  "archive_env \<Rightarrow> archived_conversation \<Rightarrow> (archive_state, archived_conversation) py" where
  "process_messages env r =
     (let r1 = r\<lparr>arc_status := PROCESSING_MESSAGES, arc_started_at := Some (ar_now env)\<rparr>
      in andthen (act env (update_row (arc_room r)
           (\<lambda>x. x\<lparr>arc_status := arc_status r1, arc_started_at := arc_started_at r1\<rparr>))) (ret r1))"

definition store_file :: "archive_env \<Rightarrow> uuid \<Rightarrow> json list \<Rightarrow> (archive_state, uuid \<times> nat) py" where
  "store_file env room lines = (\<lambda>s. let name = (room, length (ar_files s)) in
     bnd (act env (\<lambda>s. s\<lparr>ar_files := ar_files s @ [(name, lines)]\<rparr>)) (\<lambda>_. ret name) s)"

definition upload_messages_file :: "archive_env \<Rightarrow> archived_conversation \<Rightarrow> (archive_state, unit) py" where
  "upload_messages_file env r =
     (if arc_status r \<noteq> PROCESSING_MESSAGES then raise (ValidationError ''not in processing messages status'')
      else bnd (iter_messages env (arc_room r) None) (\<lambda>lines.
        andthen (save_status env (arc_room r) UPLOADING_MESSAGES_FILE)
        (bnd (store_file env (arc_room r) lines) (\<lambda>name.
         andthen (act env (update_row (arc_room r)
           (\<lambda>_. r\<lparr>arc_status := UPLOADING_MESSAGES_FILE, arc_file := Some name\<rparr>)))
         (save_status env (arc_room r) MESSAGES_FILE_UPLOADED)))))"

section \<open>Deleting the messages\<close>

definition delete_messages :: "archive_message list \<Rightarrow> archive_state \<Rightarrow> archive_state" where
  "delete_messages batch s = s\<lparr>ar_messages := filter (\<lambda>m. am_pk m \<notin> am_pk ` set batch) (ar_messages s)\<rparr>"

lemma batch_shrinks:
  assumes "take n (room_messages room (ar_messages s)) \<noteq> []"
    and "(Inr x, t) = act env (delete_messages (take n (room_messages room (ar_messages s)))) s"
  shows "length (room_messages room (ar_messages t)) < length (room_messages room (ar_messages s))"
proof -
  let ?b = "take n (room_messages room (ar_messages s))"
  have "hd ?b \<in> set (room_messages room (ar_messages s))" using assms(1) in_set_takeD hd_in_set by metis
  moreover have "am_pk (hd ?b) \<in> am_pk ` set ?b" using assms(1) by (intro imageI hd_in_set)
  ultimately have "length (filter (\<lambda>m. am_pk m \<notin> am_pk ` set ?b) (room_messages room (ar_messages s)))
      < length (room_messages room (ar_messages s))" by (intro length_filter_less [of "hd ?b"]) simp_all
  moreover have "ar_messages t = filter (\<lambda>m. am_pk m \<notin> am_pk ` set ?b) (ar_messages s)"
    using assms(2) by (auto simp: act_def delete_messages_def Let_def split: fault.splits)
  ultimately show ?thesis by (simp add: room_messages_def conj_commute)
qed

function delete_batches :: "archive_env \<Rightarrow> uuid \<Rightarrow> nat \<Rightarrow> (archive_state, unit) py" where
  "delete_batches env room n s =
     (let batch = take n (room_messages room (ar_messages s))
      in if batch = [] then (Inr (), s)
         else case act env (delete_messages batch) s of
           (Inl e, t) \<Rightarrow> (Inl e, t)
         | (Inr _, t) \<Rightarrow> delete_batches env room n t)"
  by pat_completeness auto
termination
  by (relation "measure (\<lambda>(env, room, n, s). length (room_messages room (ar_messages s)))")
    (simp, unfold in_measure split_conv, rule batch_shrinks, simp_all)

declare delete_batches.simps [simp del]

definition delete_room_messages :: "archive_env \<Rightarrow> uuid \<Rightarrow> nat \<Rightarrow> (archive_state, unit) py" where
  "delete_room_messages env room batch_size =
     bnd (refresh room) (\<lambda>r.
     if arc_status r \<noteq> MESSAGES_FILE_UPLOADED
     then raise (ValidationError ''not in messages file uploaded status'')
     else andthen (delete_batches env room batch_size)
       (act env (update_row room (\<lambda>x. x\<lparr>arc_status := MESSAGES_DELETED_FROM_DB,
          arc_messages_deleted_at := Some (ar_now env)\<rparr>))))"

section \<open>One run\<close>

definition register_error :: "archive_env \<Rightarrow> archived_conversation \<Rightarrow> exn \<Rightarrow> (archive_state, unit) py" where
  "register_error env r e = act env (update_row (arc_room r) (\<lambda>x. x\<lparr>arc_errors := arc_errors r @ [(ar_now env, e)],
     arc_status := FAILED, arc_failed_at := Some (ar_now env)\<rparr>))"

definition archive_steps :: "archive_env \<Rightarrow> archived_conversation \<Rightarrow> (archive_state, unit) py" where
  "archive_steps env r = sequence
     [when_true (needs_processing_and_upload r) (bnd (process_messages env r) (upload_messages_file env)),
      bnd (refresh (arc_room r)) (\<lambda>r2. when_true (needs_message_deletion r2)
        (andthen (when_true (arc_status r2 \<noteq> MESSAGES_FILE_UPLOADED)
                   (save_status env (arc_room r) MESSAGES_FILE_UPLOADED))
                 (delete_room_messages env (arc_room r) 1000))),
      bnd (refresh (arc_room r)) (\<lambda>_. act env (update_row (arc_room r)
        (\<lambda>x. x\<lparr>arc_status := FINISHED, arc_finished_at := Some (ar_now env)\<rparr>)))]"

definition archive_room_history ::
  "archive_env \<Rightarrow> bool \<Rightarrow> uuid \<Rightarrow> uuid \<Rightarrow> (archive_state, archived_conversation option) py" where
  "archive_room_history env locked room job =
     bnd (claim_room_for_archive env locked room job) (\<lambda>claim. case claim of
       None \<Rightarrow> ret None
     | Some r \<Rightarrow> if arc_status r = FINISHED then ret (Some r)
         else andthen (except_exception (archive_steps env r) (register_error env r))
                (bnd (refresh room) (\<lambda>r. ret (Some r))))"

section \<open>The scheduler\<close>

text \<open>
  What the scheduling task reads of a room. \<open>old_limit\<close> is a year ago and \<open>projects\<close> the list of the
  feature flag, or \<open>None\<close> when archiving is active for all projects; \<open>hours 24\<close> is a day.
\<close>

record old_room =
  or_uuid :: uuid
  or_is_active :: bool
  or_ended_at :: "timestamp option"
  or_project :: uuid

definition hours :: "int \<Rightarrow> int" where
  "hours n = n * 3600000000"

definition job_started :: "archive_state \<Rightarrow> uuid \<Rightarrow> timestamp option" where
  "job_started s job = map_of (ar_jobs s) job"

definition start_archive_job :: "archive_env \<Rightarrow> uuid \<Rightarrow> (archive_state, unit) py" where
  "start_archive_job env job = act env (\<lambda>s. s\<lparr>ar_jobs := (job, ar_now env) # ar_jobs s\<rparr>)"

definition room_due :: "archive_env \<Rightarrow> timestamp \<Rightarrow> uuid list option \<Rightarrow> archive_state \<Rightarrow> old_room \<Rightarrow> bool" where
  "room_due env old_limit projects s r \<longleftrightarrow> \<not> or_is_active r
     \<and> (case or_ended_at r of None \<Rightarrow> False | Some t \<Rightarrow> t < old_limit)
     \<and> (case find_row s (or_uuid r) of None \<Rightarrow> True
        | Some c \<Rightarrow> arc_status c \<noteq> FINISHED \<and>
            \<not> (case job_started s (arc_job c) of None \<Rightarrow> False | Some t \<Rightarrow> ar_now env - hours 24 \<le> t))
     \<and> (case projects of None \<Rightarrow> True | Some ps \<Rightarrow> or_project r \<in> set ps)"

definition create_pending_records ::
  "archive_env \<Rightarrow> old_room list \<Rightarrow> uuid list \<Rightarrow> uuid \<Rightarrow> (archive_state, unit) py" where
  "create_pending_records env table room_uuids job =
     (if room_uuids = [] then ret () else act env (\<lambda>s.
        let s1 = s\<lparr>ar_rows := update_where (\<lambda>c. arc_room c \<in> set room_uuids \<and> arc_status c \<noteq> FINISHED)
                     (\<lambda>c. c\<lparr>arc_job := job\<rparr>) (ar_rows s)\<rparr>;
            new_ids = filter (\<lambda>u. u \<in> set room_uuids \<and> find_row s1 u = None) (map or_uuid table)
        in s1\<lparr>ar_rows := ar_rows s1 @ map (\<lambda>u. new_conversation u job) new_ids\<rparr>))"

text \<open>\<open>start_archive_rooms_messages\<close>; the result is the groups of tasks that are sent, one room each or
  in batches.\<close>

definition start_archive_rooms_messages ::
  "archive_env \<Rightarrow> old_room list \<Rightarrow> timestamp \<Rightarrow> uuid list option \<Rightarrow> nat \<Rightarrow> bool \<Rightarrow> nat \<Rightarrow> uuid \<Rightarrow>
   (archive_state, uuid list list) py" where
  "start_archive_rooms_messages env table old_limit projects max_rooms use_batches batch_size job =
     andthen (start_archive_job env job)
     (if projects = Some [] then ret [] else
      bnd (gets (\<lambda>s. take max_rooms (map or_uuid (sort_key (\<lambda>r. the (or_ended_at r))
             (filter (room_due env old_limit projects s) table))))) (\<lambda>room_uuids.
      andthen (create_pending_records env table room_uuids job)
        (ret (if use_batches then batches batch_size room_uuids else map (\<lambda>u. [u]) room_uuids))))"

text \<open>\<open>archive_room_messages\<close>, with the rooms that exist.\<close>

definition archive_room_messages ::
  "archive_env \<Rightarrow> bool \<Rightarrow> uuid list \<Rightarrow> uuid \<Rightarrow> uuid \<Rightarrow> (archive_state, unit) py" where
  "archive_room_messages env locked known room job =
     bnd (gets (\<lambda>s. job_started s job)) (\<lambda>j.
     if j = None \<or> room \<notin> set known then ret ()
     else andthen (archive_room_history env locked room job) (ret ()))"

text \<open>\<open>calculate_archive_task_expiration_dt\<close> for a time of day: the next time the clock shows it.\<close>

definition calculate_archive_task_expiration_dt :: "int \<Rightarrow> timestamp \<Rightarrow> timestamp" where
  "calculate_archive_task_expiration_dt max_hour now =
     (let t = now div hours 24 * hours 24 + max_hour in if t < now then t + hours 24 else t)"

section \<open>Reading in pages\<close>

definition ticked :: "archive_state \<Rightarrow> archive_state \<Rightarrow> bool" where
  "ticked s t \<longleftrightarrow> ar_rows t = ar_rows s \<and> ar_messages t = ar_messages s \<and> ar_files t = ar_files s \<and> ar_jobs t = ar_jobs s"

lemma ticked_refl [simp]: "ticked s s"
  by (simp add: ticked_def)

lemma ticked_trans: "ticked s t \<Longrightarrow> ticked t u \<Longrightarrow> ticked s u"
  by (simp add: ticked_def)

lemma act_id: "act env id s = (r, t) \<Longrightarrow> ticked s t"
  by (auto simp: act_def Let_def ticked_def split: fault.splits)

lemma iter_messages_ticked: "iter_messages env room after s = (r, t) \<Longrightarrow> ticked s t"
proof (induction env room after s arbitrary: r t rule: iter_messages.induct)
  case (1 env room after s)
  let ?page = "page_of env room after s"
  show ?case
  proof (cases "?page = []")
    case True
    with 1 show ?thesis by (simp add: iter_messages.simps [of env room after s])
  next
    case False
    obtain x u where u: "act env id s = (x, u)" by fastforce
    show ?thesis
    proof (cases x)
      case (Inl e)
      with 1 False u act_id [OF u] show ?thesis by (simp add: iter_messages.simps [of env room after s] Let_def)
    next
      case (Inr y)
      obtain q v where v: "iter_messages env room (Some (message_key (last ?page))) u = (q, v)" by fastforce
      have "ticked u v" by (rule "1.IH" [OF refl False u [symmetric] Inr v])
      moreover have "t = v"
        using "1.prems" False u v Inr by (cases q) (simp_all add: iter_messages.simps [of env room after s] Let_def)
      ultimately show ?thesis using ticked_trans act_id [OF u] by blast
    qed
  qed
qed

lemma sorted_keys:
  assumes "distinct (map message_key ms)"
  shows "sorted_wrt (<) (map message_key (order_messages ms))"
proof -
  have "distinct (map message_key (order_messages ms))"
    unfolding order_messages_def using assms by (simp add: distinct_map)
  moreover have "sorted (map message_key (order_messages ms))" by (simp add: order_messages_def)
  ultimately show ?thesis by (simp add: strict_sorted_iff)
qed

lemma filter_after_last:
  assumes "sorted_wrt (<) (map f (xs @ ys))" and "xs \<noteq> []"
  shows "filter (\<lambda>y. f (last xs) < (f y :: 'b :: linorder)) (xs @ ys) = ys"
proof -
  have "\<not> f (last xs) < f x" if "x \<in> set xs" for x
  proof -
    obtain zs where zs: "xs = zs @ [last xs]" using assms(2) by (metis append_butlast_last_id)
    then have "x \<in> set zs \<or> x = last xs" using that by (metis Un_iff empty_iff insert_iff list.set set_append)
    moreover have "\<forall>z\<in>set zs. f z < f (last xs)"
      using assms(1) by (subst (asm) zs) (auto simp: sorted_wrt_append)
    ultimately show ?thesis by (auto dest: less_asym)
  qed
  then have "filter (\<lambda>y. f (last xs) < f y) xs = []" by (simp add: filter_empty_conv)
  moreover have "\<forall>y\<in>set ys. f (last xs) < f y"
    using assms last_in_set by (auto simp: sorted_wrt_append)
  then have "filter (\<lambda>y. f (last xs) < f y) ys = ys" by (simp add: filter_id_conv)
  ultimately show ?thesis by simp
qed

lemma page_split:
  assumes "0 < ar_page_size env" and "distinct (map message_key (ar_messages s))"
    and ordered: "ord = order_messages (messages_after after (room_messages room (ar_messages s)))"
    and page: "page = page_of env room after s" "page \<noteq> []"
  shows "ord = page @ order_messages (messages_after (Some (message_key (last page))) (room_messages room (ar_messages s)))"
proof -
  let ?ms = "room_messages room (ar_messages s)"
  have dist: "distinct (map message_key (messages_after after ?ms))"
    using assms(2) by (auto simp: messages_after_def room_messages_def distinct_map inj_on_def split: option.split)
  have split: "ord = page @ drop (ar_page_size env) ord"
    by (simp add: page(1) page_of_def ordered)
  have sorted: "sorted_wrt (<) (map message_key (page @ drop (ar_page_size env) ord))"
    using sorted_keys [OF dist] split ordered by metis
  have m: "last page \<in> set (messages_after after ?ms)"
    using page_ofD last_in_set page by blast
  have "order_messages (messages_after (Some (message_key (last page))) ?ms) =
      filter (\<lambda>x. message_key (last page) < message_key x) ord"
    unfolding messages_after_again [OF m] ordered order_messages_def by (simp add: filter_sort)
  also have "\<dots> = filter (\<lambda>x. message_key (last page) < message_key x) (page @ drop (ar_page_size env) ord)"
    using split by simp
  also have "\<dots> = drop (ar_page_size env) ord" by (rule filter_after_last [OF sorted page(2)])
  finally show ?thesis using split by simp
qed

text \<open>Reading in pages gives every message of the room once, in order, whatever the size of a page.\<close>

lemma iter_messages_result:
  assumes "0 < ar_page_size env" and "distinct (map message_key (ar_messages s))"
    and "iter_messages env room after s = (Inr lines, t)"
  shows "lines = map (ar_line env) (order_messages (messages_after after (room_messages room (ar_messages s))))"
  using assms
proof (induction env room after s arbitrary: lines t rule: iter_messages.induct)
  case (1 env room after s)
  let ?page = "page_of env room after s"
  let ?ms = "room_messages room (ar_messages s)"
  show ?case
  proof (cases "?page = []")
    case True
    then have "order_messages (messages_after after ?ms) = []" using "1.prems"(1) by (simp add: page_of_def)
    with True "1.prems"(3) show ?thesis by (simp add: iter_messages.simps [of env room after s])
  next
    case False
    obtain x u where u: "act env id s = (x, u)" by fastforce
    obtain q v where v: "iter_messages env room (Some (message_key (last ?page))) u = (q, v)" by fastforce
    obtain y where y: "x = Inr y" using "1.prems"(3) False u
      by (cases x) (simp_all add: iter_messages.simps [of env room after s] Let_def)
    obtain rest where rest: "q = Inr rest" "lines = map (ar_line env) ?page @ rest"
      using "1.prems"(3) False u v y by (cases q) (simp_all add: iter_messages.simps [of env room after s] Let_def)
    have same: "ar_messages u = ar_messages s" using act_id [OF u] by (simp add: ticked_def)
    have "rest = map (ar_line env) (order_messages (messages_after (Some (message_key (last ?page))) ?ms))"
      using "1.IH" [OF refl False u [symmetric] y "1.prems"(1) _ v [unfolded rest(1)]] "1.prems"(2) same by simp
    then show ?thesis
      using page_split [OF "1.prems"(1,2) refl refl False] rest(2) by simp
  qed
qed

section \<open>No message is lost\<close>

definition archive_lines :: "(archive_message \<Rightarrow> json) \<Rightarrow> archive_message list \<Rightarrow> json list" where
  "archive_lines line ms = map line (order_messages ms)"

definition uploaded :: "archived_conversation \<Rightarrow> bool" where
  "uploaded r \<longleftrightarrow> arc_status r \<in> {MESSAGES_FILE_UPLOADED, DELETING_MESSAGES_FROM_DB, MESSAGES_DELETED_FROM_DB, FINISHED}"

text \<open>
  The invariant of a room whose messages were \<open>M\<close>: a file that its row names is the whole archive, a row
  past the upload names one, and messages are only missing from the table when a file is named by a row that
  is past the upload or has failed.
\<close>

definition row_ok :: "(archive_message \<Rightarrow> json) \<Rightarrow> archive_message list \<Rightarrow> archive_state \<Rightarrow> bool \<Rightarrow> archived_conversation \<Rightarrow> bool" where
  "row_ok line M s intact r \<longleftrightarrow>
     (\<forall>n. arc_file r = Some n \<longrightarrow> map_of (ar_files s) n = Some (archive_lines line M)) \<and>
     (uploaded r \<longrightarrow> arc_file r \<noteq> None) \<and>
     (intact \<or> arc_file r \<noteq> None \<and> (uploaded r \<or> arc_status r = FAILED))"

definition intact :: "uuid \<Rightarrow> archive_message list \<Rightarrow> archive_state \<Rightarrow> bool" where
  "intact k M s \<longleftrightarrow> room_messages k (ar_messages s) = M"

definition archive_inv :: "(archive_message \<Rightarrow> json) \<Rightarrow> uuid \<Rightarrow> archive_message list \<Rightarrow> archive_state \<Rightarrow> bool" where
  "archive_inv line k M s \<longleftrightarrow> distinct (map am_pk (ar_messages s)) \<and>
     (\<forall>f\<in>set (ar_files s). snd (fst f) < length (ar_files s)) \<and>
     (case find_row s k of None \<Rightarrow> intact k M s | Some r \<Rightarrow> row_ok line M s (intact k M s) r)"

lemma find_row_update:
  assumes "\<And>x. arc_room x = k \<Longrightarrow> arc_room (f x) = k"
  shows "find_row (update_row k f s) j = (if j = k then map_option f (find_row s k) else find_row s j)"
proof -
  have "find (\<lambda>r. arc_room r = j) (update_where (\<lambda>r. arc_room r = k) f rs) =
      (if j = k then map_option f (find (\<lambda>r. arc_room r = k) rs) else find (\<lambda>r. arc_room r = j) rs)" for rs
    using assms by (induction rs) auto
  then show ?thesis by (simp add: find_row_def update_row_def)
qed

lemma update_row_simps [simp]:
  "ar_messages (update_row k f s) = ar_messages s" "ar_files (update_row k f s) = ar_files s"
  "ar_jobs (update_row k f s) = ar_jobs s" "intact j M (update_row k f s) = intact j M s"
  "row_ok line M (update_row k f s) = row_ok line M s"
  by (simp_all add: update_row_def intact_def row_ok_def fun_eq_iff)

lemma find_row_room: "find_row s k = Some r \<Longrightarrow> arc_room r = k"
  unfolding find_row_def by (drule find_in_set) simp

text \<open>Statements under the invariant: from a state with \<open>P\<close>, every end satisfies the invariant, and a
  normal end also \<open>Q\<close>. The number of commits so far does not matter.\<close>

definition ensures ::
  "(archive_state \<Rightarrow> bool) \<Rightarrow> (archive_state \<Rightarrow> bool) \<Rightarrow> (archive_state, 'a) py \<Rightarrow> ('a \<Rightarrow> archive_state \<Rightarrow> bool) \<Rightarrow> bool" where
  "ensures I P m Q \<longleftrightarrow> (\<forall>s. I s \<and> P s \<longrightarrow> I (snd (m s)) \<and> (\<forall>x. fst (m s) = Inr x \<longrightarrow> Q x (snd (m s))))"

definition stable :: "(archive_state \<Rightarrow> bool) \<Rightarrow> bool" where
  "stable P \<longleftrightarrow> (\<forall>s n. P (s\<lparr>ar_ticks := n\<rparr>) = P s)"

lemma ensures_ret: "(\<And>s. I s \<Longrightarrow> P s \<Longrightarrow> Q x s) \<Longrightarrow> ensures I P (ret x) Q"
  by (simp add: ensures_def ret_def)

lemma ensures_raise: "ensures I P (raise e) Q"
  by (simp add: ensures_def raise_def)

lemma ensuresD:
  "ensures I P m Q \<Longrightarrow> I s \<Longrightarrow> P s \<Longrightarrow> m s = (r, t) \<Longrightarrow> I t \<and> (\<forall>x. r = Inr x \<longrightarrow> Q x t)"
  unfolding ensures_def by (metis fst_conv snd_conv)

lemma ensuresI:
  "(\<And>s r t. I s \<Longrightarrow> P s \<Longrightarrow> m s = (r, t) \<Longrightarrow> I t \<and> (\<forall>x. r = Inr x \<longrightarrow> Q x t)) \<Longrightarrow> ensures I P m Q"
  unfolding ensures_def by (metis prod.collapse)

lemma ensures_bnd:
  assumes "ensures I P m R" and "\<And>x. ensures I (R x) (f x) Q"
  shows "ensures I P (bnd m f) Q"
proof (rule ensuresI)
  fix s r t
  assume s: "I s" "P s" and run: "bnd m f s = (r, t)"
  obtain q u where m: "m s = (q, u)" by fastforce
  note u = ensuresD [OF assms(1) s m]
  show "I t \<and> (\<forall>x. r = Inr x \<longrightarrow> Q x t)"
  proof (cases q)
    case (Inl e)
    with m run u show ?thesis by (auto simp: bnd_def)
  next
    case (Inr x)
    with m run have "f x u = (r, t)" by (simp add: bnd_def)
    with u Inr show ?thesis using ensuresD [OF assms(2)] by blast
  qed
qed

lemma ensures_andthen: "ensures I P m R \<Longrightarrow> (\<And>x. ensures I (R x) k Q) \<Longrightarrow> ensures I P (andthen m k) Q"
  unfolding andthen_def by (rule ensures_bnd)

lemma ensures_when:
  "(b \<Longrightarrow> ensures I P m Q) \<Longrightarrow> (\<And>s. \<not> b \<Longrightarrow> I s \<Longrightarrow> P s \<Longrightarrow> Q () s) \<Longrightarrow> ensures I P (when_true b m) Q"
  by (cases b) (simp_all add: ensures_ret)

lemma ensures_pre: "ensures I P m Q \<Longrightarrow> (\<And>s. I s \<Longrightarrow> P' s \<Longrightarrow> P s) \<Longrightarrow> ensures I P' m Q"
  by (simp add: ensures_def)

lemma ensures_act:
  assumes "stable I" and "stable P" and "\<And>s. I s \<Longrightarrow> P s \<Longrightarrow> I (f s) \<and> Q () (f s)"
  shows "ensures I P (act env f) Q"
  unfolding ensures_def
proof (intro allI impI)
  fix s
  assume "I s \<and> P s"
  then have "I (s\<lparr>ar_ticks := Suc (ar_ticks s)\<rparr>)" "P (s\<lparr>ar_ticks := Suc (ar_ticks s)\<rparr>)"
    using assms(1,2) by (simp_all add: stable_def)
  with assms(3) show "I (snd (act env f s)) \<and> (\<forall>x. fst (act env f s) = Inr x \<longrightarrow> Q x (snd (act env f s)))"
    by (simp add: act_def Let_def split: fault.split)
qed

lemma stable_rules:
  "stable (archive_inv line k M)" "stable (intact k M)"
  "stable (\<lambda>s. \<exists>r. find_row s k = Some r \<and> p r)" "stable (\<lambda>_. b)"
  "stable P \<Longrightarrow> stable Q \<Longrightarrow> stable (\<lambda>s. P s \<and> Q s)"
  by (simp_all add: stable_def archive_inv_def intact_def row_ok_def [abs_def] find_row_def split: option.split)

lemma ensures_pure: "(b \<Longrightarrow> ensures I P m Q) \<Longrightarrow> ensures I (\<lambda>s. b \<and> P s) m Q"
  by (auto simp: ensures_def)

text \<open>Where a run stands: the row satisfies \<open>p\<close>, and while \<open>c\<close> the messages are all in the table.\<close>

definition stage ::
  "uuid \<Rightarrow> archive_message list \<Rightarrow> bool \<Rightarrow> (archived_conversation \<Rightarrow> bool) \<Rightarrow> archive_state \<Rightarrow> bool" where
  "stage k M c p s \<longleftrightarrow> (\<exists>r. find_row s k = Some r \<and> p r) \<and> (c \<longrightarrow> intact k M s)"

lemma stable_stage: "stable (stage k M c p)"
  by (simp add: stable_def stage_def intact_def find_row_def)

lemma stage_weaken: "stage k M c p s \<Longrightarrow> (\<And>r. p r \<Longrightarrow> q r) \<Longrightarrow> stage k M c q s"
  by (auto simp: stage_def)

lemma ticked_stage:
  assumes "ticked s t"
  shows "archive_inv line k M t = archive_inv line k M s" "stage k M c p t = stage k M c p s"
  using assms by (simp_all add: ticked_def archive_inv_def stage_def intact_def row_ok_def [abs_def] find_row_def
      split: option.split)

lemma inv_update:
  assumes "archive_inv line k M s" and "find_row s k = Some r" and "\<And>x. arc_room x = k \<Longrightarrow> arc_room (f x) = k"
    and "row_ok line M s (intact k M s) (f r)"
  shows "archive_inv line k M (update_row k f s)" "find_row (update_row k f s) k = Some (f r)"
  using assms find_row_update [of k f s k] by (simp_all add: archive_inv_def)

lemma ensures_update:
  assumes "\<And>x. arc_room x = k \<Longrightarrow> arc_room (f x) = k"
    and "\<And>s r. row_ok line M s (intact k M s) r \<Longrightarrow> p r \<Longrightarrow> (c \<Longrightarrow> intact k M s) \<Longrightarrow>
      row_ok line M s (intact k M s) (f r) \<and> q (f r)"
  shows "ensures (archive_inv line k M) (stage k M c p) (act env (update_row k f)) (\<lambda>_. stage k M c q)"
proof (rule ensures_act [OF stable_rules(1) stable_stage])
  fix s
  assume I: "archive_inv line k M s" and P: "stage k M c p s"
  then obtain r where r: "find_row s k = Some r" "p r" and c: "c \<Longrightarrow> intact k M s" by (auto simp: stage_def)
  have "row_ok line M s (intact k M s) r" using I r(1) by (simp add: archive_inv_def)
  with assms(2) r(2) c have ok: "row_ok line M s (intact k M s) (f r)" "q (f r)" by blast+
  with inv_update [OF I r(1) assms(1)] c show
    "archive_inv line k M (update_row k f s) \<and> stage k M c q (update_row k f s)"
    by (simp add: stage_def)
qed

lemma ensures_refresh:
  "ensures I (stage k M c p) (refresh k) (\<lambda>r s. p r \<and> stage k M c (\<lambda>x. x = r) s)"
  by (rule ensuresI) (auto simp: refresh_def stage_def)

section \<open>One run keeps the invariant\<close>

lemma ensures_process:
  assumes "arc_room r = k"
  shows "ensures (archive_inv line k M) (stage k M True p) (process_messages env r)
    (\<lambda>r1 s. (arc_status r1 = PROCESSING_MESSAGES \<and> arc_room r1 = k) \<and> stage k M True (\<lambda>_. True) s)"
  unfolding process_messages_def Let_def assms
  by (rule ensures_andthen, rule ensures_update [where q = "\<lambda>_. True"])
    (auto simp: assms row_ok_def uploaded_def intro: ensures_ret)

lemma distinct_message_keys: "distinct (map am_pk ms) \<Longrightarrow> distinct (map message_key ms)"
  by (auto simp: distinct_map inj_on_def message_key_def)

lemma ensures_iter:
  assumes "0 < ar_page_size env" and "ar_line env = line"
  shows "ensures (archive_inv line k M) (stage k M True p) (iter_messages env k None)
    (\<lambda>lines s. lines = archive_lines line M \<and> stage k M True p s)"
proof (rule ensuresI)
  fix s r t
  assume s: "archive_inv line k M s" "stage k M True p s" and run: "iter_messages env k None s = (r, t)"
  have "lines = archive_lines line M" if "r = Inr lines" for lines
    using iter_messages_result [OF assms(1) distinct_message_keys run [unfolded that]] s assms(2)
    by (simp add: archive_inv_def stage_def intact_def messages_after_def archive_lines_def)
  then show "archive_inv line k M t \<and> (\<forall>x. r = Inr x \<longrightarrow> x = archive_lines line M \<and> stage k M True p t)"
    using s ticked_stage [OF iter_messages_ticked [OF run]] by simp
qed

lemma ensures_store:
  "ensures (archive_inv line k M) (stage k M True p) (store_file env k lines)
    (\<lambda>name s. map_of (ar_files s) name = Some lines \<and> stage k M True p s)"
proof (rule ensuresI)
  fix s r t
  assume s: "archive_inv line k M s" "stage k M True p s" and run: "store_file env k lines s = (r, t)"
  let ?f = "\<lambda>s. s\<lparr>ar_files := ar_files s @ [((k, length (ar_files s)), lines)]\<rparr>"
  have add: "archive_inv line k M (?f u) \<and> stage k M True p (?f u) \<and>
      map_of (ar_files (?f u)) (k, length (ar_files u)) = Some lines"
    if "archive_inv line k M u" "stage k M True p u" for u
  proof -
    have "map_of (ar_files u) (k, length (ar_files u)) = None"
      using that(1) by (auto simp: archive_inv_def map_of_eq_None_iff)
    then show ?thesis
      using that by (auto simp: archive_inv_def stage_def intact_def row_ok_def find_row_def map_of_append map_add_def
          less_Suc_eq split: option.splits)
  qed
  show "archive_inv line k M t \<and> (\<forall>x. r = Inr x \<longrightarrow> map_of (ar_files t) x = Some lines \<and> stage k M True p t)"
    using run s ticked_stage [of s "s\<lparr>ar_ticks := Suc (ar_ticks s)\<rparr>"] add [of "s\<lparr>ar_ticks := Suc (ar_ticks s)\<rparr>"]
    by (auto simp: store_file_def Let_def act_def bnd_def ret_def ticked_def map_add_def split: fault.splits)
qed

abbreviation has_file :: "archived_conversation \<Rightarrow> bool" where
  "has_file r \<equiv> arc_file r \<noteq> None"

text \<open>A save that moves a row with a file past the upload.\<close>

lemma ensures_past_upload:
  assumes "\<And>x. arc_room (f x) = arc_room x" "\<And>x. arc_file (f x) = arc_file x" "\<And>x. uploaded (f x)" "\<And>x. q (f x)"
  shows "ensures (archive_inv line k M) (stage k M c has_file) (act env (update_row k f))
    (\<lambda>_. stage k M False (\<lambda>x. has_file x \<and> q x))"
proof (rule ensures_act [OF stable_rules(1) stable_stage])
  fix s
  assume I: "archive_inv line k M s" and P: "stage k M c has_file s"
  then obtain x where x: "find_row s k = Some x" "has_file x" by (auto simp: stage_def)
  moreover have "row_ok line M s (intact k M s) x" using I x by (simp add: archive_inv_def)
  ultimately have "row_ok line M s (intact k M s) (f x)" using assms by (simp add: row_ok_def)
  from inv_update [where f = f, OF I x(1) _ this] x assms
  show "archive_inv line k M (update_row k f s) \<and> stage k M False (\<lambda>x. has_file x \<and> q x) (update_row k f s)"
    by (simp add: stage_def)
qed

lemma ensures_upload:
  assumes "0 < ar_page_size env" and "ar_line env = line" and "arc_room r = k" and "arc_status r = PROCESSING_MESSAGES"
  shows "ensures (archive_inv line k M) (stage k M True (\<lambda>_. True)) (upload_messages_file env r)
    (\<lambda>_. stage k M False (\<lambda>x. has_file x \<and> True))"
proof -
  have save: "ensures (archive_inv line k M)
      (\<lambda>s. map_of (ar_files s) name = Some (archive_lines line M) \<and> stage k M True (\<lambda>_. True) s)
      (act env (update_row k (\<lambda>_. r\<lparr>arc_status := UPLOADING_MESSAGES_FILE, arc_file := Some name\<rparr>)))
      (\<lambda>_. stage k M True has_file)" for name
  proof (rule ensures_act)
    fix s
    assume I: "archive_inv line k M s"
      and P: "map_of (ar_files s) name = Some (archive_lines line M) \<and> stage k M True (\<lambda>_. True) s"
    then obtain x where x: "find_row s k = Some x" and "intact k M s" by (auto simp: stage_def)
    then have "row_ok line M s (intact k M s) (r\<lparr>arc_status := UPLOADING_MESSAGES_FILE, arc_file := Some name\<rparr>)"
      using P by (simp add: row_ok_def uploaded_def)
    from inv_update [OF I x _ this] assms(3) \<open>intact k M s\<close>
    show "archive_inv line k M (update_row k (\<lambda>_. r\<lparr>arc_status := UPLOADING_MESSAGES_FILE, arc_file := Some name\<rparr>) s) \<and>
        stage k M True has_file (update_row k (\<lambda>_. r\<lparr>arc_status := UPLOADING_MESSAGES_FILE, arc_file := Some name\<rparr>) s)"
      by (simp add: stage_def)
  qed (rule stable_rules, simp add: stable_def stage_def intact_def find_row_def)
  have last: "ensures (archive_inv line k M) (stage k M True has_file) (save_status env k MESSAGES_FILE_UPLOADED)
      (\<lambda>_. stage k M False (\<lambda>x. has_file x \<and> True))"
    unfolding save_status_def by (rule ensures_past_upload) (simp_all add: uploaded_def)
  have status: "ensures (archive_inv line k M) (stage k M True (\<lambda>_. True)) (save_status env k UPLOADING_MESSAGES_FILE)
      (\<lambda>_. stage k M True (\<lambda>_. True))"
    unfolding save_status_def by (rule ensures_update) (auto simp: row_ok_def uploaded_def)
  have steps: "upload_messages_file env r = bnd (iter_messages env k None) (\<lambda>lines.
        andthen (save_status env k UPLOADING_MESSAGES_FILE)
        (bnd (store_file env k lines) (\<lambda>name.
         andthen (act env (update_row k (\<lambda>_. r\<lparr>arc_status := UPLOADING_MESSAGES_FILE, arc_file := Some name\<rparr>)))
         (save_status env k MESSAGES_FILE_UPLOADED))))"
    by (simp add: upload_messages_file_def assms(3,4))
  have store: "ensures (archive_inv line k M) (stage k M True (\<lambda>_. True)) (store_file env k (archive_lines line M))
      (\<lambda>name s. map_of (ar_files s) name = Some (archive_lines line M) \<and> stage k M True (\<lambda>_. True) s)"
    by (rule ensures_store)
  show ?thesis
    unfolding steps
  proof (rule ensures_bnd, rule ensures_iter [OF assms(1,2)], rule ensures_pure)
    fix lines
    assume lines: "lines = archive_lines line M"
    show "ensures (archive_inv line k M) (stage k M True (\<lambda>_. True))
        (andthen (save_status env k UPLOADING_MESSAGES_FILE)
        (bnd (store_file env k lines) (\<lambda>name.
         andthen (act env (update_row k (\<lambda>_. r\<lparr>arc_status := UPLOADING_MESSAGES_FILE, arc_file := Some name\<rparr>)))
         (save_status env k MESSAGES_FILE_UPLOADED))))
        (\<lambda>_. stage k M False (\<lambda>x. has_file x \<and> True))"
      unfolding lines
      by (rule ensures_andthen [OF status], rule ensures_bnd [OF store], rule ensures_andthen [OF save], rule last)
  qed
qed

lemma filter_own_messages:
  assumes "set batch \<subseteq> set (room_messages j ms)" and "distinct (map am_pk ms)" and "j \<noteq> k"
  shows "room_messages k (filter (\<lambda>m. am_pk m \<notin> am_pk ` set batch) ms) = room_messages k ms"
proof -
  have "am_pk m \<notin> am_pk ` set batch" if m: "m \<in> set ms" "am_room m = k" for m
  proof
    assume "am_pk m \<in> am_pk ` set batch"
    then obtain b where b: "b \<in> set batch" "am_pk m = am_pk b" by blast
    then have "b \<in> set ms" "am_room b = j" using assms(1) by (auto simp: room_messages_def)
    with assms(2) m b(2) have "m = b" by (simp add: distinct_map inj_on_def)
    with assms(3) m \<open>am_room b = j\<close> show False by simp
  qed
  then show ?thesis by (auto simp: room_messages_def intro!: filter_cong)
qed

lemma ensures_delete_batches:
  "ensures (archive_inv line k M) (stage k M c (\<lambda>x. has_file x \<and> uploaded x)) (delete_batches env k n)
    (\<lambda>_. stage k M False (\<lambda>x. has_file x \<and> uploaded x))"
proof (rule ensuresI)
  fix s r t
  let ?P = "\<lambda>s. archive_inv line k M s \<and> stage k M False (\<lambda>x. has_file x \<and> uploaded x) s"
  assume "archive_inv line k M s" "stage k M c (\<lambda>x. has_file x \<and> uploaded x) s" and run: "delete_batches env k n s = (r, t)"
  then have "?P s" by (simp add: stage_def)
  with run have "?P t"
  proof (induction env k n s arbitrary: r t rule: delete_batches.induct)
    case (1 env k n s)
    let ?I = "\<lambda>s. archive_inv line k M s \<and> stage k M False (\<lambda>x. has_file x \<and> uploaded x) s"
    let ?batch = "take n (room_messages k (ar_messages s))"
    have step: "?I (delete_messages b u)" if "?I u" for b u
    proof -
      have "distinct (map am_pk (filter f (ar_messages u)))" for f using that by (simp add: archive_inv_def distinct_map_filter)
      then show ?thesis using that
        by (auto simp: archive_inv_def stage_def delete_messages_def find_row_def row_ok_def split: option.splits)
    qed
    show ?case
    proof (cases "?batch = []")
      case True
      with 1 show ?thesis by (simp add: delete_batches.simps [of env k n s])
    next
      case False
      obtain x u where u: "act env (delete_messages ?batch) s = (x, u)" by fastforce
      have tick: "?I (s\<lparr>ar_ticks := Suc (ar_ticks s)\<rparr>)"
        using "1.prems"(2) ticked_stage [of s "s\<lparr>ar_ticks := Suc (ar_ticks s)\<rparr>"] by (simp only: ticked_def) simp
      have Pu: "?I u"
        using u tick step [OF tick, of ?batch] by (auto simp: act_def Let_def split: fault.splits)
      show ?thesis
      proof (cases x)
        case (Inl e)
        with "1.prems"(1) False u have "t = u" by (simp add: delete_batches.simps [of env k n s] Let_def)
        with Pu show ?thesis by simp
      next
        case (Inr y)
        with "1.prems"(1) False u have "delete_batches env k n u = (r, t)"
          by (simp add: delete_batches.simps [of env k n s] Let_def)
        from "1.IH" [OF refl False u [symmetric] Inr this Pu] show ?thesis .
      qed
    qed
  qed
  then show "archive_inv line k M t \<and> (\<forall>x. r = Inr x \<longrightarrow> stage k M False (\<lambda>x. has_file x \<and> uploaded x) t)"
    by simp
qed

lemma ensures_delete:
  "ensures (archive_inv line k M) (stage k M c has_file) (delete_room_messages env k n)
    (\<lambda>_. stage k M False (\<lambda>x. has_file x \<and> True))"
  unfolding delete_room_messages_def
proof (rule ensures_bnd, rule ensures_refresh, rule ensures_pure)
  fix r
  assume "has_file r"
  then obtain fn where r: "arc_file r = Some fn" by blast
  show "ensures (archive_inv line k M) (stage k M c (\<lambda>x. x = r))
      (if arc_status r \<noteq> MESSAGES_FILE_UPLOADED then raise (ValidationError ''not in messages file uploaded status'')
       else andthen (delete_batches env k n) (act env (update_row k (\<lambda>x. x\<lparr>arc_status := MESSAGES_DELETED_FROM_DB,
          arc_messages_deleted_at := Some (ar_now env)\<rparr>))))
      (\<lambda>_. stage k M False (\<lambda>x. has_file x \<and> True))"
  proof (cases "arc_status r = MESSAGES_FILE_UPLOADED")
    case True
    have "ensures (archive_inv line k M) (stage k M c (\<lambda>x. x = r)) (delete_batches env k n)
        (\<lambda>_. stage k M False (\<lambda>x. has_file x \<and> uploaded x))"
      by (rule ensures_pre [OF ensures_delete_batches]) (auto simp: stage_def uploaded_def True r)
    moreover have "ensures (archive_inv line k M) (stage k M False (\<lambda>x. has_file x \<and> uploaded x))
        (act env (update_row k (\<lambda>x. x\<lparr>arc_status := MESSAGES_DELETED_FROM_DB, arc_messages_deleted_at := Some (ar_now env)\<rparr>)))
        (\<lambda>_. stage k M False (\<lambda>x. has_file x \<and> True))"
      by (rule ensures_pre [OF ensures_past_upload [where c = False]]) (auto simp: stage_def uploaded_def)
    ultimately show ?thesis by (simp only: True simp_thms if_False) (rule ensures_andthen)
  qed (simp add: ensures_raise)
qed

lemma ensures_conseq:
  "ensures I P m Q \<Longrightarrow> (\<And>s. I s \<Longrightarrow> P' s \<Longrightarrow> P s) \<Longrightarrow> (\<And>x s. Q x s \<Longrightarrow> Q' x s) \<Longrightarrow> ensures I P' m Q'"
  by (simp add: ensures_def)

lemma ensures_upload_stage:
  assumes "0 < ar_page_size env" and "ar_line env = line" and "arc_room r = k" and "arc_status r \<noteq> FINISHED"
  shows "ensures (archive_inv line k M) (stage k M False (\<lambda>x. arc_status x = arc_status r \<and> arc_file x = arc_file r))
    (when_true (needs_processing_and_upload r) (bnd (process_messages env r) (upload_messages_file env)))
    (\<lambda>_. stage k M False has_file)"
proof (rule ensures_when)
  assume needs: "needs_processing_and_upload r"
  have "ensures (archive_inv line k M) (stage k M True (\<lambda>_. True))
      (bnd (process_messages env r) (upload_messages_file env)) (\<lambda>_. stage k M False (\<lambda>x. has_file x \<and> True))"
    by (rule ensures_bnd, rule ensures_process [OF assms(3)], rule ensures_pure, erule conjE,
      rule ensures_upload [OF assms(1,2)])
  then show "ensures (archive_inv line k M) (stage k M False (\<lambda>x. arc_status x = arc_status r \<and> arc_file x = arc_file r))
      (bnd (process_messages env r) (upload_messages_file env)) (\<lambda>_. stage k M False has_file)"
  proof (rule ensures_conseq)
    fix s
    assume I: "archive_inv line k M s" and P: "stage k M False (\<lambda>x. arc_status x = arc_status r \<and> arc_file x = arc_file r) s"
    then obtain x where x: "find_row s k = Some x" "arc_status x = arc_status r" "arc_file x = arc_file r"
      by (auto simp: stage_def)
    then have "row_ok line M s (intact k M s) x" using I by (simp add: archive_inv_def)
    with x needs assms(4) have "intact k M s"
      by (auto simp: row_ok_def uploaded_def needs_processing_and_upload_def)
    with x show "stage k M True (\<lambda>_. True) s" by (simp add: stage_def)
  qed (simp add: stage_def)
next
  fix s
  assume not_needed: "\<not> needs_processing_and_upload r" and I: "archive_inv line k M s"
    and P: "stage k M False (\<lambda>x. arc_status x = arc_status r \<and> arc_file x = arc_file r) s"
  then obtain x where x: "find_row s k = Some x" "arc_status x = arc_status r" "arc_file x = arc_file r"
    by (auto simp: stage_def)
  then have "row_ok line M s (intact k M s) x" using I by (simp add: archive_inv_def)
  with x not_needed have "has_file x" by (auto simp: row_ok_def uploaded_def needs_processing_and_upload_def)
  with x show "stage k M False has_file s" by (simp add: stage_def)
qed

lemma ensures_finish_stage:
  "ensures (archive_inv line k M) (stage k M c has_file)
    (bnd (refresh k) (\<lambda>_. act env (update_row k (\<lambda>x. x\<lparr>arc_status := FINISHED, arc_finished_at := t\<rparr>))))
    (\<lambda>_. stage k M False (\<lambda>x. has_file x \<and> arc_status x = FINISHED))"
proof (rule ensures_bnd, rule ensures_refresh, rule ensures_pure)
  fix r
  assume r: "has_file r"
  show "ensures (archive_inv line k M) (stage k M c (\<lambda>x. x = r))
      (act env (update_row k (\<lambda>x. x\<lparr>arc_status := FINISHED, arc_finished_at := t\<rparr>)))
      (\<lambda>_. stage k M False (\<lambda>x. has_file x \<and> arc_status x = FINISHED))"
    by (rule ensures_pre [OF ensures_past_upload [where c = c]])
      (use r in \<open>auto simp: uploaded_def elim!: stage_weaken\<close>)
qed

lemma ensures_delete_stage:
  "ensures (archive_inv line k M) (stage k M False has_file)
    (bnd (refresh k) (\<lambda>r2. when_true (needs_message_deletion r2)
        (andthen (when_true (arc_status r2 \<noteq> MESSAGES_FILE_UPLOADED) (save_status env k MESSAGES_FILE_UPLOADED))
                 (delete_room_messages env k n))))
    (\<lambda>_. stage k M False has_file)"
proof (rule ensures_bnd, rule ensures_refresh, rule ensures_pure, rule ensures_when)
  fix r
  assume r: "has_file r"
  have pre: "ensures (archive_inv line k M) (stage k M False (\<lambda>x. x = r))
      (when_true b (save_status env k MESSAGES_FILE_UPLOADED)) (\<lambda>_. stage k M False has_file)" for b
  proof (rule ensures_when)
    have "ensures (archive_inv line k M) (stage k M False has_file) (save_status env k MESSAGES_FILE_UPLOADED)
        (\<lambda>_. stage k M False (\<lambda>x. has_file x \<and> True))"
      unfolding save_status_def by (rule ensures_past_upload) (simp_all add: uploaded_def)
    then show "ensures (archive_inv line k M) (stage k M False (\<lambda>x. x = r)) (save_status env k MESSAGES_FILE_UPLOADED)
        (\<lambda>_. stage k M False has_file)"
      by (rule ensures_conseq) (use r in \<open>auto elim!: stage_weaken\<close>)
  qed (use r in \<open>auto elim!: stage_weaken\<close>)
  have "ensures (archive_inv line k M) (stage k M False has_file) (delete_room_messages env k n)
      (\<lambda>_. stage k M False has_file)"
    by (rule ensures_conseq [OF ensures_delete]) (auto elim!: stage_weaken)
  with pre show "ensures (archive_inv line k M) (stage k M False (\<lambda>x. x = r))
      (andthen (when_true (arc_status r \<noteq> MESSAGES_FILE_UPLOADED) (save_status env k MESSAGES_FILE_UPLOADED))
        (delete_room_messages env k n)) (\<lambda>_. stage k M False has_file)"
    by (rule ensures_andthen)
  show "stage k M False has_file s" if "stage k M False (\<lambda>x. x = r) s" for s
    using that by (rule stage_weaken) (use r in simp)
qed

lemma ensures_archive_steps:
  assumes "0 < ar_page_size env" and "ar_line env = line" and "arc_room r = k" and "arc_status r \<noteq> FINISHED"
  shows "ensures (archive_inv line k M) (stage k M False (\<lambda>x. arc_status x = arc_status r \<and> arc_file x = arc_file r))
    (archive_steps env r) (\<lambda>_. stage k M False (\<lambda>x. has_file x \<and> arc_status x = FINISHED))"
  unfolding archive_steps_def sequence.simps assms(3)
  by (rule ensures_andthen, rule ensures_upload_stage [OF assms], rule ensures_andthen, rule ensures_delete_stage,
    rule ensures_andthen, rule ensures_finish_stage, rule ensures_ret)

lemma inv_no_row: "archive_inv line k M s \<Longrightarrow> find_row s k = None \<Longrightarrow> archive_inv line k M (update_row k f s)"
proof -
  assume I: "archive_inv line k M s" and none: "find_row s k = None"
  have "update_where (\<lambda>r. arc_room r = k) f rs = rs" if "find (\<lambda>r. arc_room r = k) rs = None" for rs
    using that by (induction rs) (auto split: if_splits)
  then have "update_row k f s = s" using none by (simp add: update_row_def find_row_def)
  with I show ?thesis by simp
qed

lemma ensures_register_error:
  assumes "arc_room r = k"
  shows "ensures (archive_inv line k M) (\<lambda>_. True) (register_error env r e) (\<lambda>_ _. True)"
  unfolding register_error_def assms
proof (rule ensures_act)
  fix s
  assume I: "archive_inv line k M s"
  let ?f = "\<lambda>x. x\<lparr>arc_errors := arc_errors r @ [(ar_now env, e)], arc_status := FAILED, arc_failed_at := Some (ar_now env)\<rparr>"
  show "archive_inv line k M (update_row k ?f s) \<and> True"
  proof (cases "find_row s k")
    case None
    with I show ?thesis by (simp add: inv_no_row)
  next
    case (Some x)
    with I have "row_ok line M s (intact k M s) x" by (simp add: archive_inv_def)
    then have "row_ok line M s (intact k M s) (?f x)" by (auto simp: row_ok_def uploaded_def)
    with inv_update(1) [where f = ?f, OF I Some] show ?thesis by simp
  qed
qed (simp_all add: stable_rules)

lemma ensures_except:
  assumes "ensures I P m Q" and "\<And>e. ensures I (\<lambda>_. True) (h e) (\<lambda>_ _. True)"
  shows "ensures I P (except_exception m h) (\<lambda>_ _. True)"
proof (rule ensuresI)
  fix s r t
  assume s: "I s" "P s" and run: "except_exception m h s = (r, t)"
  obtain q u where m: "m s = (q, u)" by fastforce
  have u: "I u" using ensuresD [OF assms(1) s m] by simp
  show "I t \<and> (\<forall>x. r = Inr x \<longrightarrow> True)"
  proof (cases q)
    case (Inl e)
    then have "(if e = WorkerLost then raise e else h e) u = (r, t)"
      using m run by (simp add: except_exception_def try_except_def)
    with u ensuresD [OF assms(2) u TrueI] show ?thesis by (auto simp: raise_def split: if_splits)
  next
    case (Inr x)
    with m run u show ?thesis by (auto simp: except_exception_def try_except_def)
  qed
qed

lemma ensures_claim:
  "ensures (archive_inv line k M) (\<lambda>_. True) (claim_room_for_archive env locked k job)
    (\<lambda>claim s. case claim of None \<Rightarrow> True
       | Some r \<Rightarrow> arc_room r = k \<and> stage k M False (\<lambda>x. arc_status x = arc_status r \<and> arc_file x = arc_file r) s)"
  (is "ensures ?I _ _ ?Q")
proof (rule ensuresI)
  fix s out t
  assume I: "?I s" and run: "claim_room_for_archive env locked k job s = (out, t)"
  let ?tick = "s\<lparr>ar_ticks := Suc (ar_ticks s)\<rparr>"
  have tick: "?I ?tick" using I ticked_stage [of s ?tick] by (simp add: ticked_def)
  have same: "find_row ?tick k = find_row s k" by (simp add: find_row_def)
  have ran: "?I t \<and> (\<forall>x. out = Inr x \<longrightarrow> ?Q x t)"
    if "bnd (act env f) (\<lambda>_. ret (Some r)) s = (out, t)" and "?I (f ?tick) \<and> find_row (f ?tick) k = Some r"
      and "arc_room r = k" for f r
    using that tick by (auto simp: bnd_def act_def ret_def stage_def Let_def split: fault.splits)
  show "?I t \<and> (\<forall>x. out = Inr x \<longrightarrow> ?Q x t)"
  proof (cases "find_row s k")
    case None
    let ?r = "(new_conversation k job)\<lparr>arc_started_at := Some (ar_now env)\<rparr>"
    have "find_row (?tick\<lparr>ar_rows := ar_rows ?tick @ [?r]\<rparr>) k = Some ?r"
      using None by (simp add: find_row_def find_append new_conversation_def)
    moreover from this have "?I (?tick\<lparr>ar_rows := ar_rows ?tick @ [?r]\<rparr>)"
      using I None by (simp add: archive_inv_def row_ok_def intact_def uploaded_def new_conversation_def)
    ultimately show ?thesis
      using run None ran [of "\<lambda>s. s\<lparr>ar_rows := ar_rows s @ [?r]\<rparr>" ?r]
      by (simp add: claim_room_for_archive_def new_conversation_def Let_def)
  next
    case (Some r)
    have room: "arc_room r = k" using find_row_room [OF Some] .
    show ?thesis
    proof (cases "locked \<or> claimed env job r = None \<or> arc_status r = FINISHED")
      case True
      with run Some I room show ?thesis
        by (auto simp: claim_room_for_archive_def claimed_def stage_def split: if_splits)
    next
      case False
      then obtain r' where r': "claimed env job r = Some r'" "\<not> locked" "arc_status r \<noteq> FINISHED" by auto
      then have eq: "r' = r\<lparr>arc_started_at := Some (ar_now env), arc_job := job\<rparr>"
        by (simp add: claimed_def split: if_splits)
      have "row_ok line M ?tick (intact k M ?tick) r"
        using tick Some same by (simp add: archive_inv_def)
      then have "row_ok line M ?tick (intact k M ?tick) r'" by (simp add: eq row_ok_def uploaded_def)
      moreover have "find_row ?tick k = Some r" using Some same by simp
      ultimately have "?I (update_row k (\<lambda>_. r') ?tick) \<and> find_row (update_row k (\<lambda>_. r') ?tick) k = Some r'"
        using inv_update [where f = "\<lambda>_. r'", OF tick] room by (simp add: eq)
      then show ?thesis
        using run Some r' ran [of "update_row k (\<lambda>_. r')" r'] room eq
        by (simp add: claim_room_for_archive_def)
    qed
  qed
qed

lemma run_own_room:
  assumes "0 < ar_page_size env" and "ar_line env = line"
  shows "ensures (archive_inv line k M) (\<lambda>_. True) (archive_room_history env locked k job) (\<lambda>_ _. True)"
  unfolding archive_room_history_def
proof (rule ensures_bnd, rule ensures_claim)
  fix claim
  let ?I = "archive_inv line k M"
  show "ensures ?I (\<lambda>s. case claim of None \<Rightarrow> True
      | Some r \<Rightarrow> arc_room r = k \<and> stage k M False (\<lambda>x. arc_status x = arc_status r \<and> arc_file x = arc_file r) s)
    (case claim of None \<Rightarrow> ret None
     | Some r \<Rightarrow> if arc_status r = FINISHED then ret (Some r)
         else andthen (except_exception (archive_steps env r) (register_error env r))
                (bnd (refresh k) (\<lambda>r. ret (Some r)))) (\<lambda>_ _. True)"
  proof (cases claim)
    case None
    then show ?thesis by (simp add: ensures_ret)
  next
    case (Some r)
    have "ensures ?I (\<lambda>s. arc_room r = k \<and> stage k M False (\<lambda>x. arc_status x = arc_status r \<and> arc_file x = arc_file r) s)
        (andthen (except_exception (archive_steps env r) (register_error env r)) (bnd (refresh k) (\<lambda>r. ret (Some r))))
        (\<lambda>_ _. True)" if "arc_status r \<noteq> FINISHED"
    proof (rule ensures_pure)
      assume room: "arc_room r = k"
      have "ensures ?I (\<lambda>_. True) (bnd (refresh k) (\<lambda>r. ret (Some r))) (\<lambda>_ _. True)"
        by (rule ensuresI) (auto simp: bnd_def refresh_def ret_def split: option.splits)
      then show "ensures ?I (stage k M False (\<lambda>x. arc_status x = arc_status r \<and> arc_file x = arc_file r))
          (andthen (except_exception (archive_steps env r) (register_error env r)) (bnd (refresh k) (\<lambda>r. ret (Some r))))
          (\<lambda>_ _. True)"
        by (intro ensures_andthen [OF ensures_except [OF ensures_archive_steps [OF assms room that]
              ensures_register_error [OF room]]])
    qed
    with Some show ?thesis by (auto simp: ensures_ret)
  qed
qed

text \<open>The runs of other rooms.\<close>

interpretation archive_order: step_order "\<lambda>s t. archive_inv line k M s \<longrightarrow> archive_inv line k M t" for line k M
  by unfold_locales auto

abbreviation spares :: "(archive_message \<Rightarrow> json) \<Rightarrow> uuid \<Rightarrow> archive_message list \<Rightarrow> (archive_state, 'a) py \<Rightarrow> bool" where
  "spares line k M \<equiv> keeps (\<lambda>s t. archive_inv line k M s \<longrightarrow> archive_inv line k M t)"

lemma spares_act: "(\<And>s. archive_inv line k M s \<Longrightarrow> archive_inv line k M (f s)) \<Longrightarrow> spares line k M (act env f)"
  using stable_rules(1) [of line k M] by (auto simp: keeps_def act_def stable_def Let_def split: fault.split)

lemma spares_update:
  assumes "j \<noteq> k" and "\<And>x. arc_room x = j \<Longrightarrow> arc_room (f x) = j"
  shows "spares line k M (act env (update_row j f))"
  by (rule spares_act) (use assms(1) find_row_update [of j f, OF assms(2)] in
    \<open>auto simp: archive_inv_def split: option.splits\<close>)

lemma spares_refresh: "spares line k M (refresh j)"
  by (auto simp: keeps_def refresh_def split: option.split)

lemma spares_append_row:
  assumes "arc_room r \<noteq> k"
  shows "spares line k M (act env (\<lambda>s. s\<lparr>ar_rows := ar_rows s @ [r]\<rparr>))"
  by (rule spares_act) (use assms in
    \<open>auto simp: archive_inv_def find_row_def find_append intact_def row_ok_def [abs_def] split: option.splits\<close>)

lemma spares_claim: "j \<noteq> k \<Longrightarrow> spares line k M (claim_room_for_archive env locked j job)"
proof (rule keepsI, rule impI)
  fix s
  assume j: "j \<noteq> k" and I: "archive_inv line k M s"
  have ran: "archive_inv line k M (snd (bnd (act env f) (\<lambda>_. ret x) s))"
    if "spares line k M (act env f)" for f x
    using archive_order.keeps_bnd [OF that archive_order.keeps_ret, of "\<lambda>_. x"] I by (auto simp: keeps_def)
  show "archive_inv line k M (snd (claim_room_for_archive env locked j job s))"
  proof (cases "find_row s j")
    case None
    with j show ?thesis
      by (simp add: claim_room_for_archive_def Let_def ran spares_append_row new_conversation_def)
  next
    case (Some r)
    then have "arc_room r' = j" if "claimed env job r = Some r'" for r'
      using that find_row_room [OF Some] by (auto simp: claimed_def split: if_splits)
    with Some j I show ?thesis
      by (auto simp: claim_room_for_archive_def intro!: ran spares_update split: option.split)
  qed
qed

lemma claimed_room: "claim_room_for_archive env locked j job s = (Inr c, t) \<Longrightarrow> c = Some r \<Longrightarrow> arc_room r = j"
  by (auto simp: claim_room_for_archive_def claimed_def bnd_def ret_def new_conversation_def Let_def
      dest: find_row_room split: option.splits if_splits prod.splits sum.splits)

lemma spares_store: "spares line k M (store_file env j lines)"
proof (rule keepsI, rule impI)
  fix s
  assume I: "archive_inv line k M s"
  have "spares line k M (act env (\<lambda>s. s\<lparr>ar_files := ar_files s @ [((j, length (ar_files s)), lines)]\<rparr>))"
    by (rule spares_act) (auto simp: archive_inv_def intact_def row_ok_def find_row_def map_of_append map_add_def less_Suc_eq
        split: option.splits)
  from archive_order.keeps_bnd [OF this archive_order.keeps_ret, of "\<lambda>_. (j, length (ar_files s))"] I
  show "archive_inv line k M (snd (store_file env j lines s))"
    by (auto simp: keeps_def store_file_def Let_def act_def bnd_def split: fault.splits)
qed

lemma spares_iter: "spares line k M (iter_messages env j after)"
  using iter_messages_ticked ticked_stage(1) by (metis (no_types, lifting) keepsI prod.collapse)

lemma spares_delete_batches: "j \<noteq> k \<Longrightarrow> spares line k M (delete_batches env j n)"
proof (rule keepsI)
  fix s
  assume "j \<noteq> k"
  then show "archive_inv line k M s \<longrightarrow> archive_inv line k M (snd (delete_batches env j n s))"
  proof (induction env j n s rule: delete_batches.induct)
    case (1 env j n s)
    let ?batch = "take n (room_messages j (ar_messages s))"
    have drop: "archive_inv line k M (delete_messages ?batch u)"
      if u: "archive_inv line k M u" and "ar_messages u = ar_messages s" for u
    proof -
      have "set ?batch \<subseteq> set (room_messages j (ar_messages u))" using that(2) set_take_subset by metis
      then have "room_messages k (filter (\<lambda>m. am_pk m \<notin> am_pk ` set ?batch) (ar_messages u)) = room_messages k (ar_messages u)"
        by (rule filter_own_messages) (use u 1(2) in \<open>simp_all add: archive_inv_def\<close>)
      then show ?thesis
        using u by (simp add: archive_inv_def delete_messages_def intact_def row_ok_def find_row_def distinct_map_filter
            split: option.splits)
    qed
    show ?case
    proof (cases "?batch = []")
      case True
      then show ?thesis by (simp add: delete_batches.simps [of env j n s])
    next
      case False
      obtain x u where u: "act env (delete_messages ?batch) s = (x, u)" by fastforce
      have Iu: "archive_inv line k M u" if "archive_inv line k M s"
        using u drop [of "s\<lparr>ar_ticks := Suc (ar_ticks s)\<rparr>"] that ticked_stage(1) [of s "s\<lparr>ar_ticks := Suc (ar_ticks s)\<rparr>"]
        by (auto simp: act_def ticked_def Let_def split: fault.splits)
      show ?thesis
      proof (cases x)
        case (Inl e)
        with False u Iu show ?thesis by (simp add: delete_batches.simps [of env j n s] Let_def)
      next
        case (Inr y)
        from "1.IH" [OF refl False u [symmetric] Inr "1.prems"] False u Inr Iu
        show ?thesis by (simp add: delete_batches.simps [of env j n s] Let_def)
      qed
    qed
  qed
qed

lemma run_other_room: "j \<noteq> k \<Longrightarrow> spares line k M (archive_room_history env locked j job)"
proof -
  assume j: "j \<noteq> k"
  have steps: "spares line k M (archive_steps env r)" if "arc_room r = j" for r
  proof -
    have upload: "spares line k M (upload_messages_file env q)" if "arc_room q = j" for q
      unfolding upload_messages_file_def save_status_def that
      by (intro archive_order.keeps_structure spares_iter spares_store spares_update j) (simp_all add: that)
    have "spares line k M (bnd (process_messages env r) (upload_messages_file env))"
    proof (rule keepsI, rule impI)
      fix s
      assume I: "archive_inv line k M s"
      let ?r1 = "r\<lparr>arc_status := PROCESSING_MESSAGES, arc_started_at := Some (ar_now env)\<rparr>"
      have "spares line k M (andthen (act env (update_row (arc_room r) (\<lambda>x. x\<lparr>arc_status := arc_status ?r1,
          arc_started_at := arc_started_at ?r1\<rparr>))) (upload_messages_file env ?r1))"
        by (intro archive_order.keeps_structure upload spares_update) (simp_all add: that j)
      then show "archive_inv line k M (snd (bnd (process_messages env r) (upload_messages_file env) s))"
        using I by (simp add: process_messages_def Let_def andthen_def bnd_assoc keeps_def)
    qed
    note upload_all = archive_order.keeps_when [OF this]
    show ?thesis
      unfolding archive_steps_def save_status_def delete_room_messages_def that sequence.simps
      by (rule archive_order.keeps_andthen [OF upload_all], intro archive_order.keeps_structure spares_update
        spares_refresh spares_delete_batches j) simp_all
  qed
  let ?rest = "\<lambda>claim. case claim of None \<Rightarrow> ret None
     | Some r \<Rightarrow> if arc_status r = FINISHED then ret (Some r)
         else andthen (except_exception (archive_steps env r) (register_error env r))
                (bnd (refresh j) (\<lambda>r. ret (Some r)))"
  have rest: "spares line k M (?rest claim)" if "\<And>r. claim = Some r \<Longrightarrow> arc_room r = j" for claim
    using that j
    by (cases claim) (auto simp: except_exception_def register_error_def
      intro!: archive_order.keeps_structure steps spares_refresh spares_update j)
  show ?thesis
  proof (rule keepsI, rule impI)
    fix s
    assume I: "archive_inv line k M s"
    obtain x t where claim: "claim_room_for_archive env locked j job s = (x, t)" by fastforce
    with keepsD [OF spares_claim [OF j] claim] I have It: "archive_inv line k M t" by blast
    show "archive_inv line k M (snd (archive_room_history env locked j job s))"
    proof (cases x)
      case (Inl e)
      with claim It show ?thesis by (simp add: archive_room_history_def bnd_def)
    next
      case (Inr c)
      have "spares line k M (?rest c)"
        using rest claimed_room [OF claim [unfolded Inr]] by blast
      with claim It Inr show ?thesis by (simp add: archive_room_history_def bnd_def keeps_def)
    qed
  qed
qed

lemma spares_schedule:
  "spares line k M (start_archive_rooms_messages env table old_limit projects max_rooms use_batches batch_size job)"
proof -
  have job: "spares line k M (start_archive_job env job)"
    unfolding start_archive_job_def
    by (rule spares_act) (auto simp: archive_inv_def find_row_def intact_def row_ok_def split: option.splits)
  have "spares line k M (create_pending_records env table room_uuids job)" for room_uuids
  proof (cases "room_uuids = []")
    case True
    then show ?thesis by (simp add: create_pending_records_def archive_order.keeps_ret)
  next
    case False
    let ?g = "\<lambda>c. if arc_room c \<in> set room_uuids \<and> arc_status c \<noteq> FINISHED then c\<lparr>arc_job := job\<rparr> else c"
    have found: "find (\<lambda>r. arc_room r = k) (update_where (\<lambda>c. arc_room c \<in> set room_uuids \<and> arc_status c \<noteq> FINISHED)
        (\<lambda>c. c\<lparr>arc_job := job\<rparr>) rs) = map_option ?g (find (\<lambda>r. arc_room r = k) rs)" for rs
      by (induction rs) auto
    have none: "find (\<lambda>r. arc_room r = k) (map (\<lambda>u. new_conversation u job) us) =
        (if k \<in> set us then Some (new_conversation k job) else None)" for us
      by (induction us) (auto simp: new_conversation_def)
    show ?thesis
      unfolding create_pending_records_def if_not_P [OF False] Let_def
    proof (rule spares_act)
      fix s
      assume I: "archive_inv line k M s"
      let ?s1 = "s\<lparr>ar_rows := update_where (\<lambda>c. arc_room c \<in> set room_uuids \<and> arc_status c \<noteq> FINISHED)
          (\<lambda>c. c\<lparr>arc_job := job\<rparr>) (ar_rows s)\<rparr>"
      let ?new = "filter (\<lambda>u. u \<in> set room_uuids \<and> find_row ?s1 u = None) (map or_uuid table)"
      have row: "find_row (?s1\<lparr>ar_rows := ar_rows ?s1 @ map (\<lambda>u. new_conversation u job) ?new\<rparr>) k =
          (case find_row s k of None \<Rightarrow> if k \<in> set ?new then Some (new_conversation k job) else None
           | Some r \<Rightarrow> Some (?g r))"
        by (simp add: find_row_def find_append found none del: set_filter split: option.split)
      show "archive_inv line k M (?s1\<lparr>ar_rows := ar_rows ?s1 @ map (\<lambda>u. new_conversation u job) ?new\<rparr>)"
        using I unfolding archive_inv_def row
        by (cases "find_row s k") (auto simp: intact_def row_ok_def uploaded_def new_conversation_def split: if_splits)
    qed
  qed
  then show ?thesis
    unfolding start_archive_rooms_messages_def by (intro archive_order.keeps_structure job)
qed

section \<open>Properties\<close>

text \<open>Every sequence of scheduled jobs and runs, each with its own faults, for any rooms.\<close>

inductive archive_reach :: "(archive_message \<Rightarrow> json) \<Rightarrow> archive_state \<Rightarrow> archive_state \<Rightarrow> bool" for line s0 where
  reach_start: "archive_reach line s0 s0"
| reach_run: "archive_reach line s0 s \<Longrightarrow> 0 < ar_page_size env \<Longrightarrow> ar_line env = line \<Longrightarrow>
    archive_reach line s0 (snd (archive_room_history env locked room job s))"
| reach_schedule: "archive_reach line s0 s \<Longrightarrow>
    archive_reach line s0 (snd (start_archive_rooms_messages env table old_limit projects max_rooms use_batches batch_size job s))"

lemma archive_inv_reach: "archive_reach line s0 s \<Longrightarrow> archive_inv line k M s0 \<Longrightarrow> archive_inv line k M s"
proof (induction rule: archive_reach.induct)
  case reach_start
  then show ?case .
next
  case (reach_run s env locked room job)
  then show ?case
  proof (cases "room = k")
    case True
    with reach_run run_own_room [of env line k M locked job] show ?thesis unfolding ensures_def by blast
  next
    case False
    with reach_run run_other_room [of room k line M env locked job] show ?thesis unfolding keeps_def by blast
  qed
next
  case reach_schedule
  with spares_schedule show ?case unfolding keeps_def by blast
qed

definition archived_in_full :: "(archive_message \<Rightarrow> json) \<Rightarrow> archive_message list \<Rightarrow> archive_state \<Rightarrow> archived_conversation \<Rightarrow> bool" where
  "archived_in_full line ms s r \<longleftrightarrow>
     (\<exists>n. arc_file r = Some n \<and> map_of (ar_files s) n = Some (map line (order_messages ms)))"

text \<open>C15. No message is lost, as long as the runs of a room follow each other: in every sequence of jobs and
  runs, which fail, raise after they took effect or are killed at any commit, but of which the next of a room
  begins after the last has ended, the messages of a room are all in the database, or the file its row names
  holds every one of them in order. A finished row always names such a file. The room is closed, so no message
  joins it on the way, and a page has at least one message.\<close>

theorem no_message_lost:
  assumes "archive_reach line s0 s" and "find_row s0 k = None" and "ar_files s0 = []"
    and "distinct (map am_pk (ar_messages s0))" and "ms = room_messages k (ar_messages s0)"
  shows "(room_messages k (ar_messages s) = ms \<or> (\<exists>r. find_row s k = Some r \<and> archived_in_full line ms s r)) \<and>
    (\<forall>r. find_row s k = Some r \<longrightarrow> arc_status r = FINISHED \<longrightarrow> archived_in_full line ms s r)"
proof -
  have "archive_inv line k ms s0"
    using assms(2-5) by (simp add: archive_inv_def intact_def)
  from archive_inv_reach [OF assms(1) this] show ?thesis
    by (auto simp: archive_inv_def intact_def row_ok_def uploaded_def archive_lines_def archived_in_full_def
        split: option.splits)
qed

section \<open>A recorded deletion is true\<close>

text \<open>A row that says that the messages are deleted is right. \<open>b\<close> adds that they are deleted already.\<close>

definition deletion_recorded :: "archived_conversation \<Rightarrow> bool" where
  "deletion_recorded r \<longleftrightarrow> arc_status r \<in> {MESSAGES_DELETED_FROM_DB, FINISHED} \<or> arc_messages_deleted_at r \<noteq> None"

definition recorded_inv :: "bool \<Rightarrow> uuid \<Rightarrow> archive_state \<Rightarrow> bool" where
  "recorded_inv b k s \<longleftrightarrow> (b \<longrightarrow> room_messages k (ar_messages s) = []) \<and>
     (\<forall>r. find_row s k = Some r \<longrightarrow> deletion_recorded r \<longrightarrow> room_messages k (ar_messages s) = [])"

lemma recorded_inv_True: "recorded_inv True k s \<longleftrightarrow> room_messages k (ar_messages s) = []"
  by (auto simp: recorded_inv_def)

lemma ticked_recorded: "ticked s t \<Longrightarrow> recorded_inv b k t = recorded_inv b k s"
  by (simp add: ticked_def recorded_inv_def find_row_def)

interpretation recorded_order: step_order "\<lambda>s t. recorded_inv b k s \<longrightarrow> recorded_inv b k t" for b k
  by unfold_locales auto

abbreviation honest :: "bool \<Rightarrow> uuid \<Rightarrow> (archive_state, 'a) py \<Rightarrow> bool" where
  "honest b k \<equiv> keeps (\<lambda>s t. recorded_inv b k s \<longrightarrow> recorded_inv b k t)"

lemma honest_act: "(\<And>s. recorded_inv b k s \<Longrightarrow> recorded_inv b k (f s)) \<Longrightarrow> honest b k (act env f)"
  by (auto simp: keeps_def act_def recorded_inv_def find_row_def Let_def split: fault.split)

lemma honest_update:
  assumes "\<And>x. arc_room x = j \<Longrightarrow> arc_room (f x) = j"
    and "\<And>x. j = k \<Longrightarrow> deletion_recorded (f x) \<Longrightarrow> deletion_recorded x \<or> b"
  shows "honest b k (act env (update_row j f))"
  by (rule honest_act) (use find_row_update [of j f, OF assms(1)] assms(2) in
    \<open>auto simp: recorded_inv_def split: if_splits\<close>)

lemma honest_refresh: "honest b k (refresh j)"
  by (auto simp: keeps_def refresh_def split: option.split)

lemma honest_iter: "honest b k (iter_messages env j after)"
  using iter_messages_ticked ticked_recorded by (metis (no_types, lifting) keepsI prod.collapse)

lemma honest_store: "honest b k (store_file env j lines)"
proof (rule keepsI)
  fix s
  have "honest b k (bnd (act env (\<lambda>s. s\<lparr>ar_files := ar_files s @ [((j, length (ar_files s0)), lines)]\<rparr>)) (\<lambda>_. ret n))" for s0 n
    by (intro recorded_order.keeps_structure honest_act) (simp add: recorded_inv_def find_row_def)
  from this [of s "(j, length (ar_files s))"]
  show "recorded_inv b k s \<longrightarrow> recorded_inv b k (snd (store_file env j lines s))"
    unfolding keeps_def store_file_def Let_def by blast
qed

lemma honest_delete_messages: "recorded_inv b k s \<Longrightarrow> recorded_inv b k (delete_messages batch s)"
  by (auto simp: recorded_inv_def delete_messages_def find_row_def room_messages_def filter_empty_conv)

lemma honest_delete_batches: "honest b k (delete_batches env j n)"
proof (rule keepsI)
  fix s
  show "recorded_inv b k s \<longrightarrow> recorded_inv b k (snd (delete_batches env j n s))"
  proof (induction env j n s rule: delete_batches.induct)
    case (1 env j n s)
    let ?batch = "take n (room_messages j (ar_messages s))"
    show ?case
    proof (cases "?batch = []")
      case True
      then show ?thesis by (simp add: delete_batches.simps [of env j n s])
    next
      case False
      obtain x u where u: "act env (delete_messages ?batch) s = (x, u)" by fastforce
      have Iu: "recorded_inv b k s \<longrightarrow> recorded_inv b k u"
        using keepsD [OF honest_act [of b k "delete_messages ?batch", OF honest_delete_messages] u] by simp
      show ?thesis
      proof (cases x)
        case (Inl e)
        with False u Iu show ?thesis by (simp add: delete_batches.simps [of env j n s] Let_def)
      next
        case (Inr y)
        from "1.IH" [OF refl False u [symmetric] Inr] False u Inr Iu
        show ?thesis by (simp add: delete_batches.simps [of env j n s] Let_def)
      qed
    qed
  qed
qed

lemma delete_batches_empty:
  "0 < n \<Longrightarrow> delete_batches env k n s = (Inr x, t) \<Longrightarrow> room_messages k (ar_messages t) = []"
proof (induction env k n s rule: delete_batches.induct)
  case (1 env k n s)
  then show ?case
    by (cases "take n (room_messages k (ar_messages s)) = []")
      (auto simp: delete_batches.simps [of env k n s] Let_def split: prod.splits sum.splits)
qed

lemma recorded_upload_stage:
  assumes "arc_room r = k \<Longrightarrow> arc_messages_deleted_at r \<noteq> None \<Longrightarrow> b"
  shows "honest b k (when_true (needs_processing_and_upload r) (bnd (process_messages env r) (upload_messages_file env)))"
proof -
  let ?r1 = "r\<lparr>arc_status := PROCESSING_MESSAGES, arc_started_at := Some (ar_now env)\<rparr>"
  have upload: "honest b k (upload_messages_file env ?r1)"
    unfolding upload_messages_file_def save_status_def
    by (intro recorded_order.keeps_structure honest_iter honest_store honest_update)
      (use assms in \<open>auto simp: deletion_recorded_def\<close>)
  have "honest b k (andthen (act env (update_row (arc_room r) (\<lambda>x. x\<lparr>arc_status := arc_status ?r1,
      arc_started_at := arc_started_at ?r1\<rparr>))) (upload_messages_file env ?r1))"
    by (intro recorded_order.keeps_structure upload honest_update) (auto simp: deletion_recorded_def)
  moreover have "bnd (process_messages env r) (upload_messages_file env) =
      andthen (act env (update_row (arc_room r) (\<lambda>x. x\<lparr>arc_status := arc_status ?r1,
      arc_started_at := arc_started_at ?r1\<rparr>))) (upload_messages_file env ?r1)"
    by (rule ext) (simp add: process_messages_def Let_def andthen_def bnd_assoc)
  ultimately show ?thesis by (simp add: recorded_order.keeps_when)
qed

lemma ensures_honest: "honest b k m \<Longrightarrow> ensures (recorded_inv b k) P m (\<lambda>_ _. True)"
  by (auto simp: ensures_def keeps_def)

abbreviation emptied :: "uuid \<Rightarrow> archive_state \<Rightarrow> bool" where
  "emptied k s \<equiv> room_messages k (ar_messages s) = []"

lemma ensures_record:
  assumes "\<And>x. arc_room x = k \<Longrightarrow> arc_room (f x) = k"
  shows "ensures (recorded_inv b k) (emptied k) (act env (update_row k f)) (\<lambda>_. emptied k)"
  by (rule ensures_act) (auto simp: stable_def recorded_inv_def find_row_def)

lemma ensures_recorded_deletion:
  assumes "0 < n"
  shows "ensures (recorded_inv b k) (\<lambda>_. True) (delete_room_messages env k n) (\<lambda>_. emptied k)"
  unfolding delete_room_messages_def
proof (rule ensures_bnd, rule ensures_honest, rule honest_refresh)
  fix r
  have "ensures (recorded_inv b k) (\<lambda>_. True) (delete_batches env k n) (\<lambda>_. emptied k)"
    using honest_delete_batches [of b k env k n] delete_batches_empty [OF assms, of env k]
    unfolding ensures_def keeps_def by (metis prod.collapse)
  from ensures_andthen [OF this ensures_record]
  show "ensures (recorded_inv b k) (\<lambda>_. True)
      (if arc_status r \<noteq> MESSAGES_FILE_UPLOADED then raise (ValidationError ''not in messages file uploaded status'')
       else andthen (delete_batches env k n) (act env (update_row k (\<lambda>x. x\<lparr>arc_status := MESSAGES_DELETED_FROM_DB,
          arc_messages_deleted_at := Some (ar_now env)\<rparr>)))) (\<lambda>_. emptied k)"
    by (simp add: ensures_raise)
qed

lemma ensures_recorded_steps:
  assumes "arc_room r = k" and "arc_messages_deleted_at r \<noteq> None \<Longrightarrow> b"
  shows "ensures (recorded_inv b k) (\<lambda>_. True) (archive_steps env r) (\<lambda>_ _. True)"
proof -
  let ?I = "recorded_inv b k"
  let ?del = "\<lambda>r2. when_true (needs_message_deletion r2)
        (andthen (when_true (arc_status r2 \<noteq> MESSAGES_FILE_UPLOADED) (save_status env k MESSAGES_FILE_UPLOADED))
                 (delete_room_messages env k 1000))"
  have upload: "ensures ?I (\<lambda>_. True) (when_true (needs_processing_and_upload r)
      (bnd (process_messages env r) (upload_messages_file env))) (\<lambda>_ _. True)"
    by (intro ensures_honest recorded_upload_stage assms(2))
  have status: "ensures ?I P (when_true c (save_status env k MESSAGES_FILE_UPLOADED)) (\<lambda>_ _. True)" for c P
    unfolding save_status_def
    by (intro ensures_honest recorded_order.keeps_when honest_update) (auto simp: deletion_recorded_def)
  have refresh: "ensures ?I (\<lambda>_. True) (refresh k) (\<lambda>r2 s. needs_message_deletion r2 \<or> emptied k s)"
    by (rule ensuresI)
      (auto simp: refresh_def recorded_inv_def needs_message_deletion_def deletion_recorded_def split: option.splits)
  have "ensures ?I (\<lambda>s. needs_message_deletion r2 \<or> emptied k s) (?del r2) (\<lambda>_. emptied k)" for r2
    by (rule ensures_when, rule ensures_andthen, rule status, rule ensures_recorded_deletion) auto
  then have delete: "ensures ?I (\<lambda>_. True) (bnd (refresh k) ?del) (\<lambda>_. emptied k)"
    by (intro ensures_bnd [OF refresh])
  have "ensures ?I (emptied k) (refresh k) (\<lambda>_. emptied k)"
    by (rule ensuresI) (auto simp: refresh_def split: option.splits)
  then have finish: "ensures ?I (emptied k) (bnd (refresh k) (\<lambda>_. act env (update_row k
      (\<lambda>x. x\<lparr>arc_status := FINISHED, arc_finished_at := Some (ar_now env)\<rparr>)))) (\<lambda>_. emptied k)"
    by (rule ensures_bnd) (simp add: ensures_record)
  show ?thesis
    unfolding archive_steps_def assms(1) sequence.simps
    by (rule ensures_andthen, rule upload, rule ensures_andthen, rule delete, rule ensures_andthen, rule finish,
      rule ensures_ret) simp
qed

lemma recorded_own_rest:
  assumes "arc_room r = k" and "arc_messages_deleted_at r \<noteq> None \<Longrightarrow> b"
  shows "honest b k (andthen (except_exception (archive_steps env r) (register_error env r))
    (bnd (refresh k) (\<lambda>r. ret (Some r))))"
proof -
  have "ensures (recorded_inv b k) (\<lambda>_. True) (register_error env r e) (\<lambda>_ _. True)" for e
    unfolding register_error_def assms(1)
    by (rule ensures_honest, rule honest_update) (auto simp: deletion_recorded_def)
  from ensures_except [OF ensures_recorded_steps [OF assms] this]
  have "honest b k (except_exception (archive_steps env r) (register_error env r))"
    by (auto simp: ensures_def keeps_def)
  then show ?thesis by (intro recorded_order.keeps_structure honest_refresh)
qed

lemma recorded_other_rest:
  assumes "arc_room r \<noteq> k"
  shows "honest b k (andthen (except_exception (archive_steps env r) (register_error env r))
    (bnd (refresh j) (\<lambda>r. ret (Some r))))"
proof -
  have "honest b k (archive_steps env r)"
    unfolding archive_steps_def save_status_def delete_room_messages_def sequence.simps
    using assms by (intro recorded_order.keeps_andthen [OF recorded_upload_stage] recorded_order.keeps_structure
        honest_update honest_refresh honest_delete_batches) auto
  then show ?thesis
    unfolding except_exception_def register_error_def
    using assms by (intro recorded_order.keeps_structure honest_refresh honest_update) auto
qed

lemma honest_claim: "honest b k (claim_room_for_archive env locked j job)"
proof (rule keepsI)
  fix s
  have new: "honest b k (bnd (act env (\<lambda>s. s\<lparr>ar_rows := ar_rows s
      @ [(new_conversation j job)\<lparr>arc_started_at := Some (ar_now env)\<rparr>]\<rparr>)) (\<lambda>_. ret c))" for c :: "archived_conversation option"
    by (intro recorded_order.keeps_structure honest_act)
      (auto simp: recorded_inv_def find_row_def find_append new_conversation_def deletion_recorded_def
        split: option.splits if_splits)
  have old: "recorded_inv b k s \<longrightarrow> recorded_inv b k (snd (bnd (act env (update_row j (\<lambda>_. r'))) (\<lambda>_. ret c) s))"
    if r: "find_row s j = Some r" and r': "claimed env job r = Some r'" "arc_status r \<noteq> FINISHED"
    for r r' and c :: "archived_conversation option"
  proof -
    have eq: "r' = r\<lparr>arc_started_at := Some (ar_now env), arc_job := job\<rparr>"
      using r' by (simp add: claimed_def split: if_splits)
    have room: "arc_room r' = j" using find_row_room [OF r] by (simp add: eq)
    let ?t = "s\<lparr>ar_ticks := Suc (ar_ticks s)\<rparr>"
    have "recorded_inv b k s \<Longrightarrow> recorded_inv b k (update_row j (\<lambda>_. r') ?t)"
      using find_row_update [of j "\<lambda>_. r'" ?t] room r
      by (auto simp: recorded_inv_def eq deletion_recorded_def find_row_def split: if_splits)
    moreover have "recorded_inv b k ?t = recorded_inv b k s" by (rule ticked_recorded) (simp add: ticked_def)
    ultimately show ?thesis by (auto simp: bnd_def act_def ret_def Let_def split: fault.split)
  qed
  show "recorded_inv b k s \<longrightarrow> recorded_inv b k (snd (claim_room_for_archive env locked j job s))"
    using new old
    by (auto simp: claim_room_for_archive_def keeps_def Let_def split: option.split)
qed

lemma act_update_found:
  assumes "act env (update_row j (\<lambda>_. r)) s = (Inr x, t)" and "find_row s j \<noteq> None" and "arc_room r = j"
  shows "find_row t j = Some r"
proof -
  have "t = update_row j (\<lambda>_. r) (s\<lparr>ar_ticks := Suc (ar_ticks s)\<rparr>)"
    using assms(1) by (auto simp: act_def Let_def split: fault.splits)
  with find_row_update [of j "\<lambda>_. r" "s\<lparr>ar_ticks := Suc (ar_ticks s)\<rparr>" j] assms(2,3) show ?thesis
    by (auto simp: find_row_def)
qed

lemma claim_in_table:
  assumes "claim_room_for_archive env locked j job s = (Inr (Some r), t)"
  shows "find_row t j = Some r"
proof (cases "find_row s j")
  case None
  then show ?thesis
    using assms by (auto simp: claim_room_for_archive_def bnd_def ret_def act_def new_conversation_def find_row_def
      find_append Let_def split: fault.splits)
next
  case (Some q)
  note room = find_row_room [OF Some]
  show ?thesis
  proof (cases "arc_status q = FINISHED")
    case True
    with assms Some show ?thesis
      by (simp add: claim_room_for_archive_def claimed_def split: if_splits)
  next
    case False
    then have claimed: "claimed env job q = Some r" and
      run: "bnd (act env (update_row j (\<lambda>_. r))) (\<lambda>_. ret (Some r)) s = (Inr (Some r), t)"
      using assms Some by (auto simp: claim_room_for_archive_def bnd_def ret_def split: if_splits option.splits
        prod.splits sum.splits)
    have "arc_room r = j" using claimed room by (auto simp: claimed_def split: if_splits)
    moreover obtain y where "act env (update_row j (\<lambda>_. r)) s = (Inr y, t)"
      using run by (auto simp: bnd_def ret_def split: prod.splits sum.splits)
    ultimately show ?thesis using act_update_found Some by blast
  qed
qed

lemma recorded_run:
  assumes I: "recorded_inv False k s"
  shows "recorded_inv False k (snd (archive_room_history env locked j job s))"
proof -
  obtain x t where claim: "claim_room_for_archive env locked j job s = (x, t)" by fastforce
  have It: "recorded_inv False k t" using keepsD [OF honest_claim claim] I by blast
  let ?rest = "\<lambda>r. andthen (except_exception (archive_steps env r) (register_error env r))
                (bnd (refresh j) (\<lambda>r. ret (Some r)))"
  have "recorded_inv False k (snd (?rest r t))" if "x = Inr (Some r)" for r
  proof -
    have row: "find_row t j = Some r" using claim that claim_in_table by blast
    have room: "arc_room r = j" using find_row_room [OF row] .
    show ?thesis
    proof (cases "j = k")
      case False
      with room recorded_other_rest [of r k False env j] It show ?thesis by (simp add: keeps_def)
    next
      case True
      have "recorded_inv (arc_messages_deleted_at r \<noteq> None) k t"
        using It row True by (auto simp: recorded_inv_def deletion_recorded_def)
      with recorded_own_rest [of r k "arc_messages_deleted_at r \<noteq> None" env] room True
      have "recorded_inv (arc_messages_deleted_at r \<noteq> None) k (snd (?rest r t))" by (simp add: keeps_def)
      then show ?thesis by (simp add: recorded_inv_def)
    qed
  qed
  then show ?thesis
    using claim It by (cases x) (auto simp: archive_room_history_def bnd_def ret_def split: option.split)
qed

lemma recorded_schedule:
  "honest b k (start_archive_rooms_messages env table old_limit projects max_rooms use_batches batch_size job)"
proof -
  have job: "honest b k (start_archive_job env job)"
    unfolding start_archive_job_def by (rule honest_act) (simp add: recorded_inv_def find_row_def)
  have "honest b k (create_pending_records env table room_uuids job)" for room_uuids
  proof (cases "room_uuids = []")
    case True
    then show ?thesis by (simp add: create_pending_records_def recorded_order.keeps_ret)
  next
    case False
    let ?g = "\<lambda>c. if arc_room c \<in> set room_uuids \<and> arc_status c \<noteq> FINISHED then c\<lparr>arc_job := job\<rparr> else c"
    have found: "find (\<lambda>r. arc_room r = k) (update_where (\<lambda>c. arc_room c \<in> set room_uuids \<and> arc_status c \<noteq> FINISHED)
        (\<lambda>c. c\<lparr>arc_job := job\<rparr>) rs) = map_option ?g (find (\<lambda>r. arc_room r = k) rs)" for rs
      by (induction rs) auto
    have new: "find (\<lambda>r. arc_room r = k) (map (\<lambda>u. new_conversation u job) us) = Some r \<Longrightarrow> \<not> deletion_recorded r" for us r
      by (induction us) (auto simp: new_conversation_def deletion_recorded_def split: if_splits)
    have same: "deletion_recorded (?g c) = deletion_recorded c" for c by (simp add: deletion_recorded_def)
    show ?thesis
      unfolding create_pending_records_def if_not_P [OF False] Let_def
      by (rule honest_act)
        (auto simp: recorded_inv_def find_row_def find_append found same dest: new split: option.splits)
  qed
  then show ?thesis
    unfolding start_archive_rooms_messages_def by (intro recorded_order.keeps_structure job)
qed

lemma recorded_reach: "archive_reach line s0 s \<Longrightarrow> recorded_inv False k s0 \<Longrightarrow> recorded_inv False k s"
proof (induction rule: archive_reach.induct)
  case (reach_run s env locked room job)
  then show ?case by (simp add: recorded_run)
next
  case (reach_schedule s env table old_limit projects max_rooms use_batches batch_size job)
  then show ?case using recorded_schedule unfolding keeps_def by blast
qed

section \<open>A run that nothing disturbs\<close>

definition succeeds ::
  "(archive_state \<Rightarrow> bool) \<Rightarrow> (archive_state, 'a) py \<Rightarrow> ('a \<Rightarrow> archive_state \<Rightarrow> bool) \<Rightarrow> bool" where
  "succeeds P m Q \<longleftrightarrow> (\<forall>s. P s \<longrightarrow> (\<exists>x t. m s = (Inr x, t) \<and> Q x t))"

lemma succeeds_ret: "(\<And>s. P s \<Longrightarrow> Q x s) \<Longrightarrow> succeeds P (ret x) Q"
  by (simp add: succeeds_def ret_def)

lemma succeeds_bnd:
  assumes "succeeds P m R" and "\<And>x. succeeds (R x) (f x) Q"
  shows "succeeds P (bnd m f) Q"
  unfolding succeeds_def
proof (intro allI impI)
  fix s
  assume "P s"
  then obtain x t where m: "m s = (Inr x, t)" "R x t" using assms(1) unfolding succeeds_def by blast
  then obtain y u where "f x t = (Inr y, u)" "Q y u" using assms(2) unfolding succeeds_def by blast
  with m show "\<exists>y u. bnd m f s = (Inr y, u) \<and> Q y u" by (simp add: bnd_def)
qed

lemma succeeds_andthen: "succeeds P m R \<Longrightarrow> (\<And>x. succeeds (R x) k Q) \<Longrightarrow> succeeds P (andthen m k) Q"
  unfolding andthen_def by (rule succeeds_bnd)

lemma succeeds_pure: "(b \<Longrightarrow> succeeds P m Q) \<Longrightarrow> succeeds (\<lambda>s. b \<and> P s) m Q"
  by (auto simp: succeeds_def)

lemma succeeds_conseq:
  "succeeds P m Q \<Longrightarrow> (\<And>s. P' s \<Longrightarrow> P s) \<Longrightarrow> (\<And>x s. Q x s \<Longrightarrow> Q' x s) \<Longrightarrow> succeeds P' m Q'"
  unfolding succeeds_def by blast

text \<open>From here on nothing fails.\<close>

definition calm :: "archive_env \<Rightarrow> bool" where
  "calm env \<longleftrightarrow> ar_fault env = (\<lambda>_. Works)"

abbreviation row_is :: "uuid \<Rightarrow> archived_conversation \<Rightarrow> archive_state \<Rightarrow> bool" where
  "row_is k r \<equiv> \<lambda>s. find_row s k = Some r"

lemma calm_act: "calm env \<Longrightarrow> act env f s = (Inr (), f (s\<lparr>ar_ticks := Suc (ar_ticks s)\<rparr>))"
  by (simp add: calm_def act_def)

lemma succeeds_update:
  assumes "calm env" and "\<And>x. arc_room x = k \<Longrightarrow> arc_room (f x) = k"
  shows "succeeds (row_is k r) (act env (update_row k f)) (\<lambda>_. row_is k (f r))"
  using assms(1) find_row_update [of k f, OF assms(2)]
  by (auto simp: succeeds_def calm_act) (simp add: find_row_def)

lemma succeeds_refresh: "succeeds (row_is k r) (refresh k) (\<lambda>x s. x = r \<and> row_is k r s)"
  by (simp add: succeeds_def refresh_def)

lemma succeeds_iter:
  assumes "calm env"
  shows "succeeds (row_is k r) (iter_messages env j after) (\<lambda>_. row_is k r)"
proof -
  have "\<exists>lines t. iter_messages env j after s = (Inr lines, t)" for s
    using assms
  proof (induction env j after s rule: iter_messages.induct)
    case (1 env j after s)
    show ?case
    proof (cases "page_of env j after s = []")
      case True
      then show ?thesis by (simp add: iter_messages.simps [of env j after s])
    next
      case False
      from calm_act [OF "1.prems", of id s] have u: "act env id s = (Inr (), s\<lparr>ar_ticks := Suc (ar_ticks s)\<rparr>)" by simp
      from "1.IH" [OF refl False u [symmetric] refl "1.prems"] False u show ?thesis
        by (auto simp: iter_messages.simps [of env j after s] Let_def)
    qed
  qed
  then show ?thesis
    using iter_messages_ticked unfolding succeeds_def ticked_def find_row_def by metis
qed

lemma succeeds_delete_batches:
  assumes "calm env" and "0 < n"
  shows "succeeds (row_is k r) (delete_batches env k n) (\<lambda>_ s. row_is k r s \<and> room_messages k (ar_messages s) = [])"
proof -
  have "\<exists>t. delete_batches env k n s = (Inr (), t) \<and> ar_rows t = ar_rows s \<and> room_messages k (ar_messages t) = []" for s
    using assms
  proof (induction env k n s rule: delete_batches.induct)
    case (1 env k n s)
    let ?batch = "take n (room_messages k (ar_messages s))"
    show ?case
    proof (cases "?batch = []")
      case True
      with "1.prems"(2) show ?thesis by (simp add: delete_batches.simps [of env k n s])
    next
      case False
      note u = calm_act [OF "1.prems"(1), of "delete_messages ?batch" s]
      from "1.IH" [OF refl False u [symmetric] refl "1.prems"] False u show ?thesis
        by (auto simp: delete_batches.simps [of env k n s] Let_def delete_messages_def)
    qed
  qed
  then show ?thesis unfolding succeeds_def find_row_def by metis
qed

text \<open>Rows whose messages are still to be deleted.\<close>

definition undeleted :: "archived_conversation \<Rightarrow> bool" where
  "undeleted r \<longleftrightarrow> arc_status r \<noteq> MESSAGES_DELETED_FROM_DB \<and> arc_messages_deleted_at r = None"

lemma succeeds_upload_stage:
  assumes "calm env" and "arc_room r = k"
  shows "succeeds (row_is k r) (when_true (needs_processing_and_upload r) (bnd (process_messages env r) (upload_messages_file env)))
    (\<lambda>_ s. \<exists>x. (undeleted r \<longrightarrow> undeleted x) \<and> row_is k x s)"
proof (cases "needs_processing_and_upload r")
  case False
  then show ?thesis by (auto intro: succeeds_ret)
next
  case True
  let ?r1 = "r\<lparr>arc_status := PROCESSING_MESSAGES, arc_started_at := Some (ar_now env)\<rparr>"
  let ?r2 = "\<lambda>name. ?r1\<lparr>arc_status := UPLOADING_MESSAGES_FILE, arc_file := Some name\<rparr>"
  have process: "succeeds (row_is k r) (process_messages env r) (\<lambda>x s. x = ?r1 \<and> row_is k ?r1 s)"
    unfolding process_messages_def Let_def assms(2)
    by (rule succeeds_andthen, rule succeeds_update [OF assms(1)]) (auto intro: succeeds_ret)
  have status: "succeeds (row_is k x) (save_status env k st) (\<lambda>_. row_is k (x\<lparr>arc_status := st\<rparr>))" for x st
    unfolding save_status_def by (rule succeeds_update [OF assms(1)]) simp
  have store: "succeeds (row_is k x) (store_file env k lines) (\<lambda>_. row_is k x)" for x lines
    using assms(1) by (auto simp: succeeds_def store_file_def calm_act bnd_def ret_def find_row_def Let_def)
  have saved: "succeeds (row_is k x) (act env (update_row k (\<lambda>_. ?r2 name))) (\<lambda>_. row_is k (?r2 name))" for x name
    by (rule succeeds_update [OF assms(1)]) (simp add: assms(2))
  have upload: "succeeds (row_is k ?r1) (upload_messages_file env ?r1)
      (\<lambda>_ s. \<exists>x. (undeleted r \<longrightarrow> undeleted x) \<and> row_is k x s)"
    unfolding upload_messages_file_def
    by (simp add: assms(2), rule succeeds_bnd, rule succeeds_iter [OF assms(1)], rule succeeds_andthen, rule status,
      rule succeeds_bnd, rule store, rule succeeds_andthen, simp, rule saved [simplified],
      rule succeeds_conseq [OF status]) (auto simp: undeleted_def)
  have "succeeds (row_is k r) (bnd (process_messages env r) (upload_messages_file env))
      (\<lambda>_ s. \<exists>x. (undeleted r \<longrightarrow> undeleted x) \<and> row_is k x s)"
    by (rule succeeds_bnd, rule process, rule succeeds_pure) (simp only: upload)
  with True show ?thesis by simp
qed

lemma succeeds_deletion:
  assumes "calm env" and "needs_message_deletion x" and "0 < n"
  shows "succeeds (row_is k x) (bnd (refresh k) (\<lambda>r2. when_true (needs_message_deletion r2)
        (andthen (when_true (arc_status r2 \<noteq> MESSAGES_FILE_UPLOADED) (save_status env k MESSAGES_FILE_UPLOADED))
                 (delete_room_messages env k n))))
    (\<lambda>_ s. room_messages k (ar_messages s) = [] \<and> (\<exists>x. row_is k x s))"
proof (rule succeeds_bnd, rule succeeds_refresh, rule succeeds_pure)
  fix r2
  assume r2: "r2 = x"
  let ?u = "x\<lparr>arc_status := MESSAGES_FILE_UPLOADED\<rparr>"
  have "succeeds (row_is k x) (when_true (arc_status x \<noteq> MESSAGES_FILE_UPLOADED) (save_status env k MESSAGES_FILE_UPLOADED))
      (\<lambda>_. row_is k ?u)"
  proof (cases "arc_status x = MESSAGES_FILE_UPLOADED")
    case True
    then have "?u = x" by (cases x) simp
    then show ?thesis unfolding True by (auto simp: succeeds_def ret_def)
  next
    case False
    then show ?thesis unfolding save_status_def by (simp add: succeeds_update [OF assms(1)])
  qed
  moreover have "succeeds (row_is k ?u) (delete_room_messages env k n)
      (\<lambda>_ s. room_messages k (ar_messages s) = [] \<and> (\<exists>x. row_is k x s))"
    unfolding delete_room_messages_def
  proof (rule succeeds_bnd, rule succeeds_refresh, rule succeeds_pure)
    fix r
    assume r: "r = ?u"
    let ?f = "\<lambda>x. x\<lparr>arc_status := MESSAGES_DELETED_FROM_DB, arc_messages_deleted_at := Some (ar_now env)\<rparr>"
    have del: "succeeds (\<lambda>s. row_is k ?u s \<and> room_messages k (ar_messages s) = []) (act env (update_row k ?f))
        (\<lambda>_ s. room_messages k (ar_messages s) = [] \<and> (\<exists>x. row_is k x s))"
      using find_row_update [of k ?f] assms(1) by (auto simp: succeeds_def calm_act find_row_def)
    show "succeeds (row_is k ?u)
        (if arc_status r \<noteq> MESSAGES_FILE_UPLOADED then raise (ValidationError ''not in messages file uploaded status'')
         else andthen (delete_batches env k n) (act env (update_row k ?f)))
        (\<lambda>_ s. room_messages k (ar_messages s) = [] \<and> (\<exists>x. row_is k x s))"
      unfolding r by (simp, rule succeeds_andthen, rule succeeds_delete_batches [OF assms(1,3)], simp add: del [simplified])
  qed
  ultimately show "succeeds (row_is k x) (when_true (needs_message_deletion r2)
        (andthen (when_true (arc_status r2 \<noteq> MESSAGES_FILE_UPLOADED) (save_status env k MESSAGES_FILE_UPLOADED))
                 (delete_room_messages env k n)))
    (\<lambda>_ s. room_messages k (ar_messages s) = [] \<and> (\<exists>x. row_is k x s))"
    using assms(2) by (simp add: r2) (rule succeeds_andthen)
qed

lemma succeeds_delete_stage:
  assumes "calm env" and "0 < n"
  shows "succeeds (\<lambda>s. \<exists>x. row_is k x s \<and> (undeleted x \<or> room_messages k (ar_messages s) = []))
    (bnd (refresh k) (\<lambda>r2. when_true (needs_message_deletion r2)
        (andthen (when_true (arc_status r2 \<noteq> MESSAGES_FILE_UPLOADED) (save_status env k MESSAGES_FILE_UPLOADED))
                 (delete_room_messages env k n))))
    (\<lambda>_ s. room_messages k (ar_messages s) = [] \<and> (\<exists>x. row_is k x s))"
    (is "succeeds ?P ?m ?Q")
  unfolding succeeds_def
proof (intro allI impI)
  fix s
  assume "?P s"
  then obtain x where x: "row_is k x s" "undeleted x \<or> room_messages k (ar_messages s) = []" by blast
  show "\<exists>y t. ?m s = (Inr y, t) \<and> ?Q y t"
  proof (cases "needs_message_deletion x")
    case True
    from succeeds_deletion [OF assms(1) this assms(2)] x(1) show ?thesis unfolding succeeds_def by blast
  next
    case False
    then have "\<not> undeleted x" by (auto simp: undeleted_def needs_message_deletion_def)
    with x False show ?thesis by (auto simp: bnd_def refresh_def ret_def)
  qed
qed

lemma succeeds_finish_stage:
  assumes "calm env"
  shows "succeeds (\<lambda>s. room_messages k (ar_messages s) = [] \<and> (\<exists>x. row_is k x s))
    (bnd (refresh k) (\<lambda>_. act env (update_row k (\<lambda>x. x\<lparr>arc_status := FINISHED, arc_finished_at := Some (ar_now env)\<rparr>))))
    (\<lambda>_ s. room_messages k (ar_messages s) = [] \<and> (\<exists>x. arc_status x = FINISHED \<and> row_is k x s))"
  using find_row_update [of k "\<lambda>x. x\<lparr>arc_status := FINISHED, arc_finished_at := Some (ar_now env)\<rparr>"] assms
  by (auto simp: succeeds_def bnd_def refresh_def calm_act find_row_def)

lemma succeeds_keeping:
  assumes "succeeds P m Q" and "keeps (\<lambda>s t. G s \<longrightarrow> G t) m"
  shows "succeeds (\<lambda>s. P s \<and> G s) m (\<lambda>x s. Q x s \<and> G s)"
  using assms unfolding succeeds_def keeps_def by (metis snd_conv)

lemma succeeds_archive_steps:
  assumes "calm env" and "arc_room r = k"
  shows "succeeds (\<lambda>s. row_is k r s \<and> (undeleted r \<or> room_messages k (ar_messages s) = [])) (archive_steps env r)
    (\<lambda>_ s. room_messages k (ar_messages s) = [] \<and> (\<exists>x. arc_status x = FINISHED \<and> row_is k x s))"
proof -
  let ?up = "when_true (needs_processing_and_upload r) (bnd (process_messages env r) (upload_messages_file env))"
  let ?mid = "\<lambda>s. \<exists>x. row_is k x s \<and> (undeleted x \<or> room_messages k (ar_messages s) = [])"
  have up: "succeeds (\<lambda>s. row_is k r s \<and> (undeleted r \<or> room_messages k (ar_messages s) = [])) ?up (\<lambda>_. ?mid)"
  proof (cases "undeleted r")
    case True
    then show ?thesis by (intro succeeds_conseq [OF succeeds_upload_stage [OF assms]]) auto
  next
    case False
    have "keeps (\<lambda>s t. room_messages k (ar_messages s) = [] \<longrightarrow> room_messages k (ar_messages t) = []) ?up"
      using recorded_upload_stage [where r = r and b = True and k = k and env = env] by (simp add: recorded_inv_True)
    from succeeds_keeping [OF succeeds_upload_stage [OF assms] this] False show ?thesis
      by (elim succeeds_conseq) auto
  qed
  show ?thesis
    unfolding archive_steps_def assms(2) sequence.simps
    by (rule succeeds_andthen, rule up, rule succeeds_andthen, rule succeeds_delete_stage [OF assms(1) zero_less_numeral],
      rule succeeds_andthen, rule succeeds_finish_stage [OF assms(1)], rule succeeds_ret)
qed

definition unclaimed :: "archive_env \<Rightarrow> uuid \<Rightarrow> archive_state \<Rightarrow> bool" where
  "unclaimed env k s \<longleftrightarrow> (\<forall>r. find_row s k = Some r \<longrightarrow> \<not> is_actively_processed env r)"

lemma succeeds_claim:
  assumes "calm env"
  shows "succeeds (\<lambda>s. unclaimed env k s \<and> recorded_inv False k s) (claim_room_for_archive env False k job)
    (\<lambda>c s. \<exists>r. c = Some r \<and> arc_room r = k \<and> row_is k r s \<and> (undeleted r \<or> room_messages k (ar_messages s) = []) \<and>
       (arc_status r = FINISHED \<longrightarrow> room_messages k (ar_messages s) = []))"
  unfolding succeeds_def
proof (intro allI impI, elim conjE)
  fix s
  assume s: "unclaimed env k s" "recorded_inv False k s"
  show "\<exists>x t. claim_room_for_archive env False k job s = (Inr x, t) \<and>
      (\<exists>r. x = Some r \<and> arc_room r = k \<and> row_is k r t \<and> (undeleted r \<or> room_messages k (ar_messages t) = []) \<and>
       (arc_status r = FINISHED \<longrightarrow> room_messages k (ar_messages t) = []))"
  proof (cases "find_row s k")
    case None
    then show ?thesis
      using assms by (auto simp: claim_room_for_archive_def calm_act bnd_def ret_def new_conversation_def undeleted_def
        find_row_def find_append Let_def)
  next
    case (Some r)
    note room = find_row_room [OF Some]
    have rec: "deletion_recorded r \<Longrightarrow> room_messages k (ar_messages s) = []"
      using s(2) Some by (simp add: recorded_inv_def)
    show ?thesis
    proof (cases "arc_status r = FINISHED")
      case True
      with rec have "room_messages k (ar_messages s) = []" by (simp add: deletion_recorded_def)
      with True Some room show ?thesis by (auto simp: claim_room_for_archive_def claimed_def)
    next
      case False
      let ?r = "r\<lparr>arc_started_at := Some (ar_now env), arc_job := job\<rparr>"
      let ?t = "update_row k (\<lambda>_. ?r) (s\<lparr>ar_ticks := Suc (ar_ticks s)\<rparr>)"
      have "find_row (update_row k (\<lambda>_. ?r) s) k = Some ?r"
        using find_row_update [of k "\<lambda>_. ?r" s k] room Some by simp
      then have row: "find_row ?t k = Some ?r"
        by (simp add: find_row_def update_row_def)
      have "claim_room_for_archive env False k job s = (Inr (Some ?r), ?t)"
        using s(1) Some False assms by (simp add: unclaimed_def claim_room_for_archive_def claimed_def calm_act bnd_def ret_def)
      moreover have "undeleted ?r \<or> room_messages k (ar_messages ?t) = []"
        using rec by (cases "deletion_recorded r") (auto simp: undeleted_def deletion_recorded_def)
      ultimately show ?thesis using row room False by auto
    qed
  qed
qed

lemma succeeds_except: "succeeds P m Q \<Longrightarrow> succeeds P (except_exception m h) Q"
  by (auto simp: succeeds_def except_exception_def try_except_def)

lemma succeeds_run:
  assumes "calm env"
  shows "succeeds (\<lambda>s. unclaimed env k s \<and> recorded_inv False k s) (archive_room_history env False k job)
    (\<lambda>c t. \<exists>r. c = Some r \<and> arc_status r = FINISHED \<and> find_row t k = Some r \<and> room_messages k (ar_messages t) = [])"
  unfolding archive_room_history_def
proof (rule succeeds_bnd, rule succeeds_claim [OF assms])
  fix c
  let ?rest = "case c of None \<Rightarrow> ret None
     | Some r \<Rightarrow> if arc_status r = FINISHED then ret (Some r)
         else andthen (except_exception (archive_steps env r) (register_error env r)) (bnd (refresh k) (\<lambda>r. ret (Some r)))"
  show "succeeds (\<lambda>s. \<exists>r. c = Some r \<and> arc_room r = k \<and> row_is k r s \<and> (undeleted r \<or> room_messages k (ar_messages s) = []) \<and>
         (arc_status r = FINISHED \<longrightarrow> room_messages k (ar_messages s) = [])) ?rest
      (\<lambda>c t. \<exists>r. c = Some r \<and> arc_status r = FINISHED \<and> find_row t k = Some r \<and> room_messages k (ar_messages t) = [])"
    unfolding succeeds_def
  proof (intro allI impI, elim exE conjE)
    fix s r
    assume r: "c = Some r" "arc_room r = k" "row_is k r s" "undeleted r \<or> room_messages k (ar_messages s) = []"
      "arc_status r = FINISHED \<longrightarrow> room_messages k (ar_messages s) = []"
    show "\<exists>x t. ?rest s = (Inr x, t) \<and>
        (\<exists>r. x = Some r \<and> arc_status r = FINISHED \<and> find_row t k = Some r \<and> room_messages k (ar_messages t) = [])"
    proof (cases "arc_status r = FINISHED")
      case True
      with r show ?thesis by (auto simp: ret_def)
    next
      case False
      from succeeds_except [OF succeeds_archive_steps [OF assms r(2)]] r(3,4)
      obtain x t y where "except_exception (archive_steps env r) (register_error env r) s = (Inr x, t)"
        "room_messages k (ar_messages t) = []" "arc_status y = FINISHED" "find_row t k = Some y"
        unfolding succeeds_def by blast
      with r(1) False show ?thesis by (auto simp: andthen_def bnd_def refresh_def ret_def)
    qed
  qed
qed

text \<open>C16. A run that nothing disturbs completes, whatever happened before: after any sequence of jobs and runs
  one after the other, wherever they stopped, a run that finds no other worker holding the row (there is none,
  or its soft lock has expired) returns the row, it is finished, and none of the room's messages is left in the
  table.\<close>

theorem archive_completes:
  assumes "archive_reach line s0 s" and "find_row s0 room = None" and "calm env"
    and "\<forall>r. find_row s room = Some r \<longrightarrow> \<not> is_actively_processed env r"
  shows "\<exists>r t. archive_room_history env False room job s = (Inr (Some r), t) \<and> arc_status r = FINISHED \<and>
    find_row t room = Some r \<and> room_messages room (ar_messages t) = []"
proof -
  have "recorded_inv False room s0" using assms(2) by (simp add: recorded_inv_def)
  then have "recorded_inv False room s" by (rule recorded_reach [OF assms(1)])
  with succeeds_run [OF assms(3), of room job] assms(4) show ?thesis
    unfolding succeeds_def unclaimed_def by blast
qed

section \<open>Who may work on a room\<close>

lemma actE: "act env f s = (Inr x, t) \<Longrightarrow> t = f (s\<lparr>ar_ticks := Suc (ar_ticks s)\<rparr>)"
  by (auto simp: act_def Let_def split: fault.splits)

lemma claim_row:
  assumes "claim_room_for_archive env locked k job s = (Inr (Some r), t)" and "arc_status r \<noteq> FINISHED"
  shows "find_row t k = Some r \<and> arc_started_at r = Some (ar_now env)"
proof (cases "find_row s k")
  case None
  let ?r = "(new_conversation k job)\<lparr>arc_started_at := Some (ar_now env)\<rparr>"
  have "r = ?r" and t: "t = (s\<lparr>ar_ticks := Suc (ar_ticks s)\<rparr>)\<lparr>ar_rows := ar_rows s @ [?r]\<rparr>"
    using assms(1) None
    by (auto simp: claim_room_for_archive_def Let_def bnd_def ret_def split: prod.splits sum.splits dest: actE)
  with None show ?thesis by (simp add: find_row_def find_append new_conversation_def)
next
  case (Some r0)
  have r: "r = r0\<lparr>arc_started_at := Some (ar_now env), arc_job := job\<rparr>"
    and t: "t = update_row k (\<lambda>_. r) (s\<lparr>ar_ticks := Suc (ar_ticks s)\<rparr>)"
    using assms Some
    by (auto simp: claim_room_for_archive_def claimed_def bnd_def ret_def split: prod.splits sum.splits if_splits dest: actE)
  have "find_row (s\<lparr>ar_ticks := Suc (ar_ticks s)\<rparr>) k = Some r0" using Some by (simp add: find_row_def)
  then show ?thesis
    unfolding t using find_row_update [of k "\<lambda>_. r" "s\<lparr>ar_ticks := Suc (ar_ticks s)\<rparr>" k] find_row_room [OF Some] r by simp
qed

text \<open>What a claim excludes. After a worker claimed a room, a second worker that asks within the timeout is
  turned away exactly when the claimed row had not failed before: the claim stamps its time but leaves the
  status \<open>FAILED\<close>, which is never taken for active, until the first worker gets to process the messages.\<close>

theorem claim_excludes_unless_failed:
  assumes "claim_room_for_archive env locked k job s = (Inr (Some r), t)" and "arc_status r \<noteq> FINISHED"
    and "ar_now later - ar_now env < ar_timeout later"
  shows "fst (claim_room_for_archive later False k job2 t) = Inr None \<longleftrightarrow> arc_status r \<noteq> FAILED"
  using claim_row [OF assms(1,2)] assms(2,3)
  by (auto simp: claim_room_for_archive_def claimed_def is_actively_processed_def bnd_def ret_def
      split: prod.splits sum.splits)

section \<open>When a room is scheduled\<close>

text \<open>A task expires at the next moment the clock shows the hour of the setting, less than a day away.\<close>

theorem archive_tasks_expire_within_a_day:
  assumes "0 \<le> max_hour" and "max_hour < hours 24"
  shows "now \<le> calculate_archive_task_expiration_dt max_hour now \<and>
    calculate_archive_task_expiration_dt max_hour now < now + hours 24 \<and>
    calculate_archive_task_expiration_dt max_hour now mod hours 24 = max_hour"
proof -
  have pos: "0 < hours 24" by (simp add: hours_def)
  have now: "now = now div hours 24 * hours 24 + now mod hours 24" by simp
  have m: "0 \<le> now mod hours 24" "now mod hours 24 < hours 24" using pos by simp_all
  have e: "calculate_archive_task_expiration_dt max_hour now =
      (if max_hour < now mod hours 24 then now - now mod hours 24 + max_hour + hours 24 else now - now mod hours 24 + max_hour)"
    unfolding calculate_archive_task_expiration_dt_def Let_def minus_mod_eq_div_mult [symmetric] by simp
  have "(now - now mod hours 24 + max_hour) mod hours 24 = max_hour"
    by (metis add.commute assms minus_mod_eq_mult_div mod_mult_self2 mod_pos_pos_trivial)
  then have "(now - now mod hours 24 + max_hour + hours 24) mod hours 24 = max_hour" by simp
  with \<open>(now - now mod hours 24 + max_hour) mod hours 24 = max_hour\<close> show ?thesis
    unfolding e by (cases "max_hour < now mod hours 24"; simp only: if_True if_False; use m assms in linarith)
qed

lemma find_row_pending:
  assumes "u \<in> set room_uuids" and "u \<in> set (map or_uuid table)" and "\<And>c. find_row s u = Some c \<Longrightarrow> arc_status c \<noteq> FINISHED"
    and run: "create_pending_records env table room_uuids job s = (Inr x, t)"
  shows "\<exists>c. find_row t u = Some c \<and> arc_job c = job"
proof -
  let ?hit = "\<lambda>c. arc_room c \<in> set room_uuids \<and> arc_status c \<noteq> FINISHED"
  let ?g = "\<lambda>c. if ?hit c then c\<lparr>arc_job := job\<rparr> else c"
  have found: "find (\<lambda>r. arc_room r = u) (update_where ?hit (\<lambda>c. c\<lparr>arc_job := job\<rparr>) rs) =
      map_option ?g (find (\<lambda>r. arc_room r = u) rs)" for rs
    by (induction rs) auto
  have made: "find (\<lambda>r. arc_room r = u) (map (\<lambda>u. new_conversation u job) us) =
      (if u \<in> set us then Some (new_conversation u job) else None)" for us
    by (induction us) (auto simp: new_conversation_def)
  from assms(1) run have t: "ar_rows t = update_where ?hit (\<lambda>c. c\<lparr>arc_job := job\<rparr>) (ar_rows s) @ map (\<lambda>u. new_conversation u job)
      (filter (\<lambda>v. v \<in> set room_uuids \<and> find_row (s\<lparr>ar_rows := update_where ?hit (\<lambda>c. c\<lparr>arc_job := job\<rparr>) (ar_rows s)\<rparr>) v = None)
        (map or_uuid table))"
    unfolding create_pending_records_def by (auto dest!: actE simp: Let_def find_row_def split: if_splits)
  show ?thesis
  proof (cases "find_row s u")
    case None
    then have "find_row t u = Some (new_conversation u job)"
      using assms(1,2) by (simp add: find_row_def t find_append found made)
    then show ?thesis by (simp add: new_conversation_def)
  next
    case (Some c)
    then have "find_row t u = Some (?g c)" by (simp add: find_row_def t find_append found)
    with assms(1) assms(3) [OF Some] find_row_room [OF Some] show ?thesis by simp
  qed
qed

lemma batches_members: "u \<in> set (concat (batches n xs)) \<Longrightarrow> u \<in> set xs"
  by (cases "n = 0") (simp_all add: concat_batches batches.simps [of 0] del: set_concat)

text \<open>A scheduled room rests for a day: the run of the scheduler points the row of every room it sends
  to its own job, so no later run within 24 hours finds the room due, whether or not a worker took it.\<close>

theorem scheduled_rooms_rest_a_day:
  assumes "start_archive_rooms_messages env table old_limit projects max_rooms use_batches batch_size job s = (Inr groups, t)"
    and "or_uuid r \<in> set (concat groups)" and "ar_now later \<le> ar_now env + hours 24"
  shows "\<not> room_due later limit2 projects2 t r"
proof -
  obtain s1 where s1: "start_archive_job env job s = (Inr (), s1)"
    and rest: "projects \<noteq> Some []"
      "andthen (create_pending_records env table (take max_rooms (map or_uuid (sort_key (\<lambda>r. the (or_ended_at r))
        (filter (room_due env old_limit projects s1) table)))) job) (ret (if use_batches then batches batch_size
          (take max_rooms (map or_uuid (sort_key (\<lambda>r. the (or_ended_at r)) (filter (room_due env old_limit projects s1) table))))
        else map (\<lambda>u. [u]) (take max_rooms (map or_uuid (sort_key (\<lambda>r. the (or_ended_at r)) (filter (room_due env old_limit projects s1) table)))))) s1
       = (Inr groups, t)"
    using assms(1,2)
    by (auto simp: start_archive_rooms_messages_def andthen_def bnd_def gets_def ret_def split: prod.splits sum.splits if_splits)
  let ?uuids = "take max_rooms (map or_uuid (sort_key (\<lambda>r. the (or_ended_at r)) (filter (room_due env old_limit projects s1) table)))"
  obtain y where pending: "create_pending_records env table ?uuids job s1 = (Inr y, t)"
    and groups: "groups = (if use_batches then batches batch_size ?uuids else map (\<lambda>u. [u]) ?uuids)"
    using rest(2) by (auto simp: andthen_def bnd_def ret_def split: prod.splits sum.splits)
  have u: "or_uuid r \<in> set ?uuids" using assms(2) batches_members unfolding groups by (cases use_batches) (simp_all del: set_concat add: concat_map_singleton)
  then obtain q where q: "q \<in> set table" "room_due env old_limit projects s1 q" "or_uuid q = or_uuid r"
    by (auto dest!: in_set_takeD)
  from q obtain c where c: "find_row t (or_uuid r) = Some c" "arc_job c = job"
  proof -
    have "or_uuid r \<in> set (map or_uuid table)" unfolding q(3) [symmetric] using q(1) by simp
    moreover have "arc_status c \<noteq> FINISHED" if "find_row s1 (or_uuid r) = Some c" for c
      using q(2,3) that by (simp add: room_due_def)
    ultimately show thesis using find_row_pending [OF u _ _ pending] that by blast
  qed
  have "ar_jobs s1 = (job, ar_now env) # ar_jobs s" using actE [OF s1 [unfolded start_archive_job_def]] by simp
  moreover have "ar_jobs t = ar_jobs s1"
    using pending unfolding create_pending_records_def
    by (auto simp: ret_def Let_def dest!: actE split: if_splits)
  ultimately show ?thesis using c assms(3) by (simp add: room_due_def job_started_def)
qed

section \<open>Witnesses\<close>

definition demo_env :: archive_env where
  "demo_env = \<lparr>ar_now = hours 1000, ar_page_size = 2, ar_timeout = hours 12, ar_line = \<lambda>m. JStr (am_text m),
     ar_fault = \<lambda>_. Works\<rparr>"

definition demo_state :: archive_state where
  "demo_state = \<lparr>ar_rows = [], ar_messages = [
     \<lparr>am_pk = 1, am_room = ''r7'', am_created_on = 20, am_text = ''b''\<rparr>,
     \<lparr>am_pk = 2, am_room = ''r8'', am_created_on = 15, am_text = ''x''\<rparr>,
     \<lparr>am_pk = 3, am_room = ''r7'', am_created_on = 10, am_text = ''a''\<rparr>,
     \<lparr>am_pk = 4, am_room = ''r7'', am_created_on = 20, am_text = ''c''\<rparr>],
     ar_files = [], ar_jobs = [], ar_ticks = 0\<rparr>"

text \<open>The upload of the first run stores its file and then raises; a second run finishes the room.\<close>

definition demo_failed :: archive_state where
  "demo_failed = snd (archive_room_history (demo_env\<lparr>ar_fault := \<lambda>n. if n = 5 then Fails_After TypeError else Works\<rparr>)
     False ''r7'' ''j1'' demo_state)"

definition demo_finished :: archive_state where
  "demo_finished = snd (archive_room_history demo_env False ''r7'' ''j2'' demo_failed)"

lemma demo_reach: "archive_reach (ar_line demo_env) demo_state demo_finished"
  unfolding demo_finished_def
  by (rule reach_run, unfold demo_failed_def, rule reach_run, rule reach_start) (simp_all add: demo_env_def)

lemma no_message_lost_witness:
  "(room_messages ''r7'' (ar_messages demo_finished) = room_messages ''r7'' (ar_messages demo_state) \<or>
    (\<exists>r. find_row demo_finished ''r7'' = Some r \<and>
      archived_in_full (ar_line demo_env) (room_messages ''r7'' (ar_messages demo_state)) demo_finished r)) \<and>
   map arc_status (ar_rows demo_failed) = [FAILED] \<and> map arc_status (ar_rows demo_finished) = [FINISHED] \<and>
   map am_pk (ar_messages demo_finished) = [2]"
proof (intro conjI)
  show "room_messages ''r7'' (ar_messages demo_finished) = room_messages ''r7'' (ar_messages demo_state) \<or>
    (\<exists>r. find_row demo_finished ''r7'' = Some r \<and>
      archived_in_full (ar_line demo_env) (room_messages ''r7'' (ar_messages demo_state)) demo_finished r)"
    using no_message_lost [OF demo_reach, of "''r7''"] by (simp add: demo_state_def find_row_def)
qed code_simp+

text \<open>A run that is killed after it recorded the deletion leaves a soft-locked row; half a day later the next run
  completes it.\<close>

definition demo_killed :: archive_state where
  "demo_killed = snd (archive_room_history (demo_env\<lparr>ar_fault := \<lambda>n. if n = 10 then Kills else Works\<rparr>)
     False ''r7'' ''j1'' demo_state)"

definition demo_later :: archive_env where
  "demo_later = demo_env\<lparr>ar_now := hours 1012\<rparr>"

lemma archive_completes_witness:
  "map arc_status (ar_rows demo_killed) = [MESSAGES_DELETED_FROM_DB] \<and>
   (\<exists>r t. archive_room_history demo_later False ''r7'' ''j2'' demo_killed = (Inr (Some r), t) \<and> arc_status r = FINISHED \<and>
    find_row t ''r7'' = Some r \<and> room_messages ''r7'' (ar_messages t) = [])"
proof (rule conjI)
  show "map arc_status (ar_rows demo_killed) = [MESSAGES_DELETED_FROM_DB]" by code_simp
  have "archive_reach (ar_line demo_env) demo_state demo_killed"
    unfolding demo_killed_def by (rule reach_run, rule reach_start) (simp_all add: demo_env_def)
  moreover have "find_row demo_state ''r7'' = None" by (simp add: demo_state_def find_row_def)
  moreover have "calm demo_later" by (simp add: demo_later_def demo_env_def calm_def)
  moreover have "list_all (\<lambda>r. \<not> is_actively_processed demo_later r) (ar_rows demo_killed)" by code_simp
  then have "\<forall>r. find_row demo_killed ''r7'' = Some r \<longrightarrow> \<not> is_actively_processed demo_later r"
    by (auto simp: find_row_def list_all_iff dest: find_in_set)
  ultimately show "\<exists>r t. archive_room_history demo_later False ''r7'' ''j2'' demo_killed = (Inr (Some r), t) \<and>
      arc_status r = FINISHED \<and> find_row t ''r7'' = Some r \<and> room_messages ''r7'' (ar_messages t) = []"
    by (rule archive_completes)
qed

text \<open>Two workers resume the failed row at the same moment: both claims succeed.\<close>

lemma claim_excludes_unless_failed_witness:
  "(\<exists>r t. claim_room_for_archive demo_env False ''r7'' ''j2'' demo_failed = (Inr (Some r), t) \<and>
     fst (claim_room_for_archive demo_env False ''r7'' ''j3'' t) \<noteq> Inr None) \<and>
   (\<exists>r t. claim_room_for_archive demo_env False ''r8'' ''j2'' demo_failed = (Inr (Some r), t) \<and>
     fst (claim_room_for_archive demo_env False ''r8'' ''j3'' t) = Inr None)"
proof -
  have claim: "fst (claim_room_for_archive demo_env False u ''j3'' t) = Inr None \<longleftrightarrow> arc_status r \<noteq> FAILED"
    if "claim_room_for_archive demo_env False u ''j2'' demo_failed = (Inr (Some r), t)" "arc_status r \<noteq> FINISHED"
    for u r t
    by (rule claim_excludes_unless_failed [OF that]) (simp add: demo_env_def hours_def)
  obtain r t where "claim_room_for_archive demo_env False ''r7'' ''j2'' demo_failed = (Inr (Some r), t)" "arc_status r = FAILED"
  proof -
    have "case claim_room_for_archive demo_env False ''r7'' ''j2'' demo_failed of
        (Inr (Some r), t) \<Rightarrow> arc_status r = FAILED | _ \<Rightarrow> False" by code_simp
    then show thesis using that by (auto split: prod.splits sum.splits option.splits)
  qed
  moreover obtain r' t' where "claim_room_for_archive demo_env False ''r8'' ''j2'' demo_failed = (Inr (Some r'), t')" "arc_status r' = PENDING"
  proof -
    have "case claim_room_for_archive demo_env False ''r8'' ''j2'' demo_failed of
        (Inr (Some r), t) \<Rightarrow> arc_status r = PENDING | _ \<Rightarrow> False" by code_simp
    then show thesis using that by (auto split: prod.splits sum.splits option.splits)
  qed
  ultimately show ?thesis using claim [of "''r7''" r t] claim [of "''r8''" r' t'] by auto
qed

lemma archive_tasks_expire_within_a_day_witness:
  "hours 30 \<le> calculate_archive_task_expiration_dt (hours 5) (hours 30) \<and>
   calculate_archive_task_expiration_dt (hours 5) (hours 30) < hours 30 + hours 24 \<and>
   calculate_archive_task_expiration_dt (hours 5) (hours 30) mod hours 24 = hours 5"
  by (rule archive_tasks_expire_within_a_day) (simp_all add: hours_def)

definition demo_room :: old_room where
  "demo_room = \<lparr>or_uuid = ''r7'', or_is_active = False, or_ended_at = Some 5, or_project = ''p''\<rparr>"

lemma scheduled_rooms_rest_a_day_witness:
  "room_due demo_env 100 None demo_failed demo_room \<and>
   \<not> room_due (demo_env\<lparr>ar_now := hours 1020\<rparr>) 100 None
     (snd (start_archive_rooms_messages demo_env [demo_room] 100 None 10 False 50 ''j9'' demo_failed)) demo_room"
proof
  show "room_due demo_env 100 None demo_failed demo_room" by code_simp
  have "case fst (start_archive_rooms_messages demo_env [demo_room] 100 None 10 False 50 ''j9'' demo_failed) of
      Inl _ \<Rightarrow> False | Inr groups \<Rightarrow> groups = [[''r7'']]" by code_simp
  then obtain t where run: "start_archive_rooms_messages demo_env [demo_room] 100 None 10 False 50 ''j9'' demo_failed
      = (Inr [[''r7'']], t)" by (cases "start_archive_rooms_messages demo_env [demo_room] 100 None 10 False 50 ''j9'' demo_failed")
        (auto split: sum.splits)
  show "\<not> room_due (demo_env\<lparr>ar_now := hours 1020\<rparr>) 100 None
     (snd (start_archive_rooms_messages demo_env [demo_room] 100 None 10 False 50 ''j9'' demo_failed)) demo_room"
    unfolding run snd_conv by (rule scheduled_rooms_rest_a_day [OF run]) (simp_all add: demo_room_def demo_env_def hours_def)
qed

end
