(* ===== verification/Calendar.thy ===== *)
theory Calendar
  imports Chats_Prelude
begin

text \<open>
  \<open>datetime.date\<close> and \<open>datetime.time\<close> as far as the models of the sectors and the metrics use them:
  comparison of dates, the next day, the ordinal number and the weekday of a date, ISO text, and times of
  day in microseconds. The order is the one Python uses, on year, month and day; for valid dates it is
  the order of the ordinal numbers, which makes loops from day to day end.
\<close>

datatype date = Date (dt_year: nat) (dt_month: nat) (dt_day: nat)

instantiation date :: linorder
begin

definition less_eq_date :: "date \<Rightarrow> date \<Rightarrow> bool" where
  "less_eq_date a b \<longleftrightarrow> dt_year a < dt_year b \<or> dt_year a = dt_year b \<and>
     (dt_month a < dt_month b \<or> dt_month a = dt_month b \<and> dt_day a \<le> dt_day b)"

definition less_date :: "date \<Rightarrow> date \<Rightarrow> bool" where
  "less_date a b \<longleftrightarrow> dt_year a < dt_year b \<or> dt_year a = dt_year b \<and>
     (dt_month a < dt_month b \<or> dt_month a = dt_month b \<and> dt_day a < dt_day b)"

instance
  by standard (auto simp: less_eq_date_def less_date_def intro: date.expand)

end

definition leap :: "nat \<Rightarrow> bool" where
  "leap y \<longleftrightarrow> y mod 4 = 0 \<and> (y mod 100 \<noteq> 0 \<or> y mod 400 = 0)"

definition days_in_month :: "nat \<Rightarrow> nat \<Rightarrow> nat" where
  "days_in_month y m = (if m = 2 then (if leap y then 29 else 28) else if m \<in> {4, 6, 9, 11} then 30 else 31)"

definition valid_date :: "date \<Rightarrow> bool" where
  "valid_date d \<longleftrightarrow> 1 \<le> dt_year d \<and> 1 \<le> dt_month d \<and> dt_month d \<le> 12 \<and> 1 \<le> dt_day d \<and>
     dt_day d \<le> days_in_month (dt_year d) (dt_month d)"

definition days_before_year :: "nat \<Rightarrow> nat" where
  "days_before_year y = (let n = y - 1 in 365 * n + n div 4 - n div 100 + n div 400)"

definition days_before_month :: "nat \<Rightarrow> nat \<Rightarrow> nat" where
  "days_before_month y m = sum_list (map (days_in_month y) [1..<m])"

definition toordinal :: "date \<Rightarrow> nat" where
  "toordinal d = days_before_year (dt_year d) + days_before_month (dt_year d) (dt_month d) + dt_day d"

definition isoweekday :: "date \<Rightarrow> nat" where
  "isoweekday d = (if toordinal d mod 7 = 0 then 7 else toordinal d mod 7)"

text \<open>\<open>d + timedelta(days=1)\<close>, short of the end of the calendar.\<close>

definition next_day :: "date \<Rightarrow> date" where
  "next_day d = (if dt_day d < days_in_month (dt_year d) (dt_month d)
     then Date (dt_year d) (dt_month d) (dt_day d + 1)
     else if dt_month d < 12 then Date (dt_year d) (dt_month d + 1) 1
     else Date (dt_year d + 1) 1 1)"

text \<open>\<open>strftime\<close> with \<open>%m-%d\<close> and with \<open>%Y-%m-%d\<close>, which is \<open>isoformat()\<close> as well.\<close>

definition digit :: "nat \<Rightarrow> char" where
  "digit n = char_of (48 + n mod 10)"

definition pad2 :: "nat \<Rightarrow> string" where
  "pad2 n = [digit (n div 10), digit n]"

definition month_day :: "date \<Rightarrow> string" where
  "month_day d = pad2 (dt_month d) @ ''-'' @ pad2 (dt_day d)"

definition isoformat :: "date \<Rightarrow> string" where
  "isoformat d = pad2 (dt_year d div 100) @ pad2 (dt_year d) @ ''-'' @ month_day d"

text \<open>Times of day in microseconds, and \<open>strftime("%H:%M")\<close>.\<close>

definition minute :: int where
  "minute = 60000000"

definition hhmm :: "int \<Rightarrow> string" where
  "hhmm t = pad2 (nat (t div (60 * minute))) @ '':'' @ pad2 (nat (t div minute mod 60))"

section \<open>The ordinal number\<close>

lemma days_in_month_pos: "0 < days_in_month y m"
  by (simp add: days_in_month_def)

lemma days_before_month_Suc: "1 \<le> m \<Longrightarrow> days_before_month y (Suc m) = days_before_month y m + days_in_month y m"
  by (simp add: days_before_month_def)

lemma days_before_month_1: "days_before_month y 1 = 0"
  by (simp add: days_before_month_def)

lemma days_in_year: "days_before_month y 12 + 31 = (if leap y then 366 else 365)"
  by (simp add: days_before_month_def days_in_month_def upt_rec)

lemma days_before_year_Suc:
  assumes "1 \<le> y"
  shows "days_before_year (Suc y) = days_before_year y + (if leap y then 366 else 365)"
proof -
  obtain n where y: "y = Suc n" using assms by (cases y) auto
  have four: "Suc n div 4 = n div 4 + (if Suc n mod 4 = 0 then 1 else 0)" by (simp add: div_Suc)
  have hundred: "Suc n div 100 = n div 100 + (if Suc n mod 100 = 0 then 1 else 0)" by (simp add: div_Suc)
  have fourhundred: "Suc n div 400 = n div 400 + (if Suc n mod 400 = 0 then 1 else 0)" by (simp add: div_Suc)
  let ?x = "if Suc n mod 4 = 0 then 1 else 0 :: nat" and ?z = "if Suc n mod 100 = 0 then 1 else 0 :: nat"
    and ?w = "if Suc n mod 400 = 0 then 1 else 0 :: nat"
  have split: "365 * Suc n + (a + x) - (b + z) + (c + w) = 365 * n + a - b + c + (365 + x - z + w)"
    if "b \<le> 365 * n + a" "z \<le> x" for a b c x z w :: nat using that unfolding mult_Suc_right by linarith
  have "n div 100 \<le> n" by (rule div_le_dividend)
  then have "n div 100 \<le> 365 * n + n div 4" by linarith
  moreover have sub: "Suc n mod 400 = 0 \<Longrightarrow> Suc n mod 100 = 0" "Suc n mod 100 = 0 \<Longrightarrow> Suc n mod 4 = 0"
    using dvd_trans [of 100 400 "Suc n"] dvd_trans [of 4 100 "Suc n"] by (simp_all only: mod_eq_0_iff_dvd) auto
  then have "?z \<le> ?x" by (simp only: split: if_splits) simp
  ultimately have step: "days_before_year (Suc y) = days_before_year y + (365 + ?x - ?z + ?w)"
    unfolding y days_before_year_def Let_def diff_Suc_1 four hundred fourhundred by (rule split)
  have bits: "365 + (if p then 1 else 0) - (if q then 1 else 0) + (if r then 1 else 0) =
      (if p \<and> (\<not> q \<or> r) then 366 else 365 :: nat)" if "r \<Longrightarrow> q" "q \<Longrightarrow> p" for p q r
    using that by (cases p; cases q; cases r) simp_all
  have "365 + ?x - ?z + ?w = (if leap y then 366 else 365)"
    unfolding y leap_def by (rule bits) (erule sub)+
  with step show ?thesis by (simp only:)
qed

lemma next_day_valid: "valid_date d \<Longrightarrow> valid_date (next_day d)"
  using days_in_month_pos [of "dt_year d"] days_in_month_pos [of "Suc (dt_year d)"]
  by (auto simp: valid_date_def next_day_def Suc_leI)

lemma toordinal_next_day: "valid_date d \<Longrightarrow> toordinal (next_day d) = Suc (toordinal d)"
proof -
  assume v: "valid_date d"
  then have "dt_month d = 12 \<Longrightarrow> days_in_month (dt_year d) (dt_month d) = 31"
    by (simp add: days_in_month_def)
  with v show ?thesis
    using days_before_month_Suc [of "dt_month d" "dt_year d"] days_before_year_Suc [of "dt_year d"]
      days_in_year [of "dt_year d"] days_before_month_1
    by (auto simp: valid_date_def next_day_def toordinal_def not_less split: if_splits)
qed

lemma less_next_day: "valid_date d \<Longrightarrow> d < next_day d"
  by (auto simp: less_date_def next_day_def valid_date_def)

lemma next_day_least:
  assumes "valid_date d" and "valid_date e" and "d < e"
  shows "next_day d \<le> e"
  using assms by (auto simp: less_date_def less_eq_date_def next_day_def valid_date_def)

section \<open>From day to day\<close>

text \<open>Valid dates from \<open>a\<close> on are reached from \<open>a\<close> by so many steps as the ordinals differ.\<close>

lemma ordinal_month_mono:
  assumes "1 \<le> m" and "m < n"
  shows "days_before_month y m + days_in_month y m \<le> days_before_month y n"
  using assms(2) assms(1)
proof (induction n)
  case (Suc n)
  then show ?case
    using days_before_month_Suc [of n y] by (cases "m = n") auto
qed simp

lemma ordinal_in_year:
  assumes "valid_date d"
  shows "days_before_month (dt_year d) (dt_month d) + dt_day d \<le> (if leap (dt_year d) then 366 else 365)"
proof (cases "dt_month d = 12")
  case True
  with assms days_in_year [of "dt_year d"] show ?thesis by (simp add: valid_date_def days_in_month_def split: if_splits)
next
  case False
  with assms have "dt_month d < 12" "1 \<le> dt_month d" "dt_day d \<le> days_in_month (dt_year d) (dt_month d)"
    by (auto simp: valid_date_def)
  with ordinal_month_mono [of "dt_month d" 12 "dt_year d"] days_in_year [of "dt_year d"] show ?thesis by linarith
qed

lemma ordinal_year_mono:
  assumes "1 \<le> y" and "y < z"
  shows "days_before_year y + (if leap y then 366 else 365) \<le> days_before_year z"
  using assms(2) assms(1)
proof (induction z)
  case (Suc z)
  then show ?case
    using days_before_year_Suc [of z] by (cases "y = z") (auto split: if_splits)
qed simp

lemma toordinal_strict_mono:
  assumes "valid_date a" and "valid_date b" and "a < b"
  shows "toordinal a < toordinal b"
proof -
  consider (year) "dt_year a < dt_year b"
    | (month) "dt_year a = dt_year b" "dt_month a < dt_month b"
    | (day) "dt_year a = dt_year b" "dt_month a = dt_month b" "dt_day a < dt_day b"
    using assms(3) by (auto simp: less_date_def)
  then show ?thesis
  proof cases
    case year
    then show ?thesis
      using ordinal_year_mono [OF _ year] ordinal_in_year [OF assms(1)] assms(1,2)
      by (simp add: toordinal_def valid_date_def)
  next
    case month
    then show ?thesis
      using ordinal_month_mono [OF _ month(2), of "dt_year a"] assms(1,2)
      by (simp add: toordinal_def valid_date_def)
  qed (simp add: toordinal_def)
qed

lemma toordinal_less_iff: "valid_date a \<Longrightarrow> valid_date b \<Longrightarrow> toordinal a < toordinal b \<longleftrightarrow> a < b"
  using toordinal_strict_mono [of a b] toordinal_strict_mono [of b a] by (cases a b rule: linorder_cases) auto

section \<open>ISO text\<close>

lemma digit_inj: "digit m = digit n \<longleftrightarrow> m mod 10 = n mod 10"
proof -
  have "(of_char (digit k) :: nat) = 48 + k mod 10" for k
  proof -
    have "k mod 10 < 10" by simp
    then show ?thesis by (simp add: digit_def)
  qed
  then show ?thesis by (metis add_left_cancel digit_def)
qed

lemma pad2_mod: "pad2 m = pad2 n \<Longrightarrow> m mod 100 = n mod 100"
  using mod_mult2_eq [of m 10 10] mod_mult2_eq [of n 10 10] by (simp add: pad2_def digit_inj)

lemma pad2_inj: "m < 100 \<Longrightarrow> n < 100 \<Longrightarrow> pad2 m = pad2 n \<Longrightarrow> m = n"
  using pad2_mod [of m n] by simp

definition civil :: "date \<Rightarrow> bool" where
  "civil d \<longleftrightarrow> valid_date d \<and> dt_year d < 10000"

lemma days_in_month_less: "days_in_month y m < 100"
  by (simp add: days_in_month_def)

lemma isoformat_inj:
  assumes "civil a" and "civil b" and "isoformat a = isoformat b"
  shows "a = b"
proof -
  have bounds: "dt_month d < 100 \<and> dt_day d < 100 \<and> dt_year d div 100 < 100" if "civil d" for d
    using that days_in_month_less [of "dt_year d" "dt_month d"] by (auto simp: civil_def valid_date_def)
  have parts: "pad2 (dt_year a div 100) = pad2 (dt_year b div 100)" "pad2 (dt_year a) = pad2 (dt_year b)"
    "pad2 (dt_month a) = pad2 (dt_month b)" "pad2 (dt_day a) = pad2 (dt_day b)"
    using assms(3) by (simp_all add: isoformat_def month_day_def pad2_def)
  have "dt_year a div 100 = dt_year b div 100" using pad2_inj parts(1) bounds assms(1,2) by blast
  moreover have "dt_year a mod 100 = dt_year b mod 100"
    using parts(2) by (rule pad2_mod)
  ultimately have "dt_year a = dt_year b" by (metis div_mult_mod_eq)
  moreover have "dt_month a = dt_month b" "dt_day a = dt_day b"
    using pad2_inj parts(3,4) bounds assms(1,2) by blast+
  ultimately show ?thesis by (cases a; cases b) simp
qed

lemma length_isoformat [simp]: "length (isoformat d) = 10"
  by (simp add: isoformat_def month_day_def pad2_def)

section \<open>Loops over days\<close>

text \<open>\<open>while cur <= end: yield cur; cur += timedelta(days=1)\<close>.\<close>

function days_between :: "date \<Rightarrow> date \<Rightarrow> date list" where
  "days_between cur last_day = (if valid_date cur \<and> valid_date last_day \<and> cur \<le> last_day
     then cur # days_between (next_day cur) last_day else [])"
  by pat_completeness auto
termination
proof (relation "measure (\<lambda>(cur, last_day). Suc (toordinal last_day) - toordinal cur)")
  fix cur last_day :: date
  assume a: "valid_date cur \<and> valid_date last_day \<and> cur \<le> last_day"
  then have "toordinal cur \<le> toordinal last_day"
    using toordinal_less_iff [of last_day cur] by (simp add: not_less [symmetric])
  with a show "((next_day cur, last_day), cur, last_day) \<in>
      measure (\<lambda>(cur, last_day). Suc (toordinal last_day) - toordinal cur)"
    by (simp add: toordinal_next_day)
qed simp

declare days_between.simps [simp del]

lemma days_between_valid: "d \<in> set (days_between a b) \<Longrightarrow> valid_date d \<and> a \<le> d \<and> d \<le> b"
proof (induction a b rule: days_between.induct)
  case (1 a b)
  show ?case
  proof (cases "valid_date a \<and> valid_date b \<and> a \<le> b")
    case True
    with 1 less_next_day [of a] show ?thesis
      by (auto simp: days_between.simps [of a b] intro: less_imp_le less_le_trans)
  next
    case False
    with 1 show ?thesis by (simp add: days_between.simps [of a b] split: if_splits)
  qed
qed

lemma days_between_civil: "d \<in> set (days_between a b) \<Longrightarrow> civil b \<Longrightarrow> civil d"
  using days_between_valid [of d a b] by (auto simp: civil_def less_eq_date_def)

lemma days_between_complete:
  "valid_date d \<Longrightarrow> valid_date a \<Longrightarrow> valid_date b \<Longrightarrow> a \<le> d \<Longrightarrow> d \<le> b \<Longrightarrow> d \<in> set (days_between a b)"
proof (induction a b rule: days_between.induct)
  case (1 a b)
  then have go: "valid_date a \<and> valid_date b \<and> a \<le> b" by auto
  show ?case
  proof (cases "d = a")
    case True
    with go show ?thesis by (simp add: days_between.simps [of a b])
  next
    case False
    with 1 have "next_day a \<le> d" by (simp add: next_day_least)
    with 1 go have "d \<in> set (days_between (next_day a) b)" by (simp add: next_day_valid)
    with go show ?thesis by (simp add: days_between.simps [of a b])
  qed
qed

lemma set_days_between:
  "valid_date a \<Longrightarrow> valid_date b \<Longrightarrow> set (days_between a b) = {d. valid_date d \<and> a \<le> d \<and> d \<le> b}"
  using days_between_valid days_between_complete by blast

section \<open>Reading ISO dates\<close>

text \<open>\<open>datetime.strptime(s, "%Y-%m-%d").date()\<close>, with \<open>None\<close> for \<open>ValueError\<close>: four digits for the
  year, one or two for the month, one or two (the first may be a space) for the day.\<close>

definition numeric :: "char \<Rightarrow> bool" where
  "numeric c \<longleftrightarrow> (48::nat) \<le> of_char c \<and> (of_char c :: nat) \<le> 57"

definition digit_value :: "char \<Rightarrow> nat" where
  "digit_value c = of_char c - 48"

definition number :: "string \<Rightarrow> nat" where
  "number s = fold (\<lambda>c n. 10 * n + digit_value c) s 0"

definition split_once :: "char \<Rightarrow> string \<Rightarrow> string \<times> string" where
  "split_once c s = (takeWhile (\<lambda>x. x \<noteq> c) s, drop 1 (dropWhile (\<lambda>x. x \<noteq> c) s))"

definition strptime_day :: "string \<Rightarrow> date option" where
  "strptime_day s =
     (let (ys, rest) = split_once CHR ''-'' s; (ms, ds) = split_once CHR ''-'' rest;
          day = (case ds of c # [x] \<Rightarrow> if c = CHR '' '' then [x] else ds | _ \<Rightarrow> ds);
          d = Date (number ys) (number ms) (number day)
      in if length ys = 4 \<and> list_all numeric (ys @ ms @ day) \<and> length ms \<in> {1, 2} \<and> length ds \<in> {1, 2}
           \<and> valid_date d \<and> s = ys @ ''-'' @ ms @ ''-'' @ ds then Some d else None)"

lemma digit_numeric: "numeric (digit n)" "digit n \<noteq> CHR ''-''" "digit n \<noteq> CHR '' ''" "digit_value (digit n) = n mod 10"
proof -
  have "(of_char (digit n) :: nat) = 48 + n mod 10" 
  proof -
    have "n mod 10 < 10" by simp
    then show ?thesis by (simp add: digit_def)
  qed
  moreover have "n mod 10 < 10" by simp
  ultimately have n: "(of_char (digit n) :: nat) = 48 + n mod 10" "n mod 10 \<le> 9" by linarith+
  then show "numeric (digit n)" "digit_value (digit n) = n mod 10"
    by (simp_all add: numeric_def digit_value_def)
  have "(of_char CHR ''-'' :: nat) = 45" "(of_char CHR '' '' :: nat) = 32" by simp_all
  with n show "digit n \<noteq> CHR ''-''" "digit n \<noteq> CHR '' ''" by force+
qed

lemma number_pad2: "n < 100 \<Longrightarrow> number (pad2 n) = n"
  by (simp add: number_def pad2_def digit_numeric)

lemma number_pad4: "n < 10000 \<Longrightarrow> number (pad2 (n div 100) @ pad2 n) = n"
proof -
  assume "n < 10000"
  then have "n div 100 div 10 < 10" by simp
  moreover have "n div 100 = 10 * (n div 100 div 10) + n div 100 mod 10"
    "n div 10 = 10 * (n div 10 div 10) + n div 10 mod 10" "n = 10 * (n div 10) + n mod 10" by simp_all
  moreover have "n div 10 div 10 = n div 100" by (simp add: div_mult2_eq [symmetric])
  ultimately show ?thesis by (simp add: number_def pad2_def digit_numeric)
qed

text \<open>Reading the ISO text of a date gives the date back.\<close>

lemma strptime_isoformat: "civil d \<Longrightarrow> strptime_day (isoformat d) = Some d"
proof -
  assume c: "civil d"
  then have b: "dt_year d < 10000" "dt_month d < 100" "dt_day d < 100" "valid_date d"
    using days_in_month_less [of "dt_year d" "dt_month d"] by (auto simp: civil_def valid_date_def)
  have parts: "split_once CHR ''-'' (isoformat d) = (pad2 (dt_year d div 100) @ pad2 (dt_year d), month_day d)"
    "split_once CHR ''-'' (month_day d) = (pad2 (dt_month d), pad2 (dt_day d))"
    by (simp_all add: split_once_def isoformat_def month_day_def pad2_def digit_numeric)
  have nospace: "(case pad2 n of c # [x] \<Rightarrow> if c = CHR '' '' then [x] else pad2 n | _ \<Rightarrow> pad2 n) = pad2 n" for n
    by (simp add: pad2_def digit_numeric)
  have "Date (number (pad2 (dt_year d div 100) @ pad2 (dt_year d))) (number (pad2 (dt_month d))) (number (pad2 (dt_day d))) = d"
    using b by (simp add: number_pad4 number_pad2)
  then show ?thesis
    using b(4) unfolding strptime_day_def parts Let_def split_conv nospace
    by (simp add: isoformat_def month_day_def pad2_def digit_numeric)
qed

end
