(* ===== verification/Sector_Holidays.thy ===== *)
theory Sector_Holidays
  imports Calendar Cache_Backend Chats_Data
begin

text \<open>
  \<open>SectorHoliday\<close> (\<open>chats/apps/sectors/models.py\<close>): the rows with their constraints, the writes and the
  cache keys they invalidate, and the management of a sector's holidays in \<open>SectorHolidayViewSet\<close>
  (\<open>chats/apps/api/v1/sectors/viewsets.py\<close>).

  The state is the table and the key-value store. A row's \<open>save()\<close> replaces the row with its key or
  adds it; \<open>created_by\<close> and the other audit columns are left out. The official holidays of a country come
  from the package \<open>workalendar\<close> and are the parameter \<open>official\<close>.
\<close>

section \<open>Rows\<close>

datatype day_type = Closed_Day | Custom_Hours

record holiday =
  hol_uuid :: uuid
  hol_sector :: uuid
  hol_date :: date
  hol_date_end :: "date option"
  hol_day_type :: day_type
  hol_start_time :: "int option"
  hol_end_time :: "int option"
  hol_description :: string
  hol_its_custom :: bool
  hol_repeat :: bool
  hol_is_deleted :: bool

record 'c holiday_state =
  hol_rows :: "holiday list"
  hol_cache :: 'c

definition last_day :: "holiday \<Rightarrow> date" where
  "last_day h = (case hol_date_end h of None \<Rightarrow> hol_date h | Some e \<Rightarrow> e)"

definition iter_dates :: "holiday \<Rightarrow> date list" where
  "iter_dates h = days_between (hol_date h) (last_day h)"

text \<open>The check constraints, and the unique constraint over the rows that are not deleted.\<close>

definition valid_holiday_times :: "holiday \<Rightarrow> bool" where
  "valid_holiday_times h = (case hol_day_type h of
     Closed_Day \<Rightarrow> hol_start_time h = None \<and> hol_end_time h = None
   | Custom_Hours \<Rightarrow> (case (hol_start_time h, hol_end_time h) of (Some a, Some b) \<Rightarrow> a < b | _ \<Rightarrow> False))"

definition unique_sector_holiday :: "holiday list \<Rightarrow> holiday \<Rightarrow> bool" where
  "unique_sector_holiday rows h \<longleftrightarrow> hol_is_deleted h \<or>
     \<not> list_ex (\<lambda>x. hol_uuid x \<noteq> hol_uuid h \<and> \<not> hol_is_deleted x \<and> hol_sector x = hol_sector h
          \<and> hol_date x = hol_date h) rows"

definition put_holiday :: "holiday \<Rightarrow> holiday list \<Rightarrow> holiday list" where
  "put_holiday h rows = (if list_ex (\<lambda>x. hol_uuid x = hol_uuid h) rows
     then update_where (\<lambda>x. hol_uuid x = hol_uuid h) (\<lambda>_. h) rows else rows @ [h])"

definition holiday_key :: "uuid \<Rightarrow> date \<Rightarrow> string" where
  "holiday_key sector d = ''holiday:'' @ sector @ '':'' @ isoformat d"

definition invalidate_holiday_cache :: "'c cache_ops \<Rightarrow> holiday \<Rightarrow> 'c \<Rightarrow> 'c" where
  "invalidate_holiday_cache ops h c =
     fold (\<lambda>d. snd \<circ> c_delete ops (holiday_key (hol_sector h) d)) (iter_dates h) c"

definition save_holiday :: "'c cache_ops \<Rightarrow> holiday \<Rightarrow> ('c holiday_state, unit) py" where
  "save_holiday ops h s =
     (if \<not> valid_holiday_times h then (Inl (IntegrityError ''valid_holiday_times''), s)
      else if \<not> unique_sector_holiday (hol_rows s) h then (Inl (IntegrityError ''unique_sector_holiday''), s)
      else (Inr (), s\<lparr>hol_rows := put_holiday h (hol_rows s),
                     hol_cache := invalidate_holiday_cache ops h (hol_cache s)\<rparr>))"

definition delete_holiday :: "'c cache_ops \<Rightarrow> holiday \<Rightarrow> ('c holiday_state, unit) py" where
  "delete_holiday ops h = save_holiday ops (h\<lparr>hol_is_deleted := True\<rparr>)"

section \<open>The serializer and a range of days\<close>

definition outside_hours :: string where
  "outside_hours = ''Contact can't be done outside working hours''"

definition validate_holiday_payload :: "holiday \<Rightarrow> exn + unit" where
  "validate_holiday_payload h = (case hol_day_type h of
     Closed_Day \<Rightarrow> if hol_start_time h \<noteq> None \<or> hol_end_time h \<noteq> None
       then Inl (ValidationError ''Non-working days shouldn't have a start_time or end_time'') else Inr ()
   | Custom_Hours \<Rightarrow> (case (hol_start_time h, hol_end_time h) of
       (Some a, Some b) \<Rightarrow> if b \<le> a then Inl (ValidationError ''End time must be greater than the start time'')
                          else Inr ()
     | _ \<Rightarrow> Inl (ValidationError ''Custom hours days must have both start_time and end_time'')))"

text \<open>\<open>create\<close> with \<open>date: {"start", "end"}\<close>; \<open>h\<close> carries the other fields of the payload.\<close>

definition create_holiday_range ::
  "'c cache_ops \<Rightarrow> json \<Rightarrow> json \<Rightarrow> holiday \<Rightarrow> ('c holiday_state, unit) py" where
  "create_holiday_range ops start_str end_str h = (case start_str of
     JStr (a # as) \<Rightarrow>
       (case (strptime_day (strip (a # as)),
              strptime_day (strip (case end_str of JStr (b # bs) \<Rightarrow> b # bs | _ \<Rightarrow> a # as))) of
          (Some start_date, Some end_date) \<Rightarrow>
            if end_date < start_date
            then raise (ValidationError ''date.end must be greater than or equal to date.start'')
            else (let row = h\<lparr>hol_date := start_date, hol_date_end := Some end_date\<rparr>
                  in bnd (lift_result (validate_holiday_payload row)) (\<lambda>_. save_holiday ops row))
        | _ \<Rightarrow> raise (ValidationError ''Date has wrong format.''))
   | _ \<Rightarrow> raise (ValidationError ''date.start is required (YYYY-MM-DD)''))"

section \<open>Official holidays\<close>

definition parse_date_str :: "json \<Rightarrow> date option" where
  "parse_date_str ds = (case ds of JStr (c # cs) \<Rightarrow> strptime_day (strip (c # cs)) | _ \<Rightarrow> None)"

definition find_holiday :: "holiday list \<Rightarrow> uuid \<Rightarrow> date \<Rightarrow> holiday option" where
  "find_holiday rows sector d =
     find (\<lambda>h. \<not> hol_is_deleted h \<and> hol_sector h = sector \<and> hol_date h = d) rows"

definition update_existing_holiday :: "'c cache_ops \<Rightarrow> holiday \<Rightarrow> string \<Rightarrow> ('c holiday_state, unit) py" where
  "update_existing_holiday ops h name =
     (let h1 = h\<lparr>hol_is_deleted := False, hol_day_type := Closed_Day, hol_its_custom := False,
                 hol_description := if name \<noteq> [] then name else hol_description h\<rparr>
      in if h1 \<noteq> h then save_holiday ops h1 else ret ())"

text \<open>\<open>fresh_id\<close> is the primary key of a row that is created.\<close>

definition closed_holiday :: "uuid \<Rightarrow> uuid \<Rightarrow> date \<Rightarrow> string \<Rightarrow> holiday" where
  "closed_holiday fresh_id sector d name = \<lparr>hol_uuid = fresh_id, hol_sector = sector, hol_date = d,
     hol_date_end = None, hol_day_type = Closed_Day, hol_start_time = None, hol_end_time = None,
     hol_description = name, hol_its_custom = False, hol_repeat = False, hol_is_deleted = False\<rparr>"

definition enable_holiday ::
  "'c cache_ops \<Rightarrow> uuid \<Rightarrow> uuid \<Rightarrow> date \<Rightarrow> string \<Rightarrow> ('c holiday_state, unit) py" where
  "enable_holiday ops fresh_id sector d name =
     bnd (gets (\<lambda>s. find_holiday (hol_rows s) sector d)) (\<lambda>found. case found of
       Some h \<Rightarrow> update_existing_holiday ops h name
     | None \<Rightarrow> save_holiday ops (closed_holiday fresh_id sector d name))"

definition disable_holiday :: "'c cache_ops \<Rightarrow> uuid \<Rightarrow> date \<Rightarrow> ('c holiday_state, bool) py" where
  "disable_holiday ops sector d =
     bnd (gets (\<lambda>s. find_holiday (hol_rows s) sector d)) (\<lambda>found. case found of
       Some h \<Rightarrow> if \<not> hol_is_deleted h
                 then andthen (save_holiday ops (h\<lparr>hol_is_deleted := True\<rparr>)) (ret True) else ret False
     | None \<Rightarrow> ret False)"

text \<open>PATCH \<open>official_holidays\<close>: dates to enable, each with the key a new row gets, then dates to
  disable. The result counts both and lists what could not be read.\<close>

type_synonym patch_report = "nat \<times> nat \<times> string list"

definition bad_date :: "json \<Rightarrow> string" where
  "bad_date ds = ''Invalid date format: '' @ (case ds of JStr s \<Rightarrow> s | v \<Rightarrow> json_dumps v)"

definition enable_step ::
  "'c cache_ops \<Rightarrow> (date \<Rightarrow> string option) \<Rightarrow> uuid \<Rightarrow> uuid \<times> json \<Rightarrow> patch_report \<Rightarrow> ('c holiday_state, patch_report) py" where
  "enable_step ops official sector = (\<lambda>(fresh_id, ds) (enabled, disabled, errors).
     case parse_date_str ds of
       None \<Rightarrow> ret (enabled, disabled, errors @ [bad_date ds])
     | Some d \<Rightarrow> andthen (enable_holiday ops fresh_id sector d (case official d of None \<Rightarrow> [] | Some n \<Rightarrow> n))
         (ret (Suc enabled, disabled, errors)))"

definition disable_step ::
  "'c cache_ops \<Rightarrow> uuid \<Rightarrow> json \<Rightarrow> patch_report \<Rightarrow> ('c holiday_state, patch_report) py" where
  "disable_step ops sector ds = (\<lambda>(enabled, disabled, errors).
     case parse_date_str ds of
       None \<Rightarrow> ret (enabled, disabled, errors @ [bad_date ds])
     | Some d \<Rightarrow> bnd (disable_holiday ops sector d)
         (\<lambda>gone. ret (enabled, if gone then Suc disabled else disabled, errors)))"

definition patch_official_holidays ::
  "'c cache_ops \<Rightarrow> (date \<Rightarrow> string option) \<Rightarrow> uuid \<Rightarrow> (uuid \<times> json) list \<Rightarrow> json list \<Rightarrow> ('c holiday_state, patch_report) py" where
  "patch_official_holidays ops official sector enabled_dates disabled_dates =
     bnd (fold_each (enable_step ops official sector) enabled_dates (0, 0, []))
         (fold_each (disable_step ops sector) disabled_dates)"

text \<open>\<open>import_official_holidays\<close>: every exception of one date becomes an entry of the errors; the
  text of an exception is the parameter \<open>exn_str\<close>. A date that is no string raises \<open>TypeError\<close>.\<close>

definition import_step ::
  "'c cache_ops \<Rightarrow> (exn \<Rightarrow> string) \<Rightarrow> (date \<Rightarrow> string option) \<Rightarrow> uuid \<Rightarrow> uuid \<times> json \<Rightarrow>
   date list \<times> string list \<Rightarrow> ('c holiday_state, date list \<times> string list) py" where
  "import_step ops exn_str official sector = (\<lambda>(fresh_id, ds) (created, errors).
     let shown = (case ds of JStr t \<Rightarrow> t | v \<Rightarrow> json_dumps v);
         failed = (\<lambda>e. ret (created, errors @ [''Error creating holiday for '' @ shown @ '': '' @ exn_str e]))
     in case ds of
       JStr t \<Rightarrow> (case strptime_day t of
         None \<Rightarrow> ret (created, errors @ [bad_date ds])
       | Some d \<Rightarrow> (case official d of
           None \<Rightarrow> ret (created, errors @ [''Date '' @ shown @ '' is not an official holiday''])
         | Some name \<Rightarrow> bnd (gets (\<lambda>s. find_holiday (hol_rows s) sector d)) (\<lambda>found.
             if found \<noteq> None then ret (created, errors @ [''Holiday for '' @ shown @ '' already exists''])
             else try_except
               (andthen (save_holiday ops (closed_holiday fresh_id sector d name)) (ret (created @ [d], errors)))
               failed)))
     | _ \<Rightarrow> failed TypeError)"

definition import_official_holidays ::
  "'c cache_ops \<Rightarrow> (exn \<Rightarrow> string) \<Rightarrow> (date \<Rightarrow> string option) \<Rightarrow> uuid \<Rightarrow> (uuid \<times> json) list \<Rightarrow>
   ('c holiday_state, date list \<times> string list) py" where
  "import_official_holidays ops exn_str official sector selected =
     fold_each (import_step ops exn_str official sector) selected ([], [])"

section \<open>The table\<close>

text \<open>What the constraints and the primary key guarantee.\<close>

definition table_ok :: "holiday list \<Rightarrow> bool" where
  "table_ok rows \<longleftrightarrow> distinct (map hol_uuid rows) \<and>
     list_all (\<lambda>h. valid_holiday_times h \<and> unique_sector_holiday rows h) rows"

lemma set_put_holiday: "set (put_holiday h rows) = insert h {x \<in> set rows. hol_uuid x \<noteq> hol_uuid h}"
  by (auto simp: put_holiday_def set_update_where list_ex_iff)

lemma put_holiday_keys: "map hol_uuid (put_holiday h rows) =
    (if hol_uuid h \<in> set (map hol_uuid rows) then map hol_uuid rows else map hol_uuid rows @ [hol_uuid h])"
proof -
  have "map hol_uuid (update_where (\<lambda>x. hol_uuid x = hol_uuid h) (\<lambda>_. h) xs) = map hol_uuid xs" for xs
    by (induction xs) auto
  moreover have "hol_uuid h \<in> set (map hol_uuid rows) \<longleftrightarrow> list_ex (\<lambda>x. hol_uuid x = hol_uuid h) rows"
    by (simp add: list_ex_iff image_iff eq_commute)
  ultimately show ?thesis by (simp add: put_holiday_def)
qed

lemma unique_iff: "unique_sector_holiday rows h \<longleftrightarrow> (\<forall>x\<in>set rows. hol_is_deleted h \<or> hol_uuid x = hol_uuid h \<or>
    hol_is_deleted x \<or> hol_sector x \<noteq> hol_sector h \<or> hol_date x \<noteq> hol_date h)"
  by (auto simp: unique_sector_holiday_def list_ex_iff)

lemma table_ok_put:
  assumes "table_ok rows" and "valid_holiday_times h" and "unique_sector_holiday rows h"
  shows "table_ok (put_holiday h rows)"
proof -
  have "distinct (map hol_uuid (put_holiday h rows))"
    using assms(1) unfolding put_holiday_keys by (simp add: table_ok_def)
  moreover have "valid_holiday_times x \<and> unique_sector_holiday (put_holiday h rows) x"
    if "x \<in> set (put_holiday h rows)" for x
    using that assms unfolding table_ok_def list_all_iff unique_iff set_put_holiday
    by (cases "x = h") auto
  ultimately show ?thesis by (simp add: table_ok_def list_all_iff)
qed

lemma table_ok_save: "table_ok (hol_rows s) \<Longrightarrow> table_ok (hol_rows (snd (save_holiday ops h s)))"
  by (simp add: save_holiday_def table_ok_put)

lemma run_save:
  "valid_holiday_times h \<Longrightarrow> unique_sector_holiday (hol_rows s) h \<Longrightarrow>
   save_holiday ops h s = (Inr (), s\<lparr>hol_rows := put_holiday h (hol_rows s),
     hol_cache := invalidate_holiday_cache ops h (hol_cache s)\<rparr>)"
  by (simp add: save_holiday_def)

lemma find_holiday_live:
  assumes "table_ok rows"
  shows "find_holiday rows sector d = Some h \<longleftrightarrow>
    h \<in> set rows \<and> \<not> hol_is_deleted h \<and> hol_sector h = sector \<and> hol_date h = d"
proof
  assume "find_holiday rows sector d = Some h"
  then show "h \<in> set rows \<and> \<not> hol_is_deleted h \<and> hol_sector h = sector \<and> hol_date h = d"
    unfolding find_holiday_def by (blast dest: find_in_set)
next
  assume h: "h \<in> set rows \<and> \<not> hol_is_deleted h \<and> hol_sector h = sector \<and> hol_date h = d"
  then have "find_holiday rows sector d \<noteq> None" by (auto simp: find_holiday_def find_None_iff)
  then obtain x where x: "find_holiday rows sector d = Some x" by blast
  then have in_rows: "x \<in> set rows" and live: "\<not> hol_is_deleted x \<and> hol_sector x = sector \<and> hol_date x = d"
    using find_in_set [OF x [unfolded find_holiday_def]] by simp_all
  have "unique_sector_holiday rows h" using h assms by (simp add: table_ok_def list_all_iff)
  then have "hol_is_deleted h \<or> hol_uuid x = hol_uuid h \<or> hol_is_deleted x \<or> hol_sector x \<noteq> hol_sector h
      \<or> hol_date x \<noteq> hol_date h" using in_rows unfolding unique_iff by (rule bspec)
  with live h have key: "hol_uuid x = hol_uuid h" by metis
  have "inj_on hol_uuid (set rows)" using assms by (simp add: table_ok_def distinct_map)
  from inj_onD [OF this key in_rows] h have "x = h" by blast
  with x show "find_holiday rows sector d = Some h" by simp
qed

text \<open>Enabling an official holiday closes its date in every table that satisfies the constraints,
  except when the sector has custom hours on that date: the hours are kept on the row that becomes closed, so the
  database rejects it, and the request fails with the table unchanged.\<close>

theorem enable_holiday_outcome:
  assumes "table_ok (hol_rows s)" and "fresh_id \<notin> set (map hol_uuid (hol_rows s))"
    and run: "enable_holiday ops fresh_id sector d name s = (res, s')"
  shows "if (\<exists>h. find_holiday (hol_rows s) sector d = Some h \<and> hol_day_type h = Custom_Hours)
    then res = Inl (IntegrityError ''valid_holiday_times'') \<and> s' = s
    else res = Inr () \<and> table_ok (hol_rows s') \<and>
      (\<exists>h. find_holiday (hol_rows s') sector d = Some h \<and> hol_day_type h = Closed_Day \<and> \<not> hol_is_deleted h)"
proof (cases "find_holiday (hol_rows s) sector d")
  case None
  let ?h = "closed_holiday fresh_id sector d name"
  have "unique_sector_holiday (hol_rows s) ?h"
    using None by (auto simp: unique_iff closed_holiday_def find_holiday_def find_None_iff)
  moreover have "valid_holiday_times ?h" by (simp add: valid_holiday_times_def closed_holiday_def)
  ultimately have s': "res = Inr ()" "hol_rows s' = put_holiday ?h (hol_rows s)" "table_ok (hol_rows s')"
    using run None run_save [of ?h s ops] table_ok_put [of "hol_rows s" ?h] assms(1)
    by (auto simp: enable_holiday_def run_gets)
  have "find_holiday (hol_rows s') sector d = Some ?h"
    unfolding find_holiday_live [OF s'(3)] by (simp add: s'(2) set_put_holiday closed_holiday_def)
  with None s' show ?thesis by (simp add: closed_holiday_def)
next
  case (Some h)
  then have h: "h \<in> set (hol_rows s)" "\<not> hol_is_deleted h" "hol_sector h = sector" "hol_date h = d"
    using find_holiday_live [OF assms(1)] by auto
  then have ok: "valid_holiday_times h" "unique_sector_holiday (hol_rows s) h"
    using assms(1) by (auto simp: table_ok_def list_all_iff)
  let ?h = "h\<lparr>hol_is_deleted := False, hol_day_type := Closed_Day, hol_its_custom := False,
                 hol_description := if name \<noteq> [] then name else hol_description h\<rparr>"
  have uniq: "unique_sector_holiday (hol_rows s) ?h" using ok(2) h(2) by (simp add: unique_iff)
  have run': "(if ?h \<noteq> h then save_holiday ops ?h else ret ()) s = (res, s')"
    using run Some by (simp add: enable_holiday_def run_gets update_existing_holiday_def Let_def)
  show ?thesis
  proof (cases "hol_day_type h")
    case Custom_Hours
    then have "?h \<noteq> h" by (metis day_type.distinct(1) holiday.select_convs(5) holiday.surjective holiday.update_convs(5,8,9,11))
    moreover have "\<not> valid_holiday_times ?h"
      using ok(1) Custom_Hours by (simp add: valid_holiday_times_def split: option.splits)
    ultimately show ?thesis using run' Some Custom_Hours by (auto simp: save_holiday_def)
  next
    case Closed_Day
    have valid: "valid_holiday_times ?h" using ok(1) Closed_Day by (simp add: valid_holiday_times_def)
    have rows: "res = Inr () \<and> table_ok (hol_rows s') \<and> ?h \<in> set (hol_rows s')"
    proof (cases "?h = h")
      case True
      with run' h(1) assms(1) show ?thesis by (simp add: ret_def)
    next
      case False
      with run' run_save [OF valid uniq, of ops] table_ok_put [OF assms(1) valid uniq] show ?thesis
        by (auto simp: set_put_holiday)
    qed
    then have "find_holiday (hol_rows s') sector d = Some ?h"
      using find_holiday_live [of "hol_rows s'" sector d ?h] h by simp
    with rows Some Closed_Day show ?thesis by simp
  qed
qed

definition new_year :: date where
  "new_year = Date 2024 1 1"

text \<open>A sector that opens from nine to twelve on New Year's Day.\<close>

definition short_day :: holiday where
  "short_day = (closed_holiday ''h1'' ''s'' new_year ''New year'')\<lparr>hol_day_type := Custom_Hours,
     hol_start_time := Some (540 * minute), hol_end_time := Some (720 * minute)\<rparr>"

lemmas holiday_samples = new_year_def short_day_def closed_holiday_def minute_def

theorem enable_holiday_outcome_witness:
  "enable_holiday mem_ops ''h2'' ''s'' new_year ''Ano novo'' \<lparr>hol_rows = [short_day], hol_cache = mem_empty\<rparr> =
     (Inl (IntegrityError ''valid_holiday_times''), \<lparr>hol_rows = [short_day], hol_cache = mem_empty\<rparr>)"
proof -
  let ?s = "\<lparr>hol_rows = [short_day], hol_cache = mem_empty\<rparr>"
  obtain res s' where run: "enable_holiday mem_ops ''h2'' ''s'' new_year ''Ano novo'' ?s = (res, s')" by fastforce
  have "table_ok (hol_rows ?s)" "''h2'' \<notin> set (map hol_uuid (hol_rows ?s))"
    and "find_holiday (hol_rows ?s) ''s'' new_year = Some short_day" "hol_day_type short_day = Custom_Hours"
    by (simp_all add: table_ok_def valid_holiday_times_def unique_sector_holiday_def find_holiday_def holiday_samples)
  with enable_holiday_outcome [OF _ _ run] run show ?thesis by simp
qed

end
