(* ===== verification/Working_Hours.thy ===== *)
theory Working_Hours
  imports Sector_Holidays
begin

text \<open>
  \<open>WorkingHoursValidator\<close> (\<open>chats/apps/sectors/utils.py\<close>), which decides whether a contact may open a
  room at a moment: weekdays that are closed, holidays of the sector (kept in the cache for five minutes),
  yearly or dated holidays of the configuration, and the schedules of the day.

  \<open>created_on\<close> is its date and its time of day in the zone of the project. \<open>parse\<close> stands for
  \<open>pendulum.parse(text).time()\<close>; a time in the configuration that is no string makes it raise. The
  values \<open>json.dumps\<close> writes to the cache are the values \<open>json.loads\<close> reads back, so the store holds
  them as JSON, with \<open>null\<close> for a day without a holiday.
\<close>

section \<open>The validator\<close>

definition json_get :: "json \<Rightarrow> string \<Rightarrow> json \<Rightarrow> exn + json" where
  "json_get v k d = (case v of JObj kvs \<Rightarrow> Inr (obj_get kvs k d) | _ \<Rightarrow> Inl AttributeError)"

definition int_in :: "nat \<Rightarrow> json \<Rightarrow> exn + bool" where
  "int_in n v = (case v of
     JList xs \<Rightarrow> Inr (list_ex (\<lambda>x. x = JInt (int n) \<or> x = JBool True \<and> n = 1) xs)
   | JObj kvs \<Rightarrow> Inr False
   | _ \<Rightarrow> Inl TypeError)"

definition outside :: exn where
  "outside = ValidationError outside_hours"

definition outside_holiday_hours :: exn where
  "outside_holiday_hours = ValidationError ''Contact can't be done outside holiday working hours''"

definition today_is_holiday :: exn where
  "today_is_holiday = ValidationError ''Contact can't be done because today is a holiday''"

type_synonym time_parser = "string \<Rightarrow> exn + int"

definition time_key :: "string \<Rightarrow> string" where
  "time_key t = ''parsed_time:'' @ t"

definition parse_time_cached :: "'c cache_ops \<Rightarrow> time_parser \<Rightarrow> string \<Rightarrow> ('c holiday_state, int) py" where
  "parse_time_cached ops parse t s = (let key = time_key t in
     case c_get ops key (hol_cache s) of
       Some v \<Rightarrow> (case v of JInt n \<Rightarrow> (Inr n, s) | _ \<Rightarrow> (Inl TypeError, s))
     | None \<Rightarrow> (case parse t of
         Inl e \<Rightarrow> (Inl e, s)
       | Inr n \<Rightarrow> (Inr n, s\<lparr>hol_cache := c_set ops key (JInt n) (Some 86400) (hol_cache s)\<rparr>)))"

definition time_value :: "'c cache_ops \<Rightarrow> time_parser \<Rightarrow> json \<Rightarrow> ('c holiday_state, int) py" where
  "time_value ops parse v = (case v of JStr t \<Rightarrow> parse_time_cached ops parse t | _ \<Rightarrow> raise TypeError)"

definition within :: "'c cache_ops \<Rightarrow> time_parser \<Rightarrow> json \<Rightarrow> json \<Rightarrow> int \<Rightarrow> ('c holiday_state, bool) py" where
  "within ops parse start_str end_str now =
     bnd (time_value ops parse start_str) (\<lambda>a.
     bnd (time_value ops parse end_str) (\<lambda>b. ret (a \<le> now \<and> now \<le> b)))"

definition require :: "exn \<Rightarrow> bool \<Rightarrow> ('s, unit) py" where
  "require e b = (if b then ret () else raise e)"

definition day_type_text :: "day_type \<Rightarrow> string" where
  "day_type_text t = (case t of Closed_Day \<Rightarrow> ''closed'' | Custom_Hours \<Rightarrow> ''custom_hours'')"

definition holiday_data :: "holiday \<Rightarrow> json" where
  "holiday_data h = (let text_of = (\<lambda>t. case t of None \<Rightarrow> JNull | Some x \<Rightarrow> JStr (hhmm x)) in
     JObj [(''day_type'', JStr (day_type_text (hol_day_type h))),
           (''start_time'', text_of (hol_start_time h)), (''end_time'', text_of (hol_end_time h)),
           (''description'', JStr (hol_description h))])"

text \<open>The first holiday in date order that covers the day.\<close>

definition covers :: "uuid \<Rightarrow> date \<Rightarrow> holiday \<Rightarrow> bool" where
  "covers sector d h \<longleftrightarrow> \<not> hol_is_deleted h \<and> hol_sector h = sector \<and>
     (hol_date h = d \<or> hol_date h \<le> d \<and> (case hol_date_end h of None \<Rightarrow> False | Some e \<Rightarrow> d \<le> e))"

definition holiday_on :: "holiday list \<Rightarrow> uuid \<Rightarrow> date \<Rightarrow> holiday option" where
  "holiday_on rows sector d =
     (case sort_key hol_date (filter (covers sector d) rows) of [] \<Rightarrow> None | h # _ \<Rightarrow> Some h)"

definition get_cached_holiday :: "'c cache_ops \<Rightarrow> uuid \<Rightarrow> date \<Rightarrow> ('c holiday_state, json) py" where
  "get_cached_holiday ops sector d s = (let key = holiday_key sector d in
     case c_get ops key (hol_cache s) of
       Some v \<Rightarrow> (Inr v, s)
     | None \<Rightarrow> (let v = (case holiday_on (hol_rows s) sector d of None \<Rightarrow> JNull | Some h \<Rightarrow> holiday_data h)
               in (Inr v, s\<lparr>hol_cache := c_set ops key v (Some 300) (hol_cache s)\<rparr>)))"

definition validate_holiday :: "'c cache_ops \<Rightarrow> time_parser \<Rightarrow> json \<Rightarrow> int \<Rightarrow> ('c holiday_state, unit) py" where
  "validate_holiday ops parse data now = (case data of
     JObj kvs \<Rightarrow> (case map_of kvs ''day_type'' of
        None \<Rightarrow> raise (RuntimeError ''KeyError'')
      | Some t \<Rightarrow> if t = JStr ''closed'' then raise today_is_holiday else
          (let a = obj_get kvs ''start_time'' JNull; b = obj_get kvs ''end_time'' JNull in
           if truthy a \<and> truthy b then bnd (within ops parse a b now) (require outside) else ret ()))
   | _ \<Rightarrow> raise TypeError)"

definition validate_static_holiday_fast ::
  "'c cache_ops \<Rightarrow> time_parser \<Rightarrow> json \<Rightarrow> int \<Rightarrow> ('c holiday_state, unit) py" where
  "validate_static_holiday_fast ops parse cfg now =
     bnd (lift_result (json_get cfg ''closed'' (JBool True))) (\<lambda>closed.
     if truthy closed then raise outside else
     bnd (lift_result (json_get cfg ''start'' JNull)) (\<lambda>a.
     bnd (lift_result (json_get cfg ''end'' JNull)) (\<lambda>b.
     if truthy a \<and> truthy b then bnd (within ops parse a b now) (require outside_holiday_hours) else ret ())))"

definition check_static_holidays_fast ::
  "'c cache_ops \<Rightarrow> time_parser \<Rightarrow> json \<Rightarrow> date \<Rightarrow> int \<Rightarrow> ('c holiday_state, unit) py" where
  "check_static_holidays_fast ops parse config d now =
     bnd (lift_result (json_get config ''static_holidays'' (JObj []))) (\<lambda>holidays.
     if \<not> truthy holidays then ret () else
     bnd (lift_result (json_get holidays (isoformat d) JNull)) (\<lambda>dated.
     bnd (if truthy dated then ret dated else lift_result (json_get holidays (month_day d) JNull)) (\<lambda>cfg.
     if truthy cfg then validate_static_holiday_fast ops parse cfg now else ret ())))"

text \<open>One interval of a list; an exception counts as no interval.\<close>

definition interval_ok :: "'c cache_ops \<Rightarrow> time_parser \<Rightarrow> int \<Rightarrow> json \<Rightarrow> ('c holiday_state, bool) py" where
  "interval_ok ops parse now x =
     bnd (lift_result (json_get x ''start'' JNull)) (\<lambda>a.
     bnd (lift_result (json_get x ''end'' JNull)) (\<lambda>b.
     if \<not> truthy a \<or> \<not> truthy b then ret False else within ops parse a b now))"

fun any_interval :: "'c cache_ops \<Rightarrow> time_parser \<Rightarrow> int \<Rightarrow> json list \<Rightarrow> ('c holiday_state, bool) py" where
  "any_interval ops parse now [] = ret False"
| "any_interval ops parse now (x # xs) =
     bnd (try_except (interval_ok ops parse now x) (\<lambda>_. ret False))
       (\<lambda>ok. if ok then ret True else any_interval ops parse now xs)"

definition validate_day_schedules_generic ::
  "'c cache_ops \<Rightarrow> time_parser \<Rightarrow> json \<Rightarrow> int \<Rightarrow> ('c holiday_state, unit) py" where
  "validate_day_schedules_generic ops parse day_cfg now = (case day_cfg of
     JObj kvs \<Rightarrow> (let a = obj_get kvs ''start'' JNull; b = obj_get kvs ''end'' JNull in
       if \<not> truthy a \<or> \<not> truthy b then raise outside else bnd (within ops parse a b now) (require outside))
   | JList xs \<Rightarrow> bnd (any_interval ops parse now xs) (require outside)
   | _ \<Rightarrow> raise outside)"

definition day_name :: "nat \<Rightarrow> string" where
  "day_name n = [''monday'', ''tuesday'', ''wednesday'', ''thursday'', ''friday'', ''saturday'', ''sunday''] ! (n - 1)"

definition validate_schedules ::
  "'c cache_ops \<Rightarrow> time_parser \<Rightarrow> json \<Rightarrow> nat \<Rightarrow> int \<Rightarrow> ('c holiday_state, unit) py" where
  "validate_schedules ops parse config weekday now =
     bnd (lift_result (json_get config ''schedules'' (JObj []))) (\<lambda>schedules.
     bnd (lift_result (json_get schedules (day_name weekday) JNull)) (\<lambda>day_cfg.
     if day_cfg = JNull then raise outside else validate_day_schedules_generic ops parse day_cfg now))"

definition full_validation ::
  "'c cache_ops \<Rightarrow> time_parser \<Rightarrow> sector \<Rightarrow> json \<Rightarrow> nat \<Rightarrow> date \<Rightarrow> int \<Rightarrow> ('c holiday_state, unit) py" where
  "full_validation ops parse sector config weekday d now =
     bnd (get_cached_holiday ops (sec_uuid sector) d) (\<lambda>holiday.
     if truthy holiday then validate_holiday ops parse holiday now else
     andthen (check_static_holidays_fast ops parse config d now)
       (if weekday \<in> {6, 7} then validate_schedules ops parse config weekday now else ret ()))"

definition validate_working_hours ::
  "'c cache_ops \<Rightarrow> time_parser \<Rightarrow> sector \<Rightarrow> date \<Rightarrow> int \<Rightarrow> ('c holiday_state, unit) py" where
  "validate_working_hours ops parse sector d now =
     (let config = (case sec_working_day sector of None \<Rightarrow> JObj []
        | Some kvs \<Rightarrow> if kvs = [] then JObj [] else obj_get kvs ''working_hours'' (JObj []))
      in if \<not> truthy config then ret () else
      (let weekday = isoweekday d in
       bnd (lift_result (json_get config ''closed_weekdays'' (JList []))) (\<lambda>closed_weekdays.
       bnd (lift_result (int_in weekday closed_weekdays)) (\<lambda>closed.
       if closed then raise outside else
       if 1 \<le> weekday \<and> weekday \<le> 5 then
         bnd (get_cached_holiday ops (sec_uuid sector) d) (\<lambda>holiday.
         if truthy holiday then validate_holiday ops parse holiday now else
         andthen (check_static_holidays_fast ops parse config d now)
           (validate_schedules ops parse config weekday now))
       else full_validation ops parse sector config weekday d now))))"

text \<open>\<open>Sector.is_attending\<close>.\<close>

definition is_attending ::
  "'c cache_ops \<Rightarrow> time_parser \<Rightarrow> sector \<Rightarrow> date \<Rightarrow> int \<Rightarrow> ('c holiday_state, bool) py" where
  "is_attending ops parse sector d now =
     try_except (andthen (validate_working_hours ops parse sector d now) (ret True)) (\<lambda>_. ret False)"

section \<open>The rule\<close>

text \<open>
  What the validator decides, without caches and with one path for all days of the week: \<open>chain\<close> stops at
  the first exception.
\<close>

definition chain :: "exn + 'a \<Rightarrow> ('a \<Rightarrow> exn + 'b) \<Rightarrow> exn + 'b" where
  "chain r f = (case r of Inl e \<Rightarrow> Inl e | Inr x \<Rightarrow> f x)"

definition demand :: "exn \<Rightarrow> bool \<Rightarrow> exn + unit" where
  "demand e b = (if b then Inr () else Inl e)"

definition time_of :: "time_parser \<Rightarrow> json \<Rightarrow> exn + int" where
  "time_of parse v = (case v of JStr t \<Rightarrow> parse t | _ \<Rightarrow> Inl TypeError)"

definition between :: "time_parser \<Rightarrow> json \<Rightarrow> json \<Rightarrow> int \<Rightarrow> exn + bool" where
  "between parse a b now = chain (time_of parse a) (\<lambda>x. chain (time_of parse b) (\<lambda>y. Inr (x \<le> now \<and> now \<le> y)))"

definition holiday_rule :: "time_parser \<Rightarrow> holiday \<Rightarrow> int \<Rightarrow> exn + unit" where
  "holiday_rule parse h now = (if hol_day_type h = Closed_Day then Inl today_is_holiday
     else case (hol_start_time h, hol_end_time h) of
       (Some a, Some b) \<Rightarrow> chain (between parse (JStr (hhmm a)) (JStr (hhmm b)) now) (demand outside)
     | _ \<Rightarrow> Inr ())"

definition static_rule :: "time_parser \<Rightarrow> json \<Rightarrow> int \<Rightarrow> exn + unit" where
  "static_rule parse cfg now = chain (json_get cfg ''closed'' (JBool True)) (\<lambda>closed.
     if truthy closed then Inl outside else
     chain (json_get cfg ''start'' JNull) (\<lambda>a. chain (json_get cfg ''end'' JNull) (\<lambda>b.
     if truthy a \<and> truthy b then chain (between parse a b now) (demand outside_holiday_hours) else Inr ())))"

definition static_holiday :: "json \<Rightarrow> date \<Rightarrow> exn + json" where
  "static_holiday config d = chain (json_get config ''static_holidays'' (JObj [])) (\<lambda>holidays.
     if \<not> truthy holidays then Inr JNull else
     chain (json_get holidays (isoformat d) JNull) (\<lambda>dated.
     if truthy dated then Inr dated else json_get holidays (month_day d) JNull))"

definition interval_rule :: "time_parser \<Rightarrow> int \<Rightarrow> json \<Rightarrow> bool" where
  "interval_rule parse now x \<longleftrightarrow> (\<exists>a b. json_get x ''start'' JNull = Inr a \<and> json_get x ''end'' JNull = Inr b \<and>
     truthy a \<and> truthy b \<and> between parse a b now = Inr True)"

definition day_rule :: "time_parser \<Rightarrow> json \<Rightarrow> int \<Rightarrow> exn + unit" where
  "day_rule parse day_cfg now = (case day_cfg of
     JObj kvs \<Rightarrow> (let a = obj_get kvs ''start'' JNull; b = obj_get kvs ''end'' JNull in
       if truthy a \<and> truthy b then chain (between parse a b now) (demand outside) else Inl outside)
   | JList xs \<Rightarrow> demand outside (\<exists>x\<in>set xs. interval_rule parse now x)
   | _ \<Rightarrow> Inl outside)"

definition hours_rule :: "time_parser \<Rightarrow> holiday list \<Rightarrow> sector \<Rightarrow> date \<Rightarrow> int \<Rightarrow> exn + unit" where
  "hours_rule parse rows sector d now =
     (let config = (case sec_working_day sector of None \<Rightarrow> JObj [] | Some kvs \<Rightarrow> obj_get kvs ''working_hours'' (JObj []))
      in if \<not> truthy config then Inr () else
      chain (json_get config ''closed_weekdays'' (JList [])) (\<lambda>closed_weekdays.
      chain (int_in (isoweekday d) closed_weekdays) (\<lambda>closed.
      if closed then Inl outside else
      case holiday_on rows (sec_uuid sector) d of
        Some h \<Rightarrow> holiday_rule parse h now
      | None \<Rightarrow> chain (static_holiday config d) (\<lambda>cfg.
          chain (if truthy cfg then static_rule parse cfg now else Inr ()) (\<lambda>_.
          chain (json_get config ''schedules'' (JObj [])) (\<lambda>schedules.
          chain (json_get schedules (day_name (isoweekday d)) JNull) (\<lambda>day_cfg.
          if day_cfg = JNull then Inl outside else day_rule parse day_cfg now)))))))"

section \<open>What the caches may hold\<close>

definition holiday_entry :: "holiday list \<Rightarrow> uuid \<Rightarrow> date \<Rightarrow> json" where
  "holiday_entry rows sector d = (case holiday_on rows sector d of None \<Rightarrow> JNull | Some h \<Rightarrow> holiday_data h)"

definition coherent :: "'c cache_ops \<Rightarrow> time_parser \<Rightarrow> 'c holiday_state \<Rightarrow> bool" where
  "coherent ops parse s \<longleftrightarrow>
     (\<forall>t v. c_get ops (time_key t) (hol_cache s) = Some v \<longrightarrow> (\<exists>n. v = JInt n \<and> parse t = Inr n)) \<and>
     (\<forall>sector d v. civil d \<longrightarrow> c_get ops (holiday_key sector d) (hol_cache s) = Some v \<longrightarrow>
        v = holiday_entry (hol_rows s) sector d)"

lemma holiday_key_inj: "civil a \<Longrightarrow> civil b \<Longrightarrow> holiday_key x a = holiday_key y b \<longleftrightarrow> x = y \<and> a = b"
  using isoformat_inj by (auto simp: holiday_key_def)

lemma holiday_key_not_time [simp]: "holiday_key x d \<noteq> time_key t" "time_key t \<noteq> holiday_key x d"
  by (simp_all add: holiday_key_def time_key_def)

lemma time_key_inj [simp]: "time_key a = time_key b \<longleftrightarrow> a = b"
  by (simp add: time_key_def)

text \<open>A statement \<open>yields\<close> a result when it gives it from every coherent state with these rows, and
  leaves such a state behind.\<close>

definition yields :: "'c cache_ops \<Rightarrow> time_parser \<Rightarrow> holiday list \<Rightarrow> ('c holiday_state, 'a) py \<Rightarrow> exn + 'a \<Rightarrow> bool" where
  "yields ops parse rows m r \<longleftrightarrow> (\<forall>s. coherent ops parse s \<and> hol_rows s = rows \<longrightarrow>
     (\<exists>s'. m s = (r, s') \<and> coherent ops parse s' \<and> hol_rows s' = rows))"

named_theorems yields_rules "results of the statements of the validator"

lemma yields_ret [yields_rules]: "yields ops parse rows (ret x) (Inr x)"
  by (simp add: yields_def ret_def)

lemma yields_raise [yields_rules]: "yields ops parse rows (raise e) (Inl e)"
  by (simp add: yields_def raise_def)

lemma yields_lift [yields_rules]: "yields ops parse rows (lift_result r) r"
  by (simp add: yields_def lift_result_def)

lemma yields_require [yields_rules]: "yields ops parse rows (require e b) (demand e b)"
  by (simp add: require_def demand_def yields_ret yields_raise)

lemma yields_bnd [yields_rules]:
  assumes "yields ops parse rows m r" and "\<And>x. r = Inr x \<Longrightarrow> yields ops parse rows (f x) (g x)"
  shows "yields ops parse rows (bnd m f) (chain r g)"
  using assms unfolding yields_def bnd_def chain_def by (cases r) fastforce+

lemma yields_bnd_Inr:
  "yields ops parse rows m (Inr x) \<Longrightarrow> yields ops parse rows (f x) r \<Longrightarrow> yields ops parse rows (bnd m f) r"
  using yields_bnd [of ops parse rows m "Inr x" f "\<lambda>_. r"] by (simp add: chain_def)

lemma yields_andthen [yields_rules]:
  "yields ops parse rows m r \<Longrightarrow> yields ops parse rows k q \<Longrightarrow> yields ops parse rows (andthen m k) (chain r (\<lambda>_. q))"
  unfolding andthen_def by (rule yields_bnd)

lemma yields_if [yields_rules]:
  "(b \<Longrightarrow> yields ops parse rows m r) \<Longrightarrow> (\<not> b \<Longrightarrow> yields ops parse rows k q) \<Longrightarrow>
   yields ops parse rows (if b then m else k) (if b then r else q)"
  by simp

lemma yields_default:
  "yields ops parse rows m r \<Longrightarrow>
   yields ops parse rows (try_except m (\<lambda>_. ret y)) (case r of Inl e \<Rightarrow> Inr y | Inr x \<Rightarrow> Inr x)"
  unfolding yields_def try_except_def ret_def by (cases r) fastforce+

lemma yields_eq: "yields ops parse rows m r \<Longrightarrow> r = q \<Longrightarrow> yields ops parse rows m q"
  by simp

lemma yields_time_value:
  assumes "cache_backend ops"
  shows "yields ops parse rows (time_value ops parse v) (time_of parse v)"
proof (cases v)
  case (JStr t)
  have "\<exists>s'. parse_time_cached ops parse t s = (parse t, s') \<and> coherent ops parse s' \<and> hol_rows s' = rows"
    if s: "coherent ops parse s" "hol_rows s = rows" for s
  proof (cases "c_get ops (time_key t) (hol_cache s)")
    case None
    show ?thesis
    proof (cases "parse t")
      case (Inl e)
      with None s show ?thesis by (simp add: parse_time_cached_def)
    next
      case (Inr n)
      with None s cache_backend.get_set [OF assms] show ?thesis
        by (auto simp: parse_time_cached_def coherent_def ttl_ok_def)
    qed
  next
    case (Some w)
    with s obtain n where "w = JInt n" "parse t = Inr n" unfolding coherent_def by blast
    with Some s show ?thesis by (simp add: parse_time_cached_def)
  qed
  then show ?thesis by (simp add: JStr yields_def time_value_def time_of_def)
qed (simp_all add: time_value_def time_of_def yields_raise)

lemma yields_within:
  assumes "cache_backend ops"
  shows "yields ops parse rows (within ops parse a b now) (between parse a b now)"
  unfolding within_def between_def by (intro yields_rules yields_time_value assms)

lemma yields_cached_holiday:
  assumes "cache_backend ops" and "civil d"
  shows "yields ops parse rows (get_cached_holiday ops sector d) (Inr (holiday_entry rows sector d))"
  unfolding yields_def
proof (intro allI impI, elim conjE)
  fix s
  assume s: "coherent ops parse s" "hol_rows s = rows"
  show "\<exists>s'. get_cached_holiday ops sector d s = (Inr (holiday_entry rows sector d), s') \<and>
      coherent ops parse s' \<and> hol_rows s' = rows"
  proof (cases "c_get ops (holiday_key sector d) (hol_cache s)")
    case None
    with s cache_backend.get_set [OF assms(1)] assms(2) show ?thesis
      by (auto simp: get_cached_holiday_def holiday_entry_def coherent_def ttl_ok_def holiday_key_inj Let_def)
  next
    case (Some v)
    with s assms(2) have "v = holiday_entry rows sector d" unfolding coherent_def by blast
    with Some s show ?thesis by (simp add: get_cached_holiday_def)
  qed
qed

section \<open>The validator follows the rule\<close>

lemma hhmm_nonempty [simp]: "hhmm t \<noteq> []"
  by (simp add: hhmm_def pad2_def)

lemma yields_validate_holiday:
  assumes "cache_backend ops"
  shows "yields ops parse rows (validate_holiday ops parse (holiday_data h) now) (holiday_rule parse h now)"
proof (cases "hol_day_type h")
  case Closed_Day
  then show ?thesis
    by (simp add: validate_holiday_def holiday_data_def holiday_rule_def day_type_text_def Let_def yields_raise)
next
  case Custom_Hours
  note defs = validate_holiday_def holiday_data_def holiday_rule_def day_type_text_def obj_get_def Let_def
  show ?thesis
  proof (cases "hol_start_time h = None \<or> hol_end_time h = None")
    case True
    with Custom_Hours show ?thesis
      by (auto simp: defs yields_ret split: option.split)
  next
    case False
    then obtain a b where "hol_start_time h = Some a" "hol_end_time h = Some b" by auto
    with Custom_Hours show ?thesis
      by (auto simp: defs intro!: yields_rules yields_within assms)
  qed
qed

lemma yields_static:
  assumes "cache_backend ops"
  shows "yields ops parse rows (check_static_holidays_fast ops parse config d now)
    (chain (static_holiday config d) (\<lambda>cfg. if truthy cfg then static_rule parse cfg now else Inr ()))"
proof -
  have rule: "yields ops parse rows (validate_static_holiday_fast ops parse cfg now) (static_rule parse cfg now)" for cfg
    unfolding validate_static_holiday_fast_def static_rule_def by (intro yields_rules yields_within assms)
  show ?thesis
    unfolding check_static_holidays_fast_def static_holiday_def
    by (rule yields_eq, (rule yields_rules rule)+) (auto simp: chain_def split: sum.split)
qed

lemma yields_any_interval:
  assumes "cache_backend ops"
  shows "yields ops parse rows (any_interval ops parse now xs) (Inr (\<exists>x\<in>set xs. interval_rule parse now x))"
proof (induction xs)
  case Nil
  show ?case by (simp add: yields_ret)
next
  case (Cons x xs)
  have one: "yields ops parse rows (interval_ok ops parse now x)
      (chain (json_get x ''start'' JNull) (\<lambda>a. chain (json_get x ''end'' JNull) (\<lambda>b.
         if \<not> truthy a \<or> \<not> truthy b then Inr False else between parse a b now)))" (is "yields _ _ _ _ ?r")
    unfolding interval_ok_def by (intro yields_rules yields_within assms)
  have "(case ?r of Inl e \<Rightarrow> Inr False | Inr y \<Rightarrow> Inr y) = Inr (interval_rule parse now x)"
    by (auto simp: interval_rule_def chain_def split: sum.splits)
  from yields_bnd [OF yields_eq [OF yields_default [OF one] this], of "\<lambda>ok. if ok then ret True else any_interval ops parse now xs"
      "\<lambda>ok. if ok then Inr True else Inr (\<exists>x\<in>set xs. interval_rule parse now x)"] Cons.IH
  show ?case by (cases "interval_rule parse now x") (simp_all add: chain_def yields_ret)
qed

lemma yields_schedules:
  assumes "cache_backend ops"
  shows "yields ops parse rows (validate_schedules ops parse config weekday now)
    (chain (json_get config ''schedules'' (JObj [])) (\<lambda>schedules.
     chain (json_get schedules (day_name weekday) JNull) (\<lambda>day_cfg.
     if day_cfg = JNull then Inl outside else day_rule parse day_cfg now)))"
proof -
  have "yields ops parse rows (validate_day_schedules_generic ops parse day_cfg now) (day_rule parse day_cfg now)" for day_cfg
  proof (cases day_cfg)
    case (JList xs)
    have "yields ops parse rows (bnd (any_interval ops parse now xs) (require outside))
        (chain (Inr (\<exists>x\<in>set xs. interval_rule parse now x)) (demand outside))"
      by (intro yields_rules yields_any_interval assms)
    then show ?thesis by (simp add: JList validate_day_schedules_generic_def day_rule_def chain_def)
  next
    case (JObj kvs)
    then show ?thesis
      by (auto simp: validate_day_schedules_generic_def day_rule_def Let_def intro!: yields_rules yields_within assms)
  qed (simp_all add: validate_day_schedules_generic_def day_rule_def yields_raise)
  then show ?thesis unfolding validate_schedules_def by (intro yields_rules)
qed

lemma isoweekday_range: "isoweekday d \<in> {1, 2, 3, 4, 5, 6, 7}"
proof -
  have "toordinal d mod 7 < 7" by simp
  then show ?thesis by (auto simp: isoweekday_def)
qed

lemma yields_day:
  assumes "cache_backend ops" and "civil d"
  shows "yields ops parse rows
    (bnd (get_cached_holiday ops (sec_uuid sector) d) (\<lambda>holiday.
       if truthy holiday then validate_holiday ops parse holiday now else
       andthen (check_static_holidays_fast ops parse config d now)
         (validate_schedules ops parse config (isoweekday d) now)))
    (case holiday_on rows (sec_uuid sector) d of
       Some h \<Rightarrow> holiday_rule parse h now
     | None \<Rightarrow> chain (static_holiday config d) (\<lambda>cfg.
         chain (if truthy cfg then static_rule parse cfg now else Inr ()) (\<lambda>_.
         chain (json_get config ''schedules'' (JObj [])) (\<lambda>schedules.
         chain (json_get schedules (day_name (isoweekday d)) JNull) (\<lambda>day_cfg.
         if day_cfg = JNull then Inl outside else day_rule parse day_cfg now)))))"
    (is "yields _ _ _ (bnd ?m ?f) ?r")
proof -
  have "yields ops parse rows (?f (holiday_entry rows (sec_uuid sector) d)) ?r"
  proof (cases "holiday_on rows (sec_uuid sector) d")
    case None
    have assoc: "chain (chain (a :: exn + json) b) c = chain a (\<lambda>x. chain (b x) c)" for a b c
      by (simp add: chain_def split: sum.split)
    from yields_andthen [OF yields_static [OF assms(1)] yields_schedules [OF assms(1)]] None
    show ?thesis by (simp add: holiday_entry_def assoc)
  next
    case (Some h)
    moreover have "truthy (holiday_data h)" by (simp add: holiday_data_def Let_def)
    ultimately show ?thesis by (simp add: holiday_entry_def yields_validate_holiday assms(1))
  qed
  then show ?thesis by (rule yields_bnd_Inr [OF yields_cached_holiday [OF assms]])
qed

lemma yields_working_hours:
  assumes "cache_backend ops" and "civil d"
  shows "yields ops parse rows (validate_working_hours ops parse sector d now) (hours_rule parse rows sector d now)"
proof -
  let ?config = "case sec_working_day sector of None \<Rightarrow> JObj [] | Some kvs \<Rightarrow> obj_get kvs ''working_hours'' (JObj [])"
  have config: "(case sec_working_day sector of None \<Rightarrow> JObj []
      | Some kvs \<Rightarrow> if kvs = [] then JObj [] else obj_get kvs ''working_hours'' (JObj [])) = ?config"
    by (simp add: obj_get_def split: option.split)
  have paths: "(if 1 \<le> isoweekday d \<and> isoweekday d \<le> 5 then m
      else full_validation ops parse sector ?config (isoweekday d) d now) = m"
    if "m = bnd (get_cached_holiday ops (sec_uuid sector) d) (\<lambda>holiday.
       if truthy holiday then validate_holiday ops parse holiday now else
       andthen (check_static_holidays_fast ops parse ?config d now)
         (validate_schedules ops parse ?config (isoweekday d) now))" for m
    using isoweekday_range [of d] that by (auto simp: full_validation_def)
  show ?thesis
    unfolding validate_working_hours_def hours_rule_def config Let_def paths [OF refl] if_not_P
    by (intro yields_rules yields_day assms)
qed

text \<open>C14. Whether a contact may open a room now follows one rule for all days of the week, whatever the
  caches hold as long as they are coherent with the holidays and the time parser, and the validator
  leaves them coherent: the closed weekdays, then the first holiday that covers the day, else the
  configured holiday of the date or of the day of the year, then the intervals of the day.\<close>

theorem working_hours_follow_rule:
  assumes "cache_backend ops" and "civil d" and "coherent ops parse s"
  shows "\<exists>s'. validate_working_hours ops parse sector d now s = (hours_rule parse (hol_rows s) sector d now, s') \<and>
    hol_rows s' = hol_rows s \<and> coherent ops parse s'"
  using yields_working_hours [OF assms(1,2), of parse "hol_rows s" sector now] assms(3)
  unfolding yields_def by blast

section \<open>Saving a holiday\<close>

lemma get_invalidated:
  assumes "cache_backend ops"
  shows "c_get ops k (invalidate_holiday_cache ops h c) =
    (if \<exists>d\<in>set (iter_dates h). k = holiday_key (hol_sector h) d then None else c_get ops k c)"
proof -
  have "c_get ops k (fold (\<lambda>d. snd \<circ> c_delete ops (holiday_key (hol_sector h) d)) ds c) =
      (if \<exists>d\<in>set ds. k = holiday_key (hol_sector h) d then None else c_get ops k c)" for ds
    by (induction ds arbitrary: c) (auto simp: cache_backend.get_delete [OF assms])
  then show ?thesis by (simp add: invalidate_holiday_cache_def)
qed

definition covered_days :: "holiday \<Rightarrow> date set" where
  "covered_days h = {d. hol_date h \<le> d \<and> d \<le> last_day h}"

lemma covers_day: "covers sector d h \<Longrightarrow> hol_date h \<le> last_day h \<Longrightarrow> sector = hol_sector h \<and> d \<in> covered_days h"
  by (auto simp: covers_def covered_days_def last_day_def split: option.splits)

lemma filter_put_holiday:
  assumes "\<not> P h" and "\<And>x. x \<in> set rows \<Longrightarrow> hol_uuid x = hol_uuid h \<Longrightarrow> \<not> P x"
  shows "filter P (put_holiday h rows) = filter P rows"
proof -
  have "filter P (update_where (\<lambda>x. hol_uuid x = hol_uuid h) (\<lambda>_. h) xs) = filter P xs"
    if "\<And>x. x \<in> set xs \<Longrightarrow> hol_uuid x = hol_uuid h \<Longrightarrow> \<not> P x" for xs
    using that by (induction xs) (auto simp: assms(1))
  then show ?thesis using assms by (simp add: put_holiday_def)
qed

text \<open>Saving a holiday keeps the caches coherent when its range is not reversed and every row it
  replaces lay in the same sector within the new range: the keys of all days whose answer can change are
  deleted.\<close>

theorem saved_holiday_keeps_cache:
  assumes "cache_backend ops" and "coherent ops parse s"
    and "valid_date (hol_date h)" "valid_date (last_day h)" "hol_date h \<le> last_day h"
    and "\<And>x. x \<in> set (hol_rows s) \<Longrightarrow> hol_uuid x = hol_uuid h \<Longrightarrow>
      hol_sector x = hol_sector h \<and> hol_date x \<le> last_day x \<and> covered_days x \<subseteq> covered_days h"
  shows "coherent ops parse (snd (save_holiday ops h s))"
proof (cases "fst (save_holiday ops h s)")
  case (Inl e)
  then have "snd (save_holiday ops h s) = s" by (auto simp: save_holiday_def split: if_splits)
  with assms(2) show ?thesis by simp
next
  case (Inr u)
  then have s': "snd (save_holiday ops h s) = s\<lparr>hol_rows := put_holiday h (hol_rows s),
      hol_cache := invalidate_holiday_cache ops h (hol_cache s)\<rparr>"
    by (auto simp: save_holiday_def split: if_splits)
  have entry: "holiday_entry (put_holiday h (hol_rows s)) sector d = holiday_entry (hol_rows s) sector d"
    if "civil d" and away: "sector \<noteq> hol_sector h \<or> d \<notin> covered_days h" for sector d
  proof -
    have "\<not> covers sector d h" using covers_day assms(5) away by blast
    moreover have "\<not> covers sector d x" if "x \<in> set (hol_rows s)" "hol_uuid x = hol_uuid h" for x
      using covers_day [of sector d x] assms(6) [OF that] away by auto
    ultimately have "filter (covers sector d) (put_holiday h (hol_rows s)) = filter (covers sector d) (hol_rows s)"
      by (rule filter_put_holiday)
    then show ?thesis by (simp add: holiday_entry_def holiday_on_def)
  qed
  have "v = holiday_entry (put_holiday h (hol_rows s)) sector d"
    if d: "civil d" and v: "c_get ops (holiday_key sector d) (invalidate_holiday_cache ops h (hol_cache s)) = Some v"
    for sector d v
  proof -
    have kept: "\<not> (\<exists>e\<in>set (iter_dates h). holiday_key sector d = holiday_key (hol_sector h) e)"
      and old: "c_get ops (holiday_key sector d) (hol_cache s) = Some v"
      using v by (simp_all add: get_invalidated [OF assms(1)] split: if_splits)
    have "sector \<noteq> hol_sector h \<or> d \<notin> covered_days h"
    proof (rule ccontr)
      assume "\<not> ?thesis"
      then have "d \<in> set (iter_dates h)" "sector = hol_sector h"
        using d assms(3,4) by (auto simp: iter_dates_def set_days_between covered_days_def civil_def)
      with kept show False by blast
    qed
    with entry [OF d] old d assms(2) show ?thesis unfolding coherent_def by auto
  qed
  moreover have "\<exists>n. v = JInt n \<and> parse t = Inr n"
    if "c_get ops (time_key t) (invalidate_holiday_cache ops h (hol_cache s)) = Some v" for t v
    using that assms(2) unfolding coherent_def by (auto simp: get_invalidated [OF assms(1)])
  ultimately show ?thesis by (simp add: s' coherent_def)
qed

text \<open>A holiday that is moved to other days still closes its old day until the cached answer
  expires: only the days of the new range are taken out of the cache.\<close>

theorem moved_holiday_still_blocks:
  assumes "cache_backend ops" and "civil d" and "hol_day_type old = Closed_Day"
    and "c_get ops (holiday_key (sec_uuid sector) d) (hol_cache s) = Some (holiday_data old)"
    and "d \<notin> covered_days h" and "civil (last_day h)"
    and "sec_working_day sector = Some kvs" and "obj_get kvs ''working_hours'' (JObj []) = JObj (c # cs)"
    and "obj_get (c # cs) ''closed_weekdays'' (JList []) = JList []"
  shows "fst (validate_working_hours ops parse sector d now (snd (save_holiday ops h s))) = Inl today_is_holiday"
proof -
  let ?s = "snd (save_holiday ops h s)"
  have "d \<notin> set (iter_dates h)"
    using assms(5) days_between_valid by (auto simp: iter_dates_def covered_days_def)
  then have "\<not> (\<exists>e\<in>set (iter_dates h). holiday_key (sec_uuid sector) d = holiday_key (hol_sector h) e)"
    using assms(2,6) holiday_key_inj days_between_civil unfolding iter_dates_def by blast
  then have "c_get ops (holiday_key (sec_uuid sector) d) (hol_cache ?s) = Some (holiday_data old)"
    using assms(4) by (auto simp: save_holiday_def get_invalidated [OF assms(1)])
  then have cached: "get_cached_holiday ops (sec_uuid sector) d ?s = (Inr (holiday_data old), ?s)"
    by (simp add: get_cached_holiday_def)
  have closed: "validate_holiday ops parse (holiday_data old) now = raise today_is_holiday" "truthy (holiday_data old)"
    using assms(3) by (simp_all add: validate_holiday_def holiday_data_def day_type_text_def Let_def)
  have "kvs \<noteq> []" using assms(8) by (auto simp: obj_get_def)
  then show ?thesis
    using isoweekday_range [of d] assms(7,8,9) closed
    by (auto simp: run_Inr(1) [where m = "get_cached_holiday ops (sec_uuid sector) d" and s = ?s, OF cached]
        validate_working_hours_def full_validation_def json_get_def int_in_def Let_def run_lift raise_def)
qed

section \<open>Concrete runs\<close>

text \<open>A sector that is open from nine to six on Mondays, with times read as written.\<close>

definition monday_sector :: sector where
  "monday_sector = blank_sector\<lparr>sec_uuid := ''s'', sec_working_day := Some [(''working_hours'',
     JObj [(''schedules'', JObj [(''monday'', JList [JObj [(''start'', JStr ''09:00''), (''end'', JStr ''18:00'')]])])])]\<rparr>"

definition clock :: time_parser where
  "clock t = (if t = ''09:00'' then Inr (540 * minute) else if t = ''18:00'' then Inr (1080 * minute)
     else Inl ParserError)"

definition no_holidays :: "mem_cache holiday_state" where
  "no_holidays = \<lparr>hol_rows = [], hol_cache = mem_empty\<rparr>"

lemma coherent_empty: "coherent mem_ops parse \<lparr>hol_rows = rows, hol_cache = mem_empty\<rparr>"
  by (simp add: coherent_def mem_ops_def mem_get_def mem_empty_def)

lemma civil_new_year: "civil new_year"
  by (simp add: civil_def valid_date_def new_year_def days_in_month_def)

lemma new_year_monday: "isoweekday new_year = 1"
  by (simp add: isoweekday_def toordinal_def days_before_year_def days_before_month_def new_year_def)

theorem working_hours_follow_rule_witness:
  "fst (validate_working_hours mem_ops clock monday_sector new_year (600 * minute) no_holidays) = Inr ()"
proof -
  have "hours_rule clock [] monday_sector new_year (600 * minute) = Inr ()"
    by (simp add: hours_rule_def new_year_monday monday_sector_def obj_get_def json_get_def int_in_def chain_def
        holiday_on_def static_holiday_def day_rule_def day_name_def interval_rule_def between_def time_of_def
        clock_def minute_def demand_def Let_def)
  then show ?thesis
    using working_hours_follow_rule [where parse = clock and sector = monday_sector and now = "600 * minute",
        OF mem.cache_backend_axioms civil_new_year coherent_empty, of "[]"]
    by (auto simp: no_holidays_def)
qed

theorem saved_holiday_keeps_cache_witness:
  "coherent mem_ops clock (snd (save_holiday mem_ops short_day no_holidays))"
  using civil_new_year
  by (intro saved_holiday_keeps_cache mem.cache_backend_axioms)
    (simp_all add: no_holidays_def coherent_empty civil_def short_day_def last_day_def closed_holiday_def)

text \<open>New Year's Day was closed and is moved to the second of January.\<close>

definition moved_day :: holiday where
  "moved_day = closed_holiday ''h1'' ''s'' (Date 2024 1 2) ''New year''"

definition closed_once :: "mem_cache holiday_state" where
  "closed_once = \<lparr>hol_rows = [closed_holiday ''h1'' ''s'' new_year ''New year''],
     hol_cache = mem_set (holiday_key ''s'' new_year)
       (holiday_data (closed_holiday ''h1'' ''s'' new_year ''New year'')) (Some 300) mem_empty\<rparr>"

theorem moved_holiday_still_blocks_witness:
  "fst (validate_working_hours mem_ops clock monday_sector new_year (600 * minute)
      (snd (save_holiday mem_ops moved_day closed_once))) = Inl today_is_holiday"
proof (rule moved_holiday_still_blocks [OF mem.cache_backend_axioms civil_new_year,
      where old = "closed_holiday ''h1'' ''s'' new_year ''New year''" and cs = "[]" and
      c = "(''schedules'', JObj [(''monday'', JList [JObj [(''start'', JStr ''09:00''), (''end'', JStr ''18:00'')]])])"])
  show "sec_working_day monday_sector = Some [(''working_hours'', JObj [(''schedules'', JObj [(''monday'',
      JList [JObj [(''start'', JStr ''09:00''), (''end'', JStr ''18:00'')]])])])]"
    by (simp add: monday_sector_def)
  show "c_get mem_ops (holiday_key (sec_uuid monday_sector) new_year) (hol_cache closed_once) =
      Some (holiday_data (closed_holiday ''h1'' ''s'' new_year ''New year''))"
    by (simp add: monday_sector_def closed_once_def mem_ops_def mem_get_set ttl_ok_def)
qed (simp_all add: moved_day_def closed_holiday_def last_day_def covered_days_def new_year_def civil_def
    valid_date_def days_in_month_def less_eq_date_def obj_get_def)

end
