(* ===== verification/Spec2Isabelle.thy ===== *)
theory Spec2Isabelle
  imports Status_Log Agent_Status Agent_Connections Message_Replies Agent_Messages Bulk_Sends Discussions Group_Sectors Room_API Metric_Goals Open_Rooms Archive_Chats Working_Hours Phone_Search Chats_Prelude Cache_Backend Chats_Data In_Service Rooms Queue_Routing Route_Locks Room_Metrics_Calc Bulk_Ops Inactivity
begin

text \<open>
  A verification library for the core of \<open>chats-engine\<close>, the Django application that queues the
  conversations of contacts, gives them to human agents and keeps what was said (\<open>src/chats\<close>).

  \<^bold>\<open>The program.\<close> A contact opens a \<^emph>\<open>room\<close> in a \<^emph>\<open>queue\<close> of a \<^emph>\<open>sector\<close> of a \<^emph>\<open>project\<close>. Routing gives the
  room to an online agent with a free place, at once or from the queue. Agents pin, transfer, take and close
  rooms, one at a time or in bulk; every change of owner moves the agent's status between online and
  In-Service. A periodic task warns and closes idle rooms, another one archives the messages of old rooms
  and deletes them. Working hours and holidays decide when a room may be opened at all.

  \<^bold>\<open>How code becomes HOL.\<close> A method is a function of type \<open>('s, 'a) py\<close>: from a state to a
  result, an exception (\<open>Inl\<close>) or a value (\<open>Inr\<close>), and the next state. A \<open>raise\<close> leaves the state as it
  is at that point; \<open>atomic\<close> undoes the writes of its block. The tables are lists of records, one record per
  Django model in the order of its columns, and the order of the list is the order an unordered query returns, so a
  theorem about every state holds for every such order. What leaves the process (WebSocket groups, Celery
  tasks, calls of other services) is a trace. What the program finds around it is an argument: the clock,
  the feature flags, \<open>random.choice\<close>, the answers of Redis, Celery, Flows and the broker. Times are integers of
  microseconds.

  \<^bold>\<open>The theories.\<close>

  \<^item> \<open>Chats_Prelude\<close>: exceptions, JSON values, the state-and-exception operations, the integer division of
    Python, table updates, retries, batches. Its locale \<open>step_order\<close> holds the rules by which an
    operation is shown to keep a transitive relation between its states; every component interprets it.
  \<^item> \<open>Cache_Backend\<close>: the interface of the Redis cache as a locale with the laws the clients use, interpreted
    on a list of entries; \<open>expiring_cache\<close> adds times to live and \<open>renewing_cache\<close> what a write does to them.
  \<^item> \<open>Chats_Data\<close>: the models and managers (\<open>apps/*/models.py\<close>, \<open>core/managers.py\<close>), notifications;
    \<open>world_order\<close> extends \<open>step_order\<close> for the tables.
  \<^item> \<open>In_Service\<close>: \<open>apps/projects/usecases/status_service.py\<close>. Each operation refines one step on the list of
    active statuses of an agent; an agent never has two.
  \<^item> \<open>Rooms\<close>: \<open>apps/rooms/models.py\<close>, \<open>apps/rooms/utils.py\<close>, \<open>apps/rooms/views.py\<close>. What \<open>save\<close> and \<open>close\<close> leave in the
    tables, pins stay within the limit, the retries of the callback.
  \<^item> \<open>Queue_Routing\<close>: \<open>apps/queues/models.py\<close>, \<open>services.py\<close>, \<open>utils.py\<close>, \<open>usecases\<close> and
    \<open>apps/rooms/usecases/resolve_room_user.py\<close>. Who is available, the least loaded agent, the run over a queue:
    within the limits and in order.
  \<^item> \<open>Route_Locks\<close>: \<open>apps/queues/tasks.py\<close>. The routing tasks over the cache interface, as one call and as the start
    and the end of a run; while a worker holds the lock in time, a task that is called defers and changes nothing, by
    rule induction over the events of workers, and where this ends.
  \<^item> \<open>Room_Metrics_Calc\<close>: \<open>apps/dashboard/utils.py\<close> and \<open>tasks.py\<close>. The response-time loop equals the mean of the answers.
  \<^item> \<open>Bulk_Ops\<close>: \<open>apps/api/v1/rooms/services\<close>. Each bulk operation reports every room once and truthfully.
  \<^item> \<open>Inactivity\<close>: \<open>apps/rooms/usecases/inactivity.py\<close>, \<open>apps/sectors/services.py\<close>, \<open>apps/rooms/tasks.py\<close>. What a
    pass may warn or close, the wait for the ticket.
  \<^item> \<open>Phone_Search\<close>: \<open>core/phone.py\<close>, \<open>core/filters.py\<close>. Parsing of numbers with its round trip, the search filter
    against its specification.
  \<^item> \<open>Calendar\<close>, \<open>Sector_Holidays\<close>, \<open>Working_Hours\<close>: dates with a linear order, \<open>apps/sectors/models.py\<close>, the
    holidays of \<open>apps/api/v1/sectors/viewsets.py\<close> and \<open>apps/sectors/utils.py\<close>. The cached validator refines one rule.
  \<^item> \<open>Archive_Chats\<close>: \<open>apps/archive_chats\<close>. With a failure possible at every commit no message is lost, and from
    every state that failed runs can leave an undisturbed run completes the row unless it is held as being processed.
  \<^item> \<open>Room_Opening\<close>, \<open>Open_Rooms\<close>: \<open>apps/api/v1/external/rooms/serializers.py\<close> and \<open>viewsets.py\<close>. The whole
    request that opens a room, over the working hours, the contact, its flow starts, the agent, the limit of the
    queue and the history; a contact never has two open rooms in a project, and the limit holds.
  \<^item> \<open>Metric_Goals\<close>: \<open>apps/dashboard/services/metric_goal_alerts.py\<close>, \<open>apps/dashboard/tasks.py\<close> and
    \<open>apps/api/v1/dashboard/metric_goals\<close>. A sweep implements two state machines over Redis, whatever the order of
    a scan, and sweeps that come before a flag lapses announce every violation once; the goals stay well formed; widget and sweep count alike.

  \<^item> \<open>Room_API\<close>: \<open>apps/api/v1/rooms/viewsets.py\<close> and \<open>serializers.py\<close>, \<open>apps/api/v1/permissions.py\<close>. The
    requests of agents on rooms over \<open>Rooms\<close> and \<open>Bulk_Ops\<close>: who may act, where a transfer puts a room, that a pick
    takes no room away, what a close leaves behind, that the status of a bulk request is true.
  \<^item> \<open>Group_Sectors\<close>: \<open>apps/sectors/usecases/group_sector_authorization.py\<close>, its view sets and the signal of a
    deleted permission. Over a contract of the tables of authorizations: managers of a group stay authorized in its
    sectors, except those a request stored with a role that is text; adding and removing a manager cancel out, removing and adding a sector do not.
  \<^item> \<open>Discussions\<close>: \<open>apps/discussions\<close>. Its requests over three tables of its own: one active discussion per room, who
    may add whom, when a discussion leaves its queue, what a request from outside the project leaves behind, and the
    copies that an update of the key makes.
  \<^item> \<open>Bulk_Sends\<close>: \<open>apps/msgs/usecases\<close> and \<open>apps/msgs/tasks.py\<close>. A bulk send and its Celery tasks, run by workers in any
    order, with waits, sweeps and other transactions in between: where the broker accepts the tasks and no room comes or goes
    between the count and the list of a send, the progress tells the truth and every send ends; the tasks run out in any
    case. It uses the locale \<open>expiring_cache\<close> of \<open>Cache_Backend\<close>, which adds times to live.
  \<^item> \<open>Agent_Messages\<close>: \<open>apps/msgs/usecases/create_agent_message.py\<close>, its validators and serializers, and the REST views of
    \<open>api/v1/msgs\<close>. Who may write and what a message leaves behind; repeated requests interleave between their uses of
    Redis, and write one message, within the time to live of a claim and while broker and Redis answer.
  \<^item> \<open>Message_Replies\<close>: \<open>apps/msgs/utils.py\<close>, the index of replies, \<open>set_msg_external_id.py\<close>,
    \<open>UpdateStatusMessageUseCase.py\<close> and \<open>api/v1/external/msgs\<close>. What a WhatsApp id identifies, with a decoder of base64
    against its encoder; replies find their message; statuses in batches are statuses one by one; messages that arrive.
  \<^item> \<open>Agent_Connections\<close>: \<open>api/websockets/rooms/consumers/agent.py\<close> and \<open>manager.py\<close>. Connections, groups of the
    channel layer, the cache of answers and the database interleave. With the check of
    connections an agent who is heard stays online; one of whom no connection is left is offline, with and without it, by
    an invariant over all reachable states; and where agents are let down.
  \<^item> \<open>Agent_Status\<close>: \<open>status\<close> of \<open>api/v1/internal/projects/viewsets.py\<close>, \<open>CustomStatusViewSet\<close> of
    \<open>api/v1/projects/viewsets.py\<close> and \<open>api/v1/internal/agents\<close>. Going online and offline, breaks and disconnections;
    through all of them nobody is online on a break.
  \<^item> \<open>Status_Log\<close>: \<open>log_agent_status_change\<close> of \<open>apps/projects/tasks.py\<close> and \<open>api/v1/external/agents/calculator.py\<close>. The
    daily log is well formed after any history of reports, in whatever order overlapping tasks write; under one offset and
    in the order of the clocks the online time computed from it is the time under an online report. The stretches the
    report loses or invents are lemmas.

  \<^bold>\<open>Bounds and termination.\<close> No definition runs on fuel that is not in the code. The retries of callbacks, notifications and
  of the ticket are the counters of the code; the pages of the archive and the batches of the deletion
  terminate because each makes the rest shorter, which is proved; that the tasks of a bulk send, which enqueue each other,
  run out is a theorem over all schedules; days are walked by \<open>function\<close> with a measure. Python
  integers and PostgreSQL integers are \<open>int\<close> and \<open>nat\<close>; no counter of the code depends on a width.

  \<^bold>\<open>Not modelled.\<close> Two requests interleave only where a theory says so: as other transactions in a
  routing run, as workers of the routing tasks between the start and the end of their runs, as sweeps of the metric goals
  and runs of the archive one after the other, as status tasks in the order of their writes, as the tasks of a bulk send, as repeated requests for a message, and as the connections of agents. Serializers
  of payloads, view sets beyond the ones named, the sockets of contacts, reports and dashboards, CSAT, AI
  features, the listings of rooms and the clients of other services are not modelled: they
  read or forward what the modelled parts keep. The list of components beside this library names each.
\<close>

end
